(* ===== verification/Prelude.thy ===== *)
theory Prelude
  imports Main "HOL-Library.Word"
begin

text \<open>
  Shared vocabulary of the development: machine-integer helpers on \<open>nat\<close> and \<open>int\<close> with
  the wrap-around written out, the error levels of \<open>zend_accelerator_debug.c\<close>, and
  generic lemmas on lists, sums and options that several components use.

  The configuration modelled throughout is the one the preprocessor selects on 64-bit
  Linux (LP64) for a non-thread-safe PHP whose \<open>ZEND_EXTENSION_API_NO\<close> is that of
  PHP 5.5 (\<open>PHP_5_5_X_API_NO\<close>).
\<close>

named_theorems smm_simps "facts about the shared-memory allocator"
named_theorems hash_simps "facts about the accelerator hash table"
named_theorems op_simps "facts about opcodes and operands"

section \<open>Machine integers\<close>

definition two32 :: nat where "two32 = 2 ^ 32"
definition two64 :: nat where "two64 = 2 ^ 64"

text \<open>Unsigned subtraction of \<open>size_t\<close> values, with the wrap-around of C.\<close>

definition sub64 :: "nat \<Rightarrow> nat \<Rightarrow> nat" where
  "sub64 a b = (a + (two64 - b mod two64)) mod two64"

lemma sub64_le: "b \<le> a \<Longrightarrow> a < two64 \<Longrightarrow> sub64 a b = a - b"
proof -
  assume "b \<le> a" and "a < two64"
  then have "a + (two64 - b mod two64) = (a - b) + two64" by simp
  with \<open>a < two64\<close> show ?thesis by (simp add: sub64_def)
qed

text \<open>Conversion of an unsigned value to the 32-bit \<open>int\<close> it is stored in, and back to
  \<open>size_t\<close> (sign extension).\<close>

definition to_int32 :: "nat \<Rightarrow> int" where
  "to_int32 n = (let m = n mod two32 in if m < 2 ^ 31 then int m else int m - int two32)"

definition int_to_size :: "int \<Rightarrow> nat" where
  "int_to_size i = nat (i mod int two64)"

lemma int_to_size_to_int32: "n < 2 ^ 31 \<Longrightarrow> int_to_size (to_int32 n) = n"
  by (simp add: int_to_size_def to_int32_def two32_def two64_def Let_def)

text \<open>A \<open>long\<close> stored in an \<open>int\<close>.\<close>

definition int32 :: "int \<Rightarrow> int" where
  "int32 i = (i + 2 ^ 31) mod 2 ^ 32 - 2 ^ 31"

section \<open>Error levels\<close>

text \<open>
  \<open>zend_accel_error\<close> returns at once when the message's level is above
  \<open>log_verbosity_level\<close>; otherwise an \<open>ACCEL_LOG_ERROR\<close> ends in \<open>zend_bailout()\<close> and an
  \<open>ACCEL_LOG_FATAL\<close> in \<open>exit(-2)\<close>. Both leave the calling function: they are the two
  crash values. The log file itself is not modelled.
\<close>

datatype log_level = ACCEL_LOG_FATAL | ACCEL_LOG_ERROR | ACCEL_LOG_WARNING | ACCEL_LOG_INFO | ACCEL_LOG_DEBUG

datatype crash = Zend_Bailout | Exit_Process

fun log_type :: "log_level \<Rightarrow> int" where
  "log_type ACCEL_LOG_FATAL = 0"
| "log_type ACCEL_LOG_ERROR = 1"
| "log_type ACCEL_LOG_WARNING = 2"
| "log_type ACCEL_LOG_INFO = 3"
| "log_type ACCEL_LOG_DEBUG = 4"

definition zend_accel_error :: "int \<Rightarrow> log_level \<Rightarrow> crash option" where
  "zend_accel_error verbosity lvl =
     (if log_type lvl > verbosity then None
      else case lvl of
        ACCEL_LOG_ERROR \<Rightarrow> Some Zend_Bailout
      | ACCEL_LOG_FATAL \<Rightarrow> Some Exit_Process
      | _ \<Rightarrow> None)"

lemma zend_accel_error_quiet [simp]:
  "zend_accel_error v ACCEL_LOG_WARNING = None"
  "zend_accel_error v ACCEL_LOG_INFO = None"
  "zend_accel_error v ACCEL_LOG_DEBUG = None"
  by (simp_all add: zend_accel_error_def)

section \<open>Lists\<close>

lemma sum_list_update_nat:
  fixes f :: "'a \<Rightarrow> nat"
  assumes "i < length xs"
  shows "(\<Sum>x\<leftarrow>xs[i := y]. f x) + f (xs ! i) = (\<Sum>x\<leftarrow>xs. f x) + f y"
  using assms
proof (induction xs arbitrary: i)
  case Nil
  then show ?case by simp
next
  case (Cons a xs)
  then show ?case by (cases i) auto
qed

lemma elem_le_sum_list_map: "x \<in> set xs \<Longrightarrow> f x \<le> (\<Sum>y\<leftarrow>xs. (f y :: nat))"
  by (induction xs) auto

text \<open>A property of some element of a list, and of a list updated at one index, split at
  that index.\<close>

lemma bex_nth_split:
  assumes "i < length xs"
  shows "(\<exists>x \<in> set xs. P x) \<longleftrightarrow> P (xs ! i) \<or> (\<exists>j < length xs. j \<noteq> i \<and> P (xs ! j))"
proof -
  have "(\<exists>x \<in> set xs. P x) \<longleftrightarrow> (\<exists>j < length xs. P (xs ! j))"
    by (metis in_set_conv_nth)
  with assms show ?thesis by auto
qed

lemma bex_list_update:
  assumes "i < length xs"
  shows "(\<exists>x \<in> set (xs[i := y]). P x) \<longleftrightarrow> P y \<or> (\<exists>j < length xs. j \<noteq> i \<and> P (xs ! j))"
proof -
  have "(\<exists>x \<in> set (xs[i := y]). P x) \<longleftrightarrow> (\<exists>j < length xs. P (xs[i := y] ! j))"
    by (metis in_set_conv_nth length_list_update)
  also have "\<dots> \<longleftrightarrow> (\<exists>j < length xs. if j = i then P y else P (xs ! j))"
    by (rule ex_cong1) (auto simp: nth_list_update)
  also have "\<dots> \<longleftrightarrow> P y \<or> (\<exists>j < length xs. j \<noteq> i \<and> P (xs ! j))"
    using assms by auto
  finally show ?thesis .
qed

end
