(* ===== verification/Shared_Alloc.thy ===== *)
theory Shared_Alloc
  imports Prelude
begin

text \<open>
  The shared-memory manager of \<open>zend_shared_alloc.c\<close>: the segments and their bump
  allocator (\<open>zend_shared_alloc\<close>), the saved state a restart goes back to, and the
  lock flag. Addresses and sizes are the \<open>size_t\<close> values as \<open>nat\<close>, with the two
  conversions of the code (to \<open>unsigned int\<close> in \<open>zend_shared_alloc\<close>, to \<open>int\<close> in
  \<open>zend_shared_alloc_save_state\<close>) written out. The bytes of the segments are a
  function from addresses, so that \<open>memset\<close> is part of the model.
\<close>

section \<open>State\<close>

record zend_shared_segment =
  seg_size :: nat
  seg_pos :: nat
  seg_p :: nat

record smm_shared_globals =
  shared_segments :: "zend_shared_segment list"
  shared_free :: nat
  wasted_shared_memory :: int
  memory_exhausted :: bool
  saved_positions :: "int list"
  saved_shared_free :: nat
  shm_bytes :: "nat \<Rightarrow> 8 word"

definition PLATFORM_ALIGNMENT :: nat where "PLATFORM_ALIGNMENT = 8"

text \<open>\<open>(size + PLATFORM_ALIGNMENT - 1) & ~(PLATFORM_ALIGNMENT - 1)\<close> on \<open>size_t\<close>.\<close>

definition ZEND_ALIGNED_SIZE :: "nat \<Rightarrow> nat" where
  "ZEND_ALIGNED_SIZE sz =
     (let s = (sz + PLATFORM_ALIGNMENT - 1) mod two64
      in s - s mod PLATFORM_ALIGNMENT)"

definition MIN_FREE_MEMORY :: nat where "MIN_FREE_MEMORY = 64 * 1024"

section \<open>Operations\<close>

definition block_free :: "zend_shared_segment \<Rightarrow> nat" where
  "block_free s = sub64 (seg_size s) (seg_pos s)"

fun largest_block :: "nat \<Rightarrow> zend_shared_segment list \<Rightarrow> nat" where
  "largest_block m [] = m"
| "largest_block m (s # ss) =
     largest_block (if block_free s > m then block_free s else m) ss"

definition zend_shared_alloc_get_largest_free_block :: "smm_shared_globals \<Rightarrow> nat" where
  "zend_shared_alloc_get_largest_free_block g = largest_block 0 (shared_segments g)"

definition SHARED_ALLOC_FAILED :: "smm_shared_globals \<Rightarrow> smm_shared_globals" where
  "SHARED_ALLOC_FAILED g =
     (if zend_shared_alloc_get_largest_free_block g < MIN_FREE_MEMORY
      then g\<lparr>memory_exhausted := True\<rparr> else g)"

definition memset :: "(nat \<Rightarrow> 8 word) \<Rightarrow> nat \<Rightarrow> 8 word \<Rightarrow> nat \<Rightarrow> (nat \<Rightarrow> 8 word)" where
  "memset m p c n = (\<lambda>x. if p \<le> x \<and> x < p + n then c else m x)"

fun find_block :: "nat \<Rightarrow> nat \<Rightarrow> zend_shared_segment list \<Rightarrow> nat option" where
  "find_block block_size i [] = None"
| "find_block block_size i (s # ss) =
     (if block_free s \<ge> block_size then Some i else find_block block_size (Suc i) ss)"

text \<open>\<open>verbosity\<close> is \<open>log_verbosity_level\<close>, \<open>locked\<close> is \<open>ZCG(locked)\<close>; a result
  \<open>Inl\<close> is the bailout of the "lock not obtained" error.\<close>

definition zend_shared_alloc ::
  "int \<Rightarrow> bool \<Rightarrow> nat \<Rightarrow> smm_shared_globals \<Rightarrow> crash + (nat option \<times> smm_shared_globals)" where
  "zend_shared_alloc verbosity locked sz g =
     (let block_size = ZEND_ALIGNED_SIZE sz mod two32;
          err = (if \<not> locked then zend_accel_error verbosity ACCEL_LOG_ERROR else None)
      in case err of
        Some c \<Rightarrow> Inl c
      | None \<Rightarrow>
          if block_size > shared_free g then Inr (None, SHARED_ALLOC_FAILED g)
          else (case find_block block_size 0 (shared_segments g) of
            Some i \<Rightarrow>
              (let s = shared_segments g ! i;
                   retval = seg_p s + seg_pos s
               in Inr (Some retval,
                    g\<lparr>shared_segments := (shared_segments g)[i := s\<lparr>seg_pos := seg_pos s + block_size\<rparr>],
                      shared_free := shared_free g - block_size,
                      shm_bytes := memset (shm_bytes g) retval 0 block_size\<rparr>))
          | None \<Rightarrow> Inr (None, SHARED_ALLOC_FAILED g)))"

definition zend_shared_alloc_get_free_memory :: "smm_shared_globals \<Rightarrow> nat" where
  "zend_shared_alloc_get_free_memory g = shared_free g"

definition zend_shared_alloc_save_state :: "smm_shared_globals \<Rightarrow> smm_shared_globals" where
  "zend_shared_alloc_save_state g =
     g\<lparr>saved_positions := map (\<lambda>s. to_int32 (seg_pos s)) (shared_segments g),
       saved_shared_free := shared_free g\<rparr>"

definition zend_shared_alloc_restore_state :: "smm_shared_globals \<Rightarrow> smm_shared_globals" where
  "zend_shared_alloc_restore_state g =
     g\<lparr>shared_segments :=
         map2 (\<lambda>s p. s\<lparr>seg_pos := int_to_size p\<rparr>) (shared_segments g) (saved_positions g),
       shared_free := saved_shared_free g,
       memory_exhausted := False,
       wasted_shared_memory := 0\<rparr>"

section \<open>Alignment\<close>

lemma aligned_mod [smm_simps]: "ZEND_ALIGNED_SIZE sz mod 8 = 0"
  by (simp add: ZEND_ALIGNED_SIZE_def PLATFORM_ALIGNMENT_def Let_def)

lemma aligned_plain:
  assumes "sz + 7 < two64"
  shows "ZEND_ALIGNED_SIZE sz = (sz + 7) - (sz + 7) mod 8"
proof -
  have eq: "sz + 8 - 1 = sz + 7" by simp
  show ?thesis
    using assms unfolding ZEND_ALIGNED_SIZE_def PLATFORM_ALIGNMENT_def Let_def eq by simp
qed

lemma aligned_ge: "sz + 7 < two64 \<Longrightarrow> sz \<le> ZEND_ALIGNED_SIZE sz"
  using mod_less_divisor [of 8 "sz + 7"] by (simp add: aligned_plain)

lemma aligned_lt: "sz + 7 < two64 \<Longrightarrow> ZEND_ALIGNED_SIZE sz < sz + 8"
  by (simp add: aligned_plain less_Suc_eq_le)

lemma aligned_trunc: "sz + 8 \<le> two32 \<Longrightarrow> ZEND_ALIGNED_SIZE sz mod two32 = ZEND_ALIGNED_SIZE sz"
  using aligned_lt [of sz] by (simp add: two32_def two64_def)

lemma block_size_mod8 [smm_simps]: "ZEND_ALIGNED_SIZE sz mod two32 mod 8 = 0"
proof -
  have "(8::nat) dvd two32" by (simp add: two32_def)
  then have "ZEND_ALIGNED_SIZE sz mod two32 mod 8 = ZEND_ALIGNED_SIZE sz mod 8"
    by (rule mod_mod_cancel)
  then show ?thesis by (simp add: aligned_mod)
qed

section \<open>Invariant\<close>

text \<open>
  Every position lies inside its segment and is aligned, the segments are disjoint ranges
  of the address space, and \<open>shared_free\<close> is exactly the room left in the segments.
\<close>

definition seg_ok :: "zend_shared_segment \<Rightarrow> bool" where
  "seg_ok s \<longleftrightarrow> seg_pos s \<le> seg_size s \<and> seg_p s + seg_size s < two64
     \<and> seg_pos s mod 8 = 0 \<and> seg_p s mod 8 = 0"

definition seg_apart :: "zend_shared_segment \<Rightarrow> zend_shared_segment \<Rightarrow> bool" where
  "seg_apart s t \<longleftrightarrow> seg_p s + seg_size s \<le> seg_p t \<or> seg_p t + seg_size t \<le> seg_p s"

definition smm_inv :: "smm_shared_globals \<Rightarrow> bool" where
  "smm_inv g \<longleftrightarrow> list_all seg_ok (shared_segments g)
     \<and> (\<forall>i < length (shared_segments g). \<forall>j < length (shared_segments g).
          i \<noteq> j \<longrightarrow> seg_apart (shared_segments g ! i) (shared_segments g ! j))
     \<and> shared_free g + (\<Sum>s\<leftarrow>shared_segments g. seg_pos s) = (\<Sum>s\<leftarrow>shared_segments g. seg_size s)"

text \<open>The addresses handed out so far.\<close>

definition in_use :: "smm_shared_globals \<Rightarrow> nat \<Rightarrow> bool" where
  "in_use g a \<longleftrightarrow> (\<exists>s \<in> set (shared_segments g). seg_p s \<le> a \<and> a < seg_p s + seg_pos s)"

lemma smm_invD:
  assumes "smm_inv g" and "i < length (shared_segments g)"
  shows "seg_ok (shared_segments g ! i)"
  using assms by (auto simp: smm_inv_def list_all_length)

lemma block_free_ok: "seg_ok s \<Longrightarrow> block_free s = seg_size s - seg_pos s"
  by (simp add: block_free_def seg_ok_def sub64_le)

lemma find_block_Some:
  "find_block b k ss = Some i \<Longrightarrow>
     k \<le> i \<and> i < k + length ss \<and> b \<le> block_free (ss ! (i - k))"
  by (induction b k ss rule: find_block.induct) (fastforce simp: nth_Cons' split: if_splits)+

lemma find_block_None: "find_block b k ss = None \<longleftrightarrow> (\<forall>s \<in> set ss. block_free s < b)"
  by (induction b k ss rule: find_block.induct) auto

lemma largest_block_le: "largest_block m ss < n \<longleftrightarrow> m < n \<and> (\<forall>s \<in> set ss. block_free s < n)"
  by (induction m ss rule: largest_block.induct) auto

lemma sum_pos_le:
  "list_all seg_ok ss \<Longrightarrow> (\<Sum>s\<leftarrow>ss. seg_pos s) \<le> (\<Sum>s\<leftarrow>ss. seg_size s)"
  by (induction ss) (auto simp: seg_ok_def)

lemma free_ge_block:
  assumes "list_all seg_ok ss" and "s \<in> set ss"
  shows "block_free s + (\<Sum>t\<leftarrow>ss. seg_pos t) \<le> (\<Sum>t\<leftarrow>ss. seg_size t)"
  using assms
proof (induction ss)
  case Nil
  then show ?case by simp
next
  case (Cons a ss)
  show ?case
  proof (cases "s = a")
    case True
    with Cons.prems sum_pos_le [of ss] show ?thesis
      by (simp add: block_free_ok) (simp add: seg_ok_def)
  next
    case False
    with Cons have "block_free s + (\<Sum>t\<leftarrow>ss. seg_pos t) \<le> (\<Sum>t\<leftarrow>ss. seg_size t)" by simp
    moreover from Cons.prems have "seg_pos a \<le> seg_size a" by (simp add: seg_ok_def)
    ultimately show ?thesis by simp
  qed
qed

section \<open>The allocator's contract\<close>

text \<open>The three outcomes of a call under the lock, as one equation.\<close>

lemma zend_shared_alloc_locked:
  "zend_shared_alloc v True sz g =
     (let b = ZEND_ALIGNED_SIZE sz mod two32 in
      if b > shared_free g then Inr (None, SHARED_ALLOC_FAILED g)
      else case find_block b 0 (shared_segments g) of
        None \<Rightarrow> Inr (None, SHARED_ALLOC_FAILED g)
      | Some i \<Rightarrow>
          (let s = shared_segments g ! i; retval = seg_p s + seg_pos s
           in Inr (Some retval,
                g\<lparr>shared_segments := (shared_segments g)[i := s\<lparr>seg_pos := seg_pos s + b\<rparr>],
                  shared_free := shared_free g - b,
                  shm_bytes := memset (shm_bytes g) retval 0 b\<rparr>)))"
  by (simp add: zend_shared_alloc_def Let_def)

lemma alloc_success_cases:
  assumes "zend_shared_alloc v True sz g = Inr (Some p, g')"
  obtains i s b where "b = ZEND_ALIGNED_SIZE sz mod two32" and "b \<le> shared_free g"
    and "i < length (shared_segments g)" and "s = shared_segments g ! i"
    and "b \<le> block_free s" and "p = seg_p s + seg_pos s"
    and "g' = g\<lparr>shared_segments := (shared_segments g)[i := s\<lparr>seg_pos := seg_pos s + b\<rparr>],
                shared_free := shared_free g - b,
                shm_bytes := memset (shm_bytes g) p 0 b\<rparr>"
proof -
  let ?b = "ZEND_ALIGNED_SIZE sz mod two32"
  from assms have fr: "\<not> ?b > shared_free g"
    by (auto simp: zend_shared_alloc_locked Let_def)
  from assms fr obtain i where i: "find_block ?b 0 (shared_segments g) = Some i"
    by (auto simp: zend_shared_alloc_locked Let_def split: option.splits)
  from find_block_Some [OF i] have "i < length (shared_segments g)"
    and "?b \<le> block_free (shared_segments g ! i)" by auto
  with assms fr i show thesis
    by (intro that [of ?b i "shared_segments g ! i"])
       (auto simp: zend_shared_alloc_locked Let_def)
qed

lemma smm_inv_alloc_step:
  assumes inv: "smm_inv g" and i: "i < length (shared_segments g)"
    and s: "s = shared_segments g ! i" and b: "b \<le> block_free s" "b mod 8 = 0"
    and bf: "b \<le> shared_free g"
  shows "smm_inv (g\<lparr>shared_segments := (shared_segments g)[i := s\<lparr>seg_pos := seg_pos s + b\<rparr>],
                    shared_free := shared_free g - b, shm_bytes := m\<rparr>)"
proof -
  let ?s' = "s\<lparr>seg_pos := seg_pos s + b\<rparr>"
  have ok: "seg_ok s" using smm_invD [OF inv i] s by simp
  then have "b \<le> seg_size s - seg_pos s" using b by (simp add: block_free_ok)
  with ok b have ok': "seg_ok ?s'" by (auto simp: seg_ok_def mod_add_eq [symmetric])
  have all: "list_all seg_ok ((shared_segments g)[i := ?s'])"
    using inv ok' i unfolding smm_inv_def list_all_length
    by (metis length_list_update nth_list_update)
  have sums: "(\<Sum>t\<leftarrow>(shared_segments g)[i := ?s']. seg_pos t) = (\<Sum>t\<leftarrow>shared_segments g. seg_pos t) + b"
    using sum_list_update_nat [OF i, of seg_pos ?s'] s by simp
  have sizes: "(\<Sum>t\<leftarrow>(shared_segments g)[i := ?s']. seg_size t) = (\<Sum>t\<leftarrow>shared_segments g. seg_size t)"
    using sum_list_update_nat [OF i, of seg_size ?s'] s by simp
  show ?thesis
    using inv all sums sizes bf i s
    by (auto simp: smm_inv_def nth_list_update seg_apart_def)
qed

lemma alloc_inv:
  assumes "smm_inv g" and "zend_shared_alloc v True sz g = Inr (r, g')"
  shows "smm_inv g'"
proof (cases r)
  case None
  with assms show ?thesis
    by (auto simp: zend_shared_alloc_locked Let_def SHARED_ALLOC_FAILED_def smm_inv_def
             split: if_splits option.splits)
next
  case (Some p)
  with assms(2) show ?thesis
    by (auto elim!: alloc_success_cases intro!: smm_inv_alloc_step [OF assms(1)] simp: block_size_mod8)
qed

text \<open>Everything a call leaves alone: the segments' places and sizes, and the saved state.\<close>

lemma alloc_frame:
  assumes "zend_shared_alloc v True sz g = Inr (r, g')"
  shows "map seg_p (shared_segments g') = map seg_p (shared_segments g)"
    and "map seg_size (shared_segments g') = map seg_size (shared_segments g)"
    and "saved_positions g' = saved_positions g"
    and "saved_shared_free g' = saved_shared_free g"
    and "wasted_shared_memory g' = wasted_shared_memory g"
proof -
  have "map seg_p (shared_segments g') = map seg_p (shared_segments g)
    \<and> map seg_size (shared_segments g') = map seg_size (shared_segments g)
    \<and> saved_positions g' = saved_positions g \<and> saved_shared_free g' = saved_shared_free g
    \<and> wasted_shared_memory g' = wasted_shared_memory g"
  proof (cases r)
    case None
    with assms show ?thesis
      by (auto simp: zend_shared_alloc_locked Let_def SHARED_ALLOC_FAILED_def
               split: if_splits option.splits)
  next
    case (Some p)
    with assms show ?thesis
      by (auto elim!: alloc_success_cases simp: map_update list_update_same_conv)
  qed
  then show "map seg_p (shared_segments g') = map seg_p (shared_segments g)"
    and "map seg_size (shared_segments g') = map seg_size (shared_segments g)"
    and "saved_positions g' = saved_positions g"
    and "saved_shared_free g' = saved_shared_free g"
    and "wasted_shared_memory g' = wasted_shared_memory g" by simp_all
qed

lemma in_use_update:
  assumes i: "i < length ss" and s: "s = ss ! i"
  shows "(\<exists>t \<in> set (ss[i := s\<lparr>seg_pos := seg_pos s + b\<rparr>]). seg_p t \<le> a \<and> a < seg_p t + seg_pos t)
     \<longleftrightarrow> (\<exists>t \<in> set ss. seg_p t \<le> a \<and> a < seg_p t + seg_pos t)
         \<or> seg_p s + seg_pos s \<le> a \<and> a < seg_p s + seg_pos s + b"
  unfolding bex_list_update [OF i] bex_nth_split [OF i] s [symmetric] by auto

lemma alloc_in_use:
  assumes "zend_shared_alloc v True sz g = Inr (Some p, g')"
  shows "in_use g' a \<longleftrightarrow> in_use g a \<or> p \<le> a \<and> a < p + ZEND_ALIGNED_SIZE sz mod two32"
  using assms
proof (rule alloc_success_cases)
  fix i s b
  assume "i < length (shared_segments g)" and "s = shared_segments g ! i"
    and "b = ZEND_ALIGNED_SIZE sz mod two32" and "p = seg_p s + seg_pos s"
    and "g' = g\<lparr>shared_segments := (shared_segments g)[i := s\<lparr>seg_pos := seg_pos s + b\<rparr>],
              shared_free := shared_free g - b, shm_bytes := memset (shm_bytes g) p 0 b\<rparr>"
  then show ?thesis
    using in_use_update [of i "shared_segments g" s b a] by (simp add: in_use_def)
qed

lemma alloc_fresh:
  assumes inv: "smm_inv g" and al: "zend_shared_alloc v True sz g = Inr (Some p, g')"
    and a: "p \<le> a" "a < p + ZEND_ALIGNED_SIZE sz mod two32"
  shows "\<not> in_use g a"
proof
  assume "in_use g a"
  then obtain j where j: "j < length (shared_segments g)"
    and ja: "seg_p (shared_segments g ! j) \<le> a"
      "a < seg_p (shared_segments g ! j) + seg_pos (shared_segments g ! j)"
    by (auto simp: in_use_def in_set_conv_nth)
  from al obtain i s b where i: "i < length (shared_segments g)" "s = shared_segments g ! i"
    and b: "b = ZEND_ALIGNED_SIZE sz mod two32" "b \<le> block_free s" and p: "p = seg_p s + seg_pos s"
    by (rule alloc_success_cases)
  note oks = smm_invD [OF inv i(1)] smm_invD [OF inv j]
  have bnd: "seg_p s \<le> a" "a < seg_p s + seg_size s"
    using a b p oks(1) i(2) by (auto simp: block_free_ok seg_ok_def)
  show False
  proof (cases "i = j")
    case True
    with ja p a i show False by simp
  next
    case False
    with inv i j have "seg_apart s (shared_segments g ! j)" by (simp add: smm_inv_def)
    with bnd ja oks(2) show False by (auto simp: seg_apart_def seg_ok_def)
  qed
qed

lemma alloc_in_segment:
  assumes inv: "smm_inv g" and al: "zend_shared_alloc v True sz g = Inr (Some p, g')"
  shows "p mod 8 = 0
    \<and> (\<exists>s \<in> set (shared_segments g). seg_p s \<le> p
         \<and> p + ZEND_ALIGNED_SIZE sz mod two32 \<le> seg_p s + seg_size s)"
proof -
  from al obtain i s b where i: "i < length (shared_segments g)" "s = shared_segments g ! i"
    and b: "b = ZEND_ALIGNED_SIZE sz mod two32" "b \<le> block_free s" and p: "p = seg_p s + seg_pos s"
    by (rule alloc_success_cases)
  have ok: "seg_ok s" using smm_invD [OF inv i(1)] i(2) by simp
  then have "b \<le> seg_size s - seg_pos s" using b by (simp add: block_free_ok)
  with ok p b i show ?thesis
    by (auto simp: seg_ok_def mod_add_eq [symmetric] intro!: bexI [of _ s])
qed

lemma alloc_None_state:
  "zend_shared_alloc v True sz g = Inr (None, g') \<Longrightarrow> g' = SHARED_ALLOC_FAILED g"
  by (auto simp: zend_shared_alloc_locked Let_def split: if_splits option.splits)

lemma alloc_none_iff:
  assumes inv: "smm_inv g"
  shows "(\<exists>g'. zend_shared_alloc v True sz g = Inr (None, g'))
     \<longleftrightarrow> (\<forall>s \<in> set (shared_segments g). block_free s < ZEND_ALIGNED_SIZE sz mod two32)"
proof -
  have le: "block_free s \<le> shared_free g" if "s \<in> set (shared_segments g)" for s
    using free_ge_block [OF _ that] inv by (simp add: smm_inv_def)
  let ?b = "ZEND_ALIGNED_SIZE sz mod two32"
  show "(\<exists>g'. zend_shared_alloc v True sz g = Inr (None, g'))
     \<longleftrightarrow> (\<forall>s \<in> set (shared_segments g). block_free s < ?b)"
  proof (cases "find_block ?b 0 (shared_segments g)")
    case None
    then have "\<forall>s \<in> set (shared_segments g). block_free s < ?b"
      by (simp add: find_block_None)
    with None show ?thesis by (simp add: zend_shared_alloc_locked Let_def)
  next
    case (Some i)
    then have "shared_segments g ! i \<in> set (shared_segments g)"
      and ge: "?b \<le> block_free (shared_segments g ! i)"
      using find_block_Some [OF Some] by auto
    with le have "?b \<le> shared_free g" by (meson order_trans)
    with Some ge \<open>shared_segments g ! i \<in> _\<close> show ?thesis
      by (auto simp: zend_shared_alloc_locked Let_def not_less intro: bexI)
  qed
qed

section \<open>The interface the rest of the cache relies on\<close>

text \<open>
  What a client may assume of an allocator: a block it gets does not meet anything in
  use, is in use afterwards, and nothing else changes hands.
\<close>

fun alloc_run :: "(nat \<Rightarrow> 'g \<Rightarrow> nat option \<times> 'g) \<Rightarrow> nat list \<Rightarrow> 'g \<Rightarrow> (nat \<times> nat) list \<times> 'g" where
  "alloc_run alloc [] g = ([], g)"
| "alloc_run alloc (n # ns) g =
     (case alloc n g of
        (None, g') \<Rightarrow> alloc_run alloc ns g'
      | (Some p, g') \<Rightarrow> (case alloc_run alloc ns g' of (bs, g'') \<Rightarrow> ((p, n) # bs, g'')))"

locale block_allocator =
  fixes alloc :: "nat \<Rightarrow> 'g \<Rightarrow> nat option \<times> 'g"
    and used :: "'g \<Rightarrow> nat set"
    and inv :: "'g \<Rightarrow> bool"
    and bsize :: "nat \<Rightarrow> nat"
  assumes fresh: "inv g \<Longrightarrow> alloc n g = (Some p, g') \<Longrightarrow> {p ..< p + bsize n} \<inter> used g = {}"
    and taken: "inv g \<Longrightarrow> alloc n g = (Some p, g') \<Longrightarrow> used g' = used g \<union> {p ..< p + bsize n}"
    and refused: "inv g \<Longrightarrow> alloc n g = (None, g') \<Longrightarrow> used g' = used g"
    and keeps: "inv g \<Longrightarrow> alloc n g = (r, g') \<Longrightarrow> inv g'"
begin

lemma run_inv: "inv g \<Longrightarrow> alloc_run alloc ns g = (bs, g') \<Longrightarrow> inv g'"
proof (induction ns arbitrary: g bs)
  case Nil
  then show ?case by simp
next
  case (Cons n ns)
  then show ?case
    by (auto split: prod.splits option.splits dest: keeps)
qed

lemma run_used:
  "inv g \<Longrightarrow> alloc_run alloc ns g = (bs, g') \<Longrightarrow>
     used g' = used g \<union> (\<Union>(p, n) \<in> set bs. {p ..< p + bsize n})"
proof (induction ns arbitrary: g bs)
  case Nil
  then show ?case by simp
next
  case (Cons m ns)
  obtain r g1 where al: "alloc m g = (r, g1)" by fastforce
  have inv1: "inv g1" using keeps [OF Cons.prems(1) al] .
  show ?case
  proof (cases r)
    case None
    with Cons.prems al have "alloc_run alloc ns g1 = (bs, g')" by simp
    with Cons.IH [OF inv1] refused [OF Cons.prems(1)] al None show ?thesis by simp
  next
    case (Some q)
    then obtain bs1 where run: "alloc_run alloc ns g1 = (bs1, g')" "bs = (q, m) # bs1"
      using Cons.prems al by (auto split: prod.splits)
    have "used g1 = used g \<union> {q ..< q + bsize m}"
      using taken [OF Cons.prems(1)] al Some by simp
    with Cons.IH [OF inv1 run(1)] run(2) show ?thesis by auto
  qed
qed

lemma run_fresh:
  "inv g \<Longrightarrow> alloc_run alloc ns g = (bs, g') \<Longrightarrow> (p, n) \<in> set bs \<Longrightarrow>
     {p ..< p + bsize n} \<inter> used g = {}"
proof (induction ns arbitrary: g bs)
  case Nil
  then show ?case by simp
next
  case (Cons m ns)
  obtain r g1 where al: "alloc m g = (r, g1)" by fastforce
  have inv1: "inv g1" using keeps [OF Cons.prems(1) al] .
  have sub: "used g \<subseteq> used g1"
    using taken [OF Cons.prems(1)] refused [OF Cons.prems(1)] al by (cases r) auto
  show ?case
  proof (cases r)
    case None
    with Cons.prems al have "alloc_run alloc ns g1 = (bs, g')" by simp
    with Cons.IH [OF inv1 _ Cons.prems(3)] sub show ?thesis by auto
  next
    case (Some q)
    then obtain bs1 where run: "alloc_run alloc ns g1 = (bs1, g')" "bs = (q, m) # bs1"
      using Cons.prems al by (auto split: prod.splits)
    show ?thesis
    proof (cases "(p, n) = (q, m)")
      case True
      with fresh [OF Cons.prems(1)] al Some show ?thesis by simp
    next
      case False
      with run Cons.prems(3) have "(p, n) \<in> set bs1" by auto
      with Cons.IH [OF inv1 run(1)] sub show ?thesis by blast
    qed
  qed
qed

lemma run_disjoint:
  "inv g \<Longrightarrow> alloc_run alloc ns g = (bs, g') \<Longrightarrow> i < j \<Longrightarrow> j < length bs \<Longrightarrow>
     {fst (bs ! i) ..< fst (bs ! i) + bsize (snd (bs ! i))}
     \<inter> {fst (bs ! j) ..< fst (bs ! j) + bsize (snd (bs ! j))} = {}"
proof (induction ns arbitrary: g bs i j)
  case Nil
  then show ?case by simp
next
  case (Cons m ns)
  obtain r g1 where al: "alloc m g = (r, g1)" by fastforce
  have inv1: "inv g1" using keeps [OF Cons.prems(1) al] .
  show ?case
  proof (cases r)
    case None
    with Cons.prems al have "alloc_run alloc ns g1 = (bs, g')" by simp
    with Cons.IH [OF inv1 _ Cons.prems(3,4)] show ?thesis .
  next
    case (Some q)
    then obtain bs1 where run: "alloc_run alloc ns g1 = (bs1, g')" "bs = (q, m) # bs1"
      using Cons.prems al by (auto split: prod.splits)
    obtain j' where j': "j = Suc j'" "j' < length bs1"
      using Cons.prems(3,4) run(2) by (cases j) auto
    have mem: "(fst (bs1 ! j'), snd (bs1 ! j')) \<in> set bs1" using j' by simp
    show ?thesis
    proof (cases i)
      case 0
      have "{q ..< q + bsize m} \<subseteq> used g1"
        using taken [OF Cons.prems(1)] al Some by simp
      with run_fresh [OF inv1 run(1) mem]
      have "{q ..< q + bsize m} \<inter> {fst (bs1 ! j') ..< fst (bs1 ! j') + bsize (snd (bs1 ! j'))} = {}"
        by blast
      with 0 j' run(2) show ?thesis by simp
    next
      case (Suc i')
      with Cons.IH [OF inv1 run(1), of i' j'] j' run(2) Cons.prems(3) show ?thesis by simp
    qed
  qed
qed

end

text \<open>The code's allocator, called under the lock.\<close>

definition locked_alloc :: "int \<Rightarrow> nat \<Rightarrow> smm_shared_globals \<Rightarrow> nat option \<times> smm_shared_globals" where
  "locked_alloc v sz g =
     (case zend_shared_alloc v True sz g of Inr r \<Rightarrow> r | Inl c \<Rightarrow> (None, g))"

lemma alloc_locked_no_crash: "zend_shared_alloc v True sz g \<noteq> Inl c"
  by (simp add: zend_shared_alloc_locked Let_def split: option.split)

lemma locked_alloc_eq: "zend_shared_alloc v True sz g = Inr (locked_alloc v sz g)"
  using alloc_locked_no_crash by (simp add: locked_alloc_def split: sum.split)

lemma SHARED_ALLOC_FAILED_in_use [simp]: "in_use (SHARED_ALLOC_FAILED g) = in_use g"
  by (simp add: SHARED_ALLOC_FAILED_def in_use_def fun_eq_iff)

interpretation shm: block_allocator "locked_alloc v" "\<lambda>g. {a. in_use g a}" smm_inv
  "\<lambda>sz. ZEND_ALIGNED_SIZE sz mod two32" for v
proof
  fix g n p g'
  assume inv: "smm_inv g" and al: "locked_alloc v n g = (Some p, g')"
  from al have al': "zend_shared_alloc v True n g = Inr (Some p, g')" by (simp add: locked_alloc_eq)
  show "{p ..< p + ZEND_ALIGNED_SIZE n mod two32} \<inter> {a. in_use g a} = {}"
    using alloc_fresh [OF inv al'] by (simp add: disjoint_iff)
  show "{a. in_use g' a} = {a. in_use g a} \<union> {p ..< p + ZEND_ALIGNED_SIZE n mod two32}"
    by (simp only: set_eq_iff mem_Collect_eq Un_iff atLeastLessThan_iff alloc_in_use [OF al'] simp_thms)
next
  fix g n g'
  assume "locked_alloc v n g = (None, g')"
  then have "zend_shared_alloc v True n g = Inr (None, g')" by (simp add: locked_alloc_eq)
  then have "g' = SHARED_ALLOC_FAILED g" by (rule alloc_None_state)
  then show "{a. in_use g' a} = {a. in_use g a}" by simp
next
  fix g n r g'
  assume "smm_inv g" and "locked_alloc v n g = (r, g')"
  then show "smm_inv g'" using alloc_inv [of g v n r g'] by (simp add: locked_alloc_eq)
qed

section \<open>Saving and restoring the allocator\<close>

lemma run_frame:
  "alloc_run (locked_alloc v) ns g = (bs, g') \<Longrightarrow>
     map seg_p (shared_segments g') = map seg_p (shared_segments g)
   \<and> map seg_size (shared_segments g') = map seg_size (shared_segments g)
   \<and> saved_positions g' = saved_positions g \<and> saved_shared_free g' = saved_shared_free g"
proof (induction ns arbitrary: g bs)
  case Nil
  then show ?case by simp
next
  case (Cons n ns)
  obtain r g1 where al: "locked_alloc v n g = (r, g1)" by fastforce
  then have "zend_shared_alloc v True n g = Inr (r, g1)" by (simp add: locked_alloc_eq)
  note fr = alloc_frame [OF this]
  obtain bs1 where "alloc_run (locked_alloc v) ns g1 = (bs1, g')"
    using Cons.prems al by (auto split: prod.splits option.splits)
  with Cons.IH fr show ?case by simp
qed

lemma seg_pos_update_eq:
  "seg_p x = seg_p y \<Longrightarrow> seg_size x = seg_size y \<Longrightarrow> x\<lparr>seg_pos := seg_pos y\<rparr> = (y :: zend_shared_segment)"
  by (cases x; cases y) simp

lemma restore_segments:
  fixes ts ss :: "zend_shared_segment list"
  assumes "length ts = length ss" and "map seg_p ts = map seg_p ss"
    and "map seg_size ts = map seg_size ss" and "\<forall>s \<in> set ss. seg_pos s < 2 ^ 31"
  shows "map2 (\<lambda>s p. s\<lparr>seg_pos := int_to_size p\<rparr>) ts (map (\<lambda>s. to_int32 (seg_pos s)) ss) = ss"
  using assms
  by (induction ts ss rule: list_induct2) (auto simp: int_to_size_to_int32 intro!: seg_pos_update_eq)

section \<open>Properties\<close>

text \<open>A manager with one empty segment, for the witnesses.\<close>

definition demo_smm :: smm_shared_globals where
  "demo_smm = \<lparr>shared_segments = [\<lparr>seg_size = 1024, seg_pos = 0, seg_p = 4096\<rparr>],
     shared_free = 1024, wasted_shared_memory = 0, memory_exhausted = False,
     saved_positions = [], saved_shared_free = 0, shm_bytes = (\<lambda>_. 7)\<rparr>"

lemma demo_smm_inv: "smm_inv demo_smm"
  by (simp add: smm_inv_def demo_smm_def seg_ok_def two64_def)

lemma aligned_100: "ZEND_ALIGNED_SIZE 100 mod two32 = 104"
  by (simp add: ZEND_ALIGNED_SIZE_def PLATFORM_ALIGNMENT_def two64_def two32_def)

text \<open>C1. A successful \<open>zend_shared_alloc\<close> under the lock returns an aligned block that lies
  inside one segment, was not in use, is in use afterwards and reads as zero; every other
  byte of the shared memory and every other block keeps its contents and owner, and the
  manager's invariant is kept. For requests up to \<open>2 ^ 32 - 8\<close> bytes the block is at
  least as long as the request.\<close>

theorem zend_shared_alloc_block:
  assumes inv: "smm_inv g" and al: "zend_shared_alloc v True sz g = Inr (Some p, g')"
    and small: "sz + 8 \<le> two32"
  shows "let b = ZEND_ALIGNED_SIZE sz in
           sz \<le> b \<and> p mod 8 = 0 \<and> smm_inv g'
         \<and> (\<exists>s \<in> set (shared_segments g). seg_p s \<le> p \<and> p + b \<le> seg_p s + seg_size s)
         \<and> (\<forall>a. p \<le> a \<and> a < p + b \<longrightarrow> \<not> in_use g a \<and> shm_bytes g' a = 0)
         \<and> (\<forall>a. \<not> (p \<le> a \<and> a < p + b) \<longrightarrow> shm_bytes g' a = shm_bytes g a)
         \<and> (\<forall>a. in_use g' a \<longleftrightarrow> in_use g a \<or> p \<le> a \<and> a < p + b)
         \<and> shared_free g' + b = shared_free g"
proof -
  have b: "ZEND_ALIGNED_SIZE sz mod two32 = ZEND_ALIGNED_SIZE sz" by (rule aligned_trunc [OF small])
  have "sz + 7 < two64" using small by (simp add: two32_def two64_def)
  then have "sz \<le> ZEND_ALIGNED_SIZE sz" by (rule aligned_ge)
  moreover have "shm_bytes g' = memset (shm_bytes g) p 0 (ZEND_ALIGNED_SIZE sz)
      \<and> shared_free g' + ZEND_ALIGNED_SIZE sz = shared_free g"
    using al by (rule alloc_success_cases) (simp add: b)
  ultimately show ?thesis
    using alloc_in_segment [OF inv al] alloc_fresh [OF inv al] alloc_in_use [OF al] alloc_inv [OF inv al]
    unfolding b Let_def by (simp add: memset_def)
qed

lemma zend_shared_alloc_block_witness:
  "\<exists>p g'. zend_shared_alloc 1 True 100 demo_smm = Inr (Some p, g') \<and> 100 \<le> ZEND_ALIGNED_SIZE 100
     \<and> smm_inv g' \<and> shm_bytes g' p = 0"
proof -
  let ?r = "zend_shared_alloc 1 True 100 demo_smm"
  have "\<exists>g'. ?r = Inr (Some 4096, g')"
    unfolding zend_shared_alloc_locked aligned_100 Let_def
    by (simp add: demo_smm_def block_free_def sub64_def two64_def)
  then obtain g' where r: "?r = Inr (Some 4096, g')" by blast
  have "(100::nat) + 8 \<le> two32" by (simp add: two32_def)
  with zend_shared_alloc_block [OF demo_smm_inv r] r show ?thesis
    by (intro exI [of _ 4096] exI [of _ g']) (auto simp: Let_def)
qed

text \<open>Under the lock \<open>zend_shared_alloc\<close> refuses a request exactly when no segment has
  room for the aligned block, so the \<open>shared_free\<close> shortcut never refuses a request some
  segment could serve; a refusal changes nothing but the exhausted flag, which it sets
  exactly when the largest free block is below \<open>MIN_FREE_MEMORY\<close>.\<close>

theorem zend_shared_alloc_refusal:
  assumes inv: "smm_inv g"
  shows "(fst (locked_alloc v sz g) = None
            \<longleftrightarrow> (\<forall>s \<in> set (shared_segments g).
                   seg_size s - seg_pos s < ZEND_ALIGNED_SIZE sz mod two32))
       \<and> (fst (locked_alloc v sz g) = None \<longrightarrow>
            snd (locked_alloc v sz g) = g\<lparr>memory_exhausted :=
              (memory_exhausted g
               \<or> (\<forall>s \<in> set (shared_segments g). seg_size s - seg_pos s < MIN_FREE_MEMORY))\<rparr>)"
proof -
  have free: "block_free s = seg_size s - seg_pos s" if "s \<in> set (shared_segments g)" for s
    using inv that by (auto simp: smm_inv_def list_all_iff block_free_ok)
  have "0 < MIN_FREE_MEMORY" by (simp add: MIN_FREE_MEMORY_def)
  then have ex: "SHARED_ALLOC_FAILED g = g\<lparr>memory_exhausted := (memory_exhausted g
               \<or> (\<forall>s \<in> set (shared_segments g). seg_size s - seg_pos s < MIN_FREE_MEMORY))\<rparr>"
    unfolding SHARED_ALLOC_FAILED_def zend_shared_alloc_get_largest_free_block_def largest_block_le
    by (cases g) (auto simp: free cong: ball_cong)
  have none: "fst (locked_alloc v sz g) = None
      \<longleftrightarrow> (\<exists>g'. zend_shared_alloc v True sz g = Inr (None, g'))"
    by (cases "locked_alloc v sz g") (simp add: locked_alloc_eq)
  have st: "snd (locked_alloc v sz g) = SHARED_ALLOC_FAILED g" if "fst (locked_alloc v sz g) = None"
    using that alloc_None_state [of v sz g "snd (locked_alloc v sz g)"]
    by (cases "locked_alloc v sz g") (simp add: locked_alloc_eq)
  show ?thesis
    using alloc_none_iff [OF inv, of v sz] free st unfolding none ex [symmetric] by auto
qed

lemma zend_shared_alloc_refusal_witness:
  "smm_inv demo_smm \<and> fst (locked_alloc 1 2000 demo_smm) = None"
proof -
  have "ZEND_ALIGNED_SIZE 2000 mod two32 = 2000"
    by (simp add: ZEND_ALIGNED_SIZE_def PLATFORM_ALIGNMENT_def two64_def two32_def)
  with zend_shared_alloc_refusal [OF demo_smm_inv, of 1 2000] demo_smm_inv show ?thesis
    by (simp add: demo_smm_def)
qed

text \<open>The blocks that any sequence of \<open>zend_shared_alloc\<close> calls under the lock hands out
  are pairwise disjoint.\<close>

theorem zend_shared_alloc_disjoint:
  assumes "smm_inv g" and "alloc_run (locked_alloc v) ns g = (bs, g')"
    and "i < j" and "j < length bs"
  shows "{fst (bs ! i) ..< fst (bs ! i) + ZEND_ALIGNED_SIZE (snd (bs ! i)) mod two32}
       \<inter> {fst (bs ! j) ..< fst (bs ! j) + ZEND_ALIGNED_SIZE (snd (bs ! j)) mod two32} = {}"
  using assms by (rule shm.run_disjoint)

lemma zend_shared_alloc_disjoint_witness:
  "\<exists>bs g'. alloc_run (locked_alloc 1) [100, 100] demo_smm = (bs, g') \<and> length bs = 2
     \<and> {fst (bs ! 0) ..< fst (bs ! 0) + 104} \<inter> {fst (bs ! 1) ..< fst (bs ! 1) + 104} = {}"
proof -
  have "\<exists>g'. alloc_run (locked_alloc 1) [100, 100] demo_smm = ([(4096, 100), (4200, 100)], g')"
    by (simp add: locked_alloc_def zend_shared_alloc_locked aligned_100 Let_def demo_smm_def
        block_free_def sub64_def two64_def)
  then obtain g' where r: "alloc_run (locked_alloc 1) [100, 100] demo_smm
      = ([(4096, 100), (4200, 100)], g')" by blast
  from zend_shared_alloc_disjoint [OF demo_smm_inv r, of 0 1] r show ?thesis
    by (intro exI [of _ "[(4096, 100), (4200, 100)]"] exI [of _ g']) (simp add: aligned_100)
qed

text \<open>\<open>zend_shared_alloc_restore_state\<close> undoes every allocation made since
  \<open>zend_shared_alloc_save_state\<close>: positions and free memory are those of the saved state and
  the exhausted flag and the wasted-memory count are cleared. The saved positions must fit the
  \<open>int\<close> array they are stored in.\<close>

theorem save_then_restore:
  assumes fit: "\<forall>s \<in> set (shared_segments g). seg_pos s < 2 ^ 31"
    and run: "alloc_run (locked_alloc v) ns (zend_shared_alloc_save_state g) = (bs, g')"
  shows "shared_segments (zend_shared_alloc_restore_state g') = shared_segments g
       \<and> shared_free (zend_shared_alloc_restore_state g') = shared_free g
       \<and> \<not> memory_exhausted (zend_shared_alloc_restore_state g')
       \<and> wasted_shared_memory (zend_shared_alloc_restore_state g') = 0"
proof -
  note fr = run_frame [OF run]
  then have ps: "map seg_p (shared_segments g') = map seg_p (shared_segments g)"
    "map seg_size (shared_segments g') = map seg_size (shared_segments g)"
    "saved_positions g' = map (\<lambda>s. to_int32 (seg_pos s)) (shared_segments g)"
    "saved_shared_free g' = shared_free g"
    by (simp_all add: zend_shared_alloc_save_state_def)
  have "length (shared_segments g') = length (shared_segments g)"
    using ps(1) by (metis length_map)
  then show ?thesis
    using restore_segments [OF _ ps(1,2) fit] ps
    by (simp add: zend_shared_alloc_restore_state_def)
qed

lemma save_then_restore_witness:
  "\<exists>bs g'. alloc_run (locked_alloc 1) [100] (zend_shared_alloc_save_state demo_smm) = (bs, g')
     \<and> shared_segments (zend_shared_alloc_restore_state g') = shared_segments demo_smm"
proof -
  obtain bs g' where r: "alloc_run (locked_alloc 1) [100] (zend_shared_alloc_save_state demo_smm) = (bs, g')"
    by fastforce
  have "\<forall>s \<in> set (shared_segments demo_smm). seg_pos s < 2 ^ 31" by (simp add: demo_smm_def)
  from save_then_restore [OF this r] r show ?thesis by blast
qed

text \<open>The block size is held in an \<open>unsigned int\<close>: a request whose aligned size is a
  multiple of \<open>2 ^ 32\<close> is answered with the address of a block of length zero and
  consumes nothing, instead of being refused.\<close>

theorem zend_shared_alloc_truncates:
  assumes "ZEND_ALIGNED_SIZE sz mod two32 = 0" and "shared_segments g = s # ss"
  shows "\<exists>g'. zend_shared_alloc v True sz g = Inr (Some (seg_p s + seg_pos s), g')
           \<and> shared_segments g' = shared_segments g \<and> shared_free g' = shared_free g"
  using assms by (simp add: zend_shared_alloc_locked Let_def)

lemma zend_shared_alloc_truncates_witness:
  "\<exists>g'. zend_shared_alloc 1 True (2 ^ 32) demo_smm = Inr (Some 4096, g')
     \<and> shared_free g' = 1024"
proof -
  have "ZEND_ALIGNED_SIZE (2 ^ 32) mod two32 = 0"
    by (simp add: ZEND_ALIGNED_SIZE_def PLATFORM_ALIGNMENT_def two64_def two32_def)
  from zend_shared_alloc_truncates [OF this, of demo_smm _ "[]" 1] show ?thesis
    by (auto simp: demo_smm_def)
qed

end
