(* ===== verification/Accel_Hash.thy ===== *)
theory Accel_Hash
  imports Shared_Alloc
begin

text \<open>
  The shared hash table of \<open>zend_accelerator_hash.c\<close>: a fixed array of entries that is
  filled from the front, and a table of bucket heads; collisions are chained through the
  entries' \<open>next\<close>. A pointer into the entry array is the entry's index, \<open>NULL\<close> is
  \<open>None\<close>. An entry's \<open>data\<close> is \<open>NULL\<close>, a client object or, when \<open>indirect\<close> is set,
  another entry. The loops over a chain return \<open>None\<close> when they do not terminate (or
  when an indirect entry holds no entry pointer, which the code would misread).

  The engine's \<open>zend_inline_hash_func\<close> is not part of the repository: it is the
  parameter \<open>hashf\<close>, a function of the key's bytes and length.
\<close>

section \<open>State\<close>

datatype 'd hdata = NULL | Obj 'd | Entry nat

record 'd zend_accel_hash_entry =
  he_hash_value :: "64 word"
  he_key :: string
  he_key_length :: nat
  he_next :: "nat option"
  he_data :: "'d hdata"
  he_indirect :: bool

record 'd zend_accel_hash =
  hash_table :: "nat option list"
  hash_entries :: "'d zend_accel_hash_entry list"
  num_entries :: nat
  max_num_entries :: nat
  num_direct_entries :: "32 word"

type_synonym hash_fn = "string \<Rightarrow> nat \<Rightarrow> 64 word"

definition prime_numbers :: "nat list" where
  "prime_numbers = [5, 11, 19, 53, 107, 223, 463, 983, 1979, 3907, 7963, 16229, 32531, 65407,
     130987, 262237, 524521, 1048793]"

section \<open>Operations\<close>

definition zend_accel_hash_clean :: "'d zend_accel_hash \<Rightarrow> 'd zend_accel_hash" where
  "zend_accel_hash_clean h =
     h\<lparr>num_entries := 0, num_direct_entries := 0,
       hash_table := replicate (max_num_entries h) None\<rparr>"

text \<open>The loop over \<open>prime_numbers\<close>: the first that is not below the requested size, or
  the requested size when there is none.\<close>

fun round_hash_size :: "nat list \<Rightarrow> nat \<Rightarrow> nat" where
  "round_hash_size [] hash_size = hash_size"
| "round_hash_size (p # ps) hash_size = (if hash_size \<le> p then p else round_hash_size ps hash_size)"

text \<open>\<open>sizeof\<close> of a pointer and of an entry (LP64).\<close>

definition sizeof_ptr :: nat where "sizeof_ptr = 8"
definition sizeof_hash_entry :: nat where "sizeof_hash_entry = 48"

definition zeroed_entry :: "'d zend_accel_hash_entry" where
  "zeroed_entry = \<lparr>he_hash_value = 0, he_key = [], he_key_length = 0, he_next = None,
     he_data = NULL, he_indirect = False\<rparr>"

text \<open>Both arrays come from shared memory, which \<open>zend_shared_alloc\<close> hands out zeroed; a
  failed allocation is an \<open>ACCEL_LOG_FATAL\<close> error (when that level is logged the process
  exits; otherwise the function returns, with the table unusable).\<close>

definition zend_accel_hash_init ::
  "int \<Rightarrow> nat \<Rightarrow> smm_shared_globals \<Rightarrow> crash + ('d zend_accel_hash option \<times> smm_shared_globals)" where
  "zend_accel_hash_init v hash_size g =
     (let n = round_hash_size prime_numbers hash_size;
          fatal = (\<lambda>g. case zend_accel_error v ACCEL_LOG_FATAL of
                          Some c \<Rightarrow> Inl c | None \<Rightarrow> Inr (None, g))
      in case zend_shared_alloc v True (sizeof_ptr * n) g of
        Inl c \<Rightarrow> Inl c
      | Inr (None, g1) \<Rightarrow> fatal g1
      | Inr (Some p, g1) \<Rightarrow>
          (case zend_shared_alloc v True (sizeof_hash_entry * n) g1 of
            Inl c \<Rightarrow> Inl c
          | Inr (None, g2) \<Rightarrow> fatal g2
          | Inr (Some q, g2) \<Rightarrow>
              Inr (Some \<lparr>hash_table = replicate n None, hash_entries = replicate n zeroed_entry,
                         num_entries = 0, max_num_entries = n, num_direct_entries = 0\<rparr>, g2)))"

definition zend_accel_hash_is_full :: "'d zend_accel_hash \<Rightarrow> bool" where
  "zend_accel_hash_is_full h \<longleftrightarrow> num_entries h = max_num_entries h"

definition hash_index :: "'d zend_accel_hash \<Rightarrow> 64 word \<Rightarrow> nat" where
  "hash_index h hv = unat hv mod max_num_entries h"

text \<open>\<open>entry->hash_value == hash_value && entry->key_length == key_length
  && !memcmp(entry->key, key, key_length)\<close>\<close>

definition entry_matches :: "64 word \<Rightarrow> string \<Rightarrow> nat \<Rightarrow> 'd zend_accel_hash_entry \<Rightarrow> bool" where
  "entry_matches hv key klen e \<longleftrightarrow>
     he_hash_value e = hv \<and> he_key_length e = klen \<and> take klen (he_key e) = take klen key"

text \<open>The \<open>while (entry)\<close> loop: \<open>Some (Some i)\<close> when it stops at entry \<open>i\<close>,
  \<open>Some None\<close> when it runs off the chain.\<close>

partial_function (option) scan_chain ::
  "'d zend_accel_hash_entry list \<Rightarrow> 64 word \<Rightarrow> string \<Rightarrow> nat \<Rightarrow> nat option \<Rightarrow> nat option option" where
  "scan_chain es hv key klen p =
     (case p of
        None \<Rightarrow> Some None
      | Some i \<Rightarrow> if entry_matches hv key klen (es ! i) then Some (Some i)
                  else scan_chain es hv key klen (he_next (es ! i)))"

text \<open>\<open>while (indirect_bucket->indirect) indirect_bucket = indirect_bucket->data\<close>\<close>

partial_function (option) resolve_indirect :: "'d zend_accel_hash_entry list \<Rightarrow> nat \<Rightarrow> nat option" where
  "resolve_indirect es i =
     (if he_indirect (es ! i)
      then (case he_data (es ! i) of Entry j \<Rightarrow> resolve_indirect es j | _ \<Rightarrow> None)
      else Some i)"

definition set_data :: "'d zend_accel_hash \<Rightarrow> nat \<Rightarrow> 'd hdata \<Rightarrow> 'd zend_accel_hash" where
  "set_data h i d = h\<lparr>hash_entries := (hash_entries h)[i := (hash_entries h ! i)\<lparr>he_data := d\<rparr>]\<rparr>"

text \<open>The body run for an entry that already has the key. \<open>ib\<close> is \<open>indirect_bucket\<close>.\<close>

definition update_existing ::
  "'d zend_accel_hash \<Rightarrow> nat \<Rightarrow> nat option \<Rightarrow> 'd hdata \<Rightarrow> 'd zend_accel_hash option" where
  "update_existing h i ib data =
     (let e = hash_entries h ! i in
      if he_indirect e
      then (case ib of
              Some j \<Rightarrow> Some (set_data h i (Entry j))
            | None \<Rightarrow> (case he_data e of Entry k \<Rightarrow> Some (set_data h k data) | _ \<Rightarrow> None))
      else (case ib of
              Some j \<Rightarrow>
                Some (h\<lparr>num_direct_entries := num_direct_entries h - 1,
                        hash_entries := (hash_entries h)[i := e\<lparr>he_data := Entry j, he_indirect := True\<rparr>]\<rparr>)
            | None \<Rightarrow> Some (set_data h i data)))"

definition add_new_entry ::
  "'d zend_accel_hash \<Rightarrow> 64 word \<Rightarrow> string \<Rightarrow> nat \<Rightarrow> nat option \<Rightarrow> 'd hdata \<Rightarrow> 'd zend_accel_hash" where
  "add_new_entry h hv key klen ib data =
     (let n = num_entries h; idx = hash_index h hv;
          e = \<lparr>he_hash_value = hv, he_key = key, he_key_length = klen,
               he_next = hash_table h ! idx,
               he_data = (case ib of Some j \<Rightarrow> Entry j | None \<Rightarrow> data),
               he_indirect = (ib \<noteq> None)\<rparr>
      in h\<lparr>num_entries := Suc n,
           num_direct_entries := (if ib = None then num_direct_entries h + 1 else num_direct_entries h),
           hash_entries := (hash_entries h)[n := e],
           hash_table := (hash_table h)[idx := Some n]\<rparr>)"

definition zend_accel_hash_update ::
  "hash_fn \<Rightarrow> 'd zend_accel_hash \<Rightarrow> string \<Rightarrow> nat \<Rightarrow> bool \<Rightarrow> 'd hdata
   \<Rightarrow> (nat option \<times> 'd zend_accel_hash) option" where
  "zend_accel_hash_update hashf h key klen indirect data =
     (case (if indirect
            then (case data of Entry j \<Rightarrow> map_option Some (resolve_indirect (hash_entries h) j) | _ \<Rightarrow> None)
            else Some None) of
        None \<Rightarrow> None
      | Some ib \<Rightarrow>
          (let hv = hashf key klen; idx = hash_index h hv in
           case scan_chain (hash_entries h) hv key klen (hash_table h ! idx) of
             None \<Rightarrow> None
           | Some (Some i) \<Rightarrow> map_option (\<lambda>h'. (Some i, h')) (update_existing h i ib data)
           | Some None \<Rightarrow>
               if num_entries h = max_num_entries h then Some (None, h)
               else Some (Some (num_entries h), add_new_entry h hv key klen ib data)))"

definition zend_accel_hash_find ::
  "hash_fn \<Rightarrow> 'd zend_accel_hash \<Rightarrow> string \<Rightarrow> nat \<Rightarrow> 'd hdata option" where
  "zend_accel_hash_find hashf h key klen =
     (let hv = hashf key klen in
      case scan_chain (hash_entries h) hv key klen (hash_table h ! hash_index h hv) of
        None \<Rightarrow> None
      | Some None \<Rightarrow> Some NULL
      | Some (Some i) \<Rightarrow>
          (let e = hash_entries h ! i in
           if he_indirect e
           then (case he_data e of Entry j \<Rightarrow> Some (he_data (hash_entries h ! j)) | _ \<Rightarrow> None)
           else Some (he_data e)))"

definition zend_accel_hash_find_entry ::
  "hash_fn \<Rightarrow> 'd zend_accel_hash \<Rightarrow> string \<Rightarrow> nat \<Rightarrow> nat option option" where
  "zend_accel_hash_find_entry hashf h key klen =
     (let hv = hashf key klen in
      case scan_chain (hash_entries h) hv key klen (hash_table h ! hash_index h hv) of
        None \<Rightarrow> None
      | Some None \<Rightarrow> Some None
      | Some (Some i) \<Rightarrow>
          (let e = hash_entries h ! i in
           if he_indirect e
           then (case he_data e of Entry j \<Rightarrow> Some (Some j) | _ \<Rightarrow> None)
           else Some (Some i)))"

text \<open>The loop of \<open>zend_accel_hash_unlink\<close>, with \<open>last_entry\<close>.\<close>

partial_function (option) unlink_chain ::
  "'d zend_accel_hash \<Rightarrow> nat \<Rightarrow> 64 word \<Rightarrow> string \<Rightarrow> nat \<Rightarrow> nat option \<Rightarrow> nat option
   \<Rightarrow> (bool \<times> 'd zend_accel_hash) option" where
  "unlink_chain h idx hv key klen last_e p =
     (case p of
        None \<Rightarrow> Some (False, h)
      | Some i \<Rightarrow>
          (let e = hash_entries h ! i in
           if entry_matches hv key klen e
           then (let h1 = (if he_indirect e then h
                           else h\<lparr>num_direct_entries := num_direct_entries h - 1\<rparr>)
                 in Some (True,
                      case last_e of
                        Some l \<Rightarrow> h1\<lparr>hash_entries :=
                            (hash_entries h)[l := (hash_entries h ! l)\<lparr>he_next := he_next e\<rparr>]\<rparr>
                      | None \<Rightarrow> h1\<lparr>hash_table := (hash_table h)[idx := he_next e]\<rparr>))
           else unlink_chain h idx hv key klen (Some i) (he_next e)))"

definition zend_accel_hash_unlink ::
  "hash_fn \<Rightarrow> 'd zend_accel_hash \<Rightarrow> string \<Rightarrow> nat \<Rightarrow> (bool \<times> 'd zend_accel_hash) option" where
  "zend_accel_hash_unlink hashf h key klen =
     (let hv = hashf key klen; idx = hash_index h hv in
      unlink_chain h idx hv key klen None (hash_table h ! idx))"

section \<open>Chains\<close>

text \<open>\<open>linked es p is\<close>: following \<open>next\<close> from \<open>p\<close> visits exactly the entries \<open>is\<close>.\<close>

fun linked :: "'d zend_accel_hash_entry list \<Rightarrow> nat option \<Rightarrow> nat list \<Rightarrow> bool" where
  "linked es p [] \<longleftrightarrow> p = None"
| "linked es p (i # is) \<longleftrightarrow> p = Some i \<and> i < length es \<and> linked es (he_next (es ! i)) is"

lemma linked_bound: "linked es p is \<Longrightarrow> i \<in> set is \<Longrightarrow> i < length es"
  by (induction "is" arbitrary: p) auto

lemma linked_cong:
  assumes "linked es p is" and "length es' = length es"
    and "\<And>i. i \<in> set is \<Longrightarrow> he_next (es' ! i) = he_next (es ! i)"
  shows "linked es' p is"
  using assms by (induction "is" arbitrary: p) auto

text \<open>On a finite chain the scan terminates and finds the first match.\<close>

lemma scan_chain_linked [hash_simps]:
  "linked es p is \<Longrightarrow>
     scan_chain es hv key klen p = Some (find (\<lambda>i. entry_matches hv key klen (es ! i)) is)"
  by (induction "is" arbitrary: p) (auto simp: scan_chain.simps)

definition keyof :: "'d zend_accel_hash_entry list \<Rightarrow> nat \<Rightarrow> string" where
  "keyof es i = he_key (es ! i)"

text \<open>
  The representation invariant, with the list of chains as a ghost argument. The chains are
  linked from the table, hold used entries, each in the bucket its hash selects, and no two
  entries of the table have the same key (\<open>chains_ok\<close>); an indirect entry points to a used
  direct one (\<open>data_ok\<close>); \<open>num_direct_entries\<close> counts the direct entries of the chains.
\<close>

definition key_ok :: "hash_fn \<Rightarrow> 'd zend_accel_hash_entry \<Rightarrow> bool" where
  "key_ok hashf e \<longleftrightarrow>
     he_key_length e = length (he_key e) \<and> he_hash_value e = hashf (he_key e) (length (he_key e))"

definition chains_ok :: "hash_fn \<Rightarrow> 'd zend_accel_hash \<Rightarrow> nat list list \<Rightarrow> bool" where
  "chains_ok hashf h cs \<longleftrightarrow>
     0 < max_num_entries h \<and> max_num_entries h < two32
   \<and> length (hash_table h) = max_num_entries h \<and> length (hash_entries h) = max_num_entries h
   \<and> num_entries h \<le> max_num_entries h \<and> length cs = max_num_entries h
   \<and> (\<forall>b < max_num_entries h. linked (hash_entries h) (hash_table h ! b) (cs ! b)
        \<and> distinct (map (keyof (hash_entries h)) (cs ! b))
        \<and> (\<forall>i \<in> set (cs ! b). i < num_entries h \<and> key_ok hashf (hash_entries h ! i)
              \<and> hash_index h (he_hash_value (hash_entries h ! i)) = b))"

definition data_ok :: "'d zend_accel_hash \<Rightarrow> bool" where
  "data_ok h \<longleftrightarrow> (\<forall>i < num_entries h. he_indirect (hash_entries h ! i) \<longrightarrow>
     (\<exists>j < num_entries h. he_data (hash_entries h ! i) = Entry j \<and> \<not> he_indirect (hash_entries h ! j)))"

definition chained :: "nat list list \<Rightarrow> nat set" where
  "chained cs = \<Union> (set ` set cs)"

definition directs :: "'d zend_accel_hash \<Rightarrow> nat list list \<Rightarrow> nat set" where
  "directs h cs = {i \<in> chained cs. \<not> he_indirect (hash_entries h ! i)}"

definition hash_rep :: "hash_fn \<Rightarrow> 'd zend_accel_hash \<Rightarrow> nat list list \<Rightarrow> bool" where
  "hash_rep hashf h cs \<longleftrightarrow>
     chains_ok hashf h cs \<and> data_ok h \<and> unat (num_direct_entries h) = card (directs h cs)"

definition hash_inv :: "hash_fn \<Rightarrow> 'd zend_accel_hash \<Rightarrow> bool" where
  "hash_inv hashf h \<longleftrightarrow> (\<exists>cs. hash_rep hashf h cs)"

text \<open>The abstract view: the entry a key is stored in, and the entry that holds the data of
  an entry (one step of indirection).\<close>

definition bucket :: "hash_fn \<Rightarrow> 'd zend_accel_hash \<Rightarrow> string \<Rightarrow> nat" where
  "bucket hashf h key = hash_index h (hashf key (length key))"

definition slot :: "hash_fn \<Rightarrow> 'd zend_accel_hash \<Rightarrow> nat list list \<Rightarrow> string \<Rightarrow> nat option" where
  "slot hashf h cs key = find (\<lambda>i. keyof (hash_entries h) i = key) (cs ! bucket hashf h key)"

definition target :: "'d zend_accel_hash \<Rightarrow> nat \<Rightarrow> nat" where
  "target h i = (if he_indirect (hash_entries h ! i)
     then (case he_data (hash_entries h ! i) of Entry j \<Rightarrow> j | _ \<Rightarrow> i) else i)"

lemma hash_index_lt [simp]: "0 < max_num_entries h \<Longrightarrow> hash_index h hv < max_num_entries h"
  by (simp add: hash_index_def)

lemma bucket_lt [simp]: "0 < max_num_entries h \<Longrightarrow> bucket hashf h key < max_num_entries h"
  by (simp add: bucket_def)

lemma entry_matches_key:
  assumes "key_ok hashf e"
  shows "entry_matches (hashf key (length key)) key (length key) e \<longleftrightarrow> he_key e = key"
  using assms by (auto simp: entry_matches_def key_ok_def)

lemma find_cong_list: "(\<And>x. x \<in> set xs \<Longrightarrow> P x = Q x) \<Longrightarrow> find P xs = find Q xs"
  by (induction xs) auto

lemma find_SomeD: "find P xs = Some x \<Longrightarrow> x \<in> set xs \<and> P x"
  by (induction xs) (auto split: if_splits)

lemma find_NoneD: "find P xs = None \<Longrightarrow> x \<in> set xs \<Longrightarrow> \<not> P x"
  by (induction xs) (auto split: if_splits)

lemma find_unique:
  assumes "distinct (map f xs)" and "x \<in> set xs"
  shows "find (\<lambda>i. f i = f x) xs = Some x"
  using assms by (induction xs) (auto simp: image_iff)

lemma find_skip: "\<not> P x \<Longrightarrow> find P (xs @ x # ys) = find P (xs @ ys)"
  by (induction xs) auto

lemma chains_okD:
  assumes "chains_ok hashf h cs"
  shows "0 < max_num_entries h" "length (hash_table h) = max_num_entries h"
    "length (hash_entries h) = max_num_entries h" "num_entries h \<le> max_num_entries h"
    "length cs = max_num_entries h" "max_num_entries h < two32"
  using assms by (simp_all add: chains_ok_def)

lemma chains_ok_chain:
  assumes "chains_ok hashf h cs" and "b < max_num_entries h"
  shows "linked (hash_entries h) (hash_table h ! b) (cs ! b)"
    and "distinct (map (keyof (hash_entries h)) (cs ! b))"
  using assms by (simp_all add: chains_ok_def)

lemma chains_ok_entry:
  assumes "chains_ok hashf h cs" and "b < max_num_entries h" and "i \<in> set (cs ! b)"
  shows "i < num_entries h" "key_ok hashf (hash_entries h ! i)"
    "bucket hashf h (keyof (hash_entries h) i) = b"
proof -
  show "i < num_entries h" and k: "key_ok hashf (hash_entries h ! i)"
    using assms by (simp_all add: chains_ok_def)
  have "hash_index h (he_hash_value (hash_entries h ! i)) = b"
    using assms by (simp add: chains_ok_def)
  then show "bucket hashf h (keyof (hash_entries h) i) = b"
    using k by (simp add: key_ok_def bucket_def keyof_def)
qed

lemma scan_slot [hash_simps]:
  assumes "chains_ok hashf h cs"
  shows "scan_chain (hash_entries h) (hashf key (length key)) key (length key)
           (hash_table h ! hash_index h (hashf key (length key))) = Some (slot hashf h cs key)"
proof -
  have b: "bucket hashf h key < max_num_entries h" using chains_okD(1) [OF assms] by simp
  have "find (\<lambda>i. entry_matches (hashf key (length key)) key (length key) (hash_entries h ! i))
          (cs ! bucket hashf h key) = slot hashf h cs key"
    unfolding slot_def
    by (rule find_cong_list) (simp add: chains_ok_entry(2) [OF assms b] entry_matches_key keyof_def)
  then show ?thesis
    using scan_chain_linked [OF chains_ok_chain(1) [OF assms b]] by (simp add: bucket_def)
qed

lemma slot_Some:
  assumes "chains_ok hashf h cs" and sl: "slot hashf h cs key = Some i"
  shows "i \<in> set (cs ! bucket hashf h key)" and "keyof (hash_entries h) i = key"
    and "i < num_entries h" and "i \<in> chained cs"
proof -
  show m: "i \<in> set (cs ! bucket hashf h key)" and "keyof (hash_entries h) i = key"
    using sl by (auto simp: slot_def dest: find_SomeD)
  have b: "bucket hashf h key < max_num_entries h" using chains_okD(1) [OF assms(1)] by simp
  show "i < num_entries h" by (rule chains_ok_entry(1) [OF assms(1) b m])
  show "i \<in> chained cs" using m b chains_okD(5) [OF assms(1)] by (auto simp: chained_def)
qed

text \<open>An entry of the chains is the slot of its own key.\<close>

lemma slot_of_entry:
  assumes ch: "chains_ok hashf h cs" and b: "b < max_num_entries h" and i: "i \<in> set (cs ! b)"
  shows "slot hashf h cs (keyof (hash_entries h) i) = Some i"
  unfolding slot_def chains_ok_entry(3) [OF ch b i]
  by (rule find_unique [OF chains_ok_chain(2) [OF ch b] i])

lemma chained_slot:
  assumes ch: "chains_ok hashf h cs" and i: "i \<in> chained cs"
  shows "slot hashf h cs (keyof (hash_entries h) i) = Some i"
proof -
  obtain c where c: "c \<in> set cs" "i \<in> set c" using i by (auto simp: chained_def)
  then obtain b where "b < length cs" "i \<in> set (cs ! b)" by (metis in_set_conv_nth)
  then show ?thesis using slot_of_entry [OF ch] chains_okD(5) [OF ch] by simp
qed

lemma slot_inj:
  assumes "chains_ok hashf h cs" "slot hashf h cs k = Some i" "slot hashf h cs k' = Some i"
  shows "k = k'"
  using slot_Some(2) [OF assms(1,2)] slot_Some(2) [OF assms(1,3)] by simp

lemma data_okD:
  assumes "data_ok h" and "i < num_entries h" and "he_indirect (hash_entries h ! i)"
  shows "he_data (hash_entries h ! i) = Entry (target h i)"
  using assms by (auto simp: data_ok_def target_def)

lemma target_direct [simp]: "\<not> he_indirect (hash_entries h ! i) \<Longrightarrow> target h i = i"
  by (simp add: target_def)

lemma target_ok:
  assumes "data_ok h" and "i < num_entries h"
  shows "target h i < num_entries h" and "\<not> he_indirect (hash_entries h ! target h i)"
  using assms by (auto simp: data_ok_def target_def split: hdata.splits)

lemma resolve_target [hash_simps]:
  assumes "data_ok h" and "i < num_entries h"
  shows "resolve_indirect (hash_entries h) i = Some (target h i)"
  using assms by (subst resolve_indirect.simps)
    (auto simp: data_ok_def target_def resolve_indirect.simps)

text \<open>The look-ups in terms of the view: on a well-formed table they terminate.\<close>

lemma find_entry_view [hash_simps]:
  assumes "chains_ok hashf h cs" and "data_ok h"
  shows "zend_accel_hash_find_entry hashf h key (length key)
     = Some (map_option (target h) (slot hashf h cs key))"
  using assms slot_Some(3) [OF assms(1)]
  by (cases "slot hashf h cs key")
    (auto simp: zend_accel_hash_find_entry_def Let_def scan_slot [OF assms(1)] data_okD [OF assms(2)])

lemma find_view [hash_simps]:
  assumes "chains_ok hashf h cs" and "data_ok h"
  shows "zend_accel_hash_find hashf h key (length key)
     = Some (case slot hashf h cs key of None \<Rightarrow> NULL | Some i \<Rightarrow> he_data (hash_entries h ! target h i))"
  using assms slot_Some(3) [OF assms(1)]
  by (cases "slot hashf h cs key")
    (auto simp: zend_accel_hash_find_def Let_def scan_slot [OF assms(1)] data_okD [OF assms(2)])

section \<open>How an update changes the view\<close>

text \<open>Writes to \<open>data\<close> and \<open>indirect\<close> leave the chains alone.\<close>

definition same_links :: "'d zend_accel_hash \<Rightarrow> 'd zend_accel_hash \<Rightarrow> bool" where
  "same_links h h' \<longleftrightarrow> hash_table h' = hash_table h \<and> max_num_entries h' = max_num_entries h
     \<and> num_entries h' = num_entries h
     \<and> map (\<lambda>e. (he_hash_value e, he_key e, he_key_length e, he_next e)) (hash_entries h')
       = map (\<lambda>e. (he_hash_value e, he_key e, he_key_length e, he_next e)) (hash_entries h)"

lemma same_links_length:
  assumes "same_links h h'" shows "length (hash_entries h') = length (hash_entries h)"
proof -
  let ?f = "\<lambda>e. (he_hash_value e, he_key e, he_key_length e, he_next e)"
  have "map ?f (hash_entries h') = map ?f (hash_entries h)" using assms by (simp add: same_links_def)
  then show ?thesis by (rule map_eq_imp_length_eq)
qed

lemma same_links_entry:
  assumes "same_links h h'" and "i < length (hash_entries h)"
  shows "he_hash_value (hash_entries h' ! i) = he_hash_value (hash_entries h ! i)"
    "he_key (hash_entries h' ! i) = he_key (hash_entries h ! i)"
    "he_key_length (hash_entries h' ! i) = he_key_length (hash_entries h ! i)"
    "he_next (hash_entries h' ! i) = he_next (hash_entries h ! i)"
proof -
  let ?f = "\<lambda>e. (he_hash_value e, he_key e, he_key_length e, he_next e)"
  have "map ?f (hash_entries h') ! i = map ?f (hash_entries h) ! i"
    using assms(1) by (simp add: same_links_def)
  then have "?f (hash_entries h' ! i) = ?f (hash_entries h ! i)"
    using assms(2) same_links_length [OF assms(1)] by simp
  then show "he_hash_value (hash_entries h' ! i) = he_hash_value (hash_entries h ! i)"
    "he_key (hash_entries h' ! i) = he_key (hash_entries h ! i)"
    "he_key_length (hash_entries h' ! i) = he_key_length (hash_entries h ! i)"
    "he_next (hash_entries h' ! i) = he_next (hash_entries h ! i)" by simp_all
qed

lemma chains_ok_same_links:
  assumes sl: "same_links h h'" and ch: "chains_ok hashf h cs"
  shows "chains_ok hashf h' cs" and "slot hashf h' cs = slot hashf h cs"
proof -
  have eqs: "hash_table h' = hash_table h" "max_num_entries h' = max_num_entries h"
    "num_entries h' = num_entries h" using sl by (simp_all add: same_links_def)
  have len: "length (hash_entries h') = length (hash_entries h)" by (rule same_links_length [OF sl])
  have ent: "i < length (hash_entries h)" if "b < max_num_entries h" "i \<in> set (cs ! b)" for b i
    using chains_ok_entry(1) [OF ch that] chains_okD(3,4) [OF ch] by simp
  have hi: "hash_index h' = hash_index h" by (simp add: fun_eq_iff hash_index_def eqs)
  have bk: "bucket hashf h' k = bucket hashf h k" for k by (simp add: bucket_def hi)
  have lk: "linked (hash_entries h') (hash_table h ! b) (cs ! b)" if b: "b < max_num_entries h" for b
    by (rule linked_cong [OF chains_ok_chain(1) [OF ch b] len])
      (simp add: same_links_entry(4) [OF sl ent [OF b]])
  have ky: "map (keyof (hash_entries h')) (cs ! b) = map (keyof (hash_entries h)) (cs ! b)"
    if b: "b < max_num_entries h" for b
    by (rule map_cong) (simp_all add: keyof_def same_links_entry(2) [OF sl ent [OF b]])
  have ko: "key_ok hashf (hash_entries h' ! i)"
      "hash_index h (he_hash_value (hash_entries h' ! i)) = b"
    if b: "b < max_num_entries h" and i: "i \<in> set (cs ! b)" for b i
  proof -
    note E = same_links_entry [OF sl ent [OF b i]]
    show "key_ok hashf (hash_entries h' ! i)"
      using chains_ok_entry(2) [OF ch b i] by (simp add: key_ok_def E)
    have "hash_index h (he_hash_value (hash_entries h ! i)) = b" using ch b i by (simp add: chains_ok_def)
    then show "hash_index h (he_hash_value (hash_entries h' ! i)) = b" by (simp add: E)
  qed
  show "chains_ok hashf h' cs"
    unfolding chains_ok_def eqs len hi
    using chains_okD [OF ch] chains_ok_chain(2) [OF ch] chains_ok_entry(1) [OF ch]
    by (simp add: lk ky ko)
  show "slot hashf h' cs = slot hashf h cs"
  proof
    fix k
    have "bucket hashf h k < max_num_entries h" using chains_okD(1) [OF ch] by simp
    then show "slot hashf h' cs k = slot hashf h cs k"
      unfolding slot_def bk by (intro find_cong_list) (simp add: keyof_def same_links_entry(2) [OF sl ent])
  qed
qed

lemma same_links_update:
  "same_links h (h\<lparr>num_direct_entries := n,
      hash_entries := (hash_entries h)[i := (hash_entries h ! i)\<lparr>he_data := d, he_indirect := b\<rparr>]\<rparr>)"
  by (cases "i < length (hash_entries h)")
    (simp_all add: same_links_def map_update list_update_same_conv list_update_beyond)

lemma same_links_set_data: "same_links h (set_data h i d)"
  by (cases "i < length (hash_entries h)")
    (simp_all add: set_data_def same_links_def map_update list_update_same_conv list_update_beyond)

text \<open>A new entry goes to the front of its bucket's chain.\<close>

lemma linked_add:
  assumes "linked es p is" and "n < length es" and "n \<notin> set is"
  shows "linked (es[n := e]) p is"
proof (rule linked_cong [OF assms(1)])
  fix i assume "i \<in> set is"
  then have "i \<noteq> n" using assms(3) by blast
  then show "he_next (es[n := e] ! i) = he_next (es ! i)" by simp
qed simp

lemma chains_ok_add:
  fixes h :: "'d zend_accel_hash" and key :: string and ib d
  assumes ch: "chains_ok hashf h cs" and new: "slot hashf h cs key = None"
    and room: "num_entries h < max_num_entries h"
  defines "b0 \<equiv> bucket hashf h key"
  defines "h' \<equiv> add_new_entry h (hashf key (length key)) key (length key) ib d"
  defines "cs' \<equiv> cs[b0 := num_entries h # cs ! b0]"
  shows "chains_ok hashf h' cs'"
    and "slot hashf h' cs' k = (if k = key then Some (num_entries h) else slot hashf h cs k)"
proof -
  let ?n = "num_entries h"
  let ?e = "\<lparr>he_hash_value = hashf key (length key), he_key = key, he_key_length = length key,
     he_next = hash_table h ! b0, he_data = (case ib of Some j \<Rightarrow> Entry j | None \<Rightarrow> d),
     he_indirect = (ib \<noteq> None)\<rparr>"
  note D = chains_okD [OF ch]
  have es: "hash_entries h' = (hash_entries h)[?n := ?e]" and tb: "hash_table h' = (hash_table h)[b0 := Some ?n]"
    and eqs: "max_num_entries h' = max_num_entries h" "num_entries h' = Suc ?n"
    by (simp_all add: h'_def add_new_entry_def b0_def bucket_def Let_def)
  have hi: "hash_index h' = hash_index h" by (simp add: fun_eq_iff hash_index_def eqs)
  have bk: "bucket hashf h' k = bucket hashf h k" for k by (simp add: bucket_def hi)
  have n: "?n < length (hash_entries h)" using room D by simp
  have b0: "b0 < max_num_entries h" using D by (simp add: b0_def)
  have fresh: "?n \<notin> set (cs ! b)" if "b < max_num_entries h" for b
    using chains_ok_entry(1) [OF ch that] by blast
  have other: "hash_entries h' ! i = hash_entries h ! i" if "b < max_num_entries h" "i \<in> set (cs ! b)" for b i
  proof -
    have "i \<noteq> ?n" using fresh [OF that(1)] that(2) by blast
    then show ?thesis by (simp add: es)
  qed
  have ky: "map (keyof (hash_entries h')) (cs ! b) = map (keyof (hash_entries h)) (cs ! b)"
    if b: "b < max_num_entries h" for b
    by (rule map_cong) (simp_all add: keyof_def other [OF b])
  have nkey: "keyof (hash_entries h') ?n = key" using n by (simp add: keyof_def es)
  have notin: "key \<notin> keyof (hash_entries h) ` set (cs ! b0)"
    using new by (auto simp: slot_def b0_def dest: find_NoneD)
  have lk: "linked (hash_entries h') (hash_table h ! b) (cs ! b)" if b: "b < max_num_entries h" for b
    unfolding es by (rule linked_add [OF chains_ok_chain(1) [OF ch b] n fresh [OF b]])
  have nn: "hash_entries h' ! ?n = ?e" using n by (simp add: es)
  have chain: "linked (hash_entries h') (hash_table h' ! b) (cs' ! b)
      \<and> distinct (map (keyof (hash_entries h')) (cs' ! b))"
    if b: "b < max_num_entries h" for b
  proof (cases "b = b0")
    case True
    have "map (keyof (hash_entries h')) (cs' ! b0) = key # map (keyof (hash_entries h)) (cs ! b0)"
      using b0 D by (simp add: cs'_def nkey ky)
    moreover have "distinct (key # map (keyof (hash_entries h)) (cs ! b0))"
      using notin chains_ok_chain(2) [OF ch b0] by (simp add: image_set del: set_map)
    moreover have "linked (hash_entries h') (hash_table h' ! b0) (cs' ! b0)"
    proof -
      have "he_next (hash_entries h' ! ?n) = hash_table h ! b0" by (simp add: nn)
      moreover have "?n < length (hash_entries h')" using n by (simp add: es)
      moreover have "cs' ! b0 = ?n # cs ! b0" "hash_table h' ! b0 = Some ?n"
        using b0 D by (simp_all add: cs'_def tb)
      ultimately show ?thesis using lk [OF b0] by simp
    qed
    ultimately show ?thesis using True by simp
  next
    case False
    then show ?thesis using b lk [OF b] chains_ok_chain(2) [OF ch b] by (simp add: tb cs'_def ky)
  qed
  have entry: "i < Suc ?n \<and> key_ok hashf (hash_entries h' ! i)
      \<and> hash_index h (he_hash_value (hash_entries h' ! i)) = b"
    if b: "b < max_num_entries h" and i: "i \<in> set (cs' ! b)" for b i
  proof (cases "i \<in> set (cs ! b)")
    case True
    then have "hash_index h (he_hash_value (hash_entries h ! i)) = b" using ch b by (simp add: chains_ok_def)
    then show ?thesis using chains_ok_entry(1,2) [OF ch b True] by (simp add: other [OF b True])
  next
    case False
    then have "b = b0" "i = ?n" using i b D by (cases "b = b0"; simp add: cs'_def)+
    then show ?thesis using nn by (simp add: key_ok_def b0_def bucket_def)
  qed
  show "chains_ok hashf h' cs'"
    unfolding chains_ok_def hi eqs using D room chain entry by (simp add: es tb cs'_def)
  have bkk: "bucket hashf h k < max_num_entries h" using D by simp
  have old: "find (\<lambda>i. keyof (hash_entries h') i = k) (cs ! bucket hashf h k) = slot hashf h cs k"
    unfolding slot_def by (rule find_cong_list) (simp add: keyof_def other [OF bkk])
  show "slot hashf h' cs' k = (if k = key then Some ?n else slot hashf h cs k)"
    using b0 D old nkey unfolding slot_def [of _ h'] bk cs'_def
    by (cases "bucket hashf h k = b0") (auto simp: b0_def)
qed

section \<open>Unlinking\<close>

definition cut_entry :: "'d zend_accel_hash \<Rightarrow> nat \<Rightarrow> nat option \<Rightarrow> nat \<Rightarrow> 'd zend_accel_hash" where
  "cut_entry h idx last_e i =
     (let e = hash_entries h ! i;
          h1 = (if he_indirect e then h else h\<lparr>num_direct_entries := num_direct_entries h - 1\<rparr>)
      in case last_e of
           Some l \<Rightarrow> h1\<lparr>hash_entries := (hash_entries h)[l := (hash_entries h ! l)\<lparr>he_next := he_next e\<rparr>]\<rparr>
         | None \<Rightarrow> h1\<lparr>hash_table := (hash_table h)[idx := he_next e]\<rparr>)"

lemma unlink_chain_none:
  assumes "linked (hash_entries h) p is"
    and "\<And>i. i \<in> set is \<Longrightarrow> \<not> entry_matches hv key klen (hash_entries h ! i)"
  shows "unlink_chain h idx hv key klen last_e p = Some (False, h)"
  using assms by (induction "is" arbitrary: p last_e) (auto simp: unlink_chain.simps Let_def)

lemma unlink_chain_found:
  assumes "linked (hash_entries h) p (xs @ i # ys)"
    and "\<And>j. j \<in> set xs \<Longrightarrow> \<not> entry_matches hv key klen (hash_entries h ! j)"
    and "entry_matches hv key klen (hash_entries h ! i)"
  shows "unlink_chain h idx hv key klen last_e p
    = Some (True, cut_entry h idx (if xs = [] then last_e else Some (last xs)) i)"
  using assms
proof (induction xs arbitrary: p last_e)
  case Nil
  then show ?case by (simp add: unlink_chain.simps cut_entry_def Let_def)
next
  case (Cons x xs)
  then show ?case by (subst unlink_chain.simps) (simp add: Let_def)
qed

lemma linked_cut:
  assumes "linked es p (xs @ l # i # ys)" and "distinct (xs @ l # i # ys)"
  shows "linked (es[l := (es ! l)\<lparr>he_next := he_next (es ! i)\<rparr>]) p (xs @ l # ys)"
  using assms
proof (induction xs arbitrary: p)
  case Nil
  then have "linked es (he_next (es ! i)) ys" "l < length es" "l \<notin> set ys" by auto
  then show ?case using Nil by (simp add: linked_add)
qed auto

lemma distinct_chain: "distinct (map f xs) \<Longrightarrow> distinct xs"
  by (simp add: distinct_map)

text \<open>Removing entry \<open>i\<close> from its chain removes its key and no other.\<close>

lemma chains_ok_cut:
  fixes h :: "'d zend_accel_hash"
  assumes ch: "chains_ok hashf h cs" and cs: "cs ! b0 = xs @ i # ys" and b0: "b0 < max_num_entries h"
  defines "h' \<equiv> cut_entry h b0 (if xs = [] then None else Some (last xs)) i"
  defines "cs' \<equiv> cs[b0 := xs @ ys]"
  shows "chains_ok hashf h' cs'"
    and "slot hashf h' cs' k = (if k = keyof (hash_entries h) i then None else slot hashf h cs k)"
    and "num_entries h' = num_entries h"
    and "he_data (hash_entries h' ! j) = he_data (hash_entries h ! j)"
    and "he_indirect (hash_entries h' ! j) = he_indirect (hash_entries h ! j)"
proof -
  note D = chains_okD [OF ch]
  let ?es = "hash_entries h" and ?es' = "hash_entries h'"
  have eqs: "max_num_entries h' = max_num_entries h" "num_entries h' = num_entries h"
    "length ?es' = length ?es" "length (hash_table h') = length (hash_table h)"
    by (simp_all add: h'_def cut_entry_def Let_def)
  show "num_entries h' = num_entries h" by (rule eqs)
  have fields: "he_hash_value (?es' ! j) = he_hash_value (?es ! j)" "he_key (?es' ! j) = he_key (?es ! j)"
    "he_key_length (?es' ! j) = he_key_length (?es ! j)" "he_data (?es' ! j) = he_data (?es ! j)"
    "he_indirect (?es' ! j) = he_indirect (?es ! j)" for j
    by (cases "last xs < length ?es"; cases "j = last xs";
        simp add: h'_def cut_entry_def Let_def list_update_beyond)+
  show "he_data (?es' ! j) = he_data (?es ! j)" "he_indirect (?es' ! j) = he_indirect (?es ! j)"
    by (rule fields)+
  have hi: "hash_index h' = hash_index h" by (simp add: fun_eq_iff hash_index_def eqs)
  have bk: "bucket hashf h' k = bucket hashf h k" for k by (simp add: bucket_def hi)
  have ky: "keyof ?es' = keyof ?es" by (simp add: fun_eq_iff keyof_def fields)
  have ko: "key_ok hashf (?es' ! j) = key_ok hashf (?es ! j)" for j by (simp add: key_ok_def fields)
  have dis: "distinct (map (keyof ?es) (xs @ i # ys))" using chains_ok_chain(2) [OF ch b0] cs by simp
  have lk: "linked ?es (hash_table h ! b0) (xs @ i # ys)" using chains_ok_chain(1) [OF ch b0] cs by simp
  have sub: "set (cs' ! b) \<subseteq> set (cs ! b)" if "b < max_num_entries h" for b
    using that D b0 cs by (auto simp: cs'_def nth_list_update)
  have lk0: "linked ?es' (hash_table h' ! b0) (xs @ ys)"
  proof (cases xs rule: rev_cases)
    case Nil
    then show ?thesis using lk b0 D by (simp add: h'_def cut_entry_def Let_def)
  next
    case (snoc zs l)
    then show ?thesis
      using linked_cut [of ?es "hash_table h ! b0" zs l i ys] lk distinct_chain [OF dis]
      by (simp add: h'_def cut_entry_def Let_def)
  qed
  have lkb: "linked ?es' (hash_table h' ! b) (cs ! b)" if b: "b < max_num_entries h" "b \<noteq> b0" for b
  proof (cases "xs = []")
    case True
    then show ?thesis using chains_ok_chain(1) [OF ch b(1)] b by (simp add: h'_def cut_entry_def Let_def)
  next
    case False
    then have "last xs \<in> set (cs ! b0)" using cs by simp
    then have "last xs \<notin> set (cs ! b)" using chains_ok_entry(3) [OF ch] b b0 by metis
    then show ?thesis
      using chains_ok_chain(1) [OF ch b(1)] False
      by (auto simp: h'_def cut_entry_def Let_def intro!: linked_cong [where es = ?es] nth_list_update_neq)
        (metis nth_list_update_neq)
  qed
  have chain: "linked ?es' (hash_table h' ! b) (cs' ! b) \<and> distinct (map (keyof ?es') (cs' ! b))"
    if b: "b < max_num_entries h" for b
    using b lk0 lkb [OF b] D dis chains_ok_chain(2) [OF ch b] by (cases "b = b0") (auto simp: cs'_def ky)
  show "chains_ok hashf h' cs'"
    unfolding chains_ok_def hi eqs ko fields
  proof (intro conjI allI impI ballI)
    fix b j assume b: "b < max_num_entries h" and j: "j \<in> set (cs' ! b)"
    have j': "j \<in> set (cs ! b)" using sub [OF b] j by blast
    show "j < num_entries h" "key_ok hashf (?es ! j)" by (rule chains_ok_entry [OF ch b j'])+
    show "hash_index h (he_hash_value (?es ! j)) = b" using ch b j' by (simp add: chains_ok_def)
  qed (use D chain in \<open>simp_all add: cs'_def\<close>)
  have bkk: "bucket hashf h k < max_num_entries h" using D by simp
  have ki: "bucket hashf h (keyof ?es i) = b0" by (rule chains_ok_entry(3) [OF ch b0]) (simp add: cs)
  show "slot hashf h' cs' k = (if k = keyof ?es i then None else slot hashf h cs k)"
  proof (cases "bucket hashf h k = b0")
    case True
    have "cs' ! b0 = xs @ ys" using b0 D by (simp add: cs'_def)
    moreover have "find (\<lambda>j. keyof ?es j = keyof ?es i) (xs @ ys) = None"
      using dis by (auto simp: find_None_iff image_iff)
    ultimately show ?thesis using True cs
      by (simp add: slot_def bk ky find_skip)
  next
    case False
    then show ?thesis using ki b0 D by (auto simp: slot_def bk ky cs'_def)
  qed
qed

section \<open>The count of direct entries\<close>

lemma chained_ran: "chains_ok hashf h cs \<Longrightarrow> chained cs = ran (slot hashf h cs)"
  by (auto simp: ran_def dest: chained_slot slot_Some(4))

lemma chained_less: "chains_ok hashf h cs \<Longrightarrow> i \<in> chained cs \<Longrightarrow> i < num_entries h"
  by (auto dest: chained_slot slot_Some(3))

lemma directs_bound:
  assumes ch: "chains_ok hashf h cs"
  shows "finite (directs h cs)" and "card (directs h cs) \<le> num_entries h"
proof -
  have sub: "directs h cs \<subseteq> {..<num_entries h}" using chained_less [OF ch] by (auto simp: directs_def)
  show "finite (directs h cs)" by (rule finite_subset [OF sub]) simp
  show "card (directs h cs) \<le> num_entries h" using card_mono [OF _ sub] by simp
qed

lemma unat_succ_less: "unat (w :: 32 word) < n \<Longrightarrow> n < two32 \<Longrightarrow> unat (w + 1) = Suc (unat w)"
  by (simp add: unat_word_ariths two32_def)

lemma unat_pred_pos: "0 < unat (w :: 32 word) \<Longrightarrow> unat (w - 1) = unat w - 1"
  by (rule unat_minus_one) auto

lemma hash_repD:
  assumes "hash_rep hashf h cs"
  shows "chains_ok hashf h cs" "data_ok h" "unat (num_direct_entries h) = card (directs h cs)"
  using assms by (simp_all add: hash_rep_def)

section \<open>Preservation and functional behaviour\<close>

lemma add_entry_nth:
  assumes "num_entries h < length (hash_entries h)"
  shows "hash_entries (add_new_entry h hv key klen ib d) ! i =
    (if i = num_entries h
     then \<lparr>he_hash_value = hv, he_key = key, he_key_length = klen,
           he_next = hash_table h ! hash_index h hv,
           he_data = (case ib of Some j \<Rightarrow> Entry j | None \<Rightarrow> d), he_indirect = (ib \<noteq> None)\<rparr>
     else hash_entries h ! i)"
  using assms by (auto simp: add_new_entry_def Let_def)

lemma hash_rep_add:
  fixes h :: "'d zend_accel_hash" and ib d
  assumes rep: "hash_rep hashf h cs" and new: "slot hashf h cs key = None"
    and room: "num_entries h < max_num_entries h"
    and ib: "case ib of None \<Rightarrow> True | Some j \<Rightarrow> j < num_entries h \<and> \<not> he_indirect (hash_entries h ! j)"
  defines "h' \<equiv> add_new_entry h (hashf key (length key)) key (length key) ib d"
  obtains cs' where "hash_rep hashf h' cs'"
    "slot hashf h' cs' = (slot hashf h cs)(key \<mapsto> num_entries h)"
proof
  let ?n = "num_entries h" and ?cs' = "cs[bucket hashf h key := num_entries h # cs ! bucket hashf h key]"
  note ch = hash_repD(1) [OF rep] and dt = hash_repD(2) [OF rep] and ct = hash_repD(3) [OF rep]
  note D = chains_okD [OF ch]
  have ch': "chains_ok hashf h' ?cs'" unfolding h'_def by (rule chains_ok_add [OF ch new room])
  show sl: "slot hashf h' ?cs' = (slot hashf h cs)(key \<mapsto> ?n)"
    unfolding h'_def by (rule ext) (simp add: chains_ok_add(2) [OF ch new room])
  have n': "num_entries h' = Suc ?n" by (simp add: h'_def add_new_entry_def Let_def)
  have nth: "hash_entries h' ! i = (if i = ?n
     then \<lparr>he_hash_value = hashf key (length key), he_key = key, he_key_length = length key,
           he_next = hash_table h ! hash_index h (hashf key (length key)),
           he_data = (case ib of Some j \<Rightarrow> Entry j | None \<Rightarrow> d), he_indirect = (ib \<noteq> None)\<rparr>
     else hash_entries h ! i)" for i
    unfolding h'_def using room D by (subst add_entry_nth) simp_all
  have dt': "data_ok h'"
  unfolding data_ok_def n'
  proof (intro allI impI)
    fix i assume i: "i < Suc ?n" and ind: "he_indirect (hash_entries h' ! i)"
    have "\<exists>j < ?n. he_data (hash_entries h' ! i) = Entry j \<and> \<not> he_indirect (hash_entries h ! j)"
    proof (cases "i = ?n")
      case True
      then show ?thesis using ind ib by (auto simp: nth split: option.splits)
    next
      case False
      then show ?thesis using ind i dt by (simp add: nth data_ok_def)
    qed
    then obtain j where "j < ?n" "he_data (hash_entries h' ! i) = Entry j" "\<not> he_indirect (hash_entries h ! j)"
      by blast
    then show "\<exists>j < Suc ?n. he_data (hash_entries h' ! i) = Entry j \<and> \<not> he_indirect (hash_entries h' ! j)"
      by (intro exI [of _ j]) (simp add: nth)
  qed
  have ran: "chained ?cs' = insert ?n (chained cs)"
    unfolding chained_ran [OF ch'] chained_ran [OF ch] sl using new by simp
  have nn: "?n \<notin> chained cs" using chained_less [OF ch] by blast
  have "directs h' ?cs' = (if ib = None then insert ?n (directs h cs) else directs h cs)"
    using nn by (auto simp: directs_def ran nth)
  moreover have "?n \<notin> directs h cs" using nn by (simp add: directs_def)
  ultimately have "card (directs h' ?cs')
      = (if ib = None then Suc (card (directs h cs)) else card (directs h cs))"
    using directs_bound(1) [OF ch] by simp
  moreover have "num_direct_entries h' = (if ib = None then num_direct_entries h + 1 else num_direct_entries h)"
    by (simp add: h'_def add_new_entry_def Let_def)
  moreover have "unat (num_direct_entries h + 1) = Suc (unat (num_direct_entries h))"
    using unat_succ_less [of "num_direct_entries h" "max_num_entries h"] D directs_bound(2) [OF ch] room ct
    by simp
  ultimately show "hash_rep hashf h' ?cs'" using ch' dt' ct by (simp add: hash_rep_def)
qed

lemma ran_remove:
  assumes "m key = Some i" and "\<And>k. m k = Some i \<Longrightarrow> k = key"
  shows "ran (m(key := None)) = ran m - {i}"
proof (intro set_eqI iffI)
  fix x assume "x \<in> ran (m(key := None))"
  then obtain k where "k \<noteq> key" "m k = Some x" by (auto simp: ran_def split: if_splits)
  then show "x \<in> ran m - {i}" using assms(2) [of k] by (auto simp: ran_def)
next
  fix x assume "x \<in> ran m - {i}"
  then obtain k where "m k = Some x" "x \<noteq> i" by (auto simp: ran_def)
  then have "(m(key := None)) k = Some x" using assms(1) by auto
  then show "x \<in> ran (m(key := None))" by (rule ranI)
qed

lemma hash_rep_cut:
  assumes rep: "hash_rep hashf h cs" and sl: "slot hashf h cs key = Some i"
  obtains h' cs' where "zend_accel_hash_unlink hashf h key (length key) = Some (True, h')"
    "hash_rep hashf h' cs'" "slot hashf h' cs' = (slot hashf h cs)(key := None)"
    "target h' = target h" "\<forall>j. he_data (hash_entries h' ! j) = he_data (hash_entries h ! j)"
    "num_entries h' = num_entries h"
proof -
  note ch = hash_repD(1) [OF rep] and dt = hash_repD(2) [OF rep] and ct = hash_repD(3) [OF rep]
  let ?b = "bucket hashf h key" and ?hv = "hashf key (length key)"
  have b: "?b < max_num_entries h" using chains_okD(1) [OF ch] by simp
  note S = slot_Some [OF ch sl]
  obtain xs ys where split: "cs ! ?b = xs @ i # ys" using S(1) by (auto simp: in_set_conv_decomp)
  have dis: "distinct (map (keyof (hash_entries h)) (xs @ i # ys))"
    using chains_ok_chain(2) [OF ch b] split by simp
  have match: "entry_matches ?hv key (length key) (hash_entries h ! j) \<longleftrightarrow> keyof (hash_entries h) j = key"
    if "j \<in> set (cs ! ?b)" for j
    using entry_matches_key [OF chains_ok_entry(2) [OF ch b that]] by (simp add: keyof_def)
  define h' where "h' = cut_entry h ?b (if xs = [] then None else Some (last xs)) i"
  define cs' where "cs' = cs[?b := xs @ ys]"
  have un: "zend_accel_hash_unlink hashf h key (length key) = Some (True, h')"
    unfolding zend_accel_hash_unlink_def Let_def h'_def bucket_def
  proof (rule unlink_chain_found)
    show "linked (hash_entries h) (hash_table h ! hash_index h ?hv) (xs @ i # ys)"
      using chains_ok_chain(1) [OF ch b] split by (simp add: bucket_def)
    show "\<not> entry_matches ?hv key (length key) (hash_entries h ! j)" if "j \<in> set xs" for j
      using match [of j] that split dis S(2) by (auto simp: image_iff)
    show "entry_matches ?hv key (length key) (hash_entries h ! i)" using match [of i] split S(2) by simp
  qed
  note cut = chains_ok_cut [OF ch split b, folded h'_def cs'_def]
  have sl': "slot hashf h' cs' = (slot hashf h cs)(key := None)"
    by (rule ext) (simp add: cut(2) S(2))
  have tg: "target h' = target h" by (rule ext) (simp add: target_def cut(4,5))
  have dt': "data_ok h'" using dt by (simp add: data_ok_def cut(3,4,5))
  have "ran ((slot hashf h cs)(key := None)) = ran (slot hashf h cs) - {i}"
  proof (rule ran_remove)
    show "slot hashf h cs key = Some i" by (rule sl)
    fix k assume "slot hashf h cs k = Some i"
    then show "k = key" using sl by (rule slot_inj [OF ch])
  qed
  then have "chained cs' = chained cs - {i}"
    unfolding chained_ran [OF cut(1)] chained_ran [OF ch] sl' .
  then have "directs h' cs' = directs h cs - {i}" by (auto simp: directs_def cut(5))
  moreover have "num_direct_entries h'
      = (if he_indirect (hash_entries h ! i) then num_direct_entries h else num_direct_entries h - 1)"
    by (simp add: h'_def cut_entry_def Let_def split: option.splits)
  moreover have "he_indirect (hash_entries h ! i) \<Longrightarrow> directs h cs - {i} = directs h cs"
    by (auto simp: directs_def)
  moreover have "\<not> he_indirect (hash_entries h ! i) \<Longrightarrow> i \<in> directs h cs" using S(4) by (simp add: directs_def)
  ultimately have "unat (num_direct_entries h') = card (directs h' cs')"
    using ct directs_bound(1) [OF ch] unat_pred_pos [of "num_direct_entries h"]
    by (cases "he_indirect (hash_entries h ! i)") (auto simp: card_gt_0_iff)
  then have "hash_rep hashf h' cs'" using cut(1) dt' by (simp add: hash_rep_def)
  then show ?thesis by (rule that [OF un _ sl' tg allI [OF cut(4)] cut(3)])
qed

text \<open>Writing data through a found entry keeps the representation.\<close>

lemma set_data_nth:
  assumes "i < length (hash_entries h)"
  shows "hash_entries (set_data h i d) ! j
    = (if j = i then (hash_entries h ! i)\<lparr>he_data := d\<rparr> else hash_entries h ! j)"
  using assms by (simp add: set_data_def nth_list_update)

lemma hash_rep_set_data:
  assumes rep: "hash_rep hashf h cs" and t: "t < num_entries h"
    and d: "he_indirect (hash_entries h ! t)
      \<Longrightarrow> \<exists>j < num_entries h. d = Entry j \<and> \<not> he_indirect (hash_entries h ! j)"
  shows "hash_rep hashf (set_data h t d) cs" and "slot hashf (set_data h t d) cs = slot hashf h cs"
proof -
  note ch = hash_repD(1) [OF rep]
  note sl = same_links_set_data [of h t d]
  have nth: "hash_entries (set_data h t d) ! j
    = (if j = t then (hash_entries h ! t)\<lparr>he_data := d\<rparr> else hash_entries h ! j)" for j
    by (rule set_data_nth) (use t chains_okD(3,4) [OF ch] in simp)
  have ind: "he_indirect (hash_entries (set_data h t d) ! j) = he_indirect (hash_entries h ! j)" for j
    by (simp add: nth)
  have n: "num_entries (set_data h t d) = num_entries h"
    "num_direct_entries (set_data h t d) = num_direct_entries h" by (simp_all add: set_data_def)
  have "data_ok (set_data h t d)"
    using hash_repD(2) [OF rep] d unfolding data_ok_def n ind by (simp add: nth)
  then show "hash_rep hashf (set_data h t d) cs"
    using chains_ok_same_links(1) [OF sl ch] hash_repD(3) [OF rep]
    by (simp add: hash_rep_def n directs_def ind)
  show "slot hashf (set_data h t d) cs = slot hashf h cs" by (rule chains_ok_same_links(2) [OF sl ch])
qed

text \<open>An update that resolves to a plain write or to a new entry.\<close>

lemma update_unfold:
  assumes rep: "hash_rep hashf h cs"
    and ib: "if ind then \<exists>j < num_entries h. d = Entry j \<and> ib = Some (target h j) else ib = None"
  shows "zend_accel_hash_update hashf h key (length key) ind d =
    (case slot hashf h cs key of
       Some i \<Rightarrow> map_option (\<lambda>h'. (Some i, h')) (update_existing h i ib d)
     | None \<Rightarrow> if num_entries h = max_num_entries h then Some (None, h)
         else Some (Some (num_entries h), add_new_entry h (hashf key (length key)) key (length key) ib d))"
proof -
  note ch = hash_repD(1) [OF rep] and dt = hash_repD(2) [OF rep]
  have "(if ind then (case d of Entry j \<Rightarrow> map_option Some (resolve_indirect (hash_entries h) j) | _ \<Rightarrow> None)
         else Some None) = Some ib"
    using ib by (auto simp: resolve_target [OF dt])
  then show ?thesis
    by (simp add: zend_accel_hash_update_def Let_def scan_slot [OF ch] split: option.splits)
qed

definition lookup_of :: "'d zend_accel_hash \<Rightarrow> nat option \<Rightarrow> 'd hdata" where
  "lookup_of h s = (case s of None \<Rightarrow> NULL | Some t \<Rightarrow> he_data (hash_entries h ! t))"

text \<open>The data of a key is what its target entry holds.\<close>

lemma find_lookup_of:
  assumes "chains_ok hashf h cs" and "data_ok h"
  shows "zend_accel_hash_find hashf h key (length key)
    = Some (lookup_of h (map_option (target h) (slot hashf h cs key)))"
  using assms by (simp add: find_view lookup_of_def split: option.splits)

text \<open>The new entry \<open>n\<close> is not yet reachable, so adding it changes no other key's view.\<close>

lemma add_view:
  fixes h :: "'d zend_accel_hash" and ib d
  assumes rep: "hash_rep hashf h cs" and new: "slot hashf h cs key = None"
    and room: "num_entries h < max_num_entries h"
    and ib: "case ib of None \<Rightarrow> True | Some j \<Rightarrow> j < num_entries h \<and> \<not> he_indirect (hash_entries h ! j)"
  defines "h' \<equiv> add_new_entry h (hashf key (length key)) key (length key) ib d"
  shows "hash_inv hashf h'"
    and "zend_accel_hash_find_entry hashf h' k (length k) =
      (if k = key then Some (Some (case ib of None \<Rightarrow> num_entries h | Some j \<Rightarrow> j))
       else zend_accel_hash_find_entry hashf h k (length k))"
    and "zend_accel_hash_find hashf h' k (length k) =
      (if k = key then Some (case ib of None \<Rightarrow> d | Some j \<Rightarrow> he_data (hash_entries h ! j))
       else zend_accel_hash_find hashf h k (length k))"
proof -
  obtain cs' where rep': "hash_rep hashf h' cs'"
    and sl: "slot hashf h' cs' = (slot hashf h cs)(key \<mapsto> num_entries h)"
    unfolding h'_def by (rule hash_rep_add [OF rep new room ib])
  note ch = hash_repD(1) [OF rep] and dt = hash_repD(2) [OF rep]
  note ch' = hash_repD(1) [OF rep'] and dt' = hash_repD(2) [OF rep']
  show "hash_inv hashf h'" using rep' by (auto simp: hash_inv_def)
  have n: "num_entries h < length (hash_entries h)" using room chains_okD [OF ch] by simp
  note nth = add_entry_nth [OF n, of "hashf key (length key)" key "length key" ib d, folded h'_def]
  have tn: "target h' (num_entries h) = (case ib of None \<Rightarrow> num_entries h | Some j \<Rightarrow> j)"
    by (simp add: target_def nth split: option.splits)
  have to: "target h' i = target h i" if "i < num_entries h" for i
    using that by (simp add: target_def nth)
  have do: "hash_entries h' ! target h i = hash_entries h ! target h i" if "i < num_entries h" for i
    using target_ok(1) [OF dt that] by (simp add: nth)
  show "zend_accel_hash_find_entry hashf h' k (length k) =
      (if k = key then Some (Some (case ib of None \<Rightarrow> num_entries h | Some j \<Rightarrow> j))
       else zend_accel_hash_find_entry hashf h k (length k))"
    using slot_Some(3) [OF ch, of k] to
    by (cases "slot hashf h cs k") (auto simp: find_entry_view [OF ch dt] find_entry_view [OF ch' dt'] sl tn)
  show "zend_accel_hash_find hashf h' k (length k) =
      (if k = key then Some (case ib of None \<Rightarrow> d | Some j \<Rightarrow> he_data (hash_entries h ! j))
       else zend_accel_hash_find hashf h k (length k))"
    using slot_Some(3) [OF ch, of k] to do ib
    by (cases "slot hashf h cs k")
      (auto simp: find_view [OF ch dt] find_view [OF ch' dt'] sl tn nth split: option.splits)
qed

text \<open>Overwriting the data of a key through its target.\<close>

lemma set_target_view:
  fixes h :: "'d zend_accel_hash" and d
  assumes rep: "hash_rep hashf h cs" and t: "t < num_entries h" "\<not> he_indirect (hash_entries h ! t)"
  shows "hash_inv hashf (set_data h t d)"
    and "zend_accel_hash_find_entry hashf (set_data h t d) k (length k)
      = zend_accel_hash_find_entry hashf h k (length k)"
    and "zend_accel_hash_find hashf (set_data h t d) k (length k)
      = (if zend_accel_hash_find_entry hashf h k (length k) = Some (Some t) then Some d
         else zend_accel_hash_find hashf h k (length k))"
proof -
  note ch = hash_repD(1) [OF rep] and dt = hash_repD(2) [OF rep]
  have rep': "hash_rep hashf (set_data h t d) cs" and sl: "slot hashf (set_data h t d) cs = slot hashf h cs"
    using hash_rep_set_data [OF rep t(1)] t(2) by simp_all
  note ch' = hash_repD(1) [OF rep'] and dt' = hash_repD(2) [OF rep']
  show "hash_inv hashf (set_data h t d)" using rep' by (auto simp: hash_inv_def)
  have len: "t < length (hash_entries h)" using t chains_okD [OF ch] by simp
  note nth = set_data_nth [OF len, of d]
  have tg: "target (set_data h t d) i = target h i" for i using t(2) by (simp add: target_def nth)
  show "zend_accel_hash_find_entry hashf (set_data h t d) k (length k)
      = zend_accel_hash_find_entry hashf h k (length k)"
    by (cases "slot hashf h cs k")
      (simp_all add: find_entry_view [OF ch dt] find_entry_view [OF ch' dt'] sl tg)
  show "zend_accel_hash_find hashf (set_data h t d) k (length k)
      = (if zend_accel_hash_find_entry hashf h k (length k) = Some (Some t) then Some d
         else zend_accel_hash_find hashf h k (length k))"
    by (cases "slot hashf h cs k")
      (simp_all add: find_entry_view [OF ch dt] find_view [OF ch dt] find_view [OF ch' dt'] sl tg nth)
qed

section \<open>A new table\<close>

definition empty_hash :: "nat \<Rightarrow> 'd zend_accel_hash" where
  "empty_hash n = \<lparr>hash_table = replicate n None, hash_entries = replicate n zeroed_entry,
     num_entries = 0, max_num_entries = n, num_direct_entries = 0\<rparr>"

lemma hash_rep_clean:
  fixes h :: "'d zend_accel_hash"
  assumes "0 < max_num_entries h" "max_num_entries h < two32"
    "length (hash_entries h) = max_num_entries h"
  shows "hash_rep hashf (zend_accel_hash_clean h) (replicate (max_num_entries h) [])"
  using assms
  by (simp add: hash_rep_def chains_ok_def data_ok_def zend_accel_hash_clean_def directs_def chained_def)

lemma clean_view:
  fixes h :: "'d zend_accel_hash"
  assumes "0 < max_num_entries h" "max_num_entries h < two32"
    "length (hash_entries h) = max_num_entries h"
  shows "hash_inv hashf (zend_accel_hash_clean h)"
    and "zend_accel_hash_find_entry hashf (zend_accel_hash_clean h) k (length k) = Some None"
    and "zend_accel_hash_find hashf (zend_accel_hash_clean h) k (length k) = Some NULL"
proof -
  note rep = hash_rep_clean [OF assms, of hashf]
  note ch = hash_repD(1) [OF rep] and dt = hash_repD(2) [OF rep]
  show "hash_inv hashf (zend_accel_hash_clean h)" using rep by (auto simp: hash_inv_def)
  have "slot hashf (zend_accel_hash_clean h) (replicate (max_num_entries h) []) k = None"
    using assms bucket_lt [of "zend_accel_hash_clean h" hashf k]
    by (simp add: slot_def zend_accel_hash_clean_def)
  then show "zend_accel_hash_find_entry hashf (zend_accel_hash_clean h) k (length k) = Some None"
    and "zend_accel_hash_find hashf (zend_accel_hash_clean h) k (length k) = Some NULL"
    by (simp_all add: find_entry_view [OF ch dt] find_view [OF ch dt])
qed

lemma empty_hash_simps [simp]:
  "max_num_entries (empty_hash n) = n" "num_entries (empty_hash n) = 0"
  by (simp_all add: empty_hash_def)

lemma empty_hash_clean: "zend_accel_hash_clean (empty_hash n) = empty_hash n"
  by (simp add: empty_hash_def zend_accel_hash_clean_def)

lemma empty_view:
  assumes "0 < n" "n < two32"
  shows "hash_inv hashf (empty_hash n)"
    and "zend_accel_hash_find_entry hashf (empty_hash n) k (length k) = Some None"
    and "zend_accel_hash_find hashf (empty_hash n) k (length k) = Some NULL"
  using clean_view [of "empty_hash n" hashf] assms unfolding empty_hash_clean
  by (simp_all add: empty_hash_def)

lemma round_hash_size_ge: "n \<le> round_hash_size ps n"
  by (induction ps) auto

lemma round_hash_size_in: "round_hash_size ps n \<in> set ps \<union> {n}"
  by (induction ps) auto

lemma round_hash_size_least:
  "sorted ps \<Longrightarrow> p \<in> set ps \<Longrightarrow> n \<le> p \<Longrightarrow> round_hash_size ps n \<le> p"
  by (induction ps) auto

lemma prime_numbers_sorted: "sorted prime_numbers" "\<forall>p \<in> set prime_numbers. 0 < p \<and> p < two32"
  by (simp_all add: prime_numbers_def two32_def)

lemma round_hash_size_pos: "0 < round_hash_size prime_numbers n"
  by (simp add: prime_numbers_def)

lemma round_hash_size_two32: "n < two32 \<Longrightarrow> round_hash_size prime_numbers n < two32"
  using round_hash_size_in [of prime_numbers n] prime_numbers_sorted(2) by auto

section \<open>The table as an index for its clients\<close>

text \<open>
  What the include-path client relies on: it looks a name up and, when it is absent and the
  table is not full, adds it with a label made from the number of entries.
\<close>

locale shared_index =
  fixes get :: "'s \<Rightarrow> string \<Rightarrow> 'v option" and put :: "string \<Rightarrow> 'v \<Rightarrow> 's \<Rightarrow> 's option"
    and count :: "'s \<Rightarrow> nat" and full :: "'s \<Rightarrow> bool" and inv :: "'s \<Rightarrow> bool"
  assumes put_full: "inv s \<Longrightarrow> get s k = None \<Longrightarrow> full s \<Longrightarrow> put k v s = None"
    and put_ok: "inv s \<Longrightarrow> get s k = None \<Longrightarrow> \<not> full s \<Longrightarrow>
      \<exists>s'. put k v s = Some s' \<and> inv s' \<and> count s' = Suc (count s)
         \<and> (\<forall>k'. get s' k' = (if k' = k then Some v else get s k'))"
begin

definition labelled :: "(nat \<Rightarrow> 'v) \<Rightarrow> 's \<Rightarrow> bool" where
  "labelled lab s \<longleftrightarrow> inv s
     \<and> (\<forall>k v. get s k = Some v \<longrightarrow> (\<exists>i < count s. v = lab i))
     \<and> (\<forall>k k' v. get s k = Some v \<longrightarrow> get s k' = Some v \<longrightarrow> k = k')"

lemma labelled_put:
  assumes lab: "labelled lab s" and inj: "inj_on lab {..count s}" and new: "get s k = None"
    and put: "put k (lab (count s)) s = Some s'"
  shows "labelled lab s'" and "get s' k = Some (lab (count s))" and "count s' = Suc (count s)"
    and "k' \<noteq> k \<Longrightarrow> get s' k' = get s k'"
proof -
  have inv: "inv s" using lab by (simp add: labelled_def)
  have "\<not> full s" using put_full [OF inv new] put by force
  from put_ok [OF inv new this, of "lab (count s)"] put
  have s': "inv s'" "count s' = Suc (count s)"
    and get': "\<And>k'. get s' k' = (if k' = k then Some (lab (count s)) else get s k')"
    by auto
  show "get s' k = Some (lab (count s))" "count s' = Suc (count s)"
    "k' \<noteq> k \<Longrightarrow> get s' k' = get s k'" by (simp_all add: get' s')
  have fresh: "get s j \<noteq> Some (lab (count s))" for j
  proof
    assume "get s j = Some (lab (count s))"
    then obtain i where "i < count s" "lab (count s) = lab i" using lab unfolding labelled_def by blast
    then show False using inj_onD [OF inj, of "count s" i] by simp
  qed
  have old: "\<And>j v. get s j = Some v \<Longrightarrow> \<exists>i < count s. v = lab i"
    and uniq: "\<And>j j' v. get s j = Some v \<Longrightarrow> get s j' = Some v \<Longrightarrow> j = j'"
    using lab by (auto simp: labelled_def)
  show "labelled lab s'"
    unfolding labelled_def get' s'(2)
  proof (intro conjI allI impI)
    show "inv s'" by (rule s')
    fix j v assume "(if j = k then Some (lab (count s)) else get s j) = Some v"
    then show "\<exists>i < Suc (count s). v = lab i" using old [of j v] by (auto split: if_splits intro: less_SucI)
  next
    fix j j' v assume "(if j = k then Some (lab (count s)) else get s j) = Some v"
      "(if j' = k then Some (lab (count s)) else get s j') = Some v"
    then show "j = j'" using fresh [of j] fresh [of j'] uniq [of j v j'] by (auto split: if_splits)
  qed
qed

end

text \<open>The table of direct entries with client data.\<close>

definition index_get :: "hash_fn \<Rightarrow> 'd zend_accel_hash \<Rightarrow> string \<Rightarrow> 'd option" where
  "index_get hashf h k = (case zend_accel_hash_find hashf h k (length k) of Some (Obj d) \<Rightarrow> Some d | _ \<Rightarrow> None)"

definition index_put :: "hash_fn \<Rightarrow> string \<Rightarrow> 'd \<Rightarrow> 'd zend_accel_hash \<Rightarrow> 'd zend_accel_hash option" where
  "index_put hashf k d h = (case zend_accel_hash_update hashf h k (length k) False (Obj d) of
     Some (Some i, h') \<Rightarrow> Some h' | _ \<Rightarrow> None)"

definition index_inv :: "hash_fn \<Rightarrow> 'd zend_accel_hash \<Rightarrow> bool" where
  "index_inv hashf h \<longleftrightarrow> hash_inv hashf h
     \<and> (\<forall>k. zend_accel_hash_find_entry hashf h k (length k) = Some None
          \<or> (\<exists>d. zend_accel_hash_find hashf h k (length k) = Some (Obj d)))"

lemma insert_new:
  assumes inv: "hash_inv hashf h"
    and new: "zend_accel_hash_find_entry hashf h key (length key) = Some None"
  shows "zend_accel_hash_is_full h \<Longrightarrow>
      zend_accel_hash_update hashf h key (length key) False d = Some (None, h)"
    and "\<not> zend_accel_hash_is_full h \<Longrightarrow>
      \<exists>h'. zend_accel_hash_update hashf h key (length key) False d = Some (Some (num_entries h), h')
        \<and> hash_inv hashf h' \<and> num_entries h' = num_entries h + 1
        \<and> num_direct_entries h' = num_direct_entries h + 1 \<and> max_num_entries h' = max_num_entries h
        \<and> (\<forall>k. zend_accel_hash_find_entry hashf h' k (length k)
               = (if k = key then Some (Some (num_entries h)) else zend_accel_hash_find_entry hashf h k (length k)))
        \<and> (\<forall>k. zend_accel_hash_find hashf h' k (length k)
               = (if k = key then Some d else zend_accel_hash_find hashf h k (length k)))"
proof -
  obtain cs where rep: "hash_rep hashf h cs" using inv by (auto simp: hash_inv_def)
  note ch = hash_repD(1) [OF rep] and dt = hash_repD(2) [OF rep]
  have sl: "slot hashf h cs key = None" using new by (simp add: find_entry_view [OF ch dt])
  show "zend_accel_hash_update hashf h key (length key) False d = Some (None, h)"
    if "zend_accel_hash_is_full h"
    using that by (simp add: update_unfold [OF rep, of False d None] sl zend_accel_hash_is_full_def)
  assume "\<not> zend_accel_hash_is_full h"
  then have room: "num_entries h < max_num_entries h"
    using chains_okD(4) [OF ch] by (simp add: zend_accel_hash_is_full_def)
  note V = add_view [OF rep sl room, of None d, unfolded option.case, OF TrueI]
  let ?h = "add_new_entry h (hashf key (length key)) key (length key) None d"
  have u: "zend_accel_hash_update hashf h key (length key) False d = Some (Some (num_entries h), ?h)"
    using room by (simp add: update_unfold [OF rep, of False d None] sl)
  show "\<exists>h'. zend_accel_hash_update hashf h key (length key) False d = Some (Some (num_entries h), h')
        \<and> hash_inv hashf h' \<and> num_entries h' = num_entries h + 1
        \<and> num_direct_entries h' = num_direct_entries h + 1 \<and> max_num_entries h' = max_num_entries h
        \<and> (\<forall>k. zend_accel_hash_find_entry hashf h' k (length k)
               = (if k = key then Some (Some (num_entries h)) else zend_accel_hash_find_entry hashf h k (length k)))
        \<and> (\<forall>k. zend_accel_hash_find hashf h' k (length k)
               = (if k = key then Some d else zend_accel_hash_find hashf h k (length k)))"
    by (intro exI [of _ ?h] conjI u allI V) (simp_all add: add_new_entry_def Let_def)
qed

lemma find_entry_None_find:
  assumes "hash_inv hashf h" and "zend_accel_hash_find_entry hashf h k (length k) = Some None"
  shows "zend_accel_hash_find hashf h k (length k) = Some NULL"
proof -
  obtain cs where rep: "hash_rep hashf h cs" using assms(1) by (auto simp: hash_inv_def)
  show ?thesis
    using assms(2) by (simp add: find_entry_view [OF hash_repD(1,2) [OF rep]] find_view [OF hash_repD(1,2) [OF rep]])
qed

lemma index_get_None:
  assumes inv: "index_inv hashf h" and "index_get hashf h k = None"
  shows "zend_accel_hash_find_entry hashf h k (length k) = Some None"
  using assms find_entry_None_find by (fastforce simp: index_inv_def index_get_def)

interpretation index: shared_index "index_get hashf" "index_put hashf" num_entries
  zend_accel_hash_is_full "index_inv hashf"
proof
  fix s :: "'a zend_accel_hash" and k and v :: 'a
  assume inv: "index_inv hashf s" and get: "index_get hashf s k = None"
  have h: "hash_inv hashf s" using inv by (simp add: index_inv_def)
  note new = index_get_None [OF inv get]
  show "index_put hashf k v s = None" if "zend_accel_hash_is_full s"
    by (simp add: index_put_def insert_new(1) [OF h new that])
  assume "\<not> zend_accel_hash_is_full s"
  from insert_new(2) [OF h new this, of "Obj v"] obtain s'
    where u: "zend_accel_hash_update hashf s k (length k) False (Obj v) = Some (Some (num_entries s), s')"
      and s': "hash_inv hashf s'" "num_entries s' = num_entries s + 1"
      and e: "\<And>k'. zend_accel_hash_find_entry hashf s' k' (length k')
               = (if k' = k then Some (Some (num_entries s)) else zend_accel_hash_find_entry hashf s k' (length k'))"
      and f: "\<And>k'. zend_accel_hash_find hashf s' k' (length k')
               = (if k' = k then Some (Obj v) else zend_accel_hash_find hashf s k' (length k'))"
    by blast
  have "index_inv hashf s'" using inv s'(1) by (auto simp: index_inv_def e f)
  moreover have "index_get hashf s' k' = (if k' = k then Some v else index_get hashf s k')" for k'
    by (simp add: index_get_def f)
  ultimately show "\<exists>s'. index_put hashf k v s = Some s' \<and> index_inv hashf s' \<and> num_entries s' = Suc (num_entries s)
         \<and> (\<forall>k'. index_get hashf s' k' = (if k' = k then Some v else index_get hashf s k'))"
    using u s'(2) by (intro exI [of _ s']) (simp add: index_put_def)
qed

lemma overwrite_entry:
  assumes inv: "hash_inv hashf h"
    and old: "zend_accel_hash_find_entry hashf h key (length key) = Some (Some t)"
  shows "\<exists>i h'. zend_accel_hash_update hashf h key (length key) False d = Some (Some i, h')
    \<and> hash_inv hashf h' \<and> num_entries h' = num_entries h \<and> num_direct_entries h' = num_direct_entries h
    \<and> (\<forall>k. zend_accel_hash_find_entry hashf h' k (length k) = zend_accel_hash_find_entry hashf h k (length k)
         \<and> zend_accel_hash_find hashf h' k (length k)
           = (if zend_accel_hash_find_entry hashf h k (length k) = Some (Some t) then Some d
              else zend_accel_hash_find hashf h k (length k)))"
proof -
  obtain cs where rep: "hash_rep hashf h cs" using inv by (auto simp: hash_inv_def)
  note ch = hash_repD(1) [OF rep] and dt = hash_repD(2) [OF rep]
  obtain i where sl: "slot hashf h cs key = Some i" and t: "t = target h i"
    using old by (auto simp: find_entry_view [OF ch dt])
  have i: "i < num_entries h" by (rule slot_Some(3) [OF ch sl])
  have "update_existing h i None d = Some (set_data h t d)"
    using data_okD [OF dt i] by (simp add: update_existing_def Let_def t)
  then have u: "zend_accel_hash_update hashf h key (length key) False d = Some (Some i, set_data h t d)"
    by (simp add: update_unfold [OF rep, of False d None] sl)
  note V = set_target_view [OF rep target_ok [OF dt i], folded t]
  show ?thesis
    by (intro exI [of _ i] exI [of _ "set_data h t d"] conjI u allI V) (simp_all add: set_data_def)
qed

lemma insert_alias:
  assumes inv: "hash_inv hashf h"
    and new: "zend_accel_hash_find_entry hashf h key (length key) = Some None"
    and room: "\<not> zend_accel_hash_is_full h" and j: "j < num_entries h"
  shows "\<exists>t h'. resolve_indirect (hash_entries h) j = Some t
    \<and> zend_accel_hash_update hashf h key (length key) True (Entry j) = Some (Some (num_entries h), h')
    \<and> hash_inv hashf h' \<and> num_direct_entries h' = num_direct_entries h
    \<and> (\<forall>k. zend_accel_hash_find_entry hashf h' k (length k)
            = (if k = key then Some (Some t) else zend_accel_hash_find_entry hashf h k (length k))
         \<and> zend_accel_hash_find hashf h' k (length k)
            = (if k = key then Some (he_data (hash_entries h ! t)) else zend_accel_hash_find hashf h k (length k)))"
proof -
  obtain cs where rep: "hash_rep hashf h cs" using inv by (auto simp: hash_inv_def)
  note ch = hash_repD(1) [OF rep] and dt = hash_repD(2) [OF rep]
  have sl: "slot hashf h cs key = None" using new by (simp add: find_entry_view [OF ch dt])
  have rm: "num_entries h < max_num_entries h"
    using chains_okD(4) [OF ch] room by (simp add: zend_accel_hash_is_full_def)
  let ?t = "target h j"
  let ?h = "add_new_entry h (hashf key (length key)) key (length key) (Some ?t) (Entry j)"
  have u: "zend_accel_hash_update hashf h key (length key) True (Entry j) = Some (Some (num_entries h), ?h)"
    using j rm by (simp add: update_unfold [OF rep, of True "Entry j" "Some ?t"] sl)
  have ib: "case Some ?t of None \<Rightarrow> True | Some j \<Rightarrow> j < num_entries h \<and> \<not> he_indirect (hash_entries h ! j)"
    using target_ok [OF dt j] by simp
  note V = add_view [OF rep sl rm ib, where d = "Entry j", unfolded option.case]
  show ?thesis
    by (intro exI [of _ ?t] exI [of _ ?h] conjI u allI V resolve_target [OF dt j])
      (simp add: add_new_entry_def Let_def)
qed

section \<open>Properties\<close>

text \<open>A successful \<open>zend_accel_hash_init\<close> for a requested \<open>hash_size\<close> gives a
  well-formed table that finds no key. Its capacity is at least the requested size, and is the
  least of the listed sizes that is, when one is.\<close>

theorem hash_init_ok:
  assumes "zend_accel_hash_init v hash_size g = Inr (Some h, g')" and "hash_size < two32"
  shows "hash_inv hashf h \<and> hash_size \<le> max_num_entries h
    \<and> (\<forall>p \<in> set prime_numbers. hash_size \<le> p \<longrightarrow> max_num_entries h \<le> p)
    \<and> (\<forall>k. zend_accel_hash_find hashf h k (length k) = Some NULL)"
proof -
  let ?n = "round_hash_size prime_numbers hash_size"
  have h: "h = empty_hash ?n"
    using assms(1) by (auto simp: zend_accel_hash_init_def Let_def empty_hash_def
        split: sum.splits prod.splits option.splits)
  show ?thesis
    using round_hash_size_ge [of hash_size] round_hash_size_least [OF prime_numbers_sorted(1)]
    by (simp add: h empty_view round_hash_size_pos round_hash_size_two32 assms(2))
qed

definition demo_hash :: "hash_fn" where
  "demo_hash k n = of_nat n"

lemma demo_aligned:
  "ZEND_ALIGNED_SIZE 40 mod two32 = 40" "ZEND_ALIGNED_SIZE 240 mod two32 = 240"
  by (simp_all add: ZEND_ALIGNED_SIZE_def PLATFORM_ALIGNMENT_def two64_def two32_def)

lemma hash_init_ok_witness:
  "\<exists>h g'. zend_accel_hash_init 1 3 demo_smm = Inr (Some (h :: nat zend_accel_hash), g')
     \<and> hash_inv demo_hash h \<and> zend_accel_hash_find demo_hash h ''a'' 1 = Some NULL"
proof -
  have "\<exists>h g'. zend_accel_hash_init 1 3 demo_smm = Inr (Some (h :: nat zend_accel_hash), g')"
    by (simp add: zend_accel_hash_init_def prime_numbers_def sizeof_ptr_def sizeof_hash_entry_def
        zend_shared_alloc_locked demo_aligned Let_def demo_smm_def block_free_def sub64_def two64_def)
  then obtain h :: "nat zend_accel_hash" and g' where r: "zend_accel_hash_init 1 3 demo_smm = Inr (Some h, g')"
    by blast
  have "(3::nat) < two32" by (simp add: two32_def)
  from hash_init_ok [OF r this, of demo_hash] r show ?thesis
    by (intro exI [of _ h] exI [of _ g']) (auto dest: spec [of _ "''a''"])
qed

text \<open>C2. Inserting a key that the table does not hold: when the table is full the call
  returns \<open>NULL\<close> and changes nothing; otherwise the key gets the next entry of the array and
  its data, the invariant holds again, and the look-up of every other key is unchanged.\<close>

theorem hash_update_new:
  assumes inv: "hash_inv hashf h"
    and new: "zend_accel_hash_find_entry hashf h key (length key) = Some None"
  shows "\<exists>r h'. zend_accel_hash_update hashf h key (length key) False d = Some (r, h')
    \<and> (if zend_accel_hash_is_full h then r = None \<and> h' = h
       else r = Some (num_entries h) \<and> hash_inv hashf h' \<and> num_entries h' = num_entries h + 1
         \<and> num_direct_entries h' = num_direct_entries h + 1
         \<and> (\<forall>k. zend_accel_hash_find hashf h' k (length k)
               = (if k = key then Some d else zend_accel_hash_find hashf h k (length k))))"
proof -
  show ?thesis
    using insert_new(1) [OF inv new, of d] insert_new(2) [OF inv new, of d]
    by (cases "zend_accel_hash_is_full h") auto
qed

definition demo_table :: "nat zend_accel_hash" where
  "demo_table = add_new_entry (empty_hash 5) (demo_hash ''a'' 1) ''a'' 1 None (Obj 7)"

lemma demo_table_view:
  "hash_inv demo_hash demo_table"
  "zend_accel_hash_find_entry demo_hash demo_table k (length k) = Some (if k = ''a'' then Some 0 else None)"
  "zend_accel_hash_find demo_hash demo_table k (length k) = Some (if k = ''a'' then Obj 7 else NULL)"
  "num_entries demo_table = 1" "max_num_entries demo_table = 5"
  "\<not> he_indirect (hash_entries demo_table ! 0)"
proof -
  have b: "(0::nat) < 5" "(5::nat) < two32" by (simp_all add: two32_def)
  have "hash_inv demo_hash (empty_hash 5 :: nat zend_accel_hash)" by (rule empty_view(1) [OF b])
  then obtain cs where rep: "hash_rep demo_hash (empty_hash 5 :: nat zend_accel_hash) cs"
    by (auto simp: hash_inv_def)
  note ch = hash_repD(1) [OF rep] and dt = hash_repD(2) [OF rep]
  have sl: "slot demo_hash (empty_hash 5 :: nat zend_accel_hash) cs ''a'' = None"
    using trans [OF sym [OF find_entry_view [OF ch dt]] empty_view(2) [OF b, of demo_hash]] by simp
  note V = add_view [OF rep sl _, of None "Obj 7", simplified]
  show "hash_inv demo_hash demo_table"
    "zend_accel_hash_find_entry demo_hash demo_table k (length k) = Some (if k = ''a'' then Some 0 else None)"
    "zend_accel_hash_find demo_hash demo_table k (length k) = Some (if k = ''a'' then Obj 7 else NULL)"
    using V empty_view(2,3) [OF b] unfolding demo_table_def by auto
  show "num_entries demo_table = 1" "max_num_entries demo_table = 5" "\<not> he_indirect (hash_entries demo_table ! 0)"
    by (simp_all add: demo_table_def add_new_entry_def Let_def empty_hash_def)
qed

lemma hash_update_new_witness:
  "\<exists>h'. zend_accel_hash_update demo_hash demo_table ''b'' 1 False (Obj 3) = Some (Some 1, h')
     \<and> zend_accel_hash_find demo_hash h' ''b'' 1 = Some (Obj 3)
     \<and> zend_accel_hash_find demo_hash h' ''a'' 1 = Some (Obj 7)"
proof -
  have "zend_accel_hash_find_entry demo_hash demo_table ''b'' (length ''b'') = Some None"
    by (simp only: demo_table_view) simp
  from hash_update_new [OF demo_table_view(1) this, of "Obj 3"]
  obtain h' where u: "zend_accel_hash_update demo_hash demo_table ''b'' 1 False (Obj 3) = Some (Some 1, h')"
    and f: "\<And>k. zend_accel_hash_find demo_hash h' k (length k)
        = (if k = ''b'' then Some (Obj 3) else zend_accel_hash_find demo_hash demo_table k (length k))"
    by (auto simp: zend_accel_hash_is_full_def demo_table_view(4,5))
  show ?thesis using u f [of "''b''"] f [of "''a''"] demo_table_view(3) [of "''a''"] by auto
qed

text \<open>Updating a key the table holds writes the data of the entry that the key resolves to:
  every key that resolves to this entry, the key itself and its aliases, now finds the new
  data, every other look-up is unchanged, and no key changes its entry.\<close>

theorem hash_update_overwrite:
  assumes inv: "hash_inv hashf h"
    and old: "zend_accel_hash_find_entry hashf h key (length key) = Some (Some t)"
  shows "\<exists>i h'. zend_accel_hash_update hashf h key (length key) False d = Some (Some i, h')
    \<and> hash_inv hashf h' \<and> num_entries h' = num_entries h \<and> num_direct_entries h' = num_direct_entries h
    \<and> (\<forall>k. zend_accel_hash_find_entry hashf h' k (length k) = zend_accel_hash_find_entry hashf h k (length k)
         \<and> zend_accel_hash_find hashf h' k (length k)
           = (if zend_accel_hash_find_entry hashf h k (length k) = Some (Some t) then Some d
              else zend_accel_hash_find hashf h k (length k)))"
  by (rule overwrite_entry [OF assms])

lemma hash_update_overwrite_witness:
  "\<exists>h'. zend_accel_hash_update demo_hash demo_table ''a'' 1 False (Obj 9) = Some (Some 0, h')
     \<and> zend_accel_hash_find demo_hash h' ''a'' 1 = Some (Obj 9)"
proof -
  have fe: "zend_accel_hash_find_entry demo_hash demo_table ''a'' (length ''a'') = Some (Some 0)"
    by (simp only: demo_table_view) simp
  from hash_update_overwrite [OF demo_table_view(1) this, of "Obj 9"]
  obtain i h' where u: "zend_accel_hash_update demo_hash demo_table ''a'' 1 False (Obj 9) = Some (Some i, h')"
    and f: "zend_accel_hash_find demo_hash h' ''a'' 1 = Some (Obj 9)"
    using fe by (auto dest: spec [of _ "''a''"])
  have "zend_accel_hash_update demo_hash demo_table ''a'' 1 False (Obj 9) = Some (Some 0, set_data demo_table 0 (Obj 9))"
    by (simp add: zend_accel_hash_update_def demo_table_def add_new_entry_def empty_hash_def demo_hash_def
        Let_def hash_index_def scan_chain.simps entry_matches_def update_existing_def)
  then show ?thesis using u f by simp
qed

text \<open>C39. Adding an alias (\<open>indirect\<close>) for a used entry \<open>j\<close> under a key the table does not
  hold, in a table with room: the new key resolves to the direct entry behind \<open>j\<close>, finds its
  data, and no other key changes; the alias is not counted as a direct entry.\<close>

theorem hash_update_alias:
  assumes inv: "hash_inv hashf h"
    and new: "zend_accel_hash_find_entry hashf h key (length key) = Some None"
    and room: "\<not> zend_accel_hash_is_full h" and j: "j < num_entries h"
  shows "\<exists>t h'. resolve_indirect (hash_entries h) j = Some t
    \<and> zend_accel_hash_update hashf h key (length key) True (Entry j) = Some (Some (num_entries h), h')
    \<and> hash_inv hashf h' \<and> num_direct_entries h' = num_direct_entries h
    \<and> (\<forall>k. zend_accel_hash_find_entry hashf h' k (length k)
            = (if k = key then Some (Some t) else zend_accel_hash_find_entry hashf h k (length k))
         \<and> zend_accel_hash_find hashf h' k (length k)
            = (if k = key then Some (he_data (hash_entries h ! t)) else zend_accel_hash_find hashf h k (length k)))"
  by (rule insert_alias [OF assms])

lemma hash_update_alias_witness:
  "\<exists>h'. zend_accel_hash_update demo_hash demo_table ''b'' 1 True (Entry 0) = Some (Some 1, h')
     \<and> zend_accel_hash_find demo_hash h' ''b'' 1 = Some (Obj 7)"
proof -
  have e: "zend_accel_hash_find_entry demo_hash demo_table ''b'' (length ''b'') = Some None"
    by (simp only: demo_table_view) simp
  have d: "he_data (hash_entries demo_table ! 0) = Obj 7" "resolve_indirect (hash_entries demo_table) 0 = Some 0"
    using demo_table_view(6)
    by (simp_all add: resolve_indirect.simps) (simp add: demo_table_def add_new_entry_def empty_hash_def Let_def)
  have "\<not> zend_accel_hash_is_full demo_table" "0 < num_entries demo_table"
    by (simp_all add: zend_accel_hash_is_full_def demo_table_view(4,5))
  from hash_update_alias [OF demo_table_view(1) e this] d
  show ?thesis by (auto simp: demo_table_view(4) dest: spec [of _ "''b''"])
qed

lemma unlink_absent:
  assumes rep: "hash_rep hashf h cs" and sl: "slot hashf h cs key = None"
  shows "zend_accel_hash_unlink hashf h key (length key) = Some (False, h)"
proof -
  note ch = hash_repD(1) [OF rep]
  have b: "bucket hashf h key < max_num_entries h" using chains_okD(1) [OF ch] by simp
  show ?thesis
    unfolding zend_accel_hash_unlink_def Let_def
  proof (rule unlink_chain_none)
    show "linked (hash_entries h) (hash_table h ! hash_index h (hashf key (length key))) (cs ! bucket hashf h key)"
      using chains_ok_chain(1) [OF ch b] by (simp add: bucket_def)
    fix i assume i: "i \<in> set (cs ! bucket hashf h key)"
    have "keyof (hash_entries h) i \<noteq> key" using sl i unfolding slot_def by (rule find_NoneD)
    then show "\<not> entry_matches (hashf key (length key)) key (length key) (hash_entries h ! i)"
      using entry_matches_key [OF chains_ok_entry(2) [OF ch b i]] by (simp add: keyof_def)
  qed
qed

text \<open>C3. \<open>zend_accel_hash_unlink\<close> reports whether the key was there; afterwards the key is
  gone, every other key, an alias of the removed entry included, finds what it found before,
  and the freed entry is not reused.\<close>

theorem hash_unlink_ok:
  assumes inv: "hash_inv hashf h"
  shows "\<exists>h'. zend_accel_hash_unlink hashf h key (length key)
      = Some (zend_accel_hash_find_entry hashf h key (length key) \<noteq> Some None, h')
    \<and> hash_inv hashf h' \<and> num_entries h' = num_entries h
    \<and> (\<forall>k. zend_accel_hash_find_entry hashf h' k (length k)
            = (if k = key then Some None else zend_accel_hash_find_entry hashf h k (length k))
         \<and> zend_accel_hash_find hashf h' k (length k)
            = (if k = key then Some NULL else zend_accel_hash_find hashf h k (length k)))"
proof -
  obtain cs where rep: "hash_rep hashf h cs" using inv by (auto simp: hash_inv_def)
  note ch = hash_repD(1) [OF rep] and dt = hash_repD(2) [OF rep]
  note view = find_entry_view [OF ch dt] find_view [OF ch dt]
  show ?thesis
  proof (cases "slot hashf h cs key")
    case None
    then show ?thesis using inv by (simp add: unlink_absent [OF rep None] view)
  next
    case (Some i)
    obtain h' cs' where u: "zend_accel_hash_unlink hashf h key (length key) = Some (True, h')"
      and rep': "hash_rep hashf h' cs'" and sl: "slot hashf h' cs' = (slot hashf h cs)(key := None)"
      and tg: "target h' = target h" and da: "\<forall>j. he_data (hash_entries h' ! j) = he_data (hash_entries h ! j)"
      and n: "num_entries h' = num_entries h"
      by (rule hash_rep_cut [OF rep Some])
    note view' = find_entry_view [OF hash_repD(1,2) [OF rep']] find_view [OF hash_repD(1,2) [OF rep']]
    have "hash_inv hashf h'" using rep' by (auto simp: hash_inv_def)
    then show ?thesis using u Some n by (auto simp: view view' sl tg da split: option.splits)
  qed
qed

lemma hash_unlink_ok_witness:
  "\<exists>h'. zend_accel_hash_unlink demo_hash demo_table ''a'' 1 = Some (True, h')
     \<and> zend_accel_hash_find demo_hash h' ''a'' 1 = Some NULL"
proof -
  have "zend_accel_hash_find_entry demo_hash demo_table ''a'' (length ''a'') = Some (Some 0)"
    by (simp only: demo_table_view) simp
  then show ?thesis
    using hash_unlink_ok [OF demo_table_view(1), of "''a''"] by (auto dest: spec [of _ "''a''"])
qed

text \<open>The entry that has the key \<open>k\<close>, as the functions of the table search for it.\<close>

definition has_key :: "hash_fn \<Rightarrow> 'd zend_accel_hash \<Rightarrow> string \<Rightarrow> nat \<Rightarrow> bool" where
  "has_key hashf h k i \<longleftrightarrow>
     scan_chain (hash_entries h) (hashf k (length k)) k (length k) (hash_table h ! hash_index h (hashf k (length k))) = Some (Some i)"

lemma has_key_slot: "chains_ok hashf h cs \<Longrightarrow> has_key hashf h k i \<longleftrightarrow> slot hashf h cs k = Some i"
  by (simp add: has_key_def scan_slot)

text \<open>C4. Making a key that has aliases an alias itself breaks them. In any well-formed table let entry
  \<open>i\<close> hold the data of \<open>key\<close> and let \<open>old\<close> be an alias of it. Once \<open>key\<close> is updated to an alias of
  another entry \<open>j\<close>, it finds the data of \<open>j\<close>, but a look-up of \<open>old\<close> returns a pointer to that entry
  where the client expects data, because \<open>zend_accel_hash_find\<close> follows one step of indirection only;
  the table is not well-formed any more.\<close>

theorem hash_alias_chain_broken:
  assumes inv: "hash_inv hashf h" and i: "has_key hashf h key i" "\<not> he_indirect (hash_entries h ! i)"
    and old: "old \<noteq> key" "zend_accel_hash_find_entry hashf h old (length old) = Some (Some i)"
    and j: "j < num_entries h" "resolve_indirect (hash_entries h) j = Some t" "t \<noteq> i"
  shows "\<exists>h'. zend_accel_hash_update hashf h key (length key) True (Entry j) = Some (Some i, h')
    \<and> zend_accel_hash_find hashf h' key (length key) = Some (he_data (hash_entries h ! t))
    \<and> zend_accel_hash_find hashf h' old (length old) = Some (Entry t) \<and> \<not> hash_inv hashf h'"
proof -
  obtain cs where rep: "hash_rep hashf h cs" using inv by (auto simp: hash_inv_def)
  note ch = hash_repD(1) [OF rep] and dt = hash_repD(2) [OF rep]
  have si: "slot hashf h cs key = Some i" using i(1) by (simp add: has_key_slot [OF ch])
  have il: "i < length (hash_entries h)" using slot_Some(3) [OF ch si] chains_okD(3,4) [OF ch] by simp
  have t: "t = target h j" using j(2) resolve_target [OF dt j(1)] by simp
  obtain o2 where o2: "slot hashf h cs old = Some o2" "target h o2 = i"
    using old(2) by (auto simp: find_entry_view [OF ch dt])
  have oi: "o2 \<noteq> i" using slot_inj [OF ch si] o2(1) old(1) by blast
  then have ind: "he_indirect (hash_entries h ! o2)" using o2(2) target_direct by metis
  then have od: "he_data (hash_entries h ! o2) = Entry i" using data_okD [OF dt slot_Some(3) [OF ch o2(1)]] o2(2) by simp
  let ?h = "h\<lparr>num_direct_entries := num_direct_entries h - 1,
    hash_entries := (hash_entries h)[i := (hash_entries h ! i)\<lparr>he_data := Entry t, he_indirect := True\<rparr>]\<rparr>"
  have u: "zend_accel_hash_update hashf h key (length key) True (Entry j) = Some (Some i, ?h)"
    using j(1) t i(2) by (simp add: update_unfold [OF rep, of True "Entry j" "Some t"] si update_existing_def Let_def)
  note links = chains_ok_same_links [OF same_links_update ch]
  have s': "slot hashf ?h cs = slot hashf h cs" by (rule links(2))
  have ch': "chains_ok hashf ?h cs" by (rule links(1))
  have f: "zend_accel_hash_find hashf ?h k (length k) = (case slot hashf h cs k of None \<Rightarrow> Some NULL
      | Some i \<Rightarrow> if he_indirect (hash_entries ?h ! i)
          then (case he_data (hash_entries ?h ! i) of Entry j \<Rightarrow> Some (he_data (hash_entries ?h ! j)) | _ \<Rightarrow> None)
          else Some (he_data (hash_entries ?h ! i)))" for k
    unfolding zend_accel_hash_find_def Let_def scan_slot [OF ch'] s' by (simp split: option.split)
  have "zend_accel_hash_find hashf ?h key (length key) = Some (he_data (hash_entries h ! t))"
    unfolding f si using il j(3) by simp
  moreover have o: "zend_accel_hash_find hashf ?h old (length old) = Some (Entry t)"
    unfolding f o2(1) using il oi ind od by simp
  moreover have "\<not> hash_inv hashf ?h"
  proof
    assume "hash_inv hashf ?h"
    then obtain cs' where rep': "hash_rep hashf ?h cs'" by (auto simp: hash_inv_def)
    have "i < num_entries ?h" "o2 < num_entries ?h" using slot_Some(3) [OF ch si] slot_Some(3) [OF ch o2(1)] by simp_all
    then have "\<not> he_indirect (hash_entries ?h ! i)"
      using hash_repD(2) [OF rep'] ind od oi il by (force simp: data_ok_def)
    then show False using il by simp
  qed
  ultimately show ?thesis using u by blast
qed

text \<open>Key \<open>''a''\<close> holds the data 7, \<open>''b''\<close> is its alias and \<open>''c''\<close> holds 8.\<close>

definition demo_alias :: "nat zend_accel_hash" where
  "demo_alias = add_new_entry demo_table (demo_hash ''b'' 1) ''b'' 1 (Some 0) (Entry 0)"

definition demo_aliased :: "nat zend_accel_hash" where
  "demo_aliased = add_new_entry demo_alias (demo_hash ''c'' 1) ''c'' 1 None (Obj 8)"

lemmas demo_aliased_eval = demo_aliased_def demo_alias_def demo_table_def add_new_entry_def empty_hash_def demo_hash_def
  hash_index_def Let_def scan_chain.simps entry_matches_def resolve_indirect.simps zend_accel_hash_update_def
  zend_accel_hash_find_entry_def numeral_2_eq_2 zend_accel_hash_is_full_def has_key_def

lemma demo_aliased_inv: "hash_inv demo_hash demo_aliased"
proof -
  have e: "zend_accel_hash_find_entry demo_hash demo_table ''b'' (length ''b'') = Some None"
    by (simp only: demo_table_view) simp
  have d: "\<not> zend_accel_hash_is_full demo_table" "0 < num_entries demo_table" by (simp_all add: demo_aliased_eval)
  have "zend_accel_hash_update demo_hash demo_table ''b'' 1 True (Entry 0) = Some (Some 1, demo_alias)"
    by (simp add: demo_aliased_eval)
  then have a: "hash_inv demo_hash demo_alias" using insert_alias [OF demo_table_view(1) e d] by auto
  have e: "zend_accel_hash_find_entry demo_hash demo_alias ''c'' (length ''c'') = Some None" "\<not> zend_accel_hash_is_full demo_alias"
    by (simp_all add: demo_aliased_eval)
  have "zend_accel_hash_update demo_hash demo_alias ''c'' 1 False (Obj 8) = Some (Some 2, demo_aliased)"
    by (simp add: demo_aliased_eval)
  then show ?thesis using insert_new(2) [OF a e, of "Obj 8"] by auto
qed

lemma hash_alias_chain_broken_witness:
  "\<exists>h'. zend_accel_hash_update demo_hash demo_aliased ''a'' 1 True (Entry 2) = Some (Some 0, h')
     \<and> zend_accel_hash_find demo_hash h' ''a'' 1 = Some (Obj 8) \<and> zend_accel_hash_find demo_hash h' ''b'' 1 = Some (Entry 2)"
proof -
  have d: "has_key demo_hash demo_aliased ''a'' 0" "\<not> he_indirect (hash_entries demo_aliased ! 0)" "''b'' \<noteq> ''a''"
    "zend_accel_hash_find_entry demo_hash demo_aliased ''b'' (length ''b'') = Some (Some 0)"
    "2 < num_entries demo_aliased" "resolve_indirect (hash_entries demo_aliased) 2 = Some 2" "(2::nat) \<noteq> 0"
    "he_data (hash_entries demo_aliased ! 2) = Obj 8"
    by (simp_all add: demo_aliased_eval)
  from hash_alias_chain_broken [OF demo_aliased_inv d(1-7)] d(8) show ?thesis by auto
qed

end
