(* ===== verification/Checksum.thy ===== *)
theory Checksum
  imports Prelude
begin

text \<open>
  The checksum of a cached script: \<open>zend_adler32\<close> of \<open>zend_accelerator_util_funcs.c\<close>
  with its unrolled loops and its block size, on 32-bit words and signed bytes, against the
  Adler-32 of RFC 1950; and \<open>zend_accel_script_checksum\<close> of \<open>ZendAccelerator.c\<close>, which
  runs it over the shared block of a script.
\<close>

unbundle bit_operations_syntax

section \<open>The code\<close>

definition ADLER32_BASE :: "32 word" where "ADLER32_BASE = 65521"
definition ADLER32_NMAX :: nat where "ADLER32_NMAX = 5552"
definition ADLER32_INIT :: "32 word" where "ADLER32_INIT = 1"

type_synonym sums = "32 word \<times> 32 word"

text \<open>\<open>s1 += *buf; s2 += s1\<close>: the byte is a \<open>signed char\<close> and is sign-extended.\<close>

definition add_byte :: "sums \<Rightarrow> 8 word \<Rightarrow> sums" where
  "add_byte s c = (let s1 = fst s + scast c in (s1, snd s + s1))"

definition ADLER32_DO1 :: "8 word list \<Rightarrow> nat \<Rightarrow> sums \<Rightarrow> sums" where
  "ADLER32_DO1 buf i s = add_byte s (buf ! i)"

definition ADLER32_DO2 :: "8 word list \<Rightarrow> nat \<Rightarrow> sums \<Rightarrow> sums" where
  "ADLER32_DO2 buf i s = ADLER32_DO1 buf (i + 1) (ADLER32_DO1 buf i s)"

definition ADLER32_DO4 :: "8 word list \<Rightarrow> nat \<Rightarrow> sums \<Rightarrow> sums" where
  "ADLER32_DO4 buf i s = ADLER32_DO2 buf (i + 2) (ADLER32_DO2 buf i s)"

definition ADLER32_DO8 :: "8 word list \<Rightarrow> nat \<Rightarrow> sums \<Rightarrow> sums" where
  "ADLER32_DO8 buf i s = ADLER32_DO4 buf (i + 4) (ADLER32_DO4 buf i s)"

definition ADLER32_DO16 :: "8 word list \<Rightarrow> sums \<Rightarrow> sums" where
  "ADLER32_DO16 buf s = ADLER32_DO8 buf 8 (ADLER32_DO8 buf 0 s)"

text \<open>\<open>do { ADLER32_DO16(buf); buf += 16; } while (buf != end)\<close> with \<open>end\<close> sixteen times
  \<open>n\<close> bytes ahead, and \<open>do { ADLER32_DO1(buf); buf++; } while (buf != end)\<close>.\<close>

fun loop16 :: "nat \<Rightarrow> 8 word list \<Rightarrow> sums \<Rightarrow> sums \<times> 8 word list" where
  "loop16 0 buf s = (s, buf)"
| "loop16 (Suc n) buf s = loop16 n (drop 16 buf) (ADLER32_DO16 buf s)"

fun loop1 :: "nat \<Rightarrow> 8 word list \<Rightarrow> sums \<Rightarrow> sums" where
  "loop1 0 buf s = s"
| "loop1 (Suc n) buf s = loop1 n (drop 1 buf) (ADLER32_DO1 buf 0 s)"

definition reduce :: "sums \<Rightarrow> sums" where
  "reduce s = (fst s mod ADLER32_BASE, snd s mod ADLER32_BASE)"

definition adler_tail :: "nat \<Rightarrow> 8 word list \<Rightarrow> sums \<Rightarrow> sums" where
  "adler_tail len buf s =
     (if len = 0 then s
      else (let (s', buf', len') =
                  (if len \<ge> 16
                   then (let r = loop16 (len div 16) buf s in (fst r, snd r, len mod 16))
                   else (s, buf, len))
            in reduce (if len' = 0 then s' else loop1 len' buf' s')))"

function adler_blocks :: "nat \<Rightarrow> 8 word list \<Rightarrow> sums \<Rightarrow> sums" where
  "adler_blocks len buf s =
     (if len \<ge> ADLER32_NMAX
      then (let r = loop16 (ADLER32_NMAX div 16) buf s
            in adler_blocks (len - ADLER32_NMAX) (snd r) (reduce (fst r)))
      else adler_tail len buf s)"
  by pat_completeness auto
termination by (relation "measure fst") (auto simp: ADLER32_NMAX_def)

declare adler_blocks.simps [simp del]

definition zend_adler32 :: "32 word \<Rightarrow> 8 word list \<Rightarrow> nat \<Rightarrow> 32 word" where
  "zend_adler32 checksum buf len =
     (let s = adler_blocks len buf (checksum AND 0xffff, drop_bit 16 checksum AND 0xffff)
      in push_bit 16 (snd s) OR fst s)"

text \<open>
  The script's block: \<open>p\<close> is the address of the \<open>zend_persistent_script\<close>, \<open>mem\<close> and
  \<open>sz\<close> its shared block, \<open>k\<close> the offset of \<open>dynamic_members\<close> and \<open>so\<close> the size of
  the structure. \<open>bytes m a n\<close> are the \<open>n\<close> bytes from address \<open>a\<close>. The length
  parameter of \<open>zend_adler32\<close> is a 32-bit \<open>uint\<close>; the result of the second call is not
  used by the code.
\<close>

definition bytes :: "(nat \<Rightarrow> 8 word) \<Rightarrow> nat \<Rightarrow> nat \<Rightarrow> 8 word list" where
  "bytes m a n = map (\<lambda>i. m (a + i)) [0..<n]"

definition adler_at :: "32 word \<Rightarrow> (nat \<Rightarrow> 8 word) \<Rightarrow> nat \<Rightarrow> nat \<Rightarrow> 32 word" where
  "adler_at checksum m a n = zend_adler32 checksum (bytes m a (n mod two32)) (n mod two32)"

definition zend_accel_script_checksum ::
  "(nat \<Rightarrow> 8 word) \<Rightarrow> nat \<Rightarrow> nat \<Rightarrow> nat \<Rightarrow> nat \<Rightarrow> nat \<Rightarrow> 32 word" where
  "zend_accel_script_checksum m p k so mem sz =
     (let (checksum, sz, mem) =
            (if mem < p
             then (adler_at ADLER32_INIT m mem (p - mem), sub64 sz (p - mem), p)
             else (ADLER32_INIT, sz, mem));
          unused = adler_at checksum m mem k;
          mem = mem + so;
          sz = sub64 sz so
      in if sz > 0 then adler_at checksum m mem sz else checksum)"

section \<open>The loops as folds\<close>

lemma DO16_foldl:
  assumes "16 \<le> length buf"
  shows "ADLER32_DO16 buf s = foldl add_byte s (take 16 buf)"
proof -
  have "take 16 buf = map ((!) buf) [0..<16]"
    using assms by (simp add: list_eq_iff_nth_eq)
  also have "\<dots> = map ((!) buf) [0,1,2,3,4,5,6,7,8,9,10,11,12,13,14,15]"
    by (simp add: upt_rec eval_nat_numeral)
  finally show ?thesis
    by (simp add: ADLER32_DO16_def ADLER32_DO8_def ADLER32_DO4_def ADLER32_DO2_def ADLER32_DO1_def
        eval_nat_numeral)
qed

lemma loop16_foldl:
  "16 * n \<le> length buf \<Longrightarrow> loop16 n buf s = (foldl add_byte s (take (16 * n) buf), drop (16 * n) buf)"
proof (induction n arbitrary: buf s)
  case (Suc n)
  have "take (16 * Suc n) buf = take 16 buf @ take (16 * n) (drop 16 buf)"
    by (simp add: take_add)
  then show ?case using Suc by (simp add: DO16_foldl add.commute)
qed simp

lemma loop1_foldl: "n \<le> length buf \<Longrightarrow> loop1 n buf s = foldl add_byte s (take n buf)"
proof (induction n arbitrary: buf s)
  case (Suc n)
  then obtain b bs where "buf = b # bs" by (cases buf) auto
  then show ?case using Suc by (simp add: ADLER32_DO1_def)
qed simp

lemma adler_tail_foldl:
  assumes "len \<le> length buf"
  shows "adler_tail len buf s = (if len = 0 then s else reduce (foldl add_byte s (take len buf)))"
proof (cases "len \<ge> 16")
  case True
  have split: "take len buf = take (16 * (len div 16)) buf @ take (len mod 16) (drop (16 * (len div 16)) buf)"
    using take_add [of "16 * (len div 16)" "len mod 16" buf] by simp
  have "16 * (len div 16) \<le> length buf" using assms by (metis le_trans times_div_less_eq_dividend)
  moreover have "len mod 16 \<le> length (drop (16 * (len div 16)) buf)"
    using assms by (simp add: le_diff_conv2 minus_mod_eq_mult_div [symmetric])
  ultimately show ?thesis
    using True by (auto simp: adler_tail_def Let_def loop16_foldl loop1_foldl split)
next
  case False
  then show ?thesis using assms by (auto simp: adler_tail_def loop1_foldl)
qed

section \<open>Adler-32\<close>

text \<open>RFC 1950: both sums are kept modulo 65521 and the result is \<open>b * 65536 + a\<close>.\<close>

fun adler_spec :: "nat \<Rightarrow> nat \<Rightarrow> 8 word list \<Rightarrow> nat \<times> nat" where
  "adler_spec a b [] = (a, b)"
| "adler_spec a b (c # cs) =
     (let a' = (a + unat c) mod 65521 in adler_spec a' ((b + a') mod 65521) cs)"

definition adler32 :: "32 word \<Rightarrow> 8 word list \<Rightarrow> 32 word" where
  "adler32 checksum cs =
     (let s = adler_spec (unat checksum mod 65536) (unat checksum div 65536) cs
      in of_nat (snd s * 65536 + fst s))"

text \<open>The sums without the reductions, as naturals, for bytes below 128; they stay below
  \<open>2 ^ 32\<close> for the block length of the code.\<close>

fun raw_sums :: "nat \<Rightarrow> nat \<Rightarrow> 8 word list \<Rightarrow> nat \<times> nat" where
  "raw_sums a b [] = (a, b)"
| "raw_sums a b (c # cs) = raw_sums (a + unat c) (b + (a + unat c)) cs"

definition ascii_bytes :: "8 word list \<Rightarrow> bool" where
  "ascii_bytes cs \<longleftrightarrow> (\<forall>c \<in> set cs. unat c < 128)"

lemma scast_small:
  assumes "unat (c :: 8 word) < 128"
  shows "unat (scast c :: 32 word) = unat c"
proof -
  define n where "n = unat c"
  have n: "n < 128" and u: "uint c = int n" using assms by (simp_all add: n_def)
  have "sint c = signed_take_bit 7 (uint c)" by (simp add: sint_uint)
  also have "\<dots> = int n" unfolding u by (rule signed_take_bit_int_eq_self) (use n in simp_all)
  finally have "(scast c :: 32 word) = of_nat n" by (simp add: scast_eq)
  moreover have "unat (of_nat n :: 32 word) = n"
    unfolding unat_of_nat using n by simp
  ultimately show ?thesis by (simp add: n_def)
qed

lemma foldl_raw_sums:
  assumes "ascii_bytes cs" and "unat (fst s) + 127 * length cs \<le> 770639"
    and "unat (snd s) + 770639 * length cs < 2 ^ 32"
  shows "(unat (fst (foldl add_byte s cs)), unat (snd (foldl add_byte s cs)))
    = raw_sums (unat (fst s)) (unat (snd s)) cs"
  using assms
proof (induction cs arbitrary: s)
  case (Cons c cs)
  have c: "unat c < 128" "ascii_bytes cs" using Cons.prems(1) by (simp_all add: ascii_bytes_def)
  then have a: "unat (fst (add_byte s c)) = unat (fst s) + unat c"
    using Cons.prems(2) by (simp add: add_byte_def Let_def unat_word_ariths scast_small)
  then have b: "unat (snd (add_byte s c)) = unat (snd s) + (unat (fst s) + unat c)"
    using Cons.prems(2,3) c by (simp add: add_byte_def Let_def unat_word_ariths scast_small)
  show ?case using Cons.IH [OF c(2), of "add_byte s c"] Cons.prems c a b by simp
qed simp

lemma raw_sums_spec:
  "(fst (raw_sums a b cs) mod 65521, snd (raw_sums a b cs) mod 65521)
    = adler_spec (a mod 65521) (b mod 65521) cs"
proof (induction cs arbitrary: a b)
  case (Cons c cs)
  have "((b mod 65521) + (a mod 65521 + unat c) mod 65521) mod 65521 = (b + (a + unat c)) mod 65521"
    by (simp add: mod_simps)
  then show ?case using Cons.IH [of "a + unat c" "b + (a + unat c)"]
    by (simp add: Let_def mod_add_left_eq)
qed simp

lemma adler_spec_append:
  "adler_spec a b (xs @ ys) = (case adler_spec a b xs of (a', b') \<Rightarrow> adler_spec a' b' ys)"
  by (induction xs arbitrary: a b) (auto simp: Let_def)

text \<open>One block: at most \<open>ADLER32_NMAX\<close> bytes from 16-bit sums.\<close>

definition nats :: "sums \<Rightarrow> nat \<times> nat" where "nats s = (unat (fst s), unat (snd s))"

lemma block_spec:
  assumes "ascii_bytes cs" "length cs \<le> 5552" "unat (fst s) < 65536" "unat (snd s) < 65536"
  shows "nats (reduce (foldl add_byte s cs)) = adler_spec (unat (fst s) mod 65521) (unat (snd s) mod 65521) cs"
proof -
  have "(unat (fst (foldl add_byte s cs)), unat (snd (foldl add_byte s cs)))
      = raw_sums (unat (fst s)) (unat (snd s)) cs"
    using assms by (intro foldl_raw_sums) auto
  then show ?thesis
    by (simp add: nats_def reduce_def ADLER32_BASE_def unat_mod raw_sums_spec [symmetric] prod_eq_iff)
qed

lemma adler_spec_less:
  "a < 65521 \<Longrightarrow> b < 65521 \<Longrightarrow> fst (adler_spec a b cs) < 65521 \<and> snd (adler_spec a b cs) < 65521"
  by (induction cs arbitrary: a b) (simp_all add: Let_def)

lemma ascii_bytes_take: "ascii_bytes cs \<Longrightarrow> ascii_bytes (take n cs)"
  "ascii_bytes cs \<Longrightarrow> ascii_bytes (drop n cs)"
  by (auto simp: ascii_bytes_def dest: in_set_takeD in_set_dropD)

lemma nats_less:
  assumes "nats s = adler_spec a b cs" and "a < 65521" "b < 65521"
  shows "unat (fst s) < 65521" "unat (snd s) < 65521"
  using assms adler_spec_less [of a b cs] by (auto simp: nats_def prod_eq_iff)

lemma adler_tail_spec:
  assumes "ascii_bytes buf" "len \<le> length buf" "len \<le> 5552" "unat (fst s) < 65521" "unat (snd s) < 65521"
  shows "nats (adler_tail len buf s) = adler_spec (unat (fst s)) (unat (snd s)) (take len buf)"
proof (cases "len = 0")
  case True
  then show ?thesis by (simp add: adler_tail_def nats_def)
next
  case False
  have "nats (reduce (foldl add_byte s (take len buf)))
     = adler_spec (unat (fst s) mod 65521) (unat (snd s) mod 65521) (take len buf)"
    using assms by (intro block_spec ascii_bytes_take) auto
  then show ?thesis using assms False by (simp add: adler_tail_foldl)
qed

lemma adler_blocks_spec:
  assumes "ascii_bytes buf" "len \<le> length buf" "unat (fst s) < 65521" "unat (snd s) < 65521"
  shows "nats (adler_blocks len buf s) = adler_spec (unat (fst s)) (unat (snd s)) (take len buf)"
  using assms
proof (induction len buf s rule: adler_blocks.induct)
  case (1 len buf s)
  show ?case
  proof (cases "len \<ge> ADLER32_NMAX")
    case False
    then show ?thesis using "1.prems"
      by (subst adler_blocks.simps) (simp add: adler_tail_spec ADLER32_NMAX_def)
  next
    case True
    then have len: "5552 \<le> len" by (simp add: ADLER32_NMAX_def)
    let ?r = "loop16 (ADLER32_NMAX div 16) buf s"
    have r: "?r = (foldl add_byte s (take 5552 buf), drop 5552 buf)"
      using len "1.prems"(2) by (simp add: ADLER32_NMAX_def loop16_foldl)
    have "nats (reduce (foldl add_byte s (take 5552 buf)))
        = adler_spec (unat (fst s) mod 65521) (unat (snd s) mod 65521) (take 5552 buf)"
      using "1.prems" by (intro block_spec ascii_bytes_take) auto
    then have b: "nats (reduce (fst ?r)) = adler_spec (unat (fst s)) (unat (snd s)) (take 5552 buf)"
      using "1.prems"(3,4) by (simp add: r)
    note bl = nats_less [OF b "1.prems"(3,4)]
    have "nats (adler_blocks (len - ADLER32_NMAX) (snd ?r) (reduce (fst ?r)))
       = adler_spec (unat (fst (reduce (fst ?r)))) (unat (snd (reduce (fst ?r))))
           (take (len - ADLER32_NMAX) (snd ?r))"
      using "1.prems"(1,2) len bl by (intro "1.IH" [OF True refl]) (auto simp: r [unfolded ADLER32_NMAX_def, simplified] ascii_bytes_take ADLER32_NMAX_def)
    also have "\<dots> = adler_spec (unat (fst s)) (unat (snd s)) (take 5552 buf @ take (len - 5552) (drop 5552 buf))"
      using b by (auto simp: adler_spec_append r [unfolded ADLER32_NMAX_def, simplified] nats_def ADLER32_NMAX_def
          split: prod.split)
    also have "take 5552 buf @ take (len - 5552) (drop 5552 buf) = take len buf"
      using take_add [of 5552 "len - 5552" buf] len by simp
    finally show ?thesis using True by (subst adler_blocks.simps) (simp add: Let_def)
  qed
qed

lemma join_halves:
  assumes "unat (a :: 32 word) < 65536" "unat (b :: 32 word) < 65536"
  shows "push_bit 16 b OR a = of_nat (unat b * 65536 + unat a)"
proof -
  have "push_bit 16 b AND a = 0"
  proof (rule bit_word_eqI)
    fix n assume "n < LENGTH(32)"
    have "take_bit 16 a = a"
      using assms(1) by (simp add: word_unat_eq_iff unsigned_take_bit_eq take_bit_nat_eq_self)
    then have "bit a n \<Longrightarrow> n < 16" by (metis bit_take_bit_iff)
    then show "bit (push_bit 16 b AND a) n = bit (0 :: 32 word) n"
      by (auto simp: bit_and_iff bit_push_bit_iff)
  qed
  then have "push_bit 16 b OR a = push_bit 16 b + a" by (simp add: disjunctive_add_eq_or)
  also have "\<dots> = of_nat (unat b * 65536 + unat a)" by (simp add: push_bit_eq_mult)
  finally show ?thesis .
qed

section \<open>Properties\<close>

text \<open>C5. On a buffer of bytes below 128, from any checksum whose two halves are reduced,
  \<open>zend_adler32\<close> with its unrolled loops and its blocks of \<open>ADLER32_NMAX\<close> bytes computes
  the Adler-32 of RFC 1950, for every length.\<close>

theorem zend_adler32_correct:
  assumes "ascii_bytes buf" and "unat checksum mod 65536 < 65521" and "unat checksum div 65536 < 65521"
  shows "zend_adler32 checksum buf (length buf) = adler32 checksum buf"
proof -
  have lo: "unat (checksum AND 0xffff) = unat checksum mod 65536"
  proof -
    have "checksum AND 0xffff = take_bit 16 checksum"
      by (simp add: take_bit_eq_mask mask_eq_exp_minus_1)
    also have "\<dots> = checksum mod 65536" by (simp add: take_bit_eq_mod)
    finally show ?thesis by (simp add: unat_mod)
  qed
  have hi: "unat (drop_bit 16 checksum AND 0xffff) = unat checksum div 65536"
  proof -
    have "drop_bit 16 checksum AND 0xffff = take_bit 16 (drop_bit 16 checksum)"
      by (simp add: take_bit_eq_mask mask_eq_exp_minus_1)
    moreover have "unat (drop_bit 16 checksum) = unat checksum div 65536"
      unfolding unat_drop_bit_eq by (simp add: drop_bit_eq_div)
    ultimately show ?thesis using assms(3) by (simp add: unat_mod take_bit_eq_mod)
  qed
  let ?s = "adler_blocks (length buf) buf (checksum AND 0xffff, drop_bit 16 checksum AND 0xffff)"
  have n: "nats ?s = adler_spec (unat checksum mod 65536) (unat checksum div 65536) buf"
    using adler_blocks_spec [OF assms(1), of "length buf" "(checksum AND 0xffff, drop_bit 16 checksum AND 0xffff)"]
      assms(2,3) by (simp add: lo hi)
  have "unat (fst ?s) < 65536" "unat (snd ?s) < 65536"
    using nats_less [OF n assms(2,3)] by simp_all
  then have "zend_adler32 checksum buf (length buf) = of_nat (unat (snd ?s) * 65536 + unat (fst ?s))"
    unfolding zend_adler32_def Let_def by (rule join_halves)
  also have "\<dots> = adler32 checksum buf"
    using n unfolding adler32_def Let_def nats_def prod_eq_iff by simp
  finally show ?thesis .
qed

lemma zend_adler32_correct_witness:
  "zend_adler32 1 [97, 98, 99] 3 = adler32 1 [97, 98, 99] \<and> adler32 1 [97, 98, 99] = 0x024d0127"
proof -
  have "ascii_bytes [97, 98, 99]" by (simp add: ascii_bytes_def)
  moreover have "unat (1 :: 32 word) mod 65536 < 65521" "unat (1 :: 32 word) div 65536 < 65521" by simp_all
  ultimately have "zend_adler32 1 [97, 98, 99] (length [97 :: 8 word, 98, 99]) = adler32 1 [97, 98, 99]"
    by (rule zend_adler32_correct)
  moreover have "length [97 :: 8 word, 98, 99] = 3" by simp
  ultimately have "zend_adler32 1 [97, 98, 99] 3 = adler32 1 [97, 98, 99]" by (simp only:)
  moreover have "adler32 1 [97, 98, 99] = 0x024d0127" by (simp add: adler32_def Let_def)
  ultimately show ?thesis by blast
qed

text \<open>A byte above 127 is added as a negative number, so the result is not the Adler-32 of
  the data: for the single byte 255 it is 0 and the Adler-32 is \<open>0x01000100\<close>.\<close>

theorem zend_adler32_signed:
  "zend_adler32 1 [255] 1 = 0 \<and> adler32 1 [255] = 0x01000100"
  by (simp add: zend_adler32_def adler_blocks.simps ADLER32_NMAX_def adler_tail_def ADLER32_DO1_def
      add_byte_def reduce_def ADLER32_BASE_def adler32_def Let_def)

text \<open>The checksum of a script does not depend on the structure's own bytes: whatever
  changes between \<open>p\<close> and \<open>p + so\<close> (the \<open>zend_persistent_script\<close> itself, its header
  fields included) goes unnoticed.\<close>

theorem script_checksum_ignores_header:
  assumes "\<And>a. a < p \<or> p + so \<le> a \<Longrightarrow> m' a = m a" and "mem \<le> p"
  shows "zend_accel_script_checksum m' p k so mem sz = zend_accel_script_checksum m p k so mem sz"
proof -
  have same: "adler_at c m' a n = adler_at c m a n"
    if "\<And>i. i < n mod two32 \<Longrightarrow> m' (a + i) = m (a + i)" for c a n
  proof -
    have "bytes m' a (n mod two32) = bytes m a (n mod two32)" using that by (simp add: bytes_def)
    then show ?thesis by (simp add: adler_at_def)
  qed
  have tail: "adler_at c m' (p + so) n = adler_at c m (p + so) n" for c n
    by (rule same) (simp add: assms(1))
  have "adler_at c m' mem (p - mem) = adler_at c m mem (p - mem)" for c
  proof (rule same)
    fix i assume "i < (p - mem) mod two32"
    then have "i < p - mem" using mod_less_eq_dividend [of "p - mem" two32] by linarith
    then show "m' (mem + i) = m (mem + i)" by (intro assms(1) disjI1) simp
  qed
  then show ?thesis using assms(2) by (auto simp: zend_accel_script_checksum_def Let_def tail)
qed

lemma script_checksum_ignores_header_witness:
  "zend_accel_script_checksum ((\<lambda>_. 7)(110 := 9)) 100 80 120 100 200
     = zend_accel_script_checksum (\<lambda>_. 7) 100 80 120 100 200
   \<and> ((\<lambda>_. 7)(110 := 9)) 110 \<noteq> (\<lambda>_. 7 :: 8 word) (110 :: nat)"
  by (intro conjI script_checksum_ignores_header) auto

end
