(* ===== verification/Op_Array.thy ===== *)
theory Op_Array
  imports Prelude
begin

text \<open>
  The compiled code the optimizer works on: operands, opcodes, literals and the
  \<open>zend_op_array\<close>, with the macros of \<open>Optimizer/zend_optimizer_internal.h\<close> and the
  helpers of \<open>Optimizer/zend_optimizer.c\<close> that write literals into them.

  The structures are the engine's (PHP 5.5); a \<open>znode_op\<close> union is the number it holds
  (constant index, variable offset or opline number), kept together with its type byte, so
  that \<open>COPY_NODE\<close> is an assignment. Opcodes are the numbers of \<open>zend_vm_opcodes.h\<close>,
  because the optimizer computes with them (\<open>opline->opcode += 3\<close>). The contents of
  doubles, arrays, objects and resources are the type parameter \<open>'x\<close>.
\<close>

section \<open>Opcodes\<close>

abbreviation (input) ZEND_NOP :: nat where "ZEND_NOP \<equiv> 0"
abbreviation (input) ZEND_ADD :: nat where "ZEND_ADD \<equiv> 1"
abbreviation (input) ZEND_SUB :: nat where "ZEND_SUB \<equiv> 2"
abbreviation (input) ZEND_MUL :: nat where "ZEND_MUL \<equiv> 3"
abbreviation (input) ZEND_DIV :: nat where "ZEND_DIV \<equiv> 4"
abbreviation (input) ZEND_MOD :: nat where "ZEND_MOD \<equiv> 5"
abbreviation (input) ZEND_SL :: nat where "ZEND_SL \<equiv> 6"
abbreviation (input) ZEND_SR :: nat where "ZEND_SR \<equiv> 7"
abbreviation (input) ZEND_CONCAT :: nat where "ZEND_CONCAT \<equiv> 8"
abbreviation (input) ZEND_BW_OR :: nat where "ZEND_BW_OR \<equiv> 9"
abbreviation (input) ZEND_BW_AND :: nat where "ZEND_BW_AND \<equiv> 10"
abbreviation (input) ZEND_BW_XOR :: nat where "ZEND_BW_XOR \<equiv> 11"
abbreviation (input) ZEND_BW_NOT :: nat where "ZEND_BW_NOT \<equiv> 12"
abbreviation (input) ZEND_BOOL_NOT :: nat where "ZEND_BOOL_NOT \<equiv> 13"
abbreviation (input) ZEND_BOOL_XOR :: nat where "ZEND_BOOL_XOR \<equiv> 14"
abbreviation (input) ZEND_IS_IDENTICAL :: nat where "ZEND_IS_IDENTICAL \<equiv> 15"
abbreviation (input) ZEND_IS_NOT_IDENTICAL :: nat where "ZEND_IS_NOT_IDENTICAL \<equiv> 16"
abbreviation (input) ZEND_IS_EQUAL :: nat where "ZEND_IS_EQUAL \<equiv> 17"
abbreviation (input) ZEND_IS_NOT_EQUAL :: nat where "ZEND_IS_NOT_EQUAL \<equiv> 18"
abbreviation (input) ZEND_IS_SMALLER :: nat where "ZEND_IS_SMALLER \<equiv> 19"
abbreviation (input) ZEND_IS_SMALLER_OR_EQUAL :: nat where "ZEND_IS_SMALLER_OR_EQUAL \<equiv> 20"
abbreviation (input) ZEND_CAST :: nat where "ZEND_CAST \<equiv> 21"
abbreviation (input) ZEND_QM_ASSIGN :: nat where "ZEND_QM_ASSIGN \<equiv> 22"
abbreviation (input) ZEND_ASSIGN_ADD :: nat where "ZEND_ASSIGN_ADD \<equiv> 23"
abbreviation (input) ZEND_ASSIGN_SUB :: nat where "ZEND_ASSIGN_SUB \<equiv> 24"
abbreviation (input) ZEND_ASSIGN_MUL :: nat where "ZEND_ASSIGN_MUL \<equiv> 25"
abbreviation (input) ZEND_ASSIGN_DIV :: nat where "ZEND_ASSIGN_DIV \<equiv> 26"
abbreviation (input) ZEND_ASSIGN_MOD :: nat where "ZEND_ASSIGN_MOD \<equiv> 27"
abbreviation (input) ZEND_ASSIGN_SL :: nat where "ZEND_ASSIGN_SL \<equiv> 28"
abbreviation (input) ZEND_ASSIGN_SR :: nat where "ZEND_ASSIGN_SR \<equiv> 29"
abbreviation (input) ZEND_ASSIGN_CONCAT :: nat where "ZEND_ASSIGN_CONCAT \<equiv> 30"
abbreviation (input) ZEND_ASSIGN_BW_OR :: nat where "ZEND_ASSIGN_BW_OR \<equiv> 31"
abbreviation (input) ZEND_ASSIGN_BW_AND :: nat where "ZEND_ASSIGN_BW_AND \<equiv> 32"
abbreviation (input) ZEND_ASSIGN_BW_XOR :: nat where "ZEND_ASSIGN_BW_XOR \<equiv> 33"
abbreviation (input) ZEND_PRE_INC :: nat where "ZEND_PRE_INC \<equiv> 34"
abbreviation (input) ZEND_PRE_DEC :: nat where "ZEND_PRE_DEC \<equiv> 35"
abbreviation (input) ZEND_POST_INC :: nat where "ZEND_POST_INC \<equiv> 36"
abbreviation (input) ZEND_POST_DEC :: nat where "ZEND_POST_DEC \<equiv> 37"
abbreviation (input) ZEND_ASSIGN :: nat where "ZEND_ASSIGN \<equiv> 38"
abbreviation (input) ZEND_ASSIGN_REF :: nat where "ZEND_ASSIGN_REF \<equiv> 39"
abbreviation (input) ZEND_ECHO :: nat where "ZEND_ECHO \<equiv> 40"
abbreviation (input) ZEND_PRINT :: nat where "ZEND_PRINT \<equiv> 41"
abbreviation (input) ZEND_JMP :: nat where "ZEND_JMP \<equiv> 42"
abbreviation (input) ZEND_JMPZ :: nat where "ZEND_JMPZ \<equiv> 43"
abbreviation (input) ZEND_JMPNZ :: nat where "ZEND_JMPNZ \<equiv> 44"
abbreviation (input) ZEND_JMPZNZ :: nat where "ZEND_JMPZNZ \<equiv> 45"
abbreviation (input) ZEND_JMPZ_EX :: nat where "ZEND_JMPZ_EX \<equiv> 46"
abbreviation (input) ZEND_JMPNZ_EX :: nat where "ZEND_JMPNZ_EX \<equiv> 47"
abbreviation (input) ZEND_CASE :: nat where "ZEND_CASE \<equiv> 48"
abbreviation (input) ZEND_SWITCH_FREE :: nat where "ZEND_SWITCH_FREE \<equiv> 49"
abbreviation (input) ZEND_BRK :: nat where "ZEND_BRK \<equiv> 50"
abbreviation (input) ZEND_CONT :: nat where "ZEND_CONT \<equiv> 51"
abbreviation (input) ZEND_BOOL :: nat where "ZEND_BOOL \<equiv> 52"
abbreviation (input) ZEND_INIT_STRING :: nat where "ZEND_INIT_STRING \<equiv> 53"
abbreviation (input) ZEND_ADD_CHAR :: nat where "ZEND_ADD_CHAR \<equiv> 54"
abbreviation (input) ZEND_ADD_STRING :: nat where "ZEND_ADD_STRING \<equiv> 55"
abbreviation (input) ZEND_ADD_VAR :: nat where "ZEND_ADD_VAR \<equiv> 56"
abbreviation (input) ZEND_BEGIN_SILENCE :: nat where "ZEND_BEGIN_SILENCE \<equiv> 57"
abbreviation (input) ZEND_END_SILENCE :: nat where "ZEND_END_SILENCE \<equiv> 58"
abbreviation (input) ZEND_INIT_FCALL_BY_NAME :: nat where "ZEND_INIT_FCALL_BY_NAME \<equiv> 59"
abbreviation (input) ZEND_DO_FCALL :: nat where "ZEND_DO_FCALL \<equiv> 60"
abbreviation (input) ZEND_DO_FCALL_BY_NAME :: nat where "ZEND_DO_FCALL_BY_NAME \<equiv> 61"
abbreviation (input) ZEND_RETURN :: nat where "ZEND_RETURN \<equiv> 62"
abbreviation (input) ZEND_RECV :: nat where "ZEND_RECV \<equiv> 63"
abbreviation (input) ZEND_RECV_INIT :: nat where "ZEND_RECV_INIT \<equiv> 64"
abbreviation (input) ZEND_SEND_VAL :: nat where "ZEND_SEND_VAL \<equiv> 65"
abbreviation (input) ZEND_NEW :: nat where "ZEND_NEW \<equiv> 68"
abbreviation (input) ZEND_FREE :: nat where "ZEND_FREE \<equiv> 70"
abbreviation (input) ZEND_INIT_ARRAY :: nat where "ZEND_INIT_ARRAY \<equiv> 71"
abbreviation (input) ZEND_ADD_ARRAY_ELEMENT :: nat where "ZEND_ADD_ARRAY_ELEMENT \<equiv> 72"
abbreviation (input) ZEND_UNSET_VAR :: nat where "ZEND_UNSET_VAR \<equiv> 74"
abbreviation (input) ZEND_UNSET_DIM :: nat where "ZEND_UNSET_DIM \<equiv> 75"
abbreviation (input) ZEND_UNSET_OBJ :: nat where "ZEND_UNSET_OBJ \<equiv> 76"
abbreviation (input) ZEND_FE_RESET :: nat where "ZEND_FE_RESET \<equiv> 77"
abbreviation (input) ZEND_FE_FETCH :: nat where "ZEND_FE_FETCH \<equiv> 78"
abbreviation (input) ZEND_EXIT :: nat where "ZEND_EXIT \<equiv> 79"
abbreviation (input) ZEND_FETCH_R :: nat where "ZEND_FETCH_R \<equiv> 80"
abbreviation (input) ZEND_FETCH_DIM_R :: nat where "ZEND_FETCH_DIM_R \<equiv> 81"
abbreviation (input) ZEND_FETCH_OBJ_R :: nat where "ZEND_FETCH_OBJ_R \<equiv> 82"
abbreviation (input) ZEND_FETCH_W :: nat where "ZEND_FETCH_W \<equiv> 83"
abbreviation (input) ZEND_FETCH_DIM_W :: nat where "ZEND_FETCH_DIM_W \<equiv> 84"
abbreviation (input) ZEND_FETCH_OBJ_W :: nat where "ZEND_FETCH_OBJ_W \<equiv> 85"
abbreviation (input) ZEND_FETCH_RW :: nat where "ZEND_FETCH_RW \<equiv> 86"
abbreviation (input) ZEND_FETCH_DIM_RW :: nat where "ZEND_FETCH_DIM_RW \<equiv> 87"
abbreviation (input) ZEND_FETCH_OBJ_RW :: nat where "ZEND_FETCH_OBJ_RW \<equiv> 88"
abbreviation (input) ZEND_FETCH_IS :: nat where "ZEND_FETCH_IS \<equiv> 89"
abbreviation (input) ZEND_FETCH_DIM_IS :: nat where "ZEND_FETCH_DIM_IS \<equiv> 90"
abbreviation (input) ZEND_FETCH_OBJ_IS :: nat where "ZEND_FETCH_OBJ_IS \<equiv> 91"
abbreviation (input) ZEND_FETCH_FUNC_ARG :: nat where "ZEND_FETCH_FUNC_ARG \<equiv> 92"
abbreviation (input) ZEND_FETCH_DIM_FUNC_ARG :: nat where "ZEND_FETCH_DIM_FUNC_ARG \<equiv> 93"
abbreviation (input) ZEND_FETCH_OBJ_FUNC_ARG :: nat where "ZEND_FETCH_OBJ_FUNC_ARG \<equiv> 94"
abbreviation (input) ZEND_FETCH_UNSET :: nat where "ZEND_FETCH_UNSET \<equiv> 95"
abbreviation (input) ZEND_FETCH_DIM_UNSET :: nat where "ZEND_FETCH_DIM_UNSET \<equiv> 96"
abbreviation (input) ZEND_FETCH_OBJ_UNSET :: nat where "ZEND_FETCH_OBJ_UNSET \<equiv> 97"
abbreviation (input) ZEND_FETCH_DIM_TMP_VAR :: nat where "ZEND_FETCH_DIM_TMP_VAR \<equiv> 98"
abbreviation (input) ZEND_FETCH_CONSTANT :: nat where "ZEND_FETCH_CONSTANT \<equiv> 99"
abbreviation (input) ZEND_GOTO :: nat where "ZEND_GOTO \<equiv> 100"
abbreviation (input) ZEND_CATCH :: nat where "ZEND_CATCH \<equiv> 107"
abbreviation (input) ZEND_THROW :: nat where "ZEND_THROW \<equiv> 108"
abbreviation (input) ZEND_FETCH_CLASS :: nat where "ZEND_FETCH_CLASS \<equiv> 109"
abbreviation (input) ZEND_RETURN_BY_REF :: nat where "ZEND_RETURN_BY_REF \<equiv> 111"
abbreviation (input) ZEND_INIT_METHOD_CALL :: nat where "ZEND_INIT_METHOD_CALL \<equiv> 112"
abbreviation (input) ZEND_INIT_STATIC_METHOD_CALL :: nat where "ZEND_INIT_STATIC_METHOD_CALL \<equiv> 113"
abbreviation (input) ZEND_ISSET_ISEMPTY_VAR :: nat where "ZEND_ISSET_ISEMPTY_VAR \<equiv> 114"
abbreviation (input) ZEND_ISSET_ISEMPTY_DIM_OBJ :: nat where "ZEND_ISSET_ISEMPTY_DIM_OBJ \<equiv> 115"
abbreviation (input) ZEND_PRE_INC_OBJ :: nat where "ZEND_PRE_INC_OBJ \<equiv> 132"
abbreviation (input) ZEND_PRE_DEC_OBJ :: nat where "ZEND_PRE_DEC_OBJ \<equiv> 133"
abbreviation (input) ZEND_POST_INC_OBJ :: nat where "ZEND_POST_INC_OBJ \<equiv> 134"
abbreviation (input) ZEND_POST_DEC_OBJ :: nat where "ZEND_POST_DEC_OBJ \<equiv> 135"
abbreviation (input) ZEND_ASSIGN_OBJ :: nat where "ZEND_ASSIGN_OBJ \<equiv> 136"
abbreviation (input) ZEND_DECLARE_INHERITED_CLASS :: nat where "ZEND_DECLARE_INHERITED_CLASS \<equiv> 140"
abbreviation (input) ZEND_ADD_INTERFACE :: nat where "ZEND_ADD_INTERFACE \<equiv> 144"
abbreviation (input) ZEND_DECLARE_INHERITED_CLASS_DELAYED :: nat where "ZEND_DECLARE_INHERITED_CLASS_DELAYED \<equiv> 145"
abbreviation (input) ZEND_ASSIGN_DIM :: nat where "ZEND_ASSIGN_DIM \<equiv> 147"
abbreviation (input) ZEND_ISSET_ISEMPTY_PROP_OBJ :: nat where "ZEND_ISSET_ISEMPTY_PROP_OBJ \<equiv> 148"
abbreviation (input) ZEND_HANDLE_EXCEPTION :: nat where "ZEND_HANDLE_EXCEPTION \<equiv> 149"
abbreviation (input) ZEND_JMP_SET :: nat where "ZEND_JMP_SET \<equiv> 152"
abbreviation (input) ZEND_ADD_TRAIT :: nat where "ZEND_ADD_TRAIT \<equiv> 154"
abbreviation (input) ZEND_JMP_SET_VAR :: nat where "ZEND_JMP_SET_VAR \<equiv> 158"
abbreviation (input) ZEND_GENERATOR_RETURN :: nat where "ZEND_GENERATOR_RETURN \<equiv> 161"
abbreviation (input) ZEND_FAST_CALL :: nat where "ZEND_FAST_CALL \<equiv> 162"
abbreviation (input) ZEND_FAST_RET :: nat where "ZEND_FAST_RET \<equiv> 163"
abbreviation (input) ZEND_OP_DATA :: nat where "ZEND_OP_DATA \<equiv> 137"

section \<open>Operands and instructions\<close>

datatype op_type = IS_CONST | IS_TMP_VAR | IS_VAR | IS_UNUSED | IS_CV

text \<open>\<open>ext_unused\<close> is the flag \<open>EXT_TYPE_UNUSED\<close> of the type byte.\<close>

record znode =
  op_ty :: op_type
  ext_unused :: bool
  num :: nat

definition unused_node :: znode where
  "unused_node = \<lparr>op_ty = IS_UNUSED, ext_unused = False, num = 0\<rparr>"

record zend_op =
  opcode :: nat
  op1 :: znode
  op2 :: znode
  result :: znode
  extended_value :: nat
  lineno :: nat

text \<open>\<open>(zend_uint) -1\<close>\<close>

definition UINT_MAX :: nat where "UINT_MAX = 4294967295"

definition MAKE_NOP :: "zend_op \<Rightarrow> zend_op" where
  "MAKE_NOP o1 = o1\<lparr>opcode := ZEND_NOP, result := unused_node, op1 := unused_node, op2 := unused_node\<rparr>"

text \<open>\<open>SET_UNUSED\<close> only writes the type byte.\<close>

definition SET_UNUSED :: "znode \<Rightarrow> znode" where
  "SET_UNUSED z = z\<lparr>op_ty := IS_UNUSED, ext_unused := False\<rparr>"

definition RESULT_USED :: "zend_op \<Rightarrow> bool" where
  "RESULT_USED o1 \<longleftrightarrow> (op_ty (result o1) = IS_VAR \<and> \<not> ext_unused (result o1))
     \<or> (op_ty (result o1) = IS_TMP_VAR \<and> \<not> ext_unused (result o1))"

definition RESULT_UNUSED :: "zend_op \<Rightarrow> bool" where
  "RESULT_UNUSED o1 \<longleftrightarrow> ext_unused (result o1)"

definition SAME_VAR :: "znode \<Rightarrow> znode \<Rightarrow> bool" where
  "SAME_VAR a b \<longleftrightarrow>
     ((op_ty a = IS_VAR \<and> op_ty b = IS_VAR)
      \<or> (op_ty a = IS_TMP_VAR \<and> \<not> ext_unused a \<and> op_ty b = IS_TMP_VAR \<and> \<not> ext_unused b))
     \<and> num a = num b"

definition INV_COND :: "nat \<Rightarrow> nat" where
  "INV_COND oc = (if oc = ZEND_JMPZ then ZEND_JMPNZ else ZEND_JMPZ)"
definition INV_EX_COND :: "nat \<Rightarrow> nat" where
  "INV_EX_COND oc = (if oc = ZEND_JMPZ_EX then ZEND_JMPNZ else ZEND_JMPZ)"
definition INV_COND_EX :: "nat \<Rightarrow> nat" where
  "INV_COND_EX oc = (if oc = ZEND_JMPZ then ZEND_JMPNZ_EX else ZEND_JMPZ_EX)"
definition INV_EX_COND_EX :: "nat \<Rightarrow> nat" where
  "INV_EX_COND_EX oc = (if oc = ZEND_JMPZ_EX then ZEND_JMPNZ_EX else ZEND_JMPZ_EX)"

section \<open>Literals\<close>

datatype 'x zval =
    ZNULL
  | ZLONG int
  | ZDOUBLE 'x
  | ZBOOL bool
  | ZSTRING string
  | ZARRAY 'x
  | ZOBJECT 'x
  | ZRESOURCE 'x
  | ZCONSTANT string

record 'x zend_literal =
  lit_constant :: "'x zval"
  lit_hash_value :: "64 word"
  cache_slot :: nat

section \<open>The op array\<close>

record brk_cont_element =
  bc_start :: int
  bc_cont :: int
  bc_brk :: int
  bc_parent :: int

record try_catch_element =
  try_op :: nat
  catch_op :: nat
  finally_op :: nat
  finally_end :: nat

record compiled_variable =
  cv_name :: string
  cv_hash_value :: "64 word"

record 'x zend_op_array =
  opcodes :: "zend_op list"
  brk_cont_array :: "brk_cont_element list"
  try_catch_array :: "try_catch_element list"
  early_binding :: nat
  literals :: "'x zend_literal list"
  last_cache_slot :: nat
  cvars :: "compiled_variable list"
  T_num :: nat
  has_finally_block :: bool
  is_eval_code :: bool
  is_interactive :: bool

abbreviation last_op :: "'x zend_op_array \<Rightarrow> nat" where
  "last_op oa \<equiv> length (opcodes oa)"

text \<open>Writing through \<open>opline = op_array->opcodes + i\<close>.\<close>

definition upd_op :: "nat \<Rightarrow> (zend_op \<Rightarrow> zend_op) \<Rightarrow> 'x zend_op_array \<Rightarrow> 'x zend_op_array" where
  "upd_op i f oa = oa\<lparr>opcodes := (opcodes oa)[i := f (opcodes oa ! i)]\<rparr>"

definition lit :: "'x zend_op_array \<Rightarrow> znode \<Rightarrow> 'x zval" where
  "lit oa z = lit_constant (literals oa ! num z)"

definition set_lit :: "znode \<Rightarrow> 'x zval \<Rightarrow> 'x zend_op_array \<Rightarrow> 'x zend_op_array" where
  "set_lit z v oa = oa\<lparr>literals := (literals oa)[num z := (literals oa ! num z)\<lparr>lit_constant := v\<rparr>]\<rparr>"

definition is_string :: "'x zval \<Rightarrow> bool" where
  "is_string v \<longleftrightarrow> (case v of ZSTRING _ \<Rightarrow> True | _ \<Rightarrow> False)"

definition is_long :: "'x zval \<Rightarrow> bool" where
  "is_long v \<longleftrightarrow> (case v of ZLONG _ \<Rightarrow> True | _ \<Rightarrow> False)"

lemma upd_op_simps [op_simps]:
  "length (opcodes (upd_op i f oa)) = length (opcodes oa)"
  "opcodes (upd_op i f oa) = (opcodes oa)[i := f (opcodes oa ! i)]"
  "literals (upd_op i f oa) = literals oa" "brk_cont_array (upd_op i f oa) = brk_cont_array oa"
  "try_catch_array (upd_op i f oa) = try_catch_array oa" "early_binding (upd_op i f oa) = early_binding oa"
  "has_finally_block (upd_op i f oa) = has_finally_block oa"
  by (simp_all add: upd_op_def)

lemma set_lit_simps [op_simps]:
  "opcodes (set_lit z v oa) = opcodes oa" "brk_cont_array (set_lit z v oa) = brk_cont_array oa"
  "try_catch_array (set_lit z v oa) = try_catch_array oa" "early_binding (set_lit z v oa) = early_binding oa"
  "length (literals (set_lit z v oa)) = length (literals oa)"
  "has_finally_block (set_lit z v oa) = has_finally_block oa"
  by (simp_all add: set_lit_def)

lemma lit_set_lit [op_simps]:
  "num z < length (literals oa) \<Longrightarrow>
     lit (set_lit z v oa) y = (if num y = num z then v else lit oa y)"
  by (simp add: lit_def set_lit_def)

section \<open>Code for examples\<close>

definition plain :: "nat \<Rightarrow> zend_op" where
  "plain oc = \<lparr>opcode = oc, op1 = unused_node, op2 = unused_node, result = unused_node,
     extended_value = 0, lineno = 0\<rparr>"

definition node :: "op_type \<Rightarrow> nat \<Rightarrow> znode" where
  "node t n = \<lparr>op_ty = t, ext_unused = False, num = n\<rparr>"

definition code_of :: "zend_op list \<Rightarrow> 'x zval list \<Rightarrow> 'x zend_op_array" where
  "code_of ops ls = \<lparr>opcodes = ops, brk_cont_array = [], try_catch_array = [],
     early_binding = UINT_MAX,
     literals = map (\<lambda>v. \<lparr>lit_constant = v, lit_hash_value = 0, cache_slot = 0\<rparr>) ls,
     last_cache_slot = 0, cvars = [], T_num = 0, has_finally_block = False,
     is_eval_code = False, is_interactive = False\<rparr>"

end
