(* ===== verification/Vm.thy ===== *)
theory Vm
  imports Op_Array
begin

text \<open>
  An abstract machine for op arrays, against which the passes that move or retarget code are
  proved. An instruction's own effect is a parameter \<open>H\<close>, the opcode handler of the engine:
  it sees the instruction with its jump fields blanked and answers with the new state and
  how control continues. So \<open>H\<close> cannot depend on where code lies, and all control flow that
  is encoded in opline numbers (jump operands, the break/continue and try/catch tables) is
  the machine's.
\<close>

section \<open>Jump fields\<close>

definition jumps_op1 :: "nat \<Rightarrow> bool" where
  "jumps_op1 oc \<longleftrightarrow> oc \<in> {ZEND_JMP, ZEND_GOTO, ZEND_FAST_CALL}"

definition jumps_op2 :: "nat \<Rightarrow> bool" where
  "jumps_op2 oc \<longleftrightarrow> oc \<in> {ZEND_JMPZ, ZEND_JMPNZ, ZEND_JMPZ_EX, ZEND_JMPNZ_EX, ZEND_FE_FETCH,
     ZEND_FE_RESET, ZEND_NEW, ZEND_JMP_SET, ZEND_JMP_SET_VAR, ZEND_JMPZNZ}"

definition jumps_ext :: "nat \<Rightarrow> bool" where
  "jumps_ext oc \<longleftrightarrow> oc \<in> {ZEND_JMPZNZ, ZEND_CATCH}"

definition links_result :: "nat \<Rightarrow> bool" where
  "links_result oc \<longleftrightarrow> oc = ZEND_DECLARE_INHERITED_CLASS_DELAYED"

definition blank :: "zend_op \<Rightarrow> zend_op" where
  "blank o1 = o1\<lparr>
     op1 := (if jumps_op1 (opcode o1) then (op1 o1)\<lparr>num := 0\<rparr> else op1 o1),
     op2 := (if jumps_op2 (opcode o1) then (op2 o1)\<lparr>num := 0\<rparr> else op2 o1),
     result := (if links_result (opcode o1) then (result o1)\<lparr>num := 0\<rparr> else result o1),
     extended_value := (if jumps_ext (opcode o1) then 0 else extended_value o1)\<rparr>"

section \<open>The machine\<close>

text \<open>How a handler continues: with the next instruction, at a jump field, at the break or
  continue target of an entry of \<open>brk_cont_array\<close>, by raising an exception, or by leaving
  the function.\<close>

datatype ctl = Next | To_Op1 | To_Op2 | To_Ext | Break_To nat | Continue_To nat | Raise | Leave

datatype 's outcome = Go nat 's | Left 's | Uncaught 's | Stuck

type_synonym 's handlers = "zend_op \<Rightarrow> 's \<Rightarrow> 's \<times> ctl"

text \<open>The innermost catch for an exception raised at \<open>pc\<close>: the search of
  \<open>ZEND_HANDLE_EXCEPTION\<close> for op arrays without finally blocks.\<close>

fun catch_of :: "nat \<Rightarrow> try_catch_element list \<Rightarrow> nat option \<Rightarrow> nat option" where
  "catch_of pc [] c = c"
| "catch_of pc (t # ts) c =
     (if try_op t > pc then c
      else catch_of pc ts (if pc < catch_op t then Some (catch_op t) else c))"

definition go_int :: "int \<Rightarrow> 's \<Rightarrow> 's outcome" where
  "go_int i s = (if i < 0 then Stuck else Go (nat i) s)"

definition resume ::
  "brk_cont_element list \<Rightarrow> try_catch_element list \<Rightarrow> zend_op \<Rightarrow> nat \<Rightarrow> 's \<times> ctl \<Rightarrow> 's outcome" where
  "resume bcs tcs o1 pc x =
     (case snd x of
        Next \<Rightarrow> Go (Suc pc) (fst x)
      | To_Op1 \<Rightarrow> if jumps_op1 (opcode o1) then Go (num (op1 o1)) (fst x) else Stuck
      | To_Op2 \<Rightarrow> if jumps_op2 (opcode o1) then Go (num (op2 o1)) (fst x) else Stuck
      | To_Ext \<Rightarrow> if jumps_ext (opcode o1) then Go (extended_value o1) (fst x) else Stuck
      | Break_To k \<Rightarrow> if k < length bcs then go_int (bc_brk (bcs ! k)) (fst x) else Stuck
      | Continue_To k \<Rightarrow> if k < length bcs then go_int (bc_cont (bcs ! k)) (fst x) else Stuck
      | Raise \<Rightarrow> (case catch_of pc tcs None of Some t \<Rightarrow> Go t (fst x) | None \<Rightarrow> Uncaught (fst x))
      | Leave \<Rightarrow> Left (fst x))"

definition vm_step :: "'s handlers \<Rightarrow> 'x zend_op_array \<Rightarrow> nat \<Rightarrow> 's \<Rightarrow> 's outcome" where
  "vm_step H oa pc s =
     (if \<not> pc < last_op oa then Stuck
      else let o1 = opcodes oa ! pc in
        if opcode o1 = ZEND_NOP then Go (Suc pc) s
        else if opcode o1 = ZEND_JMP then Go (num (op1 o1)) s
        else resume (brk_cont_array oa) (try_catch_array oa) o1 pc (H (blank o1) s))"

text \<open>\<open>vm_run H oa pc s r\<close>: started at \<open>pc\<close> in state \<open>s\<close>, the code ends with \<open>r\<close>.\<close>

inductive vm_run :: "'s handlers \<Rightarrow> 'x zend_op_array \<Rightarrow> nat \<Rightarrow> 's \<Rightarrow> 's outcome \<Rightarrow> bool"
  for H oa where
  Run_Left: "vm_step H oa pc s = Left s' \<Longrightarrow> vm_run H oa pc s (Left s')"
| Run_Uncaught: "vm_step H oa pc s = Uncaught s' \<Longrightarrow> vm_run H oa pc s (Uncaught s')"
| Run_Go: "vm_step H oa pc s = Go pc' s' \<Longrightarrow> vm_run H oa pc' s' r \<Longrightarrow> vm_run H oa pc s r"

text \<open>Two op arrays behave alike when, from the start, they end in the same way.\<close>

definition same_behaviour :: "'s handlers \<Rightarrow> 'x zend_op_array \<Rightarrow> 'x zend_op_array \<Rightarrow> bool" where
  "same_behaviour H oa oa' \<longleftrightarrow> (\<forall>s r. vm_run H oa 0 s r \<longleftrightarrow> vm_run H oa' 0 s r)"

lemma vm_run_unfold:
  "vm_run H oa pc s r \<longleftrightarrow>
    (case vm_step H oa pc s of
       Go pc' s' \<Rightarrow> vm_run H oa pc' s' r
     | Left s' \<Rightarrow> r = Left s' | Uncaught s' \<Rightarrow> r = Uncaught s' | Stuck \<Rightarrow> False)"
  by (subst vm_run.simps) (auto split: outcome.splits)

lemma vm_step_nop [op_simps]:
  "pc < last_op oa \<Longrightarrow> opcode (opcodes oa ! pc) = ZEND_NOP \<Longrightarrow> vm_step H oa pc s = Go (Suc pc) s"
  by (simp add: vm_step_def)

lemma vm_step_jmp [op_simps]:
  "pc < last_op oa \<Longrightarrow> opcode (opcodes oa ! pc) = ZEND_JMP \<Longrightarrow>
     vm_step H oa pc s = Go (num (op1 (opcodes oa ! pc))) s"
  by (simp add: vm_step_def Let_def)

inductive_cases vm_runE: "vm_run H oa pc s r"

section \<open>Relating two programs\<close>

text \<open>A simulation: every step of the first program from a related configuration leads, in
  the second, to a related configuration by one or more steps' worth of running, or to the
  same end.\<close>

lemma vm_run_simulation:
  assumes run: "vm_run H oa pc s r" and rel: "R pc pc'"
    and go: "\<And>p p' s q s' r. R p p' \<Longrightarrow> vm_step H oa p s = Go q s' \<Longrightarrow>
        (\<And>q'. R q q' \<Longrightarrow> vm_run H oa' q' s' r) \<Longrightarrow> vm_run H oa' p' s r"
    and left: "\<And>p p' s s'. R p p' \<Longrightarrow> vm_step H oa p s = Left s' \<Longrightarrow> vm_run H oa' p' s (Left s')"
    and unc: "\<And>p p' s s'. R p p' \<Longrightarrow> vm_step H oa p s = Uncaught s' \<Longrightarrow> vm_run H oa' p' s (Uncaught s')"
  shows "vm_run H oa' pc' s r"
  using run rel
proof (induction arbitrary: pc' rule: vm_run.induct)
  case (Run_Left pc s s')
  then show ?case using left by blast
next
  case (Run_Uncaught pc s s')
  then show ?case using unc by blast
next
  case (Run_Go pc s q s' r)
  show ?case using go [OF Run_Go.prems Run_Go.hyps(1)] Run_Go.IH by blast
qed

text \<open>Running over NOPs.\<close>

lemma vm_run_nops:
  assumes "p \<le> q" and "\<And>j. p \<le> j \<Longrightarrow> j < q \<Longrightarrow> j < last_op oa \<and> opcode (opcodes oa ! j) = ZEND_NOP"
  shows "vm_run H oa p s r \<longleftrightarrow> vm_run H oa q s r"
  using assms
proof (induction "q - p" arbitrary: p)
  case (Suc n)
  then have "p < q" by simp
  then have "vm_step H oa p s = Go (Suc p) s" using Suc.prems(2) [of p] by (simp add: vm_step_nop)
  then have "vm_run H oa p s r \<longleftrightarrow> vm_run H oa (Suc p) s r" by (subst vm_run_unfold) simp
  also have "\<dots> \<longleftrightarrow> vm_run H oa q s r"
    using Suc.hyps(2) Suc.prems \<open>p < q\<close> by (intro Suc.hyps(1)) auto
  finally show ?case .
qed simp

text \<open>Changing one instruction, when its old and its new continuation lead to the same ends.\<close>

lemma one_change_sim:
  assumes run: "vm_run H oa pc s r"
    and other: "\<And>p s. p \<noteq> i \<Longrightarrow> vm_step H oa' p s = vm_step H oa p s"
    and at_i: "\<And>s. vm_step H oa' i s = vm_step H oa i s
      \<or> (\<exists>a b s'. vm_step H oa i s = Go a s' \<and> vm_step H oa' i s = Go b s'
            \<and> (\<forall>r. vm_run H oa' a s' r \<longrightarrow> vm_run H oa' b s' r))"
  shows "vm_run H oa' pc s r"
proof (rule vm_run_simulation [where R = "(=)", OF run refl])
  fix p p' s q s' r
  assume e: "p = p'" and st: "vm_step H oa p s = Go q s'" and ih: "\<And>q'. q = q' \<Longrightarrow> vm_run H oa' q' s' r"
  have q: "vm_run H oa' q s' r" by (rule ih) simp
  show "vm_run H oa' p' s r"
  proof (cases "vm_step H oa' p s = vm_step H oa p s")
    case True
    then have "vm_step H oa' p s = Go q s'" using st by simp
    then show ?thesis unfolding e [symmetric] using q by (rule vm_run.Run_Go)
  next
    case False
    then have "p = i" using other by blast
    then obtain b where b: "vm_step H oa' p s = Go b s'" "vm_run H oa' q s' r \<longrightarrow> vm_run H oa' b s' r"
      using at_i [of s] False st by auto
    show ?thesis unfolding e [symmetric] by (rule vm_run.Run_Go [OF b(1)]) (use b(2) q in simp)
  qed
next
  fix p p' s s'
  assume e: "p = p'" and st: "vm_step H oa p s = Left s'"
  have "vm_step H oa' p s = Left s'" using st other [of p s] at_i [of s] by (cases "p = i") auto
  then show "vm_run H oa' p' s (Left s')" unfolding e by (rule vm_run.Run_Left)
next
  fix p p' s s'
  assume e: "p = p'" and st: "vm_step H oa p s = Uncaught s'"
  have "vm_step H oa' p s = Uncaught s'" using st other [of p s] at_i [of s] by (cases "p = i") auto
  then show "vm_run H oa' p' s (Uncaught s')" unfolding e by (rule vm_run.Run_Uncaught)
qed

definition with_op :: "'x zend_op_array \<Rightarrow> nat \<Rightarrow> zend_op \<Rightarrow> 'x zend_op_array" where
  "with_op oa i o1 = oa\<lparr>opcodes := (opcodes oa)[i := o1]\<rparr>"

lemma with_op_step_other: "p \<noteq> i \<Longrightarrow> vm_step H (with_op oa i o2) p s = vm_step H (with_op oa i o1) p s"
  by (simp add: with_op_def vm_step_def Let_def)

lemma with_op_same [simp]: "i < last_op oa \<Longrightarrow> with_op oa i (opcodes oa ! i) = oa"
  by (simp add: with_op_def)

lemma vm_run_JMP:
  assumes "p < last_op oa" "opcode (opcodes oa ! p) = ZEND_JMP"
  shows "vm_run H oa p s r \<longleftrightarrow> vm_run H oa (num (op1 (opcodes oa ! p))) s r"
  using vm_step_jmp [OF assms, of H s] by (subst vm_run_unfold) simp

text \<open>Retargeting one instruction: in both programs the old and the new target are
  equivalent for the states in which control gets there.\<close>

lemma retarget_same:
  assumes "\<And>s. vm_step H (with_op oa i o2) i s = vm_step H (with_op oa i o1) i s
      \<or> (\<exists>a b s'. vm_step H (with_op oa i o1) i s = Go a s' \<and> vm_step H (with_op oa i o2) i s = Go b s'
            \<and> (\<forall>r. vm_run H (with_op oa i o1) a s' r \<longleftrightarrow> vm_run H (with_op oa i o1) b s' r)
            \<and> (\<forall>r. vm_run H (with_op oa i o2) a s' r \<longleftrightarrow> vm_run H (with_op oa i o2) b s' r))"
  shows "vm_run H (with_op oa i o2) pc s r \<longleftrightarrow> vm_run H (with_op oa i o1) pc s r"
proof
  let ?A = "with_op oa i o1" and ?B = "with_op oa i o2"
  show "vm_run H ?A pc s r" if run: "vm_run H ?B pc s r"
  proof (rule one_change_sim [OF run, where i = i])
    show "p \<noteq> i \<Longrightarrow> vm_step H ?A p s = vm_step H ?B p s" for p s by (rule with_op_step_other)
    show "vm_step H ?A i s = vm_step H ?B i s \<or> (\<exists>a b s'. vm_step H ?B i s = Go a s' \<and> vm_step H ?A i s = Go b s'
            \<and> (\<forall>r. vm_run H ?A a s' r \<longrightarrow> vm_run H ?A b s' r))" for s
      using assms [of s] by (elim disjE exE conjE) auto
  qed
  show "vm_run H ?B pc s r" if run: "vm_run H ?A pc s r"
  proof (rule one_change_sim [OF run, where i = i])
    show "p \<noteq> i \<Longrightarrow> vm_step H ?B p s = vm_step H ?A p s" for p s by (rule with_op_step_other)
    show "vm_step H ?B i s = vm_step H ?A i s \<or> (\<exists>a b s'. vm_step H ?A i s = Go a s' \<and> vm_step H ?B i s = Go b s'
            \<and> (\<forall>r. vm_run H ?B a s' r \<longrightarrow> vm_run H ?B b s' r))" for s
      using assms [of s] by (elim disjE exE conjE) auto
  qed
qed

end
