(* ===== verification/Nop_Removal.thy ===== *)
theory Nop_Removal
  imports Vm
begin

text \<open>
  Pass 10, \<open>Optimizer/nop_removal.c\<close>: the code array is compacted in place and every opline
  number (jump operands, break/continue, try/catch and early-binding tables) is lowered by the
  number of NOPs before its target. Reads outside an array, which C leaves undefined, give
  \<open>None\<close>.
\<close>

section \<open>The code\<close>

text \<open>\<open>while (target->opcode == ZEND_NOP) target--\<close>\<close>

fun skip_nops_back :: "zend_op list \<Rightarrow> nat \<Rightarrow> nat option" where
  "skip_nops_back ops 0 = (if opcode (ops ! 0) = ZEND_NOP then None else Some 0)"
| "skip_nops_back ops (Suc k) =
     (if opcode (ops ! Suc k) = ZEND_NOP then skip_nops_back ops k else Some (Suc k))"

text \<open>Kill JMP-over-NOP-s: the instruction at \<open>i\<close> after the test.\<close>

definition kill_jmp :: "zend_op list \<Rightarrow> nat \<Rightarrow> zend_op option" where
  "kill_jmp ops i =
     (let o1 = ops ! i in
      if opcode o1 = ZEND_JMP \<and> num (op1 o1) > i
      then (if num (op1 o1) - 1 < length ops
            then map_option (\<lambda>t. if t = i then o1\<lparr>opcode := ZEND_NOP\<rparr> else o1)
                   (skip_nops_back ops (num (op1 o1) - 1))
            else None)
      else Some o1)"

text \<open>The first loop. \<open>Some (False, ...)\<close> is the early return at an unresolved GOTO, with
  the code array as it is then.\<close>

type_synonym scan_state = "zend_op list \<times> nat \<times> nat \<times> nat list"

function nop_scan ::
  "(znode \<Rightarrow> bool) \<Rightarrow> nat \<Rightarrow> zend_op list \<Rightarrow> nat \<Rightarrow> nat \<Rightarrow> nat list \<Rightarrow> (bool \<times> scan_state) option" where
  "nop_scan lit_long i ops new_count shift sl =
     (if i < length ops
      then if opcode (ops ! i) = ZEND_GOTO \<and> \<not> lit_long (op2 (ops ! i))
        then Some (False, ops, new_count, shift, sl)
        else (case kill_jmp ops i of
            None \<Rightarrow> None
          | Some o1 \<Rightarrow>
              (let ops1 = ops[i := o1]; sl1 = sl @ [shift] in
               if opcode o1 = ZEND_NOP
               then nop_scan lit_long (Suc i) ops1 new_count (Suc shift) sl1
               else nop_scan lit_long (Suc i) (if shift \<noteq> 0 then ops1[new_count := o1] else ops1)
                      (Suc new_count) shift sl1))
      else Some (True, ops, new_count, shift, sl))"
  by pat_completeness auto
termination by (relation "measure (\<lambda>(_, i, ops, _). length ops - i)") auto

text \<open>\<open>n -= shiftlist[n]\<close>\<close>

definition renum :: "nat list \<Rightarrow> nat \<Rightarrow> nat option" where
  "renum sl n = (if n < length sl then Some (n - sl ! n) else None)"

definition renum_int :: "nat list \<Rightarrow> int \<Rightarrow> int option" where
  "renum_int sl n = (if 0 \<le> n then map_option int (renum sl (nat n)) else None)"

definition map_num :: "(nat \<Rightarrow> nat option) \<Rightarrow> znode \<Rightarrow> znode option" where
  "map_num f z = map_option (\<lambda>n. z\<lparr>num := n\<rparr>) (f (num z))"

text \<open>The switch of the second loop.\<close>

definition renum_op :: "nat list \<Rightarrow> zend_op \<Rightarrow> zend_op option" where
  "renum_op sl o1 =
     (if opcode o1 \<in> {ZEND_JMP, ZEND_GOTO, ZEND_FAST_CALL}
      then map_option (\<lambda>z. o1\<lparr>op1 := z\<rparr>) (map_num (renum sl) (op1 o1))
      else if opcode o1 \<in> {ZEND_JMPZ, ZEND_JMPNZ, ZEND_JMPZ_EX, ZEND_JMPNZ_EX, ZEND_FE_FETCH,
                 ZEND_FE_RESET, ZEND_NEW, ZEND_JMP_SET, ZEND_JMP_SET_VAR}
      then map_option (\<lambda>z. o1\<lparr>op2 := z\<rparr>) (map_num (renum sl) (op2 o1))
      else if opcode o1 = ZEND_JMPZNZ
      then (case (map_num (renum sl) (op2 o1), renum sl (extended_value o1)) of
              (Some z, Some e) \<Rightarrow> Some (o1\<lparr>op2 := z, extended_value := e\<rparr>) | _ \<Rightarrow> None)
      else if opcode o1 = ZEND_CATCH
      then map_option (\<lambda>e. o1\<lparr>extended_value := e\<rparr>) (renum sl (extended_value o1))
      else Some o1)"

fun map_opt :: "('a \<Rightarrow> 'b option) \<Rightarrow> 'a list \<Rightarrow> 'b list option" where
  "map_opt f [] = Some []"
| "map_opt f (x # xs) =
     (case f x of None \<Rightarrow> None | Some y \<Rightarrow> map_option (Cons y) (map_opt f xs))"

definition renum_brk_cont :: "nat list \<Rightarrow> brk_cont_element \<Rightarrow> brk_cont_element option" where
  "renum_brk_cont sl b =
     (case (renum_int sl (bc_brk b), renum_int sl (bc_cont b), renum_int sl (bc_start b)) of
        (Some k, Some c, Some s) \<Rightarrow> Some (b\<lparr>bc_brk := k, bc_cont := c, bc_start := s\<rparr>)
      | _ \<Rightarrow> None)"

definition renum_try_catch :: "nat list \<Rightarrow> try_catch_element \<Rightarrow> try_catch_element option" where
  "renum_try_catch sl t =
     (case (renum sl (try_op t), renum sl (catch_op t)) of
        (Some a, Some c) \<Rightarrow>
          (if finally_op t \<noteq> 0
           then (case (renum sl (finally_op t), renum sl (finally_end t)) of
                   (Some f, Some e) \<Rightarrow>
                     Some (t\<lparr>try_op := a, catch_op := c, finally_op := f, finally_end := e\<rparr>)
                 | _ \<Rightarrow> None)
           else Some (t\<lparr>try_op := a, catch_op := c\<rparr>))
      | _ \<Rightarrow> None)"

text \<open>The early-binding chain: \<open>n\<close> is the position just written, whose \<open>result\<close> links on.\<close>

partial_function (option) renum_binding :: "nat list \<Rightarrow> zend_op list \<Rightarrow> nat \<Rightarrow> zend_op list option" where
  "renum_binding sl ops n =
     (if \<not> n < length ops then None
      else let v = num (result (ops ! n)) in
        if v = UINT_MAX then Some ops
        else (case renum sl v of
            None \<Rightarrow> None
          | Some m \<Rightarrow> renum_binding sl
              (ops[n := (ops ! n)\<lparr>result := (result (ops ! n))\<lparr>num := m\<rparr>\<rparr>]) m))"

definition renum_early :: "nat list \<Rightarrow> nat \<Rightarrow> zend_op list \<Rightarrow> (nat \<times> zend_op list) option" where
  "renum_early sl eb ops =
     (if eb = UINT_MAX then Some (eb, ops)
      else (case renum sl eb of
          None \<Rightarrow> None
        | Some n \<Rightarrow> map_option (Pair n) (renum_binding sl ops n)))"

definition nop_removal :: "'x zend_op_array \<Rightarrow> 'x zend_op_array option" where
  "nop_removal oa =
     (case nop_scan (\<lambda>z. is_long (lit oa z)) 0 (opcodes oa) 0 0 [] of
        None \<Rightarrow> None
      | Some (False, ops, _) \<Rightarrow> Some (oa\<lparr>opcodes := ops\<rparr>)
      | Some (True, ops, new_count, shift, sl) \<Rightarrow>
          if shift = 0 then Some (oa\<lparr>opcodes := ops\<rparr>)
          else
          (case (map_opt (renum_op sl) (take new_count ops),
                 map_opt (renum_brk_cont sl) (brk_cont_array oa),
                 map_opt (renum_try_catch sl) (try_catch_array oa)) of
             (Some ops1, Some bc, Some tc) \<Rightarrow>
               (case renum_early sl (early_binding oa) ops1 of
                  None \<Rightarrow> None
                | Some (eb, ops2) \<Rightarrow>
                    Some (oa\<lparr>opcodes := ops2, brk_cont_array := bc, try_catch_array := tc,
                             early_binding := eb\<rparr>))
           | _ \<Rightarrow> None))"

section \<open>The first loop\<close>

definition is_nop :: "zend_op \<Rightarrow> bool" where "is_nop o1 \<longleftrightarrow> opcode o1 = ZEND_NOP"

text \<open>\<open>nops K i\<close> NOPs and \<open>kept K i\<close> other instructions lie before position \<open>i\<close>.\<close>

definition nops :: "zend_op list \<Rightarrow> nat \<Rightarrow> nat" where
  "nops K i = length (filter is_nop (take i K))"

definition kept :: "zend_op list \<Rightarrow> nat \<Rightarrow> nat" where
  "kept K i = length (filter (\<lambda>o1. \<not> is_nop o1) (take i K))"

lemma nops_kept: "i \<le> length K \<Longrightarrow> nops K i + kept K i = i"
  unfolding nops_def kept_def by (simp add: sum_length_filter_compl)

lemma kept_Suc:
  "i < length K \<Longrightarrow> kept K (Suc i) = (if is_nop (K ! i) then kept K i else Suc (kept K i))"
  by (simp add: kept_def take_Suc_conv_app_nth)

lemma nops_Suc:
  "i < length K \<Longrightarrow> nops K (Suc i) = (if is_nop (K ! i) then Suc (nops K i) else nops K i)"
  by (simp add: nops_def take_Suc_conv_app_nth)

lemma kept_mono: "i \<le> j \<Longrightarrow> kept K i \<le> kept K j"
proof -
  assume "i \<le> j"
  then have "take j K = take i K @ take (j - i) (drop i K)" using take_add [of i "j - i" K] by simp
  then show ?thesis by (simp add: kept_def)
qed

lemma kept_le: "kept K i \<le> i"
  unfolding kept_def by (rule order_trans [OF length_filter_le]) simp

lemma kept_strict:
  assumes "i < j" "i < length K" "\<not> is_nop (K ! i)"
  shows "kept K i < kept K j"
  using kept_mono [of "Suc i" j K] kept_Suc [of i K] assms by simp

lemma filter_kept_nth:
  assumes "i < length K" "\<not> is_nop (K ! i)"
  shows "filter (\<lambda>o1. \<not> is_nop o1) K ! kept K i = K ! i"
    and "kept K i < length (filter (\<lambda>o1. \<not> is_nop o1) K)"
proof -
  let ?P = "\<lambda>o1. \<not> is_nop o1"
  have "filter ?P K = filter ?P (take i K @ K ! i # drop (Suc i) K)"
    by (rule arg_cong [OF id_take_nth_drop [OF assms(1)]])
  then have *: "filter ?P K = filter ?P (take i K) @ K ! i # filter ?P (drop (Suc i) K)"
    using assms(2) by simp
  show "filter (\<lambda>o1. \<not> is_nop o1) K ! kept K i = K ! i"
    unfolding * kept_def by simp
  show "kept K i < length (filter (\<lambda>o1. \<not> is_nop o1) K)"
    unfolding * kept_def by simp
qed

lemma kept_all: "kept K (length K) = length (filter (\<lambda>o1. \<not> is_nop o1) K)"
  by (simp add: kept_def)

text \<open>The instruction that stands at or after \<open>p\<close> and is kept.\<close>

lemma next_kept:
  assumes "kept K p < kept K (length K)"
  shows "\<exists>q. p \<le> q \<and> q < length K \<and> \<not> is_nop (K ! q) \<and> kept K q = kept K p
    \<and> (\<forall>j. p \<le> j \<longrightarrow> j < q \<longrightarrow> is_nop (K ! j))"
  using assms
proof (induction "length K - p" arbitrary: p)
  case 0
  then show ?case by (simp add: kept_def)
next
  case (Suc n)
  then have p: "p < length K" by simp
  show ?case
  proof (cases "is_nop (K ! p)")
    case False
    then show ?thesis using p by (intro exI [of _ p]) auto
  next
    case True
    then have e: "kept K (Suc p) = kept K p" using p by (simp add: kept_Suc)
    have n: "n = length K - Suc p" using Suc.hyps(2) p by simp
    obtain q where "Suc p \<le> q" "q < length K" "\<not> is_nop (K ! q)" "kept K q = kept K (Suc p)"
      "\<forall>j. Suc p \<le> j \<longrightarrow> j < q \<longrightarrow> is_nop (K ! j)"
      using Suc.hyps(1) [OF n] Suc.prems e by auto
    moreover have "\<forall>j. p \<le> j \<longrightarrow> j < q \<longrightarrow> is_nop (K ! j)"
    proof (intro allI impI)
      fix j assume "p \<le> j" "j < q"
      then show "is_nop (K ! j)"
        using True \<open>\<forall>j. Suc p \<le> j \<longrightarrow> j < q \<longrightarrow> is_nop (K ! j)\<close> by (cases "j = p") auto
    qed
    ultimately show ?thesis using e by (intro exI [of _ q]) simp
  qed
qed

lemma skip_back_cong:
  assumes "\<And>j. i \<le> j \<Longrightarrow> j \<le> k \<Longrightarrow> ops' ! j = ops ! j" and "i \<le> k" and "\<not> is_nop (ops ! i)"
  shows "skip_nops_back ops' k = skip_nops_back ops k"
  using assms
proof (induction k)
  case 0
  then show ?case by simp
next
  case (Suc k)
  have e: "ops' ! Suc k = ops ! Suc k" using Suc.prems by simp
  show ?case
  proof (cases "i = Suc k")
    case True
    then show ?thesis using Suc.prems e by (simp add: is_nop_def)
  next
    case False
    then show ?thesis using Suc e by (simp add: le_Suc_eq)
  qed
qed

lemma skip_back_Some:
  assumes "i \<le> k" and "\<not> is_nop (ops ! i)"
  shows "\<exists>t. skip_nops_back ops k = Some t \<and> i \<le> t \<and> t \<le> k \<and> (\<forall>j. t < j \<longrightarrow> j \<le> k \<longrightarrow> is_nop (ops ! j))"
  using assms
proof (induction k)
  case 0
  then show ?case by (simp add: is_nop_def)
next
  case (Suc k)
  show ?case
  proof (cases "is_nop (ops ! Suc k)")
    case True
    then have "i \<le> k" using Suc.prems by (metis le_Suc_eq)
    with Suc True show ?thesis by (force simp: is_nop_def le_Suc_eq)
  next
    case False
    then show ?thesis using Suc.prems by (intro exI [of _ "Suc k"]) (simp add: is_nop_def)
  qed
qed

lemma kill_jmp_cong:
  assumes "length ops' = length ops" and "drop i ops' = drop i ops"
  shows "i < length ops \<Longrightarrow> kill_jmp ops' i = kill_jmp ops i"
proof -
  assume i: "i < length ops"
  have eq: "ops' ! j = ops ! j" if "i \<le> j" "j < length ops" for j
  proof -
    have "drop i ops' ! (j - i) = drop i ops ! (j - i)" by (simp add: assms(2))
    then show ?thesis using that assms(1) by simp
  qed
  have e: "ops' ! i = ops ! i" using eq i by simp
  show ?thesis
  proof (cases "opcode (ops ! i) = ZEND_JMP \<and> num (op1 (ops ! i)) > i \<and> num (op1 (ops ! i)) - 1 < length ops")
    case True
    then have "skip_nops_back ops' (num (op1 (ops ! i)) - 1) = skip_nops_back ops (num (op1 (ops ! i)) - 1)"
      by (intro skip_back_cong [of i] eq) (auto simp: is_nop_def)
    then show ?thesis using True by (simp add: kill_jmp_def e assms(1) Let_def)
  next
    case False
    then show ?thesis by (auto simp: kill_jmp_def e assms(1) Let_def)
  qed
qed

text \<open>What the test at \<open>i\<close> decides: a JMP dies exactly when only NOPs lie before its target.\<close>

definition dead_jmp :: "zend_op list \<Rightarrow> nat \<Rightarrow> bool" where
  "dead_jmp ops i \<longleftrightarrow> opcode (ops ! i) = ZEND_JMP \<and> i < num (op1 (ops ! i))
     \<and> num (op1 (ops ! i)) \<le> length ops
     \<and> (\<forall>j. i < j \<longrightarrow> j < num (op1 (ops ! i)) \<longrightarrow> is_nop (ops ! j))"

lemma skip_back_not_nop: "skip_nops_back ops k = Some t \<Longrightarrow> \<not> is_nop (ops ! t)"
  by (induction k) (auto simp: is_nop_def split: if_splits)

lemma kill_jmp_value:
  assumes "i < length ops" and "opcode (ops ! i) = ZEND_JMP \<Longrightarrow> num (op1 (ops ! i)) \<le> length ops"
  shows "kill_jmp ops i = Some (if dead_jmp ops i then (ops ! i)\<lparr>opcode := ZEND_NOP\<rparr> else ops ! i)"
proof (cases "opcode (ops ! i) = ZEND_JMP \<and> i < num (op1 (ops ! i))")
  case True
  let ?n = "num (op1 (ops ! i))"
  have n: "i \<le> ?n - 1" "\<not> is_nop (ops ! i)" "?n \<le> length ops" using True assms(2) by (auto simp: is_nop_def)
  obtain t where t: "skip_nops_back ops (?n - 1) = Some t" "i \<le> t" "t \<le> ?n - 1"
    "\<forall>j. t < j \<longrightarrow> j \<le> ?n - 1 \<longrightarrow> is_nop (ops ! j)"
    using skip_back_Some [OF n(1,2)] by blast
  have "\<not> is_nop (ops ! t)" by (rule skip_back_not_nop [OF t(1)])
  moreover have "t < ?n" using t(3) True by linarith
  ultimately have "dead_jmp ops i \<longleftrightarrow> t = i"
    using True n(3) t by (auto simp: dead_jmp_def dest: le_neq_implies_less)
  then show ?thesis using True n t(1) by (auto simp: kill_jmp_def Let_def)
next
  case False
  then show ?thesis by (auto simp: kill_jmp_def dead_jmp_def Let_def)
qed

text \<open>The code after the killed JMPs, before compaction.\<close>

definition killed :: "zend_op list \<Rightarrow> zend_op list" where
  "killed ops = map (\<lambda>i. if dead_jmp ops i then (ops ! i)\<lparr>opcode := ZEND_NOP\<rparr> else ops ! i) [0..<length ops]"

lemma killed_nth: "i < length ops \<Longrightarrow>
    killed ops ! i = (if dead_jmp ops i then (ops ! i)\<lparr>opcode := ZEND_NOP\<rparr> else ops ! i)"
  by (simp add: killed_def)

lemma length_killed [simp]: "length (killed ops) = length ops"
  by (simp add: killed_def)

definition jmps_inside :: "zend_op list \<Rightarrow> bool" where
  "jmps_inside ops \<longleftrightarrow> (\<forall>i < length ops. opcode (ops ! i) = ZEND_JMP \<longrightarrow> num (op1 (ops ! i)) \<le> length ops)"

text \<open>The state of the first loop at position \<open>i\<close>.\<close>

definition scan_inv :: "zend_op list \<Rightarrow> nat \<Rightarrow> zend_op list \<Rightarrow> nat \<Rightarrow> nat \<Rightarrow> nat list \<Rightarrow> bool" where
  "scan_inv ops0 i ops nc sh sl \<longleftrightarrow> i \<le> length ops0 \<and> length ops = length ops0 \<and> drop i ops = drop i ops0
     \<and> take (kept (killed ops0) i) ops = filter (\<lambda>o1. \<not> is_nop o1) (take i (killed ops0))
     \<and> nc = kept (killed ops0) i \<and> sh = nops (killed ops0) i \<and> sl = map (nops (killed ops0)) [0..<i]
     \<and> (\<forall>p. nc \<le> p \<longrightarrow> p < i \<longrightarrow> ops ! p = killed ops0 ! p)"

lemma scan_inv_0: "scan_inv ops 0 ops 0 0 []"
  by (simp add: scan_inv_def kept_def nops_def)

lemma scan_inv_step:
  assumes inv: "scan_inv ops0 i ops nc sh sl" and i: "i < length ops" and jm: "jmps_inside ops0"
  defines "o1 \<equiv> killed ops0 ! i"
  shows "kill_jmp ops i = Some o1" and "ops ! i = ops0 ! i"
    and "is_nop o1 \<Longrightarrow> scan_inv ops0 (Suc i) (ops[i := o1]) nc (Suc sh) (sl @ [sh])"
    and "\<not> is_nop o1 \<Longrightarrow>
      scan_inv ops0 (Suc i) (if sh \<noteq> 0 then (ops[i := o1])[nc := o1] else ops[i := o1]) (Suc nc) sh (sl @ [sh])"
proof -
  let ?K = "killed ops0"
  note I = inv [unfolded scan_inv_def]
  have i0: "i < length ops0" using i I by simp
  show e: "ops ! i = ops0 ! i" using I i0 by (metis nth_via_drop Cons_nth_drop_Suc)
  have "kill_jmp ops i = kill_jmp ops0 i" using I i0 by (intro kill_jmp_cong) simp_all
  also have "\<dots> = Some o1"
    using i0 jm by (subst kill_jmp_value) (simp_all add: o1_def killed_nth jmps_inside_def)
  finally show "kill_jmp ops i = Some o1" .
  have nk: "sh + nc = i" using nops_kept [of i ?K] I i0 by simp
  have dr: "drop (Suc i) ops = drop (Suc i) ops0" using I by (metis drop_Suc tl_drop)
  have tk: "take (Suc i) ?K = take i ?K @ [o1]" using i0 by (simp add: o1_def take_Suc_conv_app_nth)
  have ks: "kept ?K (Suc i) = (if is_nop o1 then nc else Suc nc)"
    "nops ?K (Suc i) = (if is_nop o1 then Suc sh else sh)"
    using kept_Suc [of i ?K] nops_Suc [of i ?K] i0 I by (simp_all add: o1_def)
  show "scan_inv ops0 (Suc i) (ops[i := o1]) nc (Suc sh) (sl @ [sh])" if "is_nop o1"
    using that I i0 dr tk ks nk by (auto simp: scan_inv_def o1_def nth_list_update less_Suc_eq)
  show "scan_inv ops0 (Suc i) (if sh \<noteq> 0 then (ops[i := o1])[nc := o1] else ops[i := o1]) (Suc nc) sh (sl @ [sh])"
    if no: "\<not> is_nop o1"
  proof -
    let ?o = "if sh \<noteq> 0 then (ops[i := o1])[nc := o1] else ops[i := o1]"
    have "?o = (ops[i := o1])[nc := o1]" using nk i by (cases "sh = 0") auto
    moreover have "take (Suc nc) ((ops[i := o1])[nc := o1]) = take nc ops @ [o1]"
      using nk i by (simp add: take_Suc_conv_app_nth)
    ultimately have "take (Suc nc) ?o = filter (\<lambda>o1. \<not> is_nop o1) (take (Suc i) ?K)"
      using I no tk by simp
    moreover have "drop (Suc i) ?o = drop (Suc i) ops0" using dr nk by simp
    moreover have "?o ! p = ?K ! p" if "Suc nc \<le> p" "p < Suc i" for p
      using that I i0 by (auto simp: nth_list_update o1_def less_Suc_eq)
    ultimately show ?thesis using I no i0 ks by (simp add: scan_inv_def)
  qed
qed

text \<open>An unresolved GOTO at \<open>g\<close> ends the loop.\<close>

lemma nop_scan_stops:
  assumes "scan_inv ops0 i ops nc sh sl" and "jmps_inside ops0" and "i \<le> g" "g < length ops0"
    and "\<And>j. i \<le> j \<Longrightarrow> j < g \<Longrightarrow> opcode (ops0 ! j) = ZEND_GOTO \<Longrightarrow> lit_long (op2 (ops0 ! j))"
    and "opcode (ops0 ! g) = ZEND_GOTO" "\<not> lit_long (op2 (ops0 ! g))"
  shows "\<exists>ops' nc' sh' sl'. nop_scan lit_long i ops nc sh sl = Some (False, ops', nc', sh', sl')
    \<and> scan_inv ops0 g ops' nc' sh' sl'"
  using assms
proof (induction lit_long i ops nc sh sl rule: nop_scan.induct)
  case (1 lit_long i ops nc sh sl)
  have len: "length ops = length ops0" using "1.prems"(1) by (simp add: scan_inv_def)
  have True: "i < length ops" using "1.prems"(3,4) len by simp
  note st = scan_inv_step [OF "1.prems"(1) True "1.prems"(2)]
  show ?case
  proof (cases "i = g")
    case True
    then show ?thesis using "1.prems"(1,4,6,7) len st(2) by (subst nop_scan.simps) auto
  next
    case False
    then have g: "\<not> (opcode (ops ! i) = ZEND_GOTO \<and> \<not> lit_long (op2 (ops ! i)))" and ig: "Suc i \<le> g"
      using "1.prems"(3) "1.prems"(5) [of i] st(2) by auto
    show ?thesis
    proof (cases "is_nop (killed ops0 ! i)")
      case nop: True
      have "\<exists>ops' nc' sh' sl'. nop_scan lit_long (Suc i) (ops[i := killed ops0 ! i]) nc (Suc sh) (sl @ [sh])
          = Some (False, ops', nc', sh', sl') \<and> scan_inv ops0 g ops' nc' sh' sl'"
        using "1.prems" nop st(3) ig by (intro "1.IH"(1) [OF True g st(1) refl refl]) (auto simp: is_nop_def)
      then show ?thesis using True g st(1) nop
        by (subst nop_scan.simps) (auto simp: is_nop_def Let_def simp del: nop_scan.simps)
    next
      case keep: False
      have "\<exists>ops' nc' sh' sl'. nop_scan lit_long (Suc i)
            (if sh \<noteq> 0 then (ops[i := killed ops0 ! i])[nc := killed ops0 ! i] else ops[i := killed ops0 ! i]) (Suc nc) sh (sl @ [sh])
          = Some (False, ops', nc', sh', sl') \<and> scan_inv ops0 g ops' nc' sh' sl'"
        using "1.prems" keep st(4) ig by (intro "1.IH"(2) [OF True g st(1) refl refl]) (auto simp: is_nop_def)
      then show ?thesis using True g st(1) keep
        by (subst nop_scan.simps) (auto simp: is_nop_def Let_def simp del: nop_scan.simps)
    qed
  qed
qed

lemma nop_scan_run:
  assumes "scan_inv ops0 i ops nc sh sl" and "jmps_inside ops0"
    and "\<And>j. i \<le> j \<Longrightarrow> j < length ops0 \<Longrightarrow> opcode (ops0 ! j) = ZEND_GOTO \<Longrightarrow> lit_long (op2 (ops0 ! j))"
  shows "\<exists>ops' nc' sh' sl'. nop_scan lit_long i ops nc sh sl = Some (True, ops', nc', sh', sl')
    \<and> scan_inv ops0 (length ops0) ops' nc' sh' sl'"
  using assms
proof (induction lit_long i ops nc sh sl rule: nop_scan.induct)
  case (1 lit_long i ops nc sh sl)
  have len: "length ops = length ops0" using "1.prems"(1) by (simp add: scan_inv_def)
  show ?case
  proof (cases "i < length ops")
    case False
    then have "i = length ops0" using "1.prems"(1) by (simp add: scan_inv_def)
    then show ?thesis using "1.prems"(1) False by (subst nop_scan.simps) simp
  next
    case True
    note st = scan_inv_step [OF "1.prems"(1) True "1.prems"(2)]
    have g: "\<not> (opcode (ops ! i) = ZEND_GOTO \<and> \<not> lit_long (op2 (ops ! i)))"
      using "1.prems"(3) [of i] True len st(2) by auto
    show ?thesis
    proof (cases "is_nop (killed ops0 ! i)")
      case nop: True
      have "\<exists>ops' nc' sh' sl'. nop_scan lit_long (Suc i) (ops[i := killed ops0 ! i]) nc (Suc sh) (sl @ [sh])
          = Some (True, ops', nc', sh', sl') \<and> scan_inv ops0 (length ops0) ops' nc' sh' sl'"
        using "1.prems" nop st(3) by (intro "1.IH"(1) [OF True g st(1) refl refl]) (auto simp: is_nop_def)
      then show ?thesis using True g st(1) nop
        by (subst nop_scan.simps) (simp add: is_nop_def Let_def)
    next
      case keep: False
      have "\<exists>ops' nc' sh' sl'. nop_scan lit_long (Suc i)
            (if sh \<noteq> 0 then (ops[i := killed ops0 ! i])[nc := killed ops0 ! i] else ops[i := killed ops0 ! i])
            (Suc nc) sh (sl @ [sh])
          = Some (True, ops', nc', sh', sl') \<and> scan_inv ops0 (length ops0) ops' nc' sh' sl'"
        using "1.prems" keep st(4) by (intro "1.IH"(2) [OF True g st(1) refl refl]) (auto simp: is_nop_def)
      then show ?thesis using True g st(1) keep
        by (subst nop_scan.simps) (simp add: is_nop_def Let_def)
    qed
  qed
qed

section \<open>Killing the JMPs keeps the behaviour\<close>

lemma vm_step_other:
  assumes "last_op oa' = last_op oa" and "opcodes oa' ! pc = opcodes oa ! pc"
    and "brk_cont_array oa' = brk_cont_array oa" "try_catch_array oa' = try_catch_array oa"
  shows "vm_step H oa' pc s = vm_step H oa pc s"
  by (simp only: vm_step_def assms)

lemma killed_same:
  fixes oa :: "'x zend_op_array"
  assumes "jmps_inside (opcodes oa)"
  shows "vm_run H (oa\<lparr>opcodes := killed (opcodes oa)\<rparr>) pc s r \<longleftrightarrow> vm_run H oa pc s r"
proof
  let ?K = "oa\<lparr>opcodes := killed (opcodes oa)\<rparr>"
  have len: "last_op ?K = last_op oa" by simp
  have live: "vm_step H ?K pc s = vm_step H oa pc s" if "\<not> (pc < last_op oa \<and> dead_jmp (opcodes oa) pc)" for pc s
  proof (cases "pc < last_op oa")
    case True
    then show ?thesis using that by (intro vm_step_other) (simp_all add: killed_nth)
  qed (simp add: vm_step_def)
  have dead: "vm_step H ?K pc s = Go (Suc pc) s" "vm_step H oa pc s = Go (num (op1 (opcodes oa ! pc))) s"
    if "pc < last_op oa" "dead_jmp (opcodes oa) pc" for pc s
  proof -
    show "vm_step H ?K pc s = Go (Suc pc) s" using that by (intro vm_step_nop) (simp_all add: killed_nth)
    show "vm_step H oa pc s = Go (num (op1 (opcodes oa ! pc))) s"
      using that by (intro vm_step_jmp) (simp_all add: dead_jmp_def)
  qed
  have over: "vm_run H oa (Suc pc) s r \<longleftrightarrow> vm_run H oa (num (op1 (opcodes oa ! pc))) s r"
    if "pc < last_op oa" "dead_jmp (opcodes oa) pc" for pc s r
    using that by (intro vm_run_nops) (auto simp: dead_jmp_def is_nop_def)
  have over': "vm_run H ?K (Suc pc) s r \<longleftrightarrow> vm_run H ?K (num (op1 (opcodes oa ! pc))) s r"
    if "pc < last_op oa" "dead_jmp (opcodes oa) pc" for pc s r
    using that by (intro vm_run_nops) (auto simp: dead_jmp_def is_nop_def killed_nth)
  show "vm_run H oa pc s r" if "vm_run H ?K pc s r"
  proof (rule vm_run_simulation [OF that refl])
    fix p p' :: nat and s s' q r
    assume e: "p = p'" and st: "vm_step H ?K p s = Go q s'" and ih: "\<And>q'. q = q' \<Longrightarrow> vm_run H oa q' s' r"
    show "vm_run H oa p' s r"
    proof (cases "p < last_op oa \<and> dead_jmp (opcodes oa) p")
      case True
      then have "q = Suc p" "s' = s" using st dead(1) [of p s] by auto
      then have "vm_run H oa (num (op1 (opcodes oa ! p))) s r" using over [of p] ih True by auto
      then show ?thesis using dead(2) [of p s] True e by (simp add: vm_run.Run_Go)
    next
      case False
      then show ?thesis using vm_run.Run_Go [of H oa p s q s' r] live [OF False] st ih e by simp
    qed
  next
    fix p p' :: nat and s s'
    assume e: "p = p'" and st: "vm_step H ?K p s = Left s'"
    have "\<not> (p < last_op oa \<and> dead_jmp (opcodes oa) p)" using dead(1) [of p s] st by auto
    then have "vm_step H oa p s = Left s'" using live [of p s] st by simp
    then show "vm_run H oa p' s (Left s')" unfolding e [symmetric] by (rule vm_run.Run_Left)
  next
    fix p p' :: nat and s s'
    assume e: "p = p'" and st: "vm_step H ?K p s = Uncaught s'"
    have "\<not> (p < last_op oa \<and> dead_jmp (opcodes oa) p)" using dead(1) [of p s] st by auto
    then have "vm_step H oa p s = Uncaught s'" using live [of p s] st by simp
    then show "vm_run H oa p' s (Uncaught s')" unfolding e [symmetric] by (rule vm_run.Run_Uncaught)
  qed
  show "vm_run H ?K pc s r" if "vm_run H oa pc s r"
  proof (rule vm_run_simulation [OF that refl])
    fix p p' :: nat and s s' q r
    assume e: "p = p'" and st: "vm_step H oa p s = Go q s'" and ih: "\<And>q'. q = q' \<Longrightarrow> vm_run H ?K q' s' r"
    show "vm_run H ?K p' s r"
    proof (cases "p < last_op oa \<and> dead_jmp (opcodes oa) p")
      case True
      then have "q = num (op1 (opcodes oa ! p))" "s' = s" using st dead(2) [of p s] by auto
      then have "vm_run H ?K (Suc p) s r" using over' [of p] ih True by auto
      then show ?thesis using dead(1) [of p s] True e by (simp add: vm_run.Run_Go)
    next
      case False
      then show ?thesis using vm_run.Run_Go [of H ?K p s q s' r] live [OF False] st ih e by simp
    qed
  next
    fix p p' :: nat and s s'
    assume e: "p = p'" and st: "vm_step H oa p s = Left s'"
    have "\<not> (p < last_op oa \<and> dead_jmp (opcodes oa) p)" using dead(2) [of p s] st by auto
    then have "vm_step H ?K p s = Left s'" using live [of p s] st by simp
    then show "vm_run H ?K p' s (Left s')" unfolding e [symmetric] by (rule vm_run.Run_Left)
  next
    fix p p' :: nat and s s'
    assume e: "p = p'" and st: "vm_step H oa p s = Uncaught s'"
    have "\<not> (p < last_op oa \<and> dead_jmp (opcodes oa) p)" using dead(2) [of p s] st by auto
    then have "vm_step H ?K p s = Uncaught s'" using live [of p s] st by simp
    then show "vm_run H ?K p' s (Uncaught s')" unfolding e [symmetric] by (rule vm_run.Run_Uncaught)
  qed
qed

section \<open>Compaction keeps the behaviour\<close>

text \<open>Every opline number lies inside the array.\<close>

definition op_inside :: "nat \<Rightarrow> zend_op \<Rightarrow> bool" where
  "op_inside n o1 \<longleftrightarrow> (jumps_op1 (opcode o1) \<longrightarrow> num (op1 o1) < n)
     \<and> (jumps_op2 (opcode o1) \<longrightarrow> num (op2 o1) < n) \<and> (jumps_ext (opcode o1) \<longrightarrow> extended_value o1 < n)"

definition brk_inside :: "nat \<Rightarrow> brk_cont_element \<Rightarrow> bool" where
  "brk_inside n b \<longleftrightarrow> (\<forall>i \<in> {bc_start b, bc_cont b, bc_brk b}. 0 \<le> i \<and> i < int n)"

definition try_inside :: "nat \<Rightarrow> try_catch_element \<Rightarrow> bool" where
  "try_inside n t \<longleftrightarrow> try_op t < n \<and> catch_op t < n \<and> (finally_op t \<noteq> 0 \<longrightarrow> finally_op t < n \<and> finally_end t < n)"

definition shifts :: "zend_op list \<Rightarrow> nat list" where
  "shifts K = map (nops K) [0..<length K]"

lemma renum_shifts [simp]: "renum (shifts K) i = (if i < length K then Some (kept K i) else None)"
proof -
  have "i < length K \<Longrightarrow> i - nops K i = kept K i" using nops_kept [of i K] by linarith
  then show ?thesis by (simp add: renum_def shifts_def)
qed

lemma renum_int_shifts: "0 \<le> i \<Longrightarrow> i < int (length K) \<Longrightarrow> renum_int (shifts K) i = Some (int (kept K (nat i)))"
  by (simp add: renum_int_def nat_less_iff)

definition moved_op :: "zend_op list \<Rightarrow> zend_op \<Rightarrow> zend_op" where
  "moved_op K o1 = o1\<lparr>
     op1 := (if jumps_op1 (opcode o1) then (op1 o1)\<lparr>num := kept K (num (op1 o1))\<rparr> else op1 o1),
     op2 := (if jumps_op2 (opcode o1) then (op2 o1)\<lparr>num := kept K (num (op2 o1))\<rparr> else op2 o1),
     extended_value := (if jumps_ext (opcode o1) then kept K (extended_value o1) else extended_value o1)\<rparr>"

lemma renum_op_moved: "op_inside (length K) o1 \<Longrightarrow> renum_op (shifts K) o1 = Some (moved_op K o1)"
  by (auto simp: renum_op_def moved_op_def op_inside_def jumps_op1_def jumps_op2_def jumps_ext_def
      map_num_def)

definition moved_brk :: "zend_op list \<Rightarrow> brk_cont_element \<Rightarrow> brk_cont_element" where
  "moved_brk K b = b\<lparr>bc_start := int (kept K (nat (bc_start b))),
     bc_cont := int (kept K (nat (bc_cont b))), bc_brk := int (kept K (nat (bc_brk b)))\<rparr>"

lemma renum_brk_moved: "brk_inside (length K) b \<Longrightarrow> renum_brk_cont (shifts K) b = Some (moved_brk K b)"
  by (simp add: brk_inside_def renum_brk_cont_def renum_int_shifts moved_brk_def)

definition moved_try :: "zend_op list \<Rightarrow> try_catch_element \<Rightarrow> try_catch_element" where
  "moved_try K t = t\<lparr>try_op := kept K (try_op t), catch_op := kept K (catch_op t),
     finally_op := (if finally_op t \<noteq> 0 then kept K (finally_op t) else finally_op t),
     finally_end := (if finally_op t \<noteq> 0 then kept K (finally_end t) else finally_end t)\<rparr>"

lemma renum_try_moved: "try_inside (length K) t \<Longrightarrow> renum_try_catch (shifts K) t = Some (moved_try K t)"
  by (simp add: try_inside_def renum_try_catch_def moved_try_def)

lemma map_opt_Some: "(\<And>x. x \<in> set xs \<Longrightarrow> f x = Some (g x)) \<Longrightarrow> map_opt f xs = Some (map g xs)"
  by (induction xs) auto

lemma catch_of_moved:
  assumes "p < length K" "\<not> is_nop (K ! p)"
  shows "catch_of (kept K p) (map (moved_try K) ts) (map_option (kept K) c)
    = map_option (kept K) (catch_of p ts c)"
proof (induction ts arbitrary: c)
  case (Cons t ts)
  have lt: "kept K p < kept K j \<longleftrightarrow> p < j" for j
    using kept_strict [OF _ assms, of j] kept_mono [of j p K] by (meson leD leI)
  show ?case using Cons.IH [of c] Cons.IH [of "Some (catch_op t)"] by (simp add: moved_try_def lt)
qed simp

text \<open>Instructions that differ at most in an early-binding link.\<close>

definition same_code :: "zend_op \<Rightarrow> zend_op \<Rightarrow> bool" where
  "same_code a b \<longleftrightarrow> blank a = blank b \<and> opcode a = opcode b \<and> num (op1 a) = num (op1 b)
     \<and> num (op2 a) = num (op2 b) \<and> extended_value a = extended_value b"

lemma blank_moved: "blank (moved_op K o1) = blank o1" "opcode (moved_op K o1) = opcode o1"
  by (simp_all add: blank_def moved_op_def)

fun map_go :: "(nat \<Rightarrow> nat) \<Rightarrow> 's outcome \<Rightarrow> 's outcome" where
  "map_go f (Go p s) = Go (f p) s"
| "map_go f r = r"

definition inside :: "'x zend_op_array \<Rightarrow> bool" where
  "inside oa \<longleftrightarrow> (\<forall>o1 \<in> set (opcodes oa). op_inside (last_op oa) o1)
     \<and> (\<forall>b \<in> set (brk_cont_array oa). brk_inside (last_op oa) b)
     \<and> (\<forall>t \<in> set (try_catch_array oa). try_inside (last_op oa) t)"

definition compacted :: "'x zend_op_array \<Rightarrow> 'x zend_op_array \<Rightarrow> bool" where
  "compacted oa oa' \<longleftrightarrow>
     list_all2 same_code (opcodes oa') (map (moved_op (opcodes oa)) (filter (\<lambda>o1. \<not> is_nop o1) (opcodes oa)))
   \<and> brk_cont_array oa' = map (moved_brk (opcodes oa)) (brk_cont_array oa)
   \<and> try_catch_array oa' = map (moved_try (opcodes oa)) (try_catch_array oa)"

lemma compacted_nth:
  assumes "compacted oa oa'" and "p < last_op oa" and "\<not> is_nop (opcodes oa ! p)"
  shows "kept (opcodes oa) p < last_op oa'"
    and "same_code (opcodes oa' ! kept (opcodes oa) p) (moved_op (opcodes oa) (opcodes oa ! p))"
proof -
  let ?F = "filter (\<lambda>o1. \<not> is_nop o1) (opcodes oa)"
  have l: "last_op oa' = length ?F" using assms(1) by (auto simp: compacted_def dest: list_all2_lengthD)
  show k: "kept (opcodes oa) p < last_op oa'" using filter_kept_nth(2) [OF assms(2,3)] l by simp
  have "same_code (opcodes oa' ! kept (opcodes oa) p) (map (moved_op (opcodes oa)) ?F ! kept (opcodes oa) p)"
    using assms(1) k unfolding compacted_def by (blast intro: list_all2_nthD)
  then show "same_code (opcodes oa' ! kept (opcodes oa) p) (moved_op (opcodes oa) (opcodes oa ! p))"
    using filter_kept_nth [OF assms(2,3)] by simp
qed

lemma resume_moved:
  fixes H :: "'s handlers"
  assumes c: "compacted oa oa'" and ins: "inside oa" and p: "p < last_op oa" "\<not> is_nop (opcodes oa ! p)"
  shows "resume (brk_cont_array oa') (try_catch_array oa') (opcodes oa' ! kept (opcodes oa) p) (kept (opcodes oa) p) x
    = map_go (kept (opcodes oa)) (resume (brk_cont_array oa) (try_catch_array oa) (opcodes oa ! p) p x)"
proof -
  let ?K = "opcodes oa" and ?o = "opcodes oa ! p" and ?o' = "opcodes oa' ! kept (opcodes oa) p"
  have sc: "same_code ?o' (moved_op ?K ?o)" by (rule compacted_nth(2) [OF c p])
  have oi: "op_inside (last_op oa) ?o" using ins p by (simp add: inside_def)
  have oc: "opcode ?o' = opcode ?o" using sc by (simp add: same_code_def blank_moved)
  have f1: "jumps_op1 (opcode ?o) \<Longrightarrow> num (op1 ?o') = kept ?K (num (op1 ?o))"
    and f2: "jumps_op2 (opcode ?o) \<Longrightarrow> num (op2 ?o') = kept ?K (num (op2 ?o))"
    and f3: "jumps_ext (opcode ?o) \<Longrightarrow> extended_value ?o' = kept ?K (extended_value ?o)"
    using sc by (simp_all add: same_code_def moved_op_def)
  have nx: "kept ?K (Suc p) = Suc (kept ?K p)" using kept_Suc [of p ?K] p by simp
  have bc: "brk_inside (last_op oa) b" if "b \<in> set (brk_cont_array oa)" for b using ins that by (simp add: inside_def)
  have ct: "catch_of (kept ?K p) (try_catch_array oa') None = map_option (kept ?K) (catch_of p (try_catch_array oa) None)"
    using catch_of_moved [OF p, of "try_catch_array oa" None] c by (simp add: compacted_def)
  have go: "go_int (int (kept ?K (nat i))) s = map_go (kept ?K) (go_int i s)" if "0 \<le> i" for i and s :: 's
    using that by (simp add: go_int_def)
  show ?thesis
  proof (cases "snd x")
    case (Break_To k)
    then show ?thesis using c bc [OF nth_mem, of k]
      by (auto simp: resume_def compacted_def moved_brk_def brk_inside_def go_int_def)
  next
    case (Continue_To k)
    then show ?thesis using c bc [OF nth_mem, of k]
      by (auto simp: resume_def compacted_def moved_brk_def brk_inside_def go_int_def)
  next
    case Raise
    then show ?thesis by (simp add: resume_def ct split: option.split)
  qed (simp_all add: resume_def oc f1 f2 f3 nx)
qed

lemma compacted_step:
  assumes c: "compacted oa oa'" and ins: "inside oa" and p: "p < last_op oa" "\<not> is_nop (opcodes oa ! p)"
  shows "vm_step H oa' (kept (opcodes oa) p) s = map_go (kept (opcodes oa)) (vm_step H oa p s)"
proof -
  let ?K = "opcodes oa" and ?o = "opcodes oa ! p" and ?o' = "opcodes oa' ! kept (opcodes oa) p"
  have sc: "same_code ?o' (moved_op ?K ?o)" by (rule compacted_nth(2) [OF c p])
  have oc: "opcode ?o' = opcode ?o" "blank ?o' = blank ?o" using sc by (simp_all add: same_code_def blank_moved)
  have j: "opcode ?o = ZEND_JMP \<Longrightarrow> num (op1 ?o') = kept ?K (num (op1 ?o))"
    using sc by (simp add: same_code_def moved_op_def jumps_op1_def)
  have nn: "opcode ?o \<noteq> ZEND_NOP" using p(2) by (simp add: is_nop_def)
  show ?thesis
    using compacted_nth(1) [OF c p] p(1) nn j
    by (simp add: vm_step_def Let_def oc resume_moved [OF c ins p])
qed

lemma compacted_same:
  assumes c: "compacted oa oa'" and ins: "inside oa"
  shows "vm_run H oa' (kept (opcodes oa) pc) s r \<longleftrightarrow> vm_run H oa pc s r"
proof
  let ?K = "opcodes oa"
  note st = compacted_step [OF c ins]
  have nop: "vm_step H oa p s = Go (Suc p) s" "kept ?K (Suc p) = kept ?K p"
    if "p < last_op oa" "is_nop (?K ! p)" for p s
    using that kept_Suc [of p ?K] by (simp_all add: vm_step_nop is_nop_def)
  show "vm_run H oa' (kept ?K pc) s r" if "vm_run H oa pc s r"
  proof (rule vm_run_simulation [where R = "\<lambda>p p'. p' = kept ?K p", OF that refl])
    fix p p' s s' q r
    assume R: "p' = kept ?K p" and g: "vm_step H oa p s = Go q s'"
      and ih: "\<And>q'. q' = kept ?K q \<Longrightarrow> vm_run H oa' q' s' r"
    have pl: "p < last_op oa" using g by (auto simp: vm_step_def split: if_splits)
    show "vm_run H oa' p' s r"
    proof (cases "is_nop (?K ! p)")
      case True
      then show ?thesis using nop(1) [OF pl True, of s] nop(2) [OF pl True] g ih R by simp
    next
      case False
      have "vm_step H oa' p' s = Go (kept ?K q) s'" using st [OF pl False, of H s] g R by simp
      then show ?thesis using ih [OF refl] by (rule vm_run.Run_Go)
    qed
  next
    fix p p' s s'
    assume R: "p' = kept ?K p" and g: "vm_step H oa p s = Left s'"
    have pl: "p < last_op oa" using g by (auto simp: vm_step_def split: if_splits)
    then have "\<not> is_nop (?K ! p)" using nop(1) [OF pl, of s] g by auto
    then have "vm_step H oa' p' s = Left s'" using st [OF pl, of H s] g R by simp
    then show "vm_run H oa' p' s (Left s')" by (rule vm_run.Run_Left)
  next
    fix p p' s s'
    assume R: "p' = kept ?K p" and g: "vm_step H oa p s = Uncaught s'"
    have pl: "p < last_op oa" using g by (auto simp: vm_step_def split: if_splits)
    then have "\<not> is_nop (?K ! p)" using nop(1) [OF pl, of s] g by auto
    then have "vm_step H oa' p' s = Uncaught s'" using st [OF pl, of H s] g R by simp
    then show "vm_run H oa' p' s (Uncaught s')" by (rule vm_run.Run_Uncaught)
  qed
  have lall: "last_op oa' = kept ?K (last_op oa)"
    using c by (auto simp: compacted_def kept_all dest: list_all2_lengthD)
  have fwd: "\<exists>q. q < last_op oa \<and> \<not> is_nop (?K ! q) \<and> kept ?K q = p'
      \<and> (\<forall>r. vm_run H oa p s r \<longleftrightarrow> vm_run H oa q s r)" if R: "kept ?K p = p'" and l: "p' < last_op oa'" for p p' s
  proof -
    obtain q where q: "p \<le> q" "q < last_op oa" "\<not> is_nop (?K ! q)" "kept ?K q = kept ?K p"
      "\<forall>j. p \<le> j \<longrightarrow> j < q \<longrightarrow> is_nop (?K ! j)"
      using next_kept [of ?K p] R l lall by auto
    have "vm_run H oa p s r \<longleftrightarrow> vm_run H oa q s r" for r
      using q by (intro vm_run_nops) (auto simp: is_nop_def)
    then show ?thesis using q R by auto
  qed
  show "vm_run H oa pc s r" if "vm_run H oa' (kept ?K pc) s r"
  proof (rule vm_run_simulation [where R = "\<lambda>p' p. kept ?K p = p'", OF that refl])
    fix p' p s s' q' r
    assume R: "kept ?K p = p'" and g: "vm_step H oa' p' s = Go q' s'"
      and ih: "\<And>q. kept ?K q = q' \<Longrightarrow> vm_run H oa q s' r"
    have l: "p' < last_op oa'" using g by (auto simp: vm_step_def split: if_splits)
    obtain q where q: "q < last_op oa" "\<not> is_nop (?K ! q)" "kept ?K q = p'"
      and run: "\<And>r. vm_run H oa p s r \<longleftrightarrow> vm_run H oa q s r" using fwd [OF R l, of s] by blast
    have "map_go (kept ?K) (vm_step H oa q s) = Go q' s'" using st [OF q(1,2), of H s] g q(3) by simp
    then obtain q2 where q2: "vm_step H oa q s = Go q2 s'" "kept ?K q2 = q'"
      by (cases "vm_step H oa q s") auto
    show "vm_run H oa p s r" unfolding run by (rule vm_run.Run_Go [OF q2(1) ih [OF q2(2)]])
  next
    fix p' p s s'
    assume R: "kept ?K p = p'" and g: "vm_step H oa' p' s = Left s'"
    have l: "p' < last_op oa'" using g by (auto simp: vm_step_def split: if_splits)
    obtain q where q: "q < last_op oa" "\<not> is_nop (?K ! q)" "kept ?K q = p'"
      and run: "\<And>r. vm_run H oa p s r \<longleftrightarrow> vm_run H oa q s r" using fwd [OF R l, of s] by blast
    have "map_go (kept ?K) (vm_step H oa q s) = Left s'" using st [OF q(1,2), of H s] g q(3) by simp
    then have "vm_step H oa q s = Left s'" by (cases "vm_step H oa q s") auto
    then show "vm_run H oa p s (Left s')" unfolding run by (rule vm_run.Run_Left)
  next
    fix p' p s s'
    assume R: "kept ?K p = p'" and g: "vm_step H oa' p' s = Uncaught s'"
    have l: "p' < last_op oa'" using g by (auto simp: vm_step_def split: if_splits)
    obtain q where q: "q < last_op oa" "\<not> is_nop (?K ! q)" "kept ?K q = p'"
      and run: "\<And>r. vm_run H oa p s r \<longleftrightarrow> vm_run H oa q s r" using fwd [OF R l, of s] by blast
    have "map_go (kept ?K) (vm_step H oa q s) = Uncaught s'" using st [OF q(1,2), of H s] g q(3) by simp
    then have "vm_step H oa q s = Uncaught s'" by (cases "vm_step H oa q s") auto
    then show "vm_run H oa p s (Uncaught s')" unfolding run by (rule vm_run.Run_Uncaught)
  qed
qed

section \<open>The early-binding chain\<close>

text \<open>From \<open>n\<close>, the delayed class declarations \<open>xs\<close> follow one another.\<close>

fun binding_chain :: "zend_op list \<Rightarrow> nat \<Rightarrow> nat list \<Rightarrow> bool" where
  "binding_chain ops n [] \<longleftrightarrow> n = UINT_MAX"
| "binding_chain ops n (x # xs) \<longleftrightarrow> n = x \<and> n \<noteq> UINT_MAX \<and> x < length ops
     \<and> opcode (ops ! x) = ZEND_DECLARE_INHERITED_CLASS_DELAYED
     \<and> binding_chain ops (num (result (ops ! x))) xs"

lemma binding_chain_cong:
  assumes "binding_chain ops n xs" "length ops' = length ops" "\<And>x. x \<in> set xs \<Longrightarrow> ops' ! x = ops ! x"
  shows "binding_chain ops' n xs"
  using assms by (induction xs arbitrary: n) auto

lemma same_code_refl [simp]: "same_code a a" by (simp add: same_code_def)

lemma same_code_trans: "same_code a b \<Longrightarrow> same_code b c \<Longrightarrow> same_code a c" by (simp add: same_code_def)

lemma same_code_link:
  "opcode a = ZEND_DECLARE_INHERITED_CLASS_DELAYED \<Longrightarrow> same_code (a\<lparr>result := (result a)\<lparr>num := m\<rparr>\<rparr>) a"
  by (simp add: same_code_def blank_def links_result_def)

lemma list_all2_same_code_refl: "list_all2 same_code xs xs"
  by (simp add: list.rel_refl)

lemma list_all2_same_code_trans:
  "list_all2 same_code xs ys \<Longrightarrow> list_all2 same_code ys zs \<Longrightarrow> list_all2 same_code xs zs"
  by (rule list_all2_trans [of same_code same_code same_code, rotated]) (auto intro: same_code_trans)

lemma renum_binding_ok:
  assumes "binding_chain K (num (result (K ! x))) xs" and "distinct (x # xs)"
    and "x < length K" "opcode (K ! x) = ZEND_DECLARE_INHERITED_CLASS_DELAYED" "length K < UINT_MAX"
    and "length N = kept K (length K)"
    and "\<And>y. y \<in> set (x # xs) \<Longrightarrow> opcode (N ! kept K y) = opcode (K ! y) \<and> result (N ! kept K y) = result (K ! y)"
  shows "\<exists>N'. renum_binding (shifts K) N (kept K x) = Some N' \<and> list_all2 same_code N' N
    \<and> binding_chain N' (kept K x) (map (kept K) (x # xs))
    \<and> (\<forall>i. i \<notin> kept K ` set (x # xs) \<longrightarrow> N' ! i = N ! i)"
  using assms
proof (induction xs arbitrary: x N)
  case Nil
  have kx: "kept K x < length N" using filter_kept_nth(2) [OF Nil.prems(3)] Nil.prems(4,6)
    by (simp add: kept_all is_nop_def)
  then have "renum_binding (shifts K) N (kept K x) = Some N"
    using Nil.prems by (subst renum_binding.simps) (simp add: Let_def)
  moreover have "kept K x < UINT_MAX" using kx Nil.prems(5,6) kept_le [of K "length K"] by simp
  ultimately show ?case using Nil.prems kx by (simp add: list_all2_same_code_refl)
next
  case (Cons y ys)
  let ?kx = "kept K x" and ?ky = "kept K y"
  have kx: "?kx < length N" using filter_kept_nth(2) [OF Cons.prems(3)] Cons.prems(4,6)
    by (simp add: kept_all is_nop_def)
  have y: "num (result (K ! x)) = y" "y < length K" "opcode (K ! y) = ZEND_DECLARE_INHERITED_CLASS_DELAYED"
    "y \<noteq> UINT_MAX" "binding_chain K (num (result (K ! y))) ys" using Cons.prems(1) by auto
  define N1 where "N1 = N[?kx := (N ! ?kx)\<lparr>result := (result (N ! ?kx))\<lparr>num := ?ky\<rparr>\<rparr>]"
  have Nx: "opcode (N ! ?kx) = ZEND_DECLARE_INHERITED_CLASS_DELAYED" "result (N ! ?kx) = result (K ! x)"
    using Cons.prems(4,7) by auto
  have inj: "kept K a \<noteq> ?kx" if "a \<in> set (y # ys)" "a < length K" "\<not> is_nop (K ! a)" for a
    using kept_strict [of a x K] kept_strict [of x a K] that Cons.prems(2,3,4)
    by (cases a x rule: linorder_cases) (auto simp: is_nop_def)
  have chain_nn: "a < length K \<and> \<not> is_nop (K ! a)" if "binding_chain K n as" "a \<in> set as" for n as a
    using that by (induction as arbitrary: n) (auto simp: is_nop_def)
  have ne: "kept K a \<noteq> ?kx" if "a \<in> set (y # ys)" for a
    using inj that chain_nn [OF Cons.prems(1) that] by blast
  have step: "renum_binding (shifts K) N ?kx = renum_binding (shifts K) N1 ?ky"
    using kx y Nx by (subst renum_binding.simps) (simp add: Let_def N1_def)
  have "\<exists>N'. renum_binding (shifts K) N1 ?ky = Some N' \<and> list_all2 same_code N' N1
    \<and> binding_chain N' ?ky (map (kept K) (y # ys))
    \<and> (\<forall>i. i \<notin> kept K ` set (y # ys) \<longrightarrow> N' ! i = N1 ! i)"
  proof (rule Cons.IH [OF y(5)])
    fix a assume "a \<in> set (y # ys)"
    then have "N1 ! kept K a = N ! kept K a" using ne [of a] by (simp add: N1_def)
    then show "opcode (N1 ! kept K a) = opcode (K ! a) \<and> result (N1 ! kept K a) = result (K ! a)"
      using Cons.prems(7) \<open>a \<in> set (y # ys)\<close> by simp
  qed (use Cons.prems y in \<open>simp_all add: N1_def\<close>)
  then obtain N' where N': "renum_binding (shifts K) N1 ?ky = Some N'" "list_all2 same_code N' N1"
    "binding_chain N' ?ky (map (kept K) (y # ys))" "\<forall>i. i \<notin> kept K ` set (y # ys) \<longrightarrow> N' ! i = N1 ! i"
    by blast
  have "list_all2 same_code N1 N"
    unfolding N1_def using kx same_code_link [OF Nx(1)]
    by (simp add: list_all2_conv_all_nth nth_list_update)
  then have a2: "list_all2 same_code N' N" by (rule list_all2_same_code_trans [OF N'(2)])
  have "?kx \<notin> kept K ` set (y # ys)"
  proof
    assume "?kx \<in> kept K ` set (y # ys)"
    then obtain a where "a \<in> set (y # ys)" "kept K a = ?kx" by (metis imageE)
    then show False using ne by blast
  qed
  then have "N' ! ?kx = N1 ! ?kx" using N'(4) by blast
  then have "N' ! ?kx = (N ! ?kx)\<lparr>result := (result (N ! ?kx))\<lparr>num := ?ky\<rparr>\<rparr>" using kx by (simp add: N1_def)
  moreover have "?kx < UINT_MAX" using kx Cons.prems(5,6) kept_le [of K "length K"] by simp
  moreover have "?kx < length N'" using a2 kx by (simp add: list_all2_lengthD)
  ultimately have "binding_chain N' ?kx (map (kept K) (x # y # ys))" using N'(3) Nx by simp
  moreover have "\<forall>i. i \<notin> kept K ` set (x # y # ys) \<longrightarrow> N' ! i = N ! i" using N'(4) by (auto simp: N1_def)
  ultimately show ?case using step N'(1) a2 by auto
qed

section \<open>Properties\<close>

definition no_unresolved_goto :: "'x zend_op_array \<Rightarrow> bool" where
  "no_unresolved_goto oa \<longleftrightarrow>
     (\<forall>o1 \<in> set (opcodes oa). opcode o1 = ZEND_GOTO \<longrightarrow> is_long (lit oa (op2 o1)))"

lemma inside_jmps: "inside oa \<Longrightarrow> jmps_inside (opcodes oa)"
  by (auto simp: jmps_inside_def inside_def op_inside_def jumps_op1_def dest!: nth_mem intro: less_imp_le)

lemma inside_killed: "inside oa \<Longrightarrow> inside (oa\<lparr>opcodes := killed (opcodes oa)\<rparr>)"
proof -
  assume i: "inside oa"
  have "op_inside (last_op oa) o1" if m: "o1 \<in> set (killed (opcodes oa))" for o1
  proof -
    obtain k where k: "k < last_op oa" "o1 = killed (opcodes oa) ! k"
      using m unfolding in_set_conv_nth by auto
    have "op_inside (last_op oa) (opcodes oa ! k)" using i k by (simp add: inside_def)
    then show ?thesis using k
      by (auto simp: killed_nth op_inside_def jumps_op1_def jumps_op2_def jumps_ext_def)
  qed
  then show ?thesis using i by (simp add: inside_def)
qed

lemma binding_chain_killed:
  "binding_chain ops n xs \<Longrightarrow> binding_chain (killed ops) n xs"
proof (rule binding_chain_cong)
  assume c: "binding_chain ops n xs"
  show "killed ops ! x = ops ! x" if "x \<in> set xs" for x
  proof -
    have "x < length ops \<and> opcode (ops ! x) = ZEND_DECLARE_INHERITED_CLASS_DELAYED"
      using c that by (induction xs arbitrary: n) auto
    then show ?thesis by (auto simp: killed_nth dead_jmp_def)
  qed
qed simp_all

lemma binding_chain_head:
  "binding_chain ops n (x # xs) \<Longrightarrow> x < length ops \<and> opcode (ops ! x) = ZEND_DECLARE_INHERITED_CLASS_DELAYED"
  by simp

lemma binding_chain_in:
  "binding_chain ops n xs \<Longrightarrow> x \<in> set xs \<Longrightarrow>
     x < length ops \<and> opcode (ops ! x) = ZEND_DECLARE_INHERITED_CLASS_DELAYED"
  by (induction xs arbitrary: n) auto

lemma no_nops_kept:
  assumes "nops K (length K) = 0"
  shows "filter (\<lambda>o1. \<not> is_nop o1) K = K" and "i \<le> length K \<Longrightarrow> kept K i = i"
proof -
  have no: "\<forall>o1 \<in> set K. \<not> is_nop o1" using assms by (simp add: nops_def filter_empty_conv)
  then show "filter (\<lambda>o1. \<not> is_nop o1) K = K" by (simp add: filter_id_conv)
  show "kept K i = i" if "i \<le> length K"
  proof -
    have "filter (\<lambda>o1. \<not> is_nop o1) (take i K) = take i K"
      using no by (auto simp: filter_id_conv dest: in_set_takeD)
    then show ?thesis using that by (simp add: kept_def)
  qed
qed

text \<open>The early-binding links of the compacted code.\<close>

lemma renum_early_ok:
  assumes ch: "binding_chain K eb xs" and d: "distinct xs" and n: "length K < UINT_MAX"
  defines "N \<equiv> map (moved_op K) (filter (\<lambda>o1. \<not> is_nop o1) K)"
  shows "\<exists>eb' N'. renum_early (shifts K) eb N = Some (eb', N') \<and> list_all2 same_code N' N
    \<and> binding_chain N' eb' (map (kept K) xs)"
proof (cases xs)
  case Nil
  then show ?thesis using ch by (simp add: renum_early_def list_all2_same_code_refl)
next
  case (Cons x ys)
  have x: "eb = x" "eb \<noteq> UINT_MAX" "x < length K" "opcode (K ! x) = ZEND_DECLARE_INHERITED_CLASS_DELAYED"
    "binding_chain K (num (result (K ! x))) ys" using ch Cons by auto
  have NN: "opcode (N ! kept K y) = opcode (K ! y) \<and> result (N ! kept K y) = result (K ! y)"
    if "y \<in> set (x # ys)" for y
  proof -
    have y: "y < length K" "\<not> is_nop (K ! y)"
      using binding_chain_in [OF ch, of y] that Cons by (auto simp: is_nop_def)
    then show ?thesis using filter_kept_nth [OF y] by (simp add: N_def moved_op_def)
  qed
  have "\<exists>N'. renum_binding (shifts K) N (kept K x) = Some N' \<and> list_all2 same_code N' N
    \<and> binding_chain N' (kept K x) (map (kept K) (x # ys))
    \<and> (\<forall>i. i \<notin> kept K ` set (x # ys) \<longrightarrow> N' ! i = N ! i)"
    using x d Cons n NN by (intro renum_binding_ok) (auto simp: N_def kept_all)
  then show ?thesis using x Cons by (auto simp: renum_early_def)
qed

text \<open>C6. NOP removal (pass 10). On code whose jumps and tables point inside it and that has no
  unresolved GOTO, \<open>nop_removal\<close> is defined, leaves no NOP, and the compacted code behaves as
  the original does, for every handler: it ends in the same way from every state, through
  jumps, breaks, continues and exceptions. The early-binding chain goes through the same
  declarations at their new places.\<close>

theorem nop_removal_correct:
  assumes ins: "inside oa" and goto: "no_unresolved_goto oa" and n: "last_op oa < UINT_MAX"
    and ch: "binding_chain (opcodes oa) (early_binding oa) xs" and d: "distinct xs"
  shows "\<exists>oa'. nop_removal oa = Some oa' \<and> same_behaviour H oa oa'
    \<and> (\<forall>o1 \<in> set (opcodes oa'). opcode o1 \<noteq> ZEND_NOP)
    \<and> binding_chain (opcodes oa') (early_binding oa') (map (kept (killed (opcodes oa))) xs)"
proof -
  let ?K = "killed (opcodes oa)"
  let ?oK = "oa\<lparr>opcodes := ?K\<rparr>"
  obtain ops nc sh sl where scan: "nop_scan (\<lambda>z. is_long (lit oa z)) 0 (opcodes oa) 0 0 [] = Some (True, ops, nc, sh, sl)"
    and inv: "scan_inv (opcodes oa) (last_op oa) ops nc sh sl"
    using nop_scan_run [OF scan_inv_0 inside_jmps [OF ins], of "\<lambda>z. is_long (lit oa z)"] goto
    by (auto simp: no_unresolved_goto_def)
  have I: "length ops = last_op oa" "take (kept ?K (length ?K)) ops = filter (\<lambda>o1. \<not> is_nop o1) ?K"
    "nc = kept ?K (length ?K)" "sh = nops ?K (length ?K)" "sl = shifts ?K"
    using inv by (auto simp: scan_inv_def shifts_def)
  have chK: "binding_chain ?K (early_binding oa) xs" by (rule binding_chain_killed [OF ch])
  have killed: "vm_run H ?oK pc s r \<longleftrightarrow> vm_run H oa pc s r" for pc s r
    by (rule killed_same [OF inside_jmps [OF ins]])
  show ?thesis
  proof (cases "sh = 0")
    case True
    note nn = no_nops_kept [of ?K, OF I(4) [symmetric, unfolded True]]
    have o: "ops = ?K" using I nn by simp
    have "\<not> is_nop o1" if "o1 \<in> set ?K" for o1 using nn(1) that by (metis filter_id_conv)
    moreover have "map (kept ?K) xs = xs"
      by (rule map_idI) (use binding_chain_in [OF chK] nn(2) in \<open>auto intro: less_imp_le\<close>)
    ultimately show ?thesis using scan True o killed chK
      by (simp add: nop_removal_def same_behaviour_def is_nop_def)
  next
    case False
    have insK: "inside ?oK" by (rule inside_killed [OF ins])
    have m1: "map_opt (renum_op sl) (take nc ops) = Some (map (moved_op ?K) (filter (\<lambda>o1. \<not> is_nop o1) ?K))"
      unfolding I(3) I(2) I(5)
      by (rule map_opt_Some, rule renum_op_moved) (use insK in \<open>auto simp: inside_def\<close>)
    have m2: "map_opt (renum_brk_cont sl) (brk_cont_array oa) = Some (map (moved_brk ?K) (brk_cont_array oa))"
      using insK by (auto simp: I inside_def intro!: map_opt_Some renum_brk_moved)
    have m3: "map_opt (renum_try_catch sl) (try_catch_array oa) = Some (map (moved_try ?K) (try_catch_array oa))"
      using insK by (auto simp: I inside_def intro!: map_opt_Some renum_try_moved)
    obtain eb' N' where e: "renum_early sl (early_binding oa)
          (map (moved_op ?K) (filter (\<lambda>o1. \<not> is_nop o1) ?K)) = Some (eb', N')"
      and N': "list_all2 same_code N' (map (moved_op ?K) (filter (\<lambda>o1. \<not> is_nop o1) ?K))"
      and chN: "binding_chain N' eb' (map (kept ?K) xs)"
      using renum_early_ok [OF chK d] n I(5) by auto
    let ?oa' = "oa\<lparr>opcodes := N', brk_cont_array := map (moved_brk ?K) (brk_cont_array oa),
      try_catch_array := map (moved_try ?K) (try_catch_array oa), early_binding := eb'\<rparr>"
    have r: "nop_removal oa = Some ?oa'" using scan False m1 m2 m3 e by (simp add: nop_removal_def)
    have c: "compacted ?oK ?oa'" using N' by (simp add: compacted_def)
    have "vm_run H ?oa' 0 s r \<longleftrightarrow> vm_run H oa 0 s r" for s r
      using compacted_same [OF c insK, of H 0 s r] killed by (simp add: kept_def)
    moreover have "\<forall>o1 \<in> set N'. opcode o1 \<noteq> ZEND_NOP"
    proof
      fix o1 assume "o1 \<in> set N'"
      then obtain b where "b \<in> set (map (moved_op ?K) (filter (\<lambda>o1. \<not> is_nop o1) ?K))" "same_code o1 b"
        using N' by (metis in_set_conv_nth list_all2_conv_all_nth)
      then show "opcode o1 \<noteq> ZEND_NOP" by (auto simp: same_code_def blank_moved is_nop_def)
    qed
    ultimately show ?thesis using r chN by (simp add: same_behaviour_def)
  qed
qed

text \<open>\<open>NOP; JMPZ 3; ECHO; RETURN\<close>\<close>

definition demo_nops :: "nat zend_op_array" where
  "demo_nops = code_of [plain ZEND_NOP, (plain ZEND_JMPZ)\<lparr>op2 := node IS_UNUSED 3\<rparr>, plain ZEND_ECHO,
     plain ZEND_RETURN] []"

definition demo_handler :: "nat handlers" where
  "demo_handler o1 s = (if opcode o1 = ZEND_JMPZ then (s, if s = 0 then To_Op2 else Next)
     else if opcode o1 = ZEND_RETURN then (s, Leave) else (Suc s, Next))"

lemma nop_removal_correct_witness:
  "\<exists>oa'. nop_removal demo_nops = Some oa' \<and> same_behaviour demo_handler demo_nops oa'
     \<and> map opcode (opcodes oa') = [ZEND_JMPZ, ZEND_ECHO, ZEND_RETURN]
     \<and> num (op2 (opcodes oa' ! 0)) = 2"
proof -
  note defs = demo_nops_def code_of_def plain_def node_def unused_node_def
  have "inside demo_nops"
    by (simp add: inside_def op_inside_def jumps_op1_def jumps_op2_def jumps_ext_def defs)
  moreover have "no_unresolved_goto demo_nops" by (simp add: no_unresolved_goto_def defs)
  moreover have "last_op demo_nops < UINT_MAX" by (simp add: defs UINT_MAX_def)
  moreover have "binding_chain (opcodes demo_nops) (early_binding demo_nops) []" by (simp add: defs)
  ultimately have "\<exists>oa'. nop_removal demo_nops = Some oa' \<and> same_behaviour demo_handler demo_nops oa'"
    using nop_removal_correct [of demo_nops "[]" demo_handler] by auto
  moreover have "\<exists>oa'. nop_removal demo_nops = Some oa'
     \<and> map opcode (opcodes oa') = [ZEND_JMPZ, ZEND_ECHO, ZEND_RETURN] \<and> num (op2 (opcodes oa' ! 0)) = 2"
    by (simp add: nop_removal_def defs nop_scan.simps kill_jmp_def renum_op_def map_num_def renum_def
        renum_early_def Let_def)
  ultimately show ?thesis by auto
qed

text \<open>C7. The early return at an unresolved GOTO comes when the instructions before it have already been
  moved. \<open>g\<close> is the first such GOTO of any code, \<open>K\<close> the code with the JMPs over NOPs turned into NOPs: the
  routine returns with the instructions before \<open>g\<close> moved up to close the gaps of the NOPs, the places
  behind them up to \<open>g\<close> as they were, and nothing renumbered. So every instruction that stands behind as many
  places as remain is there twice, and a jump that was moved still has the old number of its target, which
  was moved as well.\<close>

theorem nop_removal_goto_corrupts:
  assumes jumps: "jmps_inside (opcodes oa)" and g: "g < last_op oa" "opcode (opcodes oa ! g) = ZEND_GOTO" "\<not> is_long (lit oa (op2 (opcodes oa ! g)))"
    and first: "\<forall>j < g. opcode (opcodes oa ! j) = ZEND_GOTO \<longrightarrow> is_long (lit oa (op2 (opcodes oa ! j)))"
    and K: "K = killed (opcodes oa)"
  shows "\<exists>ops. nop_removal oa = Some (oa\<lparr>opcodes := ops\<rparr>)
    \<and> ops = filter (\<lambda>o1. \<not> is_nop o1) (take g K) @ drop (kept K g) (take g K) @ drop g (opcodes oa)
    \<and> (\<forall>p < g. \<not> is_nop (K ! p) \<longrightarrow> ops ! kept K p = K ! p \<and> (kept K g \<le> p \<longrightarrow> ops ! p = K ! p \<and> kept K p \<noteq> p))"
proof -
  obtain ops nc sh sl where sc: "nop_scan (\<lambda>z. is_long (lit oa z)) 0 (opcodes oa) 0 0 [] = Some (False, ops, nc, sh, sl)"
    and inv: "scan_inv (opcodes oa) g ops nc sh sl"
    using nop_scan_stops [OF scan_inv_0 jumps, where g = g and lit_long = "\<lambda>z. is_long (lit oa z)"] g first by auto
  note I = inv [unfolded scan_inv_def, folded K]
  have lK: "length K = last_op oa" by (simp add: K)
  have kg: "kept K g \<le> g" by (rule kept_le)
  have "ops = take g ops @ drop g ops" by simp
  also have "take g ops = take (kept K g) ops @ drop (kept K g) (take g ops)"
    using kg by (metis append_take_drop_id min.absorb1 take_take)
  also have "drop (kept K g) (take g ops) = drop (kept K g) (take g K)"
    by (rule nth_equalityI) (use I g(1) lK in auto)
  finally have o: "ops = filter (\<lambda>o1. \<not> is_nop o1) (take g K) @ drop (kept K g) (take g K) @ drop g (opcodes oa)"
    using I by simp
  have "ops ! kept K p = K ! p \<and> (kept K g \<le> p \<longrightarrow> ops ! p = K ! p \<and> kept K p \<noteq> p)"
    if p: "p < g" "\<not> is_nop (K ! p)" for p
  proof -
    have pl: "p < length (take g K)" using p g(1) lK by simp
    have kp: "kept (take g K) p = kept K p" using p(1) by (simp add: kept_def min_def)
    have "filter (\<lambda>o1. \<not> is_nop o1) (take g K) ! kept K p = K ! p" "kept K p < length (filter (\<lambda>o1. \<not> is_nop o1) (take g K))"
      using filter_kept_nth [OF pl] p kp by simp_all
    then have "ops ! kept K p = K ! p" by (simp add: o nth_append)
    moreover have "kept K p < kept K g" using kept_strict [OF p(1) _ p(2)] p(1) g(1) lK by simp
    ultimately show ?thesis using I p(1) by auto
  qed
  then show ?thesis using sc o by (simp add: nop_removal_def)
qed

lemma nop_removal_goto_corrupts_witness:
  "let oa = code_of [plain ZEND_NOP, plain ZEND_ECHO, (plain ZEND_JMPZ)\<lparr>op2 := node IS_CONST 4\<rparr>,
          (plain ZEND_GOTO)\<lparr>op2 := node IS_CONST 0\<rparr>, plain ZEND_RETURN] [ZSTRING ''label'' :: nat zval]
   in \<exists>oa'. nop_removal oa = Some oa' \<and> opcode (opcodes oa' ! 1) = ZEND_JMPZ \<and> opcode (opcodes oa' ! 2) = ZEND_JMPZ
        \<and> num (op2 (opcodes oa' ! 1)) = 4"
proof -
  let ?oa = "code_of [plain ZEND_NOP, plain ZEND_ECHO, (plain ZEND_JMPZ)\<lparr>op2 := node IS_CONST 4\<rparr>,
          (plain ZEND_GOTO)\<lparr>op2 := node IS_CONST 0\<rparr>, plain ZEND_RETURN] [ZSTRING ''label'' :: nat zval]"
  note defs = code_of_def plain_def node_def unused_node_def
  have K: "killed (opcodes ?oa) = opcodes ?oa"
    by (simp add: killed_def dead_jmp_def defs upt_rec)
  have c: "kept (opcodes ?oa) 2 = 1" "kept (opcodes ?oa) 3 = 2" by (simp_all add: kept_def is_nop_def defs numeral_2_eq_2 numeral_3_eq_3)
  have "\<exists>ops. nop_removal ?oa = Some (?oa\<lparr>opcodes := ops\<rparr>) \<and> (\<forall>p < 3. \<not> is_nop (opcodes ?oa ! p) \<longrightarrow> ops ! kept (opcodes ?oa) p = opcodes ?oa ! p
      \<and> (kept (opcodes ?oa) 3 \<le> p \<longrightarrow> ops ! p = opcodes ?oa ! p \<and> kept (opcodes ?oa) p \<noteq> p))"
    using nop_removal_goto_corrupts [of ?oa 3, OF _ _ _ _ _ K [symmetric]]
    by (fastforce simp: jmps_inside_def defs less_Suc_eq numeral_3_eq_3 lit_def is_long_def)
  then obtain ops where "nop_removal ?oa = Some (?oa\<lparr>opcodes := ops\<rparr>)" "ops ! 1 = opcodes ?oa ! 2" "ops ! 2 = opcodes ?oa ! 2"
    using c by (auto simp: is_nop_def defs dest!: spec [of _ 2])
  then show ?thesis by (simp add: Let_def defs)
qed

text \<open>An entry of \<open>brk_cont_array\<close> whose \<open>start\<close> is -1, which \<open>block_pass.c\<close> tests for,
  makes \<open>nop_removal\<close> read its shift list out of bounds as soon as it has removed a NOP.\<close>

theorem nop_removal_negative_start:
  "let oa = (code_of [plain ZEND_NOP, plain ZEND_RETURN] ([] :: nat zval list))\<lparr>brk_cont_array :=
          [\<lparr>bc_start = -1, bc_cont = 1, bc_brk = 1, bc_parent = -1\<rparr>]\<rparr>
   in nop_removal oa = None"
  by (simp add: nop_removal_def nop_scan.simps kill_jmp_def code_of_def plain_def
      unused_node_def Let_def renum_brk_cont_def renum_int_def renum_def renum_op_def)

end
