(* ===== verification/Pass3.thy ===== *)
theory Pass3
  imports Vm
begin

text \<open>
  Pass 3, \<open>Optimizer/pass3.c\<close>: \<open>$i = $i + expr\<close> becomes \<open>$i += expr\<close>, series of jumps are
  shortened, and \<open>$i++\<close> whose value is freed becomes \<open>++$i\<close>. The jump loops carry the list
  \<open>jmp_hitlist\<close> of the targets already taken; that they end is the termination proof of
  their functions. The loop for JMP_SET has no such list: it is a partial function.
  The part of the file under \<open>#if 0\<close> is not code.
\<close>

section \<open>Jump loops\<close>

text \<open>While an instruction at \<open>i\<close> is rewritten its current contents are \<open>o1\<close>: reading the
  array at \<open>i\<close> gives \<open>o1\<close>.\<close>

definition op_at :: "zend_op list \<Rightarrow> nat \<Rightarrow> zend_op \<Rightarrow> nat \<Rightarrow> zend_op" where
  "op_at ops i o1 t = (if t = i then o1 else ops ! t)"

definition jump_fields :: "zend_op list \<Rightarrow> nat set" where
  "jump_fields ops = (\<Union>o1 \<in> set ops. {num (op1 o1), num (op2 o1), extended_value o1})"

definition op_fields :: "zend_op \<Rightarrow> nat set" where
  "op_fields o1 = {num (op1 o1), num (op2 o1), extended_value o1}"

lemma finite_jump_fields [simp]: "finite (jump_fields ops)"
  by (simp add: jump_fields_def)

lemma finite_op_fields [simp]: "finite (op_fields o1)"
  by (simp add: op_fields_def)

lemma op_at_fields: "t < length ops \<Longrightarrow> op_fields (op_at ops i o1 t) \<subseteq> op_fields o1 \<union> jump_fields ops"
  by (auto simp: op_at_def op_fields_def jump_fields_def dest!: nth_mem)

lemma op_fields_mem [simp]:
  "num (op1 o1) \<in> op_fields o1" "num (op2 o1) \<in> op_fields o1" "extended_value o1 \<in> op_fields o1"
  by (simp_all add: op_fields_def)

text \<open>Each round takes a target that was not in the list.\<close>

definition fresh_targets :: "zend_op list \<Rightarrow> zend_op \<Rightarrow> nat list \<Rightarrow> nat" where
  "fresh_targets ops o1 hits = card ((op_fields o1 \<union> jump_fields ops) - set hits)"

lemma fresh_targets_less:
  assumes "op_fields o2 \<subseteq> op_fields o1 \<union> jump_fields ops"
    and "v \<in> op_fields o1 \<union> jump_fields ops" and "v \<notin> set hits"
  shows "fresh_targets ops o2 (hits @ [v]) < fresh_targets ops o1 hits"
  unfolding fresh_targets_def by (rule psubset_card_mono) (use assms in auto)

definition set_op1 :: "zend_op \<Rightarrow> nat \<Rightarrow> zend_op" where
  "set_op1 o1 n = o1\<lparr>op1 := (op1 o1)\<lparr>num := n\<rparr>\<rparr>"

definition set_op2 :: "zend_op \<Rightarrow> nat \<Rightarrow> zend_op" where
  "set_op2 o1 n = o1\<lparr>op2 := (op2 o1)\<lparr>num := n\<rparr>\<rparr>"

lemma set_op_simps [simp]:
  "num (op1 (set_op1 o1 n)) = n" "op2 (set_op1 o1 n) = op2 o1" "opcode (set_op1 o1 n) = opcode o1"
  "num (op2 (set_op2 o1 n)) = n" "op1 (set_op2 o1 n) = op1 o1" "opcode (set_op2 o1 n) = opcode o1"
  "extended_value (set_op1 o1 n) = extended_value o1" "extended_value (set_op2 o1 n) = extended_value o1"
  "result (set_op1 o1 n) = result o1" "result (set_op2 o1 n) = result o1"
  by (simp_all add: set_op1_def set_op2_def)

lemma set_op_fields:
  "n \<in> op_fields o1 \<union> W \<Longrightarrow> op_fields (set_op1 o1 n) \<subseteq> op_fields o1 \<union> W"
  "n \<in> op_fields o1 \<union> W \<Longrightarrow> op_fields (set_op2 o1 n) \<subseteq> op_fields o1 \<union> W"
  "n \<in> op_fields o1 \<union> W \<Longrightarrow> op_fields (o1\<lparr>extended_value := n\<rparr>) \<subseteq> op_fields o1 \<union> W"
  by (auto simp: op_fields_def)

lemma op_at_mem:
  assumes "t < length ops"
  shows "num (op1 (op_at ops i o1 t)) \<in> op_fields o1 \<union> jump_fields ops"
    "num (op2 (op_at ops i o1 t)) \<in> op_fields o1 \<union> jump_fields ops"
    "extended_value (op_at ops i o1 t) \<in> op_fields o1 \<union> jump_fields ops"
  using op_at_fields [OF assms, of i o1] op_fields_mem [of "op_at ops i o1 t"] by blast+

text \<open>\<open>JMP L1 ... L1: JMP L2\<close>\<close>

function thread_jmp :: "zend_op list \<Rightarrow> nat \<Rightarrow> zend_op \<Rightarrow> nat list \<Rightarrow> zend_op \<times> nat list" where
  "thread_jmp ops i o1 hits =
     (let t = num (op1 o1) in
      if t < length ops \<and> opcode (op_at ops i o1 t) = ZEND_JMP
      then let v = num (op1 (op_at ops i o1 t)) in
        if v \<in> set hits then (o1, hits)
        else thread_jmp ops i (set_op1 o1 v) (hits @ [v])
      else (o1, hits))"
  by pat_completeness auto
termination
  by (relation "measure (\<lambda>(ops, i, o1, hits). fresh_targets ops o1 hits)")
    (auto intro!: fresh_targets_less set_op_fields op_at_mem)

declare thread_jmp.simps [simp del]

text \<open>JMP_SET and JMP_SET_VAR: no list of targets.\<close>

partial_function (option) thread_set :: "zend_op list \<Rightarrow> zend_op \<Rightarrow> zend_op option" where
  "thread_set ops o1 =
     (let t = num (op2 o1) in
      if t < length ops
      then if opcode (ops ! t) = ZEND_JMP then thread_set ops (set_op2 o1 (num (op1 (ops ! t))))
        else Some o1
      else Some o1)"

text \<open>JMPZ and JMPNZ.\<close>

function thread_jmpz :: "zend_op list \<Rightarrow> nat \<Rightarrow> zend_op \<Rightarrow> nat list \<Rightarrow> zend_op \<times> nat list" where
  "thread_jmpz ops i o1 hits =
     (let t = num (op2 o1); ot = op_at ops i o1 t in
      if \<not> t < length ops then (o1, hits)
      else if opcode ot = ZEND_JMP
      then let v = num (op1 ot) in
        if v \<in> set hits then (o1, hits) else thread_jmpz ops i (set_op2 o1 v) (hits @ [v])
      else if opcode ot = opcode o1 \<and> SAME_VAR (op1 o1) (op1 ot)
      then let v = num (op2 ot) in
        if v \<in> set hits then (o1, hits) else thread_jmpz ops i (set_op2 o1 v) (hits @ [v])
      else if opcode ot = opcode o1 + 3 \<and> SAME_VAR (op1 o1) (op1 ot)
      then ((set_op2 o1 (num (op2 ot)))\<lparr>opcode := opcode o1 + 3, result := result ot\<rparr>, hits)
      else if opcode ot = INV_COND (opcode o1) \<and> SAME_VAR (op1 o1) (op1 ot)
      then (set_op2 o1 (t + 1), hits)
      else if opcode ot = INV_COND_EX (opcode o1) \<and> SAME_VAR (op1 o1) (op1 ot)
      then ((set_op2 o1 (t + 1))\<lparr>opcode := opcode o1 + 3, result := result ot\<rparr>, hits)
      else (o1, hits))"
  by pat_completeness auto
termination
  by (relation "measure (\<lambda>(ops, i, o1, hits). fresh_targets ops o1 hits)")
    (auto intro!: fresh_targets_less set_op_fields op_at_mem)

declare thread_jmpz.simps [simp del]

text \<open>JMPZ_EX and JMPNZ_EX; \<open>T\<close> is the local copy of the result operand. For a JMPZNZ the
  list records the JMPZ target even when the JMPNZ target is followed.\<close>

definition SAME_OPCODE_EX :: "nat \<Rightarrow> nat \<Rightarrow> bool" where
  "SAME_OPCODE_EX oc1 oc2 \<longleftrightarrow> oc1 = oc2 \<or> (oc1 = ZEND_JMPZ_EX \<and> oc2 = ZEND_JMPZ)
     \<or> (oc1 = ZEND_JMPNZ_EX \<and> oc2 = ZEND_JMPNZ)"

function thread_ex :: "zend_op list \<Rightarrow> nat \<Rightarrow> zend_op \<Rightarrow> znode \<Rightarrow> nat list \<Rightarrow> zend_op \<times> nat list" where
  "thread_ex ops i o1 T hits =
     (let t = num (op2 o1); ot = op_at ops i o1 t in
      if \<not> t < length ops then (o1, hits)
      else if SAME_OPCODE_EX (opcode o1) (opcode ot) \<and> SAME_VAR (op1 ot) T
      then let T1 = (if opcode ot = opcode o1 then result ot else T); v = num (op2 ot) in
        if v \<in> set hits then (o1, hits) else thread_ex ops i (set_op2 o1 v) T1 (hits @ [v])
      else if opcode ot = ZEND_JMPZNZ \<and> SAME_VAR (op1 ot) T
      then let v = num (op2 ot) in
        if v \<in> set hits then (o1, hits)
        else thread_ex ops i
               (set_op2 o1 (if opcode o1 = ZEND_JMPZ_EX then num (op2 ot) else extended_value ot)) T (hits @ [v])
      else if (opcode ot = INV_EX_COND_EX (opcode o1) \<or> opcode ot = INV_EX_COND (opcode o1))
           \<and> SAME_VAR (op1 o1) (op1 ot)
      then (set_op2 o1 (t + 1), hits)
      else (o1, hits))"
  by pat_completeness auto
termination
  by (relation "measure (\<lambda>(ops, i, o1, T, hits). fresh_targets ops o1 hits)")
    (auto intro!: fresh_targets_less set_op_fields op_at_mem)

declare thread_ex.simps [simp del]

text \<open>JMPZNZ: one loop for each target; the list is not reset in between.\<close>

function thread_znz2 :: "zend_op list \<Rightarrow> nat \<Rightarrow> zend_op \<Rightarrow> nat list \<Rightarrow> zend_op \<times> nat list" where
  "thread_znz2 ops i o1 hits =
     (let t = num (op2 o1) in
      if t < length ops \<and> opcode (op_at ops i o1 t) = ZEND_JMP
      then let v = num (op1 (op_at ops i o1 t)) in
        if v \<in> set hits then (o1, hits) else thread_znz2 ops i (set_op2 o1 v) (hits @ [v])
      else (o1, hits))"
  by pat_completeness auto
termination
  by (relation "measure (\<lambda>(ops, i, o1, hits). fresh_targets ops o1 hits)")
    (auto intro!: fresh_targets_less set_op_fields op_at_mem)

function thread_znz3 :: "zend_op list \<Rightarrow> nat \<Rightarrow> zend_op \<Rightarrow> nat list \<Rightarrow> zend_op \<times> nat list" where
  "thread_znz3 ops i o1 hits =
     (let t = extended_value o1 in
      if t < length ops \<and> opcode (op_at ops i o1 t) = ZEND_JMP
      then let v = num (op1 (op_at ops i o1 t)) in
        if v \<in> set hits then (o1, hits) else thread_znz3 ops i (o1\<lparr>extended_value := v\<rparr>) (hits @ [v])
      else (o1, hits))"
  by pat_completeness auto
termination
  by (relation "measure (\<lambda>(ops, i, o1, hits). fresh_targets ops o1 hits)")
    (auto intro!: fresh_targets_less set_op_fields op_at_mem)

declare thread_znz2.simps [simp del] thread_znz3.simps [simp del]

section \<open>The pass\<close>

definition assign_op :: "nat \<Rightarrow> nat" where
  "assign_op oc =
     (if oc = ZEND_ADD then ZEND_ASSIGN_ADD else if oc = ZEND_SUB then ZEND_ASSIGN_SUB
      else if oc = ZEND_MUL then ZEND_ASSIGN_MUL else if oc = ZEND_DIV then ZEND_ASSIGN_DIV
      else if oc = ZEND_MOD then ZEND_ASSIGN_MOD else if oc = ZEND_CONCAT then ZEND_ASSIGN_CONCAT
      else if oc = ZEND_SL then ZEND_ASSIGN_SL else if oc = ZEND_SR then ZEND_ASSIGN_SR
      else if oc = ZEND_BW_OR then ZEND_ASSIGN_BW_OR else if oc = ZEND_BW_AND then ZEND_ASSIGN_BW_AND
      else ZEND_ASSIGN_BW_XOR)"

definition binary_ops :: "nat set" where
  "binary_ops = {ZEND_ADD, ZEND_SUB, ZEND_MUL, ZEND_DIV, ZEND_MOD, ZEND_CONCAT, ZEND_SL, ZEND_SR,
     ZEND_BW_OR, ZEND_BW_AND, ZEND_BW_XOR}"

function next_live :: "zend_op list \<Rightarrow> nat \<Rightarrow> nat" where
  "next_live ops n = (if n < length ops \<and> opcode (ops ! n) = ZEND_NOP then next_live ops (Suc n) else n)"
  by pat_completeness auto
termination by (relation "measure (\<lambda>(ops, n). length ops - n)") auto

declare next_live.simps [simp del]

definition is_variable :: "znode \<Rightarrow> bool" where
  "is_variable z \<longleftrightarrow> op_ty z = IS_VAR \<or> op_ty z = IS_CV"

text \<open>\<open>$i = expr + $i\<close> to \<open>$i = $i + expr\<close>; \<open>nx\<close> is the ASSIGN.\<close>

definition commute :: "zend_op \<Rightarrow> zend_op \<Rightarrow> zend_op" where
  "commute o1 nx =
     (if is_variable (op2 o1) \<and> num (op2 o1) = num (op1 nx)
         \<and> opcode o1 \<in> {ZEND_ADD, ZEND_MUL, ZEND_BW_OR, ZEND_BW_AND, ZEND_BW_XOR}
         \<and> (opcode o1 \<noteq> ZEND_ADD \<or> op_ty (op1 o1) = IS_CONST)
      then o1\<lparr>op1 := op2 o1, op2 := op1 o1\<rparr> else o1)"

text \<open>The type bytes of operands are compared whole.\<close>

definition same_type :: "znode \<Rightarrow> znode \<Rightarrow> bool" where
  "same_type a b \<longleftrightarrow> op_ty a = op_ty b \<and> ext_unused a = ext_unused b"

definition fuse_assign :: "zend_op list \<Rightarrow> nat \<Rightarrow> zend_op list \<times> nat" where
  "fuse_assign ops i =
     (let o1 = ops ! i; n = next_live ops (Suc i) in
      if \<not> n < length ops \<or> opcode (ops ! n) \<noteq> ZEND_ASSIGN then (ops, Suc i)
      else
       (let o2 = commute o1 (ops ! n) in
        if is_variable (op1 o2) \<and> num (op1 o2) = num (op1 (ops ! n)) \<and> same_type (op1 o2) (op1 (ops ! n))
        then (ops[i := o2\<lparr>opcode := assign_op (opcode o2), result := result (ops ! n)\<rparr>,
                  n := MAKE_NOP (ops ! n)], Suc (Suc i))
        else (ops[i := o2], Suc i)))"

text \<open>\<open>POST_INC, FREE => PRE_INC\<close>\<close>

definition post_to_pre :: "zend_op list \<Rightarrow> nat \<Rightarrow> zend_op list" where
  "post_to_pre ops i =
     (let o1 = ops ! i; n = Suc i in
      if n < length ops \<and> opcode (ops ! n) = ZEND_FREE \<and> num (op1 (ops ! n)) = num (result o1)
      then ops[n := MAKE_NOP (ops ! n),
               i := o1\<lparr>opcode := (if opcode o1 = ZEND_POST_INC then ZEND_PRE_INC else ZEND_PRE_DEC),
                       result := (result o1)\<lparr>op_ty := IS_VAR, ext_unused := True\<rparr>\<rparr>]
      else ops)"

text \<open>One round of the main loop at \<open>i\<close>: the new code and the next position.\<close>

definition pass3_step :: "bool \<Rightarrow> zend_op list \<Rightarrow> nat \<Rightarrow> (zend_op list \<times> nat) option" where
  "pass3_step finally_block ops i =
     (let o1 = ops ! i in
      if opcode o1 \<in> binary_ops then Some (fuse_assign ops i)
      else if opcode o1 = ZEND_JMP then
        Some (if finally_block then ops
              else if num (op1 o1) = i + 1 then ops[i := MAKE_NOP o1]
              else ops[i := fst (thread_jmp ops i o1 [])], Suc i)
      else if opcode o1 \<in> {ZEND_JMP_SET, ZEND_JMP_SET_VAR} then
        (if finally_block then Some (ops, Suc i)
         else map_option (\<lambda>o2. (ops[i := o2], Suc i)) (thread_set ops o1))
      else if opcode o1 \<in> {ZEND_JMPZ, ZEND_JMPNZ} then
        Some (if finally_block then ops
              else if num (op2 o1) = i + 1 then ops[i := MAKE_NOP o1]
              else ops[i := fst (thread_jmpz ops i o1 [])], Suc i)
      else if opcode o1 \<in> {ZEND_JMPZ_EX, ZEND_JMPNZ_EX} then
        Some (if finally_block then ops
              else if num (op2 o1) = i + 1
              then (if num (op1 o1) = num (result o1) then ops[i := MAKE_NOP o1]
                    else ops[i := o1\<lparr>opcode := ZEND_BOOL, op2 := SET_UNUSED (op2 o1)\<rparr>])
              else ops[i := fst (thread_ex ops i o1 (result o1) [])], Suc i)
      else if opcode o1 = ZEND_JMPZNZ then
        Some (if finally_block then ops
              else (let r = thread_znz2 ops i o1 [] in ops[i := fst (thread_znz3 ops i (fst r) (snd r))]), Suc i)
      else if opcode o1 \<in> {ZEND_POST_INC, ZEND_POST_DEC} then Some (post_to_pre ops i, Suc i)
      else Some (ops, Suc i))"

text \<open>The main loop.\<close>

partial_function (option) pass3_loop :: "bool \<Rightarrow> zend_op list \<Rightarrow> nat \<Rightarrow> zend_op list option" where
  "pass3_loop finally_block ops i =
     (if i < length ops
      then (case pass3_step finally_block ops i of
              None \<Rightarrow> None
            | Some (ops', j) \<Rightarrow> pass3_loop finally_block ops' j)
      else Some ops)"

definition pass3 :: "'x zend_op_array \<Rightarrow> 'x zend_op_array option" where
  "pass3 oa = map_option (\<lambda>ops. oa\<lparr>opcodes := ops\<rparr>) (pass3_loop (has_finally_block oa) (opcodes oa) 0)"

section \<open>The hit list is bounded\<close>

text \<open>What a loop pushes are distinct values of one field per instruction, so the array of
  \<open>op_array->last\<close> entries is never overrun.\<close>

text \<open>The field a jump target contributes; a target that is the instruction itself contributes
  its own position.\<close>

definition jmp_val :: "zend_op \<Rightarrow> nat" where
  "jmp_val o1 = (if opcode o1 = ZEND_JMP then num (op1 o1) else num (op2 o1))"

definition hit_values :: "zend_op list \<Rightarrow> nat \<Rightarrow> nat set" where
  "hit_values ops i = insert i ((\<lambda>t. jmp_val (ops ! t)) ` ({..<length ops} - {i}))"

lemma card_hit_values: "i < length ops \<Longrightarrow> card (hit_values ops i) \<le> length ops"
proof -
  assume i: "i < length ops"
  have "card (hit_values ops i) \<le> Suc (card ((\<lambda>t. jmp_val (ops ! t)) ` ({..<length ops} - {i})))"
    unfolding hit_values_def by (rule card_insert_le_m1) simp_all
  also have "\<dots> \<le> Suc (card ({..<length ops} - {i}))" by (simp add: card_image_le)
  also have "\<dots> = length ops" using i by simp
  finally show ?thesis .
qed

lemma hits_bound:
  assumes "distinct hits" "set hits \<subseteq> hit_values ops i" "i < length ops"
  shows "length hits \<le> length ops"
proof -
  have "length hits = card (set hits)" using assms(1) by (simp add: distinct_card)
  also have "\<dots> \<le> card (hit_values ops i)" by (rule card_mono [OF _ assms(2)]) (simp add: hit_values_def)
  finally show ?thesis using card_hit_values [OF assms(3)] by simp
qed

lemma hit_value:
  assumes "t < length ops" and "t = i \<Longrightarrow> v = i" and "t \<noteq> i \<Longrightarrow> v = jmp_val (ops ! t)"
  shows "v \<in> hit_values ops i"
  using assms by (cases "t = i") (auto simp: hit_values_def)

definition hits_ok :: "zend_op list \<Rightarrow> nat \<Rightarrow> nat list \<Rightarrow> bool" where
  "hits_ok ops i hits \<longleftrightarrow> distinct hits \<and> set hits \<subseteq> hit_values ops i"

lemma hits_ok_push: "hits_ok ops i hits \<Longrightarrow> v \<in> hit_values ops i \<Longrightarrow> v \<notin> set hits \<Longrightarrow> hits_ok ops i (hits @ [v])"
  by (simp add: hits_ok_def)

lemma thread_jmp_hits: "hits_ok ops i hits \<Longrightarrow> hits_ok ops i (snd (thread_jmp ops i o1 hits))"
proof (induction ops i o1 hits rule: thread_jmp.induct)
  case (1 ops i o1 hits)
  let ?t = "num (op1 o1)" and ?v = "num (op1 (op_at ops i o1 (num (op1 o1))))"
  have v: "?v \<in> hit_values ops i" if "?t < length ops" "opcode (op_at ops i o1 ?t) = ZEND_JMP"
    by (rule hit_value [OF that(1)]) (use that(2) in \<open>auto simp: op_at_def jmp_val_def\<close>)
  show ?case
    by (subst thread_jmp.simps)
      (simp add: Let_def "1.prems" "1.IH" hits_ok_push v)
qed

lemma thread_jmpz_hits:
  "hits_ok ops i hits \<Longrightarrow> opcode o1 \<noteq> ZEND_JMP \<Longrightarrow> hits_ok ops i (snd (thread_jmpz ops i o1 hits))"
proof (induction ops i o1 hits rule: thread_jmpz.induct)
  case (1 ops i o1 hits)
  let ?t = "num (op2 o1)" and ?ot = "op_at ops i o1 (num (op2 o1))"
  have v1: "num (op1 ?ot) \<in> hit_values ops i" if "?t < length ops" "opcode ?ot = ZEND_JMP"
    by (rule hit_value [OF that(1)]) (use that(2) "1.prems"(2) in \<open>auto simp: op_at_def jmp_val_def\<close>)
  have v2: "num (op2 ?ot) \<in> hit_values ops i" if "?t < length ops" "opcode ?ot = opcode o1"
    by (rule hit_value [OF that(1)]) (use that(2) "1.prems"(2) in \<open>auto simp: op_at_def jmp_val_def\<close>)
  show ?case
    by (subst thread_jmpz.simps)
      (simp add: Let_def "1.prems" "1.IH" hits_ok_push v1 v2)
qed

lemma thread_ex_hits:
  "hits_ok ops i hits \<Longrightarrow> opcode o1 \<noteq> ZEND_JMP \<Longrightarrow>
     hits_ok ops i (snd (thread_ex ops i o1 T hits))"
proof (induction ops i o1 T hits rule: thread_ex.induct)
  case (1 ops i o1 T hits)
  let ?t = "num (op2 o1)" and ?ot = "op_at ops i o1 (num (op2 o1))"
  have v: "num (op2 ?ot) \<in> hit_values ops i"
    if "?t < length ops" "SAME_OPCODE_EX (opcode o1) (opcode ?ot) \<or> opcode ?ot = ZEND_JMPZNZ"
    by (rule hit_value [OF that(1)])
      (use that(2) "1.prems"(2) in \<open>auto simp: op_at_def jmp_val_def SAME_OPCODE_EX_def\<close>)
  show ?case
    by (subst thread_ex.simps)
      (simp add: Let_def "1.prems" "1.IH" hits_ok_push v)
qed

lemma thread_znz2_opcode: "opcode (fst (thread_znz2 ops i o1 hits)) = opcode o1"
proof (induction ops i o1 hits rule: thread_znz2.induct)
  case (1 ops i o1 hits)
  then show ?case by (subst thread_znz2.simps) (simp add: Let_def)
qed

lemma thread_znz3_opcode: "opcode (fst (thread_znz3 ops i o1 hits)) = opcode o1"
proof (induction ops i o1 hits rule: thread_znz3.induct)
  case (1 ops i o1 hits)
  then show ?case by (subst thread_znz3.simps) (simp add: Let_def)
qed

lemma thread_znz2_hits:
  "hits_ok ops i hits \<Longrightarrow> opcode o1 \<noteq> ZEND_JMP \<Longrightarrow> hits_ok ops i (snd (thread_znz2 ops i o1 hits))"
proof (induction ops i o1 hits rule: thread_znz2.induct)
  case (1 ops i o1 hits)
  let ?t = "num (op2 o1)" and ?v = "num (op1 (op_at ops i o1 (num (op2 o1))))"
  have v: "?v \<in> hit_values ops i" if "?t < length ops" "opcode (op_at ops i o1 ?t) = ZEND_JMP"
    by (rule hit_value [OF that(1)]) (use that(2) "1.prems"(2) in \<open>auto simp: op_at_def jmp_val_def\<close>)
  show ?case
    by (subst thread_znz2.simps) (simp add: Let_def "1.prems" "1.IH" hits_ok_push v)
qed

lemma thread_znz3_hits:
  "hits_ok ops i hits \<Longrightarrow> opcode o1 \<noteq> ZEND_JMP \<Longrightarrow> hits_ok ops i (snd (thread_znz3 ops i o1 hits))"
proof (induction ops i o1 hits rule: thread_znz3.induct)
  case (1 ops i o1 hits)
  let ?t = "extended_value o1" and ?v = "num (op1 (op_at ops i o1 (extended_value o1)))"
  have v: "?v \<in> hit_values ops i" if "?t < length ops" "opcode (op_at ops i o1 ?t) = ZEND_JMP"
    by (rule hit_value [OF that(1)]) (use that(2) "1.prems"(2) in \<open>auto simp: op_at_def jmp_val_def\<close>)
  show ?case
    by (subst thread_znz3.simps) (simp add: Let_def "1.prems" "1.IH" hits_ok_push v)
qed

section \<open>Shortened jumps behave the same\<close>

lemma with_op_simps [simp]:
  "last_op (with_op oa i o1) = last_op oa" "brk_cont_array (with_op oa i o1) = brk_cont_array oa"
  "try_catch_array (with_op oa i o1) = try_catch_array oa"
  "has_finally_block (with_op oa i o1) = has_finally_block oa"
  by (simp_all add: with_op_def)

lemma with_op_nth: "i < last_op oa \<Longrightarrow> t < last_op oa \<Longrightarrow>
    opcodes (with_op oa i o1) ! t = op_at (opcodes oa) i o1 t"
  by (simp add: with_op_def op_at_def)

lemma vm_step_with_op: "i < last_op oa \<Longrightarrow> opcode o1 \<noteq> ZEND_NOP \<Longrightarrow> opcode o1 \<noteq> ZEND_JMP \<Longrightarrow>
    vm_step H (with_op oa i o1) i s = resume (brk_cont_array oa) (try_catch_array oa) o1 i (H (blank o1) s)"
  by (simp add: vm_step_def with_op_nth op_at_def)

lemma vm_step_with_jmp: "i < last_op oa \<Longrightarrow> opcode o1 = ZEND_JMP \<Longrightarrow>
    vm_step H (with_op oa i o1) i s = Go (num (op1 o1)) s"
  by (simp add: vm_step_def with_op_nth op_at_def Let_def)

text \<open>A JMP other than the rewritten instruction is passed in both programs.\<close>

lemma pass_jmp:
  assumes "i < last_op oa" "t < last_op oa" "t \<noteq> i" "opcode (opcodes oa ! t) = ZEND_JMP"
  shows "vm_run H (with_op oa i o1) t s r \<longleftrightarrow> vm_run H (with_op oa i o1) (num (op1 (opcodes oa ! t))) s r"
  using vm_run_JMP [of t "with_op oa i o1" H s r] assms by (simp add: with_op_nth op_at_def)

lemma thread_jmp_opcode: "opcode (fst (thread_jmp ops i o1 hits)) = opcode o1"
proof (induction ops i o1 hits rule: thread_jmp.induct)
  case (1 ops i o1 hits)
  then show ?case by (subst thread_jmp.simps) (simp add: Let_def)
qed

lemma thread_jmp_same:
  assumes "i < last_op oa" "opcode o1 = ZEND_JMP"
  shows "vm_run H (with_op oa i (fst (thread_jmp (opcodes oa) i o1 hits))) pc s r
    \<longleftrightarrow> vm_run H (with_op oa i o1) pc s r"
  using assms
proof (induction "opcodes oa" i o1 hits rule: thread_jmp.induct)
  case (1 i o1 hits)
  let ?t = "num (op1 o1)"
  let ?ot = "op_at (opcodes oa) i o1 ?t"
  let ?v = "num (op1 ?ot)"
  show ?case
  proof (cases "?t < last_op oa \<and> opcode ?ot = ZEND_JMP \<and> ?v \<notin> set hits")
    case True
    have eq: "thread_jmp (opcodes oa) i o1 hits = thread_jmp (opcodes oa) i (set_op1 o1 ?v) (hits @ [?v])"
      using True by (subst thread_jmp.simps) (simp add: Let_def)
    have "vm_run H (with_op oa i (set_op1 o1 ?v)) pc s r \<longleftrightarrow> vm_run H (with_op oa i o1) pc s r"
    proof (rule retarget_same)
      fix s
      show "vm_step H (with_op oa i (set_op1 o1 ?v)) i s = vm_step H (with_op oa i o1) i s
        \<or> (\<exists>a b s'. vm_step H (with_op oa i o1) i s = Go a s' \<and> vm_step H (with_op oa i (set_op1 o1 ?v)) i s = Go b s'
            \<and> (\<forall>r. vm_run H (with_op oa i o1) a s' r \<longleftrightarrow> vm_run H (with_op oa i o1) b s' r)
            \<and> (\<forall>r. vm_run H (with_op oa i (set_op1 o1 ?v)) a s' r \<longleftrightarrow> vm_run H (with_op oa i (set_op1 o1 ?v)) b s' r))"
        using "1.prems" True pass_jmp [OF "1.prems"(1), of ?t, where H = H]
        by (cases "?t = i") (simp_all add: vm_step_with_jmp op_at_def)
    qed
    moreover have "vm_run H (with_op oa i (fst (thread_jmp (opcodes oa) i (set_op1 o1 ?v) (hits @ [?v])))) pc s r
      \<longleftrightarrow> vm_run H (with_op oa i (set_op1 o1 ?v)) pc s r"
      using True "1.prems" by (intro "1.hyps" [OF refl _ refl]) simp_all
    ultimately show ?thesis by (simp only: eq)
  next
    case False
    then have "thread_jmp (opcodes oa) i o1 hits = (o1, hits)"
      by (subst thread_jmp.simps) (auto simp: Let_def)
    then show ?thesis by simp
  qed
qed

text \<open>The same for the targets of a JMPZNZ, whatever its handler does.\<close>

lemma resume_op2:
  assumes "opcode o1 = opcode o2" "jumps_op2 (opcode o1)" "extended_value o2 = extended_value o1" "op1 o2 = op1 o1"
  shows "resume bcs tcs o2 i x = resume bcs tcs o1 i x
    \<or> (resume bcs tcs o1 i x = Go (num (op2 o1)) (fst x) \<and> resume bcs tcs o2 i x = Go (num (op2 o2)) (fst x))"
  using assms by (cases "snd x") (simp_all add: resume_def)

lemma blank_set_op2: "jumps_op2 (opcode o1) \<Longrightarrow> blank (set_op2 o1 v) = blank o1"
  by (simp add: blank_def set_op2_def)

lemma blank_set_ext: "jumps_ext (opcode o1) \<Longrightarrow> blank (o1\<lparr>extended_value := v\<rparr>) = blank o1"
  by (simp add: blank_def)

lemma retarget_op2:
  assumes i: "i < last_op oa" and j: "jumps_op2 (opcode o1)" and t: "num (op2 o1) < last_op oa" "num (op2 o1) \<noteq> i"
    and ot: "opcode (opcodes oa ! num (op2 o1)) = ZEND_JMP"
  shows "vm_run H (with_op oa i (set_op2 o1 (num (op1 (opcodes oa ! num (op2 o1)))))) pc s r
    \<longleftrightarrow> vm_run H (with_op oa i o1) pc s r"
proof (rule retarget_same)
  fix s
  let ?v = "num (op1 (opcodes oa ! num (op2 o1)))"
  have n: "opcode o1 \<noteq> ZEND_NOP" "opcode o1 \<noteq> ZEND_JMP" using j by (auto simp: jumps_op2_def)
  note st = vm_step_with_op [OF i n] vm_step_with_op [OF i, of "set_op2 o1 ?v"]
  show "vm_step H (with_op oa i (set_op2 o1 ?v)) i s = vm_step H (with_op oa i o1) i s
      \<or> (\<exists>a b s'. vm_step H (with_op oa i o1) i s = Go a s' \<and> vm_step H (with_op oa i (set_op2 o1 ?v)) i s = Go b s'
            \<and> (\<forall>r. vm_run H (with_op oa i o1) a s' r \<longleftrightarrow> vm_run H (with_op oa i o1) b s' r)
            \<and> (\<forall>r. vm_run H (with_op oa i (set_op2 o1 ?v)) a s' r \<longleftrightarrow> vm_run H (with_op oa i (set_op2 o1 ?v)) b s' r))"
    using resume_op2 [of o1 "set_op2 o1 ?v" "brk_cont_array oa" "try_catch_array oa" i "H (blank o1) s"]
      pass_jmp [OF i t(1) t(2) ot, where H = H] j n
    by (auto simp: st blank_set_op2)
qed

lemma thread_znz2_same:
  assumes "i < last_op oa" "opcode o1 = ZEND_JMPZNZ"
  shows "vm_run H (with_op oa i (fst (thread_znz2 (opcodes oa) i o1 hits))) pc s r
    \<longleftrightarrow> vm_run H (with_op oa i o1) pc s r"
  using assms
proof (induction "opcodes oa" i o1 hits rule: thread_znz2.induct)
  case (1 i o1 hits)
  let ?t = "num (op2 o1)"
  let ?ot = "op_at (opcodes oa) i o1 ?t"
  let ?v = "num (op1 ?ot)"
  show ?case
  proof (cases "?t < last_op oa \<and> opcode ?ot = ZEND_JMP \<and> ?v \<notin> set hits")
    case True
    have eq: "thread_znz2 (opcodes oa) i o1 hits = thread_znz2 (opcodes oa) i (set_op2 o1 ?v) (hits @ [?v])"
      using True by (subst thread_znz2.simps) (simp add: Let_def)
    have ti: "?t \<noteq> i" using True "1.prems"(2) by (auto simp: op_at_def)
    then have "vm_run H (with_op oa i (set_op2 o1 ?v)) pc s r \<longleftrightarrow> vm_run H (with_op oa i o1) pc s r"
      using retarget_op2 [OF "1.prems"(1), of o1] True "1.prems"(2) by (simp add: op_at_def jumps_op2_def)
    moreover have "vm_run H (with_op oa i (fst (thread_znz2 (opcodes oa) i (set_op2 o1 ?v) (hits @ [?v])))) pc s r
      \<longleftrightarrow> vm_run H (with_op oa i (set_op2 o1 ?v)) pc s r"
      using True "1.prems" by (intro "1.hyps" [OF refl _ refl]) simp_all
    ultimately show ?thesis by (simp only: eq)
  next
    case False
    then have "thread_znz2 (opcodes oa) i o1 hits = (o1, hits)"
      by (subst thread_znz2.simps) (auto simp: Let_def)
    then show ?thesis by simp
  qed
qed

lemma thread_znz3_same:
  assumes "i < last_op oa" "opcode o1 = ZEND_JMPZNZ"
  shows "vm_run H (with_op oa i (fst (thread_znz3 (opcodes oa) i o1 hits))) pc s r
    \<longleftrightarrow> vm_run H (with_op oa i o1) pc s r"
  using assms
proof (induction "opcodes oa" i o1 hits rule: thread_znz3.induct)
  case (1 i o1 hits)
  let ?t = "extended_value o1"
  let ?ot = "op_at (opcodes oa) i o1 ?t"
  let ?v = "num (op1 ?ot)"
  let ?o2 = "o1\<lparr>extended_value := ?v\<rparr>"
  show ?case
  proof (cases "?t < last_op oa \<and> opcode ?ot = ZEND_JMP \<and> ?v \<notin> set hits")
    case True
    have eq: "thread_znz3 (opcodes oa) i o1 hits = thread_znz3 (opcodes oa) i ?o2 (hits @ [?v])"
      using True by (subst thread_znz3.simps) (simp add: Let_def)
    have ti: "?t \<noteq> i" using True "1.prems"(2) by (auto simp: op_at_def)
    have "vm_run H (with_op oa i ?o2) pc s r \<longleftrightarrow> vm_run H (with_op oa i o1) pc s r"
    proof (rule retarget_same)
      fix s
      have st: "vm_step H (with_op oa i o1) i s = resume (brk_cont_array oa) (try_catch_array oa) o1 i (H (blank o1) s)"
        "vm_step H (with_op oa i ?o2) i s = resume (brk_cont_array oa) (try_catch_array oa) ?o2 i (H (blank o1) s)"
        using "1.prems" by (simp_all add: vm_step_with_op blank_set_ext jumps_ext_def)
      show "vm_step H (with_op oa i ?o2) i s = vm_step H (with_op oa i o1) i s
        \<or> (\<exists>a b s'. vm_step H (with_op oa i o1) i s = Go a s' \<and> vm_step H (with_op oa i ?o2) i s = Go b s'
            \<and> (\<forall>r. vm_run H (with_op oa i o1) a s' r \<longleftrightarrow> vm_run H (with_op oa i o1) b s' r)
            \<and> (\<forall>r. vm_run H (with_op oa i ?o2) a s' r \<longleftrightarrow> vm_run H (with_op oa i ?o2) b s' r))"
        using pass_jmp [OF "1.prems"(1), of ?t, where H = H] True ti "1.prems"(2) unfolding st
        by (cases "snd (H (blank o1) s)") (simp_all add: resume_def op_at_def jumps_ext_def jumps_op2_def jumps_op1_def)
    qed
    moreover have "vm_run H (with_op oa i (fst (thread_znz3 (opcodes oa) i ?o2 (hits @ [?v])))) pc s r
      \<longleftrightarrow> vm_run H (with_op oa i ?o2) pc s r"
      using True "1.prems" by (intro "1.hyps" [OF refl _ refl]) simp_all
    ultimately show ?thesis by (simp only: eq)
  next
    case False
    then have "thread_znz3 (opcodes oa) i o1 hits = (o1, hits)"
      by (subst thread_znz3.simps) (auto simp: Let_def)
    then show ?thesis by simp
  qed
qed

section \<open>Conditional jumps on the same variable\<close>

text \<open>What the JMPZ and JMPNZ handlers do: they look at the truth of their operand, which two
  uses of the same variable share, and change nothing else.\<close>

definition cond_handlers :: "'s handlers \<Rightarrow> ('s \<Rightarrow> znode \<Rightarrow> bool) \<Rightarrow> bool" where
  "cond_handlers H truth \<longleftrightarrow>
     (\<forall>o1 s. opcode o1 = ZEND_JMPZ \<longrightarrow> H (blank o1) s = (s, if truth s (op1 o1) then Next else To_Op2))
   \<and> (\<forall>o1 s. opcode o1 = ZEND_JMPNZ \<longrightarrow> H (blank o1) s = (s, if truth s (op1 o1) then To_Op2 else Next))
   \<and> (\<forall>a b s. SAME_VAR a b \<longrightarrow> truth s a = truth s b)"

definition jumps_when :: "('s \<Rightarrow> znode \<Rightarrow> bool) \<Rightarrow> zend_op \<Rightarrow> 's \<Rightarrow> bool" where
  "jumps_when truth o1 s = (if opcode o1 = ZEND_JMPZ then \<not> truth s (op1 o1) else truth s (op1 o1))"

lemma cond_step:
  assumes "cond_handlers H truth" "i < last_op oa" "opcode (opcodes oa ! i) \<in> {ZEND_JMPZ, ZEND_JMPNZ}"
  shows "vm_step H oa i s = Go (if jumps_when truth (opcodes oa ! i) s then num (op2 (opcodes oa ! i)) else Suc i) s"
proof -
  let ?o = "opcodes oa ! i"
  have "H (blank ?o) s = (s, if jumps_when truth ?o s then To_Op2 else Next)"
    using assms(1,3) unfolding cond_handlers_def jumps_when_def by auto
  then show ?thesis
    using assms(2,3) by (auto simp: vm_step_def Let_def resume_def jumps_op2_def)
qed

lemma cond_step_with:
  assumes "cond_handlers H truth" "i < last_op oa" "opcode o1 \<in> {ZEND_JMPZ, ZEND_JMPNZ}"
  shows "vm_step H (with_op oa i o1) i s = Go (if jumps_when truth o1 s then num (op2 o1) else Suc i) s"
  using cond_step [OF assms(1), of i "with_op oa i o1" s] assms by (simp add: with_op_nth op_at_def)

lemma pass_cond:
  assumes "cond_handlers H truth" "i < last_op oa" "t < last_op oa" "t \<noteq> i"
    and "opcode (opcodes oa ! t) \<in> {ZEND_JMPZ, ZEND_JMPNZ}"
  shows "vm_run H (with_op oa i o1) t s r
    \<longleftrightarrow> vm_run H (with_op oa i o1) (if jumps_when truth (opcodes oa ! t) s then num (op2 (opcodes oa ! t)) else Suc t) s r"
  using cond_step [OF assms(1), of t "with_op oa i o1" s] assms
  by (subst vm_run_unfold) (simp add: with_op_nth op_at_def)

text \<open>Retargeting a conditional jump from \<open>t\<close> to \<open>v\<close>, where \<open>v\<close> is where \<open>t\<close> leads to in the
  states the jump is taken in.\<close>

lemma retarget_cond:
  assumes c: "cond_handlers H truth" and i: "i < last_op oa" and o: "opcode o1 \<in> {ZEND_JMPZ, ZEND_JMPNZ}"
    and via: "\<And>o2 s r. jumps_when truth o1 s \<Longrightarrow>
        vm_run H (with_op oa i o2) (num (op2 o1)) s r \<longleftrightarrow> vm_run H (with_op oa i o2) v s r"
  shows "vm_run H (with_op oa i (set_op2 o1 v)) pc s r \<longleftrightarrow> vm_run H (with_op oa i o1) pc s r"
proof (rule retarget_same)
  fix s
  have jw: "jumps_when truth (set_op2 o1 v) s = jumps_when truth o1 s" by (simp add: jumps_when_def)
  have "opcode (set_op2 o1 v) \<in> {ZEND_JMPZ, ZEND_JMPNZ}" using o by simp
  note st = cond_step_with [OF c i o, of s] cond_step_with [OF c i this, of s, unfolded jw]
  show "vm_step H (with_op oa i (set_op2 o1 v)) i s = vm_step H (with_op oa i o1) i s
      \<or> (\<exists>a b s'. vm_step H (with_op oa i o1) i s = Go a s' \<and> vm_step H (with_op oa i (set_op2 o1 v)) i s = Go b s'
            \<and> (\<forall>r. vm_run H (with_op oa i o1) a s' r \<longleftrightarrow> vm_run H (with_op oa i o1) b s' r)
            \<and> (\<forall>r. vm_run H (with_op oa i (set_op2 o1 v)) a s' r \<longleftrightarrow> vm_run H (with_op oa i (set_op2 o1 v)) b s' r))"
    unfolding st using via [of s] by simp
qed

text \<open>The forms that keep the value of the condition. No JMPZ or JMPNZ tests a variable that
  one of them tests: the pass would turn the former into the latter, and assign the result on
  the branch that did not assign it.\<close>

definition value_jumps :: "nat set" where
  "value_jumps = {ZEND_JMPZ_EX, ZEND_JMPNZ_EX}"

definition apart_from_values :: "zend_op list \<Rightarrow> zend_op \<Rightarrow> bool" where
  "apart_from_values ops o1 \<longleftrightarrow> (\<forall>b \<in> set ops. opcode b \<in> value_jumps \<longrightarrow> \<not> SAME_VAR (op1 o1) (op1 b))"

lemma thread_jmpz_same:
  assumes "cond_handlers H truth" "i < last_op oa" "opcode o1 \<in> {ZEND_JMPZ, ZEND_JMPNZ}" "apart_from_values (opcodes oa) o1"
  shows "(\<forall>pc s r. vm_run H (with_op oa i (fst (thread_jmpz (opcodes oa) i o1 hits))) pc s r
    \<longleftrightarrow> vm_run H (with_op oa i o1) pc s r) \<and> opcode (fst (thread_jmpz (opcodes oa) i o1 hits)) = opcode o1
    \<and> op1 (fst (thread_jmpz (opcodes oa) i o1 hits)) = op1 o1 \<and> result (fst (thread_jmpz (opcodes oa) i o1 hits)) = result o1"
  using assms
proof (induction "opcodes oa" i o1 hits rule: thread_jmpz.induct)
  case (1 i o1 hits)
  let ?t = "num (op2 o1)"
  let ?ot = "op_at (opcodes oa) i o1 ?t"
  note c = "1.prems"(1) and i = "1.prems"(2) and o = "1.prems"(3)
  let ?jmp = "?t < last_op oa \<and> opcode ?ot = ZEND_JMP \<and> num (op1 ?ot) \<notin> set hits"
  let ?same = "?t < last_op oa \<and> opcode ?ot = opcode o1 \<and> SAME_VAR (op1 o1) (op1 ?ot) \<and> num (op2 ?ot) \<notin> set hits"
  let ?inv = "?t < last_op oa \<and> opcode ?ot = INV_COND (opcode o1) \<and> SAME_VAR (op1 o1) (op1 ?ot)"
  have nex: "\<not> ((opcode ?ot = opcode o1 + 3 \<or> opcode ?ot = INV_COND_EX (opcode o1)) \<and> SAME_VAR (op1 o1) (op1 ?ot))" if "?t < last_op oa"
  proof
    assume e: "(opcode ?ot = opcode o1 + 3 \<or> opcode ?ot = INV_COND_EX (opcode o1)) \<and> SAME_VAR (op1 o1) (op1 ?ot)"
    then have v: "opcode ?ot \<in> value_jumps" using o by (auto simp: INV_COND_EX_def value_jumps_def split: if_splits)
    then have "?t \<noteq> i" using o by (auto simp: op_at_def value_jumps_def)
    then have "?ot \<in> set (opcodes oa)" using that by (simp add: op_at_def)
    then show False using "1.prems"(4) v e unfolding apart_from_values_def by blast
  qed
  have ap: "apart_from_values (opcodes oa) (set_op2 o1 n)" for n using "1.prems"(4) by (simp add: apart_from_values_def)
  have tj: "truth s (op1 o1) = truth s (op1 ?ot)" if "SAME_VAR (op1 o1) (op1 ?ot)" for s
    using c that unfolding cond_handlers_def by blast
  consider (jmp) ?jmp | (same) ?same | (inv) ?inv | (stop) "\<not> ?jmp" "\<not> ?same" "\<not> ?inv" by blast
  then show ?case
  proof cases
    case jmp
    let ?v = "num (op1 ?ot)"
    have ti: "?t \<noteq> i" using jmp o by (auto simp: op_at_def)
    have eq: "thread_jmpz (opcodes oa) i o1 hits = thread_jmpz (opcodes oa) i (set_op2 o1 ?v) (hits @ [?v])"
      using jmp by (subst thread_jmpz.simps) (simp add: Let_def)
    have "vm_run H (with_op oa i (set_op2 o1 ?v)) pc s r \<longleftrightarrow> vm_run H (with_op oa i o1) pc s r" for pc s r
      using jmp ti pass_jmp [OF i, of ?t, where H = H] by (intro retarget_cond [OF c i o]) (simp add: op_at_def)
    moreover have "(\<forall>pc s r. vm_run H (with_op oa i (fst (thread_jmpz (opcodes oa) i (set_op2 o1 ?v) (hits @ [?v])))) pc s r
      \<longleftrightarrow> vm_run H (with_op oa i (set_op2 o1 ?v)) pc s r)
      \<and> opcode (fst (thread_jmpz (opcodes oa) i (set_op2 o1 ?v) (hits @ [?v]))) = opcode (set_op2 o1 ?v)
      \<and> op1 (fst (thread_jmpz (opcodes oa) i (set_op2 o1 ?v) (hits @ [?v]))) = op1 (set_op2 o1 ?v)
      \<and> result (fst (thread_jmpz (opcodes oa) i (set_op2 o1 ?v) (hits @ [?v]))) = result (set_op2 o1 ?v)"
      using jmp "1.prems" ap by (intro "1.hyps"(1) [OF refl refl]) simp_all
    ultimately show ?thesis by (simp only: eq set_op_simps) simp
  next
    case same
    let ?v = "num (op2 ?ot)"
    have n: "opcode ?ot \<noteq> ZEND_JMP" using same o by auto
    have eq: "thread_jmpz (opcodes oa) i o1 hits = thread_jmpz (opcodes oa) i (set_op2 o1 ?v) (hits @ [?v])"
      using same n by (subst thread_jmpz.simps) (simp add: Let_def)
    have "vm_run H (with_op oa i (set_op2 o1 ?v)) pc s r \<longleftrightarrow> vm_run H (with_op oa i o1) pc s r" for pc s r
    proof (cases "?t = i")
      case True
      then have "set_op2 o1 ?v = o1" by (simp add: op_at_def set_op2_def)
      then show ?thesis by simp
    next
      case False
      show ?thesis
      proof (rule retarget_cond [OF c i o])
        fix o2 s r assume j: "jumps_when truth o1 s"
        have "jumps_when truth ?ot s" using j same tj [of s] by (auto simp: jumps_when_def split: if_splits)
        then show "vm_run H (with_op oa i o2) ?t s r \<longleftrightarrow> vm_run H (with_op oa i o2) ?v s r"
          using pass_cond [OF c i, of ?t o2 s r] same False o by (simp add: op_at_def)
      qed
    qed
    moreover have "(\<forall>pc s r. vm_run H (with_op oa i (fst (thread_jmpz (opcodes oa) i (set_op2 o1 ?v) (hits @ [?v])))) pc s r
      \<longleftrightarrow> vm_run H (with_op oa i (set_op2 o1 ?v)) pc s r)
      \<and> opcode (fst (thread_jmpz (opcodes oa) i (set_op2 o1 ?v) (hits @ [?v]))) = opcode (set_op2 o1 ?v)
      \<and> op1 (fst (thread_jmpz (opcodes oa) i (set_op2 o1 ?v) (hits @ [?v]))) = op1 (set_op2 o1 ?v)
      \<and> result (fst (thread_jmpz (opcodes oa) i (set_op2 o1 ?v) (hits @ [?v]))) = result (set_op2 o1 ?v)"
      using same n "1.prems" ap by (intro "1.hyps"(2) [OF refl refl]) simp_all
    ultimately show ?thesis by (simp only: eq set_op_simps) simp
  next
    case inv
    have d: "opcode ?ot \<noteq> ZEND_JMP" "opcode ?ot \<noteq> opcode o1" "?t \<noteq> i"
      using inv o by (auto simp: INV_COND_def op_at_def split: if_splits)
    have eq: "thread_jmpz (opcodes oa) i o1 hits = (set_op2 o1 (?t + 1), hits)"
      using inv d nex by (subst thread_jmpz.simps) (simp add: Let_def)
    have "vm_run H (with_op oa i (set_op2 o1 (?t + 1))) pc s r \<longleftrightarrow> vm_run H (with_op oa i o1) pc s r" for pc s r
    proof (rule retarget_cond [OF c i o])
      fix o2 s r assume j: "jumps_when truth o1 s"
      have "\<not> jumps_when truth ?ot s" using j inv o tj [of s]
        by (auto simp: jumps_when_def INV_COND_def split: if_splits)
      then show "vm_run H (with_op oa i o2) ?t s r \<longleftrightarrow> vm_run H (with_op oa i o2) (?t + 1) s r"
        using pass_cond [OF c i, of ?t o2 s r] inv d o by (simp add: op_at_def INV_COND_def split: if_splits)
    qed
    then show ?thesis by (simp add: eq)
  next
    case stop
    then have "thread_jmpz (opcodes oa) i o1 hits = (o1, hits)"
      using nex by (subst thread_jmpz.simps) (auto simp: Let_def)
    then show ?thesis by simp
  qed
qed

section \<open>Conditional jumps that keep the value\<close>

text \<open>JMPZ_EX, JMPNZ_EX and BOOL put the truth of their operand into the result (\<open>put\<close>), and
  JMPZNZ looks at it. Where the result is the variable looked at, it holds the truth put there;
  putting a variable's own truth keeps it, and putting the same value twice is putting it once.\<close>

definition value_handlers :: "'s handlers \<Rightarrow> ('s \<Rightarrow> znode \<Rightarrow> bool) \<Rightarrow> ('s \<Rightarrow> znode \<Rightarrow> bool \<Rightarrow> 's) \<Rightarrow> bool" where
  "value_handlers H truth put \<longleftrightarrow> cond_handlers H truth
   \<and> (\<forall>o1 s. opcode o1 = ZEND_JMPZ_EX \<longrightarrow>
        H (blank o1) s = (put s (result o1) (truth s (op1 o1)), if truth s (op1 o1) then Next else To_Op2))
   \<and> (\<forall>o1 s. opcode o1 = ZEND_JMPNZ_EX \<longrightarrow>
        H (blank o1) s = (put s (result o1) (truth s (op1 o1)), if truth s (op1 o1) then To_Op2 else Next))
   \<and> (\<forall>o1 s. opcode o1 = ZEND_BOOL \<longrightarrow> H (blank o1) s = (put s (result o1) (truth s (op1 o1)), Next))
   \<and> (\<forall>o1 s. opcode o1 = ZEND_JMPZNZ \<longrightarrow> H (blank o1) s = (s, if truth s (op1 o1) then To_Ext else To_Op2))
   \<and> (\<forall>s T z v. SAME_VAR z T \<longrightarrow> truth (put s T v) z = v)
   \<and> (\<forall>s T z. truth (put s T (truth s z)) z = truth s z)
   \<and> (\<forall>s T z v. SAME_VAR z T \<longrightarrow> put (put s T v) z v = put s T v)"

definition value_jumps_when :: "('s \<Rightarrow> znode \<Rightarrow> bool) \<Rightarrow> zend_op \<Rightarrow> 's \<Rightarrow> bool" where
  "value_jumps_when truth o1 s = (truth s (op1 o1) = (opcode o1 = ZEND_JMPNZ_EX))"

lemma value_step:
  assumes "value_handlers H truth put" "i < last_op oa" "opcode (opcodes oa ! i) \<in> value_jumps"
  shows "vm_step H oa i s = Go (if value_jumps_when truth (opcodes oa ! i) s then num (op2 (opcodes oa ! i)) else Suc i)
    (put s (result (opcodes oa ! i)) (truth s (op1 (opcodes oa ! i))))"
proof -
  let ?o = "opcodes oa ! i"
  have "H (blank ?o) s = (put s (result ?o) (truth s (op1 ?o)), if value_jumps_when truth ?o s then To_Op2 else Next)"
    using assms(1,3) unfolding value_handlers_def value_jumps_when_def value_jumps_def by auto
  then show ?thesis
    using assms(2,3) by (auto simp: vm_step_def Let_def resume_def jumps_op2_def value_jumps_def)
qed

lemma value_step_with:
  assumes "value_handlers H truth put" "i < last_op oa" "opcode o1 \<in> value_jumps"
  shows "vm_step H (with_op oa i o1) i s
    = Go (if value_jumps_when truth o1 s then num (op2 o1) else Suc i) (put s (result o1) (truth s (op1 o1)))"
  using value_step [OF assms(1), of i "with_op oa i o1" s] assms by (simp add: with_op_nth op_at_def)

lemma znz_step:
  assumes "value_handlers H truth put" "i < last_op oa" "opcode (opcodes oa ! i) = ZEND_JMPZNZ"
  shows "vm_step H oa i s
    = Go (if truth s (op1 (opcodes oa ! i)) then extended_value (opcodes oa ! i) else num (op2 (opcodes oa ! i))) s"
proof -
  let ?o = "opcodes oa ! i"
  have "H (blank ?o) s = (s, if truth s (op1 ?o) then To_Ext else To_Op2)"
    using assms(1,3) unfolding value_handlers_def by blast
  then show ?thesis using assms(2,3) by (simp add: vm_step_def Let_def resume_def jumps_op2_def jumps_ext_def)
qed

text \<open>Retargeting one of them from \<open>t\<close> to \<open>v\<close>, where \<open>v\<close> is where \<open>t\<close> leads to in the states in
  which the jump is taken: the result holds the value it is taken on.\<close>

lemma retarget_value:
  assumes c: "value_handlers H truth put" and i: "i < last_op oa" and o: "opcode o1 \<in> value_jumps"
    and via: "\<And>o2 s r. truth s (op1 o1) = (opcode o1 = ZEND_JMPNZ_EX) \<Longrightarrow>
        vm_run H (with_op oa i o2) (num (op2 o1)) (put s (result o1) (opcode o1 = ZEND_JMPNZ_EX)) r
        \<longleftrightarrow> vm_run H (with_op oa i o2) v (put s (result o1) (opcode o1 = ZEND_JMPNZ_EX)) r"
  shows "vm_run H (with_op oa i (set_op2 o1 v)) pc s r \<longleftrightarrow> vm_run H (with_op oa i o1) pc s r"
proof (rule retarget_same)
  fix s
  have jw: "value_jumps_when truth (set_op2 o1 v) s = value_jumps_when truth o1 s" by (simp add: value_jumps_when_def)
  have "opcode (set_op2 o1 v) \<in> value_jumps" using o by simp
  note st = value_step_with [OF c i o, of s] value_step_with [OF c i this, of s, unfolded jw set_op_simps]
  show "vm_step H (with_op oa i (set_op2 o1 v)) i s = vm_step H (with_op oa i o1) i s
      \<or> (\<exists>a b s'. vm_step H (with_op oa i o1) i s = Go a s' \<and> vm_step H (with_op oa i (set_op2 o1 v)) i s = Go b s'
            \<and> (\<forall>r. vm_run H (with_op oa i o1) a s' r \<longleftrightarrow> vm_run H (with_op oa i o1) b s' r)
            \<and> (\<forall>r. vm_run H (with_op oa i (set_op2 o1 v)) a s' r \<longleftrightarrow> vm_run H (with_op oa i (set_op2 o1 v)) b s' r))"
    unfolding st using via [of s] by (simp add: value_jumps_when_def)
qed

text \<open>How a conditional instruction at another place goes on from a state in which its operand
  has the truth \<open>v\<close>.\<close>

lemma run_value_jump:
  assumes c: "value_handlers H truth put" and i: "i < last_op oa" and t: "t < last_op oa" "t \<noteq> i"
    and o: "opcode (opcodes oa ! t) \<in> value_jumps" and v: "truth s (op1 (opcodes oa ! t)) = v"
    and p: "put s (result (opcodes oa ! t)) v = s"
  shows "vm_run H (with_op oa i o2) t s r
    \<longleftrightarrow> vm_run H (with_op oa i o2) (if v = (opcode (opcodes oa ! t) = ZEND_JMPNZ_EX) then num (op2 (opcodes oa ! t)) else Suc t) s r"
  using value_step [OF c, of t "with_op oa i o2" s] i t o p
  by (subst vm_run_unfold) (simp add: with_op_nth op_at_def v value_jumps_when_def)

lemma run_cond_jump:
  assumes c: "value_handlers H truth put" and i: "i < last_op oa" and t: "t < last_op oa" "t \<noteq> i"
    and o: "opcode (opcodes oa ! t) \<in> {ZEND_JMPZ, ZEND_JMPNZ}" and v: "truth s (op1 (opcodes oa ! t)) = v"
  shows "vm_run H (with_op oa i o2) t s r
    \<longleftrightarrow> vm_run H (with_op oa i o2) (if v = (opcode (opcodes oa ! t) = ZEND_JMPNZ) then num (op2 (opcodes oa ! t)) else Suc t) s r"
proof -
  have "jumps_when truth (opcodes oa ! t) s = (v = (opcode (opcodes oa ! t) = ZEND_JMPNZ))"
    using o v by (auto simp: jumps_when_def)
  moreover have "cond_handlers H truth" using c by (simp add: value_handlers_def)
  ultimately show ?thesis using pass_cond [OF _ i t o, of H truth o2 s r] by simp
qed

lemma run_znz_jump:
  assumes c: "value_handlers H truth put" and i: "i < last_op oa" and t: "t < last_op oa" "t \<noteq> i"
    and o: "opcode (opcodes oa ! t) = ZEND_JMPZNZ" and v: "truth s (op1 (opcodes oa ! t)) = v"
  shows "vm_run H (with_op oa i o2) t s r
    \<longleftrightarrow> vm_run H (with_op oa i o2) (if v then extended_value (opcodes oa ! t) else num (op2 (opcodes oa ! t))) s r"
  using znz_step [OF c, of t "with_op oa i o2" s] i t o
  by (subst vm_run_unfold) (simp add: with_op_nth op_at_def v)

text \<open>The results of value-keeping jumps on the same variable, or on the result of another, are
  the same variable (the compiler gives \<open>a && b && c\<close> one temporary).\<close>

definition same_results :: "zend_op list \<Rightarrow> zend_op \<Rightarrow> bool" where
  "same_results ops o1 \<longleftrightarrow> (\<forall>b \<in> set ops. opcode b \<in> value_jumps \<longrightarrow>
     SAME_VAR (op1 b) (result o1) \<or> SAME_VAR (op1 o1) (op1 b) \<longrightarrow> SAME_VAR (result b) (result o1))"

lemma SAME_VAR_trans: "SAME_VAR a b \<Longrightarrow> SAME_VAR b c \<Longrightarrow> SAME_VAR a c"
  and SAME_VAR_sym: "SAME_VAR a b \<Longrightarrow> SAME_VAR b a"
  by (auto simp: SAME_VAR_def)

lemma thread_ex_same:
  assumes "value_handlers H truth put" "i < last_op oa" "opcode o1 \<in> value_jumps" "same_results (opcodes oa) o1"
    and "T = result o1 \<or> SAME_VAR T (result o1)"
  shows "vm_run H (with_op oa i (fst (thread_ex (opcodes oa) i o1 T hits))) pc s r \<longleftrightarrow> vm_run H (with_op oa i o1) pc s r"
  using assms
proof (induction "opcodes oa" i o1 T hits rule: thread_ex.induct)
  case (1 i o1 T hits)
  let ?t = "num (op2 o1)"
  let ?ot = "op_at (opcodes oa) i o1 ?t"
  let ?v = "opcode o1 = ZEND_JMPNZ_EX"
  note c = "1.prems"(1) and i = "1.prems"(2) and o = "1.prems"(3)
  let ?same = "?t < last_op oa \<and> SAME_OPCODE_EX (opcode o1) (opcode ?ot) \<and> SAME_VAR (op1 ?ot) T \<and> num (op2 ?ot) \<notin> set hits"
  let ?znz = "?t < last_op oa \<and> opcode ?ot = ZEND_JMPZNZ \<and> SAME_VAR (op1 ?ot) T \<and> num (op2 ?ot) \<notin> set hits"
  let ?inv = "?t < last_op oa \<and> (opcode ?ot = INV_EX_COND_EX (opcode o1) \<or> opcode ?ot = INV_EX_COND (opcode o1))
    \<and> SAME_VAR (op1 o1) (op1 ?ot) \<and> \<not> (SAME_OPCODE_EX (opcode o1) (opcode ?ot) \<and> SAME_VAR (op1 ?ot) T)"
  have mem: "opcodes oa ! ?t \<in> set (opcodes oa)" if "?t < last_op oa" using that by simp
  have toR: "SAME_VAR a (result o1)" if "SAME_VAR a T" for a
    using "1.prems"(5)
  proof
    assume "SAME_VAR T (result o1)"
    with that show ?thesis by (rule SAME_VAR_trans)
  qed (use that in simp)
  have onT: "truth (put s (result o1) v) (op1 ?ot) = v" if "SAME_VAR (op1 ?ot) T" for s v
    using c toR [OF that] unfolding value_handlers_def by blast
  have onX: "truth (put s (result o1) (truth s (op1 o1))) (op1 ?ot) = truth s (op1 o1)" if "SAME_VAR (op1 o1) (op1 ?ot)" for s
    using c that unfolding value_handlers_def cond_handlers_def by metis
  have twice: "put (put s (result o1) v) (result (opcodes oa ! ?t)) v = put s (result o1) v"
    if "?t < last_op oa" "opcode (opcodes oa ! ?t) \<in> value_jumps"
      "SAME_VAR (op1 (opcodes oa ! ?t)) T \<or> SAME_VAR (op1 o1) (op1 (opcodes oa ! ?t))" for s v
  proof -
    have "SAME_VAR (result (opcodes oa ! ?t)) (result o1)"
      using "1.prems"(4) mem [OF that(1)] that(2,3) toR unfolding same_results_def by blast
    then show ?thesis using c unfolding value_handlers_def by blast
  qed
  have next_ok: "same_results (opcodes oa) (set_op2 o1 n)" for n using "1.prems"(4) by (simp add: same_results_def)
  consider (same) ?same | (znz) ?znz | (inv) ?inv | (stop) "\<not> ?same" "\<not> ?znz" "\<not> ?inv" by blast
  then show ?case
  proof cases
    case same
    let ?w = "num (op2 ?ot)"
    define T1 where "T1 = (if opcode ?ot = opcode o1 then result ?ot else T)"
    have eq: "thread_ex (opcodes oa) i o1 T hits = thread_ex (opcodes oa) i (set_op2 o1 ?w) T1 (hits @ [?w])"
      using same by (subst thread_ex.simps) (simp add: Let_def T1_def)
    have T1: "T1 = result o1 \<or> SAME_VAR T1 (result o1)"
    proof (cases "opcode ?ot = opcode o1 \<and> ?t \<noteq> i")
      case True
      then have ot: "?ot = opcodes oa ! ?t" by (simp add: op_at_def)
      have "opcode (opcodes oa ! ?t) \<in> value_jumps" using True o ot by simp
      moreover have "SAME_VAR (op1 (opcodes oa ! ?t)) (result o1)" using same toR ot by simp
      ultimately have "SAME_VAR (result (opcodes oa ! ?t)) (result o1)"
        using "1.prems"(4) mem same unfolding same_results_def by blast
      then show ?thesis using True ot by (simp add: T1_def)
    next
      case False
      show ?thesis
      proof (cases "?t = i")
        case True
        then have "?ot = o1" by (simp add: op_at_def)
        then show ?thesis unfolding T1_def by simp
      next
        case ti: False
        then have "T1 = T" using False unfolding T1_def by simp
        then show ?thesis using "1.prems"(5) by simp
      qed
    qed
    have "vm_run H (with_op oa i (set_op2 o1 ?w)) pc s r \<longleftrightarrow> vm_run H (with_op oa i o1) pc s r"
    proof (cases "?t = i")
      case True
      then have "set_op2 o1 ?w = o1" by (simp add: op_at_def set_op2_def)
      then show ?thesis by simp
    next
      case ti: False
      then have ot: "?ot = opcodes oa ! ?t" by (simp add: op_at_def)
      show ?thesis
      proof (rule retarget_value [OF c i o])
        fix o2 s r
        let ?s = "put s (result o1) ?v"
        have tr: "truth ?s (op1 (opcodes oa ! ?t)) = ?v" using onT [of s ?v] same ot by simp
        show "vm_run H (with_op oa i o2) ?t ?s r \<longleftrightarrow> vm_run H (with_op oa i o2) ?w ?s r"
        proof (cases "opcode (opcodes oa ! ?t) \<in> value_jumps")
          case True
          then have "opcode (opcodes oa ! ?t) = opcode o1" using same ot o by (auto simp: SAME_OPCODE_EX_def value_jumps_def)
          then show ?thesis
            using run_value_jump [OF c i _ ti True tr twice, of o2 r] same ot True by simp
        next
          case False
          then have "opcode (opcodes oa ! ?t) = (if ?v then ZEND_JMPNZ else ZEND_JMPZ)"
            using same ot o by (auto simp: SAME_OPCODE_EX_def value_jumps_def)
          then show ?thesis using run_cond_jump [OF c i _ ti _ tr, of o2 r] same ot by (simp split: if_splits)
        qed
      qed
    qed
    moreover have "vm_run H (with_op oa i (fst (thread_ex (opcodes oa) i (set_op2 o1 ?w) T1 (hits @ [?w])))) pc s r
        \<longleftrightarrow> vm_run H (with_op oa i (set_op2 o1 ?w)) pc s r"
      unfolding T1_def
      using same by (intro "1.hyps"(1) [OF refl refl _ _ refl refl]) (use "1.prems" T1 next_ok in \<open>simp_all add: T1_def\<close>)
    ultimately show ?thesis by (simp only: eq)
  next
    case znz
    let ?w = "if opcode o1 = ZEND_JMPZ_EX then num (op2 ?ot) else extended_value ?ot"
    have d: "\<not> SAME_OPCODE_EX (opcode o1) (opcode ?ot)" "?t \<noteq> i"
      using znz o by (auto simp: SAME_OPCODE_EX_def value_jumps_def op_at_def)
    have ot: "?ot = opcodes oa ! ?t" using d by (simp add: op_at_def)
    have eq: "thread_ex (opcodes oa) i o1 T hits = thread_ex (opcodes oa) i (set_op2 o1 ?w) T (hits @ [num (op2 ?ot)])"
      using znz d by (subst thread_ex.simps) (simp add: Let_def)
    have "vm_run H (with_op oa i (set_op2 o1 ?w)) pc s r \<longleftrightarrow> vm_run H (with_op oa i o1) pc s r"
    proof (rule retarget_value [OF c i o])
      fix o2 s r
      let ?s = "put s (result o1) ?v"
      have tr: "truth ?s (op1 (opcodes oa ! ?t)) = ?v" using onT [of s ?v] znz ot by simp
      show "vm_run H (with_op oa i o2) ?t ?s r \<longleftrightarrow> vm_run H (with_op oa i o2) ?w ?s r"
        using run_znz_jump [OF c i _ d(2) _ tr, of o2 r] znz ot o by (auto simp: value_jumps_def)
    qed
    moreover have "vm_run H (with_op oa i (fst (thread_ex (opcodes oa) i (set_op2 o1 ?w) T (hits @ [num (op2 ?ot)])))) pc s r
        \<longleftrightarrow> vm_run H (with_op oa i (set_op2 o1 ?w)) pc s r"
      using znz d by (intro "1.hyps"(2) [OF refl refl _ _ _ refl]) (use "1.prems" next_ok in simp_all)
    ultimately show ?thesis by (simp only: eq)
  next
    case inv
    have ti: "?t \<noteq> i" using inv o by (auto simp: op_at_def INV_EX_COND_EX_def INV_EX_COND_def value_jumps_def split: if_splits)
    then have ot: "?ot = opcodes oa ! ?t" by (simp add: op_at_def)
    have "\<not> (opcode ?ot = ZEND_JMPZNZ)"
      using inv by (auto simp: INV_EX_COND_EX_def INV_EX_COND_def split: if_splits)
    then have eq: "thread_ex (opcodes oa) i o1 T hits = (set_op2 o1 (?t + 1), hits)"
      using inv by (subst thread_ex.simps) (auto simp: Let_def)
    have "vm_run H (with_op oa i (set_op2 o1 (?t + 1))) pc s r \<longleftrightarrow> vm_run H (with_op oa i o1) pc s r"
    proof (rule retarget_value [OF c i o])
      fix o2 s r assume v: "truth s (op1 o1) = ?v"
      let ?s = "put s (result o1) ?v"
      have tr: "truth ?s (op1 (opcodes oa ! ?t)) = ?v" using onX [of s] inv ot v by simp
      show "vm_run H (with_op oa i o2) ?t ?s r \<longleftrightarrow> vm_run H (with_op oa i o2) (?t + 1) ?s r"
      proof (cases "opcode (opcodes oa ! ?t) \<in> value_jumps")
        case True
        then have "opcode (opcodes oa ! ?t) = INV_EX_COND_EX (opcode o1)"
          using inv ot by (auto simp: INV_EX_COND_def value_jumps_def split: if_splits)
        then show ?thesis
          using run_value_jump [OF c i _ ti True tr twice, of o2 r] inv ot o True
          by (auto simp: INV_EX_COND_EX_def value_jumps_def split: if_splits)
      next
        case False
        then have "opcode (opcodes oa ! ?t) = INV_EX_COND (opcode o1)"
          using inv ot by (auto simp: INV_EX_COND_EX_def value_jumps_def split: if_splits)
        then show ?thesis using run_cond_jump [OF c i _ ti _ tr, of o2 r] inv ot o
          by (auto simp: INV_EX_COND_def value_jumps_def split: if_splits)
      qed
    qed
    then show ?thesis by (simp add: eq)
  next
    case stop
    then have "thread_ex (opcodes oa) i o1 T hits = (o1, hits)"
      by (subst thread_ex.simps) (auto simp: Let_def)
    then show ?thesis by simp
  qed
qed

lemma thread_set_same:
  assumes "thread_set (opcodes oa) o1 = Some o2" and "i < last_op oa"
    and "opcode o1 \<in> {ZEND_JMP_SET, ZEND_JMP_SET_VAR}" and "opcode (opcodes oa ! i) \<noteq> ZEND_JMP"
  shows "opcode o2 = opcode o1 \<and> (vm_run H (with_op oa i o2) pc s r \<longleftrightarrow> vm_run H (with_op oa i o1) pc s r)"
proof -
  let ?P = "\<lambda>ops o1 o2. opcodes oa = ops \<longrightarrow> opcode o1 \<in> {ZEND_JMP_SET, ZEND_JMP_SET_VAR} \<longrightarrow>
      opcode o2 = opcode o1 \<and> (vm_run H (with_op oa i o2) pc s r \<longleftrightarrow> vm_run H (with_op oa i o1) pc s r)"
  have "?P (opcodes oa) o1 o2"
  proof (rule thread_set.raw_induct [of ?P, OF _ assms(1)])
    fix f and ops :: "zend_op list" and o1 o2 :: zend_op
    let ?t = "num (op2 o1)"
    let ?o3 = "set_op2 o1 (num (op1 (ops ! ?t)))"
    assume ih: "\<And>ops o1 o2. f ops o1 = Some o2 \<Longrightarrow> ?P ops o1 o2"
      and st: "(let t = ?t in if t < length ops
        then if opcode (ops ! t) = ZEND_JMP then f ops (set_op2 o1 (num (op1 (ops ! t)))) else Some o1
        else Some o1) = Some o2"
    show "?P ops o1 o2"
    proof (intro impI)
      assume e: "opcodes oa = ops" and o: "opcode o1 \<in> {ZEND_JMP_SET, ZEND_JMP_SET_VAR}"
      show "opcode o2 = opcode o1 \<and> (vm_run H (with_op oa i o2) pc s r \<longleftrightarrow> vm_run H (with_op oa i o1) pc s r)"
      proof (cases "?t < length ops \<and> opcode (ops ! ?t) = ZEND_JMP")
        case True
        have ti: "?t \<noteq> i" using True e assms(4) by auto
        have "f ops ?o3 = Some o2" using st True by (simp add: Let_def)
        from ih [OF this] e o
        have "opcode o2 = opcode o1 \<and> (vm_run H (with_op oa i o2) pc s r \<longleftrightarrow> vm_run H (with_op oa i ?o3) pc s r)"
          by auto
        moreover have "vm_run H (with_op oa i ?o3) pc s r \<longleftrightarrow> vm_run H (with_op oa i o1) pc s r"
          using retarget_op2 [OF assms(2), of o1 H pc s r] True ti e o by (auto simp: jumps_op2_def)
        ultimately show ?thesis by simp
      next
        case False
        then have "o2 = o1" using st by (auto simp: Let_def split: if_splits)
        then show ?thesis by simp
      qed
    qed
  qed
  then show ?thesis using assms(3) by auto
qed

section \<open>The whole pass\<close>

text \<open>Code to which only the jump rewrites of the pass apply, with the conditions on its
  value-keeping jumps; and, from \<open>i\<close> on, none of these that jumps to the next instruction has the
  number of its operand for that of its result (the pass takes it for the same variable and
  drops the instruction).\<close>

definition only_jumps :: "zend_op list \<Rightarrow> bool" where
  "only_jumps ops \<longleftrightarrow> (\<forall>o1 \<in> set ops. opcode o1 \<notin> binary_ops \<and> opcode o1 \<notin> {ZEND_POST_INC, ZEND_POST_DEC}
     \<and> (opcode o1 \<in> {ZEND_JMPZ, ZEND_JMPNZ} \<longrightarrow> apart_from_values ops o1)
     \<and> (opcode o1 \<in> value_jumps \<longrightarrow> same_results ops o1))"

definition keeps_results :: "zend_op list \<Rightarrow> nat \<Rightarrow> bool" where
  "keeps_results ops i \<longleftrightarrow> (\<forall>p < length ops. i \<le> p \<longrightarrow> opcode (ops ! p) \<in> value_jumps \<longrightarrow>
     num (op2 (ops ! p)) = p + 1 \<longrightarrow> num (op1 (ops ! p)) \<noteq> num (result (ops ! p)))"

lemma keeps_results_update: "keeps_results ops i \<Longrightarrow> keeps_results (ops[i := o1]) (Suc i)"
  by (simp add: keeps_results_def)

lemma only_jumps_update:
  assumes oj: "only_jumps ops" and i: "i < length ops"
    and o1: "opcode o1 = opcode (ops ! i) \<and> op1 o1 = op1 (ops ! i) \<and> result o1 = result (ops ! i)
      \<or> opcode o1 \<in> {ZEND_NOP, ZEND_BOOL, ZEND_JMP, ZEND_JMP_SET, ZEND_JMP_SET_VAR, ZEND_JMPZNZ}"
  shows "only_jumps (ops[i := o1])"
  unfolding only_jumps_def
proof
  let ?others = "{ZEND_NOP, ZEND_BOOL, ZEND_JMP, ZEND_JMP_SET, ZEND_JMP_SET_VAR, ZEND_JMPZNZ}"
  have old: "x = o1 \<or> x \<in> set ops" if "x \<in> set (ops[i := o1])" for x
    using that set_update_subset_insert [of ops i o1] by auto
  have like: "\<exists>y \<in> set ops. opcode y = opcode x \<and> op1 y = op1 x \<and> result y = result x"
    if "x \<in> set (ops[i := o1])" "opcode x \<notin> ?others" for x
    using old [OF that(1)] that(2) o1 i nth_mem [OF i] by auto
  fix x assume x: "x \<in> set (ops[i := o1])"
  show "opcode x \<notin> binary_ops \<and> opcode x \<notin> {ZEND_POST_INC, ZEND_POST_DEC}
     \<and> (opcode x \<in> {ZEND_JMPZ, ZEND_JMPNZ} \<longrightarrow> apart_from_values (ops[i := o1]) x)
     \<and> (opcode x \<in> value_jumps \<longrightarrow> same_results (ops[i := o1]) x)"
  proof (cases "opcode x \<in> ?others")
    case True
    then show ?thesis by (auto simp: binary_ops_def value_jumps_def)
  next
    case False
    then obtain y where y: "y \<in> set ops" "opcode y = opcode x" "op1 y = op1 x" "result y = result x"
      using like [OF x] by blast
    have vj: "\<exists>c \<in> set ops. opcode c = opcode b \<and> op1 c = op1 b \<and> result c = result b"
      if "b \<in> set (ops[i := o1])" "opcode b \<in> value_jumps" for b
      using that by (intro like) (auto simp: value_jumps_def)
    have Y: "opcode y \<notin> binary_ops \<and> opcode y \<notin> {ZEND_POST_INC, ZEND_POST_DEC}
       \<and> (opcode y \<in> {ZEND_JMPZ, ZEND_JMPNZ} \<longrightarrow> apart_from_values ops y)
       \<and> (opcode y \<in> value_jumps \<longrightarrow> same_results ops y)"
      using oj y(1) unfolding only_jumps_def by blast
    have "apart_from_values (ops[i := o1]) x" if "apart_from_values ops y"
      using that vj y(3) unfolding apart_from_values_def by metis
    moreover have "same_results (ops[i := o1]) x" if "same_results ops y"
      using that vj y(3,4) unfolding same_results_def by metis
    ultimately show ?thesis using Y y(2) by metis
  qed
qed

lemma thread_ex_op1: "op1 (fst (thread_ex ops i o1 T hits)) = op1 o1"
proof (induction ops i o1 T hits rule: thread_ex.induct)
  case (1 ops i o1 T hits)
  show ?case by (subst thread_ex.simps) (simp add: Let_def "1.IH")
qed

lemma thread_ex_result: "result (fst (thread_ex ops i o1 T hits)) = result o1"
proof (induction ops i o1 T hits rule: thread_ex.induct)
  case (1 ops i o1 T hits)
  show ?case by (subst thread_ex.simps) (simp add: Let_def "1.IH")
qed

lemma thread_ex_opcode: "opcode (fst (thread_ex ops i o1 T hits)) = opcode o1"
proof (induction ops i o1 T hits rule: thread_ex.induct)
  case (1 ops i o1 T hits)
  show ?case by (subst thread_ex.simps) (simp add: Let_def "1.IH")
qed

lemma with_op_nop:
  assumes "i < last_op oa" and "\<And>s. vm_step H oa i s = Go (Suc i) s"
  shows "vm_run H (with_op oa i (MAKE_NOP o1)) pc s r \<longleftrightarrow> vm_run H oa pc s r"
proof -
  have "vm_step H (with_op oa i (MAKE_NOP o1)) i s = Go (Suc i) s" for s
    using assms(1) by (intro vm_step_nop) (simp_all add: with_op_nth op_at_def MAKE_NOP_def)
  then have "vm_run H (with_op oa i (MAKE_NOP o1)) pc s r \<longleftrightarrow> vm_run H (with_op oa i (opcodes oa ! i)) pc s r"
    using assms by (intro retarget_same) simp
  then show ?thesis using assms(1) by simp
qed

lemma pass3_step_same:
  assumes vh: "value_handlers H truth put" and i: "i < last_op oa" and oj: "only_jumps (opcodes oa)"
    and kr: "keeps_results (opcodes oa) i" and st: "pass3_step fb (opcodes oa) i = Some (ops', j)"
  shows "j = Suc i \<and> length ops' = last_op oa \<and> only_jumps ops' \<and> keeps_results ops' (Suc i)
    \<and> (vm_run H (oa\<lparr>opcodes := ops'\<rparr>) pc s r \<longleftrightarrow> vm_run H oa pc s r)"
proof -
  let ?o = "opcodes oa ! i"
  have mem: "?o \<in> set (opcodes oa)" using i by simp
  have c: "cond_handlers H truth" using vh by (simp add: value_handlers_def)
  have no: "opcode ?o \<notin> binary_ops" "opcode ?o \<notin> {ZEND_POST_INC, ZEND_POST_DEC}"
    using oj mem by (simp_all add: only_jumps_def)
  have same: ?thesis
    if "ops' = (opcodes oa)[i := o2]" "j = Suc i"
      "opcode o2 = opcode ?o \<and> op1 o2 = op1 ?o \<and> result o2 = result ?o
        \<or> opcode o2 \<in> {ZEND_NOP, ZEND_BOOL, ZEND_JMP, ZEND_JMP_SET, ZEND_JMP_SET_VAR, ZEND_JMPZNZ}"
      "vm_run H (with_op oa i o2) pc s r \<longleftrightarrow> vm_run H oa pc s r" for o2
    using that only_jumps_update [OF oj i that(3)] keeps_results_update [OF kr] by (simp add: with_op_def)
  have keep: ?thesis if "ops' = opcodes oa" "j = Suc i"
    using that oj kr by (simp add: keeps_results_def)
  consider (jmp) "opcode ?o = ZEND_JMP" | (set) "opcode ?o \<in> {ZEND_JMP_SET, ZEND_JMP_SET_VAR}"
    | (cond) "opcode ?o \<in> {ZEND_JMPZ, ZEND_JMPNZ}" | (znz) "opcode ?o = ZEND_JMPZNZ" | (ex) "opcode ?o \<in> value_jumps"
    | (other) "opcode ?o \<notin> {ZEND_JMP, ZEND_JMP_SET, ZEND_JMP_SET_VAR, ZEND_JMPZ, ZEND_JMPNZ, ZEND_JMPZNZ} \<union> value_jumps" by blast
  then show ?thesis
  proof cases
    case jmp
    then have e: "ops' = (if fb then opcodes oa else if num (op1 ?o) = i + 1 then (opcodes oa)[i := MAKE_NOP ?o]
        else (opcodes oa)[i := fst (thread_jmp (opcodes oa) i ?o [])])" "j = Suc i"
      using st no by (auto simp: pass3_step_def Let_def)
    have n: "num (op1 ?o) = Suc i \<Longrightarrow> vm_step H oa i s = Go (Suc i) s" for s
      using vm_step_jmp [OF i jmp, of H s] by simp
    consider "fb" | "\<not> fb" "num (op1 ?o) = i + 1" | "\<not> fb" "num (op1 ?o) \<noteq> i + 1" by blast
    then show ?thesis
    proof cases
      case 1
      then show ?thesis using keep e by simp
    next
      case 2
      then show ?thesis using e with_op_nop [OF i n] by (intro same [of "MAKE_NOP ?o"]) (simp_all add: MAKE_NOP_def)
    next
      case 3
      then show ?thesis using e thread_jmp_same [OF i jmp, of H "[]" pc s r] i jmp
        by (intro same [of "fst (thread_jmp (opcodes oa) i ?o [])"]) (simp_all add: thread_jmp_opcode)
    qed
  next
    case set
    show ?thesis
    proof (cases fb)
      case True
      then show ?thesis using set st no keep by (auto simp: pass3_step_def Let_def binary_ops_def)
    next
      case False
      then obtain o2 where o2: "thread_set (opcodes oa) ?o = Some o2" "ops' = (opcodes oa)[i := o2]" "j = Suc i"
        using set st no by (auto simp: pass3_step_def Let_def)
      then show ?thesis using thread_set_same [OF o2(1) i set, of H pc s r] set i
        by (intro same [of o2]) auto
    qed
  next
    case cond
    then have e: "ops' = (if fb then opcodes oa else if num (op2 ?o) = i + 1 then (opcodes oa)[i := MAKE_NOP ?o]
        else (opcodes oa)[i := fst (thread_jmpz (opcodes oa) i ?o [])])" "j = Suc i"
      using st no by (auto simp: pass3_step_def Let_def)
    have n: "num (op2 ?o) = Suc i \<Longrightarrow> vm_step H oa i s = Go (Suc i) s" for s
      using cond_step [OF c i cond, of s] by simp
    consider "fb" | "\<not> fb" "num (op2 ?o) = i + 1" | "\<not> fb" "num (op2 ?o) \<noteq> i + 1" by blast
    then show ?thesis
    proof cases
      case 1
      then show ?thesis using keep e by simp
    next
      case 2
      then show ?thesis using e with_op_nop [OF i n] by (intro same [of "MAKE_NOP ?o"]) (simp_all add: MAKE_NOP_def)
    next
      case 3
      have "apart_from_values (opcodes oa) ?o" using oj mem cond by (auto simp: only_jumps_def)
      then show ?thesis using e 3 thread_jmpz_same [OF c i cond, of "[]"] i
        by (intro same [of "fst (thread_jmpz (opcodes oa) i ?o [])"]) simp_all
    qed
  next
    case znz
    let ?r = "thread_znz2 (opcodes oa) i ?o []"
    let ?o2 = "fst (thread_znz3 (opcodes oa) i (fst ?r) (snd ?r))"
    have e: "ops' = (if fb then opcodes oa else (opcodes oa)[i := ?o2])" "j = Suc i"
      using st no znz by (auto simp: pass3_step_def Let_def binary_ops_def)
    have oc: "opcode (fst ?r) = ZEND_JMPZNZ" using znz by (simp add: thread_znz2_opcode)
    show ?thesis
    proof (cases fb)
      case True
      then show ?thesis using keep e by simp
    next
      case False
      have "vm_run H (with_op oa i ?o2) pc s r \<longleftrightarrow> vm_run H oa pc s r"
        using thread_znz3_same [OF i oc, of H "snd ?r" pc s r] thread_znz2_same [OF i znz, of H "[]" pc s r] i by simp
      then show ?thesis using False e znz by (intro same [of ?o2]) (simp_all add: thread_znz3_opcode oc)
    qed
  next
    case ex
    let ?b = "?o\<lparr>opcode := ZEND_BOOL, op2 := SET_UNUSED (op2 ?o)\<rparr>"
    let ?t = "fst (thread_ex (opcodes oa) i ?o (result ?o) [])"
    have e: "ops' = (if fb then opcodes oa
        else if num (op2 ?o) = i + 1 then (if num (op1 ?o) = num (result ?o) then (opcodes oa)[i := MAKE_NOP ?o] else (opcodes oa)[i := ?b])
        else (opcodes oa)[i := ?t])" "j = Suc i"
      using st no ex by (auto simp: pass3_step_def Let_def value_jumps_def)
    consider "fb" | "\<not> fb" "num (op2 ?o) = i + 1" | "\<not> fb" "num (op2 ?o) \<noteq> i + 1" by blast
    then show ?thesis
    proof cases
      case 1
      then show ?thesis using keep e by simp
    next
      case 2
      have n: "num (op1 ?o) \<noteq> num (result ?o)" using kr i ex 2 by (simp add: keeps_results_def)
      have "H (blank ?b) s = (put s (result ?o) (truth s (op1 ?o)), Next)" for s
        using vh unfolding value_handlers_def by simp
      then have b: "vm_step H (with_op oa i ?b) i s = vm_step H (with_op oa i ?o) i s" for s
        using value_step [OF vh i ex, of s] i 2 by (simp add: vm_step_def [of H "with_op oa i ?b"] with_op_nth op_at_def resume_def Let_def)
      have "vm_run H (with_op oa i ?b) pc s r \<longleftrightarrow> vm_run H oa pc s r"
        using retarget_same [of H oa i ?b ?o pc s r] b i by simp
      then show ?thesis using e 2 n by (intro same [of ?b]) simp_all
    next
      case 3
      have sr: "same_results (opcodes oa) ?o" using oj mem ex by (auto simp: only_jumps_def)
      have "vm_run H (with_op oa i ?t) pc s r \<longleftrightarrow> vm_run H oa pc s r"
        using thread_ex_same [OF vh i ex sr, of "result ?o" "[]" pc s r] i by simp
      then show ?thesis using e 3 by (intro same [of ?t]) (simp_all add: thread_ex_op1 thread_ex_result thread_ex_opcode)
    qed
  next
    case other
    then show ?thesis using st no keep by (auto simp: pass3_step_def Let_def value_jumps_def)
  qed
qed

lemma pass3_loop_same:
  assumes "value_handlers H truth put" "only_jumps (opcodes oa)" "keeps_results (opcodes oa) i"
    "pass3_loop fb (opcodes oa) i = Some ops'"
  shows "vm_run H (oa\<lparr>opcodes := ops'\<rparr>) pc s r \<longleftrightarrow> vm_run H oa pc s r"
  using assms(2-4)
proof (induction "last_op oa - i" arbitrary: oa i)
  case 0
  have "pass3_loop fb (opcodes oa) i = Some (opcodes oa)" using 0(1) by (subst pass3_loop.simps) simp
  then show ?case using 0(4) by simp
next
  case (Suc n)
  then have i: "i < last_op oa" by simp
  obtain ops1 j where st: "pass3_step fb (opcodes oa) i = Some (ops1, j)" "pass3_loop fb ops1 j = Some ops'"
    using Suc.prems(3) i by (subst (asm) pass3_loop.simps) (auto split: option.splits)
  note S = pass3_step_same [OF assms(1) i Suc.prems(1,2) st(1), of pc s r]
  have "vm_run H ((oa\<lparr>opcodes := ops1\<rparr>)\<lparr>opcodes := ops'\<rparr>) pc s r \<longleftrightarrow> vm_run H (oa\<lparr>opcodes := ops1\<rparr>) pc s r"
    using S st(2) Suc.hyps(2) i by (intro Suc.hyps(1) [of _ "Suc i"]) auto
  then show ?case using S by simp
qed

text \<open>The pass ends unless a JMP_SET leads into a cycle of JMPs.\<close>

definition no_jmp_set :: "zend_op list \<Rightarrow> bool" where
  "no_jmp_set ops \<longleftrightarrow> (\<forall>o1 \<in> set ops. opcode o1 \<noteq> ZEND_JMP_SET \<and> opcode o1 \<noteq> ZEND_JMP_SET_VAR)"

lemma no_jmp_set_update:
  "no_jmp_set ops \<Longrightarrow> opcode o1 \<noteq> ZEND_JMP_SET \<Longrightarrow> opcode o1 \<noteq> ZEND_JMP_SET_VAR \<Longrightarrow> no_jmp_set (ops[i := o1])"
  unfolding no_jmp_set_def using set_update_subset_insert [of ops i o1] by auto

lemma thread_jmpz_opcode:
  "Q (opcode o1) \<Longrightarrow> Q (opcode o1 + 3) \<Longrightarrow> Q (opcode (fst (thread_jmpz ops i o1 hits)))"
proof (induction ops i o1 hits rule: thread_jmpz.induct)
  case (1 ops i o1 hits)
  have q: "n = opcode o1 \<Longrightarrow> Q n" "n = opcode o1 + 3 \<Longrightarrow> Q n" for n using "1.prems" by simp_all
  show ?case
    by (subst thread_jmpz.simps) (simp add: Let_def "1.IH" "1.prems" q)
qed

lemma assign_op_range: "assign_op oc \<noteq> ZEND_JMP_SET" "assign_op oc \<noteq> ZEND_JMP_SET_VAR"
  by (simp_all add: assign_op_def)

lemma commute_opcode [simp]: "opcode (commute o1 nx) = opcode o1"
  by (simp add: commute_def)

lemma MAKE_NOP_opcode [simp]: "opcode (MAKE_NOP o1) = ZEND_NOP"
  by (simp add: MAKE_NOP_def)

lemma pass3_step_total:
  assumes i: "i < length ops" and ns: "no_jmp_set ops"
  shows "\<exists>ops' j. pass3_step fb ops i = Some (ops', j) \<and> i < j \<and> length ops' = length ops \<and> no_jmp_set ops'"
proof -
  let ?o = "ops ! i"
  have no: "opcode ?o \<noteq> ZEND_JMP_SET" "opcode ?o \<noteq> ZEND_JMP_SET_VAR" using i ns by (simp_all add: no_jmp_set_def)
  note upd = no_jmp_set_update [OF ns]
  have upd2: "no_jmp_set (ops[p := a, q := b])" if "opcode a \<noteq> ZEND_JMP_SET" "opcode a \<noteq> ZEND_JMP_SET_VAR"
    "opcode b \<noteq> ZEND_JMP_SET" "opcode b \<noteq> ZEND_JMP_SET_VAR" for p q a b
    using that by (intro no_jmp_set_update ns)
  have fuse: "i < snd (fuse_assign ops i) \<and> length (fst (fuse_assign ops i)) = length ops \<and> no_jmp_set (fst (fuse_assign ops i))"
    using no ns by (simp add: fuse_assign_def Let_def upd upd2 assign_op_range)
  have post: "length (post_to_pre ops i) = length ops \<and> no_jmp_set (post_to_pre ops i)"
    using ns by (simp add: post_to_pre_def Let_def upd2)
  have jz: "opcode (fst (thread_jmpz ops i ?o [])) \<in> {ZEND_JMPZ, ZEND_JMPNZ, ZEND_JMPZ_EX, ZEND_JMPNZ_EX}"
    if "opcode ?o \<in> {ZEND_JMPZ, ZEND_JMPNZ}"
    by (rule thread_jmpz_opcode [of "\<lambda>n. n \<in> {ZEND_JMPZ, ZEND_JMPNZ, ZEND_JMPZ_EX, ZEND_JMPNZ_EX}"])
      (use that in auto)
  consider "opcode ?o \<in> binary_ops" | "opcode ?o = ZEND_JMP" | "opcode ?o \<in> {ZEND_JMPZ, ZEND_JMPNZ}"
    | "opcode ?o \<in> {ZEND_JMPZ_EX, ZEND_JMPNZ_EX}" | "opcode ?o = ZEND_JMPZNZ" | "opcode ?o \<in> {ZEND_POST_INC, ZEND_POST_DEC}"
    | "opcode ?o \<notin> binary_ops \<union> {ZEND_JMP, ZEND_JMPZ, ZEND_JMPNZ, ZEND_JMPZ_EX, ZEND_JMPNZ_EX, ZEND_JMPZNZ, ZEND_POST_INC, ZEND_POST_DEC}"
    by blast
  then show ?thesis
  proof cases
    case 1
    then show ?thesis using fuse by (intro exI [of _ "fst (fuse_assign ops i)"] exI [of _ "snd (fuse_assign ops i)"])
        (simp add: pass3_step_def Let_def)
  next
    case 2
    then show ?thesis using ns by (simp add: pass3_step_def Let_def binary_ops_def upd thread_jmp_opcode)
  next
    case 3
    then have "opcode (fst (thread_jmpz ops i ?o [])) \<noteq> ZEND_JMP_SET"
      "opcode (fst (thread_jmpz ops i ?o [])) \<noteq> ZEND_JMP_SET_VAR" using jz by auto
    note u = upd [OF this]
    have "pass3_step fb ops i = Some (if fb then ops else if num (op2 ?o) = i + 1 then ops[i := MAKE_NOP ?o]
        else ops[i := fst (thread_jmpz ops i ?o [])], Suc i)"
      using 3 by (auto simp: pass3_step_def Let_def binary_ops_def)
    then show ?thesis using ns u by (simp add: upd)
  next
    case 4
    then have "opcode ?o \<noteq> ZEND_JMP_SET" "opcode ?o \<noteq> ZEND_JMP_SET_VAR" by auto
    then have u: "no_jmp_set (ops[i := fst (thread_ex ops i ?o (result ?o) [])])"
      by (intro upd) (simp_all add: thread_ex_opcode)
    have "pass3_step fb ops i = Some (if fb then ops else if num (op2 ?o) = i + 1
        then (if num (op1 ?o) = num (result ?o) then ops[i := MAKE_NOP ?o]
              else ops[i := ?o\<lparr>opcode := ZEND_BOOL, op2 := SET_UNUSED (op2 ?o)\<rparr>])
        else ops[i := fst (thread_ex ops i ?o (result ?o) [])], Suc i)"
      using 4 by (auto simp: pass3_step_def Let_def binary_ops_def)
    then show ?thesis using ns u by (simp add: upd)
  next
    case 5
    then show ?thesis using ns
      by (simp add: pass3_step_def Let_def binary_ops_def upd thread_znz2_opcode thread_znz3_opcode)
  next
    case 6
    then have "pass3_step fb ops i = Some (post_to_pre ops i, Suc i)"
      by (elim insertE) (simp_all add: pass3_step_def Let_def binary_ops_def)
    then show ?thesis using post by simp
  next
    case 7
    then show ?thesis using ns no by (simp add: pass3_step_def Let_def)
  qed
qed

lemma pass3_loop_total:
  assumes "no_jmp_set ops"
  shows "\<exists>ops'. pass3_loop fb ops i = Some ops' \<and> length ops' = length ops"
  using assms
proof (induction "length ops - i" arbitrary: ops i rule: less_induct)
  case less
  show ?case
  proof (cases "i < length ops")
    case True
    obtain ops1 j where st: "pass3_step fb ops i = Some (ops1, j)" "i < j" "length ops1 = length ops" "no_jmp_set ops1"
      using pass3_step_total [OF True less.prems] by blast
    have "\<exists>ops'. pass3_loop fb ops1 j = Some ops' \<and> length ops' = length ops1"
      using st True by (intro less.hyps) auto
    then show ?thesis using st True by (subst pass3_loop.simps) simp
  next
    case False
    then show ?thesis by (subst pass3_loop.simps) simp
  qed
qed

section \<open>Properties\<close>

text \<open>C9. Pass 3 always ends on code without JMP_SET and JMP_SET_VAR, whatever cycles its jumps
  form, and keeps the number of instructions.\<close>

theorem pass3_terminates:
  assumes "no_jmp_set (opcodes oa)"
  shows "\<exists>oa'. pass3 oa = Some oa' \<and> last_op oa' = last_op oa"
  using pass3_loop_total [OF assms, of "has_finally_block oa" 0] by (auto simp: pass3_def)

text \<open>\<open>0: JMPZ 2; 1: ECHO; 2: JMP 3; 3: JMP 2\<close>, a cycle\<close>

definition demo_cycle :: "nat zend_op_array" where
  "demo_cycle = code_of [(plain ZEND_JMPZ)\<lparr>op2 := node IS_UNUSED 2\<rparr>, plain ZEND_ECHO,
     (plain ZEND_JMP)\<lparr>op1 := node IS_UNUSED 3\<rparr>, (plain ZEND_JMP)\<lparr>op1 := node IS_UNUSED 2\<rparr>] []"

lemma pass3_terminates_witness:
  "no_jmp_set (opcodes demo_cycle) \<and> (\<exists>oa'. pass3 demo_cycle = Some oa' \<and> last_op oa' = 4)"
proof -
  have "no_jmp_set (opcodes demo_cycle)"
    by (simp add: no_jmp_set_def demo_cycle_def code_of_def plain_def)
  moreover have "last_op demo_cycle = 4" by (simp add: demo_cycle_def code_of_def)
  ultimately show ?thesis using pass3_terminates [of demo_cycle] by simp
qed

text \<open>C10. The list of visited targets never outgrows its array: each of the jump loops, started
  at an instruction of the kind it is used for, records at most \<open>op_array->last\<close> targets.\<close>

theorem jmp_hitlist_bounded:
  assumes i: "i < length ops" and o: "o1 = ops ! i"
  shows "(opcode o1 = ZEND_JMP \<longrightarrow> length (snd (thread_jmp ops i o1 [])) \<le> length ops)
    \<and> (opcode o1 \<in> {ZEND_JMPZ, ZEND_JMPNZ} \<longrightarrow> length (snd (thread_jmpz ops i o1 [])) \<le> length ops)
    \<and> (opcode o1 \<in> {ZEND_JMPZ_EX, ZEND_JMPNZ_EX} \<longrightarrow> length (snd (thread_ex ops i o1 (result o1) [])) \<le> length ops)
    \<and> (opcode o1 = ZEND_JMPZNZ \<longrightarrow>
        (let r = thread_znz2 ops i o1 [] in length (snd (thread_znz3 ops i (fst r) (snd r))) \<le> length ops))"
proof -
  have ok: "hits_ok ops i []" by (simp add: hits_ok_def)
  have le: "length hits \<le> length ops" if "hits_ok ops i hits" for hits
    using that hits_bound [OF _ _ i] by (simp add: hits_ok_def)
  have "opcode o1 = ZEND_JMPZNZ \<Longrightarrow>
      hits_ok ops i (snd (thread_znz3 ops i (fst (thread_znz2 ops i o1 [])) (snd (thread_znz2 ops i o1 []))))"
    by (intro thread_znz3_hits thread_znz2_hits ok) (simp_all add: thread_znz2_opcode)
  then show ?thesis
    using le thread_jmp_hits [OF ok, of o1] thread_jmpz_hits [OF ok, of o1] thread_ex_hits [OF ok, of o1 "result o1"]
    by (auto simp: Let_def)
qed

lemma jmp_hitlist_bounded_witness:
  "length (snd (thread_jmpz (opcodes demo_cycle) 0 (opcodes demo_cycle ! 0) [])) \<le> 4
   \<and> length (snd (thread_jmp (opcodes demo_cycle) 2 (opcodes demo_cycle ! 2) [])) \<le> 4"
proof -
  have l: "length (opcodes demo_cycle) = 4" by (simp add: demo_cycle_def code_of_def)
  have "opcode (opcodes demo_cycle ! 0) = ZEND_JMPZ" "opcode (opcodes demo_cycle ! 2) = ZEND_JMP"
    by (simp_all add: demo_cycle_def code_of_def plain_def)
  then show ?thesis
    using jmp_hitlist_bounded [of 0 "opcodes demo_cycle" "opcodes demo_cycle ! 0"]
      jmp_hitlist_bounded [of 2 "opcodes demo_cycle" "opcodes demo_cycle ! 2"] l by simp
qed

text \<open>C11. The jump rewrites of pass 3 keep the behaviour: on code without the instructions of
  its other rewrites (binary operations, increments whose value is used) the code after the pass
  ends as the code before it, from every state. Conditions: no JMPZ or JMPNZ tests a temporary
  or variable that a JMPZ_EX or JMPNZ_EX tests; those of the latter that test the same one, or
  the result of another, have the same result; and one that jumps to the next instruction has
  not the number of its operand for that of its result. The handlers of JMPZ, JMPNZ and JMPZNZ
  only look at the truth of a variable, those of JMPZ_EX, JMPNZ_EX and BOOL also put it into the
  result.\<close>

theorem pass3_jumps_correct:
  assumes "value_handlers H truth put" and "only_jumps (opcodes oa)" and "keeps_results (opcodes oa) 0"
    and "pass3 oa = Some oa'"
  shows "same_behaviour H oa oa'"
  using assms(4) pass3_loop_same [OF assms(1-3)] by (auto simp: pass3_def same_behaviour_def)

text \<open>States: the truth of every variable.\<close>

type_synonym demo_vars = "op_type \<times> nat \<Rightarrow> bool"

definition demo_truth :: "demo_vars \<Rightarrow> znode \<Rightarrow> bool" where
  "demo_truth s z = s (op_ty z, num z)"

definition demo_put :: "demo_vars \<Rightarrow> znode \<Rightarrow> bool \<Rightarrow> demo_vars" where
  "demo_put s T v = s((op_ty T, num T) := v)"

definition demo_cond :: "demo_vars handlers" where
  "demo_cond o1 s =
     (let oc = opcode o1; t = demo_truth s (op1 o1); s1 = demo_put s (result o1) t in
      if oc = ZEND_JMPZ then (s, if t then Next else To_Op2) else if oc = ZEND_JMPNZ then (s, if t then To_Op2 else Next)
      else if oc = ZEND_JMPZNZ then (s, if t then To_Ext else To_Op2)
      else if oc = ZEND_JMPZ_EX then (s1, if t then Next else To_Op2)
      else if oc = ZEND_JMPNZ_EX then (s1, if t then To_Op2 else Next)
      else if oc = ZEND_BOOL then (s1, Next) else if oc = ZEND_RETURN then (s, Leave) else (s, Next))"

text \<open>\<open>0: JMPZ T0, 2; 1: T1 = JMPZ_EX(T2, 3); 2: JMPNZ T0, 1; 3: JMPZ T1, 5; 4: ECHO; 5: RETURN\<close>\<close>

definition demo_jumps :: "nat zend_op_array" where
  "demo_jumps = code_of [(plain ZEND_JMPZ)\<lparr>op1 := node IS_TMP_VAR 0, op2 := node IS_UNUSED 2\<rparr>,
     (plain ZEND_JMPZ_EX)\<lparr>op1 := node IS_TMP_VAR 2, op2 := node IS_UNUSED 3, result := node IS_TMP_VAR 1\<rparr>,
     (plain ZEND_JMPNZ)\<lparr>op1 := node IS_TMP_VAR 0, op2 := node IS_UNUSED 1\<rparr>,
     (plain ZEND_JMPZ)\<lparr>op1 := node IS_TMP_VAR 1, op2 := node IS_UNUSED 5\<rparr>, plain ZEND_ECHO, plain ZEND_RETURN] []"

lemma pass3_jumps_correct_witness:
  "\<exists>oa'. pass3 demo_jumps = Some oa' \<and> same_behaviour demo_cond demo_jumps oa'
     \<and> num (op2 (opcodes oa' ! 0)) = 3 \<and> num (op2 (opcodes oa' ! 1)) = 5"
proof -
  note defs = demo_jumps_def code_of_def plain_def node_def unused_node_def
  have c: "value_handlers demo_cond demo_truth demo_put"
    by (auto simp: value_handlers_def cond_handlers_def demo_cond_def demo_truth_def demo_put_def blank_def jumps_op1_def
        links_result_def SAME_VAR_def Let_def)
  have o: "only_jumps (opcodes demo_jumps)"
    by (simp add: only_jumps_def binary_ops_def apart_from_values_def same_results_def value_jumps_def SAME_VAR_def defs)
  have k: "keeps_results (opcodes demo_jumps) 0"
    by (simp add: keeps_results_def value_jumps_def defs less_Suc_eq)
  have "\<exists>oa'. pass3 demo_jumps = Some oa' \<and> num (op2 (opcodes oa' ! 0)) = 3 \<and> num (op2 (opcodes oa' ! 1)) = 5"
    by (simp add: pass3_def defs pass3_loop.simps pass3_step_def binary_ops_def thread_jmpz.simps thread_ex.simps op_at_def
        SAME_VAR_def SAME_OPCODE_EX_def INV_COND_def INV_COND_EX_def INV_EX_COND_def INV_EX_COND_EX_def set_op2_def Let_def)
  then obtain oa' where p: "pass3 demo_jumps = Some oa'" "num (op2 (opcodes oa' ! 0)) = 3" "num (op2 (opcodes oa' ! 1)) = 5"
    by blast
  show ?thesis using pass3_jumps_correct [OF c o k p(1)] p by blast
qed

section \<open>JMP_SET and cycles of JMPs\<close>

text \<open>Where \<open>n\<close> JMPs lead from \<open>t\<close>.\<close>

definition jmp_chain :: "zend_op list \<Rightarrow> nat \<Rightarrow> nat \<Rightarrow> nat" where
  "jmp_chain ops t n = ((\<lambda>t. num (op1 (ops ! t))) ^^ n) t"

definition jmp_at :: "zend_op list \<Rightarrow> nat \<Rightarrow> bool" where
  "jmp_at ops t \<longleftrightarrow> t < length ops \<and> opcode (ops ! t) = ZEND_JMP"

lemma jmp_chain_simps: "jmp_chain ops t 0 = t" "jmp_chain ops t (Suc n) = jmp_chain ops (num (op1 (ops ! t))) n"
  by (simp_all add: jmp_chain_def funpow_Suc_right del: funpow.simps(2))

lemma thread_set_some:
  assumes "\<And>j. j < k \<Longrightarrow> jmp_at ops (jmp_chain ops (num (op2 o1)) j)" "\<not> jmp_at ops (jmp_chain ops (num (op2 o1)) k)"
  shows "thread_set ops o1 = Some (set_op2 o1 (jmp_chain ops (num (op2 o1)) k))"
  using assms
proof (induction k arbitrary: o1)
  case 0
  then show ?case by (subst thread_set.simps) (auto simp: jmp_at_def jmp_chain_simps set_op2_def Let_def)
next
  case (Suc k)
  let ?o = "set_op2 o1 (num (op1 (ops ! num (op2 o1))))"
  have "jmp_at ops (num (op2 o1))" using Suc.prems(1) [of 0] by (simp add: jmp_chain_simps)
  then have "thread_set ops o1 = thread_set ops ?o" by (subst thread_set.simps) (simp add: jmp_at_def Let_def)
  also have "\<dots> = Some (set_op2 ?o (jmp_chain ops (num (op2 ?o)) k))"
  proof (rule Suc.IH)
    show "jmp_at ops (jmp_chain ops (num (op2 ?o)) j)" if "j < k" for j
      using Suc.prems(1) [of "Suc j"] that by (simp add: jmp_chain_simps)
    show "\<not> jmp_at ops (jmp_chain ops (num (op2 ?o)) k)" using Suc.prems(2) by (simp add: jmp_chain_simps)
  qed
  also have "\<dots> = Some (set_op2 o1 (jmp_chain ops (num (op2 o1)) (Suc k)))"
    by (simp add: jmp_chain_simps set_op2_def)
  finally show ?case .
qed

lemma thread_set_leaves:
  assumes "thread_set ops o1 = Some o2"
  shows "\<exists>n. \<not> jmp_at ops (jmp_chain ops (num (op2 o1)) n)"
proof (rule thread_set.raw_induct [of "\<lambda>ops o1 o2. \<exists>n. \<not> jmp_at ops (jmp_chain ops (num (op2 o1)) n)", OF _ assms])
  fix f and ops :: "zend_op list" and o1 o2 :: zend_op
  let ?t = "num (op2 o1)"
  assume ih: "\<And>ops o1 o2. f ops o1 = Some o2 \<Longrightarrow> \<exists>n. \<not> jmp_at ops (jmp_chain ops (num (op2 o1)) n)"
    and st: "(let t = ?t in if t < length ops
      then if opcode (ops ! t) = ZEND_JMP then f ops (set_op2 o1 (num (op1 (ops ! t)))) else Some o1
      else Some o1) = Some o2"
  show "\<exists>n. \<not> jmp_at ops (jmp_chain ops ?t n)"
  proof (cases "jmp_at ops ?t")
    case True
    then have "f ops (set_op2 o1 (num (op1 (ops ! ?t)))) = Some o2" using st by (simp add: jmp_at_def Let_def)
    from ih [OF this] obtain n where "\<not> jmp_at ops (jmp_chain ops ?t (Suc n))" by (auto simp: jmp_chain_simps)
    then show ?thesis ..
  next
    case False
    then have "\<not> jmp_at ops (jmp_chain ops ?t 0)" by (simp add: jmp_chain_simps)
    then show ?thesis ..
  qed
qed

text \<open>C12. What pass 3 does at a JMP_SET or JMP_SET_VAR. The loop that follows the JMPs from its
  target has no list of visited targets: where the JMPs form a cycle, the pass never returns; in
  every other case the instruction gets the first place that is no JMP for its target, and the
  pass goes on.\<close>

theorem pass3_jmp_set_diverges:
  assumes "i < length ops" and "opcode (ops ! i) \<in> {ZEND_JMP_SET, ZEND_JMP_SET_VAR}" and "t = num (op2 (ops ! i))"
  shows "((\<forall>n. jmp_at ops (jmp_chain ops t n)) \<longrightarrow> pass3_loop False ops i = None)
    \<and> (\<forall>k. (\<forall>j < k. jmp_at ops (jmp_chain ops t j)) \<and> \<not> jmp_at ops (jmp_chain ops t k) \<longrightarrow>
        pass3_loop False ops i = pass3_loop False (ops[i := set_op2 (ops ! i) (jmp_chain ops t k)]) (Suc i))"
proof -
  have st: "pass3_step False ops i = map_option (\<lambda>o2. (ops[i := o2], Suc i)) (thread_set ops (ops ! i))"
    using assms(2) by (auto simp: pass3_step_def binary_ops_def Let_def)
  have none: "thread_set ops (ops ! i) = None" if "\<forall>n. jmp_at ops (jmp_chain ops t n)"
    using that thread_set_leaves [of ops "ops ! i"] assms(3) by (cases "thread_set ops (ops ! i)") blast+
  show ?thesis
  proof (intro conjI allI impI)
    show "pass3_loop False ops i = None" if "\<forall>n. jmp_at ops (jmp_chain ops t n)"
      using none [OF that] st assms(1) by (subst pass3_loop.simps) simp
    fix k assume "(\<forall>j < k. jmp_at ops (jmp_chain ops t j)) \<and> \<not> jmp_at ops (jmp_chain ops t k)"
    then have "thread_set ops (ops ! i) = Some (set_op2 (ops ! i) (jmp_chain ops t k))"
      unfolding assms(3) by (intro thread_set_some) blast+
    then show "pass3_loop False ops i = pass3_loop False (ops[i := set_op2 (ops ! i) (jmp_chain ops t k)]) (Suc i)"
      using st assms(1) by (subst pass3_loop.simps) simp
  qed
qed

text \<open>\<open>0: JMP_SET 2; 1: RETURN; 2: JMP 3; 3: JMP 2\<close>, and the same with \<open>3: JMP 1\<close>\<close>

lemma pass3_jmp_set_diverges_witness:
  "pass3_loop False [(plain ZEND_JMP_SET)\<lparr>op2 := node IS_UNUSED 2\<rparr>, plain ZEND_RETURN,
     (plain ZEND_JMP)\<lparr>op1 := node IS_UNUSED 3\<rparr>, (plain ZEND_JMP)\<lparr>op1 := node IS_UNUSED 2\<rparr>] 0 = None
   \<and> (let ops = [(plain ZEND_JMP_SET)\<lparr>op2 := node IS_UNUSED 2\<rparr>, plain ZEND_RETURN,
     (plain ZEND_JMP)\<lparr>op1 := node IS_UNUSED 3\<rparr>, (plain ZEND_JMP)\<lparr>op1 := node IS_UNUSED 1\<rparr>]
      in pass3_loop False ops 0 = pass3_loop False (ops[0 := (plain ZEND_JMP_SET)\<lparr>op2 := node IS_UNUSED 1\<rparr>]) 1)"
proof -
  note defs = plain_def node_def unused_node_def
  define A where "A = [(plain ZEND_JMP_SET)\<lparr>op2 := node IS_UNUSED 2\<rparr>, plain ZEND_RETURN,
     (plain ZEND_JMP)\<lparr>op1 := node IS_UNUSED 3\<rparr>, (plain ZEND_JMP)\<lparr>op1 := node IS_UNUSED 2\<rparr>]"
  define B where "B = [(plain ZEND_JMP_SET)\<lparr>op2 := node IS_UNUSED 2\<rparr>, plain ZEND_RETURN,
     (plain ZEND_JMP)\<lparr>op1 := node IS_UNUSED 3\<rparr>, (plain ZEND_JMP)\<lparr>op1 := node IS_UNUSED 1\<rparr>]"
  have "jmp_chain A 2 n \<in> {2, 3} \<and> jmp_chain A 3 n \<in> {2, 3}" for n
    by (induction n) (auto simp: jmp_chain_simps A_def defs)
  moreover have "jmp_at A p" if "p \<in> {2, 3}" for p using that by (auto simp: jmp_at_def A_def defs)
  ultimately have cyc: "jmp_at A (jmp_chain A 2 n)" for n by blast
  have "0 < length A" "opcode (A ! 0) \<in> {ZEND_JMP_SET, ZEND_JMP_SET_VAR}" "2 = num (op2 (A ! 0))" by (simp_all add: A_def defs)
  from pass3_jmp_set_diverges [OF this] cyc have 1: "pass3_loop False A 0 = None" by blast
  have B: "0 < length B" "opcode (B ! 0) \<in> {ZEND_JMP_SET, ZEND_JMP_SET_VAR}" "2 = num (op2 (B ! 0))" by (simp_all add: B_def defs)
  have ch: "jmp_chain B 2 0 = 2" "jmp_chain B 2 (Suc 0) = 3" "jmp_chain B 2 2 = 1"
    by (simp_all add: jmp_chain_simps B_def defs numeral_2_eq_2)
  then have "(\<forall>j < 2. jmp_at B (jmp_chain B 2 j)) \<and> \<not> jmp_at B (jmp_chain B 2 2)"
    by (auto simp: less_Suc_eq numeral_2_eq_2 jmp_at_def B_def defs)
  with pass3_jmp_set_diverges [OF B]
  have "pass3_loop False B 0 = pass3_loop False (B[0 := set_op2 (B ! 0) (jmp_chain B 2 2)]) (Suc 0)" by blast
  moreover have "set_op2 (B ! 0) (jmp_chain B 2 2) = (plain ZEND_JMP_SET)\<lparr>op2 := node IS_UNUSED 1\<rparr>"
    by (simp add: ch) (simp add: B_def defs set_op2_def)
  ultimately show ?thesis using 1 unfolding A_def B_def Let_def by simp
qed

end
