(* ===== verification/Pass2.thy ===== *)
theory Pass2
  imports Pass3
begin

text \<open>
  Pass 2, \<open>Optimizer/pass2.c\<close>: constant operands of numeric and string operators are
  converted, conditional jumps on constants are decided, \<open>JMPZ; JMP\<close> becomes \<open>JMPZNZ\<close>, and
  BRK and CONT with a constant depth become JMPs. The engine's conversions and its
  \<open>zend_is_true\<close> are parameters (a record \<open>engine\<close>). Reads outside the code or the
  break/continue table give \<open>None\<close>.
\<close>

section \<open>The engine functions the pass calls\<close>

record 'x engine =
  scalar_to_number :: "'x zval \<Rightarrow> 'x zval"
  to_long :: "'x zval \<Rightarrow> int"
  to_string :: "'x zval \<Rightarrow> string"
  is_true :: "'x zval \<Rightarrow> bool"

text \<open>\<open>convert_to_long\<close> and \<open>convert_to_string\<close> on a literal, and \<open>literal_dtor\<close>.\<close>

definition convert_lit :: "('x zval \<Rightarrow> bool) \<Rightarrow> ('x zval \<Rightarrow> 'x zval) \<Rightarrow> znode \<Rightarrow> 'x zend_op_array \<Rightarrow> 'x zend_op_array" where
  "convert_lit test conv z oa =
     (if op_ty z = IS_CONST \<and> test (lit oa z) then set_lit z (conv (lit oa z)) oa else oa)"

definition literal_dtor :: "znode \<Rightarrow> 'x zend_op_array \<Rightarrow> 'x zend_op_array" where
  "literal_dtor z oa = set_lit z ZNULL oa"

section \<open>The cases\<close>

text \<open>The three operator groups: op1 is converted for the plain operators, op2 for these and
  the assigning ones unless \<open>extended_value\<close> marks an object operation.\<close>

definition convert_operands ::
  "('x zval \<Rightarrow> bool) \<Rightarrow> ('x zval \<Rightarrow> 'x zval) \<Rightarrow> bool \<Rightarrow> nat \<Rightarrow> 'x zend_op_array \<Rightarrow> 'x zend_op_array" where
  "convert_operands test conv plain_op i oa =
     (let o1 = opcodes oa ! i;
          oa1 = (if plain_op then convert_lit test conv (op1 o1) oa else oa)
      in if extended_value o1 \<noteq> 0 then oa1 else convert_lit test conv (op2 o1) oa1)"

definition pass2_jmp_ex :: "'x engine \<Rightarrow> nat \<Rightarrow> 'x zend_op_array \<Rightarrow> 'x zend_op_array" where
  "pass2_jmp_ex en i oa =
     (let o1 = opcodes oa ! i in
      if op_ty (op1 o1) = IS_CONST
      then (let t = is_true en (lit oa (op1 o1));
                should_jmp = (if opcode o1 = ZEND_JMPZ_EX then \<not> t else t)
            in if should_jmp then oa
               else upd_op i (\<lambda>o1. o1\<lparr>opcode := ZEND_QM_ASSIGN, op2 := SET_UNUSED (op2 o1)\<rparr>) oa)
      else oa)"

definition pass2_cond :: "'x engine \<Rightarrow> nat \<Rightarrow> 'x zend_op_array \<Rightarrow> 'x zend_op_array option" where
  "pass2_cond en i oa =
     (let o1 = opcodes oa ! i in
      if op_ty (op1 o1) = IS_CONST
      then (let t = is_true en (lit oa (op1 o1));
                should_jmp = (if opcode o1 = ZEND_JMPZ then \<not> t else t);
                oa1 = literal_dtor (op1 o1) oa
            in Some (if should_jmp then upd_op i (\<lambda>o1. o1\<lparr>opcode := ZEND_JMP, op1 := op2 o1\<rparr>) oa1
                     else upd_op i MAKE_NOP oa1))
      else if \<not> Suc i < last_op oa then None
      else (let nx = opcodes oa ! Suc i in
        if opcode nx = ZEND_JMP
        then Some (if num (op2 o1) = num (op1 nx) then upd_op i MAKE_NOP oa
             else if opcode o1 = ZEND_JMPZ
             then upd_op i (\<lambda>o1. o1\<lparr>extended_value := num (op1 nx), opcode := ZEND_JMPZNZ\<rparr>) oa
             else upd_op i (\<lambda>o1. o1\<lparr>extended_value := num (op2 o1), op2 := op1 nx, opcode := ZEND_JMPZNZ\<rparr>) oa)
        else Some oa))"

definition pass2_jmpznz :: "'x engine \<Rightarrow> nat \<Rightarrow> 'x zend_op_array \<Rightarrow> 'x zend_op_array" where
  "pass2_jmpznz en i oa =
     (let o1 = opcodes oa ! i in
      if op_ty (op1 o1) = IS_CONST
      then (let n = (if is_true en (lit oa (op1 o1)) then extended_value o1 else num (op2 o1))
            in upd_op i (\<lambda>o1. o1\<lparr>op1 := (op1 o1)\<lparr>op_ty := IS_UNUSED, ext_unused := False, num := n\<rparr>,
                                 opcode := ZEND_JMP\<rparr>)
                 (literal_dtor (op1 o1) oa))
      else oa)"

text \<open>The search through the enclosing loops. \<open>Some None\<close> is \<open>dont_optimize\<close>.\<close>

function find_loop :: "'x zend_op_array \<Rightarrow> int \<Rightarrow> int \<Rightarrow> brk_cont_element option option" where
  "find_loop oa offs nest =
     (if offs = -1 then Some None
      else if offs < 0 \<or> \<not> nat offs < length (brk_cont_array oa) then None
      else (let jmp_to = brk_cont_array oa ! nat offs in
        if nest - 1 > 0
        then (if bc_brk jmp_to < 0 \<or> \<not> nat (bc_brk jmp_to) < last_op oa then None
              else if opcode (opcodes oa ! nat (bc_brk jmp_to)) \<in> {ZEND_FREE, ZEND_SWITCH_FREE} then Some None
              else find_loop oa (bc_parent jmp_to) (nest - 1))
        else Some (Some jmp_to)))"
  by pat_completeness auto
termination by (relation "measure (\<lambda>(_, _, nest). nat nest)") auto

declare find_loop.simps [simp del]

definition pass2_brk :: "'x engine \<Rightarrow> nat \<Rightarrow> 'x zend_op_array \<Rightarrow> 'x zend_op_array option" where
  "pass2_brk en i oa =
     (let o1 = opcodes oa ! i in
      if op_ty (op2 o1) \<noteq> IS_CONST then Some oa
      else (let oa1 = set_lit (op2 o1) (ZLONG (to_long en (lit oa (op2 o1)))) oa;
                offs = to_int32 (num (op1 o1))
            in case find_loop oa1 offs (int32 (to_long en (lit oa (op2 o1)))) of
                 None \<Rightarrow> None
               | Some None \<Rightarrow> Some oa1
               | Some (Some jmp_to) \<Rightarrow>
                   (let target = (if opcode o1 = ZEND_BRK then bc_brk jmp_to else bc_cont jmp_to)
                    in Some (upd_op i (\<lambda>o1. (set_op1 (MAKE_NOP o1) (nat (target mod int two32)))\<lparr>opcode := ZEND_JMP\<rparr>) oa1))))"

definition pass2_step :: "'x engine \<Rightarrow> nat \<Rightarrow> 'x zend_op_array \<Rightarrow> 'x zend_op_array option" where
  "pass2_step en i oa =
     (let oc = opcode (opcodes oa ! i) in
      if oc \<in> {ZEND_ADD, ZEND_SUB, ZEND_MUL, ZEND_DIV, ZEND_ASSIGN_ADD, ZEND_ASSIGN_SUB, ZEND_ASSIGN_MUL, ZEND_ASSIGN_DIV}
      then Some (convert_operands is_string (scalar_to_number en) (oc \<in> {ZEND_ADD, ZEND_SUB, ZEND_MUL, ZEND_DIV}) i oa)
      else if oc \<in> {ZEND_MOD, ZEND_SL, ZEND_SR, ZEND_ASSIGN_MOD, ZEND_ASSIGN_SL, ZEND_ASSIGN_SR}
      then Some (convert_operands (\<lambda>v. \<not> is_long v) (\<lambda>v. ZLONG (to_long en v)) (oc \<in> {ZEND_MOD, ZEND_SL, ZEND_SR}) i oa)
      else if oc \<in> {ZEND_CONCAT, ZEND_ASSIGN_CONCAT}
      then Some (convert_operands (\<lambda>v. \<not> is_string v) (\<lambda>v. ZSTRING (to_string en v)) (oc = ZEND_CONCAT) i oa)
      else if oc \<in> {ZEND_JMPZ_EX, ZEND_JMPNZ_EX} then Some (pass2_jmp_ex en i oa)
      else if oc \<in> {ZEND_JMPZ, ZEND_JMPNZ} then pass2_cond en i oa
      else if oc = ZEND_JMPZNZ then Some (pass2_jmpznz en i oa)
      else if oc \<in> {ZEND_BRK, ZEND_CONT} then pass2_brk en i oa
      else Some oa)"

text \<open>\<open>while (opline < end)\<close>; no case changes the number of instructions.\<close>

fun pass2_from :: "'x engine \<Rightarrow> nat \<Rightarrow> nat \<Rightarrow> 'x zend_op_array \<Rightarrow> 'x zend_op_array option" where
  "pass2_from en i 0 oa = Some oa"
| "pass2_from en i (Suc n) oa =
     (case pass2_step en i oa of None \<Rightarrow> None | Some oa' \<Rightarrow> pass2_from en (Suc i) n oa')"

definition pass2 :: "'x engine \<Rightarrow> 'x zend_op_array \<Rightarrow> 'x zend_op_array option" where
  "pass2 en oa = pass2_from en 0 (last_op oa) oa"

section \<open>Behaviour under changes of literals\<close>

text \<open>Handlers that read the literal table \<open>L\<close>.\<close>

type_synonym ('x, 's) lit_handlers = "'x zend_literal list \<Rightarrow> 's handlers"

definition runs :: "('x, 's) lit_handlers \<Rightarrow> 'x zend_op_array \<Rightarrow> nat \<Rightarrow> 's \<Rightarrow> 's outcome \<Rightarrow> bool" where
  "runs H oa = vm_run (H (literals oa)) oa"

lemma vm_step_cong:
  assumes "opcodes oa' = opcodes oa" "brk_cont_array oa' = brk_cont_array oa" "try_catch_array oa' = try_catch_array oa"
    and "\<And>p s. p < last_op oa \<Longrightarrow> opcode (opcodes oa ! p) \<notin> {ZEND_NOP, ZEND_JMP} \<Longrightarrow>
      H' (blank (opcodes oa ! p)) s = H (blank (opcodes oa ! p)) s"
  shows "vm_step H' oa' p s = vm_step H oa p s"
  using assms(4) [of p s] by (simp add: vm_step_def assms(1-3) Let_def)

lemma vm_run_cong:
  assumes "\<And>p s. vm_step H' oa' p s = vm_step H oa p s"
  shows "vm_run H' oa' p s r \<longleftrightarrow> vm_run H oa p s r"
proof
  show "vm_run H oa p s r" if "vm_run H' oa' p s r"
    using that by (induction rule: vm_run.induct) (auto simp: assms intro: vm_run.intros)
  show "vm_run H' oa' p s r" if "vm_run H oa p s r"
    using that by (induction rule: vm_run.induct) (auto simp: assms [symmetric] intro: vm_run.intros)
qed

text \<open>The literals an instruction's constant operands name, and code in which no two
  instructions name the same.\<close>

definition owned :: "zend_op \<Rightarrow> nat set" where
  "owned o1 = num ` {z \<in> {op1 o1, op2 o1}. op_ty z = IS_CONST}"

definition unshared :: "zend_op list \<Rightarrow> bool" where
  "unshared ops \<longleftrightarrow> (\<forall>p < length ops. \<forall>q < length ops. p \<noteq> q \<longrightarrow> owned (ops ! p) \<inter> owned (ops ! q) = {})"

text \<open>The conversions the pass makes for an opcode.\<close>

definition converts :: "'x engine \<Rightarrow> nat \<Rightarrow> 'x zval \<Rightarrow> 'x zval \<Rightarrow> bool" where
  "converts en oc v v' \<longleftrightarrow>
     (oc \<in> {ZEND_ADD, ZEND_SUB, ZEND_MUL, ZEND_DIV, ZEND_ASSIGN_ADD, ZEND_ASSIGN_SUB, ZEND_ASSIGN_MUL, ZEND_ASSIGN_DIV}
        \<and> is_string v \<and> v' = scalar_to_number en v)
   \<or> (oc \<in> {ZEND_MOD, ZEND_SL, ZEND_SR, ZEND_ASSIGN_MOD, ZEND_ASSIGN_SL, ZEND_ASSIGN_SR, ZEND_BRK, ZEND_CONT}
        \<and> v' = ZLONG (to_long en v))
   \<or> (oc \<in> {ZEND_CONCAT, ZEND_ASSIGN_CONCAT} \<and> v' = ZSTRING (to_string en v))"

text \<open>
  What the theorem relies on from the engine: a handler reads no constant operand of another
  instruction (\<open>private\<close>); an operator treats a constant operand as its conversion
  (\<open>same_converted\<close>); the conditional jumps look at the truth of their operand, which for a
  constant is \<open>zend_is_true\<close>, and change nothing (\<open>conds\<close>); the value-keeping ones, when they
  do not jump, leave the truth of their operand in the result, as QM_ASSIGN leaves its operand
  (\<open>value_conds\<close>); BRK and CONT of a constant depth (\<open>zend_brk_cont\<close>) go from the entry that
  op1 names to the entry of the enclosing loop, depth - 1 times, and jump through the entry
  reached, and free nothing when no entry passed belongs to a loop with a variable to free
  (\<open>loops\<close>).
\<close>

definition handlers_private :: "('x, 's) lit_handlers \<Rightarrow> nat set \<Rightarrow> bool" where
  "handlers_private H N \<longleftrightarrow> (\<forall>L n l o1 s. n \<in> N \<longrightarrow> n \<notin> owned o1 \<longrightarrow> H (L[n := l]) (blank o1) s = H L (blank o1) s)"

definition same_converted :: "'x engine \<Rightarrow> ('x, 's) lit_handlers \<Rightarrow> bool" where
  "same_converted en H \<longleftrightarrow> (\<forall>L o1 z v s. z \<in> {op1 o1, op2 o1} \<longrightarrow> op_ty z = IS_CONST \<longrightarrow>
     converts en (opcode o1) (lit_constant (L ! num z)) v \<longrightarrow>
     H (L[num z := (L ! num z)\<lparr>lit_constant := v\<rparr>]) (blank o1) s = H L (blank o1) s)"

definition conds :: "'x engine \<Rightarrow> ('x, 's) lit_handlers \<Rightarrow> ('x zend_literal list \<Rightarrow> 's \<Rightarrow> znode \<Rightarrow> bool) \<Rightarrow> bool" where
  "conds en H truth \<longleftrightarrow> (\<forall>L. cond_handlers (H L) (truth L)
     \<and> (\<forall>o1 s. opcode o1 = ZEND_JMPZNZ \<longrightarrow> H L (blank o1) s = (s, if truth L s (op1 o1) then To_Ext else To_Op2))
     \<and> (\<forall>z s. op_ty z = IS_CONST \<longrightarrow> truth L s z = is_true en (lit_constant (L ! num z))))"

definition is_bool :: "'x zval \<Rightarrow> bool" where
  "is_bool v \<longleftrightarrow> v \<in> {ZBOOL False, ZBOOL True}"

definition value_conds :: "'x engine \<Rightarrow> ('x, 's) lit_handlers \<Rightarrow> bool" where
  "value_conds en H \<longleftrightarrow> (\<forall>L o1 s. opcode o1 \<in> {ZEND_JMPZ_EX, ZEND_JMPNZ_EX} \<longrightarrow> op_ty (op1 o1) = IS_CONST \<longrightarrow>
     is_bool (lit_constant (L ! num (op1 o1))) \<longrightarrow>
     is_true en (lit_constant (L ! num (op1 o1))) = (opcode o1 = ZEND_JMPZ_EX) \<longrightarrow>
     (\<exists>s'. H L (blank o1) s = (s', Next)
        \<and> H L (blank (o1\<lparr>opcode := ZEND_QM_ASSIGN, op2 := SET_UNUSED (op2 o1)\<rparr>)) s = (s', Next)))"

definition frees :: "nat \<Rightarrow> bool" where
  "frees oc \<longleftrightarrow> oc \<in> {ZEND_FREE, ZEND_SWITCH_FREE}"

text \<open>The entry \<open>j\<close> loops out of the entry \<open>offs\<close>.\<close>

definition enclosing :: "'x zend_op_array \<Rightarrow> int \<Rightarrow> nat \<Rightarrow> int" where
  "enclosing oa offs j = ((\<lambda>k. bc_parent (brk_cont_array oa ! nat k)) ^^ j) offs"

definition is_entry :: "'x zend_op_array \<Rightarrow> int \<Rightarrow> bool" where
  "is_entry oa k \<longleftrightarrow> 0 \<le> k \<and> nat k < length (brk_cont_array oa)"

definition keeps_variable :: "'x zend_op_array \<Rightarrow> int \<Rightarrow> bool" where
  "keeps_variable oa k \<longleftrightarrow> (let b = bc_brk (brk_cont_array oa ! nat k) in
     0 \<le> b \<and> nat b < last_op oa \<and> \<not> frees (opcode (opcodes oa ! nat b)))"

definition loops :: "'x engine \<Rightarrow> ('x, 's) lit_handlers \<Rightarrow> 'x zend_op_array \<Rightarrow> bool" where
  "loops en H oa \<longleftrightarrow> (\<forall>L o1 s offs d. opcode o1 \<in> {ZEND_BRK, ZEND_CONT} \<longrightarrow> op_ty (op2 o1) = IS_CONST \<longrightarrow>
     offs = to_int32 (num (op1 o1)) \<longrightarrow> d = nat (int32 (to_long en (lit_constant (L ! num (op2 o1)))) - 1) \<longrightarrow>
     (\<forall>j \<le> d. is_entry oa (enclosing oa offs j)) \<longrightarrow> (\<forall>j < d. keeps_variable oa (enclosing oa offs j)) \<longrightarrow>
     H L (blank o1) s = (s, if opcode o1 = ZEND_BRK then Break_To (nat (enclosing oa offs d))
                            else Continue_To (nat (enclosing oa offs d))))"

text \<open>The search of the pass ends at the entry the engine would end at.\<close>

lemma enclosing_Suc: "enclosing oa offs (Suc j) = enclosing oa (bc_parent (brk_cont_array oa ! nat offs)) j"
  by (simp add: enclosing_def funpow_Suc_right del: funpow.simps)

lemma enclosing_0 [simp]: "enclosing oa offs 0 = offs"
  by (simp add: enclosing_def)

lemma find_loop_enclosing:
  assumes "find_loop oa offs nest = Some (Some e)"
  shows "(\<forall>j \<le> nat (nest - 1). is_entry oa (enclosing oa offs j))
    \<and> (\<forall>j < nat (nest - 1). keeps_variable oa (enclosing oa offs j))
    \<and> e = brk_cont_array oa ! nat (enclosing oa offs (nat (nest - 1)))"
  using assms
proof (induction oa offs nest rule: find_loop.induct)
  case (1 oa offs nest)
  let ?b = "brk_cont_array oa ! nat offs"
  have here: "is_entry oa offs"
    using "1.prems" by (subst (asm) find_loop.simps) (auto simp: is_entry_def split: if_splits)
  show ?case
  proof (cases "nest - 1 > 0")
    case False
    then have "e = ?b" using "1.prems" by (subst (asm) find_loop.simps) (simp add: Let_def split: if_splits)
    then show ?thesis using False here by simp
  next
    case True
    then have k: "keeps_variable oa offs" and f: "find_loop oa (bc_parent ?b) (nest - 1) = Some (Some e)"
      using "1.prems" by (subst (asm) find_loop.simps, simp add: Let_def keeps_variable_def frees_def split: if_splits)+
    have n: "nat (nest - 1) = Suc (nat (nest - 1 - 1))" using True by simp
    have ih: "(\<forall>j \<le> nat (nest - 1 - 1). is_entry oa (enclosing oa (bc_parent ?b) j))
      \<and> (\<forall>j < nat (nest - 1 - 1). keeps_variable oa (enclosing oa (bc_parent ?b) j))
      \<and> e = brk_cont_array oa ! nat (enclosing oa (bc_parent ?b) (nat (nest - 1 - 1)))"
      by (rule "1.IH" [OF _ _ refl True _ _ f])
        (use here k in \<open>auto simp: is_entry_def keeps_variable_def frees_def Let_def\<close>)
    have "is_entry oa (enclosing oa offs j)" if "j \<le> nat (nest - 1)" for j
      using that here ih n by (cases j) (simp_all add: enclosing_Suc)
    moreover have "keeps_variable oa (enclosing oa offs j)" if "j < nat (nest - 1)" for j
      using that k ih n by (cases j) (simp_all add: enclosing_Suc)
    ultimately show ?thesis using ih n by (simp add: enclosing_Suc)
  qed
qed

text \<open>The state of the pass: what it keeps while it goes on from the code \<open>oa0\<close>.\<close>

definition op_ok :: "zend_op \<Rightarrow> bool" where
  "op_ok o1 \<longleftrightarrow> (jumps_op1 (opcode o1) \<longrightarrow> op_ty (op1 o1) \<noteq> IS_CONST) \<and> (jumps_op2 (opcode o1) \<longrightarrow> op_ty (op2 o1) \<noteq> IS_CONST)"

definition pass2_inv :: "'x zend_op_array \<Rightarrow> 'x zend_op_array \<Rightarrow> bool" where
  "pass2_inv oa0 oa \<longleftrightarrow> last_op oa = last_op oa0
     \<and> (\<forall>p < last_op oa. owned (opcodes oa ! p) \<subseteq> owned (opcodes oa0 ! p) \<and> op_ok (opcodes oa ! p)
          \<and> frees (opcode (opcodes oa ! p)) = frees (opcode (opcodes oa0 ! p)))
     \<and> brk_cont_array oa = brk_cont_array oa0 \<and> try_catch_array oa = try_catch_array oa0"

definition owned_by :: "zend_op list \<Rightarrow> nat set" where
  "owned_by ops = (\<Union>o1 \<in> set ops. owned o1)"

definition tables_inside :: "'x zend_op_array \<Rightarrow> bool" where
  "tables_inside oa \<longleftrightarrow> (\<forall>b \<in> set (brk_cont_array oa). 0 \<le> bc_brk b \<and> bc_brk b < int two32 \<and> 0 \<le> bc_cont b \<and> bc_cont b < int two32)"

lemma find_loop_inv:
  assumes "pass2_inv oa0 oa"
  shows "find_loop oa offs nest = find_loop oa0 offs nest"
  using assms
proof (induction oa0 offs nest rule: find_loop.induct)
  case (1 oa0 offs nest)
  have b: "brk_cont_array oa = brk_cont_array oa0" and l: "last_op oa = last_op oa0"
    and fr: "\<And>p. p < last_op oa0 \<Longrightarrow> frees (opcode (opcodes oa ! p)) = frees (opcode (opcodes oa0 ! p))"
    using "1.prems" by (auto simp: pass2_inv_def)
  show ?case
    using "1.IH" [OF _ _ refl _ _ _ "1.prems"] fr
    by (subst (1 2) find_loop.simps) (simp add: b l Let_def frees_def)
qed

section \<open>One step keeps the behaviour\<close>

definition pass2_setting ::
  "'x engine \<Rightarrow> ('x, 's) lit_handlers \<Rightarrow> ('x zend_literal list \<Rightarrow> 's \<Rightarrow> znode \<Rightarrow> bool) \<Rightarrow> 'x zend_op_array \<Rightarrow> bool" where
  "pass2_setting en H truth oa0 \<longleftrightarrow> handlers_private H (owned_by (opcodes oa0)) \<and> unshared (opcodes oa0)
     \<and> same_converted en H \<and> conds en H truth \<and> value_conds en H \<and> loops en H oa0 \<and> tables_inside oa0"

lemma owned_alone:
  assumes "pass2_setting en H truth oa0" "pass2_inv oa0 oa" "p < last_op oa" "i < last_op oa" "p \<noteq> i" "n \<in> owned (opcodes oa0 ! i)"
  shows "n \<notin> owned (opcodes oa ! p)"
  using assms unfolding pass2_setting_def pass2_inv_def unshared_def by (metis disjoint_iff subsetD)

lemma private_at:
  "pass2_setting en H truth oa0 \<Longrightarrow> i < last_op oa0 \<Longrightarrow> n \<in> owned (opcodes oa0 ! i) \<Longrightarrow> n \<notin> owned o1 \<Longrightarrow>
     H (L[n := l]) (blank o1) s = H L (blank o1) s"
  unfolding pass2_setting_def handlers_private_def owned_by_def by (meson UN_I nth_mem)

text \<open>Writing a literal of one instruction that treats the new value as the old one.\<close>

lemma literal_change:
  assumes st: "pass2_setting en H truth oa0" and g: "pass2_inv oa0 oa" and i: "i < last_op oa" and n: "num z \<in> owned (opcodes oa0 ! i)"
    and own_op: "\<And>s. num z \<in> owned (opcodes oa ! i) \<Longrightarrow>
      H (literals (set_lit z v oa)) (blank (opcodes oa ! i)) s = H (literals oa) (blank (opcodes oa ! i)) s"
  shows "runs H (set_lit z v oa) p s r \<longleftrightarrow> runs H oa p s r"
  unfolding runs_def
proof (rule vm_run_cong, rule vm_step_cong)
  fix q s
  assume q: "q < last_op oa"
  have i0: "i < last_op oa0" using g i by (simp add: pass2_inv_def)
  show "H (literals (set_lit z v oa)) (blank (opcodes oa ! q)) s = H (literals oa) (blank (opcodes oa ! q)) s"
  proof (cases "num z \<in> owned (opcodes oa ! q)")
    case True
    then have "q = i" using owned_alone [OF st g q i _ n] by blast
    then show ?thesis using own_op True by simp
  next
    case False
    then show ?thesis using private_at [OF st i0 n] by (simp add: set_lit_def)
  qed
qed (simp_all add: set_lit_simps)

lemma pass2_inv_set_lit [simp]: "pass2_inv oa0 (set_lit z v oa) \<longleftrightarrow> pass2_inv oa0 oa"
  by (simp add: pass2_inv_def set_lit_simps)

lemma pass2_inv_convert_lit [simp]: "pass2_inv oa0 (convert_lit test f z oa) \<longleftrightarrow> pass2_inv oa0 oa"
  by (simp add: convert_lit_def)

lemma opcodes_convert_lit [simp]: "opcodes (convert_lit test f z oa) = opcodes oa"
  by (simp add: convert_lit_def set_lit_simps)

lemma convert_lit_same:
  assumes st: "pass2_setting en H truth oa0" and g: "pass2_inv oa0 oa" and i: "i < last_op oa"
    and z: "z \<in> {op1 (opcodes oa ! i), op2 (opcodes oa ! i)}"
    and c: "\<And>v. test v \<Longrightarrow> converts en (opcode (opcodes oa ! i)) v (f v)"
  shows "runs H (convert_lit test f z oa) p s r \<longleftrightarrow> runs H oa p s r"
proof (cases "op_ty z = IS_CONST \<and> test (lit oa z)")
  case True
  have "num z \<in> owned (opcodes oa ! i)" using z True by (auto simp: owned_def)
  then have n: "num z \<in> owned (opcodes oa0 ! i)" using g i unfolding pass2_inv_def by blast
  have "runs H (set_lit z (f (lit oa z)) oa) p s r \<longleftrightarrow> runs H oa p s r"
  proof (rule literal_change [OF st g i n])
    show "H (literals (set_lit z (f (lit oa z)) oa)) (blank (opcodes oa ! i)) s = H (literals oa) (blank (opcodes oa ! i)) s" for s
      using st z True c [of "lit oa z"] unfolding pass2_setting_def same_converted_def set_lit_def lit_def by auto
  qed
  then show ?thesis using True by (simp add: convert_lit_def)
qed (auto simp: convert_lit_def)

lemma convert_operands_same:
  assumes st: "pass2_setting en H truth oa0" and g: "pass2_inv oa0 oa" and i: "i < last_op oa"
    and c: "\<And>v. test v \<Longrightarrow> converts en (opcode (opcodes oa ! i)) v (f v)"
  shows "runs H (convert_operands test f b i oa) p s r \<longleftrightarrow> runs H oa p s r" (is ?same)
    and "pass2_inv oa0 (convert_operands test f b i oa)" (is ?inv)
proof -
  let ?o = "opcodes oa ! i"
  define oa1 where "oa1 = (if b then convert_lit test f (op1 ?o) oa else oa)"
  have g1: "pass2_inv oa0 oa1" and o1: "opcodes oa1 = opcodes oa" by (simp_all add: oa1_def g)
  have 1: "runs H oa1 p s r \<longleftrightarrow> runs H oa p s r"
    using convert_lit_same [where f = f and test = test, OF st g i _ c] by (simp add: oa1_def)
  have 2: "runs H (convert_lit test f (op2 ?o) oa1) p s r \<longleftrightarrow> runs H oa1 p s r"
  proof (rule convert_lit_same [OF st g1])
    show "i < last_op oa1" and "op2 ?o \<in> {op1 (opcodes oa1 ! i), op2 (opcodes oa1 ! i)}" using i by (simp_all add: o1)
    show "converts en (opcode (opcodes oa1 ! i)) v (f v)" if "test v" for v using c that by (simp add: o1)
  qed
  have e: "convert_operands test f b i oa = (if extended_value ?o \<noteq> 0 then oa1 else convert_lit test f (op2 ?o) oa1)"
    by (simp add: convert_operands_def oa1_def Let_def)
  show ?same using 1 2 by (simp add: e)
  show ?inv using g1 by (simp add: e)
qed

text \<open>Replacing an instruction whose old and new targets are the same or joined by a JMP,
  and dropping the literal it no longer names.\<close>

definition joined :: "'s handlers \<Rightarrow> 'x zend_op_array \<Rightarrow> nat \<Rightarrow> zend_op \<Rightarrow> bool" where
  "joined H oa i o2 \<longleftrightarrow> (\<forall>s. \<exists>a b. vm_step H oa i s = Go a s \<and> vm_step H (with_op oa i o2) i s = Go b s
      \<and> (a = b \<or> (a < last_op oa \<and> a \<noteq> i \<and> opcode (opcodes oa ! a) = ZEND_JMP \<and> num (op1 (opcodes oa ! a)) = b)
          \<or> (b < last_op oa \<and> b \<noteq> i \<and> opcode (opcodes oa ! b) = ZEND_JMP \<and> num (op1 (opcodes oa ! b)) = a)))"

lemma target_change:
  assumes i: "i < last_op oa"
    and at_i: "joined H oa i o2"
  shows "vm_run H (with_op oa i o2) pc s r \<longleftrightarrow> vm_run H oa pc s r"
proof -
  have j: "vm_run H (with_op oa i o1) a s r \<longleftrightarrow> vm_run H (with_op oa i o1) (num (op1 (opcodes oa ! a))) s r"
    if "a < last_op oa" "a \<noteq> i" "opcode (opcodes oa ! a) = ZEND_JMP" for o1 a s r
    using vm_run_JMP [of a "with_op oa i o1" H s r] that i by (simp add: with_op_nth op_at_def)
  have "vm_run H (with_op oa i o2) pc s r \<longleftrightarrow> vm_run H (with_op oa i (opcodes oa ! i)) pc s r"
  proof (rule retarget_same)
    fix s
    obtain a b where ab: "vm_step H oa i s = Go a s" "vm_step H (with_op oa i o2) i s = Go b s"
      and or: "a = b \<or> (a < last_op oa \<and> a \<noteq> i \<and> opcode (opcodes oa ! a) = ZEND_JMP \<and> num (op1 (opcodes oa ! a)) = b)
          \<or> (b < last_op oa \<and> b \<noteq> i \<and> opcode (opcodes oa ! b) = ZEND_JMP \<and> num (op1 (opcodes oa ! b)) = a)"
      using at_i unfolding joined_def by blast
    have e: "vm_run H (with_op oa i o1) a s r \<longleftrightarrow> vm_run H (with_op oa i o1) b s r" for o1 r
      using or j [where ?o1.0 = o1 and s = s and r = r] by metis
    show "vm_step H (with_op oa i o2) i s = vm_step H (with_op oa i (opcodes oa ! i)) i s
      \<or> (\<exists>a b s'. vm_step H (with_op oa i (opcodes oa ! i)) i s = Go a s' \<and> vm_step H (with_op oa i o2) i s = Go b s'
            \<and> (\<forall>r. vm_run H (with_op oa i (opcodes oa ! i)) a s' r \<longleftrightarrow> vm_run H (with_op oa i (opcodes oa ! i)) b s' r)
            \<and> (\<forall>r. vm_run H (with_op oa i o2) a s' r \<longleftrightarrow> vm_run H (with_op oa i o2) b s' r))"
      using ab i e [of o2] e [of "opcodes oa ! i"] by simp
  qed
  then show ?thesis using i by simp
qed

lemma step_change:
  assumes st: "pass2_setting en H truth oa0" and g: "pass2_inv oa0 oa" and i: "i < last_op oa"
    and ok: "op_ok o2" "owned o2 \<subseteq> owned (opcodes oa ! i)" "frees (opcode o2) = frees (opcode (opcodes oa ! i))"
    and at_i: "joined (H (literals oa)) oa i o2"
  shows "pass2_inv oa0 (with_op oa i o2)" (is ?inv)
    and "runs H (with_op oa i o2) p s r \<longleftrightarrow> runs H oa p s r" (is ?same)
    and "num z \<in> owned (opcodes oa0 ! i) \<Longrightarrow> num z \<notin> owned o2 \<Longrightarrow>
      runs H (set_lit z v (with_op oa i o2)) p s r \<longleftrightarrow> runs H oa p s r"
proof -
  have "owned o2 \<subseteq> owned (opcodes oa0 ! i)" using g ok(2) i unfolding pass2_inv_def by blast
  then show inv: ?inv using g ok(1,3) i unfolding pass2_inv_def by (auto simp: with_op_def nth_list_update)
  show same: ?same
    using target_change [where H = "H (literals oa)", OF i at_i] by (simp add: runs_def with_op_def)
  assume z: "num z \<in> owned (opcodes oa0 ! i)" "num z \<notin> owned o2"
  have "runs H (set_lit z v (with_op oa i o2)) p s r \<longleftrightarrow> runs H (with_op oa i o2) p s r"
    by (rule literal_change [OF st inv _ z(1)]) (use i z(2) in \<open>simp_all add: with_op_def\<close>)
  then show "runs H (set_lit z v (with_op oa i o2)) p s r \<longleftrightarrow> runs H oa p s r" using same by simp
qed

lemma upd_op_with: "upd_op i f oa = with_op oa i (f (opcodes oa ! i))"
  "with_op (set_lit z v oa) i o2 = set_lit z v (with_op oa i o2)" "opcodes (set_lit z v oa) = opcodes oa"
  by (simp_all add: upd_op_def with_op_def set_lit_def)

lemma owned_jmp [simp]:
  "owned (MAKE_NOP o1) = {}" "op_ok (MAKE_NOP o1)" "\<not> frees (opcode (MAKE_NOP o1))"
  "owned ((set_op1 (MAKE_NOP o1) n)\<lparr>opcode := ZEND_JMP\<rparr>) = {}" "op_ok ((set_op1 (MAKE_NOP o1) n)\<lparr>opcode := ZEND_JMP\<rparr>)"
  by (auto simp: owned_def MAKE_NOP_def unused_node_def op_ok_def jumps_op1_def jumps_op2_def frees_def set_op1_def)

text \<open>Where the machine goes at a conditional jump.\<close>

lemma cond_at:
  assumes "pass2_setting en H truth oa0" "i < last_op oa"
  shows "opcode (opcodes oa ! i) \<in> {ZEND_JMPZ, ZEND_JMPNZ} \<Longrightarrow> vm_step (H (literals oa)) oa i s
      = Go (if jumps_when (truth (literals oa)) (opcodes oa ! i) s then num (op2 (opcodes oa ! i)) else Suc i) s"
    and "opcode (opcodes oa ! i) = ZEND_JMPZNZ \<Longrightarrow> vm_step (H (literals oa)) oa i s
      = Go (if truth (literals oa) s (op1 (opcodes oa ! i)) then extended_value (opcodes oa ! i) else num (op2 (opcodes oa ! i))) s"
    and "op_ty z = IS_CONST \<Longrightarrow> truth (literals oa) s z = is_true en (lit oa z)"
proof -
  have c: "conds en H truth" using assms(1) by (simp add: pass2_setting_def)
  then have c1: "cond_handlers (H (literals oa)) (truth (literals oa))" by (simp add: conds_def)
  show "vm_step (H (literals oa)) oa i s
      = Go (if jumps_when (truth (literals oa)) (opcodes oa ! i) s then num (op2 (opcodes oa ! i)) else Suc i) s"
    if "opcode (opcodes oa ! i) \<in> {ZEND_JMPZ, ZEND_JMPNZ}"
    by (rule cond_step [OF c1 assms(2) that])
  show "vm_step (H (literals oa)) oa i s
      = Go (if truth (literals oa) s (op1 (opcodes oa ! i)) then extended_value (opcodes oa ! i) else num (op2 (opcodes oa ! i))) s"
    if "opcode (opcodes oa ! i) = ZEND_JMPZNZ"
    using c that assms(2) by (auto simp: conds_def vm_step_def Let_def resume_def jumps_op2_def jumps_ext_def)
  show "truth (literals oa) s z = is_true en (lit oa z)" if "op_ty z = IS_CONST"
    using c that by (simp add: conds_def lit_def)
qed

lemma with_jmp_step: "i < last_op oa \<Longrightarrow> opcode o2 = ZEND_JMP \<Longrightarrow> vm_step H (with_op oa i o2) i s = Go (num (op1 o2)) s"
  by (rule vm_step_with_jmp)

lemma with_nop_step: "i < last_op oa \<Longrightarrow> vm_step H (with_op oa i (MAKE_NOP o2)) i s = Go (Suc i) s"
  by (subst vm_step_nop) (simp_all add: with_op_def)

lemma pass2_jmpznz_same:
  assumes st: "pass2_setting en H truth oa0" and g: "pass2_inv oa0 oa" and i: "i < last_op oa"
    and oc: "opcode (opcodes oa ! i) = ZEND_JMPZNZ"
  shows "(runs H (pass2_jmpznz en i oa) p s r \<longleftrightarrow> runs H oa p s r) \<and> pass2_inv oa0 (pass2_jmpznz en i oa)"
proof (cases "op_ty (op1 (opcodes oa ! i)) = IS_CONST")
  case True
  let ?o = "opcodes oa ! i"
  define n where "n = (if is_true en (lit oa (op1 ?o)) then extended_value ?o else num (op2 ?o))"
  define o2 where "o2 = ?o\<lparr>op1 := (op1 ?o)\<lparr>op_ty := IS_UNUSED, ext_unused := False, num := n\<rparr>, opcode := ZEND_JMP\<rparr>"
  have e: "pass2_jmpznz en i oa = set_lit (op1 ?o) ZNULL (with_op oa i o2)"
    using True by (simp add: pass2_jmpznz_def literal_dtor_def upd_op_with o2_def n_def Let_def)
  have ok0: "op_ty (op2 ?o) \<noteq> IS_CONST" using g i oc unfolding pass2_inv_def op_ok_def jumps_op2_def by auto
  have ok: "op_ok o2" "owned o2 \<subseteq> owned ?o" "frees (opcode o2) = frees (opcode ?o)" "num (op1 ?o) \<notin> owned o2"
    using oc ok0 by (auto simp: o2_def op_ok_def jumps_op1_def jumps_op2_def owned_def frees_def)
  have n: "num (op1 ?o) \<in> owned (opcodes oa0 ! i)" using g i True unfolding pass2_inv_def owned_def by blast
  have at: "joined (H (literals oa)) oa i o2"
    unfolding joined_def using cond_at(2) [OF st i oc] cond_at(3) [OF st i True] with_jmp_step [OF i, of o2 "H (literals oa)"]
    by (simp add: o2_def n_def)
  show ?thesis
    using step_change(3) [OF st g i ok(1-3) at n ok(4)] step_change(1) [OF st g i ok(1-3) at] by (simp add: e)
qed (use g in \<open>simp add: pass2_jmpznz_def\<close>)

lemma pass2_cond_same:
  assumes st: "pass2_setting en H truth oa0" and g: "pass2_inv oa0 oa" and i: "i < last_op oa"
    and oc: "opcode (opcodes oa ! i) \<in> {ZEND_JMPZ, ZEND_JMPNZ}" and res: "pass2_cond en i oa = Some oa'"
  shows "(runs H oa' p s r \<longleftrightarrow> runs H oa p s r) \<and> pass2_inv oa0 oa'"
proof (cases "op_ty (op1 (opcodes oa ! i)) = IS_CONST")
  case True
  let ?o = "opcodes oa ! i"
  define t where "t = is_true en (lit oa (op1 ?o))"
  define jmp where "jmp = (if opcode ?o = ZEND_JMPZ then \<not> t else t)"
  define o2 where "o2 = (if jmp then ?o\<lparr>opcode := ZEND_JMP, op1 := op2 ?o\<rparr> else MAKE_NOP ?o)"
  have e: "oa' = set_lit (op1 ?o) ZNULL (with_op oa i o2)"
    using True res by (auto simp: pass2_cond_def literal_dtor_def upd_op_with o2_def jmp_def t_def Let_def split: if_splits)
  have ok0: "op_ty (op2 ?o) \<noteq> IS_CONST" using g i oc unfolding pass2_inv_def op_ok_def jumps_op2_def by auto
  then have own2: "owned o2 = {}" by (auto simp: o2_def owned_def MAKE_NOP_def unused_node_def)
  have ok: "op_ok o2" "frees (opcode o2) = frees (opcode ?o)"
    using oc ok0 by (auto simp: o2_def op_ok_def jumps_op1_def jumps_op2_def frees_def MAKE_NOP_def unused_node_def)
  have n: "num (op1 ?o) \<in> owned (opcodes oa0 ! i)" using g i True unfolding pass2_inv_def owned_def by blast
  have js: "jumps_when (truth (literals oa)) ?o s = jmp" for s
    using cond_at(3) [OF st i True, of s] by (simp add: jumps_when_def jmp_def t_def)
  have at: "joined (H (literals oa)) oa i o2"
  proof (cases jmp)
    case True
    then have "opcode o2 = ZEND_JMP" "op1 o2 = op2 ?o" by (simp_all add: o2_def)
    with True show ?thesis unfolding joined_def
      using cond_at(1) [OF st i oc] js with_jmp_step [OF i, of o2 "H (literals oa)"] by simp
  next
    case False
    then have "o2 = MAKE_NOP ?o" by (simp add: o2_def)
    with False show ?thesis unfolding joined_def
      using cond_at(1) [OF st i oc] js with_nop_step [OF i, of "H (literals oa)" ?o] by simp
  qed
  show ?thesis
    using step_change(3) [OF st g i ok(1) _ ok(2) at n, of ZNULL] step_change(1) [OF st g i ok(1) _ ok(2) at]
    by (simp add: e own2)
next
  case False
  let ?o = "opcodes oa ! i"
  let ?n = "opcodes oa ! Suc i"
  have i1: "Suc i < last_op oa" using res False by (auto simp: pass2_cond_def Let_def split: if_splits)
  show ?thesis
  proof (cases "opcode ?n = ZEND_JMP")
    case jmp: True
    define o2 where "o2 = (if num (op2 ?o) = num (op1 ?n) then MAKE_NOP ?o
      else if opcode ?o = ZEND_JMPZ then ?o\<lparr>extended_value := num (op1 ?n), opcode := ZEND_JMPZNZ\<rparr>
      else ?o\<lparr>extended_value := num (op2 ?o), op2 := op1 ?n, opcode := ZEND_JMPZNZ\<rparr>)"
    have e: "oa' = with_op oa i o2"
      using res False i1 jmp by (auto simp: pass2_cond_def Let_def upd_op_with o2_def split: if_splits)
    have ok0: "op_ty (op2 ?o) \<noteq> IS_CONST" "op_ty (op1 ?n) \<noteq> IS_CONST"
      using g i i1 oc jmp unfolding pass2_inv_def op_ok_def jumps_op2_def jumps_op1_def by auto
    have ok: "op_ok o2" "owned o2 \<subseteq> owned ?o" "frees (opcode o2) = frees (opcode ?o)"
      using oc ok0 by (auto simp: o2_def op_ok_def jumps_op1_def jumps_op2_def frees_def MAKE_NOP_def unused_node_def owned_def)
    have znz: "vm_step (H (literals oa)) (with_op oa i o2) i s
        = Go (if truth (literals oa) s (op1 o2) then extended_value o2 else num (op2 o2)) s" if "opcode o2 = ZEND_JMPZNZ" for s
      using cond_at(2) [OF st, of i "with_op oa i o2" s] i that by (simp add: with_op_def)
    have "joined (H (literals oa)) oa i o2"
    proof (cases "num (op2 ?o) = num (op1 ?n)")
      case True
      then show ?thesis unfolding joined_def
        using cond_at(1) [OF st i oc] with_nop_step [OF i, of "H (literals oa)" ?o] i1 jmp by (simp add: o2_def)
    next
      case False
      then have "opcode o2 = ZEND_JMPZNZ" by (simp add: o2_def)
      from False znz [OF this] cond_at(1) [OF st i oc] oc i1 jmp show ?thesis unfolding joined_def
        by (auto simp: o2_def jumps_when_def)
    qed
    then show ?thesis using step_change(1,2) [OF st g i ok] by (simp add: e)
  next
    case jmp: False
    then have "oa' = oa" using res False i1 by (simp add: pass2_cond_def Let_def)
    then show ?thesis using g by simp
  qed
qed

lemma pass2_brk_same:
  assumes st: "pass2_setting en H truth oa0" and g: "pass2_inv oa0 oa" and i: "i < last_op oa"
    and oc: "opcode (opcodes oa ! i) \<in> {ZEND_BRK, ZEND_CONT}" and res: "pass2_brk en i oa = Some oa'"
  shows "(runs H oa' p s r \<longleftrightarrow> runs H oa p s r) \<and> pass2_inv oa0 oa'"
proof (cases "op_ty (op2 (opcodes oa ! i)) = IS_CONST")
  case True
  let ?o = "opcodes oa ! i"
  let ?v = "to_long en (lit oa (op2 ?o))"
  let ?oa1 = "set_lit (op2 ?o) (ZLONG ?v) oa"
  have inv1: "pass2_inv oa0 ?oa1" using g by simp
  have n: "num (op2 ?o) \<in> owned (opcodes oa0 ! i)" using g i True unfolding pass2_inv_def owned_def by blast
  have lit: "runs H ?oa1 p s r \<longleftrightarrow> runs H oa p s r"
  proof -
    have "runs H (convert_lit (\<lambda>_. True) (\<lambda>v. ZLONG (to_long en v)) (op2 ?o) oa) p s r \<longleftrightarrow> runs H oa p s r"
      by (rule convert_lit_same [OF st g i]) (use oc in \<open>auto simp: converts_def\<close>)
    then show ?thesis using True by (simp add: convert_lit_def)
  qed
  have fl: "find_loop ?oa1 x y = find_loop oa0 x y" for x y by (rule find_loop_inv [OF inv1])
  show ?thesis
  proof (cases "find_loop oa0 (to_int32 (num (op1 ?o))) (int32 ?v)")
    case None
    then show ?thesis using res True by (simp add: pass2_brk_def fl Let_def)
  next
    case (Some x)
    show ?thesis
    proof (cases x)
      case None
      then have "oa' = ?oa1" using res True Some by (simp add: pass2_brk_def fl Let_def)
      then show ?thesis using lit inv1 by simp
    next
      case jmp: (Some e)
      define t where "t = (if opcode ?o = ZEND_BRK then bc_brk e else bc_cont e)"
      define o2 where "o2 = (set_op1 (MAKE_NOP ?o) (nat (t mod int two32)))\<lparr>opcode := ZEND_JMP\<rparr>"
      have e: "oa' = set_lit (op2 ?o) (ZLONG ?v) (with_op oa i o2)"
        using res True Some jmp by (simp add: pass2_brk_def fl Let_def upd_op_with o2_def t_def)
      let ?d = "nat (int32 ?v - 1)" and ?offs = "to_int32 (num (op1 ?o))"
      have en: "(\<forall>j \<le> ?d. is_entry oa0 (enclosing oa0 ?offs j)) \<and> (\<forall>j < ?d. keeps_variable oa0 (enclosing oa0 ?offs j))
          \<and> e = brk_cont_array oa0 ! nat (enclosing oa0 ?offs ?d)"
        by (rule find_loop_enclosing) (use Some jmp in simp)
      then have "is_entry oa0 (enclosing oa0 ?offs ?d)" by simp
      moreover have "H (literals oa) (blank ?o) s = (s, if opcode ?o = ZEND_BRK then Break_To (nat (enclosing oa0 ?offs ?d))
          else Continue_To (nat (enclosing oa0 ?offs ?d)))" for s
        using st oc True en unfolding pass2_setting_def loops_def lit_def by blast
      ultimately have "\<exists>k < length (brk_cont_array oa0). brk_cont_array oa0 ! k = e
          \<and> H (literals oa) (blank ?o) s = (s, if opcode ?o = ZEND_BRK then Break_To k else Continue_To k)" for s
        using en unfolding is_entry_def by blast
      then have br: "\<exists>k < length (brk_cont_array oa). brk_cont_array oa ! k = e
          \<and> H (literals oa) (blank ?o) s = (s, if opcode ?o = ZEND_BRK then Break_To k else Continue_To k)" for s
        using g by (simp add: pass2_inv_def)
      then have "e \<in> set (brk_cont_array oa0)" using g unfolding pass2_inv_def by (metis nth_mem)
      then have t: "0 \<le> t" "t < int two32" using st by (auto simp: pass2_setting_def tables_inside_def t_def)
      have "joined (H (literals oa)) oa i o2" unfolding joined_def
      proof
        fix s
        obtain k where k: "k < length (brk_cont_array oa)" "brk_cont_array oa ! k = e"
          "H (literals oa) (blank ?o) s = (s, if opcode ?o = ZEND_BRK then Break_To k else Continue_To k)" using br by blast
        have "vm_step (H (literals oa)) oa i s = Go (nat t) s"
          using oc k t i by (auto simp: vm_step_def Let_def resume_def go_int_def t_def)
        moreover have "vm_step (H (literals oa)) (with_op oa i o2) i s = Go (nat t) s"
          using with_jmp_step [OF i, of o2 "H (literals oa)"] t by (simp add: o2_def set_op1_def)
        ultimately show "\<exists>a b. vm_step (H (literals oa)) oa i s = Go a s \<and> vm_step (H (literals oa)) (with_op oa i o2) i s = Go b s
            \<and> (a = b \<or> (a < last_op oa \<and> a \<noteq> i \<and> opcode (opcodes oa ! a) = ZEND_JMP \<and> num (op1 (opcodes oa ! a)) = b)
              \<or> (b < last_op oa \<and> b \<noteq> i \<and> opcode (opcodes oa ! b) = ZEND_JMP \<and> num (op1 (opcodes oa ! b)) = a))" by simp
      qed
      from step_change(1,3) [OF st g i _ _ _ this] show ?thesis
        using oc n by (auto simp: e o2_def frees_def)
    qed
  qed
qed (use g res in \<open>simp add: pass2_brk_def\<close>)

text \<open>Constants of the value-keeping conditional jumps are booleans.\<close>

definition ex_bools :: "'x zend_op_array \<Rightarrow> bool" where
  "ex_bools oa \<longleftrightarrow> (\<forall>p < last_op oa. opcode (opcodes oa ! p) \<in> {ZEND_JMPZ_EX, ZEND_JMPNZ_EX} \<longrightarrow>
     op_ty (op1 (opcodes oa ! p)) = IS_CONST \<longrightarrow> is_bool (lit oa (op1 (opcodes oa ! p))))"

lemma pass2_jmp_ex_same:
  assumes st: "pass2_setting en H truth oa0" and g: "pass2_inv oa0 oa" and i: "i < last_op oa" and b: "ex_bools oa"
    and oc: "opcode (opcodes oa ! i) \<in> {ZEND_JMPZ_EX, ZEND_JMPNZ_EX}"
  shows "(runs H (pass2_jmp_ex en i oa) p s r \<longleftrightarrow> runs H oa p s r) \<and> pass2_inv oa0 (pass2_jmp_ex en i oa)"
proof (cases "op_ty (op1 (opcodes oa ! i)) = IS_CONST
    \<and> is_true en (lit oa (op1 (opcodes oa ! i))) = (opcode (opcodes oa ! i) = ZEND_JMPZ_EX)")
  case True
  let ?o = "opcodes oa ! i"
  define o2 where "o2 = ?o\<lparr>opcode := ZEND_QM_ASSIGN, op2 := SET_UNUSED (op2 ?o)\<rparr>"
  have e: "pass2_jmp_ex en i oa = with_op oa i o2"
    using True oc by (auto simp: pass2_jmp_ex_def upd_op_with o2_def Let_def)
  have "is_bool (lit oa (op1 ?o))" using b i oc True unfolding ex_bools_def by blast
  then have H: "\<exists>s'. H (literals oa) (blank ?o) s = (s', Next) \<and> H (literals oa) (blank o2) s = (s', Next)" for s
    using st oc True unfolding pass2_setting_def value_conds_def lit_def o2_def by blast
  have at: "vm_step (H (literals oa)) (with_op oa i o2) i s = vm_step (H (literals oa)) oa i s" for s
  proof -
    obtain s' where "H (literals oa) (blank ?o) s = (s', Next)" "H (literals oa) (blank o2) s = (s', Next)"
      using H by blast
    moreover have "opcode ?o \<notin> {ZEND_NOP, ZEND_JMP}" "opcode o2 \<notin> {ZEND_NOP, ZEND_JMP}" using oc by (auto simp: o2_def)
    ultimately show ?thesis using i by (simp add: vm_step_def with_op_def Let_def resume_def)
  qed
  have "vm_step (H (literals oa)) (with_op oa i o2) q s = vm_step (H (literals oa)) oa q s" for q s
  proof (cases "q = i")
    case False
    then show ?thesis using with_op_step_other [OF False, of "H (literals oa)" oa o2 s "opcodes oa ! i"] i by simp
  qed (use at in simp)
  then have "vm_run (H (literals oa)) (with_op oa i o2) p s r \<longleftrightarrow> vm_run (H (literals oa)) oa p s r" by (rule vm_run_cong)
  then have "runs H (with_op oa i o2) p s r \<longleftrightarrow> runs H oa p s r" by (simp add: runs_def with_op_def)
  moreover have "pass2_inv oa0 (with_op oa i o2)"
  proof -
    have "owned o2 \<subseteq> owned ?o" "op_ok o2" "frees (opcode o2) = frees (opcode ?o)"
      using oc by (auto simp: o2_def owned_def op_ok_def jumps_op1_def jumps_op2_def frees_def SET_UNUSED_def)
    moreover then have "owned o2 \<subseteq> owned (opcodes oa0 ! i)" using g i unfolding pass2_inv_def by blast
    ultimately show ?thesis using g i unfolding pass2_inv_def by (auto simp: with_op_def nth_list_update)
  qed
  ultimately show ?thesis by (simp add: e)
next
  case False
  then have "pass2_jmp_ex en i oa = oa" using oc by (auto simp: pass2_jmp_ex_def Let_def)
  then show ?thesis using g by simp
qed

text \<open>What a step leaves: the other instructions, the literals the instruction does not name;
  and where a value-keeping conditional jump is left, the step changed nothing.\<close>

lemma owned_iff:
  "n \<in> owned o1 \<longleftrightarrow> (op_ty (op1 o1) = IS_CONST \<and> n = num (op1 o1)) \<or> (op_ty (op2 o1) = IS_CONST \<and> n = num (op2 o1))"
  by (auto simp: owned_def)

lemma convert_lit_others: "n \<noteq> num z \<or> op_ty z \<noteq> IS_CONST \<Longrightarrow> literals (convert_lit test f z oa) ! n = literals oa ! n"
  by (auto simp: convert_lit_def set_lit_def)

lemma convert_operands_others:
  "n \<notin> owned (opcodes oa ! i) \<Longrightarrow> literals (convert_operands test f b i oa) ! n = literals oa ! n"
  "opcodes (convert_operands test f b i oa) = opcodes oa"
  by (auto simp: convert_operands_def Let_def owned_iff convert_lit_others)

lemma pass2_op_after:
  assumes "i < last_op oa"
  shows "pass2_cond en i oa = Some oa' \<Longrightarrow> opcode (opcodes oa' ! i) \<in> {opcode (opcodes oa ! i), ZEND_JMP, ZEND_NOP, ZEND_JMPZNZ}"
    and "pass2_brk en i oa = Some oa' \<Longrightarrow> opcode (opcodes oa' ! i) \<in> {opcode (opcodes oa ! i), ZEND_JMP}"
    and "opcode (opcodes (pass2_jmpznz en i oa) ! i) \<in> {opcode (opcodes oa ! i), ZEND_JMP}"
proof -
  note defs = Let_def upd_op_def literal_dtor_def set_lit_def MAKE_NOP_def set_op1_def
  show "opcode (opcodes oa' ! i) \<in> {opcode (opcodes oa ! i), ZEND_JMP, ZEND_NOP, ZEND_JMPZNZ}" if "pass2_cond en i oa = Some oa'"
    using that assms by (auto simp: pass2_cond_def defs split: if_splits)
  show "opcode (opcodes oa' ! i) \<in> {opcode (opcodes oa ! i), ZEND_JMP}" if "pass2_brk en i oa = Some oa'"
    using that assms by (auto simp: pass2_brk_def defs split: if_splits option.splits)
  show "opcode (opcodes (pass2_jmpznz en i oa) ! i) \<in> {opcode (opcodes oa ! i), ZEND_JMP}"
    using assms by (auto simp: pass2_jmpznz_def defs)
qed

lemma pass2_step_others:
  assumes st: "pass2_step en i oa = Some oa'" and i: "i < last_op oa"
  shows "p \<noteq> i \<Longrightarrow> opcodes oa' ! p = opcodes oa ! p"
    and "n \<notin> owned (opcodes oa ! i) \<Longrightarrow> literals oa' ! n = literals oa ! n"
    and "opcode (opcodes oa' ! i) \<in> {ZEND_JMPZ_EX, ZEND_JMPNZ_EX} \<Longrightarrow> oa' = oa"
proof -
  note defs = pass2_step_def pass2_cond_def pass2_brk_def pass2_jmpznz_def pass2_jmp_ex_def Let_def
    upd_op_def literal_dtor_def set_lit_def owned_iff convert_operands_others
  show "opcodes oa' ! p = opcodes oa ! p" if "p \<noteq> i"
    using st that by (auto simp: defs split: if_splits option.splits)
  show "literals oa' ! n = literals oa ! n" if "n \<notin> owned (opcodes oa ! i)"
    using st that convert_operands_others(1) [OF that] by (auto simp: defs split: if_splits option.splits)
  show "oa' = oa" if "opcode (opcodes oa' ! i) \<in> {ZEND_JMPZ_EX, ZEND_JMPNZ_EX}"
  proof (cases "opcode (opcodes oa ! i) \<in> {ZEND_JMPZ_EX, ZEND_JMPNZ_EX}")
    case True
    then have "oa' = pass2_jmp_ex en i oa" using st by (elim insertE emptyE) (simp_all add: pass2_step_def Let_def)
    then show ?thesis using that i by (auto simp: pass2_jmp_ex_def upd_op_def Let_def split: if_splits)
  next
    case False
    have "opcode (opcodes oa' ! i) \<in> {opcode (opcodes oa ! i), ZEND_JMP, ZEND_NOP, ZEND_JMPZNZ}"
      using st False pass2_op_after(1,2) [OF i, of en oa'] pass2_op_after(3) [OF i, of en]
      by (auto simp: pass2_step_def Let_def convert_operands_others(2) split: if_splits)
    then show ?thesis using that False by auto
  qed
qed

lemma ex_bools_step:
  assumes st: "pass2_setting en H truth oa0" and g: "pass2_inv oa0 oa" and i: "i < last_op oa" and b: "ex_bools oa"
    and res: "pass2_step en i oa = Some oa'" and l: "last_op oa' = last_op oa"
  shows "ex_bools oa'"
  unfolding ex_bools_def
proof (intro allI impI)
  fix p
  assume p: "p < last_op oa'" and oc: "opcode (opcodes oa' ! p) \<in> {ZEND_JMPZ_EX, ZEND_JMPNZ_EX}"
    and c: "op_ty (op1 (opcodes oa' ! p)) = IS_CONST"
  note others = pass2_step_others [OF res i]
  show "is_bool (lit oa' (op1 (opcodes oa' ! p)))"
  proof (cases "p = i")
    case True
    then have "oa' = oa" using others(3) oc by blast
    then show ?thesis using b p oc c unfolding ex_bools_def by blast
  next
    case False
    then have o: "opcodes oa' ! p = opcodes oa ! p" by (rule others(1))
    let ?n = "num (op1 (opcodes oa ! p))"
    have "?n \<in> owned (opcodes oa ! p)" using c by (auto simp: owned_def o)
    then have "?n \<in> owned (opcodes oa0 ! p)" using g p l unfolding pass2_inv_def by auto
    then have "?n \<notin> owned (opcodes oa ! i)" using owned_alone [OF st g i] False p l by metis
    then have "lit oa' (op1 (opcodes oa ! p)) = lit oa (op1 (opcodes oa ! p))" by (simp add: lit_def others(2))
    then show ?thesis using b p l oc c unfolding ex_bools_def o by auto
  qed
qed

lemma pass2_step_same:
  assumes st: "pass2_setting en H truth oa0" and g: "pass2_inv oa0 oa" and i: "i < last_op oa" and bools: "ex_bools oa"
    and res: "pass2_step en i oa = Some oa'"
  shows "(runs H oa' p s r \<longleftrightarrow> runs H oa p s r) \<and> pass2_inv oa0 oa'"
proof -
  let ?oc = "opcode (opcodes oa ! i)"
  note cv = convert_operands_same [OF st g i]
  consider (ar) "?oc \<in> {ZEND_ADD, ZEND_SUB, ZEND_MUL, ZEND_DIV, ZEND_ASSIGN_ADD, ZEND_ASSIGN_SUB, ZEND_ASSIGN_MUL, ZEND_ASSIGN_DIV}"
    | (md) "?oc \<in> {ZEND_MOD, ZEND_SL, ZEND_SR, ZEND_ASSIGN_MOD, ZEND_ASSIGN_SL, ZEND_ASSIGN_SR}"
    | (cc) "?oc \<in> {ZEND_CONCAT, ZEND_ASSIGN_CONCAT}" | (cd) "?oc \<in> {ZEND_JMPZ, ZEND_JMPNZ}"
    | (ex) "?oc \<in> {ZEND_JMPZ_EX, ZEND_JMPNZ_EX}"
    | (zn) "?oc = ZEND_JMPZNZ" | (br) "?oc \<in> {ZEND_BRK, ZEND_CONT}" | (no) "?oc \<notin> {ZEND_ADD, ZEND_SUB, ZEND_MUL, ZEND_DIV, ZEND_ASSIGN_ADD, ZEND_ASSIGN_SUB, ZEND_ASSIGN_MUL, ZEND_ASSIGN_DIV, ZEND_MOD, ZEND_SL, ZEND_SR,
        ZEND_ASSIGN_MOD, ZEND_ASSIGN_SL, ZEND_ASSIGN_SR, ZEND_CONCAT, ZEND_ASSIGN_CONCAT, ZEND_JMPZ_EX, ZEND_JMPNZ_EX, ZEND_JMPZ, ZEND_JMPNZ, ZEND_JMPZNZ, ZEND_BRK, ZEND_CONT}"
    by blast
  then show ?thesis
  proof cases
    case ar
    then have e: "oa' = convert_operands is_string (scalar_to_number en) (?oc \<in> {ZEND_ADD, ZEND_SUB, ZEND_MUL, ZEND_DIV}) i oa"
      using res by (elim insertE emptyE) (simp_all add: pass2_step_def Let_def)
    have c: "converts en ?oc v (scalar_to_number en v)" if "is_string v" for v using that ar by (simp add: converts_def)
    show ?thesis unfolding e by (intro conjI cv c)
  next
    case md
    then have e: "oa' = convert_operands (\<lambda>v. \<not> is_long v) (\<lambda>v. ZLONG (to_long en v)) (?oc \<in> {ZEND_MOD, ZEND_SL, ZEND_SR}) i oa"
      using res by (elim insertE emptyE) (simp_all add: pass2_step_def Let_def)
    have c: "converts en ?oc v (ZLONG (to_long en v))" for v using md unfolding converts_def by blast
    show ?thesis unfolding e by (intro conjI cv c)
  next
    case cc
    then have e: "oa' = convert_operands (\<lambda>v. \<not> is_string v) (\<lambda>v. ZSTRING (to_string en v)) (?oc = ZEND_CONCAT) i oa"
      using res by (elim insertE emptyE) (simp_all add: pass2_step_def Let_def)
    have c: "converts en ?oc v (ZSTRING (to_string en v))" for v using cc unfolding converts_def by blast
    show ?thesis unfolding e by (intro conjI cv c)
  next
    case cd
    then have "pass2_cond en i oa = Some oa'" using res by (elim insertE emptyE) (simp_all add: pass2_step_def Let_def)
    then show ?thesis by (rule pass2_cond_same [OF st g i cd])
  next
    case ex
    then have "oa' = pass2_jmp_ex en i oa" using res by (elim insertE emptyE) (simp_all add: pass2_step_def Let_def)
    then show ?thesis using pass2_jmp_ex_same [OF st g i bools ex] by blast
  next
    case zn
    then have "oa' = pass2_jmpznz en i oa" using res by (simp add: pass2_step_def Let_def)
    then show ?thesis using pass2_jmpznz_same [OF st g i zn] by blast
  next
    case br
    then have "pass2_brk en i oa = Some oa'" using res by (elim insertE emptyE) (simp_all add: pass2_step_def Let_def)
    then show ?thesis by (rule pass2_brk_same [OF st g i br])
  next
    case no
    then have "oa' = oa" using res by (simp add: pass2_step_def Let_def)
    then show ?thesis using g by simp
  qed
qed

lemma pass2_from_same:
  assumes st: "pass2_setting en H truth oa0" and "pass2_inv oa0 oa" "i + n \<le> last_op oa" "ex_bools oa" "pass2_from en i n oa = Some oa'"
  shows "runs H oa' p s r \<longleftrightarrow> runs H oa p s r"
  using assms(2-)
proof (induction n arbitrary: i oa)
  case (Suc n)
  then obtain oa1 where s1: "pass2_step en i oa = Some oa1" and f1: "pass2_from en (Suc i) n oa1 = Some oa'"
    by (auto split: option.splits)
  have i: "i < last_op oa" using Suc.prems(2) by simp
  note same = pass2_step_same [OF st Suc.prems(1) i Suc.prems(3) s1]
  have g1: "pass2_inv oa0 oa1" using same by blast
  then have l: "last_op oa1 = last_op oa" using Suc.prems(1) by (simp add: pass2_inv_def)
  then have "runs H oa' p s r \<longleftrightarrow> runs H oa1 p s r"
    using Suc.IH [OF g1 _ ex_bools_step [OF st Suc.prems(1) i Suc.prems(3) s1 l] f1] Suc.prems(2) by simp
  then show ?case using same by blast
qed simp

section \<open>Properties\<close>

text \<open>C8. Pass 2 keeps the behaviour. For code in which no two instructions share a literal,
  with jump operands that are not constants and with booleans for the constants of JMPZ_EX and
  JMPNZ_EX, under an engine whose operators treat a constant operand as its conversion, whose
  conditional jumps look at the truth of their operand and whose BRK and CONT leave the number
  of enclosing loops that op2 says, the code after the pass ends as the code before it, from
  every place and state.\<close>

theorem pass2_correct:
  assumes "pass2_setting en H truth oa" and "\<And>p. p < last_op oa \<Longrightarrow> op_ok (opcodes oa ! p)" and "ex_bools oa"
    and "pass2 en oa = Some oa'"
  shows "runs H oa' p s r \<longleftrightarrow> runs H oa p s r"
proof -
  have "pass2_inv oa oa" using assms(2) by (simp add: pass2_inv_def)
  then show ?thesis using pass2_from_same [OF assms(1), of oa 0 "last_op oa" oa' p s r] assms(3,4) by (simp add: pass2_def)
qed

definition demo_engine :: "nat engine" where
  "demo_engine = \<lparr>scalar_to_number = (\<lambda>_. ZLONG 5), to_long = (\<lambda>v. case v of ZLONG i \<Rightarrow> i | _ \<Rightarrow> 0),
     to_string = (\<lambda>_. []), is_true = (\<lambda>v. v \<noteq> ZBOOL False)\<rparr>"

definition demo_truth_lit :: "nat zend_literal list \<Rightarrow> nat \<Rightarrow> znode \<Rightarrow> bool" where
  "demo_truth_lit L s z \<longleftrightarrow> (if op_ty z = IS_CONST then is_true demo_engine (lit_constant (L ! num z)) else s \<noteq> num z)"

definition demo_lit_handlers :: "(nat, nat) lit_handlers" where
  "demo_lit_handlers L o1 s =
     (let oc = opcode o1; t = demo_truth_lit L s (op1 o1) in
      if oc = ZEND_JMPZ then (s, if t then Next else To_Op2)
      else if oc = ZEND_JMPNZ then (s, if t then To_Op2 else Next)
      else if oc = ZEND_JMPZNZ then (s, if t then To_Ext else To_Op2)
      else if oc = ZEND_JMPZ_EX then (Suc s, if t then Next else To_Op2)
      else if oc = ZEND_JMPNZ_EX then (Suc s, if t then To_Op2 else Next)
      else if oc = ZEND_BRK then (s, Break_To 0) else if oc = ZEND_CONT then (s, Continue_To 0)
      else if oc = ZEND_RETURN then (s, Leave) else (Suc s, Next))"

definition demo_pass2 :: "nat zend_op_array" where
  "demo_pass2 = (code_of [(plain ZEND_JMPZ)\<lparr>op1 := node IS_CONST 0, op2 := node IS_UNUSED 2\<rparr>,
      (plain ZEND_BRK)\<lparr>op2 := node IS_CONST 1\<rparr>, (plain ZEND_ADD)\<lparr>op1 := node IS_CV 0, op2 := node IS_CONST 2\<rparr>,
      (plain ZEND_JMPZ_EX)\<lparr>op1 := node IS_CONST 3, op2 := node IS_UNUSED 4\<rparr>,
      plain ZEND_RETURN] [ZBOOL False, ZLONG 1, ZSTRING ''5'', ZBOOL True])
     \<lparr>brk_cont_array := [\<lparr>bc_start = 0, bc_cont = 3, bc_brk = 3, bc_parent = - 1\<rparr>]\<rparr>"

lemma demo_pass2_setting: "pass2_setting demo_engine demo_lit_handlers demo_truth_lit demo_pass2"
  unfolding pass2_setting_def
proof (intro conjI)
  have t: "demo_truth_lit (L[n := l]) s (op1 o1) = demo_truth_lit L s (op1 o1)" if "n \<notin> owned o1" for L n l s o1
  proof -
    have "op_ty (op1 o1) = IS_CONST \<Longrightarrow> num (op1 o1) \<noteq> n" using that by (auto simp: owned_def)
    then show ?thesis by (auto simp: demo_truth_lit_def)
  qed
  have b: "op1 (blank o1) = op1 o1" "opcode (blank o1) = opcode o1"
    if "opcode o1 \<in> {ZEND_JMPZ, ZEND_JMPNZ, ZEND_JMPZNZ, ZEND_JMPZ_EX, ZEND_JMPNZ_EX}" for o1
    using that by (auto simp: blank_def jumps_op1_def)
  have bo: "opcode (blank o1) = opcode o1" for o1 by (simp add: blank_def)
  show "handlers_private demo_lit_handlers (owned_by (opcodes demo_pass2))"
    using t b by (simp add: handlers_private_def demo_lit_handlers_def Let_def bo)
  show "same_converted demo_engine demo_lit_handlers"
    by (auto simp: same_converted_def converts_def demo_lit_handlers_def bo Let_def)
  show "conds demo_engine demo_lit_handlers demo_truth_lit"
    unfolding conds_def cond_handlers_def
  proof (intro allI conjI impI)
    show "demo_truth_lit L s a = demo_truth_lit L s c" if "SAME_VAR a c" for L s a c
      using that by (auto simp: SAME_VAR_def demo_truth_lit_def)
    show "demo_truth_lit L s z = is_true demo_engine (lit_constant (L ! num z))" if "op_ty z = IS_CONST" for L s z
      using that by (simp add: demo_truth_lit_def)
  qed (simp_all add: demo_lit_handlers_def bo b Let_def)
  show "value_conds demo_engine demo_lit_handlers"
    unfolding value_conds_def
    by (auto simp: demo_lit_handlers_def demo_truth_lit_def bo b Let_def)
  show "loops demo_engine demo_lit_handlers demo_pass2"
    unfolding loops_def
  proof (intro allI impI)
    fix L :: "nat zend_literal list" and o1 :: zend_op and s offs d
    assume o: "opcode o1 \<in> {ZEND_BRK, ZEND_CONT}" and "\<forall>j \<le> d. is_entry demo_pass2 (enclosing demo_pass2 offs j)"
    then have "nat (enclosing demo_pass2 offs d) = 0" by (simp add: is_entry_def demo_pass2_def)
    then show "demo_lit_handlers L (blank o1) s = (s, if opcode o1 = ZEND_BRK then Break_To (nat (enclosing demo_pass2 offs d))
        else Continue_To (nat (enclosing demo_pass2 offs d)))"
      using o by (auto simp: demo_lit_handlers_def bo)
  qed
  have "map owned (opcodes demo_pass2) = [{0}, {1}, {2}, {3}, {}]"
  proof -
    have c: "owned o1 = (if op_ty (op1 o1) = IS_CONST then {num (op1 o1)} else {})
        \<union> (if op_ty (op2 o1) = IS_CONST then {num (op2 o1)} else {})" for o1
      by (auto simp: owned_def)
    show ?thesis by (simp add: c demo_pass2_def code_of_def plain_def node_def unused_node_def)
  qed
  then show "unshared (opcodes demo_pass2)"
    by (auto simp: demo_pass2_def code_of_def unshared_def All_less_Suc eval_nat_numeral)
  show "tables_inside demo_pass2" by (simp add: tables_inside_def demo_pass2_def two32_def)
qed

lemma pass2_correct_witness:
  "\<exists>oa'. pass2 demo_engine demo_pass2 = Some oa' \<and> map opcode (opcodes oa') = [ZEND_JMP, ZEND_JMP, ZEND_ADD, ZEND_QM_ASSIGN, ZEND_RETURN]
     \<and> lit oa' (node IS_CONST 2) = ZLONG 5
     \<and> (\<forall>s r. runs demo_lit_handlers oa' 0 s r \<longleftrightarrow> runs demo_lit_handlers demo_pass2 0 s r)"
proof -
  note defs = demo_pass2_def code_of_def plain_def node_def unused_node_def
  have ok: "op_ok (opcodes demo_pass2 ! p)" if "p < last_op demo_pass2" for p
    using that by (auto simp: defs less_Suc_eq op_ok_def jumps_op1_def jumps_op2_def)
  have bools: "ex_bools demo_pass2"
    by (auto simp: defs less_Suc_eq ex_bools_def is_bool_def lit_def)
  have "\<exists>oa'. pass2 demo_engine demo_pass2 = Some oa' \<and> map opcode (opcodes oa') = [ZEND_JMP, ZEND_JMP, ZEND_ADD, ZEND_QM_ASSIGN, ZEND_RETURN]
     \<and> lit oa' (node IS_CONST 2) = ZLONG 5" (is "\<exists>oa'. ?P oa'")
    by (simp add: pass2_def defs pass2_step_def pass2_cond_def pass2_brk_def pass2_jmp_ex_def demo_engine_def lit_def find_loop.simps
        upd_op_def set_lit_def literal_dtor_def convert_operands_def convert_lit_def to_int32_def int32_def two32_def
        MAKE_NOP_def set_op1_def is_string_def Let_def)
  then obtain oa' where p: "?P oa'" ..
  then have r: "pass2 demo_engine demo_pass2 = Some oa'" by (elim conjE)
  have same: "runs demo_lit_handlers oa' 0 s r \<longleftrightarrow> runs demo_lit_handlers demo_pass2 0 s r" for s r
    by (rule pass2_correct [OF demo_pass2_setting ok bools r])
  show ?thesis by (rule exI [of _ oa']) (use p same in simp)
qed

end
