(* ===== verification/Pass1.thy ===== *)
theory Pass1
  imports Pass2 "HOL-Library.Monad_Syntax"
begin

text \<open>
  Pass 1, \<open>Optimizer/pass1_5.c\<close>, with the helpers of \<open>Optimizer/zend_optimizer.c\<close>: constant
  operators are evaluated and their result is put where the temporary was used, constants are
  substituted, series of ADD_STRING and ADD_CHAR become one instruction, and calls by a constant
  name become DO_FCALL.

  What the engine computes is the record \<open>folding\<close>. A string value and the literals made from it
  share one buffer, so that \<open>zend_str_tolower\<close> on the value changes the literal as well; this is
  written out. The names of compiled variables are compared by their text (the test for the same
  pointer is a shortcut for that). \<open>None\<close> is a read outside of the code or a literal of a type
  that the code does not expect.
\<close>

section \<open>The engine\<close>

record 'x folding =
  binary_op :: "nat \<Rightarrow> 'x zval \<Rightarrow> 'x zval \<Rightarrow> 'x zval option"
  unary_op :: "nat \<Rightarrow> 'x zval \<Rightarrow> 'x zval option"
  convert_to :: "nat \<Rightarrow> 'x zval \<Rightarrow> 'x zval"
  compiler_halt_offset :: "'x zval option"
  persistent_constant :: "string \<Rightarrow> 'x zval option"
  hash_of :: "string \<Rightarrow> 64 word"
  to_lower :: "string \<Rightarrow> string"
  numeric_key :: "string \<Rightarrow> int option"
  fetches_local :: "nat \<Rightarrow> bool"

text \<open>The types that a CAST can name.\<close>

abbreviation (input) TYPE_BOOL :: nat where "TYPE_BOOL \<equiv> 3"
abbreviation (input) TYPE_ARRAY :: nat where "TYPE_ARRAY \<equiv> 4"
abbreviation (input) TYPE_OBJECT :: nat where "TYPE_OBJECT \<equiv> 5"
abbreviation (input) TYPE_RESOURCE :: nat where "TYPE_RESOURCE \<equiv> 7"

section \<open>Literals\<close>

definition zend_optimizer_add_literal :: "'x zval \<Rightarrow> 'x zend_op_array \<Rightarrow> nat \<times> 'x zend_op_array" where
  "zend_optimizer_add_literal v oa =
     (length (literals oa), oa\<lparr>literals := literals oa @ [\<lparr>lit_constant = v, lit_hash_value = 0, cache_slot = UINT_MAX\<rparr>]\<rparr>)"

definition upd_lit :: "nat \<Rightarrow> ('x zend_literal \<Rightarrow> 'x zend_literal) \<Rightarrow> 'x zend_op_array \<Rightarrow> 'x zend_op_array" where
  "upd_lit k f oa = oa\<lparr>literals := (literals oa)[k := f (literals oa ! k)]\<rparr>"

text \<open>\<open>Z_HASH_P\<close> of a literal that is a string.\<close>

definition set_hash :: "'x folding \<Rightarrow> nat \<Rightarrow> string \<Rightarrow> 'x zend_op_array \<Rightarrow> 'x zend_op_array" where
  "set_hash F k s = upd_lit k (\<lambda>l. l\<lparr>lit_hash_value := hash_of F s\<rparr>)"

definition new_cache_slot :: "nat \<Rightarrow> nat \<Rightarrow> 'x zend_op_array \<Rightarrow> 'x zend_op_array" where
  "new_cache_slot k n oa = (upd_lit k (\<lambda>l. l\<lparr>cache_slot := last_cache_slot oa\<rparr>) oa)\<lparr>last_cache_slot := last_cache_slot oa + n\<rparr>"

text \<open>The value in lower case, in the buffer it shares with literal \<open>k\<close>, becomes another literal.\<close>

definition add_lower :: "'x folding \<Rightarrow> nat \<Rightarrow> string \<Rightarrow> 'x zend_op_array \<Rightarrow> 'x zend_op_array" where
  "add_lower F k s oa =
     (let low = to_lower F s;
          (k2, oa1) = zend_optimizer_add_literal (ZSTRING low) (upd_lit k (\<lambda>l. l\<lparr>lit_constant := ZSTRING low\<rparr>) oa)
      in set_hash F (Suc k) low oa1)"

definition set_op1_const :: "nat \<Rightarrow> nat \<Rightarrow> 'x zend_op_array \<Rightarrow> 'x zend_op_array" where
  "set_op1_const i k = upd_op i (\<lambda>o1. o1\<lparr>op1 := \<lparr>op_ty = IS_CONST, ext_unused = False, num = k\<rparr>\<rparr>)"

definition set_op2_const :: "nat \<Rightarrow> nat \<Rightarrow> 'x zend_op_array \<Rightarrow> 'x zend_op_array" where
  "set_op2_const i k = upd_op i (\<lambda>o1. o1\<lparr>op2 := \<lparr>op_ty = IS_CONST, ext_unused = False, num = k\<rparr>\<rparr>)"

definition update_op1_const :: "'x folding \<Rightarrow> nat \<Rightarrow> 'x zval \<Rightarrow> 'x zend_op_array \<Rightarrow> 'x zend_op_array" where
  "update_op1_const F i v oa =
     (let oc = opcode (opcodes oa ! i) in
      if oc = ZEND_FREE then upd_op i MAKE_NOP oa
      else case v of
        ZSTRING s \<Rightarrow>
          if oc \<in> {ZEND_INIT_STATIC_METHOD_CALL, ZEND_CATCH, ZEND_FETCH_CONSTANT}
          then (let (k, oa1) = zend_optimizer_add_literal v oa
                in add_lower F k s (new_cache_slot k 1 (set_hash F k s (set_op1_const i k oa1))))
          else if oc = ZEND_DO_FCALL
          then (let low = to_lower F s; (k, oa1) = zend_optimizer_add_literal (ZSTRING low) oa
                in new_cache_slot k 1 (set_hash F k low (set_op1_const i k oa1)))
          else (let (k, oa1) = zend_optimizer_add_literal v oa in set_hash F k s (set_op1_const i k oa1))
      | _ \<Rightarrow> (let (k, oa1) = zend_optimizer_add_literal v oa in set_op1_const i k oa1))"

definition assign_ops :: "nat set" where
  "assign_ops = {ZEND_ASSIGN_ADD, ZEND_ASSIGN_SUB, ZEND_ASSIGN_MUL, ZEND_ASSIGN_DIV, ZEND_ASSIGN_MOD, ZEND_ASSIGN_SL,
     ZEND_ASSIGN_SR, ZEND_ASSIGN_CONCAT, ZEND_ASSIGN_BW_OR, ZEND_ASSIGN_BW_AND, ZEND_ASSIGN_BW_XOR}"

definition names_global :: "nat set" where
  "names_global = {ZEND_FETCH_R, ZEND_FETCH_W, ZEND_FETCH_RW, ZEND_FETCH_IS, ZEND_FETCH_UNSET, ZEND_FETCH_FUNC_ARG,
     ZEND_FETCH_CLASS, ZEND_INIT_FCALL_BY_NAME, ZEND_UNSET_VAR, ZEND_ISSET_ISEMPTY_VAR, ZEND_ADD_INTERFACE, ZEND_ADD_TRAIT}"

definition names_method :: "nat set" where
  "names_method = {ZEND_INIT_METHOD_CALL, ZEND_INIT_STATIC_METHOD_CALL}"

definition names_property :: "nat set" where
  "names_property = {ZEND_ASSIGN_OBJ, ZEND_FETCH_OBJ_R, ZEND_FETCH_OBJ_W, ZEND_FETCH_OBJ_RW, ZEND_FETCH_OBJ_IS, ZEND_FETCH_OBJ_UNSET,
     ZEND_FETCH_OBJ_FUNC_ARG, ZEND_UNSET_OBJ, ZEND_PRE_INC_OBJ, ZEND_PRE_DEC_OBJ, ZEND_POST_INC_OBJ, ZEND_POST_DEC_OBJ,
     ZEND_ISSET_ISEMPTY_PROP_OBJ}"

definition names_element :: "nat set" where
  "names_element = {ZEND_ISSET_ISEMPTY_DIM_OBJ, ZEND_ADD_ARRAY_ELEMENT, ZEND_INIT_ARRAY, ZEND_ASSIGN_DIM, ZEND_UNSET_DIM,
     ZEND_FETCH_DIM_R, ZEND_FETCH_DIM_W, ZEND_FETCH_DIM_RW, ZEND_FETCH_DIM_IS, ZEND_FETCH_DIM_FUNC_ARG, ZEND_FETCH_DIM_UNSET,
     ZEND_FETCH_DIM_TMP_VAR}"

text \<open>\<open>check_numeric\<close>: the name of an array element that is a number becomes a long.\<close>

definition check_numeric :: "'x folding \<Rightarrow> nat \<Rightarrow> string \<Rightarrow> 'x zend_op_array \<Rightarrow> 'x zend_op_array" where
  "check_numeric F k s oa =
     (case numeric_key F s of
        None \<Rightarrow> oa
      | Some n \<Rightarrow> upd_lit k (\<lambda>l. l\<lparr>lit_constant := ZLONG n\<rparr>) oa)"

text \<open>An OP_DATA is looked at with the instruction before it; \<open>None\<close> for one at the beginning.\<close>

definition update_op2_const :: "'x folding \<Rightarrow> nat \<Rightarrow> 'x zval \<Rightarrow> 'x zend_op_array \<Rightarrow> 'x zend_op_array option" where
  "update_op2_const F i v oa =
     (let o1 = opcodes oa ! i; oc = opcode o1; prev = opcodes oa ! (i - 1);
          (k, oa1) = zend_optimizer_add_literal v oa; oa2 = set_op2_const i k oa1
      in case v of
        ZSTRING s \<Rightarrow>
          (let oa3 = set_hash F k s oa2 in
           if oc \<in> names_global then Some (add_lower F k s (new_cache_slot k 1 oa3))
           else if oc \<in> names_method then Some (new_cache_slot k 2 (add_lower F k s oa3))
           else if oc \<in> names_property then Some (new_cache_slot k 2 oa3)
           else if oc \<in> assign_ops then Some (if extended_value o1 = ZEND_ASSIGN_OBJ then new_cache_slot k 2 oa3 else oa3)
           else if oc = ZEND_OP_DATA
           then if i = 0 then None
                else Some (if opcode prev = ZEND_ASSIGN_DIM \<or> extended_value prev = ZEND_ASSIGN_DIM \<and> opcode prev \<in> assign_ops
                           then check_numeric F k s oa3 else oa3)
           else if oc \<in> names_element then Some (check_numeric F k s oa3)
           else Some oa3)
      | _ \<Rightarrow> Some oa2)"

section \<open>\<open>replace_tmp_by_const\<close>\<close>

definition is_tmp :: "znode \<Rightarrow> nat \<Rightarrow> bool" where
  "is_tmp z var \<longleftrightarrow> op_ty z = IS_TMP_VAR \<and> \<not> ext_unused z \<and> num z = var"

text \<open>The innermost loop or switch around instruction \<open>i\<close>, searched from the last one.\<close>

fun enclosing_switch :: "brk_cont_element list \<Rightarrow> nat \<Rightarrow> nat \<Rightarrow> brk_cont_element option" where
  "enclosing_switch bcs 0 i = None"
| "enclosing_switch bcs (Suc n) i =
     (if bc_start (bcs ! n) \<le> int i \<and> bc_brk (bcs ! n) > int i then Some (bcs ! n) else enclosing_switch bcs n i)"

text \<open>The cases of a switch over the constant, and the end of its value, from \<open>m\<close> to \<open>n\<close>.\<close>

fun replace_cases :: "'x folding \<Rightarrow> nat \<Rightarrow> 'x zval \<Rightarrow> nat \<Rightarrow> nat \<Rightarrow> 'x zend_op_array \<Rightarrow> 'x zend_op_array" where
  "replace_cases F var v m 0 oa = oa"
| "replace_cases F var v m (Suc n) oa =
     (let o1 = opcodes oa ! m in
      replace_cases F var v (Suc m) n
        (if is_tmp (op1 o1) var
         then if opcode o1 = ZEND_CASE then update_op1_const F m v oa
              else if opcode o1 = ZEND_FREE then upd_op m MAKE_NOP oa else oa
         else oa))"

definition replace_in_switch :: "'x folding \<Rightarrow> nat \<Rightarrow> nat \<Rightarrow> 'x zval \<Rightarrow> 'x zend_op_array \<Rightarrow> 'x zend_op_array option" where
  "replace_in_switch F i var v oa =
     (case enclosing_switch (brk_cont_array oa) (length (brk_cont_array oa)) i of
        None \<Rightarrow> Some (upd_op i MAKE_NOP oa)
      | Some b \<Rightarrow> if nat (bc_brk b) < last_op oa then Some (replace_cases F var v i (nat (bc_brk b) + 1 - i) oa) else None)"

function replace_tmp_by_const :: "'x folding \<Rightarrow> nat \<Rightarrow> nat \<Rightarrow> 'x zval \<Rightarrow> 'x zend_op_array \<Rightarrow> 'x zend_op_array option" where
  "replace_tmp_by_const F i var v oa =
     (if \<not> i < last_op oa then Some oa
      else let o1 = opcodes oa ! i in
        if is_tmp (op1 o1) var
        then if opcode o1 = ZEND_CASE \<or> opcode o1 = ZEND_FREE then replace_in_switch F i var v oa
             else Some (update_op1_const F i v oa)
        else if is_tmp (op2 o1) var then update_op2_const F i v oa
        else replace_tmp_by_const F (Suc i) var v oa)"
  by pat_completeness auto
termination by (relation "measure (\<lambda>(F, i, var, v, oa). last_op oa - i)") auto

declare replace_tmp_by_const.simps [simp del]

section \<open>The cases of the pass\<close>

text \<open>\<open>MAKE_NOP\<close> of instruction \<open>i\<close>, and its result replaced by the constant in the instructions
  from \<open>j\<close> on.\<close>

definition fold_result :: "'x folding \<Rightarrow> nat \<Rightarrow> nat \<Rightarrow> 'x zval \<Rightarrow> 'x zend_op_array \<Rightarrow> 'x zend_op_array option" where
  "fold_result F i j v oa = replace_tmp_by_const F j (num (result (opcodes oa ! i))) v (upd_op i MAKE_NOP oa)"

definition fold_binary :: "'x folding \<Rightarrow> nat \<Rightarrow> 'x zend_op_array \<Rightarrow> 'x zend_op_array option" where
  "fold_binary F i oa =
     (let o1 = opcodes oa ! i; a = lit oa (op1 o1); b = lit oa (op2 o1) in
      if op_ty (op1 o1) = IS_CONST \<and> op_ty (op2 o1) = IS_CONST
      then if opcode o1 = ZEND_DIV \<and> b = ZLONG 0 then Some oa
           else case binary_op F (opcode o1) a b of
                  None \<Rightarrow> Some oa
                | Some v \<Rightarrow> fold_result F i (Suc i) v (literal_dtor (op2 o1) (literal_dtor (op1 o1) oa))
      else Some oa)"

definition fold_cast :: "'x folding \<Rightarrow> nat \<Rightarrow> 'x zend_op_array \<Rightarrow> 'x zend_op_array option" where
  "fold_cast F i oa =
     (let o1 = opcodes oa ! i; ty = extended_value o1 in
      if op_ty (op1 o1) = IS_CONST \<and> ty \<noteq> TYPE_ARRAY \<and> ty \<noteq> TYPE_OBJECT \<and> ty \<noteq> TYPE_RESOURCE
      then fold_result F i (Suc i) (convert_to F ty (lit oa (op1 o1))) (literal_dtor (op1 o1) oa)
      else if ty = TYPE_BOOL then Some (upd_op i (\<lambda>o1. o1\<lparr>opcode := ZEND_BOOL, extended_value := 0\<rparr>) oa)
      else Some oa)"

definition fold_unary :: "'x folding \<Rightarrow> nat \<Rightarrow> 'x zend_op_array \<Rightarrow> 'x zend_op_array option" where
  "fold_unary F i oa =
     (let o1 = opcodes oa ! i in
      if op_ty (op1 o1) = IS_CONST
      then case unary_op F (opcode o1) (lit oa (op1 o1)) of
             None \<Rightarrow> Some oa
           | Some v \<Rightarrow> fold_result F i (Suc i) v (literal_dtor (op1 o1) oa)
      else Some oa)"

text \<open>What an ADD_STRING or ADD_CHAR appends. The character is the low byte of the long.\<close>

definition is_append :: "zend_op \<Rightarrow> bool" where
  "is_append o1 \<longleftrightarrow> opcode o1 = ZEND_ADD_STRING \<or> opcode o1 = ZEND_ADD_CHAR"

definition appended :: "'x zend_op_array \<Rightarrow> zend_op \<Rightarrow> string option" where
  "appended oa o1 =
     (if opcode o1 = ZEND_ADD_CHAR
      then (case lit oa (op2 o1) of ZLONG n \<Rightarrow> Some [char_of (nat (n mod 256))] | _ \<Rightarrow> None)
      else (case lit oa (op2 o1) of ZSTRING s \<Rightarrow> Some s | _ \<Rightarrow> None))"

text \<open>The text of the instructions after \<open>i\<close> that append to the same string, and the first
  instruction that does not.\<close>

function append_series :: "'x zend_op_array \<Rightarrow> nat \<Rightarrow> nat \<Rightarrow> string \<Rightarrow> (nat \<times> string) option" where
  "append_series oa i j s =
     (if \<not> j < last_op oa then None
      else let o1 = opcodes oa ! j in
        if is_append o1 \<and> num (result o1) = num (result (opcodes oa ! i))
        then case appended oa o1 of None \<Rightarrow> None | Some t \<Rightarrow> append_series oa i (Suc j) (s @ t)
        else Some (j, s))"
  by pat_completeness auto
termination by (relation "measure (\<lambda>(oa, i, j, s). last_op oa - j)") auto

declare append_series.simps [simp del]

text \<open>The instructions from \<open>j\<close> on, \<open>n\<close> of them, become NOPs; the literal of an ADD_STRING is freed.\<close>

fun drop_appends :: "nat \<Rightarrow> nat \<Rightarrow> 'x zend_op_array \<Rightarrow> 'x zend_op_array" where
  "drop_appends j 0 oa = oa"
| "drop_appends j (Suc n) oa =
     (let o1 = opcodes oa ! j in
      drop_appends (Suc j) n (upd_op j MAKE_NOP (if opcode o1 = ZEND_ADD_STRING then literal_dtor (op2 o1) oa else oa)))"

definition fuse_appends :: "bool \<Rightarrow> nat \<Rightarrow> 'x zend_op_array \<Rightarrow> 'x zend_op_array option" where
  "fuse_appends nops_removed i oa =
     (let o1 = opcodes oa ! i in
      do { (j, s) \<leftarrow> append_series oa i (Suc i) [];
           if length s = 0 then Some oa
           else do { t \<leftarrow> appended oa o1;
             let oa1 = drop_appends (Suc i) (j - Suc i)
                   (set_lit (op2 o1) (ZSTRING (t @ s)) (upd_op i (\<lambda>o1. o1\<lparr>opcode := ZEND_ADD_STRING\<rparr>) oa));
             Some (if \<not> nops_removed \<and> j - i \<ge> 3
                   then upd_op (Suc i) (\<lambda>o1. o1\<lparr>opcode := ZEND_JMP, op1 := (op1 o1)\<lparr>num := j\<rparr>\<rparr>) oa1 else oa1) } })"

definition halt_offset_name :: string where
  "halt_offset_name = ''__COMPILER_HALT_OFFSET__''"

definition fold_constant :: "'x folding \<Rightarrow> nat \<Rightarrow> 'x zend_op_array \<Rightarrow> 'x zend_op_array option" where
  "fold_constant F i oa =
     (let o1 = opcodes oa ! i in
      if op_ty (op1 o1) = IS_UNUSED \<and> op_ty (op2 o1) = IS_CONST
      then case lit oa (op2 o1) of
             ZSTRING s \<Rightarrow>
               (case (if s = halt_offset_name then compiler_halt_offset F else persistent_constant F s) of
                  None \<Rightarrow> Some oa
                | Some v \<Rightarrow> fold_result F i i v (literal_dtor (op2 o1) oa))
           | _ \<Rightarrow> Some oa
      else Some oa)"

definition direct_call :: "'x folding \<Rightarrow> nat \<Rightarrow> 'x zend_op_array \<Rightarrow> 'x zend_op_array option" where
  "direct_call F i oa =
     (let o1 = opcodes oa ! i in
      if extended_value o1 = 0 \<and> op_ty (op1 o1) = IS_UNUSED \<and> op_ty (op2 o1) = IS_CONST
      then if \<not> Suc i < last_op oa then None
           else let o2 = opcodes oa ! Suc i in
             if opcode o2 = ZEND_DO_FCALL_BY_NAME \<and> extended_value o2 = 0
             then (case lit oa (op2 o1) of
                     ZSTRING s \<Rightarrow>
                       (let low = to_lower F s in
                        Some (upd_op i MAKE_NOP (new_cache_slot (num (op2 o1)) 1 (set_hash F (num (op2 o1)) low
                          (set_lit (op2 o1) (ZSTRING low) (upd_op (Suc i) (\<lambda>o2. o2\<lparr>opcode := ZEND_DO_FCALL, op1 := op2 o1\<rparr>) oa))))))
                   | _ \<Rightarrow> None)
             else Some oa
      else Some oa)"

text \<open>The use of the variable fetched by \<open>@$x\<close>: the only one before the matching END_SILENCE.
  \<open>None\<close> stands for none or more than one.\<close>

definition reads_var :: "nat \<Rightarrow> zend_op \<Rightarrow> bool" where
  "reads_var var o1 \<longleftrightarrow> op_ty (op1 o1) = IS_VAR \<and> num (op1 o1) = var \<or> op_ty (op2 o1) = IS_VAR \<and> num (op2 o1) = var"

function find_use :: "zend_op list \<Rightarrow> nat \<Rightarrow> nat \<Rightarrow> nat \<Rightarrow> nat option \<Rightarrow> nat option" where
  "find_use ops var j level use =
     (if \<not> j < length ops then use
      else let o1 = ops ! j in
        if opcode o1 = ZEND_END_SILENCE \<and> level = 0 then use
        else let level' = (if opcode o1 = ZEND_BEGIN_SILENCE then Suc level
                           else if opcode o1 = ZEND_END_SILENCE then level - 1 else level) in
          if reads_var var o1
          then if use \<noteq> None then None else find_use ops var (Suc j) level' (Some j)
          else find_use ops var (Suc j) level' use)"
  by pat_completeness auto
termination by (relation "measure (\<lambda>(ops, var, j, level, use). length ops - j)") auto

declare find_use.simps [simp del]

fun lookup_var :: "string \<Rightarrow> 64 word \<Rightarrow> compiled_variable list \<Rightarrow> nat \<Rightarrow> nat option" where
  "lookup_var name h [] i = None"
| "lookup_var name h (c # cs) i = (if cv_hash_value c = h \<and> cv_name c = name then Some i else lookup_var name h cs (Suc i))"

definition zend_optimizer_lookup_cv :: "'x folding \<Rightarrow> string \<Rightarrow> 'x zend_op_array \<Rightarrow> nat \<times> 'x zend_op_array" where
  "zend_optimizer_lookup_cv F name oa =
     (case lookup_var name (hash_of F name) (cvars oa) 0 of
        Some i \<Rightarrow> (i, oa)
      | None \<Rightarrow> (length (cvars oa), oa\<lparr>cvars := cvars oa @ [\<lparr>cv_name = name, cv_hash_value = hash_of F name\<rparr>]\<rparr>))"

definition silent_fetch :: "'x folding \<Rightarrow> nat \<Rightarrow> 'x zend_op_array \<Rightarrow> 'x zend_op_array" where
  "silent_fetch F i oa =
     (let o1 = opcodes oa ! i in
      case lit oa (op1 o1) of
        ZSTRING name \<Rightarrow>
          if i \<noteq> 0 \<and> opcode (opcodes oa ! (i - 1)) = ZEND_BEGIN_SILENCE \<and> fetches_local F (extended_value o1)
             \<and> op_ty (op1 o1) = IS_CONST \<and> op_ty (op2 o1) = IS_UNUSED \<and> name \<noteq> ''this''
          then case find_use (opcodes oa) (num (result o1)) (Suc i) 0 None of
                 None \<Rightarrow> oa
               | Some u \<Rightarrow>
                   (let (cv, oa1) = zend_optimizer_lookup_cv F name oa; use = opcodes oa ! u in
                    if op_ty (op1 use) = IS_VAR \<and> num (op1 use) = num (result o1)
                    then upd_op i MAKE_NOP (upd_op u (\<lambda>o2. o2\<lparr>op1 := (op1 o2)\<lparr>op_ty := IS_CV, num := cv\<rparr>\<rparr>) oa1)
                    else upd_op i MAKE_NOP (upd_op u (\<lambda>o2. o2\<lparr>op2 := (op2 o2)\<lparr>op_ty := IS_CV, num := cv\<rparr>\<rparr>) oa1))
          else oa
      | _ \<Rightarrow> oa)"

definition folded_ops :: "nat set" where
  "folded_ops = {ZEND_ADD, ZEND_SUB, ZEND_MUL, ZEND_DIV, ZEND_MOD, ZEND_SL, ZEND_SR, ZEND_CONCAT, ZEND_IS_EQUAL, ZEND_IS_NOT_EQUAL,
     ZEND_IS_SMALLER, ZEND_IS_SMALLER_OR_EQUAL, ZEND_IS_IDENTICAL, ZEND_IS_NOT_IDENTICAL, ZEND_BW_OR, ZEND_BW_AND, ZEND_BW_XOR,
     ZEND_BOOL_XOR}"

definition pass1_step :: "'x folding \<Rightarrow> bool \<Rightarrow> nat \<Rightarrow> 'x zend_op_array \<Rightarrow> 'x zend_op_array option" where
  "pass1_step F nops_removed i oa =
     (let oc = opcode (opcodes oa ! i) in
      if oc \<in> folded_ops then fold_binary F i oa
      else if oc = ZEND_CAST then fold_cast F i oa
      else if oc = ZEND_BW_NOT \<or> oc = ZEND_BOOL_NOT then fold_unary F i oa
      else if oc = ZEND_ADD_STRING \<or> oc = ZEND_ADD_CHAR then fuse_appends nops_removed i oa
      else if oc = ZEND_FETCH_CONSTANT then fold_constant F i oa
      else if oc = ZEND_INIT_FCALL_BY_NAME then direct_call F i oa
      else if oc \<in> {ZEND_FETCH_R, ZEND_FETCH_W, ZEND_FETCH_RW, ZEND_FETCH_FUNC_ARG, ZEND_FETCH_IS, ZEND_FETCH_UNSET}
      then Some (silent_fetch F i oa)
      else Some oa)"

fun pass1_from :: "'x folding \<Rightarrow> bool \<Rightarrow> nat \<Rightarrow> nat \<Rightarrow> 'x zend_op_array \<Rightarrow> 'x zend_op_array option" where
  "pass1_from F nops_removed i 0 oa = Some oa"
| "pass1_from F nops_removed i (Suc n) oa =
     do { oa' \<leftarrow> pass1_step F nops_removed i oa; pass1_from F nops_removed (Suc i) n oa' }"

definition pass1 :: "'x folding \<Rightarrow> bool \<Rightarrow> 'x zend_op_array \<Rightarrow> 'x zend_op_array option" where
  "pass1 F nops_removed oa = pass1_from F nops_removed 0 (last_op oa) oa"

section \<open>What is put where a temporary was used\<close>

definition lowered_op1 :: "nat set" where
  "lowered_op1 = {ZEND_INIT_STATIC_METHOD_CALL, ZEND_CATCH, ZEND_FETCH_CONSTANT, ZEND_DO_FCALL}"

definition op1_value :: "'x folding \<Rightarrow> nat \<Rightarrow> 'x zval \<Rightarrow> 'x zval" where
  "op1_value F oc v = (case v of ZSTRING s \<Rightarrow> if oc \<in> lowered_op1 then ZSTRING (to_lower F s) else v | _ \<Rightarrow> v)"

definition names_an_element :: "zend_op list \<Rightarrow> nat \<Rightarrow> bool" where
  "names_an_element ops i \<longleftrightarrow> opcode (ops ! i) \<in> names_element
     \<or> opcode (ops ! i) = ZEND_OP_DATA \<and> (opcode (ops ! (i - 1)) = ZEND_ASSIGN_DIM
          \<or> extended_value (ops ! (i - 1)) = ZEND_ASSIGN_DIM \<and> opcode (ops ! (i - 1)) \<in> assign_ops)"

definition op2_value :: "'x folding \<Rightarrow> zend_op list \<Rightarrow> nat \<Rightarrow> 'x zval \<Rightarrow> 'x zval" where
  "op2_value F ops i v =
     (case v of
        ZSTRING s \<Rightarrow>
          if opcode (ops ! i) \<in> names_global \<union> names_method then ZSTRING (to_lower F s)
          else if names_an_element ops i then (case numeric_key F s of None \<Rightarrow> v | Some n \<Rightarrow> ZLONG n)
          else v
      | _ \<Rightarrow> v)"

text \<open>The literals of \<open>oa\<close> are kept, and the new literal at their end has the value \<open>v\<close>.\<close>

definition extends :: "'x zend_op_array \<Rightarrow> 'x zend_op_array \<Rightarrow> 'x zval \<Rightarrow> bool" where
  "extends oa oa' v \<longleftrightarrow> length (literals oa) < length (literals oa') \<and> take (length (literals oa)) (literals oa') = literals oa
     \<and> lit_constant (literals oa' ! length (literals oa)) = v"

lemma extends_simps:
  "extends oa (set_op1_const i k oa') v = extends oa oa' v" "extends oa (set_op2_const i k oa') v = extends oa oa' v"
  "extends oa (oa'\<lparr>last_cache_slot := n\<rparr>) v = extends oa oa' v"
  by (simp_all add: extends_def set_op1_const_def set_op2_const_def upd_op_def)

lemma extends_upd_lit:
  "extends oa oa' v \<Longrightarrow> length (literals oa) \<le> k \<Longrightarrow> (\<And>l. lit_constant (f l) = lit_constant l) \<Longrightarrow> extends oa (upd_lit k f oa') v"
  by (cases "k = length (literals oa)") (auto simp: extends_def upd_lit_def)

lemma extends_upd_value:
  "extends oa oa' v \<Longrightarrow> extends oa (upd_lit (length (literals oa)) (\<lambda>l. l\<lparr>lit_constant := w\<rparr>) oa') w"
  by (auto simp: extends_def upd_lit_def)

lemma extends_add_literal: "extends oa oa' v \<Longrightarrow> extends oa (snd (zend_optimizer_add_literal w oa')) v"
  by (auto simp: extends_def zend_optimizer_add_literal_def nth_append)

lemma extends_new: "zend_optimizer_add_literal v oa = (k, oa') \<Longrightarrow> extends oa oa' v \<and> k = length (literals oa)"
  by (auto simp: extends_def zend_optimizer_add_literal_def)

lemma extends_steps:
  assumes "extends oa oa' v" "k = length (literals oa)"
  shows "extends oa (set_hash F k s oa') v" "extends oa (new_cache_slot k n oa') v" "extends oa (add_lower F k s oa') (ZSTRING (to_lower F s))"
    "extends oa (check_numeric F k s oa') (case numeric_key F s of None \<Rightarrow> v | Some n \<Rightarrow> ZLONG n)"
proof -
  show h: "extends oa (set_hash F k s oa') v" unfolding set_hash_def by (rule extends_upd_lit) (use assms in simp_all)
  show "extends oa (new_cache_slot k n oa') v"
    unfolding new_cache_slot_def extends_simps by (rule extends_upd_lit) (use assms in simp_all)
  have "extends oa (upd_lit k (\<lambda>l. l\<lparr>lit_constant := ZSTRING (to_lower F s)\<rparr>) oa') (ZSTRING (to_lower F s))"
    unfolding assms(2) by (rule extends_upd_value [OF assms(1)])
  from extends_add_literal [OF this, of "ZSTRING (to_lower F s)"]
  show "extends oa (add_lower F k s oa') (ZSTRING (to_lower F s))"
    unfolding add_lower_def Let_def set_hash_def split_def by (rule extends_upd_lit) (use assms in simp_all)
  show "extends oa (check_numeric F k s oa') (case numeric_key F s of None \<Rightarrow> v | Some n \<Rightarrow> ZLONG n)"
    using assms extends_upd_value [OF assms(1)] by (auto simp: check_numeric_def split: option.split)
qed

text \<open>The fields of an op array other than the code, the literals and the slots.\<close>

definition same_tables :: "'x zend_op_array \<Rightarrow> 'x zend_op_array \<Rightarrow> bool" where
  "same_tables oa oa' \<longleftrightarrow> brk_cont_array oa' = brk_cont_array oa \<and> try_catch_array oa' = try_catch_array oa"

lemma kept_code:
  "opcodes (set_hash F k s oa) = opcodes oa" "opcodes (new_cache_slot k n oa) = opcodes oa" "opcodes (add_lower F k s oa) = opcodes oa"
  "opcodes (check_numeric F k s oa) = opcodes oa" "opcodes (upd_lit k f oa) = opcodes oa"
  "same_tables oa (set_hash F k s oa)" "same_tables oa (new_cache_slot k n oa)" "same_tables oa (add_lower F k s oa)"
  "same_tables oa (check_numeric F k s oa)" "same_tables oa (upd_lit k f oa)" "same_tables oa (set_op1_const i k oa)" "same_tables oa (set_op2_const i k oa)"
  by (simp_all add: set_hash_def new_cache_slot_def add_lower_def check_numeric_def upd_lit_def zend_optimizer_add_literal_def Let_def
      same_tables_def set_op1_const_def set_op2_const_def upd_op_def split: option.split)


lemma same_tables_trans: "same_tables oa oa1 \<Longrightarrow> same_tables oa1 oa2 \<Longrightarrow> same_tables oa oa2"
  by (simp add: same_tables_def)

text \<open>The instruction \<open>i\<close> gets the new literal as an operand.\<close>

definition with_const1 :: "'x zend_op_array \<Rightarrow> nat \<Rightarrow> zend_op list" where
  "with_const1 oa i = (opcodes oa)[i := (opcodes oa ! i)\<lparr>op1 := \<lparr>op_ty = IS_CONST, ext_unused = False, num = length (literals oa)\<rparr>\<rparr>]"

definition with_const2 :: "'x zend_op_array \<Rightarrow> nat \<Rightarrow> zend_op list" where
  "with_const2 oa i = (opcodes oa)[i := (opcodes oa ! i)\<lparr>op2 := \<lparr>op_ty = IS_CONST, ext_unused = False, num = length (literals oa)\<rparr>\<rparr>]"

lemma add_literal_code:
  assumes "zend_optimizer_add_literal v oa = (k, oa1)"
  shows "opcodes (set_op1_const i k oa1) = with_const1 oa i" "opcodes (set_op2_const i k oa1) = with_const2 oa i" "same_tables oa oa1"
  using assms by (auto simp: zend_optimizer_add_literal_def set_op1_const_def set_op2_const_def upd_op_def with_const1_def with_const2_def same_tables_def)

lemma add_literal_split:
  "\<exists>k oa1. zend_optimizer_add_literal v oa = (k, oa1) \<and> extends oa oa1 v \<and> k = length (literals oa)
    \<and> (\<forall>i. opcodes (set_op1_const i k oa1) = with_const1 oa i) \<and> (\<forall>i. opcodes (set_op2_const i k oa1) = with_const2 oa i)
    \<and> same_tables oa oa1"
proof -
  obtain k oa1 where a: "zend_optimizer_add_literal v oa = (k, oa1)" by (cases "zend_optimizer_add_literal v oa")
  then show ?thesis using extends_new [OF a] add_literal_code [OF a] by blast
qed

lemma update_op1_ok:
  assumes "opcode (opcodes oa ! i) \<noteq> ZEND_FREE"
  shows "opcodes (update_op1_const F i v oa) = with_const1 oa i \<and> same_tables oa (update_op1_const F i v oa)
    \<and> extends oa (update_op1_const F i v oa) (op1_value F (opcode (opcodes oa ! i)) v)"
proof (cases "\<exists>s. v = ZSTRING s")
  case False
  obtain k oa1 where a: "zend_optimizer_add_literal v oa = (k, oa1)" "extends oa oa1 v" "\<forall>i. opcodes (set_op1_const i k oa1) = with_const1 oa i"
    "same_tables oa oa1" using add_literal_split [of v oa] by blast
  have "update_op1_const F i v oa = set_op1_const i k oa1" using False assms a(1) by (cases v) (simp_all add: update_op1_const_def)
  moreover have "op1_value F (opcode (opcodes oa ! i)) v = v" using False by (cases v) (simp_all add: op1_value_def)
  ultimately show ?thesis using a same_tables_trans [OF a(4) kept_code(11)] by (simp add: extends_simps)
next
  case True
  then obtain s where v: "v = ZSTRING s" by blast
  let ?oc = "opcode (opcodes oa ! i)"
  obtain k oa1 where a: "zend_optimizer_add_literal v oa = (k, oa1)" "extends oa oa1 v" "k = length (literals oa)"
    "\<forall>i. opcodes (set_op1_const i k oa1) = with_const1 oa i" "same_tables oa oa1" using add_literal_split [of v oa] by blast
  obtain k2 oa2 where b: "zend_optimizer_add_literal (ZSTRING (to_lower F s)) oa = (k2, oa2)" "extends oa oa2 (ZSTRING (to_lower F s))"
    "k2 = length (literals oa)" "\<forall>i. opcodes (set_op1_const i k2 oa2) = with_const1 oa i" "same_tables oa oa2" using add_literal_split [of "ZSTRING (to_lower F s)" oa] by blast
  consider (names) "?oc \<in> {ZEND_INIT_STATIC_METHOD_CALL, ZEND_CATCH, ZEND_FETCH_CONSTANT}" | (call) "?oc = ZEND_DO_FCALL"
    | (other) "?oc \<notin> {ZEND_INIT_STATIC_METHOD_CALL, ZEND_CATCH, ZEND_FETCH_CONSTANT}" "?oc \<noteq> ZEND_DO_FCALL" by blast
  then show ?thesis
  proof cases
    case names
    let ?oa = "new_cache_slot k 1 (set_hash F k s (set_op1_const i k oa1))"
    have "update_op1_const F i v oa = add_lower F k s ?oa" using names assms a(1) v by (auto simp: update_op1_const_def Let_def)
    moreover have "op1_value F ?oc v = ZSTRING (to_lower F s)" using names v by (auto simp: op1_value_def lowered_op1_def)
    moreover have "extends oa (add_lower F k s ?oa) (ZSTRING (to_lower F s))"
      by (intro extends_steps(1-3)) (use a in \<open>simp_all add: extends_simps\<close>)
    moreover have "same_tables oa (add_lower F k s ?oa)"
      using a(5) by (simp add: same_tables_def kept_code [unfolded same_tables_def])
    ultimately show ?thesis using a(4) by (simp add: kept_code)
  next
    case call
    have "update_op1_const F i v oa = new_cache_slot k2 1 (set_hash F k2 (to_lower F s) (set_op1_const i k2 oa2))"
      using call assms b(1) v by (simp add: update_op1_const_def Let_def)
    moreover have "op1_value F ?oc v = ZSTRING (to_lower F s)" using call v by (simp add: op1_value_def lowered_op1_def)
    moreover have "extends oa (new_cache_slot k2 1 (set_hash F k2 (to_lower F s) (set_op1_const i k2 oa2))) (ZSTRING (to_lower F s))"
      by (intro extends_steps(1,2)) (use b in \<open>simp_all add: extends_simps\<close>)
    moreover have "same_tables oa (new_cache_slot k2 1 (set_hash F k2 (to_lower F s) (set_op1_const i k2 oa2)))"
      using b(5) by (simp add: same_tables_def kept_code [unfolded same_tables_def])
    ultimately show ?thesis using b(4) by (simp add: kept_code)
  next
    case other
    have "update_op1_const F i v oa = set_hash F k s (set_op1_const i k oa1)" using other assms a(1) v by (simp add: update_op1_const_def)
    moreover have "op1_value F ?oc v = v" using other v by (simp add: op1_value_def lowered_op1_def)
    moreover have "extends oa (set_hash F k s (set_op1_const i k oa1)) v" by (rule extends_steps(1)) (use a in \<open>simp_all add: extends_simps\<close>)
    moreover have "same_tables oa (set_hash F k s (set_op1_const i k oa1))"
      using a(5) by (simp add: same_tables_def kept_code [unfolded same_tables_def])
    ultimately show ?thesis using a(4) by (simp add: kept_code)
  qed
qed

lemma update_op2_ok:
  assumes "update_op2_const F i v oa = Some oa'"
  shows "opcodes oa' = with_const2 oa i \<and> same_tables oa oa' \<and> extends oa oa' (op2_value F (opcodes oa) i v)"
proof -
  let ?oc = "opcode (opcodes oa ! i)"
  obtain k oa1 where a: "zend_optimizer_add_literal v oa = (k, oa1)" "extends oa oa1 v" "k = length (literals oa)"
    "\<forall>i. opcodes (set_op2_const i k oa1) = with_const2 oa i" "same_tables oa oa1" using add_literal_split [of v oa] by blast
  have two: "same_tables oa (set_op2_const i k oa1)" using same_tables_trans [OF a(5) kept_code(12)] .
  have ex: "extends oa (set_op2_const i k oa1) v" using a(2) by (simp add: extends_simps)
  show ?thesis
  proof (cases "\<exists>s. v = ZSTRING s")
    case False
    then have "oa' = set_op2_const i k oa1" using assms a(1) by (cases v) (auto simp: update_op2_const_def)
    moreover have "op2_value F (opcodes oa) i v = v" using False by (cases v) (simp_all add: op2_value_def)
    ultimately show ?thesis using two ex a(4) by simp
  next
    case True
    then obtain s where v: "v = ZSTRING s" by blast
    define oa3 where "oa3 = set_hash F k s (set_op2_const i k oa1)"
    have c: "opcodes oa3 = with_const2 oa i" "same_tables oa oa3" "extends oa oa3 v"
      unfolding oa3_def using a(4) same_tables_trans [OF two kept_code(6)] extends_steps(1) [OF ex a(3)] by (simp_all add: kept_code)
    note e = extends_steps [OF c(3) a(3)]
    have t: "same_tables oa (add_lower F k s oa3)" "same_tables oa (new_cache_slot k n oa3)" "same_tables oa (check_numeric F k s oa3)"
      "same_tables oa (add_lower F k s (new_cache_slot k n oa3))" "same_tables oa (new_cache_slot k n (add_lower F k s oa3))" for n
      using c(2) by (simp_all add: same_tables_def kept_code [unfolded same_tables_def])
    have e2: "extends oa (add_lower F k s (new_cache_slot k n oa3)) (ZSTRING (to_lower F s))"
      "extends oa (new_cache_slot k n (add_lower F k s oa3)) (ZSTRING (to_lower F s))" for n
      using extends_steps(3) [OF e(2) a(3)] extends_steps(2) [OF e(3) a(3)] by blast+
    have u: "update_op2_const F i v oa =
       (if ?oc \<in> names_global then Some (add_lower F k s (new_cache_slot k 1 oa3))
        else if ?oc \<in> names_method then Some (new_cache_slot k 2 (add_lower F k s oa3))
        else if ?oc \<in> names_property then Some (new_cache_slot k 2 oa3)
        else if ?oc \<in> assign_ops then Some (if extended_value (opcodes oa ! i) = ZEND_ASSIGN_OBJ then new_cache_slot k 2 oa3 else oa3)
        else if ?oc = ZEND_OP_DATA then if i = 0 then None else Some (if names_an_element (opcodes oa) i then check_numeric F k s oa3 else oa3)
        else if ?oc \<in> names_element then Some (check_numeric F k s oa3) else Some oa3)"
      using a(1) v by (simp add: update_op2_const_def Let_def oa3_def names_an_element_def names_element_def)
    have apart: "?oc \<in> names_property \<union> assign_ops \<Longrightarrow> \<not> names_an_element (opcodes oa) i"
      by (auto simp: names_property_def assign_ops_def names_an_element_def names_element_def)
    have val: "op2_value F (opcodes oa) i v = (if ?oc \<in> names_global \<union> names_method then ZSTRING (to_lower F s)
      else if names_an_element (opcodes oa) i then case numeric_key F s of None \<Rightarrow> v | Some n \<Rightarrow> ZLONG n else v)"
      unfolding op2_value_def v by simp
    show ?thesis
      using assms c e(2,4) e2 t apart unfolding u val
      by (auto simp: kept_code names_an_element_def split: if_splits)
  qed
qed


section \<open>Handlers that see values\<close>

text \<open>
  A machine with values in the temporaries: an opcode handler sees the values of operands that are
  literals or temporaries, and other operands as they are; it gives a value for the result.
\<close>

type_synonym 'x temps = "nat \<Rightarrow> 'x zval"
type_synonym 'x operand = "'x zval + znode"
type_synonym ('x, 's) value_handlers = "nat \<Rightarrow> znode \<Rightarrow> nat \<Rightarrow> 'x operand \<Rightarrow> 'x operand \<Rightarrow> 's \<Rightarrow> 'x zval \<times> 's \<times> ctl"

definition operand :: "'x zend_literal list \<Rightarrow> 'x temps \<Rightarrow> znode \<Rightarrow> 'x operand" where
  "operand L t z =
     (if op_ty z = IS_CONST then Inl (lit_constant (L ! num z))
      else if op_ty z = IS_TMP_VAR then Inl (t (num z)) else Inr z)"

definition value_handler :: "('x, 's) value_handlers \<Rightarrow> ('x, 'x temps \<times> 's) lit_handlers" where
  "value_handler V L o1 ts =
     (case V (opcode o1) (result o1) (extended_value o1) (operand L (fst ts) (op1 o1)) (operand L (fst ts) (op2 o1)) (snd ts) of
        (r, s', c) \<Rightarrow> ((if op_ty (result o1) = IS_TMP_VAR then (fst ts)(num (result o1) := r) else fst ts, s'), c))"

text \<open>The ends of the code, without the temporaries.\<close>

definition ends_with :: "('x, 's) value_handlers \<Rightarrow> 'x zend_op_array \<Rightarrow> nat \<Rightarrow> 'x temps \<Rightarrow> 's \<Rightarrow> 's outcome \<Rightarrow> bool" where
  "ends_with V oa pc t s r \<longleftrightarrow>
     (\<exists>t' s'. r = Left s' \<and> runs (value_handler V) oa pc (t, s) (Left (t', s'))
            \<or> r = Uncaught s' \<and> runs (value_handler V) oa pc (t, s) (Uncaught (t', s')))"

definition uses_tmp :: "zend_op \<Rightarrow> nat \<Rightarrow> bool" where
  "uses_tmp o1 tv \<longleftrightarrow> op_ty (op1 o1) = IS_TMP_VAR \<and> num (op1 o1) = tv \<or> op_ty (op2 o1) = IS_TMP_VAR \<and> num (op2 o1) = tv"

definition sets_tmp :: "zend_op \<Rightarrow> nat \<Rightarrow> bool" where
  "sets_tmp o1 tv \<longleftrightarrow> op_ty (result o1) = IS_TMP_VAR \<and> num (result o1) = tv"

section \<open>Substituting a value\<close>

text \<open>The code \<open>oa'\<close> is \<open>oa\<close> with instruction \<open>i\<close> removed and, in instruction \<open>u\<close>, the
  temporary \<open>tv\<close> replaced by the literal \<open>w\<close>.\<close>

definition substituted :: "'x zend_op_array \<Rightarrow> 'x zend_op_array \<Rightarrow> nat \<Rightarrow> nat \<Rightarrow> 'x zval \<Rightarrow> bool" where
  "substituted oa oa' i u w \<longleftrightarrow> last_op oa' = last_op oa \<and> same_tables oa oa'
     \<and> (\<forall>k < last_op oa. k \<noteq> i \<longrightarrow> k \<noteq> u \<longrightarrow> opcodes oa' ! k = opcodes oa ! k)
     \<and> opcode (opcodes oa' ! i) = ZEND_NOP
     \<and> (\<exists>z. op_ty z = IS_CONST \<and> lit oa' z = w
          \<and> opcodes oa' ! u = (if op_ty (op1 (opcodes oa ! u)) = IS_TMP_VAR \<and> num (op1 (opcodes oa ! u)) = num (result (opcodes oa ! i))
              then (opcodes oa ! u)\<lparr>op1 := z\<rparr> else (opcodes oa ! u)\<lparr>op2 := z\<rparr>))
     \<and> (\<forall>n < length (literals oa). n \<notin> owned (opcodes oa ! i) \<longrightarrow> lit_constant (literals oa' ! n) = lit_constant (literals oa ! n))"

text \<open>Code in which \<open>i\<close> computes \<open>v\<close> into a temporary that only \<open>u\<close> uses: \<open>R\<close> are the places where it
  is live, and control gets there only from \<open>i\<close> or from another of them.\<close>

definition single_use :: "('x, 's) value_handlers \<Rightarrow> 'x zend_op_array \<Rightarrow> nat \<Rightarrow> nat \<Rightarrow> nat set \<Rightarrow> bool" where
  "single_use V oa i u R \<longleftrightarrow> i < last_op oa \<and> u < last_op oa \<and> i \<noteq> u
     \<and> (let o1 = opcodes oa ! i; o2 = opcodes oa ! u; tv = num (result o1) in
          op_ty (result o1) = IS_TMP_VAR \<and> opcode o1 \<noteq> ZEND_NOP \<and> opcode o1 \<noteq> ZEND_JMP
        \<and> uses_tmp o2 tv
        \<and> \<not> (op_ty (op1 o2) = IS_TMP_VAR \<and> num (op1 o2) = tv \<and> op_ty (op2 (blank o2)) = IS_TMP_VAR \<and> num (op2 (blank o2)) = tv)
        \<and> opcode o2 \<notin> {ZEND_CASE, ZEND_FREE, ZEND_NOP} \<and> \<not> jumps_op1 (opcode o2)
        \<and> (op_ty (op1 o2) = IS_TMP_VAR \<and> num (op1 o2) = tv \<or> \<not> jumps_op2 (opcode o2))
        \<and> (\<forall>k < last_op oa. k \<noteq> u \<longrightarrow> \<not> uses_tmp (opcodes oa ! k) tv \<and> \<not> uses_tmp (blank (opcodes oa ! k)) tv)
        \<and> (\<forall>k < last_op oa. k \<noteq> i \<longrightarrow> \<not> sets_tmp (blank (opcodes oa ! k)) tv)
        \<and> (\<forall>k < last_op oa. k \<noteq> i \<longrightarrow> owned (blank (opcodes oa ! k)) \<inter> owned o1 = {}))
     \<and> (\<forall>k < last_op oa. owned (blank (opcodes oa ! k)) \<subseteq> {..<length (literals oa)})
     \<and> \<not> ext_unused (op1 (opcodes oa ! u)) \<and> \<not> ext_unused (op2 (opcodes oa ! u))
     \<and> u \<in> R \<and> 0 \<notin> R
     \<and> (\<forall>p ts q ts'. vm_step (value_handler V (literals oa)) oa p ts = Go q ts' \<longrightarrow> q \<in> R \<longrightarrow> p \<in> R \<or> p = i)"

text \<open>The handler of \<open>i\<close> computes \<open>v\<close> and goes on, and that of \<open>u\<close> does with \<open>w\<close> what it does with \<open>v\<close>.\<close>

definition evaluates :: "('x, 's) value_handlers \<Rightarrow> 'x zend_op_array \<Rightarrow> nat \<Rightarrow> 'x zval \<Rightarrow> bool" where
  "evaluates V oa i v \<longleftrightarrow> (\<forall>t s. \<exists>t'. value_handler V (literals oa) (blank (opcodes oa ! i)) (t, s) = ((t', s), Next)
     \<and> t' = t(num (result (opcodes oa ! i)) := v))"

definition accepts :: "('x, 's) value_handlers \<Rightarrow> zend_op \<Rightarrow> nat \<Rightarrow> 'x zval \<Rightarrow> 'x zval \<Rightarrow> bool" where
  "accepts V o1 tv v w \<longleftrightarrow>
     (if op_ty (op1 o1) = IS_TMP_VAR \<and> num (op1 o1) = tv
      then \<forall>r y s. V (opcode o1) r (extended_value (blank o1)) (Inl w) y s = V (opcode o1) r (extended_value (blank o1)) (Inl v) y s
      else \<forall>r x s. V (opcode o1) r (extended_value (blank o1)) x (Inl w) s = V (opcode o1) r (extended_value (blank o1)) x (Inl v) s)"


lemma single_useD:
  assumes "single_use V oa i u R"
  shows "i < last_op oa" "u < last_op oa" "i \<noteq> u" "op_ty (result (opcodes oa ! i)) = IS_TMP_VAR"
    "opcode (opcodes oa ! i) \<noteq> ZEND_NOP" "opcode (opcodes oa ! i) \<noteq> ZEND_JMP"
    "uses_tmp (opcodes oa ! u) (num (result (opcodes oa ! i)))"
    "opcode (opcodes oa ! u) \<notin> {ZEND_CASE, ZEND_FREE, ZEND_NOP}" "\<not> jumps_op1 (opcode (opcodes oa ! u))"
    "u \<in> R" "0 \<notin> R"
    "\<And>k. k < last_op oa \<Longrightarrow> k \<noteq> u \<Longrightarrow> \<not> uses_tmp (opcodes oa ! k) (num (result (opcodes oa ! i))) \<and> \<not> uses_tmp (blank (opcodes oa ! k)) (num (result (opcodes oa ! i)))"
    "\<And>k. k < last_op oa \<Longrightarrow> k \<noteq> i \<Longrightarrow> \<not> sets_tmp (blank (opcodes oa ! k)) (num (result (opcodes oa ! i)))"
    "\<And>k. k < last_op oa \<Longrightarrow> k \<noteq> i \<Longrightarrow> owned (blank (opcodes oa ! k)) \<inter> owned (opcodes oa ! i) = {}"
    "\<And>k. k < last_op oa \<Longrightarrow> owned (blank (opcodes oa ! k)) \<subseteq> {..<length (literals oa)}"
    "\<And>p ts q ts'. vm_step (value_handler V (literals oa)) oa p ts = Go q ts' \<Longrightarrow> q \<in> R \<Longrightarrow> p \<in> R \<or> p = i"
  using assms unfolding single_use_def Let_def by blast+

text \<open>The same outcome, up to the temporary \<open>tv\<close>.\<close>

definition off :: "nat \<Rightarrow> 'x temps \<Rightarrow> 'x temps \<Rightarrow> bool" where
  "off tv t t' \<longleftrightarrow> (\<forall>n. n \<noteq> tv \<longrightarrow> t' n = t n)"

fun alike :: "nat \<Rightarrow> ('x temps \<times> 's) outcome \<Rightarrow> ('x temps \<times> 's) outcome \<Rightarrow> bool" where
  "alike tv (Go p (t, s)) r' \<longleftrightarrow> (\<exists>t'. r' = Go p (t', s) \<and> off tv t t')"
| "alike tv (Left (t, s)) r' \<longleftrightarrow> (\<exists>t'. r' = Left (t', s) \<and> off tv t t')"
| "alike tv (Uncaught (t, s)) r' \<longleftrightarrow> (\<exists>t'. r' = Uncaught (t', s) \<and> off tv t t')"
| "alike tv Stuck r' \<longleftrightarrow> r' = Stuck"

lemma resume_alike:
  assumes "off tv t t'" and "opcode o2 = opcode o1" "extended_value o2 = extended_value o1"
    "jumps_op1 (opcode o1) \<Longrightarrow> op1 o2 = op1 o1" "jumps_op2 (opcode o1) \<Longrightarrow> op2 o2 = op2 o1"
  shows "alike tv (resume bcs tcs o1 p ((t, s), c)) (resume bcs tcs o2 p ((t', s), c))"
  using assms by (cases c) (auto simp: resume_def go_int_def split: option.splits)

lemma operand_same:
  assumes "off tv t t'" "\<not> (op_ty z = IS_TMP_VAR \<and> num z = tv)" "op_ty z = IS_CONST \<Longrightarrow> lit_constant (L' ! num z) = lit_constant (L ! num z)"
  shows "operand L' t' z = operand L t z"
  using assms by (auto simp: operand_def off_def)

lemma value_handler_alike:
  assumes "opcode o2 = opcode o1" "result o2 = result o1" "off tv t t'"
    and "V (opcode o1) (result o1) (extended_value o2) (operand L' t' (op1 o2)) (operand L' t' (op2 o2)) s
       = V (opcode o1) (result o1) (extended_value o1) (operand L t (op1 o1)) (operand L t (op2 o1)) s"
  obtains t1 t1' s1 c where "value_handler V L o1 (t, s) = ((t1, s1), c)" and "value_handler V L' o2 (t', s) = ((t1', s1), c)"
    and "off tv t1 t1'" and "\<not> sets_tmp o1 tv \<Longrightarrow> t1 tv = t tv"
proof -
  obtain r s1 c where v: "V (opcode o1) (result o1) (extended_value o1) (operand L t (op1 o1)) (operand L t (op2 o1)) s = (r, s1, c)"
    by (metis prod_cases3)
  let ?put = "\<lambda>t. if op_ty (result o1) = IS_TMP_VAR then t(num (result o1) := r) else t"
  show ?thesis
    by (rule that [of "?put t" s1 c "?put t'"]) (use assms v in \<open>auto simp: value_handler_def off_def sets_tmp_def\<close>)
qed

lemma vm_step_handler:
  "p < last_op oa \<Longrightarrow> opcode (opcodes oa ! p) \<noteq> ZEND_NOP \<Longrightarrow> opcode (opcodes oa ! p) \<noteq> ZEND_JMP \<Longrightarrow>
   vm_step H oa p s = resume (brk_cont_array oa) (try_catch_array oa) (opcodes oa ! p) p (H (blank (opcodes oa ! p)) s)"
  by (simp add: vm_step_def Let_def)


lemma substitutedD:
  assumes "substituted oa oa' i u w"
  shows "last_op oa' = last_op oa" "same_tables oa oa'"
    "\<And>k. k < last_op oa \<Longrightarrow> k \<noteq> i \<Longrightarrow> k \<noteq> u \<Longrightarrow> opcodes oa' ! k = opcodes oa ! k" "opcode (opcodes oa' ! i) = ZEND_NOP"
    "\<And>n. n < length (literals oa) \<Longrightarrow> n \<notin> owned (opcodes oa ! i) \<Longrightarrow> lit_constant (literals oa' ! n) = lit_constant (literals oa ! n)"
  using assms unfolding substituted_def by blast+

lemma const_same:
  assumes sub: "substituted oa oa' i u w" and su: "single_use V oa i u R" and p: "p < last_op oa" "p \<noteq> i"
    and z: "z = op1 (blank (opcodes oa ! p)) \<or> z = op2 (blank (opcodes oa ! p))" "op_ty z = IS_CONST"
  shows "lit_constant (literals oa' ! num z) = lit_constant (literals oa ! num z)"
proof -
  have "num z \<in> owned (blank (opcodes oa ! p))" using z by (auto simp: owned_def)
  then show ?thesis using single_useD(14,15) [OF su p(1)] p(2) substitutedD(5) [OF sub, of "num z"] by blast
qed

text \<open>An instruction other than \<open>i\<close> and \<open>u\<close>.\<close>

lemma other_step:
  assumes sub: "substituted oa oa' i u w" and su: "single_use V oa i u R" and p: "p \<noteq> i" "p \<noteq> u"
    and t: "off (num (result (opcodes oa ! i))) t t'"
  shows "alike (num (result (opcodes oa ! i))) (vm_step (value_handler V (literals oa)) oa p (t, s)) (vm_step (value_handler V (literals oa')) oa' p (t', s))"
proof (cases "p < last_op oa")
  case False
  then show ?thesis using substitutedD(1) [OF sub] by (simp add: vm_step_def)
next
  case True
  let ?tv = "num (result (opcodes oa ! i))" and ?o = "opcodes oa ! p"
  note d = substitutedD [OF sub] and su' = single_useD [OF su]
  have o: "opcodes oa' ! p = ?o" using d(3) True p by blast
  show ?thesis
  proof (cases "opcode ?o = ZEND_NOP \<or> opcode ?o = ZEND_JMP")
    case jump: True
    then show ?thesis using t True d(1) o by (auto simp: vm_step_def Let_def)
  next
    case False
    have n: "\<not> uses_tmp (blank ?o) ?tv" using su'(12) True p by blast
    have "V (opcode (blank ?o)) (result (blank ?o)) (extended_value (blank ?o)) (operand (literals oa') t' (op1 (blank ?o))) (operand (literals oa') t' (op2 (blank ?o))) s
      = V (opcode (blank ?o)) (result (blank ?o)) (extended_value (blank ?o)) (operand (literals oa) t (op1 (blank ?o))) (operand (literals oa) t (op2 (blank ?o))) s"
      using n const_same [OF sub su True p(1)] operand_same [OF t]
      by (simp add: uses_tmp_def)
    then obtain t1 t1' s1 c where "value_handler V (literals oa) (blank ?o) (t, s) = ((t1, s1), c)"
      "value_handler V (literals oa') (blank ?o) (t', s) = ((t1', s1), c)" "off ?tv t1 t1'"
      by (rule value_handler_alike [OF refl refl t])
    then show ?thesis
      using resume_alike [of ?tv t1 t1' ?o ?o] True False o d(1,2)
      by (simp add: vm_step_handler same_tables_def)
  qed
qed

text \<open>The instruction that computed the value, and the one that uses it.\<close>

lemma removed_step:
  assumes sub: "substituted oa oa' i u w" and su: "single_use V oa i u R" and ev: "evaluates V oa i v"
    and t: "off (num (result (opcodes oa ! i))) t t'"
  shows "vm_step (value_handler V (literals oa)) oa i (t, s) = Go (Suc i) (t(num (result (opcodes oa ! i)) := v), s)"
    and "vm_step (value_handler V (literals oa')) oa' i (t', s) = Go (Suc i) (t', s)"
proof -
  note d = substitutedD [OF sub] and su' = single_useD [OF su]
  show "vm_step (value_handler V (literals oa)) oa i (t, s) = Go (Suc i) (t(num (result (opcodes oa ! i)) := v), s)"
    using ev su'(1,5,6) by (simp add: vm_step_handler evaluates_def resume_def)
  show "vm_step (value_handler V (literals oa')) oa' i (t', s) = Go (Suc i) (t', s)"
    using d(1,4) su'(1) by (simp add: vm_step_nop)
qed

lemma use_step:
  assumes sub: "substituted oa oa' i u w" and su: "single_use V oa i u R" and ac: "accepts V (opcodes oa ! u) (num (result (opcodes oa ! i))) v w"
    and t: "off (num (result (opcodes oa ! i))) t t'" and tv: "t (num (result (opcodes oa ! i))) = v"
  shows "alike (num (result (opcodes oa ! i))) (vm_step (value_handler V (literals oa)) oa u (t, s)) (vm_step (value_handler V (literals oa')) oa' u (t', s))"
proof -
  let ?tv = "num (result (opcodes oa ! i))" and ?o = "opcodes oa ! u" and ?o' = "opcodes oa' ! u"
  note d = substitutedD [OF sub] and su' = single_useD [OF su]
  have one: "\<not> (op_ty (op1 ?o) = IS_TMP_VAR \<and> num (op1 ?o) = ?tv \<and> op_ty (op2 (blank ?o)) = IS_TMP_VAR \<and> num (op2 (blank ?o)) = ?tv)"
    and j2: "op_ty (op1 ?o) = IS_TMP_VAR \<and> num (op1 ?o) = ?tv \<or> \<not> jumps_op2 (opcode ?o)"
    using su unfolding single_use_def Let_def by blast+
  obtain z where z: "op_ty z = IS_CONST" "lit oa' z = w"
    "?o' = (if op_ty (op1 ?o) = IS_TMP_VAR \<and> num (op1 ?o) = ?tv then ?o\<lparr>op1 := z\<rparr> else ?o\<lparr>op2 := z\<rparr>)"
    using sub unfolding substituted_def by blast
  have nj: "opcode ?o \<noteq> ZEND_JMP" "opcode ?o \<noteq> ZEND_NOP" using su'(8,9) by (auto simp: jumps_op1_def)
  have w: "operand (literals oa') t' z = Inl w" using z(1,2) by (simp add: operand_def lit_def)
  have b1: "op1 (blank ?o) = op1 ?o" using su'(9) by (simp add: blank_def)
  have fields: "opcode ?o' = opcode ?o" "result (blank ?o') = result (blank ?o)" "extended_value ?o' = extended_value ?o"
    "extended_value (blank ?o') = extended_value (blank ?o)" "opcode (blank ?o') = opcode (blank ?o)" "opcode (blank ?o) = opcode ?o"
    using z(3) by (simp_all add: blank_def)
  have same: "V (opcode (blank ?o)) (result (blank ?o)) (extended_value (blank ?o')) (operand (literals oa') t' (op1 (blank ?o'))) (operand (literals oa') t' (op2 (blank ?o'))) s
      = V (opcode (blank ?o)) (result (blank ?o)) (extended_value (blank ?o)) (operand (literals oa) t (op1 (blank ?o))) (operand (literals oa) t (op2 (blank ?o))) s"
  proof (cases "op_ty (op1 ?o) = IS_TMP_VAR \<and> num (op1 ?o) = ?tv")
    case True
    then have "\<not> (op_ty (op2 (blank ?o)) = IS_TMP_VAR \<and> num (op2 (blank ?o)) = ?tv)" using one by blast
    then have "operand (literals oa') t' (op2 (blank ?o)) = operand (literals oa) t (op2 (blank ?o))"
      using operand_same [OF t] const_same [OF sub su su'(2) su'(3) [symmetric]] by blast
    moreover have "op1 (blank ?o') = z" "op2 (blank ?o') = op2 (blank ?o)" using True z(3) su'(9) by (simp_all add: blank_def)
    moreover have "operand (literals oa) t (op1 (blank ?o)) = Inl v" using True b1 tv by (simp add: operand_def)
    ultimately show ?thesis using ac True w fields by (simp add: accepts_def)
  next
    case False
    then have tmp2: "op_ty (op2 ?o) = IS_TMP_VAR" "num (op2 ?o) = ?tv" "\<not> jumps_op2 (opcode ?o)"
      using su'(7) j2 by (auto simp: uses_tmp_def)
    then have b2: "op2 (blank ?o) = op2 ?o" by (simp add: blank_def)
    have "operand (literals oa') t' (op1 (blank ?o)) = operand (literals oa) t (op1 (blank ?o))"
      using operand_same [OF t] const_same [OF sub su su'(2) su'(3) [symmetric]] False b1 by metis
    moreover have "op2 (blank ?o') = z" "op1 (blank ?o') = op1 (blank ?o)" using False z(3) tmp2(3) by (auto simp: blank_def)
    moreover have "operand (literals oa) t (op2 (blank ?o)) = Inl v" using tmp2 b2 tv by (simp add: operand_def)
    ultimately show ?thesis using ac False w fields by (simp add: accepts_def)
  qed
  obtain t1 t1' s1 c where h: "value_handler V (literals oa) (blank ?o) (t, s) = ((t1, s1), c)"
      "value_handler V (literals oa') (blank ?o') (t', s) = ((t1', s1), c)" "off ?tv t1 t1'"
    by (rule value_handler_alike [where V = V and ?o1.0 = "blank ?o" and ?o2.0 = "blank ?o'" and L = "literals oa" and L' = "literals oa'" and s = s, OF fields(5,2) t same])
  have "alike ?tv (resume (brk_cont_array oa) (try_catch_array oa) ?o u ((t1, s1), c)) (resume (brk_cont_array oa) (try_catch_array oa) ?o' u ((t1', s1), c))"
    by (rule resume_alike [OF h(3) fields(1,3)]) (use z(3) su'(9) j2 in auto)
  then show ?thesis using h(1,2) su'(2) nj fields(1) d(1,2) by (simp add: vm_step_handler same_tables_def)
qed

text \<open>The value is in the temporary wherever it is live.\<close>

lemma live_value:
  assumes su: "single_use V oa i u R" and ev: "evaluates V oa i v"
    and st: "vm_step (value_handler V (literals oa)) oa p (t, s) = Go q (t1, s1)" and q: "q \<in> R"
    and p: "p \<in> R \<Longrightarrow> t (num (result (opcodes oa ! i))) = v"
  shows "t1 (num (result (opcodes oa ! i))) = v"
proof (cases "p = i")
  case True
  note su' = single_useD [OF su]
  show ?thesis using st True ev su'(1,5,6) by (auto simp: vm_step_handler evaluates_def resume_def)
next
  case False
  let ?tv = "num (result (opcodes oa ! i))" and ?o = "opcodes oa ! p"
  note su' = single_useD [OF su]
  have "t ?tv = v" using su'(16) [OF st q] False p by blast
  have l: "p < last_op oa" using st by (auto simp: vm_step_def split: if_splits)
  show ?thesis
  proof (cases "opcode ?o = ZEND_NOP \<or> opcode ?o = ZEND_JMP")
    case True
    then show ?thesis using st l \<open>t ?tv = v\<close> by (auto simp: vm_step_def Let_def)
  next
    case False
    obtain t2 s2 c where h: "value_handler V (literals oa) (blank ?o) (t, s) = ((t2, s2), c)" "t2 ?tv = t ?tv"
    proof (rule value_handler_alike [where V = V and ?o1.0 = "blank ?o" and ?o2.0 = "blank ?o" and L = "literals oa"
          and L' = "literals oa" and s = s and t = t and t' = t and tv = ?tv])
      show "off ?tv t t" by (simp add: off_def)
    qed (use su'(13) [OF l] \<open>p \<noteq> i\<close> in auto)
    have "t1 = t2" using st False l h(1) by (auto simp: vm_step_handler resume_def go_int_def split: ctl.splits if_splits option.splits)
    then show ?thesis using h(2) \<open>t ?tv = v\<close> by simp
  qed
qed


lemma step_alike:
  assumes sub: "substituted oa oa' i u w" and su: "single_use V oa i u R" and ev: "evaluates V oa i v"
    and ac: "accepts V (opcodes oa ! u) (num (result (opcodes oa ! i))) v w"
    and t: "off (num (result (opcodes oa ! i))) t t'" and p: "p \<in> R \<Longrightarrow> t (num (result (opcodes oa ! i))) = v"
  shows "alike (num (result (opcodes oa ! i))) (vm_step (value_handler V (literals oa)) oa p (t, s)) (vm_step (value_handler V (literals oa')) oa' p (t', s))"
proof -
  consider "p = i" | "p = u" | "p \<noteq> i" "p \<noteq> u" by blast
  then show ?thesis
  proof cases
    case 1
    then show ?thesis using removed_step [OF sub su ev t] t by (simp add: off_def)
  next
    case 2
    then show ?thesis using use_step [OF sub su ac t] p single_useD(10) [OF su] by blast
  next
    case 3
    then show ?thesis by (rule other_step [OF sub su _ _ t])
  qed
qed

lemma run_substituted:
  assumes "vm_run (value_handler V (literals oa)) oa p ts r"
    and sub: "substituted oa oa' i u w" and su: "single_use V oa i u R" and ev: "evaluates V oa i v"
    and ac: "accepts V (opcodes oa ! u) (num (result (opcodes oa ! i))) v w"
    and "off (num (result (opcodes oa ! i))) (fst ts) t'" and "p \<in> R \<longrightarrow> fst ts (num (result (opcodes oa ! i))) = v"
  shows "\<exists>r'. vm_run (value_handler V (literals oa')) oa' p (t', snd ts) r' \<and> alike (num (result (opcodes oa ! i))) r r'"
  using assms(1,6,7)
proof (induction arbitrary: t' rule: vm_run.induct)
  case (Run_Left p ts s')
  obtain t s t1 s1 where e: "ts = (t, s)" "s' = (t1, s1)" by (cases ts; cases s')
  have "alike (num (result (opcodes oa ! i))) (Left (t1, s1)) (vm_step (value_handler V (literals oa')) oa' p (t', s))"
    using step_alike [OF sub su ev ac, of t t' p s] Run_Left e by simp
  then show ?case using e by (auto intro: vm_run.Run_Left)
next
  case (Run_Uncaught p ts s')
  obtain t s t1 s1 where e: "ts = (t, s)" "s' = (t1, s1)" by (cases ts; cases s')
  have "alike (num (result (opcodes oa ! i))) (Uncaught (t1, s1)) (vm_step (value_handler V (literals oa')) oa' p (t', s))"
    using step_alike [OF sub su ev ac, of t t' p s] Run_Uncaught e by simp
  then show ?case using e by (auto intro: vm_run.Run_Uncaught)
next
  case (Run_Go p ts q ts' r)
  obtain t s t1 s1 where e: "ts = (t, s)" "ts' = (t1, s1)" by (cases ts; cases ts')
  have "alike (num (result (opcodes oa ! i))) (Go q (t1, s1)) (vm_step (value_handler V (literals oa')) oa' p (t', s))"
    using step_alike [OF sub su ev ac, of t t' p s] Run_Go.hyps(1) Run_Go.prems e by simp
  then obtain t1' where st: "vm_step (value_handler V (literals oa')) oa' p (t', s) = Go q (t1', s1)" "off (num (result (opcodes oa ! i))) t1 t1'"
    by auto
  have "q \<in> R \<longrightarrow> t1 (num (result (opcodes oa ! i))) = v"
    using live_value [OF su ev, of p t s q t1 s1] Run_Go.hyps(1) Run_Go.prems(2) e by simp
  then obtain r' where "vm_run (value_handler V (literals oa')) oa' q (t1', s1) r'" "alike (num (result (opcodes oa ! i))) r r'"
    using Run_Go.IH [of t1'] st(2) e by auto
  then show ?case using st(1) e by (auto intro: vm_run.Run_Go)
qed

lemma run_unsubstituted:
  assumes "vm_run (value_handler V (literals oa')) oa' p ts' r'"
    and sub: "substituted oa oa' i u w" and su: "single_use V oa i u R" and ev: "evaluates V oa i v"
    and ac: "accepts V (opcodes oa ! u) (num (result (opcodes oa ! i))) v w"
    and "off (num (result (opcodes oa ! i))) t (fst ts')" and "p \<in> R \<longrightarrow> t (num (result (opcodes oa ! i))) = v"
  shows "\<exists>r. vm_run (value_handler V (literals oa)) oa p (t, snd ts') r \<and> alike (num (result (opcodes oa ! i))) r r'"
  using assms(1,6,7)
proof (induction arbitrary: t rule: vm_run.induct)
  case (Run_Left p ts' s')
  have "alike (num (result (opcodes oa ! i))) (vm_step (value_handler V (literals oa)) oa p (t, snd ts')) (Left s')"
    using step_alike [OF sub su ev ac, of t "fst ts'" p "snd ts'"] Run_Left by simp
  then obtain t1 where "vm_step (value_handler V (literals oa)) oa p (t, snd ts') = Left (t1, snd s')" "off (num (result (opcodes oa ! i))) t1 (fst s')"
    by (cases "vm_step (value_handler V (literals oa)) oa p (t, snd ts')") auto
  then show ?case by (intro exI [of _ "Left (t1, snd s')"]) (cases s', auto intro: vm_run.Run_Left)
next
  case (Run_Uncaught p ts' s')
  have "alike (num (result (opcodes oa ! i))) (vm_step (value_handler V (literals oa)) oa p (t, snd ts')) (Uncaught s')"
    using step_alike [OF sub su ev ac, of t "fst ts'" p "snd ts'"] Run_Uncaught by simp
  then obtain t1 where "vm_step (value_handler V (literals oa)) oa p (t, snd ts') = Uncaught (t1, snd s')" "off (num (result (opcodes oa ! i))) t1 (fst s')"
    by (cases "vm_step (value_handler V (literals oa)) oa p (t, snd ts')") auto
  then show ?case by (intro exI [of _ "Uncaught (t1, snd s')"]) (cases s', auto intro: vm_run.Run_Uncaught)
next
  case (Run_Go p ts' q s' r')
  have "alike (num (result (opcodes oa ! i))) (vm_step (value_handler V (literals oa)) oa p (t, snd ts')) (Go q s')"
    using step_alike [OF sub su ev ac, of t "fst ts'" p "snd ts'"] Run_Go.hyps(1) Run_Go.prems by simp
  then obtain t1 where st: "vm_step (value_handler V (literals oa)) oa p (t, snd ts') = Go q (t1, snd s')" "off (num (result (opcodes oa ! i))) t1 (fst s')"
    by (cases "vm_step (value_handler V (literals oa)) oa p (t, snd ts')") auto
  have "q \<in> R \<longrightarrow> t1 (num (result (opcodes oa ! i))) = v" using live_value [OF su ev st(1)] Run_Go.prems(2) by blast
  then obtain r where "vm_run (value_handler V (literals oa)) oa q (t1, snd s') r" "alike (num (result (opcodes oa ! i))) r r'"
    using Run_Go.IH [of t1] st(2) by blast
  then show ?case using st(1) by (auto intro: vm_run.Run_Go)
qed

lemma alike_ends:
  "alike tv r0 (Left (t', s')) \<Longrightarrow> \<exists>t. r0 = Left (t, s')" "alike tv r0 (Uncaught (t', s')) \<Longrightarrow> \<exists>t. r0 = Uncaught (t, s')"
  by (cases r0; auto)+

lemma substituted_ends:
  assumes sub: "substituted oa oa' i u w" and su: "single_use V oa i u R" and ev: "evaluates V oa i v"
    and ac: "accepts V (opcodes oa ! u) (num (result (opcodes oa ! i))) v w"
  shows "ends_with V oa' 0 t s r \<longleftrightarrow> ends_with V oa 0 t s r"
proof -
  have z: "0 \<in> R \<longrightarrow> t (num (result (opcodes oa ! i))) = v" using single_useD(11) [OF su] by blast
  have o: "off (num (result (opcodes oa ! i))) t t" by (simp add: off_def)
  show ?thesis
  proof
    assume "ends_with V oa 0 t s r"
    then show "ends_with V oa' 0 t s r"
      using run_substituted [OF _ sub su ev ac, of 0 "(t, s)" _ t] z o by (fastforce simp: ends_with_def runs_def)
  next
    assume e: "ends_with V oa' 0 t s r"
    have conv: "\<exists>r0. vm_run (value_handler V (literals oa)) oa 0 (t, s) r0 \<and> alike (num (result (opcodes oa ! i))) r0 r1"
      if "vm_run (value_handler V (literals oa')) oa' 0 (t, s) r1" for r1
      using run_unsubstituted [OF that sub su ev ac, of t] z o by simp
    show "ends_with V oa 0 t s r"
    proof (cases r)
      case (Left s1)
      then obtain t1 where "vm_run (value_handler V (literals oa')) oa' 0 (t, s) (Left (t1, s1))" using e by (auto simp: ends_with_def runs_def)
      then obtain r0 where r0: "vm_run (value_handler V (literals oa)) oa 0 (t, s) r0" "alike (num (result (opcodes oa ! i))) r0 (Left (t1, s1))"
        using conv by blast
      obtain t2 where "r0 = Left (t2, s1)" using alike_ends(1) [OF r0(2)] ..

      then show ?thesis using r0(1) Left by (auto simp: ends_with_def runs_def)
    next
      case (Uncaught s1)
      then obtain t1 where "vm_run (value_handler V (literals oa')) oa' 0 (t, s) (Uncaught (t1, s1))" using e by (auto simp: ends_with_def runs_def)
      then obtain r0 where r0: "vm_run (value_handler V (literals oa)) oa 0 (t, s) r0" "alike (num (result (opcodes oa ! i))) r0 (Uncaught (t1, s1))"
        using conv by blast
      obtain t2 where "r0 = Uncaught (t2, s1)" using alike_ends(2) [OF r0(2)] ..

      then show ?thesis using r0(1) Uncaught by (auto simp: ends_with_def runs_def)
    qed (use e in \<open>auto simp: ends_with_def\<close>)
  qed
qed

section \<open>Constant folding\<close>

text \<open>The value that the pass computes for instruction \<open>i\<close>.\<close>

definition const_value :: "'x folding \<Rightarrow> 'x zend_op_array \<Rightarrow> nat \<Rightarrow> 'x zval option" where
  "const_value F oa i =
     (let o1 = opcodes oa ! i; oc = opcode o1; a = lit oa (op1 o1); b = lit oa (op2 o1) in
      if oc \<in> folded_ops
      then if op_ty (op1 o1) = IS_CONST \<and> op_ty (op2 o1) = IS_CONST \<and> \<not> (oc = ZEND_DIV \<and> b = ZLONG 0) then binary_op F oc a b else None
      else if oc = ZEND_CAST
      then if op_ty (op1 o1) = IS_CONST \<and> extended_value o1 \<notin> {TYPE_ARRAY, TYPE_OBJECT, TYPE_RESOURCE}
           then Some (convert_to F (extended_value o1) a) else None
      else if oc = ZEND_BW_NOT \<or> oc = ZEND_BOOL_NOT
      then if op_ty (op1 o1) = IS_CONST then unary_op F oc a else None
      else if oc = ZEND_FETCH_CONSTANT
      then if op_ty (op1 o1) = IS_UNUSED \<and> op_ty (op2 o1) = IS_CONST
           then case b of ZSTRING s \<Rightarrow> if s = halt_offset_name then compiler_halt_offset F else persistent_constant F s | _ \<Rightarrow> None
           else None
      else None)"

text \<open>The literal that stands for the value in the instruction \<open>u\<close> that uses it.\<close>

definition substitute :: "'x folding \<Rightarrow> 'x zend_op_array \<Rightarrow> nat \<Rightarrow> nat \<Rightarrow> 'x zval \<Rightarrow> 'x zval" where
  "substitute F oa i u v =
     (let o2 = opcodes oa ! u in
      if op_ty (op1 o2) = IS_TMP_VAR \<and> num (op1 o2) = num (result (opcodes oa ! i)) then op1_value F (opcode o2) v
      else op2_value F ((opcodes oa)[i := MAKE_NOP (opcodes oa ! i)]) u v)"

text \<open>The code before the value is substituted: the instruction is gone, and its literals are freed.\<close>

definition cleared :: "'x zend_op_array \<Rightarrow> nat \<Rightarrow> 'x zend_op_array \<Rightarrow> bool" where
  "cleared oa i oa1 \<longleftrightarrow> opcodes oa1 = (opcodes oa)[i := MAKE_NOP (opcodes oa ! i)] \<and> same_tables oa oa1
     \<and> length (literals oa1) = length (literals oa)
     \<and> (\<forall>n. n \<notin> owned (opcodes oa ! i) \<longrightarrow> literals oa1 ! n = literals oa ! n)"

lemma literal_dtor_keeps:
  "opcodes (literal_dtor z oa) = opcodes oa" "same_tables oa (literal_dtor z oa)" "length (literals (literal_dtor z oa)) = length (literals oa)"
  "n \<noteq> num z \<Longrightarrow> literals (literal_dtor z oa) ! n = literals oa ! n"
  by (simp_all add: literal_dtor_def set_lit_def same_tables_def)

lemma upd_op_keeps:
  "opcodes (upd_op i f oa) = (opcodes oa)[i := f (opcodes oa ! i)]" "literals (upd_op i f oa) = literals oa"
  "same_tables oa (upd_op i f oa)"
  by (simp_all add: upd_op_def same_tables_def)

lemma owned_ops:
  "n \<notin> owned o1 \<Longrightarrow> op_ty (op1 o1) = IS_CONST \<Longrightarrow> n \<noteq> num (op1 o1)"
  "n \<notin> owned o1 \<Longrightarrow> op_ty (op2 o1) = IS_CONST \<Longrightarrow> n \<noteq> num (op2 o1)"
  by (auto simp: owned_def)

lemma cleared_simps:
  "op_ty (op1 (opcodes oa ! i)) = IS_CONST \<Longrightarrow> cleared oa i (upd_op i MAKE_NOP (literal_dtor (op1 (opcodes oa ! i)) oa))"
  "op_ty (op2 (opcodes oa ! i)) = IS_CONST \<Longrightarrow> cleared oa i (upd_op i MAKE_NOP (literal_dtor (op2 (opcodes oa ! i)) oa))"
  "op_ty (op1 (opcodes oa ! i)) = IS_CONST \<Longrightarrow> op_ty (op2 (opcodes oa ! i)) = IS_CONST \<Longrightarrow>
     cleared oa i (upd_op i MAKE_NOP (literal_dtor (op2 (opcodes oa ! i)) (literal_dtor (op1 (opcodes oa ! i)) oa)))"
  by (simp_all add: cleared_def upd_op_keeps literal_dtor_keeps owned_ops same_tables_def
      literal_dtor_keeps(2) [unfolded same_tables_def] upd_op_keeps(3) [unfolded same_tables_def])

lemma pass1_step_folds:
  assumes v: "const_value F oa i = Some v" and i: "i < last_op oa"
  shows "\<exists>oa1 j. cleared oa i oa1 \<and> (j = i \<or> j = Suc i)
    \<and> pass1_step F nops i oa = replace_tmp_by_const F j (num (result (opcodes oa ! i))) v oa1"
proof -
  let ?o = "opcodes oa ! i"
  have res: "fold_result F i j v (literal_dtor z oa) = replace_tmp_by_const F j (num (result ?o)) v (upd_op i MAKE_NOP (literal_dtor z oa))"
    "fold_result F i j v (literal_dtor y (literal_dtor z oa))
      = replace_tmp_by_const F j (num (result ?o)) v (upd_op i MAKE_NOP (literal_dtor y (literal_dtor z oa)))" for j y z
    by (simp_all add: fold_result_def literal_dtor_def set_lit_def)
  consider "opcode ?o \<in> folded_ops" | "opcode ?o \<notin> folded_ops" "opcode ?o = ZEND_CAST"
    | "opcode ?o \<notin> folded_ops" "opcode ?o = ZEND_BW_NOT \<or> opcode ?o = ZEND_BOOL_NOT"
    | "opcode ?o \<notin> folded_ops" "opcode ?o = ZEND_FETCH_CONSTANT"
    using v by (fastforce simp: const_value_def Let_def split: if_splits)
  then show ?thesis
  proof cases
    case 1
    then have c: "op_ty (op1 ?o) = IS_CONST" "op_ty (op2 ?o) = IS_CONST" "\<not> (opcode ?o = ZEND_DIV \<and> lit oa (op2 ?o) = ZLONG 0)"
      "binary_op F (opcode ?o) (lit oa (op1 ?o)) (lit oa (op2 ?o)) = Some v" using v by (auto simp: const_value_def Let_def split: if_splits)
    then have "pass1_step F nops i oa = fold_result F i (Suc i) v (literal_dtor (op2 ?o) (literal_dtor (op1 ?o) oa))"
      using 1 by (auto simp: pass1_step_def fold_binary_def Let_def)
    then show ?thesis using cleared_simps(3) [OF c(1,2)] res by auto
  next
    case 2
    then have c: "op_ty (op1 ?o) = IS_CONST" "extended_value ?o \<notin> {TYPE_ARRAY, TYPE_OBJECT, TYPE_RESOURCE}" "convert_to F (extended_value ?o) (lit oa (op1 ?o)) = v"
      using v by (auto simp: const_value_def Let_def folded_ops_def split: if_splits)
    then have "pass1_step F nops i oa = fold_result F i (Suc i) v (literal_dtor (op1 ?o) oa)"
      using 2 by (auto simp: pass1_step_def fold_cast_def Let_def folded_ops_def)
    then show ?thesis using cleared_simps(1) [OF c(1)] res by auto
  next
    case 3
    then have c: "op_ty (op1 ?o) = IS_CONST" "unary_op F (opcode ?o) (lit oa (op1 ?o)) = Some v"
      using v by (auto simp: const_value_def Let_def folded_ops_def split: if_splits)
    then have "pass1_step F nops i oa = fold_result F i (Suc i) v (literal_dtor (op1 ?o) oa)"
      using 3 by (auto simp: pass1_step_def fold_unary_def Let_def folded_ops_def)
    then show ?thesis using cleared_simps(1) [OF c(1)] res by auto
  next
    case 4
    then obtain s where c: "op_ty (op1 ?o) = IS_UNUSED" "op_ty (op2 ?o) = IS_CONST" "lit oa (op2 ?o) = ZSTRING s"
      "(if s = halt_offset_name then compiler_halt_offset F else persistent_constant F s) = Some v"
      using v by (auto simp: const_value_def Let_def folded_ops_def split: if_splits zval.splits)
    then have "pass1_step F nops i oa = fold_result F i i v (literal_dtor (op2 ?o) oa)"
      using 4 by (auto simp: pass1_step_def fold_constant_def Let_def folded_ops_def)
    then show ?thesis using cleared_simps(2) [OF c(2)] res by auto
  qed
qed

lemma replace_reaches:
  assumes "j \<le> u" "u < last_op oa" "\<forall>k. j \<le> k \<longrightarrow> k < u \<longrightarrow> \<not> is_tmp (op1 (opcodes oa ! k)) tv \<and> \<not> is_tmp (op2 (opcodes oa ! k)) tv"
  shows "replace_tmp_by_const F j tv v oa = replace_tmp_by_const F u tv v oa"
  using assms
proof (induction "u - j" arbitrary: j)
  case (Suc n)
  then have "replace_tmp_by_const F j tv v oa = replace_tmp_by_const F (Suc j) tv v oa"
    by (subst replace_tmp_by_const.simps) (simp add: Let_def)
  moreover have "replace_tmp_by_const F (Suc j) tv v oa = replace_tmp_by_const F u tv v oa"
    using Suc.hyps(2) Suc.prems by (intro Suc.hyps(1)) auto
  ultimately show ?case by simp
qed simp

lemma update_op2_returns:
  assumes "i \<noteq> 0"
  shows "\<exists>oa'. update_op2_const F i v oa = Some oa'"
  using assms by (cases v) (auto simp: update_op2_const_def Let_def split: prod.split)

lemma with_const_nth:
  "i < last_op oa \<Longrightarrow> with_const1 oa i ! k = (if k = i then (opcodes oa ! i)\<lparr>op1 := \<lparr>op_ty = IS_CONST, ext_unused = False, num = length (literals oa)\<rparr>\<rparr> else opcodes oa ! k)"
  "i < last_op oa \<Longrightarrow> with_const2 oa i ! k = (if k = i then (opcodes oa ! i)\<lparr>op2 := \<lparr>op_ty = IS_CONST, ext_unused = False, num = length (literals oa)\<rparr>\<rparr> else opcodes oa ! k)"
  "length (with_const1 oa i) = last_op oa" "length (with_const2 oa i) = last_op oa"
  by (auto simp: with_const1_def with_const2_def nth_list_update)

lemma extends_keeps: "extends oa oa' v \<Longrightarrow> n < length (literals oa) \<Longrightarrow> literals oa' ! n = literals oa ! n"
  by (metis extends_def nth_take)

lemma cleared_nth:
  assumes "cleared oa i oa1" "i < last_op oa"
  shows "last_op oa1 = last_op oa" "opcodes oa1 ! k = (if k = i then MAKE_NOP (opcodes oa ! i) else opcodes oa ! k)"
  using assms by (auto simp: cleared_def nth_list_update)

lemma cleared_substituted:
  assumes cl: "cleared oa i oa1" and i: "i < last_op oa" "u < last_op oa" "i \<noteq> u" and ex: "extends oa1 oa' w" and st: "same_tables oa1 oa'"
    and ops: "opcodes oa' = (if op_ty (op1 (opcodes oa ! u)) = IS_TMP_VAR \<and> num (op1 (opcodes oa ! u)) = num (result (opcodes oa ! i))
      then with_const1 oa1 u else with_const2 oa1 u)"
  shows "substituted oa oa' i u w"
proof -
  note c = cleared_nth [OF cl i(1)] and n = with_const_nth [where oa = oa1]
  let ?z = "\<lparr>op_ty = IS_CONST, ext_unused = False, num = length (literals oa1)\<rparr>"
  have l: "lit oa' ?z = w" using ex by (simp add: lit_def extends_def)
  have "lit_constant (literals oa' ! n) = lit_constant (literals oa ! n)" if "n < length (literals oa)" "n \<notin> owned (opcodes oa ! i)" for n
    using that extends_keeps [OF ex, of n] cl by (simp add: cleared_def)
  moreover have "same_tables oa oa'" using cl st by (auto simp: cleared_def intro: same_tables_trans)
  moreover have "last_op oa' = last_op oa" using n(3,4) c(1) by (simp add: ops)
  moreover have "opcodes oa' ! k = opcodes oa ! k" if "k \<noteq> i" "k \<noteq> u" for k using n(1,2) c i that by (simp add: ops)
  moreover have "opcode (opcodes oa' ! i) = ZEND_NOP" using n(1,2) c i by (simp add: ops MAKE_NOP_def)
  moreover have "opcodes oa' ! u = (if op_ty (op1 (opcodes oa ! u)) = IS_TMP_VAR \<and> num (op1 (opcodes oa ! u)) = num (result (opcodes oa ! i))
      then (opcodes oa ! u)\<lparr>op1 := ?z\<rparr> else (opcodes oa ! u)\<lparr>op2 := ?z\<rparr>)" using n(1,2) c i by (simp add: ops)
  ultimately show ?thesis unfolding substituted_def using l by (intro conjI exI [of _ ?z]) simp_all
qed

lemma replaced_at_use:
  assumes cl: "cleared oa i oa1" and su: "single_use V oa i u R" and iu: "i < u" and j: "j = i \<or> j = Suc i"
  shows "\<exists>oa'. replace_tmp_by_const F j (num (result (opcodes oa ! i))) v oa1 = Some oa' \<and> substituted oa oa' i u (substitute F oa i u v)"
proof -
  let ?tv = "num (result (opcodes oa ! i))" and ?o = "opcodes oa ! u"
  note s = single_useD [OF su] and c = cleared_nth [OF cl single_useD(1) [OF su]]
  have k: "\<not> is_tmp (op1 (opcodes oa1 ! k)) ?tv \<and> \<not> is_tmp (op2 (opcodes oa1 ! k)) ?tv" if "k < u" for k
    using that s(12) [of k] s(2) by (auto simp: c(2) is_tmp_def uses_tmp_def MAKE_NOP_def unused_node_def)
  have at: "opcodes oa1 ! u = ?o" and u: "u < last_op oa1" using c s(2,3) by auto
  have r: "replace_tmp_by_const F j ?tv v oa1 = replace_tmp_by_const F u ?tv v oa1"
    by (rule replace_reaches) (use j iu u k in auto)
  have e: "\<not> ext_unused (op1 ?o)" "\<not> ext_unused (op2 ?o)" using su unfolding single_use_def by blast+
  show ?thesis
  proof (cases "op_ty (op1 ?o) = IS_TMP_VAR \<and> num (op1 ?o) = ?tv")
    case True
    then have r1: "replace_tmp_by_const F u ?tv v oa1 = Some (update_op1_const F u v oa1)"
      using u at e s(8) by (subst replace_tmp_by_const.simps) (simp add: Let_def is_tmp_def)
    have o: "opcodes (update_op1_const F u v oa1) = with_const1 oa1 u \<and> same_tables oa1 (update_op1_const F u v oa1)
      \<and> extends oa1 (update_op1_const F u v oa1) (op1_value F (opcode ?o) v)"
      using update_op1_ok [of oa1 u F v] at s(8) by simp
    have "substitute F oa i u v = op1_value F (opcode ?o) v" using True by (simp add: substitute_def)
    then show ?thesis using cleared_substituted [OF cl s(1-3), of "update_op1_const F u v oa1"] o True r r1 by simp
  next
    case False
    then have r2: "replace_tmp_by_const F u ?tv v oa1 = update_op2_const F u v oa1"
      using u at e s(7) by (subst replace_tmp_by_const.simps) (auto simp: Let_def is_tmp_def uses_tmp_def)
    obtain oa' where u2: "update_op2_const F u v oa1 = Some oa'" using update_op2_returns [of u F v oa1] iu by auto
    have "substitute F oa i u v = op2_value F (opcodes oa1) u v" using False cl by (auto simp: substitute_def cleared_def)
    have o: "opcodes oa' = with_const2 oa1 u" "same_tables oa1 oa'" "extends oa1 oa' (substitute F oa i u v)"
      using update_op2_ok [OF u2] \<open>substitute F oa i u v = op2_value F (opcodes oa1) u v\<close> by simp_all
    have "substituted oa oa' i u (substitute F oa i u v)"
      by (rule cleared_substituted [OF cl s(1-3) o(3,2)]) (use False o(1) in \<open>simp only: if_False\<close>)
    then show ?thesis using r r2 u2 by (intro exI [of _ oa']) simp
  qed
qed

text \<open>C30. An instruction with constant operands whose value the engine gives at compile time
  (\<open>const_value\<close>), and whose handler gives the same value at run time (\<open>evaluates\<close>), sets a temporary that
  one later instruction uses, which is neither CASE nor FREE (\<open>single_use\<close>). The pass makes it a NOP and
  puts a literal with the value in the place of the temporary; every other instruction and every literal that
  others use is kept (\<open>substituted\<close>). The code ends as before, for every run and every state, when the
  handler of the using instruction does not distinguish the value from the literal that stands for it
  (\<open>accepts\<close>; they differ for names, which are stored in lower case, and for numeric keys).
\<close>

theorem constant_folding_correct:
  assumes v: "const_value F oa i = Some v" and su: "single_use V oa i u R" and iu: "i < u" and ev: "evaluates V oa i v"
    and ac: "accepts V (opcodes oa ! u) (num (result (opcodes oa ! i))) v (substitute F oa i u v)"
  shows "\<exists>oa'. pass1_step F nops i oa = Some oa' \<and> substituted oa oa' i u (substitute F oa i u v)
    \<and> (\<forall>t s r. ends_with V oa' 0 t s r \<longleftrightarrow> ends_with V oa 0 t s r)"
proof -
  obtain oa1 j where f: "cleared oa i oa1" "j = i \<or> j = Suc i"
    "pass1_step F nops i oa = replace_tmp_by_const F j (num (result (opcodes oa ! i))) v oa1"
    using pass1_step_folds [OF v single_useD(1) [OF su], of nops] by blast
  obtain oa' where "pass1_step F nops i oa = Some oa'" "substituted oa oa' i u (substitute F oa i u v)"
    using replaced_at_use [OF f(1) su iu f(2), of F v] f(3) by auto
  then show ?thesis using substituted_ends [OF _ su ev ac] by blast
qed

section \<open>An example of constant folding\<close>

definition demo_lower :: "char \<Rightarrow> char" where
  "demo_lower c = (let n = of_char c :: nat in if 65 \<le> n \<and> n \<le> 90 then char_of (n + 32) else c)"

definition demo_folding :: "nat folding" where
  "demo_folding = \<lparr>binary_op = (\<lambda>oc a b. case (a, b) of (ZLONG m, ZLONG n) \<Rightarrow> if oc = ZEND_SUB then Some (ZLONG (m - n)) else None | _ \<Rightarrow> None),
     unary_op = (\<lambda>_ _. None), convert_to = (\<lambda>_ v. v), compiler_halt_offset = None, persistent_constant = (\<lambda>_. None),
     hash_of = (\<lambda>s. of_nat (length s)), to_lower = map demo_lower, numeric_key = (\<lambda>_. None), fetches_local = (\<lambda>_. True)\<rparr>"

definition demo_values :: "(nat, nat operand list) value_handlers" where
  "demo_values oc r e x y s =
     (if oc = ZEND_SUB then (case (x, y) of (Inl (ZLONG m), Inl (ZLONG n)) \<Rightarrow> ZLONG (m - n) | _ \<Rightarrow> ZNULL, s, Next)
      else if oc = ZEND_ECHO then (ZNULL, s @ [x], Next) else (ZNULL, s, Leave))"

definition demo_pass1 :: "nat zend_op_array" where
  "demo_pass1 = code_of [(plain ZEND_SUB)\<lparr>op1 := node IS_CONST 0, op2 := node IS_CONST 1, result := node IS_TMP_VAR 0\<rparr>,
      (plain ZEND_ECHO)\<lparr>op1 := node IS_TMP_VAR 0\<rparr>, plain ZEND_RETURN] [ZLONG 7, ZLONG 5]"

lemma demo_pass1_ops:
  "last_op demo_pass1 = 3" "length (literals demo_pass1) = 2"
  "opcodes demo_pass1 ! 0 = (plain ZEND_SUB)\<lparr>op1 := node IS_CONST 0, op2 := node IS_CONST 1, result := node IS_TMP_VAR 0\<rparr>"
  "opcodes demo_pass1 ! 1 = (plain ZEND_ECHO)\<lparr>op1 := node IS_TMP_VAR 0\<rparr>" "opcodes demo_pass1 ! Suc 0 = (plain ZEND_ECHO)\<lparr>op1 := node IS_TMP_VAR 0\<rparr>"
  "opcodes demo_pass1 ! 2 = plain ZEND_RETURN" "lit demo_pass1 (node IS_CONST 0) = ZLONG 7" "lit demo_pass1 (node IS_CONST 1) = ZLONG 5"
  by (simp_all add: demo_pass1_def code_of_def lit_def node_def)

lemma demo_single_use: "single_use demo_values demo_pass1 0 1 {1}"
proof -
  have c: "owned o1 = (if op_ty (op1 o1) = IS_CONST then {num (op1 o1)} else {})
      \<union> (if op_ty (op2 o1) = IS_CONST then {num (op2 o1)} else {})" for o1
    by (auto simp: owned_def)
  have three: "(\<forall>k < 3. P k) \<longleftrightarrow> P 0 \<and> P 1 \<and> P 2" for P :: "nat \<Rightarrow> bool" by (auto simp: less_Suc_eq numeral_3_eq_3 numeral_2_eq_2)
  have go: "p = 1 \<or> p = 0" if "vm_step (value_handler demo_values (literals demo_pass1)) demo_pass1 p ts = Go q ts'" "q = 1" for p ts q ts'
  proof (rule ccontr)
    assume "\<not> (p = 1 \<or> p = 0)"
    then have "p = 2" using that(1) by (auto simp: vm_step_def demo_pass1_ops split: if_splits)
    then show False using that
      by (auto simp: vm_step_def Let_def demo_pass1_ops value_handler_def demo_values_def resume_def plain_def blank_def jumps_op1_def split: if_splits prod.splits)
  qed
  show ?thesis
    unfolding single_use_def Let_def demo_pass1_ops(1) three
  proof (intro conjI)
    show "\<forall>p ts q ts'. vm_step (value_handler demo_values (literals demo_pass1)) demo_pass1 p ts = Go q ts' \<longrightarrow> q \<in> {1} \<longrightarrow> p \<in> {1} \<or> p = 0"
      using go by blast
  qed (simp_all add: demo_pass1_ops, simp_all add: c plain_def node_def unused_node_def uses_tmp_def sets_tmp_def jumps_op1_def jumps_op2_def jumps_ext_def
      links_result_def blank_def)
qed

lemma constant_folding_correct_witness:
  "\<exists>oa'. pass1_step demo_folding False 0 demo_pass1 = Some oa' \<and> opcode (opcodes oa' ! 0) = ZEND_NOP
     \<and> lit oa' (op1 (opcodes oa' ! 1)) = ZLONG 2
     \<and> (\<forall>t s r. ends_with demo_values oa' 0 t s r \<longleftrightarrow> ends_with demo_values demo_pass1 0 t s r)"
proof -
  have v: "const_value demo_folding demo_pass1 0 = Some (ZLONG 2)"
    using demo_pass1_ops(7,8) by (simp add: const_value_def Let_def demo_pass1_ops(3) plain_def folded_ops_def demo_folding_def node_def)
  have e: "evaluates demo_values demo_pass1 0 (ZLONG 2)"
    using demo_pass1_ops(7,8) by (simp add: evaluates_def value_handler_def demo_values_def demo_pass1_ops plain_def blank_def
        jumps_op1_def jumps_op2_def jumps_ext_def links_result_def operand_def node_def lit_def)
  have w: "substitute demo_folding demo_pass1 0 1 (ZLONG 2) = ZLONG 2"
    by (simp add: substitute_def op1_value_def op2_value_def Let_def)
  then have "accepts demo_values (opcodes demo_pass1 ! 1) (num (result (opcodes demo_pass1 ! 0))) (ZLONG 2)
      (substitute demo_folding demo_pass1 0 1 (ZLONG 2))"
    by (simp add: accepts_def)
  from constant_folding_correct [OF v demo_single_use _ e this, of False] show ?thesis
    unfolding w substituted_def by (fastforce simp: demo_pass1_ops node_def)
qed

section \<open>Series of appended strings\<close>

text \<open>The text that the instructions from \<open>i\<close> to before \<open>j\<close> append.\<close>

definition text_between :: "'x zend_op_array \<Rightarrow> nat \<Rightarrow> nat \<Rightarrow> string" where
  "text_between oa i j = concat (map (\<lambda>k. if is_append (opcodes oa ! k) then the (appended oa (opcodes oa ! k)) else []) [i..<j])"

definition in_series :: "'x zend_op_array \<Rightarrow> nat \<Rightarrow> nat \<Rightarrow> bool" where
  "in_series oa i k \<longleftrightarrow> is_append (opcodes oa ! k) \<and> num (result (opcodes oa ! k)) = num (result (opcodes oa ! i))"

lemma text_between_Suc:
  "i < j \<Longrightarrow> text_between oa i j = (if is_append (opcodes oa ! i) then the (appended oa (opcodes oa ! i)) else []) @ text_between oa (Suc i) j"
  by (simp add: text_between_def upt_conv_Cons)

lemma text_between_none: "(\<And>k. i \<le> k \<Longrightarrow> k < j \<Longrightarrow> \<not> is_append (opcodes oa ! k)) \<Longrightarrow> text_between oa i j = []"
  by (auto simp: text_between_def)

lemma append_series_spec:
  assumes "append_series oa i j s = Some (j', s')"
  shows "j \<le> j' \<and> j' < last_op oa \<and> (\<forall>k. j \<le> k \<longrightarrow> k < j' \<longrightarrow> in_series oa i k) \<and> \<not> in_series oa i j' \<and> s' = s @ text_between oa j j'"
  using assms
proof (induction oa i j s rule: append_series.induct)
  case (1 oa i j s)
  show ?case
  proof (cases "j < last_op oa \<and> in_series oa i j")
    case False
    then have "j' = j \<and> s' = s \<and> j < last_op oa \<and> \<not> in_series oa i j"
      using 1(2) by (subst (asm) append_series.simps) (auto simp: Let_def in_series_def split: if_splits)
    then show ?thesis by (auto simp: text_between_def)
  next
    case True
    then obtain t where t: "appended oa (opcodes oa ! j) = Some t" "append_series oa i (Suc j) (s @ t) = Some (j', s')"
      using 1(2) by (subst (asm) append_series.simps) (auto simp: Let_def in_series_def split: if_splits option.splits)
    have ih: "Suc j \<le> j' \<and> j' < last_op oa \<and> (\<forall>k. Suc j \<le> k \<longrightarrow> k < j' \<longrightarrow> in_series oa i k) \<and> \<not> in_series oa i j'
        \<and> s' = (s @ t) @ text_between oa (Suc j) j'"
      by (rule 1(1) [OF _ refl _ t(1,2)]) (use True in \<open>simp_all add: in_series_def\<close>)
    then have "text_between oa j j' = t @ text_between oa (Suc j) j'"
      using True t(1) by (simp add: text_between_Suc in_series_def)
    moreover have "in_series oa i k" if "j \<le> k" "k < j'" for k using ih True that by (cases "k = j") auto
    ultimately show ?thesis using ih by simp
  qed
qed

lemma drop_appends_spec:
  "last_op (drop_appends j n oa) = last_op oa \<and> length (literals (drop_appends j n oa)) = length (literals oa)
   \<and> (\<forall>k < last_op oa. opcodes (drop_appends j n oa) ! k = (if j \<le> k \<and> k < j + n then MAKE_NOP (opcodes oa ! k) else opcodes oa ! k))
   \<and> (\<forall>m. (\<forall>k. j \<le> k \<longrightarrow> k < j + n \<longrightarrow> opcode (opcodes oa ! k) = ZEND_ADD_STRING \<longrightarrow> m \<noteq> num (op2 (opcodes oa ! k)))
        \<longrightarrow> literals (drop_appends j n oa) ! m = literals oa ! m)"
proof (induction n arbitrary: j oa)
  case (Suc n)
  define oa1 where "oa1 = upd_op j MAKE_NOP (if opcode (opcodes oa ! j) = ZEND_ADD_STRING then literal_dtor (op2 (opcodes oa ! j)) oa else oa)"
  have o: "opcodes oa1 = (opcodes oa)[j := MAKE_NOP (opcodes oa ! j)]" "length (literals oa1) = length (literals oa)"
    by (simp_all add: oa1_def upd_op_keeps literal_dtor_keeps)
  have l: "literals oa1 ! m = literals oa ! m" if "opcode (opcodes oa ! j) = ZEND_ADD_STRING \<longrightarrow> m \<noteq> num (op2 (opcodes oa ! j))" for m
    using that by (simp add: oa1_def upd_op_keeps literal_dtor_keeps)
  have e: "drop_appends j (Suc n) oa = drop_appends (Suc j) n oa1" by (simp add: oa1_def Let_def)
  note ih = Suc.IH [of "Suc j" oa1]
  have "literals (drop_appends (Suc j) n oa1) ! m = literals oa ! m"
    if m: "\<forall>k. j \<le> k \<longrightarrow> k < j + Suc n \<longrightarrow> opcode (opcodes oa ! k) = ZEND_ADD_STRING \<longrightarrow> m \<noteq> num (op2 (opcodes oa ! k))" for m
  proof -
    have "\<forall>k. Suc j \<le> k \<longrightarrow> k < Suc j + n \<longrightarrow> opcode (opcodes oa1 ! k) = ZEND_ADD_STRING \<longrightarrow> m \<noteq> num (op2 (opcodes oa1 ! k))"
      using m by (simp add: o)
    then have "literals (drop_appends (Suc j) n oa1) ! m = literals oa1 ! m" using ih by blast
    then show ?thesis using l [of m] m by simp
  qed
  moreover have "opcodes (drop_appends (Suc j) n oa1) ! k = (if j \<le> k \<and> k < j + Suc n then MAKE_NOP (opcodes oa ! k) else opcodes oa ! k)"
    if "k < last_op oa" for k
  proof (cases "k = j")
    case True
    then show ?thesis using ih that by (simp add: o)
  next
    case False
    then have "Suc j \<le> k \<and> k < Suc j + n \<longleftrightarrow> j \<le> k \<and> k < j + Suc n" by linarith
    then show ?thesis using ih that False by (simp add: o)
  qed
  ultimately show ?case using ih e o by simp
qed auto

text \<open>Instructions that append have a literal of the right type, and code ends with another instruction.\<close>

definition appends_ok :: "'x zend_op_array \<Rightarrow> bool" where
  "appends_ok oa \<longleftrightarrow> unshared (opcodes oa)
     \<and> (\<forall>k < last_op oa. is_append (opcodes oa ! k) \<longrightarrow> op_ty (op2 (opcodes oa ! k)) = IS_CONST
          \<and> num (op2 (opcodes oa ! k)) < length (literals oa) \<and> (\<exists>t. appended oa (opcodes oa ! k) = Some t))"

lemma appends_okD:
  assumes "appends_ok oa" "k < last_op oa" "is_append (opcodes oa ! k)"
  shows "op_ty (op2 (opcodes oa ! k)) = IS_CONST" "num (op2 (opcodes oa ! k)) < length (literals oa)" "\<exists>t. appended oa (opcodes oa ! k) = Some t"
    "\<And>l. l < last_op oa \<Longrightarrow> l \<noteq> k \<Longrightarrow> is_append (opcodes oa ! l) \<Longrightarrow> num (op2 (opcodes oa ! l)) \<noteq> num (op2 (opcodes oa ! k))"
proof -
  have all: "op_ty (op2 (opcodes oa ! k)) = IS_CONST \<and> num (op2 (opcodes oa ! k)) < length (literals oa) \<and> (\<exists>t. appended oa (opcodes oa ! k) = Some t)"
    if "k < last_op oa" "is_append (opcodes oa ! k)" for k
    using assms(1) that unfolding appends_ok_def by blast
  then show "op_ty (op2 (opcodes oa ! k)) = IS_CONST" "num (op2 (opcodes oa ! k)) < length (literals oa)" "\<exists>t. appended oa (opcodes oa ! k) = Some t"
    using assms(2,3) by blast+
  show "num (op2 (opcodes oa ! l)) \<noteq> num (op2 (opcodes oa ! k))" if "l < last_op oa" "l \<noteq> k" "is_append (opcodes oa ! l)" for l
  proof -
    have "owned (opcodes oa ! l) \<inter> owned (opcodes oa ! k) = {}" using assms(1,2) that(1,2) unfolding appends_ok_def unshared_def by blast
    moreover have "num (op2 (opcodes oa ! l)) \<in> owned (opcodes oa ! l)" "num (op2 (opcodes oa ! k)) \<in> owned (opcodes oa ! k)"
      using all [OF that(1,3)] all [OF assms(2,3)] by (auto simp: owned_def)
    ultimately show ?thesis by auto
  qed
qed

lemma append_series_returns:
  assumes ok: "appends_ok oa" and "e < last_op oa" "\<not> in_series oa i e" "j \<le> e"
  shows "\<exists>j' s'. append_series oa i j s = Some (j', s')"
  using assms(4)
proof (induction "e - j" arbitrary: j s)
  case 0
  then show ?case using assms(2,3) by (subst append_series.simps) (auto simp: Let_def in_series_def)
next
  case (Suc n)
  show ?case
  proof (cases "in_series oa i j")
    case True
    then obtain t where t: "appended oa (opcodes oa ! j) = Some t"
      using appends_okD(3) [OF ok, of j] assms(2) Suc.prems by (auto simp: in_series_def)
    have "append_series oa i j s = append_series oa i (Suc j) (s @ t)"
      using True t assms(2) Suc.prems by (subst append_series.simps) (simp add: Let_def in_series_def)
    then show ?thesis using Suc.hyps(1) [of "Suc j" "s @ t"] Suc.hyps(2) by simp
  next
    case False
    then show ?thesis using assms(2) Suc.prems by (subst append_series.simps) (auto simp: Let_def in_series_def)
  qed
qed

text \<open>The code \<open>oa'\<close> with the instructions from \<open>i\<close> to before \<open>j\<close> fused into the one at \<open>i\<close>.\<close>

definition fused :: "'x zend_op_array \<Rightarrow> 'x zend_op_array \<Rightarrow> nat \<Rightarrow> nat \<Rightarrow> string \<Rightarrow> bool" where
  "fused oa oa' i j s \<longleftrightarrow> last_op oa' = last_op oa
     \<and> opcodes oa' ! i = (opcodes oa ! i)\<lparr>opcode := ZEND_ADD_STRING\<rparr> \<and> lit oa' (op2 (opcodes oa ! i)) = ZSTRING s
     \<and> (\<forall>k. i < k \<longrightarrow> k < j \<longrightarrow> opcode (opcodes oa' ! k) = ZEND_NOP \<or> k = Suc i \<and> opcode (opcodes oa' ! k) = ZEND_JMP \<and> num (op1 (opcodes oa' ! k)) = j)
     \<and> (\<forall>k < last_op oa. k < i \<or> j \<le> k \<longrightarrow> opcodes oa' ! k = opcodes oa ! k)
     \<and> (\<forall>m. (\<forall>k. i \<le> k \<longrightarrow> k < j \<longrightarrow> m \<noteq> num (op2 (opcodes oa ! k))) \<longrightarrow> literals oa' ! m = literals oa ! m)"

lemma fuse_appends_fused:
  assumes ok: "appends_ok oa" and i: "i < last_op oa" "is_append (opcodes oa ! i)"
    and j: "append_series oa i (Suc i) [] = Some (j, s)" "s \<noteq> []" and t: "appended oa (opcodes oa ! i) = Some t"
  shows "\<exists>oa'. fuse_appends nops i oa = Some oa' \<and> fused oa oa' i j (t @ s)"
proof -
  let ?z = "op2 (opcodes oa ! i)"
  define B where "B = set_lit ?z (ZSTRING (t @ s)) (upd_op i (\<lambda>o1. o1\<lparr>opcode := ZEND_ADD_STRING\<rparr>) oa)"
  define C where "C = drop_appends (Suc i) (j - Suc i) B"
  have sp: "Suc i \<le> j" "j < last_op oa" "\<forall>k. Suc i \<le> k \<longrightarrow> k < j \<longrightarrow> in_series oa i k" using append_series_spec [OF j(1)] by simp_all
  have b: "opcodes B = (opcodes oa)[i := (opcodes oa ! i)\<lparr>opcode := ZEND_ADD_STRING\<rparr>]" "length (literals B) = length (literals oa)"
    by (simp_all add: B_def set_lit_def upd_op_def)
  have bl: "lit_constant (literals B ! num ?z) = ZSTRING (t @ s)" "m \<noteq> num ?z \<Longrightarrow> literals B ! m = literals oa ! m" for m
    using appends_okD(2) [OF ok i] by (simp_all add: B_def set_lit_def upd_op_def)
  note d = drop_appends_spec [of "Suc i" "j - Suc i" B, folded C_def]
  have co: "opcodes C ! k = (if k = i then (opcodes oa ! i)\<lparr>opcode := ZEND_ADD_STRING\<rparr> else if i < k \<and> k < j then MAKE_NOP (opcodes oa ! k) else opcodes oa ! k)"
    if "k < last_op oa" for k
    using d that sp(1) i(1) by (auto simp: b nth_list_update)
  have cl: "literals C ! m = literals B ! m" if "\<forall>k. i < k \<longrightarrow> k < j \<longrightarrow> m \<noteq> num (op2 (opcodes oa ! k))" for m
  proof -
    have "\<forall>k. Suc i \<le> k \<longrightarrow> k < Suc i + (j - Suc i) \<longrightarrow> opcode (opcodes B ! k) = ZEND_ADD_STRING \<longrightarrow> m \<noteq> num (op2 (opcodes B ! k))"
      using that by (simp add: b)
    then show ?thesis using d by blast
  qed
  have own: "\<forall>k. i < k \<longrightarrow> k < j \<longrightarrow> num ?z \<noteq> num (op2 (opcodes oa ! k))"
    using appends_okD(4) [OF ok i] sp by (metis Suc_leI in_series_def less_irrefl order_less_trans)
  have lz: "lit C ?z = ZSTRING (t @ s)" using cl [OF own] bl(1) by (simp add: lit_def)
  have fC: "fused oa C i j (t @ s)"
    unfolding fused_def
  proof (intro conjI allI impI)
    show "last_op C = last_op oa" using d by (simp add: b)
    show "opcodes C ! i = (opcodes oa ! i)\<lparr>opcode := ZEND_ADD_STRING\<rparr>" using co i by simp
    show "opcode (opcodes C ! k) = ZEND_NOP \<or> k = Suc i \<and> opcode (opcodes C ! k) = ZEND_JMP \<and> num (op1 (opcodes C ! k)) = j"
      if "i < k" "k < j" for k using co [of k] that sp(2) by (simp add: MAKE_NOP_def)
    show "opcodes C ! k = opcodes oa ! k" if "k < last_op oa" "k < i \<or> j \<le> k" for k using co [of k] that sp(1) by auto
    show "literals C ! m = literals oa ! m" if "\<forall>k. i \<le> k \<longrightarrow> k < j \<longrightarrow> m \<noteq> num (op2 (opcodes oa ! k))" for m
      using cl [of m] bl(2) [of m] that sp(1) by simp
  qed (fact lz)
  define D where "D = (if \<not> nops \<and> j - i \<ge> 3 then upd_op (Suc i) (\<lambda>o1. o1\<lparr>opcode := ZEND_JMP, op1 := (op1 o1)\<lparr>num := j\<rparr>\<rparr>) C else C)"
  have "fused oa D i j (t @ s)"
  proof (cases "\<not> nops \<and> j - i \<ge> 3")
    case True
    have "Suc i < last_op C" using d sp by (simp add: b)
    then show ?thesis using fC True by (auto simp: D_def fused_def upd_op_def lit_def nth_list_update)
  next
    case False
    then show ?thesis unfolding D_def by (subst if_not_P) (use fC in auto)
  qed
  moreover have "fuse_appends nops i oa = Some D" using j t by (simp add: fuse_appends_def Let_def D_def C_def B_def)
  ultimately show ?thesis by blast
qed

lemma fused_gone:
  assumes "fused oa oa' i j s" "i < k" "k < j"
  shows "\<not> is_append (opcodes oa' ! k)"
proof -
  have "opcode (opcodes oa' ! k) = ZEND_NOP \<or> opcode (opcodes oa' ! k) = ZEND_JMP" using assms unfolding fused_def by blast
  then show ?thesis by (auto simp: is_append_def)
qed

lemma fused_text:
  assumes f: "fused oa oa' i j s" and "i < j" "is_append (opcodes oa ! i)"
  shows "text_between oa' i j = s"
proof -
  have "text_between oa' (Suc i) j = []"
    by (rule text_between_none) (use fused_gone [OF f] in simp)
  moreover have "is_append (opcodes oa' ! i)" "appended oa' (opcodes oa' ! i) = Some s"
    using f by (simp_all add: fused_def is_append_def appended_def)
  ultimately show ?thesis using assms(2) by (simp add: text_between_Suc)
qed

text \<open>C31. A series of instructions that append constant strings and characters to one string: the
  instructions that remain append the same text, those after the first are gone (or jump over the
  others) unless they append nothing, and the rest of the code and its literals are as before.
\<close>

theorem fuse_appends_same_text:
  assumes ok: "appends_ok oa" and i: "i < last_op oa" "is_append (opcodes oa ! i)"
    and e: "i < e" "e < last_op oa" "\<not> in_series oa i e"
  shows "\<exists>oa' j. fuse_appends nops i oa = Some oa' \<and> i < j \<and> j \<le> e \<and> (\<forall>k. i < k \<longrightarrow> k < j \<longrightarrow> in_series oa i k)
    \<and> text_between oa' i j = text_between oa i j
    \<and> (text_between oa (Suc i) j \<noteq> [] \<longrightarrow> (\<forall>k. i < k \<longrightarrow> k < j \<longrightarrow> \<not> is_append (opcodes oa' ! k)))
    \<and> (\<forall>k < last_op oa. k < i \<or> j \<le> k \<longrightarrow> opcodes oa' ! k = opcodes oa ! k)
    \<and> (\<forall>m. (\<forall>k. i \<le> k \<longrightarrow> k < j \<longrightarrow> m \<noteq> num (op2 (opcodes oa ! k))) \<longrightarrow> literals oa' ! m = literals oa ! m)"
proof -
  obtain j s where j: "append_series oa i (Suc i) [] = Some (j, s)" using append_series_returns [OF ok e(2,3)] e(1) by (meson Suc_leI)
  have sp: "i < j" "\<forall>k. i < k \<longrightarrow> k < j \<longrightarrow> in_series oa i k" "s = text_between oa (Suc i) j" using append_series_spec [OF j] by simp_all
  have je: "j \<le> e" using sp(2) e(1,3) by (meson not_le_imp_less)
  obtain t where t: "appended oa (opcodes oa ! i) = Some t" using appends_okD(3) [OF ok i] by blast
  have all: "text_between oa i j = t @ s" using sp(1,3) i(2) t by (simp add: text_between_Suc)
  show ?thesis
  proof (cases "s = []")
    case True
    then have "fuse_appends nops i oa = Some oa" using j by (simp add: fuse_appends_def Let_def)
    then show ?thesis using sp je True by (intro exI [of _ oa] exI [of _ j]) simp
  next
    case False
    obtain oa' where f: "fuse_appends nops i oa = Some oa'" "fused oa oa' i j (t @ s)"
      using fuse_appends_fused [OF ok i j False t] by blast
    have "text_between oa' i j = text_between oa i j" using fused_text [OF f(2) sp(1) i(2)] all by simp
    moreover have "\<not> is_append (opcodes oa' ! k)" if "i < k" "k < j" for k using fused_gone [OF f(2) that] .
    moreover have "\<forall>k < last_op oa. k < i \<or> j \<le> k \<longrightarrow> opcodes oa' ! k = opcodes oa ! k" using f(2) unfolding fused_def by blast
    moreover have "\<forall>m. (\<forall>k. i \<le> k \<longrightarrow> k < j \<longrightarrow> m \<noteq> num (op2 (opcodes oa ! k))) \<longrightarrow> literals oa' ! m = literals oa ! m"
      using f(2) unfolding fused_def by blast
    ultimately show ?thesis using f(1) sp je by blast
  qed
qed

definition demo_appends :: "nat zend_op_array" where
  "demo_appends = code_of [(plain ZEND_ADD_CHAR)\<lparr>op2 := node IS_CONST 0\<rparr>, (plain ZEND_ADD_STRING)\<lparr>op2 := node IS_CONST 1\<rparr>,
      plain ZEND_RETURN] [ZLONG 97, ZSTRING ''bc'']"

lemma fuse_appends_same_text_witness:
  "\<exists>oa' j. fuse_appends True 0 demo_appends = Some oa' \<and> 0 < j \<and> j \<le> 2 \<and> text_between oa' 0 j = text_between demo_appends 0 j"
proof -
  have c: "owned o1 = (if op_ty (op1 o1) = IS_CONST then {num (op1 o1)} else {})
      \<union> (if op_ty (op2 o1) = IS_CONST then {num (op2 o1)} else {})" for o1
    by (auto simp: owned_def)
  note defs = demo_appends_def code_of_def plain_def node_def unused_node_def
  have "map owned (opcodes demo_appends) = [{0}, {1}, {}]" by (simp add: c defs)
  then have "unshared (opcodes demo_appends)" by (auto simp: demo_appends_def code_of_def unshared_def All_less_Suc eval_nat_numeral)
  then have ok: "appends_ok demo_appends"
    by (auto simp: appends_ok_def defs is_append_def appended_def lit_def All_less_Suc eval_nat_numeral)
  show ?thesis
    using fuse_appends_same_text [OF ok, of 0 2 True] by (auto simp: defs is_append_def in_series_def)
qed

lemma hash_kept:
  "k < length (literals oa) \<Longrightarrow> lit_hash_value (literals (set_hash F k s oa) ! k) = hash_of F s"
  "k < length (literals oa) \<Longrightarrow> lit_hash_value (literals (new_cache_slot k n oa) ! k) = lit_hash_value (literals oa ! k)"
  "k < length (literals oa) \<Longrightarrow> lit_hash_value (literals (add_lower F k s oa) ! k) = lit_hash_value (literals oa ! k)"
  "length (literals (set_hash F k s oa)) = length (literals oa)" "length (literals (new_cache_slot k n oa)) = length (literals oa)"
  "k < length (literals oa) \<Longrightarrow> k < length (literals (add_lower F k s oa))"
  by (auto simp: set_hash_def new_cache_slot_def add_lower_def upd_lit_def zend_optimizer_add_literal_def nth_append Let_def)

text \<open>C32. The operand that names a function, class, variable or method is the first of two literals; the
  second is its name in lower case. When a constant takes the place of a temporary there, the first
  literal is in lower case as well, and its hash is still that of the name as written.
\<close>

theorem folded_name_in_lower_case:
  assumes "i < last_op oa" "i \<noteq> 0" "opcode (opcodes oa ! i) \<in> names_global \<union> names_method"
  shows "\<exists>oa'. update_op2_const F i (ZSTRING s) oa = Some oa' \<and> lit oa' (op2 (opcodes oa' ! i)) = ZSTRING (to_lower F s)
    \<and> lit_hash_value (literals oa' ! num (op2 (opcodes oa' ! i))) = hash_of F s"
proof -
  obtain oa' where u: "update_op2_const F i (ZSTRING s) oa = Some oa'" using update_op2_returns [OF assms(2)] by blast
  have o: "opcodes oa' = with_const2 oa i" "extends oa oa' (ZSTRING (to_lower F s))"
    using update_op2_ok [OF u] assms(3) by (simp_all add: op2_value_def)
  obtain k oa1 where a: "zend_optimizer_add_literal (ZSTRING s) oa = (k, oa1)" "extends oa oa1 (ZSTRING s)" "k = length (literals oa)"
    using add_literal_split [of "ZSTRING s" oa] by blast
  have k: "k < length (literals (set_op2_const i k oa1))" using a(2,3) by (simp add: extends_def set_op2_const_def upd_op_def)
  have "lit_hash_value (literals oa' ! k) = hash_of F s"
    using u assms(3) a(1) k by (auto simp: update_op2_const_def Let_def hash_kept split: if_splits)
  then show ?thesis using u o assms(1) a(3) by (auto simp: with_const_nth lit_def extends_def)
qed

definition demo_method :: "nat zend_op_array" where
  "demo_method = code_of [plain ZEND_NOP, (plain ZEND_INIT_METHOD_CALL)\<lparr>op2 := node IS_TMP_VAR 0\<rparr>, plain ZEND_RETURN] []"

lemma folded_name_in_lower_case_witness:
  "\<exists>oa'. update_op2_const demo_folding 1 (ZSTRING ''FooBar'') demo_method = Some oa' \<and> lit oa' (op2 (opcodes oa' ! 1)) = ZSTRING ''foobar''"
proof -
  have "\<exists>oa'. update_op2_const demo_folding 1 (ZSTRING ''FooBar'') demo_method = Some oa'
      \<and> lit oa' (op2 (opcodes oa' ! 1)) = ZSTRING (to_lower demo_folding ''FooBar'')
      \<and> lit_hash_value (literals oa' ! num (op2 (opcodes oa' ! 1))) = hash_of demo_folding ''FooBar''"
    by (rule folded_name_in_lower_case) (simp_all add: demo_method_def code_of_def plain_def names_method_def)
  moreover have "to_lower demo_folding ''FooBar'' = ''foobar''" by code_simp
  ultimately show ?thesis by auto
qed

end
