(* ===== verification/Interned.thy ===== *)
theory Interned
  imports Prelude
begin

text \<open>
  Interned strings in shared memory: \<open>accel_new_interned_string\<close> and the functions that save
  and restore the table around restarts (\<open>ZendAccelerator.c\<close>, not for ZTS).

  The table is the list of its chains, newest bucket first, and the list of all buckets in
  the order they were added (\<open>pListHead\<close> to \<open>pListTail\<close>). A bucket holds its address, its
  hash and its key (the bytes, with the terminating NUL); the key lies behind the bucket.
  \<open>zend_inline_hash_func\<close> is the parameter \<open>hashf\<close>. Freeing the source string is not modelled.
\<close>

section \<open>The table\<close>

record ibucket =
  ib_addr :: nat
  ib_h :: "64 word"
  ib_key :: string

record interned_strings =
  interned_start :: nat
  interned_top :: nat
  interned_end :: nat
  arBuckets :: "ibucket list list"
  pList :: "ibucket list"
  nNumOfElements :: nat

text \<open>The saved state holds pointers: the first bucket of every chain, the first and the last
  bucket of the list, and the top of the buffer.\<close>

record interned_saved =
  saved_buckets :: "nat option list"
  saved_head :: "nat option"
  saved_tail :: "nat option"
  saved_top :: nat

definition sizeof_Bucket :: nat where "sizeof_Bucket = 72"

definition ZEND_MM_ALIGNED_SIZE :: "nat \<Rightarrow> nat" where
  "ZEND_MM_ALIGNED_SIZE n = (n + 7) div 8 * 8"

text \<open>The address of a bucket's key: \<open>(char*)(p + 1)\<close>.\<close>

definition ib_arKey :: "ibucket \<Rightarrow> nat" where
  "ib_arKey b = ib_addr b + sizeof_Bucket"

definition IS_INTERNED :: "interned_strings \<Rightarrow> nat \<Rightarrow> bool" where
  "IS_INTERNED T a \<longleftrightarrow> interned_start T \<le> a \<and> a < interned_end T"

definition nTableMask :: "interned_strings \<Rightarrow> nat" where
  "nTableMask T = length (arBuckets T) - 1"

section \<open>accel_new_interned_string\<close>

fun find_bucket :: "64 word \<Rightarrow> string \<Rightarrow> ibucket list \<Rightarrow> ibucket option" where
  "find_bucket h key [] = None"
| "find_bucket h key (p # ps) =
     (if ib_h p = h \<and> ib_key p = key then Some p else find_bucket h key ps)"

definition key_index :: "(string \<Rightarrow> 64 word) \<Rightarrow> interned_strings \<Rightarrow> string \<Rightarrow> nat" where
  "key_index hashf T key = unat (and (hashf key) (of_nat (nTableMask T)))"

definition interned_fits :: "interned_strings \<Rightarrow> string \<Rightarrow> bool" where
  "interned_fits T key \<longleftrightarrow>
     interned_top T + ZEND_MM_ALIGNED_SIZE (sizeof_Bucket + length key) < interned_end T"

definition new_bucket :: "(string \<Rightarrow> 64 word) \<Rightarrow> interned_strings \<Rightarrow> string \<Rightarrow> ibucket" where
  "new_bucket hashf T key = \<lparr>ib_addr = interned_top T, ib_h = hashf key, ib_key = key\<rparr>"

definition add_bucket :: "(string \<Rightarrow> 64 word) \<Rightarrow> interned_strings \<Rightarrow> string \<Rightarrow> interned_strings" where
  "add_bucket hashf T key =
     (let p = new_bucket hashf T key; i = key_index hashf T key in
      T\<lparr>interned_top := interned_top T + ZEND_MM_ALIGNED_SIZE (sizeof_Bucket + length key),
        arBuckets := (arBuckets T)[i := p # arBuckets T ! i],
        pList := pList T @ [p],
        nNumOfElements := Suc (nNumOfElements T)\<rparr>)"

definition accel_new_interned_string ::
  "(string \<Rightarrow> 64 word) \<Rightarrow> interned_strings \<Rightarrow> nat \<Rightarrow> string \<Rightarrow> nat \<times> interned_strings" where
  "accel_new_interned_string hashf T arKey key =
     (if IS_INTERNED T arKey then (arKey, T)
      else case find_bucket (hashf key) key (arBuckets T ! key_index hashf T key) of
        Some p \<Rightarrow> (ib_arKey p, T)
      | None \<Rightarrow> if interned_fits T key then (ib_arKey (new_bucket hashf T key), add_bucket hashf T key)
          else (arKey, T))"

section \<open>Saving and restoring\<close>

text \<open>The copy of \<open>arBuckets\<close> lies in its own shared block; its allocation can fail, which is
  fatal. Only pointers are saved. A restored pointer leads to whatever now hangs behind that bucket: in a
  chain everything that \<open>pNext\<close> reaches from it, in the list everything that \<open>pListNext\<close> reaches up to
  the saved tail, whose \<open>pListNext\<close> is cleared. (\<open>pLast\<close> and \<open>pListLast\<close> are implicit in the lists.)\<close>

definition first_bucket :: "ibucket list \<Rightarrow> nat option" where
  "first_bucket ps = (case ps of [] \<Rightarrow> None | p # _ \<Rightarrow> Some (ib_addr p))"

definition last_bucket :: "ibucket list \<Rightarrow> nat option" where
  "last_bucket ps = first_bucket (rev ps)"

fun from_bucket :: "nat option \<Rightarrow> ibucket list \<Rightarrow> ibucket list" where
  "from_bucket None ps = []"
| "from_bucket (Some a) ps = dropWhile (\<lambda>p. ib_addr p \<noteq> a) ps"

fun cut_behind :: "nat option \<Rightarrow> ibucket list \<Rightarrow> ibucket list" where
  "cut_behind t [] = []"
| "cut_behind t (p # ps) = (if t = Some (ib_addr p) then [p] else p # cut_behind t ps)"

definition accel_interned_strings_save_state :: "interned_strings \<Rightarrow> interned_saved" where
  "accel_interned_strings_save_state T =
     \<lparr>saved_buckets = map first_bucket (arBuckets T), saved_head = first_bucket (pList T),
      saved_tail = last_bucket (pList T), saved_top = interned_top T\<rparr>"

definition accel_interned_strings_restore_state :: "interned_saved \<Rightarrow> interned_strings \<Rightarrow> interned_strings" where
  "accel_interned_strings_restore_state S T =
     T\<lparr>arBuckets := map (\<lambda>i. from_bucket (saved_buckets S ! i) (arBuckets T ! i)) [0 ..< length (arBuckets T)],
       pList := cut_behind (saved_tail S) (from_bucket (saved_head S) (pList T)),
       interned_top := saved_top S\<rparr>"

section \<open>The invariant\<close>

definition bucket_end :: "ibucket \<Rightarrow> nat" where
  "bucket_end p = ib_addr p + ZEND_MM_ALIGNED_SIZE (sizeof_Bucket + length (ib_key p))"

definition bucket_space :: "ibucket \<Rightarrow> nat set" where
  "bucket_space p = {ib_addr p ..< bucket_end p}"

definition interned_inv :: "(string \<Rightarrow> 64 word) \<Rightarrow> interned_strings \<Rightarrow> bool" where
  "interned_inv hashf T \<longleftrightarrow>
     (\<exists>k < 32. length (arBuckets T) = 2 ^ k)
   \<and> (\<forall>i < length (arBuckets T). \<forall>p \<in> set (arBuckets T ! i). p \<in> set (pList T) \<and> key_index hashf T (ib_key p) = i)
   \<and> (\<forall>p \<in> set (pList T). p \<in> set (arBuckets T ! key_index hashf T (ib_key p))
         \<and> ib_h p = hashf (ib_key p) \<and> interned_start T \<le> ib_addr p \<and> bucket_end p \<le> interned_top T)
   \<and> distinct (map ib_key (pList T))
   \<and> sorted_wrt (\<lambda>p q. bucket_end p \<le> ib_addr q) (pList T)
   \<and> interned_start T \<le> interned_top T \<and> interned_top T \<le> interned_end T"

text \<open>The abstract view: which key is interned where.\<close>

definition interned_at :: "interned_strings \<Rightarrow> string \<rightharpoonup> nat" where
  "interned_at T = map_of (map (\<lambda>p. (ib_key p, ib_arKey p)) (pList T))"

lemma key_index_less: "interned_inv hashf T \<Longrightarrow> key_index hashf T key < length (arBuckets T)"
proof -
  assume "interned_inv hashf T"
  then obtain k :: nat where k: "k < 32" "length (arBuckets T) = 2 ^ k" by (auto simp: interned_inv_def)
  have "(of_nat (nTableMask T) :: 64 word) = mask k"
    by (simp add: nTableMask_def k mask_eq_exp_minus_1 of_nat_diff)
  then have "key_index hashf T key = unat (take_bit k (hashf key))"
    by (simp add: key_index_def take_bit_eq_mask)
  also have "\<dots> < 2 ^ k" by (simp add: unsigned_take_bit_eq take_bit_nat_less_exp)
  finally show ?thesis by (simp add: k)
qed

lemma find_bucket_Some:
  "find_bucket h key ps = Some p \<Longrightarrow> p \<in> set ps \<and> ib_key p = key"
  by (induction ps) (auto split: if_splits)

lemma find_bucket_None:
  "find_bucket h key ps = None \<longleftrightarrow> (\<forall>p \<in> set ps. \<not> (ib_h p = h \<and> ib_key p = key))"
  by (induction ps) auto

lemma interned_at_Some:
  assumes "distinct (map ib_key (pList T))"
  shows "interned_at T key = Some a \<longleftrightarrow> (\<exists>p \<in> set (pList T). ib_key p = key \<and> ib_arKey p = a)"
  using assms by (auto simp: interned_at_def map_of_eq_Some_iff comp_def)

lemma find_bucket_at:
  assumes "interned_inv hashf T"
  shows "map_option ib_arKey (find_bucket (hashf key) key (arBuckets T ! key_index hashf T key)) = interned_at T key"
proof -
  have d: "distinct (map ib_key (pList T))"
    and sub: "\<And>p. p \<in> set (arBuckets T ! key_index hashf T key) \<Longrightarrow> p \<in> set (pList T)"
    and sup: "\<And>p. p \<in> set (pList T) \<Longrightarrow> p \<in> set (arBuckets T ! key_index hashf T (ib_key p)) \<and> ib_h p = hashf (ib_key p)"
    using assms key_index_less [OF assms, of key] by (auto simp: interned_inv_def)
  show ?thesis
  proof (cases "find_bucket (hashf key) key (arBuckets T ! key_index hashf T key)")
    case None
    then have "interned_at T key \<noteq> Some a" for a
      unfolding interned_at_Some [OF d] find_bucket_None using sup by blast
    then show ?thesis using None by (cases "interned_at T key") auto
  next
    case (Some p)
    then have "interned_at T key = Some (ib_arKey p)"
      unfolding interned_at_Some [OF d] using find_bucket_Some [OF Some] sub by blast
    then show ?thesis using Some by simp
  qed
qed

lemma interned_result:
  assumes "interned_inv hashf T"
  shows "accel_new_interned_string hashf T a key =
    (if IS_INTERNED T a then (a, T)
     else case interned_at T key of
       Some p \<Rightarrow> (p, T)
     | None \<Rightarrow> if interned_fits T key then (ib_arKey (new_bucket hashf T key), add_bucket hashf T key) else (a, T))"
  unfolding accel_new_interned_string_def find_bucket_at [OF assms, symmetric]
  by (auto split: option.splits)

lemma ZEND_MM_ALIGNED_SIZE_ge: "n \<le> ZEND_MM_ALIGNED_SIZE n"
  by (simp add: ZEND_MM_ALIGNED_SIZE_def)

lemma add_bucket_at:
  assumes "interned_at T key = None"
  shows "interned_at (add_bucket hashf T key) = (interned_at T)(key \<mapsto> ib_arKey (new_bucket hashf T key))"
proof -
  have k: "ib_key (new_bucket hashf T key) = key" by (simp add: new_bucket_def)
  show ?thesis
  proof
    fix x
    show "interned_at (add_bucket hashf T key) x = ((interned_at T)(key \<mapsto> ib_arKey (new_bucket hashf T key))) x"
      using assms by (cases "interned_at T x") (auto simp: interned_at_def add_bucket_def Let_def k map_add_def split: option.splits)
  qed
qed

lemma add_bucket_inv:
  assumes inv: "interned_inv hashf T" and new: "interned_at T key = None" and fits: "interned_fits T key"
  shows "interned_inv hashf (add_bucket hashf T key)"
proof -
  let ?T = "add_bucket hashf T key"
  let ?p = "new_bucket hashf T key"
  let ?i = "key_index hashf T key"
  have i: "?i < length (arBuckets T)" by (rule key_index_less [OF inv])
  have p: "ib_key ?p = key" "ib_h ?p = hashf key" "ib_addr ?p = interned_top T"
    and pe: "bucket_end ?p = interned_top ?T"
    by (simp_all add: new_bucket_def bucket_end_def add_bucket_def Let_def)
  have B: "arBuckets ?T = (arBuckets T)[?i := ?p # arBuckets T ! ?i]" and L: "pList ?T = pList T @ [?p]"
    and I: "interned_start ?T = interned_start T" "interned_end ?T = interned_end T" "interned_top T \<le> interned_top ?T"
    by (simp_all add: add_bucket_def Let_def)
  have ki: "key_index hashf ?T k = key_index hashf T k" for k by (simp add: key_index_def nTableMask_def B)
  have kn: "key \<notin> ib_key ` set (pList T)"
    using new unfolding interned_at_def by (simp add: map_of_eq_None_iff image_image)
  have d: "distinct (map ib_key (pList T))" using inv by (simp add: interned_inv_def)
  have old: "p \<in> set (arBuckets T ! key_index hashf T (ib_key p)) \<and> ib_h p = hashf (ib_key p)
      \<and> interned_start T \<le> ib_addr p \<and> bucket_end p \<le> interned_top T" if "p \<in> set (pList T)" for p
    using inv that by (simp add: interned_inv_def)
  have top: "interned_start T \<le> interned_top T" "interned_top ?T \<le> interned_end T"
    using inv fits by (simp_all add: interned_inv_def interned_fits_def add_bucket_def Let_def)
  have "\<forall>j < length (arBuckets ?T). \<forall>p \<in> set (arBuckets ?T ! j). p \<in> set (pList ?T) \<and> key_index hashf ?T (ib_key p) = j"
    using inv i by (auto simp: B L ki nth_list_update p interned_inv_def split: if_splits)
  moreover have "\<forall>p \<in> set (pList ?T). p \<in> set (arBuckets ?T ! key_index hashf ?T (ib_key p))
         \<and> ib_h p = hashf (ib_key p) \<and> interned_start ?T \<le> ib_addr p \<and> bucket_end p \<le> interned_top ?T"
  proof
    fix p
    assume "p \<in> set (pList ?T)"
    then consider "p = ?p" | "p \<in> set (pList T)" by (auto simp: L)
    then show "p \<in> set (arBuckets ?T ! key_index hashf ?T (ib_key p))
         \<and> ib_h p = hashf (ib_key p) \<and> interned_start ?T \<le> ib_addr p \<and> bucket_end p \<le> interned_top ?T"
    proof cases
      case 1
      then show ?thesis using i p pe top(1) by (simp add: B ki I)
    next
      case 2
      then show ?thesis using old [OF 2] i I(3) by (auto simp: B ki I(1) nth_list_update)
    qed
  qed
  moreover have "distinct (map ib_key (pList ?T))" using d kn by (auto simp: L p)
  moreover have "sorted_wrt (\<lambda>p q. bucket_end p \<le> ib_addr q) (pList ?T)"
    using inv old by (auto simp: L p sorted_wrt_append interned_inv_def)
  moreover have "\<exists>k < 32. length (arBuckets ?T) = 2 ^ k" using inv by (simp add: B interned_inv_def)
  moreover have "interned_start ?T \<le> interned_top ?T" "interned_top ?T \<le> interned_end ?T" using top I by simp_all
  ultimately show ?thesis unfolding interned_inv_def by blast
qed

section \<open>Properties\<close>

text \<open>C13. Interning: a pointer into the buffer is returned as it is; otherwise a key that is
  in the table is answered with its one address, a new key is added exactly when it fits
  below the end of the buffer, and otherwise the caller gets its own pointer back. The
  invariant (chains and list agree, keys are distinct, buckets do not overlap and lie in
  the buffer) is kept.\<close>

theorem accel_new_interned_string_ok:
  assumes "interned_inv hashf T" and "accel_new_interned_string hashf T a key = (p, T')"
  shows "interned_inv hashf T' \<and>
    (if IS_INTERNED T a then p = a \<and> T' = T
     else if key \<in> dom (interned_at T) then interned_at T key = Some p \<and> T' = T
     else if interned_fits T key then interned_at T' = (interned_at T)(key \<mapsto> p) \<and> {p ..< p + length key} \<subseteq> {interned_top T ..< interned_top T'}
     else p = a \<and> T' = T)"
proof (cases "IS_INTERNED T a \<or> key \<in> dom (interned_at T) \<or> \<not> interned_fits T key")
  case True
  then show ?thesis using assms(1) assms(2) [unfolded interned_result [OF assms(1)]] by (auto split: if_splits option.splits)
next
  case False
  then have r: "p = ib_arKey (new_bucket hashf T key)" "T' = add_bucket hashf T key" and n: "interned_at T key = None"
    using assms(2) [unfolded interned_result [OF assms(1)]] by (auto split: option.splits)
  have "interned_inv hashf T'" unfolding r by (rule add_bucket_inv [OF assms(1) n]) (use False in simp)
  moreover have "interned_at T' = (interned_at T)(key \<mapsto> p)" using add_bucket_at [OF n] r by simp
  moreover have "{p ..< p + length key} \<subseteq> {interned_top T ..< interned_top T'}"
    using ZEND_MM_ALIGNED_SIZE_ge [of "sizeof_Bucket + length key"]
    by (auto simp: r ib_arKey_def new_bucket_def add_bucket_def Let_def)
  ultimately show ?thesis using False by simp
qed

text \<open>Any number of calls, and what they keep.\<close>

fun intern_all :: "(string \<Rightarrow> 64 word) \<Rightarrow> (nat \<times> string) list \<Rightarrow> interned_strings \<Rightarrow> interned_strings" where
  "intern_all hashf [] T = T"
| "intern_all hashf ((a, key) # ks) T = intern_all hashf ks (snd (accel_new_interned_string hashf T a key))"

lemma interned_step:
  assumes "interned_inv hashf T" and T'_def: "T' = snd (accel_new_interned_string hashf T a key)"
  shows "interned_inv hashf T'" "interned_at T \<subseteq>\<^sub>m interned_at T'"
    "interned_start T' = interned_start T" "interned_end T' = interned_end T"
    "length (arBuckets T') = length (arBuckets T)"
proof -
  show "interned_inv hashf T'" unfolding T'_def
    using assms(1) add_bucket_inv [OF assms(1), of key] unfolding interned_result [OF assms(1)] by (auto split: option.splits)
  show "interned_at T \<subseteq>\<^sub>m interned_at T'" unfolding T'_def interned_result [OF assms(1)]
    by (auto simp: add_bucket_at map_le_def split: option.splits)
  show "interned_start T' = interned_start T" "interned_end T' = interned_end T"
    "length (arBuckets T') = length (arBuckets T)"
    unfolding T'_def interned_result [OF assms(1)] by (auto simp: add_bucket_def Let_def split: option.splits)
qed

lemma intern_all_step:
  assumes "interned_inv hashf T"
  shows "interned_inv hashf (intern_all hashf ks T) \<and> interned_at T \<subseteq>\<^sub>m interned_at (intern_all hashf ks T)
    \<and> interned_start (intern_all hashf ks T) = interned_start T \<and> interned_end (intern_all hashf ks T) = interned_end T"
  using assms
proof (induction hashf ks T rule: intern_all.induct)
  case (2 hashf a key ks T)
  note st = interned_step [OF "2.prems" refl, of a key]
  from "2.IH" [OF st(1)] st(2-4) show ?case by (auto intro: map_le_trans)
qed simp

lemma interned_at_IS_INTERNED:
  assumes "interned_inv hashf T" "interned_at T key = Some p" "0 < length key"
  shows "IS_INTERNED T p"
proof -
  have "distinct (map ib_key (pList T))" using assms(1) by (simp add: interned_inv_def)
  from assms(2) [unfolded interned_at_Some [OF this]]
  obtain b where b: "b \<in> set (pList T)" "ib_key b = key" "ib_arKey b = p" by blast
  then have "interned_start T \<le> ib_addr b" "bucket_end b \<le> interned_end T"
    using assms(1) by (auto simp: interned_inv_def)
  moreover have "ib_addr b + sizeof_Bucket + length key \<le> bucket_end b"
    using b(2) ZEND_MM_ALIGNED_SIZE_ge [of "sizeof_Bucket + length key"] by (simp add: bucket_end_def)
  moreover have "p = ib_addr b + sizeof_Bucket" using b(3) by (simp add: ib_arKey_def)
  ultimately show ?thesis
    using assms(3) unfolding IS_INTERNED_def by (simp del: length_greater_0_conv)
qed

text \<open>Interned pointers are canonical: once a call has put a key into the buffer, every
  later call with the same bytes, from any address outside the buffer and after any other
  calls, answers the same pointer, so that interned strings may be compared by address.\<close>

theorem interned_canonical:
  assumes "interned_inv hashf T" and "accel_new_interned_string hashf T a key = (p, T1)"
    and "\<not> IS_INTERNED T a" and "p \<noteq> a" and "\<not> IS_INTERNED T b"
  shows "accel_new_interned_string hashf (intern_all hashf ks T1) b key = (p, intern_all hashf ks T1)"
proof -
  note st = interned_step [OF assms(1), of T1 a key]
  have inv1: "interned_inv hashf T1" and se: "interned_start T1 = interned_start T" "interned_end T1 = interned_end T"
    using st assms(2) by simp_all
  have "interned_at T1 key = Some p"
    using assms(2-4) unfolding interned_result [OF assms(1)] by (auto simp: add_bucket_at split: option.splits if_splits)
  moreover note all = intern_all_step [OF inv1, of ks]
  ultimately have "interned_at (intern_all hashf ks T1) key = Some p"
    unfolding map_le_def by (metis domI)
  moreover have "\<not> IS_INTERNED (intern_all hashf ks T1) b" using assms(5) all se by (simp add: IS_INTERNED_def)
  ultimately show ?thesis using interned_result [of hashf "intern_all hashf ks T1" b key] all by simp
qed

text \<open>\<open>T\<close> is \<open>T0\<close> with more buckets, before the others in the chains and behind them in the
  list and in the buffer.\<close>

definition extends :: "interned_strings \<Rightarrow> interned_strings \<Rightarrow> bool" where
  "extends T0 T \<longleftrightarrow> length (arBuckets T) = length (arBuckets T0)
   \<and> (\<forall>i < length (arBuckets T0). \<exists>xs. arBuckets T ! i = xs @ arBuckets T0 ! i \<and> (\<forall>p \<in> set xs. interned_top T0 \<le> ib_addr p))
   \<and> (\<exists>ys. pList T = pList T0 @ ys)
   \<and> interned_start T = interned_start T0 \<and> interned_end T = interned_end T0 \<and> interned_top T0 \<le> interned_top T"

text \<open>The saved state \<open>S\<close> belongs to the table \<open>T\<close>.\<close>

definition snapshot_of :: "(string \<Rightarrow> 64 word) \<Rightarrow> interned_saved \<Rightarrow> interned_strings \<Rightarrow> bool" where
  "snapshot_of hashf S T \<longleftrightarrow>
     (\<exists>T0. interned_inv hashf T0 \<and> S = accel_interned_strings_save_state T0 \<and> extends T0 T)"

lemma extends_refl: "extends T0 (T0\<lparr>nNumOfElements := n\<rparr>)"
  by (auto simp: extends_def)

lemma extends_add_bucket:
  assumes "extends T0 T"
  shows "extends T0 (add_bucket hashf T key)"
proof -
  let ?i = "key_index hashf T key" and ?p = "new_bucket hashf T key"
  have "\<exists>xs. (arBuckets T)[?i := ?p # arBuckets T ! ?i] ! i = xs @ arBuckets T0 ! i \<and> (\<forall>p \<in> set xs. interned_top T0 \<le> ib_addr p)"
    if i: "i < length (arBuckets T0)" for i
  proof -
    obtain xs where xs: "arBuckets T ! i = xs @ arBuckets T0 ! i" "\<forall>p \<in> set xs. interned_top T0 \<le> ib_addr p"
      using assms i by (auto simp: extends_def)
    have "interned_top T0 \<le> ib_addr ?p" using assms by (simp add: extends_def new_bucket_def)
    then show ?thesis
      using xs i assms by (cases "i = ?i") (auto simp: extends_def intro: exI [of _ "?p # xs"])
  qed
  then show ?thesis using assms by (auto simp: extends_def add_bucket_def Let_def)
qed

lemma extends_intern: "extends T0 T \<Longrightarrow> extends T0 (snd (accel_new_interned_string hashf T a key))"
  by (auto simp: accel_new_interned_string_def extends_add_bucket split: option.split)

lemma extends_intern_all: "extends T0 T \<Longrightarrow> extends T0 (intern_all hashf ks T)"
  by (induction hashf ks T rule: intern_all.induct) (simp_all add: extends_intern)

lemma snapshot_intern: "snapshot_of hashf S T \<Longrightarrow> snapshot_of hashf S (snd (accel_new_interned_string hf T a key))"
  by (auto simp: snapshot_of_def intro: extends_intern)

lemma snapshot_intern_all: "snapshot_of hashf S T \<Longrightarrow> snapshot_of hashf S (intern_all hf ks T)"
  by (auto simp: snapshot_of_def intro: extends_intern_all)

lemma snapshot_self: "interned_inv hashf T \<Longrightarrow> snapshot_of hashf (accel_interned_strings_save_state T) T"
  using extends_refl [of T "nNumOfElements T"] by (auto simp: snapshot_of_def)

lemma extends_trans:
  assumes "extends T0 T1" and "extends T1 T2"
  shows "extends T0 T2"
proof -
  have "\<exists>xs. arBuckets T2 ! i = xs @ arBuckets T0 ! i \<and> (\<forall>p \<in> set xs. interned_top T0 \<le> ib_addr p)"
    if i: "i < length (arBuckets T0)" for i
  proof -
    obtain xs where xs: "arBuckets T1 ! i = xs @ arBuckets T0 ! i" "\<forall>p \<in> set xs. interned_top T0 \<le> ib_addr p"
      using assms(1) i by (auto simp: extends_def)
    obtain ys where ys: "arBuckets T2 ! i = ys @ arBuckets T1 ! i" "\<forall>p \<in> set ys. interned_top T1 \<le> ib_addr p"
      using assms i by (auto simp: extends_def)
    have "interned_top T0 \<le> interned_top T1" using assms(1) by (simp add: extends_def)
    then show ?thesis using xs ys by (intro exI [of _ "ys @ xs"]) (auto intro: order_trans)
  qed
  then show ?thesis using assms by (auto simp: extends_def)
qed

lemma snapshot_extends: "snapshot_of hashf S T \<Longrightarrow> extends T T' \<Longrightarrow> snapshot_of hashf S T'"
  by (auto simp: snapshot_of_def intro: extends_trans)

text \<open>A saved chain starts behind the buckets that were put before it.\<close>

lemma from_first:
  assumes "\<forall>p \<in> set xs. m \<le> ib_addr p" and "\<forall>p \<in> set ps. ib_addr p < m"
  shows "from_bucket (first_bucket ps) (xs @ ps) = ps"
proof (cases ps)
  case (Cons p qs)
  have "ib_addr q \<noteq> ib_addr p" if "q \<in> set xs" for q
    using assms that Cons by fastforce
  then show ?thesis using Cons by (simp add: first_bucket_def dropWhile_append2)
qed (simp add: first_bucket_def)

lemma cut_last:
  assumes "sorted_wrt (\<lambda>p q. ib_addr p < ib_addr q) ps" and "ps \<noteq> []"
  shows "cut_behind (last_bucket ps) (ps @ ys) = ps"
proof -
  obtain qs q where ps: "ps = qs @ [q]" using assms(2) by (metis rev_exhaust)
  have l: "last_bucket ps = Some (ib_addr q)" by (simp add: ps last_bucket_def first_bucket_def)
  have "cut_behind (Some (ib_addr q)) (qs @ q # ys) = qs @ [q]" if "\<forall>p \<in> set qs. ib_addr p \<noteq> ib_addr q" for qs
    using that by (induction qs) auto
  moreover have "\<forall>p \<in> set qs. ib_addr p \<noteq> ib_addr q" using assms(1) by (auto simp: ps sorted_wrt_append)
  ultimately show ?thesis by (simp add: l) (simp add: ps)
qed

lemma bucket_end_less: "ib_addr p < bucket_end p"
  using ZEND_MM_ALIGNED_SIZE_ge [of "sizeof_Bucket + length (ib_key p)"] by (simp add: bucket_end_def sizeof_Bucket_def)

lemma restore_extends:
  assumes inv: "interned_inv hashf T0" and ext: "extends T0 T"
  shows "accel_interned_strings_restore_state (accel_interned_strings_save_state T0) T = T0\<lparr>nNumOfElements := nNumOfElements T\<rparr>"
proof -
  let ?S = "accel_interned_strings_save_state T0"
  have below: "ib_addr p < interned_top T0" if "i < length (arBuckets T0)" "p \<in> set (arBuckets T0 ! i)" for i p
  proof -
    have "p \<in> set (pList T0)" using inv that by (simp add: interned_inv_def)
    then have "bucket_end p \<le> interned_top T0" using inv by (simp add: interned_inv_def)
    then show ?thesis using bucket_end_less [of p] by simp
  qed
  have len: "length (arBuckets T) = length (arBuckets T0)" using ext by (simp add: extends_def)
  have "map (\<lambda>i. from_bucket (saved_buckets ?S ! i) (arBuckets T ! i)) [0 ..< length (arBuckets T)] = arBuckets T0"
  proof (rule nth_equalityI)
    fix i
    assume "i < length (map (\<lambda>i. from_bucket (saved_buckets ?S ! i) (arBuckets T ! i)) [0 ..< length (arBuckets T)])"
    then have i: "i < length (arBuckets T0)" by (simp add: len)
    then obtain xs where "arBuckets T ! i = xs @ arBuckets T0 ! i" "\<forall>p \<in> set xs. interned_top T0 \<le> ib_addr p"
      using ext by (auto simp: extends_def)
    then show "map (\<lambda>i. from_bucket (saved_buckets ?S ! i) (arBuckets T ! i)) [0 ..< length (arBuckets T)] ! i = arBuckets T0 ! i"
      using from_first [of xs "interned_top T0" "arBuckets T0 ! i"] below [OF i] i
      by (simp add: accel_interned_strings_save_state_def len)
  qed (simp add: len)
  moreover have "cut_behind (saved_tail ?S) (from_bucket (saved_head ?S) (pList T)) = pList T0"
  proof (cases "pList T0")
    case Nil
    then show ?thesis by (simp add: accel_interned_strings_save_state_def first_bucket_def)
  next
    case (Cons p ps)
    obtain ys where ys: "pList T = pList T0 @ ys" using ext by (auto simp: extends_def)
    have "sorted_wrt (\<lambda>p q. bucket_end p \<le> ib_addr q) (pList T0)" using inv by (simp add: interned_inv_def)
    then have "sorted_wrt (\<lambda>p q. ib_addr p < ib_addr q) (pList T0)"
      by (rule sorted_wrt_mono_rel [rotated]) (use bucket_end_less in \<open>fastforce intro: less_le_trans\<close>)
    then have "cut_behind (last_bucket (pList T0)) (pList T0 @ ys) = pList T0" by (rule cut_last) (simp add: Cons)
    moreover have "from_bucket (first_bucket (pList T0)) (pList T) = pList T0 @ ys" by (simp add: ys Cons first_bucket_def)
    ultimately show ?thesis by (simp add: accel_interned_strings_save_state_def)
  qed
  moreover have "saved_top ?S = interned_top T0" by (simp add: accel_interned_strings_save_state_def)
  moreover have "interned_start T = interned_start T0" "interned_end T = interned_end T0" using ext by (simp_all add: extends_def)
  ultimately show ?thesis by (simp add: accel_interned_strings_restore_state_def)
qed

lemma interned_inv_count [simp]: "interned_inv hashf (T\<lparr>nNumOfElements := n\<rparr>) = interned_inv hashf T"
  by (simp add: interned_inv_def key_index_def nTableMask_def)

text \<open>What a restore gives, for a saved state that belongs to the table.\<close>

lemma snapshot_restore:
  assumes "snapshot_of hashf S T"
  shows "interned_inv hashf (accel_interned_strings_restore_state S T)"
    and "snapshot_of hashf S (accel_interned_strings_restore_state S T)"
    and "accel_interned_strings_restore_state S (accel_interned_strings_restore_state S T) = accel_interned_strings_restore_state S T"
    and "accel_interned_strings_save_state (accel_interned_strings_restore_state S T) = S"
    and "interned_at (accel_interned_strings_restore_state S T) \<subseteq>\<^sub>m interned_at T"
proof -
  obtain T0 where T0: "interned_inv hashf T0" "S = accel_interned_strings_save_state T0" "extends T0 T"
    using assms by (auto simp: snapshot_of_def)
  have r: "accel_interned_strings_restore_state S T = T0\<lparr>nNumOfElements := nNumOfElements T\<rparr>"
    using restore_extends [OF T0(1,3)] T0(2) by simp
  show "interned_inv hashf (accel_interned_strings_restore_state S T)" using T0(1) by (simp add: r)
  show "snapshot_of hashf S (accel_interned_strings_restore_state S T)"
    unfolding r snapshot_of_def using T0(1,2) extends_refl by blast
  show "accel_interned_strings_save_state (accel_interned_strings_restore_state S T) = S"
    unfolding r by (simp add: T0(2) accel_interned_strings_save_state_def)
  obtain ys where "pList T = pList T0 @ ys" using T0(3) by (auto simp: extends_def)
  then show "interned_at (accel_interned_strings_restore_state S T) \<subseteq>\<^sub>m interned_at T"
    by (simp add: r interned_at_def map_le_map_add)
  show "accel_interned_strings_restore_state S (accel_interned_strings_restore_state S T) = accel_interned_strings_restore_state S T"
    using restore_extends [OF T0(1) extends_refl] unfolding r by (simp add: T0(2))
qed

text \<open>Rounds of calls, with a restore behind each.\<close>

fun restart_rounds ::
  "(string \<Rightarrow> 64 word) \<Rightarrow> interned_saved \<Rightarrow> (nat \<times> string) list list \<Rightarrow> interned_strings \<Rightarrow> interned_strings" where
  "restart_rounds hashf S [] T = T"
| "restart_rounds hashf S (ks # kss) T =
     restart_rounds hashf S kss (accel_interned_strings_restore_state S (intern_all hashf ks T))"

lemma extends_rounds:
  assumes "interned_inv hashf T0" and "S = accel_interned_strings_save_state T0"
  shows "extends T0 T \<Longrightarrow> extends T0 (restart_rounds hashf S kss T)"
proof (induction kss arbitrary: T)
  case (Cons ks kss)
  have "accel_interned_strings_restore_state S (intern_all hashf ks T) = T0\<lparr>nNumOfElements := nNumOfElements (intern_all hashf ks T)\<rparr>"
    using restore_extends [OF assms(1) extends_intern_all [OF Cons.prems]] assms(2) by simp
  then show ?case using Cons.IH [OF extends_refl] by simp
qed simp

text \<open>C14. Only pointers are saved, and they are enough: after any number of calls and restores, the
  buffer being used anew after each, a restore gives back the table, its list and the top of the buffer
  as they were when the state was saved; only the element count, which is not saved, stays as it is.\<close>

theorem interned_save_restore:
  assumes "interned_inv hashf T" and "S = accel_interned_strings_save_state T"
    and "T1 = intern_all hashf ks (restart_rounds hashf S kss T)"
  shows "accel_interned_strings_restore_state S T1 = T\<lparr>nNumOfElements := nNumOfElements T1\<rparr>"
proof -
  have "extends T T" using extends_refl [of T "nNumOfElements T"] by simp
  then have "extends T T1"
    unfolding assms(3) by (intro extends_intern_all extends_rounds [OF assms(1,2)])
  then show ?thesis using restore_extends [OF assms(1)] assms(2) by simp
qed

definition demo_hash :: "string \<Rightarrow> 64 word" where
  "demo_hash key = of_nat (length key)"

definition demo_interned :: interned_strings where
  "demo_interned = \<lparr>interned_start = 1000, interned_top = 1000, interned_end = 1200,
     arBuckets = [[], []], pList = [], nNumOfElements = 0\<rparr>"

lemma demo_interned_inv: "interned_inv demo_hash demo_interned"
  unfolding interned_inv_def
proof (intro conjI)
  show "\<exists>k<32. length (arBuckets demo_interned) = 2 ^ k" by (rule exI [of _ 1]) (simp add: demo_interned_def)
qed (auto simp: demo_interned_def less_Suc_eq)

lemma demo_interned_first:
  "accel_new_interned_string demo_hash demo_interned 5 ''ab'' = (1072, add_bucket demo_hash demo_interned ''ab'')"
  by (simp add: accel_new_interned_string_def IS_INTERNED_def demo_interned_def key_index_def nTableMask_def demo_hash_def
      interned_fits_def ZEND_MM_ALIGNED_SIZE_def sizeof_Bucket_def ib_arKey_def new_bucket_def)

lemma accel_new_interned_string_ok_witness:
  "interned_at (add_bucket demo_hash demo_interned ''ab'') = [''ab'' \<mapsto> 1072]"
proof -
  have e: "interned_at demo_interned = (\<lambda>_. None)" by (simp add: interned_at_def demo_interned_def)
  have "\<not> IS_INTERNED demo_interned 5" "interned_fits demo_interned ''ab''"
    by (simp_all add: IS_INTERNED_def demo_interned_def interned_fits_def ZEND_MM_ALIGNED_SIZE_def sizeof_Bucket_def)
  then show ?thesis
    using accel_new_interned_string_ok [OF demo_interned_inv demo_interned_first] by (simp add: e)
qed

lemma interned_canonical_witness:
  "fst (accel_new_interned_string demo_hash (intern_all demo_hash [(6, ''cd''), (7, ''x'')] (add_bucket demo_hash demo_interned ''ab'')) 9 ''ab'') = 1072"
proof -
  have n: "\<not> IS_INTERNED demo_interned 5" "\<not> IS_INTERNED demo_interned 9" by (simp_all add: IS_INTERNED_def demo_interned_def)
  show ?thesis using interned_canonical [OF demo_interned_inv demo_interned_first n(1) _ n(2)] by (simp del: intern_all.simps)
qed

lemma demo_first_inv: "interned_inv demo_hash (add_bucket demo_hash demo_interned ''ab'')"
  using interned_step(1) [OF demo_interned_inv refl, of 5 "''ab''"] by (simp add: demo_interned_first)

lemma interned_save_restore_witness:
  "let T = add_bucket demo_hash demo_interned ''ab''; S = accel_interned_strings_save_state T
   in interned_at (accel_interned_strings_restore_state S
        (intern_all demo_hash [(6, ''cd'')] (restart_rounds demo_hash S [[(8, ''efgh'')]] T))) = [''ab'' \<mapsto> 1072]"
  using interned_save_restore [OF demo_first_inv refl refl, of "[(6, ''cd'')]" "[[(8, ''efgh'')]]"]
  by (simp add: Let_def interned_at_def add_bucket_def demo_interned_def new_bucket_def ib_arKey_def sizeof_Bucket_def
      del: intern_all.simps restart_rounds.simps)

text \<open>The element count is not part of the saved state: after a restore it still counts the
  strings that were thrown away.\<close>

theorem interned_count_not_restored:
  "let T1 = intern_all demo_hash [(6, ''cd'')] demo_interned;
       T2 = accel_interned_strings_restore_state (accel_interned_strings_save_state demo_interned) T1
   in pList T2 = [] \<and> nNumOfElements T2 = 1"
  by (simp add: accel_interned_strings_restore_state_def accel_interned_strings_save_state_def first_bucket_def Let_def demo_interned_def
      accel_new_interned_string_def IS_INTERNED_def key_index_def nTableMask_def demo_hash_def interned_fits_def
      ZEND_MM_ALIGNED_SIZE_def sizeof_Bucket_def add_bucket_def)

end
