(* ===== verification/Persist.thy ===== *)
theory Persist
  imports Interned Shared_Alloc Op_Array
begin

text \<open>
  Copying a compiled script into one block of shared memory: \<open>zend_persist_calc.c\<close> computes
  the size of the block, \<open>zend_persist.c\<close> fills it. Both walk the script with the
  translation table of \<open>zend_shared_alloc.c\<close>, which maps the addresses of what was copied.

  The script is given as a tree whose nodes carry the addresses of their memory blocks; a
  block that several nodes share appears with the same address in each. What the code
  writes are pointer fields: the memory maps a block's address and a path of field names to
  the value there (0 is NULL), and \<open>memcpy\<close> copies all fields of a block. The sizes of the
  engine's structures are the parameter \<open>sizeof\<close>; freeing the process copy is not modelled.
\<close>

section \<open>Memory\<close>

datatype ctype = T_Bucket | T_HashTable | T_zval | T_literal | T_op | T_arg_info | T_brk_cont
  | T_try_catch | T_compiled_variable | T_op_array | T_class_entry | T_property_info
  | T_trait_method_reference | T_trait_alias | T_trait_precedence | T_script | T_pointer

datatype fname = F string | I nat

type_synonym loc = "nat \<times> fname list"

record penv =
  sizeof :: "ctype \<Rightarrow> nat"
  hash_func :: "string \<Rightarrow> 64 word"
  save_comments :: bool
  uninitialized_bucket :: nat
  halt_offset :: "nat option"

record pmem =
  xlat :: "nat \<rightharpoonup> nat"
  mem_top :: nat
  flds :: "nat \<Rightarrow> fname list \<Rightarrow> nat"

definition fld :: "loc \<Rightarrow> pmem \<Rightarrow> nat" where
  "fld l m = flds m (fst l) (snd l)"

definition put :: "loc \<Rightarrow> nat \<Rightarrow> pmem \<Rightarrow> pmem" where
  "put l v m = m\<lparr>flds := (flds m)(fst l := (flds m (fst l))(snd l := v))\<rparr>"

text \<open>\<open>l->f\<close>, and the field \<open>f\<close> of the block at \<open>a\<close>.\<close>

definition sub :: "loc \<Rightarrow> string \<Rightarrow> loc" where
  "sub l f = (fst l, snd l @ [F f])"

definition ptr :: "nat \<Rightarrow> string \<Rightarrow> loc" where
  "ptr a f = (a, [F f])"

text \<open>The translation table.\<close>

definition zend_shared_alloc_get_xlat_entry :: "nat \<Rightarrow> pmem \<Rightarrow> nat" where
  "zend_shared_alloc_get_xlat_entry a m = (case xlat m a of Some p \<Rightarrow> p | None \<Rightarrow> 0)"

definition zend_shared_alloc_register_xlat_entry :: "nat \<Rightarrow> nat \<Rightarrow> pmem \<Rightarrow> pmem" where
  "zend_shared_alloc_register_xlat_entry a p m = m\<lparr>xlat := (xlat m)(a \<mapsto> p)\<rparr>"

definition zend_shared_alloc_clear_xlat_table :: "pmem \<Rightarrow> pmem" where
  "zend_shared_alloc_clear_xlat_table m = m\<lparr>xlat := Map.empty\<rparr>"

definition zend_shared_memdup :: "nat \<Rightarrow> nat \<Rightarrow> pmem \<Rightarrow> nat \<times> pmem" where
  "zend_shared_memdup source sz m =
     (case xlat m source of
        Some p \<Rightarrow> (p, m)
      | None \<Rightarrow> (mem_top m, zend_shared_alloc_register_xlat_entry source (mem_top m)
          (m\<lparr>mem_top := mem_top m + ZEND_ALIGNED_SIZE sz, flds := (flds m)(mem_top m := flds m source)\<rparr>)))"

text \<open>\<open>zend_accel_store(p, size)\<close> for the pointer \<open>p\<close> at a location, and its variant for strings.\<close>

definition zend_accel_store :: "loc \<Rightarrow> nat \<Rightarrow> nat \<Rightarrow> pmem \<Rightarrow> pmem" where
  "zend_accel_store l source sz m =
     (let r = zend_shared_memdup source sz m in put l (fst r) (snd r))"

section \<open>Compiled scripts\<close>

record cstr =
  s_addr :: nat
  s_val :: string

text \<open>A bucket stores its element in a block of its own, \<open>b_data\<close>, or in \<open>pDataPtr\<close>.\<close>

datatype 'e bucket = Bucket (b_addr: nat) (b_key: "cstr option") (b_data: "nat option") (b_el: 'e)

datatype 'e htable = Htable (ht_list: "'e bucket list") (ht_init: bool) (ht_size: nat) (ht_ar: nat)

datatype pzval = PScalar | PString cstr | PArray nat "(nat \<times> pzval) htable"

type_synonym pzval_ptr = "nat \<times> pzval"

record parg_info =
  ai_name :: "cstr option"
  ai_class_name :: "cstr option"

record pop_array =
  oa_user :: bool
  oa_filename :: "cstr option"
  oa_literals :: "(nat \<times> pzval list) option"
  oa_opcodes :: "nat \<times> zend_op list"
  oa_done_pass_two :: bool
  oa_function_name :: "cstr option"
  oa_arg_info :: "(nat \<times> parg_info list) option"
  oa_brk_cont :: "(nat \<times> nat) option"
  oa_static :: "(nat \<times> pzval_ptr htable) option"
  oa_doc :: "cstr option"
  oa_try_catch :: "(nat \<times> nat) option"
  oa_vars :: "(nat \<times> cstr list) option"

record pproperty =
  prop_name :: cstr
  prop_doc :: "cstr option"

record ptrait_method =
  tm_addr :: nat
  tm_method :: "cstr option"
  tm_class :: "cstr option"

record ptrait_alias =
  ta_addr :: nat
  ta_method :: "ptrait_method option"
  ta_alias :: "cstr option"

record ptrait_prec =
  tp_addr :: nat
  tp_ref :: nat
  tp_method :: cstr
  tp_class :: cstr
  tp_exclude :: "(nat \<times> cstr list) option"

record pclass =
  ce_user :: bool
  ce_addr :: nat
  ce_name :: cstr
  ce_functions :: "pop_array htable"
  ce_default_properties :: "(nat \<times> pzval_ptr option list) option"
  ce_default_statics :: "(nat \<times> pzval_ptr option list) option"
  ce_constants :: "pzval_ptr htable"
  ce_filename :: "cstr option"
  ce_doc :: "cstr option"
  ce_properties :: "pproperty htable"
  ce_aliases :: "(nat \<times> ptrait_alias list) option"
  ce_precedences :: "(nat \<times> ptrait_prec list) option"

record pscript =
  sc_addr :: nat
  sc_functions :: "pop_array htable"
  sc_classes :: "pclass htable"
  sc_main :: pop_array
  sc_full_path :: cstr

section \<open>Computing the size\<close>

text \<open>A computation that returns the part of the script it went through, with the interned
  strings it replaced, and the size as an \<open>uint\<close>.\<close>

record cstate =
  c_xlat :: "nat \<rightharpoonup> nat"
  c_interned :: interned_strings

type_synonym 'a calc = "cstate \<Rightarrow> 'a \<times> nat \<times> cstate"

definition add_size :: "nat \<Rightarrow> nat \<Rightarrow> nat" where
  "add_size n k = (n + k) mod two32"

definition no_size :: "'a \<Rightarrow> 'a calc" where
  "no_size x = (\<lambda>c. (x, 0, c))"

definition and_then :: "'a calc \<Rightarrow> ('a \<Rightarrow> 'b calc) \<Rightarrow> 'b calc" where
  "and_then f g = (\<lambda>c. case f c of (x, n, c1) \<Rightarrow> (case g x c1 of (y, k, c2) \<Rightarrow> (y, add_size n k, c2)))"

text \<open>\<open>ADD_SIZE(f(...))\<close>\<close>

definition called :: "'a calc \<Rightarrow> 'a calc" where
  "called f = (\<lambda>c. case f c of (x, n, c1) \<Rightarrow> (x, ZEND_ALIGNED_SIZE n, c1))"

definition just_size :: "nat \<Rightarrow> 'a \<Rightarrow> 'a calc" where
  "just_size n x = (\<lambda>c. (x, ZEND_ALIGNED_SIZE n mod two32, c))"

text \<open>\<open>zend_shared_memdup_size\<close>, for \<open>ADD_DUP_SIZE\<close>.\<close>

definition zend_shared_memdup_size :: "nat \<Rightarrow> nat \<Rightarrow> 'a \<Rightarrow> 'a calc" where
  "zend_shared_memdup_size source sz x = (\<lambda>c.
     case c_xlat c source of
       Some _ \<Rightarrow> (x, 0, c)
     | None \<Rightarrow> (x, ZEND_ALIGNED_SIZE sz mod two32, c\<lparr>c_xlat := (c_xlat c)(source \<mapsto> source)\<rparr>))"

text \<open>The bytes of a string with its NUL, and its length in memory.\<close>

definition str_bytes :: "cstr \<Rightarrow> string" where
  "str_bytes s = s_val s @ [CHR 0x00]"

definition str_size :: "cstr \<Rightarrow> nat" where
  "str_size s = length (s_val s) + 1"

definition intern_or_dup :: "penv \<Rightarrow> cstr \<Rightarrow> cstr calc" where
  "intern_or_dup en s = (\<lambda>c.
     let r = accel_new_interned_string (hash_func en) (c_interned c) (s_addr s) (str_bytes s);
         c1 = c\<lparr>c_interned := snd r\<rparr>
     in if fst r \<noteq> s_addr s then (s\<lparr>s_addr := fst r\<rparr>, 0, c1)
        else zend_shared_memdup_size (s_addr s) (str_size s) s c1)"

definition ADD_INTERNED_STRING :: "penv \<Rightarrow> cstr \<Rightarrow> cstr calc" where
  "ADD_INTERNED_STRING en s = (\<lambda>c.
     if IS_INTERNED (c_interned c) (s_addr s) then (s, 0, c) else intern_or_dup en s c)"

definition dup_str :: "cstr \<Rightarrow> cstr calc" where
  "dup_str s = zend_shared_memdup_size (s_addr s) (str_size s) s"

definition opt_calc :: "('a \<Rightarrow> 'a calc) \<Rightarrow> 'a option \<Rightarrow> 'a option calc" where
  "opt_calc f x = (case x of None \<Rightarrow> no_size None | Some y \<Rightarrow> and_then (f y) (\<lambda>y'. no_size (Some y')))"

fun list_calc :: "('a \<Rightarrow> 'a calc) \<Rightarrow> 'a list \<Rightarrow> 'a list calc" where
  "list_calc f [] = no_size []"
| "list_calc f (x # xs) = and_then (f x) (\<lambda>x'. and_then (list_calc f xs) (\<lambda>xs'. no_size (x' # xs')))"

text \<open>The code guarded by \<open>!zend_shared_alloc_get_xlat_entry(a)\<close>.\<close>

definition unless_done :: "nat \<Rightarrow> 'a \<Rightarrow> 'a calc \<Rightarrow> 'a calc" where
  "unless_done a x f = (\<lambda>c. if c_xlat c a = None then f c else (x, 0, c))"

definition bucket_calc :: "penv \<Rightarrow> ('e \<Rightarrow> 'e calc) \<Rightarrow> nat \<Rightarrow> 'e bucket \<Rightarrow> 'e bucket calc" where
  "bucket_calc en el el_size b =
     and_then (zend_shared_memdup_size (b_addr b) (sizeof en T_Bucket) ()) (\<lambda>_.
     and_then (opt_calc (intern_or_dup en) (b_key b)) (\<lambda>k.
     and_then (case b_data b of None \<Rightarrow> no_size () | Some d \<Rightarrow> zend_shared_memdup_size d el_size ()) (\<lambda>_.
     and_then (called (el (b_el b))) (\<lambda>e.
       no_size (Bucket (b_addr b) k (b_data b) e)))))"

definition zend_hash_persist_calc :: "penv \<Rightarrow> ('e \<Rightarrow> 'e calc) \<Rightarrow> nat \<Rightarrow> 'e htable \<Rightarrow> 'e htable calc" where
  "zend_hash_persist_calc en el el_size ht =
     and_then (list_calc (bucket_calc en el el_size) (ht_list ht)) (\<lambda>bs.
     and_then (if ht_init ht then zend_shared_memdup_size (ht_ar ht) (sizeof en T_pointer * ht_size ht) () else no_size ()) (\<lambda>_.
       no_size (Htable bs (ht_init ht) (ht_size ht) (ht_ar ht))))"

lemma list_calc_cong: "(\<And>x. x \<in> set xs \<Longrightarrow> f x = g x) \<Longrightarrow> list_calc f xs = list_calc g xs"
  by (induction xs) auto

lemma zend_hash_persist_calc_cong [fundef_cong]:
  assumes "en = en'" "k = k'" "ht = ht'" and "\<And>b. b \<in> set (ht_list ht') \<Longrightarrow> el (b_el b) = el' (b_el b)"
  shows "zend_hash_persist_calc en el k ht = zend_hash_persist_calc en' el' k' ht'"
proof -
  have "list_calc (bucket_calc en' el k') (ht_list ht') = list_calc (bucket_calc en' el' k') (ht_list ht')"
    by (rule list_calc_cong) (simp add: bucket_calc_def assms(4))
  then show ?thesis by (simp add: zend_hash_persist_calc_def assms(1-3))
qed

text \<open>\<open>zend_persist_zval_ptr_calc\<close>, given the computation for the value behind the pointer.\<close>

definition zval_ptr_calc :: "penv \<Rightarrow> pzval calc \<Rightarrow> pzval_ptr \<Rightarrow> pzval_ptr calc" where
  "zval_ptr_calc en f p =
     unless_done (fst p) p (and_then (zend_shared_memdup_size (fst p) (sizeof en T_zval) ()) (\<lambda>_.
       and_then (called f) (\<lambda>z. no_size (fst p, z))))"

lemma size_ht_list: "b \<in> set (ht_list ht) \<Longrightarrow> size (snd (b_el b)) < size (PArray h ht)"
proof -
  assume b: "b \<in> set (ht_list ht)"
  obtain bs i n a where ht: "ht = Htable bs i n a" by (cases ht)
  obtain x k d e where be: "b = Bucket x k d e" by (cases b)
  have "Suc (size (snd e)) < size_bucket (\<lambda>p. Suc (size (snd p))) b" by (simp add: be)
  also have "\<dots> \<le> size_list (size_bucket (\<lambda>p. Suc (size (snd p)))) bs"
    using b ht by (simp add: size_list_estimation')
  finally show ?thesis by (simp add: ht be size_prod_simp)
qed

function zend_persist_zval_calc :: "penv \<Rightarrow> pzval \<Rightarrow> pzval calc" where
  "zend_persist_zval_calc en PScalar = no_size PScalar"
| "zend_persist_zval_calc en (PString s) = and_then (ADD_INTERNED_STRING en s) (\<lambda>s'. no_size (PString s'))"
| "zend_persist_zval_calc en (PArray h ht) =
     and_then (zend_shared_memdup_size h (sizeof en T_HashTable) ()) (\<lambda>_.
     and_then (called (zend_hash_persist_calc en (\<lambda>p. zval_ptr_calc en (zend_persist_zval_calc en (snd p)) p) (sizeof en T_pointer) ht))
       (\<lambda>ht'. no_size (PArray h ht')))"
  by pat_completeness auto
termination by (relation "measure (\<lambda>(_, z). size z)") (simp_all add: size_ht_list del: pzval.size)

definition zend_persist_zval_ptr_calc :: "penv \<Rightarrow> pzval_ptr \<Rightarrow> pzval_ptr calc" where
  "zend_persist_zval_ptr_calc en p = zval_ptr_calc en (zend_persist_zval_calc en (snd p)) p"

definition arg_info_calc :: "penv \<Rightarrow> parg_info \<Rightarrow> parg_info calc" where
  "arg_info_calc en ai =
     and_then (opt_calc (ADD_INTERNED_STRING en) (ai_name ai)) (\<lambda>n.
     and_then (opt_calc (ADD_INTERNED_STRING en) (ai_class_name ai)) (\<lambda>k.
       no_size \<lparr>ai_name = n, ai_class_name = k\<rparr>))"

definition literals_calc :: "penv \<Rightarrow> nat \<times> pzval list \<Rightarrow> (nat \<times> pzval list) calc" where
  "literals_calc en p =
     unless_done (fst p) p
      (and_then (zend_shared_memdup_size (fst p) (sizeof en T_literal * length (snd p)) ()) (\<lambda>_.
       and_then (list_calc (\<lambda>z. called (zend_persist_zval_calc en z)) (snd p)) (\<lambda>zs. no_size (fst p, zs))))"

definition arg_infos_calc :: "penv \<Rightarrow> nat \<times> parg_info list \<Rightarrow> (nat \<times> parg_info list) calc" where
  "arg_infos_calc en p =
     unless_done (fst p) p
      (and_then (zend_shared_memdup_size (fst p) (sizeof en T_arg_info * length (snd p)) ()) (\<lambda>_.
       and_then (list_calc (arg_info_calc en) (snd p)) (\<lambda>as. no_size (fst p, as))))"

definition vars_calc :: "penv \<Rightarrow> nat \<times> cstr list \<Rightarrow> (nat \<times> cstr list) calc" where
  "vars_calc en p =
     unless_done (fst p) p
      (and_then (zend_shared_memdup_size (fst p) (sizeof en T_compiled_variable * length (snd p)) ()) (\<lambda>_.
       and_then (list_calc (ADD_INTERNED_STRING en) (snd p)) (\<lambda>vs. no_size (fst p, vs))))"

definition opcodes_calc :: "penv \<Rightarrow> nat \<times> zend_op list \<Rightarrow> (nat \<times> zend_op list) calc" where
  "opcodes_calc en p =
     unless_done (fst p) p (zend_shared_memdup_size (fst p) (sizeof en T_op * length (snd p)) p)"

definition static_calc :: "penv \<Rightarrow> nat \<times> pzval_ptr htable \<Rightarrow> (nat \<times> pzval_ptr htable) calc" where
  "static_calc en p =
     and_then (zend_shared_memdup_size (fst p) (sizeof en T_HashTable) ()) (\<lambda>_.
     and_then (called (zend_hash_persist_calc en (zend_persist_zval_ptr_calc en) (sizeof en T_pointer) (snd p))) (\<lambda>ht.
       no_size (fst p, ht)))"

definition doc_calc :: "penv \<Rightarrow> cstr option \<Rightarrow> cstr option calc" where
  "doc_calc en d = (if save_comments en then opt_calc dup_str d else no_size d)"

text \<open>An array of \<open>n\<close> elements of one type, copied as it is.\<close>

definition array_calc :: "penv \<Rightarrow> ctype \<Rightarrow> nat \<times> nat \<Rightarrow> (nat \<times> nat) calc" where
  "array_calc en t p = zend_shared_memdup_size (fst p) (sizeof en t * snd p) p"

definition zend_persist_op_array_calc :: "penv \<Rightarrow> pop_array \<Rightarrow> pop_array calc" where
  "zend_persist_op_array_calc en oa =
     (if \<not> oa_user oa then no_size oa else
      and_then (opt_calc dup_str (oa_filename oa)) (\<lambda>_.
      and_then (opt_calc (literals_calc en) (oa_literals oa)) (\<lambda>ls.
      and_then (opcodes_calc en (oa_opcodes oa)) (\<lambda>_.
      and_then (opt_calc dup_str (oa_function_name oa)) (\<lambda>_.
      and_then (opt_calc (arg_infos_calc en) (oa_arg_info oa)) (\<lambda>as.
      and_then (opt_calc (array_calc en T_brk_cont) (oa_brk_cont oa)) (\<lambda>_.
      and_then (opt_calc (static_calc en) (oa_static oa)) (\<lambda>st.
      and_then (doc_calc en (oa_doc oa)) (\<lambda>_.
      and_then (opt_calc (array_calc en T_try_catch) (oa_try_catch oa)) (\<lambda>_.
      and_then (opt_calc (vars_calc en) (oa_vars oa)) (\<lambda>vs.
        no_size (oa\<lparr>oa_literals := ls, oa_arg_info := as, oa_static := st, oa_vars := vs\<rparr>))))))))))))"

definition zend_persist_property_info_calc :: "penv \<Rightarrow> pproperty \<Rightarrow> pproperty calc" where
  "zend_persist_property_info_calc en p =
     and_then (ADD_INTERNED_STRING en (prop_name p)) (\<lambda>n.
     and_then (doc_calc en (prop_doc p)) (\<lambda>_. no_size (p\<lparr>prop_name := n\<rparr>)))"

text \<open>\<open>default_properties_table\<close> and \<open>default_static_members_table\<close>.\<close>

definition zval_table_calc :: "penv \<Rightarrow> nat \<times> pzval_ptr option list \<Rightarrow> (nat \<times> pzval_ptr option list) calc" where
  "zval_table_calc en p =
     and_then (just_size (sizeof en T_pointer * length (snd p)) ()) (\<lambda>_.
     and_then (list_calc (opt_calc (\<lambda>z. called (zend_persist_zval_ptr_calc en z))) (snd p)) (\<lambda>zs. no_size (fst p, zs)))"

definition str_calc :: "cstr \<Rightarrow> cstr calc" where
  "str_calc s = just_size (str_size s) s"

definition trait_method_calc :: "penv \<Rightarrow> ptrait_method \<Rightarrow> ptrait_method calc" where
  "trait_method_calc en t =
     and_then (opt_calc str_calc (tm_method t)) (\<lambda>_.
     and_then (opt_calc str_calc (tm_class t)) (\<lambda>_.
       just_size (sizeof en T_trait_method_reference) t))"

definition trait_alias_calc :: "penv \<Rightarrow> ptrait_alias \<Rightarrow> ptrait_alias calc" where
  "trait_alias_calc en t =
     and_then (opt_calc (trait_method_calc en) (ta_method t)) (\<lambda>_.
     and_then (opt_calc str_calc (ta_alias t)) (\<lambda>_.
       just_size (sizeof en T_trait_alias) t))"

definition trait_exclude_calc :: "penv \<Rightarrow> nat \<times> cstr list \<Rightarrow> (nat \<times> cstr list) calc" where
  "trait_exclude_calc en p =
     and_then (list_calc str_calc (snd p)) (\<lambda>_. just_size (sizeof en T_pointer * (length (snd p) + 1)) p)"

definition trait_prec_calc :: "penv \<Rightarrow> ptrait_prec \<Rightarrow> ptrait_prec calc" where
  "trait_prec_calc en t =
     and_then (str_calc (tp_method t)) (\<lambda>_.
     and_then (str_calc (tp_class t)) (\<lambda>_.
     and_then (just_size (sizeof en T_trait_method_reference) ()) (\<lambda>_.
     and_then (opt_calc (trait_exclude_calc en) (tp_exclude t)) (\<lambda>_.
       just_size (sizeof en T_trait_precedence) t))))"

definition trait_table_calc :: "penv \<Rightarrow> ('t \<Rightarrow> 't calc) \<Rightarrow> nat \<times> 't list \<Rightarrow> (nat \<times> 't list) calc" where
  "trait_table_calc en f p =
     and_then (list_calc f (snd p)) (\<lambda>_. just_size (sizeof en T_pointer * (length (snd p) + 1)) p)"

definition zend_persist_class_entry_calc :: "penv \<Rightarrow> pclass \<Rightarrow> pclass calc" where
  "zend_persist_class_entry_calc en ce =
     (if \<not> ce_user ce then no_size ce else
      and_then (zend_shared_memdup_size (ce_addr ce) (sizeof en T_class_entry) ()) (\<lambda>_.
      and_then (ADD_INTERNED_STRING en (ce_name ce)) (\<lambda>n.
      and_then (called (zend_hash_persist_calc en (zend_persist_op_array_calc en) (sizeof en T_op_array) (ce_functions ce))) (\<lambda>fs.
      and_then (opt_calc (zval_table_calc en) (ce_default_properties ce)) (\<lambda>ps.
      and_then (opt_calc (zval_table_calc en) (ce_default_statics ce)) (\<lambda>ss.
      and_then (called (zend_hash_persist_calc en (zend_persist_zval_ptr_calc en) (sizeof en T_pointer) (ce_constants ce))) (\<lambda>cs.
      and_then (opt_calc dup_str (ce_filename ce)) (\<lambda>_.
      and_then (doc_calc en (ce_doc ce)) (\<lambda>_.
      and_then (called (zend_hash_persist_calc en (zend_persist_property_info_calc en) (sizeof en T_property_info) (ce_properties ce))) (\<lambda>is.
      and_then (opt_calc (trait_table_calc en (trait_alias_calc en)) (ce_aliases ce)) (\<lambda>_.
      and_then (opt_calc (trait_table_calc en (trait_prec_calc en)) (ce_precedences ce)) (\<lambda>_.
        no_size (ce\<lparr>ce_name := n, ce_functions := fs, ce_default_properties := ps, ce_default_statics := ss,
          ce_constants := cs, ce_properties := is\<rparr>)))))))))))))"

definition zend_accel_persist_class_table_calc :: "penv \<Rightarrow> pclass htable \<Rightarrow> pclass htable calc" where
  "zend_accel_persist_class_table_calc en = zend_hash_persist_calc en (zend_persist_class_entry_calc en) (sizeof en T_pointer)"

definition zend_accel_script_persist_calc :: "penv \<Rightarrow> pscript \<Rightarrow> cstr \<Rightarrow> pscript calc" where
  "zend_accel_script_persist_calc en sc key =
     and_then (called (zend_hash_persist_calc en (zend_persist_op_array_calc en) (sizeof en T_op_array) (sc_functions sc))) (\<lambda>fs.
     and_then (called (zend_accel_persist_class_table_calc en (sc_classes sc))) (\<lambda>cs.
     and_then (called (zend_persist_op_array_calc en (sc_main sc))) (\<lambda>ma.
     and_then (dup_str key) (\<lambda>_.
     and_then (dup_str (sc_full_path sc)) (\<lambda>_.
     and_then (zend_shared_memdup_size (sc_addr sc) (sizeof en T_script) ()) (\<lambda>_.
       no_size (sc\<lparr>sc_functions := fs, sc_classes := cs, sc_main := ma\<rparr>)))))))"

section \<open>Copying\<close>

text \<open>Strings that are interned stay where they are; \<open>T\<close> is the table with its range.\<close>

definition zend_accel_store_interned_string :: "interned_strings \<Rightarrow> loc \<Rightarrow> cstr \<Rightarrow> pmem \<Rightarrow> pmem" where
  "zend_accel_store_interned_string T l s m =
     (if IS_INTERNED T (s_addr s) then m else zend_accel_store l (s_addr s) (str_size s) m)"

definition store_str :: "loc \<Rightarrow> cstr \<Rightarrow> pmem \<Rightarrow> pmem" where
  "store_str l s m = zend_accel_store l (s_addr s) (str_size s) m"

definition opt_do :: "('a \<Rightarrow> pmem \<Rightarrow> pmem) \<Rightarrow> 'a option \<Rightarrow> pmem \<Rightarrow> pmem" where
  "opt_do f x m = (case x of None \<Rightarrow> m | Some y \<Rightarrow> f y m)"

text \<open>A loop over an array; the action sees the index.\<close>

fun list_do :: "(nat \<Rightarrow> 'a \<Rightarrow> pmem \<Rightarrow> pmem) \<Rightarrow> nat \<Rightarrow> 'a list \<Rightarrow> pmem \<Rightarrow> pmem" where
  "list_do f i [] m = m"
| "list_do f i (x # xs) m = list_do f (Suc i) xs (f i x m)"

text \<open>Writing one pointer through another, when that is not NULL: \<open>if (p->f) p->f->g = v\<close>.\<close>

definition link_back :: "nat \<Rightarrow> string \<Rightarrow> string \<Rightarrow> pmem \<Rightarrow> pmem" where
  "link_back p f g m = (if fld (ptr p f) m \<noteq> 0 then put (ptr (fld (ptr p f) m) g) p m else m)"

definition persist_bucket ::
  "penv \<Rightarrow> interned_strings \<Rightarrow> (loc \<Rightarrow> 'e \<Rightarrow> pmem \<Rightarrow> pmem) \<Rightarrow> nat \<Rightarrow> 'e bucket \<Rightarrow> pmem \<Rightarrow> pmem" where
  "persist_bucket en T el el_size b m =
     (let r = zend_shared_memdup (b_addr b) (sizeof en T_Bucket) m;
          p = fst r;
          m1 = opt_do (\<lambda>k. zend_accel_store_interned_string T (ptr p ''arKey'') k) (b_key b) (snd r);
          m2 = (case b_data b of
                  Some d \<Rightarrow> zend_accel_store (ptr p ''pData'') d el_size m1
                | None \<Rightarrow> put (ptr p ''pData'') p m1);
          l = (case b_data b of Some d \<Rightarrow> (fld (ptr p ''pData'') m2, []) | None \<Rightarrow> ptr p ''pDataPtr'');
          m3 = el l (b_el b) m2
      in link_back p ''pListNext'' ''pListLast'' (link_back p ''pListLast'' ''pListNext''
           (link_back p ''pNext'' ''pLast'' (link_back p ''pLast'' ''pNext'' m3))))"

text \<open>Translating the pointer at a location, unless it is NULL.\<close>

definition translate :: "loc \<Rightarrow> pmem \<Rightarrow> pmem" where
  "translate l m = (if fld l m \<noteq> 0 then put l (zend_shared_alloc_get_xlat_entry (fld l m) m) m else m)"

definition zend_hash_persist ::
  "penv \<Rightarrow> interned_strings \<Rightarrow> loc \<Rightarrow> (loc \<Rightarrow> 'e \<Rightarrow> pmem \<Rightarrow> pmem) \<Rightarrow> nat \<Rightarrow> 'e htable \<Rightarrow> pmem \<Rightarrow> pmem" where
  "zend_hash_persist en T l el el_size ht m =
     (let m1 = list_do (\<lambda>_. persist_bucket en T el el_size) 0 (ht_list ht) m;
          m2 = translate (sub l ''pInternalPointer'') (translate (sub l ''pListTail'') (translate (sub l ''pListHead'') m1))
      in if ht_init ht
         then zend_accel_store (sub l ''arBuckets'') (ht_ar ht) (sizeof en T_pointer * ht_size ht)
                (if ht_list ht \<noteq> [] then list_do (\<lambda>i _. translate (ht_ar ht, [I i])) 0 (replicate (ht_size ht) ()) m2 else m2)
         else put (sub l ''arBuckets'') (uninitialized_bucket en) m2)"

lemma list_do_cong: "(\<And>i x m. x \<in> set xs \<Longrightarrow> f i x m = g i x m) \<Longrightarrow> list_do f i xs m = list_do g i xs m"
  by (induction xs arbitrary: i m) auto

lemma zend_hash_persist_cong [fundef_cong]:
  assumes "en = en'" "T = T'" "l = l'" "k = k'" "ht = ht'" "m = m'"
    and "\<And>b x y. b \<in> set (ht_list ht') \<Longrightarrow> el x (b_el b) y = el' x (b_el b) y"
  shows "zend_hash_persist en T l el k ht m = zend_hash_persist en' T' l' el' k' ht' m'"
proof -
  have "list_do (\<lambda>_. persist_bucket en' T' el k') 0 (ht_list ht') m' = list_do (\<lambda>_. persist_bucket en' T' el' k') 0 (ht_list ht') m'"
    by (rule list_do_cong) (simp add: persist_bucket_def assms(7))
  then show ?thesis by (simp add: zend_hash_persist_def assms(1-6))
qed

text \<open>\<open>zend_persist_zval_ptr\<close>, given the action for the value behind the pointer.\<close>

definition persist_zval_ptr :: "penv \<Rightarrow> (loc \<Rightarrow> pmem \<Rightarrow> pmem) \<Rightarrow> loc \<Rightarrow> pzval_ptr \<Rightarrow> pmem \<Rightarrow> pmem" where
  "persist_zval_ptr en f l p m =
     (case xlat m (fst p) of
        Some n \<Rightarrow> put l n m
      | None \<Rightarrow> (let m1 = zend_accel_store l (fst p) (sizeof en T_zval) m in f (fld l m1, []) m1))"

function zend_persist_zval :: "penv \<Rightarrow> interned_strings \<Rightarrow> loc \<Rightarrow> pzval \<Rightarrow> pmem \<Rightarrow> pmem" where
  "zend_persist_zval en T l PScalar m = m"
| "zend_persist_zval en T l (PString s) m = zend_accel_store_interned_string T (sub l ''value'') s m"
| "zend_persist_zval en T l (PArray h ht) m =
     (let m1 = zend_accel_store (sub l ''value'') h (sizeof en T_HashTable) m
      in zend_hash_persist en T (fld (sub l ''value'') m1, [])
           (\<lambda>l' p. persist_zval_ptr en (\<lambda>l'' m'. zend_persist_zval en T l'' (snd p) m') l' p) (sizeof en T_pointer) ht m1)"
  by pat_completeness auto
termination by (relation "measure (\<lambda>(_, _, _, z, _). size z)") (simp_all add: size_ht_list del: pzval.size)

definition zend_persist_zval_ptr :: "penv \<Rightarrow> interned_strings \<Rightarrow> loc \<Rightarrow> pzval_ptr \<Rightarrow> pmem \<Rightarrow> pmem" where
  "zend_persist_zval_ptr en T l p = persist_zval_ptr en (\<lambda>l'. zend_persist_zval en T l' (snd p)) l p"

definition zend_protect_zval :: "loc \<Rightarrow> pmem \<Rightarrow> pmem" where
  "zend_protect_zval l m = put (sub l ''refcount'') 2 (put (sub l ''is_ref'') 1 m)"

text \<open>A comment that is not kept is registered, so that it is freed only once.\<close>

definition persist_doc :: "penv \<Rightarrow> loc \<Rightarrow> cstr \<Rightarrow> pmem \<Rightarrow> pmem" where
  "persist_doc en l d m =
     (if save_comments en then store_str (sub l ''doc_comment'') d m
      else put (sub l ''doc_comment_len'') 0 (put (sub l ''doc_comment'') 0
        (if zend_shared_alloc_get_xlat_entry (s_addr d) m = 0
         then zend_shared_alloc_register_xlat_entry (s_addr d) (s_addr d) m else m)))"

definition persist_literals :: "penv \<Rightarrow> interned_strings \<Rightarrow> loc \<Rightarrow> nat \<times> pzval list \<Rightarrow> pmem \<Rightarrow> nat \<times> pmem" where
  "persist_literals en T l p m =
     (case xlat m (fst p) of
        Some n \<Rightarrow> (n, put (sub l ''literals'') n m)
      | None \<Rightarrow> (let m1 = zend_accel_store (sub l ''literals'') (fst p) (sizeof en T_literal * length (snd p)) m;
            q = fld (sub l ''literals'') m1
        in (fst p, list_do (\<lambda>i z m'. zend_protect_zval (q, [I i]) (zend_persist_zval en T (q, [I i]) z m')) 0 (snd p) m1)))"

text \<open>Moving the pointer at a location from a block at \<open>old\<close> to its copy at \<open>new\<close>.\<close>

definition rebase :: "nat \<Rightarrow> nat \<Rightarrow> loc \<Rightarrow> pmem \<Rightarrow> pmem" where
  "rebase old new l m = put l (fld l m + new - old) m"

definition jumps_by_op1 :: "nat \<Rightarrow> bool" where
  "jumps_by_op1 oc \<longleftrightarrow> oc \<in> {ZEND_JMP, ZEND_GOTO, ZEND_FAST_CALL}"

definition jumps_by_op2 :: "nat \<Rightarrow> bool" where
  "jumps_by_op2 oc \<longleftrightarrow> oc \<in> {ZEND_JMPZ, ZEND_JMPNZ, ZEND_JMPZ_EX, ZEND_JMPNZ_EX, ZEND_JMP_SET, ZEND_JMP_SET_VAR}"

definition fix_opline ::
  "bool \<Rightarrow> nat \<times> nat \<Rightarrow> nat \<times> nat \<Rightarrow> nat \<Rightarrow> zend_op \<Rightarrow> pmem \<Rightarrow> pmem" where
  "fix_opline done_pass_two lits ops i o1 m =
     (let l = (snd ops, [I i]);
          m1 = (if op_ty (op1 o1) = IS_CONST then rebase (fst lits) (snd lits) (sub l ''op1'') m else m);
          m2 = (if op_ty (op2 o1) = IS_CONST then rebase (fst lits) (snd lits) (sub l ''op2'') m1 else m1)
      in if \<not> done_pass_two then m2
         else if jumps_by_op1 (opcode o1) then rebase (fst ops) (snd ops) (sub l ''op1'') m2
         else if jumps_by_op2 (opcode o1) then rebase (fst ops) (snd ops) (sub l ''op2'') m2
         else m2)"

definition persist_opcodes :: "penv \<Rightarrow> loc \<Rightarrow> bool \<Rightarrow> nat \<times> nat \<Rightarrow> nat \<times> zend_op list \<Rightarrow> pmem \<Rightarrow> pmem" where
  "persist_opcodes en l done_pass_two lits p m =
     (case xlat m (fst p) of
        Some n \<Rightarrow> put (sub l ''opcodes'') n m
      | None \<Rightarrow> (let r = zend_shared_memdup (fst p) (sizeof en T_op * length (snd p)) m
        in put (sub l ''run_time_cache'') 0 (put (sub l ''opcodes'') (fst r)
             (list_do (fix_opline done_pass_two lits (fst p, fst r)) 0 (snd p) (snd r)))))"

definition persist_arg_infos :: "penv \<Rightarrow> interned_strings \<Rightarrow> loc \<Rightarrow> nat \<times> parg_info list \<Rightarrow> pmem \<Rightarrow> pmem" where
  "persist_arg_infos en T l p m =
     (case xlat m (fst p) of
        Some n \<Rightarrow> put (sub l ''arg_info'') n m
      | None \<Rightarrow> (let m1 = zend_accel_store (sub l ''arg_info'') (fst p) (sizeof en T_arg_info * length (snd p)) m;
            q = fld (sub l ''arg_info'') m1
        in list_do (\<lambda>i ai m'. opt_do (zend_accel_store_interned_string T (q, [I i, F ''class_name''])) (ai_class_name ai)
                     (opt_do (zend_accel_store_interned_string T (q, [I i, F ''name''])) (ai_name ai) m')) 0 (snd p) m1))"

definition persist_vars :: "penv \<Rightarrow> interned_strings \<Rightarrow> loc \<Rightarrow> nat \<times> cstr list \<Rightarrow> pmem \<Rightarrow> pmem" where
  "persist_vars en T l p m =
     (case xlat m (fst p) of
        Some n \<Rightarrow> put (sub l ''vars'') n m
      | None \<Rightarrow> (let m1 = zend_accel_store (sub l ''vars'') (fst p) (sizeof en T_compiled_variable * length (snd p)) m;
            q = fld (sub l ''vars'') m1
        in list_do (\<lambda>i v. zend_accel_store_interned_string T (q, [I i, F ''name'']) v) 0 (snd p) m1))"

definition persist_static :: "penv \<Rightarrow> interned_strings \<Rightarrow> loc \<Rightarrow> nat \<times> pzval_ptr htable \<Rightarrow> pmem \<Rightarrow> pmem" where
  "persist_static en T l p m =
     zend_accel_store (sub l ''static_variables'') (fst p) (sizeof en T_HashTable)
       (zend_hash_persist en T (fst p, []) (zend_persist_zval_ptr en T) (sizeof en T_pointer) (snd p) m)"

text \<open>\<open>refcount++\<close>: a class counts by 1; in an op array \<open>refcount\<close> is an \<open>zend_uint *\<close>, so it
  moves by 4.\<close>

definition bump_refcount :: "nat \<Rightarrow> nat \<Rightarrow> pmem \<Rightarrow> pmem" where
  "bump_refcount step a m = put (ptr a ''refcount'') (fld (ptr a ''refcount'') m + step) m"

definition persist_prototype :: "loc \<Rightarrow> pmem \<Rightarrow> pmem" where
  "persist_prototype l m =
     (if fld (sub l ''scope'') m \<noteq> 0 \<and> fld (sub l ''prototype'') m \<noteq> 0
      then (let p = zend_shared_alloc_get_xlat_entry (fld (sub l ''prototype'') m) m
            in if p \<noteq> 0 then bump_refcount 4 p (put (sub l ''prototype'') p m) else m)
      else put (sub l ''prototype'') 0 m)"

definition store_array :: "penv \<Rightarrow> ctype \<Rightarrow> loc \<Rightarrow> nat \<times> nat \<Rightarrow> pmem \<Rightarrow> pmem" where
  "store_array en t l p m = zend_accel_store l (fst p) (sizeof en t * snd p) m"

text \<open>\<open>main\<close> is the script, when this is its main op array.\<close>

definition zend_persist_op_array_ex ::
  "penv \<Rightarrow> interned_strings \<Rightarrow> loc option \<Rightarrow> loc \<Rightarrow> pop_array \<Rightarrow> pmem \<Rightarrow> pmem" where
  "zend_persist_op_array_ex en T main l oa m0 =
     (if \<not> oa_user oa then m0 else
      let m1 = put (sub l ''refcount'') 0 m0;
          m2 = opt_do (store_str (sub l ''filename'')) (oa_filename oa) m1;
          m3 = (case main of None \<Rightarrow> m2
                | Some sl \<Rightarrow> opt_do (put (sub sl ''compiler_halt_offset'')) (halt_offset en) m2);
          r = (case oa_literals oa of None \<Rightarrow> (0, m3) | Some p \<Rightarrow> persist_literals en T l p m3);
          m4 = snd r;
          lits = (fst r, case oa_literals oa of None \<Rightarrow> 0 | Some _ \<Rightarrow> fld (sub l ''literals'') m4);
          m5 = persist_opcodes en l (oa_done_pass_two oa) lits (oa_opcodes oa) m4;
          m6 = opt_do (store_str (sub l ''function_name'')) (oa_function_name oa) m5;
          m7 = opt_do (persist_arg_infos en T l) (oa_arg_info oa) m6;
          m8 = opt_do (store_array en T_brk_cont (sub l ''brk_cont_array'')) (oa_brk_cont oa) m7;
          m9 = opt_do (persist_static en T l) (oa_static oa) m8;
          m10 = translate (sub l ''scope'') m9;
          m11 = opt_do (persist_doc en l) (oa_doc oa) m10;
          m12 = opt_do (store_array en T_try_catch (sub l ''try_catch_array'')) (oa_try_catch oa) m11;
          m13 = opt_do (persist_vars en T l) (oa_vars oa) m12
      in persist_prototype l m13)"

definition zend_persist_property_info :: "penv \<Rightarrow> interned_strings \<Rightarrow> loc \<Rightarrow> pproperty \<Rightarrow> pmem \<Rightarrow> pmem" where
  "zend_persist_property_info en T l p m =
     opt_do (persist_doc en l) (prop_doc p) (zend_accel_store_interned_string T (sub l ''name'') (prop_name p) m)"

definition persist_zval_table ::
  "penv \<Rightarrow> interned_strings \<Rightarrow> loc \<Rightarrow> nat \<times> pzval_ptr option list \<Rightarrow> pmem \<Rightarrow> pmem" where
  "persist_zval_table en T l p m =
     (let m1 = zend_accel_store l (fst p) (sizeof en T_pointer * length (snd p)) m; q = fld l m1
      in list_do (\<lambda>i. opt_do (zend_persist_zval_ptr en T (q, [I i]))) 0 (snd p) m1)"

definition persist_trait_method :: "penv \<Rightarrow> loc \<Rightarrow> ptrait_method \<Rightarrow> pmem \<Rightarrow> pmem" where
  "persist_trait_method en l t m =
     zend_accel_store l (tm_addr t) (sizeof en T_trait_method_reference)
       (put (ptr (tm_addr t) ''ce'') 0
         (opt_do (store_str (ptr (tm_addr t) ''class_name'')) (tm_class t)
           (opt_do (store_str (ptr (tm_addr t) ''method_name'')) (tm_method t) m)))"

definition persist_trait_alias :: "penv \<Rightarrow> loc \<Rightarrow> ptrait_alias \<Rightarrow> pmem \<Rightarrow> pmem" where
  "persist_trait_alias en l t m =
     zend_accel_store l (ta_addr t) (sizeof en T_trait_alias)
       (opt_do (store_str (ptr (ta_addr t) ''alias'')) (ta_alias t)
         (opt_do (persist_trait_method en (ptr (ta_addr t) ''trait_method'')) (ta_method t) m))"

definition persist_exclude :: "penv \<Rightarrow> loc \<Rightarrow> nat \<times> cstr list \<Rightarrow> pmem \<Rightarrow> pmem" where
  "persist_exclude en l p m =
     zend_accel_store l (fst p) (sizeof en T_pointer * (length (snd p) + 1))
       (list_do (\<lambda>j. store_str (fst p, [I j])) 0 (snd p) m)"

definition persist_trait_prec :: "penv \<Rightarrow> loc \<Rightarrow> ptrait_prec \<Rightarrow> pmem \<Rightarrow> pmem" where
  "persist_trait_prec en l t m =
     (let m1 = store_str (ptr (tp_ref t) ''method_name'') (tp_method t) m;
          m2 = store_str (ptr (tp_ref t) ''class_name'') (tp_class t) m1;
          m3 = zend_accel_store (ptr (tp_addr t) ''trait_method'') (tp_ref t) (sizeof en T_trait_method_reference)
                 (put (ptr (tp_ref t) ''ce'') 0 m2);
          m4 = opt_do (persist_exclude en (ptr (tp_addr t) ''exclude_from_classes'')) (tp_exclude t) m3
      in zend_accel_store l (tp_addr t) (sizeof en T_trait_precedence) m4)"

definition persist_trait_table ::
  "penv \<Rightarrow> (loc \<Rightarrow> 't \<Rightarrow> pmem \<Rightarrow> pmem) \<Rightarrow> loc \<Rightarrow> nat \<times> 't list \<Rightarrow> pmem \<Rightarrow> pmem" where
  "persist_trait_table en f l p m =
     zend_accel_store l (fst p) (sizeof en T_pointer * (length (snd p) + 1))
       (list_do (\<lambda>i. f (fst p, [I i])) 0 (snd p) m)"

definition zend_persist_class_entry :: "penv \<Rightarrow> interned_strings \<Rightarrow> loc \<Rightarrow> pclass \<Rightarrow> pmem \<Rightarrow> pmem" where
  "zend_persist_class_entry en T l ce m0 =
     (if \<not> ce_user ce then m0 else
      let m1 = zend_accel_store l (ce_addr ce) (sizeof en T_class_entry) m0;
          c = (fld l m1, []);
          m2 = zend_accel_store_interned_string T (sub c ''name'') (ce_name ce) m1;
          m3 = zend_hash_persist en T (sub c ''function_table'') (zend_persist_op_array_ex en T None) (sizeof en T_op_array) (ce_functions ce) m2;
          m4 = opt_do (persist_zval_table en T (sub c ''default_properties_table'')) (ce_default_properties ce) m3;
          m5 = opt_do (persist_zval_table en T (sub c ''default_static_members_table'')) (ce_default_statics ce) m4;
          m6 = put (sub c ''static_members_table'') 0 m5;
          m7 = zend_hash_persist en T (sub c ''constants_table'') (zend_persist_zval_ptr en T) (sizeof en T_pointer) (ce_constants ce) m6;
          m8 = opt_do (store_str (sub c ''filename'')) (ce_filename ce) m7;
          m9 = opt_do (persist_doc en c) (ce_doc ce) m8;
          m10 = zend_hash_persist en T (sub c ''properties_info'') (zend_persist_property_info en T) (sizeof en T_property_info) (ce_properties ce) m9;
          m11 = put (sub c ''traits'') 0 (put (sub c ''interfaces'') 0 m10);
          m12 = opt_do (persist_trait_table en (persist_trait_alias en) (sub c ''trait_aliases'')) (ce_aliases ce) m11
      in opt_do (persist_trait_table en (persist_trait_prec en) (sub c ''trait_precedences'')) (ce_precedences ce) m12)"

text \<open>The second round over the classes: pointers to classes and methods that may be copied
  later than their users. A class or method that was not copied would be a write through a
  null pointer: \<open>None\<close>.\<close>

definition data_loc :: "'e bucket \<Rightarrow> pmem \<Rightarrow> loc" where
  "data_loc b m = (case b_data b of
     None \<Rightarrow> ptr (zend_shared_alloc_get_xlat_entry (b_addr b) m) ''pDataPtr''
   | Some d \<Rightarrow> (zend_shared_alloc_get_xlat_entry d m, []))"

definition update_counted :: "nat \<Rightarrow> nat \<Rightarrow> string \<Rightarrow> pmem \<Rightarrow> pmem option" where
  "update_counted step ce f m =
     (if fld (ptr ce f) m = 0 then Some m
      else (let p = zend_shared_alloc_get_xlat_entry (fld (ptr ce f) m) m
            in if p = 0 then None else Some (bump_refcount step p (put (ptr ce f) p m))))"

fun update_all :: "nat \<Rightarrow> string list \<Rightarrow> pmem \<Rightarrow> pmem option" where
  "update_all ce [] m = Some m"
| "update_all ce (f # fs) m = Option.bind (update_counted 4 ce f m) (update_all ce fs)"

definition magic_methods :: "string list" where
  "magic_methods = [''constructor'', ''destructor'', ''clone'', ''__get'', ''__set'', ''__call'', ''serialize_func'',
     ''unserialize_func'', ''__isset'', ''__unset'', ''__tostring'', ''__callstatic'']"

definition zend_update_property_info_ce :: "loc \<Rightarrow> pmem \<Rightarrow> pmem" where
  "zend_update_property_info_ce l m = put (sub l ''ce'') (zend_shared_alloc_get_xlat_entry (fld (sub l ''ce'') m) m) m"

definition zend_update_parent_ce :: "pclass bucket \<Rightarrow> pmem \<Rightarrow> pmem option" where
  "zend_update_parent_ce b m =
     (let ce = fld (data_loc b m) m in
      map_option (list_do (\<lambda>_ q m'. zend_update_property_info_ce (data_loc q m') m') 0 (ht_list (ce_properties (b_el b))))
        (Option.bind (update_counted 1 ce ''parent'' m) (update_all ce magic_methods)))"

fun update_classes :: "pclass bucket list \<Rightarrow> pmem \<Rightarrow> pmem option" where
  "update_classes [] m = Some m"
| "update_classes (b # bs) m = Option.bind (zend_update_parent_ce b m) (update_classes bs)"

definition zend_accel_persist_class_table ::
  "penv \<Rightarrow> interned_strings \<Rightarrow> loc \<Rightarrow> pclass htable \<Rightarrow> pmem \<Rightarrow> pmem option" where
  "zend_accel_persist_class_table en T l ht m =
     update_classes (ht_list ht) (zend_hash_persist en T l (zend_persist_class_entry en T) (sizeof en T_pointer) ht m)"

text \<open>The script and the key are returned as their new addresses.\<close>

definition zend_accel_script_persist ::
  "penv \<Rightarrow> interned_strings \<Rightarrow> pscript \<Rightarrow> cstr \<Rightarrow> pmem \<Rightarrow> (nat \<times> nat \<times> pmem) option" where
  "zend_accel_script_persist en T sc key m0 =
     (let m1 = zend_hash_persist en T (ptr (sc_addr sc) ''function_table'') (zend_persist_op_array_ex en T None)
                 (sizeof en T_op_array) (sc_functions sc) (zend_shared_alloc_clear_xlat_table m0)
      in map_option (\<lambda>m2.
           let m3 = zend_persist_op_array_ex en T (Some (sc_addr sc, [])) (ptr (sc_addr sc) ''main_op_array'') (sc_main sc) m2;
               k = zend_shared_memdup (s_addr key) (str_size key) m3;
               m4 = store_str (ptr (sc_addr sc) ''full_path'') (sc_full_path sc) (snd k);
               r = zend_shared_memdup (sc_addr sc) (sizeof en T_script) m4
           in (fst r, fst k, snd r))
         (zend_accel_persist_class_table en T (ptr (sc_addr sc) ''class_table'') (sc_classes sc) m1))"

end
