(* ===== verification/Persist_Size.thy ===== *)
theory Persist_Size
  imports Persist
begin

text \<open>
  The size computed by \<open>zend_accel_script_persist_calc\<close> is what \<open>zend_accel_script_persist\<close>
  uses: each copying function is proved against the computation it mirrors, by comparing
  the two translation tables and the growth of the memory.
\<close>

section \<open>Comparing a computation with a copy\<close>

text \<open>\<open>E\<close> holds the addresses only one of the two walks registers: those of blocks that are
  counted without looking at the table (\<open>P\<close>) and of comments that are dropped. \<open>X\<close> is the
  part of \<open>P\<close> a step registers.\<close>

definition good :: "penv \<Rightarrow> interned_strings \<Rightarrow> cstate \<Rightarrow> bool" where
  "good en T c \<longleftrightarrow> interned_inv (hash_func en) (c_interned c)
     \<and> interned_start (c_interned c) = interned_start T \<and> interned_end (c_interned c) = interned_end T
     \<and> extends T (c_interned c)"

definition rel :: "nat set \<Rightarrow> cstate \<Rightarrow> pmem \<Rightarrow> bool" where
  "rel E c s \<longleftrightarrow> dom (xlat s) - E = dom (c_xlat c) - E"

definition moved :: "pmem \<Rightarrow> pmem \<Rightarrow> nat \<Rightarrow> bool" where
  "moved s s' n \<longleftrightarrow> mem_top s \<le> mem_top s' \<and> 8 dvd (mem_top s' - mem_top s) \<and> n = (mem_top s' - mem_top s) mod two32"

definition ok ::
  "penv \<Rightarrow> interned_strings \<Rightarrow> nat set \<Rightarrow> nat set \<Rightarrow> nat set \<Rightarrow> cstate \<Rightarrow> pmem \<Rightarrow> nat \<Rightarrow> cstate \<Rightarrow> pmem \<Rightarrow> bool" where
  "ok en T P E X c s n c' s' \<longleftrightarrow> good en T c' \<and> rel E c' s' \<and> moved s s' n
     \<and> dom (xlat s') \<inter> P = dom (xlat s) \<inter> P \<union> X \<and> dom (c_xlat c) \<subseteq> dom (c_xlat c') \<and> dom (xlat s) \<subseteq> dom (xlat s')"

lemma aligned_dvd: "8 dvd ZEND_ALIGNED_SIZE n"
  using aligned_mod by (simp add: dvd_eq_mod_eq_0)

lemma aligned_id: "8 dvd n \<Longrightarrow> n < two32 \<Longrightarrow> ZEND_ALIGNED_SIZE n = n"
  by (auto simp: ZEND_ALIGNED_SIZE_def PLATFORM_ALIGNMENT_def two32_def two64_def Let_def)

lemma eight_two32: "8 dvd two32"
  by (simp add: two32_def)

lemma moved_refl [simp]: "moved s s 0"
  by (simp add: moved_def)

lemma moved_dvd: "moved s s' n \<Longrightarrow> 8 dvd n"
  unfolding moved_def using eight_two32 by (simp add: dvd_mod)

lemma moved_trans:
  assumes "moved s s1 n" "moved s1 s2 k"
  shows "moved s s2 (add_size n k)"
proof -
  have "mem_top s2 - mem_top s = (mem_top s1 - mem_top s) + (mem_top s2 - mem_top s1)"
    using assms by (simp add: moved_def)
  then show ?thesis using assms unfolding moved_def add_size_def
    by (metis dvd_add le_trans mod_add_eq)
qed

lemma ok_trans:
  assumes "ok en T P E X c s n c1 s1" "ok en T P E Y c1 s1 k c2 s2"
  shows "ok en T P E (X \<union> Y) c s (add_size n k) c2 s2"
  using assms moved_trans [of s s1 n s2 k] unfolding ok_def by (intro conjI) (simp_all add: Un_assoc, (meson subset_trans)+)

lemma ok_then:
  assumes "ok en T P E {} c s n c1 s1" "ok en T P E Y c1 s1 k c2 s2"
  shows "ok en T P E Y c s (add_size n k) c2 s2"
  using ok_trans [OF assms] by simp

lemma ok_refl: "good en T c \<Longrightarrow> rel E c s \<Longrightarrow> ok en T P E {} c s 0 c s"
  by (simp add: ok_def)

lemma ok_good: "ok en T P E X c s n c' s' \<Longrightarrow> good en T c'" and ok_rel: "ok en T P E X c s n c' s' \<Longrightarrow> rel E c' s'"
  by (simp_all add: ok_def)

lemma ok_size: "ok en T P E X c s n c' s' \<Longrightarrow> n < two32"
  by (simp add: ok_def moved_def two32_def)

lemma add_size_0 [simp]: "n < two32 \<Longrightarrow> add_size n 0 = n" "n < two32 \<Longrightarrow> add_size 0 n = n"
  by (simp_all add: add_size_def)

lemma ok_aligned: "ok en T P E X c s n c' s' \<Longrightarrow> ZEND_ALIGNED_SIZE n = n"
  using moved_dvd aligned_id ok_size by (metis ok_def)

text \<open>Steps that only write fields.\<close>

lemma put_simps [simp]: "xlat (put l v s) = xlat s" "mem_top (put l v s) = mem_top s"
  by (simp_all add: put_def)

lemma ok_put: "ok en T P E X c s n c' (put l v s') = ok en T P E X c s n c' s'"
  by (simp add: ok_def rel_def moved_def)

definition silent :: "pmem \<Rightarrow> pmem \<Rightarrow> bool" where
  "silent s s' \<longleftrightarrow> xlat s' = xlat s \<and> mem_top s' = mem_top s"

lemma ok_later: "ok en T P E X c s n c' s1 \<Longrightarrow> silent s1 s2 \<Longrightarrow> ok en T P E X c s n c' s2"
  by (simp add: silent_def ok_def rel_def moved_def)

lemma silent_refl [simp]: "silent s s"
  and silent_put [simp]: "silent s (put l v s') = silent s s'"
  by (simp_all add: silent_def)

lemma silent_translate [simp]: "silent s (translate l s') = silent s s'"
  and silent_link_back [simp]: "silent s (link_back p f g s') = silent s s'"
  and silent_rebase [simp]: "silent s (rebase a b l s') = silent s s'"
  and silent_protect [simp]: "silent s (zend_protect_zval l s') = silent s s'"
  by (simp_all add: translate_def link_back_def rebase_def zend_protect_zval_def)

lemma silent_list_do:
  assumes "\<And>i x s s'. silent s s' \<Longrightarrow> silent s (f i x s')" and "silent s s'"
  shows "silent s (list_do f i xs s')"
  using assms(2) by (induction xs arbitrary: i s') (simp_all add: assms(1))

lemma silent_fix_opline [simp]: "silent s (fix_opline d a b i o1 s') = silent s s'"
  by (simp add: fix_opline_def Let_def)

section \<open>Blocks and strings\<close>

lemma memdup_new:
  assumes "xlat s a = None"
  shows "xlat (snd (zend_shared_memdup a sz s)) = (xlat s)(a \<mapsto> mem_top s)"
    and "mem_top (snd (zend_shared_memdup a sz s)) = mem_top s + ZEND_ALIGNED_SIZE sz"
  using assms by (simp_all add: zend_shared_memdup_def zend_shared_alloc_register_xlat_entry_def)

lemma memdup_moved: "xlat s a = None \<Longrightarrow> moved s (snd (zend_shared_memdup a sz s)) (ZEND_ALIGNED_SIZE sz mod two32)"
  by (simp add: moved_def memdup_new aligned_dvd)

lemma memdup_done: "xlat s a \<noteq> None \<Longrightarrow> snd (zend_shared_memdup a sz s) = s"
  by (auto simp: zend_shared_memdup_def)

lemma dup_ok:
  assumes g: "good en T c" and r: "rel E c s" and a: "a \<notin> E" "P \<subseteq> E"
    and f: "zend_shared_memdup_size a sz x c = (y, n, c')"
  shows "y = x" and "ok en T P E {} c s n c' (snd (zend_shared_memdup a sz s))"
proof -
  have same: "xlat s a = None \<longleftrightarrow> c_xlat c a = None" using r a unfolding rel_def by (auto simp: domIff)
  show "y = x" using f by (auto simp: zend_shared_memdup_size_def split: option.splits)
  show "ok en T P E {} c s n c' (snd (zend_shared_memdup a sz s))"
  proof (cases "c_xlat c a")
    case None
    then have e: "n = ZEND_ALIGNED_SIZE sz mod two32" "c' = c\<lparr>c_xlat := (c_xlat c)(a \<mapsto> a)\<rparr>" and n: "xlat s a = None"
      using f same by (auto simp: zend_shared_memdup_size_def)
    show ?thesis unfolding ok_def
    proof (intro conjI)
      show "good en T c'" using g by (simp add: e good_def)
      show "rel E c' (snd (zend_shared_memdup a sz s))" using r by (auto simp: rel_def e memdup_new [OF n])
      show "moved s (snd (zend_shared_memdup a sz s)) n" unfolding e by (rule memdup_moved [OF n])
    qed (use a in \<open>auto simp: memdup_new [OF n] e\<close>)
  next
    case (Some p)
    then have e: "n = 0" "c' = c" and n: "xlat s a \<noteq> None" using f same by (auto simp: zend_shared_memdup_size_def)
    show ?thesis unfolding memdup_done [OF n] e by (rule ok_refl [OF g r])
  qed
qed

lemma store_ok:
  assumes "good en T c" "rel E c s" "a \<notin> E" "P \<subseteq> E" "zend_shared_memdup_size a sz x c = (y, n, c')"
  shows "ok en T P E {} c s n c' (zend_accel_store l a sz s)"
  using dup_ok(2) [OF assms] by (simp add: zend_accel_store_def Let_def ok_put)

text \<open>A block counted without the table.\<close>

lemma plain_ok:
  assumes g: "good en T c" and r: "rel E c s" and a: "a \<in> P" "P \<subseteq> E" "a \<notin> dom (xlat s)"
    and f: "just_size sz x c = (y, n, c')"
  shows "y = x" and "ok en T P E {a} c s n c' (zend_accel_store l a sz s)"
proof -
  show "y = x" using f by (simp add: just_size_def)
  have e: "n = ZEND_ALIGNED_SIZE sz mod two32" "c' = c" using f by (simp_all add: just_size_def)
  have n: "xlat s a = None" using a(3) by auto
  have "ok en T P E {a} c s n c' (snd (zend_shared_memdup a sz s))"
    unfolding ok_def
  proof (intro conjI)
    show "rel E c' (snd (zend_shared_memdup a sz s))" using r a by (auto simp: rel_def e memdup_new [OF n])
    show "moved s (snd (zend_shared_memdup a sz s)) n" unfolding e by (rule memdup_moved [OF n])
  qed (use g a in \<open>auto simp: memdup_new [OF n] e\<close>)
  then show "ok en T P E {a} c s n c' (zend_accel_store l a sz s)"
    by (simp add: zend_accel_store_def Let_def ok_put)
qed

lemma intern_or_dup_ok:
  assumes g: "good en T c" and r: "rel E c s" and a: "s_addr str \<notin> E" "P \<subseteq> E" and ni: "\<not> IS_INTERNED T (s_addr str)"
    and f: "intern_or_dup en str c = (str', n, c')"
  shows "ok en T P E {} c s n c' (zend_accel_store_interned_string T l str' s)"
proof -
  let ?H = "hash_func en"
  obtain p T' where i: "accel_new_interned_string ?H (c_interned c) (s_addr str) (str_bytes str) = (p, T')" by force
  have inv: "interned_inv ?H (c_interned c)" using g by (simp add: good_def)
  have se: "interned_start (c_interned c) = interned_start T" "interned_end (c_interned c) = interned_end T" using g by (simp_all add: good_def)
  note st = interned_step [OF inv, of T' "s_addr str" "str_bytes str"]
  have "extends T T'" using g i extends_intern [of T "c_interned c" ?H "s_addr str" "str_bytes str"] by (simp add: good_def)
  then have g1: "good en T (c\<lparr>c_interned := T'\<rparr>)" using st i se by (simp add: good_def)
  have r1: "rel E (c\<lparr>c_interned := T'\<rparr>) s" using r by (simp add: rel_def)
  show ?thesis
  proof (cases "p = s_addr str")
    case True
    then have d: "zend_shared_memdup_size (s_addr str) (str_size str) str (c\<lparr>c_interned := T'\<rparr>) = (str', n, c')"
      using f i by (simp add: intern_or_dup_def Let_def)
    have "str' = str" by (rule dup_ok(1) [OF g1 r1 a d])
    then have "zend_accel_store_interned_string T l str' s = zend_accel_store l (s_addr str) (str_size str) s"
      using ni by (simp add: zend_accel_store_interned_string_def)
    then show ?thesis using store_ok [OF g1 r1 a d, of l] by (simp add: ok_def)
  next
    case False
    then have e: "str' = str\<lparr>s_addr := p\<rparr>" "n = 0" "c' = c\<lparr>c_interned := T'\<rparr>"
      using f i by (simp_all add: intern_or_dup_def Let_def)
    have nic: "\<not> IS_INTERNED (c_interned c) (s_addr str)" using ni se by (simp add: IS_INTERNED_def)
    have "interned_at T' (str_bytes str) = Some p"
      using i False nic unfolding interned_result [OF inv] by (auto simp: add_bucket_at split: option.splits if_splits)
    then have "IS_INTERNED T' p" using interned_at_IS_INTERNED st(1) i by (simp add: str_bytes_def)
    then have "IS_INTERNED T p" using st(3,4) i se by (simp add: IS_INTERNED_def)
    then show ?thesis using g1 r1 by (simp add: e zend_accel_store_interned_string_def ok_def)
  qed
qed

lemma ADD_INTERNED_STRING_ok:
  assumes g: "good en T c" and r: "rel E c s" and a: "s_addr str \<notin> E" "P \<subseteq> E"
    and f: "ADD_INTERNED_STRING en str c = (str', n, c')"
  shows "ok en T P E {} c s n c' (zend_accel_store_interned_string T l str' s)"
proof (cases "IS_INTERNED (c_interned c) (s_addr str)")
  case True
  then have "IS_INTERNED T (s_addr str)" using g by (simp add: good_def IS_INTERNED_def)
  then show ?thesis using True f g r by (auto simp: ADD_INTERNED_STRING_def zend_accel_store_interned_string_def ok_refl)
next
  case False
  then have "\<not> IS_INTERNED T (s_addr str)" using g by (simp add: good_def IS_INTERNED_def)
  then show ?thesis using intern_or_dup_ok [OF g r a] f False by (simp add: ADD_INTERNED_STRING_def)
qed

section \<open>Options, lists and hash tables\<close>

lemma and_thenE:
  assumes "and_then f g c = (y, n, c2)"
  obtains x n1 c1 n2 where "f c = (x, n1, c1)" "g x c1 = (y, n2, c2)" "n = add_size n1 n2"
  using assms by (auto simp: and_then_def split: prod.splits)

lemma no_sizeE: "no_size x c = (y, n, c') \<Longrightarrow> y = x \<and> n = 0 \<and> c' = c"
  by (simp add: no_size_def)

lemma calledE:
  assumes "called f c = (x, n, c')"
  obtains k where "f c = (x, k, c')" "n = ZEND_ALIGNED_SIZE k"
  using assms by (auto simp: called_def split: prod.splits)

lemma called_ok:
  assumes "called f c = (x, n, c')" and "\<And>k. f c = (x, k, c') \<Longrightarrow> ok en T P E X c s k c' s'"
  shows "ok en T P E X c s n c' s'"
  using assms ok_aligned by (metis calledE)

lemma opt_ok:
  assumes g: "good en T c" and r: "rel E c s" and f: "opt_calc f x c = (y, n, c')"
    and el: "\<And>z w k c1. x = Some z \<Longrightarrow> f z c = (w, k, c1) \<Longrightarrow> ok en T P E (X z) c s k c1 (h w s)"
  shows "ok en T P E (case x of None \<Rightarrow> {} | Some z \<Rightarrow> X z) c s n c' (opt_do h y s)"
proof (cases x)
  case None
  then show ?thesis using f ok_refl [OF g r] by (auto simp: opt_calc_def opt_do_def dest: no_sizeE)
next
  case (Some z)
  then obtain w k where w: "f z c = (w, k, c')" "y = Some w" "n = add_size k 0"
    using f by (auto simp: opt_calc_def elim!: and_thenE dest!: no_sizeE)
  have o: "ok en T P E (X z) c s k c' (h w s)" by (rule el [OF Some w(1)])
  then have "n = k" using w(3) ok_size by simp
  then show ?thesis using o w(2) Some by (simp add: opt_do_def)
qed

lemma fresh_step: "U \<inter> X = {} \<Longrightarrow> U \<subseteq> P \<Longrightarrow> U \<inter> D = {} \<Longrightarrow> D' \<inter> P = D \<inter> P \<union> X \<Longrightarrow> U \<inter> D' = {}" for U :: "'a set"
  by blast

lemma list_ok:
  assumes "\<And>x i c s y n c'. x \<in> set xs \<Longrightarrow> good en T c \<Longrightarrow> rel E c s \<Longrightarrow> X x \<inter> dom (xlat s) = {} \<Longrightarrow>
      f x c = (y, n, c') \<Longrightarrow> ok en T P E (X x) c s n c' (h i y s)"
    and "sorted_wrt (\<lambda>x y. X x \<inter> X y = {}) xs" and "(\<Union>x \<in> set xs. X x) \<subseteq> P"
    and "good en T c" "rel E c s" "(\<Union>x \<in> set xs. X x) \<inter> dom (xlat s) = {}" "list_calc f xs c = (ys, n, c')"
  shows "ok en T P E (\<Union>x \<in> set xs. X x) c s n c' (list_do h i ys s)"
  using assms
proof (induction xs arbitrary: c s ys n i)
  case Nil
  then show ?case by (auto dest!: no_sizeE intro: ok_refl)
next
  case (Cons x xs)
  obtain y k c1 ys' j where f: "f x c = (y, k, c1)" and fs: "list_calc f xs c1 = (ys', j, c')"
    and ys: "ys = y # ys'" and n: "n = add_size k (add_size j 0)"
    using Cons.prems(7) by (auto elim!: and_thenE dest!: no_sizeE)
  have "X x \<inter> dom (xlat s) = {}" using Cons.prems(6) by auto
  then have o1: "ok en T P E (X x) c s k c1 (h i y s)"
    using Cons.prems(1) [OF _ Cons.prems(4,5) _ f, of i] by simp
  have d1: "dom (xlat (h i y s)) \<inter> P = dom (xlat s) \<inter> P \<union> X x" using o1 by (simp add: ok_def)
  have fresh: "(\<Union>x \<in> set xs. X x) \<inter> dom (xlat (h i y s)) = {}"
  proof -
    have "(\<Union>x \<in> set xs. X x) \<inter> X x = {}" using Cons.prems(2) by auto
    moreover have "(\<Union>x \<in> set xs. X x) \<subseteq> P" "(\<Union>x \<in> set xs. X x) \<inter> dom (xlat s) = {}" using Cons.prems(3,6) by auto
    ultimately show ?thesis by (rule fresh_step [OF _ _ _ d1])
  qed
  have o2: "ok en T P E (\<Union>x \<in> set xs. X x) c1 (h i y s) j c' (list_do h (Suc i) ys' (h i y s))"
  proof (rule Cons.IH [OF _ _ _ ok_good [OF o1] ok_rel [OF o1] fresh fs])
    show "sorted_wrt (\<lambda>x y. X x \<inter> X y = {}) xs" "(\<Union>x \<in> set xs. X x) \<subseteq> P" using Cons.prems(2,3) by auto
    show "ok en T P E (X x') c s n c' (h i y s)" if "x' \<in> set xs" "good en T c" "rel E c s" "X x' \<inter> dom (xlat s) = {}"
      "f x' c = (y, n, c')" for x' i c s y n c'
      using Cons.prems(1) that by simp
  qed
  have "n = add_size k j" using n ok_size [OF o2] by simp
  then show ?case using ok_trans [OF o1 o2] ys by simp
qed

lemma list_ok0:
  assumes "\<And>x i c s y n c'. x \<in> set xs \<Longrightarrow> good en T c \<Longrightarrow> rel E c s \<Longrightarrow> f x c = (y, n, c') \<Longrightarrow> ok en T P E {} c s n c' (h i y s)"
    and "good en T c" "rel E c s" "list_calc f xs c = (ys, n, c')"
  shows "ok en T P E {} c s n c' (list_do h i ys s)"
proof -
  have "sorted_wrt (\<lambda>x y. {} = {}) xs" by (simp add: sorted_wrt_iff_nth_less)
  then show ?thesis using list_ok [where X = "\<lambda>_. {}", of xs en T E f P h c s ys n c' i] assms by simp
qed

text \<open>The addresses of a hash table and the addresses of its keys.\<close>

definition opt_set :: "cstr option \<Rightarrow> nat set" where
  "opt_set x = (case x of None \<Rightarrow> {} | Some s \<Rightarrow> {s_addr s})"

definition b_addrs :: "'e bucket \<Rightarrow> nat set" where
  "b_addrs b = insert (b_addr b) (opt_set (b_key b) \<union> set_option (b_data b))"

definition ht_addrs :: "('e \<Rightarrow> nat set) \<Rightarrow> 'e htable \<Rightarrow> nat set" where
  "ht_addrs el ht = insert (ht_ar ht) (\<Union>b \<in> set (ht_list ht). b_addrs b \<union> el (b_el b))"

definition ht_keys :: "('e \<Rightarrow> nat set) \<Rightarrow> 'e htable \<Rightarrow> nat set" where
  "ht_keys el ht = (\<Union>b \<in> set (ht_list ht). opt_set (b_key b) \<union> el (b_el b))"

lemma unit_calc: "zend_shared_memdup_size a sz () c = (x, n, c') \<Longrightarrow> zend_shared_memdup_size a sz () c = ((), n, c')"
  by simp

lemma bucket_ok:
  assumes g: "good en T c" and r: "rel E c s" and P: "P \<subseteq> E"
    and a: "b_addrs b \<inter> E = {}" and ni: "\<And>k. b_key b = Some k \<Longrightarrow> \<not> IS_INTERNED T (s_addr k)"
    and fresh: "X \<subseteq> P" "X \<inter> dom (xlat s) = {}"
    and el: "\<And>l c s e n c'. good en T c \<Longrightarrow> rel E c s \<Longrightarrow> X \<inter> dom (xlat s) = {} \<Longrightarrow> ec (b_el b) c = (e, n, c') \<Longrightarrow>
        ok en T P E X c s n c' (ep l e s)"
    and f: "bucket_calc en ec el_size b c = (b', n, c')"
  shows "ok en T P E X c s n c' (persist_bucket en T ep el_size b' s)"
proof -
  have ab: "b_addr b \<notin> E" using a by (auto simp: b_addrs_def)
  obtain n1 c1 k n2 c2 n3 c3 e n4 where
    1: "zend_shared_memdup_size (b_addr b) (sizeof en T_Bucket) () c = ((), n1, c1)"
    and 2: "opt_calc (intern_or_dup en) (b_key b) c1 = (k, n2, c2)"
    and 3: "(case b_data b of None \<Rightarrow> no_size () | Some d \<Rightarrow> zend_shared_memdup_size d el_size ()) c2 = ((), n3, c3)"
    and 4: "called (ec (b_el b)) c3 = (e, n4, c')"
    and b': "b' = Bucket (b_addr b) k (b_data b) e"
    and n: "n = add_size n1 (add_size n2 (add_size n3 (add_size n4 0)))"
    using f unfolding bucket_calc_def by (auto elim!: and_thenE dest!: no_sizeE)
  define p where "p = fst (zend_shared_memdup (b_addr b) (sizeof en T_Bucket) s)"
  define s1 where "s1 = snd (zend_shared_memdup (b_addr b) (sizeof en T_Bucket) s)"
  define s2 where "s2 = opt_do (\<lambda>k. zend_accel_store_interned_string T (ptr p ''arKey'') k) k s1"
  define s3 where "s3 = (case b_data b of Some d \<Rightarrow> zend_accel_store (ptr p ''pData'') d el_size s2 | None \<Rightarrow> put (ptr p ''pData'') p s2)"
  define l where "l = (case b_data b of Some d \<Rightarrow> (fld (ptr p ''pData'') s3, []) | None \<Rightarrow> ptr p ''pDataPtr'')"
  have o1: "ok en T P E {} c s n1 c1 s1" using dup_ok(2) [OF g r ab P 1] by (simp add: s1_def)
  have "ok en T P E (case b_key b of None \<Rightarrow> {} | Some _ \<Rightarrow> {}) c1 s1 n2 c2 s2" unfolding s2_def
  proof (rule opt_ok [OF ok_good [OF o1] ok_rel [OF o1] 2])
    fix z w j c4
    assume z: "b_key b = Some z" and w: "intern_or_dup en z c1 = (w, j, c4)"
    have "s_addr z \<notin> E" using a z by (auto simp: b_addrs_def opt_set_def)
    then show "ok en T P E {} c1 s1 j c4 (zend_accel_store_interned_string T (ptr p ''arKey'') w s1)"
      by (rule intern_or_dup_ok [OF ok_good [OF o1] ok_rel [OF o1] _ P ni [OF z] w])
  qed
  then have o2: "ok en T P E {} c1 s1 n2 c2 s2" by (cases "b_key b") simp_all
  have o3: "ok en T P E {} c2 s2 n3 c3 s3"
  proof (cases "b_data b")
    case None
    then show ?thesis using 3 ok_refl [OF ok_good [OF o2] ok_rel [OF o2]] by (auto simp: s3_def ok_put dest!: no_sizeE)
  next
    case (Some d)
    then have "d \<notin> E" using a by (auto simp: b_addrs_def)
    then show ?thesis using 3 Some store_ok [OF ok_good [OF o2] ok_rel [OF o2] _ P] by (simp add: s3_def)
  qed
  have o13: "ok en T P E {} c s (add_size n1 (add_size n2 n3)) c3 s3" by (rule ok_then [OF o1 ok_then [OF o2 o3]])
  have "dom (xlat s3) \<inter> P = dom (xlat s) \<inter> P \<union> {}" using o13 by (simp add: ok_def)
  then have "X \<inter> dom (xlat s3) = {}" by (rule fresh_step [OF Int_empty_right fresh])
  then have o4: "ok en T P E X c3 s3 n4 c' (ep l e s3)"
    by (intro called_ok [OF 4] el [OF ok_good [OF o3] ok_rel [OF o3]])
  have "persist_bucket en T ep el_size b' s
      = link_back p ''pListNext'' ''pListLast'' (link_back p ''pListLast'' ''pListNext''
           (link_back p ''pNext'' ''pLast'' (link_back p ''pLast'' ''pNext'' (ep l e s3))))"
    unfolding persist_bucket_def b' Let_def l_def s3_def s2_def s1_def p_def bucket.sel ..
  then have "silent (ep l e s3) (persist_bucket en T ep el_size b' s)" by simp
  with o4 have "ok en T P E X c3 s3 n4 c' (persist_bucket en T ep el_size b' s)" by (rule ok_later)
  moreover have "n = add_size (add_size n1 (add_size n2 n3)) n4" using n ok_size [OF o4] by (simp add: add_size_def mod_simps add.assoc)
  ultimately show ?thesis using ok_then [OF o13] by simp
qed

definition keys_plain :: "interned_strings \<Rightarrow> nat set \<Rightarrow> bool" where
  "keys_plain T K \<longleftrightarrow> (\<forall>a \<in> K. \<not> IS_INTERNED T a)"

lemma hash_ok:
  assumes g: "good en T c" and r: "rel E c s" and P: "P \<subseteq> E"
    and a: "ht_addrs (\<lambda>_. {}) ht \<inter> E = {}" and ni: "keys_plain T (ht_keys (\<lambda>_. {}) ht)"
    and dis: "sorted_wrt (\<lambda>b b'. X (b_el b) \<inter> X (b_el b') = {}) (ht_list ht)"
    and sub: "(\<Union>b \<in> set (ht_list ht). X (b_el b)) \<subseteq> P"
    and fresh: "(\<Union>b \<in> set (ht_list ht). X (b_el b)) \<inter> dom (xlat s) = {}"
    and el: "\<And>b l c s e n c'. b \<in> set (ht_list ht) \<Longrightarrow> good en T c \<Longrightarrow> rel E c s \<Longrightarrow> X (b_el b) \<inter> dom (xlat s) = {} \<Longrightarrow>
        ec (b_el b) c = (e, n, c') \<Longrightarrow> ok en T P E (X (b_el b)) c s n c' (ep l e s)"
    and f: "zend_hash_persist_calc en ec el_size ht c = (ht', n, c')"
  shows "ok en T P E (\<Union>b \<in> set (ht_list ht). X (b_el b)) c s n c' (zend_hash_persist en T l ep el_size ht' s)"
proof -
  let ?X = "\<Union>b \<in> set (ht_list ht). X (b_el b)"
  obtain bs n1 c1 n2 where 1: "list_calc (bucket_calc en ec el_size) (ht_list ht) c = (bs, n1, c1)"
    and 2: "(if ht_init ht then zend_shared_memdup_size (ht_ar ht) (sizeof en T_pointer * ht_size ht) () else no_size ()) c1 = ((), n2, c')"
    and ht': "ht' = Htable bs (ht_init ht) (ht_size ht) (ht_ar ht)" and n: "n = add_size n1 (add_size n2 0)"
    using f unfolding zend_hash_persist_calc_def by (auto elim!: and_thenE dest!: no_sizeE)
  define s1 where "s1 = list_do (\<lambda>_. persist_bucket en T ep el_size) 0 bs s"
  have o1: "ok en T P E ?X c s n1 c1 s1" unfolding s1_def
  proof (rule list_ok [where X = "\<lambda>b. X (b_el b)", OF _ dis sub g r fresh 1])
    fix b i c s y n c'
    assume b: "b \<in> set (ht_list ht)" and st: "good en T c" "rel E c s" "X (b_el b) \<inter> dom (xlat s) = {}"
      and y: "bucket_calc en ec el_size b c = (y, n, c')"
    show "ok en T P E (X (b_el b)) c s n c' (persist_bucket en T ep el_size y s)"
    proof (rule bucket_ok [OF st(1,2) P _ _ _ st(3) _ y])
      show "b_addrs b \<inter> E = {}" using a b by (auto simp: ht_addrs_def)
      show "\<not> IS_INTERNED T (s_addr k)" if "b_key b = Some k" for k
        using ni b that by (auto simp: keys_plain_def ht_keys_def opt_set_def)
      show "X (b_el b) \<subseteq> P" using sub b by auto
    qed (rule el [OF b])
  qed
  define s2 where "s2 = translate (sub l ''pInternalPointer'') (translate (sub l ''pListTail'') (translate (sub l ''pListHead'') s1))"
  have o2: "ok en T P E ?X c s n1 c1 s2" unfolding s2_def by (rule ok_later [OF o1]) simp
  define s3 where "s3 = (if bs \<noteq> [] then list_do (\<lambda>i _. translate (ht_ar ht, [I i])) 0 (replicate (ht_size ht) ()) s2 else s2)"
  have "silent s2 s3" unfolding s3_def by (simp add: silent_list_do)
  with o2 have o3: "ok en T P E ?X c s n1 c1 s3" by (rule ok_later)
  have arE: "ht_ar ht \<notin> E" using a by (auto simp: ht_addrs_def)
  have e: "zend_hash_persist en T l ep el_size ht' s = (if ht_init ht
      then zend_accel_store (sub l ''arBuckets'') (ht_ar ht) (sizeof en T_pointer * ht_size ht) s3
      else put (sub l ''arBuckets'') (uninitialized_bucket en) s2)"
    unfolding zend_hash_persist_def ht' Let_def s3_def s2_def s1_def by simp
  show ?thesis
  proof (cases "ht_init ht")
    case True
    have o4: "ok en T P E {} c1 s3 n2 c' (zend_accel_store (sub l ''arBuckets'') (ht_ar ht) (sizeof en T_pointer * ht_size ht) s3)"
      using 2 True store_ok [OF ok_good [OF o3] ok_rel [OF o3] arE P] by simp
    have "n = add_size n1 n2" using n ok_size [OF o4] by simp
    then show ?thesis using ok_trans [OF o3 o4] by (simp add: e True)
  next
    case False
    then have "n2 = 0" "c' = c1" using 2 by (auto dest!: no_sizeE)
    then have "n = n1" using n ok_size [OF o1] by (simp add: add_size_def)
    then show ?thesis using o2 False \<open>c' = c1\<close> by (simp add: e ok_put)
  qed
qed

lemma hash_ok0:
  assumes "good en T c" "rel E c s" "P \<subseteq> E" "ht_addrs (\<lambda>_. {}) ht \<inter> E = {}" "keys_plain T (ht_keys (\<lambda>_. {}) ht)"
    and "\<And>b l c s e n c'. b \<in> set (ht_list ht) \<Longrightarrow> good en T c \<Longrightarrow> rel E c s \<Longrightarrow> ec (b_el b) c = (e, n, c') \<Longrightarrow> ok en T P E {} c s n c' (ep l e s)"
    and "zend_hash_persist_calc en ec el_size ht c = (ht', n, c')"
  shows "ok en T P E {} c s n c' (zend_hash_persist en T l ep el_size ht' s)"
proof -
  have "sorted_wrt (\<lambda>b b'. {} = {}) (ht_list ht)" by (simp add: sorted_wrt_iff_nth_less)
  then show ?thesis using hash_ok [where X = "\<lambda>_. {}", of en T c E s P ht ec ep el_size ht' n c' l] assms by simp
qed

section \<open>Values\<close>

lemma ht_addrs_cong [fundef_cong]:
  "ht = ht' \<Longrightarrow> (\<And>b. b \<in> set (ht_list ht') \<Longrightarrow> el (b_el b) = el' (b_el b)) \<Longrightarrow> ht_addrs el ht = ht_addrs el' ht'"
  by (simp add: ht_addrs_def)

lemma ht_keys_cong [fundef_cong]:
  "ht = ht' \<Longrightarrow> (\<And>b. b \<in> set (ht_list ht') \<Longrightarrow> el (b_el b) = el' (b_el b)) \<Longrightarrow> ht_keys el ht = ht_keys el' ht'"
  by (simp add: ht_keys_def)

function zv_addrs :: "pzval \<Rightarrow> nat set" where
  "zv_addrs PScalar = {}"
| "zv_addrs (PString s) = {s_addr s}"
| "zv_addrs (PArray h ht) = insert h (ht_addrs (\<lambda>p. insert (fst p) (zv_addrs (snd p))) ht)"
  by pat_completeness auto
termination by (relation "measure size") (simp_all add: size_ht_list del: pzval.size)

function zv_keys :: "pzval \<Rightarrow> nat set" where
  "zv_keys PScalar = {}"
| "zv_keys (PString s) = {}"
| "zv_keys (PArray h ht) = ht_keys (\<lambda>p. zv_keys (snd p)) ht"
  by pat_completeness auto
termination by (relation "measure size") (simp_all add: size_ht_list del: pzval.size)

definition zp_addrs :: "pzval_ptr \<Rightarrow> nat set" where
  "zp_addrs p = insert (fst p) (zv_addrs (snd p))"

definition zp_keys :: "pzval_ptr \<Rightarrow> nat set" where
  "zp_keys p = zv_keys (snd p)"

lemma ht_split:
  "ht_addrs el ht \<inter> E = {} \<longleftrightarrow> ht_addrs (\<lambda>_. {}) ht \<inter> E = {} \<and> (\<forall>b \<in> set (ht_list ht). el (b_el b) \<inter> E = {})"
  "keys_plain T (ht_keys kl ht) \<longleftrightarrow> keys_plain T (ht_keys (\<lambda>_. {}) ht) \<and> (\<forall>b \<in> set (ht_list ht). keys_plain T (kl (b_el b)))"
  by (auto simp: ht_addrs_def ht_keys_def keys_plain_def)

text \<open>A block guarded by the look-up of its own address.\<close>

lemma unless_done_ok:
  assumes g: "good en T c" and r: "rel E c s" and a: "a \<notin> E" and f: "unless_done a x h c = (y, n, c')"
    and new: "xlat s a = None \<Longrightarrow> h c = (y, n, c') \<Longrightarrow> ok en T P E {} c s n c' s'"
    and hit: "\<And>p. xlat s a = Some p \<Longrightarrow> silent s s'"
  shows "ok en T P E {} c s n c' s'"
proof (cases "xlat s a")
  case None
  then have "c_xlat c a = None" using r a by (auto simp: rel_def domIff)
  then show ?thesis using new None f by (simp add: unless_done_def)
next
  case (Some p)
  then have "c_xlat c a \<noteq> None" using r a unfolding rel_def by (metis DiffD1 DiffI domI domIff)
  then have "n = 0" "c' = c" using f by (auto simp: unless_done_def split: if_splits)
  then show ?thesis using ok_later [OF ok_refl [OF g r] hit [OF Some]] by simp
qed

lemma zval_ptr_ok:
  assumes g: "good en T c" and r: "rel E c s" and a: "fst p \<notin> E" "P \<subseteq> E"
    and el: "\<And>l c s z n c'. good en T c \<Longrightarrow> rel E c s \<Longrightarrow> fc c = (z, n, c') \<Longrightarrow> ok en T P E {} c s n c' (fp z l s)"
    and f: "zval_ptr_calc en fc p c = (p', n, c')"
  shows "ok en T P E {} c s n c' (persist_zval_ptr en (\<lambda>l s. fp (snd p') l s) l p' s)"
proof (rule unless_done_ok [OF g r a(1) f [unfolded zval_ptr_calc_def]])
  assume n: "xlat s (fst p) = None"
    and "and_then (zend_shared_memdup_size (fst p) (sizeof en T_zval) ()) (\<lambda>_. and_then (called fc) (\<lambda>z. no_size (fst p, z))) c = (p', n, c')"
  then obtain n1 c1 z n2 where 1: "zend_shared_memdup_size (fst p) (sizeof en T_zval) () c = ((), n1, c1)"
    and 2: "called fc c1 = (z, n2, c')" and p': "p' = (fst p, z)" and nn: "n = add_size n1 (add_size n2 0)"
    by (auto elim!: and_thenE dest!: no_sizeE)
  define s1 where "s1 = zend_accel_store l (fst p) (sizeof en T_zval) s"
  have o1: "ok en T P E {} c s n1 c1 s1" unfolding s1_def by (rule store_ok [OF g r a 1])
  have o2: "ok en T P E {} c1 s1 n2 c' (fp z (fld l s1, []) s1)"
    by (rule called_ok [OF 2]) (rule el [OF ok_good [OF o1] ok_rel [OF o1]])
  have "n = add_size n1 n2" using nn ok_size [OF o2] by simp
  then show "ok en T P E {} c s n c' (persist_zval_ptr en (\<lambda>l s. fp (snd p') l s) l p' s)"
    using ok_then [OF o1 o2] n by (simp add: persist_zval_ptr_def p' Let_def s1_def)
next
  fix q
  assume q: "xlat s (fst p) = Some q"
  have "fst p' = fst p" using f by (auto simp: zval_ptr_calc_def unless_done_def split: if_splits elim!: and_thenE dest!: no_sizeE)
  then show "silent s (persist_zval_ptr en (\<lambda>l s. fp (snd p') l s) l p' s)" using q by (simp add: persist_zval_ptr_def)
qed

lemma zval_ok:
  assumes "good en T c" "rel E c s" "P \<subseteq> E" "zv_addrs z \<inter> E = {}" "keys_plain T (zv_keys z)"
    and "zend_persist_zval_calc en z c = (z', n, c')"
  shows "ok en T P E {} c s n c' (zend_persist_zval en T l z' s)"
  using assms
proof (induction en z arbitrary: c s z' n c' l rule: zend_persist_zval_calc.induct)
  case (1 en)
  then show ?case by (auto dest!: no_sizeE intro: ok_refl)
next
  case (2 en str)
  obtain str' k where a: "ADD_INTERNED_STRING en str c = (str', k, c')" and z: "z' = PString str'" "n = add_size k 0"
    using "2.prems"(6) by (auto elim!: and_thenE dest!: no_sizeE)
  have "ok en T P E {} c s k c' (zend_accel_store_interned_string T (sub l ''value'') str' s)"
    by (rule ADD_INTERNED_STRING_ok [OF "2.prems"(1,2) _ "2.prems"(3) a]) (use "2.prems"(4) in simp)
  then show ?case using ok_size by (auto simp: z)
next
  case (3 en h ht)
  let ?ec = "\<lambda>p. zval_ptr_calc en (zend_persist_zval_calc en (snd p)) p"
  let ?ep = "\<lambda>l' p. persist_zval_ptr en (\<lambda>l'' m'. zend_persist_zval en T l'' (snd p) m') l' p"
  obtain n1 c1 ht' n2 where 1: "zend_shared_memdup_size h (sizeof en T_HashTable) () c = ((), n1, c1)"
    and 2: "called (zend_hash_persist_calc en ?ec (sizeof en T_pointer) ht) c1 = (ht', n2, c')"
    and z': "z' = PArray h ht'" and n: "n = add_size n1 (add_size n2 0)"
    using "3.prems"(6) by (auto elim!: and_thenE dest!: no_sizeE)
  define s1 where "s1 = zend_accel_store (sub l ''value'') h (sizeof en T_HashTable) s"
  have o1: "ok en T P E {} c s n1 c1 s1" unfolding s1_def
    by (rule store_ok [OF "3.prems"(1,2) _ "3.prems"(3) 1]) (use "3.prems"(4) in simp)
  have a: "ht_addrs (\<lambda>_. {}) ht \<inter> E = {}" "\<forall>b \<in> set (ht_list ht). insert (fst (b_el b)) (zv_addrs (snd (b_el b))) \<inter> E = {}"
    using "3.prems"(4) ht_split(1) [of "\<lambda>p. insert (fst p) (zv_addrs (snd p))" ht E] by simp_all
  have k: "keys_plain T (ht_keys (\<lambda>_. {}) ht)" "\<forall>b \<in> set (ht_list ht). keys_plain T (zv_keys (snd (b_el b)))"
    using "3.prems"(5) ht_split(2) [of T "\<lambda>p. zv_keys (snd p)" ht] by simp_all
  have o2: "ok en T P E {} c1 s1 n2 c' (zend_hash_persist en T (fld (sub l ''value'') s1, []) ?ep (sizeof en T_pointer) ht' s1)"
  proof (rule called_ok [OF 2], rule hash_ok0 [OF ok_good [OF o1] ok_rel [OF o1] "3.prems"(3) a(1) k(1)])
    fix b l c s e n c'
    assume b: "b \<in> set (ht_list ht)" and st: "good en T c" "rel E c s" and f: "?ec (b_el b) c = (e, n, c')"
    show "ok en T P E {} c s n c' (?ep l e s)"
    proof (rule zval_ptr_ok [OF st _ "3.prems"(3) _ f])
      show "fst (b_el b) \<notin> E" using a(2) b by blast
      show "ok en T P E {} c s n c' (zend_persist_zval en T l z s)"
        if "good en T c" "rel E c s" "zend_persist_zval_calc en (snd (b_el b)) c = (z, n, c')" for l c s z n c'
        by (rule "3.IH" [OF b that(1,2) "3.prems"(3) _ _ that(3)]) (use a(2) k(2) b in auto)
    qed
  qed
  have "n = add_size n1 n2" using n ok_size [OF o2] by simp
  then show ?case using ok_then [OF o1 o2] by (simp add: z' s1_def Let_def)
qed

lemma zp_ok:
  assumes "good en T c" "rel E c s" "P \<subseteq> E" "zp_addrs p \<inter> E = {}" "keys_plain T (zp_keys p)"
    and "zend_persist_zval_ptr_calc en p c = (p', n, c')"
  shows "ok en T P E {} c s n c' (zend_persist_zval_ptr en T l p' s)"
  unfolding zend_persist_zval_ptr_def
proof (rule zval_ptr_ok [OF assms(1,2) _ assms(3) _ assms(6) [unfolded zend_persist_zval_ptr_calc_def]])
  show "fst p \<notin> E" using assms(4) by (simp add: zp_addrs_def)
  show "ok en T P E {} c s n c' (zend_persist_zval en T l z s)"
    if "good en T c" "rel E c s" "zend_persist_zval_calc en (snd p) c = (z, n, c')" for l c s z n c'
    by (rule zval_ok [OF that(1,2) assms(3) _ _ that(3)]) (use assms(4,5) in \<open>auto simp: zp_addrs_def zp_keys_def\<close>)
qed

section \<open>Op arrays\<close>

lemma opt_ok0:
  assumes "good en T c" "rel E c s" "opt_calc f x c = (y, n, c')"
    and "\<And>z w k c1. x = Some z \<Longrightarrow> f z c = (w, k, c1) \<Longrightarrow> ok en T P E {} c s k c1 (h w s)"
  shows "ok en T P E {} c s n c' (opt_do h y s)"
  using opt_ok [where X = "\<lambda>_. {}" and h = h and f = f and x = x, OF assms(1-3)] assms(4) by (cases x) simp_all

lemma str_ok:
  assumes "good en T c" "rel E c s" "P \<subseteq> E" "opt_set x \<inter> E = {}" "opt_calc dup_str x c = (y, n, c')"
  shows "y = x" and "ok en T P E {} c s n c' (opt_do (store_str l) x s)"
proof -
  show y: "y = x" using assms(5)
    by (cases x) (auto simp: opt_calc_def dup_str_def zend_shared_memdup_size_def elim!: and_thenE dest!: no_sizeE split: option.splits)
  have "ok en T P E {} c s n c' (opt_do (store_str l) y s)"
  proof (rule opt_ok0 [OF assms(1,2,5)])
    fix z w k c1
    assume z: "x = Some z" and w: "dup_str z c = (w, k, c1)"
    have "s_addr z \<notin> E" using assms(4) z by (simp add: opt_set_def)
    note o = store_ok [OF assms(1,2) this assms(3) w [unfolded dup_str_def], of l]
    have "w = z" using dup_ok(1) [OF assms(1,2) \<open>s_addr z \<notin> E\<close> assms(3) w [unfolded dup_str_def]] .
    then show "ok en T P E {} c s k c1 (store_str l w s)" using o by (simp add: store_str_def)
  qed
  then show "ok en T P E {} c s n c' (opt_do (store_str l) x s)" by (simp add: y)
qed

lemma array_ok:
  assumes "good en T c" "rel E c s" "P \<subseteq> E" "\<And>p. x = Some p \<Longrightarrow> fst p \<notin> E" "opt_calc (array_calc en t) x c = (y, n, c')"
  shows "ok en T P E {} c s n c' (opt_do (store_array en t l) x s)"
proof -
  have y: "y = x" using assms(5)
    by (cases x) (auto simp: opt_calc_def array_calc_def zend_shared_memdup_size_def elim!: and_thenE dest!: no_sizeE split: option.splits)
  have "ok en T P E {} c s n c' (opt_do (store_array en t l) y s)"
  proof (rule opt_ok0 [OF assms(1,2,5)])
    fix z w k c1
    assume z: "x = Some z" and w: "array_calc en t z c = (w, k, c1)"
    note o = dup_ok(1) [OF assms(1,2) assms(4) [OF z] assms(3) w [unfolded array_calc_def]]
      store_ok [OF assms(1,2) assms(4) [OF z] assms(3) w [unfolded array_calc_def], of l]
    show "ok en T P E {} c s k c1 (store_array en t l w s)" using o by (simp add: store_array_def)
  qed
  then show ?thesis by (simp add: y)
qed

definition doc_apart :: "penv \<Rightarrow> nat set \<Rightarrow> nat set \<Rightarrow> cstr option \<Rightarrow> bool" where
  "doc_apart en P E d \<longleftrightarrow> (if save_comments en then opt_set d \<inter> E = {} else opt_set d \<subseteq> E - P)"

lemma doc_ok:
  assumes g: "good en T c" and r: "rel E c s" and P: "P \<subseteq> E" and d: "doc_apart en P E d" and f: "doc_calc en d c = (d', n, c')"
  shows "ok en T P E {} c s n c' (opt_do (persist_doc en l) d s)"
proof (cases "save_comments en")
  case True
  then have o: "opt_set d \<inter> E = {}" and f: "opt_calc dup_str d c = (d', n, c')" using d f by (simp_all add: doc_apart_def doc_calc_def)
  have "opt_do (persist_doc en l) d s = opt_do (store_str (sub l ''doc_comment'')) d s"
    using True by (cases d) (simp_all add: opt_do_def persist_doc_def)
  then show ?thesis using str_ok(2) [OF g r P o f] by simp
next
  case False
  then have e: "n = 0" "c' = c" using f by (auto simp: doc_calc_def dest!: no_sizeE)
  show ?thesis
  proof (cases d)
    case None
    then show ?thesis using ok_refl [OF g r] by (simp add: e opt_do_def)
  next
    case (Some z)
    define s1 where "s1 = (if zend_shared_alloc_get_xlat_entry (s_addr z) s = 0
         then zend_shared_alloc_register_xlat_entry (s_addr z) (s_addr z) s else s)"
    have z: "s_addr z \<in> E" "s_addr z \<notin> P" using d False Some by (auto simp: doc_apart_def opt_set_def)
    have "ok en T P E {} c s 0 c s1" unfolding ok_def
    proof (intro conjI)
      show "rel E c s1" using r z by (auto simp: rel_def s1_def zend_shared_alloc_register_xlat_entry_def)
      show "dom (xlat s1) \<inter> P = dom (xlat s) \<inter> P \<union> {}" "dom (xlat s) \<subseteq> dom (xlat s1)"
        using z by (auto simp: s1_def zend_shared_alloc_register_xlat_entry_def)
      show "moved s s1 0" by (simp add: moved_def s1_def zend_shared_alloc_register_xlat_entry_def)
    qed (use g in simp_all)
    then show ?thesis using Some False by (simp add: e opt_do_def persist_doc_def s1_def ok_put)
  qed
qed

definition lits_addrs :: "nat \<times> pzval list \<Rightarrow> nat set" where
  "lits_addrs p = insert (fst p) (\<Union>z \<in> set (snd p). zv_addrs z)"

lemma list_calc_length: "list_calc f xs c = (ys, n, c') \<Longrightarrow> length ys = length xs"
  by (induction xs arbitrary: ys n c) (auto elim!: and_thenE dest!: no_sizeE)

text \<open>An array that is copied once, with work on its elements.\<close>

lemma table_ok:
  assumes g: "good en T c" and r: "rel E c s" and P: "P \<subseteq> E" and a: "a \<notin> E" and pa: "fst p = a"
    and f: "unless_done a p (and_then (zend_shared_memdup_size a sz ()) (\<lambda>_. and_then (list_calc fe xs) (\<lambda>ys. no_size (a, ys)))) c = (p', n, c')"
    and el: "\<And>x q i c s y n c'. x \<in> set xs \<Longrightarrow> good en T c \<Longrightarrow> rel E c s \<Longrightarrow> fe x c = (y, n, c') \<Longrightarrow> ok en T P E {} c s n c' (h q i y s)"
    and xs: "snd p = xs"
  shows "fst p' = a" "length (snd p') = length xs"
    "ok en T P E {} c s n c' (case xlat s a of Some q \<Rightarrow> put l q s
       | None \<Rightarrow> (let m1 = zend_accel_store l a sz s in list_do (h (fld l m1)) 0 (snd p') m1))"
proof -
  show "fst p' = a" "length (snd p') = length xs" using f xs pa
    by (auto simp: unless_done_def split: if_splits elim!: and_thenE dest!: no_sizeE list_calc_length)
  show "ok en T P E {} c s n c' (case xlat s a of Some q \<Rightarrow> put l q s
       | None \<Rightarrow> (let m1 = zend_accel_store l a sz s in list_do (h (fld l m1)) 0 (snd p') m1))"
  proof (rule unless_done_ok [OF g r a f])
    assume none: "xlat s a = None"
      and "and_then (zend_shared_memdup_size a sz ()) (\<lambda>_. and_then (list_calc fe xs) (\<lambda>ys. no_size (a, ys))) c = (p', n, c')"
    then obtain n1 c1 ys n2 where 1: "zend_shared_memdup_size a sz () c = ((), n1, c1)"
      and 2: "list_calc fe xs c1 = (ys, n2, c')" and pp: "p' = (a, ys)" and nn: "n = add_size n1 (add_size n2 0)"
      by (auto elim!: and_thenE dest!: no_sizeE)
    define s1 where "s1 = zend_accel_store l a sz s"
    have o1: "ok en T P E {} c s n1 c1 s1" unfolding s1_def by (rule store_ok [OF g r a P 1])
    have o2: "ok en T P E {} c1 s1 n2 c' (list_do (h (fld l s1)) 0 ys s1)"
      by (rule list_ok0 [OF el ok_good [OF o1] ok_rel [OF o1] 2])
    have "n = add_size n1 n2" using nn ok_size [OF o2] by simp
    then show "ok en T P E {} c s n c' (case xlat s a of Some q \<Rightarrow> put l q s
       | None \<Rightarrow> (let m1 = zend_accel_store l a sz s in list_do (h (fld l m1)) 0 (snd p') m1))"
      using ok_then [OF o1 o2] none by (simp add: pp Let_def s1_def)
  next
    fix q
    assume "xlat s a = Some q"
    then show "silent s (case xlat s a of Some q \<Rightarrow> put l q s
       | None \<Rightarrow> (let m1 = zend_accel_store l a sz s in list_do (h (fld l m1)) 0 (snd p') m1))" by simp
  qed
qed

lemma literals_ok:
  assumes g: "good en T c" and r: "rel E c s" and P: "P \<subseteq> E" and a: "lits_addrs p \<inter> E = {}"
    and k: "\<And>z. z \<in> set (snd p) \<Longrightarrow> keys_plain T (zv_keys z)" and f: "literals_calc en p c = (p', n, c')"
  shows "ok en T P E {} c s n c' (snd (persist_literals en T l p' s))"
proof -
  let ?h = "\<lambda>q i z m'. zend_protect_zval (q, [I i]) (zend_persist_zval en T (q, [I i]) z m')"
  have ap: "fst p \<notin> E" using a by (simp add: lits_addrs_def)
  have el: "ok en T P E {} c s n c' (?h q i y s)" if z: "z \<in> set (snd p)" and st: "good en T c" "rel E c s"
    and y: "called (zend_persist_zval_calc en z) c = (y, n, c')" for z q i c s y n c'
  proof -
    have az: "zv_addrs z \<inter> E = {}" using a z by (auto simp: lits_addrs_def)
    have "ok en T P E {} c s n c' (zend_persist_zval en T (q, [I i]) y s)"
      by (rule called_ok [OF y]) (rule zval_ok [OF st P az k [OF z]])
    then show ?thesis by (rule ok_later) simp
  qed
  note t = table_ok [OF g r P ap refl f [unfolded literals_calc_def], of ?h, OF el refl]
  have "snd (persist_literals en T l p' s) = (case xlat s (fst p) of Some q \<Rightarrow> put (sub l ''literals'') q s
       | None \<Rightarrow> (let m1 = zend_accel_store (sub l ''literals'') (fst p) (sizeof en T_literal * length (snd p)) s
           in list_do (?h (fld (sub l ''literals'') m1)) 0 (snd p') m1))"
    using t(1,2) by (auto simp: persist_literals_def Let_def split: option.splits)
  then show ?thesis using t(3) by simp
qed

definition arg_addrs :: "nat \<times> parg_info list \<Rightarrow> nat set" where
  "arg_addrs p = insert (fst p) (\<Union>a \<in> set (snd p). opt_set (ai_name a) \<union> opt_set (ai_class_name a))"

lemma opt_interned_ok:
  assumes "good en T c" "rel E c s" "P \<subseteq> E" "opt_set x \<inter> E = {}" "opt_calc (ADD_INTERNED_STRING en) x c = (y, n, c')"
  shows "ok en T P E {} c s n c' (opt_do (zend_accel_store_interned_string T l) y s)"
proof (rule opt_ok0 [OF assms(1,2,5)])
  fix z w k c1
  assume z: "x = Some z" and w: "ADD_INTERNED_STRING en z c = (w, k, c1)"
  show "ok en T P E {} c s k c1 (zend_accel_store_interned_string T l w s)"
    by (rule ADD_INTERNED_STRING_ok [OF assms(1,2) _ assms(3) w]) (use assms(4) z in \<open>simp add: opt_set_def\<close>)
qed

lemma arg_infos_ok:
  assumes g: "good en T c" and r: "rel E c s" and P: "P \<subseteq> E" and a: "arg_addrs p \<inter> E = {}"
    and f: "arg_infos_calc en p c = (p', n, c')"
  shows "ok en T P E {} c s n c' (persist_arg_infos en T l p' s)"
proof -
  let ?h = "\<lambda>q i ai m'. opt_do (zend_accel_store_interned_string T (q, [I i, F ''class_name''])) (ai_class_name ai)
                     (opt_do (zend_accel_store_interned_string T (q, [I i, F ''name''])) (ai_name ai) m')"
  have ap: "fst p \<notin> E" using a by (simp add: arg_addrs_def)
  have el: "ok en T P E {} c s n c' (?h q i y s)" if z: "z \<in> set (snd p)" and st: "good en T c" "rel E c s"
    and y: "arg_info_calc en z c = (y, n, c')" for z q i c s y n c'
  proof -
    obtain nm k n1 c1 n2 where 1: "opt_calc (ADD_INTERNED_STRING en) (ai_name z) c = (nm, n1, c1)"
      and 2: "opt_calc (ADD_INTERNED_STRING en) (ai_class_name z) c1 = (k, n2, c')"
      and yy: "y = \<lparr>ai_name = nm, ai_class_name = k\<rparr>" and nn: "n = add_size n1 (add_size n2 0)"
      using y unfolding arg_info_calc_def by (auto elim!: and_thenE dest!: no_sizeE)
    have az: "opt_set (ai_name z) \<inter> E = {}" "opt_set (ai_class_name z) \<inter> E = {}" using a z by (auto simp: arg_addrs_def)
    note o1 = opt_interned_ok [OF st P az(1) 1, of "(q, [I i, F ''name''])"]
    note o2 = opt_interned_ok [OF ok_good [OF o1] ok_rel [OF o1] P az(2) 2, of "(q, [I i, F ''class_name''])"]
    have "n = add_size n1 n2" using nn ok_size [OF o2] by simp
    then show ?thesis using ok_then [OF o1 o2] by (simp add: yy)
  qed
  note t = table_ok [OF g r P ap refl f [unfolded arg_infos_calc_def], of ?h, OF el refl]
  have "persist_arg_infos en T l p' s = (case xlat s (fst p) of Some q \<Rightarrow> put (sub l ''arg_info'') q s
       | None \<Rightarrow> (let m1 = zend_accel_store (sub l ''arg_info'') (fst p) (sizeof en T_arg_info * length (snd p)) s
           in list_do (?h (fld (sub l ''arg_info'') m1)) 0 (snd p') m1))"
    using t(1,2) by (auto simp: persist_arg_infos_def Let_def split: option.splits)
  then show ?thesis using t(3) by simp
qed

definition vars_addrs :: "nat \<times> cstr list \<Rightarrow> nat set" where
  "vars_addrs p = insert (fst p) (s_addr ` set (snd p))"

lemma vars_ok:
  assumes g: "good en T c" and r: "rel E c s" and P: "P \<subseteq> E" and a: "vars_addrs p \<inter> E = {}"
    and f: "vars_calc en p c = (p', n, c')"
  shows "ok en T P E {} c s n c' (persist_vars en T l p' s)"
proof -
  let ?h = "\<lambda>q i v. zend_accel_store_interned_string T (q, [I i, F ''name'']) v"
  have ap: "fst p \<notin> E" using a by (simp add: vars_addrs_def)
  have el: "ok en T P E {} c s n c' (?h q i y s)" if z: "z \<in> set (snd p)" and st: "good en T c" "rel E c s"
    and y: "ADD_INTERNED_STRING en z c = (y, n, c')" for z q i c s y n c'
    by (rule ADD_INTERNED_STRING_ok [OF st _ P y]) (use a z in \<open>auto simp: vars_addrs_def\<close>)
  note t = table_ok [OF g r P ap refl f [unfolded vars_calc_def], of ?h, OF el refl]
  have "persist_vars en T l p' s = (case xlat s (fst p) of Some q \<Rightarrow> put (sub l ''vars'') q s
       | None \<Rightarrow> (let m1 = zend_accel_store (sub l ''vars'') (fst p) (sizeof en T_compiled_variable * length (snd p)) s
           in list_do (?h (fld (sub l ''vars'') m1)) 0 (snd p') m1))"
    using t(1,2) by (auto simp: persist_vars_def Let_def split: option.splits)
  then show ?thesis using t(3) by simp
qed

lemma opcodes_ok:
  assumes g: "good en T c" and r: "rel E c s" and P: "P \<subseteq> E" and a: "fst p \<notin> E" and f: "opcodes_calc en p c = (p', n, c')"
  shows "ok en T P E {} c s n c' (persist_opcodes en l d lits p s)"
proof (rule unless_done_ok [OF g r a f [unfolded opcodes_calc_def]])
  assume none: "xlat s (fst p) = None" and 1: "zend_shared_memdup_size (fst p) (sizeof en T_op * length (snd p)) p c = (p', n, c')"
  have o1: "ok en T P E {} c s n c' (snd (zend_shared_memdup (fst p) (sizeof en T_op * length (snd p)) s))"
    by (rule dup_ok(2) [OF g r a P 1])
  show "ok en T P E {} c s n c' (persist_opcodes en l d lits p s)"
    by (rule ok_later [OF o1]) (simp add: persist_opcodes_def none Let_def silent_list_do)
qed (simp add: persist_opcodes_def)

text \<open>Static variables are counted before their contents and copied after them.\<close>

definition static_addrs :: "nat \<times> pzval_ptr htable \<Rightarrow> nat set" where
  "static_addrs p = insert (fst p) (ht_addrs zp_addrs (snd p))"

lemma zp_hash_ok:
  assumes "good en T c" "rel E c s" "P \<subseteq> E" "ht_addrs zp_addrs ht \<inter> E = {}" "keys_plain T (ht_keys zp_keys ht)"
    and "zend_hash_persist_calc en (zend_persist_zval_ptr_calc en) k ht c = (ht', n, c')"
  shows "ok en T P E {} c s n c' (zend_hash_persist en T l (zend_persist_zval_ptr en T) k ht' s)"
proof (rule hash_ok0 [OF assms(1-3) _ _ _ assms(6)])
  show "ht_addrs (\<lambda>_. {}) ht \<inter> E = {}" "keys_plain T (ht_keys (\<lambda>_. {}) ht)"
    using assms(4,5) ht_split(1) [of zp_addrs ht E] ht_split(2) [of T zp_keys ht] by simp_all
  show "ok en T P E {} c s n c' (zend_persist_zval_ptr en T l e s)" if b: "b \<in> set (ht_list ht)" and st: "good en T c" "rel E c s"
    and f: "zend_persist_zval_ptr_calc en (b_el b) c = (e, n, c')" for b l c s e n c'
    by (rule zp_ok [OF st assms(3) _ _ f])
      (use b assms(4,5) ht_split(1) [of zp_addrs ht E] ht_split(2) [of T zp_keys ht] in simp_all)
qed

lemma static_ok:
  assumes g: "good en T c" and r: "rel E c s" and P: "P \<subseteq> E" and a: "static_addrs p \<inter> E = {}"
    and sep: "fst p \<notin> ht_addrs zp_addrs (snd p)" and k: "keys_plain T (ht_keys zp_keys (snd p))"
    and f: "static_calc en p c = (p', n, c')"
  shows "ok en T P E {} c s n c' (persist_static en T l p' s)"
proof -
  let ?a = "fst p"
  let ?E = "insert ?a E"
  let ?P = "insert ?a P"
  obtain n1 c1 ht' n2 where 1: "zend_shared_memdup_size ?a (sizeof en T_HashTable) () c = ((), n1, c1)"
    and 2: "called (zend_hash_persist_calc en (zend_persist_zval_ptr_calc en) (sizeof en T_pointer) (snd p)) c1 = (ht', n2, c')"
    and p': "p' = (?a, ht')" and nn: "n = add_size n1 (add_size n2 0)"
    using f unfolding static_calc_def by (auto elim!: and_thenE dest!: no_sizeE)
  define s1 where "s1 = zend_hash_persist en T (?a, []) (zend_persist_zval_ptr en T) (sizeof en T_pointer) ht' s"
  have aE: "?a \<notin> E" using a by (simp add: static_addrs_def)
  have o1: "ok en T P E {} c s n1 c1 (snd (zend_shared_memdup ?a (sizeof en T_HashTable) s))" by (rule dup_ok(2) [OF g r aE P 1])
  have d1: "dom (c_xlat c1) = insert ?a (dom (c_xlat c))" using 1 by (auto simp: zend_shared_memdup_size_def split: option.splits)
  have r1: "rel ?E c1 s" using r d1 unfolding rel_def by auto
  have dj: "ht_addrs zp_addrs (snd p) \<inter> ?E = {}" using a sep by (auto simp: static_addrs_def)
  have o2: "ok en T ?P ?E {} c1 s n2 c' s1" unfolding s1_def
    by (rule called_ok [OF 2]) (rule zp_hash_ok [OF ok_good [OF o1] r1 _ dj k], use P in auto)
  have s1a: "?a \<in> dom (xlat s1) \<longleftrightarrow> ?a \<in> dom (xlat s)" using o2 unfolding ok_def by blast
  have ca: "?a \<in> dom (xlat s) \<longleftrightarrow> ?a \<in> dom (c_xlat c)" using r aE unfolding rel_def by blast
  define s2 where "s2 = snd (zend_shared_memdup ?a (sizeof en T_HashTable) s1)"
  have x2: "dom (xlat s2) = insert ?a (dom (xlat s1))"
  proof (cases "xlat s1 ?a")
    case None
    then show ?thesis by (simp add: s2_def memdup_new(1))
  next
    case (Some q)
    then show ?thesis using memdup_done [of s1 ?a "sizeof en T_HashTable"] by (auto simp: s2_def)
  qed
  have m2: "moved s1 s2 n1"
  proof (cases "xlat s1 ?a")
    case None
    then have "c_xlat c ?a = None" using s1a ca by (simp add: domIff)
    then have "n1 = ZEND_ALIGNED_SIZE (sizeof en T_HashTable) mod two32" using 1 by (simp add: zend_shared_memdup_size_def)
    then show ?thesis unfolding s2_def using memdup_moved [OF None] by simp
  next
    case (Some q)
    then have "c_xlat c ?a \<noteq> None" using s1a ca by (simp add: domIff)
    then have "n1 = 0" using 1 by (auto simp: zend_shared_memdup_size_def)
    then show ?thesis unfolding s2_def using memdup_done [of s1 ?a] Some by simp
  qed
  have "ok en T P E {} c s n c' s2" unfolding ok_def
  proof (intro conjI)
    show "good en T c'" by (rule ok_good [OF o2])
    show "rel E c' s2"
    proof -
      have "dom (xlat s1) - ?E = dom (c_xlat c') - ?E" using ok_rel [OF o2] by (simp add: rel_def)
      moreover have "?a \<in> dom (c_xlat c')" using o2 d1 unfolding ok_def by blast
      ultimately show ?thesis unfolding rel_def x2 using aE by blast
    qed
    have "moved s s1 n2" using o2 by (simp add: ok_def)
    then have "moved s s2 (add_size n2 n1)" by (rule moved_trans [OF _ m2])
    moreover have "n = add_size n2 n1" using nn ok_size [OF o2] by (simp add: add_size_def add.commute)
    ultimately show "moved s s2 n" by simp
    have "?a \<notin> P" using aE P by blast
    then show "dom (xlat s2) \<inter> P = dom (xlat s) \<inter> P \<union> {}" using o2 unfolding ok_def x2 by blast
    show "dom (c_xlat c) \<subseteq> dom (c_xlat c')" using o2 d1 unfolding ok_def by blast
    show "dom (xlat s) \<subseteq> dom (xlat s2)" using o2 unfolding ok_def x2 by blast
  qed
  then show ?thesis by (simp add: persist_static_def p' s1_def s2_def zend_accel_store_def Let_def ok_put)
qed

text \<open>What a script must satisfy for its size to be exact: the addresses that are always
  looked up in the table lie apart from the others, the static variables' table is not one
  of its own blocks, and no key is interned already.\<close>

definition opt_all :: "('a \<Rightarrow> bool) \<Rightarrow> 'a option \<Rightarrow> bool" where
  "opt_all Q x \<longleftrightarrow> (case x of None \<Rightarrow> True | Some y \<Rightarrow> Q y)"

definition oa_apart :: "penv \<Rightarrow> interned_strings \<Rightarrow> nat set \<Rightarrow> nat set \<Rightarrow> pop_array \<Rightarrow> bool" where
  "oa_apart en T P E oa \<longleftrightarrow>
     opt_set (oa_filename oa) \<inter> E = {} \<and> fst (oa_opcodes oa) \<notin> E \<and> opt_set (oa_function_name oa) \<inter> E = {}
   \<and> opt_all (\<lambda>p. lits_addrs p \<inter> E = {} \<and> (\<forall>z \<in> set (snd p). keys_plain T (zv_keys z))) (oa_literals oa)
   \<and> opt_all (\<lambda>p. arg_addrs p \<inter> E = {}) (oa_arg_info oa)
   \<and> opt_all (\<lambda>p. fst p \<notin> E) (oa_brk_cont oa) \<and> opt_all (\<lambda>p. fst p \<notin> E) (oa_try_catch oa)
   \<and> opt_all (\<lambda>p. static_addrs p \<inter> E = {} \<and> fst p \<notin> ht_addrs zp_addrs (snd p)
        \<and> keys_plain T (ht_keys zp_keys (snd p))) (oa_static oa)
   \<and> doc_apart en P E (oa_doc oa) \<and> opt_all (\<lambda>p. vars_addrs p \<inter> E = {}) (oa_vars oa)"

lemma add_size_assoc: "add_size (add_size a b) k = add_size a (add_size b k)"
  by (simp add: add_size_def mod_simps add.assoc)

lemma silent_prototype [simp]: "silent s (persist_prototype l s') = silent s s'"
  by (simp add: persist_prototype_def bump_refcount_def Let_def)

lemma opt_ok_all:
  assumes "good en T c" "rel E c s" "opt_all Q x" "opt_calc f x c = (y, n, c')"
    and "\<And>z w k c1. Q z \<Longrightarrow> f z c = (w, k, c1) \<Longrightarrow> ok en T P E {} c s k c1 (h w s)"
  shows "ok en T P E {} c s n c' (opt_do h y s)"
  by (rule opt_ok0 [OF assms(1,2,4)]) (use assms(3,5) in \<open>simp add: opt_all_def\<close>)

lemma op_array_ok:
  assumes g: "good en T c" and r: "rel E c s" and P: "P \<subseteq> E" and a: "oa_apart en T P E oa"
    and f: "zend_persist_op_array_calc en oa c = (oa', n, c')"
  shows "ok en T P E {} c s n c' (zend_persist_op_array_ex en T main l oa' s)"
proof (cases "oa_user oa")
  case False
  then show ?thesis using f ok_refl [OF g r] by (auto simp: zend_persist_op_array_calc_def zend_persist_op_array_ex_def dest!: no_sizeE)
next
  case True
  note ap = a [unfolded oa_apart_def]
  obtain x1 n1 c1 ls n2 c2 x3 n3 c3 x4 n4 c4 as n5 c5 x6 n6 c6 st n7 c7 x8 n8 c8 x9 n9 c9 vs n10 where
    1: "opt_calc dup_str (oa_filename oa) c = (x1, n1, c1)"
    and 2: "opt_calc (literals_calc en) (oa_literals oa) c1 = (ls, n2, c2)"
    and 3: "opcodes_calc en (oa_opcodes oa) c2 = (x3, n3, c3)"
    and 4: "opt_calc dup_str (oa_function_name oa) c3 = (x4, n4, c4)"
    and 5: "opt_calc (arg_infos_calc en) (oa_arg_info oa) c4 = (as, n5, c5)"
    and 6: "opt_calc (array_calc en T_brk_cont) (oa_brk_cont oa) c5 = (x6, n6, c6)"
    and 7: "opt_calc (static_calc en) (oa_static oa) c6 = (st, n7, c7)"
    and 8: "doc_calc en (oa_doc oa) c7 = (x8, n8, c8)"
    and 9: "opt_calc (array_calc en T_try_catch) (oa_try_catch oa) c8 = (x9, n9, c9)"
    and 10: "opt_calc (vars_calc en) (oa_vars oa) c9 = (vs, n10, c')"
    and oa': "oa' = oa\<lparr>oa_literals := ls, oa_arg_info := as, oa_static := st, oa_vars := vs\<rparr>"
    and nn: "n = add_size n1 (add_size n2 (add_size n3 (add_size n4 (add_size n5 (add_size n6
        (add_size n7 (add_size n8 (add_size n9 (add_size n10 0)))))))))"
    using f True unfolding zend_persist_op_array_calc_def by (auto elim!: and_thenE dest!: no_sizeE)
  define m1 where "m1 = put (sub l ''refcount'') 0 s"
  define m2 where "m2 = opt_do (store_str (sub l ''filename'')) (oa_filename oa) m1"
  define m3 where "m3 = (case main of None \<Rightarrow> m2
      | Some sl \<Rightarrow> opt_do (put (sub sl ''compiler_halt_offset'')) (halt_offset en) m2)"
  define q where "q = (case ls of None \<Rightarrow> (0, m3) | Some p \<Rightarrow> persist_literals en T l p m3)"
  define m4 where "m4 = snd q"
  define lits where "lits = (fst q, case ls of None \<Rightarrow> 0 | Some _ \<Rightarrow> fld (sub l ''literals'') m4)"
  define m5 where "m5 = persist_opcodes en l (oa_done_pass_two oa) lits (oa_opcodes oa) m4"
  define m6 where "m6 = opt_do (store_str (sub l ''function_name'')) (oa_function_name oa) m5"
  define m7 where "m7 = opt_do (persist_arg_infos en T l) as m6"
  define m8 where "m8 = opt_do (store_array en T_brk_cont (sub l ''brk_cont_array'')) (oa_brk_cont oa) m7"
  define m9 where "m9 = opt_do (persist_static en T l) st m8"
  define m10 where "m10 = translate (sub l ''scope'') m9"
  define m11 where "m11 = opt_do (persist_doc en l) (oa_doc oa) m10"
  define m12 where "m12 = opt_do (store_array en T_try_catch (sub l ''try_catch_array'')) (oa_try_catch oa) m11"
  define m13 where "m13 = opt_do (persist_vars en T l) vs m12"
  have r1: "rel E c m1" using r by (simp add: rel_def m1_def)
  have "ok en T P E {} c m1 n1 c1 m2" unfolding m2_def by (rule str_ok(2) [OF g r1 P _ 1]) (use ap in simp)
  then have o1: "ok en T P E {} c s n1 c1 m2" by (simp add: ok_def moved_def m1_def)
  have o1': "ok en T P E {} c s n1 c1 m3" by (rule ok_later [OF o1]) (simp add: m3_def opt_do_def split: option.splits)
  have "m4 = opt_do (\<lambda>p m. snd (persist_literals en T l p m)) ls m3" by (simp add: m4_def q_def opt_do_def split: option.splits)
  then have o2: "ok en T P E {} c1 m3 n2 c2 m4"
    by simp (rule opt_ok_all [OF ok_good [OF o1'] ok_rel [OF o1'] _ 2], use ap in blast,
      rule literals_ok [OF ok_good [OF o1'] ok_rel [OF o1'] P], auto)
  have o3: "ok en T P E {} c2 m4 n3 c3 m5" unfolding m5_def
    by (rule opcodes_ok [OF ok_good [OF o2] ok_rel [OF o2] P _ 3]) (use ap in blast)
  have o4: "ok en T P E {} c3 m5 n4 c4 m6" unfolding m6_def
    by (rule str_ok(2) [OF ok_good [OF o3] ok_rel [OF o3] P _ 4]) (use ap in blast)
  have o5: "ok en T P E {} c4 m6 n5 c5 m7" unfolding m7_def
    by (rule opt_ok_all [OF ok_good [OF o4] ok_rel [OF o4] _ 5], use ap in blast,
      rule arg_infos_ok [OF ok_good [OF o4] ok_rel [OF o4] P])
  have o6: "ok en T P E {} c5 m7 n6 c6 m8" unfolding m8_def
    by (rule array_ok [OF ok_good [OF o5] ok_rel [OF o5] P _ 6]) (use ap in \<open>auto simp: opt_all_def\<close>)
  have o7: "ok en T P E {} c6 m8 n7 c7 m9" unfolding m9_def
    by (rule opt_ok_all [OF ok_good [OF o6] ok_rel [OF o6] _ 7], use ap in blast,
      rule static_ok [OF ok_good [OF o6] ok_rel [OF o6] P], auto)
  have o7': "ok en T P E {} c6 m8 n7 c7 m10" by (rule ok_later [OF o7]) (simp add: m10_def)
  have o8: "ok en T P E {} c7 m10 n8 c8 m11" unfolding m11_def
    by (rule doc_ok [OF ok_good [OF o7'] ok_rel [OF o7'] P _ 8]) (use ap in blast)
  have o9: "ok en T P E {} c8 m11 n9 c9 m12" unfolding m12_def
    by (rule array_ok [OF ok_good [OF o8] ok_rel [OF o8] P _ 9]) (use ap in \<open>auto simp: opt_all_def\<close>)
  have o10: "ok en T P E {} c9 m12 n10 c' m13" unfolding m13_def
    by (rule opt_ok_all [OF ok_good [OF o9] ok_rel [OF o9] _ 10], use ap in blast,
      rule vars_ok [OF ok_good [OF o9] ok_rel [OF o9] P])
  have fields: "oa_user oa' = True" "oa_filename oa' = oa_filename oa" "oa_literals oa' = ls" "oa_opcodes oa' = oa_opcodes oa"
    "oa_done_pass_two oa' = oa_done_pass_two oa" "oa_function_name oa' = oa_function_name oa" "oa_arg_info oa' = as"
    "oa_brk_cont oa' = oa_brk_cont oa" "oa_static oa' = st" "oa_doc oa' = oa_doc oa" "oa_try_catch oa' = oa_try_catch oa"
    "oa_vars oa' = vs"
    using True by (simp_all add: oa')
  have e: "zend_persist_op_array_ex en T main l oa' s = persist_prototype l m13"
    unfolding zend_persist_op_array_ex_def Let_def m13_def m12_def m11_def m10_def m9_def m8_def m7_def m6_def m5_def
      lits_def m4_def q_def m3_def m2_def m1_def fields not_True_eq_False if_False ..
  have all: "ok en T P E {} c s n c' m13"
    using ok_then [OF o1' ok_then [OF o2 ok_then [OF o3 ok_then [OF o4 ok_then [OF o5 ok_then [OF o6
      ok_then [OF o7' ok_then [OF o8 ok_then [OF o9 o10]]]]]]]]] ok_size [OF o10] by (simp add: nn)
  show ?thesis unfolding e by (rule ok_later [OF all]) simp
qed

section \<open>Blocks counted without the table\<close>

definition fresh :: "nat set \<Rightarrow> nat list \<Rightarrow> pmem \<Rightarrow> bool" where
  "fresh P L s \<longleftrightarrow> distinct L \<and> set L \<subseteq> P \<and> set L \<inter> dom (xlat s) = {}"

lemma fresh_first: "fresh P (A @ B) s \<Longrightarrow> fresh P A s"
  by (auto simp: fresh_def)

lemma fresh_rest:
  assumes "fresh P (A @ B) s" "ok en T P E (set A) c s n c' s'"
  shows "fresh P B s'"
proof -
  have b: "set B \<inter> set A = {}" "set B \<subseteq> P" "set B \<inter> dom (xlat s) = {}" "distinct B" using assms(1) by (auto simp: fresh_def)
  have "dom (xlat s') \<inter> P = dom (xlat s) \<inter> P \<union> set A" using assms(2) by (simp add: ok_def)
  from fresh_step [OF b(1-3) this] show ?thesis using b by (simp add: fresh_def)
qed

lemma fresh_keep: "fresh P L s \<Longrightarrow> ok en T P E {} c s n c' s' \<Longrightarrow> fresh P L s'"
  using fresh_rest [of P "[]" L s] by simp

lemma fresh_silent: "silent s s' \<Longrightarrow> fresh P L s' = fresh P L s"
  by (simp add: fresh_def silent_def)

lemma plain1_ok:
  assumes "good en T c" "rel E c s" "P \<subseteq> E" "fresh P [a] s" "just_size sz x c = (y, n, c')"
  shows "ok en T P E (set [a]) c s n c' (zend_accel_store l a sz s)"
  using plain_ok(2) [OF assms(1,2) _ assms(3) _ assms(5), of a l] assms(4) by (simp add: fresh_def)

lemma opt_plain_ok:
  assumes g: "good en T c" and r: "rel E c s" and fr: "fresh P (case x of None \<Rightarrow> [] | Some z \<Rightarrow> L z) s"
    and f: "opt_calc f x c = (y, n, c')" and same: "\<And>z w k c1. f z c = (w, k, c1) \<Longrightarrow> w = z"
    and el: "\<And>z w k c1. x = Some z \<Longrightarrow> fresh P (L z) s \<Longrightarrow> f z c = (w, k, c1) \<Longrightarrow> ok en T P E (set (L z)) c s k c1 (h z s)"
  shows "ok en T P E (set (case x of None \<Rightarrow> [] | Some z \<Rightarrow> L z)) c s n c' (opt_do h x s)"
proof -
  have y: "y = x" using f same by (cases x) (auto simp: opt_calc_def elim!: and_thenE dest!: no_sizeE)
  have "ok en T P E (case x of None \<Rightarrow> {} | Some z \<Rightarrow> set (L z)) c s n c' (opt_do h y s)"
  proof (rule opt_ok [OF g r f])
    fix z w k c1
    assume z: "x = Some z" and w: "f z c = (w, k, c1)"
    have "w = z" by (rule same [OF w])
    then show "ok en T P E (set (L z)) c s k c1 (h w s)" using el [OF z _ w] fr z by simp
  qed
  then show ?thesis by (cases x) (simp_all add: y)
qed

definition opt_list :: "('a \<Rightarrow> nat list) \<Rightarrow> 'a option \<Rightarrow> nat list" where
  "opt_list L x = (case x of None \<Rightarrow> [] | Some z \<Rightarrow> L z)"

lemma just_sizeE: "just_size k x c = (y, n, c') \<Longrightarrow> y = x"
  by (simp add: just_size_def)

lemma opt_str_plain_ok:
  assumes "good en T c" "rel E c s" "P \<subseteq> E" "fresh P (opt_list (\<lambda>t. [s_addr t]) x) s" "opt_calc str_calc x c = (y, n, c')"
  shows "ok en T P E (set (opt_list (\<lambda>t. [s_addr t]) x)) c s n c' (opt_do (store_str l) x s)"
  unfolding opt_list_def
proof (rule opt_plain_ok [OF assms(1,2) assms(4) [unfolded opt_list_def] assms(5)])
  show "w = z" if "str_calc z c = (w, k, c1)" for z w k c1 using that just_sizeE by (auto simp: str_calc_def)
  show "ok en T P E (set [s_addr z]) c s k c1 (store_str l z s)"
    if "fresh P [s_addr z] s" "str_calc z c = (w, k, c1)" for z w k c1
    unfolding store_str_def by (rule plain1_ok [OF assms(1-3) that(1) that(2) [unfolded str_calc_def]])
qed

lemma list_plain_ok:
  assumes el: "\<And>x i c s y n c'. x \<in> set xs \<Longrightarrow> good en T c \<Longrightarrow> rel E c s \<Longrightarrow> fresh P (L x) s \<Longrightarrow> f x c = (y, n, c') \<Longrightarrow>
      y = x \<and> ok en T P E (set (L x)) c s n c' (h i x s)"
    and "good en T c" "rel E c s" "fresh P (concat (map L xs)) s" "list_calc f xs c = (ys, n, c')"
  shows "ok en T P E (set (concat (map L xs))) c s n c' (list_do h i xs s)"
  using assms
proof (induction xs arbitrary: c s ys n i)
  case Nil
  then show ?case by (auto dest!: no_sizeE intro: ok_refl)
next
  case (Cons x xs)
  obtain y k c1 ys' j where f: "f x c = (y, k, c1)" and fs: "list_calc f xs c1 = (ys', j, c')"
    and n: "n = add_size k (add_size j 0)"
    using Cons.prems(5) by (auto elim!: and_thenE dest!: no_sizeE)
  have fr: "fresh P (L x @ concat (map L xs)) s" using Cons.prems(4) by simp
  have o1: "ok en T P E (set (L x)) c s k c1 (h i x s)"
    using Cons.prems(1) [OF _ Cons.prems(2,3) fresh_first [OF fr] f] by simp
  have o2: "ok en T P E (set (concat (map L xs))) c1 (h i x s) j c' (list_do h (Suc i) xs (h i x s))"
  proof (rule Cons.IH [OF _ ok_good [OF o1] ok_rel [OF o1] fresh_rest [OF fr o1] fs])
    show "y = x' \<and> ok en T P E (set (L x')) c s n c' (h i x' s)"
      if "x' \<in> set xs" "good en T c" "rel E c s" "fresh P (L x') s" "f x' c = (y, n, c')" for x' i c s y n c'
      using Cons.prems(1) that by simp
  qed
  have "n = add_size k j" using n ok_size [OF o2] by simp
  then show ?case using ok_trans [OF o1 o2] by simp
qed

section \<open>Traits\<close>

definition tm_plain :: "ptrait_method \<Rightarrow> nat list" where
  "tm_plain t = opt_list (\<lambda>s. [s_addr s]) (tm_method t) @ opt_list (\<lambda>s. [s_addr s]) (tm_class t) @ [tm_addr t]"

lemma trait_method_ok:
  assumes g: "good en T c" and r: "rel E c s" and P: "P \<subseteq> E" and fr: "fresh P (tm_plain t) s"
    and f: "trait_method_calc en t c = (y, n, c')"
  shows "y = t" and "ok en T P E (set (tm_plain t)) c s n c' (persist_trait_method en l t s)"
proof -
  obtain x1 n1 c1 x2 n2 c2 n3 where 1: "opt_calc str_calc (tm_method t) c = (x1, n1, c1)"
    and 2: "opt_calc str_calc (tm_class t) c1 = (x2, n2, c2)"
    and 3: "just_size (sizeof en T_trait_method_reference) t c2 = (y, n3, c')" and nn: "n = add_size n1 (add_size n2 n3)"
    using f unfolding trait_method_calc_def by (auto elim!: and_thenE)
  show "y = t" by (rule just_sizeE [OF 3])
  note fr = fr [unfolded tm_plain_def]
  note o1 = opt_str_plain_ok [OF g r P fresh_first [OF fr] 1, of "ptr (tm_addr t) ''method_name''"]
  note fr2 = fresh_rest [OF fr o1]
  note o2 = opt_str_plain_ok [OF ok_good [OF o1] ok_rel [OF o1] P fresh_first [OF fr2] 2, of "ptr (tm_addr t) ''class_name''"]
  note fr3 = fresh_rest [OF fr2 o2]
  let ?s2 = "opt_do (store_str (ptr (tm_addr t) ''class_name'')) (tm_class t) (opt_do (store_str (ptr (tm_addr t) ''method_name'')) (tm_method t) s)"
  let ?s3 = "put (ptr (tm_addr t) ''ce'') 0 ?s2"
  have sl: "silent ?s2 ?s3" by simp
  note o2' = ok_later [OF o2 sl]
  note o3 = plain1_ok [OF ok_good [OF o2'] ok_rel [OF o2'] P, OF _ 3, of "tm_addr t" l]
  have "fresh P [tm_addr t] ?s3" using fr3 by (simp add: fresh_silent [OF sl])
  note o3 = o3 [OF this]
  show "ok en T P E (set (tm_plain t)) c s n c' (persist_trait_method en l t s)"
    using ok_trans [OF o1 ok_trans [OF o2' o3]] by (simp add: nn persist_trait_method_def tm_plain_def)
qed

definition ta_plain :: "ptrait_alias \<Rightarrow> nat list" where
  "ta_plain t = opt_list tm_plain (ta_method t) @ opt_list (\<lambda>s. [s_addr s]) (ta_alias t) @ [ta_addr t]"

lemma trait_alias_ok:
  assumes g: "good en T c" and r: "rel E c s" and P: "P \<subseteq> E" and fr: "fresh P (ta_plain t) s"
    and f: "trait_alias_calc en t c = (y, n, c')"
  shows "y = t \<and> ok en T P E (set (ta_plain t)) c s n c' (persist_trait_alias en l t s)"
proof -
  obtain x1 n1 c1 x2 n2 c2 n3 where 1: "opt_calc (trait_method_calc en) (ta_method t) c = (x1, n1, c1)"
    and 2: "opt_calc str_calc (ta_alias t) c1 = (x2, n2, c2)"
    and 3: "just_size (sizeof en T_trait_alias) t c2 = (y, n3, c')" and nn: "n = add_size n1 (add_size n2 n3)"
    using f unfolding trait_alias_calc_def by (auto elim!: and_thenE)
  note fr = fr [unfolded ta_plain_def]
  let ?s1 = "opt_do (persist_trait_method en (ptr (ta_addr t) ''trait_method'')) (ta_method t) s"
  have o1: "ok en T P E (set (opt_list tm_plain (ta_method t))) c s n1 c1 ?s1" unfolding opt_list_def
  proof (rule opt_plain_ok [OF g r fresh_first [OF fr, unfolded opt_list_def] 1])
    show "w = z" if "trait_method_calc en z c = (w, k, c1)" for z w k c1
      using that just_sizeE by (auto simp: trait_method_calc_def elim!: and_thenE)
  qed (rule trait_method_ok(2) [OF g r P])
  note fr2 = fresh_rest [OF fr o1]
  note o2 = opt_str_plain_ok [OF ok_good [OF o1] ok_rel [OF o1] P fresh_first [OF fr2] 2, of "ptr (ta_addr t) ''alias''"]
  note fr3 = fresh_rest [OF fr2 o2]
  note o3 = plain1_ok [OF ok_good [OF o2] ok_rel [OF o2] P fr3 3, of l]
  show ?thesis using just_sizeE [OF 3] ok_trans [OF o1 ok_trans [OF o2 o3]] by (simp add: nn persist_trait_alias_def ta_plain_def)
qed

definition ex_plain :: "nat \<times> cstr list \<Rightarrow> nat list" where
  "ex_plain p = concat (map (\<lambda>s. [s_addr s]) (snd p)) @ [fst p]"

lemma exclude_ok:
  assumes g: "good en T c" and r: "rel E c s" and P: "P \<subseteq> E" and fr: "fresh P (ex_plain p) s"
    and f: "trait_exclude_calc en p c = (y, n, c')"
  shows "ok en T P E (set (ex_plain p)) c s n c' (persist_exclude en l p s)"
proof -
  obtain x1 n1 c1 n2 where 1: "list_calc str_calc (snd p) c = (x1, n1, c1)"
    and 2: "just_size (sizeof en T_pointer * (length (snd p) + 1)) p c1 = (y, n2, c')" and nn: "n = add_size n1 n2"
    using f unfolding trait_exclude_calc_def by (auto elim!: and_thenE)
  note fr = fr [unfolded ex_plain_def]
  have o1: "ok en T P E (set (concat (map (\<lambda>s. [s_addr s]) (snd p)))) c s n1 c1 (list_do (\<lambda>j. store_str (fst p, [I j])) 0 (snd p) s)"
  proof (rule list_plain_ok [OF _ g r fresh_first [OF fr] 1])
    show "y = x \<and> ok en T P E (set [s_addr x]) c s n c' (store_str (fst p, [I i]) x s)"
      if "good en T c" "rel E c s" "fresh P [s_addr x] s" "str_calc x c = (y, n, c')" for x i c s y n c'
      using plain1_ok [OF that(1,2) P that(3) that(4) [unfolded str_calc_def]] just_sizeE [OF that(4) [unfolded str_calc_def]]
      by (simp add: store_str_def)
  qed
  note o2 = plain1_ok [OF ok_good [OF o1] ok_rel [OF o1] P fresh_rest [OF fr o1] 2, of l]
  show ?thesis using ok_trans [OF o1 o2] by (simp add: nn persist_exclude_def ex_plain_def)
qed

definition tp_plain :: "ptrait_prec \<Rightarrow> nat list" where
  "tp_plain t = [s_addr (tp_method t)] @ [s_addr (tp_class t)] @ [tp_ref t] @ opt_list ex_plain (tp_exclude t) @ [tp_addr t]"

lemma trait_prec_ok:
  assumes g: "good en T c" and r: "rel E c s" and P: "P \<subseteq> E" and fr: "fresh P (tp_plain t) s"
    and f: "trait_prec_calc en t c = (y, n, c')"
  shows "y = t \<and> ok en T P E (set (tp_plain t)) c s n c' (persist_trait_prec en l t s)"
proof -
  obtain x1 n1 c1 x2 n2 c2 n3 c3 x4 n4 c4 n5 where 1: "just_size (str_size (tp_method t)) (tp_method t) c = (x1, n1, c1)"
    and 2: "just_size (str_size (tp_class t)) (tp_class t) c1 = (x2, n2, c2)"
    and 3: "just_size (sizeof en T_trait_method_reference) () c2 = ((), n3, c3)"
    and 4: "opt_calc (trait_exclude_calc en) (tp_exclude t) c3 = (x4, n4, c4)"
    and 5: "just_size (sizeof en T_trait_precedence) t c4 = (y, n5, c')"
    and nn: "n = add_size n1 (add_size n2 (add_size n3 (add_size n4 n5)))"
    using f unfolding trait_prec_calc_def str_calc_def by (auto elim!: and_thenE)
  note fr = fr [unfolded tp_plain_def]
  define s1 where "s1 = zend_accel_store (ptr (tp_ref t) ''method_name'') (s_addr (tp_method t)) (str_size (tp_method t)) s"
  define s2 where "s2 = zend_accel_store (ptr (tp_ref t) ''class_name'') (s_addr (tp_class t)) (str_size (tp_class t)) s1"
  define s2' where "s2' = put (ptr (tp_ref t) ''ce'') 0 s2"
  define s3 where "s3 = zend_accel_store (ptr (tp_addr t) ''trait_method'') (tp_ref t) (sizeof en T_trait_method_reference) s2'"
  define s4 where "s4 = opt_do (persist_exclude en (ptr (tp_addr t) ''exclude_from_classes'')) (tp_exclude t) s3"
  have o1: "ok en T P E (set [s_addr (tp_method t)]) c s n1 c1 s1" unfolding s1_def by (rule plain1_ok [OF g r P fresh_first [OF fr] 1])
  note fr2 = fresh_rest [OF fr o1]
  have o2: "ok en T P E (set [s_addr (tp_class t)]) c1 s1 n2 c2 s2" unfolding s2_def
    by (rule plain1_ok [OF ok_good [OF o1] ok_rel [OF o1] P fresh_first [OF fr2] 2])
  have sl: "silent s2 s2'" by (simp add: s2'_def)
  note o2' = ok_later [OF o2 sl]
  note fr3 = fresh_rest [OF fr2 o2']
  have o3: "ok en T P E (set [tp_ref t]) c2 s2' n3 c3 s3" unfolding s3_def
    by (rule plain1_ok [OF ok_good [OF o2'] ok_rel [OF o2'] P fresh_first [OF fr3] 3])
  note fr4 = fresh_rest [OF fr3 o3]
  have o4: "ok en T P E (set (opt_list ex_plain (tp_exclude t))) c3 s3 n4 c4 s4" unfolding s4_def opt_list_def
  proof (rule opt_plain_ok [OF ok_good [OF o3] ok_rel [OF o3] fresh_first [OF fr4, unfolded opt_list_def] 4])
    show "w = z" if "trait_exclude_calc en z c3 = (w, k, c1)" for z w k c1
      using that just_sizeE by (auto simp: trait_exclude_calc_def elim!: and_thenE)
  qed (rule exclude_ok [OF ok_good [OF o3] ok_rel [OF o3] P])
  note fr5 = fresh_rest [OF fr4 o4]
  note o5 = plain1_ok [OF ok_good [OF o4] ok_rel [OF o4] P fr5 5, of l]
  have e: "persist_trait_prec en l t s = zend_accel_store l (tp_addr t) (sizeof en T_trait_precedence) s4"
    by (simp add: persist_trait_prec_def Let_def s4_def s3_def s2'_def s2_def s1_def store_str_def)
  show ?thesis using just_sizeE [OF 5] ok_trans [OF o1 ok_trans [OF o2' ok_trans [OF o3 ok_trans [OF o4 o5]]]]
    by (simp add: nn e tp_plain_def insert_commute)
qed

definition tab_plain :: "('t \<Rightarrow> nat list) \<Rightarrow> nat \<times> 't list \<Rightarrow> nat list" where
  "tab_plain L p = concat (map L (snd p)) @ [fst p]"

lemma trait_table_ok:
  assumes g: "good en T c" and r: "rel E c s" and P: "P \<subseteq> E" and fr: "fresh P (tab_plain L p) s"
    and el: "\<And>x l c s y n c'. good en T c \<Longrightarrow> rel E c s \<Longrightarrow> fresh P (L x) s \<Longrightarrow> fc x c = (y, n, c') \<Longrightarrow>
      y = x \<and> ok en T P E (set (L x)) c s n c' (fp l x s)"
    and f: "trait_table_calc en fc p c = (y, n, c')"
  shows "ok en T P E (set (tab_plain L p)) c s n c' (persist_trait_table en fp l p s)"
proof -
  obtain x1 n1 c1 n2 where 1: "list_calc fc (snd p) c = (x1, n1, c1)"
    and 2: "just_size (sizeof en T_pointer * (length (snd p) + 1)) p c1 = (y, n2, c')" and nn: "n = add_size n1 n2"
    using f unfolding trait_table_calc_def by (auto elim!: and_thenE)
  note fr = fr [unfolded tab_plain_def]
  have o1: "ok en T P E (set (concat (map L (snd p)))) c s n1 c1 (list_do (\<lambda>i. fp (fst p, [I i])) 0 (snd p) s)"
    by (rule list_plain_ok [OF _ g r fresh_first [OF fr] 1]) (rule el)
  note o2 = plain1_ok [OF ok_good [OF o1] ok_rel [OF o1] P fresh_rest [OF fr o1] 2, of l]
  show ?thesis using ok_trans [OF o1 o2] by (simp add: nn persist_trait_table_def tab_plain_def)
qed

section \<open>Classes\<close>

definition zt_apart :: "interned_strings \<Rightarrow> nat set \<Rightarrow> nat \<times> pzval_ptr option list \<Rightarrow> bool" where
  "zt_apart T E p \<longleftrightarrow> (\<forall>z. Some z \<in> set (snd p) \<longrightarrow> zp_addrs z \<inter> E = {} \<and> keys_plain T (zp_keys z))"

lemma zval_table_ok:
  assumes g: "good en T c" and r: "rel E c s" and P: "P \<subseteq> E" and fr: "fresh P [fst p] s" and a: "zt_apart T E p"
    and f: "zval_table_calc en p c = (p', n, c')"
  shows "ok en T P E {fst p} c s n c' (persist_zval_table en T l p' s)"
proof -
  let ?f = "opt_calc (\<lambda>z. called (zend_persist_zval_ptr_calc en z))"
  obtain n1 c1 zs n2 where 1: "just_size (sizeof en T_pointer * length (snd p)) () c = ((), n1, c1)"
    and 2: "list_calc ?f (snd p) c1 = (zs, n2, c')" and p': "p' = (fst p, zs)" and nn: "n = add_size n1 (add_size n2 0)"
    using f unfolding zval_table_calc_def by (auto elim!: and_thenE dest!: no_sizeE)
  define s1 where "s1 = zend_accel_store l (fst p) (sizeof en T_pointer * length (snd p)) s"
  have o1: "ok en T P E {fst p} c s n1 c1 s1" using plain1_ok [OF g r P fr 1, of l] by (simp add: s1_def)
  have o2: "ok en T P E {} c1 s1 n2 c' (list_do (\<lambda>i. opt_do (zend_persist_zval_ptr en T (fld l s1, [I i]))) 0 zs s1)"
  proof (rule list_ok0 [OF _ ok_good [OF o1] ok_rel [OF o1] 2])
    fix x i c s y n c'
    assume x: "x \<in> set (snd p)" and st: "good en T c" "rel E c s" and y: "?f x c = (y, n, c')"
    show "ok en T P E {} c s n c' (opt_do (zend_persist_zval_ptr en T (fld l s1, [I i])) y s)"
    proof (rule opt_ok0 [OF st y])
      fix z w k c1
      assume z: "x = Some z" and w: "called (zend_persist_zval_ptr_calc en z) c = (w, k, c1)"
      show "ok en T P E {} c s k c1 (zend_persist_zval_ptr en T (fld l s1, [I i]) w s)"
      proof (rule called_ok [OF w], rule zp_ok [OF st P])
        show "zp_addrs z \<inter> E = {}" "keys_plain T (zp_keys z)" using a x unfolding zt_apart_def z by blast+
      qed
    qed
  qed
  have "n = add_size n1 n2" using nn ok_size [OF o2] by simp
  then show ?thesis using ok_trans [OF o1 o2] list_calc_length [OF 2] by (simp add: p' persist_zval_table_def Let_def s1_def)
qed

lemma property_ok:
  assumes g: "good en T c" and r: "rel E c s" and P: "P \<subseteq> E" and a: "s_addr (prop_name p) \<notin> E" "doc_apart en P E (prop_doc p)"
    and f: "zend_persist_property_info_calc en p c = (p', n, c')"
  shows "ok en T P E {} c s n c' (zend_persist_property_info en T l p' s)"
proof -
  obtain nm n1 c1 d n2 where 1: "ADD_INTERNED_STRING en (prop_name p) c = (nm, n1, c1)"
    and 2: "doc_calc en (prop_doc p) c1 = (d, n2, c')" and p': "p' = p\<lparr>prop_name := nm\<rparr>" and nn: "n = add_size n1 (add_size n2 0)"
    using f unfolding zend_persist_property_info_calc_def by (auto elim!: and_thenE dest!: no_sizeE)
  note o1 = ADD_INTERNED_STRING_ok [OF g r a(1) P 1, of "sub l ''name''"]
  note o2 = doc_ok [OF ok_good [OF o1] ok_rel [OF o1] P a(2) 2, of l]
  have "n = add_size n1 n2" using nn ok_size [OF o2] by simp
  then show ?thesis using ok_then [OF o1 o2] by (simp add: p' zend_persist_property_info_def)
qed

definition ht_apart :: "interned_strings \<Rightarrow> nat set \<Rightarrow> ('e \<Rightarrow> bool) \<Rightarrow> 'e htable \<Rightarrow> bool" where
  "ht_apart T E Q ht \<longleftrightarrow> ht_addrs (\<lambda>_. {}) ht \<inter> E = {} \<and> keys_plain T (ht_keys (\<lambda>_. {}) ht)
     \<and> (\<forall>b \<in> set (ht_list ht). Q (b_el b))"

definition ce_apart :: "penv \<Rightarrow> interned_strings \<Rightarrow> nat set \<Rightarrow> nat set \<Rightarrow> pclass \<Rightarrow> bool" where
  "ce_apart en T P E ce \<longleftrightarrow> ce_addr ce \<notin> E \<and> s_addr (ce_name ce) \<notin> E
   \<and> ht_apart T E (oa_apart en T P E) (ce_functions ce)
   \<and> opt_all (zt_apart T E) (ce_default_properties ce) \<and> opt_all (zt_apart T E) (ce_default_statics ce)
   \<and> ht_addrs zp_addrs (ce_constants ce) \<inter> E = {} \<and> keys_plain T (ht_keys zp_keys (ce_constants ce))
   \<and> opt_set (ce_filename ce) \<inter> E = {} \<and> doc_apart en P E (ce_doc ce)
   \<and> ht_apart T E (\<lambda>p. s_addr (prop_name p) \<notin> E \<and> doc_apart en P E (prop_doc p)) (ce_properties ce)"

definition ce_plain :: "pclass \<Rightarrow> nat list" where
  "ce_plain ce = (if \<not> ce_user ce then [] else
     opt_list (\<lambda>p. [fst p]) (ce_default_properties ce) @ opt_list (\<lambda>p. [fst p]) (ce_default_statics ce)
     @ opt_list (tab_plain ta_plain) (ce_aliases ce) @ opt_list (tab_plain tp_plain) (ce_precedences ce))"

lemma opt_zval_table_ok:
  assumes g: "good en T c" and r: "rel E c s" and P: "P \<subseteq> E" and fr: "fresh P (opt_list (\<lambda>p. [fst p]) x) s"
    and a: "opt_all (zt_apart T E) x" and f: "opt_calc (zval_table_calc en) x c = (y, n, c')"
  shows "ok en T P E (set (opt_list (\<lambda>p. [fst p]) x)) c s n c' (opt_do (persist_zval_table en T l) y s)"
proof -
  have "ok en T P E (case x of None \<Rightarrow> {} | Some p \<Rightarrow> {fst p}) c s n c' (opt_do (persist_zval_table en T l) y s)"
  proof (rule opt_ok [OF g r f])
    fix z w k c1
    assume z: "x = Some z" and w: "zval_table_calc en z c = (w, k, c1)"
    show "ok en T P E {fst z} c s k c1 (persist_zval_table en T l w s)"
      by (rule zval_table_ok [OF g r P _ _ w]) (use fr a z in \<open>simp_all add: opt_list_def opt_all_def\<close>)
  qed
  then show ?thesis by (cases x) (simp_all add: opt_list_def)
qed

lemma opt_trait_ok:
  assumes g: "good en T c" and r: "rel E c s" and P: "P \<subseteq> E" and fr: "fresh P (opt_list (tab_plain L) x) s"
    and el: "\<And>x l c s y n c'. good en T c \<Longrightarrow> rel E c s \<Longrightarrow> fresh P (L x) s \<Longrightarrow> fc x c = (y, n, c') \<Longrightarrow>
      y = x \<and> ok en T P E (set (L x)) c s n c' (fp l x s)"
    and f: "opt_calc (trait_table_calc en fc) x c = (y, n, c')"
  shows "ok en T P E (set (opt_list (tab_plain L) x)) c s n c' (opt_do (persist_trait_table en fp l) x s)"
  unfolding opt_list_def
proof (rule opt_plain_ok [OF g r fr [unfolded opt_list_def] f])
  show "w = z" if "trait_table_calc en fc z c = (w, k, c1)" for z w k c1
    using that just_sizeE by (auto simp: trait_table_calc_def elim!: and_thenE)
  show "ok en T P E (set (tab_plain L z)) c s k c1 (persist_trait_table en fp l z s)"
    if "fresh P (tab_plain L z) s" "trait_table_calc en fc z c = (w, k, c1)" for z w k c1
    by (rule trait_table_ok [OF g r P that(1) _ that(2)]) (rule el)
qed

lemma class_ok:
  assumes g: "good en T c" and r: "rel E c s" and P: "P \<subseteq> E" and a: "ce_apart en T P E ce" and fr: "fresh P (ce_plain ce) s"
    and f: "zend_persist_class_entry_calc en ce c = (ce', n, c')"
  shows "ok en T P E (set (ce_plain ce)) c s n c' (zend_persist_class_entry en T l ce' s)"
proof (cases "ce_user ce")
  case False
  then show ?thesis using f ok_refl [OF g r]
    by (auto simp: zend_persist_class_entry_calc_def zend_persist_class_entry_def ce_plain_def dest!: no_sizeE)
next
  case True
  note ap = a [unfolded ce_apart_def ht_apart_def]
  let ?A = "opt_list (\<lambda>p. [fst p]) (ce_default_properties ce)"
  let ?B = "opt_list (\<lambda>p. [fst p]) (ce_default_statics ce)"
  let ?C = "opt_list (tab_plain ta_plain) (ce_aliases ce)"
  let ?D = "opt_list (tab_plain tp_plain) (ce_precedences ce)"
  have fr0: "fresh P (?A @ ?B @ ?C @ ?D) s" using fr True by (simp add: ce_plain_def)
  obtain n1 c1 nm n2 c2 fs n3 c3 ps n4 c4 ss n5 c5 cs n6 c6 x7 n7 c7 x8 n8 c8 pis n9 c9 x10 n10 c10 x11 n11 where
    1: "zend_shared_memdup_size (ce_addr ce) (sizeof en T_class_entry) () c = ((), n1, c1)"
    and 2: "ADD_INTERNED_STRING en (ce_name ce) c1 = (nm, n2, c2)"
    and 3: "called (zend_hash_persist_calc en (zend_persist_op_array_calc en) (sizeof en T_op_array) (ce_functions ce)) c2 = (fs, n3, c3)"
    and 4: "opt_calc (zval_table_calc en) (ce_default_properties ce) c3 = (ps, n4, c4)"
    and 5: "opt_calc (zval_table_calc en) (ce_default_statics ce) c4 = (ss, n5, c5)"
    and 6: "called (zend_hash_persist_calc en (zend_persist_zval_ptr_calc en) (sizeof en T_pointer) (ce_constants ce)) c5 = (cs, n6, c6)"
    and 7: "opt_calc dup_str (ce_filename ce) c6 = (x7, n7, c7)"
    and 8: "doc_calc en (ce_doc ce) c7 = (x8, n8, c8)"
    and 9: "called (zend_hash_persist_calc en (zend_persist_property_info_calc en) (sizeof en T_property_info) (ce_properties ce)) c8 = (pis, n9, c9)"
    and 10: "opt_calc (trait_table_calc en (trait_alias_calc en)) (ce_aliases ce) c9 = (x10, n10, c10)"
    and 11: "opt_calc (trait_table_calc en (trait_prec_calc en)) (ce_precedences ce) c10 = (x11, n11, c')"
    and ce': "ce' = ce\<lparr>ce_name := nm, ce_functions := fs, ce_default_properties := ps, ce_default_statics := ss,
          ce_constants := cs, ce_properties := pis\<rparr>"
    and nn: "n = add_size n1 (add_size n2 (add_size n3 (add_size n4 (add_size n5 (add_size n6
        (add_size n7 (add_size n8 (add_size n9 (add_size n10 (add_size n11 0))))))))))"
    using f True unfolding zend_persist_class_entry_calc_def by (auto elim!: and_thenE dest!: no_sizeE)
  define m1 where "m1 = zend_accel_store l (ce_addr ce) (sizeof en T_class_entry) s"
  define k where "k = (fld l m1, [] :: fname list)"
  define m2 where "m2 = zend_accel_store_interned_string T (sub k ''name'') nm m1"
  define m3 where "m3 = zend_hash_persist en T (sub k ''function_table'') (zend_persist_op_array_ex en T None) (sizeof en T_op_array) fs m2"
  define m4 where "m4 = opt_do (persist_zval_table en T (sub k ''default_properties_table'')) ps m3"
  define m5 where "m5 = opt_do (persist_zval_table en T (sub k ''default_static_members_table'')) ss m4"
  define m6 where "m6 = put (sub k ''static_members_table'') 0 m5"
  define m7 where "m7 = zend_hash_persist en T (sub k ''constants_table'') (zend_persist_zval_ptr en T) (sizeof en T_pointer) cs m6"
  define m8 where "m8 = opt_do (store_str (sub k ''filename'')) (ce_filename ce) m7"
  define m9 where "m9 = opt_do (persist_doc en k) (ce_doc ce) m8"
  define m10 where "m10 = zend_hash_persist en T (sub k ''properties_info'') (zend_persist_property_info en T) (sizeof en T_property_info) pis m9"
  define m11 where "m11 = put (sub k ''traits'') 0 (put (sub k ''interfaces'') 0 m10)"
  define m12 where "m12 = opt_do (persist_trait_table en (persist_trait_alias en) (sub k ''trait_aliases'')) (ce_aliases ce) m11"
  define m13 where "m13 = opt_do (persist_trait_table en (persist_trait_prec en) (sub k ''trait_precedences'')) (ce_precedences ce) m12"
  have o1: "ok en T P E {} c s n1 c1 m1" unfolding m1_def by (rule store_ok [OF g r _ P 1]) (use ap in blast)
  have o2: "ok en T P E {} c1 m1 n2 c2 m2" unfolding m2_def
    by (rule ADD_INTERNED_STRING_ok [OF ok_good [OF o1] ok_rel [OF o1] _ P 2]) (use ap in blast)
  have o3: "ok en T P E {} c2 m2 n3 c3 m3" unfolding m3_def
  proof (rule called_ok [OF 3], rule hash_ok0 [OF ok_good [OF o2] ok_rel [OF o2] P])
    show "ok en T P E {} c s n c' (zend_persist_op_array_ex en T None l e s)"
      if "b \<in> set (ht_list (ce_functions ce))" "good en T c" "rel E c s" "zend_persist_op_array_calc en (b_el b) c = (e, n, c')"
      for b l c s e n c' by (rule op_array_ok [OF that(2,3) P _ that(4)]) (use ap that(1) in blast)
  qed (use ap in blast)+
  have o13: "ok en T P E {} c s (add_size n1 (add_size n2 n3)) c3 m3" by (rule ok_then [OF o1 ok_then [OF o2 o3]])
  note fr3 = fresh_keep [OF fr0 o13]
  have o4: "ok en T P E (set ?A) c3 m3 n4 c4 m4" unfolding m4_def
    by (rule opt_zval_table_ok [OF ok_good [OF o3] ok_rel [OF o3] P fresh_first [OF fr3] _ 4]) (use ap in blast)
  note fr4 = fresh_rest [OF fr3 o4]
  have o5: "ok en T P E (set ?B) c4 m4 n5 c5 m5" unfolding m5_def
    by (rule opt_zval_table_ok [OF ok_good [OF o4] ok_rel [OF o4] P fresh_first [OF fr4] _ 5]) (use ap in blast)
  have o5': "ok en T P E (set ?B) c4 m4 n5 c5 m6" by (rule ok_later [OF o5]) (simp add: m6_def)
  note fr5 = fresh_rest [OF fr4 o5']
  have o6: "ok en T P E {} c5 m6 n6 c6 m7" unfolding m7_def
    by (rule called_ok [OF 6], rule zp_hash_ok [OF ok_good [OF o5'] ok_rel [OF o5'] P]) (use ap in blast)+
  have o7: "ok en T P E {} c6 m7 n7 c7 m8" unfolding m8_def
    by (rule str_ok(2) [OF ok_good [OF o6] ok_rel [OF o6] P _ 7]) (use ap in blast)
  have o8: "ok en T P E {} c7 m8 n8 c8 m9" unfolding m9_def
    by (rule doc_ok [OF ok_good [OF o7] ok_rel [OF o7] P _ 8]) (use ap in blast)
  have o9: "ok en T P E {} c8 m9 n9 c9 m10" unfolding m10_def
  proof (rule called_ok [OF 9], rule hash_ok0 [OF ok_good [OF o8] ok_rel [OF o8] P])
    show "ok en T P E {} c s n c' (zend_persist_property_info en T l e s)"
      if "b \<in> set (ht_list (ce_properties ce))" "good en T c" "rel E c s" "zend_persist_property_info_calc en (b_el b) c = (e, n, c')"
      for b l c s e n c' by (rule property_ok [OF that(2,3) P _ _ that(4)]) (use ap that(1) in blast)+
  qed (use ap in blast)+
  have o9': "ok en T P E {} c8 m9 n9 c9 m11" by (rule ok_later [OF o9]) (simp add: m11_def)
  have o69: "ok en T P E {} c5 m6 (add_size n6 (add_size n7 (add_size n8 n9))) c9 m11"
    by (rule ok_then [OF o6 ok_then [OF o7 ok_then [OF o8 o9']]])
  note fr9 = fresh_keep [OF fr5 o69]
  have o10: "ok en T P E (set ?C) c9 m11 n10 c10 m12" unfolding m12_def
    by (rule opt_trait_ok [OF ok_good [OF o9'] ok_rel [OF o9'] P fresh_first [OF fr9] _ 10]) (rule trait_alias_ok [OF _ _ P])
  note fr10 = fresh_rest [OF fr9 o10]
  have o11: "ok en T P E (set ?D) c10 m12 n11 c' m13" unfolding m13_def
    by (rule opt_trait_ok [OF ok_good [OF o10] ok_rel [OF o10] P fr10 _ 11]) (rule trait_prec_ok [OF _ _ P])
  have fields: "ce_user ce' = True" "ce_addr ce' = ce_addr ce" "ce_name ce' = nm" "ce_functions ce' = fs" "ce_default_properties ce' = ps"
    "ce_default_statics ce' = ss" "ce_constants ce' = cs" "ce_filename ce' = ce_filename ce" "ce_doc ce' = ce_doc ce"
    "ce_properties ce' = pis" "ce_aliases ce' = ce_aliases ce" "ce_precedences ce' = ce_precedences ce"
    using True by (simp_all add: ce')
  have e: "zend_persist_class_entry en T l ce' s = m13"
    unfolding zend_persist_class_entry_def Let_def m13_def m12_def m11_def m10_def m9_def m8_def m7_def m6_def m5_def
      m4_def m3_def m2_def k_def m1_def fields not_True_eq_False if_False ..
  have "ok en T P E (set ?A \<union> (set ?B \<union> (set ?C \<union> set ?D))) c s
      (add_size (add_size n1 (add_size n2 n3)) (add_size n4 (add_size n5 (add_size (add_size n6 (add_size n7 (add_size n8 n9))) (add_size n10 n11))))) c' m13"
    by (rule ok_then [OF o13 ok_trans [OF o4 ok_trans [OF o5' ok_then [OF o69 ok_trans [OF o10 o11]]]]])
  then show ?thesis using True ok_size [OF o11] by (simp add: e nn ce_plain_def add_size_assoc)
qed

section \<open>Scripts\<close>

definition script_plain :: "pscript \<Rightarrow> nat list" where
  "script_plain sc = concat (map (\<lambda>b. ce_plain (b_el b)) (ht_list (sc_classes sc)))"

definition script_apart :: "penv \<Rightarrow> interned_strings \<Rightarrow> nat set \<Rightarrow> nat set \<Rightarrow> pscript \<Rightarrow> cstr \<Rightarrow> bool" where
  "script_apart en T P E sc key \<longleftrightarrow>
     ht_apart T E (oa_apart en T P E) (sc_functions sc) \<and> ht_apart T E (ce_apart en T P E) (sc_classes sc)
   \<and> oa_apart en T P E (sc_main sc) \<and> s_addr key \<notin> E \<and> s_addr (sc_full_path sc) \<notin> E \<and> sc_addr sc \<notin> E"

lemma update_silent: "update_counted k ce f m = Some m' \<Longrightarrow> silent s m \<Longrightarrow> silent s m'"
  by (auto simp: update_counted_def bump_refcount_def Let_def split: if_splits)

lemma update_all_silent: "update_all ce fs m = Some m' \<Longrightarrow> silent s m \<Longrightarrow> silent s m'"
  by (induction fs arbitrary: m) (auto split: bind_splits dest: update_silent)

lemma update_classes_silent: "update_classes bs m = Some m' \<Longrightarrow> silent s m \<Longrightarrow> silent s m'"
proof (induction bs arbitrary: m)
  case (Cons b bs)
  obtain m1 where m1: "zend_update_parent_ce b m = Some m1" "update_classes bs m1 = Some m'"
    using Cons.prems(1) by (auto split: bind_splits)
  let ?ce = "fld (data_loc b m) m"
  obtain m2 m3 where 2: "update_counted 1 ?ce ''parent'' m = Some m2" and 3: "update_all ?ce magic_methods m2 = Some m3"
    and 4: "m1 = list_do (\<lambda>_ q m'. zend_update_property_info_ce (data_loc q m') m') 0 (ht_list (ce_properties (b_el b))) m3"
    using m1(1) by (auto simp: zend_update_parent_ce_def Let_def split: bind_splits)
  have "silent s m3" by (rule update_all_silent [OF 3 update_silent [OF 2 Cons.prems(2)]])
  then have "silent s m1" unfolding 4 by (intro silent_list_do) (simp_all add: zend_update_property_info_ce_def)
  then show ?case by (rule Cons.IH [OF m1(2)])
qed simp

lemma concat_disjoint: "distinct (concat (map L xs)) \<Longrightarrow> sorted_wrt (\<lambda>x y. set (L x) \<inter> set (L y) = {}) xs"
  by (induction xs) (auto simp: disjoint_iff)

lemma persist_ok:
  assumes inv: "interned_inv (hash_func en) T" and dist: "distinct (script_plain sc)"
    and ap: "script_apart en T (set (script_plain sc)) (set (script_plain sc) \<union> D) sc key"
    and calc: "zend_accel_script_persist_calc en sc key \<lparr>c_xlat = Map.empty, c_interned = T\<rparr> = (sc', n, c')"
    and pers: "zend_accel_script_persist en T sc' key m = Some (a, k, m')"
  shows "ok en T (set (script_plain sc)) (set (script_plain sc) \<union> D) (set (script_plain sc))
    \<lparr>c_xlat = Map.empty, c_interned = T\<rparr> (zend_shared_alloc_clear_xlat_table m) n c' m'"
proof -
  let ?P = "set (script_plain sc)"
  let ?E = "?P \<union> D"
  let ?c = "\<lparr>c_xlat = Map.empty, c_interned = T\<rparr>"
  let ?m = "zend_shared_alloc_clear_xlat_table m"
  have P: "?P \<subseteq> ?E" by simp
  have g: "good en T ?c" using inv extends_refl [of T "nNumOfElements T"] by (simp add: good_def)
  have r: "rel ?E ?c ?m" by (simp add: rel_def zend_shared_alloc_clear_xlat_table_def)
  note ap = ap [unfolded script_apart_def ht_apart_def]
  obtain fs n1 c1 cs n2 c2 ma n3 c3 x4 n4 c4 x5 n5 c5 n6 where
    1: "called (zend_hash_persist_calc en (zend_persist_op_array_calc en) (sizeof en T_op_array) (sc_functions sc)) ?c = (fs, n1, c1)"
    and 2: "called (zend_accel_persist_class_table_calc en (sc_classes sc)) c1 = (cs, n2, c2)"
    and 3: "called (zend_persist_op_array_calc en (sc_main sc)) c2 = (ma, n3, c3)"
    and 4: "zend_shared_memdup_size (s_addr key) (str_size key) key c3 = (x4, n4, c4)"
    and 5: "zend_shared_memdup_size (s_addr (sc_full_path sc)) (str_size (sc_full_path sc)) (sc_full_path sc) c4 = (x5, n5, c5)"
    and 6: "zend_shared_memdup_size (sc_addr sc) (sizeof en T_script) () c5 = ((), n6, c')"
    and sc': "sc' = sc\<lparr>sc_functions := fs, sc_classes := cs, sc_main := ma\<rparr>"
    and nn: "n = add_size n1 (add_size n2 (add_size n3 (add_size n4 (add_size n5 (add_size n6 0)))))"
    using calc unfolding zend_accel_script_persist_calc_def dup_str_def by (auto elim!: and_thenE dest!: no_sizeE)
  define m1 where "m1 = zend_hash_persist en T (ptr (sc_addr sc) ''function_table'') (zend_persist_op_array_ex en T None) (sizeof en T_op_array) fs ?m"
  define m2 where "m2 = zend_hash_persist en T (ptr (sc_addr sc) ''class_table'') (zend_persist_class_entry en T) (sizeof en T_pointer) cs m1"
  obtain m2' where u: "update_classes (ht_list cs) m2 = Some m2'"
    using pers by (auto simp: zend_accel_script_persist_def Let_def zend_accel_persist_class_table_def sc' m1_def [symmetric] m2_def [symmetric])
  define m3 where "m3 = zend_persist_op_array_ex en T (Some (sc_addr sc, [])) (ptr (sc_addr sc) ''main_op_array'') ma m2'"
  define m4 where "m4 = snd (zend_shared_memdup (s_addr key) (str_size key) m3)"
  define m5 where "m5 = zend_accel_store (ptr (sc_addr sc) ''full_path'') (s_addr (sc_full_path sc)) (str_size (sc_full_path sc)) m4"
  have m': "m' = snd (zend_shared_memdup (sc_addr sc) (sizeof en T_script) m5)"
    using pers u by (auto simp: zend_accel_script_persist_def Let_def zend_accel_persist_class_table_def sc' store_str_def
        m1_def [symmetric] m2_def [symmetric] m3_def [symmetric] m4_def [symmetric] m5_def [symmetric])
  have o1: "ok en T ?P ?E {} ?c ?m n1 c1 m1" unfolding m1_def
  proof (rule called_ok [OF 1], rule hash_ok0 [OF g r P])
    show "ok en T ?P ?E {} c s n c' (zend_persist_op_array_ex en T None l e s)"
      if "b \<in> set (ht_list (sc_functions sc))" "good en T c" "rel ?E c s" "zend_persist_op_array_calc en (b_el b) c = (e, n, c')"
      for b l c s e n c' by (rule op_array_ok [OF that(2,3) P _ that(4)]) (use ap that(1) in blast)
  qed (use ap in blast)+
  have U: "(\<Union>b \<in> set (ht_list (sc_classes sc)). set (ce_plain (b_el b))) = ?P" by (simp add: script_plain_def)
  have "?P \<inter> dom (xlat ?m) = {}" by (simp add: zend_shared_alloc_clear_xlat_table_def)
  moreover have "dom (xlat m1) \<inter> ?P = dom (xlat ?m) \<inter> ?P \<union> {}" using o1 by (simp add: ok_def)
  ultimately have free: "?P \<inter> dom (xlat m1) = {}" by blast
  note 2 = 2 [unfolded zend_accel_persist_class_table_calc_def]
  have "ok en T ?P ?E (\<Union>b \<in> set (ht_list (sc_classes sc)). set (ce_plain (b_el b))) c1 m1 n2 c2 m2" unfolding m2_def
  proof (rule called_ok [OF 2],
      rule hash_ok [where X = "\<lambda>ce. set (ce_plain ce)", OF ok_good [OF o1] ok_rel [OF o1] P])
    show "(\<Union>b \<in> set (ht_list (sc_classes sc)). set (ce_plain (b_el b))) \<subseteq> ?P" using U by blast
    show "sorted_wrt (\<lambda>b b'. set (ce_plain (b_el b)) \<inter> set (ce_plain (b_el b')) = {}) (ht_list (sc_classes sc))"
      using concat_disjoint [of "\<lambda>b. ce_plain (b_el b)"] dist by (simp add: script_plain_def)
    show "(\<Union>b \<in> set (ht_list (sc_classes sc)). set (ce_plain (b_el b))) \<inter> dom (xlat m1) = {}" unfolding U by (rule free)
    show "ok en T ?P ?E (set (ce_plain (b_el b))) c s n c' (zend_persist_class_entry en T l e s)"
      if b: "b \<in> set (ht_list (sc_classes sc))" and st: "good en T c" "rel ?E c s" "set (ce_plain (b_el b)) \<inter> dom (xlat s) = {}"
        and f: "zend_persist_class_entry_calc en (b_el b) c = (e, n, c')" for b l c s e n c'
    proof (rule class_ok [OF st(1,2) P _ _ f])
      show "ce_apart en T ?P ?E (b_el b)" using ap b by blast
      have "distinct (ce_plain (b_el b))" using dist b unfolding script_plain_def by (auto simp: distinct_concat_iff)
      moreover have "set (ce_plain (b_el b)) \<subseteq> ?P" using b U by blast
      ultimately show "fresh ?P (ce_plain (b_el b)) s" using st(3) by (simp add: fresh_def)
    qed
  qed (use ap in blast)+
  then have o2: "ok en T ?P ?E ?P c1 m1 n2 c2 m2" unfolding U .
  note o2' = ok_later [OF o2 update_classes_silent [OF u silent_refl]]
  have o3: "ok en T ?P ?E {} c2 m2' n3 c3 m3" unfolding m3_def
    by (rule called_ok [OF 3], rule op_array_ok [OF ok_good [OF o2'] ok_rel [OF o2'] P]) (use ap in blast)+
  have o4: "ok en T ?P ?E {} c3 m3 n4 c4 m4" unfolding m4_def by (rule dup_ok(2) [OF ok_good [OF o3] ok_rel [OF o3] _ P 4]) (use ap in blast)
  have o5: "ok en T ?P ?E {} c4 m4 n5 c5 m5" unfolding m5_def by (rule store_ok [OF ok_good [OF o4] ok_rel [OF o4] _ P 5]) (use ap in blast)
  have o6: "ok en T ?P ?E {} c5 m5 n6 c' m'" unfolding m' by (rule dup_ok(2) [OF ok_good [OF o5] ok_rel [OF o5] _ P 6]) (use ap in blast)
  have "ok en T ?P ?E ({} \<union> (?P \<union> {})) ?c ?m n c' m'"
    using ok_trans [OF o1 ok_trans [OF o2' ok_then [OF o3 ok_then [OF o4 ok_then [OF o5 o6]]]]] ok_size [OF o6] by (simp add: nn)
  then show ?thesis by simp
qed

text \<open>C15. The size computed for a script is the memory its copy takes: for scripts whose
  always-counted blocks are apart from each other and from the others, and whose keys are
  not interned before, \<open>zend_accel_script_persist\<close> moves the memory pointer by exactly the
  size \<open>zend_accel_script_persist_calc\<close> returned, as an \<open>uint\<close>. (\<open>D\<close> are the addresses of
  dropped comments.) So the copy ends where the allocated block ends.\<close>

theorem persist_size_exact:
  assumes inv: "interned_inv (hash_func en) T" and dist: "distinct (script_plain sc)"
    and ap: "script_apart en T (set (script_plain sc)) (set (script_plain sc) \<union> D) sc key"
    and calc: "zend_accel_script_persist_calc en sc key \<lparr>c_xlat = Map.empty, c_interned = T\<rparr> = (sc', n, c')"
    and pers: "zend_accel_script_persist en T sc' key m = Some (a, k, m')"
  shows "mem_top m \<le> mem_top m' \<and> (mem_top m' - mem_top m) mod two32 = n"
  using persist_ok [OF assms] by (simp add: ok_def moved_def zend_shared_alloc_clear_xlat_table_def)

section \<open>A concrete script\<close>

text \<open>A script with a function whose literal is a string, a class with a default property
  that is an array, a method alias of a trait and a comment that is dropped, and a main
  script with an opcode.\<close>

definition demo_env :: penv where
  "demo_env = \<lparr>sizeof = (\<lambda>t. if t = T_pointer then 8 else 20), hash_func = demo_hash, save_comments = False,
     uninitialized_bucket = 7, halt_offset = None\<rparr>"

definition demo_oa :: "nat \<Rightarrow> pzval list \<Rightarrow> cstr option \<Rightarrow> zend_op list \<Rightarrow> pop_array" where
  "demo_oa a zs d ops = \<lparr>oa_user = True, oa_filename = Some \<lparr>s_addr = 300, s_val = ''f.php''\<rparr>, oa_literals = Some (a, zs),
     oa_opcodes = (a + 1, ops), oa_done_pass_two = True, oa_function_name = None, oa_arg_info = None,
     oa_brk_cont = None, oa_static = None, oa_doc = d, oa_try_catch = None, oa_vars = None\<rparr>"

definition demo_class :: pclass where
  "demo_class = \<lparr>ce_user = True, ce_addr = 350, ce_name = \<lparr>s_addr = 351, s_val = ''C''\<rparr>,
     ce_functions = Htable [] False 0 0,
     ce_default_properties = Some (360, [Some (361, PArray 362 (Htable [] False 0 0)), None]),
     ce_default_statics = None, ce_constants = Htable [] False 0 0, ce_filename = Some \<lparr>s_addr = 300, s_val = ''f.php''\<rparr>,
     ce_doc = Some \<lparr>s_addr = 363, s_val = ''doc''\<rparr>, ce_properties = Htable [] False 0 0,
     ce_aliases = Some (370, [\<lparr>ta_addr = 371, ta_method = None, ta_alias = Some \<lparr>s_addr = 372, s_val = ''al''\<rparr>\<rparr>]),
     ce_precedences = None\<rparr>"

definition demo_script :: pscript where
  "demo_script = \<lparr>sc_addr = 400,
     sc_functions = Htable [] False 0 0,
     sc_classes = Htable [Bucket 340 (Some \<lparr>s_addr = 341, s_val = ''c''\<rparr>) None demo_class] True 8 342,
     sc_main = demo_oa 380 [PString \<lparr>s_addr = 330, s_val = ''ab''\<rparr>] None [MAKE_NOP \<lparr>opcode = 0, op1 = unused_node, op2 = unused_node, result = unused_node,
       extended_value = 0, lineno = 0\<rparr>],
     sc_full_path = \<lparr>s_addr = 300, s_val = ''f.php''\<rparr>\<rparr>"

definition demo_key :: cstr where "demo_key = \<lparr>s_addr = 410, s_val = ''f.php''\<rparr>"

definition demo_pmem :: pmem where "demo_pmem = \<lparr>xlat = Map.empty, mem_top = 4096, flds = (\<lambda>_ _. 0)\<rparr>"

lemma and_then_eval: "and_then f g c = (case f c of (x, n, c1) \<Rightarrow> (case g x c1 of (y, k, c2) \<Rightarrow> (y, add_size n k, c2)))"
  by (simp add: and_then_def)

lemma and_then_weak: "f = f' \<Longrightarrow> and_then f g = and_then f' g"
  by simp

lemmas calc_defs = no_size_def called_def just_size_def zend_shared_memdup_size_def intern_or_dup_def ADD_INTERNED_STRING_def
  dup_str_def opt_calc_def unless_done_def bucket_calc_def zend_hash_persist_calc_def zval_ptr_calc_def zend_persist_zval_ptr_calc_def
  arg_info_calc_def literals_calc_def arg_infos_calc_def vars_calc_def opcodes_calc_def static_calc_def doc_calc_def array_calc_def
  zend_persist_op_array_calc_def zend_persist_property_info_calc_def zval_table_calc_def str_calc_def trait_method_calc_def
  trait_alias_calc_def trait_exclude_calc_def trait_prec_calc_def trait_table_calc_def zend_persist_class_entry_calc_def
  zend_accel_persist_class_table_calc_def zend_accel_script_persist_calc_def

lemmas demo_defs = demo_env_def demo_oa_def demo_class_def demo_script_def demo_key_def demo_pmem_def demo_interned_def demo_hash_def

lemmas calc_eval = calc_defs and_then_eval demo_defs accel_new_interned_string_def IS_INTERNED_def key_index_def
  nTableMask_def interned_fits_def ZEND_MM_ALIGNED_SIZE_def sizeof_Bucket_def ib_arKey_def new_bucket_def add_bucket_def
  str_bytes_def str_size_def ZEND_ALIGNED_SIZE_def PLATFORM_ALIGNMENT_def two64_def add_size_def two32_def Let_def

definition demo_script' :: pscript where
  "demo_script' = demo_script\<lparr>sc_classes := Htable [Bucket 340 (Some \<lparr>s_addr = 1072, s_val = ''c''\<rparr>) None
     (demo_class\<lparr>ce_name := \<lparr>s_addr = 1152, s_val = ''C''\<rparr>\<rparr>)] True 8 342\<rparr>"

lemma demo_calc: "\<exists>c. zend_accel_script_persist_calc demo_env demo_script demo_key \<lparr>c_xlat = Map.empty, c_interned = demo_interned\<rparr>
  = (demo_script', 320, c)"
  by (simp add: calc_eval demo_script'_def cong: and_then_weak prod.case_cong_weak)
lemmas persist_ev = zend_accel_script_persist_def zend_accel_persist_class_table_def zend_update_parent_ce_def zend_update_property_info_ce_def
  magic_methods_def update_counted_def data_loc_def zend_persist_class_entry_def persist_trait_table_def persist_trait_alias_def
  persist_zval_table_def zend_persist_op_array_ex_def zend_shared_memdup_def zend_accel_store_def store_str_def opt_do_def
  zend_accel_store_interned_string_def zend_hash_persist_def persist_bucket_def translate_def link_back_def persist_zval_ptr_def
  zend_persist_zval_ptr_def zend_protect_zval_def persist_doc_def persist_literals_def persist_opcodes_def fix_opline_def jumps_by_op1_def jumps_by_op2_def
  rebase_def persist_prototype_def bump_refcount_def zend_shared_alloc_get_xlat_entry_def zend_shared_alloc_register_xlat_entry_def
  zend_shared_alloc_clear_xlat_table_def fld_def put_def sub_def ptr_def demo_defs demo_script'_def IS_INTERNED_def 
  str_size_def ZEND_ALIGNED_SIZE_def PLATFORM_ALIGNMENT_def two64_def Let_def MAKE_NOP_def unused_node_def

lemma weak:
  "x = y \<Longrightarrow> map_option f x = map_option f y"
  "xs = ys \<Longrightarrow> m = m' \<Longrightarrow> i = j \<Longrightarrow> list_do h i xs m = list_do h j ys m'"
  "a = b \<Longrightarrow> Option.bind a g = Option.bind b g"
  by simp_all


lemma replicate_num: "replicate (numeral k) x = x # replicate (pred_numeral k) x"
  by (simp add: numeral_eq_Suc)


lemma demo_persist:
  "\<exists>m. zend_accel_persist_class_table demo_env demo_interned (ptr (sc_addr demo_script') ''class_table'') (sc_classes demo_script')
    (zend_hash_persist demo_env demo_interned (ptr (sc_addr demo_script') ''function_table'')
       (zend_persist_op_array_ex demo_env demo_interned None) (sizeof demo_env T_op_array) (sc_functions demo_script')
       (zend_shared_alloc_clear_xlat_table demo_pmem)) = Some m"
  by (simp add: persist_ev replicate_num cong: weak let_weak_cong prod.case_cong_weak)

lemma demo_apart: "script_apart demo_env demo_interned {360, 370, 371, 372} ({360, 370, 371, 372} \<union> {363}) demo_script demo_key"
  by (simp add: script_apart_def ht_apart_def oa_apart_def ce_apart_def demo_defs opt_all_def opt_set_def ht_addrs_def ht_keys_def
    keys_plain_def lits_addrs_def doc_apart_def zt_apart_def b_addrs_def IS_INTERNED_def zp_addrs_def zp_keys_def)

text \<open>A bucket key that is interned already is counted again by \<open>zend_hash_persist_calc\<close>
  (unless its address is in the table), although \<open>zend_hash_persist\<close> leaves it where it is.\<close>

theorem interned_key_overcounted:
  assumes "IS_INTERNED T (s_addr k)" and "c_interned c = T" and "c_xlat c (s_addr k) = None"
  shows "fst (snd (intern_or_dup en k c)) = ZEND_ALIGNED_SIZE (str_size k) mod two32
    \<and> zend_accel_store_interned_string T l k m = m"
  using assms by (simp_all add: intern_or_dup_def accel_new_interned_string_def zend_shared_memdup_size_def
      zend_accel_store_interned_string_def)

lemma interned_key_overcounted_witness:
  "fst (snd (intern_or_dup demo_env \<lparr>s_addr = 1072, s_val = ''f''\<rparr> \<lparr>c_xlat = Map.empty, c_interned = demo_interned\<rparr>)) = 8"
proof -
  have "ZEND_ALIGNED_SIZE (Suc (Suc 0)) mod two32 = 8"
    by (simp add: ZEND_ALIGNED_SIZE_def PLATFORM_ALIGNMENT_def two64_def two32_def)
  then show ?thesis
    using interned_key_overcounted [of demo_interned "\<lparr>s_addr = 1072, s_val = ''f''\<rparr>" "\<lparr>c_xlat = Map.empty, c_interned = demo_interned\<rparr>" demo_env]
    by (simp add: IS_INTERNED_def demo_interned_def str_size_def)
qed

lemma demo_plain: "script_plain demo_script = [360, 372, 371, 370]"
  by (simp add: script_plain_def demo_defs ce_plain_def opt_list_def tab_plain_def ta_plain_def)

theorem persist_size_exact_witness:
  "\<exists>a k m. zend_accel_script_persist demo_env demo_interned demo_script' demo_key demo_pmem = Some (a, k, m)
    \<and> mem_top demo_pmem \<le> mem_top m \<and> (mem_top m - mem_top demo_pmem) mod two32 = 320"
proof -
  obtain c where c: "zend_accel_script_persist_calc demo_env demo_script demo_key \<lparr>c_xlat = Map.empty, c_interned = demo_interned\<rparr>
    = (demo_script', 320, c)" using demo_calc by blast
  obtain a k m where m: "zend_accel_script_persist demo_env demo_interned demo_script' demo_key demo_pmem = Some (a, k, m)"
    using demo_persist unfolding zend_accel_script_persist_def Let_def by (auto simp del: not_None_eq)
  have "interned_inv (hash_func demo_env) demo_interned" using demo_interned_inv by (simp add: demo_env_def)
  moreover have "set (script_plain demo_script) = {360, 370, 371, 372}" by (auto simp: demo_plain)
  ultimately show ?thesis
    using persist_size_exact [OF _ _ _ c m, where D = "{363}"] demo_apart m by (simp add: demo_plain)
qed
end
