(* ===== verification/Accel_State.thy ===== *)
theory Accel_State
  imports Accel_Hash Interned
begin

text \<open>
  The globals of \<open>ZendAccelerator.c\<close> and the restart of the cache: scheduling one
  (\<open>zend_accel_schedule_restart\<close>), finding out whether other processes still use the
  memory, killing them (\<open>accel_is_inactive\<close>, \<open>kill_all_lockers\<close>), and the restart at the
  start of a request (\<open>accel_activate\<close>).

  \<open>accel_globals\<close> is the state of the process (\<open>ZCG\<close>), \<open>accel_shared_globals\<close> the shared
  state (\<open>ZCSG\<close>, and \<open>ZSMMG\<close> in the field \<open>smm\<close>). Times are the values of \<open>time_t\<close>. What
  the operating system answers (\<open>fcntl\<close>, \<open>kill\<close>, \<open>time\<close>) are parameters. The comparison
  of floating-point numbers in \<open>zend_accel_schedule_restart_if_necessary\<close> is the field
  \<open>waste_limit_reached\<close> of the directives, a predicate on the number of wasted bytes.
\<close>

section \<open>State\<close>

datatype zend_accel_restart_reason = ACCEL_RESTART_OOM | ACCEL_RESTART_HASH | ACCEL_RESTART_USER

record zend_accel_directives =
  waste_limit_reached :: "int \<Rightarrow> bool"
  consistency_checks :: int
  force_restart_timeout :: int
  use_cwd :: bool
  validate_timestamps :: bool
  revalidate_path :: bool
  revalidate_freq :: nat
  file_update_protection :: nat
  log_verbosity_level :: int
  max_file_size :: int
  interned_strings_buffer :: int

record accel_globals =
  enabled :: bool
  counted :: bool
  request_time :: int
  cwd :: "string option"
  include_path :: string
  include_path_key :: "char option"
  include_path_check :: bool
  cache_opline :: "nat option"
  cache_persistent_script :: "nat option"
  key_buffer :: string

record accel_shared_globals =
  hits :: "64 word"
  misses :: "64 word"
  blacklist_misses :: "64 word"
  oom_restarts :: "64 word"
  hash_restarts :: "64 word"
  manual_restarts :: "64 word"
  scripts_hash :: "nat zend_accel_hash"
  include_paths :: "char zend_accel_hash"
  last_restart_time :: int
  force_restart_time :: int
  accelerator_enabled :: bool
  restart_pending :: bool
  restart_reason :: zend_accel_restart_reason
  cache_status_before_restart :: bool
  restart_in_progress :: bool
  interned_table :: interned_strings
  interned_strings_saved_state :: interned_saved
  smm :: smm_shared_globals

text \<open>Storing a sum in a \<open>time_t\<close>.\<close>

definition time_t :: "int \<Rightarrow> int" where
  "time_t i = (i + 2 ^ 63) mod 2 ^ 64 - 2 ^ 63"

section \<open>Scheduling a restart\<close>

definition zend_accel_schedule_restart ::
  "zend_accel_directives \<Rightarrow> int \<Rightarrow> zend_accel_restart_reason \<Rightarrow> accel_shared_globals \<Rightarrow> accel_shared_globals" where
  "zend_accel_schedule_restart d now reason S =
     (if restart_pending S then S
      else S\<lparr>restart_pending := True, restart_reason := reason,
             cache_status_before_restart := accelerator_enabled S, accelerator_enabled := False,
             force_restart_time :=
               (if force_restart_timeout d \<noteq> 0 then time_t (now + force_restart_timeout d) else 0)\<rparr>)"

definition zend_accel_schedule_restart_if_necessary ::
  "zend_accel_directives \<Rightarrow> int \<Rightarrow> zend_accel_restart_reason \<Rightarrow> accel_shared_globals \<Rightarrow> accel_shared_globals" where
  "zend_accel_schedule_restart_if_necessary d now reason S =
     (if waste_limit_reached d (wasted_shared_memory (smm S))
      then zend_accel_schedule_restart d now reason S else S)"

section \<open>Other users of the memory\<close>

text \<open>What \<open>fcntl(F_GETLK)\<close> reports: an error, no conflicting lock, or the process that holds
  one.\<close>

datatype getlk = Getlk_Error | Getlk_Unlocked | Getlk_Locked int

text \<open>The answers of the operating system to the calls of \<open>kill_all_lockers\<close>, by the number
  of the call: whether \<open>kill(pid, SIGKILL)\<close> and \<open>kill(pid, 0)\<close> fail, and \<open>F_GETLK\<close>.\<close>

record os =
  kill_fails :: "nat \<Rightarrow> bool"
  gone :: "nat \<Rightarrow> bool"
  next_locker :: "nat \<Rightarrow> getlk"
  os_time :: int

text \<open>The loop \<open>while (tries--)\<close>. \<open>tries\<close> is an \<open>int\<close> that is only compared with 0, kept here as its
  32 bits: below 0 it counts on to the least value and wraps around. \<open>ks\<close> are the processes killed so
  far; the result has the crash of an error message, the new \<open>tries\<close> and \<open>ks\<close>.\<close>

partial_function (option) kill_tries ::
  "int \<Rightarrow> os \<Rightarrow> int \<Rightarrow> 32 word \<Rightarrow> int list \<Rightarrow> (crash option \<times> 32 word \<times> int list) option" where
  "kill_tries v e pid tries ks =
     (if tries = 0 then Some (None, -1, ks)
      else case zend_accel_error v ACCEL_LOG_ERROR of
        Some c \<Rightarrow> Some (Some c, tries - 1, ks)
      | None \<Rightarrow>
          if kill_fails e (length ks) then Some (None, tries - 1, ks)
          else if gone e (length ks) then Some (None, tries - 1, ks @ [pid])
          else kill_tries v e pid (tries - 1) (ks @ [pid]))"

partial_function (option) kill_lockers ::
  "int \<Rightarrow> os \<Rightarrow> nat \<Rightarrow> int \<Rightarrow> 32 word \<Rightarrow> int list \<Rightarrow> accel_shared_globals
   \<Rightarrow> (crash option \<times> int list \<times> accel_shared_globals) option" where
  "kill_lockers v e n pid tries ks S =
     (if pid \<le> 0 then Some (None, ks, S)
      else Option.bind (kill_tries v e pid tries ks) (\<lambda>(c, tries, ks).
        case c of Some c \<Rightarrow> Some (Some c, ks, S)
        | None \<Rightarrow>
           (case (if tries = 0 then zend_accel_error v ACCEL_LOG_ERROR else None) of
              Some c \<Rightarrow> Some (Some c, ks, S)
            | None \<Rightarrow>
               (let S1 = (if tries = 0 then S\<lparr>force_restart_time := os_time e\<rparr> else S)
                in case next_locker e n of
                     Getlk_Locked p \<Rightarrow> kill_lockers v e (Suc n) p tries ks S1
                   | _ \<Rightarrow> Some (None, ks, S1)))))"

definition kill_all_lockers ::
  "int \<Rightarrow> os \<Rightarrow> int \<Rightarrow> accel_shared_globals \<Rightarrow> (crash option \<times> int list \<times> accel_shared_globals) option" where
  "kill_all_lockers v e pid S = kill_lockers v e 0 pid 10 [] (S\<lparr>force_restart_time := 0\<rparr>)"

text \<open>\<open>accel_is_inactive\<close>: whether it returns \<open>SUCCESS\<close>, after the crash of an error message.\<close>

definition accel_is_inactive ::
  "zend_accel_directives \<Rightarrow> os \<Rightarrow> getlk \<Rightarrow> accel_shared_globals \<Rightarrow> (crash option \<times> bool \<times> accel_shared_globals) option" where
  "accel_is_inactive d e lk S =
     (case lk of
        Getlk_Error \<Rightarrow> Some (None, False, S)
      | Getlk_Unlocked \<Rightarrow> Some (None, True, S)
      | Getlk_Locked pid \<Rightarrow>
          if force_restart_timeout d \<noteq> 0 \<and> force_restart_time S \<noteq> 0 \<and> os_time e \<ge> force_restart_time S
          then map_option (\<lambda>(c, ks, S). (c, False, S)) (kill_all_lockers (log_verbosity_level d) e pid S)
          else Some (None, False, S))"

section \<open>The restart\<close>

definition zend_reset_cache_vars :: "accel_shared_globals \<Rightarrow> accel_shared_globals" where
  "zend_reset_cache_vars S =
     S\<lparr>smm := (smm S)\<lparr>memory_exhausted := False, wasted_shared_memory := 0\<rparr>,
       hits := 0, misses := 0, blacklist_misses := 0, restart_pending := False, force_restart_time := 0\<rparr>"

text \<open>\<open>include_paths\<close> keeps only the first path.\<close>

definition keep_first_path :: "hash_fn \<Rightarrow> 'd zend_accel_hash \<Rightarrow> 'd zend_accel_hash" where
  "keep_first_path hashf h =
     (if num_entries h > 1
      then h\<lparr>num_entries := 1, num_direct_entries := 1,
             hash_table := (replicate (max_num_entries h) None)
               [unat (hashf (he_key (hash_entries h ! 0)) (he_key_length (hash_entries h ! 0))) mod max_num_entries h := Some 0]\<rparr>
      else h)"

definition count_restart :: "accel_shared_globals \<Rightarrow> accel_shared_globals" where
  "count_restart S =
     (case restart_reason S of
        ACCEL_RESTART_OOM \<Rightarrow> S\<lparr>oom_restarts := oom_restarts S + 1\<rparr>
      | ACCEL_RESTART_HASH \<Rightarrow> S\<lparr>hash_restarts := hash_restarts S + 1\<rparr>
      | ACCEL_RESTART_USER \<Rightarrow> S\<lparr>manual_restarts := manual_restarts S + 1\<rparr>)"

definition accel_restart_enter :: "accel_shared_globals \<Rightarrow> accel_shared_globals" where
  "accel_restart_enter S = S\<lparr>restart_in_progress := True\<rparr>"

definition accel_restart_leave :: "accel_shared_globals \<Rightarrow> accel_shared_globals" where
  "accel_restart_leave S = S\<lparr>restart_in_progress := False\<rparr>"

definition restart ::
  "zend_accel_directives \<Rightarrow> hash_fn \<Rightarrow> int \<Rightarrow> accel_shared_globals \<Rightarrow> accel_shared_globals" where
  "restart d hashf now S =
     (let S1 = zend_reset_cache_vars (accel_restart_enter (count_restart (S\<lparr>restart_pending := False\<rparr>)));
          S2 = S1\<lparr>scripts_hash := zend_accel_hash_clean (scripts_hash S1),
                  include_paths := keep_first_path hashf (include_paths S1)\<rparr>;
          S3 = (if interned_strings_buffer d \<noteq> 0
                then S2\<lparr>interned_table :=
                       accel_interned_strings_restore_state (interned_strings_saved_state S2) (interned_table S2)\<rparr>
                else S2)
      in accel_restart_leave
           (S3\<lparr>smm := zend_shared_alloc_restore_state (smm S3),
               accelerator_enabled := cache_status_before_restart S3, last_restart_time := now\<rparr>))"

text \<open>\<open>lk\<close> is what \<open>F_GETLK\<close> reports on the locks of other processes.\<close>

definition accel_activate ::
  "zend_accel_directives \<Rightarrow> hash_fn \<Rightarrow> os \<Rightarrow> bool \<Rightarrow> getlk \<Rightarrow> int \<Rightarrow> accel_globals \<Rightarrow> accel_shared_globals
   \<Rightarrow> (crash option \<times> accel_globals \<times> accel_shared_globals) option" where
  "accel_activate d hashf e accel_startup_ok lk now G S =
     (if \<not> enabled G \<or> \<not> accel_startup_ok then Some (None, G, S)
      else
       (let G1 = G\<lparr>request_time := now, cache_opline := None, cache_persistent_script := None,
                   include_path_check := (include_path_key G = None), counted := False\<rparr>
        in if \<not> restart_pending S then Some (None, G1\<lparr>cwd := None\<rparr>, S)
           else map_option (\<lambda>(c, inactive, S1).
                  case c of Some c \<Rightarrow> (Some c, G1, S1)
                  | None \<Rightarrow> (None, G1\<lparr>cwd := None\<rparr>, if inactive then restart d hashf now S1 else S1))
                (accel_is_inactive d e lk S)))"

section \<open>Well-formed states\<close>

text \<open>The table of include paths only grows: all its entries are direct and linked, and the
  first entry ends its chain.\<close>

definition paths_inv :: "hash_fn \<Rightarrow> 'd zend_accel_hash \<Rightarrow> bool" where
  "paths_inv hashf h \<longleftrightarrow> index_inv hashf h
     \<and> (0 < num_entries h \<longrightarrow> he_next (hash_entries h ! 0) = None \<and> \<not> he_indirect (hash_entries h ! 0)
          \<and> key_ok hashf (hash_entries h ! 0) \<and> (\<exists>d. he_data (hash_entries h ! 0) = Obj d)
          \<and> zend_accel_hash_find_entry hashf h (he_key (hash_entries h ! 0)) (length (he_key (hash_entries h ! 0))) = Some (Some 0))"

definition state_inv :: "hash_fn \<Rightarrow> (string \<Rightarrow> 64 word) \<Rightarrow> accel_shared_globals \<Rightarrow> bool" where
  "state_inv hashf ihash S \<longleftrightarrow>
     hash_inv hashf (scripts_hash S) \<and> paths_inv hashf (include_paths S)
   \<and> interned_inv ihash (interned_table S)
   \<and> snapshot_of ihash (interned_strings_saved_state S) (interned_table S)
   \<and> smm_inv (smm S) \<and> smm_inv (zend_shared_alloc_restore_state (smm S))"

lemma hash_invD:
  assumes "hash_inv hashf h"
  shows "0 < max_num_entries h" and "max_num_entries h < two32" and "length (hash_entries h) = max_num_entries h"
    and "num_entries h \<le> max_num_entries h" and "length (hash_table h) = max_num_entries h"
proof -
  obtain cs where "hash_rep hashf h cs" using assms by (auto simp: hash_inv_def)
  note chains_okD [OF hash_repD(1) [OF this]]
  then show "0 < max_num_entries h" and "max_num_entries h < two32" and "length (hash_entries h) = max_num_entries h"
    and "num_entries h \<le> max_num_entries h" and "length (hash_table h) = max_num_entries h" by simp_all
qed

lemma find_of_entry:
  assumes "hash_inv hashf h" and "zend_accel_hash_find_entry hashf h k (length k) = Some (Some i)"
  shows "zend_accel_hash_find hashf h k (length k) = Some (he_data (hash_entries h ! i))"
proof -
  obtain cs where rep: "hash_rep hashf h cs" using assms(1) by (auto simp: hash_inv_def)
  show ?thesis using assms(2)
    by (auto simp: find_entry_view [OF hash_repD(1,2) [OF rep]] find_view [OF hash_repD(1,2) [OF rep]])
qed

lemma keep_first_nop: "num_entries h \<le> 1 \<Longrightarrow> keep_first_path hashf h = h"
  by (simp add: keep_first_path_def)

text \<open>The table with only its first path.\<close>

lemma keep_first_view:
  fixes h :: "'d zend_accel_hash"
  assumes inv: "paths_inv hashf h" and n: "1 < num_entries h"
  defines "h' \<equiv> keep_first_path hashf h" and "k0 \<equiv> he_key (hash_entries h ! 0)"
  shows "hash_inv hashf h'"
    and "zend_accel_hash_find_entry hashf h' k (length k) = Some (if k = k0 then Some 0 else None)"
    and "zend_accel_hash_find hashf h' k (length k) = Some (if k = k0 then he_data (hash_entries h ! 0) else NULL)"
proof -
  have hi: "hash_inv hashf h" using inv by (simp add: paths_inv_def index_inv_def)
  note D = hash_invD [OF hi]
  have e0: "he_next (hash_entries h ! 0) = None" "\<not> he_indirect (hash_entries h ! 0)" "key_ok hashf (hash_entries h ! 0)"
    using inv n by (auto simp: paths_inv_def)
  let ?b = "bucket hashf h k0"
  let ?cs = "(replicate (max_num_entries h) [])[?b := [0]]"
  have b: "?b < max_num_entries h" using D(1) by simp
  have tab: "hash_table h' = (replicate (max_num_entries h) None)[?b := Some 0]"
    and es: "hash_entries h' = hash_entries h" and nm: "num_entries h' = 1" "max_num_entries h' = max_num_entries h"
    and nd: "num_direct_entries h' = 1"
    using n e0(3) by (simp_all add: h'_def k0_def keep_first_path_def key_ok_def bucket_def hash_index_def)
  have hv: "hash_index h' (he_hash_value (hash_entries h ! 0)) = ?b"
    using e0(3) by (simp add: key_ok_def k0_def bucket_def hash_index_def nm)
  have ch: "chains_ok hashf h' ?cs"
    unfolding chains_ok_def tab es nm
    using D e0 b hv n by (auto simp: nth_list_update)
  have ring: "chained ?cs = {0}"
  proof -
    have "set ?cs \<subseteq> {[], [0]}" using set_update_subset_insert [of "replicate (max_num_entries h) []" ?b "[0]"] by auto
    moreover have "[0] \<in> set ?cs" using b by (metis length_list_update length_replicate nth_list_update_eq nth_mem)
    ultimately show ?thesis by (auto simp: chained_def)
  qed
  have dt: "data_ok h'" using e0(2) by (simp add: data_ok_def es nm)
  have "directs h' ?cs = {0}" using e0(2) by (auto simp: directs_def ring es)
  then have rep: "hash_rep hashf h' ?cs" using ch dt by (simp add: hash_rep_def nd)
  then show "hash_inv hashf h'" by (auto simp: hash_inv_def)
  have sl: "slot hashf h' ?cs k = (if k = k0 then Some 0 else None)"
  proof -
    have bk: "bucket hashf h' k = bucket hashf h k" for k by (simp add: bucket_def hash_index_def nm)
    have "bucket hashf h k < max_num_entries h" using D(1) by simp
    then show ?thesis by (auto simp: slot_def es keyof_def bk k0_def nth_list_update)
  qed
  show "zend_accel_hash_find_entry hashf h' k (length k) = Some (if k = k0 then Some 0 else None)"
    using e0(2) by (simp add: find_entry_view [OF ch dt] sl es)
  show "zend_accel_hash_find hashf h' k (length k) = Some (if k = k0 then he_data (hash_entries h ! 0) else NULL)"
    using e0(2) by (simp add: find_view [OF ch dt] sl es)
qed

lemma keep_first_inv:
  fixes h :: "'d zend_accel_hash"
  assumes inv: "paths_inv hashf h"
  shows "paths_inv hashf (keep_first_path hashf h)"
proof (cases "1 < num_entries h")
  case True
  note V = keep_first_view [OF inv True]
  obtain d where d: "he_data (hash_entries h ! 0) = Obj d" using inv True by (auto simp: paths_inv_def)
  have es: "hash_entries (keep_first_path hashf h) = hash_entries h" using True by (simp add: keep_first_path_def)
  have "index_inv hashf (keep_first_path hashf h)"
    using V(1) by (auto simp: index_inv_def V(2,3) d)
  moreover have "zend_accel_hash_find_entry hashf (keep_first_path hashf h) (he_key (hash_entries h ! 0))
      (length (he_key (hash_entries h ! 0))) = Some (Some 0)" by (simp add: V(2))
  ultimately show ?thesis using inv True by (simp add: paths_inv_def es)
qed (use inv in \<open>simp add: keep_first_nop\<close>)

lemma restore_reset [simp]:
  "zend_shared_alloc_restore_state (g\<lparr>memory_exhausted := False, wasted_shared_memory := 0\<rparr>) = zend_shared_alloc_restore_state g"
  by (simp add: zend_shared_alloc_restore_state_def)

lemma restore_restore [simp]:
  "length (saved_positions g) = length (shared_segments g) \<Longrightarrow>
     zend_shared_alloc_restore_state (zend_shared_alloc_restore_state g) = zend_shared_alloc_restore_state g"
  by (simp add: zend_shared_alloc_restore_state_def list_eq_iff_nth_eq)

text \<open>What a restart leaves: the fields it writes, and \<open>S\<close> for the others.\<close>

lemma restart_fields:
  "scripts_hash (restart d hashf now S) = zend_accel_hash_clean (scripts_hash S)"
  "include_paths (restart d hashf now S) = keep_first_path hashf (include_paths S)"
  "smm (restart d hashf now S) = zend_shared_alloc_restore_state (smm S)"
  "interned_table (restart d hashf now S) = (if interned_strings_buffer d \<noteq> 0
     then accel_interned_strings_restore_state (interned_strings_saved_state S) (interned_table S) else interned_table S)"
  "interned_strings_saved_state (restart d hashf now S) = interned_strings_saved_state S"
  "\<not> restart_pending (restart d hashf now S)" "\<not> restart_in_progress (restart d hashf now S)"
  "force_restart_time (restart d hashf now S) = 0" "hits (restart d hashf now S) = 0" "misses (restart d hashf now S) = 0"
  "blacklist_misses (restart d hashf now S) = 0"
  "accelerator_enabled (restart d hashf now S) = cache_status_before_restart S"
  "last_restart_time (restart d hashf now S) = now"
  "oom_restarts (restart d hashf now S) = oom_restarts S + of_bool (restart_reason S = ACCEL_RESTART_OOM)"
  "hash_restarts (restart d hashf now S) = hash_restarts S + of_bool (restart_reason S = ACCEL_RESTART_HASH)"
  "manual_restarts (restart d hashf now S) = manual_restarts S + of_bool (restart_reason S = ACCEL_RESTART_USER)"
  by (simp_all add: restart_def Let_def count_restart_def zend_reset_cache_vars_def accel_restart_enter_def
      accel_restart_leave_def split: zend_accel_restart_reason.split)

lemma restart_record:
  "restart d hashf now S = S\<lparr>hits := 0, misses := 0, blacklist_misses := 0,
     oom_restarts := oom_restarts S + of_bool (restart_reason S = ACCEL_RESTART_OOM),
     hash_restarts := hash_restarts S + of_bool (restart_reason S = ACCEL_RESTART_HASH),
     manual_restarts := manual_restarts S + of_bool (restart_reason S = ACCEL_RESTART_USER),
     scripts_hash := scripts_hash (restart d hashf now S), include_paths := include_paths (restart d hashf now S),
     last_restart_time := now, force_restart_time := 0, accelerator_enabled := cache_status_before_restart S,
     restart_pending := False, restart_in_progress := False,
     interned_table := interned_table (restart d hashf now S), smm := zend_shared_alloc_restore_state (smm S)\<rparr>"
  by (simp add: restart_def Let_def count_restart_def zend_reset_cache_vars_def accel_restart_enter_def
      accel_restart_leave_def split: zend_accel_restart_reason.split)

lemma restart_inv:
  assumes inv: "state_inv hashf ihash S" and len: "length (saved_positions (smm S)) = length (shared_segments (smm S))"
  shows "state_inv hashf ihash (restart d hashf now S)"
proof -
  have h: "hash_inv hashf (scripts_hash S)" using inv by (simp add: state_inv_def)
  have "hash_inv hashf (zend_accel_hash_clean (scripts_hash S))" by (rule clean_view(1) [OF hash_invD(1-3) [OF h]])
  then show ?thesis
    using inv keep_first_inv [of hashf "include_paths S"] len
    by (simp add: state_inv_def restart_fields snapshot_restore)
qed

lemma activate_inactive:
  assumes "restart_pending S" and "enabled G"
  shows "accel_activate d hashf e True Getlk_Unlocked now G S =
    Some (None, G\<lparr>request_time := now, cache_opline := None, cache_persistent_script := None,
      include_path_check := (include_path_key G = None), counted := False, cwd := None\<rparr>, restart d hashf now S)"
  using assms by (simp add: accel_activate_def accel_is_inactive_def Let_def)

section \<open>Properties\<close>

text \<open>C16. A pending restart at the start of a request, when no other process uses the memory: no
  crash, and the invariants hold again. The state is given field by field: no script is found under any
  key, the include paths keep only the first one, the interned strings are those that were saved, the memory
  is back at its saved state and nothing counts as wasted, the counters of requests and the times start
  again, the restart is counted under its reason, and the cache is enabled as before.\<close>

theorem accel_activate_restarts:
  assumes inv: "state_inv hashf ihash S" and len: "length (saved_positions (smm S)) = length (shared_segments (smm S))"
    and pending: "restart_pending S" and "enabled G"
  shows "\<exists>scripts paths interned S'.
      accel_activate d hashf e True Getlk_Unlocked now G S
        = Some (None, G\<lparr>request_time := now, cache_opline := None, cache_persistent_script := None,
            include_path_check := (include_path_key G = None), counted := False, cwd := None\<rparr>, S')
    \<and> S' = S\<lparr>hits := 0, misses := 0, blacklist_misses := 0,
         oom_restarts := oom_restarts S + of_bool (restart_reason S = ACCEL_RESTART_OOM),
         hash_restarts := hash_restarts S + of_bool (restart_reason S = ACCEL_RESTART_HASH),
         manual_restarts := manual_restarts S + of_bool (restart_reason S = ACCEL_RESTART_USER),
         scripts_hash := scripts, include_paths := paths, last_restart_time := now, force_restart_time := 0,
         accelerator_enabled := cache_status_before_restart S, restart_pending := False, restart_in_progress := False,
         interned_table := interned, smm := zend_shared_alloc_restore_state (smm S)\<rparr>
    \<and> state_inv hashf ihash S' \<and> \<not> memory_exhausted (smm S') \<and> wasted_shared_memory (smm S') = 0
    \<and> (\<forall>k. zend_accel_hash_find hashf scripts k (length k) = Some NULL)
    \<and> (\<forall>k. zend_accel_hash_find hashf paths k (length k)
         = (if num_entries (include_paths S) \<le> 1 \<or> k = he_key (hash_entries (include_paths S) ! 0)
            then zend_accel_hash_find hashf (include_paths S) k (length k) else Some NULL))
    \<and> (if interned_strings_buffer d = 0 then interned = interned_table S
       else accel_interned_strings_save_state interned = interned_strings_saved_state S \<and> interned_at interned \<subseteq>\<^sub>m interned_at (interned_table S))"
proof -
  let ?S = "restart d hashf now S"
  have h: "hash_inv hashf (scripts_hash S)" and p: "paths_inv hashf (include_paths S)"
    and sn: "snapshot_of ihash (interned_strings_saved_state S) (interned_table S)" using inv by (simp_all add: state_inv_def)
  have one: "zend_accel_hash_find hashf (include_paths S) k (length k) = Some (he_data (hash_entries (include_paths S) ! 0))"
    if "1 < num_entries (include_paths S)" "k = he_key (hash_entries (include_paths S) ! 0)" for k
    using p that by (intro find_of_entry) (auto simp: paths_inv_def index_inv_def)
  have paths: "zend_accel_hash_find hashf (keep_first_path hashf (include_paths S)) k (length k)
      = (if num_entries (include_paths S) \<le> 1 \<or> k = he_key (hash_entries (include_paths S) ! 0)
         then zend_accel_hash_find hashf (include_paths S) k (length k) else Some NULL)" for k
    using keep_first_view(3) [OF p, of k] one [of k] keep_first_nop [of "include_paths S" hashf]
    by (cases "1 < num_entries (include_paths S)") simp_all
  have e: "\<not> memory_exhausted (smm ?S)" "wasted_shared_memory (smm ?S) = 0"
    by (simp_all add: restart_fields zend_shared_alloc_restore_state_def)
  have c: "zend_accel_hash_find hashf (scripts_hash ?S) k (length k) = Some NULL" for k
    by (simp add: restart_fields clean_view(3) [OF hash_invD(1-3) [OF h]])
  have i: "if interned_strings_buffer d = 0 then interned_table ?S = interned_table S
    else accel_interned_strings_save_state (interned_table ?S) = interned_strings_saved_state S
      \<and> interned_at (interned_table ?S) \<subseteq>\<^sub>m interned_at (interned_table S)"
    using snapshot_restore(4,5) [OF sn] by (simp add: restart_fields)
  show ?thesis
    unfolding activate_inactive [OF pending \<open>enabled G\<close>]
    using restart_record [of d hashf now S] restart_inv [OF inv len, of d now] e c i paths [folded restart_fields(2) [of d hashf now S]]
    by blast
qed

text \<open>Scheduling a restart disables the cache; scheduling again changes nothing (the first
  reason counts); and the restart gives the cache back the status it had.\<close>

theorem schedule_restart_cycle:
  assumes "\<not> restart_pending S" and "enabled G"
  shows "\<exists>S1 G' S2. zend_accel_schedule_restart d t r S = S1 \<and> restart_pending S1 \<and> \<not> accelerator_enabled S1
    \<and> zend_accel_schedule_restart d t' r' S1 = S1
    \<and> accel_activate d hashf e True Getlk_Unlocked now G S1 = Some (None, G', S2)
    \<and> accelerator_enabled S2 = accelerator_enabled S \<and> \<not> restart_pending S2
    \<and> oom_restarts S2 = oom_restarts S + of_bool (r = ACCEL_RESTART_OOM)
    \<and> hash_restarts S2 = hash_restarts S + of_bool (r = ACCEL_RESTART_HASH)
    \<and> manual_restarts S2 = manual_restarts S + of_bool (r = ACCEL_RESTART_USER)"
proof -
  let ?S1 = "zend_accel_schedule_restart d t r S"
  have S1: "restart_pending ?S1" "\<not> accelerator_enabled ?S1" "restart_reason ?S1 = r"
    "cache_status_before_restart ?S1 = accelerator_enabled S" "oom_restarts ?S1 = oom_restarts S"
    "hash_restarts ?S1 = hash_restarts S" "manual_restarts ?S1 = manual_restarts S"
    using assms(1) by (simp_all add: zend_accel_schedule_restart_def)
  have "zend_accel_schedule_restart d t' r' ?S1 = ?S1"
    by (subst zend_accel_schedule_restart_def) (simp add: S1)
  then show ?thesis
    using activate_inactive [OF S1(1) assms(2)] by (simp add: S1 restart_fields)
qed

text \<open>With error messages logged, \<open>kill_all_lockers\<close> kills no one: the message before the
  first \<open>kill\<close> is an \<open>ACCEL_LOG_ERROR\<close>, which bails out, after the time of the forced restart
  has been cleared.\<close>

theorem kill_all_lockers_bails_out:
  assumes "1 \<le> v" and "0 < pid"
  shows "kill_all_lockers v e pid S = Some (Some Zend_Bailout, [], S\<lparr>force_restart_time := 0\<rparr>)"
proof -
  have "kill_tries v e pid 10 [] = Some (Some Zend_Bailout, 9, [])"
    using assms by (subst kill_tries.simps) (simp add: zend_accel_error_def)
  then show ?thesis using assms by (simp add: kill_all_lockers_def kill_lockers.simps)
qed

text \<open>A process that survives a signal costs one try.\<close>

lemma kill_tries_survives:
  assumes "v < 1" and "tries \<noteq> 0" and "\<not> kill_fails e (length ks)" and "\<not> gone e (length ks)"
  shows "kill_tries v e pid tries ks = kill_tries v e pid (tries - 1) (ks @ [pid])"
proof -
  have "zend_accel_error v ACCEL_LOG_ERROR = None" using assms(1) by (simp add: zend_accel_error_def)
  then show ?thesis using assms(2-4) by (subst kill_tries.simps) simp
qed

lemma kill_tries_steps:
  assumes "v < 1" and "\<forall>i < length ks + n. \<not> kill_fails e i \<and> \<not> gone e i" and "n \<le> unat (tries :: 32 word)"
  shows "kill_tries v e pid tries ks = kill_tries v e pid (tries - of_nat n) (ks @ replicate n pid)"
  using assms(2,3)
proof (induction n arbitrary: tries ks)
  case (Suc n)
  have t: "tries \<noteq> 0" using Suc.prems(2) by auto
  then have u: "unat (tries - 1) = unat tries - 1" by (simp add: unat_minus_one)
  have "kill_tries v e pid tries ks = kill_tries v e pid (tries - 1) (ks @ [pid])"
    by (rule kill_tries_survives [OF assms(1) t]) (use Suc.prems(1) in auto)
  also have "\<dots> = kill_tries v e pid (tries - 1 - of_nat n) ((ks @ [pid]) @ replicate n pid)"
    by (rule Suc.IH) (use Suc.prems u in auto)
  also have "\<dots> = kill_tries v e pid (tries - of_nat (Suc n)) (ks @ replicate (Suc n) pid)"
    by (simp add: replicate_append_same [symmetric] algebra_simps)
  finally show ?case .
qed simp

lemma kill_tries_none_left:
  assumes "v < 1" and "\<forall>i < length ks + unat tries. \<not> kill_fails e i \<and> \<not> gone e i"
  shows "kill_tries v e pid tries ks = Some (None, -1, ks @ replicate (unat tries) pid)"
  using kill_tries_steps [OF assms order_refl, of pid] by (simp add: kill_tries.simps [of _ _ _ 0])

lemma kill_tries_gone:
  assumes "v < 1" and "\<forall>i < n. \<not> kill_fails e i \<and> \<not> gone e i" and "\<not> kill_fails e n" and "gone e n"
    and "length ks \<le> n" and "n < length ks + unat tries"
  shows "kill_tries v e pid tries ks = Some (None, tries - of_nat (Suc n - length ks), ks @ replicate (Suc n - length ks) pid)"
proof -
  let ?m = "n - length ks"
  have m: "?m < unat tries" "length ks + ?m = n" using assms(5,6) by auto
  have "unat tries < 2 ^ LENGTH(32)" by (rule unsigned_less)
  then have "unat (of_nat ?m :: 32 word) = ?m" using m(1) by (simp add: unat_of_nat)
  then have "unat (tries - of_nat ?m) = unat tries - ?m" using m(1) by (simp add: unat_sub word_le_nat_alt)
  then have t: "tries - of_nat ?m \<noteq> 0" using m(1) by auto
  have z: "zend_accel_error v ACCEL_LOG_ERROR = None" using assms(1) by (simp add: zend_accel_error_def)
  have "kill_tries v e pid tries ks = kill_tries v e pid (tries - of_nat ?m) (ks @ replicate ?m pid)"
    by (rule kill_tries_steps [OF assms(1)]) (use assms(2) m in auto)
  also have "\<dots> = Some (None, tries - of_nat ?m - 1, (ks @ replicate ?m pid) @ [pid])"
    using t z m(2) assms(3,4) by (subst kill_tries.simps) simp
  also have "\<dots> = Some (None, tries - of_nat (Suc ?m), ks @ replicate (Suc ?m) pid)"
    by (simp add: replicate_append_same)
  finally show ?thesis using assms(5) by (simp add: Suc_diff_le)
qed

text \<open>When no tries are left, \<open>tries\<close> is -1, and a round starts that survives as well.\<close>

lemma kill_lockers_stuck:
  assumes "kill_lockers v e n pid tries ks S = Some r"
  shows "v < 1 \<Longrightarrow> \<forall>i. \<not> kill_fails e i \<and> \<not> gone e i \<Longrightarrow> \<forall>i. \<exists>p > 0. next_locker e i = Getlk_Locked p \<Longrightarrow> \<not> 0 < pid"
  using assms
proof (induction v e n pid tries ks S r rule: kill_lockers.raw_induct [rotated, consumes 1, case_names 1])
  case (1 f v e n pid tries ks S r)
  obtain p where p: "p > 0" "next_locker e n = Getlk_Locked p" using 1(5) by blast
  have k: "kill_tries v e pid tries ks = Some (None, -1, ks @ replicate (unat tries) pid)"
    by (rule kill_tries_none_left) (use 1(3,4) in auto)
  show ?case
  proof
    assume "0 < pid"
    then have "f v e (Suc n) p (- 1) (ks @ replicate (unat tries) pid) S = Some r" using 1(2) by (simp add: k p)
    then show False using 1(1) 1(3-5) p(1) by blast
  qed
qed

text \<open>C17. With error messages not logged, \<open>kill_all_lockers\<close> does not return as long as processes hold
  locks on the memory and survive every signal: when the ten tries are used up \<open>tries\<close> is -1, so the
  test \<open>!tries\<close> fails, the time of the forced restart is not restored, and the next round counts
  down from -1.\<close>

theorem kill_all_lockers_never_returns:
  assumes "v < 1" and "0 < pid" and "\<forall>i. \<not> kill_fails e i \<and> \<not> gone e i" and "\<forall>i. \<exists>p > 0. next_locker e i = Getlk_Locked p"
  shows "kill_all_lockers v e pid S = None"
  using kill_lockers_stuck [of v e 0 pid 10 "[]" "S\<lparr>force_restart_time := 0\<rparr>"] assms
  unfolding kill_all_lockers_def by (metis not_None_eq)

text \<open>C38. The ten tries are no limit: a process that dies only at a later signal, before the counter
  has wrapped around, gets all of them, without the message that it cannot be killed, and the time of the
  forced restart stays cleared.\<close>

theorem kill_all_lockers_no_limit:
  assumes "v < 1" and "0 < pid" and "\<forall>i < n. \<not> kill_fails e i \<and> \<not> gone e i" and "\<not> kill_fails e n" and "gone e n"
    and "10 \<le> n" and "n < 10 + (2 ^ 32 - 1) - 1" and "next_locker e 0 = Getlk_Locked pid" and "next_locker e 1 = Getlk_Unlocked"
  shows "kill_all_lockers v e pid S = Some (None, replicate (Suc n) pid, S\<lparr>force_restart_time := 0\<rparr>)"
proof -
  let ?S = "S\<lparr>force_restart_time := 0\<rparr>"
  have u: "unat (- 1 :: 32 word) = 2 ^ 32 - 1" by (simp add: unsigned_minus_1_eq_mask mask_eq_exp_minus_1)
  have "kill_tries v e pid 10 [] = Some (None, -1, replicate 10 pid)"
    using kill_tries_none_left [of v "[]" 10 e pid] assms(1,3,6) by simp
  then have "kill_all_lockers v e pid S = kill_lockers v e 1 pid (- 1) (replicate 10 pid) ?S"
    using assms(2,8) by (simp add: kill_all_lockers_def kill_lockers.simps [of v e 0 pid 10 "[]"])
  moreover have "kill_tries v e pid (- 1) (replicate 10 pid)
      = Some (None, - 1 - of_nat (Suc n - 10), replicate 10 pid @ replicate (Suc n - 10) pid)"
    using kill_tries_gone [of v n e "replicate 10 pid" "- 1" pid] assms(1,3-7) unfolding u by simp
  moreover have "replicate 10 pid @ replicate (Suc n - 10) pid = replicate (Suc n) pid"
    using assms(6) by (simp flip: replicate_add)
  moreover have "(- 1 - of_nat (Suc n - 10) :: 32 word) \<noteq> 0"
  proof -
    have "Suc (Suc n - 10) < 2 ^ 32" using assms(6,7) by simp
    then have "unat (of_nat (Suc (Suc n - 10)) :: 32 word) = Suc (Suc n - 10)" by (simp only: unat_of_nat) simp
    then have "(of_nat (Suc (Suc n - 10)) :: 32 word) \<noteq> 0" by (metis nat.distinct(1) unat_0)
    moreover have "(- 1 - of_nat (Suc n - 10) :: 32 word) = - of_nat (Suc (Suc n - 10))" by simp
    ultimately show ?thesis by (metis neg_equal_0_iff_equal)
  qed
  ultimately show ?thesis
    using assms(2,9) by (simp add: kill_lockers.simps [of v e "Suc 0" pid "- 1"])
qed

section \<open>A concrete state\<close>

definition demo_directives :: zend_accel_directives where
  "demo_directives = \<lparr>waste_limit_reached = (\<lambda>w. 50 \<le> w), consistency_checks = 0, force_restart_timeout = 180,
     use_cwd = True, validate_timestamps = True, revalidate_path = False, revalidate_freq = 2, file_update_protection = 2,
     log_verbosity_level = 1, max_file_size = 0, interned_strings_buffer = 4\<rparr>"

definition demo_process :: accel_globals where
  "demo_process = \<lparr>enabled = True, counted = False, request_time = 0, cwd = None, include_path = [],
     include_path_key = None, include_path_check = False, cache_opline = None, cache_persistent_script = None,
     key_buffer = []\<rparr>"

definition demo_shared :: accel_shared_globals where
  "demo_shared = \<lparr>hits = 3, misses = 2, blacklist_misses = 1, oom_restarts = 0, hash_restarts = 0, manual_restarts = 0,
     scripts_hash = demo_table, include_paths = empty_hash 5, last_restart_time = 0, force_restart_time = 0,
     accelerator_enabled = True, restart_pending = False, restart_reason = ACCEL_RESTART_OOM,
     cache_status_before_restart = False, restart_in_progress = False, interned_table = demo_interned,
     interned_strings_saved_state = accel_interned_strings_save_state demo_interned,
     smm = zend_shared_alloc_save_state demo_smm\<rparr>"

lemma demo_empty_paths: "paths_inv hashf (empty_hash 5 :: 'd zend_accel_hash)"
proof -
  have b: "(0::nat) < 5" "(5::nat) < two32" by (simp_all add: two32_def)
  show ?thesis by (simp add: paths_inv_def index_inv_def empty_view(1) [OF b] empty_view(2) [OF b])
qed

lemma demo_shared_inv: "state_inv Accel_Hash.demo_hash Interned.demo_hash demo_shared"
proof -
  have "snapshot_of Interned.demo_hash (accel_interned_strings_save_state demo_interned) demo_interned"
    by (rule snapshot_self [OF demo_interned_inv])
  moreover have "smm_inv (zend_shared_alloc_save_state demo_smm)"
    "smm_inv (zend_shared_alloc_restore_state (zend_shared_alloc_save_state demo_smm))"
    by (simp_all add: zend_shared_alloc_save_state_def zend_shared_alloc_restore_state_def demo_smm_def smm_inv_def
        seg_ok_def two64_def int_to_size_to_int32)
  ultimately show ?thesis
    using demo_table_view(1) demo_empty_paths demo_interned_inv by (simp add: state_inv_def demo_shared_def)
qed

definition demo_os :: os where
  "demo_os = \<lparr>kill_fails = (\<lambda>_. False), gone = (\<lambda>_. False), next_locker = (\<lambda>_. Getlk_Locked 77), os_time = 1000\<rparr>"

lemma accel_activate_restarts_witness:
  "\<exists>G' S'. accel_activate demo_directives Accel_Hash.demo_hash demo_os True Getlk_Unlocked 1000 demo_process
       (demo_shared\<lparr>restart_pending := True\<rparr>) = Some (None, G', S')
     \<and> zend_accel_hash_find Accel_Hash.demo_hash (scripts_hash S') ''a'' 1 = Some NULL \<and> oom_restarts S' = 1
     \<and> accel_interned_strings_save_state (interned_table S') = interned_strings_saved_state demo_shared"
proof -
  let ?S = "demo_shared\<lparr>restart_pending := True\<rparr>"
  have inv: "state_inv Accel_Hash.demo_hash Interned.demo_hash ?S" using demo_shared_inv by (simp add: state_inv_def)
  have "length (saved_positions (smm ?S)) = length (shared_segments (smm ?S))" "restart_pending ?S" "enabled demo_process"
    by (simp_all add: demo_shared_def demo_process_def zend_shared_alloc_save_state_def)
  from accel_activate_restarts [OF inv this, of demo_directives demo_os 1000] obtain G' S' where
    "accel_activate demo_directives Accel_Hash.demo_hash demo_os True Getlk_Unlocked 1000 demo_process ?S = Some (None, G', S')"
    "\<forall>k. zend_accel_hash_find Accel_Hash.demo_hash (scripts_hash S') k (length k) = Some NULL"
    "oom_restarts S' = oom_restarts ?S + of_bool (restart_reason ?S = ACCEL_RESTART_OOM)"
    "accel_interned_strings_save_state (interned_table S') = interned_strings_saved_state ?S"
    by (fastforce simp: demo_directives_def)
  then show ?thesis by (intro exI [of _ G'] exI [of _ S']) (auto simp: demo_shared_def dest: spec [of _ "''a''"])
qed

lemma schedule_restart_cycle_witness:
  "\<exists>S1. zend_accel_schedule_restart demo_directives 5 ACCEL_RESTART_HASH demo_shared = S1 \<and> \<not> accelerator_enabled S1
     \<and> zend_accel_schedule_restart demo_directives 6 ACCEL_RESTART_USER S1 = S1"
  using schedule_restart_cycle [of demo_shared demo_process demo_directives 5 ACCEL_RESTART_HASH 6 ACCEL_RESTART_USER
      Accel_Hash.demo_hash demo_os 1000] by (auto simp: demo_shared_def demo_process_def)

lemma kill_all_lockers_bails_out_witness:
  "kill_all_lockers 1 demo_os 77 demo_shared = Some (Some Zend_Bailout, [], demo_shared)"
  using kill_all_lockers_bails_out [of 1 77 demo_os demo_shared] by (simp add: demo_shared_def)

lemma kill_all_lockers_never_returns_witness: "kill_all_lockers 0 demo_os 77 demo_shared = None"
  by (rule kill_all_lockers_never_returns) (simp_all add: demo_os_def)

lemma kill_all_lockers_no_limit_witness:
  "kill_all_lockers 0 (demo_os\<lparr>gone := (\<lambda>i. i = 99), next_locker := (\<lambda>n. if n = 0 then Getlk_Locked 77 else Getlk_Unlocked)\<rparr>) 77 demo_shared
     = Some (None, replicate 100 77, demo_shared\<lparr>force_restart_time := 0\<rparr>)"
  using kill_all_lockers_no_limit [of 0 77 99 "demo_os\<lparr>gone := (\<lambda>i. i = 99), next_locker := (\<lambda>n. if n = 0 then Getlk_Locked 77 else Getlk_Unlocked)\<rparr>" demo_shared]
  by (simp add: demo_os_def)

end
