(* ===== verification/Locks.thy ===== *)
theory Locks
  imports Prelude
begin

text \<open>
  The processes that share the memory, and the locks between them: the requests that read
  the cache (\<open>persistent_compile_file\<close>, \<open>accelerator_shm_read_lock\<close>), the scheduling of a
  restart (\<open>zend_accel_schedule_restart\<close>), and the restart itself (\<open>accel_activate\<close>), as an
  interleaving of their accesses: every \<open>fcntl\<close> call, and every read or write of a shared flag, is
  one step. The memory is cleaned between the step that sets \<open>restart_in_progress\<close> and the one that
  enables the cache again.

  The lock file has three bytes: byte 0 is the exclusive lock (\<open>writer\<close>), byte 1 holds a read
  lock for every process that uses the memory (\<open>readers\<close>), byte 2 is locked during a restart
  (\<open>restarter\<close>). A process cannot conflict with its own locks, and \<open>F_GETLK\<close> does not see them.
\<close>

section \<open>State\<close>

text \<open>Where a process is: between requests or without the memory (\<open>Idle\<close>); in
  \<open>persistent_compile_file\<close>, after it read \<open>accelerator_enabled\<close> (\<open>Checked\<close>), found
  \<open>restart_in_progress\<close> set (\<open>Flag_Seen\<close>), found no lock behind it (\<open>Flag_Stale\<close>), found no running
  restart (\<open>Ready\<close>), or using the memory with \<open>counted\<close> set (\<open>Inside\<close>); in the functions behind
  \<open>accelerator_shm_read_lock\<close>; in \<open>accel_activate\<close>, after it saw a pending restart, with the exclusive
  lock, after it saw the pending restart again, after \<open>accel_is_inactive\<close> returned \<open>SUCCESS\<close>, after it
  reset \<open>restart_pending\<close>, with the lock on byte 2, cleaning the memory, after it read
  \<open>cache_status_before_restart\<close>, after it enabled the cache, and after it reset
  \<open>restart_in_progress\<close> and gave back byte 2.\<close>

datatype pc = Idle | Checked | Flag_Seen | Flag_Stale | Ready | Inside
  | Api_Checked | Api_Locked | Api_Inside
  | Restart_Seen | Restart_Locked | Restart_Sure | Restart_Alone | Restart_Free | Restart_Entered | Restart_Cleaning
  | Restart_Status bool | Restart_Enabled | Restart_Left | Restart_Done

text \<open>Where it is in \<open>zend_accel_schedule_restart\<close>: called, after it found no restart pending, after
  it set \<open>restart_pending\<close>, after it read \<open>accelerator_enabled\<close>, and after it stored the value.\<close>

datatype scheduling = Not_Scheduling | Called | Sure | Pending | Status bool | Stored

record sys =
  accelerator_enabled :: bool
  restart_pending :: bool
  cache_status_before_restart :: bool
  restart_in_progress :: bool
  writer :: "nat option"
  readers :: "nat set"
  restarter :: "nat option"
  pcs :: "nat \<Rightarrow> pc"
  schedules :: "nat \<Rightarrow> scheduling"

definition goto :: "nat \<Rightarrow> pc \<Rightarrow> sys \<Rightarrow> sys" where
  "goto p c S = S\<lparr>pcs := (pcs S)(p := c)\<rparr>"

definition schedule_at :: "nat \<Rightarrow> scheduling \<Rightarrow> sys \<Rightarrow> sys" where
  "schedule_at p c S = S\<lparr>schedules := (schedules S)(p := c)\<rparr>"

section \<open>The operations on the locks\<close>

definition accel_activate_add :: "nat \<Rightarrow> sys \<Rightarrow> sys" where
  "accel_activate_add p S = S\<lparr>readers := insert p (readers S)\<rparr>"

definition accel_deactivate_sub :: "nat \<Rightarrow> sys \<Rightarrow> sys" where
  "accel_deactivate_sub p S = S\<lparr>readers := readers S - {p}\<rparr>"

definition accel_unlock_all :: "nat \<Rightarrow> sys \<Rightarrow> sys" where
  "accel_unlock_all p S =
     S\<lparr>readers := readers S - {p}, writer := (if writer S = Some p then None else writer S),
       restarter := (if restarter S = Some p then None else restarter S)\<rparr>"

text \<open>No other process has a read lock.\<close>

definition accel_is_inactive :: "nat \<Rightarrow> sys \<Rightarrow> bool" where
  "accel_is_inactive p S \<longleftrightarrow> readers S - {p} = {}"

text \<open>The lock and the flag of \<open>accel_restart_enter\<close> and \<open>accel_restart_leave\<close>; the test of the lock
  by \<open>accel_restart_is_active\<close>.\<close>

definition restart_lock :: "nat \<Rightarrow> sys \<Rightarrow> sys" where
  "restart_lock p S = S\<lparr>restarter := Some p\<rparr>"

definition restart_unlock :: "sys \<Rightarrow> sys" where
  "restart_unlock S = S\<lparr>restarter := None\<rparr>"

definition set_in_progress :: "bool \<Rightarrow> sys \<Rightarrow> sys" where
  "set_in_progress v S = S\<lparr>restart_in_progress := v\<rparr>"

definition restart_locked :: "nat \<Rightarrow> sys \<Rightarrow> bool" where
  "restart_locked p S \<longleftrightarrow> restarter S \<notin> {None, Some p}"

definition zend_shared_alloc_lock :: "nat \<Rightarrow> sys \<Rightarrow> sys option" where
  "zend_shared_alloc_lock p S = (if writer S \<in> {None, Some p} then Some (S\<lparr>writer := Some p\<rparr>) else None)"

definition zend_shared_alloc_unlock :: "nat \<Rightarrow> sys \<Rightarrow> sys" where
  "zend_shared_alloc_unlock p S = S\<lparr>writer := None\<rparr>"

section \<open>Steps\<close>

text \<open>With \<open>quiet\<close>, \<open>accel_is_inactive\<close> is only called while no process is between its test of
  \<open>accelerator_enabled\<close> and its use of the memory, and none is in \<open>zend_accel_schedule_restart\<close>.\<close>

definition on_the_way :: "pc set" where
  "on_the_way = {Checked, Flag_Seen, Flag_Stale, Ready, Api_Checked, Api_Locked}"

definition all_quiet :: "sys \<Rightarrow> bool" where
  "all_quiet S \<longleftrightarrow> (\<forall>q. pcs S q \<notin> on_the_way \<and> schedules S q = Not_Scheduling)"

text \<open>The accesses of a process \<open>p\<close> outside of \<open>zend_accel_schedule_restart\<close>.\<close>

inductive act :: "bool \<Rightarrow> nat \<Rightarrow> sys \<Rightarrow> sys \<Rightarrow> bool" for quiet p where
  check: "pcs S p = Idle \<Longrightarrow> accelerator_enabled S \<Longrightarrow> act quiet p S (goto p Checked S)"
| no_flag: "pcs S p = Checked \<Longrightarrow> \<not> restart_in_progress S \<Longrightarrow> act quiet p S (goto p Ready S)"
| flag: "pcs S p = Checked \<Longrightarrow> restart_in_progress S \<Longrightarrow> act quiet p S (goto p Flag_Seen S)"
| refuse: "pcs S p = Flag_Seen \<Longrightarrow> restart_locked p S \<Longrightarrow> act quiet p S (goto p Idle S)"
| stale: "pcs S p = Flag_Seen \<Longrightarrow> \<not> restart_locked p S \<Longrightarrow> act quiet p S (goto p Flag_Stale S)"
| take_back: "pcs S p = Flag_Stale \<Longrightarrow> act quiet p S (goto p Ready (set_in_progress False S))"
| enter: "pcs S p = Ready \<Longrightarrow> act quiet p S (goto p Inside (accel_activate_add p S))"
| finish: "pcs S p = Inside \<Longrightarrow> act quiet p S (goto p Idle (accel_unlock_all p S))"
| api_check: "pcs S p = Idle \<Longrightarrow> accelerator_enabled S \<Longrightarrow> act quiet p S (goto p Api_Checked S)"
| api_lock: "pcs S p = Api_Checked \<Longrightarrow> act quiet p S (goto p Api_Locked (accel_activate_add p S))"
| api_enter: "pcs S p = Api_Locked \<Longrightarrow> \<not> restart_in_progress S \<Longrightarrow> act quiet p S (goto p Api_Inside S)"
| api_back: "pcs S p = Api_Locked \<Longrightarrow> restart_in_progress S \<Longrightarrow> act quiet p S (goto p Idle (accel_deactivate_sub p S))"
| api_leave: "pcs S p = Api_Inside \<Longrightarrow> act quiet p S (goto p Idle (accel_deactivate_sub p S))"
| see: "pcs S p = Idle \<Longrightarrow> restart_pending S \<Longrightarrow> act quiet p S (goto p Restart_Seen S)"
| lock: "pcs S p = Restart_Seen \<Longrightarrow> zend_shared_alloc_lock p S = Some S1 \<Longrightarrow> act quiet p S (goto p Restart_Locked S1)"
| see_again: "pcs S p = Restart_Locked \<Longrightarrow> restart_pending S \<Longrightarrow> act quiet p S (goto p Restart_Sure S)"
| too_late: "pcs S p = Restart_Locked \<Longrightarrow> \<not> restart_pending S \<Longrightarrow> act quiet p S (goto p Idle (zend_shared_alloc_unlock p S))"
| give_up: "pcs S p = Restart_Sure \<Longrightarrow> \<not> accel_is_inactive p S \<Longrightarrow> act quiet p S (goto p Idle (zend_shared_alloc_unlock p S))"
| alone: "pcs S p = Restart_Sure \<Longrightarrow> accel_is_inactive p S \<Longrightarrow> quiet \<longrightarrow> all_quiet S \<Longrightarrow> act quiet p S (goto p Restart_Alone S)"
| not_pending: "pcs S p = Restart_Alone \<Longrightarrow> act quiet p S (goto p Restart_Free (S\<lparr>restart_pending := False\<rparr>))"
| enter_lock: "pcs S p = Restart_Free \<Longrightarrow> act quiet p S (goto p Restart_Entered (restart_lock p S))"
| enter_flag: "pcs S p = Restart_Entered \<Longrightarrow> act quiet p S (goto p Restart_Cleaning (set_in_progress True S))"
| read_status: "pcs S p = Restart_Cleaning \<Longrightarrow> act quiet p S (goto p (Restart_Status (cache_status_before_restart S)) S)"
| enable: "pcs S p = Restart_Status v \<Longrightarrow> act quiet p S (goto p Restart_Enabled (S\<lparr>accelerator_enabled := v\<rparr>))"
| leave_flag: "pcs S p = Restart_Enabled \<Longrightarrow> act quiet p S (goto p Restart_Left (set_in_progress False S))"
| leave_lock: "pcs S p = Restart_Left \<Longrightarrow> act quiet p S (goto p Restart_Done (restart_unlock S))"
| unlock: "pcs S p = Restart_Done \<Longrightarrow> act quiet p S (goto p Idle (zend_shared_alloc_unlock p S))"

text \<open>The accesses of \<open>zend_accel_schedule_restart\<close>, which is called while the memory is used, and
  by \<open>opcache_reset\<close> without a lock, after it read \<open>accelerator_enabled\<close>.\<close>

inductive schedule_step :: "nat \<Rightarrow> sys \<Rightarrow> sys \<Rightarrow> bool" for p where
  call: "schedules S p = Not_Scheduling \<Longrightarrow> pcs S p \<in> {Inside, Api_Inside} \<or> (pcs S p = Idle \<and> accelerator_enabled S) \<Longrightarrow>
    schedule_step p S (schedule_at p Called S)"
| twice: "schedules S p = Called \<Longrightarrow> restart_pending S \<Longrightarrow> schedule_step p S (schedule_at p Not_Scheduling S)"
| once: "schedules S p = Called \<Longrightarrow> \<not> restart_pending S \<Longrightarrow> schedule_step p S (schedule_at p Sure S)"
| set_pending: "schedules S p = Sure \<Longrightarrow> schedule_step p S (schedule_at p Pending (S\<lparr>restart_pending := True\<rparr>))"
| get_status: "schedules S p = Pending \<Longrightarrow> schedule_step p S (schedule_at p (Status (accelerator_enabled S)) S)"
| store_status: "schedules S p = Status v \<Longrightarrow> schedule_step p S (schedule_at p Stored (S\<lparr>cache_status_before_restart := v\<rparr>))"
| disable: "schedules S p = Stored \<Longrightarrow> schedule_step p S (schedule_at p Not_Scheduling (S\<lparr>accelerator_enabled := False\<rparr>))"

text \<open>A process that schedules a restart does nothing else.\<close>

inductive step :: "bool \<Rightarrow> nat \<Rightarrow> sys \<Rightarrow> sys \<Rightarrow> bool" for quiet p where
  acts: "schedules S p = Not_Scheduling \<Longrightarrow> act quiet p S S' \<Longrightarrow> step quiet p S S'"
| schedule: "schedule_step p S S' \<Longrightarrow> step quiet p S S'"

definition boot :: sys where
  "boot = \<lparr>accelerator_enabled = True, restart_pending = False, cache_status_before_restart = False,
     restart_in_progress = False, writer = None, readers = {}, restarter = None, pcs = (\<lambda>_. Idle), schedules = (\<lambda>_. Not_Scheduling)\<rparr>"

inductive reachable :: "bool \<Rightarrow> sys \<Rightarrow> bool" for quiet where
  init: "reachable quiet boot"
| step: "reachable quiet S \<Longrightarrow> step quiet p S S' \<Longrightarrow> reachable quiet S'"

definition uses_memory :: "sys \<Rightarrow> nat \<Rightarrow> bool" where
  "uses_memory S p \<longleftrightarrow> pcs S p \<in> {Inside, Api_Inside}"

definition cleans_memory :: "sys \<Rightarrow> nat \<Rightarrow> bool" where
  "cleans_memory S p \<longleftrightarrow> pcs S p = Restart_Cleaning"

section \<open>Invariants\<close>

text \<open>Locks are held where the code says: the exclusive lock by the one process in its section,
  the read lock by the users of the memory.\<close>

fun has_writer :: "pc \<Rightarrow> bool" where
  "has_writer Restart_Locked = True" | "has_writer Restart_Sure = True" | "has_writer Restart_Alone = True"
| "has_writer Restart_Free = True" | "has_writer Restart_Entered = True" | "has_writer Restart_Cleaning = True"
| "has_writer (Restart_Status _) = True" | "has_writer Restart_Enabled = True" | "has_writer Restart_Left = True"
| "has_writer Restart_Done = True" | "has_writer _ = False"

fun has_restarter :: "pc \<Rightarrow> bool" where
  "has_restarter Restart_Entered = True" | "has_restarter Restart_Cleaning = True" | "has_restarter (Restart_Status _) = True"
| "has_restarter Restart_Enabled = True" | "has_restarter Restart_Left = True" | "has_restarter _ = False"

fun has_reader :: "pc \<Rightarrow> bool" where
  "has_reader Inside = True" | "has_reader Api_Locked = True" | "has_reader Api_Inside = True" | "has_reader _ = False"

lemma restarter_writer: "has_restarter c \<Longrightarrow> has_writer c"
  by (cases c) simp_all

definition locks_at :: "sys \<Rightarrow> nat \<Rightarrow> bool" where
  "locks_at S p \<longleftrightarrow> (writer S = Some p) = has_writer (pcs S p) \<and> (p \<in> readers S) = has_reader (pcs S p)
     \<and> (restarter S = Some p) = has_restarter (pcs S p)"

lemmas lock_ops = goto_def schedule_at_def accel_activate_add_def accel_deactivate_sub_def accel_unlock_all_def accel_is_inactive_def
  restart_lock_def restart_unlock_def set_in_progress_def restart_locked_def zend_shared_alloc_lock_def zend_shared_alloc_unlock_def

lemma locks_at_self: "act quiet p S S' \<Longrightarrow> locks_at S p \<Longrightarrow> locks_at S' p"
  by (erule act.cases; simp add: locks_at_def lock_ops split: if_splits; auto)

lemma locks_at_other: "act quiet p S S' \<Longrightarrow> q \<noteq> p \<Longrightarrow> locks_at S p \<Longrightarrow> locks_at S q \<Longrightarrow> locks_at S' q"
  by (erule act.cases; simp add: locks_at_def lock_ops split: if_splits; auto dest: restarter_writer)

lemma schedule_keeps:
  "schedule_step p S S' \<Longrightarrow> writer S' = writer S \<and> readers S' = readers S \<and> restarter S' = restarter S \<and> pcs S' = pcs S
     \<and> restart_in_progress S' = restart_in_progress S"
  by (erule schedule_step.cases) (simp_all add: schedule_at_def)

lemma locks_at_step:
  assumes "step quiet p S S'" "locks_at S p" "locks_at S q"
  shows "locks_at S' q"
  using assms(1)
proof cases
  case acts
  then show ?thesis using assms(2,3) locks_at_self locks_at_other by metis
next
  case schedule
  then show ?thesis using assms(3) by (simp add: locks_at_def schedule_keeps)
qed

lemma reachable_locks: "reachable quiet S \<Longrightarrow> locks_at S p"
proof (induction arbitrary: p rule: reachable.induct)
  case init
  then show ?case by (simp add: boot_def locks_at_def lock_ops)
next
  case (step S p' S')
  then show ?case by (blast intro: locks_at_step)
qed

text \<open>\<open>restarting\<close> and \<open>busy\<close>: what excludes each other in a quiet run.\<close>

fun restarting :: "pc \<Rightarrow> bool" where
  "restarting Restart_Alone = True" | "restarting Restart_Free = True" | "restarting Restart_Entered = True"
| "restarting Restart_Cleaning = True" | "restarting (Restart_Status _) = True" | "restarting _ = False"

fun busy :: "pc \<Rightarrow> bool" where
  "busy Inside = True" | "busy Api_Inside = True" | "busy Checked = True" | "busy Flag_Seen = True" | "busy Flag_Stale = True"
| "busy Ready = True" | "busy Api_Checked = True" | "busy Api_Locked = True" | "busy _ = False"

lemma restarting_writer: "restarting c \<Longrightarrow> has_writer c"
  by (cases c) simp_all

text \<open>A process that has set \<open>restart_pending\<close> and not yet reset \<open>accelerator_enabled\<close>.\<close>

fun half_scheduled :: "scheduling \<Rightarrow> bool" where
  "half_scheduled Pending = True" | "half_scheduled (Status _) = True" | "half_scheduled Stored = True" | "half_scheduled _ = False"

definition no_half :: "sys \<Rightarrow> bool" where
  "no_half S \<longleftrightarrow> (\<forall>q. \<not> half_scheduled (schedules S q))"

definition off :: "sys \<Rightarrow> bool" where
  "off S \<longleftrightarrow> (restart_pending S \<and> no_half S \<longrightarrow> \<not> accelerator_enabled S)"

definition apart :: "sys \<Rightarrow> nat \<Rightarrow> nat \<Rightarrow> bool" where
  "apart S r t \<longleftrightarrow> (restarting (pcs S r) \<longrightarrow>
     \<not> accelerator_enabled S \<and> (restart_pending S \<longrightarrow> pcs S r = Restart_Alone) \<and> \<not> busy (pcs S t) \<and> schedules S t = Not_Scheduling)"

definition still_pending :: "sys \<Rightarrow> nat \<Rightarrow> bool" where
  "still_pending S r \<longleftrightarrow> (pcs S r = Restart_Sure \<longrightarrow> restart_pending S)"

definition quiet_inv :: "sys \<Rightarrow> bool" where
  "quiet_inv S \<longleftrightarrow> off S \<and> (\<forall>r t. apart S r t) \<and> (\<forall>r. still_pending S r)"

lemma writer_unique: "locks_at S p \<Longrightarrow> locks_at S r \<Longrightarrow> has_writer (pcs S p) \<Longrightarrow> has_writer (pcs S r) \<Longrightarrow> r = p"
  by (simp add: locks_at_def)

lemma apart_alone:
  assumes p: "pcs S p = Restart_Sure" "accel_is_inactive p S" "all_quiet S" and l: "\<And>r. locks_at S r" and q: "off S" "still_pending S p"
  shows "apart (goto p Restart_Alone S) r t"
proof -
  have a: "schedules S t = Not_Scheduling" "pcs S t \<notin> on_the_way" "no_half S" using p(3) by (simp_all add: all_quiet_def no_half_def)
  have "busy d \<Longrightarrow> has_reader d \<or> d \<in> on_the_way" for d by (cases d) (simp_all add: on_the_way_def)
  moreover have "\<not> has_reader (pcs S t)" if "t \<noteq> p"
    using p(2) l [of t] that by (auto simp: accel_is_inactive_def locks_at_def)
  ultimately have n: "\<not> busy (pcs S t)" using p(1) a(2) by (cases "t = p") auto
  have e: "\<not> accelerator_enabled S" using q p(1) a(3) by (simp add: still_pending_def off_def)
  have o: "r = p" if "has_writer (pcs S r)" using writer_unique [OF l l, of p r] p(1) that by simp
  show ?thesis
  proof (cases "r = p")
    case True
    then show ?thesis using n e a(1) by (simp add: apart_def goto_def)
  next
    case False
    then have "\<not> restarting (pcs S r)" using o restarting_writer by blast
    then show ?thesis using False by (simp add: apart_def goto_def)
  qed
qed

lemma act_schedules: "act quiet p S S' \<Longrightarrow> schedules S' = schedules S"
  by (erule act.cases) (auto simp: lock_ops split: if_splits)

lemma off_act:
  assumes "act quiet p S S'" "off S" "apart S p p"
  shows "off S'"
proof -
  have n: "no_half S' = no_half S" using act_schedules [OF assms(1)] by (simp add: no_half_def)
  show ?thesis using assms(1)
    by cases (use n assms(2,3) in \<open>auto simp: off_def apart_def lock_ops split: if_splits\<close>)
qed

lemma still_pending_act:
  assumes "act quiet p S S'" "still_pending S r" "has_writer (pcs S p) \<Longrightarrow> has_writer (pcs S r) \<Longrightarrow> r = p"
  shows "still_pending S' r"
  using assms(1)
proof cases
  case not_pending
  then show ?thesis using assms(2,3) by (cases "r = p") (auto simp: still_pending_def lock_ops)
qed (use assms(2) in \<open>auto simp: still_pending_def lock_ops split: if_splits\<close>)

lemma apart_act:
  assumes st: "act True p S S'" and l: "\<And>r. locks_at S r" and i: "schedules S p = Not_Scheduling" and q: "quiet_inv S"
  shows "apart S' r t"
proof -
  have a: "apart S r t" "apart S p t" "apart S r p" "apart S p p" and sp: "off S" "still_pending S p" using q by (simp_all add: quiet_inv_def)
  have o: "has_writer (pcs S p) \<Longrightarrow> restarting (pcs S r) \<Longrightarrow> r = p"
    using writer_unique [OF l l, of p r] restarting_writer by blast
  show ?thesis using st
  proof cases
    case alone
    then show ?thesis using apart_alone [OF alone(2,3) _ l sp] by simp
  qed (use a o i in \<open>cases "r = p"; cases "t = p"; force simp: apart_def lock_ops split: if_splits\<close>)+
qed

lemma quiet_inv_schedule:
  assumes st: "schedule_step p S S'" and q: "quiet_inv S"
  shows "quiet_inv S'"
proof -
  have k: "pcs S' = pcs S" using schedule_keeps [OF st] by simp
  have "apart S' r t" for r t
  proof -
    have "apart S r t" "apart S r p" using q by (simp_all add: quiet_inv_def)
    with st show ?thesis by (cases rule: schedule_step.cases) (auto simp: apart_def schedule_at_def)
  qed
  moreover have "still_pending S' r" for r
  proof -
    have "still_pending S r" using q by (simp add: quiet_inv_def)
    with st show ?thesis by (cases rule: schedule_step.cases) (auto simp: still_pending_def schedule_at_def)
  qed
  moreover have "off S'"
  proof -
    have h: "no_half S' \<Longrightarrow> \<not> half_scheduled (schedules S' p)" by (simp add: no_half_def)
    have n: "no_half S" if "no_half S'" "\<not> half_scheduled (schedules S p)"
      unfolding no_half_def
    proof
      fix r
      have "r = p \<or> schedules S r = schedules S' r" using st by (cases rule: schedule_step.cases) (auto simp: schedule_at_def)
      then show "\<not> half_scheduled (schedules S r)" using that by (auto simp: no_half_def)
    qed
    have "off S" using q by (simp add: quiet_inv_def)
    with st show ?thesis
      by (cases rule: schedule_step.cases) (use h n in \<open>auto simp: off_def schedule_at_def\<close>)
  qed
  ultimately show ?thesis by (simp add: quiet_inv_def)
qed

lemma reachable_quiet: "reachable True S \<Longrightarrow> quiet_inv S"
proof (induction rule: reachable.induct)
  case init
  then show ?case by (simp add: boot_def quiet_inv_def off_def apart_def still_pending_def)
next
  case (step S p S')
  have l: "\<And>r. locks_at S r" by (rule reachable_locks [OF step.hyps(1)])
  from step.hyps(2) show ?case
  proof cases
    case acts
    have q: "off S" "apart S p p" "still_pending S r" for r using step.IH by (simp_all add: quiet_inv_def)
    show ?thesis
      unfolding quiet_inv_def
      using off_act [OF acts(2) q(1,2)] apart_act [OF acts(2) l acts(1) step.IH] still_pending_act [OF acts(2) q(3)] writer_unique [OF l l] by blast
  next
    case schedule
    then show ?thesis using quiet_inv_schedule step.IH by blast
  qed
qed

section \<open>Properties\<close>

text \<open>In every interleaving, at most one process is in the section of the exclusive lock,
  where restarts happen.\<close>

theorem one_writer:
  assumes "reachable quiet S" and "has_writer (pcs S p)" and "has_writer (pcs S q)"
  shows "p = q"
  using reachable_locks [OF assms(1), of p] reachable_locks [OF assms(1), of q] assms(2,3) by (simp add: locks_at_def)


text \<open>The restart that process \<open>p\<close> does, and the scheduling by process \<open>q\<close>, as runs of steps.\<close>

lemma reachable_act: "reachable quiet S \<Longrightarrow> act quiet p S S' \<Longrightarrow> schedules S p = Not_Scheduling \<Longrightarrow> reachable quiet S'"
  by (blast intro: reachable.step step.acts)

lemma reachable_schedule: "reachable quiet S \<Longrightarrow> schedule_step p S S' \<Longrightarrow> reachable quiet S'"
  by (blast intro: reachable.step step.schedule)

definition scheduled :: "sys \<Rightarrow> sys" where
  "scheduled S = S\<lparr>restart_pending := True, cache_status_before_restart := accelerator_enabled S, accelerator_enabled := False\<rparr>"

lemma run_schedule:
  assumes r: "reachable quiet S" and q: "schedules S q = Not_Scheduling" "pcs S q = Idle" "accelerator_enabled S" "\<not> restart_pending S"
  shows "reachable quiet (scheduled S)"
proof -
  let ?S1 = "schedule_at q Called S"
  let ?S2 = "schedule_at q Sure ?S1"
  let ?S3 = "schedule_at q Pending (?S2\<lparr>restart_pending := True\<rparr>)"
  let ?S4 = "schedule_at q (Status (accelerator_enabled ?S3)) ?S3"
  let ?S5 = "schedule_at q Stored (?S4\<lparr>cache_status_before_restart := accelerator_enabled ?S3\<rparr>)"
  let ?S6 = "schedule_at q Not_Scheduling (?S5\<lparr>accelerator_enabled := False\<rparr>)"
  have "reachable quiet ?S1" by (rule reachable_schedule [OF r call]) (use q in simp_all)
  then have "reachable quiet ?S2" by (rule reachable_schedule [OF _ once]) (use q in \<open>simp_all add: schedule_at_def\<close>)
  then have "reachable quiet ?S3" by (rule reachable_schedule [OF _ set_pending]) (simp add: schedule_at_def)
  then have "reachable quiet ?S4" by (rule reachable_schedule [OF _ get_status]) (simp add: schedule_at_def)
  then have "reachable quiet ?S5" by (rule reachable_schedule [OF _ store_status]) (simp add: schedule_at_def)
  then have "reachable quiet ?S6" by (rule reachable_schedule [OF _ disable]) (simp add: schedule_at_def)
  moreover have "?S6 = scheduled S" using q by (simp add: schedule_at_def scheduled_def fun_upd_idem)
  ultimately show ?thesis by simp
qed

text \<open>From a pending restart to the test for users, and from there to the cleaning.\<close>

lemma run_alone:
  assumes r: "reachable quiet S" and p: "schedules S p = Not_Scheduling" "pcs S p = Idle" "restart_pending S" "writer S = None" "readers S \<subseteq> {p}"
    and q: "quiet \<longrightarrow> (\<forall>q. pcs S q \<notin> on_the_way \<and> schedules S q = Not_Scheduling)"
  shows "reachable quiet (goto p Restart_Alone (S\<lparr>writer := Some p\<rparr>))"
proof -
  let ?S1 = "goto p Restart_Seen S"
  let ?S2 = "goto p Restart_Locked (?S1\<lparr>writer := Some p\<rparr>)"
  let ?S3 = "goto p Restart_Sure ?S2"
  let ?S4 = "goto p Restart_Alone ?S3"
  have "reachable quiet ?S1" by (rule reachable_act [OF r see]) (use p in simp_all)
  then have "reachable quiet ?S2" by (rule reachable_act [OF _ lock]) (use p in \<open>simp_all add: lock_ops\<close>)
  then have "reachable quiet ?S3" by (rule reachable_act [OF _ see_again]) (use p in \<open>simp_all add: lock_ops\<close>)
  then have "reachable quiet ?S4"
    by (rule reachable_act [OF _ alone]) (use p q in \<open>auto simp: lock_ops all_quiet_def on_the_way_def\<close>)
  then show ?thesis by (simp add: goto_def)
qed

lemma run_clean:
  assumes r: "reachable quiet S" and p: "schedules S p = Not_Scheduling" "pcs S p = Restart_Alone"
  shows "reachable quiet (goto p Restart_Cleaning (S\<lparr>restart_pending := False, restarter := Some p, restart_in_progress := True\<rparr>))"
proof -
  let ?S1 = "goto p Restart_Free (S\<lparr>restart_pending := False\<rparr>)"
  let ?S2 = "goto p Restart_Entered (restart_lock p ?S1)"
  let ?S3 = "goto p Restart_Cleaning (set_in_progress True ?S2)"
  have "reachable quiet ?S1" by (rule reachable_act [OF r not_pending]) (use p in simp_all)
  then have "reachable quiet ?S2" by (rule reachable_act [OF _ enter_lock]) (use p in \<open>simp_all add: lock_ops\<close>)
  then have "reachable quiet ?S3" by (rule reachable_act [OF _ enter_flag]) (use p in \<open>simp_all add: lock_ops\<close>)
  then show ?thesis by (simp add: lock_ops)
qed

text \<open>Without the proviso they are not exclusive: a process that tested
  \<open>accelerator_enabled\<close> before the restart was scheduled, and the running restart before
  \<open>restart_in_progress\<close> was set, uses the memory while it is cleaned.\<close>

theorem restart_race:
  "\<exists>S. reachable False S \<and> cleans_memory S 1 \<and> uses_memory S 0"
proof -
  let ?S2 = "goto 0 Ready (goto 0 Checked boot)"
  let ?S3 = "goto 1 Restart_Alone (scheduled ?S2\<lparr>writer := Some 1\<rparr>)"
  let ?S4 = "goto 0 Inside (accel_activate_add 0 ?S3)"
  let ?S5 = "goto 1 Restart_Cleaning (?S4\<lparr>restart_pending := False, restarter := Some 1, restart_in_progress := True\<rparr>)"
  have "reachable False (goto 0 Checked boot)" by (rule reachable_act [OF reachable.init check]) (simp_all add: boot_def)
  then have "reachable False ?S2" by (rule reachable_act [OF _ no_flag]) (simp_all add: boot_def lock_ops)
  then have "reachable False (scheduled ?S2)" by (rule run_schedule [where q = 2]) (simp_all add: boot_def lock_ops)
  then have "reachable False ?S3" by (rule run_alone) (simp_all add: boot_def lock_ops scheduled_def)
  then have "reachable False ?S4" by (rule reachable_act [OF _ enter]) (simp_all add: boot_def lock_ops scheduled_def)
  then have "reachable False ?S5" by (rule run_clean) (simp_all add: boot_def lock_ops scheduled_def)
  moreover have "cleans_memory ?S5 1 \<and> uses_memory ?S5 0" by (simp add: cleans_memory_def uses_memory_def lock_ops)
  ultimately show ?thesis by blast
qed

text \<open>Also when \<open>accel_is_inactive\<close> is only called while no process is on its way to the memory: a
  restart that another process does in the middle of \<open>zend_accel_schedule_restart\<close> finds the cache
  still enabled, and a process that read the flags before \<open>restart_in_progress\<close> was set uses the
  memory while it is cleaned.\<close>

theorem half_scheduled_race:
  "\<exists>S0 S. reachable False S0 \<and> pcs S0 1 = Restart_Sure \<and> accel_is_inactive 1 S0 \<and> (\<forall>q. pcs S0 q \<notin> on_the_way)
     \<and> reachable False (goto 1 Restart_Alone S0) \<and> reachable False S \<and> cleans_memory S 1 \<and> uses_memory S 0"
proof -
  let ?B1 = "schedule_at 2 Pending (schedule_at 2 Sure (schedule_at 2 Called boot)\<lparr>restart_pending := True\<rparr>)"
  let ?B2 = "goto 1 Restart_Sure (goto 1 Restart_Locked (goto 1 Restart_Seen ?B1\<lparr>writer := Some 1\<rparr>))"
  let ?B3 = "goto 1 Restart_Alone ?B2"
  let ?B4 = "goto 0 Ready (goto 0 Checked ?B3)"
  let ?B5 = "goto 0 Inside (accel_activate_add 0 ?B4)"
  let ?B6 = "goto 1 Restart_Cleaning (?B5\<lparr>restart_pending := False, restarter := Some 1, restart_in_progress := True\<rparr>)"
  have "reachable False (schedule_at 2 Called boot)" by (rule reachable_schedule [OF reachable.init call]) (simp_all add: boot_def)
  then have "reachable False (schedule_at 2 Sure (schedule_at 2 Called boot))"
    by (rule reachable_schedule [OF _ once]) (simp_all add: boot_def lock_ops)
  then have "reachable False ?B1" by (rule reachable_schedule [OF _ set_pending]) (simp add: lock_ops)
  then have "reachable False (goto 1 Restart_Seen ?B1)" by (rule reachable_act [OF _ see]) (simp_all add: boot_def lock_ops)
  then have "reachable False (goto 1 Restart_Locked (goto 1 Restart_Seen ?B1\<lparr>writer := Some 1\<rparr>))"
    by (rule reachable_act [OF _ lock]) (simp_all add: boot_def lock_ops)
  then have B2: "reachable False ?B2" by (rule reachable_act [OF _ see_again]) (simp_all add: boot_def lock_ops)
  then have B3: "reachable False ?B3" by (rule reachable_act [OF _ alone]) (simp_all add: boot_def lock_ops)
  then have "reachable False (goto 0 Checked ?B3)" by (rule reachable_act [OF _ check]) (simp_all add: boot_def lock_ops)
  then have "reachable False ?B4" by (rule reachable_act [OF _ no_flag]) (simp_all add: boot_def lock_ops)
  then have "reachable False ?B5" by (rule reachable_act [OF _ enter]) (simp_all add: boot_def lock_ops)
  then have B6: "reachable False ?B6" by (rule run_clean) (simp_all add: boot_def lock_ops)
  have "pcs ?B2 1 = Restart_Sure \<and> accel_is_inactive 1 ?B2 \<and> (\<forall>q. pcs ?B2 q \<notin> on_the_way)"
    by (simp add: boot_def lock_ops on_the_way_def)
  moreover have "cleans_memory ?B6 1 \<and> uses_memory ?B6 0" by (simp add: cleans_memory_def uses_memory_def lock_ops)
  ultimately show ?thesis using B2 B3 B6 by blast
qed

section \<open>A concrete run\<close>

definition demo_cleaning :: sys where
  "demo_cleaning = (boot\<lparr>accelerator_enabled := False, cache_status_before_restart := True, restart_in_progress := True,
     writer := Some 1, restarter := Some 1, pcs := (\<lambda>_. Idle)(1 := Restart_Cleaning)\<rparr>)"

lemma demo_cleaning_reachable: "reachable quiet demo_cleaning"
proof -
  let ?S = "goto 1 Restart_Alone (scheduled boot\<lparr>writer := Some 1\<rparr>)"
  have "reachable quiet (scheduled boot)" by (rule run_schedule [OF reachable.init, where q = 2]) (simp_all add: boot_def)
  then have "reachable quiet ?S" by (rule run_alone) (simp_all add: boot_def scheduled_def on_the_way_def)
  then have "reachable quiet (goto 1 Restart_Cleaning (?S\<lparr>restart_pending := False, restarter := Some 1, restart_in_progress := True\<rparr>))"
    by (rule run_clean) (simp_all add: boot_def lock_ops scheduled_def)
  moreover have "goto 1 Restart_Cleaning (?S\<lparr>restart_pending := False, restarter := Some 1, restart_in_progress := True\<rparr>) = demo_cleaning"
    by (simp add: demo_cleaning_def boot_def lock_ops scheduled_def)
  ultimately show ?thesis by simp
qed

lemma one_writer_witness: "reachable False demo_cleaning \<and> has_writer (pcs demo_cleaning 1) \<and> \<not> has_writer (pcs demo_cleaning 0)"
  using one_writer [OF demo_cleaning_reachable [of False], of 1 0] demo_cleaning_reachable [of False]
  by (auto simp: demo_cleaning_def)


end
