(* ===== verification/Cache.thy ===== *)
theory Cache
  imports Accel_State Persist_Size Checksum
begin

text \<open>
  Putting scripts into the cache and taking them out (\<open>ZendAccelerator.c\<close>): compacting a
  compiled script, \<open>zend_accel_add_key\<close>, \<open>cache_script_in_shared_memory\<close>, and dropping a
  script that is out of date. This is where the hash table, the memory manager, the interned
  strings and the copying of a script come together.

  A script is its tree (see \<open>Persist\<close>) and the other members of \<open>zend_persistent_script\<close>;
  the scripts in shared memory are a function of their address. Keys are hashed with their
  terminating NUL. \<open>image\<close> is the layout of the pointer fields as bytes, and \<open>rehash\<close> the
  effect of the engine's \<open>zend_hash_rehash\<close> on them; they and \<open>time(NULL)\<close> are parameters.
  Taking the exclusive lock blocks until it is free (see \<open>Locks\<close>) and succeeds; it clears
  the translation table.
\<close>

section \<open>Results\<close>

text \<open>A crash, a loop that does not end, an access through a null pointer or out of bounds.\<close>

datatype stop = Crashed crash | Endless | Null_Deref | Out_Of_Bounds

type_synonym 'a res = "stop + 'a"

definition bind_res :: "'a res \<Rightarrow> ('a \<Rightarrow> 'b res) \<Rightarrow> 'b res" where
  "bind_res r f = (case r of Inl e \<Rightarrow> Inl e | Inr x \<Rightarrow> f x)"

definition ends :: "'a option \<Rightarrow> 'a res" where
  "ends x = (case x of None \<Rightarrow> Inl Endless | Some y \<Rightarrow> Inr y)"

definition logged :: "int \<Rightarrow> log_level \<Rightarrow> 'a res \<Rightarrow> 'a res" where
  "logged v lvl r = (case zend_accel_error v lvl of Some c \<Rightarrow> Inl (Crashed c) | None \<Rightarrow> r)"

lemma bind_res_simps [simp]: "bind_res (Inr x) f = f x" "bind_res (Inl e) f = Inl e"
  by (simp_all add: bind_res_def)

lemma ends_simps [simp]: "ends (Some x) = Inr x" "ends None = Inl Endless"
  by (simp_all add: ends_def)

section \<open>State\<close>

record script =
  ps_tree :: pscript
  ps_timestamp :: int
  ps_corrupted :: bool
  ps_mem :: nat
  ps_size :: nat
  ps_last_used :: int
  ps_hits :: "64 word"
  ps_memory_consumption :: nat
  ps_checksum :: "32 word"
  ps_revalidate :: int
  ps_auto_globals :: int

record cache =
  zcsg :: accel_shared_globals
  scripts :: "nat \<Rightarrow> script"
  mem :: pmem

record cache_env =
  dirs :: zend_accel_directives
  zend_inline_hash_func :: hash_fn
  penv :: penv
  now :: int
  pemalloc :: "nat \<Rightarrow> nat option"
  rehash :: "nat \<Rightarrow> nat \<Rightarrow> pmem \<Rightarrow> pmem"
  image :: "pmem \<Rightarrow> nat \<Rightarrow> 8 word"
  dynamic_members_offset :: nat

definition full_path :: "script \<Rightarrow> string" where
  "full_path s = s_val (sc_full_path (ps_tree s))"

definition nul :: "string \<Rightarrow> string" where
  "nul k = k @ [CHR 0x00]"

definition verbosity :: "cache_env \<Rightarrow> int" where
  "verbosity E = log_verbosity_level (dirs E)"

section \<open>Compacting\<close>

text \<open>\<open>i = 3; while ((1U << i) < nNumOfElements) i++\<close>, for a number below \<open>2 ^ 31\<close>.\<close>

function shift_for :: "nat \<Rightarrow> nat \<Rightarrow> nat" where
  "shift_for n i = (if 2 ^ i < n then shift_for n (Suc i) else i)"
  by auto
termination
proof (relation "measure (\<lambda>(n, i). n - i)")
  fix n i :: nat assume "2 ^ i < n"
  then have "i < n" using less_exp [of i] by (rule less_trans [rotated])
  then show "((n, Suc i), n, i) \<in> measure (\<lambda>(n, i). n - i)" by simp
qed simp

declare shift_for.simps [simp del]

definition compact_size :: "nat \<Rightarrow> nat" where
  "compact_size n = (if n \<ge> 2 ^ 31 then 2 ^ 31 else 2 ^ shift_for n 3)"

definition compact_hash_table :: "cache_env \<Rightarrow> 'e htable \<Rightarrow> pmem \<Rightarrow> bool \<times> 'e htable \<times> pmem" where
  "compact_hash_table E ht m =
     (let n = length (ht_list ht); nSize = compact_size n
      in if n = 0 \<or> nSize \<ge> ht_size ht then (True, ht, m)
         else case pemalloc E (nSize * 8) of
           None \<Rightarrow> (False, ht, m)
         | Some t \<Rightarrow> (True, Htable (ht_list ht) (ht_init ht) nSize t, rehash E t nSize m))"

definition compact_persistent_script :: "cache_env \<Rightarrow> pscript \<Rightarrow> pmem \<Rightarrow> bool \<times> pscript \<times> pmem" where
  "compact_persistent_script E sc m =
     (case compact_hash_table E (sc_functions sc) m of
        (False, fs, m1) \<Rightarrow> (False, sc, m1)
      | (True, fs, m1) \<Rightarrow>
         (case compact_hash_table E (sc_classes sc) m1 of
            (done2, cs, m2) \<Rightarrow> (done2, sc\<lparr>sc_functions := fs, sc_classes := cs\<rparr>, m2)))"

section \<open>Adding keys\<close>

definition exhausted :: "cache_env \<Rightarrow> zend_accel_restart_reason \<Rightarrow> accel_shared_globals \<Rightarrow> accel_shared_globals" where
  "exhausted E reason S =
     zend_accel_schedule_restart_if_necessary (dirs E) (now E) reason (S\<lparr>smm := (smm S)\<lparr>memory_exhausted := True\<rparr>\<rparr>)"

text \<open>\<open>i\<close> is the bucket of the script.\<close>

definition zend_accel_add_key :: "cache_env \<Rightarrow> string \<Rightarrow> nat \<Rightarrow> accel_shared_globals \<Rightarrow> accel_shared_globals res" where
  "zend_accel_add_key E key i S =
     bind_res (ends (zend_accel_hash_find (zend_inline_hash_func E) (scripts_hash S) (nul key) (length (nul key)))) (\<lambda>d.
       if d \<noteq> NULL then Inr S
       else if zend_accel_hash_is_full (scripts_hash S) then Inr (exhausted E ACCEL_RESTART_HASH S)
       else case locked_alloc (verbosity E) (length (nul key)) (smm S) of
         (None, g) \<Rightarrow> Inr (zend_accel_schedule_restart_if_necessary (dirs E) (now E) ACCEL_RESTART_OOM (S\<lparr>smm := g\<rparr>))
       | (Some p, g) \<Rightarrow>
           bind_res (ends (zend_accel_hash_update (zend_inline_hash_func E) (scripts_hash S) (nul key) (length (nul key)) True (Entry i)))
             (\<lambda>(r, h). Inr (S\<lparr>smm := g, scripts_hash := h\<rparr>)))"

section \<open>Dropping a script\<close>

text \<open>What \<open>zend_accel_invalidate\<close> and \<open>persistent_compile_file\<close> do under the lock with a script
  that is out of date.\<close>

definition discard_script :: "cache_env \<Rightarrow> nat \<Rightarrow> cache \<Rightarrow> cache" where
  "discard_script E a C =
     (let s = scripts C a in
      if ps_corrupted s then C
      else
       (let S = zcsg C;
            S1 = S\<lparr>smm := (smm S)\<lparr>wasted_shared_memory :=
                   int32 (wasted_shared_memory (smm S) + int (ps_memory_consumption s))\<rparr>\<rparr>;
            S2 = (if memory_exhausted (smm S1)
                  then zend_accel_schedule_restart_if_necessary (dirs E) (now E)
                         (if zend_accel_hash_is_full (scripts_hash S1) then ACCEL_RESTART_HASH else ACCEL_RESTART_OOM) S1
                  else S1)
        in C\<lparr>zcsg := S2, scripts := (scripts C)(a := s\<lparr>ps_corrupted := True, ps_timestamp := 0\<rparr>)\<rparr>))"

section \<open>Storing a script\<close>

text \<open>A script in process memory, or the address of one in shared memory.\<close>

datatype script_ref = Process script | Shared nat

definition script_of :: "cache \<Rightarrow> script_ref \<Rightarrow> script" where
  "script_of C r = (case r of Process s \<Rightarrow> s | Shared a \<Rightarrow> scripts C a)"

text \<open>\<open>memcmp(key, "phar://", 7) != 0\<close>\<close>

definition is_phar :: "string \<Rightarrow> bool" where
  "is_phar key \<longleftrightarrow> take 7 key = ''phar://''"

text \<open>The table entries of a script that has been copied to \<open>a\<close>.\<close>

definition link_script :: "cache_env \<Rightarrow> string \<Rightarrow> nat \<Rightarrow> string \<Rightarrow> accel_shared_globals \<Rightarrow> accel_shared_globals res" where
  "link_script E key a path S =
     bind_res (ends (zend_accel_hash_update (zend_inline_hash_func E) (scripts_hash S) (nul path) (length (nul path)) False (Obj a)))
      (\<lambda>(b, h). let S1 = S\<lparr>scripts_hash := h\<rparr> in
         case b of None \<Rightarrow> Inr S1
         | Some i \<Rightarrow>
            if revalidate_path (dirs E) \<or> is_phar key \<or> path = key then Inr S1
            else bind_res (ends (zend_accel_hash_update (zend_inline_hash_func E) h (nul key) (length (nul key)) True (Entry i)))
              (\<lambda>(b', h'). let S2 = S1\<lparr>scripts_hash := h'\<rparr> in
                 case b' of Some _ \<Rightarrow> Inr S2 | None \<Rightarrow> Inr (exhausted E ACCEL_RESTART_HASH S2)))"

definition wrong_size_level :: "nat \<Rightarrow> nat \<Rightarrow> nat \<Rightarrow> log_level option" where
  "wrong_size_level start sz mp =
     (if start + sz = mp then None else Some (if start + sz < mp then ACCEL_LOG_ERROR else ACCEL_LOG_WARNING))"

text \<open>The copy only looks at the range of the interned strings, which never changes.\<close>

definition store_script :: "cache_env \<Rightarrow> cstr \<Rightarrow> script \<Rightarrow> cache \<Rightarrow> (script_ref \<times> bool \<times> cache) res" where
  "store_script E key ns C =
     (case zend_accel_script_persist_calc (penv E) (ps_tree ns) key
             \<lparr>c_xlat = Map.empty, c_interned = interned_table (zcsg C)\<rparr> of
        (t, memory_used, c) \<Rightarrow>
       (let S = (zcsg C)\<lparr>interned_table := c_interned c\<rparr>; ns1 = ns\<lparr>ps_tree := t\<rparr> in
        case locked_alloc (verbosity E) memory_used (smm S) of
          (None, g) \<Rightarrow> Inr (Process ns1, False, C\<lparr>zcsg :=
             zend_accel_schedule_restart_if_necessary (dirs E) (now E) ACCEL_RESTART_OOM (S\<lparr>smm := g\<rparr>)\<rparr>)
        | (Some p, g) \<Rightarrow>
           (case zend_accel_script_persist (penv E) (interned_table (zcsg C)) t key ((mem C)\<lparr>mem_top := p\<rparr>) of
              None \<Rightarrow> Inl Null_Deref
            | Some (a, k, m) \<Rightarrow>
               (let ns2 = ns1\<lparr>ps_mem := p, ps_size := memory_used,
                      ps_checksum := zend_accel_script_checksum (image E m) a (dynamic_members_offset E)
                        (sizeof (penv E) T_script) p memory_used,
                      ps_memory_consumption := ZEND_ALIGNED_SIZE memory_used mod two32\<rparr>;
                    r = bind_res (link_script E (s_val key) a (full_path ns2) (S\<lparr>smm := g\<rparr>))
                          (\<lambda>S1. Inr (Shared a, True, C\<lparr>zcsg := S1, scripts := (scripts C)(a := ns2), mem := m\<rparr>))
                in case wrong_size_level p memory_used (mem_top m) of
                     None \<Rightarrow> r | Some lvl \<Rightarrow> logged (verbosity E) lvl r))))"

definition cache_script_locked :: "cache_env \<Rightarrow> cstr \<Rightarrow> script \<Rightarrow> cache \<Rightarrow> (script_ref \<times> bool \<times> cache) res" where
  "cache_script_locked E key ns C =
     (let S = zcsg C in
      if zend_accel_hash_is_full (scripts_hash S)
      then Inr (Process ns, False, C\<lparr>zcsg := exhausted E ACCEL_RESTART_HASH S\<rparr>)
      else bind_res (ends (zend_accel_hash_find_entry (zend_inline_hash_func E) (scripts_hash S) (nul (full_path ns)) (length (nul (full_path ns)))))
        (\<lambda>b. case b of
           None \<Rightarrow> store_script E key ns C
         | Some i \<Rightarrow>
            (case he_data (hash_entries (scripts_hash S) ! i) of
               Obj a \<Rightarrow>
                 if ps_corrupted (scripts C a) then store_script E key ns C
                 else if \<not> revalidate_path (dirs E)
                      \<and> (\<not> validate_timestamps (dirs E) \<or> ps_timestamp ns = ps_timestamp (scripts C a))
                 then bind_res (zend_accel_add_key E (s_val key) i S) (\<lambda>S1. Inr (Process ns, False, C\<lparr>zcsg := S1\<rparr>))
                 else Inr (Process ns, False, C)
             | _ \<Rightarrow> Inl Null_Deref)))"

definition cache_script_in_shared_memory ::
  "cache_env \<Rightarrow> cstr \<Rightarrow> script \<Rightarrow> cache \<Rightarrow> (script_ref \<times> bool \<times> cache) res" where
  "cache_script_in_shared_memory E key ns C =
     (case compact_persistent_script E (ps_tree ns) (mem C) of
        (fits, t, m) \<Rightarrow>
          if fits then cache_script_locked E key (ns\<lparr>ps_tree := t\<rparr>) (C\<lparr>mem := m\<lparr>xlat := Map.empty\<rparr>\<rparr>)
          else Inr (Process (ns\<lparr>ps_tree := t\<rparr>), False, C\<lparr>mem := m\<rparr>))"

section \<open>The tables\<close>

lemma nul_eq [simp]: "nul k = nul k' \<longleftrightarrow> k = k'"
  by (simp add: nul_def)

lemma find_entry_direct:
  assumes "hash_inv hashf h" and "zend_accel_hash_find_entry hashf h k (length k) = Some (Some i)"
  shows "i < num_entries h" "resolve_indirect (hash_entries h) i = Some i"
proof -
  obtain cs where rep: "hash_rep hashf h cs" using assms(1) by (auto simp: hash_inv_def)
  note ch = hash_repD(1) [OF rep] and dt = hash_repD(2) [OF rep]
  obtain j where j: "slot hashf h cs k = Some j" "i = target h j" using assms(2) by (auto simp: find_entry_view [OF ch dt])
  have "j < num_entries h" by (rule slot_Some(3) [OF ch j(1)])
  then show "i < num_entries h" using target_ok(1) [OF dt] by (simp add: j)
  show "resolve_indirect (hash_entries h) i = Some i"
    using target_ok(2) [OF dt \<open>j < num_entries h\<close>] by (subst resolve_indirect.simps) (simp add: j)
qed

text \<open>Adding an alias of the script found under \<open>path\<close>.\<close>

lemma alias_added:
  assumes inv: "hash_inv hashf h" and path: "zend_accel_hash_find_entry hashf h path (length path) = Some (Some i)"
    and new: "zend_accel_hash_find_entry hashf h key (length key) = Some None" and room: "\<not> zend_accel_hash_is_full h"
  shows "\<exists>h'. zend_accel_hash_update hashf h key (length key) True (Entry i) = Some (Some (num_entries h), h')
    \<and> hash_inv hashf h'
    \<and> (\<forall>k. zend_accel_hash_find_entry hashf h' k (length k)
            = (if k = key then Some (Some i) else zend_accel_hash_find_entry hashf h k (length k))
         \<and> zend_accel_hash_find hashf h' k (length k)
            = (if k = key then Some (he_data (hash_entries h ! i)) else zend_accel_hash_find hashf h k (length k)))"
  using insert_alias [OF inv new room find_entry_direct(1) [OF inv path]] find_entry_direct(2) [OF inv path] by auto

text \<open>The two entries of a new script.\<close>

definition linked_to :: "hash_fn \<Rightarrow> 'd zend_accel_hash \<Rightarrow> string set \<Rightarrow> 'd \<Rightarrow> 'd zend_accel_hash \<Rightarrow> bool" where
  "linked_to hashf h ks a h' \<longleftrightarrow> hash_inv hashf h' \<and> (\<forall>k. zend_accel_hash_find hashf h' k (length k)
     = (if k \<in> ks then Some (Obj a) else zend_accel_hash_find hashf h k (length k)))"

definition keys_of_script :: "cache_env \<Rightarrow> string \<Rightarrow> string \<Rightarrow> string set" where
  "keys_of_script E key path =
     (if revalidate_path (dirs E) \<or> is_phar key \<or> path = key then {nul path} else {nul path, nul key})"

lemma link_new:
  assumes inv: "hash_inv (zend_inline_hash_func E) (scripts_hash S)"
    and path: "zend_accel_hash_find_entry (zend_inline_hash_func E) (scripts_hash S) (nul path) (length (nul path)) = Some None"
    and key: "zend_accel_hash_find_entry (zend_inline_hash_func E) (scripts_hash S) (nul key) (length (nul key)) = Some None"
    and room: "num_entries (scripts_hash S) + 1 < max_num_entries (scripts_hash S)"
  shows "\<exists>h'. link_script E key a path S = Inr (S\<lparr>scripts_hash := h'\<rparr>)
    \<and> linked_to (zend_inline_hash_func E) (scripts_hash S) (keys_of_script E key path) a h'"
proof -
  have "\<not> zend_accel_hash_is_full (scripts_hash S)" using room by (simp add: zend_accel_hash_is_full_def)
  from insert_new(2) [OF inv path this, of "Obj a"] obtain h1
    where u1: "zend_accel_hash_update (zend_inline_hash_func E) (scripts_hash S) (nul path) (length (nul path)) False (Obj a)
        = Some (Some (num_entries (scripts_hash S)), h1)"
      and h1: "hash_inv (zend_inline_hash_func E) h1" "num_entries h1 = num_entries (scripts_hash S) + 1"
        "max_num_entries h1 = max_num_entries (scripts_hash S)"
      and e1: "\<And>k. zend_accel_hash_find_entry (zend_inline_hash_func E) h1 k (length k) = (if k = nul path
        then Some (Some (num_entries (scripts_hash S))) else zend_accel_hash_find_entry (zend_inline_hash_func E) (scripts_hash S) k (length k))"
      and f1: "\<And>k. zend_accel_hash_find (zend_inline_hash_func E) h1 k (length k)
        = (if k = nul path then Some (Obj a) else zend_accel_hash_find (zend_inline_hash_func E) (scripts_hash S) k (length k))" by blast
  show ?thesis
  proof (cases "revalidate_path (dirs E) \<or> is_phar key \<or> path = key")
    case True
    then have "link_script E key a path S = Inr (S\<lparr>scripts_hash := h1\<rparr>)" using u1 by (simp add: link_script_def Let_def)
    moreover have "linked_to (zend_inline_hash_func E) (scripts_hash S) (keys_of_script E key path) a h1"
      using True h1(1) by (simp add: linked_to_def keys_of_script_def f1)
    ultimately show ?thesis by blast
  next
    case False
    have p1: "zend_accel_hash_find_entry (zend_inline_hash_func E) h1 (nul path) (length (nul path)) = Some (Some (num_entries (scripts_hash S)))"
      by (simp add: e1)
    have d1: "he_data (hash_entries h1 ! num_entries (scripts_hash S)) = Obj a"
      using find_of_entry [OF h1(1) p1] f1 [of "nul path"] by simp
    have k1: "zend_accel_hash_find_entry (zend_inline_hash_func E) h1 (nul key) (length (nul key)) = Some None" using key False by (auto simp: e1)
    have "\<not> zend_accel_hash_is_full h1" using room h1 by (simp add: zend_accel_hash_is_full_def)
    from alias_added [OF h1(1) p1 k1 this] obtain h2
      where u2: "zend_accel_hash_update (zend_inline_hash_func E) h1 (nul key) (length (nul key)) True (Entry (num_entries (scripts_hash S)))
          = Some (Some (num_entries h1), h2)" and h2: "hash_inv (zend_inline_hash_func E) h2"
        and f2: "\<And>k. zend_accel_hash_find (zend_inline_hash_func E) h2 k (length k)
          = (if k = nul key then Some (Obj a) else zend_accel_hash_find (zend_inline_hash_func E) h1 k (length k))" by (auto simp: d1)
    have "link_script E key a path S = Inr (S\<lparr>scripts_hash := h2\<rparr>)"
      using False u1 u2 by (simp add: link_script_def Let_def)
    moreover have "linked_to (zend_inline_hash_func E) (scripts_hash S) (keys_of_script E key path) a h2"
      using h2 False by (simp add: linked_to_def keys_of_script_def f1 f2)
    ultimately show ?thesis by blast
  qed
qed

text \<open>A corrupted script is replaced in its entry: all the keys that led to it lead to the new one.\<close>

lemma link_replace:
  assumes inv: "hash_inv (zend_inline_hash_func E) (scripts_hash S)"
    and path: "zend_accel_hash_find_entry (zend_inline_hash_func E) (scripts_hash S) (nul path) (length (nul path)) = Some (Some i)"
    and k: "key = path \<or> revalidate_path (dirs E) \<or> is_phar key"
  shows "\<exists>h'. link_script E key a path S = Inr (S\<lparr>scripts_hash := h'\<rparr>)
    \<and> linked_to (zend_inline_hash_func E) (scripts_hash S)
        {k. zend_accel_hash_find_entry (zend_inline_hash_func E) (scripts_hash S) k (length k) = Some (Some i)} a h'"
proof -
  from overwrite_entry [OF inv path, of "Obj a"] obtain j h'
    where u: "zend_accel_hash_update (zend_inline_hash_func E) (scripts_hash S) (nul path) (length (nul path)) False (Obj a) = Some (Some j, h')"
      and h: "hash_inv (zend_inline_hash_func E) h'" "\<forall>k. zend_accel_hash_find (zend_inline_hash_func E) h' k (length k)
           = (if zend_accel_hash_find_entry (zend_inline_hash_func E) (scripts_hash S) k (length k) = Some (Some i) then Some (Obj a)
              else zend_accel_hash_find (zend_inline_hash_func E) (scripts_hash S) k (length k))" by blast
  have "link_script E key a path S = Inr (S\<lparr>scripts_hash := h'\<rparr>)"
    using k u by (auto simp: link_script_def Let_def)
  then show ?thesis using h by (auto simp: linked_to_def)
qed

section \<open>Storing keeps the invariant\<close>

lemma smm_inv_segments:
  "shared_segments g' = shared_segments g \<Longrightarrow> shared_free g' = shared_free g \<Longrightarrow> smm_inv g' = smm_inv g"
  by (simp add: smm_inv_def)

lemma seg_with_pos: "seg_p s = seg_p t \<Longrightarrow> seg_size s = seg_size t \<Longrightarrow> s\<lparr>seg_pos := x\<rparr> = t\<lparr>seg_pos := x\<rparr>"
  for s t :: zend_shared_segment by (cases s; cases t) simp

lemma alloc_keeps:
  assumes al: "locked_alloc v sz g = (r, g')" and inv: "smm_inv g" "smm_inv (zend_shared_alloc_restore_state g)"
  shows "smm_inv g'" "smm_inv (zend_shared_alloc_restore_state g')"
proof -
  have al': "zend_shared_alloc v True sz g = Inr (r, g')" using al by (simp add: locked_alloc_eq)
  show "smm_inv g'" by (rule alloc_inv [OF inv(1) al'])
  note fr = alloc_frame [OF al']
  have len: "length (shared_segments g') = length (shared_segments g)" using fr(1) by (metis length_map)
  have "shared_segments (zend_shared_alloc_restore_state g') = shared_segments (zend_shared_alloc_restore_state g)"
    unfolding zend_shared_alloc_restore_state_def
    using len nth_map [of _ "shared_segments g'"] nth_map [of _ "shared_segments g"] fr(1,2)
    by (auto simp: list_eq_iff_nth_eq fr(3) intro!: seg_with_pos)
  then show "smm_inv (zend_shared_alloc_restore_state g')"
    using inv(2) smm_inv_segments [of "zend_shared_alloc_restore_state g'" "zend_shared_alloc_restore_state g"] fr(4)
    by (simp add: zend_shared_alloc_restore_state_def)
qed

lemma calc_full_path:
  "zend_accel_script_persist_calc en sc key c = (t, n, c') \<Longrightarrow> sc_full_path t = sc_full_path sc"
  unfolding zend_accel_script_persist_calc_def by (auto elim!: and_thenE dest!: no_sizeE)

section \<open>Properties\<close>


text \<open>C37. Storing a script when no segment has room for it, or when the table is full: nothing is
  stored, the script stays in process memory, and no field of the shared state changes but those of the
  table of interned strings (when the size was computed), \<open>memory_exhausted\<close>, and those of a restart, which
  is scheduled if enough memory is wasted and none is pending; the cache is then off until the restart.\<close>

theorem cache_script_no_memory:
  assumes inv: "smm_inv (smm (zcsg C))"
    and path: "zend_accel_hash_find_entry (zend_inline_hash_func E) (scripts_hash (zcsg C))
      (nul (full_path ns)) (length (nul (full_path ns))) = Some None"
    and calc: "zend_accel_script_persist_calc (penv E) (ps_tree ns) key
      \<lparr>c_xlat = Map.empty, c_interned = interned_table (zcsg C)\<rparr> = (t, n, c)"
    and no: "full \<or> (\<forall>s \<in> set (shared_segments (smm (zcsg C))). seg_size s - seg_pos s < ZEND_ALIGNED_SIZE n mod two32)"
    and full: "full = zend_accel_hash_is_full (scripts_hash (zcsg C))"
    and sched: "sched = (\<not> restart_pending (zcsg C) \<and> waste_limit_reached (dirs E) (wasted_shared_memory (smm (zcsg C))))"
  shows "cache_script_locked E key ns C = Inr (Process (if full then ns else ns\<lparr>ps_tree := t\<rparr>), False,
    C\<lparr>zcsg := (zcsg C)\<lparr>interned_table := (if full then interned_table (zcsg C) else c_interned c),
      smm := (smm (zcsg C))\<lparr>memory_exhausted := (full \<or> memory_exhausted (smm (zcsg C))
        \<or> (\<forall>s \<in> set (shared_segments (smm (zcsg C))). seg_size s - seg_pos s < MIN_FREE_MEMORY))\<rparr>,
      restart_pending := (restart_pending (zcsg C) \<or> sched),
      restart_reason := (if sched then if full then ACCEL_RESTART_HASH else ACCEL_RESTART_OOM else restart_reason (zcsg C)),
      cache_status_before_restart := (if sched then accelerator_enabled (zcsg C) else cache_status_before_restart (zcsg C)),
      accelerator_enabled := (accelerator_enabled (zcsg C) \<and> \<not> sched),
      force_restart_time := (if sched then if force_restart_timeout (dirs E) \<noteq> 0 then time_t (now E + force_restart_timeout (dirs E)) else 0
        else force_restart_time (zcsg C))\<rparr>\<rparr>)"
proof (cases full)
  case True
  then have "cache_script_locked E key ns C = Inr (Process ns, False, C\<lparr>zcsg := exhausted E ACCEL_RESTART_HASH (zcsg C)\<rparr>)"
    using full by (simp add: cache_script_locked_def Let_def)
  then show ?thesis
    using True sched by (simp add: exhausted_def zend_accel_schedule_restart_if_necessary_def zend_accel_schedule_restart_def)
next
  case False
  obtain r g where al: "locked_alloc (verbosity E) n (smm (zcsg C)) = (r, g)" by force
  have "r = None" and g: "g = (smm (zcsg C))\<lparr>memory_exhausted := (memory_exhausted (smm (zcsg C))
        \<or> (\<forall>s \<in> set (shared_segments (smm (zcsg C))). seg_size s - seg_pos s < MIN_FREE_MEMORY))\<rparr>"
    using zend_shared_alloc_refusal [OF inv, of "verbosity E" n] no False by (auto simp: al)
  then have "locked_alloc (verbosity E) n (smm (zcsg C)) = (None, g)" using al by simp
  then have "cache_script_locked E key ns C = Inr (Process (ns\<lparr>ps_tree := t\<rparr>), False, C\<lparr>zcsg :=
      zend_accel_schedule_restart_if_necessary (dirs E) (now E) ACCEL_RESTART_OOM ((zcsg C)\<lparr>interned_table := c_interned c, smm := g\<rparr>)\<rparr>)"
    using False full path by (simp add: cache_script_locked_def store_script_def Let_def calc)
  then show ?thesis
    using False sched by (simp add: g zend_accel_schedule_restart_if_necessary_def zend_accel_schedule_restart_def)
qed

text \<open>Adding a key for the script of bucket \<open>i\<close>: a key that finds something already is left
  alone; in a full table, or without memory, the table does not change (a full table also sets
  \<open>memory_exhausted\<close>); otherwise the key finds what the path finds. No other look-up changes.\<close>

theorem zend_accel_add_key_ok:
  assumes inv: "hash_inv (zend_inline_hash_func E) (scripts_hash S)"
    and path: "zend_accel_hash_find_entry (zend_inline_hash_func E) (scripts_hash S) path (length path) = Some (Some i)"
    and null: "zend_accel_hash_find (zend_inline_hash_func E) (scripts_hash S) (nul key) (length (nul key)) = Some NULL
      \<Longrightarrow> zend_accel_hash_find_entry (zend_inline_hash_func E) (scripts_hash S) (nul key) (length (nul key)) = Some None"
  shows "\<exists>S'. zend_accel_add_key E key i S = Inr S' \<and> hash_inv (zend_inline_hash_func E) (scripts_hash S')
    \<and> (if zend_accel_hash_find (zend_inline_hash_func E) (scripts_hash S) (nul key) (length (nul key)) \<noteq> Some NULL then S' = S
       else if zend_accel_hash_is_full (scripts_hash S) then scripts_hash S' = scripts_hash S \<and> memory_exhausted (smm S')
       else if fst (locked_alloc (verbosity E) (length (nul key)) (smm S)) = None then scripts_hash S' = scripts_hash S
       else \<forall>k. zend_accel_hash_find (zend_inline_hash_func E) (scripts_hash S') k (length k)
              = zend_accel_hash_find (zend_inline_hash_func E) (scripts_hash S) (if k = nul key then path else k)
                  (length (if k = nul key then path else k)))"
proof -
  let ?h = "scripts_hash S" and ?hf = "zend_inline_hash_func E"
  obtain cs where rep: "hash_rep ?hf ?h cs" using inv by (auto simp: hash_inv_def)
  have tot: "\<exists>d. zend_accel_hash_find ?hf ?h (nul key) (length (nul key)) = Some d"
    by (simp add: find_view [OF hash_repD(1,2) [OF rep]])
  have sched: "scripts_hash (zend_accel_schedule_restart_if_necessary d t r S') = scripts_hash S'"
    "smm (zend_accel_schedule_restart_if_necessary d t r S') = smm S'" for d t r S'
    by (simp_all add: zend_accel_schedule_restart_if_necessary_def zend_accel_schedule_restart_def)
  show ?thesis
  proof (cases "zend_accel_hash_find ?hf ?h (nul key) (length (nul key)) = Some NULL")
    case False
    then show ?thesis using tot inv by (auto simp: zend_accel_add_key_def)
  next
    case True
    consider (full) "zend_accel_hash_is_full ?h" | (nomem) g where "\<not> zend_accel_hash_is_full ?h"
        "locked_alloc (verbosity E) (length (nul key)) (smm S) = (None, g)"
      | (room) p g where "\<not> zend_accel_hash_is_full ?h" "locked_alloc (verbosity E) (length (nul key)) (smm S) = (Some p, g)"
      by (metis option.exhaust prod.exhaust)
    then show ?thesis
    proof cases
      case full
      then show ?thesis using True inv by (simp add: zend_accel_add_key_def exhausted_def sched)
    next
      case nomem
      then show ?thesis using True inv by (simp add: zend_accel_add_key_def sched)
    next
      case room
      from alias_added [OF inv path null [OF True] room(1)] obtain h'
        where u: "zend_accel_hash_update ?hf ?h (nul key) (length (nul key)) True (Entry i) = Some (Some (num_entries ?h), h')"
          and h': "hash_inv ?hf h'" "\<And>k. zend_accel_hash_find ?hf h' k (length k)
            = (if k = nul key then Some (he_data (hash_entries ?h ! i)) else zend_accel_hash_find ?hf ?h k (length k))" by blast
      have "zend_accel_hash_find ?hf ?h path (length path) = Some (he_data (hash_entries ?h ! i))"
        by (rule find_of_entry [OF inv path])
      then show ?thesis using True room u h' by (simp add: zend_accel_add_key_def)
    qed
  qed
qed

text \<open>Dropping a script marks it, forgets its timestamp and counts its memory as wasted; a
  second call, by another process that found it out of date too, changes nothing. The tables
  and the other scripts stay.\<close>

theorem discard_script_once:
  assumes "\<not> ps_corrupted (scripts C a)"
  shows "\<exists>C'. discard_script E a C = C' \<and> ps_corrupted (scripts C' a) \<and> ps_timestamp (scripts C' a) = 0
    \<and> wasted_shared_memory (smm (zcsg C'))
        = int32 (wasted_shared_memory (smm (zcsg C)) + int (ps_memory_consumption (scripts C a)))
    \<and> discard_script E a C' = C' \<and> scripts_hash (zcsg C') = scripts_hash (zcsg C) \<and> (\<forall>b. b \<noteq> a \<longrightarrow> scripts C' b = scripts C b)"
  using assms
  by (simp add: discard_script_def Let_def zend_accel_schedule_restart_if_necessary_def zend_accel_schedule_restart_def)

lemma shift_for_bounds: "n \<le> 2 ^ shift_for n i \<and> (shift_for n i = i \<or> i < shift_for n i \<and> 2 ^ (shift_for n i - 1) < n)"
proof (induction n i rule: shift_for.induct)
  case (1 n i)
  show ?case
  proof (cases "2 ^ i < n")
    case True
    then show ?thesis using 1 [OF True] by (subst (1 2 3 4) shift_for.simps) auto
  next
    case False
    then show ?thesis by (simp add: shift_for.simps)
  qed
qed

text \<open>Compacting a table: it keeps its elements, its size never grows, and when the size
  changes the new one is a power of two that is at least 8, has room for all elements, and is
  less than twice their number (or 8).\<close>

theorem compact_hash_table_size:
  assumes "compact_hash_table E ht m = (True, ht', m')" and "length (ht_list ht) < 2 ^ 31"
  shows "ht_list ht' = ht_list ht \<and> ht_size ht' \<le> ht_size ht
    \<and> (ht' \<noteq> ht \<longrightarrow> (\<exists>k \<ge> 3. ht_size ht' = 2 ^ k) \<and> length (ht_list ht) \<le> ht_size ht'
         \<and> (ht_size ht' = 8 \<or> ht_size ht' < 2 * length (ht_list ht)))"
proof -
  let ?n = "length (ht_list ht)"
  have c: "compact_size ?n = 2 ^ shift_for ?n 3" using assms(2) by (simp add: compact_size_def)
  note b = shift_for_bounds [of ?n 3]
  have "3 \<le> shift_for ?n 3" using b by auto
  moreover have "compact_size ?n = 8 \<or> compact_size ?n < 2 * ?n"
  proof (cases "shift_for ?n 3 = 3")
    case False
    then have "2 ^ (shift_for ?n 3 - 1) < ?n" "shift_for ?n 3 = Suc (shift_for ?n 3 - 1)" using b by auto
    then show ?thesis unfolding c by (metis mult_less_cancel1 power_Suc zero_less_numeral)
  qed (simp add: c)
  ultimately show ?thesis
    using assms(1) b by (auto simp: compact_hash_table_def Let_def c split: if_splits option.splits)
qed

section \<open>A concrete cache\<close>

definition demo_cache_env :: cache_env where
  "demo_cache_env = \<lparr>dirs = demo_directives, zend_inline_hash_func = Accel_Hash.demo_hash, penv = demo_env, now = 1000,
     pemalloc = (\<lambda>_. Some 800), rehash = (\<lambda>_ _ m. m), image = (\<lambda>_ _. 0), dynamic_members_offset = 12\<rparr>"

definition demo_script2 :: script where
  "demo_script2 = \<lparr>ps_tree = demo_script\<lparr>sc_classes := Htable [] False 0 0\<rparr>, ps_timestamp = 900, ps_corrupted = False,
     ps_mem = 0, ps_size = 0, ps_last_used = 0, ps_hits = 0, ps_memory_consumption = 0, ps_checksum = 0,
     ps_revalidate = 1002, ps_auto_globals = 0\<rparr>"

definition demo_cache :: cache where
  "demo_cache = \<lparr>zcsg = demo_shared, scripts = (\<lambda>_. demo_script2\<lparr>ps_memory_consumption := 64\<rparr>), mem = demo_pmem\<rparr>"

definition demo_key2 :: cstr where "demo_key2 = \<lparr>s_addr = 410, s_val = ''a:f.php''\<rparr>"

definition demo_tree2 :: pscript where
  "demo_tree2 = demo_script\<lparr>sc_classes := Htable [] False 0 0,
     sc_main := demo_oa 380 [PString \<lparr>s_addr = 1072, s_val = ''ab''\<rparr>] None [MAKE_NOP \<lparr>opcode = 0, op1 = unused_node,
       op2 = unused_node, result = unused_node, extended_value = 0, lineno = 0\<rparr>]\<rparr>"

lemma demo_calc2:
  "\<exists>c. zend_accel_script_persist_calc demo_env (demo_script\<lparr>sc_classes := Htable [] False 0 0\<rparr>) demo_key2
     \<lparr>c_xlat = Map.empty, c_interned = demo_interned\<rparr> = (demo_tree2, 88, c)"
  by (simp add: calc_eval demo_tree2_def demo_key2_def cong: and_then_weak prod.case_cong_weak)

lemma demo_persist2:
  "\<exists>a k m. zend_accel_script_persist demo_env demo_interned demo_tree2 demo_key2 demo_pmem = Some (a, k, m) \<and> mem_top m = 4184"
  by (simp add: persist_ev replicate_num demo_tree2_def demo_key2_def cong: weak let_weak_cong prod.case_cong_weak)

lemma demo_alloc2: "\<exists>g. locked_alloc 1 88 (smm demo_shared) = (Some 4096, g)"
  by (simp add: locked_alloc_def zend_shared_alloc_locked Let_def demo_shared_def zend_shared_alloc_save_state_def demo_smm_def
      block_free_def sub64_def two64_def two32_def ZEND_ALIGNED_SIZE_def PLATFORM_ALIGNMENT_def)

lemma demo_apart2: "script_apart demo_env demo_interned {} ({} \<union> {}) (ps_tree demo_script2) demo_key2"
  by (simp add: script_apart_def ht_apart_def oa_apart_def demo_script2_def demo_key2_def demo_defs opt_all_def opt_set_def
      ht_addrs_def ht_keys_def keys_plain_def lits_addrs_def doc_apart_def)

lemma demo_plain2: "script_plain (ps_tree demo_script2) = []"
  by (simp add: script_plain_def demo_script2_def)

lemma demo_tables [simp]:
  "zcsg demo_cache = demo_shared" "mem demo_cache = demo_pmem" "scripts_hash demo_shared = demo_table"
  "interned_table demo_shared = demo_interned" "penv demo_cache_env = demo_env"
  "zend_inline_hash_func demo_cache_env = Accel_Hash.demo_hash" "verbosity demo_cache_env = 1"
  "dirs demo_cache_env = demo_directives"
  by (simp_all add: demo_cache_def demo_shared_def demo_cache_env_def verbosity_def demo_directives_def)

lemma demo_path2: "full_path demo_script2 = ''f.php''"
  by (simp add: full_path_def demo_script2_def demo_script_def)


definition demo_full :: smm_shared_globals where
  "demo_full = demo_smm\<lparr>shared_segments := [\<lparr>seg_size = 1024, seg_pos = 1024, seg_p = 4096\<rparr>], shared_free := 0,
     wasted_shared_memory := 100\<rparr>"

lemma cache_script_no_memory_witness:
  "\<exists>t S'. cache_script_locked demo_cache_env demo_key2 demo_script2
      (demo_cache\<lparr>zcsg := demo_shared\<lparr>smm := demo_full\<rparr>\<rparr>) = Inr (Process t, False, demo_cache\<lparr>zcsg := S'\<rparr>)
    \<and> restart_pending S' \<and> restart_reason S' = ACCEL_RESTART_OOM \<and> \<not> accelerator_enabled S' \<and> scripts_hash S' = demo_table"
proof -
  let ?C = "demo_cache\<lparr>zcsg := demo_shared\<lparr>smm := demo_full\<rparr>\<rparr>"
  obtain c where c: "zend_accel_script_persist_calc (penv demo_cache_env) (ps_tree demo_script2) demo_key2
      \<lparr>c_xlat = Map.empty, c_interned = interned_table (zcsg ?C)\<rparr> = (demo_tree2, 88, c)"
    using demo_calc2 by (auto simp: demo_script2_def)
  have inv: "smm_inv (smm (zcsg ?C))"
    by (simp add: smm_inv_def demo_full_def demo_smm_def seg_ok_def two64_def)
  have "zend_accel_hash_find_entry Accel_Hash.demo_hash demo_table (nul x) (length (nul x)) = Some None" for x
    by (simp only: demo_table_view(2)) (simp add: nul_def append_eq_Cons_conv)
  then have no: "zend_accel_hash_find_entry (zend_inline_hash_func demo_cache_env) (scripts_hash (zcsg ?C))
      (nul (full_path demo_script2)) (length (nul (full_path demo_script2))) = Some None"
    by simp
  have b: "\<forall>s \<in> set (shared_segments (smm (zcsg ?C))). seg_size s - seg_pos s < ZEND_ALIGNED_SIZE 88 mod two32"
    by (simp add: demo_full_def ZEND_ALIGNED_SIZE_def PLATFORM_ALIGNMENT_def two64_def two32_def)
  have f: "\<not> zend_accel_hash_is_full demo_table"
    by (simp add: zend_accel_hash_is_full_def demo_table_view)
  show ?thesis
    using cache_script_no_memory [OF inv no c disjI2 [OF b] refl refl] f
    by (simp add: demo_full_def demo_directives_def) (auto simp: demo_shared_def)
qed

lemma zend_accel_add_key_ok_witness:
  "\<exists>S'. zend_accel_add_key demo_cache_env ''k'' 0 demo_shared = Inr S' \<and> hash_inv Accel_Hash.demo_hash (scripts_hash S')"
proof -
  have no: "zend_accel_hash_find_entry Accel_Hash.demo_hash demo_table (nul ''k'') (length (nul ''k'')) = Some None"
    by (simp only: demo_table_view(2)) (simp add: nul_def)
  have a: "zend_accel_hash_find_entry Accel_Hash.demo_hash demo_table ''a'' (length ''a'') = Some (Some 0)"
    by (simp only: demo_table_view(2)) simp
  show ?thesis
    using zend_accel_add_key_ok [of demo_cache_env demo_shared "''a''" 0 "''k''"] demo_table_view(1) no a by auto
qed

lemma discard_script_once_witness:
  "wasted_shared_memory (smm (zcsg (discard_script demo_cache_env 7 (discard_script demo_cache_env 7 demo_cache)))) = 64"
proof -
  have "\<not> ps_corrupted (scripts demo_cache 7)" "ps_memory_consumption (scripts demo_cache 7) = 64"
    "wasted_shared_memory (smm demo_shared) = 0"
    by (simp_all add: demo_cache_def demo_script2_def demo_shared_def zend_shared_alloc_save_state_def demo_smm_def)
  then show ?thesis using discard_script_once [of demo_cache 7 demo_cache_env] by (auto simp: int32_def)
qed

lemma compact_hash_table_size_witness:
  "ht_size (fst (snd (compact_hash_table demo_cache_env (Htable (replicate 9 (Bucket 0 None None ())) True 128 0) demo_pmem))) = 16"
proof -
  let ?r = "compact_hash_table demo_cache_env (Htable (replicate 9 (Bucket 0 None None ())) True 128 0) demo_pmem"
  have "shift_for 9 3 = 4" by (simp add: shift_for.simps)
  then have r: "?r = (True, Htable (replicate 9 (Bucket 0 None None ())) True 16 800, demo_pmem)"
    by (simp add: compact_hash_table_def compact_size_def Let_def demo_cache_env_def)
  from compact_hash_table_size [OF r] show ?thesis by (simp add: r)
qed

end
