(* ===== verification/Keys.thy ===== *)
theory Keys
  imports Cache
begin

text \<open>
  The keys under which scripts are looked up (\<open>ZendAccelerator.c\<close>): the kinds of file names,
  the remembered working directory, the one-letter names of the values of \<open>include_path\<close>, and
  \<open>accel_make_persistent_key_ex\<close>.

  What a key is made from is the request: the engine's path macros, \<open>VCWD_GETCWD\<close>, the name of
  the executed file (\<open>None\<close> outside an execution) and \<open>MAXPATHLEN\<close> are parameters. The shared
  table maps an include path to the address of its letter; the model keeps the letter. Every
  caller passes the length of the file name as \<open>path_length\<close>. Lengths are those of C strings
  that together are shorter than 2 GB, so the \<open>int\<close> sums do not overflow.
\<close>

section \<open>Names\<close>

definition isalnum :: "char \<Rightarrow> bool" where
  "isalnum c = (let n = of_char c :: nat in 48 \<le> n \<and> n \<le> 57 \<or> 65 \<le> n \<and> n \<le> 90 \<or> 97 \<le> n \<and> n \<le> 122)"

definition scheme_char :: "char \<Rightarrow> bool" where
  "scheme_char c \<longleftrightarrow> isalnum c \<or> c = CHR ''+'' \<or> c = CHR ''-'' \<or> c = CHR ''.''"

definition is_stream_path :: "string \<Rightarrow> bool" where
  "is_stream_path filename =
     (let n = length (takeWhile scheme_char filename) in n > 1 \<and> take 3 (drop n filename) = ''://'')"

definition is_cacheable_stream_path :: "string \<Rightarrow> bool" where
  "is_cacheable_stream_path filename \<longleftrightarrow> take 7 filename = ''file://'' \<or> take 7 filename = ''phar://''"

section \<open>The request\<close>

datatype handle_type = ZEND_HANDLE_FILENAME | ZEND_HANDLE_FD | ZEND_HANDLE_FP | ZEND_HANDLE_STREAM | ZEND_HANDLE_MAPPED

record stat =
  st_mtime :: int
  st_size :: nat

text \<open>\<open>fh_translated\<close>: the name is the pointer \<open>SG(request_info).path_translated\<close>; \<open>fh_stat\<close> and
  \<open>fh_stream_stat\<close>: what \<open>fstat\<close> and the stream's own \<open>stat\<close> give for the handle.\<close>

record zend_file_handle =
  fh_type :: handle_type
  filename :: string
  opened_path :: "string option"
  fh_translated :: bool
  fh_stat :: "stat option"
  fh_stream_stat :: "stat option"

record request =
  accel_startup_ok :: bool
  is_absolute_path :: "string \<Rightarrow> bool"
  is_slash :: "char \<Rightarrow> bool"
  vcwd_getcwd :: "string option"
  executed_filename :: "string option"
  maxpathlen :: nat

definition key_buffer_size :: "request \<Rightarrow> nat" where
  "key_buffer_size Q = maxpathlen Q * 8"

definition cache_in_use :: "request \<Rightarrow> accel_globals \<Rightarrow> accel_shared_globals \<Rightarrow> bool" where
  "cache_in_use Q G S \<longleftrightarrow> enabled G \<and> accel_startup_ok Q \<and> (counted G \<or> accelerator_enabled S)"

section \<open>The working directory\<close>

definition accel_chdir :: "request \<Rightarrow> accel_globals \<Rightarrow> accel_globals" where
  "accel_chdir Q G = G\<lparr>cwd := vcwd_getcwd Q\<rparr>"

definition accel_getcwd :: "request \<Rightarrow> accel_globals \<Rightarrow> string option \<times> accel_globals" where
  "accel_getcwd Q G =
     (case cwd G of
        Some c \<Rightarrow> (Some c, G)
      | None \<Rightarrow> (case vcwd_getcwd Q of None \<Rightarrow> (None, G) | Some c \<Rightarrow> (Some c, G\<lparr>cwd := Some c\<rparr>)))"

section \<open>The letters of the include paths\<close>

definition letter :: "nat \<Rightarrow> char" where
  "letter n = char_of (65 + n)"

definition find_include_path :: "cache_env \<Rightarrow> string \<Rightarrow> accel_shared_globals \<Rightarrow> char hdata res" where
  "find_include_path E p S = ends (zend_accel_hash_find (zend_inline_hash_func E) (include_paths S) (nul p) (length (nul p)))"

definition letter_key :: "char hdata \<Rightarrow> char option" where
  "letter_key d = (case d of Obj c \<Rightarrow> Some c | _ \<Rightarrow> None)"

text \<open>What is done under the exclusive lock: look again, and add the path with the next letter.\<close>

definition add_include_path :: "cache_env \<Rightarrow> string \<Rightarrow> accel_shared_globals \<Rightarrow> (char option \<times> accel_shared_globals) res" where
  "add_include_path E p S =
     bind_res (find_include_path E p S) (\<lambda>d.
       if d \<noteq> NULL then Inr (letter_key d, S)
       else if zend_accel_hash_is_full (include_paths S) then Inr (None, S)
       else case locked_alloc (verbosity E) (length p + 2) (smm S) of
         (None, g) \<Rightarrow> Inr (None, zend_accel_schedule_restart_if_necessary (dirs E) (now E) ACCEL_RESTART_OOM (S\<lparr>smm := g\<rparr>))
       | (Some a, g) \<Rightarrow>
           (let c = letter (num_entries (include_paths S)) in
            bind_res (ends (zend_accel_hash_update (zend_inline_hash_func E) (include_paths S) (nul p) (length (nul p)) False (Obj c)))
              (\<lambda>(r, h). Inr (Some c, S\<lparr>smm := g, include_paths := h\<rparr>))))"

text \<open>\<open>accepted\<close>: the engine's own handler accepts the value; \<open>v\<close> is the value or \<open>NULL\<close>.\<close>

definition accel_include_path_on_modify ::
  "cache_env \<Rightarrow> request \<Rightarrow> bool \<Rightarrow> string option \<Rightarrow> accel_globals \<Rightarrow> accel_shared_globals
   \<Rightarrow> (accel_globals \<times> accel_shared_globals) res" where
  "accel_include_path_on_modify E Q accepted v G S =
     (let G0 = G\<lparr>include_path_key := None\<rparr> in
      if \<not> accepted then Inr (G0, S)
      else if v = None \<or> v = Some '''' then Inr (G0\<lparr>include_path := ''''\<rparr>, S)
      else
       (let G1 = G0\<lparr>include_path := the v\<rparr> in
        if \<not> cache_in_use Q G S then Inr (G1\<lparr>include_path_check := True\<rparr>, S)
        else bind_res (find_include_path E (the v) S) (\<lambda>d.
          if d = NULL \<and> \<not> zend_accel_hash_is_full (include_paths S)
          then bind_res (add_include_path E (the v) S) (\<lambda>(k, S1). Inr (G1\<lparr>include_path_key := k\<rparr>, S1))
          else Inr (G1\<lparr>include_path_key := letter_key d\<rparr>, S))))"

section \<open>Keys\<close>

text \<open>The last part of a key: the letter of the include path, or the path itself.\<close>

definition include_part ::
  "cache_env \<Rightarrow> request \<Rightarrow> accel_globals \<Rightarrow> accel_shared_globals \<Rightarrow> (string \<times> accel_globals \<times> accel_shared_globals) res" where
  "include_part E Q G S =
     (case include_path_key G of
        Some c \<Rightarrow> Inr ([c], G, S)
      | None \<Rightarrow>
          if include_path_check G \<and> cache_in_use Q G S
          then bind_res (find_include_path E (include_path G) S) (\<lambda>d.
            if d = NULL \<and> \<not> zend_accel_hash_is_full (include_paths S)
            then bind_res (add_include_path E (include_path G) S) (\<lambda>(k, S1).
              Inr (case k of Some c \<Rightarrow> [c] | None \<Rightarrow> include_path G, G\<lparr>include_path_key := k\<rparr>, S1))
            else Inr (include_path G, G, S))
          else Inr (include_path G, G, S))"

text \<open>\<open>while ((--parent_script_len > 0) && !IS_SLASH(parent_script[parent_script_len]));\<close>\<close>

fun parent_length :: "(char \<Rightarrow> bool) \<Rightarrow> string \<Rightarrow> nat \<Rightarrow> int" where
  "parent_length sl p 0 = -1"
| "parent_length sl p (Suc n) = (if 0 < n \<and> \<not> sl (p ! n) then parent_length sl p n else int n)"

definition parent_script_len :: "request \<Rightarrow> int" where
  "parent_script_len Q =
     (case executed_filename Q of
        None \<Rightarrow> 0
      | Some p \<Rightarrow> if take 1 p = ''['' then 0 else parent_length (is_slash Q) p (length p))"

text \<open>The bytes written; \<open>memcpy\<close> with a length of -1 leaves the buffer.\<close>

definition write_key :: "request \<Rightarrow> string \<Rightarrow> string \<Rightarrow> string \<Rightarrow> accel_globals \<Rightarrow> accel_shared_globals
   \<Rightarrow> (string option \<times> accel_globals \<times> accel_shared_globals) res" where
  "write_key Q c f inc G S =
     (let pl = parent_script_len Q;
          key_length = int (length c) + int (length f) + int (length inc) + 2 + (if pl \<noteq> 0 then pl + 1 else 0)
      in if key_length \<ge> int (key_buffer_size Q) then Inr (None, G\<lparr>key_buffer := ''''\<rparr>, S)
         else if pl < 0 then Inl Out_Of_Bounds
         else (let k = c @ '':'' @ f @ '':''
                   @ (if pl \<noteq> 0 then take (nat pl) (the (executed_filename Q)) @ '':'' else '''') @ inc
               in Inr (Some k, G\<lparr>key_buffer := k\<rparr>, S)))"

definition accel_make_persistent_key ::
  "cache_env \<Rightarrow> request \<Rightarrow> zend_file_handle \<Rightarrow> accel_globals \<Rightarrow> accel_shared_globals
   \<Rightarrow> (string option \<times> accel_globals \<times> accel_shared_globals) res" where
  "accel_make_persistent_key E Q fh G S =
     (if use_cwd (dirs E) \<and> \<not> is_absolute_path Q (filename fh) \<and> \<not> is_stream_path (filename fh)
      then case accel_getcwd Q G of (c, G1) \<Rightarrow>
        (case (if c = None then opened_path fh else c) of
           None \<Rightarrow> Inr (None, G1\<lparr>key_buffer := ''''\<rparr>, S)
         | Some c \<Rightarrow> bind_res (include_part E Q G1 S) (\<lambda>(inc, G2, S2). write_key Q c (filename fh) inc G2 S2))
      else if length (filename fh) \<ge> key_buffer_size Q then Inr (None, G\<lparr>key_buffer := ''''\<rparr>, S)
      else Inr (Some (filename fh), G\<lparr>key_buffer := filename fh\<rparr>, S))"

section \<open>Letters\<close>

text \<open>The letter a path has, and the invariant: different paths have different letters, and the
  table is small enough for the letters to be different bytes.\<close>

definition letter_of :: "cache_env \<Rightarrow> accel_shared_globals \<Rightarrow> string \<Rightarrow> char option" where
  "letter_of E S p = index_get (zend_inline_hash_func E) (include_paths S) (nul p)"

definition letters_ok :: "cache_env \<Rightarrow> accel_shared_globals \<Rightarrow> bool" where
  "letters_ok E S \<longleftrightarrow> shared_index.labelled (index_get (zend_inline_hash_func E)) num_entries
      (index_inv (zend_inline_hash_func E)) letter (include_paths S)
    \<and> max_num_entries (include_paths S) \<le> 190"

lemma letter_inj: "n \<le> 190 \<Longrightarrow> inj_on letter {..n}"
proof (rule inj_onI)
  fix i j assume "n \<le> 190" "i \<in> {..n}" "j \<in> {..n}" "letter i = letter j"
  then have "of_char (letter i) = (of_char (letter j) :: nat)" "65 + i < 256" "65 + j < 256" by simp_all
  then show "i = j" by (simp add: letter_def)
qed

lemma letters_okD:
  assumes "letters_ok E S"
  shows "index_inv (zend_inline_hash_func E) (include_paths S)" and "hash_inv (zend_inline_hash_func E) (include_paths S)"
    and "letter_of E S p = Some c \<Longrightarrow> letter_of E S q = Some c \<Longrightarrow> p = q"
proof -
  have lab: "shared_index.labelled (index_get (zend_inline_hash_func E)) num_entries
      (index_inv (zend_inline_hash_func E)) letter (include_paths S)" using assms by (simp add: letters_ok_def)
  then show i: "index_inv (zend_inline_hash_func E) (include_paths S)" unfolding index.labelled_def by blast
  then show "hash_inv (zend_inline_hash_func E) (include_paths S)" by (simp add: index_inv_def)
  assume "letter_of E S p = Some c" "letter_of E S q = Some c"
  then have "nul p = nul q" using lab unfolding index.labelled_def letter_of_def by blast
  then show "p = q" by simp
qed

lemma find_letter:
  assumes "letters_ok E S"
  shows "find_include_path E p S = Inr (case letter_of E S p of Some c \<Rightarrow> Obj c | None \<Rightarrow> NULL)"
proof -
  note inv = letters_okD(1,2) [OF assms]
  from inv(1) consider "zend_accel_hash_find_entry (zend_inline_hash_func E) (include_paths S) (nul p) (length (nul p)) = Some None"
    | d where "zend_accel_hash_find (zend_inline_hash_func E) (include_paths S) (nul p) (length (nul p)) = Some (Obj d)"
    unfolding index_inv_def by blast
  then show ?thesis
    by cases (simp_all add: find_include_path_def letter_of_def index_get_def find_entry_None_find [OF inv(2)])
qed

lemma letter_key_simps [simp]: "letter_key NULL = None" "letter_key (Obj c) = Some c"
  "letter_key (case k of Some c \<Rightarrow> Obj c | None \<Rightarrow> NULL) = k"
  by (simp_all add: letter_key_def split: option.split)

lemma letters_ok_cong:
  "include_paths S' = include_paths S \<Longrightarrow> letters_ok E S' = letters_ok E S \<and> letter_of E S' p = letter_of E S p"
  by (simp add: letters_ok_def letter_of_def)

lemma include_paths_schedule [simp]:
  "include_paths (zend_accel_schedule_restart_if_necessary d t r S) = include_paths S"
  by (simp add: zend_accel_schedule_restart_if_necessary_def zend_accel_schedule_restart_def)

lemma add_path_ok:
  assumes ok: "letters_ok E S"
  shows "\<exists>S'. add_include_path E p S = Inr (letter_of E S' p, S') \<and> letters_ok E S'
    \<and> (\<forall>q. q \<noteq> p \<or> letter_of E S p \<noteq> None \<longrightarrow> letter_of E S' q = letter_of E S q)"
proof (cases "letter_of E S p")
  case (Some c)
  then show ?thesis
    using ok by (intro exI [of _ S]) (simp add: add_include_path_def find_letter [OF ok])
next
  case None
  let ?hf = "zend_inline_hash_func E"
  note f = find_letter [OF ok, of p, unfolded None option.case]
  show ?thesis
  proof (cases "zend_accel_hash_is_full (include_paths S)")
    case True
    then show ?thesis using ok by (intro exI [of _ S]) (simp add: add_include_path_def f None)
  next
    case room: False
    obtain r g where al: "locked_alloc (verbosity E) (length p + 2) (smm S) = (r, g)" by fastforce
    show ?thesis
    proof (cases r)
      case None
      let ?S' = "zend_accel_schedule_restart_if_necessary (dirs E) (now E) ACCEL_RESTART_OOM (S\<lparr>smm := g\<rparr>)"
      have same: "letters_ok E ?S' = letters_ok E S \<and> letter_of E ?S' q = letter_of E S q" for q
        by (rule letters_ok_cong) simp
      show ?thesis
        using ok room al None \<open>letter_of E S p = None\<close>
        by (intro exI [of _ ?S']) (simp add: add_include_path_def f same)
    next
      case (Some a)
      have new: "zend_accel_hash_find_entry ?hf (include_paths S) (nul p) (length (nul p)) = Some None"
        using None index_get_None [OF letters_okD(1) [OF ok]] by (simp add: letter_of_def)
      let ?c = "letter (num_entries (include_paths S))"
      from insert_new(2) [OF letters_okD(2) [OF ok] new room, of "Obj ?c"] obtain h
        where u: "zend_accel_hash_update ?hf (include_paths S) (nul p) (length (nul p)) False (Obj ?c)
            = Some (Some (num_entries (include_paths S)), h)"
          and m: "max_num_entries h = max_num_entries (include_paths S)" by blast
      have put: "index_put ?hf (nul p) ?c (include_paths S) = Some h" by (simp add: index_put_def u)
      have "num_entries (include_paths S) \<le> 190"
        using hash_invD(4) [OF letters_okD(2) [OF ok]] ok by (simp add: letters_ok_def)
      note L = index.labelled_put [OF _ letter_inj [OF this] _ put]
      have lab: "shared_index.labelled (index_get ?hf) num_entries (index_inv ?hf) letter (include_paths S)"
        and g: "index_get ?hf (include_paths S) (nul p) = None" using ok None by (simp_all add: letters_ok_def letter_of_def)
      let ?S' = "S\<lparr>smm := g, include_paths := h\<rparr>"
      have "letters_ok E ?S'" using L(1) [OF lab g] m ok by (simp add: letters_ok_def)
      moreover have "letter_of E ?S' p = Some ?c" using L(2) [OF lab g] by (simp add: letter_of_def)
      moreover have "letter_of E ?S' q = letter_of E S q" if "q \<noteq> p" for q
        using L(4) [OF lab g, of "nul q"] that by (simp add: letter_of_def)
      ultimately show ?thesis
        using room al Some None by (intro exI [of _ ?S']) (simp add: add_include_path_def f u Let_def)
    qed
  qed
qed

section \<open>The first path\<close>

text \<open>Adding a path keeps the first entry as it is.\<close>

lemma put_path_inv:
  fixes h :: "'d zend_accel_hash"
  assumes inv: "paths_inv hashf h" and new: "zend_accel_hash_find_entry hashf h k (length k) = Some None"
    and u: "zend_accel_hash_update hashf h k (length k) False (Obj d) = Some (Some n, h')"
  shows "paths_inv hashf h'" and "he_data (hash_entries h' ! 0) = (if num_entries h = 0 then Obj d else he_data (hash_entries h ! 0))"
proof -
  have hi: "hash_inv hashf h" and xi: "index_inv hashf h" using inv by (simp_all add: paths_inv_def index_inv_def)
  then obtain cs where rep: "hash_rep hashf h cs" by (auto simp: hash_inv_def)
  note ch = hash_repD(1) [OF rep] and dt = hash_repD(2) [OF rep]
  have sl: "slot hashf h cs k = None" using new by (simp add: find_entry_view [OF ch dt])
  from u have room: "\<not> zend_accel_hash_is_full h"
    and h': "h' = add_new_entry h (hashf k (length k)) k (length k) None (Obj d)"
    by (simp_all add: update_unfold [OF rep, of False _ None] sl zend_accel_hash_is_full_def split: if_splits)
  from insert_new(2) [OF hi new room, of "Obj d"] u
  have i': "hash_inv hashf h'" and n': "num_entries h' = num_entries h + 1"
    and e': "\<And>q. zend_accel_hash_find_entry hashf h' q (length q)
       = (if q = k then Some (Some (num_entries h)) else zend_accel_hash_find_entry hashf h q (length q))"
    and f': "\<And>q. zend_accel_hash_find hashf h' q (length q) = (if q = k then Some (Obj d) else zend_accel_hash_find hashf h q (length q))"
    by auto
  have x': "index_inv hashf h'" using xi i' by (auto simp: index_inv_def e' f')
  have len: "num_entries h < length (hash_entries h)" using room chains_okD [OF ch] by (simp add: zend_accel_hash_is_full_def)
  note nth = add_entry_nth [OF len, of "hashf k (length k)" k "length k" None "Obj d", folded h']
  show "he_data (hash_entries h' ! 0) = (if num_entries h = 0 then Obj d else he_data (hash_entries h ! 0))"
    by (simp add: nth)
  show "paths_inv hashf h'"
  proof (cases "num_entries h")
    case 0
    let ?b = "hash_index h (hashf k (length k))"
    have b: "?b < max_num_entries h" using chains_okD(1) [OF ch] by simp
    have "cs ! ?b = []" using chains_ok_entry(1) [OF ch b] 0 by (metis less_nat_zero_code list.set_intros(1) neq_Nil_conv)
    then have "hash_table h ! ?b = None" using chains_ok_chain(1) [OF ch b] by simp
    then show ?thesis using x' 0 e' [of k] by (simp add: paths_inv_def nth key_ok_def n')
  next
    case (Suc m)
    have "he_key (hash_entries h ! 0) \<noteq> k" using inv new Suc by (auto simp: paths_inv_def)
    then show ?thesis using x' inv Suc e' [of "he_key (hash_entries h ! 0)"] by (simp add: paths_inv_def nth n')
  qed
qed

text \<open>The invariant of the include paths: the letters, and that the first path, which a restart
  keeps, has the first letter.\<close>

definition paths_ok :: "cache_env \<Rightarrow> accel_shared_globals \<Rightarrow> bool" where
  "paths_ok E S \<longleftrightarrow> letters_ok E S \<and> paths_inv (zend_inline_hash_func E) (include_paths S)
    \<and> (0 < num_entries (include_paths S) \<longrightarrow> he_data (hash_entries (include_paths S) ! 0) = Obj (letter 0))"

lemma add_path_inv:
  assumes ok: "paths_ok E S" and add: "add_include_path E p S = Inr (k, S')"
  shows "paths_ok E S'"
    and "letter_of E S p = None \<Longrightarrow> k = Some c \<Longrightarrow>
      c = letter (num_entries (include_paths S)) \<and> num_entries (include_paths S') = Suc (num_entries (include_paths S))"
proof -
  have lok: "letters_ok E S" and inv: "paths_inv (zend_inline_hash_func E) (include_paths S)"
    using ok by (simp_all add: paths_ok_def)
  let ?n = "num_entries (include_paths S)"
  have lok': "letters_ok E S'" using add_path_ok [OF lok, of p] add by auto
  have both: "paths_ok E S' \<and> (k = Some c \<longrightarrow> c = letter ?n \<and> num_entries (include_paths S') = Suc ?n)"
    if None: "letter_of E S p = None"
  proof -
    note new = index_get_None [OF letters_okD(1) [OF lok] None [unfolded letter_of_def]]
    show ?thesis
    proof (cases "include_paths S' = include_paths S")
      case True
      then show ?thesis using lok' ok add insert_new(2) [OF letters_okD(2) [OF lok] new, of "Obj (letter ?n)"]
        by (auto simp: paths_ok_def add_include_path_def find_letter [OF lok] None Let_def split: if_splits option.splits prod.splits)
    next
      case False
      then have room: "\<not> zend_accel_hash_is_full (include_paths S)"
        using add by (auto simp: add_include_path_def find_letter [OF lok] None)
      from insert_new(2) [OF letters_okD(2) [OF lok] new room, of "Obj (letter ?n)"] obtain h
        where u: "zend_accel_hash_update (zend_inline_hash_func E) (include_paths S) (nul p) (length (nul p)) False (Obj (letter ?n))
            = Some (Some ?n, h)" and n: "num_entries h = ?n + 1" by blast
      have h: "include_paths S' = h" "k = Some (letter ?n)"
        using add False room u by (auto simp: add_include_path_def find_letter [OF lok] None Let_def split: option.splits prod.splits)
      show ?thesis using put_path_inv [OF inv new u] lok' ok h n by (auto simp: paths_ok_def)
    qed
  qed
  show "paths_ok E S'"
  proof (cases "letter_of E S p")
    case (Some l)
    then show ?thesis using add ok by (simp add: add_include_path_def find_letter [OF lok])
  qed (use both in simp)
  show "c = letter ?n \<and> num_entries (include_paths S') = Suc ?n" if "letter_of E S p = None" "k = Some c"
    using both that by simp
qed

lemma labelledI:
  assumes "index_inv hashf h" and "\<And>k v. index_get hashf h k = Some v \<Longrightarrow> k = k0 \<and> v = lab 0" and "0 < num_entries h"
  shows "shared_index.labelled (index_get hashf) num_entries (index_inv hashf) lab h"
  unfolding index.labelled_def using assms by blast

lemma paths_ok_restart:
  assumes ok: "paths_ok E S"
  shows "paths_ok E (restart d (zend_inline_hash_func E) t S)"
    and "letter_of E (restart d (zend_inline_hash_func E) t S) p =
      (if num_entries (include_paths S) \<le> 1 \<or> nul p = he_key (hash_entries (include_paths S) ! 0) then letter_of E S p else None)"
    and "num_entries (include_paths (restart d (zend_inline_hash_func E) t S)) = min 1 (num_entries (include_paths S))"
proof -
  let ?hf = "zend_inline_hash_func E" and ?h = "include_paths S"
  have inv: "paths_inv ?hf ?h" and lok: "letters_ok E S" using ok by (simp_all add: paths_ok_def)
  show "num_entries (include_paths (restart d ?hf t S)) = min 1 (num_entries ?h)"
    by (simp add: restart_fields keep_first_path_def)
  have "paths_ok E (restart d ?hf t S) \<and> letter_of E (restart d ?hf t S) p =
      (if num_entries ?h \<le> 1 \<or> nul p = he_key (hash_entries ?h ! 0) then letter_of E S p else None)"
  proof (cases "1 < num_entries ?h")
    case False
    then have "include_paths (restart d ?hf t S) = ?h" by (simp add: restart_fields keep_first_nop)
    then show ?thesis using ok False by (simp add: paths_ok_def letters_ok_def letter_of_def)
  next
    case True
    note V = keep_first_view [OF inv True]
    let ?h' = "keep_first_path ?hf ?h" and ?k0 = "he_key (hash_entries ?h ! 0)"
    have d: "he_data (hash_entries ?h ! 0) = Obj (letter 0)" using ok True by (simp add: paths_ok_def)
    have es: "hash_entries ?h' = hash_entries ?h" "num_entries ?h' = 1" "max_num_entries ?h' = max_num_entries ?h"
      using True by (simp_all add: keep_first_path_def)
    have get: "index_get ?hf ?h' k = (if k = ?k0 then Some (letter 0) else None)" for k
      by (simp add: index_get_def V(3) d)
    have old: "index_get ?hf ?h ?k0 = Some (letter 0)"
      using inv True find_of_entry [OF letters_okD(2) [OF lok], of ?k0 0] by (simp add: paths_inv_def index_get_def d)
    have inv': "paths_inv ?hf ?h'" by (rule keep_first_inv [OF inv])
    then have "shared_index.labelled (index_get ?hf) num_entries (index_inv ?hf) letter ?h'"
      by (intro labelledI [of _ _ ?k0]) (auto simp: paths_inv_def get es split: if_splits)
    then show ?thesis
      using inv' True lok by (auto simp: paths_ok_def letters_ok_def restart_fields letter_of_def es d get old)
  qed
  then show "paths_ok E (restart d ?hf t S)"
    and "letter_of E (restart d ?hf t S) p =
      (if num_entries ?h \<le> 1 \<or> nul p = he_key (hash_entries ?h ! 0) then letter_of E S p else None)" by simp_all
qed

section \<open>The shape of keys\<close>

lemma parent_length_bounds: "0 < n \<Longrightarrow> 0 \<le> parent_length sl p n \<and> parent_length sl p n < int n"
  by (induction n) auto

lemma parent_script_len_pos: "executed_filename Q \<noteq> Some '''' \<Longrightarrow> 0 \<le> parent_script_len Q"
  using parent_length_bounds by (auto simp: parent_script_len_def split: option.split)

lemma parent_script_len_le:
  assumes "0 < parent_script_len Q"
  shows "\<exists>p. executed_filename Q = Some p \<and> parent_script_len Q < int (length p)"
proof -
  obtain p where p: "executed_filename Q = Some p" "parent_script_len Q = parent_length (is_slash Q) p (length p)"
    using assms by (auto simp: parent_script_len_def split: option.splits if_splits)
  moreover have "p \<noteq> ''''" using assms p by auto
  ultimately show ?thesis using parent_length_bounds [of "length p" "is_slash Q" p] by auto
qed

text \<open>The directory part of the executed file.\<close>

definition parent_dir :: "request \<Rightarrow> string" where
  "parent_dir Q = (if 0 < parent_script_len Q then take (nat (parent_script_len Q)) (the (executed_filename Q)) else '''')"

lemma parent_dir_empty: "0 \<le> parent_script_len Q \<Longrightarrow> parent_dir Q = '''' \<longleftrightarrow> parent_script_len Q = 0"
  using parent_script_len_le [of Q] by (auto simp: parent_dir_def)

definition key_of :: "string \<Rightarrow> string \<Rightarrow> string \<Rightarrow> string \<Rightarrow> string" where
  "key_of c f par inc = c @ '':'' @ f @ '':'' @ (if par = '''' then inc else par @ '':'' @ inc)"

lemma write_key_eq:
  assumes "executed_filename Q \<noteq> Some ''''"
  shows "write_key Q c f inc G S =
    (let k = key_of c f (parent_dir Q) inc in
     if length k \<ge> key_buffer_size Q then Inr (None, G\<lparr>key_buffer := ''''\<rparr>, S) else Inr (Some k, G\<lparr>key_buffer := k\<rparr>, S))"
proof -
  note pos = parent_script_len_pos [OF assms]
  show ?thesis
  proof (cases "parent_script_len Q = 0")
    case True
    then show ?thesis by (simp add: write_key_def key_of_def parent_dir_def Let_def nat_le_iff flip: of_nat_le_iff)
  next
    case False
    with pos parent_script_len_le [of Q] obtain p where p: "executed_filename Q = Some p" "parent_script_len Q < int (length p)"
      by auto
    moreover have "parent_dir Q \<noteq> ''''" using parent_dir_empty [OF pos] False by simp
    moreover obtain n where "parent_script_len Q = int n" using pos by (metis nonneg_int_cases)
    ultimately show ?thesis using False
      by (auto simp: write_key_def key_of_def parent_dir_def Let_def)
  qed
qed

text \<open>A name without a colon.\<close>

definition plain :: "string \<Rightarrow> bool" where
  "plain s \<longleftrightarrow> CHR '':'' \<notin> set s"

lemma split_at_colon:
  assumes "plain a" and "plain b"
  shows "a @ '':'' @ x = b @ '':'' @ y \<longleftrightarrow> a = b \<and> x = y"
  using assms
proof (induction a arbitrary: b)
  case Nil
  then show ?case by (cases b) (auto simp: plain_def)
next
  case (Cons z a)
  then show ?case by (cases b) (auto simp: plain_def)
qed

lemma key_of_inj:
  assumes "plain c" "plain c'" "plain f" "plain f'" "plain par" "plain par'"
  shows "key_of c f par [l] = key_of c' f' par' [l'] \<longleftrightarrow> c = c' \<and> f = f' \<and> par = par' \<and> l = l'"
  using assms
  by (auto simp: key_of_def split_at_colon [simplified] dest: arg_cong [where f = length])

lemma add_path_some:
  assumes ok: "letters_ok E S" and None: "letter_of E S p = None" and room: "\<not> zend_accel_hash_is_full (include_paths S)"
    and al: "locked_alloc (verbosity E) (length p + 2) (smm S) = (Some a, g)"
  shows "\<exists>h. add_include_path E p S = Inr (Some (letter (num_entries (include_paths S))), S\<lparr>smm := g, include_paths := h\<rparr>)
    \<and> max_num_entries h = max_num_entries (include_paths S)"
proof -
  note new = index_get_None [OF letters_okD(1) [OF ok] None [unfolded letter_of_def]]
  show ?thesis
    using insert_new(2) [OF letters_okD(2) [OF ok] new room, of "Obj (letter (num_entries (include_paths S)))"]
    by (auto simp: add_include_path_def find_letter [OF ok] None room al [simplified] Let_def)
qed

lemma include_part_ok:
  assumes ok: "paths_ok E S"
  shows "\<exists>inc G' S'. include_part E Q G S = Inr (inc, G', S') \<and> paths_ok E S'
    \<and> (\<forall>q c. letter_of E S q = Some c \<longrightarrow> letter_of E S' q = Some c)"
proof (cases "include_path_key G = None \<and> include_path_check G \<and> cache_in_use Q G S
    \<and> letter_of E S (include_path G) = None \<and> \<not> zend_accel_hash_is_full (include_paths S)")
  case True
  have lok: "letters_ok E S" using ok by (simp add: paths_ok_def)
  obtain k S' where a: "add_include_path E (include_path G) S = Inr (k, S')"
    and keep: "\<forall>q. q \<noteq> include_path G \<longrightarrow> letter_of E S' q = letter_of E S q" using add_path_ok [OF lok, of "include_path G"] by auto
  have "letter_of E S' q = Some c" if "letter_of E S q = Some c" for q c
    using keep True that by (cases "q = include_path G") auto
  then show ?thesis using True a add_path_inv(1) [OF ok a]
    by (auto simp: include_part_def find_letter [OF lok])
next
  case False
  have lok: "letters_ok E S" using ok by (simp add: paths_ok_def)
  then have "\<exists>inc. include_part E Q G S = Inr (inc, G, S)" using False
    by (auto simp: include_part_def find_letter [OF lok] split: option.split)
  then show ?thesis using ok by auto
qed

section \<open>Properties\<close>

text \<open>The values of \<open>include_path\<close>: setting one while the cache is in use gives the process the
  letter the table has for it, if it has one afterwards; letters once given stay; and two paths
  never have the same letter.\<close>

theorem include_path_letters:
  assumes ok: "paths_ok E S" and p: "p \<noteq> ''''"
  shows "\<exists>G' S'. accel_include_path_on_modify E Q True (Some p) G S = Inr (G', S') \<and> paths_ok E S' \<and> include_path G' = p
    \<and> (cache_in_use Q G S \<longrightarrow> include_path_key G' = letter_of E S' p)
    \<and> (\<not> cache_in_use Q G S \<longrightarrow> include_path_key G' = None \<and> include_path_check G')
    \<and> (\<forall>q c. letter_of E S q = Some c \<longrightarrow> letter_of E S' q = Some c)
    \<and> (\<forall>q r c. letter_of E S' q = Some c \<and> letter_of E S' r = Some c \<longrightarrow> q = r)"
proof -
  have lok: "letters_ok E S" using ok by (simp add: paths_ok_def)
  obtain S1 where a: "add_include_path E p S = Inr (letter_of E S1 p, S1)"
    and keep: "\<forall>q. q \<noteq> p \<or> letter_of E S p \<noteq> None \<longrightarrow> letter_of E S1 q = letter_of E S q" using add_path_ok [OF lok, of p] by auto
  note ok1 = add_path_inv(1) [OF ok a]
  have uniq: "\<And>S q r c. paths_ok E S \<Longrightarrow> letter_of E S q = Some c \<and> letter_of E S r = Some c \<longrightarrow> q = r"
    using letters_okD(3) by (auto simp: paths_ok_def)
  show ?thesis
  proof (cases "cache_in_use Q G S \<and> letter_of E S p = None \<and> \<not> zend_accel_hash_is_full (include_paths S)")
    case True
    then have "accel_include_path_on_modify E Q True (Some p) G S
        = Inr (G\<lparr>include_path_key := letter_of E S1 p, include_path := p\<rparr>, S1)"
      using p a by (simp add: accel_include_path_on_modify_def Let_def find_letter [OF lok])
    moreover have "letter_of E S1 q = Some c" if "letter_of E S q = Some c" for q c using keep True that by (cases "q = p") auto
    ultimately show ?thesis using True ok1 uniq [OF ok1] by auto
  next
    case False
    have "accel_include_path_on_modify E Q True (Some p) G S
        = Inr (if cache_in_use Q G S then G\<lparr>include_path_key := letter_of E S p, include_path := p\<rparr>
               else G\<lparr>include_path_key := None, include_path := p, include_path_check := True\<rparr>, S)"
      using p False by (auto simp: accel_include_path_on_modify_def Let_def find_letter [OF lok])
    then show ?thesis using ok uniq [OF ok] by auto
  qed
qed

text \<open>C20. Making a key: with a named executed file it always returns; a key is shorter than the
  buffer, which holds it; without a key the buffer is marked empty; the letters of the include
  paths are kept.\<close>

theorem persistent_key_fits:
  assumes ok: "paths_ok E S" and named: "executed_filename Q \<noteq> Some ''''"
  shows "\<exists>r G' S'. accel_make_persistent_key E Q fh G S = Inr (r, G', S') \<and> paths_ok E S'
    \<and> key_buffer G' = (case r of None \<Rightarrow> '''' | Some k \<Rightarrow> k)
    \<and> (\<forall>k. r = Some k \<longrightarrow> length k < key_buffer_size Q)
    \<and> (\<forall>q c. letter_of E S q = Some c \<longrightarrow> letter_of E S' q = Some c)"
proof (cases "use_cwd (dirs E) \<and> \<not> is_absolute_path Q (filename fh) \<and> \<not> is_stream_path (filename fh)")
  case True
  obtain c G1 where c: "accel_getcwd Q G = (c, G1)" by fastforce
  show ?thesis
  proof (cases "if c = None then opened_path fh else c")
    case None
    then show ?thesis using True ok c by (auto simp: accel_make_persistent_key_def)
  next
    case (Some d)
    obtain inc G2 S2 where i: "include_part E Q G1 S = Inr (inc, G2, S2)" "paths_ok E S2"
      "\<forall>q c. letter_of E S q = Some c \<longrightarrow> letter_of E S2 q = Some c" using include_part_ok [OF ok, of Q G1] by auto
    show ?thesis using True Some c i
      by (auto simp: accel_make_persistent_key_def write_key_eq [OF named] Let_def)
  qed
qed (use ok in \<open>auto simp: accel_make_persistent_key_def\<close>)

lemma key_shape:
  assumes "use_cwd (dirs E)" "\<not> is_absolute_path Q (filename fh)" "\<not> is_stream_path (filename fh)"
    and "executed_filename Q \<noteq> Some ''''" and "cwd G = Some c" and "include_path_key G = Some l"
    and "accel_make_persistent_key E Q fh G S = Inr (Some k, G', S')"
  shows "k = key_of c (filename fh) (parent_dir Q) [l]"
  using assms by (auto simp: accel_make_persistent_key_def accel_getcwd_def include_part_def write_key_eq Let_def split: if_splits)

text \<open>C21. Two requests for relative names, with letters for their include paths and without colons
  in the names, get the same key exactly when they agree on the working directory, the name, the
  directory of the executed file and the letter.\<close>

theorem persistent_key_unambiguous:
  assumes rel: "use_cwd (dirs E)" "\<not> is_absolute_path Q (filename fh)" "\<not> is_stream_path (filename fh)"
      "\<not> is_absolute_path Q' (filename fh')" "\<not> is_stream_path (filename fh')"
    and named: "executed_filename Q \<noteq> Some ''''" "executed_filename Q' \<noteq> Some ''''"
    and G: "cwd G = Some c" "include_path_key G = Some l" and G': "cwd G' = Some c'" "include_path_key G' = Some l'"
    and k: "accel_make_persistent_key E Q fh G S = Inr (Some k, G1, S1)"
    and k': "accel_make_persistent_key E Q' fh' G' S' = Inr (Some k', G1', S1')"
    and plain: "plain c" "plain c'" "plain (filename fh)" "plain (filename fh')" "plain (parent_dir Q)" "plain (parent_dir Q')"
  shows "k = k' \<longleftrightarrow> c = c' \<and> filename fh = filename fh' \<and> parent_dir Q = parent_dir Q' \<and> l = l'"
  unfolding key_shape [OF rel(1-3) named(1) G k] key_shape [OF rel(1,4,5) named(2) G' k'] by (rule key_of_inj [OF plain])

definition demo_request :: request where
  "demo_request = \<lparr>accel_startup_ok = True, is_absolute_path = (\<lambda>f. take 1 f = ''/''), is_slash = (\<lambda>c. c = CHR ''/''),
     vcwd_getcwd = Some ''/w'', executed_filename = Some ''/w/i.php'', maxpathlen = 4096\<rparr>"

definition demo_file :: "string \<Rightarrow> zend_file_handle" where
  "demo_file f = \<lparr>fh_type = ZEND_HANDLE_FILENAME, filename = f, opened_path = None, fh_translated = False, fh_stat = None,
     fh_stream_stat = None\<rparr>"

text \<open>With colons they need not: the file \<open>c\<close> in the directory \<open>/a:b\<close> and the file \<open>b:c\<close> in
  the directory \<open>/a\<close> have the same key.\<close>

theorem persistent_key_collision:
  "\<exists>k G1 G2. accel_make_persistent_key demo_cache_env demo_request (demo_file ''c'')
        (demo_process\<lparr>cwd := Some ''/a:b'', include_path_key := Some CHR ''A''\<rparr>) demo_shared = Inr (Some k, G1, demo_shared)
    \<and> accel_make_persistent_key demo_cache_env demo_request (demo_file ''b:c'')
        (demo_process\<lparr>cwd := Some ''/a'', include_path_key := Some CHR ''A''\<rparr>) demo_shared = Inr (Some k, G2, demo_shared)"
  by (simp add: accel_make_persistent_key_def demo_request_def demo_file_def demo_directives_def demo_process_def is_stream_path_def
      scheme_char_def isalnum_def accel_getcwd_def include_part_def write_key_def parent_script_len_def key_buffer_size_def Let_def)

text \<open>A restart keeps only the first include path, so the next path that is added gets a letter
  that another path had before it; a process that keeps its letter (as every process does whose
  \<open>include_path_key\<close> is set) then shares it.\<close>

theorem include_path_letter_reused:
  assumes ok: "paths_ok E S" and one: "num_entries (include_paths S) = 1" and p: "p \<noteq> q"
    and new: "letter_of E S p = None" "letter_of E S q = None"
    and a: "add_include_path E p S = Inr (Some c, S1)"
    and b: "add_include_path E q (restart d (zend_inline_hash_func E) t S1) = Inr (Some c', S2)"
  shows "c' = c"
proof -
  note A = add_path_inv [OF ok a]
  have "letter_of E S1 q = None" using add_path_ok [of E S p] ok a p new by (auto simp: paths_ok_def)
  then have "letter_of E (restart d (zend_inline_hash_func E) t S1) q = None" by (simp add: paths_ok_restart(2) [OF A(1)])
  note B = add_path_inv(2) [OF paths_ok_restart(1) [OF A(1)] b this refl]
  show ?thesis using A(2) [OF new(1) refl] B one by (simp add: paths_ok_restart(3) [OF A(1)])
qed

section \<open>Concrete paths\<close>

lemma demo_paths_ok: "paths_ok demo_cache_env demo_shared"
proof -
  have b: "(0::nat) < 5" "(5::nat) < two32" by (simp_all add: two32_def)
  have "include_paths demo_shared = empty_hash 5" by (simp add: demo_shared_def)
  moreover have "shared_index.labelled (index_get hf) num_entries (index_inv hf) letter (empty_hash 5)" for hf
    unfolding index.labelled_def by (simp add: index_inv_def index_get_def empty_view(1) [OF b] empty_view(2) [OF b] empty_view(3) [OF b])
  ultimately show ?thesis using demo_empty_paths by (simp add: paths_ok_def letters_ok_def)
qed

lemma include_path_letters_witness:
  "\<exists>G' S'. accel_include_path_on_modify demo_cache_env demo_request True (Some ''/lib'') demo_process demo_shared = Inr (G', S')
    \<and> include_path_key G' = letter_of demo_cache_env S' ''/lib''"
  using include_path_letters [OF demo_paths_ok, of "''/lib''" demo_request demo_process]
  by (auto simp: cache_in_use_def demo_request_def demo_process_def demo_shared_def)

lemma persistent_key_fits_witness:
  "\<exists>r G' S'. accel_make_persistent_key demo_cache_env demo_request (demo_file ''c'') demo_process demo_shared = Inr (r, G', S')
    \<and> (\<forall>k. r = Some k \<longrightarrow> length k < 32768)"
  using persistent_key_fits [OF demo_paths_ok, of demo_request "demo_file ''c''" demo_process]
  by (auto simp: demo_request_def key_buffer_size_def)

lemma persistent_key_unambiguous_witness:
  "\<exists>k k' G1 G2. accel_make_persistent_key demo_cache_env demo_request (demo_file ''c'')
        (demo_process\<lparr>cwd := Some ''/a'', include_path_key := Some CHR ''A''\<rparr>) demo_shared = Inr (Some k, G1, demo_shared)
    \<and> accel_make_persistent_key demo_cache_env demo_request (demo_file ''c'')
        (demo_process\<lparr>cwd := Some ''/a'', include_path_key := Some CHR ''B''\<rparr>) demo_shared = Inr (Some k', G2, demo_shared)
    \<and> k \<noteq> k'"
proof -
  let ?G = "\<lambda>l. demo_process\<lparr>cwd := Some ''/a'', include_path_key := Some l\<rparr>"
  have "\<exists>k G1. accel_make_persistent_key demo_cache_env demo_request (demo_file ''c'') (?G l) demo_shared = Inr (Some k, G1, demo_shared)" for l
    by (simp add: accel_make_persistent_key_def demo_request_def demo_file_def demo_directives_def demo_process_def is_stream_path_def
      scheme_char_def isalnum_def accel_getcwd_def include_part_def write_key_def parent_script_len_def key_buffer_size_def Let_def)
  then obtain k G1 k' G2 where
    k: "accel_make_persistent_key demo_cache_env demo_request (demo_file ''c'') (?G CHR ''A'') demo_shared = Inr (Some k, G1, demo_shared)"
    and k': "accel_make_persistent_key demo_cache_env demo_request (demo_file ''c'') (?G CHR ''B'') demo_shared = Inr (Some k', G2, demo_shared)"
    by metis
  have "k \<noteq> k'"
    using persistent_key_unambiguous [OF _ _ _ _ _ _ _ _ _ _ _ k k', of "''/a''" "CHR ''A''" "''/a''" "CHR ''B''"]
    by (simp add: demo_directives_def demo_request_def demo_file_def is_stream_path_def scheme_char_def isalnum_def plain_def
        parent_dir_def parent_script_len_def)
  then show ?thesis using k k' by blast
qed

lemma demo_allocs:
  "\<exists>a g a' g' a'' g''. locked_alloc 1 4 (smm demo_shared) = (Some a, g) \<and> locked_alloc 1 4 g = (Some a', g')
    \<and> locked_alloc 1 4 (zend_shared_alloc_restore_state g') = (Some a'', g'')"
  by (simp add: locked_alloc_def zend_shared_alloc_locked Let_def demo_shared_def zend_shared_alloc_save_state_def demo_smm_def
      block_free_def sub64_def two64_def two32_def ZEND_ALIGNED_SIZE_def PLATFORM_ALIGNMENT_def zend_shared_alloc_restore_state_def
      to_int32_def int_to_size_def)

lemma demo_add:
  assumes ok: "paths_ok demo_cache_env S" and new: "letter_of demo_cache_env S p = None" and len: "length p = 2"
    and room: "num_entries (include_paths S) < max_num_entries (include_paths S)" and al: "locked_alloc 1 4 (smm S) = (Some a, g)"
  shows "\<exists>c S'. add_include_path demo_cache_env p S = Inr (Some c, S') \<and> smm S' = g \<and> paths_ok demo_cache_env S'
    \<and> num_entries (include_paths S') = Suc (num_entries (include_paths S))
    \<and> max_num_entries (include_paths S') = max_num_entries (include_paths S)
    \<and> (\<forall>q. q \<noteq> p \<longrightarrow> letter_of demo_cache_env S' q = letter_of demo_cache_env S q)"
proof -
  have lok: "letters_ok demo_cache_env S" using ok by (simp add: paths_ok_def)
  have "\<not> zend_accel_hash_is_full (include_paths S)" using room by (simp add: zend_accel_hash_is_full_def)
  from add_path_some [OF lok new this] al len obtain h
    where h: "add_include_path demo_cache_env p S = Inr (Some (letter (num_entries (include_paths S))), S\<lparr>smm := g, include_paths := h\<rparr>)"
      "max_num_entries h = max_num_entries (include_paths S)" by auto
  have "letter_of demo_cache_env (S\<lparr>smm := g, include_paths := h\<rparr>) p = Some (letter (num_entries (include_paths S)))"
    using add_path_ok [OF lok, of p] h by auto
  then show ?thesis using add_path_ok [OF lok, of p] h add_path_inv(1) [OF ok h(1)] add_path_inv(2) [OF ok h(1) new refl] by auto
qed

lemma include_path_letter_reused_witness:
  "\<exists>S c S1 c' S2. add_include_path demo_cache_env ''/b'' S = Inr (Some c, S1)
    \<and> add_include_path demo_cache_env ''/c'' (restart demo_directives Accel_Hash.demo_hash 7 S1) = Inr (Some c', S2) \<and> c' = c"
proof -
  let ?r = "restart demo_directives Accel_Hash.demo_hash 7"
  have paths: "include_paths demo_shared = empty_hash 5" by (simp add: demo_shared_def)
  have none: "letter_of demo_cache_env demo_shared x = None" for x
    by (simp add: letter_of_def index_get_def paths empty_view(3) two32_def)
  obtain a g a' g' a'' g'' where al: "locked_alloc 1 4 (smm demo_shared) = (Some a, g)" "locked_alloc 1 4 g = (Some a', g')"
    "locked_alloc 1 4 (zend_shared_alloc_restore_state g') = (Some a'', g'')" using demo_allocs by blast
  obtain c0 S where S: "smm S = g" "paths_ok demo_cache_env S" "num_entries (include_paths S) = 1" "max_num_entries (include_paths S) = 5"
    "\<And>q. q \<noteq> ''/a'' \<Longrightarrow> letter_of demo_cache_env S q = None"
    using demo_add [OF demo_paths_ok none, of "''/a''" a g] al(1) by (auto simp: paths none)
  obtain c S1 where S1: "add_include_path demo_cache_env ''/b'' S = Inr (Some c, S1)" "smm S1 = g'" "paths_ok demo_cache_env S1"
    "num_entries (include_paths S1) = 2" "max_num_entries (include_paths S1) = 5" "letter_of demo_cache_env S1 ''/c'' = None"
    using demo_add [OF S(2) S(5), of "''/b''" a' g'] al(2) S by auto
  note R = paths_ok_restart [OF S1(3), of demo_directives 7, simplified]
  have "max_num_entries (include_paths (?r S1)) = 5" by (simp add: restart_fields keep_first_path_def S1)
  moreover have "letter_of demo_cache_env (?r S1) ''/c'' = None" using S1(6) by (simp only: R(2) if_cancel)
  ultimately obtain c' S2 where S2: "add_include_path demo_cache_env ''/c'' (?r S1) = Inr (Some c', S2)"
    using demo_add [OF R(1), of "''/c''" a'' g''] R(3) al(3) S1 by (auto simp: restart_fields)
  have "c' = c"
    using include_path_letter_reused [OF S(2,3) _ S(5) S(5) S1(1), of "''/c''" demo_directives 7 c' S2] S2 by simp
  then show ?thesis using S1(1) S2 by blast
qed

end
