(* ===== verification/Compile.thy ===== *)
theory Compile
  imports Keys
begin

text \<open>
  A request for a script (\<open>ZendAccelerator.c\<close>): the time stamps of files, the check that a cached
  script is up to date, \<open>zend_accel_invalidate\<close>, \<open>persistent_compile_file\<close> with
  \<open>compile_and_cache_file\<close>, and the hooks that find a script for \<open>include_once\<close>.

  The engine is a record of parameters (\<open>php\<close>): the file system, the stream wrappers, path
  resolution, opening a stream (which may run the resolve hook, so it may change the process's
  and the shared state), the blacklist, the compiler, and the request. The key buffer has one
  address; the key a hook makes again while the file is opened is for the same name. Freeing
  process memory, error reporting, and the memory protection calls are not modelled.
\<close>

section \<open>State\<close>

text \<open>\<open>shm_read\<close>: the process holds the read lock on the shared memory.\<close>

record process =
  globals :: accel_globals
  shm :: cache
  shm_read :: bool
  included_files :: "string set"

text \<open>A stream wrapper without \<open>url_stat\<close>, or the result of its \<open>url_stat\<close>.\<close>

datatype url_wrapper = No_Url_Stat | Url_Stat "stat option"

datatype compiled = Compile_Bailout | Compile_Null | Compiled pscript

text \<open>\<open>opline_ptr\<close>: the executed instruction, and whether it is an \<open>include_once\<close> or
  \<open>require_once\<close>; \<open>restart_lock\<close>: what \<open>F_GETLK\<close> reports on the lock of a restart;
  \<open>uninitialised\<close>: the contents of a local \<open>struct stat\<close>.\<close>

record php =
  req :: request
  interactive :: bool
  opline_ptr :: "(nat \<times> bool) option option"
  restart_lock :: getlk
  get_stat :: "stat option option"
  vcwd_stat :: "string \<Rightarrow> stat option"
  wrapper_of :: "string \<Rightarrow> url_wrapper option"
  uninitialised :: stat
  resolve_path :: "string \<Rightarrow> string option"
  stream_open :: "zend_file_handle \<Rightarrow> accel_globals \<Rightarrow> cache \<Rightarrow> zend_file_handle option \<times> accel_globals \<times> cache"
  is_blacklisted :: "string \<Rightarrow> bool"
  compile :: "zend_file_handle \<Rightarrow> compiled"
  symbol_exists :: "string \<Rightarrow> bool"
  auto_globals_jit :: bool
  key_address :: nat
  path_address :: nat

abbreviation shared :: "process \<Rightarrow> accel_shared_globals" where
  "shared W \<equiv> zcsg (shm W)"

definition with_shared :: "accel_shared_globals \<Rightarrow> process \<Rightarrow> process" where
  "with_shared S W = W\<lparr>shm := (shm W)\<lparr>zcsg := S\<rparr>\<rparr>"

text \<open>A script found in the table.\<close>

definition script_found :: "nat hdata \<Rightarrow> nat option res" where
  "script_found d = (case d of NULL \<Rightarrow> Inr None | Obj a \<Rightarrow> Inr (Some a) | Entry _ \<Rightarrow> Inl Null_Deref)"

definition find_script_by :: "cache_env \<Rightarrow> string \<Rightarrow> accel_shared_globals \<Rightarrow> nat option res" where
  "find_script_by E key S =
     bind_res (ends (zend_accel_hash_find (zend_inline_hash_func E) (scripts_hash S) (nul key) (length (nul key)))) script_found"

section \<open>Time stamps\<close>

definition zend_get_stream_timestamp :: "php \<Rightarrow> string \<Rightarrow> stat \<Rightarrow> stat option" where
  "zend_get_stream_timestamp P name buf =
     (case wrapper_of P name of
        None \<Rightarrow> None
      | Some No_Url_Stat \<Rightarrow> Some (buf\<lparr>st_mtime := 1\<rparr>)
      | Some (Url_Stat st) \<Rightarrow> st)"

definition path_stat :: "php \<Rightarrow> zend_file_handle \<Rightarrow> stat option" where
  "path_stat P fh =
     (case (case opened_path fh of
              None \<Rightarrow> None
            | Some p \<Rightarrow>
                (case (if is_stream_path p then zend_get_stream_timestamp P p (uninitialised P) else None) of
                   Some st \<Rightarrow> Some st
                 | None \<Rightarrow> vcwd_stat P p)) of
        Some st \<Rightarrow> Some st
      | None \<Rightarrow> zend_get_stream_timestamp P (filename fh) (uninitialised P))"

definition handle_stat :: "php \<Rightarrow> zend_file_handle \<Rightarrow> stat option" where
  "handle_stat P fh =
     (case fh_type fh of
        ZEND_HANDLE_FD \<Rightarrow> fh_stat fh
      | ZEND_HANDLE_FP \<Rightarrow> (case fh_stat fh of
            Some st \<Rightarrow> Some st
          | None \<Rightarrow> zend_get_stream_timestamp P (filename fh) (uninitialised P))
      | ZEND_HANDLE_FILENAME \<Rightarrow> path_stat P fh
      | ZEND_HANDLE_MAPPED \<Rightarrow> path_stat P fh
      | ZEND_HANDLE_STREAM \<Rightarrow> fh_stream_stat fh)"

text \<open>The time stamp, 0 when there is none, and the size.\<close>

definition zend_get_file_handle_timestamp :: "php \<Rightarrow> zend_file_handle \<Rightarrow> int \<times> nat" where
  "zend_get_file_handle_timestamp P fh =
     (case (if opline_ptr P = None \<and> fh_translated fh then get_stat P else None) of
        Some (Some st) \<Rightarrow> (st_mtime st, st_size st)
      | _ \<Rightarrow> (case handle_stat P fh of None \<Rightarrow> (0, 0) | Some st \<Rightarrow> (st_mtime st, st_size st)))"

section \<open>Validating a cached script\<close>

definition path_handle :: "string \<Rightarrow> zend_file_handle" where
  "path_handle p = \<lparr>fh_type = ZEND_HANDLE_FILENAME, filename = p, opened_path = Some p, fh_translated = False,
     fh_stat = None, fh_stream_stat = None\<rparr>"

definition same_timestamp :: "php \<Rightarrow> script \<Rightarrow> zend_file_handle \<Rightarrow> bool" where
  "same_timestamp P s fh \<longleftrightarrow> ps_timestamp s \<noteq> 0
     \<and> (fst (zend_get_file_handle_timestamp P fh) = ps_timestamp s
        \<or> fst (zend_get_file_handle_timestamp P (path_handle (full_path s))) = ps_timestamp s)"

definition do_validate_timestamps :: "php \<Rightarrow> script \<Rightarrow> zend_file_handle \<Rightarrow> bool" where
  "do_validate_timestamps P s fh =
     (case opened_path fh of
        Some p \<Rightarrow> if full_path s \<noteq> p then False else same_timestamp P s fh
      | None \<Rightarrow>
          (case resolve_path P (filename fh) of
             Some p \<Rightarrow> if full_path s \<noteq> p then False else same_timestamp P s (fh\<lparr>opened_path := Some p\<rparr>)
           | None \<Rightarrow> same_timestamp P s fh))"

definition validate_timestamp_and_record ::
  "cache_env \<Rightarrow> php \<Rightarrow> accel_globals \<Rightarrow> nat \<Rightarrow> zend_file_handle \<Rightarrow> cache \<Rightarrow> bool \<times> cache" where
  "validate_timestamp_and_record E P G a fh C =
     (let s = scripts C a in
      if revalidate_freq (dirs E) \<noteq> 0 \<and> ps_revalidate s \<ge> request_time G then (True, C)
      else if \<not> do_validate_timestamps P s fh then (False, C)
      else (True, C\<lparr>scripts := (scripts C)
              (a := s\<lparr>ps_revalidate := time_t (request_time G + int (revalidate_freq (dirs E)))\<rparr>)\<rparr>))"

section \<open>The read lock\<close>

definition accelerator_shm_read_lock :: "process \<Rightarrow> bool \<times> process" where
  "accelerator_shm_read_lock W =
     (if counted (globals W) then (True, W)
      else if restart_in_progress (shared W) then (False, W\<lparr>shm_read := False\<rparr>)
      else (True, W\<lparr>shm_read := True\<rparr>))"

definition accelerator_shm_read_unlock :: "process \<Rightarrow> process" where
  "accelerator_shm_read_unlock W = (if counted (globals W) then W else W\<lparr>shm_read := False\<rparr>)"

text \<open>A failing \<open>F_GETLK\<close> makes the function return \<open>FAILURE\<close>, which is not 0.\<close>

definition accel_restart_is_active :: "php \<Rightarrow> accel_shared_globals \<Rightarrow> bool \<times> accel_shared_globals" where
  "accel_restart_is_active P S =
     (if restart_in_progress S
      then (if restart_lock P = Getlk_Unlocked then (False, S\<lparr>restart_in_progress := False\<rparr>) else (True, S))
      else (False, S))"

section \<open>Invalidating a script\<close>

definition zend_accel_invalidate ::
  "cache_env \<Rightarrow> php \<Rightarrow> string \<Rightarrow> bool \<Rightarrow> process \<Rightarrow> (bool \<times> process) res" where
  "zend_accel_invalidate E P name force W =
     (if \<not> enabled (globals W) \<or> \<not> accel_startup_ok (req P) \<or> \<not> accelerator_enabled (shared W) then Inr (False, W)
      else case accelerator_shm_read_lock W of
        (False, W1) \<Rightarrow> Inr (False, W1)
      | (True, W1) \<Rightarrow>
          (case resolve_path P name of
             None \<Rightarrow> Inr (False, W1)
           | Some realpath \<Rightarrow>
               bind_res (find_script_by E realpath (shared W1)) (\<lambda>s.
                 Inr (True, accelerator_shm_read_unlock
                   (case s of
                      None \<Rightarrow> W1
                    | Some a \<Rightarrow>
                        if \<not> ps_corrupted (scripts (shm W1) a)
                           \<and> (force \<or> \<not> validate_timestamps (dirs E)
                              \<or> \<not> do_validate_timestamps P (scripts (shm W1) a) (path_handle realpath))
                        then W1\<lparr>shm := discard_script E a (shm W1)\<rparr>
                        else W1)))))"

section \<open>Auto globals\<close>

definition jit_auto_globals_info :: "string list" where
  "jit_auto_globals_info = [''_SERVER'', ''_ENV'', ''_REQUEST'', ''GLOBALS'']"

text \<open>The loops, with \<open>n\<close> doubled for every name.\<close>

fun auto_globals_mask :: "(string \<Rightarrow> bool) \<Rightarrow> string list \<Rightarrow> int \<Rightarrow> int" where
  "auto_globals_mask ex [] n = 0"
| "auto_globals_mask ex (g # gs) n = (if ex g then or n (auto_globals_mask ex gs (n + n)) else auto_globals_mask ex gs (n + n))"

definition zend_accel_get_auto_globals :: "php \<Rightarrow> int" where
  "zend_accel_get_auto_globals P = auto_globals_mask (symbol_exists P) jit_auto_globals_info 1"

definition zend_accel_get_auto_globals_no_jit :: "php \<Rightarrow> int" where
  "zend_accel_get_auto_globals_no_jit P = (if symbol_exists P (jit_auto_globals_info ! 3) then 8 else 0)"

fun auto_globals_of :: "int \<Rightarrow> string list \<Rightarrow> int \<Rightarrow> string list" where
  "auto_globals_of m [] n = []"
| "auto_globals_of m (g # gs) n = (if and m n \<noteq> 0 then g # auto_globals_of m gs (n + n) else auto_globals_of m gs (n + n))"

text \<open>The names given to \<open>zend_is_auto_global\<close>.\<close>

definition zend_accel_set_auto_globals :: "int \<Rightarrow> string list" where
  "zend_accel_set_auto_globals m = auto_globals_of m jit_auto_globals_info 1"

section \<open>Outcomes\<close>

text \<open>The original function compiles the file (\<open>Uncached\<close>), \<open>NULL\<close> for a file that was not opened
  or not compiled, or a script that is loaded from shared memory or not, with the auto globals
  that are fetched before. A fatal error bails out.\<close>

datatype outcome = Uncached | Not_Opened | Not_Compiled | Loaded script_ref bool "string list"

datatype 'a step = Answer outcome | Continue 'a

section \<open>Finding the script\<close>

definition once_opline :: "php \<Rightarrow> nat option" where
  "once_opline P = (case opline_ptr P of Some (Some (a, True)) \<Rightarrow> Some a | _ \<Rightarrow> None)"

text \<open>The script was found before by the resolve hook.\<close>

definition found_before :: "php \<Rightarrow> zend_file_handle \<Rightarrow> accel_globals \<Rightarrow> bool" where
  "found_before P fh G \<longleftrightarrow>
     opline_ptr P = None \<and> cache_opline G = None \<and> fh_translated fh \<and> cache_persistent_script G \<noteq> None
   \<or> once_opline P \<noteq> None \<and> cache_opline G = once_opline P"

definition look_by_path :: "cache_env \<Rightarrow> string \<Rightarrow> process \<Rightarrow> (nat option \<times> process) res" where
  "look_by_path E p W =
     (let S = shared W in
      bind_res (ends (zend_accel_hash_find_entry (zend_inline_hash_func E) (scripts_hash S) (nul p) (length (nul p)))) (\<lambda>b.
        case b of
          None \<Rightarrow> Inr (None, W)
        | Some i \<Rightarrow>
            bind_res (script_found (he_data (hash_entries (scripts_hash S) ! i))) (\<lambda>s.
              case s of
                None \<Rightarrow> Inl Null_Deref
              | Some a \<Rightarrow>
                  if \<not> revalidate_path (dirs E) \<and> \<not> ps_corrupted (scripts (shm W) a)
                  then bind_res (zend_accel_add_key E (key_buffer (globals W)) i S) (\<lambda>S1. Inr (Some a, with_shared S1 W))
                  else Inr (Some a, W))))"

definition find_by_path ::
  "cache_env \<Rightarrow> php \<Rightarrow> bool \<Rightarrow> zend_file_handle \<Rightarrow> process \<Rightarrow> ((nat option \<times> zend_file_handle) step \<times> process) res" where
  "find_by_path E P require fh W =
     (case (if fh_type fh = ZEND_HANDLE_FILENAME then stream_open P fh (globals W) (shm W) else (Some fh, globals W, shm W)) of
        (None, G, C) \<Rightarrow>
          if require then Inl (Crashed Zend_Bailout) else Inr (Answer Not_Opened, W\<lparr>globals := G, shm := C\<rparr>)
      | (Some fh', G, C) \<Rightarrow>
          (let W1 = W\<lparr>globals := G, shm := C\<rparr> in
           case opened_path fh' of
             None \<Rightarrow> Inr (Continue (None, fh'), W1)
           | Some p \<Rightarrow> bind_res (look_by_path E p W1) (\<lambda>(s, W2). Inr (Continue (s, fh'), W2))))"

definition find_script ::
  "cache_env \<Rightarrow> php \<Rightarrow> bool \<Rightarrow> zend_file_handle \<Rightarrow> process \<Rightarrow> ((nat option \<times> zend_file_handle) step \<times> process) res" where
  "find_script E P require fh W =
     (let G = globals W in
      if found_before P fh G
      then (if key_buffer G = '''' then Inr (Answer Uncached, W) else Inr (Continue (cache_persistent_script G, fh), W))
      else bind_res (accel_make_persistent_key E (req P) fh G (shared W)) (\<lambda>(k, G1, S1).
        let W1 = with_shared S1 (W\<lparr>globals := G1\<rparr>) in
        case k of
          None \<Rightarrow> Inr (Answer Uncached, W1)
        | Some key \<Rightarrow> bind_res (find_script_by E key S1) (\<lambda>s.
            case s of Some a \<Rightarrow> Inr (Continue (Some a, fh), W1) | None \<Rightarrow> find_by_path E P require fh W1)))"

text \<open>The tests of a script that was found; one that fails them is dropped.\<close>

definition checked_timestamps :: "cache_env \<Rightarrow> php \<Rightarrow> zend_file_handle \<Rightarrow> accel_globals \<Rightarrow> nat \<Rightarrow> cache \<Rightarrow> nat option \<times> cache" where
  "checked_timestamps E P fh G a C =
     (if validate_timestamps (dirs E)
      then case validate_timestamp_and_record E P G a fh C of
             (True, C1) \<Rightarrow> (Some a, C1)
           | (False, C1) \<Rightarrow> (None, discard_script E a C1)
      else (Some a, C))"

definition checksum_of :: "cache_env \<Rightarrow> cache \<Rightarrow> nat \<Rightarrow> 32 word" where
  "checksum_of E C a =
     zend_accel_script_checksum (image E (mem C)) a (dynamic_members_offset E) (sizeof (penv E) T_script)
       (ps_mem (scripts C a)) (ps_size (scripts C a))"

definition checked_consistency :: "cache_env \<Rightarrow> nat \<Rightarrow> cache \<Rightarrow> nat option \<times> cache" where
  "checked_consistency E a C =
     (if consistency_checks (dirs E) \<noteq> 0
         \<and> ps_hits (scripts C a) mod word_of_int (consistency_checks (dirs E)) = 0
         \<and> checksum_of E C a \<noteq> ps_checksum (scripts C a)
      then (None, discard_script E a C) else (Some a, C))"

definition usable_script ::
  "cache_env \<Rightarrow> php \<Rightarrow> zend_file_handle \<Rightarrow> accel_globals \<Rightarrow> nat option \<Rightarrow> cache \<Rightarrow> nat option \<times> cache" where
  "usable_script E P fh G s C =
     (case s of
        None \<Rightarrow> (None, C)
      | Some a \<Rightarrow>
          if ps_corrupted (scripts C a) then (None, C)
          else (case checked_timestamps E P fh G a C of
                  (None, C1) \<Rightarrow> (None, C1)
                | (Some a, C1) \<Rightarrow> checked_consistency E a C1))"

section \<open>Compiling\<close>

text \<open>A comparison of a \<open>time_t\<close> with an \<open>unsigned long\<close>.\<close>

definition too_new :: "cache_env \<Rightarrow> accel_globals \<Rightarrow> int \<Rightarrow> bool" where
  "too_new E G t \<longleftrightarrow> file_update_protection (dirs E) \<noteq> 0
     \<and> (request_time G - int (file_update_protection (dirs E))) mod 2 ^ 64 < t mod 2 ^ 64"

definition new_script :: "cache_env \<Rightarrow> php \<Rightarrow> zend_file_handle \<Rightarrow> accel_globals \<Rightarrow> int \<Rightarrow> pscript \<Rightarrow> script" where
  "new_script E P fh G t tree =
     \<lparr>ps_tree = tree\<lparr>sc_full_path := \<lparr>s_addr = path_address P,
          s_val = (case opened_path fh of Some p \<Rightarrow> p | None \<Rightarrow> filename fh)\<rparr>\<rparr>,
      ps_timestamp = (if validate_timestamps (dirs E) then t else 0), ps_corrupted = False, ps_mem = 0, ps_size = 0,
      ps_last_used = 0, ps_hits = 0, ps_memory_consumption = 0, ps_checksum = 0,
      ps_revalidate = (if validate_timestamps (dirs E) then time_t (request_time G + int (revalidate_freq (dirs E))) else 0),
      ps_auto_globals = (if auto_globals_jit P then zend_accel_get_auto_globals P else zend_accel_get_auto_globals_no_jit P)\<rparr>"

definition compile_opened_file ::
  "cache_env \<Rightarrow> php \<Rightarrow> zend_file_handle \<Rightarrow> process \<Rightarrow> ((script_ref \<times> bool) step \<times> process) res" where
  "compile_opened_file E P fh W =
     (let G = globals W; S = shared W; d = dirs E;
          blacklist_miss = with_shared (S\<lparr>blacklist_misses := blacklist_misses S + 1\<rparr>) W;
          (t, sz) = zend_get_file_handle_timestamp P fh;
          timed = validate_timestamps d \<or> file_update_protection d \<noteq> 0 \<or> max_file_size d > 0
      in if (case opened_path fh of Some p \<Rightarrow> is_blacklisted P p | None \<Rightarrow> False) then Inr (Answer Uncached, blacklist_miss)
         else if timed \<and> t = 0 then Inr (Answer Uncached, W)
         else if timed \<and> too_new E G t then Inr (Answer Uncached, W)
         else if timed \<and> max_file_size d > 0 \<and> sz > nat (max_file_size d) then Inr (Answer Uncached, blacklist_miss)
         else (case compile P fh of
             Compile_Bailout \<Rightarrow> Inl (Crashed Zend_Bailout)
           | Compile_Null \<Rightarrow> Inr (Answer Not_Compiled, W)
           | Compiled tree \<Rightarrow>
               bind_res (cache_script_in_shared_memory E \<lparr>s_addr = key_address P, s_val = key_buffer G\<rparr>
                   (new_script E P fh G (if timed then t else 0) tree) (shm W))
                 (\<lambda>(r, from_shm, C). Inr (Continue (r, from_shm), W\<lparr>shm := C\<rparr>))))"

definition compile_and_cache_file ::
  "cache_env \<Rightarrow> php \<Rightarrow> bool \<Rightarrow> zend_file_handle \<Rightarrow> process \<Rightarrow> ((script_ref \<times> bool) step \<times> process) res" where
  "compile_and_cache_file E P require fh W =
     (if fh_type fh = ZEND_HANDLE_FILENAME
      then case stream_open P fh (globals W) (shm W) of
             (None, G, C) \<Rightarrow>
               if require then Inl (Crashed Zend_Bailout) else Inr (Answer Not_Opened, W\<lparr>globals := G, shm := C\<rparr>)
           | (Some fh', G, C) \<Rightarrow> compile_opened_file E P fh' (W\<lparr>globals := G, shm := C\<rparr>)
      else compile_opened_file E P fh W)"

section \<open>\<open>persistent_compile_file\<close>\<close>

definition set_script :: "nat \<Rightarrow> (script \<Rightarrow> script) \<Rightarrow> cache \<Rightarrow> cache" where
  "set_script a f C = C\<lparr>scripts := (scripts C)(a := f (scripts C a))\<rparr>"

definition load :: "script_ref \<Rightarrow> bool \<Rightarrow> process \<Rightarrow> outcome \<times> process" where
  "load r from_shm W =
     (let t = request_time (globals W); m = ps_auto_globals (script_of (shm W) r);
          pinged = (if m \<noteq> 0 then zend_accel_set_auto_globals m else [])
      in case r of
           Process s \<Rightarrow> (Loaded (Process (s\<lparr>ps_last_used := t\<rparr>)) from_shm pinged, W)
         | Shared a \<Rightarrow> (Loaded r from_shm pinged, W\<lparr>shm := set_script a (\<lambda>s. s\<lparr>ps_last_used := t\<rparr>) (shm W)\<rparr>))"

definition cache_miss ::
  "cache_env \<Rightarrow> php \<Rightarrow> bool \<Rightarrow> zend_file_handle \<Rightarrow> process \<Rightarrow> (outcome \<times> process) res" where
  "cache_miss E P require fh W =
     (let S = (shared W)\<lparr>misses := misses (shared W) + 1\<rparr>; W1 = with_shared S W
      in if memory_exhausted (smm S) \<or> restart_pending S then Inr (Uncached, W1)
         else bind_res (compile_and_cache_file E P require fh W1) (\<lambda>(r, W2).
                case r of Answer oc \<Rightarrow> Inr (oc, W2) | Continue (ref, from_shm) \<Rightarrow> Inr (load ref from_shm W2)))"

definition cache_hit :: "php \<Rightarrow> nat \<Rightarrow> process \<Rightarrow> outcome \<times> process" where
  "cache_hit P a W =
     (let S = (shared W)\<lparr>hits := hits (shared W) + 1\<rparr>; W1 = with_shared S W;
          W2 = W1\<lparr>shm := set_script a (\<lambda>s. s\<lparr>ps_hits := ps_hits s + 1\<rparr>) (shm W1)\<rparr>;
          W3 = (if once_opline P = None then W2\<lparr>included_files := insert (full_path (scripts (shm W2) a)) (included_files W2)\<rparr> else W2)
      in load (Shared a) True W3)"

text \<open>From the test of the script that was found to the answer.\<close>

definition serve_script ::
  "cache_env \<Rightarrow> php \<Rightarrow> bool \<Rightarrow> zend_file_handle \<Rightarrow> nat option \<Rightarrow> process \<Rightarrow> (outcome \<times> process) res" where
  "serve_script E P require fh s W =
     (let W1 = W\<lparr>globals := (globals W)\<lparr>cache_opline := None, cache_persistent_script := None\<rparr>\<rparr>
      in case usable_script E P fh (globals W1) s (shm W1) of
           (None, C) \<Rightarrow> cache_miss E P require fh (W1\<lparr>shm := C\<rparr>)
         | (Some a, C) \<Rightarrow> Inr (cache_hit P a (W1\<lparr>shm := C\<rparr>)))"

definition persistent_compile_file ::
  "cache_env \<Rightarrow> php \<Rightarrow> bool \<Rightarrow> zend_file_handle \<Rightarrow> process \<Rightarrow> (outcome \<times> process) res" where
  "persistent_compile_file E P require fh W =
     (if \<not> cache_in_use (req P) (globals W) (shared W) \<or> interactive P then Inr (Uncached, W)
      else case accel_restart_is_active P (shared W) of
        (active, S) \<Rightarrow>
          (let W1 = with_shared S W in
           if active \<or> is_stream_path (filename fh) \<and> \<not> is_cacheable_stream_path (filename fh) then Inr (Uncached, W1)
           else
            (let W2 = (if counted (globals W1) then W1 else W1\<lparr>globals := (globals W1)\<lparr>counted := True\<rparr>, shm_read := True\<rparr>)
             in bind_res (find_script E P require fh W2) (\<lambda>(r, W3).
                  case r of
                    Answer oc \<Rightarrow> Inr (oc, W3)
                  | Continue (s, fh') \<Rightarrow> serve_script E P require fh' s W3))))"

section \<open>What is served\<close>

lemma bind_res_Inr: "bind_res r f = Inr y \<longleftrightarrow> (\<exists>x. r = Inr x \<and> f x = Inr y)"
  by (cases r) auto

lemma bind_resE: "bind_res r f = Inr y \<Longrightarrow> (\<And>x. r = Inr x \<Longrightarrow> f x = Inr y \<Longrightarrow> thesis) \<Longrightarrow> thesis"
  by (auto simp: bind_res_Inr)

lemma logged_Inr: "logged v lvl r = Inr x \<Longrightarrow> r = Inr x"
  by (auto simp: logged_def split: option.splits)

definition same_file :: "script \<Rightarrow> script \<Rightarrow> bool" where
  "same_file s t \<longleftrightarrow> ps_corrupted s = ps_corrupted t \<and> ps_timestamp s = ps_timestamp t \<and> full_path s = full_path t"

text \<open>A script that is returned from shared memory has been stored.\<close>

lemma store_script_served:
  assumes "store_script E key ns C = Inr (r, from_shm, C')"
  shows "case r of Process s \<Rightarrow> \<not> from_shm | Shared a \<Rightarrow> from_shm \<and> same_file (scripts C' a) ns"
proof -
  obtain t n c where calc: "zend_accel_script_persist_calc (penv E) (ps_tree ns) key
      \<lparr>c_xlat = Map.empty, c_interned = interned_table (zcsg C)\<rparr> = (t, n, c)" by (metis prod_cases3)
  obtain q g where al: "locked_alloc (verbosity E) n (smm (zcsg C)) = (q, g)" by fastforce
  note path = calc_full_path [OF calc]
  show ?thesis
  proof (cases q)
    case None
    then show ?thesis using assms by (auto simp: store_script_def calc al Let_def)
  next
    case (Some p)
    show ?thesis
    proof (cases "zend_accel_script_persist (penv E) (interned_table (zcsg C)) t key ((mem C)\<lparr>mem_top := p\<rparr>)")
      case None
      then show ?thesis using assms Some by (simp add: store_script_def calc al Let_def)
    next
      case (Some x)
      obtain a k m where x: "x = (a, k, m)" by (cases x)
      let ?ns = "ns\<lparr>ps_tree := t, ps_mem := p, ps_size := n,
        ps_checksum := zend_accel_script_checksum (image E m) a (dynamic_members_offset E) (sizeof (penv E) T_script) p n,
        ps_memory_consumption := ZEND_ALIGNED_SIZE n mod two32\<rparr>"
      have "\<exists>S1. r = Shared a \<and> from_shm \<and> C' = C\<lparr>zcsg := S1, scripts := (scripts C)(a := ?ns), mem := m\<rparr>"
        using assms Some \<open>q = Some p\<close> x
        by (auto simp: store_script_def calc al Let_def bind_res_Inr dest!: logged_Inr split: option.splits)
      then show ?thesis using path by (auto simp: same_file_def full_path_def)
    qed
  qed
qed

lemma locked_or_stored:
  assumes "cache_script_locked E key ns C = Inr (r, from_shm, C')"
  shows "store_script E key ns C = Inr (r, from_shm, C') \<or> (\<exists>s. r = Process s \<and> \<not> from_shm)"
proof (cases "zend_accel_hash_is_full (scripts_hash (zcsg C))")
  case True
  then show ?thesis using assms by (auto simp: cache_script_locked_def Let_def)
next
  case False
  let ?path = "nul (full_path ns)"
  show ?thesis
  proof (cases "zend_accel_hash_find_entry (zend_inline_hash_func E) (scripts_hash (zcsg C)) ?path (length ?path)")
    case None
    then show ?thesis using assms False by (simp add: cache_script_locked_def)
  next
    case (Some b)
    show ?thesis
    proof (cases b)
      case None
      then show ?thesis using assms False Some by (simp add: cache_script_locked_def)
    next
      case b: (Some i)
      show ?thesis
      proof (cases "he_data (hash_entries (scripts_hash (zcsg C)) ! i)")
        case (Obj a)
        show ?thesis
        proof (cases "ps_corrupted (scripts C a)")
          case True
          then show ?thesis using assms False Some b Obj by (simp add: cache_script_locked_def)
        next
          case ok: False
          have "bind_res (zend_accel_add_key E (s_val key) i (zcsg C)) (\<lambda>S1. Inr (Process ns, False, C\<lparr>zcsg := S1\<rparr>)) = Inr (r, from_shm, C')
              \<Longrightarrow> r = Process ns \<and> \<not> from_shm" by (auto simp: bind_res_Inr)
          then show ?thesis using assms False Some b Obj ok by (auto simp: cache_script_locked_def split: if_splits)
        qed
      qed (use assms False Some b in \<open>simp_all add: cache_script_locked_def\<close>)
    qed
  qed
qed

lemma cache_script_served:
  assumes "cache_script_in_shared_memory E key ns C = Inr (r, from_shm, C')"
  shows "case r of Process s \<Rightarrow> \<not> from_shm | Shared a \<Rightarrow> from_shm \<and> same_file (scripts C' a) ns"
proof -
  obtain fits t m where c: "compact_persistent_script E (ps_tree ns) (mem C) = (fits, t, m)" by (metis prod_cases3)
  have path: "sc_full_path t = sc_full_path (ps_tree ns)"
    using c by (auto simp: compact_persistent_script_def split: prod.splits bool.splits)
  have "\<exists>D. cache_script_locked E key (ns\<lparr>ps_tree := t\<rparr>) D = Inr (r, from_shm, C') \<or> (\<exists>s. r = Process s \<and> \<not> from_shm)"
    using assms by (auto simp: cache_script_in_shared_memory_def c split: if_splits)
  then consider D where "store_script E key (ns\<lparr>ps_tree := t\<rparr>) D = Inr (r, from_shm, C')" | s where "r = Process s" "\<not> from_shm"
    using locked_or_stored by blast
  then have "case r of Process s \<Rightarrow> \<not> from_shm | Shared a \<Rightarrow> from_shm \<and> same_file (scripts C' a) (ns\<lparr>ps_tree := t\<rparr>)"
  proof cases
    case 1
    show ?thesis by (rule store_script_served [OF 1])
  qed simp
  then show ?thesis using path by (auto simp: same_file_def full_path_def split: script_ref.splits)
qed

text \<open>The handles a file handle can become by opening it.\<close>

inductive opens :: "php \<Rightarrow> zend_file_handle \<Rightarrow> zend_file_handle \<Rightarrow> bool" for P fh where
  open_refl: "opens P fh fh"
| open_step: "opens P fh f1 \<Longrightarrow> stream_open P f1 G C = (Some f2, G', C') \<Longrightarrow> opens P fh f2"

text \<open>What a script that is served has to be. Either it was found: its path is the path that the handle
  was opened under or, without one, the path that its file name resolves to now, and its time stamp is the one
  of the file behind that handle or of the file of its own path. Or it was compiled from the handle in this
  request, and has its path and time stamp.\<close>

definition current_path :: "php \<Rightarrow> zend_file_handle \<Rightarrow> string option" where
  "current_path P fh = (case opened_path fh of Some p \<Rightarrow> Some p | None \<Rightarrow> resolve_path P (filename fh))"

definition still_current :: "php \<Rightarrow> script \<Rightarrow> zend_file_handle \<Rightarrow> bool" where
  "still_current P s fh \<longleftrightarrow> ps_timestamp s \<noteq> 0 \<and> current_path P fh \<in> {None, Some (full_path s)}
     \<and> ps_timestamp s \<in> {fst (zend_get_file_handle_timestamp P (fh\<lparr>opened_path := current_path P fh\<rparr>)),
                          fst (zend_get_file_handle_timestamp P (path_handle (full_path s)))}"

definition compiled_now :: "php \<Rightarrow> script \<Rightarrow> zend_file_handle \<Rightarrow> bool" where
  "compiled_now P s fh \<longleftrightarrow> (\<exists>tree. compile P fh = Compiled tree) \<and> ps_timestamp s \<noteq> 0
     \<and> ps_timestamp s = fst (zend_get_file_handle_timestamp P fh)
     \<and> full_path s = (case opened_path fh of Some p \<Rightarrow> p | None \<Rightarrow> filename fh)"

definition up_to_date :: "php \<Rightarrow> script \<Rightarrow> zend_file_handle \<Rightarrow> bool" where
  "up_to_date P s fh \<longleftrightarrow> still_current P s fh \<or> compiled_now P s fh"

text \<open>With time stamps that are validated on every request.\<close>

definition always_validated :: "cache_env \<Rightarrow> bool" where
  "always_validated E \<longleftrightarrow> validate_timestamps (dirs E) \<and> revalidate_freq (dirs E) = 0"

lemma up_to_date_cong:
  "ps_timestamp s = ps_timestamp t \<Longrightarrow> full_path s = full_path t \<Longrightarrow> up_to_date P s fh = up_to_date P t fh"
  by (simp add: up_to_date_def still_current_def compiled_now_def)

lemma discard_corrupted: "ps_corrupted (scripts (discard_script E a C) a)"
  by (simp add: discard_script_def Let_def)

lemma validated_current: "do_validate_timestamps P s fh \<Longrightarrow> still_current P s fh"
  by (cases fh) (auto simp: do_validate_timestamps_def same_timestamp_def still_current_def current_path_def
      split: option.splits if_splits)

lemma usable_script_ok:
  assumes "usable_script E P fh G s C = (Some a, C1)"
  shows "s = Some a \<and> \<not> ps_corrupted (scripts C1 a) \<and> (always_validated E \<longrightarrow> up_to_date P (scripts C1 a) fh)"
proof -
  obtain b where b: "s = Some b" "\<not> ps_corrupted (scripts C b)"
    using assms(1) by (auto simp: usable_script_def split: option.splits if_splits)
  have ab: "b = a \<and> (always_validated E \<longrightarrow> do_validate_timestamps P (scripts C a) fh)
      \<and> (\<exists>r. scripts C1 a = (scripts C a)\<lparr>ps_revalidate := r\<rparr>)"
    using assms b by (auto simp: usable_script_def checked_timestamps_def validate_timestamp_and_record_def Let_def
        checked_consistency_def always_validated_def split: if_splits intro: exI [of _ "ps_revalidate (scripts C a)"])
  then obtain r where r: "scripts C1 a = (scripts C a)\<lparr>ps_revalidate := r\<rparr>" by blast
  have "up_to_date P (scripts C1 a) fh = up_to_date P (scripts C a) fh"
    by (rule up_to_date_cong) (simp_all add: r full_path_def)
  then show ?thesis using ab b r validated_current by (auto simp: up_to_date_def)
qed

lemma find_by_path_opens:
  "find_by_path E P require fh W = Inr (Continue (s, fh'), W') \<Longrightarrow> opens P fh fh'"
  by (auto simp: find_by_path_def bind_res_Inr Let_def intro: open_refl open_step [OF open_refl] split: if_splits option.splits prod.splits)

lemma find_script_opens:
  "find_script E P require fh W = Inr (Continue (s, fh'), W') \<Longrightarrow> opens P fh fh'"
  by (auto simp: find_script_def bind_res_Inr Let_def intro: opens.intros dest: find_by_path_opens split: if_splits option.splits)

lemma compile_opened_served:
  assumes "compile_opened_file E P fh W = Inr (Continue (Shared a, from_shm), W')"
  shows "from_shm \<and> \<not> ps_corrupted (scripts (shm W') a) \<and> (always_validated E \<longrightarrow> up_to_date P (scripts (shm W') a) fh)"
proof -
  let ?t = "fst (zend_get_file_handle_timestamp P fh)"
  from assms obtain tree C t where t: "validate_timestamps (dirs E) \<longrightarrow> ?t \<noteq> 0 \<and> t = ?t" and W': "W' = W\<lparr>shm := C\<rparr>"
    and tree: "compile P fh = Compiled tree"
    and c: "cache_script_in_shared_memory E \<lparr>s_addr = key_address P, s_val = key_buffer (globals W)\<rparr>
          (new_script E P fh (globals W) t tree) (shm W) = Inr (Shared a, from_shm, C)"
    by (auto simp: compile_opened_file_def Let_def bind_res_Inr split: prod.splits if_splits compiled.splits)
  have "same_file (scripts C a) (new_script E P fh (globals W) t tree)" "from_shm" using cache_script_served [OF c] by simp_all
  then show ?thesis
    using t W' tree
    by (auto simp: same_file_def new_script_def up_to_date_def compiled_now_def full_path_def always_validated_def split: option.splits)
qed

lemma compile_and_cache_served:
  assumes "compile_and_cache_file E P require fh W = Inr (Continue (Shared a, from_shm), W')"
  shows "\<exists>fh'. opens P fh fh' \<and> from_shm \<and> \<not> ps_corrupted (scripts (shm W') a)
    \<and> (always_validated E \<longrightarrow> up_to_date P (scripts (shm W') a) fh')"
proof -
  have "\<exists>f V. opens P fh f \<and> compile_opened_file E P f V = Inr (Continue (Shared a, from_shm), W')"
  proof (cases "fh_type fh = ZEND_HANDLE_FILENAME")
    case False
    then show ?thesis using assms(1) open_refl [of P fh] by (auto simp: compile_and_cache_file_def)
  next
    case True
    obtain f G C where st: "stream_open P fh (globals W) (shm W) = (f, G, C)" by (metis prod_cases3)
    show ?thesis
    proof (cases f)
      case None
      then show ?thesis using assms(1) True st by (auto simp: compile_and_cache_file_def split: if_splits)
    next
      case (Some f')
      then show ?thesis using assms(1) True st open_step [OF open_refl, of P fh "globals W" "shm W" f'] by (auto simp: compile_and_cache_file_def)
    qed
  qed
  then obtain f V where "opens P fh f" and c: "compile_opened_file E P f V = Inr (Continue (Shared a, from_shm), W')" by blast
  then show ?thesis using compile_opened_served [OF c] by blast
qed

lemma opens_trans: "opens P f1 f2 \<Longrightarrow> opens P fh f1 \<Longrightarrow> opens P fh f2"
  by (induction rule: opens.induct) (auto intro: opens.intros)

lemma load_shared:
  "load r from_shm W = (Loaded (Shared a) f g, W') \<Longrightarrow> r = Shared a \<and> f = from_shm
    \<and> shm W' = set_script a (\<lambda>s. s\<lparr>ps_last_used := request_time (globals W)\<rparr>) (shm W)"
  by (auto simp: load_def Let_def split: script_ref.splits)

lemma compile_opened_not_loaded: "compile_opened_file E P fh W \<noteq> Inr (Answer (Loaded x y z), V)"
proof -
  have no: "bind_res r (\<lambda>(r, from_shm, C). Inr (Continue (r, from_shm), f C)) \<noteq> Inr (Answer (Loaded x y z), V)" for r f
    by (auto simp: bind_res_Inr)
  show ?thesis
    by (cases "compile P fh"; cases "zend_get_file_handle_timestamp P fh") (simp_all add: compile_opened_file_def Let_def no)
qed

lemma compile_and_cache_not_loaded: "compile_and_cache_file E P require fh W \<noteq> Inr (Answer (Loaded x y z), V)"
  by (auto simp: compile_and_cache_file_def compile_opened_not_loaded split: prod.split option.split)

lemma cache_miss_served:
  assumes "cache_miss E P require fh W = (Inr (Loaded (Shared a) f g, W') :: (outcome \<times> process) res)"
  shows "\<exists>fh'. opens P fh fh' \<and> f \<and> \<not> ps_corrupted (scripts (shm W') a)
    \<and> (always_validated E \<longrightarrow> up_to_date P (scripts (shm W') a) fh')"
proof -
  let ?W = "with_shared ((shared W)\<lparr>misses := misses (shared W) + 1\<rparr>) W"
  have "bind_res (compile_and_cache_file E P require fh ?W) (\<lambda>(r, W2). case r of Answer oc \<Rightarrow> Inr (oc, W2)
      | Continue (ref, from_shm) \<Rightarrow> Inr (load ref from_shm W2)) = (Inr (Loaded (Shared a) f g, W') :: (outcome \<times> process) res)"
    using assms(1) unfolding cache_miss_def Let_def by (simp split: if_split_asm)
  then obtain x where c': "compile_and_cache_file E P require fh ?W = Inr x"
    and l': "(case x of (r, W2) \<Rightarrow> (case r of Answer oc \<Rightarrow> Inr (oc, W2) | Continue (ref, from_shm) \<Rightarrow> Inr (load ref from_shm W2)))
      = (Inr (Loaded (Shared a) f g, W') :: (outcome \<times> process) res)" by (rule bind_resE) (rule that)
  obtain r W2 where x: "x = (r, W2)" by fastforce
  have c: "compile_and_cache_file E P require fh ?W = Inr (r, W2)" using c' x by simp
  have l: "(case r of Answer oc \<Rightarrow> Inr (oc, W2) | Continue (ref, from_shm) \<Rightarrow> Inr (load ref from_shm W2)) = (Inr (Loaded (Shared a) f g, W') :: (outcome \<times> process) res)"
    using l' x by simp
  show ?thesis
  proof (cases r)
    case (Answer oc)
    have "compile_and_cache_file E P require fh ?W \<noteq> Inr (Answer (Loaded x y z), W2)" for x y z
      by (rule compile_and_cache_not_loaded)
    then show ?thesis using l c Answer by auto
  next
    case (Continue q)
    obtain ref fs where q: "q = (ref, fs)" by fastforce
    then have "load ref fs W2 = (Loaded (Shared a) f g, W')" using l Continue by simp
    note L = load_shared [OF this]
    have "compile_and_cache_file E P require fh ?W = Inr (Continue (Shared a, f), W2)" using c Continue q L by simp
    from compile_and_cache_served [OF this] obtain fh' where "opens P fh fh'" "f" "\<not> ps_corrupted (scripts (shm W2) a)"
      "always_validated E \<longrightarrow> up_to_date P (scripts (shm W2) a) fh'" by blast
    moreover have "up_to_date P (scripts (shm W') a) fh' = up_to_date P (scripts (shm W2) a) fh'"
      by (rule up_to_date_cong) (use L in \<open>simp_all add: set_script_def full_path_def\<close>)
    moreover have "ps_corrupted (scripts (shm W') a) = ps_corrupted (scripts (shm W2) a)"
      using L by (simp add: set_script_def)
    ultimately show ?thesis by blast
  qed
qed

lemma cache_hit_eq:
  "cache_hit P b W = (Loaded (Shared a) f g, W') \<Longrightarrow> b = a \<and> f \<and>
     scripts (shm W') = (scripts (shm W))(a := (scripts (shm W) a)\<lparr>ps_hits := ps_hits (scripts (shm W) a) + 1,
       ps_last_used := request_time (globals W)\<rparr>)"
  by (auto simp: cache_hit_def Let_def load_def set_script_def with_shared_def fun_eq_iff)

section \<open>Properties\<close>

text \<open>C22. Whatever the request: a script that is returned from shared memory is not marked as dropped.
  When time stamps are validated on every request, either its path is the one that the file of the request
  resolves to at this time and it has the time stamp of that file (or of the file of its own path), or it
  has just been compiled from that file and has its path and time stamp.\<close>

theorem served_script_current:
  assumes served: "persistent_compile_file E P require fh W = Inr (Loaded (Shared a) from_shm g, W')"
  shows "\<exists>fh'. opens P fh fh' \<and> from_shm \<and> \<not> ps_corrupted (scripts (shm W') a)
    \<and> (always_validated E \<longrightarrow> up_to_date P (scripts (shm W') a) fh')"
proof -
  from served obtain W2 r W3 where find: "find_script E P require fh W2 = Inr (r, W3)"
    and rest: "(case r of Answer oc \<Rightarrow> Inr (oc, W3) | Continue (s, fh') \<Rightarrow> serve_script E P require fh' s W3)
      = Inr (Loaded (Shared a) from_shm g, W')"
    by (auto simp: persistent_compile_file_def Let_def bind_res_Inr split: if_splits prod.splits)
  show ?thesis
  proof (cases r)
    case (Answer oc)
    have "find_script E P require fh W2 \<noteq> Inr (Answer (Loaded x y z), W3)" for x y z
      by (auto simp: find_script_def find_by_path_def Let_def bind_res_Inr split: if_splits prod.splits option.splits)
    then show ?thesis using find rest Answer by auto
  next
    case (Continue q)
    obtain s f1 where q: "q = (s, f1)" by fastforce
    let ?W4 = "W3\<lparr>globals := (globals W3)\<lparr>cache_opline := None, cache_persistent_script := None\<rparr>\<rparr>"
    have o1: "opens P fh f1" using find Continue q find_script_opens by simp
    obtain t C where u: "usable_script E P f1 (globals ?W4) s (shm ?W4) = (t, C)" by fastforce
    show ?thesis
    proof (cases t)
      case None
      then have "cache_miss E P require f1 (?W4\<lparr>shm := C\<rparr>) = Inr (Loaded (Shared a) from_shm g, W')"
        using rest Continue q u by (simp add: serve_script_def)
      from cache_miss_served [OF this] show ?thesis using opens_trans [OF _ o1] by blast
    next
      case (Some b)
      then have "cache_hit P b (?W4\<lparr>shm := C\<rparr>) = (Loaded (Shared a) from_shm g, W')"
        using rest Continue q u by (simp add: serve_script_def)
      note H = cache_hit_eq [OF this]
      have "\<not> ps_corrupted (scripts C a) \<and> (always_validated E \<longrightarrow> up_to_date P (scripts C a) f1)"
        using usable_script_ok [of E P f1 "globals ?W4" s "shm ?W4" b C] u Some H by simp
      moreover have "up_to_date P (scripts (shm W') a) f1 = up_to_date P (scripts C a) f1"
        by (rule up_to_date_cong) (use H in \<open>simp_all add: full_path_def\<close>)
      moreover have "ps_corrupted (scripts (shm W') a) = ps_corrupted (scripts C a)" using H by simp
      ultimately show ?thesis using o1 H by blast
    qed
  qed
qed

text \<open>A request whose key is in the table.\<close>

definition begin_request :: "process \<Rightarrow> process" where
  "begin_request W = (if counted (globals W) then W else W\<lparr>globals := (globals W)\<lparr>counted := True\<rparr>, shm_read := True\<rparr>)"

definition key_found :: "cache_env \<Rightarrow> php \<Rightarrow> zend_file_handle \<Rightarrow> process \<Rightarrow> nat \<Rightarrow> process \<Rightarrow> bool" where
  "key_found E P fh W a W1 \<longleftrightarrow>
     cache_in_use (req P) (globals W) (shared W) \<and> \<not> interactive P \<and> \<not> restart_in_progress (shared W)
   \<and> (is_stream_path (filename fh) \<longrightarrow> is_cacheable_stream_path (filename fh)) \<and> \<not> found_before P fh (globals W)
   \<and> (\<exists>k G S. accel_make_persistent_key E (req P) fh (globals (begin_request W)) (shared W) = Inr (Some k, G, S)
        \<and> find_script_by E k S = Inr (Some a)
        \<and> W1 = with_shared S ((begin_request W)\<lparr>globals := G\<lparr>cache_opline := None, cache_persistent_script := None\<rparr>\<rparr>))"

lemma request_found:
  assumes "key_found E P fh W a W1"
  shows "persistent_compile_file E P require fh W =
    (case usable_script E P fh (globals W1) (Some a) (shm W1) of
       (None, C) \<Rightarrow> cache_miss E P require fh (W1\<lparr>shm := C\<rparr>)
     | (Some a, C) \<Rightarrow> Inr (cache_hit P a (W1\<lparr>shm := C\<rparr>)))"
proof -
  obtain k G S where use: "cache_in_use (req P) (globals W) (shared W)" "\<not> interactive P" "\<not> restart_in_progress (shared W)"
      "is_stream_path (filename fh) \<longrightarrow> is_cacheable_stream_path (filename fh)" "\<not> found_before P fh (globals W)"
    and k: "accel_make_persistent_key E (req P) fh (globals (begin_request W)) (shared W) = Inr (Some k, G, S)"
    and a: "find_script_by E k S = Inr (Some a)"
    and W1: "W1 = with_shared S ((begin_request W)\<lparr>globals := G\<lparr>cache_opline := None, cache_persistent_script := None\<rparr>\<rparr>)"
    using assms unfolding key_found_def by blast
  have sh: "shared (begin_request W) = shared W" "shm (begin_request W) = shm W" by (simp_all add: begin_request_def)
  have nf: "\<not> found_before P fh (globals (begin_request W))" using use(5) by (simp add: begin_request_def found_before_def)
  let ?V = "with_shared S ((begin_request W)\<lparr>globals := G\<rparr>)"
  have fs: "find_script E P require fh (begin_request W) = Inr (Continue (Some a, fh), ?V)"
    by (simp add: find_script_def nf sh k a Let_def)
  have "with_shared (shared W) W = W" by (simp add: with_shared_def)
  then have "persistent_compile_file E P require fh W = bind_res (find_script E P require fh (begin_request W)) (\<lambda>(r, W3).
      case r of Answer oc \<Rightarrow> Inr (oc, W3) | Continue (s, fh') \<Rightarrow> serve_script E P require fh' s W3)"
    using use(1-4) by (auto simp: persistent_compile_file_def accel_restart_is_active_def begin_request_def Let_def)
  also have "\<dots> = serve_script E P require fh (Some a) ?V" by (simp add: fs)
  finally have pcf: "persistent_compile_file E P require fh W = serve_script E P require fh (Some a) ?V" .
  have "?V\<lparr>globals := (globals ?V)\<lparr>cache_opline := None, cache_persistent_script := None\<rparr>\<rparr> = W1"
    by (simp add: W1 with_shared_def)
  then show ?thesis unfolding pcf serve_script_def Let_def by (rule ssubst) (rule refl)
qed

definition fresh :: "cache_env \<Rightarrow> php \<Rightarrow> zend_file_handle \<Rightarrow> accel_globals \<Rightarrow> script \<Rightarrow> bool" where
  "fresh E P fh G s \<longleftrightarrow> \<not> validate_timestamps (dirs E)
     \<or> revalidate_freq (dirs E) \<noteq> 0 \<and> ps_revalidate s \<ge> request_time G \<or> do_validate_timestamps P s fh"

text \<open>C23. A request whose key finds a script that is not dropped, is fresh and passes its checksum is
  served from shared memory, whatever the compiler does: only the counters, the time of the next
  validation and the time of the last use change.\<close>

theorem compile_hit:
  assumes found: "key_found E P fh W a W1" and ok: "\<not> ps_corrupted (scripts (shm W1) a)"
    and fresh: "fresh E P fh (globals W1) (scripts (shm W1) a)"
    and sum: "consistency_checks (dirs E) = 0 \<or> checksum_of E (shm W1) a = ps_checksum (scripts (shm W1) a)"
  shows "\<exists>g W'. persistent_compile_file E P require fh W = Inr (Loaded (Shared a) True g, W')
    \<and> shared W' = (shared W1)\<lparr>hits := hits (shared W1) + 1\<rparr> \<and> mem (shm W') = mem (shm W1)
    \<and> (\<forall>b. b \<noteq> a \<longrightarrow> scripts (shm W') b = scripts (shm W1) b)
    \<and> (\<exists>r. scripts (shm W') a = (scripts (shm W1) a)\<lparr>ps_hits := ps_hits (scripts (shm W1) a) + 1,
         ps_last_used := request_time (globals W1), ps_revalidate := r\<rparr>)"
proof -
  let ?s = "scripts (shm W1) a"
  have "\<exists>r. usable_script E P fh (globals W1) (Some a) (shm W1) = (Some a, (shm W1)\<lparr>scripts := (scripts (shm W1))(a := ?s\<lparr>ps_revalidate := r\<rparr>)\<rparr>)"
  proof (cases "validate_timestamps (dirs E) \<and> \<not> (revalidate_freq (dirs E) \<noteq> 0 \<and> ps_revalidate ?s \<ge> request_time (globals W1))")
    case False
    then have "checked_timestamps E P fh (globals W1) a (shm W1) = (Some a, shm W1)"
      by (auto simp: checked_timestamps_def validate_timestamp_and_record_def Let_def)
    moreover have "(shm W1)\<lparr>scripts := (scripts (shm W1))(a := ?s\<lparr>ps_revalidate := ps_revalidate ?s\<rparr>)\<rparr> = shm W1" by simp
    ultimately show ?thesis using ok sum by (intro exI [of _ "ps_revalidate ?s"]) (simp add: usable_script_def checked_consistency_def)
  next
    case True
    then have "checked_timestamps E P fh (globals W1) a (shm W1) = (Some a, (shm W1)\<lparr>scripts := (scripts (shm W1))
        (a := ?s\<lparr>ps_revalidate := time_t (request_time (globals W1) + int (revalidate_freq (dirs E)))\<rparr>)\<rparr>)"
      using fresh by (auto simp: checked_timestamps_def validate_timestamp_and_record_def Let_def fresh_def)
    then show ?thesis using ok sum
      by (intro exI [of _ "time_t (request_time (globals W1) + int (revalidate_freq (dirs E)))"])
        (simp add: usable_script_def checked_consistency_def checksum_of_def)
  qed
  then obtain r where "usable_script E P fh (globals W1) (Some a) (shm W1)
      = (Some a, (shm W1)\<lparr>scripts := (scripts (shm W1))(a := ?s\<lparr>ps_revalidate := r\<rparr>)\<rparr>)" ..
  then show ?thesis
    by (auto simp: request_found [OF found] cache_hit_def load_def set_script_def with_shared_def Let_def fun_eq_iff
        intro!: exI [of _ r])
qed

text \<open>C40. A request whose key finds a script that is not dropped but is no longer fresh: the script is
  dropped, its memory counts as wasted, and the request goes on as a miss.\<close>

theorem compile_stale:
  assumes found: "key_found E P fh W a W1" and ok: "\<not> ps_corrupted (scripts (shm W1) a)"
    and stale: "\<not> fresh E P fh (globals W1) (scripts (shm W1) a)"
  shows "\<exists>C. persistent_compile_file E P require fh W = cache_miss E P require fh (W1\<lparr>shm := C\<rparr>)
    \<and> ps_corrupted (scripts C a) \<and> ps_timestamp (scripts C a) = 0
    \<and> (\<forall>b. b \<noteq> a \<longrightarrow> scripts C b = scripts (shm W1) b)
    \<and> scripts_hash (zcsg C) = scripts_hash (shared W1)
    \<and> wasted_shared_memory (smm (zcsg C)) = int32 (wasted_shared_memory (smm (shared W1)) + int (ps_memory_consumption (scripts (shm W1) a)))
    \<and> (memory_exhausted (smm (shared W1)) \<longrightarrow>
         (\<exists>W'. persistent_compile_file E P require fh W = Inr (Uncached, W') \<and> misses (shared W') = misses (shared W1) + 1))"
proof -
  have u: "usable_script E P fh (globals W1) (Some a) (shm W1) = (None, discard_script E a (shm W1))"
    using ok stale by (auto simp: usable_script_def checked_timestamps_def validate_timestamp_and_record_def Let_def fresh_def)
  have d: "scripts_hash (zcsg (discard_script E a (shm W1))) = scripts_hash (shared W1)"
    "wasted_shared_memory (smm (zcsg (discard_script E a (shm W1))))
       = int32 (wasted_shared_memory (smm (shared W1)) + int (ps_memory_consumption (scripts (shm W1) a)))"
    "memory_exhausted (smm (zcsg (discard_script E a (shm W1)))) = memory_exhausted (smm (shared W1))"
    "misses (zcsg (discard_script E a (shm W1))) = misses (shared W1)"
    using ok by (simp_all add: discard_script_def Let_def zend_accel_schedule_restart_if_necessary_def zend_accel_schedule_restart_def)
  have e: "persistent_compile_file E P require fh W = cache_miss E P require fh (W1\<lparr>shm := discard_script E a (shm W1)\<rparr>)"
    by (simp add: request_found [OF found] u)
  show ?thesis
    by (rule exI [of _ "discard_script E a (shm W1)"]) (use ok d in \<open>simp add: e discard_corrupted cache_miss_def Let_def with_shared_def,
        simp add: discard_script_def Let_def\<close>)
qed

text \<open>C24. Invalidating a script whose path resolves and finds one in the table: by force, when time
  stamps are not validated, or when its file has changed, that script is dropped and no other; otherwise
  nothing of the shared memory changes. In both cases the read lock is given back.\<close>

theorem invalidate_drops:
  assumes use: "enabled (globals W)" "accel_startup_ok (req P)" "accelerator_enabled (shared W)"
      "counted (globals W) \<or> \<not> restart_in_progress (shared W)"
    and p: "resolve_path P name = Some p" and a: "find_script_by E p (shared W) = Inr (Some a)"
  shows "\<exists>W'. zend_accel_invalidate E P name force W = Inr (True, W')
    \<and> (if force \<or> \<not> validate_timestamps (dirs E) \<or> \<not> do_validate_timestamps P (scripts (shm W) a) (path_handle p)
       then ps_corrupted (scripts (shm W') a) \<and> (\<forall>b. b \<noteq> a \<longrightarrow> scripts (shm W') b = scripts (shm W) b)
         \<and> scripts_hash (shared W') = scripts_hash (shared W)
       else shm W' = shm W)
    \<and> globals W' = globals W \<and> (if counted (globals W) then shm_read W' = shm_read W else \<not> shm_read W')"
proof -
  have d: "scripts_hash (zcsg (discard_script E a C)) = scripts_hash (zcsg C)"
    "b \<noteq> a \<Longrightarrow> scripts (discard_script E a C) b = scripts C b" for C b
    by (simp_all add: discard_script_def Let_def zend_accel_schedule_restart_if_necessary_def zend_accel_schedule_restart_def)
  show ?thesis
    using use p a
    by (auto simp: zend_accel_invalidate_def accelerator_shm_read_lock_def accelerator_shm_read_unlock_def d discard_corrupted)
qed

text \<open>When the path does not resolve, the read lock that was taken is not given back.\<close>

theorem invalidate_keeps_read_lock:
  assumes "enabled (globals W)" "accel_startup_ok (req P)" "accelerator_enabled (shared W)"
    and "\<not> counted (globals W)" "\<not> restart_in_progress (shared W)" and "resolve_path P name = None"
  shows "zend_accel_invalidate E P name force W = Inr (False, W\<lparr>shm_read := True\<rparr>)"
  using assms by (simp add: zend_accel_invalidate_def accelerator_shm_read_lock_def)

section \<open>A concrete request\<close>

definition demo_php :: php where
  "demo_php = \<lparr>req = demo_request, interactive = False, opline_ptr = None, restart_lock = Getlk_Unlocked, get_stat = None,
     vcwd_stat = (\<lambda>_. Some \<lparr>st_mtime = 900, st_size = 40\<rparr>), wrapper_of = (\<lambda>_. None), uninitialised = \<lparr>st_mtime = 5, st_size = 5\<rparr>,
     resolve_path = (\<lambda>f. if f = ''/gone'' then None else Some ''f.php''),
     stream_open = (\<lambda>fh G C. (Some (fh\<lparr>opened_path := Some ''f.php''\<rparr>), G, C)), is_blacklisted = (\<lambda>_. False),
     compile = (\<lambda>_. Compile_Null), symbol_exists = (\<lambda>g. g = ''GLOBALS''), auto_globals_jit = True,
     key_address = 4000, path_address = 5000\<rparr>"

text \<open>\<open>/f\<close> is the key of script 7.\<close>

definition demo_lookup :: "nat zend_accel_hash \<Rightarrow> bool" where
  "demo_lookup h \<longleftrightarrow> zend_accel_hash_find Accel_Hash.demo_hash h (nul ''/f'') (length (nul ''/f'')) = Some (Obj 7)
     \<and> zend_accel_hash_find Accel_Hash.demo_hash h (nul ''f.php'') (length (nul ''f.php'')) = Some (Obj 7)"

definition demo_proc :: "nat zend_accel_hash \<Rightarrow> process" where
  "demo_proc h = \<lparr>globals = demo_process, shm = demo_cache\<lparr>zcsg := demo_shared\<lparr>scripts_hash := h\<rparr>\<rparr>, shm_read = False,
     included_files = {}\<rparr>"

lemma demo_lookup_ex: "\<exists>h. demo_lookup h"
proof -
  have b: "(0::nat) < 5" "(5::nat) < two32" by (simp_all add: two32_def)
  let ?e = "empty_hash 5 :: nat zend_accel_hash"
  have e: "hash_inv Accel_Hash.demo_hash ?e" "\<not> zend_accel_hash_is_full ?e"
    "zend_accel_hash_find_entry Accel_Hash.demo_hash ?e (nul ''/f'') (length (nul ''/f'')) = Some None"
    "zend_accel_hash_find_entry Accel_Hash.demo_hash ?e (nul ''f.php'') (length (nul ''f.php'')) = Some None"
    by (rule empty_view(1) [OF b], simp add: zend_accel_hash_is_full_def, rule empty_view(2) [OF b], rule empty_view(2) [OF b])
  from insert_new(2) [OF e(1,3,2), of "Obj 7"] obtain h1 where h1: "hash_inv Accel_Hash.demo_hash h1" "num_entries h1 = 1" "max_num_entries h1 = 5"
    "\<And>k. zend_accel_hash_find_entry Accel_Hash.demo_hash h1 k (length k)
      = (if k = nul ''/f'' then Some (Some 0) else zend_accel_hash_find_entry Accel_Hash.demo_hash ?e k (length k))"
    "\<And>k. zend_accel_hash_find Accel_Hash.demo_hash h1 k (length k)
      = (if k = nul ''/f'' then Some (Obj 7) else zend_accel_hash_find Accel_Hash.demo_hash ?e k (length k))" by auto
  have n: "zend_accel_hash_find_entry Accel_Hash.demo_hash h1 (nul ''f.php'') (length (nul ''f.php'')) = Some None"
    "\<not> zend_accel_hash_is_full h1"
    using h1(4) [of "nul ''f.php''"] e(4) h1(2,3) by (simp_all add: zend_accel_hash_is_full_def)
  from insert_new(2) [OF h1(1) n, of "Obj 7"] obtain h2 where
    "\<And>k. zend_accel_hash_find Accel_Hash.demo_hash h2 k (length k)
      = (if k = nul ''f.php'' then Some (Obj 7) else zend_accel_hash_find Accel_Hash.demo_hash h1 k (length k))" by auto
  then have "demo_lookup h2" using h1(5) by (simp add: demo_lookup_def)
  then show ?thesis ..
qed

definition demo_every :: "nat \<Rightarrow> cache_env" where
  "demo_every n = demo_cache_env\<lparr>dirs := demo_directives\<lparr>revalidate_freq := n\<rparr>\<rparr>"

lemma demo_every_simps [simp]:
  "zend_inline_hash_func (demo_every n) = Accel_Hash.demo_hash" "revalidate_freq (dirs (demo_every n)) = n"
  "validate_timestamps (dirs (demo_every n))" "consistency_checks (dirs (demo_every n)) = 0" "use_cwd (dirs (demo_every n))"
  by (simp_all add: demo_every_def demo_cache_env_def demo_directives_def)

definition demo_begun :: "nat zend_accel_hash \<Rightarrow> process" where
  "demo_begun h = (begin_request (demo_proc h))\<lparr>globals := demo_process\<lparr>counted := True, key_buffer := ''/f''\<rparr>\<rparr>"

lemma demo_begun_simps [simp]:
  "scripts (shm (demo_begun h)) 7 = demo_script2\<lparr>ps_memory_consumption := 64\<rparr>" "request_time (globals (demo_begun h)) = 0"
  by (simp_all add: demo_begun_def begin_request_def demo_proc_def demo_cache_def demo_process_def)

lemma demo_key_found:
  assumes "demo_lookup h"
  shows "key_found (demo_every n) demo_php (demo_file ''/f'') (demo_proc h) 7 (demo_begun h)"
  using assms
  by (simp add: key_found_def demo_proc_def demo_php_def begin_request_def demo_process_def demo_shared_def cache_in_use_def
      demo_request_def is_stream_path_def scheme_char_def isalnum_def demo_file_def found_before_def once_opline_def
      accel_make_persistent_key_def key_buffer_size_def find_script_by_def demo_lookup_def script_found_def with_shared_def
      demo_begun_def)

lemma demo_valid:
  "do_validate_timestamps demo_php (demo_script2\<lparr>ps_memory_consumption := 64\<rparr>) (demo_file ''/f'')"
  "\<not> do_validate_timestamps demo_php (demo_script2\<lparr>ps_memory_consumption := 64\<rparr>) ((demo_file ''/f'')\<lparr>opened_path := Some ''/f''\<rparr>)"
  by (simp_all add: do_validate_timestamps_def demo_php_def same_timestamp_def zend_get_file_handle_timestamp_def
      handle_stat_def path_stat_def demo_file_def is_stream_path_def scheme_char_def isalnum_def demo_script2_def full_path_def
      demo_script_def)

lemma served_script_current_witness:
  "\<exists>h g W'. persistent_compile_file (demo_every 0) demo_php False (demo_file ''/f'') (demo_proc h) = Inr (Loaded (Shared 7) True g, W')
    \<and> \<not> ps_corrupted (scripts (shm W') 7) \<and> (\<exists>fh'. up_to_date demo_php (scripts (shm W') 7) fh')"
proof -
  obtain h where h: "demo_lookup h" using demo_lookup_ex ..
  let ?W = "demo_begun h"
  obtain C where "usable_script (demo_every 0) demo_php (demo_file ''/f'') (globals ?W) (Some 7) (shm ?W) = (Some 7, C)"
    using demo_valid(1) by (simp add: usable_script_def checked_timestamps_def validate_timestamp_and_record_def Let_def
        checked_consistency_def demo_script2_def)
  then have "\<exists>g W'. persistent_compile_file (demo_every 0) demo_php False (demo_file ''/f'') (demo_proc h) = Inr (Loaded (Shared 7) True g, W')"
    by (simp add: request_found [OF demo_key_found [OF h]] cache_hit_def load_def Let_def)
  moreover have "always_validated (demo_every 0)" by (simp add: always_validated_def)
  ultimately show ?thesis using served_script_current [of "demo_every 0" demo_php False "demo_file ''/f''" "demo_proc h" 7] by blast
qed

lemma compile_hit_witness:
  "\<exists>h g W'. persistent_compile_file (demo_every 2) demo_php False (demo_file ''/f'') (demo_proc h) = Inr (Loaded (Shared 7) True g, W')"
proof -
  obtain h where h: "demo_lookup h" using demo_lookup_ex ..
  show ?thesis
    using compile_hit [OF demo_key_found [OF h], where n1 = 2 and require = False] demo_valid(1)
    by (fastforce simp: fresh_def demo_script2_def)
qed

lemma compile_stale_witness:
  "\<exists>h C. persistent_compile_file (demo_every 0) (demo_php\<lparr>resolve_path := \<lambda>_. Some ''g.php''\<rparr>) False (demo_file ''/f'') (demo_proc h)
      = cache_miss (demo_every 0) (demo_php\<lparr>resolve_path := \<lambda>_. Some ''g.php''\<rparr>) False (demo_file ''/f'') ((demo_begun h)\<lparr>shm := C\<rparr>)
    \<and> ps_corrupted (scripts C 7)"
proof -
  obtain h where h: "demo_lookup h" using demo_lookup_ex ..
  let ?P = "demo_php\<lparr>resolve_path := \<lambda>_. Some ''g.php''\<rparr>"
  have k: "key_found (demo_every 0) ?P (demo_file ''/f'') (demo_proc h) 7 (demo_begun h)"
    using demo_key_found [OF h, of 0] by (simp add: key_found_def found_before_def once_opline_def)
  have "\<not> fresh (demo_every 0) ?P (demo_file ''/f'') (globals (demo_begun h)) (scripts (shm (demo_begun h)) 7)"
    by (simp add: fresh_def do_validate_timestamps_def demo_file_def full_path_def demo_script2_def demo_script_def)
  from compile_stale [OF k _ this, of False] show ?thesis by (auto simp: demo_script2_def)
qed

lemma invalidate_drops_witness:
  "\<exists>h W'. zend_accel_invalidate (demo_every 2) demo_php ''x'' True (demo_proc h) = Inr (True, W')
    \<and> ps_corrupted (scripts (shm W') 7) \<and> \<not> shm_read W'"
proof -
  obtain h where h: "demo_lookup h" using demo_lookup_ex ..
  have "find_script_by (demo_every 2) ''f.php'' (shared (demo_proc h)) = Inr (Some 7)"
    using h by (simp add: find_script_by_def demo_lookup_def demo_proc_def script_found_def)
  then show ?thesis
    using invalidate_drops [of "demo_proc h" demo_php "''x''" "''f.php''" "demo_every 2" 7 True]
    by (auto simp: demo_proc_def demo_process_def demo_php_def demo_request_def demo_shared_def)
qed

lemma invalidate_keeps_read_lock_witness:
  "zend_accel_invalidate (demo_every 2) demo_php ''/gone'' True (demo_proc (empty_hash 5))
    = Inr (False, (demo_proc (empty_hash 5))\<lparr>shm_read := True\<rparr>)"
  by (rule invalidate_keeps_read_lock)
    (simp_all add: demo_proc_def demo_process_def demo_php_def demo_request_def demo_shared_def)

end
