(* ===== verification/Blacklist.thy ===== *)
theory Blacklist
  imports Cache
begin

text \<open>
  The blacklist (\<open>zend_accelerator_blacklist.c\<close>): the entries read from the blacklist files, the
  regular expressions made from them, and the test of a path.

  \<open>zend_accel_blacklist_update_regexp\<close> writes the entries, with their wild cards translated, into
  a buffer of 12 KB as the alternatives of one extended regular expression and starts a new
  expression when an entry does not fit. The buffer is modelled as memory with a position, so
  that a position kept from an earlier expression points to what is there. \<open>regcomp\<close> and
  \<open>regexec\<close> of the C library are modelled for the expressions of this form (\<open>^(...|...)\<close> over
  literal characters, \<open>.\<close>, \<open>[^c]\<close> and \<open>*\<close>); any other expression counts as an error. Reading lines
  (\<open>fgets\<close>), expanding paths and \<open>glob\<close> are parameters; memory allocation succeeds.
\<close>

section \<open>Entries\<close>

definition ZEND_BLACKLIST_BLOCK_SIZE :: nat where "ZEND_BLACKLIST_BLOCK_SIZE = 32"

record zend_blacklist =
  bl_entries :: "string list"
  bl_size :: nat
  regexp_list :: "string list"

definition zend_accel_blacklist_init :: zend_blacklist where
  "zend_accel_blacklist_init = \<lparr>bl_entries = [], bl_size = ZEND_BLACKLIST_BLOCK_SIZE, regexp_list = []\<rparr>"

definition zend_accel_blacklist_allocate :: "zend_blacklist \<Rightarrow> zend_blacklist" where
  "zend_accel_blacklist_allocate B =
     (if length (bl_entries B) = bl_size B then B\<lparr>bl_size := bl_size B + ZEND_BLACKLIST_BLOCK_SIZE\<rparr> else B)"

text \<open>A line of a blacklist file: the end of the line, carriage returns before it and quotes around
  it are taken away; empty lines and comments are skipped. For a line that is one quote the length
  becomes -1.\<close>

datatype line = Skip | Path string | Negative_Length

definition strip_end :: "string \<Rightarrow> string" where
  "strip_end l =
     (if l \<noteq> '''' \<and> last l = CHR 0x0A
      then (let m = butlast l in if m \<noteq> '''' \<and> last m = CHR 0x0D then butlast m else m)
      else l)"

definition parse_line :: "string \<Rightarrow> line" where
  "parse_line buf =
     (let l = dropWhile (\<lambda>c. c = CHR 0x0D) (strip_end buf) in
      if l = '''' then Skip
      else if hd l = CHR 0x22 \<and> last l = CHR 0x22
      then (if length l = 1 then Negative_Length
            else let m = butlast (tl l) in if m = '''' \<or> hd m = CHR '';'' then Skip else Path m)
      else if hd l = CHR '';'' then Skip else Path l)"

section \<open>The buffer\<close>

record regbuf =
  rb_chars :: "nat \<Rightarrow> char"
  rb_pos :: nat

definition buffer_size :: nat where "buffer_size = 12 * 1024"

text \<open>\<open>sizeof("[^\\\\]*)\0")\<close> is 9.\<close>

definition buffer_end :: nat where "buffer_end = buffer_size - 9"

fun emit :: "string \<Rightarrow> regbuf \<Rightarrow> regbuf" where
  "emit [] b = b"
| "emit (c # cs) b = emit cs (b\<lparr>rb_chars := (rb_chars b)(rb_pos b := c), rb_pos := Suc (rb_pos b)\<rparr>)"

definition special :: "char \<Rightarrow> bool" where
  "special c \<longleftrightarrow> c \<in> set ''^.[]$()|+{}'' \<or> c = CHR 0x5C"

text \<open>One round of \<open>while (*c && p < end)\<close>: the characters written, and the rest of the entry.\<close>

definition translate_char :: "char \<Rightarrow> string \<Rightarrow> string \<times> string" where
  "translate_char c cs =
     (if c = CHR ''?'' then (''[^/]'', cs)
      else if c = CHR ''*'' then (if take 1 cs = ''*'' then (''.*'', tl cs) else (''[^/]*'', cs))
      else if special c then ([CHR 0x5C, c], cs)
      else ([c], cs))"

lemma translate_char_le: "length (snd (translate_char c cs)) \<le> length cs"
  by (simp add: translate_char_def)

function copy_entry :: "nat \<Rightarrow> string \<Rightarrow> regbuf \<Rightarrow> string \<times> regbuf" where
  "copy_entry e [] b = ([], b)"
| "copy_entry e (c # cs) b =
     (if rb_pos b < e then copy_entry e (snd (translate_char c cs)) (emit (fst (translate_char c cs)) b) else (c # cs, b))"
  by pat_completeness auto
termination
  by (relation "measure (\<lambda>(_, c, _). length c)") (auto simp: translate_char_le le_imp_less_Suc)

section \<open>Regular expressions\<close>

datatype atom = Lit char | Not_Char char | Any

datatype token = T_Atom atom | T_Star | T_Bar | T_Close

type_synonym item = "atom \<times> bool"

fun tokens :: "string \<Rightarrow> token list option" where
  "tokens [] = Some []"
| "tokens (c # s) =
     (if c = CHR 0x5C then (case s of [] \<Rightarrow> None | d # t \<Rightarrow> map_option (Cons (T_Atom (Lit d))) (tokens t))
      else if c = CHR ''['' then
        (case s of x # d # y # t \<Rightarrow>
             if x = CHR ''^'' \<and> y = CHR '']'' then map_option (Cons (T_Atom (Not_Char d))) (tokens t) else None
         | _ \<Rightarrow> None)
      else if c = CHR ''.'' then map_option (Cons (T_Atom Any)) (tokens s)
      else if c = CHR ''*'' then map_option (Cons T_Star) (tokens s)
      else if c = CHR ''|'' then map_option (Cons T_Bar) (tokens s)
      else if c = CHR '')'' then map_option (Cons T_Close) (tokens s)
      else if special c \<or> c = CHR ''?'' then None
      else map_option (Cons (T_Atom (Lit c))) (tokens s))"

definition add_item :: "item \<Rightarrow> item list list \<Rightarrow> item list list" where
  "add_item x bs = (x # hd bs) # tl bs"

fun branches :: "token list \<Rightarrow> item list list option" where
  "branches [] = None"
| "branches (T_Close # ts) = (if ts = [] then Some [[]] else None)"
| "branches (T_Bar # ts) = map_option (Cons []) (branches ts)"
| "branches (T_Star # ts) = None"
| "branches (T_Atom a # T_Star # ts) = map_option (add_item (a, True)) (branches ts)"
| "branches (T_Atom a # ts) = map_option (add_item (a, False)) (branches ts)"

definition regcomp :: "string \<Rightarrow> item list list option" where
  "regcomp re = (if take 2 re = ''^('' then Option.bind (tokens (drop 2 re)) branches else None)"

definition atom_matches :: "atom \<Rightarrow> char \<Rightarrow> bool" where
  "atom_matches a x = (case a of Lit c \<Rightarrow> x = c | Not_Char c \<Rightarrow> x \<noteq> c | Any \<Rightarrow> True)"

text \<open>Some prefix of the path matches.\<close>

fun matches :: "item list \<Rightarrow> string \<Rightarrow> bool" where
  "matches [] s = True"
| "matches ((a, False) # r) s = (case s of [] \<Rightarrow> False | x # t \<Rightarrow> atom_matches a x \<and> matches r t)"
| "matches ((a, True) # r) s = (\<exists>k \<in> set [0 ..< Suc (length (takeWhile (atom_matches a) s))]. matches r (drop k s))"

definition regexec :: "string \<Rightarrow> string \<Rightarrow> bool" where
  "regexec re path = (case regcomp re of None \<Rightarrow> False | Some bs \<Rightarrow> \<exists>b \<in> set bs. matches b path)"

section \<open>Making the expressions\<close>

text \<open>\<open>n\<close> is the number of the entry, \<open>backtrack\<close> the end of the last entry in the buffer; \<open>res\<close> are
  the expressions made so far. The result is \<open>None\<close> when the loop does not end.\<close>

definition close_regexp :: "nat \<Rightarrow> regbuf \<Rightarrow> regbuf" where
  "close_regexp p b = emit [CHR '')'', CHR 0x00] (b\<lparr>rb_pos := p\<rparr>)"

definition c_string :: "regbuf \<Rightarrow> string" where
  "c_string b = takeWhile (\<lambda>c. c \<noteq> CHR 0x00) (map (rb_chars b) [0 ..< rb_pos b])"

partial_function (option) update_regexp ::
  "int \<Rightarrow> string list \<Rightarrow> nat \<Rightarrow> regbuf \<Rightarrow> nat option \<Rightarrow> string list \<Rightarrow> string list res option" where
  "update_regexp v es n b backtrack res =
     (if n \<ge> length es then Some (Inr res)
      else let (rest, b1) = (if rb_pos b + length (es ! n) < buffer_end then copy_entry buffer_end (es ! n) b else (es ! n, b))
      in if rest = [] \<and> n \<noteq> length es - 1 then update_regexp v es (Suc n) (emit ''|'' b1) (Some (rb_pos b1)) res
      else if rest \<noteq> [] \<and> backtrack = None
      then Some (Inl (case zend_accel_error v ACCEL_LOG_ERROR of Some c \<Rightarrow> Crashed c | None \<Rightarrow> Null_Deref))
      else let b2 = close_regexp (if rest \<noteq> [] then the backtrack else rb_pos b1) b1; re = c_string b2
      in case (if regcomp re = None then zend_accel_error v ACCEL_LOG_ERROR else None) of
           Some c \<Rightarrow> Some (Inl (Crashed c))
         | None \<Rightarrow> update_regexp v es (if rest \<noteq> [] then n else Suc n) (b2\<lparr>rb_pos := 2\<rparr>) backtrack (res @ [re]))"

definition zend_accel_blacklist_update_regexp :: "int \<Rightarrow> zend_blacklist \<Rightarrow> zend_blacklist res option" where
  "zend_accel_blacklist_update_regexp v B =
     (if bl_entries B = [] then Some (Inr B)
      else map_option (\<lambda>r. bind_res r (\<lambda>res. Inr (B\<lparr>regexp_list := res\<rparr>)))
        (update_regexp v (bl_entries B) 0 (emit ''^('' \<lparr>rb_chars = (\<lambda>_. CHR 0x00), rb_pos = 0\<rparr>) None []))"

section \<open>Loading files\<close>

text \<open>\<open>expand\<close> is the expansion of a path relative to the directory of the file.\<close>

fun load_lines :: "(string \<Rightarrow> string) \<Rightarrow> string list \<Rightarrow> zend_blacklist \<Rightarrow> zend_blacklist res" where
  "load_lines expand [] B = Inr B"
| "load_lines expand (l # ls) B =
     (case parse_line l of
        Skip \<Rightarrow> load_lines expand ls B
      | Negative_Length \<Rightarrow> Inl Out_Of_Bounds
      | Path p \<Rightarrow> load_lines expand ls ((zend_accel_blacklist_allocate B)\<lparr>bl_entries := bl_entries B @ [expand p]\<rparr>))"

text \<open>A file is its lines, or \<open>None\<close> when it cannot be opened.\<close>

definition zend_accel_blacklist_loadone ::
  "int \<Rightarrow> (string \<Rightarrow> string) \<Rightarrow> string list option \<Rightarrow> zend_blacklist \<Rightarrow> zend_blacklist res option" where
  "zend_accel_blacklist_loadone v expand file B =
     (case file of
        None \<Rightarrow> Some (Inr B)
      | Some ls \<Rightarrow> (case load_lines expand ls B of
          Inl e \<Rightarrow> Some (Inl e)
        | Inr B1 \<Rightarrow> zend_accel_blacklist_update_regexp v B1))"

text \<open>The files that \<open>glob\<close> finds, each with the expansion of its paths.\<close>

fun zend_accel_blacklist_load ::
  "int \<Rightarrow> ((string \<Rightarrow> string) \<times> string list option) list \<Rightarrow> zend_blacklist \<Rightarrow> zend_blacklist res option" where
  "zend_accel_blacklist_load v [] B = Some (Inr B)"
| "zend_accel_blacklist_load v (f # fs) B =
     (case zend_accel_blacklist_loadone v (fst f) (snd f) B of
        None \<Rightarrow> None
      | Some (Inl e) \<Rightarrow> Some (Inl e)
      | Some (Inr B1) \<Rightarrow> zend_accel_blacklist_load v fs B1)"

definition zend_accel_blacklist_is_blacklisted :: "zend_blacklist \<Rightarrow> string \<Rightarrow> bool" where
  "zend_accel_blacklist_is_blacklisted B verify_path \<longleftrightarrow> (\<exists>re \<in> set (regexp_list B). regexec re verify_path)"

section \<open>The reference matcher\<close>

text \<open>A path is covered by an entry if the entry, with \<open>?\<close> for a character that is not a slash, \<open>*\<close>
  for any number of them and \<open>**\<close> for any characters, matches the beginning of the path.\<close>

function glob_prefix :: "string \<Rightarrow> string \<Rightarrow> bool" where
  "glob_prefix [] s = True"
| "glob_prefix (c # cs) s =
     (if c = CHR ''?'' then (case s of [] \<Rightarrow> False | x # t \<Rightarrow> x \<noteq> CHR ''/'' \<and> glob_prefix cs t)
      else if c = CHR ''*'' then
        (if take 1 cs = ''*'' then (\<exists>k \<in> set [0 ..< Suc (length s)]. glob_prefix (tl cs) (drop k s))
         else (\<exists>k \<in> set [0 ..< Suc (length (takeWhile (\<lambda>x. x \<noteq> CHR ''/'') s))]. glob_prefix cs (drop k s)))
      else (case s of [] \<Rightarrow> False | x # t \<Rightarrow> x = c \<and> glob_prefix cs t))"
  by pat_completeness auto
termination by (relation "measure (\<lambda>(p, _). length p)") auto

section \<open>Entries as expressions\<close>

function regexp_of :: "string \<Rightarrow> string" where
  "regexp_of [] = []"
| "regexp_of (c # cs) = fst (translate_char c cs) @ regexp_of (snd (translate_char c cs))"
  by pat_completeness auto
termination by (relation "measure length") (auto simp: translate_char_le le_imp_less_Suc)

definition item_of :: "char \<Rightarrow> string \<Rightarrow> item" where
  "item_of c cs =
     (if c = CHR ''?'' then (Not_Char CHR ''/'', False)
      else if c = CHR ''*'' then (if take 1 cs = ''*'' then (Any, True) else (Not_Char CHR ''/'', True))
      else (Lit c, False))"

function items :: "string \<Rightarrow> item list" where
  "items [] = []"
| "items (c # cs) = item_of c cs # items (snd (translate_char c cs))"
  by pat_completeness auto
termination by (relation "measure length") (auto simp: translate_char_le le_imp_less_Suc)

lemma atom_matches_simps [simp]:
  "atom_matches (Lit c) = (\<lambda>x. x = c)" "atom_matches (Not_Char c) = (\<lambda>x. x \<noteq> c)" "atom_matches Any = (\<lambda>_. True)"
  by (simp_all add: atom_matches_def fun_eq_iff)

lemma takeWhile_all [simp]: "takeWhile (\<lambda>_. True) s = s"
  by (induction s) auto

lemma matches_items: "matches (items e) s \<longleftrightarrow> glob_prefix e s"
proof (induction e arbitrary: s rule: items.induct)
  case 1
  show ?case by simp
next
  case (2 c cs)
  consider "c = CHR ''?''" | "c = CHR ''*''" "take 1 cs = ''*''" | "c = CHR ''*''" "take 1 cs \<noteq> ''*''"
    | "c \<noteq> CHR ''?''" "c \<noteq> CHR ''*''" by blast
  then show ?case
  proof cases
    case 1
    then show ?thesis using 2 by (simp add: item_of_def translate_char_def split: list.split)
  next
    case 2
    then show ?thesis using "2.IH" by (simp add: item_of_def translate_char_def del: set_upt)
  next
    case 3
    then show ?thesis using "2.IH" by (simp add: item_of_def translate_char_def del: set_upt)
  next
    case 4
    then have "snd (translate_char c cs) = cs" by (simp add: translate_char_def)
    then show ?thesis using "2.IH" 4 by (simp add: item_of_def split: list.split)
  qed
qed

definition tok :: "item \<Rightarrow> token list" where
  "tok x = T_Atom (fst x) # (if snd x then [T_Star] else [])"

lemma tokens_char:
  "tokens (fst (translate_char c cs) @ s) = map_option (append (tok (item_of c cs))) (tokens s)"
  by (cases "tokens s") (auto simp: translate_char_def item_of_def tok_def special_def)

lemma tokens_translate:
  "tokens (regexp_of e @ s) = map_option (append (concat (map tok (items e)))) (tokens s)"
proof (induction e rule: items.induct)
  case 1
  show ?case by (cases "tokens s") simp_all
next
  case (2 c cs)
  then show ?case by (cases "tokens s") (simp_all add: tokens_char)
qed

definition starts_star :: "token list \<Rightarrow> bool" where
  "starts_star ts \<longleftrightarrow> (\<exists>r. ts = T_Star # r)"

lemma branches_item:
  assumes "\<not> starts_star ts"
  shows "branches (tok x @ ts) = map_option (add_item x) (branches ts)"
proof (cases "snd x")
  case True
  then show ?thesis by (cases x) (simp add: tok_def)
next
  case False
  then show ?thesis using assms by (cases x; cases ts rule: branches.cases) (auto simp: tok_def starts_star_def)
qed

lemma branches_ne: "branches ts = Some bs \<Longrightarrow> bs \<noteq> []"
  by (induction ts arbitrary: bs rule: branches.induct) (auto simp: add_item_def split: if_splits)

lemma branches_items:
  assumes "\<not> starts_star ts"
  shows "branches (concat (map tok xs) @ ts) = map_option (\<lambda>bs. (xs @ hd bs) # tl bs) (branches ts)"
proof (induction xs)
  case Nil
  show ?case using branches_ne by (cases "branches ts") auto
next
  case (Cons x xs)
  have "\<not> starts_star (concat (map tok xs) @ ts)" using assms by (cases xs) (auto simp: starts_star_def tok_def)
  then show ?case using Cons by (cases "branches ts") (simp_all add: branches_item add_item_def)
qed

text \<open>Entries, each with the bar that follows it.\<close>

definition bars :: "string list \<Rightarrow> string" where
  "bars g = concat (map (\<lambda>e. regexp_of e @ ''|'') g)"

lemma regcomp_group:
  "Option.bind (tokens (bars g @ regexp_of e @ '')'')) branches = Some (map items (g @ [e]))"
proof (induction g)
  case Nil
  have "branches (concat (map tok (items e)) @ [T_Close]) = Some [items e]"
    by (subst branches_items) (simp_all add: starts_star_def)
  then show ?case by (simp add: bars_def tokens_translate)
next
  case (Cons f g)
  obtain ts where ts: "tokens (bars g @ regexp_of e @ '')'') = Some ts" "branches ts = Some (map items (g @ [e]))"
    using Cons by (auto simp: bind_eq_Some_conv)
  have bar: "tokens (CHR ''|'' # s) = map_option (Cons T_Bar) (tokens s)" for s by simp
  have "tokens (bars (f # g) @ regexp_of e @ '')'') = Some (concat (map tok (items f)) @ T_Bar # ts)"
    by (simp add: bars_def tokens_translate bar del: tokens.simps, simp add: bars_def [symmetric] ts(1) [simplified])
  moreover have "branches (concat (map tok (items f)) @ T_Bar # ts) = Some (map items ((f # g) @ [e]))"
    using ts(2) by (subst branches_items) (simp_all add: starts_star_def)
  ultimately show ?case by simp
qed

lemma regexec_group:
  "regcomp (''^('' @ bars g @ regexp_of e @ '')'') \<noteq> None"
  "regexec (''^('' @ bars g @ regexp_of e @ '')'') path \<longleftrightarrow> (\<exists>f \<in> set (g @ [e]). glob_prefix f path)"
  using regcomp_group [of g e] by (auto simp: regcomp_def regexec_def matches_items)

section \<open>The buffer holds the expression\<close>

definition content :: "regbuf \<Rightarrow> string" where
  "content b = map (rb_chars b) [0 ..< rb_pos b]"

lemma emit_pos [simp]: "rb_pos (emit s b) = rb_pos b + length s"
  by (induction s arbitrary: b) auto

lemma emit_below: "i < rb_pos b \<Longrightarrow> rb_chars (emit s b) i = rb_chars b i"
  by (induction s arbitrary: b) auto

lemma emit_append: "emit (s @ t) b = emit t (emit s b)"
  by (induction s arbitrary: b) auto

lemma content_length [simp]: "length (content b) = rb_pos b"
  by (simp add: content_def)

lemma content_emit: "content (emit s b) = content b @ s"
proof (induction s arbitrary: b)
  case (Cons c s)
  have "content (b\<lparr>rb_chars := (rb_chars b)(rb_pos b := c), rb_pos := Suc (rb_pos b)\<rparr>) = content b @ [c]"
    by (simp add: content_def)
  then show ?case by (simp add: Cons)
qed simp

lemma content_back: "p \<le> rb_pos b \<Longrightarrow> content ((emit s b)\<lparr>rb_pos := p\<rparr>) = take p (content b)"
  by (auto simp: content_def emit_below take_map intro!: map_cong)

lemma copy_entry_emits: "\<exists>s. snd (copy_entry m e b) = emit s b"
proof (induction m e b rule: copy_entry.induct)
  case (1 m b)
  show ?case by (intro exI [of _ "[]"]) simp
next
  case (2 m c cs b)
  show ?case
  proof (cases "rb_pos b < m")
    case True
    with 2 obtain s where "snd (copy_entry m (snd (translate_char c cs)) (emit (fst (translate_char c cs)) b))
        = emit s (emit (fst (translate_char c cs)) b)" by auto
    then show ?thesis using True by (intro exI [of _ "fst (translate_char c cs) @ s"]) (simp add: emit_append)
  qed (use emit.simps(1) in \<open>auto intro: exI [of _ "[]"]\<close>)
qed

lemma copy_entry_done: "fst (copy_entry m e b) = [] \<Longrightarrow> snd (copy_entry m e b) = emit (regexp_of e) b"
  by (induction m e b rule: copy_entry.induct) (auto simp: emit_append split: if_splits)

lemma copy_entry_fits: "rb_pos b + length (regexp_of e) < m \<Longrightarrow> fst (copy_entry m e b) = []"
  by (induction m e b rule: copy_entry.induct) auto

lemma translate_length: "length e \<le> length (regexp_of e)"
proof (induction e rule: regexp_of.induct)
  case (2 c cs)
  have "Suc (length cs) \<le> length (fst (translate_char c cs)) + length (snd (translate_char c cs))"
    by (cases cs) (auto simp: translate_char_def)
  then show ?case using 2 by simp
qed simp

lemma translate_no_nul: "CHR 0x00 \<notin> set e \<Longrightarrow> CHR 0x00 \<notin> set (regexp_of e)"
proof (induction e rule: regexp_of.induct)
  case (2 c cs)
  have "CHR 0x00 \<notin> set (fst (translate_char c cs))" "set (snd (translate_char c cs)) \<subseteq> set cs"
    using 2(2) by (auto simp: translate_char_def dest: list.set_sel(2) [rotated])
  then show ?case using 2 by auto
qed simp

lemma close_regexp_string:
  assumes "p \<le> rb_pos b" and "CHR 0x00 \<notin> set (take p (content b))"
  shows "c_string (close_regexp p (emit s b)) = take p (content b) @ '')''"
proof -
  have "content (close_regexp p (emit s b)) = (take p (content b) @ '')'') @ [CHR 0x00]"
    using assms(1) by (simp only: close_regexp_def content_emit content_back) simp
  then have "c_string (close_regexp p (emit s b)) = takeWhile (\<lambda>c. c \<noteq> CHR 0x00) (take p (content b) @ '')'' @ [CHR 0x00])"
    by (simp add: c_string_def content_def)
  then show ?thesis using assms(2) by (simp only:) (subst takeWhile_append2, auto)
qed

lemma close_regexp_start:
  assumes "2 \<le> p" "p \<le> rb_pos b"
  shows "content ((close_regexp p (emit s b))\<lparr>rb_pos := 2\<rparr>) = take 2 (content b)"
proof -
  have "content ((close_regexp p (emit s b))\<lparr>rb_pos := 2\<rparr>) = take 2 (content ((emit s b)\<lparr>rb_pos := p\<rparr>))"
    unfolding close_regexp_def using assms by (subst content_back) simp_all
  also have "\<dots> = take 2 (take p (content b))" using assms by (simp add: content_back)
  finally show ?thesis using assms by (simp add: min_def)
qed

section \<open>The loop\<close>

definition fits :: "string \<Rightarrow> bool" where
  "fits e \<longleftrightarrow> 2 + length (regexp_of e) < buffer_end \<and> CHR 0x00 \<notin> set e"

lemma bars_snoc: "bars (g @ [e]) = bars g @ regexp_of e @ ''|''"
  by (simp add: bars_def)

lemma bars_no_nul: "\<forall>e \<in> set g. CHR 0x00 \<notin> set e \<Longrightarrow> CHR 0x00 \<notin> set (bars g)"
  using translate_no_nul by (auto simp: bars_def)

text \<open>The entries \<open>g\<close> are in the buffer, the entries from \<open>n\<close> on are still to come.\<close>

lemma update_regexp_end: "length es \<le> n \<Longrightarrow> update_regexp v es n b bt res = Some (Inr res)"
  by (subst update_regexp.simps) simp

lemma update_regexp_next:
  assumes "n < length es - 1"
    and "(if rb_pos b + length (es ! n) < buffer_end then copy_entry buffer_end (es ! n) b else (es ! n, b)) = ([], b1)"
  shows "update_regexp v es n b bt res = update_regexp v es (Suc n) (emit ''|'' b1) (Some (rb_pos b1)) res"
proof -
  have "\<not> length es \<le> n" using assms(1) by simp
  then show ?thesis using assms by (subst update_regexp.simps) (simp del: emit.simps)
qed

lemma update_regexp_ok:
  assumes fit: "\<forall>e \<in> set es. fits e"
  shows "take n es = h @ g \<Longrightarrow> n \<le> length es \<Longrightarrow> (n = length es \<Longrightarrow> g = []) \<Longrightarrow> content b = ''^('' @ bars g
    \<Longrightarrow> (g \<noteq> [] \<Longrightarrow> bt = Some (rb_pos b - 1))
    \<Longrightarrow> \<exists>rs. update_regexp v es n b bt res = Some (Inr (res @ rs))
      \<and> (\<forall>path. (\<exists>re \<in> set rs. regexec re path) \<longleftrightarrow> (\<exists>e \<in> set (g @ drop n es). glob_prefix e path))"
proof (induction "2 * (length es - n) + (if g = [] then 0 else 1)" arbitrary: n h g b bt res rule: less_induct)
  case less
  show ?case
  proof (cases "n = length es")
    case True
    then show ?thesis using less.prems(3) by (subst update_regexp.simps) (auto intro: exI [of _ "[]"])
  next
    case False
    then have n: "n < length es" using less.prems(2) by simp
    let ?e = "es ! n"
    have fe: "fits ?e" using fit n by simp
    have g: "set g \<subseteq> set es" using less.prems(1) by (metis Un_iff set_append set_take_subset subset_iff)
    then have nul: "CHR 0x00 \<notin> set (content b)" using less.prems(4) fit bars_no_nul [of g] by (auto simp: fits_def)
    have nul_e: "CHR 0x00 \<notin> set (regexp_of ?e)" using fe translate_no_nul by (simp add: fits_def)
    obtain rest b1 where c: "(if rb_pos b + length ?e < buffer_end then copy_entry buffer_end ?e b else (?e, b)) = (rest, b1)" by fastforce
    have drop: "drop n es = ?e # drop (Suc n) es" using n by (simp add: Cons_nth_drop_Suc)
    have e: "emit [] b1 = b1" by simp
    show ?thesis
    proof (cases "rest = []")
      case True
      have b1: "b1 = emit (regexp_of ?e) b"
        using c True copy_entry_done [of buffer_end ?e b] by (auto split: if_splits)
      have cb1: "content b1 = ''^('' @ bars g @ regexp_of ?e" by (simp add: b1 content_emit less.prems(4))
      show ?thesis
      proof (cases "n = length es - 1")
        case False
        have "update_regexp v es n b bt res = update_regexp v es (Suc n) (emit ''|'' b1) (Some (rb_pos b1)) res"
          by (rule update_regexp_next) (use n c True False in auto)
        moreover have "\<exists>rs. update_regexp v es (Suc n) (emit ''|'' b1) (Some (rb_pos b1)) res = Some (Inr (res @ rs))
          \<and> (\<forall>path. (\<exists>re \<in> set rs. regexec re path) \<longleftrightarrow> (\<exists>e \<in> set ((g @ [?e]) @ drop (Suc n) es). glob_prefix e path))"
          by (rule less.hyps [where h = h])
            (use n False less.prems(1) in \<open>simp_all add: take_Suc_conv_app_nth content_emit cb1 bars_snoc [simplified] del: emit.simps\<close>)
        ultimately show ?thesis by (simp add: drop)
      next
        case last: True
        let ?b2 = "close_regexp (rb_pos b1) b1"
        have whole: "take (rb_pos b1) (content b1) = content b1" by (simp add: take_all)
        have re: "c_string ?b2 = ''^('' @ bars g @ regexp_of ?e @ '')''"
          using close_regexp_string [of "rb_pos b1" b1 "[]", unfolded whole] nul nul_e cb1 less.prems(4) by simp
        have rc: "\<exists>y. regcomp (c_string ?b2) = Some y" using regexec_group(1) [of g ?e] by (simp add: re)
        have last': "(n \<noteq> length es - 1) = False" using last by simp
        have "update_regexp v es n b bt res = update_regexp v es (Suc n) (?b2\<lparr>rb_pos := 2\<rparr>) bt (res @ [c_string ?b2])"
          using n c True last' rc by (subst update_regexp.simps) (auto simp: Let_def)
        also have "\<dots> = Some (Inr (res @ [c_string ?b2]))" by (rule update_regexp_end) (use last n in simp)
        finally have u: "update_regexp v es n b bt res = Some (Inr (res @ [c_string ?b2]))" .
        have d1: "drop n es = [?e]" using drop last n by simp
        show ?thesis
          using regexec_group(2) [of g ?e] u by (intro exI [of _ "[c_string ?b2]"]) (auto simp: re d1)
      qed
    next
      case False
      have ne: "g \<noteq> []"
      proof
        assume "g = []"
        then have "rb_pos b = 2" using arg_cong [OF less.prems(4), of length] by (simp add: bars_def)
        then show False using c False fe copy_entry_fits [of b ?e buffer_end] translate_length [of ?e]
          by (auto simp: fits_def split: if_splits)
      qed
      then obtain g0 e0 where g0: "g = g0 @ [e0]" by (metis append_butlast_last_id)
      let ?p = "rb_pos b - 1"
      have "\<exists>s. b1 = emit s b"
      proof (cases "rb_pos b + length ?e < buffer_end")
        case True
        then show ?thesis using c copy_entry_emits [of buffer_end ?e b] by simp
      next
        case False
        then show ?thesis using c by (intro exI [of _ "[]"]) simp
      qed
      then obtain s where b1: "b1 = emit s b" ..
      let ?b2 = "close_regexp ?p b1"
      have cb: "content b = (''^('' @ bars g0 @ regexp_of e0) @ ''|''" using less.prems(4) by (simp add: g0 bars_snoc)
      then have len: "?p = length (''^('' @ bars g0 @ regexp_of e0)" by (metis content_length diff_Suc_1 length_append_singleton)
      have tk: "take ?p (content b) = ''^('' @ bars g0 @ regexp_of e0" unfolding len cb by simp
      have p: "2 \<le> ?p" "?p \<le> rb_pos b" by (subst len, simp, simp)
      have re: "c_string ?b2 = ''^('' @ bars g0 @ regexp_of e0 @ '')''"
        using close_regexp_string [OF p(2), of s, unfolded tk] nul unfolding b1 cb by simp
      have st: "content (?b2\<lparr>rb_pos := 2\<rparr>) = ''^('' @ bars []"
        unfolding b1 close_regexp_start [OF p] by (simp add: less.prems(4) bars_def)
      have rc: "\<exists>y. regcomp (c_string ?b2) = Some y" unfolding re using regexec_group(1) [of g0 e0] by simp
      have "update_regexp v es n b bt res = update_regexp v es n (?b2\<lparr>rb_pos := 2\<rparr>) bt (res @ [c_string ?b2])"
        using n c False rc less.prems(5) [OF ne] by (subst update_regexp.simps) (auto simp: Let_def simp del: One_nat_def)
      moreover have "\<exists>rs. update_regexp v es n (?b2\<lparr>rb_pos := 2\<rparr>) bt (res @ [c_string ?b2]) = Some (Inr ((res @ [c_string ?b2]) @ rs))
          \<and> (\<forall>path. (\<exists>re \<in> set rs. regexec re path) \<longleftrightarrow> (\<exists>e \<in> set ([] @ drop n es). glob_prefix e path))"
        by (rule less.hyps [where h = "h @ g"]) (use ne less.prems(1,2) st in simp_all)
      ultimately obtain rs where "update_regexp v es n b bt res = Some (Inr (res @ c_string ?b2 # rs))"
        "\<forall>path. (\<exists>re \<in> set rs. regexec re path) \<longleftrightarrow> (\<exists>e \<in> set (drop n es). glob_prefix e path)" by auto
      then show ?thesis using regexec_group(2) [of g0 e0] unfolding re
        by (intro exI [of _ "(''^('' @ bars g0 @ regexp_of e0 @ '')'') # rs"]) (auto simp: g0)
    qed
  qed
qed

text \<open>An entry whose expression is longer than the buffer is never copied to its end.\<close>

lemma translate_char_length: "length (fst (translate_char c cs)) \<le> 5"
  by (simp add: translate_char_def)

lemma copy_entry_overflow: "m + 5 \<le> rb_pos b + length (regexp_of e) \<Longrightarrow> rb_pos b < m + 5 \<Longrightarrow> fst (copy_entry m e b) \<noteq> []"
proof (induction m e b rule: copy_entry.induct)
  case (2 m c cs b)
  then show ?case using translate_char_length [of c cs] by auto
qed simp

definition too_long :: "string \<Rightarrow> bool" where
  "too_long e \<longleftrightarrow> buffer_end + 5 \<le> length (regexp_of e)"

lemma too_long_rest:
  assumes "too_long e" and "(if rb_pos b + length e < buffer_end then copy_entry buffer_end e b else (e, b)) = (rest, b1)"
  shows "rest \<noteq> []"
proof (cases "rb_pos b + length e < buffer_end")
  case True
  then show ?thesis using assms copy_entry_overflow [of buffer_end b e] by (auto simp: too_long_def)
next
  case False
  have "e \<noteq> []" using assms(1) by (auto simp: too_long_def)
  then show ?thesis using assms(2) False by auto
qed

lemma if_same: "x = y \<Longrightarrow> (if b then x else y) = y"
  by simp

lemma update_regexp_stuck:
  assumes "update_regexp v es n b bt res = Some r"
  shows "v < 1 \<Longrightarrow> bt \<noteq> None \<Longrightarrow> n \<le> k \<Longrightarrow> k < length es \<Longrightarrow> too_long (es ! k) \<Longrightarrow> False"
  using assms
proof (induction v es n b bt res r rule: update_regexp.raw_induct [rotated, consumes 1, case_names 1])
  case (1 f v es n b bt res r)
  have q: "zend_accel_error v ACCEL_LOG_ERROR = None" using 1(3) by (simp add: zend_accel_error_def)
  obtain rest b1 where c: "(if rb_pos b + length (es ! n) < buffer_end then copy_entry buffer_end (es ! n) b else (es ! n, b)) = (rest, b1)"
    by fastforce
  have k: "n = k \<Longrightarrow> rest \<noteq> []" using too_long_rest [OF _ c] 1(7) by blast
  have n: "\<not> length es \<le> n" "n \<noteq> k \<Longrightarrow> n \<noteq> length es - 1" using 1(5,6) by auto
  show ?case
  proof (cases "rest = []")
    case True
    then have nk: "n \<noteq> k" using k by blast
    have "f v es (Suc n) (emit ''|'' b1) (Some (rb_pos b1)) res = Some r"
      using 1(2) c True n(1) n(2) [OF nk] by (simp del: emit.simps)
    moreover have "Suc n \<le> k" using nk 1(5) by simp
    ultimately show ?thesis using 1(1,3,6,7) by blast
  next
    case False
    then have "\<exists>b2 re. f v es n b2 bt (res @ [re]) = Some r"
      using 1(2,4) c n(1) by (auto simp: Let_def q [THEN if_same])
    then show ?thesis using 1(1,3-7) by blast
  qed
qed

section \<open>Properties\<close>

text \<open>The entries that the lines of a file add.\<close>

definition lines_entries :: "(string \<Rightarrow> string) \<Rightarrow> string list \<Rightarrow> string list" where
  "lines_entries expand ls = concat (map (\<lambda>l. case parse_line l of Path p \<Rightarrow> [expand p] | _ \<Rightarrow> []) ls)"

lemma load_lines_ok:
  "\<forall>l \<in> set ls. parse_line l \<noteq> Negative_Length \<Longrightarrow>
     \<exists>B'. load_lines expand ls B = Inr B' \<and> bl_entries B' = bl_entries B @ lines_entries expand ls"
proof (induction ls arbitrary: B)
  case Nil
  show ?case by (simp add: lines_entries_def)
next
  case (Cons l ls)
  have "bl_entries (zend_accel_blacklist_allocate B) = bl_entries B" by (simp add: zend_accel_blacklist_allocate_def)
  with Cons Cons.IH [of "(zend_accel_blacklist_allocate B)\<lparr>bl_entries := bl_entries B @ [expand p]\<rparr>" for p] show ?case
    by (cases "parse_line l") (auto simp: lines_entries_def)
qed

lemma update_blacklist_ok:
  assumes fit: "\<forall>e \<in> set (bl_entries B). fits e" and ne: "bl_entries B \<noteq> []"
  shows "\<exists>B'. zend_accel_blacklist_update_regexp v B = Some (Inr B') \<and> bl_entries B' = bl_entries B
    \<and> (\<forall>path. zend_accel_blacklist_is_blacklisted B' path \<longleftrightarrow> (\<exists>e \<in> set (bl_entries B). glob_prefix e path))"
proof -
  let ?b = "emit ''^('' \<lparr>rb_chars = (\<lambda>_. CHR 0x00), rb_pos = 0\<rparr>"
  have "content ?b = ''^('' @ bars []" by (simp only: content_emit) (simp add: content_def bars_def)
  from update_regexp_ok [OF fit, of 0 "[]" "[]" ?b None v "[]"] this ne
  obtain rs where "update_regexp v (bl_entries B) 0 ?b None [] = Some (Inr rs)"
    "\<forall>path. (\<exists>re \<in> set rs. regexec re path) \<longleftrightarrow> (\<exists>e \<in> set (bl_entries B). glob_prefix e path)" by auto
  then show ?thesis using ne
    by (simp add: zend_accel_blacklist_update_regexp_def zend_accel_blacklist_is_blacklisted_def)
qed

text \<open>C25. Loading a file whose lines have proper quotes and whose entries fit the buffer: afterwards
  exactly those paths are blacklisted that start with a match of one of the entries, of this file
  or of the files before it.\<close>

theorem blacklist_correct:
  assumes lines: "\<forall>l \<in> set ls. parse_line l \<noteq> Negative_Length"
    and fit: "\<forall>e \<in> set (bl_entries B @ lines_entries expand ls). fits e"
    and ne: "bl_entries B @ lines_entries expand ls \<noteq> []"
  shows "\<exists>B'. zend_accel_blacklist_loadone v expand (Some ls) B = Some (Inr B')
    \<and> bl_entries B' = bl_entries B @ lines_entries expand ls
    \<and> (\<forall>path. zend_accel_blacklist_is_blacklisted B' path
         \<longleftrightarrow> (\<exists>e \<in> set (bl_entries B @ lines_entries expand ls). glob_prefix e path))"
proof -
  obtain B1 where B1: "load_lines expand ls B = Inr B1" "bl_entries B1 = bl_entries B @ lines_entries expand ls"
    using load_lines_ok [OF lines] by blast
  show ?thesis
    using update_blacklist_ok [of B1 v] fit ne by (simp add: zend_accel_blacklist_loadone_def B1)
qed

text \<open>C26. With error messages not logged (a verbosity below 1), a list whose first entry fits the buffer
  and that has, anywhere behind it, an entry whose expression is longer than the buffer: the position kept
  from an earlier expression is taken for the end of that entry again and again, and the routine
  makes expressions without end.\<close>

theorem blacklist_too_long_loops:
  assumes "v < 1" and es: "bl_entries B = e # xs" and e: "fits e" and f: "f \<in> set xs" "too_long f"
  shows "zend_accel_blacklist_update_regexp v B = None"
proof -
  let ?es = "e # xs"
  let ?b = "emit ''^('' \<lparr>rb_chars = (\<lambda>_. CHR 0x00), rb_pos = 0\<rparr>"
  have c: "(if rb_pos ?b + length e < buffer_end then copy_entry buffer_end e ?b else (e, ?b)) = ([], emit (regexp_of e) ?b)"
    using e copy_entry_fits [of ?b e buffer_end] copy_entry_done [of buffer_end e ?b] translate_length [of e]
    by (auto simp: fits_def prod_eq_iff simp del: emit.simps)
  obtain k where k: "k < length xs" "xs ! k = f" using f(1) by (auto simp: in_set_conv_nth)
  have z: "0 < length ?es - 1" using k(1) by auto
  have "update_regexp v ?es 0 ?b None [] = update_regexp v ?es 1 (emit ''|'' (emit (regexp_of e) ?b)) (Some (rb_pos (emit (regexp_of e) ?b))) []"
    unfolding One_nat_def by (rule update_regexp_next [OF z]) (simp only: nth_Cons_0 c)
  moreover have "update_regexp v ?es 1 b (Some p) [] = None" for b p
  proof (rule ccontr)
    assume "update_regexp v ?es 1 b (Some p) [] \<noteq> None"
    then obtain r where "update_regexp v ?es 1 b (Some p) [] = Some r" by blast
    from update_regexp_stuck [OF this, of "Suc k"] show False using assms(1) f(2) k by simp
  qed
  ultimately show ?thesis by (simp add: zend_accel_blacklist_update_regexp_def es)
qed

text \<open>A line that is a single quote makes the length of the path negative.\<close>

lemma lone_quote: "parse_line [CHR 0x22, CHR 0x0A] = Negative_Length"
  by (simp add: parse_line_def strip_end_def Let_def)

section \<open>A concrete blacklist\<close>

definition demo_lines :: "string list" where
  "demo_lines = [CHR '';'' # ''no'', ''/a/*.php'' @ [CHR 0x0A], CHR 0x22 # ''/b?'' @ [CHR 0x22, CHR 0x0A], [CHR 0x0A]]"

lemma demo_entries: "lines_entries (\<lambda>p. p) demo_lines = [''/a/*.php'', ''/b?'']"
  by (simp add: lines_entries_def demo_lines_def parse_line_def strip_end_def Let_def)

lemma blacklist_correct_witness:
  "\<exists>B. zend_accel_blacklist_loadone 1 (\<lambda>p. p) (Some demo_lines) zend_accel_blacklist_init = Some (Inr B)
    \<and> zend_accel_blacklist_is_blacklisted B ''/a/x.php'' \<and> \<not> zend_accel_blacklist_is_blacklisted B ''/a/x/y.php''"
proof -
  have "\<forall>l \<in> set demo_lines. parse_line l \<noteq> Negative_Length"
    by (simp add: demo_lines_def parse_line_def strip_end_def Let_def)
  moreover have "\<forall>e \<in> set [''/a/*.php'', ''/b?'']. fits e"
    by (simp add: fits_def buffer_end_def buffer_size_def translate_char_def special_def)
  moreover have "glob_prefix ''/a/*.php'' ''/a/x.php''" "\<not> glob_prefix ''/a/*.php'' ''/a/x/y.php''"
    "\<not> glob_prefix ''/b?'' ''/a/x/y.php''" by code_simp+
  ultimately show ?thesis
    using blacklist_correct [of demo_lines zend_accel_blacklist_init "\<lambda>p. p" 1]
    by (auto simp: demo_entries zend_accel_blacklist_init_def simp del: glob_prefix.simps)
qed

lemma demo_marks: "regexp_of (replicate n (CHR ''?'')) = concat (replicate n ''[^/]'')"
  by (induction n) (simp_all add: translate_char_def)

lemma blacklist_too_long_loops_witness:
  "zend_accel_blacklist_update_regexp 0
     \<lparr>bl_entries = [''/a'', ''/b*'', replicate 4000 (CHR ''?''), ''/c''], bl_size = 32, regexp_list = []\<rparr> = None"
proof (rule blacklist_too_long_loops)
  show "fits ''/a''" by (simp add: fits_def buffer_end_def buffer_size_def translate_char_def special_def)
  show "too_long (replicate 4000 (CHR ''?''))"
    by (simp add: too_long_def demo_marks length_concat sum_list_replicate buffer_end_def buffer_size_def)
  show "replicate 4000 (CHR ''?'') \<in> set [''/b*'', replicate 4000 (CHR ''?''), ''/c'']" by (simp only: list.set insert_iff simp_thms)
qed simp_all

end
