(* ===== verification/Hooks.thy ===== *)
theory Hooks
  imports Compile
begin

text \<open>
  The hooks that look a script up before \<open>persistent_compile_file\<close> is called for an
  \<open>include_once\<close> or the main script of a request (\<open>ZendAccelerator.c\<close>):
  \<open>persistent_zend_resolve_path\<close> finds the script and keeps it with the instruction it is for,
  and \<open>persistent_stream_open_function\<close> then does not open the file. The original functions are
  the parameters \<open>resolve_path\<close> and \<open>stream_open\<close> of the engine.
\<close>

definition current_opline :: "php \<Rightarrow> nat option" where
  "current_opline P = (case opline_ptr P of Some (Some (a, _)) \<Rightarrow> Some a | _ \<Rightarrow> None)"

text \<open>The hook is active, and it is called for an \<open>include_once\<close> or the main script.\<close>

definition hook_applies :: "php \<Rightarrow> bool \<Rightarrow> process \<Rightarrow> bool" where
  "hook_applies P translated W \<longleftrightarrow>
     cache_in_use (req P) (globals W) (shared W) \<and> \<not> interactive P \<and> \<not> restart_in_progress (shared W)
   \<and> (opline_ptr P = None \<and> translated \<or> once_opline P \<noteq> None)"

definition remember :: "nat option \<Rightarrow> nat option \<Rightarrow> process \<Rightarrow> process" where
  "remember opline s W = W\<lparr>globals := (globals W)\<lparr>cache_opline := opline, cache_persistent_script := s\<rparr>\<rparr>"

section \<open>Resolving a path\<close>

definition entry_by_path :: "cache_env \<Rightarrow> string \<Rightarrow> accel_shared_globals \<Rightarrow> (nat \<times> nat) option res" where
  "entry_by_path E p S =
     bind_res (ends (zend_accel_hash_find_entry (zend_inline_hash_func E) (scripts_hash S) (nul p) (length (nul p)))) (\<lambda>b.
       case b of
         None \<Rightarrow> Inr None
       | Some i \<Rightarrow> bind_res (script_found (he_data (hash_entries (scripts_hash S) ! i))) (\<lambda>s. Inr (map_option (Pair i) s)))"

text \<open>The last look-up, by the resolved path.\<close>

definition resolve_by_path ::
  "cache_env \<Rightarrow> php \<Rightarrow> string option \<Rightarrow> string option \<Rightarrow> process \<Rightarrow> (string option \<times> process) res" where
  "resolve_by_path E P key resolved_path W =
     (case resolved_path of
        None \<Rightarrow> Inr (None, remember None None W)
      | Some p \<Rightarrow> bind_res (entry_by_path E p (shared W)) (\<lambda>r.
          case r of
            None \<Rightarrow> Inr (Some p, remember None None W)
          | Some (i, a) \<Rightarrow>
              if ps_corrupted (scripts (shm W) a) then Inr (Some p, remember None None W)
              else bind_res (if key \<noteq> None \<and> \<not> revalidate_path (dirs E) then zend_accel_add_key E (the key) i (shared W)
                             else Inr (shared W)) (\<lambda>S.
                Inr (Some p, remember (if key \<noteq> None then current_opline P else None) (if key \<noteq> None then Some a else None)
                               (with_shared S W)))))"

text \<open>The look-up by key; the handle has only its name. A script that is found is remembered.\<close>

definition find_resolved :: "php \<Rightarrow> process \<Rightarrow> nat \<Rightarrow> string option \<times> process" where
  "find_resolved P W a = (Some (full_path (scripts (shm W) a)), remember (current_opline P) (Some a) W)"

definition resolve_with_key :: "cache_env \<Rightarrow> php \<Rightarrow> string \<Rightarrow> string option \<Rightarrow> process \<Rightarrow> (string option \<times> process) res" where
  "resolve_with_key E P name key W =
     bind_res (if revalidate_path (dirs E) \<or> key = None then Inr None else find_script_by E (the key) (shared W)) (\<lambda>s.
       case s of
         Some a \<Rightarrow> if ps_corrupted (scripts (shm W) a) then resolve_by_path E P key (resolve_path P name) W
                   else Inr (find_resolved P W a)
       | None \<Rightarrow> resolve_by_path E P key (resolve_path P name) W)"

definition resolve_by_key :: "cache_env \<Rightarrow> php \<Rightarrow> string \<Rightarrow> process \<Rightarrow> (string option \<times> process) res" where
  "resolve_by_key E P name W =
     bind_res (accel_make_persistent_key E (req P) ((path_handle name)\<lparr>opened_path := None\<rparr>) (globals W) (shared W)) (\<lambda>(key, G, S).
       resolve_with_key E P name key (with_shared S (W\<lparr>globals := G\<rparr>)))"

text \<open>A script found by its absolute name leaves its path in the key buffer.\<close>

definition resolve_entry :: "cache_env \<Rightarrow> php \<Rightarrow> string \<Rightarrow> (nat \<times> nat) option \<Rightarrow> process \<Rightarrow> (string option \<times> process) res" where
  "resolve_entry E P name r W =
     (case r of
        Some (i, a) \<Rightarrow>
          if ps_corrupted (scripts (shm W) a) then resolve_by_key E P name W
          else Inr (find_resolved P (W\<lparr>globals := (globals W)\<lparr>key_buffer := full_path (scripts (shm W) a)\<rparr>\<rparr>) a)
      | None \<Rightarrow> resolve_by_key E P name W)"

definition persistent_zend_resolve_path ::
  "cache_env \<Rightarrow> php \<Rightarrow> string \<Rightarrow> bool \<Rightarrow> process \<Rightarrow> (string option \<times> process) res" where
  "persistent_zend_resolve_path E P name translated W =
     (if \<not> hook_applies P translated W then Inr (resolve_path P name, remember None None W)
      else bind_res (if is_absolute_path (req P) name \<or> is_stream_path name then entry_by_path E name (shared W) else Inr None) (\<lambda>r.
        resolve_entry E P name r W))"

section \<open>Opening a stream\<close>

definition persistent_stream_open_function ::
  "cache_env \<Rightarrow> php \<Rightarrow> zend_file_handle \<Rightarrow> process \<Rightarrow> (zend_file_handle option \<times> process) res" where
  "persistent_stream_open_function E P fh W =
     (let G = globals W in
      if hook_applies P (fh_translated fh) W
         \<and> (opline_ptr P = None \<and> cache_opline G = None \<and> cache_persistent_script G \<noteq> None
            \<or> opline_ptr P \<noteq> None \<and> cache_opline G = current_opline P)
      then (case cache_persistent_script G of
              None \<Rightarrow> Inl Null_Deref
            | Some a \<Rightarrow> Inr (Some (fh\<lparr>opened_path := Some (full_path (scripts (shm W) a)), fh_type := ZEND_HANDLE_FILENAME\<rparr>), W))
      else (case stream_open P fh (G\<lparr>cache_opline := None, cache_persistent_script := None\<rparr>) (shm W) of
              (r, G', C) \<Rightarrow> Inr (r, W\<lparr>globals := G', shm := C\<rparr>)))"

section \<open>What the hooks keep\<close>

text \<open>The process remembers a script: one that was not dropped when it was found.\<close>

definition remembers :: "php \<Rightarrow> process \<Rightarrow> nat \<Rightarrow> bool" where
  "remembers P W a \<longleftrightarrow> cache_persistent_script (globals W) = Some a \<and> cache_opline (globals W) = current_opline P
     \<and> \<not> ps_corrupted (scripts (shm W) a)"

lemma script_found_Inr: "script_found d = Inr (Some a) \<longleftrightarrow> d = Obj a"
  by (auto simp: script_found_def split: hdata.splits)

lemma add_key_frame:
  assumes "zend_accel_add_key E k i S = Inr S'"
  shows "restart_in_progress S' = restart_in_progress S"
  using assms
  by (auto simp: zend_accel_add_key_def bind_res_Inr exhausted_def zend_accel_schedule_restart_if_necessary_def
      zend_accel_schedule_restart_def split: if_splits prod.splits option.splits)

lemma add_include_path_frame:
  assumes "add_include_path E p S = Inr (k, S')"
  shows "restart_in_progress S' = restart_in_progress S"
  using assms
  by (auto simp: add_include_path_def bind_res_Inr Let_def zend_accel_schedule_restart_if_necessary_def
      zend_accel_schedule_restart_def split: if_splits prod.splits option.splits)

lemma include_part_frame:
  assumes "include_part E Q G S = Inr (inc, G', S')"
  shows "restart_in_progress S' = restart_in_progress S"
  using assms by (auto simp: include_part_def bind_res_Inr dest: add_include_path_frame split: if_splits option.splits)

lemma make_key_frame:
  assumes "accel_make_persistent_key E Q fh G S = Inr (k, G', S')"
  shows "restart_in_progress S' = restart_in_progress S"
  using assms
  by (auto simp: accel_make_persistent_key_def write_key_def bind_res_Inr Let_def dest: include_part_frame
      split: if_splits prod.splits option.splits)

definition same_scripts :: "process \<Rightarrow> process \<Rightarrow> bool" where
  "same_scripts W W' \<longleftrightarrow> scripts (shm W') = scripts (shm W) \<and> restart_in_progress (shared W') = restart_in_progress (shared W)"

lemma resolve_by_path_remembers:
  assumes "resolve_by_path E P key rp W = Inr (r, W')" and "cache_persistent_script (globals W') = Some a"
  shows "remembers P W' a \<and> same_scripts W W'"
proof -
  obtain p where p: "rp = Some p" using assms by (cases rp) (auto simp: resolve_by_path_def remember_def)
  from assms(1) obtain x where x: "entry_by_path E p (shared W) = Inr x"
    and r1: "(case x of None \<Rightarrow> Inr (Some p, remember None None W)
          | Some (i, a) \<Rightarrow>
              if ps_corrupted (scripts (shm W) a) then Inr (Some p, remember None None W)
              else bind_res (if key \<noteq> None \<and> \<not> revalidate_path (dirs E) then zend_accel_add_key E (the key) i (shared W)
                             else Inr (shared W)) (\<lambda>S.
                Inr (Some p, remember (if key \<noteq> None then current_opline P else None) (if key \<noteq> None then Some a else None)
                               (with_shared S W)))) = (Inr (r, W') :: (string option \<times> process) res)"
    unfolding resolve_by_path_def p option.case by (rule bind_resE)
  obtain i b where x': "x = Some (i, b)" using r1 assms(2) by (cases x) (auto simp: remember_def)
  have ok: "\<not> ps_corrupted (scripts (shm W) b)" using r1 assms(2) x' by (auto simp: remember_def split: if_splits)
  obtain S where S: "(if key \<noteq> None \<and> \<not> revalidate_path (dirs E) then zend_accel_add_key E (the key) i (shared W) else Inr (shared W)) = Inr S"
    and W': "W' = remember (if key \<noteq> None then current_opline P else None) (if key \<noteq> None then Some b else None) (with_shared S W)"
    using r1 x' ok by (auto simp: bind_res_Inr)
  have "restart_in_progress S = restart_in_progress (shared W)" using S add_key_frame by (auto split: if_splits)
  then show ?thesis using W' assms(2) ok
    by (auto simp: remembers_def same_scripts_def remember_def with_shared_def split: if_splits)
qed

lemma same_scripts_trans: "same_scripts V W \<Longrightarrow> same_scripts U V \<Longrightarrow> same_scripts U W"
  by (simp add: same_scripts_def)

lemma resolve_with_key_remembers:
  assumes "resolve_with_key E P name key W = Inr (r, W')" and c: "cache_persistent_script (globals W') = Some a"
  shows "remembers P W' a \<and> same_scripts W W'"
proof -
  have path: "remembers P W' a \<and> same_scripts W W'" if "resolve_by_path E P key (resolve_path P name) W = Inr (r, W')"
    by (rule resolve_by_path_remembers [OF that c])
  obtain s where "(case s of
         Some a \<Rightarrow> if ps_corrupted (scripts (shm W) a) then resolve_by_path E P key (resolve_path P name) W
                   else Inr (find_resolved P W a)
       | None \<Rightarrow> resolve_by_path E P key (resolve_path P name) W) = (Inr (r, W') :: (string option \<times> process) res)"
    using assms(1) unfolding resolve_with_key_def by (rule bind_resE) (rule that)
  then show ?thesis
    using path c by (auto simp: remembers_def remember_def same_scripts_def find_resolved_def split: option.splits if_splits)
qed

lemma resolve_by_key_remembers:
  assumes "resolve_by_key E P name W = Inr (r, W')" and c: "cache_persistent_script (globals W') = Some a"
  shows "remembers P W' a \<and> same_scripts W W'"
proof -
  obtain key G S where k: "accel_make_persistent_key E (req P) ((path_handle name)\<lparr>opened_path := None\<rparr>) (globals W) (shared W) = Inr (key, G, S)"
    and r: "resolve_with_key E P name key (with_shared S (W\<lparr>globals := G\<rparr>)) = Inr (r, W')"
    using assms(1) by (auto simp: resolve_by_key_def bind_res_Inr)
  have "same_scripts W (with_shared S (W\<lparr>globals := G\<rparr>))"
    using make_key_frame [OF k] by (simp add: same_scripts_def with_shared_def)
  with resolve_with_key_remembers [OF r c] show ?thesis using same_scripts_trans by blast
qed

lemma hook_remembers:
  assumes "persistent_zend_resolve_path E P name translated W = Inr (r, W')" and c: "cache_persistent_script (globals W') = Some a"
  shows "hook_applies P translated W \<and> remembers P W' a \<and> same_scripts W W'"
proof -
  have h: "hook_applies P translated W"
    using assms by (auto simp: persistent_zend_resolve_path_def remember_def split: if_splits)
  then obtain x where x: "resolve_entry E P name x W = Inr (r, W')"
    using assms(1) by (auto simp: persistent_zend_resolve_path_def bind_res_Inr)
  have key: "remembers P W' a \<and> same_scripts W W'" if "resolve_by_key E P name W = Inr (r, W')"
    by (rule resolve_by_key_remembers [OF that c])
  show ?thesis
    using x h key c
    by (auto simp: resolve_entry_def find_resolved_def remembers_def remember_def same_scripts_def split: option.splits if_splits)
qed

lemma request_continues:
  assumes "cache_in_use (req P) (globals W) (shared W)" "\<not> interactive P" "\<not> restart_in_progress (shared W)"
    and "is_stream_path (filename fh) \<longrightarrow> is_cacheable_stream_path (filename fh)"
    and "find_script E P require fh (begin_request W) = Inr (Continue (s, fh'), begin_request W)"
  shows "persistent_compile_file E P require fh W = serve_script E P require fh' s (begin_request W)"
proof -
  have "accel_restart_is_active P (shared W) = (False, shared W)" using assms(3) by (simp add: accel_restart_is_active_def)
  moreover have "with_shared (shared W) W = W" by (simp add: with_shared_def)
  ultimately show ?thesis using assms(1,2,4,5)
    by (simp only: persistent_compile_file_def Let_def begin_request_def [symmetric] prod.case if_False
        not_True_eq_False not_False_eq_True simp_thms bind_res_simps step.case) (auto split: if_split)
qed

section \<open>Properties\<close>

text \<open>C27. A script that the resolve hook found is not dropped; the open hook then gives the path of the
  script without opening the file, and the request for it tests and serves that script without
  another look-up.\<close>

theorem resolve_then_compile:
  assumes found: "persistent_zend_resolve_path E P name (fh_translated fh) W = Inr (Some p, W')"
      "cache_persistent_script (globals W') = Some a"
    and use: "cache_in_use (req P) (globals W') (shared W')" and key: "key_buffer (globals W') \<noteq> ''''"
    and fh: "is_stream_path (filename fh) \<longrightarrow> is_cacheable_stream_path (filename fh)"
  shows "\<not> ps_corrupted (scripts (shm W') a) \<and> scripts (shm W') = scripts (shm W)
    \<and> persistent_stream_open_function E P fh W'
        = Inr (Some (fh\<lparr>opened_path := Some (full_path (scripts (shm W') a)), fh_type := ZEND_HANDLE_FILENAME\<rparr>), W')
    \<and> persistent_compile_file E P require fh W' = serve_script E P require fh (Some a) (begin_request W')"
proof -
  note R = hook_remembers [OF found]
  then have h: "hook_applies P (fh_translated fh) W'" using use by (auto simp: hook_applies_def same_scripts_def)
  then have nr: "\<not> restart_in_progress (shared W')" "\<not> interactive P"
    "opline_ptr P = None \<and> fh_translated fh \<or> once_opline P \<noteq> None" by (auto simp: hook_applies_def)
  have same: "opline_ptr P = None \<longrightarrow> current_opline P = None" "once_opline P \<noteq> None \<longrightarrow> opline_ptr P \<noteq> None \<and> current_opline P = once_opline P"
    by (auto simp: current_opline_def once_opline_def split: option.splits bool.splits)
  have fb: "found_before P fh (globals W')"
    using R nr(3) same by (auto simp: found_before_def remembers_def)
  have open_it: "persistent_stream_open_function E P fh W'
        = Inr (Some (fh\<lparr>opened_path := Some (full_path (scripts (shm W') a)), fh_type := ZEND_HANDLE_FILENAME\<rparr>), W')"
    using h R nr(3) same by (auto simp: persistent_stream_open_function_def remembers_def Let_def)
  have g: "globals (begin_request W') = (globals W')\<lparr>counted := True\<rparr> \<or> globals (begin_request W') = globals W'"
    by (simp add: begin_request_def)
  then have "found_before P fh (globals (begin_request W'))" "key_buffer (globals (begin_request W')) \<noteq> ''''"
    "cache_persistent_script (globals (begin_request W')) = Some a"
    using fb key found(2) by (auto simp: found_before_def)
  then have "find_script E P require fh (begin_request W') = Inr (Continue (Some a, fh), begin_request W')"
    by (simp add: find_script_def Let_def)
  then have "persistent_compile_file E P require fh W' = serve_script E P require fh (Some a) (begin_request W')"
    by (rule request_continues [OF use nr(2,1) fh])
  moreover have "\<not> ps_corrupted (scripts (shm W') a)" "scripts (shm W') = scripts (shm W)"
    using R by (auto simp: remembers_def same_scripts_def)
  ultimately show ?thesis using open_it by blast
qed

lemma entry_by_path_found:
  assumes "find_script_by E p S = Inr (Some a)"
  shows "\<exists>i. entry_by_path E p S = Inr (Some (i, a))"
  using assms
  by (auto simp: find_script_by_def entry_by_path_def ends_def zend_accel_hash_find_def zend_accel_hash_find_entry_def
      script_found_def Let_def split: option.splits hdata.splits if_splits)

lemma resolve_then_compile_witness:
  "\<exists>h p W'. persistent_zend_resolve_path (demo_every 2) demo_php ''/f'' True (demo_proc h) = Inr (Some p, W')
    \<and> persistent_compile_file (demo_every 2) demo_php False ((demo_file ''/f'')\<lparr>fh_translated := True\<rparr>) W'
      = serve_script (demo_every 2) demo_php False ((demo_file ''/f'')\<lparr>fh_translated := True\<rparr>) (Some 7) (begin_request W')"
proof -
  obtain h where h: "demo_lookup h" using demo_lookup_ex ..
  let ?W = "demo_proc h" and ?fh = "(demo_file ''/f'')\<lparr>fh_translated := True\<rparr>"
  let ?W' = "remember None (Some 7) (?W\<lparr>globals := (globals ?W)\<lparr>key_buffer := full_path (scripts (shm ?W) 7)\<rparr>\<rparr>)"
  have "find_script_by (demo_every 2) ''/f'' (shared ?W) = Inr (Some 7)"
    using h by (simp add: find_script_by_def demo_lookup_def demo_proc_def script_found_def)
  then obtain i where i: "entry_by_path (demo_every 2) ''/f'' (shared ?W) = Inr (Some (i, 7))" using entry_by_path_found by blast
  have use: "cache_in_use (req demo_php) (globals ?W) (shared ?W)" "hook_applies demo_php True ?W"
    by (simp_all add: hook_applies_def cache_in_use_def demo_php_def demo_request_def demo_proc_def demo_process_def demo_shared_def)
  have n: "\<not> ps_corrupted (scripts (shm ?W) 7)" "full_path (scripts (shm ?W) 7) \<noteq> ''''"
    by (simp_all add: demo_proc_def demo_cache_def demo_script2_def demo_script_def full_path_def)
  have "current_opline demo_php = None" "is_absolute_path (req demo_php) ''/f''"
    by (simp_all add: current_opline_def demo_php_def demo_request_def)
  then have r: "persistent_zend_resolve_path (demo_every 2) demo_php ''/f'' (fh_translated ?fh) ?W
      = Inr (Some (full_path (scripts (shm ?W) 7)), ?W')"
    using use(2) i n(1)
    by (simp add: persistent_zend_resolve_path_def resolve_entry_def find_resolved_def remember_def demo_file_def)
  have "persistent_compile_file (demo_every 2) demo_php False ?fh ?W' = serve_script (demo_every 2) demo_php False ?fh (Some 7) (begin_request ?W')"
    using resolve_then_compile [OF r, of 7 False] use(1) n(2)
    by (simp add: remember_def cache_in_use_def is_stream_path_def scheme_char_def isalnum_def demo_file_def)
  with r show ?thesis by fastforce
qed

end
