(* ===== verification/Temp_Vars.thy ===== *)
theory Temp_Vars
  imports Op_Array "HOL-Library.Monad_Syntax"
begin

text \<open>
  Pass 9 of the optimizer, \<open>optimize_temporary_variables\<close> of
  \<open>Optimizer/optimize_temp_vars_5.c\<close>: a register allocator. It goes backwards over the code,
  gives a temporary a slot at its last use and frees the slot at its first definition, so that
  temporaries that are not in use at the same time share slots. \<open>None\<close> is an access outside of
  one of the arrays.

  The section on correctness gives a machine with temporaries and shows that code whose
  temporaries live inside the stretch from their first definition to their last use behaves
  the same afterwards.
\<close>

section \<open>Variable numbers\<close>

text \<open>The addresses that the engine's macros \<open>EX_TMP_VAR_NUM\<close> and \<open>EX_TMP_VAR\<close> give for a
  null pointer, and the size of a temporary variable.\<close>

record var_enc =
  ex_tmp_var_num :: "nat \<Rightarrow> int"
  ex_tmp_var :: "nat \<Rightarrow> int"
  temp_variable_size :: int

definition VAR_NUM :: "var_enc \<Rightarrow> nat \<Rightarrow> nat" where
  "VAR_NUM E v = nat (((ex_tmp_var_num E 0 - ex_tmp_var E v) div temp_variable_size E) mod 2 ^ 32)"

definition NUM_VAR :: "var_enc \<Rightarrow> nat \<Rightarrow> nat" where
  "NUM_VAR E i = nat (ex_tmp_var_num E i mod 2 ^ 32)"

definition is_temp :: "znode \<Rightarrow> bool" where
  "is_temp z \<longleftrightarrow> op_ty z = IS_VAR \<or> op_ty z = IS_TMP_VAR"

definition declares_inherited :: "zend_op \<Rightarrow> bool" where
  "declares_inherited o1 \<longleftrightarrow> opcode o1 = ZEND_DECLARE_INHERITED_CLASS \<or> opcode o1 = ZEND_DECLARE_INHERITED_CLASS_DELAYED"

section \<open>The slots\<close>

record regs =
  taken_T :: "bool list"
  valid_T :: "bool list"
  map_T :: "nat list"
  max_T :: int

text \<open>\<open>start_of_T\<close>: the first instruction with the temporary as its result.\<close>

fun find_starts :: "var_enc \<Rightarrow> zend_op list \<Rightarrow> nat \<Rightarrow> nat option list \<Rightarrow> nat option list option" where
  "find_starts E ops 0 starts = Some starts"
| "find_starts E ops (Suc k) starts =
     (if is_temp (result (ops ! k))
      then (let v = VAR_NUM E (num (result (ops ! k))) in
            if v < length starts then find_starts E ops k (starts[v := Some k]) else None)
      else find_starts E ops k starts)"

definition GET_AVAILABLE_T :: "regs \<Rightarrow> (nat \<times> regs) option" where
  "GET_AVAILABLE_T R =
     (let i = length (takeWhile id (taken_T R)) in
      if i < length (taken_T R)
      then Some (i, R\<lparr>taken_T := (taken_T R)[i := True], max_T := (if int i > max_T R then int i else max_T R)\<rparr>)
      else None)"

definition map_to :: "nat \<Rightarrow> nat \<Rightarrow> regs \<Rightarrow> regs" where
  "map_to v i R = R\<lparr>map_T := (map_T R)[v := i], valid_T := (valid_T R)[v := True]\<rparr>"

definition release :: "nat \<Rightarrow> regs \<Rightarrow> regs" where
  "release i R = R\<lparr>taken_T := (taken_T R)[i := False]\<rparr>"

text \<open>The slot of a temporary that is used, a new one at its last use.\<close>

definition use_T :: "nat \<Rightarrow> regs \<Rightarrow> (nat \<times> regs) option" where
  "use_T v R =
     (if length (valid_T R) \<le> v then None
      else if valid_T R ! v then Some (map_T R ! v, R)
      else do { (i, R1) \<leftarrow> GET_AVAILABLE_T R; Some (i, map_to v i R1) })"

definition rename_op1 :: "var_enc \<Rightarrow> zend_op \<Rightarrow> regs \<Rightarrow> (zend_op \<times> regs) option" where
  "rename_op1 E o1 R =
     (if is_temp (op1 o1)
      then do { (i, R1) \<leftarrow> use_T (VAR_NUM E (num (op1 o1))) R; Some (o1\<lparr>op1 := (op1 o1)\<lparr>num := NUM_VAR E i\<rparr>\<rparr>, R1) }
      else Some (o1, R))"

definition rename_op2 :: "var_enc \<Rightarrow> zend_op \<Rightarrow> regs \<Rightarrow> (zend_op \<times> regs) option" where
  "rename_op2 E o1 R =
     (if is_temp (op2 o1)
      then do { (i, R1) \<leftarrow> use_T (VAR_NUM E (num (op2 o1))) R; Some (o1\<lparr>op2 := (op2 o1)\<lparr>num := NUM_VAR E i\<rparr>\<rparr>, R1) }
      else Some (o1, R))"

definition rename_ext :: "var_enc \<Rightarrow> zend_op \<Rightarrow> regs \<Rightarrow> (zend_op \<times> regs) option" where
  "rename_ext E o1 R =
     (if declares_inherited o1
      then do { (i, R1) \<leftarrow> use_T (VAR_NUM E (extended_value o1)) R; Some (o1\<lparr>extended_value := NUM_VAR E i\<rparr>, R1) }
      else Some (o1, R))"

text \<open>The slot an \<open>ASSIGN_DIM\<close> works with, \<open>op2\<close> of the \<open>OP_DATA\<close> after it; the slot is
  returned as \<open>var_to_free\<close>.\<close>

definition alloc_data :: "var_enc \<Rightarrow> zend_op list \<Rightarrow> nat \<Rightarrow> regs \<Rightarrow> (zend_op list \<times> nat option \<times> regs) option" where
  "alloc_data E ops k R =
     (if opcode (ops ! k) = ZEND_ASSIGN_DIM
      then if length ops \<le> Suc k then None
      else let d = ops ! Suc k in
        if opcode d = ZEND_OP_DATA \<and> is_temp (op2 d)
        then if length (valid_T R) \<le> VAR_NUM E (num (op2 d)) then None
        else do { (i, R1) \<leftarrow> GET_AVAILABLE_T R;
                  Some (ops[Suc k := d\<lparr>op2 := (op2 d)\<lparr>num := NUM_VAR E i\<rparr>\<rparr>], Some i,
                        release i (map_to (VAR_NUM E (num (op2 d))) i R1)) }
        else Some (ops, None, R)
      else Some (ops, None, R))"

definition result_T :: "var_enc \<Rightarrow> nat option list \<Rightarrow> nat \<Rightarrow> zend_op \<Rightarrow> regs \<Rightarrow> (nat \<times> regs) option" where
  "result_T E starts k o1 R =
     (let v = VAR_NUM E (num (result o1)) in
      if length (valid_T R) \<le> v then None
      else if valid_T R ! v
      then Some (map_T R ! v, if starts ! v = Some k then release (map_T R ! v) R else R)
      else do { (i, R1) \<leftarrow> GET_AVAILABLE_T R;
                Some (i, if RESULT_UNUSED o1 then release i R1 else map_to v i R1) })"

definition rename_result :: "var_enc \<Rightarrow> nat option list \<Rightarrow> nat \<Rightarrow> zend_op \<Rightarrow> regs \<Rightarrow> (zend_op \<times> regs) option" where
  "rename_result E starts k o1 R =
     (if is_temp (result o1)
      then do { (i, R1) \<leftarrow> result_T E starts k o1 R; Some (o1\<lparr>result := (result o1)\<lparr>num := NUM_VAR E i\<rparr>\<rparr>, R1) }
      else Some (o1, R))"

section \<open>The pass\<close>

definition rename_at :: "var_enc \<Rightarrow> nat option list \<Rightarrow> zend_op list \<Rightarrow> nat \<Rightarrow> regs \<Rightarrow> (zend_op list \<times> regs) option" where
  "rename_at E starts ops k R =
     do { (o1, R1) \<leftarrow> rename_op1 E (ops ! k) R;
          if opcode o1 = ZEND_OP_DATA \<and> k = 0 then None
          else if opcode o1 = ZEND_OP_DATA \<and> opcode (ops ! (k - 1)) = ZEND_ASSIGN_DIM then Some (ops[k := o1], R1)
          else do { (o2, R2) \<leftarrow> rename_op2 E o1 R1;
                    (o3, R3) \<leftarrow> rename_ext E o2 R2;
                    (ops', var_to_free, R4) \<leftarrow> alloc_data E ops k R3;
                    (o4, R5) \<leftarrow> rename_result E starts k o3 R4;
                    Some (ops'[k := o4], case var_to_free of None \<Rightarrow> R5 | Some i \<Rightarrow> release i R5) } }"

fun rename_from :: "var_enc \<Rightarrow> nat option list \<Rightarrow> zend_op list \<Rightarrow> nat \<Rightarrow> regs \<Rightarrow> (zend_op list \<times> regs) option" where
  "rename_from E starts ops 0 R = Some (ops, R)"
| "rename_from E starts ops (Suc k) R =
     do { (ops', R') \<leftarrow> rename_at E starts ops k R; rename_from E starts ops' k R' }"

definition no_slots :: "nat \<Rightarrow> regs" where
  "no_slots T = \<lparr>taken_T = replicate T False, valid_T = replicate T False, map_T = replicate T 0, max_T = -1\<rparr>"

definition optimize_temporary_variables :: "var_enc \<Rightarrow> 'x zend_op_array \<Rightarrow> 'x zend_op_array option" where
  "optimize_temporary_variables E oa =
     do { starts \<leftarrow> find_starts E (opcodes oa) (last_op oa) (replicate (T_num oa) None);
          (ops, R) \<leftarrow> rename_from E starts (opcodes oa) (last_op oa) (no_slots (T_num oa));
          Some (oa\<lparr>opcodes := ops, T_num := nat (max_T R + 1)\<rparr>) }"

section \<open>The slots in use\<close>

text \<open>The temporaries \<open>A\<close> are in use: each has a slot of its own, and the other slots are free.\<close>

definition regs_ok :: "nat \<Rightarrow> nat set \<Rightarrow> regs \<Rightarrow> bool" where
  "regs_ok T A R \<longleftrightarrow> length (taken_T R) = T \<and> length (valid_T R) = T \<and> length (map_T R) = T
     \<and> (\<forall>v \<in> A. v < T \<and> valid_T R ! v) \<and> inj_on ((!) (map_T R)) A
     \<and> (\<forall>i < T. taken_T R ! i \<longleftrightarrow> i \<in> (!) (map_T R) ` A)
     \<and> (\<forall>v < T. valid_T R ! v \<longrightarrow> map_T R ! v < T \<and> int (map_T R ! v) \<le> max_T R)
     \<and> - 1 \<le> max_T R \<and> max_T R < int T"

text \<open>Slots that were given stay the slots of their temporaries.\<close>

definition grows :: "nat \<Rightarrow> regs \<Rightarrow> regs \<Rightarrow> bool" where
  "grows T R R' \<longleftrightarrow> max_T R \<le> max_T R' \<and> (\<forall>v < T. valid_T R ! v \<longrightarrow> valid_T R' ! v \<and> map_T R' ! v = map_T R ! v)"

lemma grows_refl [simp]: "grows T R R"
  by (simp add: grows_def)

lemma grows_trans: "grows T R R' \<Longrightarrow> grows T R' R'' \<Longrightarrow> grows T R R''"
  by (auto simp: grows_def)

lemma no_slots_ok: "regs_ok T {} (no_slots T)"
  by (simp add: regs_ok_def no_slots_def)

lemma first_free:
  assumes "\<exists>i < length xs. \<not> xs ! i"
  shows "length (takeWhile id xs) < length xs" and "\<not> xs ! length (takeWhile id xs)"
proof -
  have "takeWhile id xs \<noteq> xs" using assms by (metis id_apply nth_mem set_takeWhileD)
  then show l: "length (takeWhile id xs) < length xs"
    by (metis length_takeWhile_le order_le_imp_less_or_eq takeWhile_eq_take take_all)
  then show "\<not> xs ! length (takeWhile id xs)" using nth_length_takeWhile [of id xs] by simp
qed

text \<open>A temporary without a slot gets one: fewer than \<open>T\<close> slots are taken.\<close>

lemma GET_AVAILABLE_T_ok:
  assumes R: "regs_ok T A R" and v: "v < T" "v \<notin> A"
  obtains i where "GET_AVAILABLE_T R = Some (i, R\<lparr>taken_T := (taken_T R)[i := True], max_T := max (int i) (max_T R)\<rparr>)"
    and "i < T" and "i \<notin> (!) (map_T R) ` A"
proof -
  have A: "A \<subset> {..<T}" using R v by (auto simp: regs_ok_def)
  have "\<exists>i < T. i \<notin> (!) (map_T R) ` A"
  proof (rule ccontr)
    assume "\<not> ?thesis"
    then have "{..<T} \<subseteq> (!) (map_T R) ` A" by auto
    moreover have "finite A" using A finite_subset by blast
    ultimately have "T \<le> card A" by (metis card_image_le card_lessThan card_mono finite_imageI le_trans)
    then show False using psubset_card_mono [OF _ A] by simp
  qed
  then have free: "\<exists>i < length (taken_T R). \<not> taken_T R ! i" using R by (auto simp: regs_ok_def)
  let ?i = "length (takeWhile id (taken_T R))"
  show ?thesis
  proof (rule that [of ?i])
    show "?i < T" "?i \<notin> (!) (map_T R) ` A" using first_free [OF free] R by (auto simp: regs_ok_def)
    show "GET_AVAILABLE_T R = Some (?i, R\<lparr>taken_T := (taken_T R)[?i := True], max_T := max (int ?i) (max_T R)\<rparr>)"
      using first_free(1) [OF free] by (simp add: GET_AVAILABLE_T_def Let_def max_def)
  qed
qed

lemma take_slot_ok:
  assumes R: "regs_ok T A R" and v: "v < T" "\<not> valid_T R ! v" and i: "i < T" "i \<notin> (!) (map_T R) ` A"
  defines "R' \<equiv> map_to v i (R\<lparr>taken_T := (taken_T R)[i := True], max_T := max (int i) (max_T R)\<rparr>)"
  shows "regs_ok T (insert v A) R'" and "grows T R R'" and "map_T R' ! v = i"
    and "\<And>w. w < T \<Longrightarrow> valid_T R' ! w \<longleftrightarrow> valid_T R ! w \<or> w = v"
proof -
  have vA: "v \<notin> A" using R v by (auto simp: regs_ok_def)
  have same: "map_T R' ! w = map_T R ! w" if "w \<in> A" for w
  proof -
    have "v \<noteq> w" using that vA by blast
    then show ?thesis by (simp add: R'_def map_to_def)
  qed
  have l: "length (map_T R) = T" "length (valid_T R) = T" "length (taken_T R) = T" using R by (simp_all add: regs_ok_def)
  show m: "map_T R' ! v = i" using v l by (simp add: R'_def map_to_def)
  show valid: "valid_T R' ! w \<longleftrightarrow> valid_T R ! w \<or> w = v" if "w < T" for w
    using that l by (cases "w = v") (simp_all add: R'_def map_to_def)
  have img: "(!) (map_T R') ` insert v A = insert i ((!) (map_T R) ` A)" using m same by auto
  have "inj_on ((!) (map_T R')) (insert v A)"
  proof -
    have "inj_on ((!) (map_T R')) A" using R same by (auto simp: regs_ok_def inj_on_def)
    moreover have "(!) (map_T R') ` (A - {v}) = (!) (map_T R) ` A" using vA same by auto
    ultimately show ?thesis using i(2) m by (simp add: inj_on_insert)
  qed
  moreover have "\<forall>j < T. taken_T R' ! j \<longleftrightarrow> j \<in> insert i ((!) (map_T R) ` A)"
    using R l i(1) by (auto simp: R'_def map_to_def nth_list_update regs_ok_def)
  ultimately show "regs_ok T (insert v A) R'"
    using R v i(1) unfolding regs_ok_def img
    by (auto simp: R'_def map_to_def nth_list_update)
  show "grows T R R'" using v l by (auto simp: grows_def R'_def map_to_def nth_list_update)
qed

lemma use_T_ok:
  assumes R: "regs_ok T A R" and v: "v < T" "valid_T R ! v \<Longrightarrow> v \<in> A"
  obtains i R' where "use_T v R = Some (i, R')" and "regs_ok T (insert v A) R'" and "grows T R R'"
    and "i = map_T R' ! v" and "\<And>w. w < T \<Longrightarrow> valid_T R' ! w \<longleftrightarrow> valid_T R ! w \<or> w = v"
proof (cases "valid_T R ! v")
  case True
  then show ?thesis using v R by (intro that [of "map_T R ! v" R]) (auto simp: use_T_def regs_ok_def insert_absorb)
next
  case False
  then have "v \<notin> A" using R by (auto simp: regs_ok_def)
  from GET_AVAILABLE_T_ok [OF R v(1) this] obtain i where
    i: "GET_AVAILABLE_T R = Some (i, R\<lparr>taken_T := (taken_T R)[i := True], max_T := max (int i) (max_T R)\<rparr>)"
      "i < T" "i \<notin> (!) (map_T R) ` A" .
  note t = take_slot_ok [OF R v(1) False i(2,3)]
  show ?thesis
    by (rule that [OF _ t(1,2) t(3) [symmetric] t(4)]) (use False i(1) v R in \<open>auto simp: use_T_def regs_ok_def\<close>)
qed

lemma release_ok:
  assumes R: "regs_ok T A R" and v: "v \<in> A"
  shows "regs_ok T (A - {v}) (release (map_T R ! v) R)" and "grows T R (release (map_T R ! v) R)"
proof -
  have "inj_on ((!) (map_T R)) A" using R by (simp add: regs_ok_def)
  then have img: "(!) (map_T R) ` (A - {v}) = (!) (map_T R) ` A - {map_T R ! v}"
    using v by (auto simp: inj_on_def)
  show "regs_ok T (A - {v}) (release (map_T R ! v) R)"
    using R v inj_on_subset [of "(!) (map_T R)" A "A - {v}"] unfolding regs_ok_def
    by (auto simp: release_def nth_list_update img)
  show "grows T R (release (map_T R ! v) R)" by (simp add: grows_def release_def)
qed

lemma release_free_ok:
  assumes R: "regs_ok T A R" and i: "i \<notin> (!) (map_T R) ` A"
  shows "regs_ok T A (release i R)" and "grows T R (release i R)"
proof -
  have "(taken_T R)[i := False] ! j \<longleftrightarrow> j \<noteq> i \<and> taken_T R ! j" if "j < T" for j
    using that R by (cases "j = i") (simp_all add: regs_ok_def)
  then show "regs_ok T A (release i R)" using R i by (auto simp: regs_ok_def release_def)
  show "grows T R (release i R)" by (simp add: grows_def release_def)
qed

lemma regs_ok_bound: "regs_ok T A R \<Longrightarrow> v < T \<Longrightarrow> valid_T R ! v \<Longrightarrow> map_T R ! v < T \<and> int (map_T R ! v) \<le> max_T R"
  by (simp add: regs_ok_def)

lemma regs_ok_in: "regs_ok T A R \<Longrightarrow> v \<in> A \<Longrightarrow> v < T \<and> valid_T R ! v"
  by (simp add: regs_ok_def)

lemma regs_ok_distinct: "regs_ok T A R \<Longrightarrow> v \<in> A \<Longrightarrow> w \<in> A \<Longrightarrow> v \<noteq> w \<Longrightarrow> map_T R ! v \<noteq> map_T R ! w"
  by (auto simp: regs_ok_def inj_on_def)

text \<open>The slot of a result: no other temporary in use has it.\<close>

lemma result_T_ok:
  assumes R: "regs_ok T A R" and v: "v = VAR_NUM E (num (result o1))" "v < T" "valid_T R ! v \<Longrightarrow> v \<in> A"
  obtains i R' A' where "result_T E starts k o1 R = Some (i, R')" and "regs_ok T A' R'" and "grows T R R'"
    and "A - {v} \<subseteq> A'" and "A' \<subseteq> insert v A" and "starts ! v \<noteq> Some k \<longrightarrow> A \<subseteq> A'"
    and "valid_T R ! v \<or> \<not> RESULT_UNUSED o1 \<longrightarrow> i = map_T R' ! v \<and> valid_T R' ! v"
    and "valid_T R ! v \<or> RESULT_UNUSED o1 \<longrightarrow> A' \<subseteq> A"
    and "\<not> valid_T R ! v \<and> \<not> RESULT_UNUSED o1 \<longrightarrow> v \<in> A'" and "\<forall>w \<in> A. w \<noteq> v \<longrightarrow> map_T R ! w \<noteq> i"
    and "\<forall>w < T. valid_T R' ! w \<longleftrightarrow> valid_T R ! w \<or> w = v \<and> \<not> RESULT_UNUSED o1" and "i < T \<and> int i \<le> max_T R'"
proof (cases "valid_T R ! v")
  case True
  then have vA: "v \<in> A" using v by simp
  have d: "\<forall>w \<in> A. w \<noteq> v \<longrightarrow> map_T R ! w \<noteq> map_T R ! v" using regs_ok_distinct [OF R _ vA] by blast
  have b: "map_T R ! v < T \<and> int (map_T R ! v) \<le> max_T R" by (rule regs_ok_bound [OF R v(2) True])
  have l: "v < length (valid_T R)" using R v by (simp add: regs_ok_def)
  show ?thesis
  proof (cases "starts ! v = Some k")
    case st: True
    note r = release_ok [OF R vA]
    show ?thesis
      by (rule that [OF _ r])
        (use True st d b l v(2) in \<open>auto simp: result_T_def v(1) [symmetric] Let_def release_def\<close>)
  next
    case st: False
    show ?thesis
      by (rule that [OF _ R grows_refl])
        (use True st d b l v(2) in \<open>auto simp: result_T_def v(1) [symmetric] Let_def\<close>)
  qed
next
  case False
  then have vA: "v \<notin> A" using regs_ok_in [OF R] by blast
  from GET_AVAILABLE_T_ok [OF R v(2) this] obtain i where
    i: "GET_AVAILABLE_T R = Some (i, R\<lparr>taken_T := (taken_T R)[i := True], max_T := max (int i) (max_T R)\<rparr>)"
      "i < T" "i \<notin> (!) (map_T R) ` A" .
  have l: "\<not> length (valid_T R) \<le> v" using R v by (simp add: regs_ok_def)
  show ?thesis
  proof (cases "RESULT_UNUSED o1")
    case True
    let ?R = "R\<lparr>taken_T := (taken_T R)[i := False], max_T := max (int i) (max_T R)\<rparr>"
    have "regs_ok T A (release i R)" by (rule release_free_ok(1) [OF R i(3)])
    then have ok: "regs_ok T A ?R" using i(2) by (auto simp: regs_ok_def release_def max_def)
    have g: "grows T R ?R" by (simp add: grows_def)
    show ?thesis
      by (rule that [OF _ ok g])
        (use True False i vA l in \<open>auto simp: result_T_def v(1) [symmetric] Let_def release_def\<close>)
  next
    case used: False
    note t = take_slot_ok [OF R v(2) False i(2,3)]
    show ?thesis
      by (rule that [OF _ t(1,2)])
        (use used False i vA l v(2) t(3,4) in \<open>auto simp: result_T_def v(1) [symmetric] Let_def map_to_def\<close>)
  qed
qed

text \<open>The slot an \<open>ASSIGN_DIM\<close> works with is none of those in use.\<close>

lemma scratch_slot_ok:
  assumes R: "regs_ok T A R" and w: "w < T" "\<not> valid_T R ! w"
  obtains i R1 where "GET_AVAILABLE_T R = Some (i, R1)" and "regs_ok T A (release i (map_to w i R1))"
    and "grows T R (release i (map_to w i R1))" and "i \<notin> (!) (map_T R) ` A"
    and "\<forall>v < T. valid_T (release i (map_to w i R1)) ! v \<longleftrightarrow> valid_T R ! v \<or> v = w"
    and "i < T \<and> int i \<le> max_T R1" and "max_T (release i (map_to w i R1)) = max_T R1"
proof -
  have wA: "w \<notin> A" using regs_ok_in [OF R] w by blast
  from GET_AVAILABLE_T_ok [OF R w(1) this] obtain i where
    i: "GET_AVAILABLE_T R = Some (i, R\<lparr>taken_T := (taken_T R)[i := True], max_T := max (int i) (max_T R)\<rparr>)"
      "i < T" "i \<notin> (!) (map_T R) ` A" .
  let ?R = "map_to w i (R\<lparr>taken_T := (taken_T R)[i := True], max_T := max (int i) (max_T R)\<rparr>)"
  note t = take_slot_ok [OF R w i(2,3)]
  have "regs_ok T (insert w A - {w}) (release (map_T ?R ! w) ?R)" by (rule release_ok(1) [OF t(1)]) simp
  then have ok: "regs_ok T A (release i ?R)" using t(3) wA by simp
  have g: "grows T R (release i ?R)" using t(2) by (simp add: grows_def release_def)
  show ?thesis
    by (rule that [OF i(1) ok g i(3)]) (use t(4) i(2) in \<open>auto simp: release_def map_to_def\<close>)
qed

section \<open>Uses and definitions\<close>

definition temp_of :: "var_enc \<Rightarrow> znode \<Rightarrow> nat set" where
  "temp_of E z = (if is_temp z then {VAR_NUM E (num z)} else {})"

definition ext_temp :: "var_enc \<Rightarrow> zend_op \<Rightarrow> nat set" where
  "ext_temp E o1 = (if declares_inherited o1 then {VAR_NUM E (extended_value o1)} else {})"

definition after_assign_dim :: "zend_op list \<Rightarrow> nat \<Rightarrow> bool" where
  "after_assign_dim C j \<longleftrightarrow> 0 < j \<and> opcode (C ! j) = ZEND_OP_DATA \<and> opcode (C ! (j - 1)) = ZEND_ASSIGN_DIM"

definition uses :: "var_enc \<Rightarrow> zend_op list \<Rightarrow> nat \<Rightarrow> nat set" where
  "uses E C j = temp_of E (op1 (C ! j)) \<union> (if after_assign_dim C j then {} else temp_of E (op2 (C ! j)) \<union> ext_temp E (C ! j))"

definition defs :: "var_enc \<Rightarrow> zend_op list \<Rightarrow> nat \<Rightarrow> nat set" where
  "defs E C j = temp_of E (result (C ! j))"

definition scratch_of :: "var_enc \<Rightarrow> zend_op list \<Rightarrow> nat \<Rightarrow> nat set" where
  "scratch_of E C p = (if Suc p < length C \<and> after_assign_dim C (Suc p) then temp_of E (op2 (C ! Suc p)) else {})"

definition used_from :: "var_enc \<Rightarrow> zend_op list \<Rightarrow> nat \<Rightarrow> nat \<Rightarrow> bool" where
  "used_from E C k v \<longleftrightarrow> (\<exists>j < length C. k \<le> j \<and> v \<in> uses E C j)"

definition defined :: "var_enc \<Rightarrow> zend_op list \<Rightarrow> nat \<Rightarrow> nat \<Rightarrow> bool" where
  "defined E C k v \<longleftrightarrow> (\<exists>d < length C. d < k \<and> v \<in> defs E C d)"

text \<open>The slot of \<open>v\<close> is taken before instruction \<open>k\<close>, when it was given one after it.\<close>

definition open_at :: "var_enc \<Rightarrow> zend_op list \<Rightarrow> nat \<Rightarrow> nat \<Rightarrow> bool" where
  "open_at E C k v \<longleftrightarrow> (\<forall>p < length C. v \<notin> scratch_of E C p) \<and> (defined E C (length C) v \<longrightarrow> defined E C k v)"

text \<open>Well-formed code: the temporaries are in range, every \<open>ASSIGN_DIM\<close> has a next instruction
  and every \<open>OP_DATA\<close> a previous one, the working slots are not used for anything else, a
  temporary is defined before it is used, and the result of an \<open>ASSIGN_DIM\<close> is used when it is
  not marked as unused.\<close>

definition scratch_private :: "var_enc \<Rightarrow> zend_op list \<Rightarrow> bool" where
  "scratch_private E C \<longleftrightarrow> (\<forall>p < length C. \<forall>w \<in> scratch_of E C p. \<forall>j < length C.
     w \<notin> uses E C j \<and> w \<notin> defs E C j \<and> (j \<noteq> p \<longrightarrow> w \<notin> scratch_of E C j))"

lemma scratch_privateD:
  assumes "scratch_private E C" "w \<in> scratch_of E C p" "p < length C" "j < length C"
  shows "w \<notin> uses E C j" "w \<notin> defs E C j" "j \<noteq> p \<Longrightarrow> w \<notin> scratch_of E C j"
  using assms unfolding scratch_private_def by blast+

definition temps_wf :: "var_enc \<Rightarrow> nat \<Rightarrow> zend_op list \<Rightarrow> bool" where
  "temps_wf E T C \<longleftrightarrow>
     (\<forall>j < length C. \<forall>v \<in> uses E C j \<union> defs E C j \<union> scratch_of E C j. v < T)
   \<and> (0 < length C \<longrightarrow> opcode (C ! 0) \<noteq> ZEND_OP_DATA)
   \<and> (\<forall>j < length C. opcode (C ! j) = ZEND_ASSIGN_DIM \<longrightarrow> Suc j < length C)
   \<and> (\<forall>j < length C. opcode (C ! j) = ZEND_OP_DATA \<longrightarrow> \<not> declares_inherited (C ! j) \<and> (after_assign_dim C j \<longrightarrow> \<not> is_temp (result (C ! j))))
   \<and> scratch_private E C
   \<and> (\<forall>j < length C. \<forall>v \<in> uses E C j. defined E C (length C) v \<longrightarrow> defined E C j v)
   \<and> (\<forall>p < length C. \<forall>v \<in> defs E C p. scratch_of E C p \<noteq> {} \<longrightarrow> RESULT_UNUSED (C ! p) \<or> used_from E C (Suc p) v)"

definition rename_node :: "var_enc \<Rightarrow> (nat \<Rightarrow> nat) \<Rightarrow> znode \<Rightarrow> znode" where
  "rename_node E m z = (if is_temp z then z\<lparr>num := NUM_VAR E (m (VAR_NUM E (num z)))\<rparr> else z)"

definition rename_ext_value :: "var_enc \<Rightarrow> (nat \<Rightarrow> nat) \<Rightarrow> zend_op \<Rightarrow> nat" where
  "rename_ext_value E m o1 = (if declares_inherited o1 then NUM_VAR E (m (VAR_NUM E (extended_value o1))) else extended_value o1)"

lemma rename_node_cong: "\<forall>v \<in> temp_of E z. m' v = m v \<Longrightarrow> rename_node E m' z = rename_node E m z"
  by (simp add: rename_node_def temp_of_def)

lemma rename_ext_cong: "\<forall>v \<in> ext_temp E o1. m' v = m v \<Longrightarrow> rename_ext_value E m' o1 = rename_ext_value E m o1"
  by (simp add: rename_ext_value_def ext_temp_def)

section \<open>Operands\<close>

text \<open>The temporaries \<open>V\<close> can be used: those with a slot are in use.\<close>

definition usable :: "nat \<Rightarrow> nat set \<Rightarrow> regs \<Rightarrow> nat set \<Rightarrow> bool" where
  "usable T A R V \<longleftrightarrow> (\<forall>v \<in> V. v < T \<and> (valid_T R ! v \<longrightarrow> v \<in> A))"

text \<open>The registers after the temporaries \<open>V\<close> were used.\<close>

definition after_use :: "nat \<Rightarrow> nat set \<Rightarrow> nat set \<Rightarrow> regs \<Rightarrow> regs \<Rightarrow> bool" where
  "after_use T A V R R' \<longleftrightarrow> regs_ok T (A \<union> V) R' \<and> grows T R R' \<and> (\<forall>w < T. valid_T R' ! w \<longleftrightarrow> valid_T R ! w \<or> w \<in> V)"

lemma after_use_none: "regs_ok T A R \<Longrightarrow> after_use T A {} R R"
  by (simp add: after_use_def)

lemma after_use_trans:
  assumes "after_use T A V R R1" "after_use T (A \<union> V) W R1 R2"
  shows "after_use T A (V \<union> W) R R2"
  using assms grows_trans by (fastforce simp: after_use_def Un_assoc)

lemma usable_trans:
  assumes "usable T A R (V \<union> W)" "after_use T A V R R1"
  shows "usable T (A \<union> V) R1 W"
  using assms by (auto simp: usable_def after_use_def)

lemma use_T_after:
  assumes R: "regs_ok T A R" and v: "usable T A R {v}"
  obtains R' where "use_T v R = Some (map_T R' ! v, R')" and "after_use T A {v} R R'"
  using use_T_ok [OF R, of v] v by (auto simp: usable_def after_use_def)

lemma rename_op1_ok:
  assumes R: "regs_ok T A R" and u: "usable T A R (temp_of E (op1 o1))"
  obtains R' where "rename_op1 E o1 R = Some (o1\<lparr>op1 := rename_node E ((!) (map_T R')) (op1 o1)\<rparr>, R')"
    and "after_use T A (temp_of E (op1 o1)) R R'"
proof (cases "is_temp (op1 o1)")
  case True
  then have "usable T A R {VAR_NUM E (num (op1 o1))}" using u by (simp add: temp_of_def)
  from use_T_after [OF R this] obtain R' where "use_T (VAR_NUM E (num (op1 o1))) R = Some (map_T R' ! VAR_NUM E (num (op1 o1)), R')"
    "after_use T A {VAR_NUM E (num (op1 o1))} R R'" .
  then show ?thesis using True by (intro that [of R']) (simp_all add: rename_op1_def rename_node_def temp_of_def)
next
  case False
  then show ?thesis using after_use_none [OF R] by (intro that [of R]) (simp_all add: rename_op1_def rename_node_def temp_of_def)
qed

lemma rename_op2_ok:
  assumes R: "regs_ok T A R" and u: "usable T A R (temp_of E (op2 o1))"
  obtains R' where "rename_op2 E o1 R = Some (o1\<lparr>op2 := rename_node E ((!) (map_T R')) (op2 o1)\<rparr>, R')"
    and "after_use T A (temp_of E (op2 o1)) R R'"
proof (cases "is_temp (op2 o1)")
  case True
  then have "usable T A R {VAR_NUM E (num (op2 o1))}" using u by (simp add: temp_of_def)
  from use_T_after [OF R this] obtain R' where "use_T (VAR_NUM E (num (op2 o1))) R = Some (map_T R' ! VAR_NUM E (num (op2 o1)), R')"
    "after_use T A {VAR_NUM E (num (op2 o1))} R R'" .
  then show ?thesis using True by (intro that [of R']) (simp_all add: rename_op2_def rename_node_def temp_of_def)
next
  case False
  then show ?thesis using after_use_none [OF R] by (intro that [of R]) (simp_all add: rename_op2_def rename_node_def temp_of_def)
qed

lemma rename_ext_ok:
  assumes R: "regs_ok T A R" and u: "usable T A R (ext_temp E o1)"
  obtains R' where "rename_ext E o1 R = Some (o1\<lparr>extended_value := rename_ext_value E ((!) (map_T R')) o1\<rparr>, R')"
    and "after_use T A (ext_temp E o1) R R'"
proof (cases "declares_inherited o1")
  case True
  then have "usable T A R {VAR_NUM E (extended_value o1)}" using u by (simp add: ext_temp_def)
  from use_T_after [OF R this] obtain R' where "use_T (VAR_NUM E (extended_value o1)) R = Some (map_T R' ! VAR_NUM E (extended_value o1), R')"
    "after_use T A {VAR_NUM E (extended_value o1)} R R'" .
  then show ?thesis using True by (intro that [of R']) (simp_all add: rename_ext_def rename_ext_value_def ext_temp_def)
next
  case False
  then show ?thesis using after_use_none [OF R] by (intro that [of R]) (simp_all add: rename_ext_def rename_ext_value_def ext_temp_def)
qed

section \<open>What is allocated\<close>

text \<open>No other temporary that is in use has the slot of a result.\<close>

definition result_slot :: "var_enc \<Rightarrow> zend_op list \<Rightarrow> nat \<Rightarrow> (nat \<Rightarrow> nat) \<Rightarrow> nat \<Rightarrow> nat \<Rightarrow> nat \<Rightarrow> bool" where
  "result_slot E C N m j v i \<longleftrightarrow> i < N \<and> (used_from E C (Suc j) v \<longrightarrow> i = m v)
     \<and> (\<forall>w. w \<noteq> v \<and> open_at E C (Suc j) w \<and> used_from E C (Suc j) w \<longrightarrow> m w \<noteq> i)"

definition op_ok :: "var_enc \<Rightarrow> zend_op list \<Rightarrow> nat \<Rightarrow> (nat \<Rightarrow> nat) \<Rightarrow> nat \<Rightarrow> zend_op \<Rightarrow> bool" where
  "op_ok E C N m j o1 \<longleftrightarrow> opcode o1 = opcode (C ! j) \<and> lineno o1 = lineno (C ! j) \<and> op1 o1 = rename_node E m (op1 (C ! j))
     \<and> (if after_assign_dim C j
        then result o1 = result (C ! j) \<and> extended_value o1 = extended_value (C ! j)
           \<and> (if is_temp (op2 (C ! j)) then \<exists>x. op2 o1 = (op2 (C ! j))\<lparr>num := x\<rparr> else op2 o1 = op2 (C ! j))
        else op2 o1 = rename_node E m (op2 (C ! j)) \<and> extended_value o1 = rename_ext_value E m (C ! j)
           \<and> (if is_temp (result (C ! j))
              then \<exists>i. result o1 = (result (C ! j))\<lparr>num := NUM_VAR E i\<rparr> \<and> result_slot E C N m j (VAR_NUM E (num (result (C ! j)))) i
              else result o1 = result (C ! j)))"

definition scratch_ok :: "var_enc \<Rightarrow> zend_op list \<Rightarrow> nat \<Rightarrow> (nat \<Rightarrow> nat) \<Rightarrow> nat \<Rightarrow> zend_op list \<Rightarrow> bool" where
  "scratch_ok E C N m p ops \<longleftrightarrow> (scratch_of E C p \<noteq> {} \<longrightarrow>
     (\<exists>i < N. op2 (ops ! Suc p) = (op2 (C ! Suc p))\<lparr>num := NUM_VAR E i\<rparr>
        \<and> (\<forall>v. open_at E C p v \<and> used_from E C p v \<longrightarrow> m v \<noteq> i)))"

definition apart :: "var_enc \<Rightarrow> zend_op list \<Rightarrow> (nat \<Rightarrow> nat) \<Rightarrow> nat \<Rightarrow> bool" where
  "apart E C m k \<longleftrightarrow> inj_on m {v. open_at E C k v \<and> used_from E C k v}"

definition allocated :: "var_enc \<Rightarrow> zend_op list \<Rightarrow> nat \<Rightarrow> (nat \<Rightarrow> nat) \<Rightarrow> nat \<Rightarrow> zend_op list \<Rightarrow> bool" where
  "allocated E C N m k ops \<longleftrightarrow>
     (\<forall>j < length C. k \<le> j \<longrightarrow> op_ok E C N m j (ops ! j) \<and> scratch_ok E C N m j ops \<and> apart E C m j)
   \<and> (\<forall>v. used_from E C k v \<longrightarrow> m v < N)"

lemma used_from_mono: "used_from E C j v \<Longrightarrow> k \<le> j \<Longrightarrow> used_from E C k v"
  by (auto simp: used_from_def)

lemma used_from_Suc: "k < length C \<Longrightarrow> used_from E C k v \<longleftrightarrow> v \<in> uses E C k \<or> used_from E C (Suc k) v"
  unfolding used_from_def by (metis Suc_leD Suc_leI le_neq_implies_less order_refl)

lemma defined_mono: "defined E C j v \<Longrightarrow> j \<le> k \<Longrightarrow> defined E C k v"
  by (auto simp: defined_def)

lemma open_at_mono: "open_at E C j v \<Longrightarrow> j \<le> k \<Longrightarrow> open_at E C k v"
  using defined_mono by (auto simp: open_at_def)

lemma in_uses:
  assumes "j < length C" "k \<le> j"
  shows "v \<in> temp_of E (op1 (C ! j)) \<Longrightarrow> used_from E C k v"
    and "\<not> after_assign_dim C j \<Longrightarrow> v \<in> temp_of E (op2 (C ! j)) \<Longrightarrow> used_from E C k v"
    and "\<not> after_assign_dim C j \<Longrightarrow> v \<in> ext_temp E (C ! j) \<Longrightarrow> used_from E C k v"
  using assms by (auto simp: used_from_def uses_def)

lemma op_ok_cong:
  assumes o1: "op_ok E C N m j o1" and j: "j < length C" "k \<le> j" and N: "N \<le> N'"
    and m: "\<And>v. used_from E C k v \<Longrightarrow> m' v = m v"
  shows "op_ok E C N' m' j o1"
proof -
  have "rename_node E m' (op1 (C ! j)) = rename_node E m (op1 (C ! j))"
    using in_uses(1) [OF j] m by (intro rename_node_cong) blast
  moreover have "rename_node E m' (op2 (C ! j)) = rename_node E m (op2 (C ! j))"
    "rename_ext_value E m' (C ! j) = rename_ext_value E m (C ! j)" if "\<not> after_assign_dim C j"
    using in_uses(2,3) [OF j that] m by (intro rename_node_cong rename_ext_cong, blast)+
  moreover have "used_from E C (Suc j) v \<Longrightarrow> m' v = m v" for v using used_from_mono [of E C "Suc j" v k] j m by auto
  then have "result_slot E C N m j v i \<Longrightarrow> result_slot E C N' m' j v i" for v i
    using N by (auto simp: result_slot_def)
  ultimately show ?thesis using o1 by (auto simp: op_ok_def split: if_splits)
qed

lemma allocated_cong:
  assumes a: "allocated E C N m k ops" and N: "N \<le> N'" and m: "\<And>v. used_from E C k v \<Longrightarrow> m' v = m v"
  shows "allocated E C N' m' k ops"
proof -
  have op: "op_ok E C N' m' j (ops ! j)" if "j < length C" "k \<le> j" for j
    using a that op_ok_cong [OF _ that N m] by (auto simp: allocated_def)
  have m': "used_from E C j v \<Longrightarrow> k \<le> j \<Longrightarrow> m' v = m v" for j v using m used_from_mono by blast
  have sc: "scratch_ok E C N' m' j ops" if "j < length C" "k \<le> j" for j
    using a that N m' [of j] by (fastforce simp: allocated_def scratch_ok_def)
  have ap: "apart E C m' j" if "j < length C" "k \<le> j" for j
  proof -
    have "inj_on m' {v. open_at E C j v \<and> used_from E C j v} = inj_on m {v. open_at E C j v \<and> used_from E C j v}"
      by (rule inj_on_cong) (use m' that in auto)
    then show ?thesis using a that by (auto simp: allocated_def apart_def)
  qed
  show ?thesis using op sc ap a m N by (fastforce simp: allocated_def)
qed

section \<open>The invariant of the pass\<close>

text \<open>Where the temporaries with a slot come from.\<close>

definition seen :: "var_enc \<Rightarrow> zend_op list \<Rightarrow> nat \<Rightarrow> nat \<Rightarrow> nat \<Rightarrow> bool" where
  "seen E C u k v \<longleftrightarrow> used_from E C u v \<or> (\<exists>j < length C. k \<le> j \<and> (v \<in> defs E C j \<or> v \<in> scratch_of E C j))"

text \<open>The slots: the temporaries that are used from instruction \<open>u\<close> on have one, and those that
  are open at \<open>k\<close> keep it; \<open>s\<close> is where the definitions that were seen begin.\<close>

definition slots_at :: "var_enc \<Rightarrow> nat \<Rightarrow> zend_op list \<Rightarrow> nat \<Rightarrow> nat \<Rightarrow> nat \<Rightarrow> nat set \<Rightarrow> regs \<Rightarrow> bool" where
  "slots_at E T C u k s A R \<longleftrightarrow> regs_ok T A R \<and> (\<forall>v < T. valid_T R ! v \<and> open_at E C k v \<longrightarrow> v \<in> A)
     \<and> (\<forall>v. used_from E C u v \<longrightarrow> v < T \<and> valid_T R ! v) \<and> (\<forall>v < T. valid_T R ! v \<longrightarrow> seen E C u s v)"

definition slot_count :: "regs \<Rightarrow> nat" where
  "slot_count R = nat (max_T R + 1)"

definition progress :: "var_enc \<Rightarrow> nat \<Rightarrow> zend_op list \<Rightarrow> nat \<Rightarrow> nat set \<Rightarrow> regs \<Rightarrow> zend_op list \<Rightarrow> bool" where
  "progress E T C k A R ops \<longleftrightarrow> length ops = length C \<and> (\<forall>j < k. ops ! j = C ! j) \<and> slots_at E T C k k k A R
     \<and> (k < length C \<and> after_assign_dim C k \<longrightarrow> op2 (ops ! k) = op2 (C ! k))
     \<and> allocated E C (slot_count R) ((!) (map_T R)) k ops"

lemma slots_regs_ok: "slots_at E T C u k s A R \<Longrightarrow> regs_ok T A R"
  by (simp add: slots_at_def)

lemma wf_private: "temps_wf E T C \<Longrightarrow> scratch_private E C"
  by (simp add: temps_wf_def)

lemma wf_uses:
  assumes "temps_wf E T C" "j < length C" "v \<in> uses E C j"
  shows "v < T" and "open_at E C j v"
proof -
  show "v < T" using assms by (simp add: temps_wf_def)
  have "defined E C (length C) v \<longrightarrow> defined E C j v" using assms by (simp add: temps_wf_def)
  moreover have "v \<notin> scratch_of E C p" if "p < length C" for p
    using scratch_privateD(1) [OF wf_private [OF assms(1)] _ that assms(2)] assms(3) by blast
  ultimately show "open_at E C j v" by (simp add: open_at_def)
qed

lemma wf_defs:
  assumes "temps_wf E T C" "j < length C" "v \<in> defs E C j"
  shows "v < T" and "open_at E C (Suc j) v"
proof -
  show "v < T" using assms by (simp add: temps_wf_def)
  have "defined E C (Suc j) v" using assms by (auto simp: defined_def)
  moreover have "v \<notin> scratch_of E C p" if "p < length C" for p
    using scratch_privateD(2) [OF wf_private [OF assms(1)] _ that assms(2)] assms(3) by blast
  ultimately show "open_at E C (Suc j) v" by (simp add: open_at_def)
qed

lemma wf_scratch:
  assumes "temps_wf E T C" "p < length C" "w \<in> scratch_of E C p"
  shows "w < T" and "\<not> seen E C p (Suc p) w" and "\<not> open_at E C k w" and "Suc p < length C"
    and "\<And>r. r \<in> defs E C p \<Longrightarrow> RESULT_UNUSED (C ! p) \<or> used_from E C (Suc p) r"
proof -
  show "w < T" using assms by (simp add: temps_wf_def)
  note d = scratch_privateD [OF wf_private [OF assms(1)] assms(3,2)]
  show "\<not> seen E C p (Suc p) w" unfolding seen_def used_from_def using d by auto
  show "\<not> open_at E C k w" using assms by (auto simp: open_at_def)
  show "Suc p < length C" using assms(3) by (simp add: scratch_of_def split: if_splits)
  have "\<forall>p < length C. \<forall>v \<in> defs E C p. scratch_of E C p \<noteq> {} \<longrightarrow> RESULT_UNUSED (C ! p) \<or> used_from E C (Suc p) v"
    using assms(1) unfolding temps_wf_def by blast
  then show "r \<in> defs E C p \<Longrightarrow> RESULT_UNUSED (C ! p) \<or> used_from E C (Suc p) r" for r
    using assms(2,3) by blast
qed

lemma wf_data:
  assumes "temps_wf E T C" "j < length C"
  shows "opcode (C ! j) = ZEND_OP_DATA \<Longrightarrow> 0 < j \<and> \<not> declares_inherited (C ! j)"
    and "after_assign_dim C j \<Longrightarrow> \<not> is_temp (result (C ! j))"
    and "opcode (C ! j) = ZEND_ASSIGN_DIM \<Longrightarrow> Suc j < length C"
proof -
  have w: "0 < length C \<longrightarrow> opcode (C ! 0) \<noteq> ZEND_OP_DATA"
    "\<forall>j < length C. opcode (C ! j) = ZEND_OP_DATA \<longrightarrow> \<not> declares_inherited (C ! j) \<and> (after_assign_dim C j \<longrightarrow> \<not> is_temp (result (C ! j)))"
    "\<forall>j < length C. opcode (C ! j) = ZEND_ASSIGN_DIM \<longrightarrow> Suc j < length C"
    using assms(1) unfolding temps_wf_def by blast+
  show "opcode (C ! j) = ZEND_OP_DATA \<Longrightarrow> 0 < j \<and> \<not> declares_inherited (C ! j)"
    using w(1,2) assms(2) by (cases j) auto
  show "after_assign_dim C j \<Longrightarrow> \<not> is_temp (result (C ! j))" using w(2) assms(2) by (simp add: after_assign_dim_def)
  show "opcode (C ! j) = ZEND_ASSIGN_DIM \<Longrightarrow> Suc j < length C" using w(3) assms(2) by blast
qed

text \<open>The operands of the next instruction can be used, and leave the slots in order.\<close>

lemma operands_usable:
  assumes wf: "temps_wf E T C" and s: "slots_at E T C (Suc k) (Suc k) (Suc k) A R" and k: "k < length C"
  shows "usable T A R (uses E C k)"
  using wf_uses [OF wf k] s open_at_mono [of E C k _ "Suc k"] by (auto simp: usable_def slots_at_def)

lemma operands_slots:
  assumes wf: "temps_wf E T C" and s: "slots_at E T C (Suc k) (Suc k) (Suc k) A R" and k: "k < length C"
    and u: "after_use T A (uses E C k) R R'"
  shows "slots_at E T C k (Suc k) (Suc k) (A \<union> uses E C k) R'"
proof -
  have v: "valid_T R' ! w \<longleftrightarrow> valid_T R ! w \<or> w \<in> uses E C k" if "w < T" for w using u that by (simp add: after_use_def)
  have "regs_ok T (A \<union> uses E C k) R'" using u by (simp add: after_use_def)
  moreover have "\<forall>w < T. valid_T R' ! w \<and> open_at E C (Suc k) w \<longrightarrow> w \<in> A \<union> uses E C k" using v s by (auto simp: slots_at_def)
  moreover have "\<forall>w. used_from E C k w \<longrightarrow> w < T \<and> valid_T R' ! w"
    using v s wf_uses(1) [OF wf k] by (auto simp: slots_at_def used_from_Suc [OF k])
  moreover have "\<forall>w < T. valid_T R' ! w \<longrightarrow> seen E C k (Suc k) w"
    using v s by (auto simp: slots_at_def seen_def used_from_Suc [OF k])
  ultimately show ?thesis by (simp add: slots_at_def)
qed

lemma slots_apart: "slots_at E T C u k s A R \<Longrightarrow> u \<le> k \<Longrightarrow> apart E C ((!) (map_T R)) u"
  unfolding apart_def
proof (rule inj_on_subset [of _ A])
  assume s: "slots_at E T C u k s A R" and uk: "u \<le> k"
  then show "inj_on ((!) (map_T R)) A" by (simp add: slots_at_def regs_ok_def)
  show "{v. open_at E C u v \<and> used_from E C u v} \<subseteq> A" using s open_at_mono [OF _ uk] by (auto simp: slots_at_def)
qed

lemma grows_count: "grows T R R' \<Longrightarrow> slot_count R \<le> slot_count R'"
  unfolding grows_def slot_count_def by linarith

text \<open>The slots given in one step are those of the invariant.\<close>

lemma allocated_step:
  assumes a: "allocated E C (slot_count R) ((!) (map_T R)) (Suc k) ops" and s: "slots_at E T C (Suc k) (Suc k) (Suc k) A R"
    and g: "grows T R R'" and ap: "apart E C ((!) (map_T R')) k" and N: "\<forall>v. used_from E C k v \<longrightarrow> map_T R' ! v < slot_count R'"
    and k: "k < length C"
    and here: "op_ok E C (slot_count R') ((!) (map_T R')) k (ops' ! k)" "scratch_ok E C (slot_count R') ((!) (map_T R')) k ops'"
    and there: "\<And>j. j < length C \<Longrightarrow> Suc k \<le> j \<Longrightarrow> ops' ! Suc j = ops ! Suc j"
      "\<And>N m. Suc k < length C \<Longrightarrow> op_ok E C N m (Suc k) (ops ! Suc k) \<Longrightarrow> op_ok E C N m (Suc k) (ops' ! Suc k)"
  shows "allocated E C (slot_count R') ((!) (map_T R')) k ops'"
proof -
  have "slot_count R \<le> slot_count R'" by (rule grows_count [OF g])
  then have a': "allocated E C (slot_count R') ((!) (map_T R')) (Suc k) ops"
    by (rule allocated_cong [OF a]) (use g s in \<open>auto simp: grows_def slots_at_def\<close>)
  show ?thesis
    unfolding allocated_def
  proof (intro conjI allI impI)
    fix j assume j: "j < length C" "k \<le> j"
    show "op_ok E C (slot_count R') ((!) (map_T R')) j (ops' ! j)"
    proof (cases "j = k \<or> j = Suc k")
      case True
      then show ?thesis using here(1) there(2) a' j by (auto simp: allocated_def)
    next
      case False
      then obtain i where "j = Suc i" "Suc k \<le> i" using j by (cases j) auto
      then have "ops' ! j = ops ! j" using there(1) [of i] j by simp
      then show ?thesis using a' j False by (simp add: allocated_def)
    qed
    show "scratch_ok E C (slot_count R') ((!) (map_T R')) j ops'"
      using here(2) a' j there(1) [of j] by (cases "j = k") (auto simp: allocated_def scratch_ok_def)
    show "apart E C ((!) (map_T R')) j" using ap a' j by (cases "j = k") (auto simp: allocated_def)
  next
    fix v assume "used_from E C k v"
    then show "map_T R' ! v < slot_count R'" using N by blast
  qed
qed

lemma slots_count: "slots_at E T C u k s A R \<Longrightarrow> used_from E C u v \<Longrightarrow> map_T R ! v < slot_count R"
  using regs_ok_bound [of T A R v] by (auto simp: slots_at_def slot_count_def)

lemma seen_mono: "seen E C u (Suc k) v \<Longrightarrow> seen E C u k v"
  unfolding seen_def by (meson Suc_leD)

lemma slots_close:
  assumes "slots_at E T C u (Suc k) s A R"
  shows "slots_at E T C u k s A R"
  using assms open_at_mono [of E C k _ "Suc k"] by (auto simp: slots_at_def)

lemma slots_seen: "slots_at E T C u k (Suc s) A R \<Longrightarrow> slots_at E T C u k s A R"
  using seen_mono by (auto simp: slots_at_def)

section \<open>One instruction\<close>

lemma alloc_data_ok:
  assumes wf: "temps_wf E T C" and k: "k < length C" and s: "slots_at E T C k (Suc k) (Suc k) A R"
    and ops: "length ops = length C" "ops ! k = C ! k" "Suc k < length C \<Longrightarrow> opcode (ops ! Suc k) = opcode (C ! Suc k)"
      "Suc k < length C \<Longrightarrow> after_assign_dim C (Suc k) \<Longrightarrow> op2 (ops ! Suc k) = op2 (C ! Suc k)"
  obtains fr R' where
    "alloc_data E ops k R = Some (case fr of None \<Rightarrow> ops | Some i \<Rightarrow> ops[Suc k := (ops ! Suc k)\<lparr>op2 := (op2 (C ! Suc k))\<lparr>num := NUM_VAR E i\<rparr>\<rparr>], fr, R')"
    and "slots_at E T C k (Suc k) k A R'" and "grows T R R'"
    and "case fr of None \<Rightarrow> scratch_of E C k = {}
       | Some i \<Rightarrow> scratch_of E C k \<noteq> {} \<and> Suc k < length C \<and> i < slot_count R' \<and> i \<notin> (!) (map_T R') ` A"
proof (cases "scratch_of E C k = {}")
  case True
  have "alloc_data E ops k R = Some (ops, None, R)"
  proof (cases "opcode (C ! k) = ZEND_ASSIGN_DIM")
    case dim: True
    then have n: "Suc k < length C" using wf_data(3) [OF wf k] by simp
    then have "opcode (C ! Suc k) = ZEND_OP_DATA \<Longrightarrow> \<not> is_temp (op2 (C ! Suc k))"
      using True dim by (auto simp: scratch_of_def after_assign_dim_def temp_of_def split: if_splits)
    then show ?thesis using dim n ops by (auto simp: alloc_data_def Let_def after_assign_dim_def)
  next
    case False
    then show ?thesis using ops by (simp add: alloc_data_def)
  qed
  then show ?thesis using True slots_seen [OF s] by (intro that [of None R]) simp_all
next
  case False
  then obtain w where w: "w \<in> scratch_of E C k" by blast
  then have n: "Suc k < length C" "after_assign_dim C (Suc k)" "is_temp (op2 (C ! Suc k))" "w = VAR_NUM E (num (op2 (C ! Suc k)))"
    by (auto simp: scratch_of_def temp_of_def split: if_splits)
  then have d: "opcode (ops ! k) = ZEND_ASSIGN_DIM" "opcode (ops ! Suc k) = ZEND_OP_DATA" "op2 (ops ! Suc k) = op2 (C ! Suc k)"
    using ops by (simp_all add: after_assign_dim_def)
  note ws = wf_scratch [OF wf k w]
  have R: "regs_ok T A R" by (rule slots_regs_ok [OF s])
  have "\<not> valid_T R ! w" using s ws(1,2) by (auto simp: slots_at_def)
  from scratch_slot_ok [OF R ws(1) this] obtain i R1 where
    i: "GET_AVAILABLE_T R = Some (i, R1)" "regs_ok T A (release i (map_to w i R1))" "grows T R (release i (map_to w i R1))"
      "i \<notin> (!) (map_T R) ` A" "\<forall>v < T. valid_T (release i (map_to w i R1)) ! v \<longleftrightarrow> valid_T R ! v \<or> v = w"
      "i < T \<and> int i \<le> max_T R1" "max_T (release i (map_to w i R1)) = max_T R1" .
  let ?R = "release i (map_to w i R1)"
  have l: "\<not> length (valid_T R) \<le> w" using R ws(1) by (simp add: regs_ok_def)
  have a: "alloc_data E ops k R = Some (ops[Suc k := (ops ! Suc k)\<lparr>op2 := (op2 (C ! Suc k))\<lparr>num := NUM_VAR E i\<rparr>\<rparr>], Some i, ?R)"
    using d n i(1) l ops(1) by (simp add: alloc_data_def Let_def)
  have "seen E C k k w" using w k by (auto simp: seen_def)
  then have "\<forall>v < T. valid_T ?R ! v \<longrightarrow> seen E C k k v" using i(5) s seen_mono by (auto simp: slots_at_def)
  moreover have "\<forall>v < T. valid_T ?R ! v \<and> open_at E C (Suc k) v \<longrightarrow> v \<in> A" using i(5) s ws(3) by (auto simp: slots_at_def)
  ultimately have "slots_at E T C k (Suc k) k A ?R" using i(2,5) s by (simp add: slots_at_def)
  moreover have "(!) (map_T ?R) ` A = (!) (map_T R) ` A"
    using i(3) regs_ok_in [OF R] by (intro image_cong) (auto simp: grows_def)
  moreover have "i < slot_count ?R" using i(6,7) unfolding slot_count_def by linarith
  ultimately show ?thesis
    using a i(3,4) False n(1) by (intro that [of "Some i" ?R]) simp_all
qed

lemma rename_result_ok:
  assumes wf: "temps_wf E T C" and k: "k < length C" and s: "slots_at E T C k (Suc k) k A R"
    and starts: "\<And>v. v < T \<Longrightarrow> starts ! v = Some k \<Longrightarrow> \<not> defined E C k v"
    and res: "result o1 = result (C ! k)"
  obtains z R' A' where "rename_result E starts k o1 R = Some (o1\<lparr>result := z\<rparr>, R')"
    and "slots_at E T C k k k A' R'" and "grows T R R'" and "scratch_of E C k \<noteq> {} \<longrightarrow> A' \<subseteq> A"
    and "if is_temp (result (C ! k))
         then \<exists>i. z = (result (C ! k))\<lparr>num := NUM_VAR E i\<rparr>
                \<and> result_slot E C (slot_count R') ((!) (map_T R')) k (VAR_NUM E (num (result (C ! k)))) i
         else z = result (C ! k)"
proof (cases "is_temp (result (C ! k))")
  case False
  then show ?thesis using slots_close [OF s] res by (intro that [of "result (C ! k)" R A]) (simp_all add: rename_result_def)
next
  case True
  let ?v = "VAR_NUM E (num (result (C ! k)))"
  have v: "?v \<in> defs E C k" using True by (simp add: defs_def temp_of_def)
  note vd = wf_defs [OF wf k v]
  have R: "regs_ok T A R" by (rule slots_regs_ok [OF s])
  have vr: "?v = VAR_NUM E (num (result o1))" using res by simp
  have vA: "valid_T R ! ?v \<Longrightarrow> ?v \<in> A" using s vd by (simp add: slots_at_def)
  from result_T_ok [OF R vr vd(1) vA, of starts k] obtain i R' A' where
    r: "result_T E starts k o1 R = Some (i, R')" and R': "regs_ok T A' R'" "grows T R R'"
    and A': "A - {?v} \<subseteq> A'" "A' \<subseteq> insert ?v A" "starts ! ?v \<noteq> Some k \<longrightarrow> A \<subseteq> A'"
    and i1: "valid_T R ! ?v \<or> \<not> RESULT_UNUSED o1 \<longrightarrow> i = map_T R' ! ?v \<and> valid_T R' ! ?v"
    and A2: "valid_T R ! ?v \<or> RESULT_UNUSED o1 \<longrightarrow> A' \<subseteq> A" "\<not> valid_T R ! ?v \<and> \<not> RESULT_UNUSED o1 \<longrightarrow> ?v \<in> A'"
    and i2: "\<forall>w \<in> A. w \<noteq> ?v \<longrightarrow> map_T R ! w \<noteq> i"
    and va: "\<forall>w < T. valid_T R' ! w \<longleftrightarrow> valid_T R ! w \<or> w = ?v \<and> \<not> RESULT_UNUSED o1"
    and i3: "i < T \<and> int i \<le> max_T R'" .
  have un: "RESULT_UNUSED o1 = RESULT_UNUSED (C ! k)" using res by (simp add: RESULT_UNUSED_def)
  have later: "w < T \<and> valid_T R ! w" if "used_from E C (Suc k) w" for w
    using s used_from_mono [OF that, of k] by (simp add: slots_at_def)
  have dv: "defined E C (length C) ?v" using v k by (auto simp: defined_def)
  have open_v: "w \<in> A'" if "w < T" "valid_T R' ! w" "open_at E C k w" for w
  proof (cases "w = ?v")
    case True
    then have "defined E C k ?v" using that(3) dv by (simp add: open_at_def)
    then have "starts ! ?v \<noteq> Some k" using starts vd(1) by blast
    then show ?thesis using A'(3) A2(2) True that va vA by blast
  next
    case False
    then have "w \<in> A" using that va s open_at_mono [OF that(3), of "Suc k"] by (auto simp: slots_at_def)
    then show ?thesis using A'(1) False by blast
  qed
  have seen_v: "seen E C k k w" if "w < T" "valid_T R' ! w" for w
  proof (cases "w = ?v")
    case True
    then show ?thesis using v k by (auto simp: seen_def)
  next
    case False
    then show ?thesis using that va s by (simp add: slots_at_def)
  qed
  have "slots_at E T C k k k A' R'"
    using R'(1) open_v seen_v s va by (auto simp: slots_at_def)
  moreover have "scratch_of E C k \<noteq> {} \<longrightarrow> A' \<subseteq> A"
  proof
    assume "scratch_of E C k \<noteq> {}"
    then obtain w where "w \<in> scratch_of E C k" by blast
    then have "RESULT_UNUSED (C ! k) \<or> used_from E C (Suc k) ?v" using wf_scratch(5) [OF wf k _ v] by blast
    then show "A' \<subseteq> A" using A2(1) later un by blast
  qed
  moreover have "result_slot E C (slot_count R') ((!) (map_T R')) k ?v i"
    unfolding result_slot_def
  proof (intro conjI allI impI)
    show "i < slot_count R'" using i3 unfolding slot_count_def by linarith
    show "used_from E C (Suc k) ?v \<Longrightarrow> i = map_T R' ! ?v" using i1 later by blast
    fix w assume w: "w \<noteq> ?v \<and> open_at E C (Suc k) w \<and> used_from E C (Suc k) w"
    then have "w < T" "valid_T R ! w" using later by blast+
    moreover from this have "w \<in> A" using w s by (simp add: slots_at_def)
    ultimately show "map_T R' ! w \<noteq> i" using i2 R'(2) w by (auto simp: grows_def)
  qed
  moreover have "rename_result E starts k o1 R = Some (o1\<lparr>result := (result (C ! k))\<lparr>num := NUM_VAR E i\<rparr>\<rparr>, R')"
    using r True res by (simp add: rename_result_def)
  moreover have "\<exists>i'. (result (C ! k))\<lparr>num := NUM_VAR E i\<rparr> = (result (C ! k))\<lparr>num := NUM_VAR E i'\<rparr>
      \<and> result_slot E C (slot_count R') ((!) (map_T R')) k ?v i'"
    using calculation(3) by blast
  ultimately show ?thesis
    using True R'(2) by (intro that [of "(result (C ! k))\<lparr>num := NUM_VAR E i\<rparr>" R' A']) simp_all
qed

text \<open>One step of the loop.\<close>

lemma after_use_keeps:
  assumes "after_use T A V R R'" "grows T R' R''" "usable T A R V" "v \<in> V"
  shows "map_T R'' ! v = map_T R' ! v"
  using assms by (auto simp: after_use_def usable_def grows_def)

lemma rename_operands:
  assumes R: "regs_ok T A R" and u: "usable T A R (temp_of E (op1 o1) \<union> (temp_of E (op2 o1) \<union> ext_temp E o1))"
  shows "\<exists>o2 R2 o3 R3 R'. rename_op1 E o1 R = Some (o2, R2) \<and> opcode o2 = opcode o1 \<and> rename_op2 E o2 R2 = Some (o3, R3)
    \<and> rename_ext E o3 R3 = Some (o1\<lparr>op1 := rename_node E ((!) (map_T R')) (op1 o1), op2 := rename_node E ((!) (map_T R')) (op2 o1),
        extended_value := rename_ext_value E ((!) (map_T R')) o1\<rparr>, R')
    \<and> after_use T A (temp_of E (op1 o1) \<union> (temp_of E (op2 o1) \<union> ext_temp E o1)) R R'"
proof -
  let ?V1 = "temp_of E (op1 o1)" and ?V2 = "temp_of E (op2 o1)" and ?V3 = "ext_temp E o1"
  have u1: "usable T A R ?V1" using u by (simp add: usable_def)
  obtain R1 where r1: "rename_op1 E o1 R = Some (o1\<lparr>op1 := rename_node E ((!) (map_T R1)) (op1 o1)\<rparr>, R1)" "after_use T A ?V1 R R1"
    by (rule rename_op1_ok [OF R u1])
  define o2 where "o2 = o1\<lparr>op1 := rename_node E ((!) (map_T R1)) (op1 o1)\<rparr>"
  have u23: "usable T (A \<union> ?V1) R1 (?V2 \<union> ?V3)" by (rule usable_trans [OF u r1(2)])
  then have u2: "usable T (A \<union> ?V1) R1 (temp_of E (op2 o2))" "usable T (A \<union> ?V1) R1 ?V2" by (simp_all add: usable_def o2_def)
  have ok1: "regs_ok T (A \<union> ?V1) R1" using r1(2) by (simp add: after_use_def)
  obtain R2 where r2: "rename_op2 E o2 R1 = Some (o2\<lparr>op2 := rename_node E ((!) (map_T R2)) (op2 o2)\<rparr>, R2)" "after_use T (A \<union> ?V1) ?V2 R1 R2"
    by (rule rename_op2_ok [OF ok1 u2(1)]) (simp add: o2_def)
  define o3 where "o3 = o2\<lparr>op2 := rename_node E ((!) (map_T R2)) (op2 o2)\<rparr>"
  have e3: "ext_temp E o3 = ?V3" "\<And>m. rename_ext_value E m o3 = rename_ext_value E m o1"
    by (simp_all add: o3_def o2_def ext_temp_def declares_inherited_def rename_ext_value_def)
  have u3: "usable T (A \<union> ?V1 \<union> ?V2) R2 (ext_temp E o3)" using usable_trans [OF u23 r2(2)] e3 by simp
  have ok2: "regs_ok T (A \<union> ?V1 \<union> ?V2) R2" using r2(2) by (simp add: after_use_def)
  obtain R3 where r3: "rename_ext E o3 R2 = Some (o3\<lparr>extended_value := rename_ext_value E ((!) (map_T R3)) o3\<rparr>, R3)"
    "after_use T (A \<union> ?V1 \<union> ?V2) ?V3 R2 R3"
    by (rule rename_ext_ok [OF ok2 u3]) (simp add: e3)
  have g: "grows T R1 R2" "grows T R2 R3" using r2(2) r3(2) by (simp_all add: after_use_def)
  have "rename_node E ((!) (map_T R1)) (op1 o1) = rename_node E ((!) (map_T R3)) (op1 o1)"
    using after_use_keeps [OF r1(2) grows_trans [OF g] u1] by (intro rename_node_cong) simp
  moreover have "rename_node E ((!) (map_T R2)) (op2 o1) = rename_node E ((!) (map_T R3)) (op2 o1)"
    using after_use_keeps [OF r2(2) g(2) u2(2)] by (intro rename_node_cong) simp
  ultimately have "o3\<lparr>extended_value := rename_ext_value E ((!) (map_T R3)) o3\<rparr>
      = o1\<lparr>op1 := rename_node E ((!) (map_T R3)) (op1 o1), op2 := rename_node E ((!) (map_T R3)) (op2 o1),
          extended_value := rename_ext_value E ((!) (map_T R3)) o1\<rparr>"
    by (simp add: o3_def o2_def rename_ext_value_def declares_inherited_def)
  then have "rename_ext E o3 R2 = Some (o1\<lparr>op1 := rename_node E ((!) (map_T R3)) (op1 o1), op2 := rename_node E ((!) (map_T R3)) (op2 o1),
          extended_value := rename_ext_value E ((!) (map_T R3)) o1\<rparr>, R3)" using r3(1) by simp
  moreover have "opcode o2 = opcode o1" by (simp add: o2_def)
  moreover have "after_use T A (?V1 \<union> (?V2 \<union> ?V3)) R R3" by (rule after_use_trans [OF r1(2) after_use_trans [OF r2(2) r3(2)]])
  ultimately show ?thesis using r1(1) r2(1) unfolding o2_def [symmetric] o3_def [symmetric] by blast
qed

lemma rename_data_op:
  assumes wf: "temps_wf E T C" and k: "k < length C" and p: "progress E T C (Suc k) A R ops" and d: "after_assign_dim C k"
  shows "\<exists>ops' R' A'. rename_at E starts ops k R = Some (ops', R') \<and> progress E T C k A' R' ops'"
proof -
  have s: "slots_at E T C (Suc k) (Suc k) (Suc k) A R" and len: "length ops = length C" and same: "\<And>j. j < Suc k \<Longrightarrow> ops ! j = C ! j"
    and al: "allocated E C (slot_count R) ((!) (map_T R)) (Suc k) ops" using p by (auto simp: progress_def)
  have U: "uses E C k = temp_of E (op1 (C ! k))" using d by (simp add: uses_def)
  have u: "usable T A R (temp_of E (op1 (C ! k)))" using operands_usable [OF wf s k] U by simp
  from rename_op1_ok [OF slots_regs_ok [OF s] u] obtain R' where
    r: "rename_op1 E (C ! k) R = Some ((C ! k)\<lparr>op1 := rename_node E ((!) (map_T R')) (op1 (C ! k))\<rparr>, R')"
      "after_use T A (temp_of E (op1 (C ! k))) R R'" .
  let ?o1 = "(C ! k)\<lparr>op1 := rename_node E ((!) (map_T R')) (op1 (C ! k))\<rparr>" and ?A = "A \<union> uses E C k"
  have at: "rename_at E starts ops k R = Some (ops[k := ?o1], R')"
    using d r(1) same [of k] same [of "k - 1"] by (simp add: rename_at_def after_assign_dim_def)
  have s': "slots_at E T C k (Suc k) (Suc k) ?A R'" by (rule operands_slots [OF wf s k]) (use r(2) U in simp)
  have none: "scratch_of E C k = {}" using d by (simp add: scratch_of_def after_assign_dim_def)
  have "op_ok E C (slot_count R') ((!) (map_T R')) k ?o1" using d by (auto simp: op_ok_def intro: exI [of _ "num (op2 (C ! k))"])
  then have "allocated E C (slot_count R') ((!) (map_T R')) k (ops[k := ?o1])"
    using len k none r(2) slots_count [OF s']
    by (intro allocated_step [OF al s _ slots_apart [OF s']]) (auto simp: after_use_def scratch_ok_def)
  then have "progress E T C k ?A R' (ops[k := ?o1])"
    using slots_close [OF slots_seen [OF s']] len same k d by (auto simp: progress_def)
  with at show ?thesis by blast
qed

lemma rename_op:
  assumes wf: "temps_wf E T C" and k: "k < length C" and p: "progress E T C (Suc k) A R ops" and d: "\<not> after_assign_dim C k"
    and starts: "\<And>v. v < T \<Longrightarrow> starts ! v = Some k \<Longrightarrow> \<not> defined E C k v"
  shows "\<exists>ops' R' A'. rename_at E starts ops k R = Some (ops', R') \<and> progress E T C k A' R' ops'"
proof -
  have s: "slots_at E T C (Suc k) (Suc k) (Suc k) A R" and len: "length ops = length C" and same: "\<And>j. j < Suc k \<Longrightarrow> ops ! j = C ! j"
    and al: "allocated E C (slot_count R) ((!) (map_T R)) (Suc k) ops" and nxt: "Suc k < length C \<Longrightarrow> after_assign_dim C (Suc k) \<Longrightarrow> op2 (ops ! Suc k) = op2 (C ! Suc k)"
    using p by (auto simp: progress_def)
  let ?o = "C ! k"
  have U: "uses E C k = temp_of E (op1 ?o) \<union> (temp_of E (op2 ?o) \<union> ext_temp E ?o)" using d by (simp add: uses_def)
  have u: "usable T A R (temp_of E (op1 ?o) \<union> (temp_of E (op2 ?o) \<union> ext_temp E ?o))" using operands_usable [OF wf s k] U by simp
  obtain o1 R1 o2 R2 R3 where r1: "rename_op1 E ?o R = Some (o1, R1)" "opcode o1 = opcode ?o" and r2: "rename_op2 E o1 R1 = Some (o2, R2)"
    and r3: "rename_ext E o2 R2 = Some (?o\<lparr>op1 := rename_node E ((!) (map_T R3)) (op1 ?o), op2 := rename_node E ((!) (map_T R3)) (op2 ?o),
        extended_value := rename_ext_value E ((!) (map_T R3)) ?o\<rparr>, R3)"
    and au: "after_use T A (uses E C k) R R3"
    using rename_operands [OF slots_regs_ok [OF s] u] unfolding U by blast
  let ?o3 = "?o\<lparr>op1 := rename_node E ((!) (map_T R3)) (op1 ?o), op2 := rename_node E ((!) (map_T R3)) (op2 ?o),
        extended_value := rename_ext_value E ((!) (map_T R3)) ?o\<rparr>"
  let ?A = "A \<union> uses E C k"
  have s3: "slots_at E T C k (Suc k) (Suc k) ?A R3" by (rule operands_slots [OF wf s k au])
  have oc: "opcode (ops ! Suc k) = opcode (C ! Suc k)" if "Suc k < length C" using al that by (auto simp: allocated_def op_ok_def)
  have here: "ops ! k = C ! k" by (simp add: same)
  from alloc_data_ok [OF wf k s3 len here oc nxt] obtain fr R4 where
    d4: "alloc_data E ops k R3 = Some (case fr of None \<Rightarrow> ops | Some i \<Rightarrow> ops[Suc k := (ops ! Suc k)\<lparr>op2 := (op2 (C ! Suc k))\<lparr>num := NUM_VAR E i\<rparr>\<rparr>], fr, R4)"
    and s4: "slots_at E T C k (Suc k) k ?A R4" and g4: "grows T R3 R4"
    and f4: "case fr of None \<Rightarrow> scratch_of E C k = {}
       | Some i \<Rightarrow> scratch_of E C k \<noteq> {} \<and> Suc k < length C \<and> i < slot_count R4 \<and> i \<notin> (!) (map_T R4) ` ?A" .
  let ?ops4 = "case fr of None \<Rightarrow> ops | Some i \<Rightarrow> ops[Suc k := (ops ! Suc k)\<lparr>op2 := (op2 (C ! Suc k))\<lparr>num := NUM_VAR E i\<rparr>\<rparr>]"
  have res: "result ?o3 = result (C ! k)" by simp
  from rename_result_ok [where starts = starts, OF wf k s4 starts res] obtain z R5 A5 where
    r5: "rename_result E starts k ?o3 R4 = Some (?o3\<lparr>result := z\<rparr>, R5)" and s5: "slots_at E T C k k k A5 R5"
    and g5: "grows T R4 R5" and A5: "scratch_of E C k \<noteq> {} \<longrightarrow> A5 \<subseteq> ?A"
    and z: "if is_temp (result ?o)
         then \<exists>i. z = (result ?o)\<lparr>num := NUM_VAR E i\<rparr>
                \<and> result_slot E C (slot_count R5) ((!) (map_T R5)) k (VAR_NUM E (num (result ?o))) i
         else z = result ?o" by blast
  let ?R = "case fr of None \<Rightarrow> R5 | Some i \<Rightarrow> release i R5" and ?o4 = "?o3\<lparr>result := z\<rparr>"
  have at: "rename_at E starts ops k R = Some (?ops4[k := ?o4], ?R)"
  proof -
    have "opcode o1 = ZEND_OP_DATA \<Longrightarrow> k \<noteq> 0" using wf_data(1) [OF wf k] r1(2) by auto
    moreover have "\<not> (opcode o1 = ZEND_OP_DATA \<and> opcode (ops ! (k - 1)) = ZEND_ASSIGN_DIM)" if "k \<noteq> 0"
      using d same [of "k - 1"] that r1(2) by (auto simp: after_assign_dim_def)
    ultimately show ?thesis using r1(1) r2 r3 d4 r5 same [of k] by (auto simp: rename_at_def)
  qed
  have R5: "regs_ok T A5 R5" by (rule slots_regs_ok [OF s5])
  have free: "i \<notin> (!) (map_T R5) ` A5" if "fr = Some i" for i
  proof -
    have "i \<notin> (!) (map_T R4) ` ?A" "A5 \<subseteq> ?A" using f4 A5 that by simp_all
    moreover have "map_T R5 ! v = map_T R4 ! v" if "v \<in> ?A" for v
      using regs_ok_in [OF slots_regs_ok [OF s4] that] g5 by (simp add: grows_def)
    ultimately show ?thesis by force
  qed
  have R: "slots_at E T C k k k A5 ?R" "grows T R5 ?R" "map_T ?R = map_T R5" "slot_count ?R = slot_count R5"
  proof -
    show "slots_at E T C k k k A5 ?R"
    proof (cases fr)
      case (Some i)
      then show ?thesis using s5 release_free_ok(1) [OF R5 free [OF Some]] by (simp add: slots_at_def release_def)
    qed (use s5 in simp)
    show "grows T R5 ?R" "map_T ?R = map_T R5" "slot_count ?R = slot_count R5"
      by (cases fr; simp add: grows_def release_def slot_count_def)+
  qed
  have g: "grows T R3 R5" "grows T R R5" using grows_trans [OF g4 g5] grows_trans [of T R R3 R5] au by (auto simp: after_use_def)
  have keep: "map_T R5 ! v = map_T R3 ! v" if "v \<in> uses E C k" for v
    using s3 g(1) wf_uses [OF wf k that] k that by (auto simp: slots_at_def grows_def used_from_Suc)
  have ok: "op_ok E C (slot_count R5) ((!) (map_T R5)) k ?o4"
  proof -
    have "rename_node E ((!) (map_T R5)) (op1 ?o) = rename_node E ((!) (map_T R3)) (op1 ?o)"
      "rename_node E ((!) (map_T R5)) (op2 ?o) = rename_node E ((!) (map_T R3)) (op2 ?o)"
      using keep U by (auto intro!: rename_node_cong)
    moreover have "rename_ext_value E ((!) (map_T R5)) ?o = rename_ext_value E ((!) (map_T R3)) ?o"
      using keep U by (auto intro!: rename_ext_cong)
    ultimately show ?thesis using d z by (auto simp: op_ok_def)
  qed
  have sc: "scratch_ok E C (slot_count R5) ((!) (map_T R5)) k (?ops4[k := ?o4])"
  proof (cases fr)
    case None
    then show ?thesis using f4 by (simp add: scratch_ok_def)
  next
    case (Some i)
    have "m \<in> ?A \<and> map_T R5 ! m = map_T R4 ! m" if "open_at E C k m \<and> used_from E C k m" for m
      using s4 that g5 open_at_mono [of E C k m "Suc k"] by (auto simp: slots_at_def grows_def)
    moreover have "slot_count R4 \<le> slot_count R5" by (rule grows_count [OF g5])
    ultimately show ?thesis using Some f4 len by (fastforce simp: scratch_ok_def)
  qed
  have nxt_ok: "op_ok E C N m (Suc k) (?ops4[k := ?o4] ! Suc k)" if "op_ok E C N m (Suc k) (ops ! Suc k)" for N m
  proof (cases fr)
    case None
    then show ?thesis using that by simp
  next
    case (Some i)
    then have "Suc k < length C" "after_assign_dim C (Suc k)" "is_temp (op2 (C ! Suc k))"
      using f4 by (auto simp: scratch_of_def temp_of_def split: if_splits)
    then show ?thesis using that Some len by (auto simp: op_ok_def)
  qed
  have "allocated E C (slot_count R5) ((!) (map_T R5)) k (?ops4[k := ?o4])"
  proof (rule allocated_step [OF al s g(2) slots_apart [OF s5 order_refl] _ k _ sc])
    show "\<forall>v. used_from E C k v \<longrightarrow> map_T R5 ! v < slot_count R5" using slots_count [OF s5] by blast
    show "op_ok E C (slot_count R5) ((!) (map_T R5)) k (?ops4[k := ?o4] ! k)" using ok k len by (auto split: option.splits)
    show "?ops4[k := ?o4] ! Suc j = ops ! Suc j" if "j < length C" "Suc k \<le> j" for j
      using that by (auto split: option.splits)
    show "op_ok E C N m (Suc k) (?ops4[k := ?o4] ! Suc k)" if "Suc k < length C" "op_ok E C N m (Suc k) (ops ! Suc k)" for N m
      by (rule nxt_ok [OF that(2)])
  qed
  then have "allocated E C (slot_count ?R) ((!) (map_T ?R)) k (?ops4[k := ?o4])" using R(3,4) by simp
  then have "progress E T C k A5 ?R (?ops4[k := ?o4])"
    using R(1) len same d by (auto simp: progress_def split: option.splits)
  with at show ?thesis by blast
qed


section \<open>The loop\<close>

lemma find_starts_ok:
  assumes "\<And>j v. j < k \<Longrightarrow> v \<in> defs E C j \<Longrightarrow> v < length st"
  shows "\<exists>st'. find_starts E C k st = Some st' \<and> length st' = length st
    \<and> (\<forall>v < length st. \<forall>d. st' ! v = Some d \<longrightarrow> (\<forall>j < min k d. v \<notin> defs E C j) \<and> (st ! v = Some d \<or> d < k))"
  using assms
proof (induction k arbitrary: st)
  case 0
  then show ?case by simp
next
  case (Suc k)
  let ?v = "VAR_NUM E (num (result (C ! k)))"
  have step: "\<exists>st'. find_starts E C k st1 = Some st' \<and> length st' = length st
    \<and> (\<forall>v < length st. \<forall>d. st' ! v = Some d \<longrightarrow> (\<forall>j < min k d. v \<notin> defs E C j) \<and> (st1 ! v = Some d \<or> d < k))"
    if l: "length st1 = length st" for st1
  proof -
    have "\<And>j v. j < k \<Longrightarrow> v \<in> defs E C j \<Longrightarrow> v < length st1" using Suc.prems l less_SucI by metis
    from Suc.IH [OF this] show ?thesis using l by simp
  qed
  show ?case
  proof (cases "is_temp (result (C ! k))")
    case True
    then have "?v < length st" using Suc.prems [of k ?v] by (simp add: defs_def temp_of_def)
    then have f: "find_starts E C (Suc k) st = find_starts E C k (st[?v := Some k])" using True by (simp add: Let_def)
    obtain st' where st': "find_starts E C k (st[?v := Some k]) = Some st'" "length st' = length st"
      "\<forall>v < length st. \<forall>d. st' ! v = Some d \<longrightarrow> (\<forall>j < min k d. v \<notin> defs E C j) \<and> (st[?v := Some k] ! v = Some d \<or> d < k)"
      using step [of "st[?v := Some k]"] by auto
    have "(\<forall>j < min (Suc k) d. v \<notin> defs E C j) \<and> (st ! v = Some d \<or> d < Suc k)" if "v < length st" "st' ! v = Some d" for v d
    proof (cases "v = ?v \<and> \<not> d < k")
      case at: True
      then have "d = k" using st'(3) that by auto
      then show ?thesis using st'(3) that by auto
    next
      case False
      then show ?thesis using st'(3) that True
        by (auto simp: less_Suc_eq min_def defs_def temp_of_def split: if_splits)
    qed
    then show ?thesis using f st' by auto
  next
    case False
    obtain st' where st': "find_starts E C k st = Some st'" "length st' = length st"
      "\<forall>v < length st. \<forall>d. st' ! v = Some d \<longrightarrow> (\<forall>j < min k d. v \<notin> defs E C j) \<and> (st ! v = Some d \<or> d < k)"
      using step [of st] by auto
    have "defs E C k = {}" using False by (simp add: defs_def temp_of_def)
    then show ?thesis using False st' by (fastforce simp: less_Suc_eq min_def split: if_splits)
  qed
qed


lemma starts_sound:
  assumes "temps_wf E T C"
  shows "\<exists>starts. find_starts E C (length C) (replicate T None) = Some starts
    \<and> (\<forall>v < T. \<forall>k. starts ! v = Some k \<longrightarrow> \<not> defined E C k v)"
proof -
  have "\<And>j v. j < length C \<Longrightarrow> v \<in> defs E C j \<Longrightarrow> v < length (replicate T (None :: nat option))"
    using wf_defs(1) [OF assms] by simp
  from find_starts_ok [where st = "replicate T None" and k = "length C" and E = E and C = C, OF this]
  show ?thesis by (fastforce simp: defined_def)
qed

lemma rename_from_ok:
  assumes wf: "temps_wf E T C" and st: "\<forall>v < T. \<forall>k. starts ! v = Some k \<longrightarrow> \<not> defined E C k v"
    and k: "k \<le> length C" and p: "progress E T C k A R ops"
  shows "\<exists>ops' R' A'. rename_from E starts ops k R = Some (ops', R') \<and> progress E T C 0 A' R' ops'"
  using k p
proof (induction k arbitrary: A R ops)
  case 0
  then show ?case by auto
next
  case (Suc k)
  then have k: "k < length C" by simp
  obtain ops1 R1 A1 where s: "rename_at E starts ops k R = Some (ops1, R1)" "progress E T C k A1 R1 ops1"
    using rename_data_op [OF wf k Suc.prems(2)] rename_op [OF wf k Suc.prems(2)] st by blast
  from Suc.IH [OF _ s(2)] k obtain ops' R' A' where "rename_from E starts ops1 k R1 = Some (ops', R')" "progress E T C 0 A' R' ops'"
    by auto
  then show ?case using s(1) by auto
qed

text \<open>The pass returns; the slots are allocated, and no more than there were.\<close>

lemma optimize_ok:
  assumes wf: "temps_wf E (T_num oa) (opcodes oa)"
  shows "\<exists>ops N m. optimize_temporary_variables E oa = Some (oa\<lparr>opcodes := ops, T_num := N\<rparr>) \<and> length ops = last_op oa
    \<and> allocated E (opcodes oa) N m 0 ops \<and> N \<le> T_num oa"
proof -
  let ?C = "opcodes oa" and ?T = "T_num oa"
  obtain starts where st: "find_starts E ?C (length ?C) (replicate ?T None) = Some starts"
    "\<forall>v < ?T. \<forall>k. starts ! v = Some k \<longrightarrow> \<not> defined E ?C k v"
    using starts_sound [OF wf] by blast
  have "progress E ?T ?C (length ?C) {} (no_slots ?T) ?C"
    using no_slots_ok [of ?T] by (auto simp: progress_def slots_at_def no_slots_def used_from_def allocated_def)
  from rename_from_ok [OF wf st(2) order_refl this] obtain ops R A where
    r: "rename_from E starts ?C (length ?C) (no_slots ?T) = Some (ops, R)" "progress E ?T ?C 0 A R ops" by blast
  have "max_T R < int ?T" using r(2) by (simp add: progress_def slots_at_def regs_ok_def)
  then have "slot_count R \<le> ?T" by (simp add: slot_count_def)
  then show ?thesis
    using st(1) r by (auto simp: optimize_temporary_variables_def progress_def slot_count_def)
qed


section \<open>A machine with temporaries\<close>

text \<open>
  An instruction is executed together with the \<open>OP_DATA\<close> after it. It reads the temporaries
  that are its operands, and \<open>op1\<close> of the \<open>OP_DATA\<close>; \<open>first\<close> is the part of the handler up to
  the write of the working slot (\<open>op2\<close> of the \<open>OP_DATA\<close>); \<open>second\<close> reads the operands again and
  gives the results of both instructions, the state and the next instruction. Handlers see the
  instructions without the offsets of their temporaries.
\<close>

record ('v, 's) handler =
  first :: "nat \<Rightarrow> zend_op \<Rightarrow> zend_op option \<Rightarrow> 'v option list \<Rightarrow> 's \<Rightarrow> 'v \<times> 's"
  second :: "nat \<Rightarrow> zend_op \<Rightarrow> zend_op option \<Rightarrow> 'v option list \<Rightarrow> 'v \<Rightarrow> 's \<Rightarrow> 'v \<times> 'v \<times> 's \<times> nat option"

definition hide :: "znode \<Rightarrow> znode" where
  "hide z = (if is_temp z then z\<lparr>num := 0\<rparr> else z)"

definition hide_temps :: "zend_op \<Rightarrow> zend_op" where
  "hide_temps o1 = o1\<lparr>op1 := hide (op1 o1), op2 := hide (op2 o1), result := hide (result o1),
     extended_value := (if declares_inherited o1 then 0 else extended_value o1)\<rparr>"

definition data_op :: "zend_op list \<Rightarrow> nat \<Rightarrow> zend_op option" where
  "data_op C p = (if Suc p < length C \<and> opcode (C ! Suc p) = ZEND_OP_DATA then Some (C ! Suc p) else None)"

definition read_temp :: "var_enc \<Rightarrow> (nat \<Rightarrow> 'v) \<Rightarrow> znode \<Rightarrow> 'v option" where
  "read_temp E t z = (if is_temp z then Some (t (VAR_NUM E (num z))) else None)"

definition write_temp :: "var_enc \<Rightarrow> (nat \<Rightarrow> 'v) \<Rightarrow> znode \<Rightarrow> 'v \<Rightarrow> nat \<Rightarrow> 'v" where
  "write_temp E t z x = (if is_temp z then t(VAR_NUM E (num z) := x) else t)"

definition read_ext :: "var_enc \<Rightarrow> (nat \<Rightarrow> 'v) \<Rightarrow> zend_op \<Rightarrow> 'v option" where
  "read_ext E t o1 = (if declares_inherited o1 then Some (t (VAR_NUM E (extended_value o1))) else None)"

definition inputs :: "var_enc \<Rightarrow> (nat \<Rightarrow> 'v) \<Rightarrow> zend_op \<Rightarrow> zend_op option \<Rightarrow> 'v option list" where
  "inputs E t o1 d = [read_temp E t (op1 o1), read_temp E t (op2 o1), read_ext E t o1,
     (case d of None \<Rightarrow> None | Some o2 \<Rightarrow> read_temp E t (op1 o2))]"

definition write_data :: "var_enc \<Rightarrow> (nat \<Rightarrow> 'v) \<Rightarrow> zend_op option \<Rightarrow> 'v \<Rightarrow> nat \<Rightarrow> 'v" where
  "write_data E t d x = (case d of None \<Rightarrow> t | Some o2 \<Rightarrow> write_temp E t (op2 o2) x)"

definition write_results :: "var_enc \<Rightarrow> (nat \<Rightarrow> 'v) \<Rightarrow> zend_op \<Rightarrow> zend_op option \<Rightarrow> 'v \<Rightarrow> 'v \<Rightarrow> nat \<Rightarrow> 'v" where
  "write_results E t o1 d x y = (case d of None \<Rightarrow> write_temp E t (result o1) x
     | Some o2 \<Rightarrow> write_temp E (write_temp E t (result o1) x) (result o2) y)"

definition temp_step ::
  "('v, 's) handler \<Rightarrow> var_enc \<Rightarrow> zend_op list \<Rightarrow> nat \<Rightarrow> (nat \<Rightarrow> 'v) \<Rightarrow> 's \<Rightarrow> (nat \<Rightarrow> 'v) \<times> 's \<times> nat option" where
  "temp_step H E C p t s =
     (let o1 = C ! p; d = data_op C p; h = hide_temps o1; hd = map_option hide_temps d;
          (x, s1) = first H p h hd (inputs E t o1 d) s;
          t1 = write_data E t d x;
          (r, key, s2, q) = second H p h hd (inputs E t1 o1 d) x s1
      in (write_results E t1 o1 d r key, s2, q))"

text \<open>\<open>temp_run H E C p t s s'\<close>: started at \<open>p\<close> the code leaves with the state \<open>s'\<close>.\<close>

inductive temp_run :: "('v, 's) handler \<Rightarrow> var_enc \<Rightarrow> zend_op list \<Rightarrow> nat \<Rightarrow> (nat \<Rightarrow> 'v) \<Rightarrow> 's \<Rightarrow> 's \<Rightarrow> bool"
  for H E C where
  Leave: "p < length C \<Longrightarrow> temp_step H E C p t s = (t', s', None) \<Longrightarrow> temp_run H E C p t s s'"
| Go: "p < length C \<Longrightarrow> temp_step H E C p t s = (t', s', Some q) \<Longrightarrow> temp_run H E C q t' s' r \<Longrightarrow> temp_run H E C p t s r"

text \<open>\<open>L p\<close> are the temporaries that are live before \<open>p\<close>, for code whose handlers continue at
  \<open>next_ops p\<close>: they include the operands, were defined earlier in the code, and those that are
  live afterwards are used later in the code.\<close>

definition reads :: "var_enc \<Rightarrow> zend_op list \<Rightarrow> nat \<Rightarrow> nat set" where
  "reads E C p = temp_of E (op1 (C ! p)) \<union> temp_of E (op2 (C ! p)) \<union> ext_temp E (C ! p)
     \<union> (case data_op C p of None \<Rightarrow> {} | Some o2 \<Rightarrow> temp_of E (op1 o2))"

definition writes :: "var_enc \<Rightarrow> zend_op list \<Rightarrow> nat \<Rightarrow> nat set" where
  "writes E C p = temp_of E (result (C ! p)) \<union> (case data_op C p of None \<Rightarrow> {} | Some o2 \<Rightarrow> temp_of E (result o2))"

definition after_op :: "zend_op list \<Rightarrow> nat \<Rightarrow> nat" where
  "after_op C p = (case data_op C p of None \<Rightarrow> Suc p | Some _ \<Rightarrow> Suc (Suc p))"

definition live_ok :: "var_enc \<Rightarrow> zend_op list \<Rightarrow> (nat \<Rightarrow> nat set) \<Rightarrow> (nat \<Rightarrow> nat set) \<Rightarrow> bool" where
  "live_ok E C next_ops L \<longleftrightarrow> (\<forall>p < length C. opcode (C ! p) \<noteq> ZEND_OP_DATA \<longrightarrow>
     reads E C p \<subseteq> L p \<and> (\<forall>v \<in> L p. defined E C p v \<and> used_from E C p v)
   \<and> (\<forall>q \<in> next_ops p. (q < length C \<longrightarrow> opcode (C ! q) \<noteq> ZEND_OP_DATA)
        \<and> (\<forall>v \<in> L q. (v \<in> writes E C p \<or> v \<in> L p) \<and> used_from E C (after_op C p) v)))"

text \<open>The working slots of other instructions than \<open>ASSIGN_DIM\<close> are uses without a definition.\<close>

definition data_wf :: "var_enc \<Rightarrow> zend_op list \<Rightarrow> bool" where
  "data_wf E C \<longleftrightarrow> (\<forall>p. Suc p < length C \<and> opcode (C ! Suc p) = ZEND_OP_DATA \<longrightarrow>
     opcode (C ! p) \<noteq> ZEND_OP_DATA \<and> (\<forall>w \<in> temp_of E (op2 (C ! Suc p)). \<not> defined E C (length C) w))"

definition goes :: "('v, 's) handler \<Rightarrow> (nat \<Rightarrow> nat set) \<Rightarrow> bool" where
  "goes H next_ops \<longleftrightarrow> (\<forall>p h hd xs x s r k s' q. second H p h hd xs x s = (r, k, s', Some q) \<longrightarrow> q \<in> next_ops p)"

section \<open>The renamed code behaves the same\<close>

definition slots_enc :: "var_enc \<Rightarrow> nat \<Rightarrow> bool" where
  "slots_enc E T \<longleftrightarrow> (\<forall>i < T. VAR_NUM E (NUM_VAR E i) = i)"

lemma open_at_used:
  assumes wf: "temps_wf E T C" and "used_from E C j v" and d: "defined E C (length C) v \<longrightarrow> defined E C k v"
  shows "open_at E C k v"
proof -
  obtain i where i: "i < length C" "v \<in> uses E C i" using assms(2) by (auto simp: used_from_def)
  then show ?thesis using wf_uses(2) [OF wf i] d by (simp add: open_at_def)
qed

lemma defined_all: "defined E C k v \<Longrightarrow> k \<le> length C \<Longrightarrow> defined E C (length C) v"
  by (rule defined_mono)

lemma hide_num [simp]: "is_temp z \<Longrightarrow> hide (z\<lparr>num := x\<rparr>) = hide z"
  by (simp add: hide_def is_temp_def)

lemma hide_rename [simp]: "hide (rename_node E m z) = hide z"
  by (simp add: rename_node_def)

lemma is_temp_num [simp]: "is_temp (z\<lparr>num := x\<rparr>) = is_temp z" "is_temp (z\<lparr>ext_unused := b\<rparr>) = is_temp z"
  by (simp_all add: is_temp_def)

lemma op_ok_hidden: "op_ok E C N m j o1 \<Longrightarrow> hide_temps o1 = hide_temps (C ! j)"
  by (auto simp: op_ok_def hide_temps_def rename_ext_value_def declares_inherited_def split: if_splits)

lemma read_renamed:
  assumes "slots_enc E T" "\<And>v. v \<in> temp_of E z \<Longrightarrow> m v < T \<and> t' (m v) = t v"
  shows "read_temp E t' (rename_node E m z) = read_temp E t z"
  using assms by (auto simp: read_temp_def rename_node_def temp_of_def slots_enc_def)

lemma read_ext_renamed:
  assumes "slots_enc E T" "\<And>v. v \<in> ext_temp E o1 \<Longrightarrow> m v < T \<and> t' (m v) = t v"
    and "opcode o2 = opcode o1" "extended_value o2 = rename_ext_value E m o1"
  shows "read_ext E t' o2 = read_ext E t o1"
  using assms by (auto simp: read_ext_def rename_ext_value_def ext_temp_def slots_enc_def declares_inherited_def)

text \<open>What is assumed of the code, the engine and the allocation.\<close>

definition renaming :: "('v, 's) handler \<Rightarrow> var_enc \<Rightarrow> nat \<Rightarrow> zend_op list \<Rightarrow> (nat \<Rightarrow> nat set) \<Rightarrow> (nat \<Rightarrow> nat set) \<Rightarrow>
    nat \<Rightarrow> (nat \<Rightarrow> nat) \<Rightarrow> zend_op list \<Rightarrow> bool" where
  "renaming H E T C next_ops L N m ops \<longleftrightarrow> temps_wf E T C \<and> data_wf E C \<and> live_ok E C next_ops L \<and> goes H next_ops
     \<and> slots_enc E T \<and> allocated E C N m 0 ops \<and> N \<le> T \<and> length ops = length C"

lemma renaming_op:
  assumes r: "renaming H E T C next_ops L N m ops" and p: "p < length C"
  shows "op_ok E C N m p (ops ! p)" and "scratch_ok E C N m p ops" and "apart E C m p"
    and "used_from E C k v \<Longrightarrow> m v < T"
proof -
  have a: "allocated E C N m 0 ops" "N \<le> T" using r by (simp_all add: renaming_def)
  show "op_ok E C N m p (ops ! p)" "scratch_ok E C N m p ops" "apart E C m p" using a(1) p by (simp_all add: allocated_def)
  show "m v < T" if "used_from E C k v" using a used_from_mono [OF that, of 0] by (fastforce simp: allocated_def)
qed

lemma data_op_renamed:
  assumes r: "renaming H E T C next_ops L N m ops"
  shows "data_op ops p = (case data_op C p of None \<Rightarrow> None | Some _ \<Rightarrow> Some (ops ! Suc p))"
    and "map_option hide_temps (data_op ops p) = map_option hide_temps (data_op C p)"
proof -
  have len: "length ops = length C" using r by (simp add: renaming_def)
  have o: "opcode (ops ! Suc p) = opcode (C ! Suc p) \<and> hide_temps (ops ! Suc p) = hide_temps (C ! Suc p)" if "Suc p < length C"
    using renaming_op(1) [OF r that] op_ok_hidden by (auto simp: op_ok_def)
  then show "data_op ops p = (case data_op C p of None \<Rightarrow> None | Some _ \<Rightarrow> Some (ops ! Suc p))"
    "map_option hide_temps (data_op ops p) = map_option hide_temps (data_op C p)"
    using len by (auto simp: data_op_def)
qed

text \<open>The live temporaries have the same values.\<close>

definition agree :: "(nat \<Rightarrow> nat) \<Rightarrow> nat set \<Rightarrow> (nat \<Rightarrow> 'v) \<Rightarrow> (nat \<Rightarrow> 'v) \<Rightarrow> bool" where
  "agree m V t t' \<longleftrightarrow> (\<forall>v \<in> V. t' (m v) = t v)"

lemma live_facts:
  assumes r: "renaming H E T C next_ops L N m ops" and p: "p < length C" "opcode (C ! p) \<noteq> ZEND_OP_DATA"
  shows "reads E C p \<subseteq> L p" and "v \<in> L p \<Longrightarrow> defined E C p v \<and> used_from E C p v \<and> open_at E C p v"
    and "q \<in> next_ops p \<Longrightarrow> v \<in> L q \<Longrightarrow> (v \<in> writes E C p \<or> v \<in> L p) \<and> used_from E C (after_op C p) v"
    and "q \<in> next_ops p \<Longrightarrow> q < length C \<Longrightarrow> opcode (C ! q) \<noteq> ZEND_OP_DATA"
proof -
  have "live_ok E C next_ops L" and wf: "temps_wf E T C" using r by (simp_all add: renaming_def)
  then have l: "reads E C p \<subseteq> L p" "\<forall>v \<in> L p. defined E C p v \<and> used_from E C p v"
    "\<forall>q \<in> next_ops p. (q < length C \<longrightarrow> opcode (C ! q) \<noteq> ZEND_OP_DATA)
        \<and> (\<forall>v \<in> L q. (v \<in> writes E C p \<or> v \<in> L p) \<and> used_from E C (after_op C p) v)"
    unfolding live_ok_def using p by blast+
  show "reads E C p \<subseteq> L p" by (rule l(1))
  show "defined E C p v \<and> used_from E C p v \<and> open_at E C p v" if "v \<in> L p"
    using l(2) that open_at_used [OF wf, of p v p] by simp
  show "(v \<in> writes E C p \<or> v \<in> L p) \<and> used_from E C (after_op C p) v" if "q \<in> next_ops p" "v \<in> L q"
    using l(3) that by simp
  show "opcode (C ! q) \<noteq> ZEND_OP_DATA" if "q \<in> next_ops p" "q < length C" using l(3) that by simp
qed

lemma inputs_renamed:
  assumes r: "renaming H E T C next_ops L N m ops" and p: "p < length C" "opcode (C ! p) \<noteq> ZEND_OP_DATA"
    and t: "agree m (L p) t t'"
  shows "inputs E t' (ops ! p) (data_op ops p) = inputs E t (C ! p) (data_op C p)"
proof -
  have e: "slots_enc E T" using r by (simp add: renaming_def)
  have v: "m v < T \<and> t' (m v) = t v" if "v \<in> reads E C p" for v
  proof -
    have "v \<in> L p" using live_facts(1) [OF r p] that by blast
    then show ?thesis using t live_facts(2) [OF r p] renaming_op(4) [OF r p(1)] by (auto simp: agree_def)
  qed
  have n: "\<not> after_assign_dim C p" using p(2) by (simp add: after_assign_dim_def)
  then have o: "op1 (ops ! p) = rename_node E m (op1 (C ! p))" "op2 (ops ! p) = rename_node E m (op2 (C ! p))"
    "opcode (ops ! p) = opcode (C ! p)" "extended_value (ops ! p) = rename_ext_value E m (C ! p)"
    using renaming_op(1) [OF r p(1)] by (simp_all add: op_ok_def)
  have d: "op1 (ops ! Suc p) = rename_node E m (op1 (C ! Suc p))" if "data_op C p = Some x" for x
    using renaming_op(1) [OF r, of "Suc p"] that by (simp add: op_ok_def data_op_def split: if_splits)
  have "read_temp E t' (op1 (ops ! p)) = read_temp E t (op1 (C ! p))" "read_temp E t' (op2 (ops ! p)) = read_temp E t (op2 (C ! p))"
    unfolding o by (rule read_renamed [OF e], use v in \<open>simp add: reads_def\<close>)+
  moreover have "read_ext E t' (ops ! p) = read_ext E t (C ! p)"
    by (rule read_ext_renamed [OF e _ o(3,4)]) (use v in \<open>simp add: reads_def\<close>)
  moreover have "read_temp E t' (op1 (ops ! Suc p)) = read_temp E t (op1 x)" if x: "data_op C p = Some x" for x
  proof -
    have "x = C ! Suc p" using x by (simp add: data_op_def split: if_splits)
    then show ?thesis unfolding d [OF x]
      by (simp only:) (rule read_renamed [OF e], use v x in \<open>simp add: reads_def\<close>)
  qed
  ultimately show ?thesis using data_op_renamed(1) [OF r, of p] by (auto simp: inputs_def split: option.splits)
qed

text \<open>Writing the working slot changes no live temporary.\<close>

lemma scratch_slot:
  assumes r: "renaming H E T C next_ops L N m ops" and p: "p < length C" "opcode (C ! p) \<noteq> ZEND_OP_DATA"
    and d: "data_op C p = Some o2" "is_temp (op2 o2)"
  shows "VAR_NUM E (num (op2 o2)) \<notin> L p" and "is_temp (op2 (ops ! Suc p))"
    and "\<forall>v \<in> L p. m v \<noteq> VAR_NUM E (num (op2 (ops ! Suc p)))"
proof -
  have wf: "temps_wf E T C" and dw: "data_wf E C" and e: "slots_enc E T" and NT: "N \<le> T" using r by (simp_all add: renaming_def)
  have n: "Suc p < length C" "opcode (C ! Suc p) = ZEND_OP_DATA" "o2 = C ! Suc p" using d(1) by (auto simp: data_op_def split: if_splits)
  let ?w = "VAR_NUM E (num (op2 o2))"
  have w: "?w \<in> temp_of E (op2 (C ! Suc p))" using d(2) n(3) by (simp add: temp_of_def)
  have nd: "\<not> defined E C (length C) ?w" using dw n(1,2) w unfolding data_wf_def by blast
  show wL: "?w \<notin> L p" using live_facts(2) [OF r p] defined_all [of E C p ?w] p(1) nd by auto
  note o = renaming_op(1) [OF r n(1)]
  have "is_temp (op2 (ops ! Suc p)) \<and> (\<forall>v \<in> L p. m v \<noteq> VAR_NUM E (num (op2 (ops ! Suc p))))"
  proof (cases "after_assign_dim C (Suc p)")
    case True
    then have "scratch_of E C p \<noteq> {}" using n d(2) by (simp add: scratch_of_def temp_of_def)
    then obtain i where i: "i < N" "op2 (ops ! Suc p) = (op2 (C ! Suc p))\<lparr>num := NUM_VAR E i\<rparr>"
      "\<forall>v. open_at E C p v \<and> used_from E C p v \<longrightarrow> m v \<noteq> i"
      using renaming_op(2) [OF r p(1)] by (auto simp: scratch_ok_def)
    have "VAR_NUM E (NUM_VAR E i) = i" using e i(1) NT by (simp add: slots_enc_def)
    then show ?thesis using i(2,3) live_facts(2) [OF r p] d(2) n(3) by simp
  next
    case False
    then have op2: "op2 (ops ! Suc p) = rename_node E m (op2 (C ! Suc p))" using o by (simp add: op_ok_def)
    have u: "?w \<in> uses E C (Suc p)" using w False by (simp add: uses_def)
    then have ow: "open_at E C p ?w" "used_from E C p ?w"
      using wf_uses(2) [OF wf n(1) u] nd n(1) by (auto simp: open_at_def used_from_def intro: exI [of _ "Suc p"])
    have "VAR_NUM E (NUM_VAR E (m ?w)) = m ?w" using e renaming_op(4) [OF r p(1) ow(2)] by (simp add: slots_enc_def)
    moreover have "m v \<noteq> m ?w" if "v \<in> L p" for v
      using renaming_op(3) [OF r p(1)] live_facts(2) [OF r p that] ow that wL
      by (auto simp: apart_def inj_on_def)
    ultimately show ?thesis using op2 d(2) n(3) by (simp add: rename_node_def)
  qed
  then show "is_temp (op2 (ops ! Suc p))" "\<forall>v \<in> L p. m v \<noteq> VAR_NUM E (num (op2 (ops ! Suc p)))" by blast+
qed

lemma scratch_agrees:
  assumes r: "renaming H E T C next_ops L N m ops" and p: "p < length C" "opcode (C ! p) \<noteq> ZEND_OP_DATA"
    and t: "agree m (L p) t t'"
  shows "agree m (L p) (write_data E t (data_op C p) x) (write_data E t' (data_op ops p) x)"
proof (cases "data_op C p")
  case None
  then show ?thesis using t data_op_renamed(1) [OF r, of p] by (simp add: write_data_def)
next
  case (Some o2)
  then have d: "data_op ops p = Some (ops ! Suc p)" using data_op_renamed(1) [OF r, of p] by simp
  show ?thesis
  proof (cases "is_temp (op2 o2)")
    case True
    note s = scratch_slot [OF r p Some True]
    show ?thesis unfolding agree_def
    proof
      fix v assume v: "v \<in> L p"
      then have "v \<noteq> VAR_NUM E (num (op2 o2))" "m v \<noteq> VAR_NUM E (num (op2 (ops ! Suc p)))" using s(1,3) by blast+
      then show "write_data E t' (data_op ops p) x (m v) = write_data E t (data_op C p) x v"
        using t v Some d True s(2) by (simp add: agree_def write_data_def write_temp_def)
    qed
  next
    case False
    have n: "Suc p < length C" "o2 = C ! Suc p" using Some by (auto simp: data_op_def split: if_splits)
    then have "op_ty (op2 (ops ! Suc p)) = op_ty (op2 o2)"
      using renaming_op(1) [OF r n(1)] False by (auto simp: op_ok_def rename_node_def split: if_splits)
    then have "\<not> is_temp (op2 (ops ! Suc p))" using False by (simp add: is_temp_def)
    then show ?thesis using t Some d False by (simp add: write_data_def write_temp_def)
  qed
qed

text \<open>Writing one result.\<close>

lemma write_result:
  assumes r: "renaming H E T C next_ops L N m ops" and j: "j < length C" and n: "\<not> after_assign_dim C j"
    and v: "used_from E C (Suc j) v" "v \<notin> defs E C j \<Longrightarrow> defined E C j v \<and> t' (m v) = t v"
  shows "write_temp E t' (result (ops ! j)) x (m v) = write_temp E t (result (C ! j)) x v"
proof -
  have o: "op_ok E C N m j (ops ! j)" by (rule renaming_op(1) [OF r j])
  have e: "slots_enc E T" and NT: "N \<le> T" and wf: "temps_wf E T C" using r by (simp_all add: renaming_def)
  show ?thesis
  proof (cases "is_temp (result (C ! j))")
    case False
    then have "result (ops ! j) = result (C ! j)" "v \<notin> defs E C j" using o n by (simp_all add: op_ok_def defs_def temp_of_def)
    then show ?thesis using False v(2) by (simp add: write_temp_def)
  next
    case True
    let ?r = "VAR_NUM E (num (result (C ! j)))"
    obtain i where i: "result (ops ! j) = (result (C ! j))\<lparr>num := NUM_VAR E i\<rparr>" "result_slot E C N m j ?r i"
      using o n True by (auto simp: op_ok_def)
    have vn: "VAR_NUM E (NUM_VAR E i) = i" using e NT i(2) by (simp add: slots_enc_def result_slot_def)
    have dr: "defs E C j = {?r}" using True by (simp add: defs_def temp_of_def)
    show ?thesis
    proof (cases "v = ?r")
      case eq: True
      then have "i = m v" using i(2) v(1) by (simp add: result_slot_def)
      then show ?thesis using eq i(1) vn True by (simp add: write_temp_def)
    next
      case False
      then have d: "defined E C j v" "t' (m v) = t v" using v(2) dr by auto
      have "defined E C (Suc j) v" by (rule defined_mono [OF d(1)]) simp
      then have "open_at E C (Suc j) v" using open_at_used [OF wf v(1), of "Suc j"] by blast
      then have "m v \<noteq> i" using i(2) v(1) False by (auto simp: result_slot_def)
      then show ?thesis using False d(2) i(1) vn True by (simp add: write_temp_def)
    qed
  qed
qed


lemma results_agree:
  assumes r: "renaming H E T C next_ops L N m ops" and p: "p < length C" "opcode (C ! p) \<noteq> ZEND_OP_DATA"
    and t: "agree m (L p) t t'" and q: "q \<in> next_ops p"
  shows "agree m (L q) (write_results E t (C ! p) (data_op C p) x y) (write_results E t' (ops ! p) (data_op ops p) x y)"
  unfolding agree_def
proof
  fix v assume v: "v \<in> L q"
  have wf: "temps_wf E T C" using r by (simp add: renaming_def)
  have vw: "v \<in> writes E C p \<or> v \<in> L p" "used_from E C (after_op C p) v" using live_facts(3) [OF r p q v] by blast+
  have n: "\<not> after_assign_dim C p" using p(2) by (simp add: after_assign_dim_def)
  have vp: "v \<in> L p \<Longrightarrow> defined E C p v \<and> t' (m v) = t v" using live_facts(2) [OF r p] t by (simp add: agree_def)
  show "write_results E t' (ops ! p) (data_op ops p) x y (m v) = write_results E t (C ! p) (data_op C p) x y v"
  proof (cases "data_op C p")
    case None
    then have d: "data_op ops p = None" using data_op_renamed(1) [OF r, of p] by simp
    have "v \<in> defs E C p \<or> v \<in> L p" "used_from E C (Suc p) v" using vw None by (simp_all add: writes_def after_op_def defs_def)
    then have "write_temp E t' (result (ops ! p)) x (m v) = write_temp E t (result (C ! p)) x v"
      using vp by (intro write_result [OF r p(1) n]) blast+
    then show ?thesis using None d by (simp add: write_results_def)
  next
    case (Some o2)
    then have d: "data_op ops p = Some (ops ! Suc p)" using data_op_renamed(1) [OF r, of p] by simp
    have n2: "Suc p < length C" "opcode (C ! Suc p) = ZEND_OP_DATA" "o2 = C ! Suc p" using Some by (auto simp: data_op_def split: if_splits)
    have u: "used_from E C (Suc (Suc p)) v" using vw(2) Some by (simp add: after_op_def)
    have vd: "v \<in> defs E C (Suc p) \<or> v \<in> defs E C p \<or> v \<in> L p" using vw(1) Some n2(3) by (auto simp: writes_def defs_def)
    let ?t = "write_temp E t (result (C ! p)) x" and ?t' = "write_temp E t' (result (ops ! p)) x"
    have one: "defined E C (Suc p) v \<and> ?t' (m v) = ?t v" if "v \<notin> defs E C (Suc p)"
    proof -
      have "v \<in> defs E C p \<or> v \<in> L p" using vd that by blast
      then have "defined E C (Suc p) v" using vp defined_mono [of E C p v "Suc p"] p(1) by (auto simp: defined_def)
      moreover have pre: "v \<notin> defs E C p \<Longrightarrow> defined E C p v \<and> t' (m v) = t v" using \<open>v \<in> defs E C p \<or> v \<in> L p\<close> vp by blast
      have "used_from E C (Suc p) v" by (rule used_from_mono [OF u]) simp
      then have "?t' (m v) = ?t v" by (rule write_result [OF r p(1) n]) (rule pre)
      ultimately show ?thesis by blast
    qed
    have "write_temp E ?t' (result (ops ! Suc p)) y (m v) = write_temp E ?t (result (C ! Suc p)) y v"
    proof (cases "after_assign_dim C (Suc p)")
      case True
      then have "\<not> is_temp (result (C ! Suc p))" by (rule wf_data(2) [OF wf n2(1)])
      then have "v \<notin> defs E C (Suc p)" "result (ops ! Suc p) = result (C ! Suc p)"
        using renaming_op(1) [OF r n2(1)] True by (simp_all add: defs_def temp_of_def op_ok_def)
      then show ?thesis using one \<open>\<not> is_temp (result (C ! Suc p))\<close> by (simp add: write_temp_def)
    next
      case False
      show ?thesis by (rule write_result [OF r n2(1) False u]) (rule one)
    qed
    then show ?thesis using Some d n2(3) by (simp add: write_results_def)
  qed
qed

lemma step_renamed:
  assumes r: "renaming H E T C next_ops L N m ops" and p: "p < length C" "opcode (C ! p) \<noteq> ZEND_OP_DATA"
    and t: "agree m (L p) t t'" and st: "temp_step H E C p t s = (t1, s1, q)"
  shows "\<exists>t1'. temp_step H E ops p t' s = (t1', s1, q)
    \<and> (\<forall>q'. q = Some q' \<longrightarrow> agree m (L q') t1 t1' \<and> (q' < length C \<longrightarrow> opcode (C ! q') \<noteq> ZEND_OP_DATA))"
proof -
  let ?d = "data_op C p" and ?d' = "data_op ops p"
  have h: "hide_temps (ops ! p) = hide_temps (C ! p)" by (rule op_ok_hidden [OF renaming_op(1) [OF r p(1)]])
  note hd = data_op_renamed(2) [OF r, of p]
  obtain x s2 where f: "first H p (hide_temps (C ! p)) (map_option hide_temps ?d) (inputs E t (C ! p) ?d) s = (x, s2)" by fastforce
  let ?t = "write_data E t ?d x" and ?t' = "write_data E t' ?d' x"
  have a: "agree m (L p) ?t ?t'" by (rule scratch_agrees [OF r p t])
  note i = inputs_renamed [OF r p t] inputs_renamed [OF r p a]
  obtain y k s3 q3 where sec: "second H p (hide_temps (C ! p)) (map_option hide_temps ?d) (inputs E ?t (C ! p) ?d) x s2 = (y, k, s3, q3)"
    by (metis prod_cases4)
  have orig: "t1 = write_results E ?t (C ! p) ?d y k" "s1 = s3" "q = q3"
    using st f sec by (simp_all add: temp_step_def Let_def)
  have new: "temp_step H E ops p t' s = (write_results E ?t' (ops ! p) ?d' y k, s3, q3)"
    using f sec by (simp add: temp_step_def Let_def h hd i)
  have "q' \<in> next_ops p" if "q = Some q'" for q'
    using r sec that orig(3) unfolding renaming_def goes_def by blast
  then have "\<forall>q'. q = Some q' \<longrightarrow> agree m (L q') t1 (write_results E ?t' (ops ! p) ?d' y k)
      \<and> (q' < length C \<longrightarrow> opcode (C ! q') \<noteq> ZEND_OP_DATA)"
    using results_agree [OF r p a] live_facts(4) [OF r p] orig(1) by simp
  then show ?thesis using new orig(2,3) by simp
qed

lemma run_renamed:
  assumes "temp_run H E C p t s s'" and r: "renaming H E T C next_ops L N m ops"
    and "agree m (L p) t t'" and "p < length C \<longrightarrow> opcode (C ! p) \<noteq> ZEND_OP_DATA"
  shows "temp_run H E ops p t' s s'"
  using assms(1,3,4)
proof (induction arbitrary: t' rule: temp_run.induct)
  case (Leave p t s t1 s1)
  then show ?case using step_renamed [OF r, of p t t' s t1 s1 None] r
    by (auto simp: renaming_def intro!: temp_run.Leave)
next
  case (Go p t s t1 s1 q s2)
  have p: "opcode (C ! p) \<noteq> ZEND_OP_DATA" using Go by simp
  from step_renamed [OF r Go.hyps(1) p Go.prems(1) Go.hyps(2)] obtain t1' where
    "temp_step H E ops p t' s = (t1', s1, Some q)" "agree m (L q) t1 t1'" "q < length C \<longrightarrow> opcode (C ! q) \<noteq> ZEND_OP_DATA"
    by auto
  moreover have "p < length ops" using Go.hyps(1) r by (simp add: renaming_def)
  ultimately show ?case using Go.IH by (blast intro: temp_run.Go)
qed


lemma run_original:
  assumes "temp_run H E ops p t' s s'" and r: "renaming H E T C next_ops L N m ops"
    and "agree m (L p) t t'" and "p < length C \<longrightarrow> opcode (C ! p) \<noteq> ZEND_OP_DATA"
  shows "temp_run H E C p t s s'"
proof -
  have len: "length ops = length C" using r by (simp add: renaming_def)
  show ?thesis using assms(1,3,4)
  proof (induction arbitrary: t rule: temp_run.induct)
    case (Leave p t' s t1' s1)
    then have p: "p < length C" "opcode (C ! p) \<noteq> ZEND_OP_DATA" using len by simp_all
    obtain t1 s2 q where st: "temp_step H E C p t s = (t1, s2, q)" by (metis prod_cases3)
    from step_renamed [OF r p Leave.prems(1) st] have "s2 = s1" "q = None" using Leave.hyps(2) by auto
    with st p(1) show ?case by (auto intro: temp_run.Leave)
  next
    case (Go p t' s t1' s1 q s2)
    then have p: "p < length C" "opcode (C ! p) \<noteq> ZEND_OP_DATA" using len by simp_all
    obtain t1 s3 q3 where st: "temp_step H E C p t s = (t1, s3, q3)" by (metis prod_cases3)
    from step_renamed [OF r p Go.prems(1) st] have "s3 = s1" "q3 = Some q" "agree m (L q) t1 t1'"
      "q < length C \<longrightarrow> opcode (C ! q) \<noteq> ZEND_OP_DATA" using Go.hyps(2) by auto
    with st p(1) Go.IH show ?case by (blast intro: temp_run.Go)
  qed
qed

lemma allocated_in_range:
  assumes a: "allocated E C N m 0 ops" and e: "slots_enc E N" and j: "j < length C"
    and v: "v \<in> temp_of E (op1 (ops ! j)) \<union> temp_of E (op2 (ops ! j)) \<union> temp_of E (result (ops ! j)) \<union> ext_temp E (ops ! j)"
    and wf: "temps_wf E T C"
  shows "v < N"
proof -
  have o: "op_ok E C N m j (ops ! j)" using a j by (simp add: allocated_def)
  have used: "m w < N" if "w \<in> uses E C j" for w using a j that by (auto simp: allocated_def used_from_def)
  have node: "w < N" if "w \<in> temp_of E (rename_node E m z)" "temp_of E z \<subseteq> uses E C j" for w z
    using that used e by (auto simp: temp_of_def rename_node_def slots_enc_def split: if_splits)
  have n1: "temp_of E (op1 (C ! j)) \<subseteq> uses E C j" by (auto simp: uses_def)
  consider "v \<in> temp_of E (op1 (ops ! j))" | "v \<in> temp_of E (op2 (ops ! j))" | "v \<in> temp_of E (result (ops ! j))" | "v \<in> ext_temp E (ops ! j)"
    using v by blast
  then show ?thesis
  proof cases
    case 1
    then show ?thesis using node [OF _ n1] o by (simp add: op_ok_def)
  next
    case 2
    show ?thesis
    proof (cases "after_assign_dim C j")
      case True
      then obtain p where p: "j = Suc p" by (cases j) (auto simp: after_assign_dim_def)
      have "is_temp (op2 (C ! j))" using 2 o True by (auto simp: op_ok_def temp_of_def split: if_splits)
      then have "scratch_of E C p \<noteq> {}" using True j p by (simp add: scratch_of_def temp_of_def)
      then obtain i where "i < N" "op2 (ops ! j) = (op2 (C ! j))\<lparr>num := NUM_VAR E i\<rparr>"
        using a Suc_lessD [of p "length C"] j p unfolding allocated_def scratch_ok_def by blast
      then show ?thesis using 2 e by (auto simp: temp_of_def slots_enc_def split: if_splits)
    next
      case False
      then have "temp_of E (op2 (C ! j)) \<subseteq> uses E C j" by (auto simp: uses_def)
      then show ?thesis using node 2 o False by (simp add: op_ok_def)
    qed
  next
    case 3
    then have t: "is_temp (result (ops ! j))" by (simp add: temp_of_def split: if_splits)
    have n: "\<not> after_assign_dim C j" using t o wf_data(2) [OF wf j] by (auto simp: op_ok_def)
    then have "is_temp (result (C ! j))" using t o by (auto simp: op_ok_def split: if_splits)
    then obtain i where "i < N" "result (ops ! j) = (result (C ! j))\<lparr>num := NUM_VAR E i\<rparr>"
      using n o by (auto simp: op_ok_def result_slot_def)
    then show ?thesis using 3 e by (auto simp: temp_of_def slots_enc_def split: if_splits)
  next
    case 4
    then have d: "declares_inherited (C ! j)" using o by (auto simp: ext_temp_def op_ok_def declares_inherited_def split: if_splits)
    then have "\<not> after_assign_dim C j" using wf_data(1) [OF wf j] by (auto simp: after_assign_dim_def)
    then have "extended_value (ops ! j) = NUM_VAR E (m (VAR_NUM E (extended_value (C ! j))))" "VAR_NUM E (extended_value (C ! j)) \<in> uses E C j"
      using o d by (simp_all add: op_ok_def rename_ext_value_def uses_def ext_temp_def)
    then show ?thesis using 4 used e by (auto simp: ext_temp_def slots_enc_def split: if_splits)
  qed
qed

section \<open>Properties\<close>

text \<open>C28. The pass returns code with no more temporaries, and with the same behaviour: started with
  any contents of the temporaries, both leave with the same states, for all handlers.\<close>

theorem optimize_temporary_variables_correct:
  assumes "temps_wf E (T_num oa) (opcodes oa)" and "data_wf E (opcodes oa)" and "slots_enc E (T_num oa)"
    and "live_ok E (opcodes oa) next_ops L" and "goes H next_ops"
  shows "\<exists>oa'. optimize_temporary_variables E oa = Some oa' \<and> T_num oa' \<le> T_num oa
    \<and> (\<forall>t t' s s'. temp_run H E (opcodes oa) 0 t s s' \<longleftrightarrow> temp_run H E (opcodes oa') 0 t' s s')"
proof -
  let ?C = "opcodes oa"
  obtain ops N m where o: "optimize_temporary_variables E oa = Some (oa\<lparr>opcodes := ops, T_num := N\<rparr>)" "length ops = length ?C"
    "allocated E ?C N m 0 ops" "N \<le> T_num oa" using optimize_ok [OF assms(1)] by blast
  have r: "renaming H E (T_num oa) ?C next_ops L N m ops" using assms o by (simp add: renaming_def)
  have start: "opcode (?C ! 0) \<noteq> ZEND_OP_DATA \<and> L 0 = {}" if "0 < length ?C"
  proof -
    have n: "opcode (?C ! 0) \<noteq> ZEND_OP_DATA" using wf_data(1) [OF assms(1) that] by auto
    then show ?thesis using live_facts(2) [OF r that n] by (auto simp: defined_def)
  qed
  have "temp_run H E ?C 0 t s s' \<longleftrightarrow> temp_run H E ops 0 t' s s'" for t t' s s'
  proof (cases "length ?C = 0")
    case True
    have "\<not> temp_run H E D 0 u s s'" if "length D = 0" for D u using that by (subst temp_run.simps) simp
    then show ?thesis using True o(2) by metis
  next
    case False
    then have "agree m (L 0) t t'" "0 < length ?C \<longrightarrow> opcode (?C ! 0) \<noteq> ZEND_OP_DATA" using start by (simp_all add: agree_def)
    then show ?thesis using run_renamed [OF _ r] run_original [OF _ r] by blast
  qed
  then show ?thesis using o by auto
qed

text \<open>C29. Every temporary of the new code is below its number of temporaries.\<close>

theorem optimize_temporary_variables_in_range:
  assumes "temps_wf E (T_num oa) (opcodes oa)" and "slots_enc E (T_num oa)"
  shows "\<exists>oa'. optimize_temporary_variables E oa = Some oa' \<and> last_op oa' = last_op oa
    \<and> (\<forall>j < last_op oa'. \<forall>v \<in> temp_of E (op1 (opcodes oa' ! j)) \<union> temp_of E (op2 (opcodes oa' ! j))
          \<union> temp_of E (result (opcodes oa' ! j)) \<union> ext_temp E (opcodes oa' ! j). v < T_num oa')"
proof -
  let ?C = "opcodes oa"
  obtain ops N m where o: "optimize_temporary_variables E oa = Some (oa\<lparr>opcodes := ops, T_num := N\<rparr>)" "length ops = length ?C"
    "allocated E ?C N m 0 ops" "N \<le> T_num oa" using optimize_ok [OF assms(1)] by blast
  have "slots_enc E N" using assms(2) o(4) by (simp add: slots_enc_def)
  then show ?thesis using allocated_in_range [OF o(3) _ _ _ assms(1)] o(1,2) by auto
qed

section \<open>A concrete function\<close>

definition demo_enc :: var_enc where
  "demo_enc = \<lparr>ex_tmp_var_num = (\<lambda>i. - 16 * (1 + int i)), ex_tmp_var = (\<lambda>v. int32 (int v)), temp_variable_size = 16\<rparr>"

lemma demo_enc_slots: "slots_enc demo_enc 5"
  unfolding slots_enc_def
proof (intro allI impI)
  fix i :: nat assume "i < 5"
  then have "i = 0 \<or> i = 1 \<or> i = 2 \<or> i = 3 \<or> i = 4" by presburger
  then show "VAR_NUM demo_enc (NUM_VAR demo_enc i) = i"
    by (elim disjE) (simp_all add: demo_enc_def VAR_NUM_def NUM_VAR_def int32_def)
qed

definition temp_node :: "op_type \<Rightarrow> nat \<Rightarrow> znode" where
  "temp_node t i = node t (NUM_VAR demo_enc i)"

text \<open>\<open>$a[][$k] = ($x + $y) * $z\<close>\<close>

definition demo_temps :: "zend_op list" where
  "demo_temps =
    [(plain ZEND_FETCH_DIM_W)\<lparr>op1 := node IS_CV 0, result := temp_node IS_VAR 0\<rparr>,
     (plain ZEND_ADD)\<lparr>op1 := node IS_CV 1, op2 := node IS_CV 2, result := temp_node IS_TMP_VAR 1\<rparr>,
     (plain ZEND_MUL)\<lparr>op1 := temp_node IS_TMP_VAR 1, op2 := node IS_CV 3, result := temp_node IS_TMP_VAR 2\<rparr>,
     (plain ZEND_ASSIGN_DIM)\<lparr>op1 := temp_node IS_VAR 0, op2 := node IS_CV 4, result := (temp_node IS_VAR 3)\<lparr>ext_unused := True\<rparr>\<rparr>,
     (plain ZEND_OP_DATA)\<lparr>op1 := temp_node IS_TMP_VAR 2, op2 := temp_node IS_VAR 4\<rparr>,
     plain ZEND_RETURN]"

lemma demo_var_num [simp]: "i < 5 \<Longrightarrow> VAR_NUM demo_enc (NUM_VAR demo_enc i) = i"
  using demo_enc_slots by (simp add: slots_enc_def)

lemma temp_node_simps [simp]:
  "is_temp (temp_node t i) \<longleftrightarrow> t = IS_VAR \<or> t = IS_TMP_VAR" "num (temp_node t i) = NUM_VAR demo_enc i"
  "is_temp (node t n) \<longleftrightarrow> t = IS_VAR \<or> t = IS_TMP_VAR" "\<not> is_temp unused_node"
  by (simp_all add: is_temp_def temp_node_def node_def unused_node_def)

lemma demo_temps_length [simp]: "length demo_temps = 6"
  by (simp add: demo_temps_def)

lemma demo_temps_uses:
  "uses demo_enc demo_temps 0 = {}" "uses demo_enc demo_temps (Suc 0) = {}" "uses demo_enc demo_temps 2 = {Suc 0}"
  "uses demo_enc demo_temps 3 = {0}" "uses demo_enc demo_temps 4 = {2}" "uses demo_enc demo_temps 5 = {}"
  by (simp_all add: uses_def demo_temps_def temp_of_def plain_def ext_temp_def declares_inherited_def after_assign_dim_def numeral_eq_Suc)

lemma demo_temps_defs:
  "defs demo_enc demo_temps 0 = {0}" "defs demo_enc demo_temps (Suc 0) = {Suc 0}" "defs demo_enc demo_temps 2 = {2}"
  "defs demo_enc demo_temps 3 = {3}" "defs demo_enc demo_temps 4 = {}" "defs demo_enc demo_temps 5 = {}"
  by (simp_all add: defs_def demo_temps_def temp_of_def plain_def numeral_eq_Suc)

lemma demo_temps_scratch: "scratch_of demo_enc demo_temps p = (if p = 3 then {4} else {})"
proof (cases "p < 5")
  case True
  then have "p = 0 \<or> p = 1 \<or> p = 2 \<or> p = 3 \<or> p = 4" by presburger
  then show ?thesis
    by (elim disjE) (simp_all add: scratch_of_def demo_temps_def after_assign_dim_def temp_of_def plain_def numeral_eq_Suc)
qed (simp add: scratch_of_def)


lemma less_6: "(\<forall>j < 6. P j) \<longleftrightarrow> P 0 \<and> P (Suc 0) \<and> P 2 \<and> P 3 \<and> P 4 \<and> P (5 :: nat)"
  by (auto simp: numeral_eq_Suc All_less_Suc)

lemma ex_less_6: "(\<exists>j < 6. P j) \<longleftrightarrow> P 0 \<or> P (Suc 0) \<or> P 2 \<or> P 3 \<or> P 4 \<or> P (5 :: nat)"
  using less_6 [of "\<lambda>j. \<not> P j"] by blast

lemma demo_temps_defined:
  "defined demo_enc demo_temps k v \<longleftrightarrow> v < 4 \<and> v < k"
  by (auto simp: defined_def ex_less_6 demo_temps_defs)

lemma demo_temps_used: "used_from demo_enc demo_temps k v \<longleftrightarrow> v = 1 \<and> k \<le> 2 \<or> v = 0 \<and> k \<le> 3 \<or> v = 2 \<and> k \<le> 4"
  by (auto simp: used_from_def ex_less_6 demo_temps_uses)

lemma demo_temps_code:
  "opcode (demo_temps ! 0) = ZEND_FETCH_DIM_W" "opcode (demo_temps ! Suc 0) = ZEND_ADD" "opcode (demo_temps ! 2) = ZEND_MUL"
  "opcode (demo_temps ! 3) = ZEND_ASSIGN_DIM" "opcode (demo_temps ! 4) = ZEND_OP_DATA" "opcode (demo_temps ! 5) = ZEND_RETURN"
  "RESULT_UNUSED (demo_temps ! 3)" "temp_of demo_enc (op2 (demo_temps ! 4)) = {4}"
  "\<not> is_temp (result (demo_temps ! 4))"
  by (simp_all add: demo_temps_def plain_def RESULT_UNUSED_def temp_of_def numeral_eq_Suc)

lemma demo_temps_wf: "temps_wf demo_enc 5 demo_temps" "data_wf demo_enc demo_temps"
proof -
  have "scratch_private demo_enc demo_temps"
    by (simp add: scratch_private_def less_6 demo_temps_scratch demo_temps_uses demo_temps_defs)
  then show "temps_wf demo_enc 5 demo_temps"
    by (simp add: temps_wf_def less_6 demo_temps_code demo_temps_scratch demo_temps_uses demo_temps_defs demo_temps_defined
        declares_inherited_def after_assign_dim_def)
  have "opcode (demo_temps ! p) \<noteq> ZEND_OP_DATA \<and> (\<forall>w \<in> temp_of demo_enc (op2 (demo_temps ! Suc p)). \<not> defined demo_enc demo_temps 6 w)"
    if "opcode (demo_temps ! Suc p) = ZEND_OP_DATA" "Suc p < 6" for p
  proof -
    have "p = 0 \<or> p = Suc 0 \<or> p = 2 \<or> p = 3 \<or> p = 4" using that(2) by presburger
    then show ?thesis using that(1) demo_temps_code by (auto simp: demo_temps_defined numeral_2_eq_2 [symmetric])
  qed
  then show "data_wf demo_enc demo_temps" unfolding data_wf_def demo_temps_length by blast
qed


definition demo_live :: "nat \<Rightarrow> nat set" where
  "demo_live p = (if p = 1 then {0} else if p = 2 then {0, 1} else if p = 3 then {0, 2} else {})"

definition demo_next :: "nat \<Rightarrow> nat set" where
  "demo_next p = (if p = 5 then {} else if p = 3 then {5} else {Suc p})"

definition demo_handler :: "(nat, nat list) handler" where
  "demo_handler = \<lparr>first = (\<lambda>p h hd xs s. (sum_list (map (\<lambda>x. case x of None \<Rightarrow> 1 | Some v \<Rightarrow> v) xs), s)),
     second = (\<lambda>p h hd xs x s. (x + p, x, s @ [x + sum_list (map (\<lambda>x. case x of None \<Rightarrow> 1 | Some v \<Rightarrow> v) xs)],
       if p = 5 then None else if p = 3 then Some 5 else Some (Suc p)))\<rparr>"

lemma demo_goes: "goes demo_handler demo_next"
  by (simp add: goes_def demo_handler_def demo_next_def split: if_splits)

lemma demo_temps_flow:
  "reads demo_enc demo_temps 0 = {}" "reads demo_enc demo_temps (Suc 0) = {}" "reads demo_enc demo_temps 2 = {Suc 0}"
  "reads demo_enc demo_temps 3 = {0, 2}" "reads demo_enc demo_temps 5 = {}"
  "writes demo_enc demo_temps 0 = {0}" "writes demo_enc demo_temps (Suc 0) = {Suc 0}" "writes demo_enc demo_temps 2 = {2}"
  "after_op demo_temps 0 = 1" "after_op demo_temps (Suc 0) = 2" "after_op demo_temps 2 = 3" "after_op demo_temps 3 = 5"
  by (auto simp: reads_def writes_def after_op_def data_op_def demo_temps_def temp_of_def plain_def ext_temp_def
      declares_inherited_def numeral_eq_Suc)

lemma demo_live_ok: "live_ok demo_enc demo_temps demo_next demo_live"
  by (simp add: live_ok_def less_6 demo_temps_code demo_temps_flow demo_live_def demo_next_def demo_temps_defined demo_temps_used
      numeral_2_eq_2 [symmetric])

definition demo_function :: "nat zend_op_array" where
  "demo_function = (code_of demo_temps [])\<lparr>T_num := 5\<rparr>"

lemma optimize_temporary_variables_correct_witness:
  "\<exists>oa'. optimize_temporary_variables demo_enc demo_function = Some oa'
    \<and> (\<forall>t t' s s'. temp_run demo_handler demo_enc demo_temps 0 t s s' \<longleftrightarrow> temp_run demo_handler demo_enc (opcodes oa') 0 t' s s')"
  using optimize_temporary_variables_correct [of demo_enc demo_function demo_next demo_live demo_handler]
    demo_temps_wf demo_enc_slots demo_live_ok demo_goes
  by (auto simp: demo_function_def code_of_def)

lemma optimize_temporary_variables_in_range_witness:
  "\<exists>oa'. optimize_temporary_variables demo_enc demo_function = Some oa' \<and> length (opcodes oa') = 6
    \<and> (\<forall>v \<in> temp_of demo_enc (op1 (opcodes oa' ! 2)). v < T_num oa')"
proof -
  obtain oa' where oa': "optimize_temporary_variables demo_enc demo_function = Some oa'" "last_op oa' = last_op demo_function"
    "\<forall>j < last_op oa'. \<forall>v \<in> temp_of demo_enc (op1 (opcodes oa' ! j)) \<union> temp_of demo_enc (op2 (opcodes oa' ! j))
          \<union> temp_of demo_enc (result (opcodes oa' ! j)) \<union> ext_temp demo_enc (opcodes oa' ! j). v < T_num oa'"
    using optimize_temporary_variables_in_range [of demo_enc demo_function] demo_temps_wf demo_enc_slots
    by (auto simp: demo_function_def code_of_def)
  moreover have six: "last_op demo_function = 6" by (simp add: demo_function_def code_of_def)
  ultimately have "\<forall>v \<in> temp_of demo_enc (op1 (opcodes oa' ! 2)). v < T_num oa'" using oa'(3) [rule_format, of 2] by simp
  then show ?thesis using oa'(1,2) six by auto
qed

text \<open>The five temporaries share three slots.\<close>

lemma demo_starts: "find_starts demo_enc demo_temps 6 (replicate 5 None) = Some [Some 0, Some (Suc 0), Some 2, Some 3, None]"
  by (simp add: demo_temps_def plain_def numeral_eq_Suc Let_def)

lemma demo_function_slots: "map_option T_num (optimize_temporary_variables demo_enc demo_function) = Some 3"
  unfolding optimize_temporary_variables_def demo_function_def code_of_def
  by (simp add: demo_starts no_slots_def)
    (simp add: numeral_eq_Suc demo_temps_def plain_def rename_at_def rename_op1_def rename_op2_def rename_ext_def alloc_data_def
      rename_result_def result_T_def use_T_def GET_AVAILABLE_T_def map_to_def release_def declares_inherited_def Let_def RESULT_UNUSED_def)

end
