(* ===== verification/Blocks.thy ===== *)
theory Blocks
  imports Pass2 "HOL-Library.Monad_Syntax"
begin

text \<open>
  The control flow graph of pass 5, \<open>Optimizer/block_pass.c\<close>: splitting code into blocks, the
  references back from a block to its predecessors, marking the blocks that can be reached, and
  writing the code of these blocks back to one array.

  A pointer to a block is its index in the array \<open>cfg->blocks\<close>, a pointer to an instruction a
  position in the old code or in the new one. \<open>None\<close> is an access outside of an array, through a
  null pointer, or a difference of pointers into different arrays, and a loop that does not end.
\<close>

section \<open>Blocks\<close>

datatype op_ptr = Null | In_Code nat | In_New nat

record zend_code_block =
  access :: bool
  start_opline :: op_ptr
  start_opline_no :: nat
  block_len :: nat
  op1_to :: "nat option"
  op2_to :: "nat option"
  ext_to :: "nat option"
  follow_to :: "nat option"
  next_block :: "nat option"
  sources :: "nat list"
  protected :: bool

definition no_block :: zend_code_block where
  "no_block = \<lparr>access = False, start_opline = Null, start_opline_no = 0, block_len = 0, op1_to = None, op2_to = None,
     ext_to = None, follow_to = None, next_block = None, sources = [], protected = False\<rparr>"

record zend_cfg =
  blocks :: "zend_code_block list"
  cfg_try :: "nat list"
  cfg_catch :: "nat list"
  loop_start :: "nat list"
  loop_cont :: "nat list"
  loop_brk :: "nat list"

definition upd_block :: "nat \<Rightarrow> (zend_code_block \<Rightarrow> zend_code_block) \<Rightarrow> zend_code_block list \<Rightarrow> zend_code_block list" where
  "upd_block n f bs = bs[n := f (bs ! n)]"

section \<open>\<open>find_code_blocks\<close>\<close>

definition START_BLOCK_OP :: "nat \<Rightarrow> zend_code_block list \<Rightarrow> zend_code_block list option" where
  "START_BLOCK_OP n bs =
     (if n < length bs then Some (upd_block n (\<lambda>b. b\<lparr>start_opline := In_Code n, start_opline_no := n, access := True\<rparr>) bs) else None)"

fun start_blocks :: "nat list \<Rightarrow> zend_code_block list \<Rightarrow> zend_code_block list option" where
  "start_blocks [] bs = Some bs"
| "start_blocks (n # ns) bs = do { bs' \<leftarrow> START_BLOCK_OP n bs; start_blocks ns bs' }"

definition returning :: "nat set" where
  "returning = {ZEND_RETURN, ZEND_RETURN_BY_REF, ZEND_GENERATOR_RETURN, ZEND_EXIT, ZEND_THROW}"

definition cond_jumps :: "nat set" where
  "cond_jumps = {ZEND_JMPZ, ZEND_JMPNZ, ZEND_JMPZ_EX, ZEND_JMPNZ_EX, ZEND_FE_RESET, ZEND_NEW, ZEND_JMP_SET, ZEND_JMP_SET_VAR}"

text \<open>The blocks that the instruction at \<open>n\<close> starts; \<open>None\<close> is the early return.\<close>

definition block_starts :: "zend_op \<Rightarrow> nat \<Rightarrow> nat list option" where
  "block_starts o1 n =
     (let oc = opcode o1 in
      if oc = ZEND_BRK \<or> oc = ZEND_CONT \<or> oc = ZEND_GOTO then None
      else Some (
        if oc = ZEND_FAST_CALL then [num (op1 o1)] @ (if extended_value o1 \<noteq> 0 then [num (op2 o1)] else []) @ [n + 1]
        else if oc = ZEND_FAST_RET then (if extended_value o1 \<noteq> 0 then [num (op2 o1)] else []) @ [n + 1]
        else if oc = ZEND_JMP then [num (op1 o1), n + 1]
        else if oc \<in> returning then [n + 1]
        else if oc = ZEND_CATCH then [extended_value o1, n + 1]
        else if oc = ZEND_JMPZNZ then [extended_value o1, num (op2 o1), n + 1]
        else if oc \<in> cond_jumps then [num (op2 o1), n + 1]
        else if oc = ZEND_FE_FETCH then [num (op2 o1), n + 2]
        else []))"

fun mark_code :: "zend_op list \<Rightarrow> nat \<Rightarrow> zend_code_block list \<Rightarrow> zend_code_block list option option" where
  "mark_code [] opno bs = Some (Some bs)"
| "mark_code (o1 # ops) opno bs =
     (case block_starts o1 opno of
        None \<Rightarrow> Some None
      | Some ns \<Rightarrow> do { bs' \<leftarrow> start_blocks ns bs; mark_code ops (Suc opno) bs' })"

definition protect :: "nat \<Rightarrow> zend_code_block list \<Rightarrow> zend_code_block list" where
  "protect n = upd_block n (\<lambda>b. b\<lparr>protected := True\<rparr>)"

fun mark_try :: "try_catch_element list \<Rightarrow> zend_code_block list \<Rightarrow> zend_code_block list option" where
  "mark_try [] bs = Some bs"
| "mark_try (t # ts) bs = do { bs' \<leftarrow> start_blocks [try_op t, catch_op t] bs; mark_try ts (protect (try_op t) bs') }"

text \<open>The entries of \<open>brk_cont_array\<close> of loops with a variable to free are kept.\<close>

definition breaks_at_free :: "zend_op list \<Rightarrow> brk_cont_element \<Rightarrow> bool option" where
  "breaks_at_free ops b =
     (if 0 \<le> bc_brk b \<and> nat (bc_brk b) < length ops then Some (frees (opcode (ops ! nat (bc_brk b)))) else None)"

definition keeps_loop :: "zend_op list \<Rightarrow> brk_cont_element \<Rightarrow> bool option" where
  "keeps_loop ops b = (if 0 \<le> bc_start b then breaks_at_free ops b else Some False)"

partial_function (option) live_parent :: "zend_op list \<Rightarrow> brk_cont_element list \<Rightarrow> int \<Rightarrow> int option" where
  "live_parent ops bcs p =
     (if p < 0 then Some p
      else if \<not> nat p < length bcs then None
      else if 0 \<le> bc_start (bcs ! nat p) then Some p
      else do { f \<leftarrow> breaks_at_free ops (bcs ! nat p);
                if f then Some p else live_parent ops bcs (bc_parent (bcs ! nat p)) })"

fun fix_parents :: "zend_op list \<Rightarrow> nat \<Rightarrow> nat \<Rightarrow> brk_cont_element list \<Rightarrow> brk_cont_element list option" where
  "fix_parents ops i 0 bcs = Some bcs"
| "fix_parents ops i (Suc n) bcs =
     do { k \<leftarrow> keeps_loop ops (bcs ! i);
          if k then do { p \<leftarrow> live_parent ops bcs (bc_parent (bcs ! i));
                         fix_parents ops (Suc i) n (bcs[i := (bcs ! i)\<lparr>bc_parent := p\<rparr>]) }
          else fix_parents ops (Suc i) n bcs }"

fun kept_loops :: "zend_op list \<Rightarrow> brk_cont_element list \<Rightarrow> brk_cont_element list option" where
  "kept_loops ops [] = Some []"
| "kept_loops ops (b # bs) =
     do { k \<leftarrow> keeps_loop ops b; r \<leftarrow> kept_loops ops bs; Some (if k then b # r else r) }"

fun mark_loops :: "brk_cont_element list \<Rightarrow> zend_code_block list \<Rightarrow> zend_code_block list option" where
  "mark_loops [] bs = Some bs"
| "mark_loops (b # rest) bs =
     (if bc_cont b < 0 then None
      else do { bs' \<leftarrow> start_blocks [nat (bc_start b), nat (bc_cont b), nat (bc_brk b)] bs;
                mark_loops rest (protect (nat (bc_brk b)) (protect (nat (bc_start b)) bs')) })"

text \<open>Where control goes from the last instruction \<open>o1\<close> of a block that ends before \<open>n\<close>.\<close>

definition close_block :: "zend_op \<Rightarrow> nat \<Rightarrow> zend_code_block \<Rightarrow> zend_code_block" where
  "close_block o1 n b =
     (let oc = opcode o1 in
      if oc \<in> returning then b
      else if oc = ZEND_FAST_CALL then b\<lparr>op2_to := (if extended_value o1 \<noteq> 0 then Some (num (op2 o1)) else op2_to b), op1_to := Some (num (op1 o1))\<rparr>
      else if oc = ZEND_FAST_RET then b\<lparr>op2_to := (if extended_value o1 \<noteq> 0 then Some (num (op2 o1)) else op2_to b)\<rparr>
      else if oc = ZEND_JMP then b\<lparr>op1_to := Some (num (op1 o1))\<rparr>
      else if oc = ZEND_JMPZNZ then b\<lparr>op2_to := Some (num (op2 o1)), ext_to := Some (extended_value o1)\<rparr>
      else if oc = ZEND_CATCH then b\<lparr>ext_to := Some (extended_value o1), follow_to := Some n\<rparr>
      else if oc \<in> cond_jumps \<or> oc = ZEND_FE_FETCH then b\<lparr>op2_to := Some (num (op2 o1)), follow_to := Some n\<rparr>
      else b\<lparr>follow_to := Some n\<rparr>)"

text \<open>The position of the instruction before \<open>n\<close>, or of the one before that when it is an OP_DATA.\<close>

definition last_before :: "zend_op list \<Rightarrow> nat \<Rightarrow> nat option" where
  "last_before ops n =
     (if n = 0 \<or> \<not> n - 1 < length ops then None
      else if opcode (ops ! (n - 1)) = ZEND_OP_DATA then if n = 1 then None else Some (n - 2)
      else Some (n - 1))"

fun link_blocks :: "zend_op list \<Rightarrow> nat \<Rightarrow> nat \<Rightarrow> nat \<Rightarrow> zend_code_block list \<Rightarrow> (nat \<times> zend_code_block list) option" where
  "link_blocks ops opno 0 cur bs = Some (cur, bs)"
| "link_blocks ops opno (Suc n) cur bs =
     (if start_opline (bs ! opno) = Null then link_blocks ops (Suc opno) n cur bs
      else do { k \<leftarrow> last_before ops opno;
        link_blocks ops (Suc opno) n opno
          (upd_block cur (\<lambda>b. (close_block (ops ! k) opno b)\<lparr>block_len := opno - cur, next_block := Some opno\<rparr>) bs) })"

definition find_code_blocks :: "'x zend_op_array \<Rightarrow> ('x zend_op_array \<times> zend_cfg) option option" where
  "find_code_blocks oa =
     (let n = last_op oa; ops = opcodes oa;
          bs0 = upd_block 0 (\<lambda>b. b\<lparr>start_opline := In_Code 0\<rparr>) (replicate (n + 2) no_block)
      in do { m \<leftarrow> mark_code ops 0 bs0;
        case m of
          None \<Rightarrow> Some None
        | Some bs1 \<Rightarrow>
            do { bs2 \<leftarrow> mark_try (try_catch_array oa) bs1;
                 bcs \<leftarrow> fix_parents ops 0 (length (brk_cont_array oa)) (brk_cont_array oa);
                 kept \<leftarrow> kept_loops ops bcs;
                 bs3 \<leftarrow> mark_loops kept bs2;
                 (cur, bs4) \<leftarrow> link_blocks ops 1 (n - 1) 0 bs3;
                 Some (Some (oa\<lparr>brk_cont_array := kept\<rparr>,
                   \<lparr>blocks = upd_block cur (\<lambda>b. b\<lparr>block_len := n - cur, next_block := Some (n + 1)\<rparr>) bs4,
                    cfg_try = map try_op (try_catch_array oa), cfg_catch = map catch_op (try_catch_array oa),
                    loop_start = map (\<lambda>b. nat (bc_start b)) kept, loop_cont = map (\<lambda>b. nat (bc_cont b)) kept,
                    loop_brk = map (\<lambda>b. nat (bc_brk b)) kept\<rparr>)) } })"

section \<open>Reachable blocks\<close>

definition ADD_SOURCE :: "nat \<Rightarrow> nat \<Rightarrow> zend_code_block list \<Rightarrow> zend_code_block list" where
  "ADD_SOURCE fromb tob bs =
     (if fromb \<in> set (sources (bs ! tob)) then bs else upd_block tob (\<lambda>b. b\<lparr>sources := fromb # sources b\<rparr>) bs)"

partial_function (option) zend_access_path :: "nat \<Rightarrow> zend_code_block list \<Rightarrow> zend_code_block list option" where
  "zend_access_path b bs =
     (if \<not> b < length bs then None
      else if access (bs ! b) then Some bs
      else let bs0 = upd_block b (\<lambda>x. x\<lparr>access := True\<rparr>) bs in
        do { bs1 \<leftarrow> (case op1_to (bs0 ! b) of None \<Rightarrow> Some bs0 | Some t \<Rightarrow> do { x \<leftarrow> zend_access_path t bs0; Some (ADD_SOURCE b t x) });
             bs2 \<leftarrow> (case op2_to (bs1 ! b) of None \<Rightarrow> Some bs1 | Some t \<Rightarrow> do { x \<leftarrow> zend_access_path t bs1; Some (ADD_SOURCE b t x) });
             bs3 \<leftarrow> (case ext_to (bs2 ! b) of None \<Rightarrow> Some bs2 | Some t \<Rightarrow> do { x \<leftarrow> zend_access_path t bs2; Some (ADD_SOURCE b t x) });
             case follow_to (bs3 ! b) of None \<Rightarrow> Some bs3 | Some t \<Rightarrow> do { x \<leftarrow> zend_access_path t bs3; Some (ADD_SOURCE b t x) } })"

fun access_paths :: "nat list \<Rightarrow> zend_code_block list \<Rightarrow> zend_code_block list option" where
  "access_paths [] bs = Some bs"
| "access_paths (b # rest) bs = do { bs' \<leftarrow> zend_access_path b bs; access_paths rest bs' }"

text \<open>All blocks are marked as unused and lose their references; with the first block that was used.\<close>

partial_function (option) reset_blocks :: "nat option \<Rightarrow> nat option \<Rightarrow> zend_code_block list \<Rightarrow> (nat option \<times> zend_code_block list) option" where
  "reset_blocks b start bs =
     (case b of
        None \<Rightarrow> Some (start, bs)
      | Some i \<Rightarrow>
          if \<not> i < length bs then None
          else reset_blocks (next_block (bs ! i)) (if start = None \<and> access (bs ! i) then Some i else start)
                 (upd_block i (\<lambda>x. x\<lparr>access := False, sources := []\<rparr>) bs))"

definition zend_rebuild_access_path :: "zend_cfg \<Rightarrow> 'x zend_op_array \<Rightarrow> bool \<Rightarrow> zend_cfg option" where
  "zend_rebuild_access_path cfg oa find_start =
     do { (start, bs) \<leftarrow> reset_blocks (Some 0) (if find_start then None else Some 0) (blocks cfg);
          bs1 \<leftarrow> (case start of None \<Rightarrow> None | Some s \<Rightarrow> zend_access_path s bs);
          bs2 \<leftarrow> access_paths (concat (map (\<lambda>i. [loop_start cfg ! i, loop_cont cfg ! i, loop_brk cfg ! i]) [0..<length (brk_cont_array oa)])) bs1;
          bs3 \<leftarrow> access_paths (map (\<lambda>i. cfg_catch cfg ! i) [0..<length (try_catch_array oa)]) bs2;
          Some (cfg\<lparr>blocks := bs3\<rparr>) }"

section \<open>\<open>assemble_code_blocks\<close>\<close>

partial_function (option) next_accessed :: "zend_code_block list \<Rightarrow> nat option \<Rightarrow> nat option option" where
  "next_accessed bs n =
     (case n of
        None \<Rightarrow> Some None
      | Some b \<Rightarrow> if \<not> b < length bs then None else if access (bs ! b) then Some (Some b) else next_accessed bs (next_block (bs ! b)))"

text \<open>The code of a block, in the old array.\<close>

definition block_code :: "zend_op list \<Rightarrow> zend_code_block \<Rightarrow> zend_op list option" where
  "block_code ops b =
     (case start_opline b of
        In_Code k \<Rightarrow> if block_len b = 0 \<or> k + block_len b \<le> length ops then Some (take (block_len b) (drop k ops)) else None
      | _ \<Rightarrow> None)"

text \<open>A reachable block is copied to the end of the new code; a JMP to the next one is stripped.\<close>

definition copy_block :: "zend_op list \<Rightarrow> nat \<Rightarrow> zend_op list \<Rightarrow> zend_code_block list \<Rightarrow> (zend_op list \<times> zend_code_block list) option" where
  "copy_block ops i new bs =
     do { code \<leftarrow> block_code ops (bs ! i);
          let new1 = new @ code;
          let bs1 = upd_block i (\<lambda>b. b\<lparr>start_opline := In_New (length new)\<rparr>) bs;
          if new1 = [] \<or> length new1 > length ops then None
          else if opcode (last new1) = ZEND_JMP
          then do { nx \<leftarrow> next_accessed bs1 (next_block (bs1 ! i));
                    if nx \<noteq> None \<and> nx = op1_to (bs1 ! i)
                    then if block_len (bs1 ! i) = 0 then None
                         else Some (butlast new1, upd_block i (\<lambda>b. b\<lparr>follow_to := op1_to b, op1_to := None, block_len := block_len b - 1\<rparr>) bs1)
                    else Some (new1, bs1) }
          else Some (new1, bs1) }"

text \<open>The constants of a block that is left out are destroyed.\<close>

fun free_constants :: "zend_op list \<Rightarrow> 'x zend_op_array \<Rightarrow> 'x zend_op_array" where
  "free_constants [] oa = oa"
| "free_constants (o1 # ops) oa =
     (let oa1 = (if op_ty (op1 o1) = IS_CONST then literal_dtor (op1 o1) oa else oa)
      in free_constants ops (if op_ty (op2 o1) = IS_CONST then literal_dtor (op2 o1) oa1 else oa1))"

definition free_block :: "zend_op list \<Rightarrow> zend_code_block \<Rightarrow> 'x zend_op_array \<Rightarrow> 'x zend_op_array option" where
  "free_block ops b oa =
     (if start_opline b = Null then Some oa else do { code \<leftarrow> block_code ops b; Some (free_constants code oa) })"

partial_function (option) copy_blocks ::
  "zend_op list \<Rightarrow> nat option \<Rightarrow> zend_op list \<Rightarrow> zend_code_block list \<Rightarrow> 'x zend_op_array \<Rightarrow>
   (zend_op list \<times> zend_code_block list \<times> 'x zend_op_array) option" where
  "copy_blocks ops n new bs oa =
     (case n of
        None \<Rightarrow> Some (new, bs, oa)
      | Some i \<Rightarrow>
          if \<not> i < length bs then None
          else if access (bs ! i)
          then do { (new', bs') \<leftarrow> copy_block ops i new bs; copy_blocks ops (next_block (bs' ! i)) new' bs' oa }
          else do { oa' \<leftarrow> free_block ops (bs ! i) oa; copy_blocks ops (next_block (bs ! i)) new bs oa' })"

text \<open>A NOP between a THROW at the end and the code that handles the exception.\<close>

definition pad_throw :: "nat \<Rightarrow> zend_op list \<Rightarrow> zend_op list option" where
  "pad_throw n new =
     (if new = [] then None
      else if opcode (last new) = ZEND_THROW
      then if length new < n
           then Some (new @ [\<lparr>opcode = ZEND_NOP, op1 = unused_node, op2 = unused_node, result = unused_node, extended_value = 0,
                              lineno = lineno (last new)\<rparr>])
           else None
      else Some new)"

definition new_pos :: "zend_code_block list \<Rightarrow> nat \<Rightarrow> nat option" where
  "new_pos bs i = (if i < length bs then case start_opline (bs ! i) of In_New k \<Rightarrow> Some k | _ \<Rightarrow> None else None)"

text \<open>The try/catch table: the entries of unused try blocks are left out.\<close>

fun try_positions :: "zend_code_block list \<Rightarrow> (nat \<times> nat) list \<Rightarrow> (nat \<times> nat) list option" where
  "try_positions bs [] = Some []"
| "try_positions bs ((t, c) # rest) =
     (if \<not> t < length bs then None
      else if access (bs ! t) then do { p \<leftarrow> new_pos bs t; q \<leftarrow> new_pos bs c; r \<leftarrow> try_positions bs rest; Some ((p, q) # r) }
      else try_positions bs rest)"

definition adjust_try :: "zend_cfg \<Rightarrow> zend_code_block list \<Rightarrow> try_catch_element list \<Rightarrow> try_catch_element list option" where
  "adjust_try cfg bs ts =
     do { ps \<leftarrow> try_positions bs (map (\<lambda>i. (cfg_try cfg ! i, cfg_catch cfg ! i)) [0..<length ts]);
          Some (map (\<lambda>(t, p, q). t\<lparr>try_op := p, catch_op := q\<rparr>) (zip ts ps)) }"

fun adjust_loops :: "zend_cfg \<Rightarrow> zend_code_block list \<Rightarrow> nat \<Rightarrow> brk_cont_element list \<Rightarrow> brk_cont_element list option" where
  "adjust_loops cfg bs i [] = Some []"
| "adjust_loops cfg bs i (b # rest) =
     do { s \<leftarrow> new_pos bs (loop_start cfg ! i); c \<leftarrow> new_pos bs (loop_cont cfg ! i); k \<leftarrow> new_pos bs (loop_brk cfg ! i);
          r \<leftarrow> adjust_loops cfg bs (Suc i) rest;
          Some (b\<lparr>bc_start := int s, bc_cont := int c, bc_brk := int k\<rparr> # r) }"

text \<open>The jumps of the last instruction of a block.\<close>

definition set_target :: "zend_code_block list \<Rightarrow> nat option \<Rightarrow> (nat \<Rightarrow> zend_op \<Rightarrow> zend_op) \<Rightarrow> nat \<Rightarrow> zend_op list \<Rightarrow> zend_op list option" where
  "set_target bs to f k new =
     (case to of None \<Rightarrow> Some new | Some t \<Rightarrow> do { q \<leftarrow> new_pos bs t; Some (new[k := f q (new ! k)]) })"

definition adjust_block :: "zend_code_block list \<Rightarrow> zend_code_block \<Rightarrow> zend_op list \<Rightarrow> zend_op list option" where
  "adjust_block bs b new =
     (case start_opline b of
        In_New s \<Rightarrow>
          do { k \<leftarrow> last_before new (s + block_len b);
               new1 \<leftarrow> set_target bs (op1_to b) (\<lambda>q x. x\<lparr>op1 := (op1 x)\<lparr>num := q\<rparr>\<rparr>) k new;
               new2 \<leftarrow> set_target bs (op2_to b) (\<lambda>q x. x\<lparr>op2 := (op2 x)\<lparr>num := q\<rparr>\<rparr>) k new1;
               set_target bs (ext_to b) (\<lambda>q x. x\<lparr>extended_value := q\<rparr>) k new2 }
      | _ \<Rightarrow> None)"

partial_function (option) adjust_blocks :: "nat option \<Rightarrow> zend_code_block list \<Rightarrow> zend_op list \<Rightarrow> zend_op list option" where
  "adjust_blocks n bs new =
     (case n of
        None \<Rightarrow> Some new
      | Some i \<Rightarrow>
          if \<not> i < length bs then None
          else if access (bs ! i) then do { new' \<leftarrow> adjust_block bs (bs ! i) new; adjust_blocks (next_block (bs ! i)) bs new' }
          else adjust_blocks (next_block (bs ! i)) bs new)"

text \<open>The list of delayed bindings: \<open>w\<close> is the instruction to link from, or \<open>None\<close> for the start of the list.\<close>

definition write_link :: "nat option \<Rightarrow> nat \<Rightarrow> nat \<times> zend_op list \<Rightarrow> nat \<times> zend_op list" where
  "write_link w v x =
     (case w of
        None \<Rightarrow> (v, snd x)
      | Some k \<Rightarrow> (fst x, (snd x)[k := (snd x ! k)\<lparr>result := (result (snd x ! k))\<lparr>num := v\<rparr>\<rparr>]))"

fun relink_bindings :: "nat \<Rightarrow> nat \<Rightarrow> nat option \<Rightarrow> nat \<times> zend_op list \<Rightarrow> nat \<times> zend_op list" where
  "relink_bindings i 0 w x = write_link w UINT_MAX x"
| "relink_bindings i (Suc n) w x =
     (if opcode (snd x ! i) = ZEND_DECLARE_INHERITED_CLASS_DELAYED
      then relink_bindings (Suc i) n (Some i) (write_link w i x)
      else relink_bindings (Suc i) n w x)"

definition assemble_code_blocks :: "zend_cfg \<Rightarrow> 'x zend_op_array \<Rightarrow> 'x zend_op_array option" where
  "assemble_code_blocks cfg oa =
     do { (new, bs, oa1) \<leftarrow> copy_blocks (opcodes oa) (Some 0) [] (blocks cfg) oa;
          new1 \<leftarrow> pad_throw (last_op oa) new;
          tc \<leftarrow> adjust_try cfg bs (try_catch_array oa);
          bc \<leftarrow> adjust_loops cfg bs 0 (brk_cont_array oa);
          new2 \<leftarrow> adjust_blocks (Some 0) bs new1;
          let (eb, new3) = (if early_binding oa = UINT_MAX then (UINT_MAX, new2)
                            else relink_bindings 0 (length new2) None (early_binding oa, new2));
          Some (oa1\<lparr>opcodes := new3, try_catch_array := tc, brk_cont_array := bc, early_binding := eb\<rparr>) }"

text \<open>The functions on the graph can be evaluated.\<close>

declare live_parent.simps [code] zend_access_path.simps [code] reset_blocks.simps [code] next_accessed.simps [code]
  copy_blocks.simps [code] adjust_blocks.simps [code]

end
