(* ===== verification/Blocks_Graph.thy ===== *)
theory Blocks_Graph
  imports Blocks "HOL-Library.Code_Target_Nat"
begin

text \<open>
  What \<open>find_code_blocks\<close> and \<open>zend_rebuild_access_path\<close> compute: the blocks partition the code,
  each refers to the blocks that its last instruction leads to, and after marking a block is in
  use when it can be reached from the start, a kept loop or a catch block, and lists exactly the
  reachable blocks that lead to it.
\<close>

section \<open>Marking starts\<close>

lemma upd_block_nth [simp]: "i < length bs \<Longrightarrow> upd_block n f bs ! i = (if i = n then f (bs ! i) else bs ! i)"
  by (auto simp: upd_block_def)

lemma length_upd_block [simp]: "length (upd_block n f bs) = length bs"
  by (simp add: upd_block_def)

definition is_start :: "zend_code_block list \<Rightarrow> nat \<Rightarrow> bool" where
  "is_start bs i \<longleftrightarrow> i < length bs \<and> start_opline (bs ! i) \<noteq> Null"

text \<open>Blocks of which only starts are known.\<close>

definition marked :: "zend_code_block list \<Rightarrow> bool" where
  "marked bs \<longleftrightarrow> (\<forall>i < length bs. start_opline (bs ! i) \<in> {Null, In_Code i} \<and> op1_to (bs ! i) = None \<and> op2_to (bs ! i) = None
     \<and> ext_to (bs ! i) = None \<and> follow_to (bs ! i) = None \<and> next_block (bs ! i) = None \<and> sources (bs ! i) = [] \<and> block_len (bs ! i) = 0
     \<and> (access (bs ! i) \<longrightarrow> start_opline (bs ! i) \<noteq> Null))"

definition keeps_starts :: "zend_code_block list \<Rightarrow> zend_code_block list \<Rightarrow> bool" where
  "keeps_starts bs bs' \<longleftrightarrow> length bs' = length bs \<and> (\<forall>i. is_start bs i \<longrightarrow> is_start bs' i) \<and> (marked bs \<longrightarrow> marked bs')"

lemma keeps_starts_trans: "keeps_starts bs bs1 \<Longrightarrow> keeps_starts bs1 bs2 \<Longrightarrow> keeps_starts bs bs2"
  by (simp add: keeps_starts_def)

lemma keeps_starts_refl [simp]: "keeps_starts bs bs"
  by (simp add: keeps_starts_def)

lemma START_BLOCK_OP_ok:
  assumes "START_BLOCK_OP n bs = Some bs'"
  shows "keeps_starts bs bs' \<and> is_start bs' n"
  using assms by (auto simp: START_BLOCK_OP_def keeps_starts_def marked_def is_start_def split: if_splits)

lemma start_blocks_ok: "start_blocks ns bs = Some bs' \<Longrightarrow> keeps_starts bs bs' \<and> (\<forall>n \<in> set ns. is_start bs' n)"
proof (induction ns arbitrary: bs)
  case (Cons n ns)
  then obtain bs1 where "START_BLOCK_OP n bs = Some bs1" "start_blocks ns bs1 = Some bs'" by (auto split: Option.bind_splits)
  then show ?case using Cons.IH START_BLOCK_OP_ok [of n bs bs1] by (auto simp: keeps_starts_def)
qed simp

lemma START_BLOCK_OP_returns: "n < length bs \<Longrightarrow> \<exists>bs'. START_BLOCK_OP n bs = Some bs'"
  by (simp add: START_BLOCK_OP_def)

lemma start_blocks_returns: "\<forall>n \<in> set ns. n < length bs \<Longrightarrow> \<exists>bs'. start_blocks ns bs = Some bs'"
proof (induction ns arbitrary: bs)
  case (Cons n ns)
  then obtain bs1 where b: "START_BLOCK_OP n bs = Some bs1" using START_BLOCK_OP_returns [of n bs] by auto
  then have "length bs1 = length bs" using START_BLOCK_OP_ok [OF b] by (simp add: keeps_starts_def)
  then show ?case using Cons b by simp
qed simp

lemma mark_code_ok:
  assumes "mark_code ops opno bs = Some (Some bs')"
  shows "keeps_starts bs bs' \<and> (\<forall>k < length ops. \<exists>ns. block_starts (ops ! k) (opno + k) = Some ns \<and> (\<forall>n \<in> set ns. is_start bs' n))"
  using assms
proof (induction ops arbitrary: opno bs)
  case (Cons o1 ops)
  then obtain ns bs1 where b: "block_starts o1 opno = Some ns" "start_blocks ns bs = Some bs1" "mark_code ops (Suc opno) bs1 = Some (Some bs')"
    by (auto split: option.splits Option.bind_splits)
  have k1: "keeps_starts bs bs1" "\<forall>n \<in> set ns. is_start bs1 n" using start_blocks_ok [OF b(2)] by simp_all
  have ih: "keeps_starts bs1 bs'" "\<forall>k < length ops. \<exists>ns. block_starts (ops ! k) (Suc opno + k) = Some ns \<and> (\<forall>n \<in> set ns. is_start bs' n)"
    using Cons.IH [OF b(3)] by simp_all
  have "\<exists>ns. block_starts ((o1 # ops) ! k) (opno + k) = Some ns \<and> (\<forall>n \<in> set ns. is_start bs' n)" if "k < length (o1 # ops)" for k
  proof (cases k)
    case 0
    have "\<forall>n \<in> set ns. is_start bs' n" using ih(1) k1(2) by (auto simp: keeps_starts_def)
    then show ?thesis using b(1) 0 by simp
  next
    case (Suc m)
    then show ?thesis using ih(2) that by simp
  qed
  then show ?case using keeps_starts_trans [OF k1(1) ih(1)] by blast
qed simp

lemma protect_ok: "keeps_starts bs (protect n bs)"
  by (auto simp: keeps_starts_def marked_def protect_def is_start_def)

lemma mark_try_ok:
  "mark_try ts bs = Some bs' \<Longrightarrow> keeps_starts bs bs' \<and> (\<forall>t \<in> set ts. is_start bs' (try_op t) \<and> is_start bs' (catch_op t))"
proof (induction ts arbitrary: bs)
  case (Cons t ts)
  then obtain bs1 where b: "start_blocks [try_op t, catch_op t] bs = Some bs1" "mark_try ts (protect (try_op t) bs1) = Some bs'"
    by (auto split: Option.bind_splits)
  note s = start_blocks_ok [OF b(1)] and p = protect_ok [of bs1 "try_op t"] and ih = Cons.IH [OF b(2)]
  have "keeps_starts bs bs'" using s p ih by (meson keeps_starts_trans)
  moreover have "is_start bs' (try_op t)" "is_start bs' (catch_op t)" using s p ih by (auto simp: keeps_starts_def)
  ultimately show ?case using ih by simp
qed simp

lemma mark_loops_ok:
  "mark_loops ls bs = Some bs' \<Longrightarrow> keeps_starts bs bs'
    \<and> (\<forall>b \<in> set ls. is_start bs' (nat (bc_start b)) \<and> is_start bs' (nat (bc_cont b)) \<and> is_start bs' (nat (bc_brk b)))"
proof (induction ls arbitrary: bs)
  case (Cons b ls)
  then obtain bs1 where c: "start_blocks [nat (bc_start b), nat (bc_cont b), nat (bc_brk b)] bs = Some bs1"
    "mark_loops ls (protect (nat (bc_brk b)) (protect (nat (bc_start b)) bs1)) = Some bs'"
    by (auto split: Option.bind_splits if_splits)
  note s = start_blocks_ok [OF c(1)] and ih = Cons.IH [OF c(2)]
  note p = keeps_starts_trans [OF protect_ok protect_ok, of bs1 "nat (bc_brk b)" "nat (bc_start b)"]
  have "keeps_starts bs bs'" using s p ih by (meson keeps_starts_trans)
  moreover have "is_start bs' (nat (bc_start b))" "is_start bs' (nat (bc_cont b))" "is_start bs' (nat (bc_brk b))"
    using s p ih by (auto simp: keeps_starts_def)
  ultimately show ?case using ih by simp
qed simp

section \<open>Linking blocks\<close>

lemma close_block_keeps [simp]:
  "start_opline (close_block o1 n b) = start_opline b" "access (close_block o1 n b) = access b" "sources (close_block o1 n b) = sources b"
  by (simp_all add: close_block_def Let_def)

definition closed :: "zend_op list \<Rightarrow> zend_code_block list \<Rightarrow> zend_code_block list \<Rightarrow> nat \<Rightarrow> nat \<Rightarrow> bool" where
  "closed ops bs bs' i e \<longleftrightarrow> i < e \<and> e < length ops \<and> is_start bs e \<and> (\<forall>k. i < k \<longrightarrow> k < e \<longrightarrow> \<not> is_start bs k)
     \<and> (\<exists>k. last_before ops e = Some k \<and> bs' ! i = (close_block (ops ! k) e (bs ! i))\<lparr>block_len := e - i, next_block := Some e\<rparr>)"

definition links :: "zend_op list \<Rightarrow> zend_code_block list \<Rightarrow> nat \<Rightarrow> nat \<Rightarrow> zend_code_block list \<Rightarrow> bool" where
  "links ops bs cur cur' bs' \<longleftrightarrow> length bs' = length bs \<and> cur \<le> cur' \<and> cur' < length ops \<and> is_start bs cur'
     \<and> (\<forall>k. cur' < k \<longrightarrow> k < length ops \<longrightarrow> \<not> is_start bs k)
     \<and> (\<forall>i < length bs. i < cur \<or> cur' \<le> i \<or> \<not> is_start bs i \<longrightarrow> bs' ! i = bs ! i)
     \<and> (\<forall>i. cur \<le> i \<longrightarrow> i < cur' \<longrightarrow> is_start bs i \<longrightarrow> (\<exists>e. closed ops bs bs' i e))"

lemma link_blocks_ok:
  assumes "link_blocks ops opno m cur bs = Some (cur', bs')" "opno + m = length ops" "length ops \<le> length bs" "cur < opno"
    and "is_start bs cur" "\<forall>k. cur < k \<longrightarrow> k < opno \<longrightarrow> \<not> is_start bs k"
  shows "links ops bs cur cur' bs'"
  using assms
proof (induction m arbitrary: opno cur bs)
  case 0
  then show ?case by (auto simp: links_def)
next
  case (Suc m)
  show ?case
  proof (cases "start_opline (bs ! opno) = Null")
    case True
    then have "\<not> is_start bs opno" by (simp add: is_start_def)
    then have "\<forall>k. cur < k \<longrightarrow> k < Suc opno \<longrightarrow> \<not> is_start bs k" using Suc.prems(6) by (metis less_SucE)
    then show ?thesis using Suc.prems True by (intro Suc.IH) auto
  next
    case False
    define g where "g k = (\<lambda>b. (close_block (ops ! k) opno b)\<lparr>block_len := opno - cur, next_block := Some opno\<rparr>)" for k
    obtain k where k: "last_before ops opno = Some k" "link_blocks ops (Suc opno) m opno (upd_block cur (g k) bs) = Some (cur', bs')"
      using Suc.prems(1) False by (auto simp: g_def split: Option.bind_splits)
    let ?bs = "upd_block cur (g k) bs"
    have l: "length ?bs = length bs" "opno < length bs" "opno < length ops" "cur < length bs" using Suc.prems(2,3,4) by simp_all
    have st: "is_start ?bs i \<longleftrightarrow> is_start bs i" for i by (auto simp: is_start_def g_def split: if_splits)
    have op: "is_start bs opno" using False l(2) by (simp add: is_start_def)
    have ih: "links ops ?bs opno cur' bs'"
      using k(2) Suc.prems(2,3) op st by (intro Suc.IH) auto
    have same: "?bs ! i = bs ! i" if "i \<noteq> cur" "i < length bs" for i using that by simp
    have at: "closed ops bs bs' cur opno"
    proof -
      have "bs' ! cur = ?bs ! cur" using ih l Suc.prems(4) unfolding links_def by auto
      then have "bs' ! cur = g k (bs ! cur)" using l(4) by simp
      then show ?thesis using Suc.prems(4,6) l(3) op k(1) by (auto simp: closed_def g_def)
    qed
    have rest: "\<exists>e. closed ops bs bs' i e" if "opno \<le> i" "i < cur'" "is_start bs i" for i
    proof -
      have "\<exists>e. closed ops ?bs bs' i e" using ih that st unfolding links_def by blast
      moreover have "?bs ! i = bs ! i" using that Suc.prems(4) by (intro same) (auto simp: is_start_def)
      ultimately show ?thesis by (simp add: closed_def st)
    qed
    have all: "\<exists>e. closed ops bs bs' i e" if "cur \<le> i" "i < cur'" "is_start bs i" for i
    proof (cases "i = cur")
      case True
      then show ?thesis using at by blast
    next
      case False
      then have "opno \<le> i" using that Suc.prems(6) by (metis le_neq_implies_less not_le_imp_less)
      then show ?thesis using rest that by blast
    qed
    have kept: "bs' ! i = bs ! i" if "i < length bs" "i < cur \<or> cur' \<le> i \<or> \<not> is_start bs i" for i
    proof -
      have ne: "i \<noteq> cur" using that Suc.prems(4,5) ih unfolding links_def by auto
      have "i < opno \<or> cur' \<le> i \<or> \<not> is_start ?bs i" using that Suc.prems(4) st by auto
      then have "bs' ! i = ?bs ! i" using ih that(1) l unfolding links_def by auto
      then show ?thesis using same ne that(1) by simp
    qed
    have "length bs' = length bs" "cur \<le> cur'" "cur' < length ops" "is_start bs cur'" "\<forall>k. cur' < k \<longrightarrow> k < length ops \<longrightarrow> \<not> is_start bs k"
      using ih st Suc.prems(4) unfolding links_def by auto
    then show ?thesis unfolding links_def using all kept by blast
  qed
qed

text \<open>The targets of a block.\<close>

definition targets :: "zend_code_block \<Rightarrow> nat option list" where
  "targets b = [op1_to b, op2_to b, ext_to b, follow_to b]"

definition succs :: "zend_code_block \<Rightarrow> nat set" where
  "succs b = {t. Some t \<in> set (targets b)}"

text \<open>Block \<open>i\<close> consists of the instructions from \<open>i\<close> to before \<open>e\<close>.\<close>

definition block_to :: "zend_op list \<Rightarrow> zend_code_block list \<Rightarrow> nat \<Rightarrow> nat \<Rightarrow> bool" where
  "block_to ops bs i e \<longleftrightarrow> i < e \<and> e \<le> length ops \<and> start_opline (bs ! i) = In_Code i \<and> block_len (bs ! i) = e - i
     \<and> (\<forall>k. i < k \<longrightarrow> k < e \<longrightarrow> \<not> is_start bs k)
     \<and> (if e = length ops then next_block (bs ! i) = Some (length ops + 1) \<and> targets (bs ! i) = [None, None, None, None]
        else next_block (bs ! i) = Some e \<and> is_start bs e
          \<and> (\<exists>k. last_before ops e = Some k \<and> targets (bs ! i) = targets (close_block (ops ! k) e no_block)))"

definition cfg_ok :: "zend_op list \<Rightarrow> zend_code_block list \<Rightarrow> bool" where
  "cfg_ok ops bs \<longleftrightarrow> length bs = length ops + 2 \<and> ops \<noteq> [] \<and> is_start bs 0
     \<and> (\<forall>i < length ops. is_start bs i \<longrightarrow> (\<exists>e. block_to ops bs i e))
     \<and> (\<forall>i < length bs. \<not> (i < length ops \<and> is_start bs i) \<longrightarrow> targets (bs ! i) = [None, None, None, None] \<and> block_len (bs ! i) = 0)
     \<and> next_block (bs ! (length ops + 1)) = None \<and> (\<forall>i < length bs. start_opline (bs ! i) \<in> {Null, In_Code i})"

text \<open>No block has a reference, and only blocks that start somewhere are marked.\<close>

definition fresh :: "zend_code_block list \<Rightarrow> bool" where
  "fresh bs \<longleftrightarrow> (\<forall>i < length bs. sources (bs ! i) = [] \<and> (access (bs ! i) \<longrightarrow> is_start bs i))"

text \<open>What \<open>find_code_blocks\<close> returns.\<close>

definition loops_started :: "zend_code_block list \<Rightarrow> brk_cont_element list \<Rightarrow> bool" where
  "loops_started bs ls \<longleftrightarrow> (\<forall>b \<in> set ls. is_start bs (nat (bc_start b)) \<and> is_start bs (nat (bc_cont b)) \<and> is_start bs (nat (bc_brk b)))"

definition starts_ok :: "'x zend_op_array \<Rightarrow> zend_code_block list \<Rightarrow> bool" where
  "starts_ok oa bs \<longleftrightarrow>
     (\<forall>k < last_op oa. \<exists>ns. block_starts (opcodes oa ! k) k = Some ns \<and> (\<forall>n \<in> set ns. is_start bs n))
   \<and> (\<forall>t \<in> set (try_catch_array oa). is_start bs (try_op t) \<and> is_start bs (catch_op t))"

definition found :: "'x zend_op_array \<Rightarrow> 'x zend_op_array \<Rightarrow> zend_cfg \<Rightarrow> bool" where
  "found oa oa1 cfg \<longleftrightarrow> (\<exists>kept. oa1 = oa\<lparr>brk_cont_array := kept\<rparr> \<and> loops_started (blocks cfg) kept
       \<and> loop_start cfg = map (\<lambda>b. nat (bc_start b)) kept \<and> loop_cont cfg = map (\<lambda>b. nat (bc_cont b)) kept
       \<and> loop_brk cfg = map (\<lambda>b. nat (bc_brk b)) kept)
     \<and> cfg_try cfg = map try_op (try_catch_array oa) \<and> cfg_catch cfg = map catch_op (try_catch_array oa)
     \<and> cfg_ok (opcodes oa) (blocks cfg) \<and> starts_ok oa (blocks cfg) \<and> fresh (blocks cfg)"

lemma targets_close_block:
  "targets b = [None, None, None, None] \<Longrightarrow> targets ((close_block o1 e b)\<lparr>block_len := l, next_block := n\<rparr>) = targets (close_block o1 e no_block)"
  by (simp add: targets_def close_block_def no_block_def Let_def)

lemma find_code_blocks_found:
  assumes f: "find_code_blocks oa = Some (Some (oa1, cfg))" and n: "opcodes oa \<noteq> []"
  shows "found oa oa1 cfg"
proof -
  let ?n = "last_op oa" and ?ops = "opcodes oa"
  define bs0 where "bs0 = upd_block 0 (\<lambda>b. b\<lparr>start_opline := In_Code 0\<rparr>) (replicate (?n + 2) no_block)"
  obtain bs1 bs2 bcs kept bs3 cur bs4 where
    1: "mark_code ?ops 0 bs0 = Some (Some bs1)" and 2: "mark_try (try_catch_array oa) bs1 = Some bs2"
    and 3: "kept_loops ?ops bcs = Some kept" "mark_loops kept bs2 = Some bs3"
    and 4: "link_blocks ?ops 1 (?n - 1) 0 bs3 = Some (cur, bs4)"
    and oa1: "oa1 = oa\<lparr>brk_cont_array := kept\<rparr>"
    and cfg: "cfg = \<lparr>blocks = upd_block cur (\<lambda>b. b\<lparr>block_len := ?n - cur, next_block := Some (?n + 1)\<rparr>) bs4,
                    cfg_try = map try_op (try_catch_array oa), cfg_catch = map catch_op (try_catch_array oa),
                    loop_start = map (\<lambda>b. nat (bc_start b)) kept, loop_cont = map (\<lambda>b. nat (bc_cont b)) kept,
                    loop_brk = map (\<lambda>b. nat (bc_brk b)) kept\<rparr>"
    using f unfolding find_code_blocks_def Let_def bs0_def [symmetric]
    by (auto split: Option.bind_splits option.splits prod.splits)
  have at0: "bs0 ! i = (if i = 0 then no_block\<lparr>start_opline := In_Code 0\<rparr> else no_block)" if "i < ?n + 2" for i
    using that by (simp add: bs0_def del: replicate_Suc)
  have l0: "length bs0 = ?n + 2" by (simp add: bs0_def)
  have b0: "is_start bs0 0" "marked bs0"
    using at0 unfolding is_start_def marked_def l0 by (simp_all add: no_block_def)
  note k1 = mark_code_ok [OF 1] and k2 = mark_try_ok [OF 2] and k3 = mark_loops_ok [OF 3(2)]
  have k: "keeps_starts bs0 bs3" using k1 k2 k3 by (meson keeps_starts_trans)
  have b3: "length bs3 = ?n + 2" "is_start bs3 0" "marked bs3" using k b0 l0 by (simp_all add: keeps_starts_def)
  have ln: "links ?ops bs3 0 cur bs4"
    by (rule link_blocks_ok [OF 4]) (use n b3 in \<open>auto simp: Suc_le_eq\<close>)
  have cur: "cur < ?n" "is_start bs3 cur" "length bs4 = ?n + 2" using ln b3 unfolding links_def by auto
  let ?bs = "blocks cfg"
  have l: "length ?bs = ?n + 2" using cur by (simp add: cfg)
  have at: "?bs ! i = (if i = cur then (bs3 ! cur)\<lparr>block_len := ?n - cur, next_block := Some (?n + 1)\<rparr> else bs4 ! i)" if "i < ?n + 2" for i
    using that ln cur b3(1) unfolding links_def by (auto simp: cfg)
  have out: "bs4 ! i = bs3 ! i" if "i < ?n + 2" "cur \<le> i \<or> \<not> is_start bs3 i" for i using ln that b3(1) unfolding links_def by auto
  have cl: "\<exists>e. closed ?ops bs3 bs4 i e" if "i < cur" "is_start bs3 i" for i using ln that unfolding links_def by blast
  have m3: "start_opline (bs3 ! i) \<in> {Null, In_Code i}" "targets (bs3 ! i) = [None, None, None, None]" "next_block (bs3 ! i) = None"
    "block_len (bs3 ! i) = 0" "sources (bs3 ! i) = []" "access (bs3 ! i) \<Longrightarrow> start_opline (bs3 ! i) \<noteq> Null" if "i < ?n + 2" for i using b3 that unfolding marked_def by (auto simp: targets_def)
  have sto: "start_opline (?bs ! i) = start_opline (bs3 ! i)" if i: "i < ?n + 2" for i
  proof -
    have "start_opline (bs4 ! i) = start_opline (bs3 ! i)"
    proof (cases "i < cur \<and> is_start bs3 i")
      case True
      then show ?thesis using cl [of i] by (auto simp: closed_def)
    qed (use out [of i] i in auto)
    then show ?thesis using at [OF i] by auto
  qed
  then have st: "is_start ?bs i \<longleftrightarrow> is_start bs3 i" for i using l b3(1) by (auto simp: is_start_def)
  have blk: "\<exists>e. block_to ?ops ?bs i e" if i: "i < ?n" "is_start ?bs i" for i
  proof -
    have s: "start_opline (bs3 ! i) = In_Code i" using i st m3(1) [of i] by (auto simp: is_start_def)
    consider "i = cur" | "i < cur" | "cur < i" by linarith
    then show ?thesis
    proof cases
      case 1
      have "\<forall>k. cur < k \<longrightarrow> k < ?n \<longrightarrow> \<not> is_start bs3 k" using ln unfolding links_def by blast
      then have "block_to ?ops ?bs i ?n"
        using 1 i(1) at [of i] s m3(2) [of i] by (simp add: block_to_def st targets_def)
      then show ?thesis ..
    next
      case 2
      then obtain e where e: "closed ?ops bs3 bs4 i e" using cl i st by blast
      then obtain k where k: "last_before ?ops e = Some k" "bs4 ! i = (close_block (?ops ! k) e (bs3 ! i))\<lparr>block_len := e - i, next_block := Some e\<rparr>"
        by (auto simp: closed_def)
      have "block_to ?ops ?bs i e"
        using e k at [of i] i(1) 2 s targets_close_block [OF m3(2) [of i]] by (auto simp: block_to_def closed_def st)
      then show ?thesis ..
    next
      case 3
      then show ?thesis using ln i st unfolding links_def by blast
    qed
  qed
  have none: "?bs ! i = bs3 ! i" if "i < ?n + 2" "\<not> (i < ?n \<and> is_start ?bs i)" for i
    using at [of i] out [of i] that cur st by (cases "i < ?n") auto
  have "targets (?bs ! i) = [None, None, None, None] \<and> block_len (?bs ! i) = 0" if "i < length ?bs" "\<not> (i < ?n \<and> is_start ?bs i)" for i
    using none [of i] m3(2,4) [of i] that l by simp
  moreover have "next_block (?bs ! (?n + 1)) = None" using none [of "?n + 1"] m3(3) [of "?n + 1"] by simp
  moreover have "start_opline (?bs ! i) \<in> {Null, In_Code i}" if "i < length ?bs" for i using sto [of i] m3(1) [of i] that l by simp
  ultimately have "cfg_ok ?ops ?bs"
    unfolding cfg_ok_def using l n b3(2) st blk by blast
  moreover have "fresh ?bs"
    unfolding fresh_def
  proof (intro allI impI)
    fix i assume i: "i < length ?bs"
    have "sources (bs4 ! i) = sources (bs3 ! i) \<and> access (bs4 ! i) = access (bs3 ! i)"
    proof (cases "i < cur \<and> is_start bs3 i")
      case True
      then show ?thesis using cl [of i] by (auto simp: closed_def)
    qed (use out [of i] i l in auto)
    then have "sources (?bs ! i) = [] \<and> (access (?bs ! i) \<longrightarrow> access (bs3 ! i))"
      using at [of i] out [of cur] i l cur m3(5) [of i] by (auto split: if_splits)
    then show "sources (?bs ! i) = [] \<and> (access (?bs ! i) \<longrightarrow> is_start ?bs i)"
      using m3(6) [of i] i l b3(1) unfolding st unfolding is_start_def by auto
  qed
  moreover have "starts_ok oa ?bs"
    unfolding starts_ok_def st using k1 k2 k3 by (simp add: keeps_starts_def) blast
  moreover have "loops_started ?bs kept" using k3 by (simp add: loops_started_def st)
  ultimately show ?thesis unfolding found_def using oa1 by (intro conjI exI [of _ kept]) (simp_all add: cfg)
qed

section \<open>Reachable blocks\<close>

text \<open>Blocks up to their marks and references back.\<close>

definition skel :: "zend_code_block \<Rightarrow> zend_code_block" where
  "skel b = b\<lparr>access := False, sources := []\<rparr>"

definition same_graph :: "zend_code_block list \<Rightarrow> zend_code_block list \<Rightarrow> bool" where
  "same_graph bs bs' \<longleftrightarrow> map skel bs' = map skel bs"

lemma skel_eq:
  assumes "skel b' = skel b"
  shows "start_opline b' = start_opline b" "start_opline_no b' = start_opline_no b" "block_len b' = block_len b" "next_block b' = next_block b"
    "op1_to b' = op1_to b" "op2_to b' = op2_to b" "ext_to b' = ext_to b" "follow_to b' = follow_to b" "protected b' = protected b"
    "targets b' = targets b" "succs b' = succs b"
proof -
  have f: "start_opline x = start_opline (skel x)" "start_opline_no x = start_opline_no (skel x)" "block_len x = block_len (skel x)"
    "next_block x = next_block (skel x)" "op1_to x = op1_to (skel x)" "op2_to x = op2_to (skel x)" "ext_to x = ext_to (skel x)"
    "follow_to x = follow_to (skel x)" "protected x = protected (skel x)" for x
    by (simp_all add: skel_def)
  show "start_opline b' = start_opline b" "start_opline_no b' = start_opline_no b" "block_len b' = block_len b" "next_block b' = next_block b"
    "op1_to b' = op1_to b" "op2_to b' = op2_to b" "ext_to b' = ext_to b" "follow_to b' = follow_to b" "protected b' = protected b"
    using assms by (metis f)+
  then show "targets b' = targets b" "succs b' = succs b" by (simp_all add: targets_def succs_def)
qed

lemma same_graph_length: "same_graph bs bs' \<Longrightarrow> length bs' = length bs"
  unfolding same_graph_def by (metis length_map)

lemma same_graph_nth: "same_graph bs bs' \<Longrightarrow> i < length bs \<Longrightarrow> skel (bs' ! i) = skel (bs ! i)"
  unfolding same_graph_def by (metis length_map nth_map)

lemma same_graph_trans: "same_graph bs bs1 \<Longrightarrow> same_graph bs1 bs2 \<Longrightarrow> same_graph bs bs2"
  by (simp add: same_graph_def)

lemma same_graph_refl [simp]: "same_graph bs bs"
  by (simp add: same_graph_def)

lemma same_graph_upd: "(\<And>b. skel (f b) = skel b) \<Longrightarrow> same_graph bs (upd_block n f bs)"
  unfolding same_graph_def by (rule nth_equalityI) auto

lemma same_graph_ADD_SOURCE: "same_graph bs (ADD_SOURCE b t bs)"
  by (simp add: ADD_SOURCE_def) (simp add: same_graph_upd skel_def)

definition used_blocks :: "zend_code_block list \<Rightarrow> nat set" where
  "used_blocks bs = {i. i < length bs \<and> access (bs ! i)}"

definition edges :: "zend_code_block list \<Rightarrow> (nat \<times> nat) set" where
  "edges bs = {(x, y). x < length bs \<and> y \<in> succs (bs ! x)}"

lemma same_graph_edges: "same_graph bs bs' \<Longrightarrow> edges bs' = edges bs"
proof -
  assume g: "same_graph bs bs'"
  have "succs (bs' ! x) = succs (bs ! x)" if "x < length bs" for x using skel_eq(11) [OF same_graph_nth [OF g that]] .
  then show ?thesis using same_graph_length [OF g] by (auto simp: edges_def)
qed

definition graph_closed :: "zend_code_block list \<Rightarrow> bool" where
  "graph_closed bs \<longleftrightarrow> (\<forall>x y. (x, y) \<in> edges bs \<longrightarrow> y < length bs)"

text \<open>The blocks \<open>D\<close> were marked and added as sources to their successors.\<close>

definition visited :: "zend_code_block list \<Rightarrow> zend_code_block list \<Rightarrow> nat set \<Rightarrow> bool" where
  "visited bs bs' D \<longleftrightarrow> same_graph bs bs' \<and> used_blocks bs' = used_blocks bs \<union> D \<and> D \<inter> used_blocks bs = {}
     \<and> (\<forall>x y. x \<in> D \<longrightarrow> (x, y) \<in> edges bs \<longrightarrow> y \<in> used_blocks bs')
     \<and> (\<forall>t < length bs. set (sources (bs' ! t)) = set (sources (bs ! t)) \<union> {x \<in> D. (x, t) \<in> edges bs})
     \<and> (\<forall>t < length bs. distinct (sources (bs ! t)) \<longrightarrow> distinct (sources (bs' ! t)))"

lemma visited_none: "visited bs bs {}"
  by (simp add: visited_def)

lemma visited_trans:
  assumes "visited bs bs1 D" "visited bs1 bs2 E"
  shows "visited bs bs2 (D \<union> E)"
proof -
  have g: "same_graph bs bs1" "same_graph bs1 bs2" "edges bs1 = edges bs" "length bs1 = length bs"
    using assms same_graph_edges same_graph_length by (auto simp: visited_def)
  have "set (sources (bs2 ! t)) = set (sources (bs ! t)) \<union> {x \<in> D \<union> E. (x, t) \<in> edges bs}" if "t < length bs" for t
    using assms that g unfolding visited_def by auto
  then show ?thesis using assms g same_graph_trans [OF g(1,2)] unfolding visited_def by auto
qed

text \<open>The state of a visit of \<open>b\<close> when the successors \<open>S\<close> are done.\<close>

definition visiting :: "zend_code_block list \<Rightarrow> nat \<Rightarrow> nat set \<Rightarrow> zend_code_block list \<Rightarrow> nat set \<Rightarrow> bool" where
  "visiting bs b S bs' D \<longleftrightarrow> same_graph bs bs' \<and> used_blocks bs' = insert b (used_blocks bs \<union> D)
     \<and> D \<inter> insert b (used_blocks bs) = {} \<and> S \<subseteq> used_blocks bs' \<and> S \<subseteq> succs (bs ! b)
     \<and> (\<forall>x y. x \<in> D \<longrightarrow> (x, y) \<in> edges bs \<longrightarrow> y \<in> used_blocks bs') \<and> (\<forall>x \<in> D. (b, x) \<in> (edges bs)\<^sup>*)
     \<and> (\<forall>t < length bs. set (sources (bs' ! t)) = set (sources (bs ! t)) \<union> {x \<in> D. (x, t) \<in> edges bs} \<union> (if t \<in> S then {b} else {}))
     \<and> (\<forall>t < length bs. distinct (sources (bs ! t)) \<longrightarrow> distinct (sources (bs' ! t)))"

definition visit_ok :: "zend_code_block list \<Rightarrow> nat \<Rightarrow> bool" where
  "visit_ok bs b \<longleftrightarrow> (\<exists>bs' D. zend_access_path b bs = Some bs' \<and> visited bs bs' D \<and> b \<in> used_blocks bs' \<and> (\<forall>x \<in> D. (b, x) \<in> (edges bs)\<^sup>*))"

definition visit_edge :: "nat \<Rightarrow> nat option \<Rightarrow> zend_code_block list \<Rightarrow> zend_code_block list option" where
  "visit_edge b to bs = (case to of None \<Rightarrow> Some bs | Some t \<Rightarrow> do { x \<leftarrow> zend_access_path t bs; Some (ADD_SOURCE b t x) })"

lemma visit_edge_ok:
  assumes v: "visiting bs b S bs1 D" and b: "b < length bs" and t: "\<And>t. to = Some t \<Longrightarrow> t \<in> succs (bs ! b) \<and> visit_ok bs1 t"
    and gc: "graph_closed bs"
  shows "\<exists>bs2 E. visit_edge b to bs1 = Some bs2 \<and> visiting bs b (S \<union> set_option to) bs2 E"
proof (cases to)
  case None
  then show ?thesis using v by (auto simp: visit_edge_def)
next
  case (Some t)
  obtain x E where x: "zend_access_path t bs1 = Some x" "visited bs1 x E" "t \<in> used_blocks x" "\<forall>y \<in> E. (t, y) \<in> (edges bs1)\<^sup>*"
    using t [OF Some] unfolding visit_ok_def by blast
  have ts: "t \<in> succs (bs ! b)" using t [OF Some] by blast
  have g: "same_graph bs bs1" "same_graph bs1 x" "edges bs1 = edges bs" "length bs1 = length bs" "length x = length bs"
    using v x(2) same_graph_edges same_graph_length unfolding visiting_def visited_def by metis+
  have bt: "(b, t) \<in> edges bs" using ts b by (simp add: edges_def)
  have tl: "t < length bs" using gc bt by (simp add: graph_closed_def)
  let ?y = "ADD_SOURCE b t x"
  have yl: "length ?y = length bs" by (simp add: ADD_SOURCE_def g)
  have ya: "access (?y ! i) = access (x ! i)" if "i < length bs" for i using that g by (simp add: ADD_SOURCE_def)
  then have yu: "used_blocks ?y = used_blocks x" using yl g(5) by (auto simp: used_blocks_def)
  have ys: "set (sources (?y ! i)) = set (sources (x ! i)) \<union> (if i = t then {b} else {})" if "i < length bs" for i
    using that g by (auto simp: ADD_SOURCE_def)
  have yd: "distinct (sources (x ! i)) \<Longrightarrow> distinct (sources (?y ! i))" if "i < length bs" for i
    using that g by (auto simp: ADD_SOURCE_def)
  have vu: "used_blocks bs1 = insert b (used_blocks bs \<union> D)" "D \<inter> insert b (used_blocks bs) = {}" "S \<subseteq> used_blocks bs1"
    using v unfolding visiting_def by blast+
  have xu: "used_blocks x = used_blocks bs1 \<union> E" "E \<inter> used_blocks bs1 = {}" using x(2) unfolding visited_def by blast+
  have u: "used_blocks x = insert b (used_blocks bs \<union> (D \<union> E))" using vu(1) xu(1) by blast
  have e1: "visit_edge b to bs1 = Some ?y" using x(1) Some by (simp add: visit_edge_def)
  have e2: "same_graph bs ?y" using same_graph_trans [OF same_graph_trans [OF g(1,2)] same_graph_ADD_SOURCE] .
  have e3: "(D \<union> E) \<inter> insert b (used_blocks bs) = {}" using vu xu by blast
  have e4: "S \<union> set_option to \<subseteq> used_blocks ?y" using vu(3) xu(1) x(3) Some yu by auto
  have sub: "used_blocks bs1 \<subseteq> used_blocks x" using xu(1) by blast
  have e5: "q \<in> used_blocks ?y" if "p \<in> D \<union> E" "(p, q) \<in> edges bs" for p q
  proof (cases "p \<in> D")
    case True
    then have "q \<in> used_blocks bs1" using v that(2) unfolding visiting_def by blast
    then show ?thesis using sub yu by blast
  next
    case False
    then have "p \<in> E" using that(1) by blast
    then have "q \<in> used_blocks x" using x(2) that(2) unfolding visited_def g(3) by blast
    then show ?thesis using yu by blast
  qed
  have e6: "(b, z) \<in> (edges bs)\<^sup>*" if "z \<in> D \<union> E" for z
  proof (cases "z \<in> D")
    case True
    then show ?thesis using v unfolding visiting_def by blast
  next
    case False
    then have "(t, z) \<in> (edges bs)\<^sup>*" using that x(4) unfolding g(3) by blast
    then show ?thesis using bt by (rule converse_rtrancl_into_rtrancl [rotated])
  qed
  have e7: "set (sources (?y ! i)) = set (sources (bs ! i)) \<union> {z \<in> D \<union> E. (z, i) \<in> edges bs} \<union> (if i \<in> S \<union> set_option to then {b} else {})"
    if i: "i < length bs" for i
  proof -
    have "set (sources (x ! i)) = set (sources (bs1 ! i)) \<union> {z \<in> E. (z, i) \<in> edges bs}" using x(2) i unfolding visited_def g(3,4) by blast
    moreover have "set (sources (bs1 ! i)) = set (sources (bs ! i)) \<union> {z \<in> D. (z, i) \<in> edges bs} \<union> (if i \<in> S then {b} else {})"
      using v i unfolding visiting_def by blast
    ultimately show ?thesis using ys [OF i] Some by auto
  qed
  have e8: "distinct (sources (?y ! i))" if "i < length bs" "distinct (sources (bs ! i))" for i
  proof -
    have "distinct (sources (bs1 ! i))" using v that unfolding visiting_def by blast
    then have "distinct (sources (x ! i))" using x(2) that(1) unfolding visited_def g(4) by blast
    then show ?thesis by (rule yd [OF that(1)])
  qed
  have e9: "used_blocks ?y = insert b (used_blocks bs \<union> (D \<union> E))" "S \<union> set_option to \<subseteq> succs (bs ! b)"
    using yu u ts Some v by (simp_all add: visiting_def)
  have "visiting bs b (S \<union> set_option to) ?y (D \<union> E)"
    unfolding visiting_def
  proof (intro conjI allI impI ballI)
    show "q \<in> used_blocks ?y" if "p \<in> D \<union> E" "(p, q) \<in> edges bs" for p q by (rule e5 [OF that])
    show "(b, z) \<in> (edges bs)\<^sup>*" if "z \<in> D \<union> E" for z by (rule e6 [OF that])
    show "distinct (sources (?y ! i))" if "i < length bs" "distinct (sources (bs ! i))" for i by (rule e8 [OF that])
    show "set (sources (?y ! i)) = set (sources (bs ! i)) \<union> {z \<in> D \<union> E. (z, i) \<in> edges bs} \<union> (if i \<in> S \<union> set_option to then {b} else {})"
      if "i < length bs" for i by (rule e7 [OF that])
  qed (fact e2 e3 e4 e9)+
  then show ?thesis using e1 by blast
qed

lemma zend_access_path_edges:
  "zend_access_path b bs =
     (if \<not> b < length bs then None
      else if access (bs ! b) then Some bs
      else let bs0 = upd_block b (\<lambda>x. x\<lparr>access := True\<rparr>) bs in
        do { bs1 \<leftarrow> visit_edge b (op1_to (bs0 ! b)) bs0;
             bs2 \<leftarrow> visit_edge b (op2_to (bs1 ! b)) bs1;
             bs3 \<leftarrow> visit_edge b (ext_to (bs2 ! b)) bs2;
             visit_edge b (follow_to (bs3 ! b)) bs3 })"
  by (subst zend_access_path.simps) (simp add: visit_edge_def)

definition unused_blocks :: "zend_code_block list \<Rightarrow> nat set" where
  "unused_blocks bs = {..<length bs} - used_blocks bs"

lemma visitingD:
  assumes "visiting bs b S bs' D"
  shows "same_graph bs bs'" "used_blocks bs' = insert b (used_blocks bs \<union> D)" "D \<inter> insert b (used_blocks bs) = {}" "S \<subseteq> used_blocks bs'"
    "\<And>x y. x \<in> D \<Longrightarrow> (x, y) \<in> edges bs \<Longrightarrow> y \<in> used_blocks bs'" "\<And>x. x \<in> D \<Longrightarrow> (b, x) \<in> (edges bs)\<^sup>*"
    "\<And>t. t < length bs \<Longrightarrow> set (sources (bs' ! t)) = set (sources (bs ! t)) \<union> {x \<in> D. (x, t) \<in> edges bs} \<union> (if t \<in> S then {b} else {})"
    "\<And>t. t < length bs \<Longrightarrow> distinct (sources (bs ! t)) \<Longrightarrow> distinct (sources (bs' ! t))"
  using assms unfolding visiting_def by blast+

lemma visiting_done:
  assumes v: "visiting bs b (succs (bs ! b)) bs' D" and b: "b < length bs" "\<not> access (bs ! b)"
  shows "visited bs bs' (insert b D) \<and> b \<in> used_blocks bs' \<and> (\<forall>x \<in> insert b D. (b, x) \<in> (edges bs)\<^sup>*)"
proof -
  note d = visitingD [OF v]
  have nb: "b \<notin> used_blocks bs" using b by (simp add: used_blocks_def)
  have eb: "(b, y) \<in> edges bs \<longleftrightarrow> y \<in> succs (bs ! b)" for y using b by (simp add: edges_def)
  have "set (sources (bs' ! t)) = set (sources (bs ! t)) \<union> {x \<in> insert b D. (x, t) \<in> edges bs}" if "t < length bs" for t
    using d(7) [OF that] eb by auto
  moreover have "y \<in> used_blocks bs'" if "x \<in> insert b D" "(x, y) \<in> edges bs" for x y
  proof (cases "x = b")
    case True
    then show ?thesis using that(2) eb d(4) by blast
  next
    case False
    then show ?thesis using that d(5) by blast
  qed
  moreover have "used_blocks bs' = used_blocks bs \<union> insert b D" "insert b D \<inter> used_blocks bs = {}" using d(2,3) nb by blast+
  ultimately show ?thesis unfolding visited_def using d(1,2,6,8) by blast
qed

lemma access_path_ok: "graph_closed bs \<Longrightarrow> b < length bs \<Longrightarrow> visit_ok bs b"
proof (induction "card (unused_blocks bs)" arbitrary: bs b rule: less_induct)
  case less
  show ?case
  proof (cases "access (bs ! b)")
    case True
    then have "zend_access_path b bs = Some bs" using less.prems by (simp add: zend_access_path.simps)
    moreover have "b \<in> used_blocks bs" using True less.prems by (simp add: used_blocks_def)
    ultimately show ?thesis unfolding visit_ok_def by (intro exI [of _ bs] exI [of _ "{}"]) (simp add: visited_none)
  next
    case False
    define bs0 where "bs0 = upd_block b (\<lambda>x. x\<lparr>access := True\<rparr>) bs"
    have v0: "visiting bs b {} bs0 {}"
    proof -
      have g: "same_graph bs bs0" unfolding bs0_def by (rule same_graph_upd) (simp add: skel_def)
      have "used_blocks bs0 = insert b (used_blocks bs)" using less.prems by (auto simp: used_blocks_def bs0_def)
      moreover have "sources (bs0 ! t) = sources (bs ! t)" if "t < length bs" for t using that by (simp add: bs0_def)
      ultimately show ?thesis using g by (simp add: visiting_def)
    qed
    have nb: "b \<in> unused_blocks bs" using less.prems False by (simp add: unused_blocks_def used_blocks_def)
    have inner: "visit_ok bs1 t" if v: "visiting bs b S bs1 D" and t: "t \<in> succs (bs ! b)" for S bs1 D t
    proof (rule less.hyps)
      note d = visitingD [OF v]
      have l: "length bs1 = length bs" and e: "edges bs1 = edges bs" using same_graph_length [OF d(1)] same_graph_edges [OF d(1)] by simp_all
      have "unused_blocks bs1 \<subset> unused_blocks bs" using nb d(2) l by (auto simp: unused_blocks_def)
      then show "card (unused_blocks bs1) < card (unused_blocks bs)" by (rule psubset_card_mono [rotated]) (simp add: unused_blocks_def)
      show "graph_closed bs1" using less.prems(1) l e by (simp add: graph_closed_def)
      have "(b, t) \<in> edges bs" using less.prems(2) t by (simp add: edges_def)
      then have "t < length bs" using less.prems(1) unfolding graph_closed_def by blast
      then show "t < length bs1" using l by simp
    qed
    have s: "op1_to x = op1_to (bs ! b)" "op2_to x = op2_to (bs ! b)" "ext_to x = ext_to (bs ! b)" "follow_to x = follow_to (bs ! b)"
      if "visiting bs b S bs1 D" "x = bs1 ! b" for S bs1 D x
      using skel_eq(5-8) [OF same_graph_nth [OF visitingD(1) [OF that(1)] less.prems(2)]] that(2) by simp_all
    have step: "\<exists>bs2 E. visit_edge b to bs1 = Some bs2 \<and> visiting bs b (S \<union> set_option to) bs2 E"
      if v: "visiting bs b S bs1 D" and to: "to \<in> set (targets (bs ! b))" for S bs1 D to
    proof (rule visit_edge_ok [OF v less.prems(2) _ less.prems(1)])
      fix t assume "to = Some t"
      then have "t \<in> succs (bs ! b)" using to by (simp add: succs_def)
      then show "t \<in> succs (bs ! b) \<and> visit_ok bs1 t" using inner [OF v] by blast
    qed
    have t: "op1_to (bs ! b) \<in> set (targets (bs ! b))" "op2_to (bs ! b) \<in> set (targets (bs ! b))"
      "ext_to (bs ! b) \<in> set (targets (bs ! b))" "follow_to (bs ! b) \<in> set (targets (bs ! b))" by (simp_all add: targets_def)
    obtain bs1 D1 where 1: "visit_edge b (op1_to (bs ! b)) bs0 = Some bs1" "visiting bs b ({} \<union> set_option (op1_to (bs ! b))) bs1 D1"
      using step [OF v0 t(1)] by blast
    obtain bs2 D2 where 2: "visit_edge b (op2_to (bs ! b)) bs1 = Some bs2"
      "visiting bs b ({} \<union> set_option (op1_to (bs ! b)) \<union> set_option (op2_to (bs ! b))) bs2 D2"
      using step [OF 1(2) t(2)] by blast
    obtain bs3 D3 where 3: "visit_edge b (ext_to (bs ! b)) bs2 = Some bs3"
      "visiting bs b ({} \<union> set_option (op1_to (bs ! b)) \<union> set_option (op2_to (bs ! b)) \<union> set_option (ext_to (bs ! b))) bs3 D3"
      using step [OF 2(2) t(3)] by blast
    obtain bs4 D4 where 4: "visit_edge b (follow_to (bs ! b)) bs3 = Some bs4"
      "visiting bs b ({} \<union> set_option (op1_to (bs ! b)) \<union> set_option (op2_to (bs ! b)) \<union> set_option (ext_to (bs ! b))
         \<union> set_option (follow_to (bs ! b))) bs4 D4"
      using step [OF 3(2) t(4)] by blast
    have "succs (bs ! b) = {} \<union> set_option (op1_to (bs ! b)) \<union> set_option (op2_to (bs ! b)) \<union> set_option (ext_to (bs ! b)) \<union> set_option (follow_to (bs ! b))"
      by (auto simp: succs_def targets_def)
    then have fin: "visited bs bs4 (insert b D4) \<and> b \<in> used_blocks bs4 \<and> (\<forall>x \<in> insert b D4. (b, x) \<in> (edges bs)\<^sup>*)"
      using 4(2) by (intro visiting_done [OF _ less.prems(2) False]) simp
    have "zend_access_path b bs = Some bs4"
      using less.prems(2) False 1(1) 2(1) 3(1) 4(1) s [OF v0 refl] s [OF 1(2) refl] s [OF 2(2) refl] s [OF 3(2) refl]
      by (subst zend_access_path_edges) (simp add: bs0_def [symmetric] Let_def)
    then show ?thesis using fin unfolding visit_ok_def by blast
  qed
qed

lemma access_paths_ok:
  assumes "graph_closed bs" "\<forall>b \<in> set rs. b < length bs"
  shows "\<exists>bs' D. access_paths rs bs = Some bs' \<and> visited bs bs' D \<and> set rs \<subseteq> used_blocks bs' \<and> (\<forall>x \<in> D. \<exists>b \<in> set rs. (b, x) \<in> (edges bs)\<^sup>*)"
  using assms
proof (induction rs arbitrary: bs)
  case Nil
  then show ?case using visited_none by auto
next
  case (Cons r rs)
  obtain bs1 D where 1: "zend_access_path r bs = Some bs1" "visited bs bs1 D" "r \<in> used_blocks bs1" "\<forall>x \<in> D. (r, x) \<in> (edges bs)\<^sup>*"
    using access_path_ok [OF Cons.prems(1), of r] Cons.prems(2) unfolding visit_ok_def by auto
  have g: "same_graph bs bs1" using 1(2) unfolding visited_def by blast
  note l = same_graph_length [OF g] and e = same_graph_edges [OF g]
  obtain bs2 E where 2: "access_paths rs bs1 = Some bs2" "visited bs1 bs2 E" "set rs \<subseteq> used_blocks bs2"
    "\<forall>x \<in> E. \<exists>b \<in> set rs. (b, x) \<in> (edges bs)\<^sup>*"
    using Cons.IH [of bs1] Cons.prems l e by (auto simp: graph_closed_def)
  have "used_blocks bs1 \<subseteq> used_blocks bs2" using 2(2) unfolding visited_def by blast
  then show ?case using 1 2 visited_trans [OF 1(2) 2(2)] by (intro exI [of _ bs2] exI [of _ "D \<union> E"]) auto
qed

section \<open>Rebuilding the graph\<close>

lemma same_graph_start: "same_graph bs bs' \<Longrightarrow> is_start bs' i \<longleftrightarrow> is_start bs i"
  using skel_eq(1) [OF same_graph_nth] same_graph_length unfolding is_start_def by metis

lemma same_graph_block_to:
  assumes "same_graph bs bs'" "i < length bs"
  shows "block_to ops bs' i e \<longleftrightarrow> block_to ops bs i e"
  using skel_eq [OF same_graph_nth [OF assms]] same_graph_start [OF assms(1)] by (simp add: block_to_def)

lemma same_graph_cfg_ok:
  assumes g: "same_graph bs bs'" and c: "cfg_ok ops bs"
  shows "cfg_ok ops bs'"
proof -
  note l = same_graph_length [OF g] and st = same_graph_start [OF g] and k = skel_eq [OF same_graph_nth [OF g]]
  have b: "block_to ops bs' i = block_to ops bs i" if "i < length ops" for i
    using same_graph_block_to [OF g] that c by (intro ext) (simp add: cfg_ok_def)
  show ?thesis
    using c k l unfolding cfg_ok_def by (simp add: st b)
qed

lemma cfg_okD:
  assumes "cfg_ok ops bs"
  shows "length bs = length ops + 2" "0 < length ops" "is_start bs 0"
    "\<And>i. i < length ops \<Longrightarrow> is_start bs i \<Longrightarrow> \<exists>e. block_to ops bs i e"
    "\<And>i. i < length bs \<Longrightarrow> \<not> (i < length ops \<and> is_start bs i) \<Longrightarrow> targets (bs ! i) = [None, None, None, None] \<and> block_len (bs ! i) = 0"
    "next_block (bs ! (length ops + 1)) = None" "\<And>i. i < length bs \<Longrightarrow> start_opline (bs ! i) = Null \<or> start_opline (bs ! i) = In_Code i"
  using assms unfolding cfg_ok_def by auto

text \<open>The blocks that a walk along \<open>next\<close> from \<open>i\<close> meets.\<close>

definition on_chain :: "zend_op list \<Rightarrow> zend_code_block list \<Rightarrow> nat \<Rightarrow> bool" where
  "on_chain ops bs i \<longleftrightarrow> i < length ops \<and> is_start bs i \<or> i = length ops + 1"

lemma chain_next:
  assumes c: "cfg_ok ops bs" and i: "on_chain ops bs i" "i \<noteq> length ops + 1"
  shows "\<exists>m. next_block (bs ! i) = Some m \<and> i < m \<and> on_chain ops bs m \<and> (\<forall>k. i < k \<longrightarrow> k < m \<longrightarrow> \<not> on_chain ops bs k)"
proof -
  have i1: "i < length ops" "is_start bs i" using i by (auto simp: on_chain_def)
  obtain e where e: "block_to ops bs i e" using cfg_okD(4) [OF c i1] by blast
  show ?thesis
  proof (cases "e = length ops")
    case True
    then show ?thesis using e by (intro exI [of _ "length ops + 1"]) (auto simp: block_to_def on_chain_def)
  next
    case False
    then show ?thesis using e by (intro exI [of _ e]) (auto simp: block_to_def on_chain_def)
  qed
qed

definition cleared_block :: "zend_code_block \<Rightarrow> zend_code_block" where
  "cleared_block x = x\<lparr>access := False, sources := []\<rparr>"

lemma skel_cleared: "skel (cleared_block x) = skel x"
  by (simp add: skel_def cleared_block_def)

lemma reset_blocks_ok:
  assumes "cfg_ok ops bs" "on_chain ops bs i"
  shows "\<exists>st bs'. reset_blocks (Some i) start bs = Some (st, bs') \<and> same_graph bs bs' \<and> (start \<noteq> None \<longrightarrow> st = start)
    \<and> (\<forall>k < length bs. bs' ! k = (if i \<le> k \<and> on_chain ops bs k then cleared_block (bs ! k) else bs ! k))"
  using assms
proof (induction "length ops + 1 - i" arbitrary: i bs start rule: less_induct)
  case less
  have i: "i < length bs" using less.prems cfg_okD(1) [OF less.prems(1)] by (auto simp: on_chain_def)
  define bs1 where "bs1 = upd_block i cleared_block bs"
  define st where "st = (if start = None \<and> access (bs ! i) then Some i else start)"
  have e: "reset_blocks (Some i) start bs = reset_blocks (next_block (bs ! i)) st bs1"
    using i by (subst reset_blocks.simps) (simp add: bs1_def st_def cleared_block_def [abs_def])
  have g: "same_graph bs bs1" unfolding bs1_def by (rule same_graph_upd) (rule skel_cleared)
  have st: "start \<noteq> None \<Longrightarrow> st = start" by (simp add: st_def)
  show ?case
  proof (cases "i = length ops + 1")
    case True
    then have "reset_blocks (Some i) start bs = Some (st, bs1)"
      using e cfg_okD(6) [OF less.prems(1)] by (simp add: reset_blocks.simps)
    moreover have "bs1 ! k = (if i \<le> k \<and> on_chain ops bs k then cleared_block (bs ! k) else bs ! k)" if "k < length bs" for k
      using that True cfg_okD(1) [OF less.prems(1)] by (auto simp: bs1_def on_chain_def)
    ultimately show ?thesis using g st by blast
  next
    case False
    obtain m where m: "next_block (bs ! i) = Some m" "i < m" "on_chain ops bs m" "\<forall>k. i < k \<longrightarrow> k < m \<longrightarrow> \<not> on_chain ops bs k"
      using chain_next [OF less.prems False] by blast
    have oc: "on_chain ops bs1 k \<longleftrightarrow> on_chain ops bs k" for k using same_graph_start [OF g] by (simp add: on_chain_def)
    have "length ops + 1 - m < length ops + 1 - i" using m(2) less.prems(2) False by (auto simp: on_chain_def)
    then obtain s' bs' where r: "reset_blocks (Some m) st bs1 = Some (s', bs')" "same_graph bs1 bs'" "st \<noteq> None \<longrightarrow> s' = st"
      "\<forall>k < length bs1. bs' ! k = (if m \<le> k \<and> on_chain ops bs1 k then cleared_block (bs1 ! k) else bs1 ! k)"
      using less.hyps [of m bs1 st] same_graph_cfg_ok [OF g less.prems(1)] m(3) oc by blast
    have "bs' ! k = (if i \<le> k \<and> on_chain ops bs k then cleared_block (bs ! k) else bs ! k)" if k: "k < length bs" for k
    proof -
      have b: "bs' ! k = (if m \<le> k \<and> on_chain ops bs k then cleared_block (bs1 ! k) else bs1 ! k)"
        using r(4) k oc by (simp add: bs1_def)
      show ?thesis
      proof (cases "k = i")
        case True
        then show ?thesis using b m(2) less.prems(2) i by (simp add: bs1_def)
      next
        case False
        then have "bs1 ! k = bs ! k" using k by (simp add: bs1_def)
        then show ?thesis using b m(2,4) False by (metis le_neq_implies_less le_trans less_imp_le_nat not_le_imp_less)
      qed
    qed
    then show ?thesis using e m(1) r(1,3) st same_graph_trans [OF g r(2)] by auto
  qed
qed

lemma access_paths_append: "access_paths (xs @ ys) bs = do { bs' \<leftarrow> access_paths xs bs; access_paths ys bs' }"
  by (induction xs arbitrary: bs) (auto split: Option.bind_splits)

text \<open>Where control enters the code: its start, the kept loops and the catch blocks.\<close>

definition roots :: "zend_cfg \<Rightarrow> 'x zend_op_array \<Rightarrow> nat list" where
  "roots cfg oa = 0 # concat (map (\<lambda>i. [loop_start cfg ! i, loop_cont cfg ! i, loop_brk cfg ! i]) [0..<length (brk_cont_array oa)])
     @ map (\<lambda>i. cfg_catch cfg ! i) [0..<length (try_catch_array oa)]"

lemma rebuild_roots:
  assumes "reset_blocks (Some 0) (Some 0) (blocks cfg) = Some (Some 0, bs)"
  shows "zend_rebuild_access_path cfg oa False = map_option (\<lambda>bs'. cfg\<lparr>blocks := bs'\<rparr>) (access_paths (roots cfg oa) bs)"
  using assms by (auto simp: zend_rebuild_access_path_def roots_def access_paths_append map_conv_bind_option intro!: bind_option_cong)

lemma edges_start:
  assumes c: "cfg_ok ops bs" and s: "\<forall>k < length ops. \<exists>ns. block_starts (ops ! k) k = Some ns \<and> (\<forall>n \<in> set ns. is_start bs n)"
    and e: "(x, y) \<in> edges bs"
  shows "x < length ops \<and> is_start bs x \<and> is_start bs y"
proof -
  note d = cfg_okD [OF c]
  have x: "x < length ops" "is_start bs x"
    using e d(5) [of x] by (auto simp: edges_def succs_def) (metis list.set_intros list.simps(15) option.distinct(1) insert_iff empty_iff list.set(1))+
  obtain m where m: "block_to ops bs x m" using d(4) [OF x] by blast
  have y: "Some y \<in> set (targets (bs ! x))" using e by (simp add: edges_def succs_def)
  have me: "m \<noteq> length ops" using m y by (auto simp: block_to_def)
  then obtain k where k: "last_before ops m = Some k" "targets (bs ! x) = targets (close_block (ops ! k) m no_block)" and ms: "is_start bs m"
    using m by (auto simp: block_to_def)
  have kl: "k < length ops" using k(1) by (auto simp: last_before_def split: if_splits)
  obtain ns where ns: "block_starts (ops ! k) k = Some ns" "\<forall>n \<in> set ns. is_start bs n" using s kl by blast
  have "y = m \<or> y \<in> set ns"
    using y ns(1) unfolding k(2) by (auto simp: targets_def close_block_def block_starts_def no_block_def Let_def split: if_splits)
  then show ?thesis using x ms ns(2) by blast
qed

lemma rebuild_core:
  assumes f: "find_code_blocks oa = Some (Some (oa1, cfg))" and n: "opcodes oa \<noteq> []"
  shows "\<exists>cfg'. zend_rebuild_access_path cfg oa1 False = Some cfg' \<and> cfg' = cfg\<lparr>blocks := blocks cfg'\<rparr> \<and> same_graph (blocks cfg) (blocks cfg')
    \<and> (\<forall>i < last_op oa + 2. i \<noteq> last_op oa \<longrightarrow> access (blocks cfg' ! i) \<longleftrightarrow> (\<exists>r \<in> set (roots cfg oa1). (r, i) \<in> (edges (blocks cfg))\<^sup>*))
    \<and> (\<forall>i < last_op oa. distinct (sources (blocks cfg' ! i))
         \<and> set (sources (blocks cfg' ! i)) = {x. x < last_op oa \<and> access (blocks cfg' ! x) \<and> (x, i) \<in> edges (blocks cfg)})"
proof -
  let ?bs = "blocks cfg" and ?n = "last_op oa"
  have fd: "found oa oa1 cfg" by (rule find_code_blocks_found [OF f n])
  have c: "cfg_ok (opcodes oa) ?bs" and so: "starts_ok oa ?bs" and fr: "fresh ?bs"
    and ct: "cfg_catch cfg = map catch_op (try_catch_array oa)" using fd by (simp_all add: found_def)
  obtain kept where kp: "oa1 = oa\<lparr>brk_cont_array := kept\<rparr>" "loops_started ?bs kept"
    "loop_start cfg = map (\<lambda>b. nat (bc_start b)) kept" "loop_cont cfg = map (\<lambda>b. nat (bc_cont b)) kept"
    "loop_brk cfg = map (\<lambda>b. nat (bc_brk b)) kept" using fd unfolding found_def by blast
  note d = cfg_okD [OF c]
  have ed: "x < ?n \<and> is_start ?bs x \<and> is_start ?bs y" if "(x, y) \<in> edges ?bs" for x y
    using edges_start [OF c _ that] so unfolding starts_ok_def by blast
  have "on_chain (opcodes oa) ?bs 0" using d by (simp add: on_chain_def)
  then obtain bs0 where r: "reset_blocks (Some 0) (Some 0) ?bs = Some (Some 0, bs0)" "same_graph ?bs bs0"
    "\<forall>k < length ?bs. bs0 ! k = (if on_chain (opcodes oa) ?bs k then cleared_block (?bs ! k) else ?bs ! k)"
    using reset_blocks_ok [OF c, of 0 "Some 0"] by auto
  have e0: "edges bs0 = edges ?bs" and l0: "length bs0 = length ?bs" using same_graph_edges [OF r(2)] same_graph_length [OF r(2)] by simp_all
  have un: "used_blocks bs0 \<subseteq> {?n}"
  proof
    fix i assume "i \<in> used_blocks bs0"
    then have i: "i < length ?bs" "access (bs0 ! i)" using l0 by (auto simp: used_blocks_def)
    then have "\<not> on_chain (opcodes oa) ?bs i" "access (?bs ! i)" using r(3) by (auto simp: cleared_block_def split: if_splits)
    then show "i \<in> {?n}" using fr i(1) d(1) by (auto simp: fresh_def on_chain_def)
  qed
  have so0: "sources (bs0 ! i) = []" if "i < length ?bs" for i using fr r(3) that by (simp add: fresh_def cleared_block_def)
  have gc: "graph_closed bs0"
    unfolding graph_closed_def e0 using ed l0 by (auto simp: is_start_def)
  have rl: "\<forall>b \<in> set (roots cfg oa1). b < length bs0"
  proof
    fix b assume "b \<in> set (roots cfg oa1)"
    then have "is_start ?bs b"
      using d(3) kp so ct by (auto simp: roots_def loops_started_def starts_ok_def)
    then show "b < length bs0" using l0 by (simp add: is_start_def)
  qed
  obtain bs' D where a: "access_paths (roots cfg oa1) bs0 = Some bs'" "visited bs0 bs' D" "set (roots cfg oa1) \<subseteq> used_blocks bs'"
    "\<forall>x \<in> D. \<exists>b \<in> set (roots cfg oa1). (b, x) \<in> (edges bs0)\<^sup>*" using access_paths_ok [OF gc rl] by blast
  have v: "same_graph bs0 bs'" "used_blocks bs' = used_blocks bs0 \<union> D" "D \<inter> used_blocks bs0 = {}"
    "\<And>x y. x \<in> D \<Longrightarrow> (x, y) \<in> edges bs0 \<Longrightarrow> y \<in> used_blocks bs'"
    "\<And>t. t < length bs0 \<Longrightarrow> set (sources (bs' ! t)) = set (sources (bs0 ! t)) \<union> {x \<in> D. (x, t) \<in> edges bs0}"
    "\<And>t. t < length bs0 \<Longrightarrow> distinct (sources (bs0 ! t)) \<Longrightarrow> distinct (sources (bs' ! t))"
    using a(2) unfolding visited_def by blast+
  have l': "length bs' = ?n + 2" using same_graph_length [OF v(1)] l0 d(1) by simp
  have ac: "access (bs' ! i) \<longleftrightarrow> i \<in> D" if "i < ?n + 2" "i \<noteq> ?n" for i
  proof -
    have "access (bs' ! i) \<longleftrightarrow> i \<in> used_blocks bs'" using that l' by (simp add: used_blocks_def)
    also have "\<dots> \<longleftrightarrow> i \<in> D" using v(2) un that by auto
    finally show ?thesis .
  qed
  have closed: "y \<in> used_blocks bs'" if "x \<in> used_blocks bs'" "(x, y) \<in> edges ?bs" for x y
  proof -
    have "x < ?n" using ed [OF that(2)] by blast
    then have "x \<in> D" using that(1) v(2) un by auto
    then show ?thesis using v(4) that(2) e0 by simp
  qed
  have reach: "i \<in> used_blocks bs'" if "(r, i) \<in> (edges ?bs)\<^sup>*" "r \<in> set (roots cfg oa1)" for r i
    using that(1) by (induction rule: rtrancl_induct) (use that(2) a(3) closed in blast)+
  have acc: "access (bs' ! i) \<longleftrightarrow> (\<exists>r \<in> set (roots cfg oa1). (r, i) \<in> (edges ?bs)\<^sup>*)" if "i < ?n + 2" "i \<noteq> ?n" for i
    using ac [OF that] reach [of _ i] a(4) v(2) un that e0 by auto
  have src: "distinct (sources (bs' ! i)) \<and> set (sources (bs' ! i)) = {x. x < ?n \<and> access (bs' ! x) \<and> (x, i) \<in> edges ?bs}" if i: "i < ?n" for i
  proof -
    have il: "i < length bs0" "i < length ?bs" using i d(1) l0 by simp_all
    have "set (sources (bs' ! i)) = {x \<in> D. (x, i) \<in> edges ?bs}" using v(5) [OF il(1)] so0 [OF il(2)] e0 by simp
    also have "\<dots> = {x. x < ?n \<and> access (bs' ! x) \<and> (x, i) \<in> edges ?bs}" using ac ed by force
    finally show ?thesis using v(6) [OF il(1)] so0 [OF il(2)] by simp
  qed
  have "zend_rebuild_access_path cfg oa1 False = Some (cfg\<lparr>blocks := bs'\<rparr>)" unfolding rebuild_roots [OF r(1)] a(1) by simp
  then show ?thesis using acc src same_graph_trans [OF r(2) v(1)] by (intro exI [of _ "cfg\<lparr>blocks := bs'\<rparr>"]) simp
qed

text \<open>C34. After \<open>zend_rebuild_access_path\<close> on what \<open>find_code_blocks\<close> found, the blocks of the code that are
  in use are those that can be reached from the start, a kept loop or a catch block, and the
  references of a block are its predecessors in use, each once.
\<close>

theorem rebuild_marks_reachable:
  assumes f: "find_code_blocks oa = Some (Some (oa1, cfg))" and n: "opcodes oa \<noteq> []"
  shows "\<exists>cfg'. zend_rebuild_access_path cfg oa1 False = Some cfg' \<and> same_graph (blocks cfg) (blocks cfg')
    \<and> (\<forall>i < last_op oa. access (blocks cfg' ! i) \<longleftrightarrow> (\<exists>r \<in> set (roots cfg oa1). (r, i) \<in> (edges (blocks cfg))\<^sup>*))
    \<and> (\<forall>i < last_op oa. distinct (sources (blocks cfg' ! i))
         \<and> set (sources (blocks cfg' ! i)) = {x. x < last_op oa \<and> access (blocks cfg' ! x) \<and> (x, i) \<in> edges (blocks cfg)})"
proof -
  obtain cfg' where c: "zend_rebuild_access_path cfg oa1 False = Some cfg'" "same_graph (blocks cfg) (blocks cfg')"
    "\<forall>i < last_op oa + 2. i \<noteq> last_op oa \<longrightarrow> access (blocks cfg' ! i) \<longleftrightarrow> (\<exists>r \<in> set (roots cfg oa1). (r, i) \<in> (edges (blocks cfg))\<^sup>*)"
    "\<forall>i < last_op oa. distinct (sources (blocks cfg' ! i))
         \<and> set (sources (blocks cfg' ! i)) = {x. x < last_op oa \<and> access (blocks cfg' ! x) \<and> (x, i) \<in> edges (blocks cfg)}"
    using rebuild_core [OF f n] by blast
  then show ?thesis by (intro exI [of _ cfg']) simp
qed

text \<open>An example: a try region with a branch in it, a catch block, and code after a RETURN.\<close>

definition demo_try :: "unit zend_op_array" where
  "demo_try = (code_of
     [(plain ZEND_JMPZ)\<lparr>op1 := node IS_CV 0, op2 := node IS_UNUSED 3\<rparr>,
      (plain ZEND_ECHO)\<lparr>op1 := node IS_CONST 0\<rparr>,
      (plain ZEND_JMP)\<lparr>op1 := node IS_UNUSED 3\<rparr>,
      (plain ZEND_JMP)\<lparr>op1 := node IS_UNUSED 6\<rparr>,
      (plain ZEND_CATCH)\<lparr>extended_value := 6\<rparr>,
      (plain ZEND_ECHO)\<lparr>op1 := node IS_CONST 1\<rparr>,
      (plain ZEND_RETURN)\<lparr>op1 := node IS_CONST 2\<rparr>,
      (plain ZEND_ECHO)\<lparr>op1 := node IS_CONST 3\<rparr>,
      (plain ZEND_RETURN)\<lparr>op1 := node IS_CONST 4\<rparr>]
     [ZSTRING ''a'', ZSTRING ''b'', ZLONG 1, ZSTRING ''c'', ZNULL])
   \<lparr>try_catch_array := [\<lparr>try_op = 1, catch_op = 4, finally_op = 0, finally_end = 0\<rparr>]\<rparr>"

definition demo_cfg :: zend_cfg where
  "demo_cfg = snd (the (the (find_code_blocks demo_try)))"

lemma demo_try_found: "find_code_blocks demo_try = Some (Some (demo_try, demo_cfg))"
proof -
  have "case find_code_blocks demo_try of Some (Some (oa1, cfg)) \<Rightarrow> oa1 = demo_try | _ \<Rightarrow> False" by code_simp
  then show ?thesis by (auto simp: demo_cfg_def split: option.splits prod.splits)
qed

lemma demo_try_marked:
  "\<exists>cfg'. zend_rebuild_access_path demo_cfg demo_try False = Some cfg'
     \<and> map access (take 9 (blocks cfg')) = [True, True, False, True, True, True, True, False, False]"
proof -
  have "case zend_rebuild_access_path demo_cfg demo_try False of
      Some cfg' \<Rightarrow> map access (take 9 (blocks cfg')) = [True, True, False, True, True, True, True, False, False] | None \<Rightarrow> False"
    by code_simp
  then show ?thesis by (auto split: option.splits)
qed

lemma demo_try_size: "last_op demo_try = 9" "opcodes demo_try \<noteq> []" "length (blocks demo_cfg) = 11"
  by code_simp+

theorem rebuild_marks_reachable_witness:
  "\<exists>cfg'. zend_rebuild_access_path demo_cfg demo_try False = Some cfg'
     \<and> (\<exists>r \<in> set (roots demo_cfg demo_try). (r, 6) \<in> (edges (blocks demo_cfg))\<^sup>*)
     \<and> \<not> (\<exists>r \<in> set (roots demo_cfg demo_try). (r, 7) \<in> (edges (blocks demo_cfg))\<^sup>*)
     \<and> 7 \<notin> set (sources (blocks cfg' ! 6)) \<and> distinct (sources (blocks cfg' ! 6))"
proof -
  obtain cfg' where c: "zend_rebuild_access_path demo_cfg demo_try False = Some cfg'"
    "\<forall>i < last_op demo_try. access (blocks cfg' ! i) \<longleftrightarrow> (\<exists>r \<in> set (roots demo_cfg demo_try). (r, i) \<in> (edges (blocks demo_cfg))\<^sup>*)"
    "\<forall>i < last_op demo_try. distinct (sources (blocks cfg' ! i))
         \<and> set (sources (blocks cfg' ! i)) = {x. x < last_op demo_try \<and> access (blocks cfg' ! x) \<and> (x, i) \<in> edges (blocks demo_cfg)}"
    using rebuild_marks_reachable [OF demo_try_found demo_try_size(2)] by blast
  have m: "map access (take 9 (blocks cfg')) = [True, True, False, True, True, True, True, False, False]"
    using demo_try_marked c(1) by simp
  have "length (map access (take 9 (blocks cfg'))) = 9" unfolding m by simp
  then have "map access (take 9 (blocks cfg')) ! i = access (blocks cfg' ! i)" if "i < 9" for i using that by (simp add: nth_map)
  from this [of 6] this [of 7] have a: "access (blocks cfg' ! 6)" "\<not> access (blocks cfg' ! 7)" unfolding m by (simp_all add: eval_nat_numeral)
  show ?thesis using c a demo_try_size(1) by (intro exI [of _ cfg']) auto
qed

end
