(* ===== verification/Blocks_Assemble.thy ===== *)
theory Blocks_Assemble
  imports Blocks_Graph
begin

text \<open>
  \<open>assemble_code_blocks\<close> on a graph that \<open>zend_rebuild_access_path\<close> has marked: the new code
  consists of the instructions of the blocks in use, without JMPs to the next block; a jump to a
  block leads to the number of kept instructions before it, and code behaves as before.
\<close>

section \<open>Instructions and blocks\<close>

definition in_block :: "zend_op list \<Rightarrow> zend_code_block list \<Rightarrow> nat \<Rightarrow> nat \<Rightarrow> bool" where
  "in_block ops bs b p \<longleftrightarrow> b < length ops \<and> is_start bs b \<and> b \<le> p \<and> p < b + block_len (bs ! b)"

lemma block_end:
  assumes "cfg_ok ops bs" "b < length ops" "is_start bs b"
  shows "block_to ops bs b (b + block_len (bs ! b))" "0 < block_len (bs ! b)" "b + block_len (bs ! b) \<le> length ops"
    "\<And>k. b < k \<Longrightarrow> k < b + block_len (bs ! b) \<Longrightarrow> \<not> is_start bs k"
proof -
  obtain e where e: "block_to ops bs b e" using cfg_okD(4) [OF assms] by blast
  then have "b + block_len (bs ! b) = e" by (simp add: block_to_def)
  then show "block_to ops bs b (b + block_len (bs ! b))" "0 < block_len (bs ! b)" "b + block_len (bs ! b) \<le> length ops"
    "\<And>k. b < k \<Longrightarrow> k < b + block_len (bs ! b) \<Longrightarrow> \<not> is_start bs k"
    using e by (auto simp: block_to_def)
qed

lemma in_block_unique:
  assumes c: "cfg_ok ops bs" and "in_block ops bs b p" "in_block ops bs b' p"
  shows "b = b'"
proof (rule ccontr)
  assume "b \<noteq> b'"
  then consider "b < b'" | "b' < b" by linarith
  then show False
    using assms(2,3) block_end(4) [OF c, of b b'] block_end(4) [OF c, of b' b] by cases (auto simp: in_block_def)
qed

lemma in_block_exists:
  assumes c: "cfg_ok ops bs" and p: "p < length ops"
  shows "\<exists>b. in_block ops bs b p"
proof -
  define b where "b = (GREATEST b. b \<le> p \<and> is_start bs b)"
  have z: "0 \<le> p \<and> is_start bs 0" using cfg_okD(3) [OF c] by simp
  have b: "b \<le> p" "is_start bs b" using GreatestI_nat [of "\<lambda>b. b \<le> p \<and> is_start bs b" 0 p] z by (simp_all add: b_def)
  have "p < b + block_len (bs ! b)"
  proof (rule ccontr)
    assume a: "\<not> p < b + block_len (bs ! b)"
    note e = block_end [OF c _ b(2)]
    have bl: "b < length ops" using b p by simp
    have "b + block_len (bs ! b) \<noteq> length ops" using a p by simp
    then have "is_start bs (b + block_len (bs ! b))" using e(1) [OF bl] by (simp add: block_to_def)
    then have "b + block_len (bs ! b) \<le> b"
      using Greatest_le_nat [of "\<lambda>b. b \<le> p \<and> is_start bs b" "b + block_len (bs ! b)" p] a by (simp add: b_def [symmetric])
    then show False using e(2) [OF bl] by simp
  qed
  then show ?thesis using b p by (intro exI [of _ b]) (simp add: in_block_def)
qed

definition live_at :: "zend_op list \<Rightarrow> zend_code_block list \<Rightarrow> nat \<Rightarrow> bool" where
  "live_at ops bs p \<longleftrightarrow> (\<exists>b. in_block ops bs b p \<and> access (bs ! b))"

text \<open>The next block in use after \<open>b\<close>.\<close>

definition next_used :: "zend_op list \<Rightarrow> zend_code_block list \<Rightarrow> nat \<Rightarrow> nat \<Rightarrow> bool" where
  "next_used ops bs b t \<longleftrightarrow> b < t \<and> on_chain ops bs t \<and> access (bs ! t) \<and> (\<forall>k. b < k \<longrightarrow> k < t \<longrightarrow> on_chain ops bs k \<longrightarrow> \<not> access (bs ! k))"

lemma next_used_unique: "next_used ops bs b t \<Longrightarrow> next_used ops bs b t' \<Longrightarrow> t = t'"
  unfolding next_used_def by (metis linorder_neqE_nat)

text \<open>A JMP at the end of a block in use to the next one.\<close>

definition stripped :: "zend_op list \<Rightarrow> zend_code_block list \<Rightarrow> nat \<Rightarrow> bool" where
  "stripped ops bs b \<longleftrightarrow> opcode (ops ! (b + block_len (bs ! b) - 1)) = ZEND_JMP \<and> (\<exists>t. op1_to (bs ! b) = Some t \<and> next_used ops bs b t)"

definition keep_at :: "zend_op list \<Rightarrow> zend_code_block list \<Rightarrow> nat \<Rightarrow> bool" where
  "keep_at ops bs p \<longleftrightarrow> (\<exists>b. in_block ops bs b p \<and> access (bs ! b) \<and> \<not> (stripped ops bs b \<and> p = b + block_len (bs ! b) - 1))"

text \<open>The new position of an instruction, and the new code before the jumps are adjusted.\<close>

definition npos :: "zend_op list \<Rightarrow> zend_code_block list \<Rightarrow> nat \<Rightarrow> nat" where
  "npos ops bs p = length (filter (keep_at ops bs) [0..<p])"

definition code_upto :: "zend_op list \<Rightarrow> zend_code_block list \<Rightarrow> nat \<Rightarrow> zend_op list" where
  "code_upto ops bs p = map ((!) ops) (filter (keep_at ops bs) [0..<p])"

definition moved_block :: "zend_op list \<Rightarrow> zend_code_block list \<Rightarrow> nat \<Rightarrow> zend_code_block" where
  "moved_block ops bs i =
     (let b = (bs ! i)\<lparr>start_opline := In_New (npos ops bs i)\<rparr>
      in if stripped ops bs i then b\<lparr>follow_to := op1_to b, op1_to := None, block_len := block_len b - 1\<rparr> else b)"

lemma length_code_upto [simp]: "length (code_upto ops bs p) = npos ops bs p"
  by (simp add: code_upto_def npos_def)

lemma npos_le: "npos ops bs p \<le> p"
  using length_filter_le [of "keep_at ops bs" "[0..<p]"] by (simp add: npos_def)

lemma upto_split: "i \<le> e \<Longrightarrow> [0..<e] = [0..<i] @ [i..<e]" for i e :: nat
  by (metis le_add_diff_inverse upt_add_eq_append zero_le)

lemma keep_in_block:
  assumes "cfg_ok ops bs" "in_block ops bs b p"
  shows "keep_at ops bs p \<longleftrightarrow> access (bs ! b) \<and> \<not> (stripped ops bs b \<and> p = b + block_len (bs ! b) - 1)"
  unfolding keep_at_def using assms in_block_unique [OF assms(1)] by blast

lemma filter_block:
  assumes c: "cfg_ok ops bs" and b: "b < length ops" "is_start bs b"
  shows "filter (keep_at ops bs) [b..<b + block_len (bs ! b)] =
    (if \<not> access (bs ! b) then [] else if stripped ops bs b then [b..<b + block_len (bs ! b) - 1] else [b..<b + block_len (bs ! b)])"
proof -
  let ?e = "b + block_len (bs ! b)"
  have k: "keep_at ops bs p \<longleftrightarrow> access (bs ! b) \<and> \<not> (stripped ops bs b \<and> p = ?e - 1)" if "p \<in> set [b..<?e]" for p
    using keep_in_block [OF c, of b p] that b by (simp add: in_block_def)
  have e: "?e = Suc (?e - 1)" "b \<le> ?e - 1" using block_end(2) [OF c b] by simp_all
  show ?thesis
  proof (cases "access (bs ! b) \<and> stripped ops bs b")
    case True
    have "[b..<?e] = [b..<?e - 1] @ [?e - 1]" using e by (metis upt_Suc)
    then have "filter (keep_at ops bs) [b..<?e] = filter (keep_at ops bs) [b..<?e - 1] @ filter (keep_at ops bs) [?e - 1]" by simp
    also have "filter (keep_at ops bs) [?e - 1] = []" using k [of "?e - 1"] e True by simp
    also have "filter (keep_at ops bs) [b..<?e - 1] = [b..<?e - 1]" by (rule filter_True) (use k True in auto)
    finally show ?thesis using True by simp
  next
    case False
    show ?thesis
    proof (cases "access (bs ! b)")
      case True
      have "filter (keep_at ops bs) [b..<?e] = [b..<?e]" by (rule filter_True) (use k True False in auto)
      then show ?thesis using True False by simp
    next
      case no: False
      have "filter (keep_at ops bs) [b..<?e] = []" by (rule filter_False) (use k no in auto)
      then show ?thesis using no by simp
    qed
  qed
qed

lemma npos_block:
  assumes c: "cfg_ok ops bs" and b: "b < length ops" "is_start bs b"
  shows "npos ops bs (b + block_len (bs ! b)) = npos ops bs b + (if \<not> access (bs ! b) then 0 else if stripped ops bs b then block_len (bs ! b) - 1 else block_len (bs ! b))"
    and "code_upto ops bs (b + block_len (bs ! b)) = code_upto ops bs b @ map ((!) ops)
      (if \<not> access (bs ! b) then [] else if stripped ops bs b then [b..<b + block_len (bs ! b) - 1] else [b..<b + block_len (bs ! b)])"
  using filter_block [OF c b] by (simp_all add: npos_def code_upto_def upto_split [of b "b + block_len (bs ! b)"])

lemma block_code_map:
  "k + n \<le> length ops \<Longrightarrow> take n (drop k ops) = map ((!) ops) [k..<k + n]"
  by (rule nth_equalityI) auto

section \<open>Copying the blocks in use\<close>

lemma next_accessed_ok:
  assumes "cfg_ok ops bs" "on_chain ops bs i"
  shows "\<exists>nx. next_accessed bs (Some i) = Some nx
    \<and> (\<forall>t. nx = Some t \<longleftrightarrow> i \<le> t \<and> on_chain ops bs t \<and> access (bs ! t) \<and> (\<forall>k. i \<le> k \<longrightarrow> k < t \<longrightarrow> on_chain ops bs k \<longrightarrow> \<not> access (bs ! k)))"
  using assms(2)
proof (induction "length ops + 1 - i" arbitrary: i rule: less_induct)
  case less
  have i: "i < length bs" using less.prems cfg_okD(1) [OF assms(1)] by (auto simp: on_chain_def)
  show ?case
  proof (cases "access (bs ! i)")
    case True
    then have "next_accessed bs (Some i) = Some (Some i)" using i by (simp add: next_accessed.simps)
    then show ?thesis using True less.prems by (intro exI [of _ "Some i"]) (auto simp: le_less)
  next
    case no: False
    have e: "next_accessed bs (Some i) = next_accessed bs (next_block (bs ! i))"
      using i no by (subst next_accessed.simps) simp
    show ?thesis
    proof (cases "i = length ops + 1")
      case True
      then have "next_accessed bs (Some i) = Some None" using e cfg_okD(6) [OF assms(1)] by (simp add: next_accessed.simps)
      moreover have "\<not> (i \<le> t \<and> on_chain ops bs t \<and> access (bs ! t))" for t using no True by (auto simp: on_chain_def)
      ultimately show ?thesis by blast
    next
      case False
      obtain m where m: "next_block (bs ! i) = Some m" "i < m" "on_chain ops bs m" "\<forall>k. i < k \<longrightarrow> k < m \<longrightarrow> \<not> on_chain ops bs k"
        using chain_next [OF assms(1) less.prems False] by blast
      have "length ops + 1 - m < length ops + 1 - i" using m(2) less.prems False by (auto simp: on_chain_def)
      then obtain nx where nx: "next_accessed bs (Some m) = Some nx"
        "\<And>t. nx = Some t \<longleftrightarrow> m \<le> t \<and> on_chain ops bs t \<and> access (bs ! t) \<and> (\<forall>k. m \<le> k \<longrightarrow> k < t \<longrightarrow> on_chain ops bs k \<longrightarrow> \<not> access (bs ! k))"
        using less.hyps [of m] m(3) by blast
      have skip: "on_chain ops bs k \<and> i \<le> k \<longleftrightarrow> k = i \<or> on_chain ops bs k \<and> m \<le> k" for k
        using m less.prems by (metis le_neq_implies_less less_imp_le_nat nat_le_linear order_trans not_le_imp_less le_refl)
      have "nx = Some t \<longleftrightarrow> i \<le> t \<and> on_chain ops bs t \<and> access (bs ! t) \<and> (\<forall>k. i \<le> k \<longrightarrow> k < t \<longrightarrow> on_chain ops bs k \<longrightarrow> \<not> access (bs ! k))" for t
        unfolding nx(2) using skip no by metis
      then show ?thesis using e m(1) nx(1) by auto
    qed
  qed
qed

lemma next_accessed_cong:
  assumes c: "cfg_ok ops bs" and l: "length bs' = length bs"
    and same: "\<And>k. k < length bs \<Longrightarrow> access (bs' ! k) = access (bs ! k) \<and> next_block (bs' ! k) = next_block (bs ! k)"
    and i: "on_chain ops bs i"
  shows "next_accessed bs' (Some i) = next_accessed bs (Some i)"
  using i
proof (induction "length ops + 1 - i" arbitrary: i rule: less_induct)
  case less
  have i: "i < length bs" using less.prems cfg_okD(1) [OF c] by (auto simp: on_chain_def)
  show ?case
  proof (cases "i = length ops + 1")
    case True
    then show ?thesis using i l same [OF i] cfg_okD(6) [OF c] by (simp add: next_accessed.simps)
  next
    case False
    obtain m where m: "next_block (bs ! i) = Some m" "i < m" "on_chain ops bs m" using chain_next [OF c less.prems False] by blast
    have "next_accessed bs' (Some m) = next_accessed bs (Some m)"
      using less.hyps [OF _ m(3)] m(2) less.prems False by (auto simp: on_chain_def)
    then show ?thesis using i l same [OF i] m(1) by (subst (1 2) next_accessed.simps) simp
  qed
qed

lemma copy_block_ok:
  assumes c: "cfg_ok ops bs" and i: "i < length ops" "is_start bs i" "access (bs ! i)"
    and l: "length bs1 = length bs" and same: "\<And>k. k < length bs \<Longrightarrow> access (bs1 ! k) = access (bs ! k) \<and> next_block (bs1 ! k) = next_block (bs ! k)"
    and at: "bs1 ! i = bs ! i"
  shows "copy_block ops i (code_upto ops bs i) bs1 = Some (code_upto ops bs (i + block_len (bs ! i)), bs1[i := moved_block ops bs i])"
proof -
  let ?b = "bs ! i" and ?new = "code_upto ops bs i"
  let ?e = "i + block_len ?b"
  note be = block_end [OF c i(1,2)]
  have il: "i < length bs1" using i(2) l by (simp add: is_start_def)
  have st: "start_opline ?b = In_Code i" using be(1) by (simp add: block_to_def)
  define code where "code = map ((!) ops) [i..<?e]"
  have bc: "block_code ops (bs1 ! i) = Some code"
    using st be(3) at block_code_map [of i "block_len ?b" ops] by (simp add: block_code_def code_def)
  define bs2 where "bs2 = upd_block i (\<lambda>b. b\<lparr>start_opline := In_New (length ?new)\<rparr>) bs1"
  have b2: "bs2 ! i = ?b\<lparr>start_opline := In_New (npos ops bs i)\<rparr>" "length bs2 = length bs"
    using il at l by (simp_all add: bs2_def)
  have same2: "access (bs2 ! k) = access (bs ! k) \<and> next_block (bs2 ! k) = next_block (bs ! k)" if "k < length bs" for k
    using same [OF that] that l at by (cases "k = i") (simp_all add: bs2_def)
  have ne: "?new @ code \<noteq> []" and last: "last (?new @ code) = ops ! (?e - 1)"
  proof -
    have "[i..<?e] = [i..<?e - 1] @ [?e - 1]" using be(2) upt_Suc [of i "?e - 1"] by simp
    then have "code = map ((!) ops) [i..<?e - 1] @ [ops ! (?e - 1)]" by (simp add: code_def)
    then show "?new @ code \<noteq> []" "last (?new @ code) = ops ! (?e - 1)" by simp_all
  qed
  have size: "length (?new @ code) \<le> length ops" using npos_le [of ops bs i] be(3) by (simp add: code_def)
  obtain m where m: "next_block ?b = Some m" "i < m" "on_chain ops bs m" "\<forall>k. i < k \<longrightarrow> k < m \<longrightarrow> \<not> on_chain ops bs k"
    using chain_next [OF c, of i] i by (auto simp: on_chain_def)
  obtain nx where nx: "next_accessed bs (Some m) = Some nx"
    "\<And>t. nx = Some t \<longleftrightarrow> m \<le> t \<and> on_chain ops bs t \<and> access (bs ! t) \<and> (\<forall>k. m \<le> k \<longrightarrow> k < t \<longrightarrow> on_chain ops bs k \<longrightarrow> \<not> access (bs ! k))"
    using next_accessed_ok [OF c m(3)] by blast
  have nu: "nx = Some t \<longleftrightarrow> next_used ops bs i t" for t
    unfolding nx(2) next_used_def using m(2,4) by (metis le_neq_implies_less less_imp_le_nat not_le_imp_less order_less_le_trans)
  have na: "next_accessed bs2 (next_block (bs2 ! i)) = Some nx"
    using next_accessed_cong [OF c b2(2) same2 m(3)] nx(1) m(1) b2(1) by simp
  have str: "stripped ops bs i \<longleftrightarrow> opcode (ops ! (?e - 1)) = ZEND_JMP \<and> nx \<noteq> None \<and> nx = op1_to (bs2 ! i)"
    using nu b2(1) by (auto simp: stripped_def)
  have upto: "code_upto ops bs ?e = (if stripped ops bs i then butlast (?new @ code) else ?new @ code)"
  proof -
    have "[i..<?e] = [i..<?e - 1] @ [?e - 1]" using be(2) upt_Suc [of i "?e - 1"] by simp
    then have "butlast [i..<?e] = [i..<?e - 1]" by simp
    then have "butlast code = map ((!) ops) [i..<?e - 1]" by (simp add: code_def map_butlast [symmetric])
    moreover have "code \<noteq> []" using be(2) by (simp add: code_def)
    ultimately show ?thesis using npos_block(2) [OF c i(1,2)] i(3) by (simp add: butlast_append code_def)
  qed
  have "bs2[i := x] = bs1[i := x]" for x by (simp add: bs2_def upd_block_def)
  then have ub: "upd_block i f bs2 = bs1[i := f (bs2 ! i)]" for f by (simp add: upd_block_def)
  have res: "copy_block ops i ?new bs1 =
     (if opcode (ops ! (?e - 1)) = ZEND_JMP \<and> nx \<noteq> None \<and> nx = op1_to (bs2 ! i)
      then Some (butlast (?new @ code), upd_block i (\<lambda>b. b\<lparr>follow_to := op1_to b, op1_to := None, block_len := block_len b - 1\<rparr>) bs2)
      else Some (?new @ code, bs2))"
    unfolding copy_block_def bc Let_def bs2_def [symmetric] using ne last size na be(2) b2(1) by (auto simp: bs2_def [symmetric])
  show ?thesis
  proof (cases "stripped ops bs i")
    case True
    then have "moved_block ops bs i = (bs2 ! i)\<lparr>follow_to := op1_to (bs2 ! i), op1_to := None, block_len := block_len (bs2 ! i) - 1\<rparr>"
      by (simp add: moved_block_def b2(1) Let_def)
    moreover have "opcode (ops ! (?e - 1)) = ZEND_JMP \<and> nx \<noteq> None \<and> nx = op1_to (bs2 ! i)" using True str by blast
    then have "copy_block ops i ?new bs1 = Some (butlast (?new @ code), upd_block i (\<lambda>b. b\<lparr>follow_to := op1_to b, op1_to := None, block_len := block_len b - 1\<rparr>) bs2)"
      unfolding res by (rule if_P)
    moreover have "code_upto ops bs ?e = butlast (?new @ code)" unfolding upto using True by (rule if_P)
    ultimately show ?thesis by (simp only: ub)
  next
    case False
    then have "moved_block ops bs i = bs2 ! i" by (simp add: moved_block_def b2(1))
    moreover have "bs1[i := bs2 ! i] = bs2" by (simp add: bs2_def upd_block_def il)
    moreover have "\<not> (opcode (ops ! (?e - 1)) = ZEND_JMP \<and> nx \<noteq> None \<and> nx = op1_to (bs2 ! i))" using False str by blast
    then have "copy_block ops i ?new bs1 = Some (?new @ code, bs2)" unfolding res by (rule if_not_P)
    moreover have "code_upto ops bs ?e = ?new @ code" unfolding upto using False by (rule if_not_P)
    ultimately show ?thesis by simp
  qed
qed

text \<open>The literals \<open>L'\<close> come from \<open>L\<close> by writing at positions in \<open>N\<close>.\<close>

definition written :: "nat set \<Rightarrow> 'x zend_literal list \<Rightarrow> 'x zend_literal list \<Rightarrow> bool" where
  "written N L L' \<longleftrightarrow> (\<exists>us. (\<forall>u \<in> set us. fst u \<in> N) \<and> L' = fold (\<lambda>(n, l) L. L[n := l]) us L)"

lemma written_refl: "written N L L"
  unfolding written_def by (rule exI [of _ "[]"]) simp

lemma written_trans: "written N L L1 \<Longrightarrow> written N L1 L2 \<Longrightarrow> written N L L2"
proof -
  assume "written N L L1" "written N L1 L2"
  then obtain us vs where "\<forall>u \<in> set us. fst u \<in> N" "L1 = fold (\<lambda>(n, l) L. L[n := l]) us L"
    "\<forall>u \<in> set vs. fst u \<in> N" "L2 = fold (\<lambda>(n, l) L. L[n := l]) vs L1" unfolding written_def by blast
  then show "written N L L2" unfolding written_def by (intro exI [of _ "us @ vs"]) auto
qed

lemma written_mono: "written M L L' \<Longrightarrow> M \<subseteq> N \<Longrightarrow> written N L L'"
  unfolding written_def by blast

lemma written_one: "n \<in> N \<Longrightarrow> written N L (L[n := l])"
  unfolding written_def by (rule exI [of _ "[(n, l)]"]) simp

definition only_literals :: "nat set \<Rightarrow> 'x zend_op_array \<Rightarrow> 'x zend_op_array \<Rightarrow> bool" where
  "only_literals N oa oa' \<longleftrightarrow> written N (literals oa) (literals oa') \<and> oa' = oa\<lparr>literals := literals oa'\<rparr>"

lemma only_literals_refl [simp]: "only_literals N oa oa"
  by (simp add: only_literals_def written_refl)

lemma only_literals_trans:
  assumes "only_literals N oa oa1" "only_literals N oa1 oa2"
  shows "only_literals N oa oa2"
proof -
  have a: "oa1 = oa\<lparr>literals := literals oa1\<rparr>" "oa2 = oa1\<lparr>literals := literals oa2\<rparr>" using assms by (simp_all add: only_literals_def)
  have "oa2 = (oa\<lparr>literals := literals oa1\<rparr>)\<lparr>literals := literals oa2\<rparr>" using a by metis
  then have "oa2 = oa\<lparr>literals := literals oa2\<rparr>" by simp
  then show ?thesis using assms written_trans unfolding only_literals_def by blast
qed

lemma literal_dtor_only: "num z \<in> N \<Longrightarrow> only_literals N oa (literal_dtor z oa)"
  by (simp add: only_literals_def literal_dtor_def set_lit_def written_one)

lemma free_constants_only:
  "(\<Union>o1 \<in> set code. owned o1) \<subseteq> N \<Longrightarrow> only_literals N oa (free_constants code oa)"
proof (induction code arbitrary: oa)
  case (Cons o1 code)
  let ?oa1 = "if op_ty (op1 o1) = IS_CONST then literal_dtor (op1 o1) oa else oa"
  let ?oa2 = "if op_ty (op2 o1) = IS_CONST then literal_dtor (op2 o1) ?oa1 else ?oa1"
  have o: "owned o1 \<subseteq> N" using Cons.prems by simp
  have 1: "only_literals N oa ?oa1" using o by (auto simp: owned_def intro: literal_dtor_only)
  have 2: "only_literals N ?oa1 ?oa2" using o by (cases "op_ty (op2 o1) = IS_CONST") (auto simp: owned_def intro: literal_dtor_only)
  have "only_literals N ?oa2 (free_constants code ?oa2)" by (rule Cons.IH) (use Cons.prems in simp)
  then show ?case using only_literals_trans [OF only_literals_trans [OF 1 2]] by (simp add: Let_def)
qed simp

text \<open>The literals of the instructions that are left out.\<close>

definition dead_literals :: "zend_op list \<Rightarrow> zend_code_block list \<Rightarrow> nat set" where
  "dead_literals ops bs = (\<Union>p \<in> {p. p < length ops \<and> \<not> live_at ops bs p}. owned (ops ! p))"

lemma free_block_ok:
  assumes c: "cfg_ok ops bs" and i: "on_chain ops bs i" "\<not> access (bs ! i)"
  shows "\<exists>oa'. free_block ops (bs ! i) oa = Some oa' \<and> only_literals (dead_literals ops bs) oa oa'"
proof (cases "i = length ops + 1")
  case True
  then have i: "i < length bs" "\<not> i < length ops" using cfg_okD(1) [OF c] by simp_all
  have "block_len (bs ! i) = 0" using cfg_okD(5) [OF c i(1)] i(2) by blast
  then show ?thesis using cfg_okD(7) [OF c i(1)] by (auto simp: free_block_def block_code_def)
next
  case False
  then have i1: "i < length ops" "is_start bs i" using i(1) by (auto simp: on_chain_def)
  note be = block_end [OF c i1]
  have st: "start_opline (bs ! i) = In_Code i" using be(1) by (simp add: block_to_def)
  let ?code = "map ((!) ops) [i..<i + block_len (bs ! i)]"
  have "block_code ops (bs ! i) = Some ?code" using st be(3) block_code_map [of i "block_len (bs ! i)" ops] by (simp add: block_code_def)
  moreover have "(\<Union>o1 \<in> set ?code. owned o1) \<subseteq> dead_literals ops bs"
  proof -
    have "\<not> live_at ops bs p \<and> p < length ops" if "p \<in> {i..<i + block_len (bs ! i)}" for p
    proof -
      have "in_block ops bs i p" using that i1 by (simp add: in_block_def)
      then show ?thesis using in_block_unique [OF c] i(2) be(3) that by (auto simp: live_at_def)
    qed
    then have "owned (ops ! p) \<subseteq> dead_literals ops bs" if "p \<in> {i..<i + block_len (bs ! i)}" for p
      using that unfolding dead_literals_def by blast
    then show ?thesis by (simp add: UN_subset_iff)
  qed
  then have "only_literals (dead_literals ops bs) oa (free_constants ?code oa)" by (rule free_constants_only)
  ultimately show ?thesis using st by (simp add: free_block_def)
qed

definition moved_upto :: "zend_op list \<Rightarrow> zend_code_block list \<Rightarrow> nat \<Rightarrow> zend_code_block list" where
  "moved_upto ops bs i = map (\<lambda>j. if j < i \<and> j < length ops \<and> is_start bs j \<and> access (bs ! j) then moved_block ops bs j else bs ! j) [0..<length bs]"

lemma moved_upto_simps:
  "length (moved_upto ops bs i) = length bs"
  "k < length bs \<Longrightarrow> moved_upto ops bs i ! k = (if k < i \<and> k < length ops \<and> is_start bs k \<and> access (bs ! k) then moved_block ops bs k else bs ! k)"
  by (simp_all add: moved_upto_def)

lemma moved_block_keeps [simp]:
  "access (moved_block ops bs j) = access (bs ! j)" "next_block (moved_block ops bs j) = next_block (bs ! j)"
  "op2_to (moved_block ops bs j) = op2_to (bs ! j)" "ext_to (moved_block ops bs j) = ext_to (bs ! j)"
  "start_opline (moved_block ops bs j) = In_New (npos ops bs j)"
  by (simp_all add: moved_block_def Let_def)

lemma copy_blocks_ok:
  assumes c: "cfg_ok ops bs" and d: "\<not> access (bs ! (length ops + 1))" and i: "on_chain ops bs i"
  shows "\<exists>oa'. copy_blocks ops (Some i) (code_upto ops bs (min i (length ops))) (moved_upto ops bs i) oa
      = Some (code_upto ops bs (length ops), moved_upto ops bs (length ops), oa') \<and> only_literals (dead_literals ops bs) oa oa'"
  using i
proof (induction "length ops + 1 - i" arbitrary: i oa rule: less_induct)
  case less
  let ?m = "moved_upto ops bs i"
  have i: "i < length bs" using less.prems cfg_okD(1) [OF c] by (auto simp: on_chain_def)
  have at: "?m ! i = bs ! i" using i by (simp add: moved_upto_simps)
  show ?case
  proof (cases "i = length ops + 1")
    case True
    obtain oa' where o: "free_block ops (bs ! i) oa = Some oa'" "only_literals (dead_literals ops bs) oa oa'"
      using free_block_ok [OF c less.prems] d True by blast
    have "?m = moved_upto ops bs (length ops)" using True by (auto simp: moved_upto_def)
    then show ?thesis using i at True d o cfg_okD(6) [OF c]
      by (subst copy_blocks.simps) (simp add: moved_upto_simps(1) copy_blocks.simps)
  next
    case False
    then have i1: "i < length ops" "is_start bs i" using less.prems by (auto simp: on_chain_def)
    let ?e = "i + block_len (bs ! i)"
    obtain m where m: "next_block (bs ! i) = Some m" "i < m" "on_chain ops bs m" "\<forall>k. i < k \<longrightarrow> k < m \<longrightarrow> \<not> on_chain ops bs k"
      using chain_next [OF c less.prems False] by blast
    have me: "min m (length ops) = ?e" using block_end(1) [OF c i1] m(1) by (auto simp: block_to_def split: if_splits)
    have lt: "length ops + 1 - m < length ops + 1 - i" using m(2) i1 by simp
    have same: "access (?m ! k) = access (bs ! k) \<and> next_block (?m ! k) = next_block (bs ! k)" if "k < length bs" for k
      using that by (simp add: moved_upto_simps)
    have nextm: "moved_upto ops bs m = (if access (bs ! i) then ?m[i := moved_block ops bs i] else ?m)"
    proof (rule nth_equalityI)
      fix k assume "k < length (moved_upto ops bs m)"
      then have k: "k < length bs" by (simp add: moved_upto_simps)
      have "k < m \<and> k < length ops \<and> is_start bs k \<longleftrightarrow> (k < i \<and> k < length ops \<and> is_start bs k) \<or> k = i"
        using m(2,4) i1 by (metis linorder_neqE_nat on_chain_def order.strict_trans)
      then show "moved_upto ops bs m ! k = (if access (bs ! i) then ?m[i := moved_block ops bs i] else ?m) ! k"
        using k i i1 by (cases "k = i") (auto simp: moved_upto_simps nth_list_update)
    qed (simp add: moved_upto_simps)
    show ?thesis
    proof (cases "access (bs ! i)")
      case True
      have cb: "copy_block ops i (code_upto ops bs i) ?m = Some (code_upto ops bs ?e, moved_upto ops bs m)"
        using copy_block_ok [OF c i1 True moved_upto_simps(1) same at] nextm True by simp
      have "next_block (moved_upto ops bs m ! i) = Some m" using m(1) i by (simp add: moved_upto_simps)
      then have "copy_blocks ops (Some i) (code_upto ops bs (min i (length ops))) ?m oa
          = copy_blocks ops (Some m) (code_upto ops bs (min m (length ops))) (moved_upto ops bs m) oa"
        using i at True cb i1 me by (subst copy_blocks.simps) (simp add: moved_upto_simps(1))
      then show ?thesis using less.hyps [OF lt m(3)] by simp
    next
      case no: False
      obtain oa1 where o: "free_block ops (bs ! i) oa = Some oa1" "only_literals (dead_literals ops bs) oa oa1"
        using free_block_ok [OF c less.prems no] by blast
      have up: "code_upto ops bs ?e = code_upto ops bs i" using npos_block(2) [OF c i1] no by simp
      have "copy_blocks ops (Some i) (code_upto ops bs (min i (length ops))) ?m oa
          = copy_blocks ops (Some m) (code_upto ops bs (min m (length ops))) (moved_upto ops bs m) oa1"
        using i at no o(1) i1 me m(1) up nextm by (subst copy_blocks.simps) (simp add: moved_upto_simps(1))
      then show ?thesis using less.hyps [OF lt m(3), of oa1] only_literals_trans [OF o(2)] by auto
    qed
  qed
qed

section \<open>Code that can be assembled\<close>

text \<open>A graph in which the blocks in use are closed under control flow.\<close>

definition graph_ready :: "zend_op list \<Rightarrow> zend_code_block list \<Rightarrow> bool" where
  "graph_ready ops bs \<longleftrightarrow> cfg_ok ops bs \<and> access (bs ! 0) \<and> \<not> access (bs ! (length ops + 1))
     \<and> (\<forall>x y. (x, y) \<in> edges bs \<longrightarrow> access (bs ! x) \<longrightarrow> access (bs ! y) \<and> y < length ops)
     \<and> (\<forall>k < length ops. \<exists>ns. block_starts (ops ! k) k = Some ns \<and> (\<forall>m \<in> set ns. is_start bs m))"

text \<open>Code without finally blocks whose jumps lead into the code, that ends with an instruction that
  leaves it, and in which an OP_DATA belongs to the instruction before it.\<close>

definition code_ok :: "zend_op list \<Rightarrow> zend_code_block list \<Rightarrow> bool" where
  "code_ok ops bs \<longleftrightarrow>
     (\<forall>p < length ops. opcode (ops ! p) \<notin> {ZEND_FAST_CALL, ZEND_FAST_RET}
        \<and> (jumps_op1 (opcode (ops ! p)) \<longrightarrow> num (op1 (ops ! p)) < length ops) \<and> (jumps_op2 (opcode (ops ! p)) \<longrightarrow> num (op2 (ops ! p)) < length ops)
        \<and> (jumps_ext (opcode (ops ! p)) \<longrightarrow> extended_value (ops ! p) < length ops)
        \<and> (opcode (ops ! p) = ZEND_OP_DATA \<longrightarrow> \<not> is_start bs p)
        \<and> (opcode (ops ! p) = ZEND_FE_FETCH \<longrightarrow> Suc p < length ops \<and> opcode (ops ! Suc p) = ZEND_OP_DATA))
     \<and> opcode (ops ! (length ops - 1)) \<in> returning \<and> opcode (ops ! 0) \<noteq> ZEND_JMP"

lemma code_okD:
  assumes "code_ok ops bs"
  shows "\<And>p. p < length ops \<Longrightarrow> opcode (ops ! p) \<noteq> ZEND_FAST_CALL \<and> opcode (ops ! p) \<noteq> ZEND_FAST_RET"
    "\<And>p. p < length ops \<Longrightarrow> jumps_op1 (opcode (ops ! p)) \<Longrightarrow> num (op1 (ops ! p)) < length ops"
    "\<And>p. p < length ops \<Longrightarrow> jumps_op2 (opcode (ops ! p)) \<Longrightarrow> num (op2 (ops ! p)) < length ops"
    "\<And>p. p < length ops \<Longrightarrow> jumps_ext (opcode (ops ! p)) \<Longrightarrow> extended_value (ops ! p) < length ops"
    "\<And>p. p < length ops \<Longrightarrow> opcode (ops ! p) = ZEND_OP_DATA \<Longrightarrow> \<not> is_start bs p"
    "\<And>p. p < length ops \<Longrightarrow> opcode (ops ! p) = ZEND_FE_FETCH \<Longrightarrow> Suc p < length ops \<and> opcode (ops ! Suc p) = ZEND_OP_DATA"
    "opcode (ops ! (length ops - 1)) \<in> returning" "opcode (ops ! 0) \<noteq> ZEND_JMP"
  using assms unfolding code_ok_def by blast+

lemma graph_readyD:
  assumes "graph_ready ops bs"
  shows "cfg_ok ops bs" "access (bs ! 0)" "\<not> access (bs ! (length ops + 1))"
    "\<And>x y. (x, y) \<in> edges bs \<Longrightarrow> access (bs ! x) \<Longrightarrow> access (bs ! y) \<and> y < length ops"
    "\<And>k. k < length ops \<Longrightarrow> \<exists>ns. block_starts (ops ! k) k = Some ns \<and> (\<forall>m \<in> set ns. is_start bs m)"
  using assms unfolding graph_ready_def by blast+

definition leads_away :: "nat \<Rightarrow> bool" where
  "leads_away oc \<longleftrightarrow> jumps_op1 oc \<or> jumps_op2 oc \<or> jumps_ext oc \<or> oc \<in> returning"

text \<open>An instruction that does more than go on is the last of its block, up to an OP_DATA.\<close>

lemma last_before_block:
  assumes c: "cfg_ok ops bs" and ok: "code_ok ops bs" and b: "b < length ops" "is_start bs b"
  shows "\<exists>k. last_before ops (b + block_len (bs ! b)) = Some k \<and> in_block ops bs b k
    \<and> (k = b + block_len (bs ! b) - 1 \<and> opcode (ops ! k) \<noteq> ZEND_OP_DATA \<or> k = b + block_len (bs ! b) - 2 \<and> opcode (ops ! Suc k) = ZEND_OP_DATA \<and> in_block ops bs b (Suc k))"
proof -
  let ?e = "b + block_len (bs ! b)"
  note e = block_end [OF c b]
  have l: "?e - 1 < length ops" "0 < ?e" "b \<le> ?e - 1" using e(2,3) b by simp_all
  show ?thesis
  proof (cases "opcode (ops ! (?e - 1)) = ZEND_OP_DATA")
    case False
    then have "last_before ops ?e = Some (?e - 1)" using l by (simp add: last_before_def)
    then show ?thesis using l b e(2) False by (intro exI [of _ "?e - 1"]) (simp add: in_block_def)
  next
    case True
    then have "?e - 1 \<noteq> b" using code_okD(5) [OF ok l(1)] b by auto
    then have two: "b \<le> ?e - 2" "Suc (?e - 2) = ?e - 1" "?e \<noteq> 1" using l by arith+
    have "last_before ops ?e = Some (?e - 2)" using l True two by (simp add: last_before_def)
    then show ?thesis using two l b e(2) True by (intro exI [of _ "?e - 2"]) (simp add: in_block_def)
  qed
qed

lemma away_last:
  assumes g: "graph_ready ops bs" and ok: "code_ok ops bs" and p: "in_block ops bs b p" and away: "leads_away (opcode (ops ! p))"
  shows "last_before ops (b + block_len (bs ! b)) = Some p"
proof -
  note c = graph_readyD(1) [OF g]
  let ?e = "b + block_len (bs ! b)"
  have b: "b < length ops" "is_start bs b" "b \<le> p" "p < ?e" using p by (auto simp: in_block_def)
  note e = block_end [OF c b(1,2)]
  have pl: "p < length ops" using b e(3) by simp
  obtain ns where ns: "block_starts (ops ! p) p = Some ns" "\<forall>m \<in> set ns. is_start bs m" using graph_readyD(5) [OF g pl] by blast
  have nf: "opcode (ops ! p) \<noteq> ZEND_FAST_CALL" "opcode (ops ! p) \<noteq> ZEND_FAST_RET" using code_okD(1) [OF ok pl] by simp_all
  have nd: "opcode (ops ! p) \<noteq> ZEND_OP_DATA" using away by (auto simp: leads_away_def jumps_op1_def jumps_op2_def jumps_ext_def returning_def)
  show ?thesis
  proof (cases "opcode (ops ! p) = ZEND_FE_FETCH")
    case True
    have "p + 2 \<in> set ns" using ns(1) True by (auto simp: block_starts_def returning_def cond_jumps_def)
    then have s2: "is_start bs (p + 2)" using ns(2) by blast
    note d = code_okD(6) [OF ok pl True]
    have "\<not> is_start bs (Suc p)" using code_okD(5) [OF ok] d by blast
    have "Suc p \<noteq> ?e"
    proof
      assume "Suc p = ?e"
      then have "?e \<noteq> length ops" using d by simp
      then have "is_start bs ?e" using e(1) by (simp add: block_to_def)
      then show False using \<open>\<not> is_start bs (Suc p)\<close> \<open>Suc p = ?e\<close> by simp
    qed
    then have "Suc p < ?e" using b(4) by simp
    moreover have "\<not> p + 2 < ?e" using e(4) [of "p + 2"] s2 b(3) by auto
    ultimately have "?e = p + 2" by simp
    then show ?thesis using d by (simp add: last_before_def)
  next
    case False
    have "p + 1 \<in> set ns"
      using ns(1) away nf False by (auto simp: block_starts_def leads_away_def jumps_op1_def jumps_op2_def jumps_ext_def returning_def cond_jumps_def)
    then have "\<not> p + 1 < ?e" using e(4) [of "p + 1"] ns(2) b(3) by auto
    then have "?e = Suc p" using b(4) by simp
    then show ?thesis using nd pl by (simp add: last_before_def)
  qed
qed

lemma close_targets:
  assumes "block_starts o1 p \<noteq> None" "opcode o1 \<noteq> ZEND_FAST_CALL" "opcode o1 \<noteq> ZEND_FAST_RET"
  shows "op1_to (close_block o1 e no_block) = (if jumps_op1 (opcode o1) then Some (num (op1 o1)) else None)"
    "op2_to (close_block o1 e no_block) = (if jumps_op2 (opcode o1) then Some (num (op2 o1)) else None)"
    "ext_to (close_block o1 e no_block) = (if jumps_ext (opcode o1) then Some (extended_value o1) else None)"
    "follow_to (close_block o1 e no_block) = (if opcode o1 \<in> insert ZEND_JMP (insert ZEND_JMPZNZ returning) then None else Some e)"
  using assms by (auto simp: close_block_def block_starts_def no_block_def jumps_op1_def jumps_op2_def jumps_ext_def returning_def cond_jumps_def Let_def
      split: if_splits)

text \<open>The targets of a block are those of its last instruction.\<close>

lemma block_targets:
  assumes g: "graph_ready ops bs" and ok: "code_ok ops bs" and b: "b < length ops" "is_start bs b" and k: "last_before ops (b + block_len (bs ! b)) = Some k"
  shows "op1_to (bs ! b) = (if jumps_op1 (opcode (ops ! k)) then Some (num (op1 (ops ! k))) else None)"
    "op2_to (bs ! b) = (if jumps_op2 (opcode (ops ! k)) then Some (num (op2 (ops ! k))) else None)"
    "ext_to (bs ! b) = (if jumps_ext (opcode (ops ! k)) then Some (extended_value (ops ! k)) else None)"
    "follow_to (bs ! b) = (if opcode (ops ! k) \<in> insert ZEND_JMP (insert ZEND_JMPZNZ returning) then None else Some (b + block_len (bs ! b)))"
proof -
  note c = graph_readyD(1) [OF g]
  let ?e = "b + block_len (bs ! b)"
  note e = block_end [OF c b]
  have kl: "k < length ops" using k by (auto simp: last_before_def split: if_splits)
  have bs: "block_starts (ops ! k) k \<noteq> None" using graph_readyD(5) [OF g kl] by auto
  note nf = code_okD(1) [OF ok kl]
  note ct = close_targets [OF bs, of ?e]
  have "op1_to (bs ! b) = op1_to (close_block (ops ! k) ?e no_block) \<and> op2_to (bs ! b) = op2_to (close_block (ops ! k) ?e no_block)
    \<and> ext_to (bs ! b) = ext_to (close_block (ops ! k) ?e no_block) \<and> follow_to (bs ! b) = follow_to (close_block (ops ! k) ?e no_block)"
  proof (cases "?e = length ops")
    case True
    then have "opcode (ops ! (?e - 1)) \<in> returning" using code_okD(7) [OF ok] by simp
    then have ret: "opcode (ops ! k) \<in> returning" using k by (auto simp: last_before_def returning_def split: if_splits)
    have "targets (bs ! b) = [None, None, None, None]" using e(1) True by (simp add: block_to_def)
    then show ?thesis using ret ct nf by (auto simp: targets_def returning_def jumps_op1_def jumps_op2_def jumps_ext_def)
  next
    case False
    then have "targets (bs ! b) = targets (close_block (ops ! k) ?e no_block)" using e(1) k by (simp add: block_to_def)
    then show ?thesis by (simp add: targets_def)
  qed
  then show "op1_to (bs ! b) = (if jumps_op1 (opcode (ops ! k)) then Some (num (op1 (ops ! k))) else None)"
    "op2_to (bs ! b) = (if jumps_op2 (opcode (ops ! k)) then Some (num (op2 (ops ! k))) else None)"
    "ext_to (bs ! b) = (if jumps_ext (opcode (ops ! k)) then Some (extended_value (ops ! k)) else None)"
    "follow_to (bs ! b) = (if opcode (ops ! k) \<in> insert ZEND_JMP (insert ZEND_JMPZNZ returning) then None else Some ?e)"
    using ct nf by simp_all
qed

section \<open>Positions\<close>

lemma filter_upt_nth:
  assumes "P p" "p < n"
  shows "filter P [0..<n] ! length (filter P [0..<p]) = p" "length (filter P [0..<p]) < length (filter P [0..<n])"
proof -
  have "[0..<n] = [0..<p] @ p # [Suc p..<n]" using assms(2) upto_split [of p n] upt_conv_Cons [of p n] by simp
  then have f: "filter P [0..<n] = filter P [0..<p] @ p # filter P [Suc p..<n]" using assms(1) by simp
  show "filter P [0..<n] ! length (filter P [0..<p]) = p" "length (filter P [0..<p]) < length (filter P [0..<n])"
    unfolding f by simp_all
qed

lemma keep_live: "keep_at ops bs p \<Longrightarrow> live_at ops bs p"
  unfolding keep_at_def live_at_def by blast

lemma live_inside: "cfg_ok ops bs \<Longrightarrow> live_at ops bs p \<Longrightarrow> p < length ops"
  using block_end(3) by (fastforce simp: live_at_def in_block_def)

lemma code_upto_nth:
  assumes "keep_at ops bs p" "p < n"
  shows "code_upto ops bs n ! npos ops bs p = ops ! p" "npos ops bs p < npos ops bs n"
  using filter_upt_nth [of "keep_at ops bs", OF assms] by (simp_all add: code_upto_def npos_def)

lemma npos_Suc: "npos ops bs (Suc p) = npos ops bs p + (if keep_at ops bs p then 1 else 0)"
  by (simp add: npos_def)

lemma npos_mono: "p \<le> q \<Longrightarrow> npos ops bs p \<le> npos ops bs q"
  by (simp add: npos_def upto_split [of p q])

lemma npos_inj: "keep_at ops bs p \<Longrightarrow> keep_at ops bs q \<Longrightarrow> npos ops bs p = npos ops bs q \<Longrightarrow> p = q"
  using code_upto_nth(2) by (metis less_irrefl linorder_neqE_nat)

text \<open>Between instructions that are not kept, positions do not change.\<close>

lemma npos_skip: "p \<le> q \<Longrightarrow> (\<And>k. p \<le> k \<Longrightarrow> k < q \<Longrightarrow> \<not> keep_at ops bs k) \<Longrightarrow> npos ops bs q = npos ops bs p"
  by (simp add: npos_def upto_split [of p q] filter_False)

lemma no_keep_between:
  assumes c: "cfg_ok ops bs" and b: "b < length ops" "is_start bs b" and t: "next_used ops bs b t"
    and k: "b + block_len (bs ! b) \<le> k" "k < t"
  shows "\<not> keep_at ops bs k"
proof
  assume "keep_at ops bs k"
  then obtain b' where b': "in_block ops bs b' k" "access (bs ! b')" unfolding keep_at_def by blast
  have "\<not> b' \<le> b"
  proof
    assume "b' \<le> b"
    show False
    proof (cases "b' = b")
      case True
      then show False using b' k(1) by (simp add: in_block_def)
    next
      case False
      then have "b < b' + block_len (bs ! b')" using b' k(1) \<open>b' \<le> b\<close> block_end(2) [OF c b] by (simp add: in_block_def)
      then have "\<not> is_start bs b" using block_end(4) [OF c, of b' b] b'(1) \<open>b' \<le> b\<close> False by (simp add: in_block_def)
      then show False using b(2) by blast
    qed
  qed
  then have "b < b'" "b' < t" "on_chain ops bs b'" using b'(1) k(2) by (auto simp: in_block_def on_chain_def)
  then show False using t b'(2) unfolding next_used_def by blast
qed

section \<open>Adjusting the jumps\<close>

definition renum_op :: "(nat \<Rightarrow> nat) \<Rightarrow> zend_op \<Rightarrow> zend_op" where
  "renum_op M o1 = o1\<lparr>
     op1 := (if jumps_op1 (opcode o1) then (op1 o1)\<lparr>num := M (num (op1 o1))\<rparr> else op1 o1),
     op2 := (if jumps_op2 (opcode o1) then (op2 o1)\<lparr>num := M (num (op2 o1))\<rparr> else op2 o1),
     extended_value := (if jumps_ext (opcode o1) then M (extended_value o1) else extended_value o1)\<rparr>"

lemma renum_op_id: "\<not> leads_away (opcode o1) \<Longrightarrow> renum_op M o1 = o1"
  by (simp add: renum_op_def leads_away_def)

lemma opcode_renum_op [simp]: "opcode (renum_op M o1) = opcode o1"
  by (simp add: renum_op_def)

definition adjusted :: "zend_op list \<Rightarrow> zend_code_block list \<Rightarrow> nat \<Rightarrow> zend_op list \<Rightarrow> zend_op list \<Rightarrow> bool" where
  "adjusted ops bs i new0 new \<longleftrightarrow> length new = length new0
     \<and> (\<forall>p. keep_at ops bs p \<longrightarrow> new ! npos ops bs p = (if p < i then renum_op (npos ops bs) (ops ! p) else ops ! p))
     \<and> (\<forall>q. npos ops bs (length ops) \<le> q \<longrightarrow> q < length new0 \<longrightarrow> new ! q = new0 ! q)"

lemma new_pos_moved:
  assumes "t < length ops" "is_start bs t" "access (bs ! t)"
  shows "new_pos (moved_upto ops bs (length ops)) t = Some (npos ops bs t)"
  using assms by (simp add: new_pos_def moved_upto_simps is_start_def)

lemma keep_first:
  assumes g: "graph_ready ops bs" and ok: "code_ok ops bs"
  shows "keep_at ops bs 0" "npos ops bs 0 = 0"
proof -
  note c = graph_readyD(1) [OF g]
  have b: "0 < length ops" "is_start bs 0" using cfg_okD [OF c] by simp_all
  have i: "in_block ops bs 0 0" using b block_end(2) [OF c b] by (simp add: in_block_def)
  have "\<not> (stripped ops bs 0 \<and> 0 = 0 + block_len (bs ! 0) - 1)" using code_okD(8) [OF ok] by (auto simp: stripped_def)
  then show "keep_at ops bs 0" using i graph_readyD(2) [OF g] unfolding keep_at_def by blast
  show "npos ops bs 0 = 0" by (simp add: npos_def)
qed

lemma last_before_adjusted:
  assumes g: "graph_ready ops bs" and ok: "code_ok ops bs" and b: "b < length ops" "is_start bs b" "access (bs ! b)"
    and a: "adjusted ops bs i new0 new" and l: "npos ops bs (length ops) \<le> length new0" and k: "last_before ops (b + block_len (bs ! b)) = Some k"
  shows "\<exists>k'. last_before new (npos ops bs (b + block_len (bs ! b))) = Some k' \<and> (\<not> stripped ops bs b \<longrightarrow> k' = npos ops bs k \<and> keep_at ops bs k)"
proof -
  note c = graph_readyD(1) [OF g]
  let ?e = "b + block_len (bs ! b)" and ?N = "npos ops bs"
  note e = block_end [OF c b(1,2)]
  note kf = keep_first [OF g ok]
  have op: "opcode (new ! ?N p) = opcode (ops ! p)" if "keep_at ops bs p" for p using a that by (simp add: adjusted_def)
  have E: "?N ?e \<le> length new" using npos_mono [OF e(3), of ops bs] a l by (simp add: adjusted_def)
  have pos: "0 < ?N ?e" using code_upto_nth(2) [OF kf(1), of ?e] e(2) kf(2) by simp
  have z: "opcode (new ! 0) \<noteq> ZEND_OP_DATA" using op [OF kf(1)] kf(2) code_okD(5) [OF ok, of 0] cfg_okD(2,3) [OF c] by auto
  have some: "\<exists>k'. last_before new (?N ?e) = Some k'" using E pos z by (auto simp: last_before_def)
  show ?thesis
  proof (cases "stripped ops bs b")
    case True
    then show ?thesis using some by blast
  next
    case False
    have kp: "keep_at ops bs p" if "in_block ops bs b p" for p using keep_in_block [OF c that] b(3) False by simp
    obtain k0 where k0: "last_before ops ?e = Some k0" "in_block ops bs b k0"
      "k0 = ?e - 1 \<and> opcode (ops ! k0) \<noteq> ZEND_OP_DATA \<or> k0 = ?e - 2 \<and> opcode (ops ! Suc k0) = ZEND_OP_DATA \<and> in_block ops bs b (Suc k0)"
      using last_before_block [OF c ok b(1,2)] by blast
    have kk: "k0 = k" using k0(1) k by simp
    have sk: "?N (Suc p) = Suc (?N p)" if "in_block ops bs b p" for p using kp [OF that] by (simp add: npos_Suc)
    show ?thesis
    proof (cases "opcode (ops ! k) \<noteq> ZEND_OP_DATA \<and> k = ?e - 1")
      case True
      then have "?e = Suc k" using e(2) by simp
      then have "?N ?e = Suc (?N k)" using sk [of k] k0(2) kk by simp
      have nod: "opcode (ops ! k) \<noteq> ZEND_OP_DATA" using True by blast
      have kpk: "keep_at ops bs k" using kp k0(2) kk by blast
      have od: "opcode (new ! ?N k) \<noteq> ZEND_OP_DATA" unfolding op [OF kpk] by (rule nod)
      have "?N k < length new" using E \<open>?N ?e = Suc (?N k)\<close> by simp
      then have "last_before new (Suc (?N k)) = Some (?N k)" using od by (simp add: last_before_def)
      then have "last_before new (?N ?e) = Some (?N k)" using \<open>?N ?e = Suc (?N k)\<close> by simp
      then show ?thesis using kp k0(2) kk by blast
    next
      case False
      then have s: "k = ?e - 2" "opcode (ops ! Suc k) = ZEND_OP_DATA" "in_block ops bs b (Suc k)" using k0(3) kk by auto
      then have "?e = Suc (Suc k)" by (auto simp: in_block_def)
      then have n: "?N ?e = Suc (Suc (?N k))" "?N (Suc k) = Suc (?N k)" using sk [of k] sk [OF s(3)] k0(2) kk by simp_all
      have "opcode (new ! Suc (?N k)) = ZEND_OP_DATA" using op [OF kp [OF s(3)]] n(2) s(2) by simp
      then have "last_before new (?N ?e) = Some (?N k)" using E n(1) by (simp add: last_before_def)
      then show ?thesis using kp k0(2) kk by blast
    qed
  qed
qed

lemma adjust_block_ok:
  assumes g: "graph_ready ops bs" and ok: "code_ok ops bs" and b: "b < length ops" "is_start bs b" "access (bs ! b)"
    and a: "adjusted ops bs b new0 new" and l: "npos ops bs (length ops) \<le> length new0"
  shows "\<exists>new'. adjust_block (moved_upto ops bs (length ops)) (moved_upto ops bs (length ops) ! b) new = Some new'
    \<and> adjusted ops bs (b + block_len (bs ! b)) new0 new'"
proof -
  note c = graph_readyD(1) [OF g]
  let ?e = "b + block_len (bs ! b)" and ?N = "npos ops bs" and ?mb = "moved_upto ops bs (length ops)"
  note e = block_end [OF c b(1,2)]
  have bl: "b < length bs" using b(2) by (simp add: is_start_def)
  have B: "?mb ! b = moved_block ops bs b" using bl b by (simp add: moved_upto_simps)
  obtain k where k: "last_before ops ?e = Some k" "in_block ops bs b k" using last_before_block [OF c ok b(1,2)] by blast
  obtain k' where k': "last_before new (?N ?e) = Some k'" "\<not> stripped ops bs b \<Longrightarrow> k' = ?N k \<and> keep_at ops bs k"
    using last_before_adjusted [OF g ok b a l k(1)] by blast
  have end_pos: "?N b + block_len (moved_block ops bs b) = ?N ?e"
    using npos_block(1) [OF c b(1,2)] b(3) by (simp add: moved_block_def Let_def)
  note bt = block_targets [OF g ok b(1,2) k(1)]
  have tgt: "new_pos ?mb t = Some (?N t)" if "t \<in> succs (bs ! b)" for t
  proof -
    have ed: "(b, t) \<in> edges bs" using that bl by (simp add: edges_def)
    have "is_start bs t" using edges_start [OF c _ ed] graph_readyD(5) [OF g] by blast
    then show ?thesis using graph_readyD(4) [OF g ed b(3)] by (simp add: new_pos_moved)
  qed
  have set: "set_target ?mb to f q xs = Some (case to of None \<Rightarrow> xs | Some t \<Rightarrow> xs[q := f (?N t) (xs ! q)])"
    if "to \<in> set (targets (bs ! b))" for to f q xs
    using tgt that by (auto simp: set_target_def succs_def split: option.split)
  have others: "renum_op ?N (ops ! p) = ops ! p" if "in_block ops bs b p" "p \<noteq> k" for p
  proof (rule renum_op_id)
    show "\<not> leads_away (opcode (ops ! p))" using away_last [OF g ok that(1)] k(1) that(2) by auto
  qed
  have split: "p < ?e \<longleftrightarrow> p < b \<or> in_block ops bs b p" for p using b by (auto simp: in_block_def)
  show ?thesis
  proof (cases "stripped ops bs b")
    case True
    have jk: "opcode (ops ! k) = ZEND_JMP" "k = ?e - 1"
      using True k(1) by (auto simp: stripped_def last_before_def split: if_splits)
    have "op2_to (bs ! b) = None" "ext_to (bs ! b) = None" using bt jk(1) by (simp_all add: jumps_op2_def jumps_ext_def)
    moreover have "op1_to (moved_block ops bs b) = None" using True by (simp add: moved_block_def Let_def)
    ultimately have "adjust_block ?mb (?mb ! b) new = Some new"
      using B end_pos k'(1) by (simp add: adjust_block_def set_target_def)
    moreover have "adjusted ops bs ?e new0 new"
    proof -
      have "renum_op ?N (ops ! p) = ops ! p" if "keep_at ops bs p" "in_block ops bs b p" for p
        using others [OF that(2)] keep_in_block [OF c that(2)] that(1) True jk(2) by auto
      moreover have "p < ?e \<longleftrightarrow> p < b \<or> in_block ops bs b p" for p by (rule split)
      moreover have "\<not> (p < b \<and> in_block ops bs b p)" for p by (simp add: in_block_def)
      ultimately show ?thesis using a unfolding adjusted_def by metis
    qed
    ultimately show ?thesis by blast
  next
    case False
    note kk = k'(2) [OF False]
    have same: "op1_to (moved_block ops bs b) = op1_to (bs ! b)" using False by (simp add: moved_block_def Let_def)
    have kn: "k < length ops" using live_inside [OF c keep_live] kk by blast
    have ln: "length new = length new0" using a by (simp add: adjusted_def)
    have kl: "?N k < length new" using code_upto_nth(2) [of ops bs k "length ops"] kk kn ln l by simp
    have nk: "new ! ?N k = ops ! k" using a kk k(2) by (simp add: adjusted_def in_block_def)
    have t: "op1_to (bs ! b) \<in> set (targets (bs ! b))" "op2_to (bs ! b) \<in> set (targets (bs ! b))" "ext_to (bs ! b) \<in> set (targets (bs ! b))"
      by (simp_all add: targets_def)
    let ?x = "ops ! k"
    define y1 where "y1 = (if jumps_op1 (opcode ?x) then ?x\<lparr>op1 := (op1 ?x)\<lparr>num := ?N (num (op1 ?x))\<rparr>\<rparr> else ?x)"
    define y2 where "y2 = (if jumps_op2 (opcode ?x) then y1\<lparr>op2 := (op2 y1)\<lparr>num := ?N (num (op2 ?x))\<rparr>\<rparr> else y1)"
    define y3 where "y3 = (if jumps_ext (opcode ?x) then y2\<lparr>extended_value := ?N (extended_value ?x)\<rparr> else y2)"
    have y3: "y3 = renum_op ?N ?x" by (auto simp: y1_def y2_def y3_def renum_op_def)
    have s1: "set_target ?mb (op1_to (bs ! b)) (\<lambda>q x. x\<lparr>op1 := (op1 x)\<lparr>num := q\<rparr>\<rparr>) (?N k) new = Some (new[?N k := y1])"
    proof (cases "jumps_op1 (opcode ?x)")
      case True
      then have "op1_to (bs ! b) = Some (num (op1 ?x))" using bt(1) by simp
      then show ?thesis using set [OF t(1)] True nk by (simp add: y1_def)
    next
      case no: False
      then have "op1_to (bs ! b) = None" using bt(1) by simp
      moreover have "new[?N k := y1] = new" using no nk by (simp add: y1_def list_update_same_conv [OF kl])
      ultimately show ?thesis by (simp add: set_target_def)
    qed
    have s2: "set_target ?mb (op2_to (bs ! b)) (\<lambda>q x. x\<lparr>op2 := (op2 x)\<lparr>num := q\<rparr>\<rparr>) (?N k) (new[?N k := y1]) = Some (new[?N k := y2])"
    proof (cases "jumps_op2 (opcode ?x)")
      case True
      then have "op2_to (bs ! b) = Some (num (op2 ?x))" using bt(2) by simp
      then show ?thesis using set [OF t(2)] True kl by (simp add: y2_def)
    next
      case no: False
      then have "op2_to (bs ! b) = None" using bt(2) by simp
      then show ?thesis using no by (simp add: set_target_def y2_def)
    qed
    have s3: "set_target ?mb (ext_to (bs ! b)) (\<lambda>q x. x\<lparr>extended_value := q\<rparr>) (?N k) (new[?N k := y2]) = Some (new[?N k := y3])"
    proof (cases "jumps_ext (opcode ?x)")
      case True
      then have "ext_to (bs ! b) = Some (extended_value ?x)" using bt(3) by simp
      then show ?thesis using set [OF t(3)] True kl by (simp add: y3_def)
    next
      case no: False
      then have "ext_to (bs ! b) = None" using bt(3) by simp
      then show ?thesis using no by (simp add: set_target_def y3_def)
    qed
    have so: "start_opline (moved_block ops bs b) = In_New (?N b)" by simp
    have "adjust_block ?mb (?mb ! b) new = Some (new[?N k := renum_op ?N ?x])"
      unfolding B adjust_block_def so op_ptr.case end_pos k'(1) same moved_block_keeps Option.bind_lunit using kk s1 s2 s3 y3 by simp
    moreover have "adjusted ops bs ?e new0 (new[?N k := renum_op ?N (ops ! k)])"
      unfolding adjusted_def
    proof (intro conjI allI impI)
      show "length (new[?N k := renum_op ?N (ops ! k)]) = length new0" using a by (simp add: adjusted_def)
      show "new[?N k := renum_op ?N (ops ! k)] ! q = new0 ! q" if "?N (length ops) \<le> q" "q < length new0" for q
        using that a kk code_upto_nth(2) [of ops bs k "length ops"] kn by (simp add: adjusted_def)
      show "new[?N k := renum_op ?N (ops ! k)] ! ?N p = (if p < ?e then renum_op ?N (ops ! p) else ops ! p)" if p: "keep_at ops bs p" for p
      proof (cases "p = k")
        case True
        then show ?thesis using kl k(2) by (simp add: in_block_def)
      next
        case ne: False
        then have "?N p \<noteq> ?N k" using npos_inj [OF p, of k] kk by blast
        then have "new[?N k := renum_op ?N (ops ! k)] ! ?N p = (if p < b then renum_op ?N (ops ! p) else ops ! p)" using a p by (simp add: adjusted_def)
        then show ?thesis using others [OF _ ne] split [of p] by auto
      qed
    qed
    ultimately show ?thesis by blast
  qed
qed

lemma adjust_blocks_ok:
  assumes g: "graph_ready ops bs" and ok: "code_ok ops bs" and l: "npos ops bs (length ops) \<le> length new0"
    and i: "on_chain ops bs i" and a: "adjusted ops bs (min i (length ops)) new0 new"
  shows "\<exists>new'. adjust_blocks (Some i) (moved_upto ops bs (length ops)) new = Some new' \<and> adjusted ops bs (length ops) new0 new'"
  using i a
proof (induction "length ops + 1 - i" arbitrary: i new rule: less_induct)
  case less
  note c = graph_readyD(1) [OF g]
  let ?mb = "moved_upto ops bs (length ops)"
  have i: "i < length bs" using less.prems(1) cfg_okD(1) [OF c] by (auto simp: on_chain_def)
  have nb: "next_block (?mb ! i) = next_block (bs ! i)" "access (?mb ! i) = access (bs ! i)" using i by (simp_all add: moved_upto_simps)
  show ?case
  proof (cases "i = length ops + 1")
    case True
    then have "adjust_blocks (Some i) ?mb new = Some new"
      using i nb graph_readyD(3) [OF g] cfg_okD(6) [OF c] by (subst adjust_blocks.simps) (simp add: moved_upto_simps(1) adjust_blocks.simps)
    then show ?thesis using less.prems(2) True by simp
  next
    case False
    then have i1: "i < length ops" "is_start bs i" using less.prems(1) by (auto simp: on_chain_def)
    let ?e = "i + block_len (bs ! i)"
    obtain m where m: "next_block (bs ! i) = Some m" "i < m" "on_chain ops bs m"
      using chain_next [OF c less.prems(1) False] by blast
    have me: "min m (length ops) = ?e" using block_end(1) [OF c i1] m(1) by (auto simp: block_to_def split: if_splits)
    have lt: "length ops + 1 - m < length ops + 1 - i" using m(2) i1 by simp
    have a0: "adjusted ops bs i new0 new" using less.prems(2) i1 by simp
    show ?thesis
    proof (cases "access (bs ! i)")
      case True
      obtain new' where n: "adjust_block ?mb (?mb ! i) new = Some new'" "adjusted ops bs ?e new0 new'"
        using adjust_block_ok [OF g ok i1 True a0 l] by blast
      have "adjust_blocks (Some i) ?mb new = adjust_blocks (Some m) ?mb new'"
        using i nb True n(1) m(1) by (subst adjust_blocks.simps) (simp add: moved_upto_simps(1))
      then show ?thesis using less.hyps [OF lt m(3), of new'] n(2) me by simp
    next
      case no: False
      have "\<not> keep_at ops bs p" if "i \<le> p" "p < ?e" for p
        using keep_in_block [OF c, of i p] that i1 no by (simp add: in_block_def)
      then have "keep_at ops bs p \<Longrightarrow> p < ?e \<longleftrightarrow> p < i" for p by (meson le_add1 less_le_trans not_le_imp_less)
      then have "adjusted ops bs ?e new0 new" using a0 unfolding adjusted_def by metis
      moreover have "adjust_blocks (Some i) ?mb new = adjust_blocks (Some m) ?mb new"
        using i nb no m(1) by (subst adjust_blocks.simps) (simp add: moved_upto_simps(1))
      ultimately show ?thesis using less.hyps [OF lt m(3), of new] me by simp
    qed
  qed
qed

section \<open>The tables\<close>

text \<open>
  The catch blocks and loops lie in the code and are in use; the try table is sorted, and the try
  block of a region with code in use is in use as well.
\<close>

definition tables_ok :: "zend_op list \<Rightarrow> zend_code_block list \<Rightarrow> try_catch_element list \<Rightarrow> brk_cont_element list \<Rightarrow> bool" where
  "tables_ok ops bs tcs bcs \<longleftrightarrow> sorted (map try_op tcs)
     \<and> (\<forall>t \<in> set tcs. try_op t < length ops \<and> is_start bs (try_op t) \<and> catch_op t < length ops \<and> is_start bs (catch_op t) \<and> access (bs ! catch_op t)
          \<and> (\<forall>p. live_at ops bs p \<longrightarrow> try_op t \<le> p \<longrightarrow> p < catch_op t \<longrightarrow> access (bs ! try_op t)))
     \<and> (\<forall>b \<in> set bcs. \<forall>p \<in> {nat (bc_start b), nat (bc_cont b), nat (bc_brk b)}. p < length ops \<and> is_start bs p \<and> access (bs ! p))"

lemma try_positions_ok:
  assumes "\<forall>t \<in> set tcs. try_op t < length ops \<and> is_start bs (try_op t) \<and> catch_op t < length ops \<and> is_start bs (catch_op t) \<and> access (bs ! catch_op t)"
  shows "try_positions (moved_upto ops bs (length ops)) (map (\<lambda>t. (try_op t, catch_op t)) tcs)
    = Some (map (\<lambda>t. (npos ops bs (try_op t), npos ops bs (catch_op t))) (filter (\<lambda>t. access (bs ! try_op t)) tcs))"
  using assms
proof (induction tcs)
  case (Cons t tcs)
  have t: "try_op t < length bs" using Cons.prems by (simp add: is_start_def)
  then have "access (moved_upto ops bs (length ops) ! try_op t) = access (bs ! try_op t)" by (simp add: moved_upto_simps)
  then show ?case using Cons t by (simp add: new_pos_moved moved_upto_simps(1))
qed simp

lemma adjusted_pairs:
  "length ps \<le> length ts \<Longrightarrow> map (\<lambda>t. (try_op t, catch_op t)) (map (\<lambda>(t, p, q). t\<lparr>try_op := p, catch_op := q\<rparr>) (zip ts ps)) = ps"
  for ts :: "try_catch_element list"
  by (rule nth_equalityI) (auto simp: split_beta)

lemma adjust_try_ok:
  assumes t: "tables_ok ops bs tcs bcs" and cf: "cfg_try cfg = map try_op tcs" "cfg_catch cfg = map catch_op tcs"
  shows "\<exists>tcs'. adjust_try cfg (moved_upto ops bs (length ops)) tcs = Some tcs'
    \<and> map (\<lambda>t. (try_op t, catch_op t)) tcs' = map (\<lambda>t. (npos ops bs (try_op t), npos ops bs (catch_op t))) (filter (\<lambda>t. access (bs ! try_op t)) tcs)"
proof -
  let ?ps = "map (\<lambda>t. (npos ops bs (try_op t), npos ops bs (catch_op t))) (filter (\<lambda>t. access (bs ! try_op t)) tcs)"
  have m: "map (\<lambda>i. (cfg_try cfg ! i, cfg_catch cfg ! i)) [0..<length tcs] = map (\<lambda>t. (try_op t, catch_op t)) tcs"
    by (rule nth_equalityI) (simp_all add: cf)
  have "try_positions (moved_upto ops bs (length ops)) (map (\<lambda>t. (try_op t, catch_op t)) tcs) = Some ?ps"
    by (rule try_positions_ok) (use t in \<open>simp add: tables_ok_def\<close>)
  then have "adjust_try cfg (moved_upto ops bs (length ops)) tcs = Some (map (\<lambda>(t, p, q). t\<lparr>try_op := p, catch_op := q\<rparr>) (zip tcs ?ps))"
    by (simp add: adjust_try_def m)
  moreover have "length ?ps \<le> length tcs" by simp
  then have "map (\<lambda>t. (try_op t, catch_op t)) (map (\<lambda>(t, p, q). t\<lparr>try_op := p, catch_op := q\<rparr>) (zip tcs ?ps)) = ?ps"
    by (rule adjusted_pairs)
  ultimately show ?thesis by blast
qed

lemma adjust_loops_ok:
  assumes "\<forall>b \<in> set bcs. \<forall>p \<in> {nat (bc_start b), nat (bc_cont b), nat (bc_brk b)}. p < length ops \<and> is_start bs p \<and> access (bs ! p)"
    and "\<forall>k < length bcs. loop_start cfg ! (i + k) = nat (bc_start (bcs ! k)) \<and> loop_cont cfg ! (i + k) = nat (bc_cont (bcs ! k)) \<and> loop_brk cfg ! (i + k) = nat (bc_brk (bcs ! k))"
  shows "\<exists>bcs'. adjust_loops cfg (moved_upto ops bs (length ops)) i bcs = Some bcs'"
  using assms
proof (induction bcs arbitrary: i)
  case (Cons b bcs)
  have "\<exists>bcs'. adjust_loops cfg (moved_upto ops bs (length ops)) (Suc i) bcs = Some bcs'"
    using Cons.prems by (intro Cons.IH) (auto dest: spec [of _ "Suc _"])
  moreover have "loop_start cfg ! i = nat (bc_start b) \<and> loop_cont cfg ! i = nat (bc_cont b) \<and> loop_brk cfg ! i = nat (bc_brk b)"
    using Cons.prems(2) by (auto dest: spec [of _ 0])
  ultimately show ?case using Cons.prems(1) by (auto simp: new_pos_moved)
qed simp

text \<open>An instruction that is kept finds the same catch block.\<close>

lemma catch_of_none: "\<forall>t \<in> set ts. pc < try_op t \<Longrightarrow> catch_of pc ts c = c"
  by (cases ts) simp_all

lemma npos_less: "keep_at ops bs p \<Longrightarrow> npos ops bs p < npos ops bs q \<longleftrightarrow> p < q"
  using code_upto_nth(2) npos_mono by (meson not_le not_less)

lemma catch_of_kept:
  assumes p: "keep_at ops bs p" and "sorted (map try_op tcs)"
    and "\<forall>t \<in> set tcs. try_op t \<le> p \<longrightarrow> p < catch_op t \<longrightarrow> access (bs ! try_op t)"
    and "map (\<lambda>t. (try_op t, catch_op t)) tcs' = map (\<lambda>t. (npos ops bs (try_op t), npos ops bs (catch_op t))) (filter (\<lambda>t. access (bs ! try_op t)) tcs)"
  shows "catch_of (npos ops bs p) tcs' (map_option (npos ops bs) c) = map_option (npos ops bs) (catch_of p tcs c)"
  using assms(2-)
proof (induction tcs arbitrary: tcs' c)
  case (Cons t tcs)
  let ?N = "npos ops bs"
  have c': "catch_of (?N p) tcs'' (map_option ?N c'') = map_option ?N (catch_of p tcs c'')"
    if "map (\<lambda>t. (try_op t, catch_op t)) tcs'' = map (\<lambda>t. (?N (try_op t), ?N (catch_op t))) (filter (\<lambda>t. access (bs ! try_op t)) tcs)" for tcs'' c''
    using Cons.IH [OF _ _ that] Cons.prems by simp
  show ?case
  proof (cases "access (bs ! try_op t)")
    case True
    then obtain t' r where t': "tcs' = t' # r" "try_op t' = ?N (try_op t)" "catch_op t' = ?N (catch_op t)"
      "map (\<lambda>t. (try_op t, catch_op t)) r = map (\<lambda>t. (?N (try_op t), ?N (catch_op t))) (filter (\<lambda>t. access (bs ! try_op t)) tcs)"
      using Cons.prems(3) by (cases tcs') auto
    have e: "map_option ?N (if p < catch_op t then Some (catch_op t) else c) = (if p < catch_op t then Some (?N (catch_op t)) else map_option ?N c)"
      by simp
    have "catch_of (?N p) r (if p < catch_op t then Some (?N (catch_op t)) else map_option ?N c)
        = map_option ?N (catch_of p tcs (if p < catch_op t then Some (catch_op t) else c))"
      using c' [OF t'(4), of "if p < catch_op t then Some (catch_op t) else c"] unfolding e .
    then show ?thesis unfolding t'(1) catch_of.simps t'(2,3) npos_less [OF p] by (cases "p < try_op t") simp_all
  next
    case no: False
    then have m: "map (\<lambda>t. (try_op t, catch_op t)) tcs' = map (\<lambda>t. (?N (try_op t), ?N (catch_op t))) (filter (\<lambda>t. access (bs ! try_op t)) tcs)"
      using Cons.prems(3) by simp
    show ?thesis
    proof (cases "p < try_op t")
      case True
      then have "\<forall>x \<in> set tcs. p < try_op x" using Cons.prems(1) by auto
      then have "catch_of p tcs c = c" by (rule catch_of_none)
      then show ?thesis using c' [OF m, of c] True by simp
    next
      case False
      then have "\<not> p < catch_op t" using Cons.prems(2) no by auto
      then show ?thesis using c' [OF m, of c] False by simp
    qed
  qed
qed simp

section \<open>The result of \<open>assemble_code_blocks\<close>\<close>

text \<open>The list of delayed bindings is a list through the results of the instructions.\<close>

definition linked :: "zend_op \<Rightarrow> zend_op \<Rightarrow> bool" where
  "linked a b \<longleftrightarrow> a = b \<or> links_result (opcode b) \<and> (\<exists>v. a = b\<lparr>result := (result b)\<lparr>num := v\<rparr>\<rparr>)"

definition relinked :: "zend_op list \<Rightarrow> zend_op list \<Rightarrow> bool" where
  "relinked xs ys \<longleftrightarrow> length ys = length xs \<and> (\<forall>k < length xs. linked (ys ! k) (xs ! k))"

lemma blank_link: "links_result (opcode b) \<Longrightarrow> blank (b\<lparr>result := (result b)\<lparr>num := v\<rparr>\<rparr>) = blank b"
  by (simp add: blank_def links_result_def jumps_op1_def jumps_op2_def jumps_ext_def)

lemma linked_same:
  assumes "linked a b"
  shows "blank a = blank b" "opcode a = opcode b" "op1 a = op1 b" "op2 a = op2 b" "extended_value a = extended_value b"
proof -
  from assms consider "a = b" | v where "links_result (opcode b)" "a = b\<lparr>result := (result b)\<lparr>num := v\<rparr>\<rparr>" unfolding linked_def by blast
  note cs = this
  show "blank a = blank b" using cs
  proof cases
    case 2
    show ?thesis unfolding 2(2) by (rule blank_link [OF 2(1)])
  qed simp
  show "opcode a = opcode b" "op1 a = op1 b" "op2 a = op2 b" "extended_value a = extended_value b" using cs by (cases, simp_all)+
qed

lemma linked_trans: "linked a b \<Longrightarrow> linked b c \<Longrightarrow> linked a c"
  unfolding linked_def by (elim disjE conjE exE) (auto intro!: exI)

lemma relinked_refl: "relinked xs xs"
  by (simp add: relinked_def linked_def)

lemma relinked_trans: "relinked xs ys \<Longrightarrow> relinked ys zs \<Longrightarrow> relinked xs zs"
  unfolding relinked_def using linked_trans by metis

lemma write_link_ok:
  assumes "\<And>k. w = Some k \<Longrightarrow> links_result (opcode (snd x ! k))"
  shows "relinked (snd x) (snd (write_link w v x))"
proof (cases w)
  case (Some k)
  let ?y = "(snd x ! k)\<lparr>result := (result (snd x ! k))\<lparr>num := v\<rparr>\<rparr>"
  have "linked ?y (snd x ! k)" using assms [OF Some] unfolding linked_def by blast
  then have "linked ((snd x)[k := ?y] ! j) (snd x ! j)" if "j < length (snd x)" for j
    using that by (cases "j = k") (simp_all add: linked_def)
  then show ?thesis using Some by (simp add: write_link_def relinked_def)
qed (simp add: write_link_def relinked_refl)

lemma relinked_opcode: "relinked xs ys \<Longrightarrow> k < length xs \<Longrightarrow> opcode (ys ! k) = opcode (xs ! k)"
  unfolding relinked_def using linked_same(2) by blast

lemma relink_bindings_ok:
  assumes "i + n \<le> length (snd x)" and "\<And>k. w = Some k \<Longrightarrow> k < length (snd x) \<and> links_result (opcode (snd x ! k))"
  shows "relinked (snd x) (snd (relink_bindings i n w x))"
  using assms
proof (induction n arbitrary: i w x)
  case 0
  then show ?case using write_link_ok [of w x] by simp
next
  case (Suc n)
  show ?case
  proof (cases "opcode (snd x ! i) = ZEND_DECLARE_INHERITED_CLASS_DELAYED")
    case True
    let ?x = "write_link w i x"
    have r: "relinked (snd x) (snd ?x)" using write_link_ok Suc.prems(2) by blast
    have l: "length (snd ?x) = length (snd x)" using r by (simp add: relinked_def)
    have "relinked (snd ?x) (snd (relink_bindings (Suc i) n (Some i) ?x))"
    proof (rule Suc.IH)
      show "Suc i + n \<le> length (snd ?x)" using Suc.prems(1) l by simp
      show "k < length (snd ?x) \<and> links_result (opcode (snd ?x ! k))" if "Some i = Some k" for k
        using that True Suc.prems(1) l relinked_opcode [OF r, of i] by (simp add: links_result_def)
    qed
    then show ?thesis using True relinked_trans [OF r] by simp
  next
    case False
    then show ?thesis using Suc.IH [of "Suc i" x w] Suc.prems by simp
  qed
qed

lemma pad_throw_ok:
  assumes g: "graph_ready ops bs" and ok: "code_ok ops bs" and t: "opcode (ops ! (length ops - 1)) \<noteq> ZEND_THROW"
  shows "\<exists>new. pad_throw (length ops) (code_upto ops bs (length ops)) = Some new \<and> length new \<le> length ops
    \<and> npos ops bs (length ops) \<le> length new \<and> (\<forall>p. keep_at ops bs p \<longrightarrow> new ! npos ops bs p = ops ! p)"
proof -
  let ?n = "length ops" and ?c = "code_upto ops bs (length ops)"
  note c = graph_readyD(1) [OF g]
  have in_code: "p < ?n" if "keep_at ops bs p" for p using live_inside [OF c keep_live [OF that]] .
  have at: "?c ! npos ops bs p = ops ! p" "npos ops bs p < length ?c" if "keep_at ops bs p" for p
    using code_upto_nth [OF that in_code [OF that]] by simp_all
  have "0 < length ?c" using at(2) [OF keep_first(1) [OF g ok]] by linarith
  then have ne: "?c \<noteq> []" unfolding length_greater_0_conv .
  show ?thesis
  proof (cases "opcode (last ?c) = ZEND_THROW")
    case True
    have "npos ops bs ?n < ?n"
    proof (rule ccontr)
      assume "\<not> npos ops bs ?n < ?n"
      then have "\<forall>p < ?n. keep_at ops bs p"
        using length_filter_less [of _ "[0..<?n]" "keep_at ops bs"] by (auto simp: npos_def)
      then have "filter (keep_at ops bs) [0..<?n] = [0..<?n]" by (intro filter_True) simp
      then have "?c = ops" by (simp add: code_upto_def map_nth)
      then show False using True t cfg_okD(2) [OF c] by (simp add: last_conv_nth)
    qed
    then show ?thesis using True ne at by (auto simp: pad_throw_def nth_append)
  next
    case False
    then show ?thesis using ne at npos_le [of ops bs ?n] by (simp add: pad_throw_def)
  qed
qed

definition assembled :: "zend_op list \<Rightarrow> zend_code_block list \<Rightarrow> 'x zend_op_array \<Rightarrow> 'x zend_op_array \<Rightarrow> bool" where
  "assembled ops bs oa oa' \<longleftrightarrow> last_op oa' \<le> last_op oa
     \<and> (\<forall>p. keep_at ops bs p \<longrightarrow> npos ops bs p < last_op oa' \<and> linked (opcodes oa' ! npos ops bs p) (renum_op (npos ops bs) (ops ! p)))
     \<and> map (\<lambda>t. (try_op t, catch_op t)) (try_catch_array oa')
        = map (\<lambda>t. (npos ops bs (try_op t), npos ops bs (catch_op t))) (filter (\<lambda>t. access (bs ! try_op t)) (try_catch_array oa))
     \<and> written (dead_literals ops bs) (literals oa) (literals oa')"

lemma assembledD:
  assumes "assembled ops bs oa oa'"
  shows "last_op oa' \<le> last_op oa" "\<And>p. keep_at ops bs p \<Longrightarrow> npos ops bs p < last_op oa'"
    "\<And>p. keep_at ops bs p \<Longrightarrow> linked (opcodes oa' ! npos ops bs p) (renum_op (npos ops bs) (ops ! p))"
    "map (\<lambda>t. (try_op t, catch_op t)) (try_catch_array oa')
        = map (\<lambda>t. (npos ops bs (try_op t), npos ops bs (catch_op t))) (filter (\<lambda>t. access (bs ! try_op t)) (try_catch_array oa))"
    "written (dead_literals ops bs) (literals oa) (literals oa')"
  using assms unfolding assembled_def by blast+

lemma assemble_code_blocks_ok:
  fixes oa :: "'x zend_op_array"
  assumes g: "graph_ready (opcodes oa) (blocks cfg)" and ok: "code_ok (opcodes oa) (blocks cfg)"
    and t: "opcode (opcodes oa ! (last_op oa - 1)) \<noteq> ZEND_THROW"
    and tb: "tables_ok (opcodes oa) (blocks cfg) (try_catch_array oa) (brk_cont_array oa)"
    and cf: "cfg_try cfg = map try_op (try_catch_array oa)" "cfg_catch cfg = map catch_op (try_catch_array oa)"
      "loop_start cfg = map (\<lambda>b. nat (bc_start b)) (brk_cont_array oa)" "loop_cont cfg = map (\<lambda>b. nat (bc_cont b)) (brk_cont_array oa)"
      "loop_brk cfg = map (\<lambda>b. nat (bc_brk b)) (brk_cont_array oa)"
  shows "\<exists>oa'. assemble_code_blocks cfg oa = Some oa' \<and> assembled (opcodes oa) (blocks cfg) oa oa'"
proof -
  let ?ops = "opcodes oa" and ?bs = "blocks cfg" and ?n = "last_op oa"
  let ?mb = "moved_upto ?ops ?bs ?n"
  note c = graph_readyD(1) [OF g]
  have ch: "on_chain ?ops ?bs 0" using cfg_okD [OF c] by (simp add: on_chain_def)
  have z: "code_upto ?ops ?bs (min 0 ?n) = []" "moved_upto ?ops ?bs 0 = ?bs"
    by (simp_all add: code_upto_def moved_upto_def map_nth)
  obtain oa1 where 1: "copy_blocks ?ops (Some 0) [] ?bs oa = Some (code_upto ?ops ?bs ?n, ?mb, oa1)" "only_literals (dead_literals ?ops ?bs) oa oa1"
    using copy_blocks_ok [OF c graph_readyD(3) [OF g] ch, of oa] unfolding z by blast
  obtain new1 where 2: "pad_throw ?n (code_upto ?ops ?bs ?n) = Some new1" "length new1 \<le> ?n" "npos ?ops ?bs ?n \<le> length new1"
    "\<And>p. keep_at ?ops ?bs p \<Longrightarrow> new1 ! npos ?ops ?bs p = ?ops ! p" using pad_throw_ok [OF g ok t] by blast
  obtain tc where 3: "adjust_try cfg ?mb (try_catch_array oa) = Some tc"
    "map (\<lambda>t. (try_op t, catch_op t)) tc = map (\<lambda>t. (npos ?ops ?bs (try_op t), npos ?ops ?bs (catch_op t))) (filter (\<lambda>t. access (?bs ! try_op t)) (try_catch_array oa))"
    using adjust_try_ok [OF tb cf(1,2)] by blast
  obtain bc where 4: "adjust_loops cfg ?mb 0 (brk_cont_array oa) = Some bc"
    using adjust_loops_ok [of "brk_cont_array oa" ?ops ?bs cfg 0] tb cf(3-5) unfolding tables_ok_def by auto
  have "adjusted ?ops ?bs (min 0 ?n) new1 new1" using 2(4) by (simp add: adjusted_def)
  then obtain new2 where 5: "adjust_blocks (Some 0) ?mb new1 = Some new2" "adjusted ?ops ?bs ?n new1 new2"
    using adjust_blocks_ok [OF g ok 2(3) ch] by blast
  obtain eb new3 where 6: "(if early_binding oa = UINT_MAX then (UINT_MAX, new2) else relink_bindings 0 (length new2) None (early_binding oa, new2)) = (eb, new3)"
    by fastforce
  have r: "relinked new2 new3"
    using 6 relink_bindings_ok [of 0 "length new2" "(early_binding oa, new2)" None] relinked_refl [of new2] by (auto split: if_splits)
  let ?oa' = "oa1\<lparr>opcodes := new3, try_catch_array := tc, brk_cont_array := bc, early_binding := eb\<rparr>"
  have as: "assemble_code_blocks cfg oa = Some ?oa'"
    unfolding assemble_code_blocks_def 1(1) Option.bind_lunit prod.case 2(1) 3(1) 4 5(1) Let_def 6 ..
  have len: "length new3 = length new1" using r 5(2) by (simp add: relinked_def adjusted_def)
  have at: "npos ?ops ?bs p < length new3 \<and> linked (new3 ! npos ?ops ?bs p) (renum_op (npos ?ops ?bs) (?ops ! p))" if p: "keep_at ?ops ?bs p" for p
  proof -
    have pn: "p < ?n" using live_inside [OF c keep_live [OF p]] .
    then have "npos ?ops ?bs p < length new3" using code_upto_nth(2) [OF p pn] 2(3) len by simp
    moreover have "new2 ! npos ?ops ?bs p = renum_op (npos ?ops ?bs) (?ops ! p)" using 5(2) p pn by (simp add: adjusted_def)
    moreover have "length new3 = length new2" using r by (simp add: relinked_def)
    ultimately show ?thesis using r unfolding relinked_def by metis
  qed
  have "written (dead_literals ?ops ?bs) (literals oa) (literals oa1)" using 1(2) by (simp add: only_literals_def)
  then have "assembled ?ops ?bs oa ?oa'" using at 3(2) 2(2) len by (simp add: assembled_def)
  then show ?thesis using as by blast
qed

section \<open>Running the new code\<close>

lemma live_start: "cfg_ok ops bs \<Longrightarrow> t < length ops \<Longrightarrow> is_start bs t \<Longrightarrow> access (bs ! t) \<Longrightarrow> live_at ops bs t"
  using block_end(2) unfolding live_at_def in_block_def by fastforce

lemma edge_live:
  assumes g: "graph_ready ops bs" and e: "(b, t) \<in> edges bs" and b: "access (bs ! b)"
  shows "live_at ops bs t"
proof -
  note c = graph_readyD(1) [OF g]
  have "is_start bs t" using edges_start [OF c _ e] graph_readyD(5) [OF g] by blast
  then show ?thesis using graph_readyD(4) [OF g e b] live_start [OF c] by blast
qed

text \<open>Control stays in the blocks in use.\<close>

lemma next_live:
  assumes g: "graph_ready ops bs" and ok: "code_ok ops bs" and l: "live_at ops bs p"
    and oc: "opcode (ops ! p) \<notin> insert ZEND_JMP (insert ZEND_JMPZNZ returning)"
  shows "live_at ops bs (Suc p)"
proof -
  note c = graph_readyD(1) [OF g]
  obtain b where b: "in_block ops bs b p" "access (bs ! b)" using l by (auto simp: live_at_def)
  then have b': "b < length ops" "is_start bs b" "b \<le> p" "p < b + block_len (bs ! b)" by (simp_all add: in_block_def)
  let ?e = "b + block_len (bs ! b)"
  note e = block_end [OF c b'(1,2)]
  show ?thesis
  proof (cases "Suc p < ?e")
    case True
    then show ?thesis using b b' by (auto simp: live_at_def in_block_def)
  next
    case False
    then have pe: "?e = Suc p" using b'(4) by simp
    obtain k where k: "last_before ops ?e = Some k" "in_block ops bs b k"
      "k = ?e - 1 \<and> opcode (ops ! k) \<noteq> ZEND_OP_DATA \<or> k = ?e - 2 \<and> opcode (ops ! Suc k) = ZEND_OP_DATA \<and> in_block ops bs b (Suc k)"
      using last_before_block [OF c ok b'(1,2)] by blast
    have ko: "opcode (ops ! k) \<notin> insert ZEND_JMP (insert ZEND_JMPZNZ returning)"
    proof (cases "k = p")
      case True
      then show ?thesis using oc by simp
    next
      case False
      then have d: "opcode (ops ! Suc k) = ZEND_OP_DATA" "in_block ops bs b (Suc k)" using k(3) pe by auto
      have kl: "k < length ops" "Suc k < length ops" using k(2) d(2) e(3) by (auto simp: in_block_def)
      obtain ns where ns: "block_starts (ops ! k) k = Some ns" "\<forall>m \<in> set ns. is_start bs m" using graph_readyD(5) [OF g kl(1)] by blast
      have "\<not> is_start bs (Suc k)" using code_okD(5) [OF ok kl(2) d(1)] .
      then have "Suc k \<notin> set ns" using ns(2) by blast
      then show ?thesis using ns(1) by (auto simp: block_starts_def returning_def cond_jumps_def split: if_splits)
    qed
    have f: "follow_to (bs ! b) = Some ?e" using block_targets(4) [OF g ok b'(1,2) k(1)] ko by simp
    have bl: "b < length bs" using b'(2) by (simp add: is_start_def)
    have "(b, ?e) \<in> edges bs" using f bl by (simp add: edges_def succs_def targets_def)
    then show ?thesis using edge_live [OF g _ b(2)] pe by simp
  qed
qed

lemma jump_live:
  assumes g: "graph_ready ops bs" and ok: "code_ok ops bs" and l: "live_at ops bs p"
  shows "jumps_op1 (opcode (ops ! p)) \<Longrightarrow> live_at ops bs (num (op1 (ops ! p)))"
    "jumps_op2 (opcode (ops ! p)) \<Longrightarrow> live_at ops bs (num (op2 (ops ! p)))"
    "jumps_ext (opcode (ops ! p)) \<Longrightarrow> live_at ops bs (extended_value (ops ! p))"
proof -
  obtain b where b: "in_block ops bs b p" "access (bs ! b)" using l by (auto simp: live_at_def)
  have b': "b < length ops" "is_start bs b" "b < length bs" using b by (simp_all add: in_block_def is_start_def)
  have t: "live_at ops bs t" if "leads_away (opcode (ops ! p))" "Some t \<in> {op1_to (bs ! b), op2_to (bs ! b), ext_to (bs ! b)}" for t
  proof -
    have "(b, t) \<in> edges bs" using that(2) b'(3) by (auto simp: edges_def succs_def targets_def)
    then show ?thesis using edge_live [OF g _ b(2)] by blast
  qed
  have k: "last_before ops (b + block_len (bs ! b)) = Some p" if "leads_away (opcode (ops ! p))"
    using away_last [OF g ok b(1) that] .
  note bt = block_targets [OF g ok b'(1,2) k]
  show "live_at ops bs (num (op1 (ops ! p)))" if "jumps_op1 (opcode (ops ! p))"
    using t [of "num (op1 (ops ! p))"] bt(1) that by (simp add: leads_away_def)
  show "live_at ops bs (num (op2 (ops ! p)))" if "jumps_op2 (opcode (ops ! p))"
    using t [of "num (op2 (ops ! p))"] bt(2) that by (simp add: leads_away_def)
  show "live_at ops bs (extended_value (ops ! p))" if "jumps_ext (opcode (ops ! p))"
    using t [of "extended_value (ops ! p)"] bt(3) that by (simp add: leads_away_def)
qed

text \<open>A JMP that is stripped leads to the place of its target.\<close>

lemma stripped_jmp:
  assumes g: "graph_ready ops bs" and ok: "code_ok ops bs" and l: "live_at ops bs p" and k: "\<not> keep_at ops bs p"
  shows "opcode (ops ! p) = ZEND_JMP \<and> p < num (op1 (ops ! p)) \<and> npos ops bs (num (op1 (ops ! p))) = npos ops bs p"
proof -
  note c = graph_readyD(1) [OF g]
  obtain b where b: "in_block ops bs b p" "access (bs ! b)" using l by (auto simp: live_at_def)
  then have b': "b < length ops" "is_start bs b" "b \<le> p" by (simp_all add: in_block_def)
  let ?e = "b + block_len (bs ! b)"
  note e = block_end [OF c b'(1,2)]
  have s: "stripped ops bs b" "p = ?e - 1" using keep_in_block [OF c b(1)] k b(2) by blast+
  then obtain t where t: "opcode (ops ! p) = ZEND_JMP" "op1_to (bs ! b) = Some t" "next_used ops bs b t" by (auto simp: stripped_def)
  have ja: "leads_away (opcode (ops ! p))" "jumps_op1 (opcode (ops ! p))" using t(1) by (simp_all add: leads_away_def jumps_op1_def)
  have tn: "num (op1 (ops ! p)) = t" using block_targets(1) [OF g ok b'(1,2) away_last [OF g ok b(1) ja(1)]] t(2) ja(2) by simp
  have pe: "?e = Suc p" using s(2) e(2) by simp
  have "is_start bs t" "b < t" using t(3) code_okD(2) [OF ok _ ja(2)] tn live_inside [OF c l] by (auto simp: next_used_def on_chain_def)
  then have te: "?e \<le> t" using e(4) [of t] by (meson not_le_imp_less)
  have "npos ops bs t = npos ops bs ?e"
    by (rule npos_skip [OF te]) (use no_keep_between [OF c b'(1,2) t(3)] in blast)
  also have "\<dots> = npos ops bs p" using k pe by (simp add: npos_Suc)
  finally show ?thesis using t(1) tn te pe by simp
qed

text \<open>
  What handlers never do: go on after an instruction that leaves the code or jumps either way,
  and break or continue a loop at an instruction other than BRK and CONT.
\<close>

definition flow_ok :: "'s handlers \<Rightarrow> bool" where
  "flow_ok H \<longleftrightarrow> (\<forall>o1 s. (opcode o1 \<in> insert ZEND_JMPZNZ returning \<longrightarrow> snd (H o1 s) \<noteq> Next)
     \<and> (opcode o1 \<notin> {ZEND_BRK, ZEND_CONT} \<longrightarrow> (\<forall>k. snd (H o1 s) \<noteq> Break_To k \<and> snd (H o1 s) \<noteq> Continue_To k)))"

lemma flow_okD:
  assumes "flow_ok H"
  shows "opcode o1 \<in> insert ZEND_JMPZNZ returning \<Longrightarrow> snd (H o1 s) \<noteq> Next"
    "opcode o1 \<noteq> ZEND_BRK \<Longrightarrow> opcode o1 \<noteq> ZEND_CONT \<Longrightarrow> snd (H o1 s) \<noteq> Break_To k \<and> snd (H o1 s) \<noteq> Continue_To k"
  using assms unfolding flow_ok_def by blast+

lemma blank_renum_op: "blank (renum_op M o1) = blank o1"
  by (simp add: blank_def renum_op_def)

lemma opcode_blank: "opcode (blank o1) = opcode o1"
  by (simp add: blank_def)

definition outcome_moved :: "zend_op list \<Rightarrow> zend_code_block list \<Rightarrow> 's outcome \<Rightarrow> 's outcome \<Rightarrow> bool" where
  "outcome_moved ops bs r r' \<longleftrightarrow>
     (case r of Go t s \<Rightarrow> live_at ops bs t \<and> r' = Go (npos ops bs t) s | _ \<Rightarrow> r' = r)"

lemma resume_kept:
  fixes oa :: "'x zend_op_array"
  assumes g: "graph_ready (opcodes oa) bs" and ok: "code_ok (opcodes oa) bs" and tb: "tables_ok (opcodes oa) bs (try_catch_array oa) bcs"
    and as: "assembled (opcodes oa) bs oa oa'" and k: "keep_at (opcodes oa) bs p"
    and x: "snd x = Next \<Longrightarrow> opcode (opcodes oa ! p) \<notin> insert ZEND_JMP (insert ZEND_JMPZNZ returning)" "\<And>k. snd x \<noteq> Break_To k \<and> snd x \<noteq> Continue_To k"
  shows "outcome_moved (opcodes oa) bs (resume b (try_catch_array oa) (opcodes oa ! p) p x)
    (resume b' (try_catch_array oa') (opcodes oa' ! npos (opcodes oa) bs p) (npos (opcodes oa) bs p) x)"
proof -
  let ?ops = "opcodes oa" let ?N = "npos (opcodes oa) bs"
  note c = graph_readyD(1) [OF g]
  note l = keep_live [OF k]
  note lk = linked_same [OF assembledD(3) [OF as k]]
  let ?o = "?ops ! p" and ?o' = "opcodes oa' ! ?N p"
  have oc: "opcode ?o' = opcode ?o" using lk(2) by simp
  show ?thesis
  proof (cases "snd x")
    case Next
    then show ?thesis using next_live [OF g ok l x(1)] k by (simp add: resume_def outcome_moved_def npos_Suc)
  next
    case To_Op1
    show ?thesis
    proof (cases "jumps_op1 (opcode ?o)")
      case True
      then have "num (op1 ?o') = ?N (num (op1 ?o))" using lk(3) by (simp add: renum_op_def)
      then show ?thesis using To_Op1 True oc jump_live(1) [OF g ok l] by (simp add: resume_def outcome_moved_def)
    qed (use To_Op1 oc in \<open>simp add: resume_def outcome_moved_def\<close>)
  next
    case To_Op2
    show ?thesis
    proof (cases "jumps_op2 (opcode ?o)")
      case True
      then have "num (op2 ?o') = ?N (num (op2 ?o))" using lk(4) by (simp add: renum_op_def)
      then show ?thesis using To_Op2 True oc jump_live(2) [OF g ok l] by (simp add: resume_def outcome_moved_def)
    qed (use To_Op2 oc in \<open>simp add: resume_def outcome_moved_def\<close>)
  next
    case To_Ext
    show ?thesis
    proof (cases "jumps_ext (opcode ?o)")
      case True
      then have "extended_value ?o' = ?N (extended_value ?o)" using lk(5) by (simp add: renum_op_def)
      then show ?thesis using To_Ext True oc jump_live(3) [OF g ok l] by (simp add: resume_def outcome_moved_def)
    qed (use To_Ext oc in \<open>simp add: resume_def outcome_moved_def\<close>)
  next
    case Raise
    have "\<forall>t \<in> set (try_catch_array oa). try_op t \<le> p \<longrightarrow> p < catch_op t \<longrightarrow> access (bs ! try_op t)" "sorted (map try_op (try_catch_array oa))"
      using tb l unfolding tables_ok_def by blast+
    then have m: "catch_of (?N p) (try_catch_array oa') None = map_option ?N (catch_of p (try_catch_array oa) None)"
      using catch_of_kept [OF k _ _ assembledD(4) [OF as], of None] by simp
    have "live_at ?ops bs t" if "catch_of p ts cc = Some t" "set ts \<subseteq> set (try_catch_array oa)" "\<And>u. cc = Some u \<Longrightarrow> live_at ?ops bs u" for t ts cc
      using that
    proof (induction ts arbitrary: cc)
      case (Cons t0 ts)
      have "live_at ?ops bs (catch_op t0)"
        using tb Cons.prems(2) live_start [OF c, of "catch_op t0"] by (simp add: tables_ok_def)
      then show ?case using Cons.prems by (auto split: if_splits intro: Cons.IH)
    qed simp
    then have "catch_of p (try_catch_array oa) None = Some t \<Longrightarrow> live_at ?ops bs t" for t by blast
    then show ?thesis using Raise m by (auto simp: resume_def outcome_moved_def split: option.split)
  qed (use x(2) in \<open>auto simp: resume_def outcome_moved_def\<close>)
qed

lemma kept_step:
  fixes oa :: "'x zend_op_array"
  assumes g: "graph_ready (opcodes oa) bs" and ok: "code_ok (opcodes oa) bs" and tb: "tables_ok (opcodes oa) bs (try_catch_array oa) bcs"
    and as: "assembled (opcodes oa) bs oa oa'" and k: "keep_at (opcodes oa) bs p"
    and H: "H' (blank (opcodes oa ! p)) s = H (blank (opcodes oa ! p)) s" and fl: "flow_ok H"
  shows "outcome_moved (opcodes oa) bs (vm_step H oa p s) (vm_step H' oa' (npos (opcodes oa) bs p) s)"
proof -
  let ?ops = "opcodes oa" let ?N = "npos (opcodes oa) bs"
  note c = graph_readyD(1) [OF g]
  note l = keep_live [OF k]
  note lk = linked_same [OF assembledD(3) [OF as k]]
  let ?o = "?ops ! p" and ?o' = "opcodes oa' ! ?N p"
  have p: "p < last_op oa" "?N p < last_op oa'" using live_inside [OF c l] assembledD(2) [OF as k] by simp_all
  have oc: "opcode ?o' = opcode ?o" using lk(2) by simp
  consider "opcode ?o = ZEND_NOP" | "opcode ?o = ZEND_JMP" | "opcode ?o \<noteq> ZEND_NOP" "opcode ?o \<noteq> ZEND_JMP" by blast
  then show ?thesis
  proof cases
    case 1
    then have "live_at ?ops bs (Suc p)" by (intro next_live [OF g ok l]) (simp add: returning_def)
    then show ?thesis using p oc 1 k by (simp add: outcome_moved_def vm_step_nop npos_Suc)
  next
    case 2
    then have j: "jumps_op1 (opcode ?o)" by (simp add: jumps_op1_def)
    then have "num (op1 ?o') = ?N (num (op1 ?o))" using lk(3) by (simp add: renum_op_def)
    then show ?thesis using p oc 2 jump_live(1) [OF g ok l j] by (simp add: outcome_moved_def vm_step_jmp)
  next
    case 3
    have bl: "H' (blank ?o') s = H (blank ?o) s" using H lk(1) by (simp add: blank_renum_op)
    obtain ns where ns: "block_starts ?o p = Some ns" using graph_readyD(5) [OF g p(1)] by blast
    have nb: "opcode ?o \<noteq> ZEND_BRK" "opcode ?o \<noteq> ZEND_CONT" using ns by (auto simp: block_starts_def)
    have st: "vm_step H oa p s = resume (brk_cont_array oa) (try_catch_array oa) ?o p (H (blank ?o) s)"
      "vm_step H' oa' (?N p) s = resume (brk_cont_array oa') (try_catch_array oa') ?o' (?N p) (H (blank ?o) s)"
      using p oc 3 bl by (simp_all add: vm_step_def Let_def)
    show ?thesis unfolding st
    proof (rule resume_kept [OF g ok tb as k])
      show "opcode ?o \<notin> insert ZEND_JMP (insert ZEND_JMPZNZ returning)" if "snd (H (blank ?o) s) = Next"
        using flow_okD(1) [OF fl, of "blank ?o" s] that 3(2) unfolding opcode_blank by blast
      show "snd (H (blank ?o) s) \<noteq> Break_To j \<and> snd (H (blank ?o) s) \<noteq> Continue_To j" for j
        by (rule flow_okD(2) [OF fl]) (simp_all add: opcode_blank nb)
    qed
  qed
qed

text \<open>A JMP that is stripped runs to an instruction that is kept.\<close>

lemma runs_to_kept:
  assumes g: "graph_ready (opcodes oa) bs" and ok: "code_ok (opcodes oa) bs" and l: "live_at (opcodes oa) bs p"
  shows "\<exists>q. keep_at (opcodes oa) bs q \<and> npos (opcodes oa) bs q = npos (opcodes oa) bs p \<and> (\<forall>s r. vm_run H oa q s r \<longleftrightarrow> vm_run H oa p s r)"
  using l
proof (induction "last_op oa - p" arbitrary: p rule: less_induct)
  case less
  note c = graph_readyD(1) [OF g]
  show ?case
  proof (cases "keep_at (opcodes oa) bs p")
    case False
    let ?t = "num (op1 (opcodes oa ! p))"
    note s = stripped_jmp [OF g ok less.prems False]
    have p: "p < last_op oa" by (rule live_inside [OF c less.prems])
    have j: "jumps_op1 (opcode (opcodes oa ! p))" using s by (simp add: jumps_op1_def)
    obtain q where q: "keep_at (opcodes oa) bs q" "npos (opcodes oa) bs q = npos (opcodes oa) bs ?t" "\<forall>s r. vm_run H oa q s r \<longleftrightarrow> vm_run H oa ?t s r"
      using less.hyps [of ?t] jump_live(1) [OF g ok less.prems j] s p by fastforce
    then show ?thesis using s vm_run_JMP [OF p, of H] by metis
  qed blast
qed

lemma stripped_step:
  assumes g: "graph_ready (opcodes oa) bs" and ok: "code_ok (opcodes oa) bs" and l: "live_at (opcodes oa) bs p" and k: "\<not> keep_at (opcodes oa) bs p"
  shows "vm_step H oa p s = Go (num (op1 (opcodes oa ! p))) s"
  using stripped_jmp [OF g ok l k] live_inside [OF graph_readyD(1) [OF g] l] by (simp add: vm_step_jmp)

lemma runs_moved:
  fixes oa :: "'x zend_op_array"
  assumes g: "graph_ready (opcodes oa) bs" and ok: "code_ok (opcodes oa) bs" and tb: "tables_ok (opcodes oa) bs (try_catch_array oa) bcs"
    and as: "assembled (opcodes oa) bs oa oa'"
    and H: "\<And>p s. keep_at (opcodes oa) bs p \<Longrightarrow> H' (blank (opcodes oa ! p)) s = H (blank (opcodes oa ! p)) s" and fl: "flow_ok H"
    and p: "live_at (opcodes oa) bs p"
  shows "vm_run H' oa' (npos (opcodes oa) bs p) s r \<longleftrightarrow> vm_run H oa p s r"
proof
  let ?N = "npos (opcodes oa) bs"
  have step: "outcome_moved (opcodes oa) bs (vm_step H oa q s) (vm_step H' oa' (?N q) s)" if "keep_at (opcodes oa) bs q" for q s
    by (rule kept_step [where H = H and H' = H', OF g ok tb as that H [OF that] fl])
  have there: "vm_run H' oa' (?N q) s r" if "vm_run H oa q s r" "keep_at (opcodes oa) bs q"
      "\<And>t s'. vm_step H oa q s = Go t s' \<Longrightarrow> live_at (opcodes oa) bs t \<Longrightarrow> vm_run H' oa' (?N t) s' r" for q s r
    using that(1) step [OF that(2), of s] that(3)
    by (subst vm_run_unfold, subst (asm) vm_run_unfold) (auto simp: outcome_moved_def split: outcome.splits)
  show "vm_run H' oa' (?N p) s r" if "vm_run H oa p s r"
    using that p
  proof (induction rule: vm_run.induct)
    case (Run_Go pc s q s' r)
    show ?case
    proof (cases "keep_at (opcodes oa) bs pc")
      case True
      show ?thesis
        by (rule there [OF vm_run.Run_Go [OF Run_Go.hyps(1,2)] True]) (use Run_Go in auto)
    next
      case False
      note s = stripped_jmp [OF g ok Run_Go.prems False]
      have "q = num (op1 (opcodes oa ! pc))" "s' = s" using Run_Go.hyps(1) stripped_step [OF g ok Run_Go.prems False, of H s] by simp_all
      moreover have "live_at (opcodes oa) bs (num (op1 (opcodes oa ! pc)))" using jump_live(1) [OF g ok Run_Go.prems] s by (simp add: jumps_op1_def)
      ultimately show ?thesis using Run_Go.IH s by simp
    qed
  next
    case (Run_Left pc s s')
    have "keep_at (opcodes oa) bs pc"
      using Run_Left.hyps stripped_step [OF g ok Run_Left.prems, of H s] by (metis outcome.distinct(1))
    then show ?case by (rule there [OF vm_run.Run_Left [OF Run_Left.hyps]]) (use Run_Left.hyps in simp)
  next
    case (Run_Uncaught pc s s')
    have "keep_at (opcodes oa) bs pc"
      using Run_Uncaught.hyps stripped_step [OF g ok Run_Uncaught.prems, of H s] by (metis outcome.distinct(3))
    then show ?case by (rule there [OF vm_run.Run_Uncaught [OF Run_Uncaught.hyps]]) (use Run_Uncaught.hyps in simp)
  qed
  show "vm_run H oa p s r" if "vm_run H' oa' (?N p) s r"
    using that p
  proof (induction "?N p" s r arbitrary: p rule: vm_run.induct)
    case (Run_Left s s')
    obtain q where q: "keep_at (opcodes oa) bs q" "?N q = ?N p" "\<forall>s r. vm_run H oa q s r \<longleftrightarrow> vm_run H oa p s r"
      using runs_to_kept [OF g ok Run_Left.prems, of H] by blast
    have "vm_step H' oa' (?N q) s = Left s'" unfolding q(2) by (rule Run_Left.hyps)
    then have "vm_step H oa q s = Left s'"
      using step [OF q(1), of s] by (cases "vm_step H oa q s") (simp_all add: outcome_moved_def)
    then have "vm_run H oa q s (Left s')" by (rule vm_run.Run_Left)
    then show ?case using q(3) by simp
  next
    case (Run_Uncaught s s')
    obtain q where q: "keep_at (opcodes oa) bs q" "?N q = ?N p" "\<forall>s r. vm_run H oa q s r \<longleftrightarrow> vm_run H oa p s r"
      using runs_to_kept [OF g ok Run_Uncaught.prems, of H] by blast
    have "vm_step H' oa' (?N q) s = Uncaught s'" unfolding q(2) by (rule Run_Uncaught.hyps)
    then have "vm_step H oa q s = Uncaught s'"
      using step [OF q(1), of s] by (cases "vm_step H oa q s") (simp_all add: outcome_moved_def)
    then have "vm_run H oa q s (Uncaught s')" by (rule vm_run.Run_Uncaught)
    then show ?case using q(3) by simp
  next
    case (Run_Go s pc' s' r)
    obtain q where q: "keep_at (opcodes oa) bs q" "?N q = ?N p" "\<forall>s r. vm_run H oa q s r \<longleftrightarrow> vm_run H oa p s r"
      using runs_to_kept [OF g ok Run_Go.prems, of H] by blast
    have "vm_step H' oa' (?N q) s = Go pc' s'" unfolding q(2) by (rule Run_Go.hyps(1))
    then obtain t where t: "vm_step H oa q s = Go t s'" "live_at (opcodes oa) bs t" "pc' = ?N t"
      using step [OF q(1), of s] by (cases "vm_step H oa q s") (simp_all add: outcome_moved_def)
    have "vm_run H oa q s r" by (rule vm_run.Run_Go [OF t(1) Run_Go.hyps(3) [OF t(3) t(2)]])
    then show ?case using q(3) by simp
  qed
qed

text \<open>Handlers do not see the literals of other instructions.\<close>

lemma private_written:
  assumes H: "handlers_private H N" and w: "written D L L'" and D: "D \<subseteq> N" "D \<inter> owned o1 = {}"
  shows "H L' (blank o1) s = H L (blank o1) s"
proof -
  obtain us where "\<forall>u \<in> set us. fst u \<in> D" "L' = fold (\<lambda>(n, l) L. L[n := l]) us L" using w by (auto simp: written_def)
  then show ?thesis
  proof (induction us arbitrary: L)
    case (Cons u us)
    have "H (L[fst u := snd u]) (blank o1) s = H L (blank o1) s"
      using H D Cons.prems(1) unfolding handlers_private_def by (meson disjoint_iff list.set_intros(1) subsetD)
    moreover have "H L' (blank o1) s = H (L[fst u := snd u]) (blank o1) s"
      using Cons.prems by (intro Cons.IH) (auto simp: split_beta)
    ultimately show ?case by simp
  qed simp
qed

lemma dead_literals_other:
  assumes u: "unshared ops" and c: "cfg_ok ops bs" and k: "keep_at ops bs p"
  shows "dead_literals ops bs \<inter> owned (ops ! p) = {}"
proof -
  have p: "p < length ops" "live_at ops bs p" using keep_live [OF k] live_inside [OF c keep_live [OF k]] by simp_all
  then show ?thesis using u unfolding unshared_def dead_literals_def by blast
qed

lemma dead_literals_owned: "dead_literals ops bs \<subseteq> owned_by ops"
  unfolding dead_literals_def owned_by_def by (auto intro: nth_mem)

section \<open>Removing code that cannot be reached\<close>

text \<open>
  What the tables of the code must satisfy: their positions lie in the code, the try table is sorted,
  and when code of a try region is reachable then so is the start of the region.
\<close>

definition regions_ok :: "zend_op list \<Rightarrow> zend_code_block list \<Rightarrow> try_catch_element list \<Rightarrow> brk_cont_element list \<Rightarrow> bool" where
  "regions_ok ops bs tcs bcs \<longleftrightarrow> sorted (map try_op tcs)
     \<and> (\<forall>t \<in> set tcs. try_op t < length ops \<and> catch_op t < length ops
          \<and> (\<forall>p. live_at ops bs p \<longrightarrow> try_op t \<le> p \<longrightarrow> p < catch_op t \<longrightarrow> access (bs ! try_op t)))
     \<and> (\<forall>b \<in> set bcs. nat (bc_start b) < length ops \<and> nat (bc_cont b) < length ops \<and> nat (bc_brk b) < length ops)"

lemma regions_okD:
  assumes "regions_ok ops bs tcs bcs"
  shows "sorted (map try_op tcs)" "\<And>t. t \<in> set tcs \<Longrightarrow> try_op t < length ops \<and> catch_op t < length ops"
    "\<And>t p. t \<in> set tcs \<Longrightarrow> live_at ops bs p \<Longrightarrow> try_op t \<le> p \<Longrightarrow> p < catch_op t \<Longrightarrow> access (bs ! try_op t)"
    "\<And>b. b \<in> set bcs \<Longrightarrow> nat (bc_start b) < length ops \<and> nat (bc_cont b) < length ops \<and> nat (bc_brk b) < length ops"
  using assms unfolding regions_ok_def by blast+

text \<open>Code without BRK and CONT does not read the loop table.\<close>

lemma vm_run_steps:
  assumes "\<And>p s. vm_step H oa' p s = vm_step H oa p s" and run: "vm_run H oa p s r"
  shows "vm_run H oa' p s r"
  using vm_run_simulation [where R = "(=)" and oa' = oa', OF run refl] assms(1) vm_run.intros by metis

lemma loops_unused:
  assumes fl: "flow_ok H" and b: "\<forall>p < last_op oa. block_starts (opcodes oa ! p) p \<noteq> None"
  shows "vm_run H (oa\<lparr>brk_cont_array := bcs\<rparr>) 0 s r \<longleftrightarrow> vm_run H oa 0 s r"
proof -
  have st: "vm_step H (oa\<lparr>brk_cont_array := bcs\<rparr>) p s = vm_step H oa p s" for p s
  proof (cases "p < last_op oa")
    case True
    have "opcode (opcodes oa ! p) \<noteq> ZEND_BRK" "opcode (opcodes oa ! p) \<noteq> ZEND_CONT" using b True by (auto simp: block_starts_def)
    then have "\<forall>k. snd (H (blank (opcodes oa ! p)) s) \<noteq> Break_To k \<and> snd (H (blank (opcodes oa ! p)) s) \<noteq> Continue_To k"
      using flow_okD(2) [OF fl, of "blank (opcodes oa ! p)"] by (simp add: opcode_blank)
    then show ?thesis by (cases "snd (H (blank (opcodes oa ! p)) s)") (auto simp: vm_step_def Let_def resume_def)
  qed (simp add: vm_step_def)
  show ?thesis using vm_run_steps [of H oa "oa\<lparr>brk_cont_array := bcs\<rparr>"] vm_run_steps [of H "oa\<lparr>brk_cont_array := bcs\<rparr>" oa] st by metis
qed

lemma edges_inside:
  assumes c: "cfg_ok ops bs" and ok: "code_ok ops bs" and s: "\<forall>k < length ops. \<exists>ns. block_starts (ops ! k) k = Some ns \<and> (\<forall>n \<in> set ns. is_start bs n)"
    and e: "(x, y) \<in> edges bs"
  shows "y < length ops"
proof -
  have x: "x < length ops" "is_start bs x" using edges_start [OF c s e] by simp_all
  obtain m where m: "block_to ops bs x m" using cfg_okD(4) [OF c x] by blast
  have y: "Some y \<in> set (targets (bs ! x))" using e by (simp add: edges_def succs_def)
  have "m \<noteq> length ops" "m \<le> length ops" using m y by (auto simp: block_to_def)
  then have mn: "m < length ops" by simp
  then obtain k where k: "last_before ops m = Some k" "targets (bs ! x) = targets (close_block (ops ! k) m no_block)"
    using m by (auto simp: block_to_def)
  have kl: "k < length ops" using k(1) by (auto simp: last_before_def split: if_splits)
  have bs: "block_starts (ops ! k) k \<noteq> None" using s kl by fastforce
  note ct = close_targets [OF bs, of m]
  have f: "opcode (ops ! k) \<noteq> ZEND_FAST_CALL" "opcode (ops ! k) \<noteq> ZEND_FAST_RET" using code_okD(1) [OF ok kl] by simp_all
  have "Some y \<in> set (targets (close_block (ops ! k) m no_block))" using y k(2) by simp
  then show ?thesis
    using code_okD(2-4) [OF ok kl] mn unfolding targets_def ct [OF f] by (auto split: if_splits)
qed

lemma rebuilt_ready:
  assumes f: "find_code_blocks oa = Some (Some (oa1, cfg))" and r: "zend_rebuild_access_path cfg oa1 False = Some cfg'"
    and n: "opcodes oa \<noteq> []" and ok: "code_ok (opcodes oa) (blocks cfg)" and t: "regions_ok (opcodes oa) (blocks cfg') (try_catch_array oa) (brk_cont_array oa1)"
  shows "graph_ready (opcodes oa) (blocks cfg')" "code_ok (opcodes oa) (blocks cfg')"
    "tables_ok (opcodes oa) (blocks cfg') (try_catch_array oa) (brk_cont_array oa1)"
    "cfg' = cfg\<lparr>blocks := blocks cfg'\<rparr>"
proof -
  let ?n = "last_op oa" and ?ops = "opcodes oa" and ?bs = "blocks cfg" and ?bs' = "blocks cfg'"
  have fd: "found oa oa1 cfg" by (rule find_code_blocks_found [OF f n])
  have c: "cfg_ok ?ops ?bs" and so: "starts_ok oa ?bs" using fd by (simp_all add: found_def)
  obtain cf: "cfg' = cfg\<lparr>blocks := ?bs'\<rparr>" and sg: "same_graph ?bs ?bs'"
    and ac: "\<And>i. i < ?n + 2 \<Longrightarrow> i \<noteq> ?n \<Longrightarrow> access (?bs' ! i) \<longleftrightarrow> (\<exists>r \<in> set (roots cfg oa1). (r, i) \<in> (edges ?bs)\<^sup>*)"
    using rebuild_core [OF f n] r by auto
  obtain kept where kp: "oa1 = oa\<lparr>brk_cont_array := kept\<rparr>" "loops_started ?bs kept"
    "loop_start cfg = map (\<lambda>b. nat (bc_start b)) kept" "loop_cont cfg = map (\<lambda>b. nat (bc_cont b)) kept"
    "loop_brk cfg = map (\<lambda>b. nat (bc_brk b)) kept" using fd unfolding found_def by blast
  have ct: "cfg_catch cfg = map catch_op (try_catch_array oa)" using fd by (simp add: found_def)
  have ks: "is_start ?bs (nat (bc_start b)) \<and> is_start ?bs (nat (bc_cont b)) \<and> is_start ?bs (nat (bc_brk b))" if "b \<in> set kept" for b
    using kp(2) that unfolding loops_started_def by blast
  have ts: "is_start ?bs (try_op t) \<and> is_start ?bs (catch_op t)" if "t \<in> set (try_catch_array oa)" for t
    using so that unfolding starts_ok_def by blast
  have st: "is_start ?bs' i \<longleftrightarrow> is_start ?bs i" for i by (rule same_graph_start [OF sg])
  have c': "cfg_ok ?ops ?bs'" by (rule same_graph_cfg_ok [OF sg c])
  have s: "\<forall>k < ?n. \<exists>ns. block_starts (?ops ! k) k = Some ns \<and> (\<forall>n \<in> set ns. is_start ?bs n)" using so by (simp add: starts_ok_def)
  have ed: "edges ?bs' = edges ?bs" by (rule same_graph_edges [OF sg])
  have root: "b < ?n" if "b \<in> set (roots cfg oa1)" for b
    using that cfg_okD(2) [OF c] regions_okD(2,4) [OF t] unfolding roots_def kp(3-5) ct kp(1) by auto
  have at: "access (?bs' ! b)" if "b \<in> set (roots cfg oa1)" for b using ac [of b] root [OF that] that by force
  have inside: "b < ?n" if "(r, b) \<in> (edges ?bs)\<^sup>*" "r < ?n" for r b
    using that by (induction rule: rtrancl_induct) (use edges_inside [OF c ok s] in blast)+
  have "access (?bs' ! y) \<and> y < ?n" if e: "(x, y) \<in> edges ?bs" and a: "access (?bs' ! x)" for x y
  proof -
    have x: "x < ?n" and y: "y < ?n" using edges_start [OF c s e] edges_inside [OF c ok s e] by blast+
    obtain r where "r \<in> set (roots cfg oa1)" "(r, x) \<in> (edges ?bs)\<^sup>*" using ac [of x] x a by auto
    then have "(r, y) \<in> (edges ?bs)\<^sup>*" using e by simp
    then show ?thesis using ac [of y] y \<open>r \<in> set (roots cfg oa1)\<close> by auto
  qed
  moreover have "access (?bs' ! 0)" by (rule at) (simp add: roots_def)
  moreover have "\<not> access (?bs' ! (?n + 1))" using ac [of "?n + 1"] inside root by fastforce
  ultimately show "graph_ready ?ops ?bs'" using c' s unfolding graph_ready_def st ed by blast
  show "code_ok ?ops ?bs'" using ok unfolding code_ok_def st .
  show "tables_ok ?ops ?bs' (try_catch_array oa) (brk_cont_array oa1)"
    unfolding tables_ok_def
  proof (intro conjI ballI)
    show "sorted (map try_op (try_catch_array oa))" by (rule regions_okD(1) [OF t])
    show "access (?bs' ! catch_op x)" if "x \<in> set (try_catch_array oa)" for x
      by (rule at) (use that in \<open>auto simp: roots_def ct kp(1) in_set_conv_nth\<close>)
    show "\<forall>p. live_at ?ops ?bs' p \<longrightarrow> try_op x \<le> p \<longrightarrow> p < catch_op x \<longrightarrow> access (?bs' ! try_op x)" if "x \<in> set (try_catch_array oa)" for x
      using regions_okD(3) [OF t that] by blast
    show "access (?bs' ! p)" if "b \<in> set (brk_cont_array oa1)" "p \<in> {nat (bc_start b), nat (bc_cont b), nat (bc_brk b)}" for b p
      by (rule at) (use that in \<open>auto simp: roots_def kp in_set_conv_nth\<close>)
    show "is_start ?bs' p" if "b \<in> set (brk_cont_array oa1)" "p \<in> {nat (bc_start b), nat (bc_cont b), nat (bc_brk b)}" for b p
      using that ks [of b] by (auto simp: st kp(1))
    show "p < ?n" if "b \<in> set (brk_cont_array oa1)" "p \<in> {nat (bc_start b), nat (bc_cont b), nat (bc_brk b)}" for b p
      using that regions_okD(4) [OF t that(1)] by auto
  qed (use ts regions_okD(2) [OF t] in \<open>simp_all add: st\<close>)
  show "cfg' = cfg\<lparr>blocks := ?bs'\<rparr>" by (rule cf)
qed

text \<open>C35. Splitting code into blocks, marking those that can be reached and assembling them gives code that is
  not longer and behaves as before, for all handlers that read only the constants of their own
  instruction. Conditions: the code has no finally blocks, does not begin with a JMP, and ends with an
  instruction that leaves it, which is no THROW (\<open>code_ok\<close>); the jumps and the tables lead into the code
  and the try table is sorted; where code of a try region can be reached, so can the start of the region
  (\<open>regions_ok\<close>; the lemma \<open>goto_into_try_not_caught\<close> shows what happens otherwise); no two instructions
  share a literal.
\<close>

theorem dead_code_removal_correct:
  assumes f: "find_code_blocks oa = Some (Some (oa1, cfg))" and r: "zend_rebuild_access_path cfg oa1 False = Some cfg'"
    and n: "opcodes oa \<noteq> []" and ok: "code_ok (opcodes oa) (blocks cfg)" and th: "opcode (last (opcodes oa)) \<noteq> ZEND_THROW"
    and t: "regions_ok (opcodes oa) (blocks cfg') (try_catch_array oa) (brk_cont_array oa1)"
    and H: "handlers_private H (owned_by (opcodes oa))" "unshared (opcodes oa)" "\<And>L. flow_ok (H L)"
  shows "\<exists>oa'. assemble_code_blocks cfg' oa1 = Some oa' \<and> last_op oa' \<le> last_op oa
    \<and> (\<forall>s r. runs H oa' 0 s r \<longleftrightarrow> runs H oa 0 s r)"
proof -
  let ?bs = "blocks cfg'"
  note rd = rebuilt_ready [OF f r n ok t]
  have fd: "found oa oa1 cfg" by (rule find_code_blocks_found [OF f n])
  then obtain kept where kp: "oa1 = oa\<lparr>brk_cont_array := kept\<rparr>"
    "loop_start cfg = map (\<lambda>b. nat (bc_start b)) kept" "loop_cont cfg = map (\<lambda>b. nat (bc_cont b)) kept"
    "loop_brk cfg = map (\<lambda>b. nat (bc_brk b)) kept" unfolding found_def by blast
  have o1: "opcodes oa1 = opcodes oa" "try_catch_array oa1 = try_catch_array oa" "literals oa1 = literals oa" by (simp_all add: kp(1))
  have keeps: "cfg_try cfg' = cfg_try cfg" "cfg_catch cfg' = cfg_catch cfg" "loop_start cfg' = loop_start cfg"
    "loop_cont cfg' = loop_cont cfg" "loop_brk cfg' = loop_brk cfg" by (subst rd(4), simp)+
  have cf: "cfg_try cfg' = map try_op (try_catch_array oa1)" "cfg_catch cfg' = map catch_op (try_catch_array oa1)"
    "loop_start cfg' = map (\<lambda>b. nat (bc_start b)) (brk_cont_array oa1)" "loop_cont cfg' = map (\<lambda>b. nat (bc_cont b)) (brk_cont_array oa1)"
    "loop_brk cfg' = map (\<lambda>b. nat (bc_brk b)) (brk_cont_array oa1)" using fd kp unfolding keeps by (simp_all add: found_def)
  note rd' = rd(1-3) [folded o1(1,2)]
  have th': "opcode (opcodes oa1 ! (last_op oa1 - 1)) \<noteq> ZEND_THROW" using th n by (simp add: o1 last_conv_nth)
  obtain oa' where as: "assemble_code_blocks cfg' oa1 = Some oa'" "assembled (opcodes oa1) ?bs oa1 oa'"
    using assemble_code_blocks_ok [OF rd'(1,2) th' rd'(3) cf] by blast
  note c = graph_readyD(1) [OF rd(1)]
  have lit: "H (literals oa') (blank (opcodes oa1 ! p)) s = H (literals oa1) (blank (opcodes oa1 ! p)) s" if k: "keep_at (opcodes oa1) ?bs p" for p s
    using private_written [OF H(1) assembledD(5) [OF as(2)]] dead_literals_owned dead_literals_other [OF H(2) c] k unfolding o1(1) by blast
  have "live_at (opcodes oa1) ?bs 0" using keep_live [OF keep_first(1) [OF rd'(1,2)]] .
  then have "vm_run (H (literals oa')) oa' (npos (opcodes oa1) ?bs 0) s r \<longleftrightarrow> vm_run (H (literals oa1)) oa1 0 s r" for s r
    using runs_moved [OF rd'(1,2,3) as(2) lit H(3)] by blast
  then have "runs H oa' 0 s r \<longleftrightarrow> runs H oa1 0 s r" for s r using keep_first(2) [OF rd'(1,2)] by (simp add: runs_def)
  moreover have "runs H oa1 0 s r \<longleftrightarrow> runs H oa 0 s r" for s r
  proof -
    have "\<forall>p < last_op oa. block_starts (opcodes oa ! p) p \<noteq> None" using graph_readyD(5) [OF rd(1)] by fastforce
    then show ?thesis using loops_unused [of "H (literals oa)" oa kept s r, OF H(3)] by (simp add: runs_def kp(1))
  qed
  ultimately show ?thesis using as(1) assembledD(1) [OF as(2)] o1(1) by auto
qed

section \<open>Examples\<close>

text \<open>Handlers that append what is printed to the state; from the fifth text on an ECHO fails.\<close>

definition demo_echo :: "(unit, unit zval list) lit_handlers" where
  "demo_echo L o1 s =
     (if opcode o1 = ZEND_ECHO
      then (if op_ty (op1 o1) = IS_CONST then s @ [lit_constant (L ! num (op1 o1))] else s, if length s < 5 then Next else Raise)
      else if opcode o1 = ZEND_THROW then (s, Raise)
      else if opcode o1 \<in> insert ZEND_JMPZNZ returning then (s, Leave)
      else if opcode o1 = ZEND_JMPZ then (s, if s = [] then To_Op2 else Next)
      else (s, Next))"

lemma demo_echo_private: "handlers_private demo_echo N"
  unfolding handlers_private_def
proof (intro allI impI)
  fix L :: "unit zend_literal list" and n l o1 and s :: "unit zval list"
  assume n: "n \<notin> owned o1"
  have "n \<noteq> num (op1 o1)" if "op_ty (op1 o1) = IS_CONST" using n that by (auto simp: owned_def)
  moreover have "op1 (blank o1) = op1 o1" if "opcode o1 = ZEND_ECHO" using that by (simp add: blank_def jumps_op1_def)
  ultimately show "demo_echo (L[n := l]) (blank o1) s = demo_echo L (blank o1) s" by (simp add: demo_echo_def opcode_blank)
qed

lemma demo_echo_flow: "flow_ok (demo_echo L)"
  by (auto simp: flow_ok_def demo_echo_def returning_def)

lemma demo_try_code: "code_ok (opcodes demo_try) (blocks demo_cfg)"
proof -
  have "list_all (\<lambda>p. opcode (opcodes demo_try ! p) \<notin> {ZEND_FAST_CALL, ZEND_FAST_RET, ZEND_OP_DATA, ZEND_FE_FETCH}
      \<and> (jumps_op1 (opcode (opcodes demo_try ! p)) \<longrightarrow> num (op1 (opcodes demo_try ! p)) < 9) \<and> (jumps_op2 (opcode (opcodes demo_try ! p)) \<longrightarrow> num (op2 (opcodes demo_try ! p)) < 9)
      \<and> (jumps_ext (opcode (opcodes demo_try ! p)) \<longrightarrow> extended_value (opcodes demo_try ! p) < 9)) [0..<9]"
    "opcode (opcodes demo_try ! 8) \<in> returning" "opcode (opcodes demo_try ! 0) \<noteq> ZEND_JMP"
    by code_simp+
  then show ?thesis by (simp add: code_ok_def demo_try_size(1) list_all_iff)
qed

lemma demo_try_unshared: "unshared (opcodes demo_try)"
proof -
  have c: "owned o1 = (if op_ty (op1 o1) = IS_CONST then {num (op1 o1)} else {}) \<union> (if op_ty (op2 o1) = IS_CONST then {num (op2 o1)} else {})" for o1
    by (auto simp: owned_def)
  have "map owned (opcodes demo_try) = [{}, {0}, {}, {}, {}, {1}, {2}, {3}, {4}]"
    by (simp add: c demo_try_def code_of_def plain_def node_def unused_node_def)
  then show ?thesis by (auto simp: demo_try_def code_of_def unshared_def All_less_Suc eval_nat_numeral)
qed

theorem dead_code_removal_correct_witness:
  "\<exists>cfg' oa'. zend_rebuild_access_path demo_cfg demo_try False = Some cfg' \<and> assemble_code_blocks cfg' demo_try = Some oa'
     \<and> map opcode (opcodes oa') = [ZEND_JMPZ, ZEND_ECHO, ZEND_JMP, ZEND_CATCH, ZEND_ECHO, ZEND_RETURN]
     \<and> map catch_op (try_catch_array oa') = [3]
     \<and> (\<forall>s r. runs demo_echo oa' 0 s r \<longleftrightarrow> runs demo_echo demo_try 0 s r)"
proof -
  have "case zend_rebuild_access_path demo_cfg demo_try False of
      Some cfg' \<Rightarrow> access (blocks cfg' ! 1)
        \<and> (case assemble_code_blocks cfg' demo_try of
             Some oa' \<Rightarrow> map opcode (opcodes oa') = [ZEND_JMPZ, ZEND_ECHO, ZEND_JMP, ZEND_CATCH, ZEND_ECHO, ZEND_RETURN]
               \<and> map catch_op (try_catch_array oa') = [3]
           | None \<Rightarrow> False)
    | None \<Rightarrow> False" by code_simp
  then obtain cfg' oa' where c: "zend_rebuild_access_path demo_cfg demo_try False = Some cfg'" "access (blocks cfg' ! 1)"
    "assemble_code_blocks cfg' demo_try = Some oa'" "map opcode (opcodes oa') = [ZEND_JMPZ, ZEND_ECHO, ZEND_JMP, ZEND_CATCH, ZEND_ECHO, ZEND_RETURN]"
    "map catch_op (try_catch_array oa') = [3]" by (auto split: option.splits)
  have t: "try_catch_array demo_try = [\<lparr>try_op = 1, catch_op = 4, finally_op = 0, finally_end = 0\<rparr>]" "brk_cont_array demo_try = []"
    by (simp_all add: demo_try_def code_of_def)
  have r: "regions_ok (opcodes demo_try) (blocks cfg') (try_catch_array demo_try) (brk_cont_array demo_try)"
    using c(2) by (simp add: regions_ok_def t demo_try_size(1))
  have l: "opcode (last (opcodes demo_try)) \<noteq> ZEND_THROW" by (simp add: demo_try_def code_of_def plain_def)
  have "\<forall>s r. runs demo_echo oa' 0 s r \<longleftrightarrow> runs demo_echo demo_try 0 s r"
    using dead_code_removal_correct [OF demo_try_found c(1) demo_try_size(2) demo_try_code l r demo_echo_private demo_try_unshared demo_echo_flow] c(3) by auto
  then show ?thesis using c(1,3,4,5) by (intro exI [of _ cfg'] exI [of _ oa'] conjI)
qed

text \<open>Code with a jump over the start of a try region, and what becomes of it.\<close>

definition demo_goto :: "unit zend_op_array" where
  "demo_goto = (code_of
     [(plain ZEND_ECHO)\<lparr>op1 := node IS_CONST 0\<rparr>,
      (plain ZEND_JMP)\<lparr>op1 := node IS_UNUSED 3\<rparr>,
      (plain ZEND_ECHO)\<lparr>op1 := node IS_CONST 1\<rparr>,
      plain ZEND_THROW,
      (plain ZEND_CATCH)\<lparr>extended_value := 6\<rparr>,
      (plain ZEND_ECHO)\<lparr>op1 := node IS_CONST 2\<rparr>,
      plain ZEND_RETURN]
     [ZSTRING ''x'', ZSTRING ''a'', ZSTRING ''b''])
   \<lparr>try_catch_array := [\<lparr>try_op = 2, catch_op = 4, finally_op = 0, finally_end = 0\<rparr>]\<rparr>"

definition demo_goto_new :: "unit zend_op_array" where
  "demo_goto_new = code_of
     [(plain ZEND_ECHO)\<lparr>op1 := node IS_CONST 0\<rparr>,
      plain ZEND_THROW,
      (plain ZEND_CATCH)\<lparr>extended_value := 4\<rparr>,
      (plain ZEND_ECHO)\<lparr>op1 := node IS_CONST 2\<rparr>,
      plain ZEND_RETURN]
     [ZSTRING ''x'', ZNULL, ZSTRING ''b'']"

text \<open>A \<open>goto\<close> into a try region: the start of the region cannot be reached, so the region loses its
  catch block, and an exception that was caught is not caught any more.
\<close>

theorem goto_into_try_not_caught:
  "\<exists>oa1 cfg cfg'. find_code_blocks demo_goto = Some (Some (oa1, cfg)) \<and> zend_rebuild_access_path cfg oa1 False = Some cfg'
     \<and> assemble_code_blocks cfg' oa1 = Some demo_goto_new
     \<and> runs demo_echo demo_goto 0 [] (Left [ZSTRING ''x'', ZSTRING ''b''])
     \<and> runs demo_echo demo_goto_new 0 [] (Uncaught [ZSTRING ''x''])"
proof -
  have "case find_code_blocks demo_goto of
      Some (Some (oa1, cfg)) \<Rightarrow> (case zend_rebuild_access_path cfg oa1 False of
          Some cfg' \<Rightarrow> assemble_code_blocks cfg' oa1 = Some demo_goto_new | None \<Rightarrow> False)
    | _ \<Rightarrow> False" by code_simp
  then obtain oa1 cfg cfg' where a: "find_code_blocks demo_goto = Some (Some (oa1, cfg))" "zend_rebuild_access_path cfg oa1 False = Some cfg'"
    "assemble_code_blocks cfg' oa1 = Some demo_goto_new" by (auto split: option.splits)
  note defs = vm_step_def resume_def demo_echo_def blank_def jumps_op1_def jumps_op2_def jumps_ext_def links_result_def
    returning_def code_of_def plain_def node_def unused_node_def Let_def
  have "runs demo_echo demo_goto 0 [] (Left [ZSTRING ''x'', ZSTRING ''b''])"
    unfolding runs_def by (subst vm_run_unfold, simp add: defs demo_goto_def)+
  moreover have "runs demo_echo demo_goto_new 0 [] (Uncaught [ZSTRING ''x''])"
    unfolding runs_def by (subst vm_run_unfold, simp add: defs demo_goto_new_def)+
  ultimately show ?thesis using a by blast
qed

end
