(* ===== verification/Block_Jumps.thy ===== *)
theory Block_Jumps
  imports Blocks Pass1 Temp_Vars
begin

text \<open>
  Jumps between the blocks of pass 5 (\<open>Optimizer/block_pass.c\<close>): keeping the references to
  predecessors, joining a block with its only predecessor, leaving blocks of NOPs out
  (\<open>strip_nop\<close>), and \<open>zend_jmp_optimization\<close>, which lets jumps and conditional jumps at the end
  of a block skip the jumps they lead to.

  The state is the code with the array of blocks. \<open>None\<close> is an access through a null pointer or
  outside of the code, and a loop that does not end. The numbers of temporaries are assumed to be
  below the size of the array \<open>same_t\<close> where it is read.
\<close>

record 'x cfg_state =
  cs_code :: "'x zend_op_array"
  cs_blocks :: "zend_code_block list"

abbreviation cs_ops :: "'x cfg_state \<Rightarrow> zend_op list" where
  "cs_ops S \<equiv> opcodes (cs_code S)"

abbreviation blk :: "'x cfg_state \<Rightarrow> nat \<Rightarrow> zend_code_block" where
  "blk S b \<equiv> cs_blocks S ! b"

definition set_blk :: "nat \<Rightarrow> (zend_code_block \<Rightarrow> zend_code_block) \<Rightarrow> 'x cfg_state \<Rightarrow> 'x cfg_state" where
  "set_blk b f S = S\<lparr>cs_blocks := upd_block b f (cs_blocks S)\<rparr>"

definition set_op :: "nat \<Rightarrow> (zend_op \<Rightarrow> zend_op) \<Rightarrow> 'x cfg_state \<Rightarrow> 'x cfg_state" where
  "set_op k f S = S\<lparr>cs_code := upd_op k f (cs_code S)\<rparr>"

definition code_pos :: "zend_code_block \<Rightarrow> nat option" where
  "code_pos b = (case start_opline b of In_Code k \<Rightarrow> Some k | _ \<Rightarrow> None)"

section \<open>References to predecessors\<close>

text \<open>The loop of \<open>replace_source\<close>: after a reference is deleted, the next one is not looked at, and
  the end of the list is read through.\<close>

fun replace_from :: "nat \<Rightarrow> nat \<Rightarrow> bool \<Rightarrow> nat list \<Rightarrow> nat list option" where
  "replace_from old new found [] = Some []"
| "replace_from old new found [x] =
     (if x = new \<and> found then None
      else if x = old then if found \<or> x = new then None else Some [new]
      else Some [x])"
| "replace_from old new found (x # y # ys) =
     (if x = new \<and> found
      then if y = old then (case ys of [] \<Rightarrow> None | z # zs \<Rightarrow> do { r \<leftarrow> replace_from old new True zs; Some (z # r) })
           else do { r \<leftarrow> replace_from old new True ys; Some (y # r) }
      else if x = old
      then if found \<or> x = new then do { r \<leftarrow> replace_from old new True ys; Some (y # r) }
           else do { r \<leftarrow> replace_from old new True (y # ys); Some (new # r) }
      else do { r \<leftarrow> replace_from old new (found \<or> x = new) (y # ys); Some (x # r) })"

text \<open>The head of the list is passed by value: the caller would keep a freed reference.\<close>

definition replace_source :: "nat list \<Rightarrow> nat \<Rightarrow> nat \<Rightarrow> nat list option" where
  "replace_source l old new = (if old = new \<and> l \<noteq> [] \<and> hd l = new then None else replace_from old new False l)"

definition replace_in :: "nat option \<Rightarrow> nat \<Rightarrow> nat \<Rightarrow> 'x cfg_state \<Rightarrow> 'x cfg_state option" where
  "replace_in t old new S =
     (case t of
        None \<Rightarrow> Some S
      | Some x \<Rightarrow> if x < length (cs_blocks S)
                  then do { l \<leftarrow> replace_source (sources (blk S x)) old new; Some (set_blk x (\<lambda>b. b\<lparr>sources := l\<rparr>) S) }
                  else None)"

text \<open>\<open>memmove\<close> of \<open>n\<close> instructions from \<open>p\<close> to \<open>q\<close>.\<close>

definition move_code :: "nat \<Rightarrow> nat \<Rightarrow> nat \<Rightarrow> zend_op list \<Rightarrow> zend_op list option" where
  "move_code q p n ops =
     (if q = p then Some ops
      else if q + n \<le> length ops \<and> p + n \<le> length ops then Some (take q ops @ take n (drop p ops) @ drop (q + n) ops)
      else None)"

text \<open>Block \<open>to\<close> follows its only predecessor \<open>fb\<close> and becomes a part of it.\<close>

definition join_blocks :: "nat \<Rightarrow> nat \<Rightarrow> 'x cfg_state \<Rightarrow> 'x cfg_state option" where
  "join_blocks to fb S =
     do { s \<leftarrow> code_pos (blk S fb);
          p \<leftarrow> code_pos (blk S to);
          let t = blk S to;
          ops \<leftarrow> move_code (s + block_len (blk S fb)) p (block_len t) (cs_ops S);
          let S1 = S\<lparr>cs_code := (cs_code S)\<lparr>opcodes := ops\<rparr>\<rparr>;
          let S2 = set_blk fb (\<lambda>b. b\<lparr>block_len := block_len b + block_len t\<rparr>) S1;
          let S3 = set_blk to (\<lambda>b. b\<lparr>start_opline := Null, access := False, sources := []\<rparr>) S2;
          let S4 = set_blk fb (\<lambda>b. b\<lparr>follow_to := follow_to t\<rparr>) S3;
          S5 \<leftarrow> (if op1_to t = None then Some S4 else replace_in (op1_to t) to fb (set_blk fb (\<lambda>b. b\<lparr>op1_to := op1_to t\<rparr>) S4));
          S6 \<leftarrow> (if op2_to t = None then Some S5 else replace_in (op2_to t) to fb (set_blk fb (\<lambda>b. b\<lparr>op2_to := op2_to t\<rparr>) S5));
          S7 \<leftarrow> (if ext_to t = None then Some S6 else replace_in (ext_to t) to fb (set_blk fb (\<lambda>b. b\<lparr>ext_to := ext_to t\<rparr>) S6));
          replace_in (follow_to t) to fb S7 }"

definition del_source :: "nat \<Rightarrow> nat option \<Rightarrow> 'x cfg_state \<Rightarrow> 'x cfg_state option" where
  "del_source from_b tob S =
     (case tob of
        None \<Rightarrow> None
      | Some to \<Rightarrow>
          if \<not> to < length (cs_blocks S) then None
          else let S1 = set_blk to (\<lambda>b. b\<lparr>sources := remove1 from_b (sources b)\<rparr>) S in
          (case sources (blk S1 to) of
             [] \<Rightarrow> Some (set_blk to (\<lambda>b. b\<lparr>access := False\<rparr>) S1)
           | [fb] \<Rightarrow>
               if \<not> protected (blk S1 to) \<and> access (blk S1 fb) \<and> follow_to (blk S1 fb) = Some to
                  \<and> op1_to (blk S1 fb) = None \<and> op2_to (blk S1 fb) = None \<and> ext_to (blk S1 fb) = None
               then join_blocks to fb S1 else Some S1
           | _ \<Rightarrow> Some S1))"

definition add_source :: "nat \<Rightarrow> nat option \<Rightarrow> 'x cfg_state \<Rightarrow> 'x cfg_state option" where
  "add_source b to S =
     (case to of
        None \<Rightarrow> None
      | Some t \<Rightarrow> if t < length (cs_blocks S) then Some (S\<lparr>cs_blocks := ADD_SOURCE b t (cs_blocks S)\<rparr>) else None)"

text \<open>The targets of \<open>fb\<close> that are \<open>block\<close> become \<open>to\<close>.\<close>

definition bypass :: "nat \<Rightarrow> nat \<Rightarrow> nat \<Rightarrow> zend_code_block list \<Rightarrow> zend_code_block list" where
  "bypass block to fb bs =
     (let bs1 = (if op1_to (bs ! fb) = Some block then ADD_SOURCE fb to (upd_block fb (\<lambda>b. b\<lparr>op1_to := Some to\<rparr>) bs) else bs);
          bs2 = (if op2_to (bs1 ! fb) = Some block then ADD_SOURCE fb to (upd_block fb (\<lambda>b. b\<lparr>op2_to := Some to\<rparr>) bs1) else bs1);
          bs3 = (if ext_to (bs2 ! fb) = Some block then ADD_SOURCE fb to (upd_block fb (\<lambda>b. b\<lparr>ext_to := Some to\<rparr>) bs2) else bs2)
      in if follow_to (bs3 ! fb) = Some block then ADD_SOURCE fb to (upd_block fb (\<lambda>b. b\<lparr>follow_to := Some to\<rparr>) bs3) else bs3)"

definition delete_code_block :: "nat \<Rightarrow> 'x cfg_state \<Rightarrow> 'x cfg_state" where
  "delete_code_block block S =
     (if protected (blk S block) then S
      else let S1 = (case follow_to (blk S block) of
                       None \<Rightarrow> S
                     | Some to \<Rightarrow> S\<lparr>cs_blocks := fold (bypass block to) (sources (blk S block)) (cs_blocks S)\<rparr>)
           in set_blk block (\<lambda>b. b\<lparr>access := False\<rparr>) S1)"

section \<open>\<open>strip_nop\<close>\<close>

text \<open>The NOPs at the start of a block of \<open>n\<close> instructions; \<open>True\<close> when the block is all NOPs.\<close>

fun strip_leading :: "nat \<Rightarrow> nat \<Rightarrow> 'x cfg_state \<Rightarrow> (bool \<times> 'x cfg_state) option" where
  "strip_leading b 0 S = Some (False, S)"
| "strip_leading b (Suc n) S =
     do { k \<leftarrow> code_pos (blk S b);
          if \<not> k < length (cs_ops S) then None
          else if opcode (cs_ops S ! k) \<noteq> ZEND_NOP then Some (False, S)
          else if n = 0 then Some (True, if follow_to (blk S b) = None then S else delete_code_block b S)
          else strip_leading b n (set_blk b (\<lambda>x. x\<lparr>start_opline := In_Code (Suc k), start_opline_no := Suc (start_opline_no x), block_len := n\<rparr>) S) }"

definition strip_inside :: "nat \<Rightarrow> 'x cfg_state \<Rightarrow> 'x cfg_state option" where
  "strip_inside b S =
     (let n = block_len (blk S b) in
      if n = 0 then Some S
      else do { k \<leftarrow> code_pos (blk S b);
                if length (cs_ops S) < k + n then None
                else let new = filter (\<lambda>o1. opcode o1 \<noteq> ZEND_NOP) (take n (drop k (cs_ops S)))
                     in Some (set_blk b (\<lambda>x. x\<lparr>block_len := length new\<rparr>)
                          (S\<lparr>cs_code := (cs_code S)\<lparr>opcodes := take k (cs_ops S) @ new @ drop (k + length new) (cs_ops S)\<rparr>\<rparr>)) })"

definition strip_nop :: "nat \<Rightarrow> 'x cfg_state \<Rightarrow> 'x cfg_state option" where
  "strip_nop b S =
     do { (all, S1) \<leftarrow> strip_leading b (block_len (blk S b)) S;
          if all then Some S1 else strip_inside b S1 }"

section \<open>Looking at the target of a jump\<close>

text \<open>The first instruction of a block that is not a NOP.\<close>

definition first_op :: "zend_op list \<Rightarrow> zend_code_block \<Rightarrow> nat option option" where
  "first_op ops b =
     (if block_len b = 0 then Some None
      else do { s \<leftarrow> code_pos b;
                if length ops < s + block_len b then None
                else Some (find (\<lambda>p. opcode (ops ! p) \<noteq> ZEND_NOP) [s..<s + block_len b]) })"

text \<open>The loop \<open>next_target\<close>: the first block with an instruction, and this instruction.\<close>

partial_function (option) next_target :: "zend_op list \<Rightarrow> zend_code_block list \<Rightarrow> nat option \<Rightarrow> (nat \<times> nat) option" where
  "next_target ops bs tb =
     (case tb of
        None \<Rightarrow> None
      | Some t \<Rightarrow>
          if \<not> t < length bs then None
          else do { f \<leftarrow> first_op ops (bs ! t);
                    case f of Some p \<Rightarrow> Some (t, p) | None \<Rightarrow> next_target ops bs (follow_to (bs ! t)) })"

definition VAR_NUM_EX :: "var_enc \<Rightarrow> znode \<Rightarrow> nat" where
  "VAR_NUM_EX E z = (if is_temp z then VAR_NUM E (num z) else num z)"

text \<open>The first operand \<open>z\<close> of a jump tests the variable \<open>v\<close> of the type of \<open>x\<close>.\<close>

definition tests_var :: "var_enc \<Rightarrow> znode \<Rightarrow> nat \<Rightarrow> znode \<Rightarrow> bool" where
  "tests_var E x v z \<longleftrightarrow> op_ty z \<in> {IS_TMP_VAR, IS_CV} \<and> op_ty x = op_ty z \<and> ext_unused x = ext_unused z \<and> v = VAR_NUM_EX E z"

text \<open>\<open>op2_to\<close> becomes what \<open>g\<close> reads after the old target has lost its reference.\<close>

definition retarget2 :: "nat \<Rightarrow> ('x cfg_state \<Rightarrow> nat option) \<Rightarrow> 'x cfg_state \<Rightarrow> 'x cfg_state option" where
  "retarget2 b g S =
     do { S1 \<leftarrow> del_source b (op2_to (blk S b)) S;
          let t = g S1;
          add_source b t (set_blk b (\<lambda>x. x\<lparr>op2_to := t\<rparr>) S1) }"

definition copy_literal :: "nat \<Rightarrow> 'x cfg_state \<Rightarrow> 'x cfg_state" where
  "copy_literal k S =
     (let z = op1 (cs_ops S ! k) in
      if op_ty z = IS_CONST
      then (let (n, oa) = zend_optimizer_add_literal (lit (cs_code S) z) (cs_code S)
            in set_op k (\<lambda>x. x\<lparr>op1 := (op1 x)\<lparr>num := n\<rparr>\<rparr>) (S\<lparr>cs_code := oa\<rparr>))
      else S)"

section \<open>\<open>zend_jmp_optimization\<close>\<close>

text \<open>A block that ends with a JMP, at \<open>k\<close>.\<close>

definition jmp_case :: "nat \<Rightarrow> nat \<Rightarrow> 'x cfg_state \<Rightarrow> 'x cfg_state option" where
  "jmp_case b k S =
     (case op1_to (blk S b) of
        None \<Rightarrow> None
      | Some t \<Rightarrow>
          if \<not> t < length (cs_blocks S) then None
          else do {
            nx \<leftarrow> next_accessed (cs_blocks S) (next_block (blk S b));
            if nx = Some t
            then (let S1 = set_blk b (\<lambda>x. x\<lparr>follow_to := op1_to x, op1_to := None\<rparr>) S;
                      S2 = set_blk b (\<lambda>x. x\<lparr>block_len := block_len x - 1\<rparr>) (set_op k MAKE_NOP S1)
                  in Some (if block_len (blk S2 b) = 0 then delete_code_block b S2 else S2))
            else do {
              p \<leftarrow> code_pos (blk S t);
              if \<not> p < length (cs_ops S) then None
              else let target = cs_ops S ! p in
                if (opcode target = ZEND_JMP \<and> op1_to (blk S b) \<noteq> op1_to (blk S t) \<or> opcode target = ZEND_JMPZNZ) \<and> \<not> protected (blk S t)
                then do {
                  S1 \<leftarrow> del_source b (Some t) (copy_literal k (set_op k (\<lambda>_. target) S));
                  S2 \<leftarrow> (if op2_to (blk S1 t) = None then Some S1
                         else add_source b (op2_to (blk S1 t)) (set_blk b (\<lambda>x. x\<lparr>op2_to := op2_to (blk S1 t)\<rparr>) S1));
                  S3 \<leftarrow> (if ext_to (blk S2 t) = None then Some S2
                         else add_source b (ext_to (blk S2 t)) (set_blk b (\<lambda>x. x\<lparr>ext_to := ext_to (blk S2 t)\<rparr>) S2));
                  let S4 = set_blk b (\<lambda>x. x\<lparr>op1_to := op1_to (blk S3 t)\<rparr>) S3;
                  if op1_to (blk S3 t) = None then Some S4 else add_source b (op1_to (blk S3 t)) S4 }
                else if opcode target \<in> {ZEND_RETURN, ZEND_RETURN_BY_REF, ZEND_FAST_RET, ZEND_EXIT}
                then do {
                  S1 \<leftarrow> del_source b (Some t) (copy_literal k (set_op k (\<lambda>_. target) S));
                  Some (set_blk b (\<lambda>x. x\<lparr>op1_to := None\<rparr>) S1) }
                else Some S } })"

text \<open>A conditional jump on a constant.\<close>

definition const_cond :: "'x engine \<Rightarrow> nat \<Rightarrow> nat \<Rightarrow> 'x cfg_state \<Rightarrow> 'x cfg_state option" where
  "const_cond en b k S =
     (let o1 = cs_ops S ! k;
          v = is_true en (lit (cs_code S) (op1 o1));
          should_jmp = (if opcode o1 = ZEND_JMPZ then \<not> v else v);
          S1 = set_op k (\<lambda>x. x\<lparr>op1 := SET_UNUSED (op1 x)\<rparr>) (S\<lparr>cs_code := literal_dtor (op1 o1) (cs_code S)\<rparr>)
      in if should_jmp
         then do {
           let S2 = set_blk b (\<lambda>x. x\<lparr>op1_to := op2_to x\<rparr>) (set_op k (\<lambda>x. x\<lparr>opcode := ZEND_JMP, op1 := op2 x\<rparr>) S1);
           S3 \<leftarrow> del_source b (follow_to (blk S2 b)) S2;
           Some (set_blk b (\<lambda>x. x\<lparr>op2_to := None, follow_to := None\<rparr>) S3) }
         else do {
           S3 \<leftarrow> del_source b (op2_to (blk S1 b)) (set_op k MAKE_NOP S1);
           Some (set_blk b (\<lambda>x. x\<lparr>op2_to := None\<rparr>) S3) })"

text \<open>JMPZ and JMPNZ skip tests of the same variable and jumps.\<close>

definition thread_cond :: "var_enc \<Rightarrow> nat \<Rightarrow> nat \<Rightarrow> 'x cfg_state \<Rightarrow> 'x cfg_state option" where
  "thread_cond E b k S =
     (if op2_to (blk S b) = None then Some S
      else do {
        let o1 = cs_ops S ! k;
        (t, p) \<leftarrow> next_target (cs_ops S) (cs_blocks S) (op2_to (blk S b));
        let target = cs_ops S ! p; let tb = blk S t; let same = tests_var E (op1 o1) (VAR_NUM_EX E (op1 o1)) (op1 target);
        if opcode target = INV_COND (opcode o1) \<and> same \<and> follow_to tb \<noteq> None \<and> \<not> protected tb
        then retarget2 b (\<lambda>S. follow_to (blk S t)) S
        else if opcode target = INV_COND_EX (opcode o1) \<and> same \<and> follow_to tb \<noteq> None \<and> \<not> protected tb
        then retarget2 b (\<lambda>S. follow_to (blk S t))
               (set_op k (\<lambda>x. x\<lparr>opcode := opcode x + 3, result := (result x)\<lparr>num := num (result target)\<rparr>\<rparr>) S)
        else if op2_to tb \<noteq> None \<and> opcode target = opcode o1 \<and> same \<and> \<not> protected tb
        then retarget2 b (\<lambda>S. op2_to (blk S t)) S
        else if op1_to tb \<noteq> None \<and> opcode target = ZEND_JMP \<and> \<not> protected tb
        then retarget2 b (\<lambda>S. op1_to (blk S t)) S
        else if op2_to tb \<noteq> None \<and> ext_to tb \<noteq> None \<and> opcode target = ZEND_JMPZNZ \<and> same \<and> \<not> protected tb
        then retarget2 b (\<lambda>S. if opcode o1 = ZEND_JMPZ then op2_to (blk S t) else ext_to (blk S t)) S
        else Some S })"

text \<open>The block that follows is skipped while it is all NOPs; the result has the position of the
  instruction that is found.\<close>

partial_function (option) skip_follow :: "nat \<Rightarrow> 'x cfg_state \<Rightarrow> (nat \<times> 'x cfg_state) option" where
  "skip_follow b S =
     (case follow_to (blk S b) of
        None \<Rightarrow> None
      | Some t \<Rightarrow>
          if \<not> t < length (cs_blocks S) then None
          else do { f \<leftarrow> first_op (cs_ops S) (blk S t);
            case f of
              Some p \<Rightarrow> Some (p, S)
            | None \<Rightarrow>
                do { S1 \<leftarrow> del_source b (Some t) S;
                     S2 \<leftarrow> add_source b (follow_to (blk S1 t)) (set_blk b (\<lambda>x. x\<lparr>follow_to := follow_to (blk S1 t)\<rparr>) S1);
                     skip_follow b S2 } })"

text \<open>A conditional jump that is followed by a JMP becomes a JMPZNZ.\<close>

definition make_jmpznz :: "nat \<Rightarrow> nat \<Rightarrow> 'x cfg_state \<Rightarrow> 'x cfg_state option" where
  "make_jmpznz b k S =
     (if follow_to (blk S b) = None \<or> opcode (cs_ops S ! k) \<notin> {ZEND_JMPZ, ZEND_JMPNZ} then Some S
      else do {
        (p, S1) \<leftarrow> skip_follow b S;
        let t = the (follow_to (blk S1 b));
        if opcode (cs_ops S1 ! p) = ZEND_JMP \<and> op1_to (blk S1 t) \<noteq> None \<and> \<not> protected (blk S1 t)
        then do {
          S2 \<leftarrow> del_source b (Some t) S1;
          let l = op1_to (blk S2 t); let oc = opcode (cs_ops S2 ! k);
          S3 \<leftarrow> add_source b l (if oc = ZEND_JMPZ then set_blk b (\<lambda>x. x\<lparr>ext_to := l\<rparr>) S2
                               else set_blk b (\<lambda>x. x\<lparr>ext_to := op2_to x, op2_to := l\<rparr>) S2);
          Some (set_op k (\<lambda>x. x\<lparr>opcode := ZEND_JMPZNZ\<rparr>) (set_blk b (\<lambda>x. x\<lparr>follow_to := None\<rparr>) S3)) }
        else Some S1 })"

definition cond_case :: "'x engine \<Rightarrow> var_enc \<Rightarrow> nat \<Rightarrow> nat \<Rightarrow> 'x cfg_state \<Rightarrow> 'x cfg_state option" where
  "cond_case en E b k S =
     (if op_ty (op1 (cs_ops S ! k)) = IS_CONST then const_cond en b k S
      else do { S1 \<leftarrow> thread_cond E b k S; make_jmpznz b k S1 })"

text \<open>JMPZ_EX and JMPNZ_EX: the variables known to have the tested value are the operand and the result.
  The table of them has \<open>var_num\<close> entries; writing or reading it outside gives \<open>None\<close>.\<close>

definition known_var :: "var_enc \<Rightarrow> znode list \<Rightarrow> znode \<Rightarrow> bool" where
  "known_var E ks z \<longleftrightarrow> (\<exists>x \<in> set ks. VAR_NUM_EX E x = VAR_NUM_EX E z \<and> (op_ty x = op_ty z \<or> ext_unused x \<and> ext_unused z))"

definition thread_cond_ex :: "var_enc \<Rightarrow> nat \<Rightarrow> nat \<Rightarrow> 'x cfg_state \<Rightarrow> 'x cfg_state option" where
  "thread_cond_ex E b k S =
     (let o1 = cs_ops S ! k; var_num = max (T_num (cs_code S)) (length (cvars (cs_code S))) in
      if op2_to (blk S b) = None \<or> var_num = 0 then Some S
      else if \<not> VAR_NUM_EX E (op1 o1) < var_num \<or> \<not> VAR_NUM_EX E (result o1) < var_num then None
      else do {
        (t, p) \<leftarrow> next_target (cs_ops S) (cs_blocks S) (op2_to (blk S b));
        let target = cs_ops S ! p; let tb = blk S t;
        let known = (\<lambda>z. op_ty z \<in> {IS_TMP_VAR, IS_CV} \<and> known_var E [op1 o1, result o1] z);
        let sets_known = known_var E [op1 o1, result o1] (result target);
        let reads = (op_ty (op1 target) \<in> {IS_TMP_VAR, IS_CV} \<and> op2_to tb \<noteq> None
              \<and> (opcode target \<in> {opcode o1 - 3, INV_EX_COND (opcode o1), INV_EX_COND_EX (opcode o1), opcode o1}
                 \<or> ext_to tb \<noteq> None \<and> opcode target = ZEND_JMPZNZ));
        if reads \<and> (\<not> VAR_NUM_EX E (op1 target) < var_num
             \<or> opcode target \<in> {INV_EX_COND_EX (opcode o1), opcode o1} \<and> known (op1 target) \<and> \<not> VAR_NUM_EX E (result target) < var_num)
        then None
        else if op2_to tb \<noteq> None \<and> opcode target = opcode o1 - 3 \<and> known (op1 target) \<and> \<not> protected tb
        then retarget2 b (\<lambda>S. op2_to (blk S t)) S
        else if op2_to tb \<noteq> None \<and> opcode target = INV_EX_COND (opcode o1) \<and> known (op1 target) \<and> \<not> protected tb
        then retarget2 b (\<lambda>S. follow_to (blk S t)) S
        else if op2_to tb \<noteq> None \<and> opcode target = INV_EX_COND_EX (opcode o1) \<and> known (op1 target) \<and> sets_known \<and> \<not> protected tb
        then retarget2 b (\<lambda>S. follow_to (blk S t)) S
        else if op2_to tb \<noteq> None \<and> opcode target = opcode o1 \<and> known (op1 target) \<and> sets_known \<and> \<not> protected tb
        then retarget2 b (\<lambda>S. op2_to (blk S t)) S
        else if op1_to tb \<noteq> None \<and> opcode target = ZEND_JMP \<and> \<not> protected tb
        then retarget2 b (\<lambda>S. op1_to (blk S t)) S
        else if op2_to tb \<noteq> None \<and> ext_to tb \<noteq> None \<and> opcode target = ZEND_JMPZNZ \<and> known (op1 target) \<and> \<not> protected tb
        then retarget2 b (\<lambda>S. if opcode o1 = ZEND_JMPZ_EX then op2_to (blk S t) else ext_to (blk S t)) S
        else Some S })"

definition ex_case :: "'x engine \<Rightarrow> var_enc \<Rightarrow> nat \<Rightarrow> nat \<Rightarrow> 'x cfg_state \<Rightarrow> 'x cfg_state option" where
  "ex_case en E b k S =
     (let o1 = cs_ops S ! k in
      if op_ty (op1 o1) = IS_CONST
      then (let v = is_true en (lit (cs_code S) (op1 o1)); should_jmp = (if opcode o1 = ZEND_JMPZ_EX then \<not> v else v)
            in if should_jmp then Some S
               else do {
                 S1 \<leftarrow> del_source b (op2_to (blk S b)) (set_op k (\<lambda>x. x\<lparr>opcode := ZEND_QM_ASSIGN, op2 := SET_UNUSED (op2 x)\<rparr>) S);
                 Some (set_blk b (\<lambda>x. x\<lparr>op2_to := None\<rparr>) S1) })
      else thread_cond_ex E b k S)"

text \<open>JMPZNZ; the number of the variable is kept in a byte.\<close>

definition thread_znz :: "var_enc \<Rightarrow> nat \<Rightarrow> nat \<Rightarrow> 'x cfg_state \<Rightarrow> 'x cfg_state option" where
  "thread_znz E b k S =
     (if opcode (cs_ops S ! k) \<noteq> ZEND_JMPZNZ \<or> op2_to (blk S b) = None then Some S
      else do {
        let o1 = cs_ops S ! k;
        (t, p) \<leftarrow> next_target (cs_ops S) (cs_blocks S) (op2_to (blk S b));
        let target = cs_ops S ! p; let tb = blk S t; let same = tests_var E (op1 o1) (VAR_NUM_EX E (op1 o1) mod 256) (op1 target);
        if op2_to tb \<noteq> None \<and> (opcode target = ZEND_JMPZ \<or> opcode target = ZEND_JMPZNZ) \<and> same \<and> \<not> protected tb
        then retarget2 b (\<lambda>S. op2_to (blk S t)) S
        else if opcode target = ZEND_JMPNZ \<and> same \<and> follow_to tb \<noteq> None \<and> \<not> protected tb
        then retarget2 b (\<lambda>S. follow_to (blk S t)) S
        else if op1_to tb \<noteq> None \<and> opcode target = ZEND_JMP \<and> \<not> protected tb
        then retarget2 b (\<lambda>S. op1_to (blk S t)) S
        else Some S })"

definition to_jmp :: "zend_op \<Rightarrow> zend_op" where
  "to_jmp x = x\<lparr>opcode := ZEND_JMP, op1 := SET_UNUSED (op1 x), op2 := SET_UNUSED (op2 x)\<rparr>"

definition znz_case :: "'x engine \<Rightarrow> var_enc \<Rightarrow> nat \<Rightarrow> nat \<Rightarrow> 'x cfg_state \<Rightarrow> 'x cfg_state option" where
  "znz_case en E b k S =
     do {
       nx \<leftarrow> next_accessed (cs_blocks S) (next_block (blk S b));
       let o1 = cs_ops S ! k; let l2 = op2_to (blk S b); let le = ext_to (blk S b);
       S1 \<leftarrow>
         (if op_ty (op1 o1) = IS_CONST
          then (let v = is_true en (lit (cs_code S) (op1 o1));
                    S0 = set_op k to_jmp (S\<lparr>cs_code := literal_dtor (op1 o1) (cs_code S)\<rparr>)
                in del_source b (if v then l2 else le) (set_blk b (\<lambda>x. x\<lparr>op1_to := (if v then le else l2), op2_to := None, ext_to := None\<rparr>) S0))
          else if l2 = le then Some (set_blk b (\<lambda>x. x\<lparr>op1_to := l2, op2_to := None, ext_to := None\<rparr>) (set_op k to_jmp S))
          else if l2 = nx then Some (set_blk b (\<lambda>x. x\<lparr>op2_to := le, follow_to := nx, ext_to := None\<rparr>) (set_op k (\<lambda>x. x\<lparr>opcode := ZEND_JMPNZ\<rparr>) S))
          else if le = nx then Some (set_blk b (\<lambda>x. x\<lparr>follow_to := nx, ext_to := None\<rparr>) (set_op k (\<lambda>x. x\<lparr>opcode := ZEND_JMPZ\<rparr>) S))
          else Some S);
       thread_znz E b k S1 }"

definition zend_jmp_optimization :: "'x engine \<Rightarrow> var_enc \<Rightarrow> nat \<Rightarrow> 'x cfg_state \<Rightarrow> 'x cfg_state option" where
  "zend_jmp_optimization en E b S =
     (if block_len (blk S b) = 0 then Some S
      else do {
        s \<leftarrow> code_pos (blk S b);
        let k = s + block_len (blk S b) - 1;
        if \<not> k < length (cs_ops S) then None
        else let oc = opcode (cs_ops S ! k) in
          if oc = ZEND_JMP then jmp_case b k S
          else if oc = ZEND_JMPZ \<or> oc = ZEND_JMPNZ then cond_case en E b k S
          else if oc = ZEND_JMPNZ_EX \<or> oc = ZEND_JMPZ_EX then ex_case en E b k S
          else if oc = ZEND_JMPZNZ then znz_case en E b k S
          else Some S })"

declare next_target.simps [code] skip_follow.simps [code]

end
