(* ===== verification/Block_Opt.thy ===== *)
theory Block_Opt
  imports Block_Jumps "HOL-Library.Code_Target_Nat"
begin

text \<open>
  The optimization inside the blocks of pass 5 and the pass itself (\<open>Optimizer/block_pass.c\<close>):
  \<open>zend_t_usage\<close>, \<open>zend_optimize_block\<close> and \<open>zend_block_optimization\<close>.

  The arrays over the temporaries (\<open>Tsource\<close>, \<open>used_ext\<close>, \<open>usage\<close>, \<open>defined_here\<close>) are functions
  of their numbers, which are assumed to be below \<open>op_array->T\<close>. \<open>None\<close> is an access through a
  null pointer or outside of the code, a literal of a type that the code does not expect, and a
  loop that does not end.
\<close>

section \<open>Temporaries that are used in several blocks\<close>

text \<open>The positions of the instructions of a block.\<close>

definition code_range :: "zend_op list \<Rightarrow> zend_code_block \<Rightarrow> nat list option" where
  "code_range ops b =
     do { s \<leftarrow> code_pos b;
          if length ops < s + block_len b then None else Some [s..<s + block_len b] }"

text \<open>\<open>T_USAGE\<close>, on the temporaries that the block has defined and those used before.\<close>

definition T_USAGE :: "var_enc \<Rightarrow> (nat \<Rightarrow> bool) \<Rightarrow> znode \<Rightarrow> (nat \<Rightarrow> bool) \<Rightarrow> (nat \<Rightarrow> bool)" where
  "T_USAGE E defined_here z used_ext =
     (if is_temp z \<and> \<not> defined_here (VAR_NUM E (num z)) \<and> \<not> used_ext (VAR_NUM E (num z)) then used_ext(VAR_NUM E (num z) := True) else used_ext)"

definition result_as_arg :: "zend_op \<Rightarrow> bool" where
  "result_as_arg o1 \<longleftrightarrow> opcode o1 \<in> {ZEND_RECV, ZEND_RECV_INIT, ZEND_ADD_ARRAY_ELEMENT}"

fun used_in :: "var_enc \<Rightarrow> zend_op list \<Rightarrow> (nat \<Rightarrow> bool) \<Rightarrow> (nat \<Rightarrow> bool) \<Rightarrow> (nat \<Rightarrow> bool)" where
  "used_in E [] defined_here used_ext = used_ext"
| "used_in E (o1 # ops) defined_here used_ext =
     (let used1 = T_USAGE E defined_here (op2 o1) (T_USAGE E defined_here (op1 o1) used_ext);
          v = VAR_NUM E (num (result o1))
      in if RESULT_USED o1
         then used_in E ops (defined_here(v := True))
                (if \<not> defined_here v \<and> \<not> used1 v
                    \<and> (result_as_arg o1 \<or> opcode o1 = ZEND_OP_DATA \<and> op_ty (result o1) = IS_TMP_VAR \<and> \<not> ext_unused (result o1))
                 then used1(v := True) else used1)
         else used_in E ops defined_here used1)"

partial_function (option) used_across :: "var_enc \<Rightarrow> nat option \<Rightarrow> 'x cfg_state \<Rightarrow> (nat \<Rightarrow> bool) \<Rightarrow> (nat \<Rightarrow> bool) option" where
  "used_across E n S used_ext =
     (case n of
        None \<Rightarrow> Some used_ext
      | Some b \<Rightarrow>
          if \<not> b < length (cs_blocks S) then None
          else if \<not> access (blk S b) then used_across E (next_block (blk S b)) S used_ext
          else do { r \<leftarrow> code_range (cs_ops S) (blk S b);
                    used_across E (next_block (blk S b)) S (used_in E (map ((!) (cs_ops S)) r) (\<lambda>_. False) used_ext) })"

definition RES_NEVER_USED :: "var_enc \<Rightarrow> (nat \<Rightarrow> bool) \<Rightarrow> zend_op \<Rightarrow> bool" where
  "RES_NEVER_USED E usage o1 \<longleftrightarrow>
     op_ty (result o1) = IS_UNUSED \<and> \<not> ext_unused (result o1) \<or> is_temp (result o1) \<and> \<not> usage (VAR_NUM E (num (result o1)))"

definition returns_var :: "nat set" where
  "returns_var = {ZEND_ASSIGN_ADD, ZEND_ASSIGN_SUB, ZEND_ASSIGN_MUL, ZEND_ASSIGN_DIV, ZEND_ASSIGN_MOD, ZEND_ASSIGN_SL, ZEND_ASSIGN_SR,
     ZEND_ASSIGN_CONCAT, ZEND_ASSIGN_BW_OR, ZEND_ASSIGN_BW_AND, ZEND_ASSIGN_BW_XOR, ZEND_PRE_INC, ZEND_PRE_DEC, ZEND_POST_INC,
     ZEND_POST_DEC, ZEND_ASSIGN, ZEND_ASSIGN_REF, ZEND_DO_FCALL, ZEND_DO_FCALL_BY_NAME}"

text \<open>An instruction whose result is never used.\<close>

definition drop_result :: "nat \<Rightarrow> 'x zend_op_array \<Rightarrow> 'x zend_op_array" where
  "drop_result k oa =
     (let o1 = opcodes oa ! k; oc = opcode o1 in
      if oc \<in> returns_var
      then (if op_ty (result o1) = IS_VAR \<and> \<not> ext_unused (result o1)
            then upd_op k (\<lambda>x. x\<lparr>result := (result x)\<lparr>ext_unused := True\<rparr>\<rparr>) oa else oa)
      else if oc \<in> {ZEND_QM_ASSIGN, ZEND_BOOL, ZEND_BOOL_NOT}
      then upd_op k MAKE_NOP (if op_ty (op1 o1) = IS_CONST then literal_dtor (op1 o1) oa else oa)
      else if oc = ZEND_PRINT then upd_op k (\<lambda>x. x\<lparr>opcode := ZEND_ECHO, result := SET_UNUSED (result x)\<rparr>) oa
      else if oc = ZEND_JMPZ_EX \<or> oc = ZEND_JMPNZ_EX
      then upd_op k (\<lambda>x. x\<lparr>opcode := opcode x - 3, result := SET_UNUSED (result x)\<rparr>) oa
      else oa)"

definition plain_temp :: "znode \<Rightarrow> bool" where
  "plain_temp z \<longleftrightarrow> is_temp z \<and> \<not> ext_unused z"

definition set_used :: "var_enc \<Rightarrow> znode \<Rightarrow> (nat \<Rightarrow> bool) \<Rightarrow> (nat \<Rightarrow> bool)" where
  "set_used E z usage = (if plain_temp z then usage(VAR_NUM E (num z) := True) else usage)"

text \<open>One instruction of the backward walk.\<close>

definition usage_step :: "var_enc \<Rightarrow> nat \<Rightarrow> (nat \<Rightarrow> bool) \<times> 'x zend_op_array \<Rightarrow> (nat \<Rightarrow> bool) \<times> 'x zend_op_array" where
  "usage_step E k x =
     (let usage = fst x;
          oa1 = (if RES_NEVER_USED E usage (opcodes (snd x) ! k) then drop_result k (snd x) else snd x);
          o1 = opcodes oa1 ! k; v = VAR_NUM E (num (result o1));
          usage1 = (if result_as_arg o1 then if plain_temp (op1 o1) then usage(v := True) else usage
                    else if RESULT_USED o1 then usage(v := False) else usage);
          usage2 = set_used E (op2 o1) (set_used E (op1 o1) usage1)
      in (usage2, if op_ty (result o1) = IS_VAR \<and> ext_unused (result o1) \<and> usage2 v
                  then upd_op k (\<lambda>x. x\<lparr>result := (result x)\<lparr>ext_unused := False\<rparr>\<rparr>) oa1 else oa1))"

text \<open>A loop over the blocks in use.\<close>

partial_function (option) each_block :: "(nat \<Rightarrow> 'x cfg_state \<Rightarrow> 'x cfg_state option) \<Rightarrow> nat option \<Rightarrow> 'x cfg_state \<Rightarrow> 'x cfg_state option" where
  "each_block f n S =
     (case n of
        None \<Rightarrow> Some S
      | Some b \<Rightarrow>
          if \<not> b < length (cs_blocks S) then None
          else if access (blk S b) then do { S1 \<leftarrow> f b S; each_block f (next_block (blk S1 b)) S1 }
          else each_block f (next_block (blk S b)) S)"

definition usage_block :: "var_enc \<Rightarrow> (nat \<Rightarrow> bool) \<Rightarrow> nat \<Rightarrow> 'x cfg_state \<Rightarrow> 'x cfg_state option" where
  "usage_block E used_ext b S =
     do { r \<leftarrow> code_range (cs_ops S) (blk S b);
          Some (S\<lparr>cs_code := snd (fold (usage_step E) (rev r) (used_ext, cs_code S))\<rparr>) }"

definition zend_t_usage :: "var_enc \<Rightarrow> nat \<Rightarrow> (nat \<Rightarrow> bool) \<Rightarrow> 'x cfg_state \<Rightarrow> ((nat \<Rightarrow> bool) \<times> 'x cfg_state) option" where
  "zend_t_usage E b used_ext S =
     (if T_num (cs_code S) = 0 then Some (used_ext, S)
      else do { used \<leftarrow> used_across E (next_block (blk S b)) S used_ext;
                S1 \<leftarrow> each_block (usage_block E used) (Some b) S;
                Some (used, S1) })"

section \<open>\<open>zend_optimize_block\<close>\<close>

text \<open>The engine, with the test for the double \<open>0.0\<close>; the state of the walk over a block is the code,
  the last instruction that set a temporary, and the last instruction seen.\<close>

record 'x block_engine = "'x folding" +
  to_str :: "'x zval \<Rightarrow> string"
  double_is_zero :: "'x \<Rightarrow> bool"

record 'x block_walk =
  bw_state :: "'x cfg_state"
  Tsource :: "nat \<Rightarrow> nat option"
  bw_last :: "nat option"

abbreviation w_op :: "'x block_walk \<Rightarrow> nat \<Rightarrow> zend_op" where
  "w_op W k \<equiv> cs_ops (bw_state W) ! k"

abbreviation w_lit :: "'x block_walk \<Rightarrow> znode \<Rightarrow> 'x zval" where
  "w_lit W z \<equiv> lit (cs_code (bw_state W)) z"

definition w_upd :: "nat \<Rightarrow> (zend_op \<Rightarrow> zend_op) \<Rightarrow> 'x block_walk \<Rightarrow> 'x block_walk" where
  "w_upd k f W = W\<lparr>bw_state := set_op k f (bw_state W)\<rparr>"

definition w_code :: "('x zend_op_array \<Rightarrow> 'x zend_op_array) \<Rightarrow> 'x block_walk \<Rightarrow> 'x block_walk" where
  "w_code f W = W\<lparr>bw_state := (bw_state W)\<lparr>cs_code := f (cs_code (bw_state W))\<rparr>\<rparr>"

definition VAR_UNSET :: "var_enc \<Rightarrow> znode \<Rightarrow> 'x block_walk \<Rightarrow> 'x block_walk" where
  "VAR_UNSET E z W = (if is_temp z then W\<lparr>Tsource := (Tsource W)(VAR_NUM E (num z) := None)\<rparr> else W)"

definition SET_VAR_SOURCE :: "var_enc \<Rightarrow> nat \<Rightarrow> 'x block_walk \<Rightarrow> 'x block_walk" where
  "SET_VAR_SOURCE E k W = W\<lparr>Tsource := (Tsource W)(VAR_NUM E (num (result (w_op W k))) := Some k)\<rparr>"

text \<open>The instruction that set the temporary \<open>z\<close>, when it satisfies \<open>P\<close>.\<close>

definition tmp_source :: "var_enc \<Rightarrow> 'x block_walk \<Rightarrow> znode \<Rightarrow> (zend_op \<Rightarrow> bool) \<Rightarrow> nat option" where
  "tmp_source E W z P =
     (if op_ty z = IS_TMP_VAR \<and> \<not> ext_unused z
      then case Tsource W (VAR_NUM E (num z)) of None \<Rightarrow> None | Some j \<Rightarrow> if P (w_op W j) then Some j else None
      else None)"

definition assigns_const :: "zend_op \<Rightarrow> bool" where
  "assigns_const o1 \<longleftrightarrow> opcode o1 = ZEND_QM_ASSIGN \<and> op_ty (op1 o1) = IS_CONST"

abbreviation (input) TYPE_STRING :: nat where "TYPE_STRING \<equiv> 6"

definition casts_string :: "zend_op \<Rightarrow> bool" where
  "casts_string o1 \<longleftrightarrow> opcode o1 = ZEND_CAST \<and> extended_value o1 = TYPE_STRING"

text \<open>A constant assigned to a temporary is used in its place.\<close>

definition subst_op1 :: "'x block_engine \<Rightarrow> var_enc \<Rightarrow> nat \<Rightarrow> 'x block_walk \<Rightarrow> 'x block_walk" where
  "subst_op1 F E k W =
     (let o1 = w_op W k in
      case tmp_source E W (op1 o1) assigns_const of
        None \<Rightarrow> W
      | Some j \<Rightarrow>
          if opcode o1 \<in> {ZEND_CASE, ZEND_FETCH_DIM_TMP_VAR, ZEND_FE_RESET, ZEND_FREE} then W
          else let src = op1 (w_op W j); c = w_lit W src;
                   W1 = w_code (update_op1_const (folding.truncate F) k c) (VAR_UNSET E (op1 o1) W)
               in w_upd j MAKE_NOP (w_code (literal_dtor src) W1))"

definition subst_op2 :: "'x block_engine \<Rightarrow> var_enc \<Rightarrow> nat \<Rightarrow> 'x block_walk \<Rightarrow> 'x block_walk option" where
  "subst_op2 F E k W =
     (let o1 = w_op W k in
      case tmp_source E W (op2 o1) assigns_const of
        None \<Rightarrow> Some W
      | Some j \<Rightarrow>
          do { let src = op1 (w_op W j);
               oa \<leftarrow> update_op2_const (folding.truncate F) k (w_lit W src) (cs_code (bw_state W));
               Some (w_upd j MAKE_NOP (w_code (literal_dtor src) (w_code (\<lambda>_. oa) (VAR_UNSET E (op2 o1) W)))) })"

text \<open>The value of PRINT is 1.\<close>

definition print_value :: "var_enc \<Rightarrow> nat \<Rightarrow> 'x block_walk \<Rightarrow> 'x block_walk" where
  "print_value E k W =
     (let o1 = w_op W k; prints = (\<lambda>s. opcode s = ZEND_PRINT);
          one = (\<lambda>oa. fst (zend_optimizer_add_literal (ZLONG 1) oa));
          add = (\<lambda>oa. snd (zend_optimizer_add_literal (ZLONG 1) oa));
          W1 = (if tmp_source E W (op1 o1) prints \<noteq> None \<and> opcode o1 \<noteq> ZEND_CASE \<and> opcode o1 \<noteq> ZEND_FREE
                then w_upd k (\<lambda>x. x\<lparr>op1 := \<lparr>op_ty = IS_CONST, ext_unused = False, num = one (cs_code (bw_state W))\<rparr>\<rparr>) (w_code add W) else W)
      in if tmp_source E W1 (op2 (w_op W1 k)) prints \<noteq> None
         then w_upd k (\<lambda>x. x\<lparr>op2 := \<lparr>op_ty = IS_CONST, ext_unused = False, num = one (cs_code (bw_state W1))\<rparr>\<rparr>) (w_code add W1) else W1)"

text \<open>ECHO of a cast, and FREE of the results of PRINT and BOOL.\<close>

definition echo_cast :: "var_enc \<Rightarrow> nat \<Rightarrow> 'x block_walk \<Rightarrow> 'x block_walk" where
  "echo_cast E k W =
     (let o1 = w_op W k in
      case tmp_source E W (op1 o1) casts_string of
        Some j \<Rightarrow> if opcode o1 = ZEND_ECHO \<or> opcode o1 = ZEND_PRINT
                  then w_upd j MAKE_NOP (w_upd k (\<lambda>x. x\<lparr>op1 := op1 (w_op W j)\<rparr>) W) else W
      | None \<Rightarrow> W)"

definition free_print :: "var_enc \<Rightarrow> nat \<Rightarrow> 'x block_walk \<Rightarrow> 'x block_walk" where
  "free_print E k W =
     (let o1 = w_op W k in
      case tmp_source E W (op1 o1) (\<lambda>s. opcode s = ZEND_PRINT) of
        Some j \<Rightarrow> if opcode o1 = ZEND_FREE
                  then w_upd k MAKE_NOP (w_upd j (\<lambda>x. x\<lparr>opcode := ZEND_ECHO, result := SET_UNUSED (result x)\<rparr>) W) else W
      | None \<Rightarrow> W)"

definition free_bool :: "var_enc \<Rightarrow> nat \<Rightarrow> 'x block_walk \<Rightarrow> 'x block_walk" where
  "free_bool E k W =
     (let o1 = w_op W k in
      case tmp_source E W (op1 o1) (\<lambda>s. opcode s = ZEND_BOOL) of
        Some j \<Rightarrow>
          if opcode o1 = ZEND_FREE
          then let z = op1 (w_op W j) in
               w_upd k MAKE_NOP (w_upd j MAKE_NOP (if op_ty z = IS_CONST then w_code (literal_dtor z) W else W))
          else W
      | None \<Rightarrow> W)"

text \<open>Comparisons with TRUE and FALSE.\<close>

definition is_equal_bool :: "nat \<Rightarrow> 'x block_walk \<Rightarrow> 'x block_walk" where
  "is_equal_bool k W =
     (let o1 = w_op W k; bool_op = (\<lambda>v. if (opcode o1 = ZEND_IS_EQUAL) = v then ZEND_BOOL else ZEND_BOOL_NOT) in
      if opcode o1 \<noteq> ZEND_IS_EQUAL \<and> opcode o1 \<noteq> ZEND_IS_NOT_EQUAL then W
      else case (if op_ty (op1 o1) = IS_CONST then w_lit W (op1 o1) else ZNULL) of
        ZBOOL v \<Rightarrow> w_upd k (\<lambda>x. x\<lparr>opcode := bool_op v, op1 := op2 x, op2 := SET_UNUSED (op2 x)\<rparr>) W
      | _ \<Rightarrow>
        (case (if op_ty (op2 o1) = IS_CONST then w_lit W (op2 o1) else ZNULL) of
           ZBOOL v \<Rightarrow> w_upd k (\<lambda>x. x\<lparr>opcode := bool_op v, op2 := SET_UNUSED (op2 x)\<rparr>) W
         | _ \<Rightarrow> W))"

text \<open>What comes first for each instruction.\<close>

definition prepare :: "'x block_engine \<Rightarrow> var_enc \<Rightarrow> nat \<Rightarrow> 'x block_walk \<Rightarrow> 'x block_walk option" where
  "prepare F E k W =
     do { W1 \<leftarrow> subst_op2 F E k (subst_op1 F E k W);
          Some (is_equal_bool k (free_bool E k (free_print E k (echo_cast E k (print_value E k W1))))) }"

text \<open>How the walk goes on: with the same instruction, with the next one, or with the next one
  without remembering this one.\<close>

datatype walk_next = Same_Op | Next_Op | Skip_Op

definition uses_bool :: "nat set" where
  "uses_bool = {ZEND_BOOL, ZEND_BOOL_NOT, ZEND_JMPZ, ZEND_JMPNZ, ZEND_JMPZNZ}"

text \<open>A BOOL_NOT goes into the instruction that uses it; a JMPZNZ of block \<open>b\<close> exchanges its targets.\<close>

definition negated :: "nat \<Rightarrow> nat" where
  "negated oc = (if oc = ZEND_BOOL then ZEND_BOOL_NOT else if oc = ZEND_BOOL_NOT then ZEND_BOOL
     else if oc = ZEND_JMPZ then ZEND_JMPNZ else if oc = ZEND_JMPNZ then ZEND_JMPZ else oc)"

definition fuse_not :: "var_enc \<Rightarrow> nat \<Rightarrow> nat \<Rightarrow> nat \<Rightarrow> 'x block_walk \<Rightarrow> 'x block_walk" where
  "fuse_not E b k j W =
     (let swap = (opcode (w_op W k) = ZEND_JMPZNZ);
          W1 = w_upd k (\<lambda>x. x\<lparr>op1 := op1 (w_op W j), opcode := negated (opcode x)\<rparr>) W;
          W2 = (if swap then w_upd k (\<lambda>x. x\<lparr>extended_value := num (op2 x), op2 := (op2 x)\<lparr>num := extended_value x\<rparr>\<rparr>) W1 else W1);
          W3 = (if swap then W2\<lparr>bw_state := set_blk b (\<lambda>x. x\<lparr>ext_to := op2_to x, op2_to := ext_to x\<rparr>) (bw_state W2)\<rparr> else W2)
      in w_upd j MAKE_NOP (VAR_UNSET E (op1 (w_op W3 k)) W3))"

text \<open>The temporary is replaced by the operand of the instruction that set it.\<close>

definition fuse_source :: "var_enc \<Rightarrow> nat \<Rightarrow> nat \<Rightarrow> 'x block_walk \<Rightarrow> 'x block_walk" where
  "fuse_source E k j W =
     (let W1 = w_upd k (\<lambda>x. x\<lparr>op1 := op1 (w_op W j)\<rparr>) W
      in w_upd j MAKE_NOP (VAR_UNSET E (op1 (w_op W1 k)) W1))"

text \<open>\<open>convert_to_string_safe\<close>.\<close>

definition string_of :: "'x block_engine \<Rightarrow> 'x zval \<Rightarrow> string" where
  "string_of F v = (case v of ZSTRING s \<Rightarrow> s | ZNULL \<Rightarrow> [] | _ \<Rightarrow> to_str F v)"

definition is_double :: "'x zval \<Rightarrow> bool" where
  "is_double v \<longleftrightarrow> (case v of ZDOUBLE _ \<Rightarrow> True | _ \<Rightarrow> False)"

definition echo_const :: "'x block_walk \<Rightarrow> nat \<Rightarrow> bool" where
  "echo_const W k \<longleftrightarrow> opcode (w_op W k) = ZEND_ECHO \<and> op_ty (op1 (w_op W k)) = IS_CONST \<and> \<not> is_double (w_lit W (op1 (w_op W k)))"

definition fuse_echo :: "'x block_engine \<Rightarrow> nat \<Rightarrow> nat \<Rightarrow> 'x block_walk \<Rightarrow> 'x block_walk" where
  "fuse_echo F k l W =
     (let z = op1 (w_op W k); y = op1 (w_op W l); s = string_of F (w_lit W y) @ string_of F (w_lit W z)
      in w_upd l MAKE_NOP (w_code (set_lit y ZNULL) (w_code (set_lit z (ZSTRING s)) W)))"

definition fuse_concat :: "'x block_engine \<Rightarrow> var_enc \<Rightarrow> nat \<Rightarrow> nat \<Rightarrow> 'x block_walk \<Rightarrow> 'x block_walk" where
  "fuse_concat F E k j W =
     (let z = op2 (w_op W k); src = w_op W j; y = op2 src; s = string_of F (w_lit W y) @ string_of F (w_lit W z);
          W1 = w_upd k (\<lambda>x. x\<lparr>opcode := (if op_ty (op1 src) = IS_UNUSED then ZEND_ADD_STRING else opcode x), op1 := op1 src\<rparr>)
                 (VAR_UNSET E (op1 (w_op W k)) W)
      in w_upd j MAKE_NOP (w_code (set_lit y ZNULL) (w_code (set_lit z (ZSTRING s)) W1)))"

text \<open>The character that an ADD_CHAR appends, as a string literal.\<close>

definition char_literal :: "znode \<Rightarrow> znode \<Rightarrow> 'x block_walk \<Rightarrow> 'x block_walk option" where
  "char_literal z to W =
     (case w_lit W z of ZLONG n \<Rightarrow> Some (w_code (set_lit to (ZSTRING [char_of (nat (n mod 256))])) W) | _ \<Rightarrow> None)"

definition const_ops :: "nat set" where
  "const_ops = {ZEND_ADD, ZEND_SUB, ZEND_MUL, ZEND_DIV, ZEND_MOD, ZEND_SL, ZEND_SR, ZEND_CONCAT, ZEND_IS_EQUAL, ZEND_IS_NOT_EQUAL,
     ZEND_IS_SMALLER, ZEND_IS_SMALLER_OR_EQUAL, ZEND_IS_IDENTICAL, ZEND_IS_NOT_IDENTICAL, ZEND_BOOL_XOR, ZEND_BW_OR, ZEND_BW_AND, ZEND_BW_XOR}"

definition is_zero :: "'x block_engine \<Rightarrow> 'x zval \<Rightarrow> bool" where
  "is_zero F v \<longleftrightarrow> (case v of ZLONG n \<Rightarrow> n = 0 | ZDOUBLE d \<Rightarrow> double_is_zero F d | _ \<Rightarrow> False)"

definition eval_binary :: "'x block_engine \<Rightarrow> nat \<Rightarrow> 'x block_walk \<Rightarrow> 'x block_walk" where
  "eval_binary F k W =
     (let o1 = w_op W k in
      case binary_op F (opcode o1) (w_lit W (op1 o1)) (w_lit W (op2 o1)) of
        None \<Rightarrow> W
      | Some v \<Rightarrow>
          w_code (update_op1_const (folding.truncate F) k v)
            (w_upd k (\<lambda>x. x\<lparr>opcode := ZEND_QM_ASSIGN, op2 := SET_UNUSED (op2 x)\<rparr>) (w_code (literal_dtor (op2 o1)) (w_code (literal_dtor (op1 o1)) W))))"

definition eval_unary :: "'x block_engine \<Rightarrow> nat \<Rightarrow> 'x block_walk \<Rightarrow> 'x block_walk option" where
  "eval_unary F k W =
     (let o1 = w_op W k; v = w_lit W (op1 o1) in
      do { r \<leftarrow> (if opcode o1 = ZEND_BOOL then Some (convert_to F TYPE_BOOL v) else unary_op F (opcode o1) v);
           Some (w_code (update_op1_const (folding.truncate F) k r)
             (w_upd k (\<lambda>x. x\<lparr>opcode := ZEND_QM_ASSIGN\<rparr>) (w_code (literal_dtor (op1 o1)) W))) })"

text \<open>An append to the empty string, to a concatenation with the empty string, and to a cast.\<close>

definition append_to_init :: "var_enc \<Rightarrow> nat \<Rightarrow> nat \<Rightarrow> 'x block_walk \<Rightarrow> 'x block_walk option" where
  "append_to_init E k j W =
     (let o1 = w_op W k; W1 = w_upd k (\<lambda>x. x\<lparr>op1 := op2 x\<rparr>) (VAR_UNSET E (op1 o1) W) in
      do { W2 \<leftarrow> (if opcode o1 = ZEND_ADD_CHAR then char_literal (op2 o1) (op1 (w_op W1 k)) W1 else Some W1);
           Some (w_upd k (\<lambda>x. x\<lparr>opcode := ZEND_QM_ASSIGN\<rparr>) (w_upd j MAKE_NOP (w_upd k (\<lambda>x. x\<lparr>op2 := SET_UNUSED (op2 x)\<rparr>) W2))) })"

definition append_to_source :: "bool \<Rightarrow> var_enc \<Rightarrow> nat \<Rightarrow> nat \<Rightarrow> 'x block_walk \<Rightarrow> 'x block_walk option" where
  "append_to_source dtor E k j W =
     (let o1 = w_op W k; src = w_op W j; W1 = w_upd k (\<lambda>x. x\<lparr>op1 := op1 src\<rparr>) (VAR_UNSET E (op1 o1) W) in
      do { W2 \<leftarrow> (if opcode o1 = ZEND_ADD_CHAR then char_literal (op2 o1) (op2 o1) W1 else Some W1);
           let W3 = w_upd k (\<lambda>x. x\<lparr>opcode := ZEND_CONCAT\<rparr>) W2;
           Some (w_upd j MAKE_NOP (if dtor then w_code (literal_dtor (op2 src)) W3 else W3)) })"

definition cast_to_string :: "var_enc \<Rightarrow> nat \<Rightarrow> nat \<Rightarrow> 'x block_walk \<Rightarrow> 'x block_walk" where
  "cast_to_string E k j W =
     (let W1 = w_upd k (\<lambda>x. x\<lparr>op1 := op2 x, op2 := SET_UNUSED (op2 x)\<rparr>) (VAR_UNSET E (op1 (w_op W k)) W)
      in w_upd k (\<lambda>x. x\<lparr>opcode := ZEND_CAST, extended_value := TYPE_STRING\<rparr>) (w_upd j MAKE_NOP W1))"

definition gives_bool :: "nat set" where
  "gives_bool = {ZEND_IS_EQUAL, ZEND_IS_NOT_EQUAL, ZEND_IS_SMALLER, ZEND_IS_SMALLER_OR_EQUAL, ZEND_BOOL, ZEND_IS_IDENTICAL,
     ZEND_IS_NOT_IDENTICAL, ZEND_ISSET_ISEMPTY_VAR, ZEND_ISSET_ISEMPTY_DIM_OBJ}"

definition appends :: "nat set" where
  "appends = {ZEND_ADD_STRING, ZEND_ADD_CHAR, ZEND_ADD_VAR, ZEND_CONCAT}"

definition empty_concat :: "'x block_walk \<Rightarrow> zend_op \<Rightarrow> bool" where
  "empty_concat W s \<longleftrightarrow> opcode s = ZEND_CONCAT \<and> op_ty (op2 s) = IS_CONST \<and> w_lit W (op2 s) = ZSTRING []"

text \<open>The alternatives for one instruction, in the order of the code.\<close>

definition rewrite_op :: "'x block_engine \<Rightarrow> var_enc \<Rightarrow> (nat \<Rightarrow> bool) \<Rightarrow> nat \<Rightarrow> nat \<Rightarrow> 'x block_walk \<Rightarrow> (walk_next \<times> 'x block_walk) option" where
  "rewrite_op F E used_ext b k W =
     (let o1 = w_op W k; oc = opcode o1; src = tmp_source E W (op1 o1); ext_used = used_ext (VAR_NUM E (num (op1 o1)));
          c1 = (op_ty (op1 o1) = IS_CONST); c2 = (op_ty (op2 o1) = IS_CONST);
          same_result = (op_ty (result o1) = IS_TMP_VAR \<and> \<not> ext_unused (result o1) \<and> num (result o1) = num (op1 o1))
      in if oc \<in> uses_bool \<and> src (\<lambda>s. opcode s = ZEND_BOOL_NOT) \<noteq> None \<and> \<not> ext_used
         then Some (Same_Op, fuse_not E b k (the (src (\<lambda>s. opcode s = ZEND_BOOL_NOT))) W)
         else if (oc \<in> uses_bool \<or> oc = ZEND_JMPZ_EX \<or> oc = ZEND_JMPNZ_EX) \<and> src (\<lambda>s. opcode s = ZEND_BOOL \<or> opcode s = ZEND_QM_ASSIGN) \<noteq> None
           \<and> (\<not> ext_used \<or> same_result)
         then Some (Same_Op, fuse_source E k (the (src (\<lambda>s. opcode s = ZEND_BOOL \<or> opcode s = ZEND_QM_ASSIGN))) W)
         else if bw_last W \<noteq> None \<and> echo_const W k \<and> echo_const W (the (bw_last W))
         then Some (Next_Op, fuse_echo F k (the (bw_last W)) W)
         else if oc = ZEND_CONCAT \<and> c2
           \<and> src (\<lambda>s. opcode s \<in> {ZEND_CONCAT, ZEND_ADD_STRING} \<and> op_ty (op2 s) = IS_CONST \<and> num (result s) = num (op1 o1)) \<noteq> None
         then Some (Next_Op, fuse_concat F E k
                (the (src (\<lambda>s. opcode s \<in> {ZEND_CONCAT, ZEND_ADD_STRING} \<and> op_ty (op2 s) = IS_CONST \<and> num (result s) = num (op1 o1)))) W)
         else if (oc = ZEND_ADD_STRING \<or> oc = ZEND_ADD_VAR) \<and> c1
         then Some (Same_Op, w_upd k (\<lambda>x. x\<lparr>opcode := ZEND_CONCAT\<rparr>) W)
         else if oc = ZEND_ADD_CHAR \<and> c1 \<and> c2
         then do { W1 \<leftarrow> char_literal (op2 o1) (op2 o1) W; Some (Same_Op, w_upd k (\<lambda>x. x\<lparr>opcode := ZEND_CONCAT\<rparr>) W1) }
         else if oc \<in> const_ops \<and> c1 \<and> c2
         then if (oc = ZEND_DIV \<or> oc = ZEND_MOD) \<and> is_zero F (w_lit W (op2 o1)) then Some (Skip_Op, W)
              else Some (Next_Op, eval_binary F k W)
         else if oc \<in> {ZEND_BOOL, ZEND_BOOL_NOT, ZEND_BW_NOT} \<and> c1
         then do { W1 \<leftarrow> eval_unary F k W; Some (Next_Op, W1) }
         else if (oc = ZEND_RETURN \<or> oc = ZEND_EXIT) \<and> src (\<lambda>s. opcode s = ZEND_QM_ASSIGN) \<noteq> None
         then (let j = the (src (\<lambda>s. opcode s = ZEND_QM_ASSIGN)) in
               Some (Next_Op, w_upd j MAKE_NOP (w_upd k (\<lambda>x. x\<lparr>op1 := op1 (w_op W j)\<rparr>) (VAR_UNSET E (op1 o1) W))))
         else if (oc = ZEND_ADD_STRING \<or> oc = ZEND_ADD_CHAR) \<and> src (\<lambda>s. opcode s = ZEND_INIT_STRING) \<noteq> None
         then do { W1 \<leftarrow> append_to_init E k (the (src (\<lambda>s. opcode s = ZEND_INIT_STRING))) W; Some (Next_Op, W1) }
         else if oc \<in> appends \<and> src (empty_concat W) \<noteq> None
         then do { W1 \<leftarrow> append_to_source True E k (the (src (empty_concat W))) W; Some (Next_Op, W1) }
         else if oc = ZEND_ADD_VAR \<and> src (\<lambda>s. opcode s = ZEND_INIT_STRING) \<noteq> None
         then Some (Next_Op, cast_to_string E k (the (src (\<lambda>s. opcode s = ZEND_INIT_STRING))) W)
         else if oc \<in> appends \<and> src casts_string \<noteq> None
         then do { W1 \<leftarrow> append_to_source False E k (the (src casts_string)) W; Some (Next_Op, W1) }
         else if oc = ZEND_QM_ASSIGN \<and> op_ty (op1 o1) = IS_TMP_VAR \<and> \<not> ext_unused (op1 o1) \<and> same_result
         then Some (Next_Op, w_upd k MAKE_NOP W)
         else if oc = ZEND_BOOL \<and> src (\<lambda>s. opcode s \<in> gives_bool) \<noteq> None \<and> \<not> ext_used
         then (let j = the (src (\<lambda>s. opcode s \<in> gives_bool)) in
               Some (Next_Op, w_upd k MAKE_NOP (SET_VAR_SOURCE E j (w_upd j (\<lambda>x. x\<lparr>result := result o1\<rparr>) W))))
         else Some (Next_Op, W))"

definition remember_source :: "var_enc \<Rightarrow> nat \<Rightarrow> 'x block_walk \<Rightarrow> 'x block_walk" where
  "remember_source E k W = (if RESULT_USED (w_op W k) then SET_VAR_SOURCE E k W else W)"

partial_function (option) optimize_from ::
  "'x block_engine \<Rightarrow> var_enc \<Rightarrow> (nat \<Rightarrow> bool) \<Rightarrow> nat \<Rightarrow> nat \<Rightarrow> nat \<Rightarrow> 'x block_walk \<Rightarrow> 'x block_walk option" where
  "optimize_from F E used_ext b k e W =
     (if \<not> k < e then Some W
      else do { W1 \<leftarrow> prepare F E k W;
        (n, W2) \<leftarrow> rewrite_op F E used_ext b k W1;
        (case n of
           Same_Op \<Rightarrow> optimize_from F E used_ext b k e W2
         | Skip_Op \<Rightarrow> optimize_from F E used_ext b (Suc k) e (remember_source E k W2)
         | Next_Op \<Rightarrow>
             (let W3 = remember_source E k W2
              in optimize_from F E used_ext b (Suc k) e (if opcode (w_op W3 k) = ZEND_NOP then W3 else W3\<lparr>bw_last := Some k\<rparr>))) })"

definition zend_optimize_block :: "'x block_engine \<Rightarrow> var_enc \<Rightarrow> (nat \<Rightarrow> bool) \<Rightarrow> nat \<Rightarrow> 'x cfg_state \<Rightarrow> 'x cfg_state option" where
  "zend_optimize_block F E used_ext b S =
     do { (all, S1) \<leftarrow> strip_leading b (block_len (blk S b)) S;
          if all then Some S1
          else if T_num (cs_code S1) = 0 \<or> block_len (blk S1 b) = 0 then strip_nop b S1
          else do { s \<leftarrow> code_pos (blk S1 b);
                    if length (cs_ops S1) < s + block_len (blk S1 b) then None
                    else do { W \<leftarrow> optimize_from F E used_ext b s (s + block_len (blk S1 b)) \<lparr>bw_state = S1, Tsource = (\<lambda>_. None), bw_last = None\<rparr>;
                              strip_nop b (bw_state W) } } }"

section \<open>\<open>zend_block_optimization\<close>\<close>

text \<open>One of the three rounds of \<open>PASSES\<close>.\<close>

definition block_pass :: "'x block_engine \<Rightarrow> 'x engine \<Rightarrow> var_enc \<Rightarrow> zend_cfg \<times> 'x zend_op_array \<Rightarrow> (zend_cfg \<times> 'x zend_op_array) option" where
  "block_pass F en E x =
     do { (used, S1) \<leftarrow> zend_t_usage E 0 (\<lambda>_. False) \<lparr>cs_code = snd x, cs_blocks = blocks (fst x)\<rparr>;
          S2 \<leftarrow> each_block (zend_optimize_block F E used) (Some 0) S1;
          S3 \<leftarrow> each_block (zend_jmp_optimization en E) (Some 0) S2;
          cfg \<leftarrow> zend_rebuild_access_path ((fst x)\<lparr>blocks := cs_blocks S3\<rparr>) (cs_code S3) True;
          Some (cfg, cs_code S3) }"

fun block_passes :: "'x block_engine \<Rightarrow> 'x engine \<Rightarrow> var_enc \<Rightarrow> nat \<Rightarrow> zend_cfg \<times> 'x zend_op_array \<Rightarrow> (zend_cfg \<times> 'x zend_op_array) option" where
  "block_passes F en E 0 x = Some x"
| "block_passes F en E (Suc n) x = do { y \<leftarrow> block_pass F en E x; block_passes F en E n y }"

definition zend_block_optimization :: "'x block_engine \<Rightarrow> 'x engine \<Rightarrow> var_enc \<Rightarrow> 'x zend_op_array \<Rightarrow> 'x zend_op_array option" where
  "zend_block_optimization F en E oa =
     (if has_finally_block oa then Some oa
      else do { f \<leftarrow> find_code_blocks oa;
        case f of
          None \<Rightarrow> Some oa
        | Some (oa1, cfg) \<Rightarrow>
            do { cfg1 \<leftarrow> zend_rebuild_access_path cfg oa1 False;
                 (cfg2, oa2) \<leftarrow> block_passes F en E 3 (cfg1, oa1);
                 (used, S) \<leftarrow> zend_t_usage E 0 (\<lambda>_. False) \<lparr>cs_code = oa2, cs_blocks = blocks cfg2\<rparr>;
                 assemble_code_blocks (cfg2\<lparr>blocks := cs_blocks S\<rparr>) (cs_code S) } })"

declare used_across.simps [code] each_block.simps [code] optimize_from.simps [code]

section \<open>Code that the pass gets wrong\<close>

text \<open>Handlers that print to the state, and for which the compiled variable 0 is true and all others
  are false.\<close>

definition demo_vars :: "(unit, unit zval list) lit_handlers" where
  "demo_vars L o1 s =
     (let v = (op_ty (op1 o1) = IS_CV \<and> num (op1 o1) = 0) in
      if opcode o1 = ZEND_ECHO then (s @ [lit_constant (L ! num (op1 o1))], Next)
      else if opcode o1 = ZEND_JMPZ then (s, if v then Next else To_Op2)
      else if opcode o1 = ZEND_JMPNZ then (s, if v then To_Op2 else Next)
      else if opcode o1 = ZEND_JMPZNZ then (s, if v then To_Ext else To_Op2)
      else if opcode o1 \<in> returning then (s, Leave)
      else (s, Next))"

lemmas demo_run_defs = runs_def vm_step_def resume_def demo_vars_def blank_def jumps_op1_def jumps_op2_def jumps_ext_def
  links_result_def returning_def code_of_def plain_def node_def unused_node_def Let_def

definition demo_truthy :: "unit engine" where
  "demo_truthy = \<lparr>scalar_to_number = (\<lambda>v. v), to_long = (\<lambda>v. 0), to_string = (\<lambda>v. []), is_true = (\<lambda>v. v \<noteq> ZLONG 0)\<rparr>"

text \<open>\<open>do { echo 'a'; } while (0);\<close>\<close>

definition demo_do_while :: "unit zend_op_array" where
  "demo_do_while = code_of
     [(plain ZEND_ECHO)\<lparr>op1 := node IS_CONST 0\<rparr>,
      (plain ZEND_JMPNZ)\<lparr>op1 := node IS_CONST 1, op2 := node IS_UNUSED 0\<rparr>,
      plain ZEND_RETURN] [ZSTRING ''a'', ZLONG 0]"

text \<open>When the jump back to the start of the code is removed, \<open>del_source\<close> takes the first block out of
  use because it has no predecessor left, and the search for the first block in use starts the code
  behind it: the body of a loop at the start of the code is lost.
\<close>

theorem do_while_body_lost:
  "zend_block_optimization F demo_truthy E demo_do_while = Some (code_of [plain ZEND_RETURN] [ZNULL, ZNULL])
   \<and> runs demo_vars demo_do_while 0 [] (Left [ZSTRING ''a''])
   \<and> runs demo_vars (code_of [plain ZEND_RETURN] [ZNULL, ZNULL]) 0 [] (Left [])"
proof (intro conjI)
  show "zend_block_optimization F demo_truthy E demo_do_while = Some (code_of [plain ZEND_RETURN] [ZNULL, ZNULL])" by code_simp
  show "runs demo_vars demo_do_while 0 [] (Left [ZSTRING ''a''])"
    unfolding runs_def by (subst vm_run_unfold, simp add: demo_run_defs demo_do_while_def)+
  show "runs demo_vars (code_of [plain ZEND_RETURN] [ZNULL, ZNULL]) 0 [] (Left [])"
    unfolding runs_def by (subst vm_run_unfold, simp add: demo_run_defs)+
qed

text \<open>\<open>$x = 0; do {} while ($x);\<close>\<close>

definition demo_self_loop :: "unit zend_op_array" where
  "demo_self_loop = code_of
     [(plain ZEND_ASSIGN)\<lparr>op1 := node IS_CV 0, op2 := node IS_CONST 0\<rparr>,
      (plain ZEND_JMPNZ)\<lparr>op1 := node IS_CV 0, op2 := node IS_UNUSED 1\<rparr>,
      plain ZEND_RETURN] [ZLONG 0]"

text \<open>A loop of one conditional jump to itself: \<open>zend_jmp_optimization\<close> takes the jump for a test that can
  be skipped, the block is joined with its other predecessor and loses its code, but it is still the
  target of the jump: its start is a null pointer, through which the pass then reads an instruction. The
  model has no result; \<open>None\<close> stands for its other errors as well.
\<close>

theorem self_loop_crashes:
  "zend_block_optimization F en E demo_self_loop = None"
  by code_simp

text \<open>A JMPZNZ on the compiled variable 256 that leads to a JMPZ on the compiled variable 0.\<close>

definition demo_bytes :: "unit zend_op_array" where
  "demo_bytes = code_of
     [(plain ZEND_JMPZNZ)\<lparr>op1 := node IS_CV 256, op2 := node IS_UNUSED 3, extended_value := 7\<rparr>,
      (plain ZEND_ECHO)\<lparr>op1 := node IS_CONST 2\<rparr>,
      plain ZEND_RETURN,
      (plain ZEND_JMPZ)\<lparr>op1 := node IS_CV 0, op2 := node IS_UNUSED 6\<rparr>,
      (plain ZEND_ECHO)\<lparr>op1 := node IS_CONST 0\<rparr>,
      (plain ZEND_JMP)\<lparr>op1 := node IS_UNUSED 1\<rparr>,
      (plain ZEND_ECHO)\<lparr>op1 := node IS_CONST 1\<rparr>,
      plain ZEND_RETURN] [ZSTRING ''a'', ZSTRING ''b'', ZSTRING ''c'']"

definition demo_bytes_new :: "unit zend_op_array" where
  "demo_bytes_new = code_of
     [(plain ZEND_JMPNZ)\<lparr>op1 := node IS_CV 256, op2 := node IS_UNUSED 2, extended_value := 7\<rparr>,
      (plain ZEND_ECHO)\<lparr>op1 := node IS_CONST 1\<rparr>,
      plain ZEND_RETURN] [ZNULL, ZSTRING ''b'', ZNULL]"

text \<open>The number of the variable of a JMPZNZ is kept in a byte: a test of variable 0 is skipped as if it
  was a test of variable 256, and other code runs.
\<close>

theorem jmpznz_wrong_variable:
  "zend_block_optimization F demo_truthy E demo_bytes = Some demo_bytes_new
   \<and> runs demo_vars demo_bytes 0 [] (Left [ZSTRING ''a'', ZSTRING ''c''])
   \<and> runs demo_vars demo_bytes_new 0 [] (Left [ZSTRING ''b''])"
proof (intro conjI)
  show "zend_block_optimization F demo_truthy E demo_bytes = Some demo_bytes_new" by code_simp
  show "runs demo_vars demo_bytes 0 [] (Left [ZSTRING ''a'', ZSTRING ''c''])"
    unfolding runs_def by (subst vm_run_unfold, simp add: demo_run_defs demo_bytes_def)+
  show "runs demo_vars demo_bytes_new 0 [] (Left [ZSTRING ''b''])"
    unfolding runs_def by (subst vm_run_unfold, simp add: demo_run_defs demo_bytes_new_def)+
qed

end
