(* ===== verification/Block_Threads.thy ===== *)
theory Block_Threads
  imports Block_Jumps Blocks_Graph "HOL-Library.Code_Target_Nat"
begin

text \<open>
  What \<open>zend_jmp_optimization\<close> does to the targets of conditional jumps: the new target is
  reached from the old one by blocks that do nothing but skip NOPs, jump, and test a variable whose
  truth value the jump has just found out. The graph is assumed to be as \<open>zend_rebuild_access_path\<close>
  leaves it: references to predecessors are exact, and blocks come in the order of the code.
\<close>

section \<open>States and blocks\<close>

lemma set_blk_simps [simp]:
  "cs_code (set_blk b f S) = cs_code S" "cs_blocks (set_blk b f S) = upd_block b f (cs_blocks S)"
  by (simp_all add: set_blk_def)

lemma cfg_op_simps [simp]:
  "cs_blocks (set_op k f S) = cs_blocks S" "cs_ops (set_op k f S) = (cs_ops S)[k := f (cs_ops S ! k)]"
  by (simp_all add: set_op_def upd_op_def)

text \<open>A block in use that has code.\<close>

definition placed :: "nat \<Rightarrow> zend_code_block \<Rightarrow> bool" where
  "placed n b \<longleftrightarrow> access b \<and> (case start_opline b of In_Code s \<Rightarrow> s + block_len b \<le> n | _ \<Rightarrow> False)"

definition block_at :: "zend_code_block \<Rightarrow> nat" where
  "block_at b = (case start_opline b of In_Code s \<Rightarrow> s | _ \<Rightarrow> 0)"

lemma placed_pos: "placed n b \<Longrightarrow> code_pos b = Some (block_at b) \<and> block_at b + block_len b \<le> n"
  by (auto simp: placed_def code_pos_def block_at_def split: op_ptr.splits)

definition ex_jumps :: "nat set" where
  "ex_jumps = {ZEND_JMPZ_EX, ZEND_JMPNZ_EX}"

text \<open>Graphs with exact references whose blocks lie in the order of the code.\<close>

definition links_ok :: "nat \<Rightarrow> zend_code_block list \<Rightarrow> bool" where
  "links_ok n bs \<longleftrightarrow> (\<forall>t < length bs.
     if placed n (bs ! t)
     then (\<forall>x \<in> set (targets (bs ! t)). case x of None \<Rightarrow> True | Some u \<Rightarrow> u < length bs \<and> placed n (bs ! u) \<and> sources (bs ! u) \<noteq> [])
       \<and> distinct (sources (bs ! t)) \<and> (\<forall>x \<in> set (sources (bs ! t)). x < length bs \<and> placed n (bs ! x) \<and> Some t \<in> set (targets (bs ! x)))
       \<and> (case follow_to (bs ! t) of None \<Rightarrow> True | Some u \<Rightarrow> t < u \<and> block_at (bs ! t) + block_len (bs ! t) \<le> block_at (bs ! u))
     else sources (bs ! t) = [])"

text \<open>Control leaves a block of NOPs at its end, and a conditional jump has both targets.\<close>

definition jumps_ok :: "zend_op list \<Rightarrow> zend_code_block list \<Rightarrow> bool" where
  "jumps_ok ops bs \<longleftrightarrow> (\<forall>t < length bs. placed (length ops) (bs ! t) \<longrightarrow> sources (bs ! t) \<noteq> [] \<longrightarrow>
     (case first_op ops (bs ! t) of
        Some None \<Rightarrow> follow_to (bs ! t) \<noteq> None
      | Some (Some p) \<Rightarrow> (opcode (ops ! p) \<in> {ZEND_JMPZ, ZEND_JMPNZ} \<union> ex_jumps \<longrightarrow> op2_to (bs ! t) \<noteq> None \<and> follow_to (bs ! t) \<noteq> None)
          \<and> (opcode (ops ! p) \<in> ex_jumps \<longrightarrow> is_temp (result (ops ! p)))
      | None \<Rightarrow> False))"

definition sound_graph :: "zend_op list \<Rightarrow> zend_code_block list \<Rightarrow> bool" where
  "sound_graph ops bs \<longleftrightarrow> links_ok (length ops) bs \<and> jumps_ok ops bs"

lemma links_okD:
  assumes l: "links_ok n bs" "t < length bs" "placed n (bs ! t)"
  shows "\<And>u. u \<in> succs (bs ! t) \<Longrightarrow> u < length bs \<and> placed n (bs ! u) \<and> sources (bs ! u) \<noteq> []" "distinct (sources (bs ! t))"
    "\<And>x. x \<in> set (sources (bs ! t)) \<Longrightarrow> x < length bs \<and> placed n (bs ! x) \<and> t \<in> succs (bs ! x)"
    "\<And>u. follow_to (bs ! t) = Some u \<Longrightarrow> t < u \<and> block_at (bs ! t) + block_len (bs ! t) \<le> block_at (bs ! u)"
proof -
  have b: "\<forall>x \<in> set (targets (bs ! t)). case x of None \<Rightarrow> True | Some u \<Rightarrow> u < length bs \<and> placed n (bs ! u) \<and> sources (bs ! u) \<noteq> []"
    "distinct (sources (bs ! t))"
    "\<forall>x \<in> set (sources (bs ! t)). x < length bs \<and> placed n (bs ! x) \<and> Some t \<in> set (targets (bs ! x))"
    "case follow_to (bs ! t) of None \<Rightarrow> True | Some u \<Rightarrow> t < u \<and> block_at (bs ! t) + block_len (bs ! t) \<le> block_at (bs ! u)"
    using l unfolding links_ok_def by (metis (no_types, lifting))+
  show "u < length bs \<and> placed n (bs ! u) \<and> sources (bs ! u) \<noteq> []" if "u \<in> succs (bs ! t)" for u using bspec [OF b(1), of "Some u"] that by (simp add: succs_def)
  show "distinct (sources (bs ! t))" by (rule b(2))
  show "x < length bs \<and> placed n (bs ! x) \<and> t \<in> succs (bs ! x)" if "x \<in> set (sources (bs ! t))" for x
    using bspec [OF b(3) that] by (simp add: succs_def)
  show "t < u \<and> block_at (bs ! t) + block_len (bs ! t) \<le> block_at (bs ! u)" if "follow_to (bs ! t) = Some u" for u using b(4) that by simp
qed

lemma jumps_okD:
  assumes "jumps_ok ops bs" "t < length bs" "placed (length ops) (bs ! t)" "sources (bs ! t) \<noteq> []"
  shows "first_op ops (bs ! t) = Some None \<Longrightarrow> follow_to (bs ! t) \<noteq> None"
    "\<And>p. first_op ops (bs ! t) = Some (Some p) \<Longrightarrow> opcode (ops ! p) \<in> {ZEND_JMPZ, ZEND_JMPNZ} \<union> ex_jumps
       \<Longrightarrow> op2_to (bs ! t) \<noteq> None \<and> follow_to (bs ! t) \<noteq> None"
    "\<And>p. first_op ops (bs ! t) = Some (Some p) \<Longrightarrow> opcode (ops ! p) \<in> ex_jumps \<Longrightarrow> is_temp (result (ops ! p))"
  using assms unfolding jumps_ok_def by fastforce+

lemma succs_simps:
  "op1_to b = Some t \<Longrightarrow> t \<in> succs b" "op2_to b = Some t \<Longrightarrow> t \<in> succs b" "ext_to b = Some t \<Longrightarrow> t \<in> succs b" "follow_to b = Some t \<Longrightarrow> t \<in> succs b"
  by (simp_all add: succs_def targets_def)

section \<open>The blocks that a jump skips\<close>

text \<open>Where a conditional jump with opcode \<open>oc\<close> goes from block \<open>b\<close> when the variable has the truth
  value \<open>v\<close>.\<close>

definition goes_to :: "nat \<Rightarrow> bool \<Rightarrow> zend_code_block \<Rightarrow> nat option" where
  "goes_to oc v b =
     (if oc = ZEND_JMPZ \<or> oc = ZEND_JMPZ_EX then if v then follow_to b else op2_to b
      else if oc = ZEND_JMPNZ \<or> oc = ZEND_JMPNZ_EX then if v then op2_to b else follow_to b
      else if oc = ZEND_JMPZNZ then if v then ext_to b else op2_to b
      else None)"

text \<open>\<open>leads\<close>: control at the start of block \<open>t\<close> gets to the start of block \<open>u\<close> when the variables in
  \<open>K\<close> have the truth value \<open>v\<close>; an instruction with a result only gives it to a variable in \<open>K\<close>.\<close>

inductive leads :: "zend_op list \<Rightarrow> zend_code_block list \<Rightarrow> (znode \<Rightarrow> bool) \<Rightarrow> bool \<Rightarrow> nat \<Rightarrow> nat \<Rightarrow> bool" for ops bs K v where
  Leads_Here: "leads ops bs K v t t"
| Leads_Nops: "first_op ops (bs ! t) = Some None \<Longrightarrow> follow_to (bs ! t) = Some u \<Longrightarrow> leads ops bs K v u w \<Longrightarrow> leads ops bs K v t w"
| Leads_Jmp: "first_op ops (bs ! t) = Some (Some p) \<Longrightarrow> opcode (ops ! p) = ZEND_JMP \<Longrightarrow> op1_to (bs ! t) = Some u \<Longrightarrow> leads ops bs K v u w
    \<Longrightarrow> leads ops bs K v t w"
| Leads_Test: "first_op ops (bs ! t) = Some (Some p) \<Longrightarrow> K (op1 (ops ! p)) \<Longrightarrow> (opcode (ops ! p) \<in> ex_jumps \<Longrightarrow> K (result (ops ! p)))
    \<Longrightarrow> goes_to (opcode (ops ! p)) v (bs ! t) = Some u \<Longrightarrow> leads ops bs K v u w \<Longrightarrow> leads ops bs K v t w"

text \<open>The variables that the jump \<open>o1\<close> has tested or set: its operand and its result.\<close>

definition tested :: "var_enc \<Rightarrow> zend_op \<Rightarrow> znode \<Rightarrow> bool" where
  "tested E o1 z \<longleftrightarrow> VAR_NUM_EX E z = VAR_NUM_EX E (op1 o1) \<and> op_ty z = op_ty (op1 o1)
     \<or> opcode o1 \<in> ex_jumps \<and> is_temp z \<and> VAR_NUM E (num z) = VAR_NUM E (num (result o1))"

text \<open>Block \<open>t\<close>, whose first instruction is at \<open>p\<close>, is where the NOPs from block \<open>t0\<close> lead to.\<close>

definition found_from :: "zend_op list \<Rightarrow> zend_code_block list \<Rightarrow> nat \<Rightarrow> nat \<Rightarrow> nat \<Rightarrow> bool" where
  "found_from ops bs t0 t p \<longleftrightarrow>
     t < length bs \<and> placed (length ops) (bs ! t) \<and> sources (bs ! t) \<noteq> [] \<and> first_op ops (bs ! t) = Some (Some p)
     \<and> (\<forall>K v w. leads ops bs K v t w \<longrightarrow> leads ops bs K v t0 w)"

lemma leads_nops_to:
  assumes s: "links_ok (length ops) bs" "jumps_ok ops bs" and t: "t < length bs" "placed (length ops) (bs ! t)" "sources (bs ! t) \<noteq> []"
  shows "\<exists>u p. next_target ops bs (Some t) = Some (u, p) \<and> found_from ops bs t u p"
  using t
proof (induction "length bs - t" arbitrary: t rule: less_induct)
  case less
  obtain f where f: "first_op ops (bs ! t) = Some f"
    using placed_pos [OF less.prems(2)] by (cases "block_len (bs ! t) = 0") (simp_all add: first_op_def)
  have n: "next_target ops bs (Some t) = (case f of Some p \<Rightarrow> Some (t, p) | None \<Rightarrow> next_target ops bs (follow_to (bs ! t)))"
    using less.prems(1) f by (subst next_target.simps) simp
  show ?case
  proof (cases f)
    case (Some p)
    then show ?thesis using n f less.prems by (intro exI [of _ t] exI [of _ p]) (simp add: found_from_def)
  next
    case None
    then obtain u where u: "follow_to (bs ! t) = Some u" using jumps_okD(1) [OF s(2) less.prems] f by blast
    have l: "t < u" "u < length bs" "placed (length ops) (bs ! u)" "sources (bs ! u) \<noteq> []"
      using links_okD(4) [OF s(1) less.prems(1,2) u] links_okD(1) [OF s(1) less.prems(1,2) succs_simps(4) [OF u]] by simp_all
    then obtain w p where w: "next_target ops bs (Some u) = Some (w, p)" "found_from ops bs u w p" using less.hyps [of u] by fastforce
    have "leads ops bs K v t x" if "leads ops bs K v w x" for K v x
    proof (rule Leads_Nops [OF _ u])
      show "first_op ops (bs ! t) = Some None" using f None by simp
      show "leads ops bs K v u x" using w(2) that by (simp add: found_from_def)
    qed
    then have "found_from ops bs t w p" using w(2) by (simp add: found_from_def)
    then show ?thesis using n None u w(1) by simp
  qed
qed

section \<open>Removing references\<close>

lemma replace_from_none: "old \<notin> set l \<Longrightarrow> new \<notin> set l \<Longrightarrow> replace_from old new fnd l = Some l"
  by (induction old new fnd l rule: replace_from.induct) auto

lemma replace_from_new: "old \<notin> set l \<Longrightarrow> distinct l \<Longrightarrow> replace_from old new False l = Some l"
proof (induction l)
  case (Cons x l)
  show ?case
  proof (cases "x = new")
    case True
    then have "replace_from old new True l = Some l" using Cons.prems by (intro replace_from_none) auto
    then show ?thesis using True Cons.prems by (cases l) auto
  next
    case False
    then show ?thesis using Cons by (cases l) auto
  qed
qed simp

lemma replace_from_old:
  "new \<notin> set l \<Longrightarrow> distinct l \<Longrightarrow> replace_from old new False l = Some (map (\<lambda>x. if x = old then new else x) l)"
proof (induction l)
  case (Cons x l)
  show ?case
  proof (cases "x = old")
    case True
    then have "old \<notin> set l" using Cons.prems by auto
    then have "replace_from old new True l = Some l" "map (\<lambda>x. if x = old then new else x) l = l"
      using Cons.prems by (auto intro: replace_from_none map_idI)
    then show ?thesis using True Cons.prems by (cases l) auto
  next
    case False
    then show ?thesis using Cons by (cases l) auto
  qed
qed simp

text \<open>No block has both \<open>to\<close> and \<open>fb\<close> among its predecessors.\<close>

definition src_clean :: "nat \<Rightarrow> nat \<Rightarrow> zend_code_block list \<Rightarrow> bool" where
  "src_clean to fb bs \<longleftrightarrow> (\<forall>t < length bs. distinct (sources (bs ! t)) \<and> \<not> (to \<in> set (sources (bs ! t)) \<and> fb \<in> set (sources (bs ! t))))"

text \<open>What stays when only references change.\<close>

definition only_sources :: "'x cfg_state \<Rightarrow> 'x cfg_state \<Rightarrow> bool" where
  "only_sources S S' \<longleftrightarrow> cs_code S' = cs_code S \<and> length (cs_blocks S') = length (cs_blocks S)
     \<and> (\<forall>t < length (cs_blocks S). (blk S' t)\<lparr>sources := []\<rparr> = (blk S t)\<lparr>sources := []\<rparr>)"

lemma same_but_sources:
  assumes "x\<lparr>sources := []\<rparr> = y\<lparr>sources := []\<rparr>"
  shows "targets x = targets y" "start_opline x = start_opline y" "block_len x = block_len y" "access x = access y" "protected x = protected y"
    "op1_to x = op1_to y" "op2_to x = op2_to y" "ext_to x = ext_to y" "follow_to x = follow_to y"
  using arg_cong [OF assms, of access] arg_cong [OF assms, of start_opline] arg_cong [OF assms, of block_len] arg_cong [OF assms, of op1_to]
    arg_cong [OF assms, of op2_to] arg_cong [OF assms, of ext_to] arg_cong [OF assms, of follow_to] arg_cong [OF assms, of protected]
  by (simp_all add: targets_def)

lemma only_sources_trans: "only_sources S S1 \<Longrightarrow> only_sources S1 S2 \<Longrightarrow> only_sources S S2"
  by (simp add: only_sources_def)

lemma replace_in_ok:
  assumes c: "src_clean to fb (cs_blocks S)" "to \<noteq> fb" and t: "\<And>x. t = Some x \<Longrightarrow> x < length (cs_blocks S)"
  shows "\<exists>S'. replace_in t to fb S = Some S' \<and> only_sources S S' \<and> src_clean to fb (cs_blocks S')"
proof (cases t)
  case None
  then show ?thesis using c by (simp add: replace_in_def only_sources_def)
next
  case (Some x)
  have x: "x < length (cs_blocks S)" by (rule t [OF Some])
  let ?l = "sources (blk S x)"
  have d: "distinct ?l" "to \<notin> set ?l \<or> fb \<notin> set ?l" using c(1) x by (auto simp: src_clean_def)
  obtain l where l: "replace_from to fb False ?l = Some l" "distinct l" "to \<notin> set l \<or> fb \<notin> set l"
  proof (cases "to \<in> set ?l")
    case True
    then have "fb \<notin> set ?l" using d by blast
    then have "replace_from to fb False ?l = Some (map (\<lambda>x. if x = to then fb else x) ?l)" using d(1) by (rule replace_from_old)
    moreover have "distinct (map (\<lambda>x. if x = to then fb else x) ?l)"
      using d(1) \<open>fb \<notin> set ?l\<close> by (auto simp: distinct_map inj_on_def)
    moreover have "to \<notin> set (map (\<lambda>x. if x = to then fb else x) ?l)" using c(2) by auto
    ultimately show ?thesis using that by blast
  next
    case False
    then show ?thesis using that [of ?l] replace_from_new [OF False d(1)] d by blast
  qed
  have "replace_in t to fb S = Some (set_blk x (\<lambda>b. b\<lparr>sources := l\<rparr>) S)"
    using Some x c(2) l(1) by (simp add: replace_in_def replace_source_def)
  moreover have "only_sources S (set_blk x (\<lambda>b. b\<lparr>sources := l\<rparr>) S)" by (simp add: only_sources_def)
  moreover have "src_clean to fb (cs_blocks (set_blk x (\<lambda>b. b\<lparr>sources := l\<rparr>) S))"
    using c(1) l(2,3) by (auto simp: src_clean_def)
  ultimately show ?thesis by blast
qed

lemma upd_block_at: "t < length bs \<Longrightarrow> upd_block n f bs ! t = (if t = n then f (bs ! n) else bs ! t)"
  by (simp add: upd_block_def)

lemma sources_upd: "(\<And>b. sources (f b) = sources b) \<Longrightarrow> sources (upd_block n f bs ! t) = sources (bs ! t)"
  by (cases "n = t"; cases "t < length bs") (simp_all add: upd_block_def list_update_beyond)

lemma src_clean_upd: "(\<And>b. sources (f b) = sources b) \<Longrightarrow> src_clean to fb (upd_block n f bs) = src_clean to fb bs"
  unfolding src_clean_def by (simp only: sources_upd length_upd_block)

text \<open>Only the block \<open>fb\<close> gets other targets.\<close>

definition same_targets :: "zend_code_block \<Rightarrow> zend_code_block \<Rightarrow> bool" where
  "same_targets x y \<longleftrightarrow> op1_to x = op1_to y \<and> op2_to x = op2_to y \<and> ext_to x = ext_to y \<and> follow_to x = follow_to y"

definition changes_only :: "nat \<Rightarrow> 'x cfg_state \<Rightarrow> 'x cfg_state \<Rightarrow> bool" where
  "changes_only fb S S' \<longleftrightarrow> length (cs_blocks S') = length (cs_blocks S)
     \<and> (\<forall>t < length (cs_blocks S). t \<noteq> fb \<longrightarrow> same_targets (blk S' t) (blk S t))"

lemma changes_only_trans: "changes_only fb S S1 \<Longrightarrow> changes_only fb S1 S2 \<Longrightarrow> changes_only fb S S2"
  by (simp add: changes_only_def same_targets_def)

lemma changes_only_sources: "only_sources S S' \<Longrightarrow> changes_only fb S S'"
  by (auto simp: only_sources_def changes_only_def same_targets_def dest: same_but_sources)

lemma changes_only_upd: "n = fb \<or> (\<forall>b. same_targets (f b) b) \<Longrightarrow> changes_only fb S (set_blk n f S)"
  by (auto simp: changes_only_def same_targets_def upd_block_at)

lemma replace_step:
  assumes c: "src_clean to fb (cs_blocks S)" "to \<noteq> fb" and t: "\<And>x. t = Some x \<Longrightarrow> x < length (cs_blocks S)"
    and f: "\<And>b. sources (f b) = sources b"
  shows "\<exists>S'. (if t = None then Some S else replace_in t to fb (set_blk fb f S)) = Some S' \<and> changes_only fb S S' \<and> src_clean to fb (cs_blocks S')"
proof (cases "t = None")
  case True
  then show ?thesis using c by (simp add: changes_only_def same_targets_def)
next
  case False
  have "src_clean to fb (cs_blocks (set_blk fb f S))" using c(1) by (simp add: src_clean_upd [OF f])
  then obtain S' where "replace_in t to fb (set_blk fb f S) = Some S'" "only_sources (set_blk fb f S) S'" "src_clean to fb (cs_blocks S')"
    using replace_in_ok [of to fb "set_blk fb f S" t] c(2) t by auto
  moreover have "changes_only fb S (set_blk fb f S)" by (rule changes_only_upd) simp
  ultimately show ?thesis using False changes_only_trans changes_only_sources by fastforce
qed

lemma join_ok:
  assumes l: "to < length (cs_blocks S)" "fb < length (cs_blocks S)" "to \<noteq> fb"
    and pl: "placed (length (cs_ops S)) (blk S to)" "placed (length (cs_ops S)) (blk S fb)" "block_at (blk S fb) + block_len (blk S fb) \<le> block_at (blk S to)"
    and c: "\<And>t. t < length (cs_blocks S) \<Longrightarrow> t \<noteq> to \<Longrightarrow> distinct (sources (blk S t)) \<and> fb \<notin> set (sources (blk S t))"
    and u: "\<And>x. x \<in> succs (blk S to) \<Longrightarrow> x < length (cs_blocks S)"
  shows "\<exists>S'. join_blocks to fb S = Some S' \<and> changes_only fb S S'"
proof -
  let ?t = "blk S to"
  have "move_code (block_at (blk S fb) + block_len (blk S fb)) (block_at ?t) (block_len ?t) (cs_ops S) \<noteq> None"
    using placed_pos [OF pl(1)] pl(3) by (simp add: move_code_def)
  then obtain ops where ops: "move_code (block_at (blk S fb) + block_len (blk S fb)) (block_at ?t) (block_len ?t) (cs_ops S) = Some ops" by blast
  define S1 where "S1 = S\<lparr>cs_code := (cs_code S)\<lparr>opcodes := ops\<rparr>\<rparr>"
  define S4 where "S4 = set_blk fb (\<lambda>b. b\<lparr>follow_to := follow_to ?t\<rparr>) (set_blk to (\<lambda>b. b\<lparr>start_opline := Null, access := False, sources := []\<rparr>)
    (set_blk fb (\<lambda>b. b\<lparr>block_len := block_len b + block_len ?t\<rparr>) S1))"
  have len: "length (cs_blocks S4) = length (cs_blocks S)" by (simp add: S4_def S1_def)
  have c4: "src_clean to fb (cs_blocks S4)"
    using c l by (auto simp: src_clean_def S4_def S1_def upd_block_at)
  have k4: "changes_only fb S S4" using l by (auto simp: changes_only_def same_targets_def S4_def S1_def upd_block_at)
  have x: "\<And>x. op1_to ?t = Some x \<Longrightarrow> x < length (cs_blocks S)" "\<And>x. op2_to ?t = Some x \<Longrightarrow> x < length (cs_blocks S)"
    "\<And>x. ext_to ?t = Some x \<Longrightarrow> x < length (cs_blocks S)" "\<And>x. follow_to ?t = Some x \<Longrightarrow> x < length (cs_blocks S)"
    using u succs_simps by blast+
  obtain S5 where S5: "(if op1_to ?t = None then Some S4 else replace_in (op1_to ?t) to fb (set_blk fb (\<lambda>b. b\<lparr>op1_to := op1_to ?t\<rparr>) S4)) = Some S5"
    "changes_only fb S4 S5" "src_clean to fb (cs_blocks S5)"
    using replace_step [OF c4 l(3), of "op1_to ?t" "\<lambda>b. b\<lparr>op1_to := op1_to ?t\<rparr>"] x(1) len by auto
  have len5: "length (cs_blocks S5) = length (cs_blocks S)" using S5(2) len by (simp add: changes_only_def)
  obtain S6 where S6: "(if op2_to ?t = None then Some S5 else replace_in (op2_to ?t) to fb (set_blk fb (\<lambda>b. b\<lparr>op2_to := op2_to ?t\<rparr>) S5)) = Some S6"
    "changes_only fb S5 S6" "src_clean to fb (cs_blocks S6)"
    using replace_step [OF S5(3) l(3), of "op2_to ?t" "\<lambda>b. b\<lparr>op2_to := op2_to ?t\<rparr>"] x(2) len5 by auto
  have len6: "length (cs_blocks S6) = length (cs_blocks S)" using S6(2) len5 by (simp add: changes_only_def)
  obtain S7 where S7: "(if ext_to ?t = None then Some S6 else replace_in (ext_to ?t) to fb (set_blk fb (\<lambda>b. b\<lparr>ext_to := ext_to ?t\<rparr>) S6)) = Some S7"
    "changes_only fb S6 S7" "src_clean to fb (cs_blocks S7)"
    using replace_step [OF S6(3) l(3), of "ext_to ?t" "\<lambda>b. b\<lparr>ext_to := ext_to ?t\<rparr>"] x(3) len6 by auto
  have len7: "length (cs_blocks S7) = length (cs_blocks S)" using S7(2) len6 by (simp add: changes_only_def)
  obtain S8 where S8: "replace_in (follow_to ?t) to fb S7 = Some S8" "only_sources S7 S8"
    using replace_in_ok [OF S7(3) l(3), of "follow_to ?t"] x(4) len7 by auto
  have "join_blocks to fb S = Some S8"
    by (simp only: join_blocks_def Let_def placed_pos [OF pl(1)] placed_pos [OF pl(2)] ops Option.bind.simps
        S5(1) [unfolded S4_def S1_def] S6(1) S7(1) S8(1))
  moreover have "changes_only fb S S8"
    using k4 S5(2) S6(2) S7(2) changes_only_sources [OF S8(2)] by (meson changes_only_trans)
  ultimately show ?thesis by blast
qed

text \<open>Removing a reference only changes the targets of blocks that have no jump at their end.\<close>

definition keeps_jumps :: "'x cfg_state \<Rightarrow> 'x cfg_state \<Rightarrow> bool" where
  "keeps_jumps S S' \<longleftrightarrow> length (cs_blocks S') = length (cs_blocks S)
     \<and> (\<forall>t < length (cs_blocks S). op1_to (blk S t) \<noteq> None \<or> op2_to (blk S t) \<noteq> None \<or> ext_to (blk S t) \<noteq> None
          \<longrightarrow> same_targets (blk S' t) (blk S t))"

lemma changes_only_keeps:
  "changes_only fb S S' \<Longrightarrow> op1_to (blk S fb) = None \<Longrightarrow> op2_to (blk S fb) = None \<Longrightarrow> ext_to (blk S fb) = None \<Longrightarrow> keeps_jumps S S'"
  by (auto simp: changes_only_def keeps_jumps_def)

lemma changes_none_keeps: "(\<And>fb. changes_only fb S S') \<Longrightarrow> keeps_jumps S S'"
  unfolding keeps_jumps_def changes_only_def by (metis n_not_Suc_n)

lemma follower_source:
  assumes s: "links_ok n bs" and fb: "fb < length bs" "placed n (bs ! fb)" "succs (bs ! fb) \<subseteq> {to}" and t: "t < length bs" "t \<noteq> to"
  shows "distinct (sources (bs ! t)) \<and> fb \<notin> set (sources (bs ! t))"
proof (cases "placed n (bs ! t)")
  case True
  show ?thesis
  proof (intro conjI notI)
    show "distinct (sources (bs ! t))" by (rule links_okD(2) [OF s t(1) True])
    assume "fb \<in> set (sources (bs ! t))"
    then have "t \<in> succs (bs ! fb)" using links_okD(3) [OF s t(1) True] by simp
    then show False using fb(3) t(2) by auto
  qed
next
  case False
  then have "sources (bs ! t) = []" using s t(1) unfolding links_ok_def by (metis (no_types, lifting))
  then show ?thesis by simp
qed

lemma del_source_ok:
  assumes s: "links_ok (length (cs_ops S)) (cs_blocks S)" and to: "to < length (cs_blocks S)" "placed (length (cs_ops S)) (blk S to)"
  shows "\<exists>S'. del_source b (Some to) S = Some S' \<and> keeps_jumps S S'"
proof -
  define S1 where "S1 = set_blk to (\<lambda>x. x\<lparr>sources := remove1 b (sources x)\<rparr>) S"
  have S1: "cs_ops S1 = cs_ops S" "length (cs_blocks S1) = length (cs_blocks S)" by (simp_all add: S1_def)
  have at: "t < length (cs_blocks S) \<Longrightarrow> t \<noteq> to \<Longrightarrow> blk S1 t = blk S t" for t by (simp add: S1_def upd_block_at)
  have at_to: "blk S1 to = (blk S to)\<lparr>sources := remove1 b (sources (blk S to))\<rparr>" using to(1) by (simp add: S1_def upd_block_at)
  have k1: "changes_only fb S S1" for fb by (simp add: S1_def changes_only_upd same_targets_def)
  have del: "del_source b (Some to) S =
    (case sources (blk S1 to) of
       [] \<Rightarrow> Some (set_blk to (\<lambda>b. b\<lparr>access := False\<rparr>) S1)
     | [fb] \<Rightarrow>
         if \<not> protected (blk S1 to) \<and> access (blk S1 fb) \<and> follow_to (blk S1 fb) = Some to
            \<and> op1_to (blk S1 fb) = None \<and> op2_to (blk S1 fb) = None \<and> ext_to (blk S1 fb) = None
         then join_blocks to fb S1 else Some S1
     | _ \<Rightarrow> Some S1)"
    using to(1) unfolding del_source_def S1_def Let_def by (simp only: option.case not_True_eq_False if_False)
  consider (none) "sources (blk S1 to) = []" | (many) x y l where "sources (blk S1 to) = x # y # l" | (one) fb where "sources (blk S1 to) = [fb]"
    by (metis list.exhaust)
  then show ?thesis
  proof cases
    case none
    have "changes_only fb S1 (set_blk to (\<lambda>b. b\<lparr>access := False\<rparr>) S1)" for fb by (simp add: changes_only_upd same_targets_def)
    then have "keeps_jumps S (set_blk to (\<lambda>b. b\<lparr>access := False\<rparr>) S1)" using k1 changes_only_trans by (intro changes_none_keeps) blast
    then show ?thesis using none by (simp add: del)
  next
    case many
    then show ?thesis using changes_none_keeps [OF k1] by (simp add: del)
  next
    case one
    show ?thesis
    proof (cases "\<not> protected (blk S1 to) \<and> access (blk S1 fb) \<and> follow_to (blk S1 fb) = Some to
      \<and> op1_to (blk S1 fb) = None \<and> op2_to (blk S1 fb) = None \<and> ext_to (blk S1 fb) = None")
      case False
      then have "del_source b (Some to) S = Some S1" using one by (simp only: del list.case if_False)
      then show ?thesis using changes_none_keeps [OF k1] by blast
    next
      case True
      have "remove1 b (sources (blk S to)) = [fb]" using one at_to by simp
      then have "fb \<in> set (sources (blk S to))" by (metis list.set_intros(1) notin_set_remove1)
      from links_okD(3) [OF s to this] have fb: "fb < length (cs_blocks S)" "placed (length (cs_ops S)) (blk S fb)" by simp_all
      have tg: "same_targets (blk S1 fb) (blk S fb)" using at [OF fb(1)] at_to by (cases "fb = to") (simp_all add: same_targets_def)
      then have f: "follow_to (blk S fb) = Some to" "op1_to (blk S fb) = None" "op2_to (blk S fb) = None" "ext_to (blk S fb) = None"
        using True by (simp_all add: same_targets_def)
      have o: "fb < to" "block_at (blk S fb) + block_len (blk S fb) \<le> block_at (blk S to)"
        using links_okD(4) [OF s fb f(1)] by simp_all
      have su: "succs (blk S fb) \<subseteq> {to}" using f by (simp add: succs_def targets_def)
      obtain S' where S': "join_blocks to fb S1 = Some S'" "changes_only fb S1 S'"
      proof -
        have "\<exists>S'. join_blocks to fb S1 = Some S' \<and> changes_only fb S1 S'"
        proof (rule join_ok)
          show "to < length (cs_blocks S1)" "fb < length (cs_blocks S1)" "to \<noteq> fb" using to(1) fb(1) o(1) S1 by simp_all
          show "placed (length (cs_ops S1)) (blk S1 to)" "placed (length (cs_ops S1)) (blk S1 fb)"
            "block_at (blk S1 fb) + block_len (blk S1 fb) \<le> block_at (blk S1 to)"
            using to(2) fb o at [OF fb(1)] at_to S1 by (simp_all add: placed_def block_at_def split: op_ptr.splits)
          show "distinct (sources (blk S1 t)) \<and> fb \<notin> set (sources (blk S1 t))" if "t < length (cs_blocks S1)" "t \<noteq> to" for t
            using follower_source [OF s fb su, of t] at [of t] S1 that by simp
          show "x < length (cs_blocks S1)" if "x \<in> succs (blk S1 to)" for x
            using links_okD(1) [OF s to, of x] that S1 at_to by (simp add: succs_def targets_def)
        qed
        then show ?thesis using that by blast
      qed
      have "changes_only fb S S'" by (rule changes_only_trans [OF k1 S'(2)])
      then have "keeps_jumps S S'" using f by (intro changes_only_keeps)
      then show ?thesis using one True S'(1) by (simp add: del)
    qed
  qed
qed

lemma retarget2_ok:
  assumes s: "links_ok (length (cs_ops S)) (cs_blocks S)" and b: "b < length (cs_blocks S)" "placed (length (cs_ops S)) (blk S b)" "op2_to (blk S b) = Some to"
    and g: "\<And>S1. keeps_jumps S S1 \<Longrightarrow> g S1 = Some u" "u < length (cs_blocks S)"
  shows "\<exists>S'. retarget2 b g S = Some S' \<and> op2_to (blk S' b) = Some u"
proof -
  have to: "to < length (cs_blocks S)" "placed (length (cs_ops S)) (blk S to)"
    using links_okD(1) [OF s b(1,2) succs_simps(2) [OF b(3)]] by simp_all
  obtain S1 where S1: "del_source b (Some to) S = Some S1" "keeps_jumps S S1" using del_source_ok [OF s to] by blast
  have l: "length (cs_blocks S1) = length (cs_blocks S)" using S1(2) by (simp add: keeps_jumps_def)
  have "retarget2 b g S = Some (set_blk b (\<lambda>x. x\<lparr>op2_to := Some u\<rparr>) S1
      \<lparr>cs_blocks := ADD_SOURCE b u (cs_blocks (set_blk b (\<lambda>x. x\<lparr>op2_to := Some u\<rparr>) S1))\<rparr>)"
    using b(3) S1 g l by (simp add: retarget2_def add_source_def Let_def)
  then show ?thesis using b(1) l g(2) by (auto simp: ADD_SOURCE_def upd_block_at)
qed

section \<open>Threading conditional jumps\<close>

text \<open>The jump is given the target that \<open>get\<close> reads from the block \<open>t\<close>.\<close>

lemma retarget_to:
  assumes s: "links_ok (length (cs_ops S)) (cs_blocks S)" and b: "b < length (cs_blocks S)" "placed (length (cs_ops S)) (blk S b)" "op2_to (blk S b) = Some t0"
    and t: "t < length (cs_blocks S)" "placed (length (cs_ops S)) (blk S t)" "op1_to (blk S t) \<noteq> None \<or> op2_to (blk S t) \<noteq> None \<or> ext_to (blk S t) \<noteq> None"
    and get: "get (blk S t) = Some u" "u \<in> succs (blk S t)" "\<And>x y. same_targets x y \<Longrightarrow> get x = get y"
  shows "\<exists>S'. retarget2 b (\<lambda>S. get (blk S t)) S = Some S' \<and> op2_to (blk S' b) = Some u"
proof (rule retarget2_ok [OF s b])
  show "get (blk S1 t) = Some u" if "keeps_jumps S S1" for S1
  proof -
    have "same_targets (blk S1 t) (blk S t)" using that t(1,3) unfolding keeps_jumps_def by blast
    then show ?thesis using get(1) get(3) by simp
  qed
  show "u < length (cs_blocks S)" using links_okD(1) [OF s t(1,2) get(2)] by simp
qed

text \<open>The jump that a JMPZ or JMPNZ becomes when it takes over the result of the jump at \<open>p\<close>.\<close>

definition with_result :: "zend_op \<Rightarrow> zend_op \<Rightarrow> zend_op" where
  "with_result target o1 = o1\<lparr>opcode := opcode o1 + 3, result := (result o1)\<lparr>num := num (result target)\<rparr>\<rparr>"


lemma retarget_found:
  assumes s: "links_ok (length (cs_ops S)) (cs_blocks S)"
    and b: "b < length (cs_blocks S)" "placed (length (cs_ops S)) (blk S b)" "op2_to (blk S b) = Some t0"
    and f: "found_from (cs_ops S) (cs_blocks S) t0 t p" and get: "get \<in> {op1_to, op2_to, ext_to, follow_to}" "get (blk S t) = Some u"
    and j: "op1_to (blk S t) \<noteq> None \<or> op2_to (blk S t) \<noteq> None \<or> ext_to (blk S t) \<noteq> None"
    and l: "leads (cs_ops S) (cs_blocks S) K v t u"
  shows "\<exists>S' t'. retarget2 b (\<lambda>S. get (blk S t)) S = Some S' \<and> op2_to (blk S' b) = Some t' \<and> leads (cs_ops S) (cs_blocks S) K v t0 t'"
proof -
  have t: "t < length (cs_blocks S)" "placed (length (cs_ops S)) (blk S t)" using f by (simp_all add: found_from_def)
  have "u \<in> succs (blk S t)" using get by (auto intro: succs_simps)
  moreover have "get x = get y" if "same_targets x y" for x y using get(1) that by (auto simp: same_targets_def)
  ultimately have "\<exists>S'. retarget2 b (\<lambda>S. get (blk S t)) S = Some S' \<and> op2_to (blk S' b) = Some u"
    using get(2) by (intro retarget_to [OF s b t j])
  moreover have "leads (cs_ops S) (cs_blocks S) K v t0 u" using f l by (simp add: found_from_def)
  ultimately show ?thesis by blast
qed

text \<open>The two reasons to go on: a test with a known result, and a JMP.\<close>

lemma retarget_test:
  assumes s: "links_ok (length (cs_ops S)) (cs_blocks S)"
    and b: "b < length (cs_blocks S)" "placed (length (cs_ops S)) (blk S b)" "op2_to (blk S b) = Some t0"
    and f: "found_from (cs_ops S) (cs_blocks S) t0 t p" and get: "get \<in> {op1_to, op2_to, ext_to, follow_to}" "get (blk S t) \<noteq> None"
    and j: "op2_to (blk S t) \<noteq> None"
    and K: "K (op1 (cs_ops S ! p))" "opcode (cs_ops S ! p) \<in> ex_jumps \<Longrightarrow> K (result (cs_ops S ! p))"
    and g: "goes_to (opcode (cs_ops S ! p)) v (blk S t) = get (blk S t)"
  shows "\<exists>S' t'. retarget2 b (\<lambda>S. get (blk S t)) S = Some S' \<and> op2_to (blk S' b) = Some t' \<and> leads (cs_ops S) (cs_blocks S) K v t0 t'"
proof -
  obtain u where u: "get (blk S t) = Some u" using get(2) by blast
  have "leads (cs_ops S) (cs_blocks S) K v t u"
    by (rule Leads_Test [where p = p and u = u]) (use f K g u in \<open>simp_all add: found_from_def Leads_Here\<close>)
  from retarget_found [OF s b f get(1) u _ this] j show ?thesis by blast
qed

lemma retarget_jmp:
  assumes s: "links_ok (length (cs_ops S)) (cs_blocks S)"
    and b: "b < length (cs_blocks S)" "placed (length (cs_ops S)) (blk S b)" "op2_to (blk S b) = Some t0"
    and f: "found_from (cs_ops S) (cs_blocks S) t0 t p" and j: "op1_to (blk S t) \<noteq> None" "opcode (cs_ops S ! p) = ZEND_JMP"
  shows "\<exists>S' t'. retarget2 b (\<lambda>S. op1_to (blk S t)) S = Some S' \<and> op2_to (blk S' b) = Some t' \<and> leads (cs_ops S) (cs_blocks S) K v t0 t'"
proof -
  obtain u where u: "op1_to (blk S t) = Some u" using j(1) by blast
  have "leads (cs_ops S) (cs_blocks S) K v t u"
    by (rule Leads_Jmp [where p = p and u = u]) (use f j u in \<open>simp_all add: found_from_def Leads_Here\<close>)
  from retarget_found [where get = op1_to, OF s b f _ u _ this] j show ?thesis by simp
qed

lemma not_retargeted: "op2_to (blk S b) = Some t0 \<Longrightarrow>
  \<exists>S' t'. Some S = Some S' \<and> op2_to (blk S' b) = Some t' \<and> leads (cs_ops S) (cs_blocks S) K v t0 t'"
  using Leads_Here by blast

lemma next_target_found:
  assumes s: "links_ok (length (cs_ops S)) (cs_blocks S)" "jumps_ok (cs_ops S) (cs_blocks S)"
    and b: "b < length (cs_blocks S)" "placed (length (cs_ops S)) (blk S b)" "op2_to (blk S b) = Some t0"
  shows "\<exists>t p. next_target (cs_ops S) (cs_blocks S) (Some t0) = Some (t, p) \<and> found_from (cs_ops S) (cs_blocks S) t0 t p"
proof -
  have "t0 < length (cs_blocks S)" "placed (length (cs_ops S)) (blk S t0)" "sources (blk S t0) \<noteq> []"
    using links_okD(1) [OF s(1) b(1,2) succs_simps(2) [OF b(3)]] by simp_all
  then show ?thesis by (rule leads_nops_to [OF s])
qed

lemma found_cond:
  assumes "jumps_ok (cs_ops S) (cs_blocks S)" "found_from (cs_ops S) (cs_blocks S) t0 t p" "opcode (cs_ops S ! p) \<in> {ZEND_JMPZ, ZEND_JMPNZ} \<union> ex_jumps"
  shows "op2_to (blk S t) \<noteq> None \<and> follow_to (blk S t) \<noteq> None \<and> (opcode (cs_ops S ! p) \<in> ex_jumps \<longrightarrow> is_temp (result (cs_ops S ! p)))"
proof -
  have t: "t < length (cs_blocks S)" "placed (length (cs_ops S)) (blk S t)" "sources (blk S t) \<noteq> []"
    and p: "first_op (cs_ops S) (blk S t) = Some (Some p)" using assms(2) by (simp_all add: found_from_def)
  show ?thesis using jumps_okD(2,3) [OF assms(1) t p] assms(3) by simp
qed

text \<open>The outcome that is shown of each alternative.\<close>

definition threaded :: "'x cfg_state \<Rightarrow> nat \<Rightarrow> (znode \<Rightarrow> bool) \<Rightarrow> bool \<Rightarrow> nat \<Rightarrow> 'x cfg_state option \<Rightarrow> bool" where
  "threaded S b K v t0 r \<longleftrightarrow>
     (\<exists>S' t'. r = Some S' \<and> op2_to (blk S' b) = Some t' \<and> leads (cs_ops S) (cs_blocks S) K v t0 t')"

lemma if_both: "(c \<Longrightarrow> P x) \<Longrightarrow> (\<not> c \<Longrightarrow> P y) \<Longrightarrow> P (if c then x else y)"
  by simp

lemma thread_znz_sound:
  assumes s: "links_ok (length (cs_ops S)) (cs_blocks S)" "jumps_ok (cs_ops S) (cs_blocks S)"
    and b: "b < length (cs_blocks S)" "placed (length (cs_ops S)) (blk S b)" "op2_to (blk S b) = Some t0"
    and k: "opcode (cs_ops S ! k) = ZEND_JMPZNZ" "VAR_NUM_EX E (op1 (cs_ops S ! k)) < 256"
  shows "threaded S b (tested E (cs_ops S ! k)) False t0 (thread_znz E b k S)"
proof -
  obtain t p where n: "next_target (cs_ops S) (cs_blocks S) (Some t0) = Some (t, p)" and f: "found_from (cs_ops S) (cs_blocks S) t0 t p"
    using next_target_found [OF s b] by blast
  let ?o1 = "cs_ops S ! k" and ?tg = "cs_ops S ! p" and ?tb = "blk S t"
  let ?same = "tests_var E (op1 ?o1) (VAR_NUM_EX E (op1 ?o1)) (op1 ?tg)"
  let ?P = "threaded S b (tested E ?o1) False t0"
  have K: "?same \<Longrightarrow> tested E ?o1 (op1 ?tg)" by (simp add: tests_var_def tested_def)
  note test = retarget_test [OF s(1) b f, where K = "tested E ?o1" and v = False, folded threaded_def]
  have c1: "?P (retarget2 b (\<lambda>S. op2_to (blk S t)) S)" if "op2_to ?tb \<noteq> None" "opcode ?tg = ZEND_JMPZ \<or> opcode ?tg = ZEND_JMPZNZ" ?same
    by (rule test) (use that K in \<open>auto simp: goes_to_def ex_jumps_def\<close>)
  have c2: "?P (retarget2 b (\<lambda>S. follow_to (blk S t)) S)" if "opcode ?tg = ZEND_JMPNZ" "follow_to ?tb \<noteq> None" ?same
    by (rule test) (use that K found_cond [OF s(2) f] in \<open>auto simp: goes_to_def ex_jumps_def\<close>)
  have c3: "?P (retarget2 b (\<lambda>S. op1_to (blk S t)) S)" if "op1_to ?tb \<noteq> None" "opcode ?tg = ZEND_JMP"
    by (rule retarget_jmp [OF s(1) b f that, folded threaded_def])
  have c4: "?P (Some S)" by (rule not_retargeted [OF b(3), folded threaded_def])
  have eq: "thread_znz E b k S =
    (if op2_to ?tb \<noteq> None \<and> (opcode ?tg = ZEND_JMPZ \<or> opcode ?tg = ZEND_JMPZNZ) \<and> ?same \<and> \<not> protected ?tb then retarget2 b (\<lambda>S. op2_to (blk S t)) S
     else if opcode ?tg = ZEND_JMPNZ \<and> ?same \<and> follow_to ?tb \<noteq> None \<and> \<not> protected ?tb then retarget2 b (\<lambda>S. follow_to (blk S t)) S
     else if op1_to ?tb \<noteq> None \<and> opcode ?tg = ZEND_JMP \<and> \<not> protected ?tb then retarget2 b (\<lambda>S. op1_to (blk S t)) S
     else Some S)"
    by (simp only: thread_znz_def Let_def b(3) n k(1) mod_less [OF k(2)] Option.bind.simps prod.case option.simps simp_thms if_False)
  show ?thesis unfolding eq by (intro if_both [where P = ?P]; (elim conjE)?; (rule c4 | rule c1 c2 c3; assumption))
qed

lemma with_result_fun: "with_result target = (\<lambda>x. x\<lparr>opcode := opcode x + 3, result := (result x)\<lparr>num := num (result target)\<rparr>\<rparr>)"
  by (rule ext) (simp add: with_result_def)

lemma thread_cond_sound:
  assumes s: "links_ok (length (cs_ops S)) (cs_blocks S)" "jumps_ok (cs_ops S) (cs_blocks S)"
    and b: "b < length (cs_blocks S)" "placed (length (cs_ops S)) (blk S b)" "op2_to (blk S b) = Some t0"
    and k: "opcode (cs_ops S ! k) \<in> {ZEND_JMPZ, ZEND_JMPNZ}"
  shows "threaded S b (tested E (cs_ops S ! k)) (opcode (cs_ops S ! k) = ZEND_JMPNZ) t0 (thread_cond E b k S)
    \<or> (\<exists>u p. next_target (cs_ops S) (cs_blocks S) (Some t0) = Some (u, p)
        \<and> thread_cond E b k S = retarget2 b (\<lambda>S. follow_to (blk S u)) (set_op k (with_result (cs_ops S ! p)) S)
        \<and> threaded S b (tested E (with_result (cs_ops S ! p) (cs_ops S ! k))) (opcode (cs_ops S ! k) = ZEND_JMPNZ) t0 (thread_cond E b k S))"
    (is "?P (thread_cond E b k S) \<or> ?Q (thread_cond E b k S)")
proof -
  obtain t p where n: "next_target (cs_ops S) (cs_blocks S) (Some t0) = Some (t, p)" and f: "found_from (cs_ops S) (cs_blocks S) t0 t p"
    using next_target_found [OF s b] by blast
  let ?o1 = "cs_ops S ! k" and ?tg = "cs_ops S ! p" and ?tb = "blk S t" and ?S2 = "set_op k (with_result (cs_ops S ! p)) S"
  let ?same = "tests_var E (op1 ?o1) (VAR_NUM_EX E (op1 ?o1)) (op1 ?tg)"
  let ?R = "\<lambda>r. ?P r \<or> ?Q r"
  have K: "?same \<Longrightarrow> tested E ?o1 (op1 ?tg)" by (simp add: tests_var_def tested_def)
  note test = retarget_test [OF s(1) b f, where K = "tested E ?o1" and v = "opcode ?o1 = ZEND_JMPNZ", folded threaded_def, THEN disjI1]
  have c1: "?R (retarget2 b (\<lambda>S. follow_to (blk S t)) S)" if "opcode ?tg = INV_COND (opcode ?o1)" ?same "follow_to ?tb \<noteq> None"
    by (rule test) (use that K k found_cond [OF s(2) f] in \<open>auto simp: goes_to_def ex_jumps_def INV_COND_def split: if_splits\<close>)
  have c2: "?R (retarget2 b (\<lambda>S. follow_to (blk S t)) ?S2)" if a: "opcode ?tg = INV_COND_EX (opcode ?o1)" ?same "follow_to ?tb \<noteq> None"
  proof -
    have ex: "opcode ?tg \<in> ex_jumps" using a(1) by (simp add: INV_COND_EX_def ex_jumps_def split: if_splits)
    then have t: "op2_to ?tb \<noteq> None" "is_temp (result ?tg)" "t < length (cs_blocks S)" "placed (length (cs_ops S)) ?tb"
      "first_op (cs_ops S) ?tb = Some (Some p)" using found_cond [OF s(2) f] f by (simp_all add: found_from_def)
    obtain u where u: "follow_to ?tb = Some u" using a(3) by blast
    let ?K = "tested E (with_result ?tg ?o1)"
    have "opcode (with_result ?tg ?o1) \<in> ex_jumps" using k by (auto simp: with_result_def ex_jumps_def)
    then have K2: "?K (op1 ?tg)" "?K (result ?tg)"
      using a(2) t(2) by (auto simp: with_result_def tested_def tests_var_def)
    have "goes_to (opcode ?tg) (opcode ?o1 = ZEND_JMPNZ) ?tb = Some u"
      using a(1) k u by (auto simp: goes_to_def INV_COND_EX_def)
    from Leads_Test [OF t(5), of ?K, OF K2 this Leads_Here]
    have l: "leads (cs_ops S) (cs_blocks S) ?K (opcode ?o1 = ZEND_JMPNZ) t0 u" using f by (simp add: found_from_def)
    have "\<exists>S'. retarget2 b (\<lambda>S. follow_to (blk S t)) ?S2 = Some S' \<and> op2_to (blk S' b) = Some u"
      by (rule retarget_to) (use s(1) b t u in \<open>simp_all add: succs_simps same_targets_def\<close>)
    then have "threaded S b ?K (opcode ?o1 = ZEND_JMPNZ) t0 (retarget2 b (\<lambda>S. follow_to (blk S t)) ?S2)"
      using l unfolding threaded_def by blast
    then show ?thesis using n by blast
  qed
  have c3: "?R (retarget2 b (\<lambda>S. op2_to (blk S t)) S)" if "op2_to ?tb \<noteq> None" "opcode ?tg = opcode ?o1" ?same
    by (rule test) (use that K k in \<open>auto simp: goes_to_def ex_jumps_def\<close>)
  have c4: "?R (retarget2 b (\<lambda>S. op1_to (blk S t)) S)" if "op1_to ?tb \<noteq> None" "opcode ?tg = ZEND_JMP"
    by (rule retarget_jmp [OF s(1) b f that, folded threaded_def, THEN disjI1])
  have c5: "?R (retarget2 b (\<lambda>S. if opcode ?o1 = ZEND_JMPZ then op2_to (blk S t) else ext_to (blk S t)) S)"
    if "op2_to ?tb \<noteq> None" "ext_to ?tb \<noteq> None" "opcode ?tg = ZEND_JMPZNZ" ?same
  proof (cases "opcode ?o1 = ZEND_JMPZ")
    case True
    have "?R (retarget2 b (\<lambda>S. op2_to (blk S t)) S)"
      by (rule test) (use that K k True in \<open>auto simp: goes_to_def ex_jumps_def\<close>)
    then show ?thesis by (simp only: True if_True simp_thms)
  next
    case False
    have "?R (retarget2 b (\<lambda>S. ext_to (blk S t)) S)"
      by (rule test) (use that K k False in \<open>auto simp: goes_to_def ex_jumps_def\<close>)
    then show ?thesis by (simp only: False if_False simp_thms)
  qed
  have c6: "?R (Some S)" by (rule not_retargeted [OF b(3), folded threaded_def, THEN disjI1])
  have eq: "thread_cond E b k S =
    (if opcode ?tg = INV_COND (opcode ?o1) \<and> ?same \<and> follow_to ?tb \<noteq> None \<and> \<not> protected ?tb then retarget2 b (\<lambda>S. follow_to (blk S t)) S
     else if opcode ?tg = INV_COND_EX (opcode ?o1) \<and> ?same \<and> follow_to ?tb \<noteq> None \<and> \<not> protected ?tb
     then retarget2 b (\<lambda>S. follow_to (blk S t)) ?S2
     else if op2_to ?tb \<noteq> None \<and> opcode ?tg = opcode ?o1 \<and> ?same \<and> \<not> protected ?tb then retarget2 b (\<lambda>S. op2_to (blk S t)) S
     else if op1_to ?tb \<noteq> None \<and> opcode ?tg = ZEND_JMP \<and> \<not> protected ?tb then retarget2 b (\<lambda>S. op1_to (blk S t)) S
     else if op2_to ?tb \<noteq> None \<and> ext_to ?tb \<noteq> None \<and> opcode ?tg = ZEND_JMPZNZ \<and> ?same \<and> \<not> protected ?tb
     then retarget2 b (\<lambda>S. if opcode ?o1 = ZEND_JMPZ then op2_to (blk S t) else ext_to (blk S t)) S
     else Some S)"
    by (simp only: thread_cond_def with_result_fun Let_def b(3) n Option.bind.simps prod.case option.simps if_False)
  show ?thesis unfolding eq
    by (intro if_both [where P = ?R]; (elim conjE)?; (rule c6 | rule c1 c2 c3 c4 c5; assumption))
qed

lemma known_tested:
  assumes "known_var E [op1 o1, result o1] z" "opcode o1 \<in> ex_jumps" "is_temp (result o1)" "\<not> ext_unused (result o1)" "\<not> ext_unused (op1 o1)"
  shows "tested E o1 z"
proof -
  consider "VAR_NUM_EX E (op1 o1) = VAR_NUM_EX E z" "op_ty (op1 o1) = op_ty z" | "VAR_NUM_EX E (result o1) = VAR_NUM_EX E z" "op_ty (result o1) = op_ty z"
    using assms(1,4,5) unfolding known_var_def by auto
  then show ?thesis
  proof cases
    case 1
    then show ?thesis by (simp add: tested_def)
  next
    case 2
    then have "is_temp z" using assms(3) by (simp add: is_temp_def)
    then show ?thesis using 2 assms(2,3) by (simp add: tested_def VAR_NUM_EX_def)
  qed
qed

text \<open>The variables that conditional instructions test or set have a number below \<open>var_num\<close>.\<close>

definition vars_below :: "var_enc \<Rightarrow> nat \<Rightarrow> zend_op list \<Rightarrow> bool" where
  "vars_below E n ops \<longleftrightarrow> (\<forall>x \<in> set ops. (op_ty (op1 x) \<in> {IS_TMP_VAR, IS_CV} \<longrightarrow> VAR_NUM_EX E (op1 x) < n)
     \<and> (opcode x \<in> ex_jumps \<longrightarrow> VAR_NUM_EX E (result x) < n))"

lemma found_inside:
  assumes "found_from ops bs t0 t p"
  shows "ops ! p \<in> set ops"
proof -
  have f: "first_op ops (bs ! t) = Some (Some p)" using assms by (simp add: found_from_def)
  then obtain s where "code_pos (bs ! t) = Some s" "\<not> length ops < s + block_len (bs ! t)"
    "find (\<lambda>p. opcode (ops ! p) \<noteq> ZEND_NOP) [s..<s + block_len (bs ! t)] = Some p"
    by (auto simp: first_op_def split: if_splits Option.bind_splits)
  then have "p < length ops" by (auto simp: find_Some_iff)
  then show ?thesis by simp
qed

lemma thread_ex_sound:
  assumes s: "links_ok (length (cs_ops S)) (cs_blocks S)" "jumps_ok (cs_ops S) (cs_blocks S)"
    and b: "b < length (cs_blocks S)" "placed (length (cs_ops S)) (blk S b)" "op2_to (blk S b) = Some t0"
    and k: "opcode (cs_ops S ! k) \<in> ex_jumps"
    and r: "is_temp (result (cs_ops S ! k))" "\<not> ext_unused (result (cs_ops S ! k))" "\<not> ext_unused (op1 (cs_ops S ! k))"
    and vb: "vars_below E (max (T_num (cs_code S)) (length (cvars (cs_code S)))) (cs_ops S)"
    and v: "VAR_NUM_EX E (op1 (cs_ops S ! k)) < max (T_num (cs_code S)) (length (cvars (cs_code S)))"
      "VAR_NUM_EX E (result (cs_ops S ! k)) < max (T_num (cs_code S)) (length (cvars (cs_code S)))"
  shows "threaded S b (tested E (cs_ops S ! k)) (opcode (cs_ops S ! k) = ZEND_JMPNZ_EX) t0 (thread_cond_ex E b k S)"
proof -
  obtain t p where n: "next_target (cs_ops S) (cs_blocks S) (Some t0) = Some (t, p)" and f: "found_from (cs_ops S) (cs_blocks S) t0 t p"
    using next_target_found [OF s b] by blast
  let ?o1 = "cs_ops S ! k" and ?tg = "cs_ops S ! p" and ?tb = "blk S t"
  let ?v = "opcode ?o1 = ZEND_JMPNZ_EX"
  let ?P = "threaded S b (tested E ?o1) ?v t0"
  let ?known = "op_ty (op1 ?tg) \<in> {IS_TMP_VAR, IS_CV} \<and> known_var E [op1 ?o1, result ?o1] (op1 ?tg)"
  let ?sets = "known_var E [op1 ?o1, result ?o1] (result ?tg)"
  have K: "?known \<Longrightarrow> tested E ?o1 (op1 ?tg)" "?sets \<Longrightarrow> tested E ?o1 (result ?tg)"
    using known_tested [OF _ k r] by blast+
  have k2: "opcode ?o1 = ZEND_JMPZ_EX \<or> opcode ?o1 = ZEND_JMPNZ_EX" using k by (simp add: ex_jumps_def)
  note test = retarget_test [OF s(1) b f, where K = "tested E ?o1" and v = ?v, folded threaded_def]
  note fo = found_cond [OF s(2) f]
  have c1: "?P (retarget2 b (\<lambda>S. op2_to (blk S t)) S)" if "op2_to ?tb \<noteq> None" "opcode ?tg = opcode ?o1 - 3" ?known
    by (rule test) (use that K(1) k2 in \<open>auto simp: goes_to_def ex_jumps_def\<close>)
  have c2: "?P (retarget2 b (\<lambda>S. follow_to (blk S t)) S)" if "op2_to ?tb \<noteq> None" "opcode ?tg = INV_EX_COND (opcode ?o1)" ?known
    by (rule test) (use that K(1) k2 fo in \<open>auto simp: goes_to_def ex_jumps_def INV_EX_COND_def split: if_splits\<close>)
  have c3: "?P (retarget2 b (\<lambda>S. follow_to (blk S t)) S)" if "op2_to ?tb \<noteq> None" "opcode ?tg = INV_EX_COND_EX (opcode ?o1)" ?known ?sets
    by (rule test) (use that K k2 fo in \<open>auto simp: goes_to_def ex_jumps_def INV_EX_COND_EX_def split: if_splits\<close>)
  have c4: "?P (retarget2 b (\<lambda>S. op2_to (blk S t)) S)" if "op2_to ?tb \<noteq> None" "opcode ?tg = opcode ?o1" ?known ?sets
    by (rule test) (use that K k2 in \<open>auto simp: goes_to_def ex_jumps_def\<close>)
  have c5: "?P (retarget2 b (\<lambda>S. op1_to (blk S t)) S)" if "op1_to ?tb \<noteq> None" "opcode ?tg = ZEND_JMP"
    by (rule retarget_jmp [OF s(1) b f that, folded threaded_def])
  have c6: "?P (retarget2 b (\<lambda>S. if opcode ?o1 = ZEND_JMPZ_EX then op2_to (blk S t) else ext_to (blk S t)) S)"
    if "op2_to ?tb \<noteq> None" "ext_to ?tb \<noteq> None" "opcode ?tg = ZEND_JMPZNZ" ?known
  proof (cases "opcode ?o1 = ZEND_JMPZ_EX")
    case True
    have "?P (retarget2 b (\<lambda>S. op2_to (blk S t)) S)"
      by (rule test) (use that K(1) True in \<open>auto simp: goes_to_def ex_jumps_def\<close>)
    then show ?thesis by (simp only: True if_True simp_thms)
  next
    case False
    have "?P (retarget2 b (\<lambda>S. ext_to (blk S t)) S)"
      by (rule test) (use that K(1) k2 False in \<open>auto simp: goes_to_def ex_jumps_def\<close>)
    then show ?thesis by (simp only: False if_False simp_thms)
  qed
  have c7: "?P (Some S)" by (rule not_retargeted [OF b(3), folded threaded_def])
  have v0: "(max (T_num (cs_code S)) (length (cvars (cs_code S))) = 0) = False" using v(1) gr_implies_not0 by blast
  have oc3: "opcode ?tg \<in> {INV_EX_COND_EX (opcode ?o1), opcode ?o1} \<Longrightarrow> opcode ?tg \<in> ex_jumps"
    using k by (auto simp: ex_jumps_def INV_EX_COND_EX_def)
  have inside: "(op_ty (op1 ?tg) \<in> {IS_TMP_VAR, IS_CV} \<and> op2_to ?tb \<noteq> None
        \<and> (opcode ?tg \<in> {opcode ?o1 - 3, INV_EX_COND (opcode ?o1), INV_EX_COND_EX (opcode ?o1), opcode ?o1}
           \<or> ext_to ?tb \<noteq> None \<and> opcode ?tg = ZEND_JMPZNZ)
      \<and> (\<not> VAR_NUM_EX E (op1 ?tg) < max (T_num (cs_code S)) (length (cvars (cs_code S)))
         \<or> opcode ?tg \<in> {INV_EX_COND_EX (opcode ?o1), opcode ?o1} \<and> ?known
           \<and> \<not> VAR_NUM_EX E (result ?tg) < max (T_num (cs_code S)) (length (cvars (cs_code S))))) = False"
    using vb found_inside [OF f] oc3 unfolding vars_below_def by blast
  have eq: "thread_cond_ex E b k S =
    (if op2_to ?tb \<noteq> None \<and> opcode ?tg = opcode ?o1 - 3 \<and> ?known \<and> \<not> protected ?tb then retarget2 b (\<lambda>S. op2_to (blk S t)) S
     else if op2_to ?tb \<noteq> None \<and> opcode ?tg = INV_EX_COND (opcode ?o1) \<and> ?known \<and> \<not> protected ?tb then retarget2 b (\<lambda>S. follow_to (blk S t)) S
     else if op2_to ?tb \<noteq> None \<and> opcode ?tg = INV_EX_COND_EX (opcode ?o1) \<and> ?known \<and> ?sets \<and> \<not> protected ?tb then retarget2 b (\<lambda>S. follow_to (blk S t)) S
     else if op2_to ?tb \<noteq> None \<and> opcode ?tg = opcode ?o1 \<and> ?known \<and> ?sets \<and> \<not> protected ?tb then retarget2 b (\<lambda>S. op2_to (blk S t)) S
     else if op1_to ?tb \<noteq> None \<and> opcode ?tg = ZEND_JMP \<and> \<not> protected ?tb then retarget2 b (\<lambda>S. op1_to (blk S t)) S
     else if op2_to ?tb \<noteq> None \<and> ext_to ?tb \<noteq> None \<and> opcode ?tg = ZEND_JMPZNZ \<and> ?known \<and> \<not> protected ?tb
     then retarget2 b (\<lambda>S. if opcode ?o1 = ZEND_JMPZ_EX then op2_to (blk S t) else ext_to (blk S t)) S
     else Some S)"
    using inside
    by (simp only: thread_cond_ex_def Let_def b(3) n v v0 Option.bind.simps prod.case option.simps simp_thms if_False conj_assoc)
  show ?thesis unfolding eq
    by (intro if_both [where P = ?P]; (elim conjE)?; (rule c7 | (rule c1 c2 c3 c4 c5 c6; (intro conjI)?; assumption)))
qed

text \<open>C36. In a graph with exact references and complete conditional jumps (\<open>sound_graph\<close>) the new target
  of a conditional jump is reached from the old one by NOPs, jumps and tests whose outcome the jump
  has determined, and the change returns. A JMPZ or JMPNZ may take over the result of the test it
  skips; for JMPZ_EX and JMPNZ_EX the result is a temporary and the variables of the code fit the
  table the pass allocates; the variables of a JMPZNZ are numbered below 256, since the pass
  compares one byte of their numbers.
\<close>

theorem jump_threading_sound:
  assumes s: "sound_graph (cs_ops S) (cs_blocks S)"
    and b: "b < length (cs_blocks S)" "placed (length (cs_ops S)) (blk S b)" "op2_to (blk S b) = Some t0" and o1: "o1 = cs_ops S ! k"
  shows "(opcode o1 \<in> {ZEND_JMPZ, ZEND_JMPNZ} \<longrightarrow>
      threaded S b (tested E o1) (opcode o1 = ZEND_JMPNZ) t0 (thread_cond E b k S)
      \<or> (\<exists>u p. next_target (cs_ops S) (cs_blocks S) (Some t0) = Some (u, p)
          \<and> thread_cond E b k S = retarget2 b (\<lambda>S. follow_to (blk S u)) (set_op k (with_result (cs_ops S ! p)) S)
          \<and> threaded S b (tested E (with_result (cs_ops S ! p) o1)) (opcode o1 = ZEND_JMPNZ) t0 (thread_cond E b k S)))
    \<and> (opcode o1 \<in> ex_jumps \<and> is_temp (result o1) \<and> \<not> ext_unused (result o1) \<and> \<not> ext_unused (op1 o1)
        \<and> vars_below E (max (T_num (cs_code S)) (length (cvars (cs_code S)))) (cs_ops S)
        \<and> (\<forall>z \<in> {op1 o1, result o1}. VAR_NUM_EX E z < max (T_num (cs_code S)) (length (cvars (cs_code S)))) \<longrightarrow>
      threaded S b (tested E o1) (opcode o1 = ZEND_JMPNZ_EX) t0 (thread_cond_ex E b k S))
    \<and> (opcode o1 = ZEND_JMPZNZ \<and> VAR_NUM_EX E (op1 o1) < 256 \<longrightarrow> threaded S b (tested E o1) False t0 (thread_znz E b k S))"
proof -
  have s2: "links_ok (length (cs_ops S)) (cs_blocks S)" "jumps_ok (cs_ops S) (cs_blocks S)" using s by (simp_all add: sound_graph_def)
  show ?thesis unfolding o1
    by (intro conjI impI thread_cond_sound [OF s2 b] thread_ex_sound [OF s2 b] thread_znz_sound [OF s2 b]) auto
qed

text \<open>A JMPZ that leads to another test of its variable.\<close>

definition demo_threads :: "unit cfg_state" where
  "demo_threads =
     (case find_code_blocks (code_of
        [(plain ZEND_JMPZ)\<lparr>op1 := node IS_CV 0, op2 := node IS_UNUSED 3\<rparr>,
         (plain ZEND_ECHO)\<lparr>op1 := node IS_CONST 0\<rparr>,
         plain ZEND_RETURN,
         (plain ZEND_JMPZ)\<lparr>op1 := node IS_CV 0, op2 := node IS_UNUSED 6\<rparr>,
         (plain ZEND_ECHO)\<lparr>op1 := node IS_CONST 1\<rparr>,
         plain ZEND_RETURN,
         plain ZEND_RETURN] [ZSTRING ''a'', ZSTRING ''b'']) of
        Some (Some (oa, cfg)) \<Rightarrow>
          (case zend_rebuild_access_path cfg oa False of
             Some cfg1 \<Rightarrow> \<lparr>cs_code = oa, cs_blocks = blocks cfg1\<rparr> | None \<Rightarrow> \<lparr>cs_code = oa, cs_blocks = []\<rparr>)
      | _ \<Rightarrow> \<lparr>cs_code = code_of [] [], cs_blocks = []\<rparr>)"

lemma all_below: "(\<forall>t < (n::nat). P t) = list_all P [0..<n]"
  by (auto simp: list_all_iff)

lemmas links_ok_code [code] = links_ok_def [unfolded all_below]
lemmas jumps_ok_code [code] = jumps_ok_def [unfolded all_below]

lemma demo_threads_sound: "sound_graph (cs_ops demo_threads) (cs_blocks demo_threads)"
  by code_simp

lemma jump_threading_sound_witness:
  "\<forall>E. threaded demo_threads 0 (tested E (cs_ops demo_threads ! 0)) False 3 (thread_cond E 0 0 demo_threads)
   \<and> map_option (\<lambda>S. op2_to (blk S 0)) (thread_cond E 0 0 demo_threads) = Some (Some 6)"
proof (intro allI conjI)
  fix E
  have b: "0 < length (cs_blocks demo_threads)" "placed (length (cs_ops demo_threads)) (blk demo_threads 0)"
    "op2_to (blk demo_threads 0) = Some 3" "opcode (cs_ops demo_threads ! 0) = ZEND_JMPZ" by code_simp+
  show six: "map_option (\<lambda>S. op2_to (blk S 0)) (thread_cond E 0 0 demo_threads) = Some (Some 6)" by code_simp
  have n: "next_target (cs_ops demo_threads) (cs_blocks demo_threads) (Some 3) = Some (3, 3)" by code_simp
  have "map_option (\<lambda>S. op2_to (blk S 0))
      (retarget2 0 (\<lambda>S. follow_to (blk S 3)) (set_op 0 (with_result (cs_ops demo_threads ! 3)) demo_threads)) = Some (Some 4)"
    by code_simp
  then have "thread_cond E 0 0 demo_threads
      \<noteq> retarget2 0 (\<lambda>S. follow_to (blk S 3)) (set_op 0 (with_result (cs_ops demo_threads ! 3)) demo_threads)"
    using six by auto
  with jump_threading_sound [OF demo_threads_sound b(1-3) refl, of 0 E] b(4) n
  show "threaded demo_threads 0 (tested E (cs_ops demo_threads ! 0)) False 3 (thread_cond E 0 0 demo_threads)" by auto
qed

end
