(* ===== verification/Spec2Isabelle.thy ===== *)
theory Spec2Isabelle
  imports Accel_Hash Checksum Nop_Removal Pass1 Pass2 Interned Persist_Size Accel_State Locks Cache Keys Compile Blacklist Hooks
    Temp_Vars Blocks_Assemble Block_Opt Block_Threads
begin

text \<open>
  Zend OPcache (\<open>ZendOptimizerPlus\<close>) is an extension of PHP that keeps compiled scripts in memory
  shared by the processes of a server. A process that wants to run a file looks it up by a key; on
  a hit it uses the compiled script in the shared memory, on a miss it compiles the file, runs the
  optimizer over the code, and copies the result into the shared memory. Memory is never freed one
  by one: scripts that go out of date are counted as waste, and when there is too much of it, or no
  memory is left, the cache is restarted, which needs all processes to leave the memory.

  \<^bold>\<open>Configuration.\<close> 64-bit Linux, a PHP 5.5 without threads, shared memory by \<open>mmap\<close>, and locks
  by \<open>fcntl\<close>; other branches of the preprocessor are not modelled. The engine (opcode handlers,
  type conversions, stream wrappers, the compiler, the hash function), the C library and the
  operating system are parameters: fields of the records \<open>php\<close>, \<open>cache_env\<close>, \<open>penv\<close>, \<open>engine\<close>,
  \<open>accel_request\<close>, \<open>handler\<close> and arguments of functions.

  \<^bold>\<open>The theories\<close>, in the order they build on each other:

  \<^item> \<open>Prelude\<close>: machine integers, the log levels (\<open>zend_accelerator_debug.c\<close>: which calls of
    \<open>zend_accel_error\<close> return), lemmas on lists.
  \<^item> \<open>Shared_Alloc\<close> (\<open>zend_shared_alloc.c\<close>): the segments and the allocator; blocks are aligned,
    inside a segment, zeroed and disjoint; saving and restoring the positions.
  \<^item> \<open>Accel_Hash\<close> (\<open>zend_accelerator_hash.c\<close>): the hash table with its chains and alias entries;
    each operation against the map from keys to data that a look-up sees.
  \<^item> \<open>Checksum\<close> (\<open>zend_accelerator_util_funcs.c\<close>): the unrolled Adler-32 against its definition.
  \<^item> \<open>Op_Array\<close>, \<open>Vm\<close>: the code of a function, and a machine for it that is parameterised by the
    opcode handlers. \<open>Nop_Removal\<close>, \<open>Pass1\<close>, \<open>Pass2\<close>, \<open>Pass3\<close>, \<open>Temp_Vars\<close>
    (\<open>Optimizer/nop_removal.c\<close>, \<open>pass1_5.c\<close> with \<open>zend_optimizer.c\<close>, \<open>pass2.c\<close>, \<open>pass3.c\<close>,
    \<open>optimize_temp_vars_5.c\<close>): the passes of the optimizer, with termination of the jump loops. What
    is proved to keep the behaviour of the code on that machine: the removal of NOPs, for code without
    GOTO; pass 2, for code in which no two instructions share a literal and for an engine whose
    operators agree with the conversions; the jump rewrites of pass 3, for code without the
    instructions of its other rewrites (binary operations, increments) and with conditions on its
    JMPZ_EX and JMPNZ_EX. On a machine with values in temporaries: the folding of one instruction
    in pass 1, and pass 9.
  \<^item> \<open>Blocks\<close>, \<open>Blocks_Graph\<close>, \<open>Blocks_Assemble\<close> (\<open>Optimizer/block_pass.c\<close>): the control flow graph
    of pass 5. Splitting code into blocks, marking those that can be reached (against reachability
    in the graph), and writing them back without the rest, which keeps the behaviour of code
    without finally blocks whose try regions are reached through their start.
  \<^item> \<open>Block_Jumps\<close>, \<open>Block_Opt\<close> (\<open>Optimizer/block_pass.c\<close>): the rest of pass 5 and the pass as a
    whole: the jumps at the ends of blocks (\<open>zend_jmp_optimization\<close>), the patterns inside a block
    (\<open>zend_optimize_block\<close>), the usage of temporaries (\<open>zend_t_usage\<close>) and the three rounds over
    the blocks; with code that the pass gets wrong, evaluated on the whole pass. \<open>Block_Threads\<close>: the
    new target of a conditional jump is one that the old target leads to, in sound graphs.
  \<^item> \<open>Interned\<close> (\<open>ZendAccelerator.c\<close>): interned strings in the shared memory. The saved state is the
    pointers the code saves; that they are enough to restore the chains rests on insertion at the head.
  \<^item> \<open>Persist\<close>, \<open>Persist_Size\<close> (\<open>zend_persist_calc.c\<close>, \<open>zend_persist.c\<close>): computing the size of a
    compiled script and copying it; the copy uses exactly the computed size.
  \<^item> \<open>Accel_State\<close>, \<open>Locks\<close> (\<open>ZendAccelerator.c\<close>): the global state, scheduling and doing a restart;
    the lock protocol of any number of processes as a step relation whose steps are single accesses to
    flags and locks.
  \<^item> \<open>Cache\<close>, \<open>Keys\<close>, \<open>Compile\<close>, \<open>Hooks\<close> (\<open>ZendAccelerator.c\<close>): storing a script under its path
    and key, making keys, serving a request (\<open>persistent_compile_file\<close>), and the hooks for
    \<open>include_once\<close>.
  \<^item> \<open>Blacklist\<close> (\<open>zend_accelerator_blacklist.c\<close>): reading a blacklist and the regular expressions
    made from it, against a direct matcher.

  \<^bold>\<open>How they interact.\<close> \<open>Compile\<close> calls \<open>Keys\<close> for the key, \<open>Accel_Hash\<close> for the look-up, and on a
  miss \<open>Cache\<close>, which calls \<open>Persist\<close> (with \<open>Interned\<close> and the translation table), \<open>Shared_Alloc\<close>
  and \<open>Accel_Hash\<close>, and \<open>Accel_State\<close> to schedule a restart when memory runs out. The state is
  \<open>process\<close>: the globals of the process and the shared \<open>cache\<close> (the scripts by address, the
  memory, \<open>accel_shared_globals\<close> with the table, the allocator and the interned strings). The
  contract of the hash table with its clients is the locale \<open>shared_index\<close>, that of the allocator
  the locale \<open>block_allocator\<close>; both are interpreted on the code's definitions in the theory that
  provides them.

  \<^bold>\<open>Errors.\<close> A call that does not return (\<open>zend_bailout\<close>, \<open>exit\<close>), a loop that does not end, an
  access through a null pointer or outside of an array is a value of \<open>stop\<close>, or \<open>None\<close> where there is
  only one. Loops that may not end are partial functions whose termination is a lemma where it
  holds (chains of the hash table under its invariant, the jump loops of pass 3) and whose
  divergence is a lemma where it does not (JMP_SET cycles, long blacklist entries,
  \<open>kill_all_lockers\<close>). No fuel is used.

  \<^bold>\<open>Not modelled.\<close> The back ends of the shared memory (\<open>shared_alloc_*.c\<close>) and the start-up and
  shutdown of the extension, which are calls of the operating system and the engine; the user
  functions and ini settings of \<open>zend_accelerator_module.c\<close>; the functions of \<open>zend_accelerator_util_funcs.c\<close> that
  copy a script's functions and classes into the engine's tables; freeing of process memory.
\<close>

section \<open>The blacklist and the cache\<close>

lemma loaded_blacklist:
  assumes lines: "\<forall>l \<in> set ls. parse_line l \<noteq> Negative_Length"
    and fit: "\<forall>e \<in> set (bl_entries B @ lines_entries expand ls). fits e"
    and load: "zend_accel_blacklist_loadone v expand (Some ls) B = Some (Inr B')"
    and e: "e \<in> set (bl_entries B @ lines_entries expand ls)" "glob_prefix e p"
  shows "zend_accel_blacklist_is_blacklisted B' p"
proof -
  obtain B1 where B1: "load_lines expand ls B = Inr B1" "bl_entries B1 = bl_entries B @ lines_entries expand ls"
    using load_lines_ok [OF lines] by blast
  then have "bl_entries B1 \<noteq> []" using e(1) by auto
  then show ?thesis
    using update_blacklist_ok [of B1 v] fit load e B1 by (auto simp: zend_accel_blacklist_loadone_def)
qed

text \<open>C33. A miss for an open file whose path a loaded blacklist covers is answered without the
  cache; nothing in the process or the shared memory changes but the two counters of misses (that of
  the blacklist is not reached when the memory is exhausted or a restart is pending).\<close>

theorem blacklisted_file_not_cached:
  assumes lines: "\<forall>l \<in> set ls. parse_line l \<noteq> Negative_Length"
    and fit: "\<forall>e \<in> set (bl_entries B @ lines_entries expand ls). fits e"
    and load: "zend_accel_blacklist_loadone v expand (Some ls) B = Some (Inr B')"
    and P: "is_blacklisted P = zend_accel_blacklist_is_blacklisted B'"
    and e: "e \<in> set (bl_entries B @ lines_entries expand ls)" "glob_prefix e p"
    and fh: "opened_path fh = Some p" "fh_type fh \<noteq> ZEND_HANDLE_FILENAME"
  shows "cache_miss E P require fh W = Inr (Uncached, with_shared ((shared W)\<lparr>misses := misses (shared W) + 1,
    blacklist_misses := blacklist_misses (shared W)
      + of_bool (\<not> memory_exhausted (smm (shared W)) \<and> \<not> restart_pending (shared W))\<rparr>) W)"
proof -
  have "zend_accel_blacklist_is_blacklisted B' p" by (rule loaded_blacklist [OF lines fit load e])
  then show ?thesis
    using P fh by (simp add: cache_miss_def compile_and_cache_file_def compile_opened_file_def Let_def with_shared_def split: prod.split)
qed

lemma blacklisted_file_not_cached_witness:
  "\<forall>h. \<exists>B' W'. zend_accel_blacklist_loadone 1 (\<lambda>p. p) (Some demo_lines) zend_accel_blacklist_init = Some (Inr B')
    \<and> cache_miss (demo_every 2) (demo_php\<lparr>is_blacklisted := zend_accel_blacklist_is_blacklisted B'\<rparr>) False
        ((demo_file ''/a/x.php'')\<lparr>opened_path := Some ''/a/x.php'', fh_type := ZEND_HANDLE_FP\<rparr>) (demo_proc h) = Inr (Uncached, W')"
proof (rule allI)
  fix h
  have lines: "\<forall>l \<in> set demo_lines. parse_line l \<noteq> Negative_Length"
    by (simp add: demo_lines_def parse_line_def strip_end_def Let_def)
  have fit: "\<forall>e \<in> set (bl_entries zend_accel_blacklist_init @ lines_entries (\<lambda>p. p) demo_lines). fits e"
    by (simp add: demo_entries zend_accel_blacklist_init_def fits_def buffer_end_def buffer_size_def translate_char_def special_def)
  have e: "''/a/*.php'' \<in> set (bl_entries zend_accel_blacklist_init @ lines_entries (\<lambda>p. p) demo_lines)"
    by (simp add: demo_entries)
  obtain B1 where B1: "load_lines (\<lambda>p. p) demo_lines zend_accel_blacklist_init = Inr B1"
    "bl_entries B1 = bl_entries zend_accel_blacklist_init @ lines_entries (\<lambda>p. p) demo_lines" using load_lines_ok [OF lines] by blast
  then have "bl_entries B1 \<noteq> []" using e by auto
  then obtain B' where load: "zend_accel_blacklist_loadone 1 (\<lambda>p. p) (Some demo_lines) zend_accel_blacklist_init = Some (Inr B')"
    using update_blacklist_ok [of B1 1] fit B1 by (auto simp: zend_accel_blacklist_loadone_def)
  let ?P = "demo_php\<lparr>is_blacklisted := zend_accel_blacklist_is_blacklisted B'\<rparr>"
  let ?fh = "(demo_file ''/a/x.php'')\<lparr>opened_path := Some ''/a/x.php'', fh_type := ZEND_HANDLE_FP\<rparr>"
  have P: "is_blacklisted ?P = zend_accel_blacklist_is_blacklisted B'" "opened_path ?fh = Some ''/a/x.php''" "fh_type ?fh \<noteq> ZEND_HANDLE_FILENAME"
    by simp_all
  have m: "glob_prefix ''/a/*.php'' ''/a/x.php''" by code_simp
  from blacklisted_file_not_cached [OF lines fit load P(1) e m P(2,3), of "demo_every 2" False "demo_proc h"] load
  show "\<exists>B' W'. zend_accel_blacklist_loadone 1 (\<lambda>p. p) (Some demo_lines) zend_accel_blacklist_init = Some (Inr B')
    \<and> cache_miss (demo_every 2) (demo_php\<lparr>is_blacklisted := zend_accel_blacklist_is_blacklisted B'\<rparr>) False
        ((demo_file ''/a/x.php'')\<lparr>opened_path := Some ''/a/x.php'', fh_type := ZEND_HANDLE_FP\<rparr>) (demo_proc h) = Inr (Uncached, W')" by blast
qed

end
